(* ===== verification/Uvm_Prelude.thy ===== *)
theory Uvm_Prelude
  imports Main "HOL-Library.Word" "HOL-Library.Tree"
begin

text \<open>
  Shared vocabulary of the development: the driver's integer types, its status codes, the
  alignment and range helpers of \<^verbatim>\<open>uvm_common.h\<close>, and the generic facts about
  words and lists that the component theories use.
\<close>

unbundle bit_operations_syntax

named_theorems uvm_simps \<open>unfolding rules of the small driver helpers\<close>
named_theorems word_bound \<open>order facts on words next to a boundary\<close>

section \<open>Types of the driver\<close>

type_synonym NvU8 = "8 word"
type_synonym NvU16 = "16 word"
type_synonym NvU32 = "32 word"
type_synonym NvU64 = "64 word"

datatype NV_STATUS =
    NV_OK
  | NV_ERR_NO_MEMORY
  | NV_ERR_UVM_ADDRESS_IN_USE
  | NV_ERR_INVALID_STATE
  | NV_ERR_INVALID_ARGUMENT
  | NV_ERR_GENERIC
  | NV_ERR_TIMEOUT_RETRY
  | NV_ERR_RC_ERROR
  | NV_WARN_MORE_PROCESSING_REQUIRED

text \<open>The CPU pages of a VA block of 2 MB.\<close>

definition PAGE_SIZE :: nat where "PAGE_SIZE = 4096"
definition PAGES_PER_UVM_VA_BLOCK :: nat where "PAGES_PER_UVM_VA_BLOCK = 2 ^ 21 div PAGE_SIZE"

section \<open>Helpers of \<^verbatim>\<open>uvm_common.h\<close>\<close>

definition UVM_ALIGN_DOWN :: "NvU64 \<Rightarrow> NvU64 \<Rightarrow> NvU64" where
  "UVM_ALIGN_DOWN x a = x AND NOT (a - 1)"

definition UVM_ALIGN_UP :: "NvU64 \<Rightarrow> NvU64 \<Rightarrow> NvU64" where
  "UVM_ALIGN_UP x a = (x + a - 1) AND NOT (a - 1)"

definition uvm_ranges_overlap :: "NvU64 \<Rightarrow> NvU64 \<Rightarrow> NvU64 \<Rightarrow> NvU64 \<Rightarrow> bool" where
  "uvm_ranges_overlap a_start a_end b_start b_end \<longleftrightarrow> a_end \<ge> b_start \<and> b_end \<ge> a_start"

lemma uvm_ranges_overlap_iff:
  assumes "a \<le> b" and "c \<le> d"
  shows "uvm_ranges_overlap a b c d \<longleftrightarrow> (\<exists>x. a \<le> x \<and> x \<le> b \<and> c \<le> x \<and> x \<le> d)"
proof
  assume "uvm_ranges_overlap a b c d"
  with assms have "a \<le> max a c \<and> max a c \<le> b \<and> c \<le> max a c \<and> max a c \<le> d"
    by (auto simp: uvm_ranges_overlap_def)
  then show "\<exists>x. a \<le> x \<and> x \<le> b \<and> c \<le> x \<and> x \<le> d" by blast
next
  assume "\<exists>x. a \<le> x \<and> x \<le> b \<and> c \<le> x \<and> x \<le> d"
  then show "uvm_ranges_overlap a b c d"
    by (auto simp: uvm_ranges_overlap_def intro: order_trans)
qed

section \<open>Words next to a boundary\<close>

lemma le_minus_one_iff [word_bound]:
  fixes x y :: "'a::len word"
  assumes "z < y"
  shows "x \<le> y - 1 \<longleftrightarrow> x < y"
proof -
  have "y \<noteq> 0" using assms word_not_simps(1) by blast
  then have "unat (y - 1) = unat y - 1"
    by (simp add: unat_minus_one)
  moreover have "0 < unat y" using \<open>y \<noteq> 0\<close> by (simp add: unat_gt_0)
  ultimately show ?thesis
    by (auto simp: word_le_nat_alt word_less_nat_alt)
qed

lemma plus_one_le_iff [word_bound]:
  fixes x y :: "'a::len word"
  assumes "x < z"
  shows "x + 1 \<le> y \<longleftrightarrow> x < y"
  using assms word_n1_ge[of z] by (auto simp: inc_less_eq_iff)

lemma minus_one_plus_one [simp]: "(x :: 'a::len word) - 1 + 1 = x"
  by simp

lemma minus_one_less [word_bound]:
  fixes y :: "'a::len word"
  assumes "z < y"
  shows "y - 1 < y"
  using le_minus_one_iff[OF assms, of "y - 1"] by simp

lemma Icc_disjoint:
  fixes a b c d :: "'a::linorder"
  shows "b < c \<or> d < a \<Longrightarrow> {a..b} \<inter> {c..d} = {}"
  by (auto dest: order_le_less_trans order_less_le_trans)

section \<open>Alignment\<close>

lemma and_not_mask_eq: "x AND NOT (mask k) = push_bit k (drop_bit k (x :: 'a::len word))"
  by (auto simp: bit_eq_iff bit_simps)

lemma unat_and_not_mask:
  fixes x :: "'a::len word"
  shows "unat (x AND NOT (mask k)) = unat x div 2 ^ k * 2 ^ k"
proof -
  have "unat x div 2 ^ k * 2 ^ k \<le> unat x" by simp
  also have "unat x < 2 ^ LENGTH('a)" by (rule unsigned_less)
  finally have lt: "unat x div 2 ^ k * 2 ^ k < 2 ^ LENGTH('a)" .
  have "unat (push_bit k (drop_bit k x)) = take_bit LENGTH('a) (push_bit k (drop_bit k (unat x)))"
    by (simp only: unsigned_push_bit_eq unsigned_drop_bit_eq) (simp add: take_bit_nat_eq_self)
  also have "\<dots> = unat x div 2 ^ k * 2 ^ k"
    using lt by (simp add: push_bit_eq_mult drop_bit_eq_div take_bit_nat_eq_self)
  finally show ?thesis by (simp add: and_not_mask_eq)
qed


lemma pow2_minus_one: "(2 ^ k :: 'a::len word) - 1 = mask k"
  by (simp add: mask_eq_exp_minus_1)

lemma unat_pow2: "k < LENGTH('a) \<Longrightarrow> unat (2 ^ k :: 'a::len word) = 2 ^ k"
proof -
  assume "k < LENGTH('a)"
  have "(2 ^ k :: 'a word) = word_of_nat (2 ^ k)" by simp
  then have "unat (2 ^ k :: 'a word) = 2 ^ k mod 2 ^ LENGTH('a)" by (metis unat_of_nat)
  with \<open>k < LENGTH('a)\<close> show ?thesis by simp
qed

lemma UVM_ALIGN_UP_aligned: "2 ^ k dvd unat (UVM_ALIGN_UP x (2 ^ k))"
  by (simp add: UVM_ALIGN_UP_def pow2_minus_one unat_and_not_mask)

lemma UVM_ALIGN_UP_least:
  fixes x y :: NvU64
  assumes k: "k < 64" and al: "2 ^ k dvd unat y" and le: "x \<le> y"
  shows "x \<le> UVM_ALIGN_UP x (2 ^ k)" and "UVM_ALIGN_UP x (2 ^ k) \<le> y"
proof -
  define P :: nat where "P = 2 ^ k"
  have P0: "0 < P" by (simp add: P_def)
  from al obtain q where q: "unat y = P * q" by (auto simp: P_def)
  have dvd64: "P dvd 2 ^ 64" using k unfolding P_def by (intro le_imp_power_dvd) simp
  then obtain r where r: "(2::nat) ^ 64 = P * r" by (elim dvdE)
  have "unat y < 2 ^ 64" using unsigned_less[of y] by simp
  with q have "P * q < P * r" by (simp only: r)
  then have "q < r" using P0 by simp
  then have "P * (q + 1) \<le> P * r" by (intro mult_le_mono2) simp
  then have y_top: "unat y + P \<le> 2 ^ 64" using q r by (simp add: algebra_simps)
  have xy: "unat x \<le> unat y" using le by (simp add: word_le_nat_alt)
  have u2k: "unat (2 ^ k :: NvU64) = P" using k by (simp add: P_def unat_pow2)
  have pos: "(2 ^ k :: NvU64) \<noteq> 0" using k by simp
  have e: "x + 2 ^ k - 1 = x + mask k" by (metis add_diff_eq pow2_minus_one)
  have um: "unat (mask k :: NvU64) = P - 1"
    using u2k pos by (simp add: unat_minus_one flip: pow2_minus_one)
  have "unat (x + mask k) = unat x + (P - 1)"
    using xy y_top P0 um by (simp add: unat_plus_if')
  then have u: "unat (UVM_ALIGN_UP x (2 ^ k)) = (unat x + (P - 1)) div P * P"
    by (simp add: UVM_ALIGN_UP_def e pow2_minus_one unat_and_not_mask flip: P_def)
  have "(unat x + (P - 1)) div P \<le> q"
  proof -
    have "unat x + (P - 1) < P * (q + 1)" using xy q P0 by simp
    then have "(unat x + (P - 1)) div P < q + 1" using P0 by (simp add: less_mult_imp_div_less mult.commute)
    then show ?thesis by simp
  qed
  then have "unat (UVM_ALIGN_UP x (2 ^ k)) \<le> unat y" unfolding u q
    by (metis mult.commute mult_le_mono2)
  then show "UVM_ALIGN_UP x (2 ^ k) \<le> y" by (simp add: word_le_nat_alt)
  have "(unat x + (P - 1)) mod P \<le> P - 1" using mod_less_divisor[OF P0, of "unat x + (P - 1)"] by linarith
  then have "unat x \<le> (unat x + (P - 1)) div P * P"
    using div_mult_mod_eq[of "unat x + (P - 1)" P] by linarith
  then show "x \<le> UVM_ALIGN_UP x (2 ^ k)" using u by (simp add: word_le_nat_alt)
qed

section \<open>Lists\<close>

lemma sorted_wrt_nth_append:
  "sorted_wrt P (xs @ ys) \<longleftrightarrow>
     sorted_wrt P xs \<and> sorted_wrt P ys \<and> (\<forall>x\<in>set xs. \<forall>y\<in>set ys. P x y)"
  by (auto simp: sorted_wrt_append)

end
