(* ===== verification/Range_Tree.thy ===== *)
theory Range_Tree
  imports Uvm_Prelude
begin

text \<open>
  The range tree of \<^verbatim>\<open>uvm_range_tree.c\<close> and \<^verbatim>\<open>uvm_range_tree.h\<close>: disjoint inclusive
  ranges of 64-bit addresses kept both in a red-black tree and in a sorted list. Nodes are
  addresses of type \<open>'p\<close>; their \<^verbatim>\<open>start\<close> and \<^verbatim>\<open>end\<close> fields live in a store, since
  callers and the tree share them. The rebalancing of the kernel's red-black tree is not part of
  the repository: it is the argument \<open>rb_ops\<close>, and \<open>rb_ops_ok\<close> states what is relied on,
  that rotations keep the in-order sequence.
\<close>

section \<open>Data\<close>

record range_node =
  node_start :: NvU64
  node_end :: NvU64

record 'p range_tree =
  rb_root :: "'p tree"
  head :: "'p list"
  node_mem :: "'p \<Rightarrow> range_node"

record 'p rb_ops =
  rb_insert_color :: "'p \<Rightarrow> 'p tree \<Rightarrow> 'p tree"
  rb_erase :: "'p \<Rightarrow> 'p tree \<Rightarrow> 'p tree"

definition rb_ops_ok :: "'p rb_ops \<Rightarrow> bool" where
  "rb_ops_ok ops \<longleftrightarrow>
     (\<forall>p t. inorder (rb_insert_color ops p t) = inorder t) \<and>
     (\<forall>p t. distinct (inorder t) \<longrightarrow> p \<in> set_tree t \<longrightarrow>
        inorder (rb_erase ops p t) = remove1 p (inorder t))"

section \<open>Kernel lists and tree links\<close>

fun list_next :: "'p \<Rightarrow> 'p list \<Rightarrow> 'p option" where
  "list_next p (x # y # xs) = (if x = p then Some y else list_next p (y # xs))"
| "list_next p xs = None"

fun list_prev :: "'p \<Rightarrow> 'p list \<Rightarrow> 'p option" where
  "list_prev p (x # y # xs) = (if y = p then Some x else list_prev p (y # xs))"
| "list_prev p xs = None"

fun list_add_after :: "'p \<Rightarrow> 'p \<Rightarrow> 'p list \<Rightarrow> 'p list" where
  "list_add_after p n [] = []"
| "list_add_after p n (x # xs) = (if x = p then x # n # xs else x # list_add_after p n xs)"

fun list_add_before :: "'p \<Rightarrow> 'p \<Rightarrow> 'p list \<Rightarrow> 'p list" where
  "list_add_before p n [] = []"
| "list_add_before p n (x # xs) = (if x = p then n # x # xs else x # list_add_before p n xs)"

fun rb_link_left :: "'p \<Rightarrow> 'p \<Rightarrow> 'p tree \<Rightarrow> 'p tree" where
  "rb_link_left parent n Leaf = Leaf"
| "rb_link_left parent n (Node l q r) =
     (if q = parent then Node (Node Leaf n Leaf) q r
      else Node (rb_link_left parent n l) q (rb_link_left parent n r))"

fun rb_link_right :: "'p \<Rightarrow> 'p \<Rightarrow> 'p tree \<Rightarrow> 'p tree" where
  "rb_link_right parent n Leaf = Leaf"
| "rb_link_right parent n (Node l q r) =
     (if q = parent then Node l q (Node Leaf n Leaf)
      else Node (rb_link_right parent n l) q (rb_link_right parent n r))"

section \<open>Operations\<close>

definition uvm_range_tree_prev :: "'p range_tree \<Rightarrow> 'p \<Rightarrow> 'p option" where
  "uvm_range_tree_prev tree node = list_prev node (head tree)"

definition uvm_range_tree_next :: "'p range_tree \<Rightarrow> 'p \<Rightarrow> 'p option" where
  "uvm_range_tree_next tree node = list_next node (head tree)"

definition uvm_range_tree_empty :: "'p range_tree \<Rightarrow> bool" where
  "uvm_range_tree_empty tree \<longleftrightarrow> head tree = []"

definition uvm_range_tree_last :: "'p range_tree \<Rightarrow> 'p option" where
  "uvm_range_tree_last tree = (if head tree = [] then None else Some (last (head tree)))"

definition uvm_range_tree_node_size :: "range_node \<Rightarrow> NvU64" where
  "uvm_range_tree_node_size node = node_end node - node_start node + 1"

definition range_nodes_overlap :: "range_node \<Rightarrow> range_node \<Rightarrow> bool" where
  "range_nodes_overlap a b = uvm_ranges_overlap (node_start a) (node_end a) (node_start b) (node_end b)"

text \<open>The tree walk of \<^verbatim>\<open>range_node_find\<close>: the node that contains the address, and the parent.\<close>

fun rb_walk :: "('p \<Rightarrow> range_node) \<Rightarrow> NvU64 \<Rightarrow> 'p tree \<Rightarrow> 'p option \<Rightarrow> 'p option \<times> 'p option" where
  "rb_walk m addr Leaf parent = (None, parent)"
| "rb_walk m addr (Node l node r) parent =
     (if addr < node_start (m node) then rb_walk m addr l (Some node)
      else if addr > node_end (m node) then rb_walk m addr r (Some node)
      else (Some node, parent))"

definition range_node_find ::
    "'p range_tree \<Rightarrow> NvU64 \<Rightarrow> 'p option \<times> 'p option \<times> 'p option" where
  "range_node_find tree addr =
     (let (node, parent) = rb_walk (node_mem tree) addr (rb_root tree) None;
          next = (case node of
                    Some n \<Rightarrow> uvm_range_tree_next tree n
                  | None \<Rightarrow> (case parent of
                      None \<Rightarrow> None
                    | Some p \<Rightarrow> if node_start (node_mem tree p) > addr then Some p
                                else uvm_range_tree_next tree p))
      in (node, parent, next))"

definition uvm_range_tree_init :: "('p \<Rightarrow> range_node) \<Rightarrow> 'p range_tree" where
  "uvm_range_tree_init m = \<lparr>rb_root = Leaf, head = [], node_mem = m\<rparr>"

definition uvm_range_tree_add ::
    "'p rb_ops \<Rightarrow> 'p range_tree \<Rightarrow> 'p \<Rightarrow> NV_STATUS \<times> 'p range_tree" where
  "uvm_range_tree_add ops tree node =
     (let m = node_mem tree;
          (match, parent, _) = range_node_find tree (node_start (m node))
      in case match of
           Some _ \<Rightarrow> (NV_ERR_UVM_ADDRESS_IN_USE, tree)
         | None \<Rightarrow> (case parent of
             None \<Rightarrow>
               (NV_OK, tree\<lparr>rb_root := rb_insert_color ops node (Node Leaf node Leaf),
                             head := node # head tree\<rparr>)
           | Some parent \<Rightarrow>
               if range_nodes_overlap (m node) (m parent) then (NV_ERR_UVM_ADDRESS_IN_USE, tree)
               else if node_start (m node) < node_start (m parent) then
                 (NV_OK, tree\<lparr>rb_root := rb_insert_color ops node (rb_link_left parent node (rb_root tree)),
                               head := list_add_before parent node (head tree)\<rparr>)
               else
                 (let linked = (NV_OK,
                        tree\<lparr>rb_root := rb_insert_color ops node (rb_link_right parent node (rb_root tree)),
                             head := list_add_after parent node (head tree)\<rparr>)
                  in case uvm_range_tree_next tree parent of
                       None \<Rightarrow> linked
                     | Some next \<Rightarrow>
                         if range_nodes_overlap (m node) (m next) then (NV_ERR_UVM_ADDRESS_IN_USE, tree)
                         else linked)))"

definition uvm_range_tree_remove :: "'p rb_ops \<Rightarrow> 'p range_tree \<Rightarrow> 'p \<Rightarrow> 'p range_tree" where
  "uvm_range_tree_remove ops tree node =
     tree\<lparr>rb_root := rb_erase ops node (rb_root tree), head := remove1 node (head tree)\<rparr>"

definition uvm_range_tree_shrink_node ::
    "'p range_tree \<Rightarrow> 'p \<Rightarrow> NvU64 \<Rightarrow> NvU64 \<Rightarrow> 'p range_tree" where
  "uvm_range_tree_shrink_node tree node new_start new_end =
     tree\<lparr>node_mem := (node_mem tree)(node := \<lparr>node_start = new_start, node_end = new_end\<rparr>)\<rparr>"

definition uvm_range_tree_split ::
    "'p rb_ops \<Rightarrow> 'p range_tree \<Rightarrow> 'p \<Rightarrow> 'p \<Rightarrow> NV_STATUS \<times> 'p range_tree" where
  "uvm_range_tree_split ops tree existing new =
     (let m = node_mem tree;
          m1 = m(new := (m new)\<lparr>node_end := node_end (m existing)\<rparr>);
          m2 = m1(existing := (m1 existing)\<lparr>node_end := node_start (m1 new) - 1\<rparr>)
      in uvm_range_tree_add ops (tree\<lparr>node_mem := m2\<rparr>) new)"

definition uvm_range_tree_merge_prev ::
    "'p rb_ops \<Rightarrow> 'p range_tree \<Rightarrow> 'p \<Rightarrow> 'p option \<times> 'p range_tree" where
  "uvm_range_tree_merge_prev ops tree node =
     (let m = node_mem tree in
      case uvm_range_tree_prev tree node of
        None \<Rightarrow> (None, tree)
      | Some prev \<Rightarrow>
          if node_end (m prev) \<noteq> node_start (m node) - 1 then (None, tree)
          else (let tree' = uvm_range_tree_remove ops tree prev
                in (Some prev,
                    tree'\<lparr>node_mem := m(node := (m node)\<lparr>node_start := node_start (m prev)\<rparr>)\<rparr>)))"

definition uvm_range_tree_merge_next ::
    "'p rb_ops \<Rightarrow> 'p range_tree \<Rightarrow> 'p \<Rightarrow> 'p option \<times> 'p range_tree" where
  "uvm_range_tree_merge_next ops tree node =
     (let m = node_mem tree in
      case uvm_range_tree_next tree node of
        None \<Rightarrow> (None, tree)
      | Some next \<Rightarrow>
          if node_start (m next) \<noteq> node_end (m node) + 1 then (None, tree)
          else (let tree' = uvm_range_tree_remove ops tree next
                in (Some next,
                    tree'\<lparr>node_mem := m(node := (m node)\<lparr>node_end := node_end (m next)\<rparr>)\<rparr>)))"

definition uvm_range_tree_find :: "'p range_tree \<Rightarrow> NvU64 \<Rightarrow> 'p option" where
  "uvm_range_tree_find tree addr = fst (range_node_find tree addr)"

definition uvm_range_tree_iter_first :: "'p range_tree \<Rightarrow> NvU64 \<Rightarrow> NvU64 \<Rightarrow> 'p option" where
  "uvm_range_tree_iter_first tree start stop =
     (let (node, _, next) = range_node_find tree start in
      case node of
        Some n \<Rightarrow> Some n
      | None \<Rightarrow> (case next of
          None \<Rightarrow> None
        | Some nx \<Rightarrow> if node_start (node_mem tree nx) \<le> stop then Some nx else None))"

definition uvm_range_tree_iter_next :: "'p range_tree \<Rightarrow> 'p \<Rightarrow> NvU64 \<Rightarrow> 'p option" where
  "uvm_range_tree_iter_next tree node stop =
     (case uvm_range_tree_next tree node of
        None \<Rightarrow> None
      | Some nx \<Rightarrow> if node_start (node_mem tree nx) \<le> stop then Some nx else None)"

text \<open>The nodes the macro \<^verbatim>\<open>uvm_range_tree_for_each_in\<close> visits; the fuel bounds the chain.\<close>

fun iter_chain :: "'p range_tree \<Rightarrow> NvU64 \<Rightarrow> nat \<Rightarrow> 'p option \<Rightarrow> 'p list" where
  "iter_chain tree stop 0 node = []"
| "iter_chain tree stop (Suc fuel) None = []"
| "iter_chain tree stop (Suc fuel) (Some n) =
     n # iter_chain tree stop fuel (uvm_range_tree_iter_next tree n stop)"

definition uvm_range_tree_for_each_in :: "'p range_tree \<Rightarrow> NvU64 \<Rightarrow> NvU64 \<Rightarrow> 'p list" where
  "uvm_range_tree_for_each_in tree start stop =
     iter_chain tree stop (Suc (length (head tree))) (uvm_range_tree_iter_first tree start stop)"

definition uvm_range_tree_find_hole :: "'p range_tree \<Rightarrow> NvU64 \<Rightarrow> NV_STATUS + NvU64 \<times> NvU64" where
  "uvm_range_tree_find_hole tree addr =
     (let m = node_mem tree;
          hole_start = (\<lambda>node. case node of Some n \<Rightarrow> node_end (m n) + 1 | None \<Rightarrow> 0)
      in case uvm_range_tree_iter_first tree addr (-1) of
           Some node \<Rightarrow>
             if node_start (m node) \<le> addr then Inl NV_ERR_UVM_ADDRESS_IN_USE
             else Inr (hole_start (uvm_range_tree_prev tree node), node_start (m node) - 1)
         | None \<Rightarrow> Inr (hole_start (uvm_range_tree_last tree), -1))"

definition uvm_range_tree_find_hole_in ::
    "'p range_tree \<Rightarrow> NvU64 \<Rightarrow> NvU64 \<Rightarrow> NvU64 \<Rightarrow> NV_STATUS + NvU64 \<times> NvU64" where
  "uvm_range_tree_find_hole_in tree addr start stop =
     (case uvm_range_tree_find_hole tree addr of
        Inl status \<Rightarrow> Inl status
      | Inr (temp_start, temp_end) \<Rightarrow> Inr (max temp_start start, min temp_end stop))"

section \<open>Invariant and abstraction\<close>

definition nodes_before :: "('p \<Rightarrow> range_node) \<Rightarrow> 'p \<Rightarrow> 'p \<Rightarrow> bool" where
  "nodes_before m p q \<longleftrightarrow> node_end (m p) < node_start (m q)"

definition range_list_ok :: "('p \<Rightarrow> range_node) \<Rightarrow> 'p list \<Rightarrow> bool" where
  "range_list_ok m ps \<longleftrightarrow>
     sorted_wrt (nodes_before m) ps \<and> (\<forall>p\<in>set ps. node_start (m p) \<le> node_end (m p))"

definition range_tree_ok :: "'p range_tree \<Rightarrow> bool" where
  "range_tree_ok t \<longleftrightarrow> inorder (rb_root t) = head t \<and> range_list_ok (node_mem t) (head t)"

definition node_span :: "range_node \<Rightarrow> NvU64 set" where
  "node_span n = {node_start n .. node_end n}"

definition covered :: "'p range_tree \<Rightarrow> NvU64 set" where
  "covered t = (\<Union>p\<in>set (head t). node_span (node_mem t p))"

lemma range_node_upd [simp]:
  "(r :: range_node)\<lparr>node_end := x\<rparr> = \<lparr>node_start = node_start r, node_end = x\<rparr>"
  "(r :: range_node)\<lparr>node_start := x\<rparr> = \<lparr>node_start = x, node_end = node_end r\<rparr>"
  by (cases r; simp)+

lemma in_node_span [simp]: "a \<in> node_span n \<longleftrightarrow> node_start n \<le> a \<and> a \<le> node_end n"
  by (simp add: node_span_def)

lemma range_list_ok_Nil [simp]: "range_list_ok m []"
  by (simp add: range_list_ok_def)

lemma range_list_ok_append [uvm_simps]:
  "range_list_ok m (xs @ ys) \<longleftrightarrow> range_list_ok m xs \<and> range_list_ok m ys \<and>
     (\<forall>x\<in>set xs. \<forall>y\<in>set ys. node_end (m x) < node_start (m y))"
  by (auto simp: range_list_ok_def sorted_wrt_append nodes_before_def)

lemma range_list_ok_Cons [uvm_simps]:
  "range_list_ok m (x # ys) \<longleftrightarrow> node_start (m x) \<le> node_end (m x) \<and> range_list_ok m ys \<and>
     (\<forall>y\<in>set ys. node_end (m x) < node_start (m y))"
  by (auto simp: range_list_ok_def nodes_before_def)

lemma range_list_ok_distinct: "range_list_ok m ps \<Longrightarrow> distinct ps"
  by (induction ps) (auto simp: uvm_simps)

lemma range_list_ok_cong:
  "(\<And>p. p \<in> set ps \<Longrightarrow> m p = m' p) \<Longrightarrow> range_list_ok m ps = range_list_ok m' ps"
  by (induction ps) (auto simp: uvm_simps)

section \<open>Kernel list facts\<close>

lemma list_next_None [simp]: "p \<notin> set xs \<Longrightarrow> list_next p xs = None"
  by (induction p xs rule: list_next.induct) auto

lemma list_prev_None [simp]: "p \<notin> set xs \<Longrightarrow> list_prev p xs = None"
  by (induction p xs rule: list_prev.induct) auto

lemma list_next_split [simp]:
  "p \<notin> set xs \<Longrightarrow> p \<notin> set ys \<Longrightarrow>
     list_next p (xs @ p # ys) = (case ys of [] \<Rightarrow> None | y # _ \<Rightarrow> Some y)"
proof (induction xs)
  case Nil
  then show ?case by (cases ys) auto
next
  case (Cons x xs)
  then show ?case by (cases xs) (auto split: list.splits)
qed

lemma list_prev_split [simp]:
  "p \<notin> set xs \<Longrightarrow> p \<notin> set ys \<Longrightarrow>
     list_prev p (xs @ p # ys) = (if xs = [] then None else Some (last xs))"
proof (induction xs)
  case Nil
  then show ?case by (cases ys) auto
next
  case (Cons x xs)
  then show ?case by (cases xs) auto
qed

lemma list_add_before_split [simp]:
  "p \<notin> set xs \<Longrightarrow> list_add_before p n (xs @ p # ys) = xs @ n # p # ys"
  by (induction xs) auto

lemma list_add_after_split [simp]:
  "p \<notin> set xs \<Longrightarrow> list_add_after p n (xs @ p # ys) = xs @ p # n # ys"
  by (induction xs) auto

lemma rb_link_left_notin [simp]: "p \<notin> set_tree t \<Longrightarrow> rb_link_left p n t = t"
  by (induction t) auto

lemma rb_link_right_notin [simp]: "p \<notin> set_tree t \<Longrightarrow> rb_link_right p n t = t"
  by (induction t) auto

section \<open>The tree walk\<close>

lemma rb_walk_Some:
  "rb_walk m a t p0 = (Some p, par) \<Longrightarrow>
     p \<in> set_tree t \<and> node_start (m p) \<le> a \<and> a \<le> node_end (m p)"
  by (induction t arbitrary: p0) (auto split: if_splits simp: not_less)

text \<open>
  A walk that finds nothing stops at the free slot of the address: the in-order sequence splits
  into the ranges before and after the address, and linking a node there puts it in between.
\<close>

definition walk_slot ::
    "('p \<Rightarrow> range_node) \<Rightarrow> NvU64 \<Rightarrow> 'p tree \<Rightarrow> 'p \<Rightarrow> 'p list \<Rightarrow> 'p list \<Rightarrow> bool" where
  "walk_slot m a t par xs ys \<longleftrightarrow>
     inorder t = xs @ ys \<and>
     (\<forall>x\<in>set xs. node_end (m x) < a) \<and> (\<forall>y\<in>set ys. a < node_start (m y)) \<and>
     (if a < node_start (m par)
      then ys \<noteq> [] \<and> hd ys = par \<and> (\<forall>n. inorder (rb_link_left par n t) = xs @ n # ys)
      else xs \<noteq> [] \<and> last xs = par \<and> (\<forall>n. inorder (rb_link_right par n t) = xs @ n # ys))"

lemma rb_walk_slot:
  assumes "rb_walk m a t p0 = (None, par)" and "range_list_ok m (inorder t)" and "t \<noteq> Leaf"
  shows "\<exists>p xs ys. par = Some p \<and> p \<in> set_tree t \<and> walk_slot m a t p xs ys"
  using assms
proof (induction t arbitrary: p0)
  case Leaf
  then show ?case by simp
next
  case (Node l q r)
  have dist: "distinct (inorder l @ q # inorder r)"
    using Node.prems(2) range_list_ok_distinct by fastforce
  have okl: "range_list_ok m (inorder l)" and okr: "range_list_ok m (inorder r)"
    and qle: "node_start (m q) \<le> node_end (m q)"
    and lq: "\<forall>x\<in>set_tree l. node_end (m x) < node_start (m q)"
    and qr: "\<forall>x\<in>set_tree r. node_end (m q) < node_start (m x)"
    using Node.prems(2) by (auto simp: uvm_simps)
  consider (less) "a < node_start (m q)" | (greater) "\<not> a < node_start (m q)" "node_end (m q) < a"
    using Node.prems(1) by (auto split: if_splits)
  then show ?case
  proof cases
    case less
    then have r_after: "\<forall>y\<in>set_tree r. a < node_start (m y)"
      using qle qr by (meson order_le_less_trans order_less_trans)
    show ?thesis
    proof (cases "l = Leaf")
      case True
      with less Node.prems(1) have "par = Some q" by simp
      moreover have "walk_slot m a (Node l q r) q [] (q # inorder r)"
        using less True r_after by (auto simp: walk_slot_def)
      ultimately show ?thesis by auto
    next
      case False
      from less Node.prems(1) have "rb_walk m a l (Some q) = (None, par)" by simp
      from Node.IH(1)[OF this okl False] obtain p xs ys where
        p: "par = Some p" "p \<in> set_tree l" "walk_slot m a l p xs ys" by blast
      from dist p(2) have "p \<noteq> q" "p \<notin> set_tree r" by auto
      with p(3) less r_after have "walk_slot m a (Node l q r) p xs (ys @ q # inorder r)"
        by (auto simp: walk_slot_def)
      with p show ?thesis by auto
    qed
  next
    case greater
    then have l_before: "\<forall>y\<in>set_tree l. node_end (m y) < a"
      using qle lq by (meson order_less_le_trans order_less_trans)
    show ?thesis
    proof (cases "r = Leaf")
      case True
      with greater Node.prems(1) have "par = Some q" by simp
      moreover have "walk_slot m a (Node l q r) q (inorder l @ [q]) []"
        using greater True l_before by (auto simp: walk_slot_def)
      ultimately show ?thesis by auto
    next
      case False
      from greater Node.prems(1) have "rb_walk m a r (Some q) = (None, par)" by simp
      from Node.IH(2)[OF this okr False] obtain p xs ys where
        p: "par = Some p" "p \<in> set_tree r" "walk_slot m a r p xs ys" by blast
      from dist p(2) have "p \<noteq> q" "p \<notin> set_tree l" by auto
      with p(3) greater l_before have "walk_slot m a (Node l q r) p (inorder l @ q # xs) ys"
        by (auto simp: walk_slot_def)
      with p show ?thesis by auto
    qed
  qed
qed

lemma range_tree_ok_D:
  assumes "range_tree_ok t"
  shows "inorder (rb_root t) = head t" "range_list_ok (node_mem t) (head t)" "distinct (head t)"
    "set_tree (rb_root t) = set (head t)"
  using assms range_list_ok_distinct by (auto simp: range_tree_ok_def simp flip: set_inorder)

text \<open>What \<^verbatim>\<open>range_node_find\<close> returns, by whether the address is in a range.\<close>

lemma range_node_find_hit:
  assumes ok: "range_tree_ok t" and hit: "a \<in> covered t"
  shows "\<exists>xs p ys par. head t = xs @ p # ys \<and> a \<in> node_span (node_mem t p) \<and>
    range_node_find t a = (Some p, par, case ys of [] \<Rightarrow> None | y # _ \<Rightarrow> Some y)"
proof -
  note D = range_tree_ok_D[OF ok]
  obtain node par where w: "rb_walk (node_mem t) a (rb_root t) None = (node, par)" by fastforce
  have "node \<noteq> None"
  proof
    assume "node = None"
    moreover from hit D(4) have "rb_root t \<noteq> Leaf" by (auto simp: covered_def)
    ultimately obtain p xs ys where "walk_slot (node_mem t) a (rb_root t) p xs ys"
      using rb_walk_slot[of "node_mem t" a "rb_root t" None par] w D by auto
    then have "head t = xs @ ys" "\<forall>x\<in>set xs. node_end (node_mem t x) < a"
      "\<forall>y\<in>set ys. a < node_start (node_mem t y)"
      using D(1) by (auto simp: walk_slot_def)
    with hit show False by (fastforce simp: covered_def)
  qed
  then obtain p where p: "node = Some p" by blast
  with rb_walk_Some[of "node_mem t" a "rb_root t" None p par] w D(4)
  have p_in: "p \<in> set (head t)" and span: "a \<in> node_span (node_mem t p)" by auto
  then obtain xs ys where split: "head t = xs @ p # ys" by (meson split_list)
  with D(3) have "uvm_range_tree_next t p = (case ys of [] \<Rightarrow> None | y # _ \<Rightarrow> Some y)"
    by (simp add: uvm_range_tree_next_def)
  with w p split span show ?thesis
    by (intro exI[of _ xs] exI[of _ p] exI[of _ ys] exI[of _ par]) (auto simp: range_node_find_def)
qed

definition addr_split :: "('p \<Rightarrow> range_node) \<Rightarrow> NvU64 \<Rightarrow> 'p list \<Rightarrow> 'p list \<Rightarrow> bool" where
  "addr_split m a xs ys \<longleftrightarrow>
     (\<forall>x\<in>set xs. node_end (m x) < a) \<and> (\<forall>y\<in>set ys. a < node_start (m y))"

text \<open>
  The slot of a missing address: the two list halves, the parent and the next node, and what
  linking a new node under that parent does to the in-order sequence and to the list.
\<close>

definition find_slot :: "'p range_tree \<Rightarrow> NvU64 \<Rightarrow> 'p \<Rightarrow> 'p list \<Rightarrow> 'p list \<Rightarrow> bool" where
  "find_slot t a p xs ys \<longleftrightarrow>
     head t = xs @ ys \<and> addr_split (node_mem t) a xs ys \<and>
     (if a < node_start (node_mem t p)
      then ys \<noteq> [] \<and> hd ys = p \<and>
           (\<forall>n. inorder (rb_link_left p n (rb_root t)) = xs @ n # ys \<and>
                list_add_before p n (head t) = xs @ n # ys)
      else xs \<noteq> [] \<and> last xs = p \<and> list_next p (head t) = (case ys of [] \<Rightarrow> None | y # _ \<Rightarrow> Some y) \<and>
           (\<forall>n. inorder (rb_link_right p n (rb_root t)) = xs @ n # ys \<and>
                list_add_after p n (head t) = xs @ n # ys))"

lemma walk_slot_find_slot:
  assumes ok: "range_tree_ok t" and slot: "walk_slot (node_mem t) a (rb_root t) p xs ys"
  shows "find_slot t a p xs ys"
proof -
  note D = range_tree_ok_D[OF ok]
  from slot D have h: "head t = xs @ ys" and sp: "addr_split (node_mem t) a xs ys"
    by (auto simp: walk_slot_def addr_split_def)
  show ?thesis
  proof (cases "a < node_start (node_mem t p)")
    case True
    with slot obtain zs where "ys = p # zs" by (cases ys) (auto simp: walk_slot_def)
    with True slot h sp D(3) show ?thesis by (auto simp: walk_slot_def find_slot_def)
  next
    case False
    with slot obtain zs where "xs = zs @ [p]"
      by (cases xs rule: rev_cases) (auto simp: walk_slot_def)
    with False slot h sp D(3) show ?thesis
      by (auto simp: walk_slot_def find_slot_def)
  qed
qed

lemma range_node_find_miss:
  assumes ok: "range_tree_ok t" and miss: "a \<notin> covered t"
  shows "\<exists>xs ys par. head t = xs @ ys \<and> addr_split (node_mem t) a xs ys \<and>
    range_node_find t a = (None, par, case ys of [] \<Rightarrow> None | y # _ \<Rightarrow> Some y) \<and>
    (case par of None \<Rightarrow> head t = [] | Some p \<Rightarrow> p \<in> set (head t) \<and> find_slot t a p xs ys)"
proof -
  note D = range_tree_ok_D[OF ok]
  obtain node par where w: "rb_walk (node_mem t) a (rb_root t) None = (node, par)" by fastforce
  have none: "node = None"
  proof (cases node)
    case (Some p)
    with rb_walk_Some[of "node_mem t" a "rb_root t" None p par] w D(4)
    have "a \<in> covered t" by (auto simp: covered_def)
    with miss show ?thesis by simp
  qed simp
  show ?thesis
  proof (cases "rb_root t = Leaf")
    case True
    with D(1) have "head t = []" by simp
    with True w show ?thesis
      by (auto simp: range_node_find_def addr_split_def)
  next
    case False
    with rb_walk_slot[of "node_mem t" a "rb_root t" None par] w none D
    obtain p xs ys where par: "par = Some p" "p \<in> set (head t)"
      and ws: "walk_slot (node_mem t) a (rb_root t) p xs ys"
      by auto
    have fs: "find_slot t a p xs ys" by (rule walk_slot_find_slot[OF ok ws])
    then have "range_node_find t a = (None, par, case ys of [] \<Rightarrow> None | y # _ \<Rightarrow> Some y)"
      using w none par
      by (auto simp: range_node_find_def find_slot_def uvm_range_tree_next_def hd_conv_nth
          split: list.splits if_splits)
    with fs par show ?thesis
      by (intro exI[of _ xs] exI[of _ ys] exI[of _ par]) (auto simp: find_slot_def)
  qed
qed

lemma uvm_range_tree_find_iff:
  assumes "range_tree_ok t"
  shows "uvm_range_tree_find t a = Some p \<longleftrightarrow> p \<in> set (head t) \<and> a \<in> node_span (node_mem t p)"
proof (cases "a \<in> covered t")
  case True
  from range_node_find_hit[OF assms True] obtain xs q ys par where
    q: "head t = xs @ q # ys" "a \<in> node_span (node_mem t q)" "fst (range_node_find t a) = Some q"
    by auto
  have "p = q" if "p \<in> set (head t)" "a \<in> node_span (node_mem t p)"
    using that q(1,2) range_tree_ok_D(2)[OF assms] by (fastforce simp: uvm_simps)
  with q show ?thesis by (auto simp: uvm_range_tree_find_def)
next
  case False
  from range_node_find_miss[OF assms False] have "fst (range_node_find t a) = None" by auto
  with False show ?thesis by (auto simp: uvm_range_tree_find_def covered_def)
qed

section \<open>Insertion\<close>

definition overlaps_any :: "'p range_tree \<Rightarrow> 'p \<Rightarrow> bool" where
  "overlaps_any t n \<longleftrightarrow> node_span (node_mem t n) \<inter> covered t \<noteq> {}"

lemma range_nodes_overlap_iff:
  assumes "node_start a \<le> node_end a" and "node_start b \<le> node_end b"
  shows "range_nodes_overlap a b \<longleftrightarrow> node_span a \<inter> node_span b \<noteq> {}"
  using uvm_ranges_overlap_iff[OF assms] by (auto simp: range_nodes_overlap_def)

lemma covered_append:
  "head t = xs @ ys \<Longrightarrow> covered t =
     (\<Union>p\<in>set xs. node_span (node_mem t p)) \<union> (\<Union>p\<in>set ys. node_span (node_mem t p))"
  by (auto simp: covered_def)

text \<open>
  When the start of the new range is free, only the first range after it can collide, so the one
  neighbour that \<^verbatim>\<open>uvm_range_tree_add\<close> checks is enough.
\<close>

lemma overlap_only_next:
  assumes h: "head t = xs @ ys" and sp: "addr_split (node_mem t) (node_start (node_mem t n)) xs ys"
    and ok: "range_tree_ok t" and le: "node_start (node_mem t n) \<le> node_end (node_mem t n)"
  shows "overlaps_any t n \<longleftrightarrow>
    (case ys of [] \<Rightarrow> False | y # _ \<Rightarrow> range_nodes_overlap (node_mem t n) (node_mem t y))"
proof -
  let ?m = "node_mem t"
  have okl: "range_list_ok ?m (xs @ ys)" using range_tree_ok_D(2)[OF ok] h by simp
  have xs_free: "node_span (?m n) \<inter> node_span (?m x) = {}" if "x \<in> set xs" for x
    using sp that by (fastforce simp: addr_split_def)
  show ?thesis
  proof (cases ys)
    case Nil
    with xs_free show ?thesis by (auto simp: overlaps_any_def covered_append[OF h])
  next
    case (Cons y zs)
    have yok: "node_start (?m y) \<le> node_end (?m y)" using okl Cons by (simp add: uvm_simps)
    have later: "node_span (?m n) \<inter> node_span (?m y) \<noteq> {}"
      if "z \<in> set zs" "a \<in> node_span (?m n)" "a \<in> node_span (?m z)" for z a
    proof -
      from okl Cons that(1) have "node_end (?m y) < node_start (?m z)" by (simp add: uvm_simps)
      with that yok have "node_start (?m y) \<le> node_end (?m n)"
        by (auto intro: order_trans less_imp_le)
      moreover from sp Cons have "node_start (?m n) < node_start (?m y)" by (simp add: addr_split_def)
      ultimately have "node_start (?m y) \<in> node_span (?m n) \<inter> node_span (?m y)"
        using yok by auto
      then show ?thesis by blast
    qed
    have "overlaps_any t n \<longleftrightarrow> node_span (?m n) \<inter> node_span (?m y) \<noteq> {}"
      using xs_free later Cons by (fastforce simp: overlaps_any_def covered_append[OF h])
    with Cons range_nodes_overlap_iff[OF le yok] show ?thesis by simp
  qed
qed

lemma range_list_ok_insert:
  assumes "range_list_ok m (xs @ ys)" and "addr_split m (node_start (m n)) xs ys"
    and "node_start (m n) \<le> node_end (m n)"
    and "case ys of [] \<Rightarrow> True | y # _ \<Rightarrow> \<not> range_nodes_overlap (m n) (m y)"
  shows "range_list_ok m (xs @ n # ys)"
proof (cases ys)
  case Nil
  with assms show ?thesis by (auto simp: uvm_simps addr_split_def)
next
  case (Cons y zs)
  with assms have ny: "node_end (m n) < node_start (m y)" and yle: "node_start (m y) \<le> node_end (m y)"
    by (auto simp: range_nodes_overlap_def uvm_ranges_overlap_def addr_split_def uvm_simps not_le
        intro: order_less_imp_le less_le_trans)
  then have "\<forall>z\<in>set zs. node_end (m n) < node_start (m z)"
    using assms(1) Cons by (auto simp: uvm_simps intro: order_less_trans order_less_le_trans)
  with ny assms Cons show ?thesis by (auto simp: uvm_simps addr_split_def)
qed

lemma uvm_range_tree_add_cases:
  assumes ok: "range_tree_ok t" and ops: "rb_ops_ok ops"
    and le: "node_start (node_mem t n) \<le> node_end (node_mem t n)"
  shows "(overlaps_any t n \<and> uvm_range_tree_add ops t n = (NV_ERR_UVM_ADDRESS_IN_USE, t)) \<or>
    (\<not> overlaps_any t n \<and> (\<exists>xs ys root. head t = xs @ ys \<and> range_list_ok (node_mem t) (xs @ n # ys) \<and>
       inorder root = xs @ n # ys \<and>
       uvm_range_tree_add ops t n = (NV_OK, t\<lparr>rb_root := root, head := xs @ n # ys\<rparr>)))"
proof (cases "node_start (node_mem t n) \<in> covered t")
  case True
  with le have "overlaps_any t n" by (auto simp: overlaps_any_def)
  moreover from range_node_find_hit[OF ok True]
  have "uvm_range_tree_add ops t n = (NV_ERR_UVM_ADDRESS_IN_USE, t)"
    by (auto simp: uvm_range_tree_add_def)
  ultimately show ?thesis by blast
next
  case False
  let ?m = "node_mem t" and ?a = "node_start (node_mem t n)"
  from range_node_find_miss[OF ok False] obtain xs ys par where
    h: "head t = xs @ ys" and sp: "addr_split ?m ?a xs ys"
    and f: "range_node_find t ?a = (None, par, case ys of [] \<Rightarrow> None | y # _ \<Rightarrow> Some y)"
    and par: "case par of None \<Rightarrow> head t = [] | Some p \<Rightarrow> p \<in> set (head t) \<and> find_slot t ?a p xs ys"
    by blast
  note ov = overlap_only_next[OF h sp ok le]
  have okl: "range_list_ok ?m (xs @ ys)" using range_tree_ok_D(2)[OF ok] h by simp
  note ins = range_list_ok_insert[OF okl sp le]
  have color: "inorder (rb_insert_color ops n r) = inorder r" for r
    using ops by (simp add: rb_ops_ok_def)
  have linked: ?thesis
    if "\<not> overlaps_any t n" and "inorder root = xs @ n # ys"
      and "uvm_range_tree_add ops t n = (NV_OK, t\<lparr>rb_root := root, head := xs @ n # ys\<rparr>)" for root
    using that h ins ov by (intro disjI2 conjI exI[of _ xs] exI[of _ ys] exI[of _ root])
      (auto split: list.splits)
  show ?thesis
  proof (cases par)
    case None
    with par h have "xs = []" "ys = []" by auto
    with None f ov h show ?thesis
      by (intro linked[of "rb_insert_color ops n (Node Leaf n Leaf)"])
        (auto simp: uvm_range_tree_add_def color)
  next
    case (Some p)
    with par have slot: "find_slot t ?a p xs ys" and pin: "p \<in> set (head t)" by auto
    show ?thesis
    proof (cases "?a < node_start (?m p)")
      case True
      with slot obtain zs where ys: "ys = p # zs" by (cases ys) (auto simp: find_slot_def)
      show ?thesis
      proof (cases "range_nodes_overlap (?m n) (?m p)")
        case True
        with f Some ov ys show ?thesis by (auto simp: uvm_range_tree_add_def)
      next
        case False
        with \<open>?a < _\<close> slot f Some ov ys show ?thesis
          by (intro linked[of "rb_insert_color ops n (rb_link_left p n (rb_root t))"])
            (auto simp: uvm_range_tree_add_def find_slot_def color)
      qed
    next
      case False
      with slot have "node_end (?m p) < ?a"
        by (auto simp: find_slot_def addr_split_def)
      then have no: "\<not> range_nodes_overlap (?m n) (?m p)"
        by (auto simp: range_nodes_overlap_def uvm_ranges_overlap_def not_le)
      show ?thesis
      proof (cases "overlaps_any t n")
        case True
        with no False slot f Some ov show ?thesis
          by (auto simp: uvm_range_tree_add_def find_slot_def uvm_range_tree_next_def split: list.splits)
      next
        assume "\<not> overlaps_any t n"
        with no False slot f Some ov show ?thesis
          by (intro linked[of "rb_insert_color ops n (rb_link_right p n (rb_root t))"])
            (auto simp: uvm_range_tree_add_def find_slot_def uvm_range_tree_next_def color
              split: list.splits)
      qed
    qed
  qed
qed

lemma covered_insert:
  "head t = xs @ ys \<Longrightarrow>
     covered (t\<lparr>rb_root := r, head := xs @ n # ys\<rparr>) = covered t \<union> node_span (node_mem t n)"
  by (auto simp: covered_def)

lemma uvm_range_tree_add_free:
  assumes ok: "range_tree_ok t" and ops: "rb_ops_ok ops"
    and le: "node_start (node_mem t n) \<le> node_end (node_mem t n)"
    and free: "node_span (node_mem t n) \<inter> covered t = {}"
  obtains xs ys t' where "uvm_range_tree_add ops t n = (NV_OK, t')" "head t = xs @ ys"
    "head t' = xs @ n # ys" "node_mem t' = node_mem t" "range_tree_ok t'"
    "covered t' = covered t \<union> node_span (node_mem t n)"
proof -
  from free have "\<not> overlaps_any t n" by (simp add: overlaps_any_def)
  with uvm_range_tree_add_cases[OF ok ops le] obtain xs ys root where
    h: "head t = xs @ ys" and okn: "range_list_ok (node_mem t) (xs @ n # ys)"
    and root: "inorder root = xs @ n # ys"
    and s: "uvm_range_tree_add ops t n = (NV_OK, t\<lparr>rb_root := root, head := xs @ n # ys\<rparr>)"
    by auto
  show ?thesis
    by (rule that[OF s h]) (use root okn covered_insert[OF h] in \<open>auto simp: range_tree_ok_def\<close>)
qed

lemma range_list_ok_fun_upd [simp]:
  "n \<notin> set ps \<Longrightarrow> range_list_ok (m(n := v)) ps = range_list_ok m ps"
  by (rule range_list_ok_cong) auto

lemma range_tree_ok_fresh_mem [simp]:
  "n \<notin> set (head t) \<Longrightarrow> range_tree_ok (t\<lparr>node_mem := (node_mem t)(n := v)\<rparr>) = range_tree_ok t"
  by (auto simp: range_tree_ok_def)

lemma covered_fresh_mem [simp]:
  "n \<notin> set (head t) \<Longrightarrow> covered (t\<lparr>node_mem := (node_mem t)(n := v)\<rparr>) = covered t"
  by (auto simp: covered_def) (metis+)

text \<open>C30. Adding a range either succeeds, keeps the invariant and covers exactly the addresses of
  the new range in addition, or fails with \<^verbatim>\<open>NV_ERR_UVM_ADDRESS_IN_USE\<close> and changes nothing;
  it fails exactly when some address of the new range is already covered.\<close>

theorem uvm_range_tree_add_correct:
  assumes ok: "range_tree_ok t" and ops: "rb_ops_ok ops"
    and le: "node_start (node_mem t n) \<le> node_end (node_mem t n)"
    and run: "uvm_range_tree_add ops t n = (status, t')"
  shows "if node_span (node_mem t n) \<inter> covered t = {}
    then status = NV_OK \<and> range_tree_ok t' \<and> set (head t') = insert n (set (head t)) \<and>
         node_mem t' = node_mem t \<and> covered t' = covered t \<union> node_span (node_mem t n)
    else status = NV_ERR_UVM_ADDRESS_IN_USE \<and> t' = t"
proof (cases "node_span (node_mem t n) \<inter> covered t = {}")
  case True
  then show ?thesis
    by (rule uvm_range_tree_add_free[OF ok ops le]) (use run True in auto)
next
  case False
  with uvm_range_tree_add_cases[OF ok ops le] run show ?thesis by (auto simp: overlaps_any_def)
qed

section \<open>Removal, splitting and merging\<close>

lemma range_list_ok_remove1: "range_list_ok m ps \<Longrightarrow> range_list_ok m (remove1 p ps)"
  by (induction ps) (auto simp: uvm_simps dest: notin_set_remove1[rotated])

lemma spans_disjoint:
  assumes "range_list_ok m ps" and "p \<in> set ps" and "q \<in> set ps" and "p \<noteq> q"
  shows "node_span (m p) \<inter> node_span (m q) = {}"
  using assms by (induction ps) (auto simp: uvm_simps, (fastforce dest: order_less_le_trans)+)

lemma uvm_range_tree_remove_ok:
  assumes ok: "range_tree_ok t" and ops: "rb_ops_ok ops" and p: "p \<in> set (head t)"
  shows "range_tree_ok (uvm_range_tree_remove ops t p)"
    and "set (head (uvm_range_tree_remove ops t p)) = set (head t) - {p}"
    and "covered (uvm_range_tree_remove ops t p) = covered t - node_span (node_mem t p)"
proof -
  note D = range_tree_ok_D[OF ok]
  show "range_tree_ok (uvm_range_tree_remove ops t p)"
    using D ops p range_list_ok_remove1[OF D(2)]
    by (auto simp: range_tree_ok_def uvm_range_tree_remove_def rb_ops_ok_def)
  show hs: "set (head (uvm_range_tree_remove ops t p)) = set (head t) - {p}"
    using D(3) by (simp add: uvm_range_tree_remove_def)
  then show "covered (uvm_range_tree_remove ops t p) = covered t - node_span (node_mem t p)"
    using spans_disjoint[OF D(2) _ p] p unfolding covered_def
    by (auto simp: uvm_range_tree_remove_def)
qed

lemma range_tree_ok_mem_update:
  assumes "inorder (rb_root t) = head t" and "head t = xs @ p # ys"
    and "range_list_ok (node_mem t) xs" and "range_list_ok (node_mem t) ys"
    and "p \<notin> set xs" and "p \<notin> set ys"
    and "node_start n \<le> node_end n"
    and "\<forall>x\<in>set xs. node_end (node_mem t x) < node_start n"
    and "\<forall>y\<in>set ys. node_end n < node_start (node_mem t y)"
    and "\<forall>x\<in>set xs. \<forall>y\<in>set ys. node_end (node_mem t x) < node_start (node_mem t y)"
  shows "range_tree_ok (t\<lparr>node_mem := (node_mem t)(p := n)\<rparr>)"
proof -
  let ?m = "(node_mem t)(p := n)"
  have "range_list_ok ?m xs" "range_list_ok ?m ys"
    using assms range_list_ok_cong[of _ "node_mem t" ?m] by (metis fun_upd_other)+
  with assms show ?thesis by (auto simp: range_tree_ok_def uvm_simps)
qed

text \<open>Writing a new non-empty range into a node inside its old range keeps the tree well formed.\<close>

lemma uvm_range_tree_shrink_node_ok:
  assumes ok: "range_tree_ok t" and p: "p \<in> set (head t)"
    and "new_start \<le> new_end" and "node_start (node_mem t p) \<le> new_start"
    and "new_end \<le> node_end (node_mem t p)"
  shows "range_tree_ok (uvm_range_tree_shrink_node t p new_start new_end)"
    and "covered (uvm_range_tree_shrink_node t p new_start new_end) =
      covered t - (node_span (node_mem t p) - {new_start .. new_end})"
proof -
  note D = range_tree_ok_D[OF ok]
  from p obtain xs ys where h: "head t = xs @ p # ys" by (meson split_list)
  with D have parts: "range_list_ok (node_mem t) xs" "range_list_ok (node_mem t) ys"
    "p \<notin> set xs" "p \<notin> set ys"
    "\<forall>x\<in>set xs. node_end (node_mem t x) < node_start (node_mem t p)"
    "\<forall>y\<in>set ys. node_end (node_mem t p) < node_start (node_mem t y)"
    "\<forall>x\<in>set xs. \<forall>y\<in>set ys. node_end (node_mem t x) < node_start (node_mem t y)"
    by (auto simp: uvm_simps)
  show "range_tree_ok (uvm_range_tree_shrink_node t p new_start new_end)"
    unfolding uvm_range_tree_shrink_node_def using parts assms(3-5)
    by (intro range_tree_ok_mem_update[OF D(1) h])
      (auto intro: order_less_le_trans order_le_less_trans)
  have others: "node_span (node_mem t q) \<inter> node_span (node_mem t p) = {}"
    if "q \<in> set (head t)" "q \<noteq> p" for q
    using spans_disjoint[OF D(2) that(1) p that(2)] .
  show "covered (uvm_range_tree_shrink_node t p new_start new_end) =
      covered t - (node_span (node_mem t p) - {new_start .. new_end})" (is "?L = ?R")
  proof (intro equalityI subsetI)
    fix a assume "a \<in> ?L"
    then obtain q where q: "q \<in> set (head t)"
      "if q = p then new_start \<le> a \<and> a \<le> new_end else a \<in> node_span (node_mem t q)"
      by (auto simp: covered_def uvm_range_tree_shrink_node_def split: if_splits)
    show "a \<in> ?R"
    proof (cases "q = p")
      case True
      with q p assms(4,5) have "a \<in> node_span (node_mem t p)" by auto
      with q True p show ?thesis by (auto simp: covered_def)
    next
      case False
      with q others[OF q(1) False] show ?thesis by (auto simp: covered_def simp del: in_node_span)
    qed
  next
    fix a assume "a \<in> ?R"
    then obtain q where q: "q \<in> set (head t)" "a \<in> node_span (node_mem t q)"
      and np: "a \<in> node_span (node_mem t p) \<Longrightarrow> a \<in> {new_start .. new_end}"
      by (auto simp: covered_def)
    show "a \<in> ?L"
      using q np p by (cases "q = p") (auto simp: covered_def uvm_range_tree_shrink_node_def intro: bexI[of _ q])
  qed
qed

lemma head_split_parts:
  assumes "range_tree_ok t" and "head t = xs @ p # ys"
  shows "range_list_ok (node_mem t) xs" "range_list_ok (node_mem t) ys" "p \<notin> set xs" "p \<notin> set ys"
    "node_start (node_mem t p) \<le> node_end (node_mem t p)"
    "\<forall>x\<in>set xs. node_end (node_mem t x) < node_start (node_mem t p)"
    "\<forall>y\<in>set ys. node_end (node_mem t p) < node_start (node_mem t y)"
    "\<forall>x\<in>set xs. \<forall>y\<in>set ys. node_end (node_mem t x) < node_start (node_mem t y)"
  using range_tree_ok_D[OF assms(1)] assms(2) by (auto simp: uvm_simps)

text \<open>Splitting an existing range at an inner address always succeeds (the assertion after the
  insertion holds), covers the same addresses as before, and leaves the two halves in the two
  nodes.\<close>

theorem uvm_range_tree_split_correct:
  assumes ok: "range_tree_ok t" and ops: "rb_ops_ok ops"
    and ex: "existing \<in> set (head t)" and fresh: "new \<notin> set (head t)"
    and gt: "node_start (node_mem t existing) < node_start (node_mem t new)"
    and le: "node_start (node_mem t new) \<le> node_end (node_mem t existing)"
    and run: "uvm_range_tree_split ops t existing new = (status, t')"
  shows "status = NV_OK \<and> range_tree_ok t' \<and> covered t' = covered t \<and>
    set (head t') = insert new (set (head t)) \<and>
    node_mem t' existing = \<lparr>node_start = node_start (node_mem t existing),
                            node_end = node_start (node_mem t new) - 1\<rparr> \<and>
    node_mem t' new = \<lparr>node_start = node_start (node_mem t new),
                       node_end = node_end (node_mem t existing)\<rparr>"
proof -
  let ?m = "node_mem t"
  let ?e = "\<lparr>node_start = node_start (?m existing), node_end = node_start (?m new) - 1\<rparr>"
  let ?n = "\<lparr>node_start = node_start (?m new), node_end = node_end (?m existing)\<rparr>"
  define t1 where "t1 = uvm_range_tree_shrink_node t existing (node_start (?m existing)) (node_start (?m new) - 1)"
  define t2 where "t2 = t1\<lparr>node_mem := (node_mem t1)(new := ?n)\<rparr>"
  have ne: "existing \<noteq> new" using ex fresh by auto
  note dec = le_minus_one_iff[OF gt] minus_one_less[OF gt]
  have bounds: "node_start (?m existing) \<le> node_start (?m new) - 1"
    "node_start (?m new) - 1 \<le> node_end (?m existing)"
    using gt le dec by (auto intro: less_imp_le order_less_le_trans)
  note shrink = uvm_range_tree_shrink_node_ok[OF ok ex bounds(1) order_refl bounds(2), folded t1_def]
  have h: "head t1 = head t" "node_mem t1 = ?m(existing := ?e)"
    by (simp_all add: t1_def uvm_range_tree_shrink_node_def)
  have t2: "t2 = t\<lparr>node_mem := ?m(existing := ?e, new := ?n)\<rparr>" "head t2 = head t"
    "node_mem t2 new = ?n" "node_mem t2 existing = ?e"
    using ne by (simp_all add: t2_def t1_def uvm_range_tree_shrink_node_def)
  have ok2: "range_tree_ok t2" and cov2: "covered t2 = covered t1"
    using shrink(1) fresh h(1) by (simp_all add: t2_def)
  have upper: "node_span ?n = node_span (?m existing) - {node_start (?m existing) .. node_start (?m new) - 1}"
    using gt le by (auto simp: dec(1) not_less intro: order_trans)
  have free: "node_span (node_mem t2 new) \<inter> covered t2 = {}"
    unfolding cov2 shrink(2) t2(3) upper by blast
  have le2: "node_start (node_mem t2 new) \<le> node_end (node_mem t2 new)" using le by (simp add: t2)
  have "uvm_range_tree_add ops t2 new = (status, t')"
    using run ne by (simp add: t2(1) uvm_range_tree_split_def Let_def fun_upd_twist)
  with uvm_range_tree_add_free[OF ok2 ops le2 free] obtain xs ys where
    r: "status = NV_OK" "head t2 = xs @ ys" "head t' = xs @ new # ys" "node_mem t' = node_mem t2"
      "range_tree_ok t'" "covered t' = covered t2 \<union> node_span (node_mem t2 new)"
    by (metis prod.inject)
  have "covered t' = covered t"
    unfolding r(6) cov2 shrink(2) t2(3) upper using ex by (auto simp: covered_def)
  with r t2 show ?thesis by auto
qed

lemma head_remove_mid:
  assumes "range_tree_ok t" and "head t = xs @ p # ys"
  shows "head (uvm_range_tree_remove ops t p) = xs @ ys"
  using head_split_parts[OF assms] assms(2) by (simp add: uvm_range_tree_remove_def remove1_append)

text \<open>Merging two neighbours: the removed node's range is taken over by the node that stays.\<close>

lemma merge_adjacent:
  assumes ok: "range_tree_ok t" and ops: "rb_ops_ok ops"
    and h: "head t = xs @ p # q # ys" and adj: "node_start (node_mem t q) = node_end (node_mem t p) + 1"
    and n: "n = \<lparr>node_start = node_start (node_mem t p), node_end = node_end (node_mem t q)\<rparr>"
    and gone: "gone = p \<and> kept = q \<or> gone = q \<and> kept = p"
    and t': "t' = (uvm_range_tree_remove ops t gone)\<lparr>node_mem := (node_mem t)(kept := n)\<rparr>"
  shows "range_tree_ok t'" and "head t' = xs @ kept # ys" and "covered t' = covered t"
proof -
  let ?m = "node_mem t" and ?r = "uvm_range_tree_remove ops t gone"
  note P = head_split_parts[OF ok h]
  have h2: "head t = (xs @ [p]) @ q # ys" using h by simp
  note Q = head_split_parts[OF ok h2]
  have lt: "node_end (?m p) < node_start (?m q)" using P by simp
  have hr: "head ?r = xs @ kept # ys"
    using gone head_remove_mid[OF ok h, of ops] head_remove_mid[OF ok h2, of ops] by auto
  have inr: "inorder (rb_root ?r) = head ?r"
    using uvm_range_tree_remove_ok(1)[OF ok ops, of gone] gone h by (auto simp: range_tree_ok_def)
  have mr: "node_mem ?r = ?m" by (simp add: uvm_range_tree_remove_def)
  show "head t' = xs @ kept # ys" using hr by (simp add: t')
  have "range_tree_ok (?r\<lparr>node_mem := (node_mem ?r)(kept := n)\<rparr>)"
    using P Q gone lt by (intro range_tree_ok_mem_update[OF inr hr])
      (auto simp: mr n intro: order_trans less_imp_le)
  then show "range_tree_ok t'" by (simp add: t' mr)
  have "node_span n = node_span (?m p) \<union> node_span (?m q)"
    using P(5) Q(5) lt adj by (auto simp: n plus_one_le_iff[OF lt] not_less intro: order_trans less_imp_le)
  moreover have "kept \<notin> set xs" "kept \<notin> set ys" using P Q gone by auto
  ultimately show "covered t' = covered t"
    using gone by (auto simp: covered_def t' hr h simp del: in_node_span split: if_splits)
qed

lemma list_prev_Some_split:
  "distinct xs \<Longrightarrow> list_prev q xs = Some p \<Longrightarrow> \<exists>us vs. xs = us @ p # q # vs"
proof (induction q xs rule: list_prev.induct)
  case (1 q x y xs)
  then show ?case by (cases "y = q") (auto, metis append_Cons)
qed auto

lemma list_next_Some_split:
  "distinct xs \<Longrightarrow> list_next p xs = Some q \<Longrightarrow> \<exists>us vs. xs = us @ p # q # vs"
proof (induction p xs rule: list_next.induct)
  case (1 p x y xs)
  then show ?case by (cases "x = p") (auto, metis append_Cons)
qed auto

lemma uvm_range_tree_merge_prev_spec:
  assumes ok: "range_tree_ok t" and ops: "rb_ops_ok ops"
    and run: "uvm_range_tree_merge_prev ops t node = (merged, t')"
  shows "case merged of
      None \<Rightarrow> t' = t \<and> (\<forall>p. uvm_range_tree_prev t node = Some p \<longrightarrow>
                         node_end (node_mem t p) + 1 \<noteq> node_start (node_mem t node))
    | Some p \<Rightarrow> range_tree_ok t' \<and> covered t' = covered t \<and>
        (\<exists>xs ys. head t = xs @ p # node # ys \<and> head t' = xs @ node # ys) \<and>
        node_mem t' = (node_mem t)(node := \<lparr>node_start = node_start (node_mem t p),
                                            node_end = node_end (node_mem t node)\<rparr>)"
proof -
  let ?m = "node_mem t"
  show ?thesis
  proof (cases "uvm_range_tree_prev t node")
    case None
    with run show ?thesis by (auto simp: uvm_range_tree_merge_prev_def)
  next
    case (Some p)
    with list_prev_Some_split range_tree_ok_D(3)[OF ok] obtain xs ys where
      h: "head t = xs @ p # node # ys"
      by (metis uvm_range_tree_prev_def)
    show ?thesis
    proof (cases "node_end (?m p) = node_start (?m node) - 1")
      case True
      then have adj: "node_start (?m node) = node_end (?m p) + 1" by simp
      from True Some run have "merged = Some p"
        and t': "t' = (uvm_range_tree_remove ops t p)\<lparr>node_mem := ?m(node :=
          \<lparr>node_start = node_start (?m p), node_end = node_end (?m node)\<rparr>)\<rparr>"
        by (auto simp: uvm_range_tree_merge_prev_def Let_def)
      with merge_adjacent[OF ok ops h adj refl, of p node t'] h show ?thesis by auto
    next
      case False
      then have "node_end (?m p) + 1 \<noteq> node_start (?m node)" by (metis add_diff_cancel_right')
      with False Some run show ?thesis by (auto simp: uvm_range_tree_merge_prev_def)
    qed
  qed
qed

lemma uvm_range_tree_merge_next_spec:
  assumes ok: "range_tree_ok t" and ops: "rb_ops_ok ops"
    and run: "uvm_range_tree_merge_next ops t node = (merged, t')"
  shows "case merged of
      None \<Rightarrow> t' = t \<and> (\<forall>p. uvm_range_tree_next t node = Some p \<longrightarrow>
                         node_end (node_mem t node) + 1 \<noteq> node_start (node_mem t p))
    | Some p \<Rightarrow> range_tree_ok t' \<and> covered t' = covered t \<and>
        (\<exists>xs ys. head t = xs @ node # p # ys \<and> head t' = xs @ node # ys) \<and>
        node_mem t' = (node_mem t)(node := \<lparr>node_start = node_start (node_mem t node),
                                            node_end = node_end (node_mem t p)\<rparr>)"
proof -
  let ?m = "node_mem t"
  show ?thesis
  proof (cases "uvm_range_tree_next t node")
    case None
    with run show ?thesis by (auto simp: uvm_range_tree_merge_next_def)
  next
    case (Some p)
    with list_next_Some_split range_tree_ok_D(3)[OF ok] obtain xs ys where
      h: "head t = xs @ node # p # ys"
      by (metis uvm_range_tree_next_def)
    show ?thesis
    proof (cases "node_start (?m p) = node_end (?m node) + 1")
      case True
      from True Some run have "merged = Some p"
        and t': "t' = (uvm_range_tree_remove ops t p)\<lparr>node_mem := ?m(node :=
          \<lparr>node_start = node_start (?m node), node_end = node_end (?m p)\<rparr>)\<rparr>"
        by (auto simp: uvm_range_tree_merge_next_def Let_def)
      with merge_adjacent[OF ok ops h True refl, of p node t'] h show ?thesis by auto
    next
      case False
      with Some run show ?thesis by (auto simp: uvm_range_tree_merge_next_def)
    qed
  qed
qed

section \<open>Iteration and holes\<close>

lemma iter_chain_suffix:
  assumes ok: "range_tree_ok t" and h: "head t = xs @ p # ys" and fuel: "length ys < fuel"
  shows "iter_chain t stop fuel (Some p) = p # takeWhile (\<lambda>q. node_start (node_mem t q) \<le> stop) ys"
  using h fuel
proof (induction ys arbitrary: xs p fuel)
  case Nil
  then obtain f where "fuel = Suc f" by (cases fuel) auto
  with Nil head_split_parts[OF ok Nil(1)] show ?case
    by (cases f) (auto simp: uvm_range_tree_iter_next_def uvm_range_tree_next_def)
next
  case (Cons q ys)
  then obtain f where f: "fuel = Suc f" "length ys < f" by (cases fuel) auto
  have h2: "head t = (xs @ [p]) @ q # ys" using Cons.prems(1) by simp
  have "uvm_range_tree_next t p = Some q"
    using head_split_parts[OF ok Cons.prems(1)] Cons.prems(1) by (simp add: uvm_range_tree_next_def)
  with Cons.IH[OF h2 f(2)] f show ?case
    by (cases f) (auto simp: uvm_range_tree_iter_next_def)
qed

lemma takeWhile_starts_filter:
  assumes "range_list_ok m ys" and "\<forall>y\<in>set ys. s < node_start (m y)"
  shows "takeWhile (\<lambda>q. node_start (m q) \<le> e) ys =
    filter (\<lambda>p. uvm_ranges_overlap (node_start (m p)) (node_end (m p)) s e) ys"
  using assms
proof (induction ys)
  case (Cons y ys)
  have "filter (\<lambda>p. uvm_ranges_overlap (node_start (m p)) (node_end (m p)) s e) ys = []"
    if "\<not> node_start (m y) \<le> e"
    using Cons.prems that
    by (auto simp: uvm_simps uvm_ranges_overlap_def filter_empty_conv)
  with Cons show ?case by (auto simp: uvm_simps uvm_ranges_overlap_def intro: order_trans less_imp_le)
qed simp

lemma filter_overlap_before:
  "\<forall>x\<in>set xs. node_end (m x) < s \<Longrightarrow>
     filter (\<lambda>p. uvm_ranges_overlap (node_start (m p)) (node_end (m p)) s e) xs = []"
  by (auto simp: filter_empty_conv uvm_ranges_overlap_def)

lemma uvm_range_tree_for_each_in_eq:
  assumes ok: "range_tree_ok t" and le: "s \<le> e"
  shows "uvm_range_tree_for_each_in t s e =
    filter (\<lambda>p. uvm_ranges_overlap (node_start (node_mem t p)) (node_end (node_mem t p)) s e) (head t)"
proof (cases "s \<in> covered t")
  case True
  let ?m = "node_mem t"
  from range_node_find_hit[OF ok True] obtain xs p ys par where
    h: "head t = xs @ p # ys" and sp: "s \<in> node_span (?m p)"
    and f: "range_node_find t s = (Some p, par, case ys of [] \<Rightarrow> None | y # _ \<Rightarrow> Some y)" by blast
  note P = head_split_parts[OF ok h]
  have "\<forall>x\<in>set xs. node_end (?m x) < s" using P sp by (auto intro: order_less_le_trans)
  note pre = filter_overlap_before[OF this]
  have "\<forall>y\<in>set ys. s < node_start (?m y)" using P sp by (auto intro: order_le_less_trans)
  note post = takeWhile_starts_filter[OF P(2) this]
  have "uvm_ranges_overlap (node_start (?m p)) (node_end (?m p)) s e"
    using sp le by (auto simp: uvm_ranges_overlap_def intro: order_trans)
  with pre post iter_chain_suffix[OF ok h, of "Suc (length (head t))" e] f h show ?thesis
    by (simp add: uvm_range_tree_for_each_in_def uvm_range_tree_iter_first_def del: iter_chain.simps)
next
  case False
  let ?m = "node_mem t"
  from range_node_find_miss[OF ok False] obtain xs ys par where
    h: "head t = xs @ ys" and sp: "addr_split ?m s xs ys"
    and f: "range_node_find t s = (None, par, case ys of [] \<Rightarrow> None | y # _ \<Rightarrow> Some y)" by blast
  have okl: "range_list_ok ?m (xs @ ys)" using range_tree_ok_D(2)[OF ok] h by simp
  then have post: "takeWhile (\<lambda>q. node_start (?m q) \<le> e) ys =
    filter (\<lambda>p. uvm_ranges_overlap (node_start (?m p)) (node_end (?m p)) s e) ys"
    using sp by (intro takeWhile_starts_filter) (auto simp: uvm_simps addr_split_def)
  have pre: "filter (\<lambda>p. uvm_ranges_overlap (node_start (?m p)) (node_end (?m p)) s e) xs = []"
    using sp by (intro filter_overlap_before) (simp add: addr_split_def)
  show ?thesis
  proof (cases ys)
    case Nil
    with f h pre show ?thesis
      by (simp add: uvm_range_tree_for_each_in_def uvm_range_tree_iter_first_def)
  next
    case (Cons y zs)
    with h have h2: "head t = xs @ y # zs" by simp
    from f Cons have "uvm_range_tree_iter_first t s e = (if node_start (?m y) \<le> e then Some y else None)"
      by (simp add: uvm_range_tree_iter_first_def)
    with Cons pre post h iter_chain_suffix[OF ok h2, of "Suc (length (head t))" e] show ?thesis
      by (cases "node_start (?m y) \<le> e")
        (simp_all add: uvm_range_tree_for_each_in_def del: iter_chain.simps(3))
  qed
qed

lemma uvm_range_tree_find_hole_in_use:
  assumes ok: "range_tree_ok t" and "a \<in> covered t"
  shows "uvm_range_tree_find_hole t a = Inl NV_ERR_UVM_ADDRESS_IN_USE"
  using range_node_find_hit[OF assms]
  by (auto simp: uvm_range_tree_find_hole_def uvm_range_tree_iter_first_def)

lemma uvm_range_tree_find_hole_free:
  assumes ok: "range_tree_ok t" and free: "a \<notin> covered t"
  obtains xs ys where "head t = xs @ ys" "addr_split (node_mem t) a xs ys"
    "uvm_range_tree_find_hole t a =
      Inr (if xs = [] then 0 else node_end (node_mem t (last xs)) + 1,
           if ys = [] then -1 else node_start (node_mem t (hd ys)) - 1)"
proof -
  let ?m = "node_mem t"
  from range_node_find_miss[OF ok free] obtain xs ys par where
    h: "head t = xs @ ys" and sp: "addr_split ?m a xs ys"
    and f: "range_node_find t a = (None, par, case ys of [] \<Rightarrow> None | y # _ \<Rightarrow> Some y)" by blast
  show ?thesis
  proof (cases ys)
    case Nil
    with f h have "uvm_range_tree_find_hole t a =
      Inr (if xs = [] then 0 else node_end (?m (last xs)) + 1, if ys = [] then -1 else node_start (?m (hd ys)) - 1)"
      by (simp add: uvm_range_tree_find_hole_def uvm_range_tree_iter_first_def uvm_range_tree_last_def)
    with h sp show ?thesis by (rule that)
  next
    case (Cons y zs)
    with h have h2: "head t = xs @ y # zs" by simp
    from Cons sp have "a < node_start (?m y)" by (simp add: addr_split_def)
    with f Cons h2 head_split_parts(3,4)[OF ok h2] have "uvm_range_tree_find_hole t a =
      Inr (if xs = [] then 0 else node_end (?m (last xs)) + 1, if ys = [] then -1 else node_start (?m (hd ys)) - 1)"
      by (simp add: uvm_range_tree_find_hole_def uvm_range_tree_iter_first_def uvm_range_tree_prev_def
          Let_def not_le)
    with h sp show ?thesis by (rule that)
  qed
qed

text \<open>\<^verbatim>\<open>uvm_range_tree_find_hole\<close> fails exactly on covered addresses; otherwise the hole it
  returns contains the address, holds no covered address, and is maximal on both sides. The
  additions and subtractions by one do not wrap around.\<close>

theorem uvm_range_tree_find_hole_correct:
  assumes ok: "range_tree_ok t"
  shows "case uvm_range_tree_find_hole t a of
      Inl status \<Rightarrow> status = NV_ERR_UVM_ADDRESS_IN_USE \<and> a \<in> covered t
    | Inr (s, e) \<Rightarrow> s \<le> a \<and> a \<le> e \<and> {s..e} \<inter> covered t = {} \<and>
        (s = 0 \<or> s - 1 \<in> covered t) \<and> (e = -1 \<or> e + 1 \<in> covered t)"
proof (cases "a \<in> covered t")
  case True
  then show ?thesis using uvm_range_tree_find_hole_in_use[OF ok] by simp
next
  case False
  let ?m = "node_mem t"
  from uvm_range_tree_find_hole_free[OF ok False] obtain xs ys where
    h: "head t = xs @ ys" and sp: "addr_split ?m a xs ys"
    and hole: "uvm_range_tree_find_hole t a =
      Inr (if xs = [] then 0 else node_end (?m (last xs)) + 1,
           if ys = [] then -1 else node_start (?m (hd ys)) - 1)" (is "_ = Inr (?s, ?e)")
    by blast
  have okl: "range_list_ok ?m (xs @ ys)" using range_tree_ok_D(2)[OF ok] h by simp
  have s: "?s \<le> a \<and> (\<forall>x\<in>set xs. node_end (?m x) < ?s) \<and> (?s = 0 \<or> ?s - 1 \<in> covered t)"
  proof (cases xs rule: rev_cases)
    case (snoc us p)
    with sp have lt: "node_end (?m p) < a" by (simp add: addr_split_def)
    have "\<forall>x\<in>set us. node_end (?m x) \<le> node_end (?m p)"
      using okl snoc by (auto simp: uvm_simps intro: less_imp_le order_less_le_trans)
    moreover have "node_end (?m p) < node_end (?m p) + 1"
      using plus_one_le_iff[OF lt, of "node_end (?m p)"] by (meson leI less_irrefl)
    moreover have "node_end (?m p) \<in> covered t"
      using okl snoc h by (auto simp: covered_def uvm_simps)
    ultimately show ?thesis
      using snoc lt by (auto simp: plus_one_le_iff[OF lt] intro: order_le_less_trans)
  qed simp
  have e: "a \<le> ?e \<and> (\<forall>y\<in>set ys. ?e < node_start (?m y)) \<and> (?e = -1 \<or> ?e + 1 \<in> covered t)"
  proof (cases ys)
    case (Cons q vs)
    with sp have lt: "a < node_start (?m q)" by (simp add: addr_split_def)
    have "\<forall>y\<in>set vs. node_start (?m q) \<le> node_start (?m y)"
      using okl Cons by (auto simp: uvm_simps intro: less_imp_le order_le_less_trans)
    moreover have "node_start (?m q) \<in> covered t"
      using okl Cons h by (auto simp: covered_def uvm_simps)
    ultimately show ?thesis
      using Cons lt by (auto simp: le_minus_one_iff[OF lt] minus_one_less[OF lt]
          intro: order_less_le_trans[OF minus_one_less[OF lt]])
  qed simp
  have "{?s..?e} \<inter> covered t = {}"
    using s e unfolding covered_append[OF h] by (auto, (meson leD order_le_less_trans order_less_le_trans)+)
  with s e hole show ?thesis by simp
qed

section \<open>The interface clients rely on\<close>

text \<open>
  What a client of a set of address ranges relies on: lookups agree with the covered set, an
  insertion of a free range succeeds and covers it, an insertion of an occupied range changes
  nothing, a deletion uncovers exactly the range of its node.
\<close>

locale address_ranges =
  fixes invar :: "'s \<Rightarrow> bool"
    and covers :: "'s \<Rightarrow> NvU64 set"
    and span :: "'s \<Rightarrow> 'n \<Rightarrow> NvU64 set"
    and member :: "'s \<Rightarrow> 'n \<Rightarrow> bool"
    and insert_range :: "'s \<Rightarrow> 'n \<Rightarrow> NV_STATUS \<times> 's"
    and delete_range :: "'s \<Rightarrow> 'n \<Rightarrow> 's"
    and lookup :: "'s \<Rightarrow> NvU64 \<Rightarrow> 'n option"
  assumes lookup_iff: "invar s \<Longrightarrow> lookup s a = Some n \<longleftrightarrow> member s n \<and> a \<in> span s n"
    and covers_iff: "invar s \<Longrightarrow> a \<in> covers s \<longleftrightarrow> (\<exists>n. member s n \<and> a \<in> span s n)"
    and insert_free: "invar s \<Longrightarrow> span s n \<noteq> {} \<Longrightarrow> span s n \<inter> covers s = {} \<Longrightarrow>
      \<exists>s'. insert_range s n = (NV_OK, s') \<and> invar s' \<and> span s' = span s \<and>
           covers s' = covers s \<union> span s n \<and> member s' n"
    and insert_used: "invar s \<Longrightarrow> span s n \<inter> covers s \<noteq> {} \<Longrightarrow>
      insert_range s n = (NV_ERR_UVM_ADDRESS_IN_USE, s)"
    and delete: "invar s \<Longrightarrow> member s n \<Longrightarrow> invar (delete_range s n) \<and>
      span (delete_range s n) = span s \<and> covers (delete_range s n) = covers s - span s n"
begin

lemma insert_ok_iff:
  assumes "invar s" and "span s n \<noteq> {}"
  shows "fst (insert_range s n) = NV_OK \<longleftrightarrow> span s n \<inter> covers s = {}"
  using insert_free[OF assms] insert_used[OF assms(1), of n]
  by (cases "span s n \<inter> covers s = {}") auto

lemma lookup_after_insert:
  assumes "invar s" and "a \<in> span s n" and "insert_range s n = (NV_OK, s')"
  shows "lookup s' a = Some n"
proof -
  from assms(2) have ne: "span s n \<noteq> {}" by auto
  with assms insert_ok_iff[OF assms(1) ne] insert_free[OF assms(1) ne]
  have "invar s'" "member s' n" "a \<in> span s' n" by auto
  then show ?thesis by (simp add: lookup_iff)
qed

lemma insert_delete:
  assumes "invar s" and "span s n \<noteq> {}" and "insert_range s n = (NV_OK, s')"
  shows "invar (delete_range s' n)" and "covers (delete_range s' n) = covers s"
proof -
  from assms insert_ok_iff[OF assms(1,2)] have free: "span s n \<inter> covers s = {}" by simp
  with insert_free[OF assms(1,2)] assms(3) have "invar s'" "member s' n"
    "covers s' = covers s \<union> span s n" "span s' = span s" by auto
  with delete[of s' n] free show "invar (delete_range s' n)" "covers (delete_range s' n) = covers s"
    by auto
qed

lemma insert_again_fails:
  assumes "invar s" and "span s n \<noteq> {}" and "insert_range s n = (NV_OK, s')"
  shows "insert_range s' n = (NV_ERR_UVM_ADDRESS_IN_USE, s')"
proof -
  from assms insert_ok_iff[OF assms(1,2)] have free: "span s n \<inter> covers s = {}" by simp
  with insert_free[OF assms(1,2)] assms have "invar s'" "span s' n \<inter> covers s' \<noteq> {}" by auto
  then show ?thesis by (rule insert_used)
qed

end

definition rt_invar :: "'p rb_ops \<times> 'p range_tree \<Rightarrow> bool" where
  "rt_invar s \<longleftrightarrow> rb_ops_ok (fst s) \<and> range_tree_ok (snd s)"

definition rt_insert :: "'p rb_ops \<times> 'p range_tree \<Rightarrow> 'p \<Rightarrow> NV_STATUS \<times> 'p rb_ops \<times> 'p range_tree" where
  "rt_insert s n = (let (status, t) = uvm_range_tree_add (fst s) (snd s) n in (status, fst s, t))"

interpretation rt: address_ranges rt_invar "\<lambda>s. covered (snd s)"
  "\<lambda>s n. node_span (node_mem (snd s) n)" "\<lambda>s n. n \<in> set (head (snd s))" rt_insert
  "\<lambda>s n. (fst s, uvm_range_tree_remove (fst s) (snd s) n)" "\<lambda>s. uvm_range_tree_find (snd s)"
proof (unfold_locales, goal_cases)
  case (1 s a n)
  then show ?case by (simp add: rt_invar_def uvm_range_tree_find_iff)
next
  case (2 s a)
  then show ?case by (auto simp: covered_def)
next
  case (3 s n)
  then have *: "range_tree_ok (snd s)" "rb_ops_ok (fst s)"
    "node_start (node_mem (snd s) n) \<le> node_end (node_mem (snd s) n)"
    by (auto simp: rt_invar_def node_span_def)
  show ?case
    by (rule uvm_range_tree_add_free[OF * 3(3)]) (auto simp: rt_insert_def rt_invar_def *(2))
next
  case (4 s n)
  then have *: "range_tree_ok (snd s)" "rb_ops_ok (fst s)"
    "node_start (node_mem (snd s) n) \<le> node_end (node_mem (snd s) n)" and "overlaps_any (snd s) n"
    by (auto simp: rt_invar_def overlaps_any_def intro: order_trans)
  with uvm_range_tree_add_cases[OF *] show ?case by (auto simp: rt_insert_def)
next
  case (5 s n)
  with uvm_range_tree_remove_ok[of "snd s" "fst s" n] show ?case
    by (auto simp: rt_invar_def uvm_range_tree_remove_def)
qed

section \<open>Properties of lookups and traversals\<close>

text \<open>After a successful insertion every address of the new range is found at the new node,
  inserting the node again is refused, and removing it restores the set of covered addresses.\<close>

theorem uvm_range_tree_add_find_remove:
  assumes "range_tree_ok t" and "rb_ops_ok ops"
    and "node_start (node_mem t n) \<le> a" and "a \<le> node_end (node_mem t n)"
    and "uvm_range_tree_add ops t n = (NV_OK, t')"
  shows "uvm_range_tree_find t' a = Some n \<and>
    uvm_range_tree_add ops t' n = (NV_ERR_UVM_ADDRESS_IN_USE, t') \<and>
    range_tree_ok (uvm_range_tree_remove ops t' n) \<and>
    covered (uvm_range_tree_remove ops t' n) = covered t"
proof -
  have s: "rt_invar (ops, t)" "a \<in> node_span (node_mem (snd (ops, t)) n)"
    "rt_insert (ops, t) n = (NV_OK, ops, t')"
    using assms by (auto simp: rt_invar_def rt_insert_def)
  then have ne: "node_span (node_mem (snd (ops, t)) n) \<noteq> {}" by auto
  have "rt_insert (ops, t') n = (NV_ERR_UVM_ADDRESS_IN_USE, ops, t')"
    using rt.insert_again_fails[OF s(1) ne s(3)] .
  then have "uvm_range_tree_add ops t' n = (NV_ERR_UVM_ADDRESS_IN_USE, t')"
    by (auto simp: rt_insert_def split: prod.splits)
  with rt.lookup_after_insert[OF s] rt.insert_delete[OF s(1) ne s(3)] show ?thesis
    by (auto simp: rt_invar_def)
qed

text \<open>The loop \<^verbatim>\<open>uvm_range_tree_for_each_in\<close> over a non-empty interval visits, in address
  order and without repetition, exactly the nodes whose range meets the interval.\<close>

theorem uvm_range_tree_for_each_in_correct:
  assumes ok: "range_tree_ok t" and le: "s \<le> e"
  shows "set (uvm_range_tree_for_each_in t s e) =
      {p \<in> set (head t). node_span (node_mem t p) \<inter> {s..e} \<noteq> {}} \<and>
    sorted_wrt (nodes_before (node_mem t)) (uvm_range_tree_for_each_in t s e) \<and>
    distinct (uvm_range_tree_for_each_in t s e)"
proof -
  note D = range_tree_ok_D[OF ok]
  have "uvm_ranges_overlap (node_start (node_mem t p)) (node_end (node_mem t p)) s e \<longleftrightarrow>
    node_span (node_mem t p) \<inter> {s..e} \<noteq> {}" if "p \<in> set (head t)" for p
    using that D(2) le uvm_ranges_overlap_iff[of "node_start (node_mem t p)" "node_end (node_mem t p)" s e]
    by (fastforce simp: range_list_ok_def)
  with D show ?thesis
    unfolding uvm_range_tree_for_each_in_eq[OF ok le]
    by (auto simp: range_list_ok_def intro: sorted_wrt_filter)
qed

section \<open>Concrete instances\<close>

text \<open>Tree operations without rebalancing satisfy the assumptions on the kernel's tree.\<close>

fun tree_join :: "'p tree \<Rightarrow> 'p tree \<Rightarrow> 'p tree" where
  "tree_join Leaf r = r"
| "tree_join (Node l p m) r = Node l p (tree_join m r)"

fun tree_del :: "'p \<Rightarrow> 'p tree \<Rightarrow> 'p tree" where
  "tree_del p Leaf = Leaf"
| "tree_del p (Node l q r) =
     (if q = p then tree_join l r
      else if p \<in> set_tree l then Node (tree_del p l) q r else Node l q (tree_del p r))"

definition plain_ops :: "'p rb_ops" where
  "plain_ops = \<lparr>rb_insert_color = (\<lambda>p t. t), rb_erase = tree_del\<rparr>"

lemma inorder_tree_join [simp]: "inorder (tree_join l r) = inorder l @ inorder r"
  by (induction l r rule: tree_join.induct) auto

lemma inorder_tree_del: "distinct (inorder t) \<Longrightarrow> inorder (tree_del p t) = remove1 p (inorder t)"
  by (induction p t rule: tree_del.induct) (auto simp: remove1_append remove1_idem)

lemma plain_ops_ok: "rb_ops_ok plain_ops"
  by (auto simp: rb_ops_ok_def plain_ops_def inorder_tree_del)

definition sample_mem :: "nat \<Rightarrow> range_node" where
  "sample_mem p = (if p = 0 then \<lparr>node_start = 0x1000, node_end = 0x1FFF\<rparr>
     else if p = 1 then \<lparr>node_start = 0x3000, node_end = 0x3FFF\<rparr>
     else if p = 2 then \<lparr>node_start = 0x2000, node_end = 0x27FF\<rparr>
     else \<lparr>node_start = 0x3800, node_end = 0\<rparr>)"

definition sample_tree :: "nat range_tree" where
  "sample_tree = \<lparr>rb_root = Node Leaf 0 (Node Leaf 1 Leaf), head = [0, 1], node_mem = sample_mem\<rparr>"

lemma sample_tree_ok: "range_tree_ok sample_tree"
  by (simp add: range_tree_ok_def sample_tree_def range_list_ok_def nodes_before_def sample_mem_def)

lemma sample_covered: "covered sample_tree = {0x1000..0x1FFF} \<union> {0x3000..0x3FFF}"
  by (simp add: covered_def sample_tree_def sample_mem_def node_span_def)

lemma sample_spans:
  "node_span (node_mem sample_tree 2) = {0x2000..0x27FF}"
  "node_span (node_mem sample_tree 0) = {0x1000..0x1FFF}"
  by (simp_all add: sample_tree_def sample_mem_def node_span_def)

lemma sample_free: "node_span (node_mem sample_tree 2) \<inter> covered sample_tree = {}"
  by (simp add: sample_covered sample_spans Int_Un_distrib Icc_disjoint)

theorem uvm_range_tree_add_correct_witness:
  "\<exists>t'. uvm_range_tree_add plain_ops sample_tree 2 = (NV_OK, t') \<and> range_tree_ok t' \<and>
     covered t' = covered sample_tree \<union> {0x2000..0x27FF}"
proof -
  obtain status t' where run: "uvm_range_tree_add plain_ops sample_tree 2 = (status, t')" by fastforce
  have "node_start (node_mem sample_tree 2) \<le> node_end (node_mem sample_tree 2)"
    by (simp add: sample_tree_def sample_mem_def)
  from uvm_range_tree_add_correct[OF sample_tree_ok plain_ops_ok this run] run sample_free
  show ?thesis by (simp add: sample_spans)
qed

definition split_mem :: "nat \<Rightarrow> range_node" where
  "split_mem = sample_mem(2 := \<lparr>node_start = 0x1800, node_end = 0\<rparr>)"

theorem uvm_range_tree_split_correct_witness:
  "\<exists>t'. uvm_range_tree_split plain_ops (sample_tree\<lparr>node_mem := split_mem\<rparr>) 0 2 = (NV_OK, t') \<and>
     range_tree_ok t' \<and> node_mem t' 0 = \<lparr>node_start = 0x1000, node_end = 0x17FF\<rparr> \<and>
     node_mem t' 2 = \<lparr>node_start = 0x1800, node_end = 0x1FFF\<rparr>"
proof -
  let ?t = "sample_tree\<lparr>node_mem := split_mem\<rparr>"
  obtain status t' where run: "uvm_range_tree_split plain_ops ?t 0 2 = (status, t')" by fastforce
  have ok: "range_tree_ok ?t" and h: "0 \<in> set (head ?t)" "2 \<notin> set (head ?t)"
    and b: "node_start (node_mem ?t 0) < node_start (node_mem ?t 2)"
      "node_start (node_mem ?t 2) \<le> node_end (node_mem ?t 0)"
    by (simp_all add: range_tree_ok_def sample_tree_def range_list_ok_def nodes_before_def
        sample_mem_def split_mem_def)
  from uvm_range_tree_split_correct[OF ok plain_ops_ok h b run] run show ?thesis
    by (simp add: split_mem_def sample_mem_def)
qed

theorem uvm_range_tree_find_hole_correct_witness:
  "uvm_range_tree_find_hole sample_tree 0x2345 = Inr (0x2000, 0x2FFF) \<and>
   {0x2000..0x2FFF} \<inter> covered sample_tree = {}"
proof -
  have "uvm_range_tree_find_hole sample_tree 0x2345 = Inr (0x2000, 0x2FFF)"
    by (simp add: uvm_range_tree_find_hole_def uvm_range_tree_iter_first_def range_node_find_def
        sample_tree_def sample_mem_def uvm_range_tree_prev_def uvm_range_tree_next_def)
  with uvm_range_tree_find_hole_correct[OF sample_tree_ok, of "0x2345"] show ?thesis by simp
qed

theorem uvm_range_tree_add_find_remove_witness:
  "\<exists>t'. uvm_range_tree_add plain_ops sample_tree 2 = (NV_OK, t') \<and>
     uvm_range_tree_find t' 0x2345 = Some 2 \<and>
     covered (uvm_range_tree_remove plain_ops t' 2) = covered sample_tree"
proof -
  have le: "node_start (node_mem sample_tree 2) \<le> node_end (node_mem sample_tree 2)"
    by (simp add: sample_tree_def sample_mem_def)
  from uvm_range_tree_add_free[OF sample_tree_ok plain_ops_ok le sample_free]
  obtain t' where run: "uvm_range_tree_add plain_ops sample_tree 2 = (NV_OK, t')" by blast
  have b: "node_start (node_mem sample_tree 2) \<le> 0x2345" "0x2345 \<le> node_end (node_mem sample_tree 2)"
    by (simp_all add: sample_tree_def sample_mem_def)
  from uvm_range_tree_add_find_remove[OF sample_tree_ok plain_ops_ok b run] run show ?thesis by blast
qed

theorem uvm_range_tree_for_each_in_correct_witness:
  "uvm_range_tree_for_each_in sample_tree 0x1800 0x2FFF = [0] \<and>
   {p \<in> set (head sample_tree). node_span (node_mem sample_tree p) \<inter> {0x1800..0x2FFF} \<noteq> {}} = {0}"
proof -
  have "uvm_range_tree_for_each_in sample_tree 0x1800 0x2FFF = [0]"
    by (simp add: uvm_range_tree_for_each_in_def uvm_range_tree_iter_first_def range_node_find_def
        uvm_range_tree_iter_next_def sample_tree_def sample_mem_def uvm_range_tree_next_def)
  moreover have "(0x1800 :: NvU64) \<le> 0x2FFF" by simp
  ultimately show ?thesis
    using uvm_range_tree_for_each_in_correct[OF sample_tree_ok, of "0x1800" "0x2FFF"] by simp
qed

end
