(* ===== verification/Range_Allocator.thy ===== *)
theory Range_Allocator
  imports Range_Tree
begin

text \<open>
  The range allocator of \<^verbatim>\<open>uvm_range_allocator.c\<close>: a range tree of the free ranges of
  \<^verbatim>\<open>[0, size)\<close>, first-fit allocation with alignment, and freeing with coalescing. The
  spinlock makes each operation atomic; a call of the kernel's allocator is the argument
  \<open>new_node\<close>, the address it returns or \<open>None\<close>.
\<close>

section \<open>Data and operations\<close>

record 'p range_allocator =
  range_tree :: "'p range_tree"
  ra_size :: NvU64

record 'p range_allocation =
  alloc_node :: "'p option"
  aligned_start :: NvU64

definition uvm_range_allocator_init ::
    "'p rb_ops \<Rightarrow> ('p \<Rightarrow> range_node) \<Rightarrow> 'p option \<Rightarrow> NvU64 \<Rightarrow> NV_STATUS + 'p range_allocator" where
  "uvm_range_allocator_init ops m new_node sz =
     (case new_node of
        None \<Rightarrow> Inl NV_ERR_NO_MEMORY
      | Some node \<Rightarrow>
          (let tree = uvm_range_tree_init (m(node := \<lparr>node_start = 0, node_end = sz - 1\<rparr>));
               (status, tree') = uvm_range_tree_add ops tree node
           in Inr \<lparr>range_tree = tree', ra_size = sz\<rparr>))"

definition uvm_range_allocator_deinit :: "'p rb_ops \<Rightarrow> 'p range_allocator \<Rightarrow> 'p range_allocator option" where
  "uvm_range_allocator_deinit ops ra =
     (case uvm_range_tree_iter_first (range_tree ra) 0 (ra_size ra - 1) of
        None \<Rightarrow> None
      | Some node \<Rightarrow> Some (ra\<lparr>range_tree := uvm_range_tree_remove ops (range_tree ra) node\<rparr>))"

text \<open>The assertions of \<^verbatim>\<open>uvm_range_allocator_deinit\<close>: one free node spans the whole range.\<close>

definition deinit_asserts :: "'p range_allocator \<Rightarrow> bool" where
  "deinit_asserts ra \<longleftrightarrow>
     (case uvm_range_tree_iter_first (range_tree ra) 0 (ra_size ra - 1) of
        None \<Rightarrow> False
      | Some node \<Rightarrow> node_start (node_mem (range_tree ra) node) = 0 \<and>
                     node_end (node_mem (range_tree ra) node) = ra_size ra - 1)"

text \<open>
  One iteration of the search loop on a free node: \<open>None\<close> is \<^verbatim>\<open>continue\<close>, otherwise the
  aligned start and end of the claimed range.
\<close>

definition try_node :: "range_node \<Rightarrow> NvU64 \<Rightarrow> NvU64 \<Rightarrow> (NvU64 \<times> NvU64) option" where
  "try_node node sz alignment =
     (let astart = UVM_ALIGN_UP (node_start node) alignment;
          aend = astart + sz - 1
      in if astart < node_start node \<or> aend < astart then None
         else if aend > node_end node then None
         else Some (astart, aend))"

fun find_fit :: "('p \<Rightarrow> range_node) \<Rightarrow> NvU64 \<Rightarrow> NvU64 \<Rightarrow> 'p list \<Rightarrow> ('p \<times> NvU64 \<times> NvU64) option" where
  "find_fit m sz alignment [] = None"
| "find_fit m sz alignment (node # nodes) =
     (case try_node (m node) sz alignment of
        Some (astart, aend) \<Rightarrow> Some (node, astart, aend)
      | None \<Rightarrow> find_fit m sz alignment nodes)"

definition uvm_range_allocator_alloc ::
    "'p rb_ops \<Rightarrow> 'p option \<Rightarrow> 'p range_allocator \<Rightarrow> NvU64 \<Rightarrow> NvU64 \<Rightarrow>
     NV_STATUS \<times> 'p range_allocator \<times> 'p range_allocation option" where
  "uvm_range_allocator_alloc ops new_node ra sz alignment0 =
     (let alignment = (if alignment0 = 0 then 1 else alignment0) in
      if sz > ra_size ra then (NV_ERR_UVM_ADDRESS_IN_USE, ra, None)
      else case new_node of
        None \<Rightarrow> (NV_ERR_NO_MEMORY, ra, None)
      | Some n \<Rightarrow>
          (let tree = range_tree ra; m = node_mem tree in
           case find_fit m sz alignment (uvm_range_tree_for_each_in tree 0 (ra_size ra - sz)) of
             None \<Rightarrow> (NV_ERR_UVM_ADDRESS_IN_USE, ra, None)
           | Some (node, astart, aend) \<Rightarrow>
               (let tree1 = tree\<lparr>node_mem := m(n := \<lparr>node_start = node_start (m node), node_end = aend\<rparr>)\<rparr>;
                    tree2 = (if aend < node_end (m node)
                             then uvm_range_tree_shrink_node tree1 node (aend + 1) (node_end (m node))
                             else uvm_range_tree_remove ops tree1 node)
                in (NV_OK, ra\<lparr>range_tree := tree2\<rparr>,
                    Some \<lparr>alloc_node = Some n, aligned_start = astart\<rparr>))))"

definition uvm_range_allocator_free ::
    "'p rb_ops \<Rightarrow> 'p range_allocator \<Rightarrow> 'p range_allocation option \<Rightarrow>
     'p range_allocator \<times> 'p range_allocation option" where
  "uvm_range_allocator_free ops ra range_alloc =
     (case range_alloc of
        None \<Rightarrow> (ra, None)
      | Some al \<Rightarrow> (case alloc_node al of
          None \<Rightarrow> (ra, Some al)
        | Some n \<Rightarrow>
            (let (status, tree1) = uvm_range_tree_add ops (range_tree ra) n;
                 (_, tree2) = uvm_range_tree_merge_prev ops tree1 n;
                 (_, tree3) = uvm_range_tree_merge_next ops tree2 n
             in (ra\<lparr>range_tree := tree3\<rparr>, Some (al\<lparr>alloc_node := None\<rparr>)))))"

section \<open>Invariant\<close>

definition coalesced :: "('p \<Rightarrow> range_node) \<Rightarrow> 'p list \<Rightarrow> bool" where
  "coalesced m ps \<longleftrightarrow> successively (\<lambda>p q. node_end (m p) + 1 \<noteq> node_start (m q)) ps"

text \<open>
  \<open>live\<close> are the nodes of the allocations not yet freed: their ranges and the free ranges
  partition \<^verbatim>\<open>[0, size)\<close>, and no two free ranges touch.
\<close>

definition ra_ok :: "'p range_allocator \<Rightarrow> 'p list \<Rightarrow> bool" where
  "ra_ok ra live \<longleftrightarrow>
     0 < ra_size ra \<and> range_tree_ok (range_tree ra) \<and>
     coalesced (node_mem (range_tree ra)) (head (range_tree ra)) \<and>
     distinct live \<and> set live \<inter> set (head (range_tree ra)) = {} \<and>
     (\<forall>n\<in>set live. node_start (node_mem (range_tree ra) n) \<le> node_end (node_mem (range_tree ra) n)) \<and>
     (\<forall>n\<in>set live. \<forall>k\<in>set live. n \<noteq> k \<longrightarrow>
        node_span (node_mem (range_tree ra) n) \<inter> node_span (node_mem (range_tree ra) k) = {}) \<and>
     (\<forall>n\<in>set live. node_span (node_mem (range_tree ra) n) \<inter> covered (range_tree ra) = {}) \<and>
     covered (range_tree ra) \<union> (\<Union>n\<in>set live. node_span (node_mem (range_tree ra) n)) =
       {0 .. ra_size ra - 1}"

lemma coalesced_append [uvm_simps]:
  "coalesced m (xs @ ys) \<longleftrightarrow> coalesced m xs \<and> coalesced m ys \<and>
     (xs = [] \<or> ys = [] \<or> node_end (m (last xs)) + 1 \<noteq> node_start (m (hd ys)))"
  by (auto simp: coalesced_def successively_append_iff)

lemma coalesced_Cons [uvm_simps]:
  "coalesced m (x # ys) \<longleftrightarrow> coalesced m ys \<and>
     (ys = [] \<or> node_end (m x) + 1 \<noteq> node_start (m (hd ys)))"
  by (cases ys) (auto simp: coalesced_def)

lemma coalesced_Nil [simp]: "coalesced m []"
  by (simp add: coalesced_def)

lemma coalesced_fun_upd [simp]:
  "n \<notin> set ps \<Longrightarrow> coalesced (m(n := v)) ps = coalesced m ps"
  unfolding coalesced_def by (rule successively_cong) auto

text \<open>In a coalesced tree a run of covered addresses lies inside one node.\<close>

lemma covered_run_single:
  assumes ok: "range_tree_ok t" and co: "coalesced (node_mem t) (head t)"
    and le: "s \<le> e" and sub: "{s..e} \<subseteq> covered t"
  shows "\<exists>p\<in>set (head t). node_start (node_mem t p) \<le> s \<and> e \<le> node_end (node_mem t p)"
proof -
  let ?m = "node_mem t"
  from sub le have "s \<in> covered t" by auto
  then obtain p where p: "p \<in> set (head t)" "node_start (?m p) \<le> s" "s \<le> node_end (?m p)"
    by (auto simp: covered_def)
  then obtain xs ys where h: "head t = xs @ p # ys" by (meson split_list)
  note P = head_split_parts[OF ok h]
  have "e \<le> node_end (?m p)"
  proof (rule ccontr)
    assume "\<not> e \<le> node_end (?m p)"
    then have lt: "node_end (?m p) < e" by simp
    then have up: "node_end (?m p) < node_end (?m p) + 1"
      using plus_one_le_iff[OF lt, of "node_end (?m p)"] by (meson leI less_irrefl)
    then have "node_end (?m p) + 1 \<in> {s..e}" using p lt by (auto simp: plus_one_le_iff[OF lt])
    with sub obtain q where q: "q \<in> set (head t)" "node_start (?m q) \<le> node_end (?m p) + 1"
      "node_end (?m p) + 1 \<le> node_end (?m q)" by (auto simp: covered_def)
    then have pq: "node_end (?m p) < node_end (?m q)" by (simp add: plus_one_le_iff[OF lt])
    have "q \<in> set ys"
      using q(1) h P(5,6) pq by (auto dest: less_trans less_le_trans)
    then obtain y zs where ys: "ys = y # zs" by (cases ys) auto
    have y: "node_end (?m p) < node_start (?m y)" using P ys by simp
    then have "node_start (?m y) \<le> node_end (?m p) + 1"
    proof (cases "q = y")
      case False
      with \<open>q \<in> set ys\<close> ys P(2) have "node_end (?m y) < node_start (?m q)"
        "node_start (?m y) \<le> node_end (?m y)" by (auto simp: uvm_simps)
      with q(2) show ?thesis by (meson le_less_trans less_imp_le less_le_trans)
    qed (use q in simp)
    moreover have "node_end (?m p) + 1 \<le> node_start (?m y)" using y by (simp add: plus_one_le_iff[OF lt])
    ultimately have "node_end (?m p) + 1 = node_start (?m y)" by simp
    with co h ys show False by (simp add: uvm_simps)
  qed
  with p show ?thesis by blast
qed

section \<open>Initialisation and teardown\<close>

lemma uvm_range_allocator_init_ok:
  assumes ops: "rb_ops_ok ops" and sz: "0 < sz"
  shows "case uvm_range_allocator_init ops m (Some node) sz of
     Inl _ \<Rightarrow> False | Inr ra \<Rightarrow> ra_ok ra [] \<and> ra_size ra = sz"
proof -
  let ?t = "uvm_range_tree_init (m(node := \<lparr>node_start = 0, node_end = sz - 1\<rparr>))"
  have ok: "range_tree_ok ?t" and le: "node_start (node_mem ?t node) \<le> node_end (node_mem ?t node)"
    and cov: "covered ?t = {}"
    by (auto simp: uvm_range_tree_init_def range_tree_ok_def covered_def)
  then have free: "node_span (node_mem ?t node) \<inter> covered ?t = {}" by simp
  show ?thesis
    by (rule uvm_range_tree_add_free[OF ok ops le free])
      (use sz cov in \<open>simp add: uvm_range_allocator_init_def ra_ok_def uvm_range_tree_init_def
        uvm_simps node_span_def\<close>)
qed

lemma deinit_single_node:
  assumes "ra_ok ra []"
  shows "\<exists>p. uvm_range_tree_iter_first (range_tree ra) 0 (ra_size ra - 1) = Some p \<and>
     head (range_tree ra) = [p] \<and>
     node_mem (range_tree ra) p = \<lparr>node_start = 0, node_end = ra_size ra - 1\<rparr>"
proof -
  let ?t = "range_tree ra" and ?m = "node_mem (range_tree ra)"
  from assms have ok: "range_tree_ok ?t" and co: "coalesced ?m (head ?t)"
    and cov: "covered ?t = {0 .. ra_size ra - 1}" by (auto simp: ra_ok_def)
  have zero: "0 \<in> covered ?t" using cov by auto
  from range_node_find_hit[OF ok zero] obtain xs p ys where
    h: "head ?t = xs @ p # ys" and sp: "0 \<in> node_span (?m p)"
    and it: "uvm_range_tree_iter_first ?t 0 (ra_size ra - 1) = Some p"
    by (auto simp: uvm_range_tree_iter_first_def)
  from covered_run_single[OF ok co, of 0 "ra_size ra - 1"] cov obtain q where
    q: "q \<in> set (head ?t)" "node_start (?m q) = 0" "ra_size ra - 1 \<le> node_end (?m q)" by auto
  note P = head_split_parts[OF ok h]
  have qp: "q = p" using q(1,2) h sp P spans_disjoint[OF range_tree_ok_D(2)[OF ok] q(1), of p] by fastforce
  have "node_end (?m p) \<in> covered ?t" using P(5) h by (auto simp: covered_def)
  with cov qp q have e: "node_end (?m p) = ra_size ra - 1" by auto
  have "xs = []" using P(6) qp q(2) by (cases xs) auto
  moreover have "ys = []"
  proof (rule ccontr)
    assume "ys \<noteq> []"
    then obtain y where y: "y \<in> set ys" by (cases ys) auto
    then have "node_end (?m p) < node_start (?m y)" "node_start (?m y) \<in> covered ?t"
      using P h by (auto simp: covered_def range_list_ok_def intro!: bexI[of _ y])
    with e cov show False by auto
  qed
  ultimately show ?thesis using it h e qp q by (intro exI[of _ p]) (cases "?m p", auto)
qed

section \<open>Allocation\<close>

lemma try_node_SomeD:
  assumes "try_node nd sz al = Some (s, e)"
  shows "s = UVM_ALIGN_UP (node_start nd) al" "e = s + sz - 1"
    "node_start nd \<le> s" "s \<le> e" "e \<le> node_end nd"
  using assms by (auto simp: try_node_def Let_def not_less split: if_splits)

lemma find_fit_SomeD:
  "find_fit m sz al ps = Some (p, s, e) \<Longrightarrow> p \<in> set ps \<and> try_node (m p) sz al = Some (s, e)"
  by (induction ps) (auto split: option.splits)

lemma find_fit_None_iff: "find_fit m sz al ps = None \<longleftrightarrow> (\<forall>p\<in>set ps. try_node (m p) sz al = None)"
  by (induction ps) (auto split: option.splits)

text \<open>A node that holds an aligned range of the requested size is accepted.\<close>

lemma try_node_complete:
  fixes s sz :: NvU64
  assumes k: "k < 64" and al: "2 ^ k dvd unat s" and sz: "0 < sz"
    and lo: "node_start nd \<le> s" and noov: "s \<le> s + sz - 1" and hi: "s + sz - 1 \<le> node_end nd"
  shows "try_node nd sz (2 ^ k) \<noteq> None"
proof -
  define a where "a = UVM_ALIGN_UP (node_start nd) (2 ^ k)"
  have a: "node_start nd \<le> a" "a \<le> s"
    using UVM_ALIGN_UP_least[OF k al lo] by (simp_all add: a_def)
  have sz1: "unat (sz - 1) = unat sz - 1" using sz by (simp add: unat_minus_one word_neq_0_conv)
  have e: "x + sz - 1 = x + (sz - 1)" for x :: NvU64 by simp
  have nov: "unat s + unat (sz - 1) < 2 ^ 64"
    using noov unfolding e by (simp add: no_olen_add_nat)
  moreover have "unat a \<le> unat s" using a(2) by (simp add: word_le_nat_alt)
  ultimately have "unat a + unat (sz - 1) < 2 ^ 64" by simp
  then have "unat (a + (sz - 1)) = unat a + unat (sz - 1)" "unat (s + (sz - 1)) = unat s + unat (sz - 1)"
    using nov by (simp_all add: unat_plus_if')
  then have "a \<le> a + (sz - 1)" "a + (sz - 1) \<le> s + (sz - 1)"
    using \<open>unat a \<le> unat s\<close> by (simp_all add: word_le_nat_alt)
  with hi a show ?thesis by (auto simp: try_node_def Let_def e not_less simp flip: a_def)
qed

lemma ra_okD:
  assumes "ra_ok ra live"
  shows "0 < ra_size ra" "range_tree_ok (range_tree ra)"
    "coalesced (node_mem (range_tree ra)) (head (range_tree ra))"
    "covered (range_tree ra) \<subseteq> {0 .. ra_size ra - 1}"
  using assms unfolding ra_ok_def by blast+

lemma head_in_bounds:
  assumes "ra_ok ra live" and "p \<in> set (head (range_tree ra))"
  shows "node_end (node_mem (range_tree ra) p) \<le> ra_size ra - 1"
proof -
  from assms have "node_end (node_mem (range_tree ra) p) \<in> covered (range_tree ra)"
    by (auto simp: ra_ok_def covered_def range_tree_ok_def range_list_ok_def)
  with ra_okD(4)[OF assms(1)] show ?thesis by auto
qed

text \<open>The search visits every node that could hold the request.\<close>

lemma fit_nodes_visited:
  assumes ok: "ra_ok ra live" and p: "p \<in> set (head (range_tree ra))"
    and sz: "0 < sz" "sz \<le> ra_size ra"
    and "try_node (node_mem (range_tree ra) p) sz al = Some (s, e)"
  shows "p \<in> set (uvm_range_tree_for_each_in (range_tree ra) 0 (ra_size ra - sz))"
proof -
  let ?m = "node_mem (range_tree ra)"
  note T = try_node_SomeD[OF assms(5)]
  have le: "unat sz \<le> unat (ra_size ra)" "0 < unat sz" using sz by (simp_all add: word_le_nat_alt unat_gt_0)
  have d: "unat (ra_size ra - sz) = unat (ra_size ra) - unat sz" using sz by (simp add: unat_sub)
  have d1: "unat (ra_size ra - 1) = unat (ra_size ra) - 1"
    using ra_okD(1)[OF ok] by (simp add: unat_minus_one word_neq_0_conv)
  have sz1: "unat (sz - 1) = unat sz - 1" using sz by (simp add: unat_minus_one word_neq_0_conv)
  have e: "e = s + (sz - 1)" using T by simp
  then have "unat e = unat s + (unat sz - 1)" using T(4) sz1 by (metis no_olen_add_nat unat_add_lem)
  moreover have "unat e \<le> unat (ra_size ra) - 1"
    using order_trans[OF T(5) head_in_bounds[OF ok p]] d1 by (simp add: word_le_nat_alt)
  ultimately have "unat s \<le> unat (ra_size ra - sz)" using le d by linarith
  then have "node_start (?m p) \<le> ra_size ra - sz" 
    by (intro order_trans[OF T(3)]) (simp add: word_le_nat_alt)
  moreover have "node_start (?m p) \<le> node_end (?m p)" 
    using order_trans[OF T(3) order_trans[OF T(4,5)]] .
  ultimately show ?thesis
    using p uvm_range_tree_for_each_in_eq[OF ra_okD(2)[OF ok], of 0 "ra_size ra - sz"]
    by (simp add: uvm_ranges_overlap_def)
qed

lemma try_node_size:
  assumes ok: "ra_ok ra live" and p: "p \<in> set (head (range_tree ra))" and sz: "0 < sz"
    and tr: "try_node (node_mem (range_tree ra) p) sz al = Some (s, e)"
  shows "sz \<le> ra_size ra"
proof -
  note T = try_node_SomeD[OF tr]
  have "e = s + (sz - 1)" using T by simp
  with T(4) have "unat e = unat s + unat (sz - 1)" by (metis no_olen_add_nat unat_add_lem)
  then have "sz - 1 \<le> e" by (simp add: word_le_nat_alt)
  also have "e \<le> ra_size ra - 1" using order_trans[OF T(5) head_in_bounds[OF ok p]] .
  finally have "sz - 1 < ra_size ra" by (simp add: le_minus_one_iff[OF ra_okD(1)[OF ok]])
  then show ?thesis using plus_one_le_iff[of "sz - 1"] by fastforce
qed

text \<open>Taking a prefix \<open>[start, e]\<close> of a free node away, as both branches of the allocation do.\<close>

definition claim_prefix :: "'p rb_ops \<Rightarrow> 'p range_tree \<Rightarrow> 'p \<Rightarrow> NvU64 \<Rightarrow> 'p range_tree" where
  "claim_prefix ops t p e =
     (if e < node_end (node_mem t p)
      then uvm_range_tree_shrink_node t p (e + 1) (node_end (node_mem t p))
      else uvm_range_tree_remove ops t p)"

lemma claim_prefix_ok:
  assumes ok: "range_tree_ok t" and ops: "rb_ops_ok ops" and co: "coalesced (node_mem t) (head t)"
    and p: "p \<in> set (head t)" and b: "node_start (node_mem t p) \<le> e" "e \<le> node_end (node_mem t p)"
  shows "range_tree_ok (claim_prefix ops t p e)"
    and "coalesced (node_mem (claim_prefix ops t p e)) (head (claim_prefix ops t p e))"
    and "covered (claim_prefix ops t p e) = covered t - {node_start (node_mem t p) .. e}"
    and "set (head (claim_prefix ops t p e)) \<subseteq> set (head t)"
    and "q \<notin> set (head t) \<Longrightarrow> node_mem (claim_prefix ops t p e) q = node_mem t q"
proof -
  let ?m = "node_mem t" and ?t' = "claim_prefix ops t p e"
  from p obtain xs ys where h: "head t = xs @ p # ys" by (meson split_list)
  note P = head_split_parts[OF ok h]
  note C = co[unfolded h]
  have *: "range_tree_ok ?t' \<and> coalesced (node_mem ?t') (head ?t') \<and>
    covered ?t' = covered t - {node_start (?m p) .. e} \<and> set (head ?t') \<subseteq> set (head t) \<and>
    (q \<notin> set (head t) \<longrightarrow> node_mem ?t' q = ?m q)"
  proof (cases "e < node_end (?m p)")
    case True
    have lo: "node_start (?m p) \<le> e + 1" and e1: "e + 1 \<le> node_end (?m p)"
      using True b(1) plus_one_le_iff[OF True] by (auto intro: order_trans less_imp_le)
    have t': "?t' = uvm_range_tree_shrink_node t p (e + 1) (node_end (?m p))"
      using True by (simp add: claim_prefix_def)
    note S = uvm_range_tree_shrink_node_ok[OF ok p e1 lo order_refl]
    have "xs \<noteq> [] \<Longrightarrow> node_end (?m (last xs)) \<noteq> e"
      using P(6) b(1) last_in_set[of xs] by (auto dest: order_less_le_trans)
    then have "coalesced (node_mem ?t') (head ?t')"
      using C P(3,4) last_in_set[of xs] hd_in_set[of ys] by (auto simp: t' uvm_range_tree_shrink_node_def h uvm_simps)
    moreover have "node_span (?m p) - {e + 1 .. node_end (?m p)} = {node_start (?m p) .. e}"
      using b by (auto simp: plus_one_le_iff[OF True] intro: order_trans)
    ultimately show ?thesis
      using S p by (auto simp: t' uvm_range_tree_shrink_node_def)
  next
    case False
    with b have e: "e = node_end (?m p)" by simp
    have t': "?t' = uvm_range_tree_remove ops t p" using False by (simp add: claim_prefix_def)
    have mid: "node_end (?m x) + 1 \<noteq> node_start (?m y)" if "x \<in> set xs" "y \<in> set ys" for x y
    proof -
      have "node_end (?m x) < node_start (?m p)" "node_end (?m p) < node_start (?m y)"
        using P that by auto
      with P(5) show ?thesis by (metis inc_le leD order_le_less_trans)
    qed
    have "coalesced ?m (xs @ ys)"
      using C mid[of "last xs" "hd ys"] by (auto simp: uvm_simps)
    then have "coalesced (node_mem ?t') (head ?t')"
      using head_remove_mid[OF ok h, of ops] by (simp add: t' uvm_range_tree_remove_def)
    with uvm_range_tree_remove_ok[OF ok ops p] show ?thesis
      unfolding t' by (auto simp: e node_span_def) (simp add: uvm_range_tree_remove_def)
  qed
  then show "range_tree_ok ?t'" "coalesced (node_mem ?t') (head ?t')"
    "covered ?t' = covered t - {node_start (?m p) .. e}" "set (head ?t') \<subseteq> set (head t)"
    "q \<notin> set (head t) \<Longrightarrow> node_mem ?t' q = ?m q" by blast+
qed

lemma align_one: "UVM_ALIGN_UP x 1 = x"
  by (simp add: UVM_ALIGN_UP_def)

lemma uvm_range_allocator_alloc_found:
  assumes ok: "ra_ok ra live" and ops: "rb_ops_ok ops"
    and fresh: "n \<notin> set (head (range_tree ra))" "n \<notin> set live"
    and sz: "0 < sz" "sz \<le> ra_size ra"
    and al: "al = (if al0 = 0 then 1 else al0)"
    and ff: "find_fit (node_mem (range_tree ra)) sz al
        (uvm_range_tree_for_each_in (range_tree ra) 0 (ra_size ra - sz)) = Some (p, s, e)"
  shows "\<exists>ra'. uvm_range_allocator_alloc ops (Some n) ra sz al0 =
      (NV_OK, ra', Some \<lparr>alloc_node = Some n, aligned_start = s\<rparr>) \<and>
    ra_ok ra' (n # live) \<and> ra_size ra' = ra_size ra \<and>
    node_mem (range_tree ra') n = \<lparr>node_start = node_start (node_mem (range_tree ra) p), node_end = e\<rparr> \<and>
    p \<in> set (head (range_tree ra)) \<and>
    node_span (node_mem (range_tree ra') n) \<subseteq> covered (range_tree ra) \<and>
    covered (range_tree ra') = covered (range_tree ra) - node_span (node_mem (range_tree ra') n)"
proof -
  let ?t = "range_tree ra" and ?m = "node_mem (range_tree ra)"
  define t1 where "t1 = ?t\<lparr>node_mem := ?m(n := \<lparr>node_start = node_start (?m p), node_end = e\<rparr>)\<rparr>"
  define t2 where "t2 = claim_prefix ops t1 p e"
  have le: "(0::NvU64) \<le> ra_size ra - sz" by simp
  from find_fit_SomeD[OF ff] have pin: "p \<in> set (uvm_range_tree_for_each_in ?t 0 (ra_size ra - sz))"
    and tr: "try_node (?m p) sz al = Some (s, e)" by auto
  then have p: "p \<in> set (head ?t)"
    using uvm_range_tree_for_each_in_eq[OF ra_okD(2)[OF ok] le] by simp
  note T = try_node_SomeD[OF tr]
  from p fresh have np: "n \<noteq> p" by auto
  have b: "node_start (node_mem t1 p) \<le> e" "e \<le> node_end (node_mem t1 p)"
    using np T by (auto simp: t1_def)
  have ok1: "range_tree_ok t1" "coalesced (node_mem t1) (head t1)" "p \<in> set (head t1)"
    and cov1: "covered t1 = covered ?t"
    using ra_okD[OF ok] fresh p by (simp_all add: t1_def)
  note C = claim_prefix_ok[OF ok1(1) ops ok1(2,3) b, folded t2_def]
  have mem: "q \<notin> set (head ?t) \<Longrightarrow> node_mem t2 q = node_mem t1 q" for q
    using C(5)[of q] by (simp add: t1_def)
  have mn: "node_mem t2 n = \<lparr>node_start = node_start (?m p), node_end = e\<rparr>"
    using mem[OF fresh(1)] by (simp add: t1_def)
  have sub: "node_span (node_mem t2 n) \<subseteq> covered ?t"
    using p order_trans[OF _ T(5)] by (auto simp: mn covered_def intro!: bexI[of _ p])
  have cov: "covered t2 = covered ?t - node_span (node_mem t2 n)"
    using C(3) np by (simp add: cov1 mn node_span_def) (simp add: t1_def)
  have live: "node_mem t2 k = ?m k" if "k \<in> set live" for k
  proof -
    have "k \<notin> set (head ?t)" "k \<noteq> n" using that ok fresh by (auto simp: ra_ok_def)
    then show ?thesis using mem[of k] by (simp add: t1_def)
  qed
  have "ra_ok (ra\<lparr>range_tree := t2\<rparr>) (n # live)"
    unfolding ra_ok_def
  proof (intro conjI, goal_cases)
    case 5
    with ok fresh C(4) show ?case by (auto simp: ra_ok_def t1_def)
  next
    case 6
    with ok live mn T show ?case by (auto simp: ra_ok_def intro: order_trans)
  next
    case 7
    have "node_span (node_mem t2 n) \<inter> node_span (?m k) = {}" if "k \<in> set live" for k
      using that ok sub unfolding ra_ok_def by blast
    with ok live fresh show ?case by (simp add: ra_ok_def Int_commute)
  next
    case 8
    with ok live cov sub show ?case by (auto simp: ra_ok_def)
  next
    case 9
    have "covered t2 \<union> node_span (node_mem t2 n) = covered ?t" using cov sub by blast
    moreover have "(\<Union>k\<in>set live. node_span (node_mem t2 k)) = (\<Union>k\<in>set live. node_span (?m k))"
      using live by simp
    ultimately show ?case using ok by (simp add: ra_ok_def Un_assoc[symmetric])
  qed (use ok C fresh in \<open>simp_all add: ra_ok_def\<close>)
  moreover have "uvm_range_allocator_alloc ops (Some n) ra sz al0 =
      (NV_OK, ra\<lparr>range_tree := t2\<rparr>, Some \<lparr>alloc_node = Some n, aligned_start = s\<rparr>)"
    using sz ff np by (simp add: uvm_range_allocator_alloc_def Let_def t2_def t1_def claim_prefix_def
        al[symmetric] not_less)
  ultimately show ?thesis using mn sub cov p by auto
qed

section \<open>Freeing\<close>

lemma merge_prev_coalesced:
  assumes ok: "range_tree_ok t" and ops: "rb_ops_ok ops" and h: "head t = xs @ n # ys"
    and co: "coalesced (node_mem t) xs" "coalesced (node_mem t) ys"
  obtains merged t' xs' where "uvm_range_tree_merge_prev ops t n = (merged, t')"
    "range_tree_ok t'" "covered t' = covered t" "head t' = xs' @ n # ys" "set xs' \<subseteq> set xs"
    "coalesced (node_mem t') (xs' @ [n])" "coalesced (node_mem t') ys"
    "\<forall>q. q \<noteq> n \<longrightarrow> node_mem t' q = node_mem t q"
proof -
  note P = head_split_parts[OF ok h]
  obtain merged t' where run: "uvm_range_tree_merge_prev ops t n = (merged, t')" by fastforce
  note S = uvm_range_tree_merge_prev_spec[OF ok ops run]
  show ?thesis
  proof (cases merged)
    case None
    with S P(3,4) have "t' = t" "xs \<noteq> [] \<Longrightarrow> node_end (node_mem t (last xs)) + 1 \<noteq> node_start (node_mem t n)"
      by (auto simp: uvm_range_tree_prev_def h)
    with that[OF run, of xs] ok h co show ?thesis by (auto simp: uvm_simps)
  next
    case (Some p)
    with S obtain us vs where U: "range_tree_ok t'" "covered t' = covered t" "head t = us @ p # n # vs"
      "head t' = us @ n # vs" "node_mem t' = (node_mem t)(n := \<lparr>node_start = node_start (node_mem t p),
         node_end = node_end (node_mem t n)\<rparr>)" by auto
    have "xs = us @ [p]" "ys = vs"
      using U(3) h P(3,4) head_split_parts(3,4)[OF ok, of "us @ [p]" n vs]
      by (auto simp: append_eq_Cons_conv append_eq_append_conv2 Cons_eq_append_conv)
    moreover from this P(3,4) have "us \<noteq> [] \<Longrightarrow> last us \<noteq> n" using last_in_set[of us] by auto
    ultimately show ?thesis
      using that[OF run U(1,2), of us] U co P(3,4) by (cases "us = []") (auto simp: uvm_simps)
  qed
qed

lemma merge_next_coalesced:
  assumes ok: "range_tree_ok t" and ops: "rb_ops_ok ops" and h: "head t = xs @ n # ys"
    and co: "coalesced (node_mem t) (xs @ [n])" "coalesced (node_mem t) ys"
  obtains merged t' ys' where "uvm_range_tree_merge_next ops t n = (merged, t')"
    "range_tree_ok t'" "covered t' = covered t" "head t' = xs @ n # ys'" "set ys' \<subseteq> set ys"
    "coalesced (node_mem t') (xs @ n # ys')"
    "\<forall>q. q \<noteq> n \<longrightarrow> node_mem t' q = node_mem t q"
proof -
  note P = head_split_parts[OF ok h]
  obtain merged t' where run: "uvm_range_tree_merge_next ops t n = (merged, t')" by fastforce
  note S = uvm_range_tree_merge_next_spec[OF ok ops run]
  show ?thesis
  proof (cases merged)
    case None
    with S P(3,4) have "t' = t" "ys \<noteq> [] \<Longrightarrow> node_end (node_mem t n) + 1 \<noteq> node_start (node_mem t (hd ys))"
      by (auto simp: uvm_range_tree_next_def h split: list.splits)
    with that[OF run, of ys] ok h co show ?thesis by (auto simp: uvm_simps)
  next
    case (Some p)
    with S obtain us vs where U: "range_tree_ok t'" "covered t' = covered t" "head t = us @ n # p # vs"
      "head t' = us @ n # vs" "node_mem t' = (node_mem t)(n := \<lparr>node_start = node_start (node_mem t n),
         node_end = node_end (node_mem t p)\<rparr>)" by auto
    have "xs = us" "ys = p # vs"
      using U(3) h P(3,4) head_split_parts(3,4)[OF ok, of us n "p # vs"]
      by (auto simp: append_eq_Cons_conv append_eq_append_conv2 Cons_eq_append_conv)
    moreover from this P(3,4) have "us \<noteq> [] \<Longrightarrow> last us \<noteq> n" "vs \<noteq> [] \<Longrightarrow> hd vs \<noteq> n"
      using last_in_set[of us] hd_in_set[of vs] by auto
    ultimately show ?thesis
      using that[OF run U(1,2), of vs] U co P(3,4) by (cases "us = []"; cases "vs = []") (auto simp: uvm_simps)
  qed
qed

lemma uvm_range_allocator_free_ok:
  assumes ok: "ra_ok ra live" and ops: "rb_ops_ok ops" and n: "n \<in> set live"
    and al: "alloc_node al = Some n"
  obtains ra' where "uvm_range_allocator_free ops ra (Some al) = (ra', Some (al\<lparr>alloc_node := None\<rparr>))"
    "fst (uvm_range_tree_add ops (range_tree ra) n) = NV_OK"
    "ra_ok ra' (remove1 n live)" "ra_size ra' = ra_size ra"
    "covered (range_tree ra') = covered (range_tree ra) \<union> node_span (node_mem (range_tree ra) n)"
proof -
  let ?t = "range_tree ra" and ?m = "node_mem (range_tree ra)"
  have le: "node_start (?m n) \<le> node_end (?m n)" and free: "node_span (?m n) \<inter> covered ?t = {}"
    and nh: "n \<notin> set (head ?t)" using ok n by (auto simp: ra_ok_def)
  obtain xs ys t1 where
    A: "uvm_range_tree_add ops ?t n = (NV_OK, t1)" "head ?t = xs @ ys" "head t1 = xs @ n # ys"
      "node_mem t1 = ?m" "range_tree_ok t1" "covered t1 = covered ?t \<union> node_span (?m n)"
    by (rule uvm_range_tree_add_free[OF ra_okD(2)[OF ok] ops le free])
  have co: "coalesced (node_mem t1) xs" "coalesced (node_mem t1) ys"
    using ra_okD(3)[OF ok] A by (auto simp: uvm_simps)
  obtain mp t2 us where
    B: "uvm_range_tree_merge_prev ops t1 n = (mp, t2)" "range_tree_ok t2" "covered t2 = covered t1"
      "head t2 = us @ n # ys" "set us \<subseteq> set xs" "coalesced (node_mem t2) (us @ [n])"
      "coalesced (node_mem t2) ys" and B8: "\<forall>q. q \<noteq> n \<longrightarrow> node_mem t2 q = node_mem t1 q"
    by (rule merge_prev_coalesced[OF A(5) ops A(3) co])
  obtain mn t3 vs where
    C: "uvm_range_tree_merge_next ops t2 n = (mn, t3)" "range_tree_ok t3" "covered t3 = covered t2"
      "head t3 = us @ n # vs" "set vs \<subseteq> set ys" "coalesced (node_mem t3) (us @ n # vs)"
    and C7: "\<forall>q. q \<noteq> n \<longrightarrow> node_mem t3 q = node_mem t2 q"
    by (rule merge_next_coalesced[OF B(2) ops B(4,6,7)])
  have run: "uvm_range_allocator_free ops ra (Some al) =
      (ra\<lparr>range_tree := t3\<rparr>, Some (al\<lparr>alloc_node := None\<rparr>))"
    using A B C by (simp add: uvm_range_allocator_free_def al)
  have cov: "covered t3 = covered ?t \<union> node_span (?m n)" using A B C by simp
  have live': "set (remove1 n live) = set live - {n}" "distinct (remove1 n live)"
    using ok by (auto simp: ra_ok_def)
  have mem: "node_mem t3 k = ?m k" if "k \<in> set live - {n}" for k
    using that A(4) B8 C7 by simp
  have "ra_ok (ra\<lparr>range_tree := t3\<rparr>) (remove1 n live)"
    unfolding ra_ok_def
  proof (intro conjI, goal_cases)
    case 5
    have "set (head t3) \<subseteq> insert n (set (head ?t))" using A B C by auto
    then show ?case using ok live' by (auto simp: ra_ok_def)
  next
    case 8
    have "node_span (?m k) \<inter> (covered ?t \<union> node_span (?m n)) = {}" if "k \<in> set live - {n}" for k
      using that ok n unfolding ra_ok_def by blast
    with mem live' cov show ?case by simp
  next
    case 9
    have "(\<Union>k\<in>set live - {n}. node_span (node_mem t3 k)) = (\<Union>k\<in>set live - {n}. node_span (?m k))"
      using mem by simp
    moreover have "node_span (?m n) \<union> (\<Union>k\<in>set live - {n}. node_span (?m k)) = (\<Union>k\<in>set live. node_span (?m k))"
      using n by auto
    ultimately show ?case using ok live' by (simp add: cov ra_ok_def Un_assoc)
  qed (use ok C live' mem in \<open>simp_all add: ra_ok_def\<close>)
  from that[OF run _ this] A(1) cov show ?thesis by simp
qed

section \<open>Properties\<close>

text \<open>An allocation whose node could be allocated.\<close>

lemma alloc_with_node:
  assumes ok: "ra_ok ra live" and ops: "rb_ops_ok ops"
    and fresh: "n \<notin> set (head (range_tree ra))" "n \<notin> set live"
    and sz: "0 < sz" and k: "k < 64" and al: "al = 2 ^ k \<or> al = 0 \<and> k = 0"
    and run: "uvm_range_allocator_alloc ops (Some n) ra sz al = (status, ra', result)"
  shows "if \<exists>s. 2 ^ k dvd unat s \<and> s \<le> s + sz - 1 \<and> {s .. s + sz - 1} \<subseteq> covered (range_tree ra)
    then status = NV_OK \<and> ra_ok ra' (n # live) \<and>
      (\<exists>s. result = Some \<lparr>alloc_node = Some n, aligned_start = s\<rparr> \<and> 2 ^ k dvd unat s \<and>
         s \<le> s + sz - 1 \<and> {s .. s + sz - 1} \<subseteq> node_span (node_mem (range_tree ra') n)) \<and>
      node_span (node_mem (range_tree ra') n) \<subseteq> covered (range_tree ra) \<and>
      covered (range_tree ra') = covered (range_tree ra) - node_span (node_mem (range_tree ra') n)
    else status = NV_ERR_UVM_ADDRESS_IN_USE \<and> ra' = ra \<and> result = None"
proof -
  let ?m = "node_mem (range_tree ra)"
  let ?ps = "uvm_range_tree_for_each_in (range_tree ra) 0 (ra_size ra - sz)"
  let ?al = "if al = 0 then 1 else al"
  have al': "?al = 2 ^ k" using al k by auto
  show ?thesis
  proof (cases "\<exists>p\<in>set (head (range_tree ra)). try_node (?m p) sz (2 ^ k) \<noteq> None")
    case True
    then obtain p s e where p: "p \<in> set (head (range_tree ra))" "try_node (?m p) sz (2 ^ k) = Some (s, e)"
      by auto
    note T = try_node_SomeD[OF p(2)]
    have szle: "sz \<le> ra_size ra" by (rule try_node_size[OF ok p(1) sz p(2)])
    from fit_nodes_visited[OF ok p(1) sz szle p(2)] p(2) obtain q s' e' where
      ff: "find_fit ?m sz ?al ?ps = Some (q, s', e')"
      using find_fit_None_iff[of ?m sz "2 ^ k" ?ps] unfolding al' by fastforce
    note F = uvm_range_allocator_alloc_found[OF ok ops fresh sz szle refl ff]
    note T' = try_node_SomeD[OF conjunct2[OF find_fit_SomeD[OF ff]]]
    have "2 ^ k dvd unat s'" using T'(1) al' by (simp add: UVM_ALIGN_UP_aligned)
    moreover have "{s' .. s' + sz - 1} \<subseteq> {node_start (?m q) .. e'}" using T'(2,3) by auto
    moreover have "{node_start (?m q) .. e'} \<subseteq> covered (range_tree ra)"
      using F by (elim exE conjE) (simp add: node_span_def)
    ultimately have "2 ^ k dvd unat s' \<and> s' \<le> s' + sz - 1 \<and> {s' .. s' + sz - 1} \<subseteq> covered (range_tree ra)"
      using T'(2,4) by (meson order_trans)
    then have ex: "\<exists>s. 2 ^ k dvd unat s \<and> s \<le> s + sz - 1 \<and> {s .. s + sz - 1} \<subseteq> covered (range_tree ra)"
      by (rule exI)
    show ?thesis
      unfolding if_P[OF ex] using F run T' \<open>2 ^ k dvd unat s'\<close> by (auto simp: node_span_def)
  next
    case False
    have "\<not> (\<exists>s. 2 ^ k dvd unat s \<and> s \<le> s + sz - 1 \<and> {s .. s + sz - 1} \<subseteq> covered (range_tree ra))"
      using False covered_run_single[OF ra_okD(2,3)[OF ok]] try_node_complete[OF k _ sz] by meson
    moreover have "set ?ps \<subseteq> set (head (range_tree ra))"
      using uvm_range_tree_for_each_in_eq[OF ra_okD(2)[OF ok], of 0 "ra_size ra - sz"] by auto
    then have "find_fit ?m sz ?al ?ps = None"
      using False unfolding find_fit_None_iff al' by blast
    then have "uvm_range_allocator_alloc ops (Some n) ra sz al = (NV_ERR_UVM_ADDRESS_IN_USE, ra, None)"
      by (simp add: uvm_range_allocator_alloc_def Let_def)
    ultimately show ?thesis using run by simp
  qed
qed

text \<open>C33. An allocation for whose node there is memory succeeds exactly when some free run of the
  requested size starts at an aligned address. On success the returned address is aligned, the requested bytes lie inside the
  range of the allocation's node, that range was free and is the only one taken from the free set,
  and the invariant holds with the new node live. Without memory for the node it fails, even if there is such a run:
  with \<^verbatim>\<open>NV_ERR_NO_MEMORY\<close>, or as an address in use when the size exceeds the whole range. A failure changes nothing.\<close>

theorem uvm_range_allocator_alloc_correct:
  assumes "ra_ok ra live" and "rb_ops_ok ops"
    and "\<And>n. new_node = Some n \<Longrightarrow> n \<notin> set (head (range_tree ra)) \<and> n \<notin> set live"
    and "0 < sz" and "k < 64" and "al = 2 ^ k \<or> al = 0 \<and> k = 0"
    and run: "uvm_range_allocator_alloc ops new_node ra sz al = (status, ra', result)"
  shows "case new_node of
      None \<Rightarrow> status = (if sz > ra_size ra then NV_ERR_UVM_ADDRESS_IN_USE else NV_ERR_NO_MEMORY) \<and> ra' = ra \<and> result = None
    | Some n \<Rightarrow>
        if \<exists>s. 2 ^ k dvd unat s \<and> s \<le> s + sz - 1 \<and> {s .. s + sz - 1} \<subseteq> covered (range_tree ra)
        then status = NV_OK \<and> ra_ok ra' (n # live) \<and>
          (\<exists>s. result = Some \<lparr>alloc_node = Some n, aligned_start = s\<rparr> \<and> 2 ^ k dvd unat s \<and>
             s \<le> s + sz - 1 \<and> {s .. s + sz - 1} \<subseteq> node_span (node_mem (range_tree ra') n)) \<and>
          node_span (node_mem (range_tree ra') n) \<subseteq> covered (range_tree ra) \<and>
          covered (range_tree ra') = covered (range_tree ra) - node_span (node_mem (range_tree ra') n)
        else status = NV_ERR_UVM_ADDRESS_IN_USE \<and> ra' = ra \<and> result = None"
proof (cases new_node)
  case None
  then show ?thesis using run by (auto simp: uvm_range_allocator_alloc_def Let_def split: if_splits)
next
  case (Some n)
  show ?thesis
    unfolding Some option.case
    by (rule alloc_with_node[OF assms(1,2) _ _ assms(4,5,6) run[unfolded Some]]) (use assms(3) Some in auto)
qed

text \<open>C34. Freeing a live allocation never fails (the assertion after the insertion holds): its range
  becomes free again, adjacent free ranges are coalesced, and the invariant holds for the remaining
  live allocations. Once the last one is freed, the assertions of
  \<^verbatim>\<open>uvm_range_allocator_deinit\<close> hold and it leaves an empty tree.\<close>

theorem uvm_range_allocator_free_correct:
  assumes ok: "ra_ok ra live" and ops: "rb_ops_ok ops" and n: "n \<in> set live"
    and al: "alloc_node al = Some n"
    and run: "uvm_range_allocator_free ops ra (Some al) = (ra', result)"
  shows "fst (uvm_range_tree_add ops (range_tree ra) n) = NV_OK \<and>
    result = Some (al\<lparr>alloc_node := None\<rparr>) \<and> ra_ok ra' (remove1 n live) \<and>
    covered (range_tree ra') = covered (range_tree ra) \<union> node_span (node_mem (range_tree ra) n) \<and>
    (live = [n] \<longrightarrow> deinit_asserts ra' \<and>
       (\<exists>ra''. uvm_range_allocator_deinit ops ra' = Some ra'' \<and> head (range_tree ra'') = []))"
proof -
  obtain ra1 where F: "uvm_range_allocator_free ops ra (Some al) = (ra1, Some (al\<lparr>alloc_node := None\<rparr>))"
    "fst (uvm_range_tree_add ops (range_tree ra) n) = NV_OK"
    "ra_ok ra1 (remove1 n live)" "ra_size ra1 = ra_size ra"
    "covered (range_tree ra1) = covered (range_tree ra) \<union> node_span (node_mem (range_tree ra) n)"
    by (rule uvm_range_allocator_free_ok[OF ok ops n al])
  have "deinit_asserts ra1 \<and>
      (\<exists>ra''. uvm_range_allocator_deinit ops ra1 = Some ra'' \<and> head (range_tree ra'') = [])"
    if "live = [n]"
    using that F(3) deinit_single_node[of ra1]
    by (auto simp: deinit_asserts_def uvm_range_allocator_deinit_def uvm_range_tree_remove_def)
  with F run show ?thesis by simp
qed

section \<open>Concrete instances\<close>

text \<open>An allocator of 64 KB whose lowest 4 KB are allocated at node 1.\<close>

definition sample_ra_mem :: "nat \<Rightarrow> range_node" where
  "sample_ra_mem p = (if p = 0 then \<lparr>node_start = 0x1000, node_end = 0xFFFF\<rparr>
     else \<lparr>node_start = 0, node_end = 0xFFF\<rparr>)"

definition sample_ra :: "nat range_allocator" where
  "sample_ra = \<lparr>range_tree = \<lparr>rb_root = Node Leaf 0 Leaf, head = [0], node_mem = sample_ra_mem\<rparr>,
                ra_size = 0x10000\<rparr>"

lemma sample_ra_covered: "covered (range_tree sample_ra) = {0x1000..0xFFFF}"
  by (simp add: covered_def sample_ra_def sample_ra_mem_def node_span_def)

lemma sample_ra_ok: "ra_ok sample_ra [1]"
proof -
  have "0xFFF < x \<Longrightarrow> 0x1000 \<le> x" "x \<le> 0xFFF \<Longrightarrow> x \<le> 0xFFFF" for x :: NvU64
    using inc_le[of "0xFFF" x] by (auto intro: order_trans[of _ "0xFFF"])
  then have "{0x1000..0xFFFF} \<union> {0..0xFFF} = {0..(0xFFFF :: NvU64)}"
    by (auto simp: not_le intro: leI)
  then show ?thesis
    unfolding ra_ok_def sample_ra_covered
    by (simp add: sample_ra_def sample_ra_mem_def range_tree_ok_def range_list_ok_def nodes_before_def
        uvm_simps node_span_def Icc_disjoint)
qed

theorem uvm_range_allocator_alloc_correct_witness:
  "\<exists>ra' s. uvm_range_allocator_alloc plain_ops (Some 2) sample_ra 0x800 0x4000 =
      (NV_OK, ra', Some \<lparr>alloc_node = Some 2, aligned_start = s\<rparr>) \<and> ra_ok ra' [2, 1] \<and> 0x4000 dvd unat s"
proof -
  obtain status ra' result where
    run: "uvm_range_allocator_alloc plain_ops (Some 2) sample_ra 0x800 0x4000 = (status, ra', result)"
    by (metis prod_cases3)
  have fresh: "2 \<notin> set (head (range_tree sample_ra))" "(2::nat) \<notin> set [1]" by (simp_all add: sample_ra_def)
  have "(2::nat) ^ 14 dvd unat (0x4000 :: NvU64) \<and> (0x4000 :: NvU64) \<le> 0x4000 + 0x800 - 1 \<and>
      {0x4000 .. 0x4000 + 0x800 - 1} \<subseteq> covered (range_tree sample_ra)"
    by (simp add: sample_ra_covered)
  then have ex: "\<exists>s. (2::nat) ^ 14 dvd unat s \<and> s \<le> s + 0x800 - 1 \<and>
      {s .. s + 0x800 - 1} \<subseteq> covered (range_tree sample_ra)" by blast
  have al: "(0x4000 :: NvU64) = 2 ^ 14 \<or> (0x4000 :: NvU64) = 0 \<and> (14::nat) = 0" by simp
  have "new_node = Some n \<Longrightarrow> n \<notin> set (head (range_tree sample_ra)) \<and> n \<notin> set [1]" if "new_node = Some 2" for n new_node
    using that fresh by simp
  from uvm_range_allocator_alloc_correct[OF sample_ra_ok plain_ops_ok this[OF refl] _ _ al run] ex run
  show ?thesis by auto
qed

theorem uvm_range_allocator_free_correct_witness:
  "\<exists>ra'. uvm_range_allocator_free plain_ops sample_ra (Some \<lparr>alloc_node = Some 1, aligned_start = 0\<rparr>) =
      (ra', Some \<lparr>alloc_node = None, aligned_start = 0\<rparr>) \<and> ra_ok ra' [] \<and> deinit_asserts ra'"
proof -
  obtain ra' result where
    run: "uvm_range_allocator_free plain_ops sample_ra (Some \<lparr>alloc_node = Some 1, aligned_start = 0\<rparr>) =
      (ra', result)" by fastforce
  have n: "(1::nat) \<in> set [1]" "alloc_node \<lparr>alloc_node = Some (1::nat), aligned_start = 0\<rparr> = Some 1"
    by simp_all
  from uvm_range_allocator_free_correct[OF sample_ra_ok plain_ops_ok n run] run show ?thesis by simp
qed

end
