(* ===== verification/Gpu_Semaphore.thy ===== *)
theory Gpu_Semaphore
  imports Uvm_Prelude
begin

text \<open>
  GPU semaphores of \<^verbatim>\<open>uvm_gpu_semaphore.c\<close>: pools of pages of 32-bit semaphores, the debug
  canaries, and the tracking semaphore that widens a 32-bit payload to a 64-bit completed value.
  Pages are addresses of type \<open>'g\<close> in a store. A request for memory (\<^verbatim>\<open>uvm_kvmalloc_zero\<close>,
  \<^verbatim>\<open>uvm_rm_mem_alloc\<close>) is an argument that holds its outcome; the reads of memory that the GPU
  writes concurrently are arguments too, one observation per read. The page size is 4096, so a page
  holds 1024 semaphores.
\<close>

section \<open>Pools, pages and semaphores\<close>

datatype uvm_aperture = UVM_APERTURE_SYS | UVM_APERTURE_VID

record uvm_global =
  conf_computing_enabled :: bool
  is_debug :: bool

abbreviation UVM_SEMAPHORE_SIZE :: nat where "UVM_SEMAPHORE_SIZE \<equiv> 4"
abbreviation UVM_SEMAPHORE_COUNT_PER_PAGE :: nat where "UVM_SEMAPHORE_COUNT_PER_PAGE \<equiv> 1024"

type_synonym rm_mem = "(nat \<Rightarrow> NvU32) option"
type_synonym rm_alloc = "NV_STATUS + (nat \<Rightarrow> NvU32)"

record semaphore_pool_page =
  memory :: rm_mem
  encrypted_payload_memory :: rm_mem
  auth_tag_memory :: rm_mem
  notifier_memory :: rm_mem
  free_semaphores :: "nat set"

record 'g semaphore_pool =
  pages :: "'g list"
  aperture :: uvm_aperture
  free_semaphores_count :: NvU32
  page_store :: "'g \<Rightarrow> semaphore_pool_page"

record 'g gpu_semaphore =
  sem_page :: "'g option"
  sem_index :: nat
  cached_payload :: NvU32
  last_observed_notifier :: NvU32

definition gpu_semaphore_pool_is_secure :: "uvm_global \<Rightarrow> 'g semaphore_pool \<Rightarrow> bool" where
  "gpu_semaphore_pool_is_secure g pool \<longleftrightarrow> conf_computing_enabled g \<and> aperture pool = UVM_APERTURE_VID"

definition UVM_SEMAPHORE_CANARY_BASE :: NvU32 where "UVM_SEMAPHORE_CANARY_BASE = 0x0badc0de"
definition UVM_SEMAPHORE_CANARY_MASK :: NvU32 where "UVM_SEMAPHORE_CANARY_MASK = 0xf0000000"

definition make_canary :: "NvU32 \<Rightarrow> NvU32" where
  "make_canary payload =
     ((payload - push_bit 30 1) AND UVM_SEMAPHORE_CANARY_MASK) OR UVM_SEMAPHORE_CANARY_BASE"

definition is_canary :: "NvU32 \<Rightarrow> bool" where
  "is_canary val \<longleftrightarrow> val AND NOT UVM_SEMAPHORE_CANARY_MASK = UVM_SEMAPHORE_CANARY_BASE"

definition semaphore_uses_canary :: "uvm_global \<Rightarrow> 'g semaphore_pool \<Rightarrow> bool" where
  "semaphore_uses_canary g pool \<longleftrightarrow> \<not> gpu_semaphore_pool_is_secure g pool \<and> is_debug g"

section \<open>Page buffers\<close>

definition pool_page_free_buffers :: "bool \<Rightarrow> semaphore_pool_page \<Rightarrow> semaphore_pool_page" where
  "pool_page_free_buffers secure page =
     (let page1 = page\<lparr>memory := None\<rparr> in
      if secure then page1\<lparr>encrypted_payload_memory := None, auth_tag_memory := None, notifier_memory := None\<rparr>
      else page1)"

text \<open>The outcomes of the up to four requests for memory, in the order the code makes them.\<close>

record page_allocs =
  alloc_memory :: rm_alloc
  alloc_encrypted :: rm_alloc
  alloc_auth_tag :: rm_alloc
  alloc_notifier :: rm_alloc

text \<open>A request that fails reports an error.\<close>

definition page_allocs_ok :: "page_allocs \<Rightarrow> bool" where
  "page_allocs_ok al \<longleftrightarrow> Inl NV_OK \<notin> {alloc_memory al, alloc_encrypted al, alloc_auth_tag al, alloc_notifier al}"

definition pool_page_alloc_buffers ::
    "bool \<Rightarrow> page_allocs \<Rightarrow> semaphore_pool_page \<Rightarrow> NV_STATUS \<times> semaphore_pool_page" where
  "pool_page_alloc_buffers secure al page =
     (case alloc_memory al of
        Inl status \<Rightarrow> (status, pool_page_free_buffers secure page)
      | Inr mem \<Rightarrow>
          (let page1 = page\<lparr>memory := Some mem\<rparr> in
           if \<not> secure then (NV_OK, page1)
           else case alloc_encrypted al of
             Inl status \<Rightarrow> (status, pool_page_free_buffers secure page1)
           | Inr enc \<Rightarrow>
               (let page2 = page1\<lparr>encrypted_payload_memory := Some enc\<rparr> in
                case alloc_auth_tag al of
                  Inl status \<Rightarrow> (status, pool_page_free_buffers secure page2)
                | Inr tags \<Rightarrow>
                    (let page3 = page2\<lparr>auth_tag_memory := Some tags\<rparr> in
                     case alloc_notifier al of
                       Inl status \<Rightarrow> (status, pool_page_free_buffers secure page3)
                     | Inr notifier \<Rightarrow> (NV_OK, page3\<lparr>notifier_memory := Some notifier\<rparr>)))))"

definition zero_page :: semaphore_pool_page where
  "zero_page = \<lparr>memory = None, encrypted_payload_memory = None, auth_tag_memory = None,
                notifier_memory = None, free_semaphores = {}\<rparr>"

definition pool_alloc_page ::
    "uvm_global \<Rightarrow> 'g option \<Rightarrow> page_allocs \<Rightarrow> 'g semaphore_pool \<Rightarrow> NV_STATUS \<times> 'g semaphore_pool" where
  "pool_alloc_page g new_page al pool =
     (case new_page of
        None \<Rightarrow> (NV_ERR_NO_MEMORY, pool)
      | Some p \<Rightarrow>
          (let (status, page) = pool_page_alloc_buffers (gpu_semaphore_pool_is_secure g pool) al zero_page in
           if status \<noteq> NV_OK then (status, pool)
           else
             (let page1 = page\<lparr>free_semaphores := {..<UVM_SEMAPHORE_COUNT_PER_PAGE}\<rparr>;
                  page2 = (if semaphore_uses_canary g pool
                           then page1\<lparr>memory := Some (\<lambda>i. if i < UVM_SEMAPHORE_COUNT_PER_PAGE
                                                    then make_canary 0 else the (memory page) i)\<rparr>
                           else page1)
              in (NV_OK, pool\<lparr>pages := p # pages pool,
                              free_semaphores_count := free_semaphores_count pool + 1024,
                              page_store := (page_store pool)(p := page2)\<rparr>))))"

definition pool_free_page :: "uvm_global \<Rightarrow> 'g \<Rightarrow> 'g semaphore_pool \<Rightarrow> 'g semaphore_pool" where
  "pool_free_page g p pool =
     pool\<lparr>free_semaphores_count := free_semaphores_count pool - 1024,
          pages := remove1 p (pages pool),
          page_store := (page_store pool)(p :=
            pool_page_free_buffers (gpu_semaphore_pool_is_secure g pool) (page_store pool p))\<rparr>"

text \<open>The assertions of \<^verbatim>\<open>pool_free_page\<close> on the page.\<close>

definition pool_free_page_asserts :: "uvm_global \<Rightarrow> 'g \<Rightarrow> 'g semaphore_pool \<Rightarrow> bool" where
  "pool_free_page_asserts g p pool \<longleftrightarrow>
     free_semaphores (page_store pool p) = {..<UVM_SEMAPHORE_COUNT_PER_PAGE} \<and>
     free_semaphores_count pool \<ge> 1024 \<and>
     (semaphore_uses_canary g pool \<longrightarrow>
        (\<forall>i<UVM_SEMAPHORE_COUNT_PER_PAGE. is_canary (the (memory (page_store pool p)) i)))"

section \<open>Payloads\<close>

definition uvm_gpu_semaphore_get_payload ::
    "uvm_global \<Rightarrow> 'g semaphore_pool \<Rightarrow> 'g gpu_semaphore \<Rightarrow> NvU32" where
  "uvm_gpu_semaphore_get_payload g pool sem =
     (if gpu_semaphore_pool_is_secure g pool then cached_payload sem
      else the (memory (page_store pool (the (sem_page sem)))) (sem_index sem))"

definition uvm_gpu_semaphore_set_payload ::
    "uvm_global \<Rightarrow> 'g semaphore_pool \<Rightarrow> 'g gpu_semaphore \<Rightarrow> NvU32 \<Rightarrow> 'g semaphore_pool \<times> 'g gpu_semaphore" where
  "uvm_gpu_semaphore_set_payload g pool sem payload =
     (if gpu_semaphore_pool_is_secure g pool then (pool, sem\<lparr>cached_payload := payload\<rparr>)
      else let p = the (sem_page sem); page = page_store pool p in
        (pool\<lparr>page_store := (page_store pool)(p :=
           page\<lparr>memory := Some ((the (memory page))(sem_index sem := payload))\<rparr>)\<rparr>, sem))"

text \<open>GPU virtual addresses: \<open>base_va\<close> is the address at which the page is mapped.\<close>

definition uvm_gpu_semaphore_get_gpu_va :: "('g \<Rightarrow> NvU64) \<Rightarrow> 'g gpu_semaphore \<Rightarrow> NvU64" where
  "uvm_gpu_semaphore_get_gpu_va base_va sem =
     base_va (the (sem_page sem)) + of_nat (sem_index sem * UVM_SEMAPHORE_SIZE)"

section \<open>Allocation and release\<close>

definition find_first_bit :: "nat set \<Rightarrow> nat \<Rightarrow> nat" where
  "find_first_bit bits nbits = (case filter (\<lambda>i. i \<in> bits) [0..<nbits] of [] \<Rightarrow> nbits | i # _ \<Rightarrow> i)"

definition zero_semaphore :: "'g gpu_semaphore" where
  "zero_semaphore = \<lparr>sem_page = None, sem_index = 0, cached_payload = 0, last_observed_notifier = 0\<rparr>"

definition take_semaphore ::
    "uvm_global \<Rightarrow> 'g semaphore_pool \<Rightarrow> 'g \<Rightarrow> nat \<Rightarrow> 'g semaphore_pool \<times> 'g gpu_semaphore" where
  "take_semaphore g pool p i =
     (let sem = zero_semaphore\<lparr>sem_page := Some p, sem_index := i\<rparr>;
          page = page_store pool p;
          pool1 = (if gpu_semaphore_pool_is_secure g pool
                   then pool\<lparr>page_store := (page_store pool)(p := page\<lparr>notifier_memory :=
                          Some ((the (notifier_memory page))(i := last_observed_notifier sem))\<rparr>)\<rparr>
                   else pool);
          (pool2, sem2) = uvm_gpu_semaphore_set_payload g pool1 sem 0;
          page2 = page_store pool2 p
      in (pool2\<lparr>page_store := (page_store pool2)(p := page2\<lparr>free_semaphores := free_semaphores page2 - {i}\<rparr>),
                free_semaphores_count := free_semaphores_count pool2 - 1\<rparr>, sem2))"

fun alloc_from_pages ::
    "uvm_global \<Rightarrow> 'g semaphore_pool \<Rightarrow> 'g list \<Rightarrow> NV_STATUS \<times> 'g semaphore_pool \<times> 'g gpu_semaphore" where
  "alloc_from_pages g pool [] = (NV_ERR_GENERIC, pool, zero_semaphore)"
| "alloc_from_pages g pool (p # ps) =
     (let i = find_first_bit (free_semaphores (page_store pool p)) UVM_SEMAPHORE_COUNT_PER_PAGE in
      if i = UVM_SEMAPHORE_COUNT_PER_PAGE then alloc_from_pages g pool ps
      else (NV_OK, take_semaphore g pool p i))"

definition uvm_gpu_semaphore_alloc ::
    "uvm_global \<Rightarrow> 'g option \<Rightarrow> page_allocs \<Rightarrow> 'g semaphore_pool \<Rightarrow>
     NV_STATUS \<times> 'g semaphore_pool \<times> 'g gpu_semaphore" where
  "uvm_gpu_semaphore_alloc g new_page al pool =
     (let (status, pool1) = (if free_semaphores_count pool = 0 then pool_alloc_page g new_page al pool
                             else (NV_OK, pool))
      in if status \<noteq> NV_OK then (status, pool1, zero_semaphore)
         else alloc_from_pages g pool1 (pages pool1))"

definition uvm_gpu_semaphore_free ::
    "uvm_global \<Rightarrow> 'g semaphore_pool \<Rightarrow> 'g gpu_semaphore \<Rightarrow> 'g semaphore_pool \<times> 'g gpu_semaphore" where
  "uvm_gpu_semaphore_free g pool sem =
     (case sem_page sem of
        None \<Rightarrow> (pool, sem)
      | Some p \<Rightarrow>
          (let (pool1, sem1) = (if semaphore_uses_canary g pool
                 then uvm_gpu_semaphore_set_payload g pool sem
                        (make_canary (uvm_gpu_semaphore_get_payload g pool sem))
                 else (pool, sem));
               page = page_store pool1 p
           in (pool1\<lparr>free_semaphores_count := free_semaphores_count pool1 + 1,
                     page_store := (page_store pool1)(p := page\<lparr>free_semaphores :=
                       insert (sem_index sem) (free_semaphores page)\<rparr>)\<rparr>,
               sem1\<lparr>sem_page := None\<rparr>)))"

definition uvm_gpu_semaphore_pool_create ::
    "bool \<Rightarrow> ('g \<Rightarrow> semaphore_pool_page) \<Rightarrow> NV_STATUS + 'g semaphore_pool" where
  "uvm_gpu_semaphore_pool_create have_memory m =
     (if \<not> have_memory then Inl NV_ERR_NO_MEMORY
      else Inr \<lparr>pages = [], aperture = UVM_APERTURE_SYS, free_semaphores_count = 0, page_store = m\<rparr>)"

definition uvm_gpu_semaphore_secure_pool_create ::
    "bool \<Rightarrow> ('g \<Rightarrow> semaphore_pool_page) \<Rightarrow> NV_STATUS + 'g semaphore_pool" where
  "uvm_gpu_semaphore_secure_pool_create have_memory m =
     (case uvm_gpu_semaphore_pool_create have_memory m of
        Inl status \<Rightarrow> Inl status
      | Inr pool \<Rightarrow> Inr (pool\<lparr>aperture := UVM_APERTURE_VID\<rparr>))"

definition uvm_gpu_semaphore_pool_destroy :: "uvm_global \<Rightarrow> 'g semaphore_pool \<Rightarrow> 'g semaphore_pool" where
  "uvm_gpu_semaphore_pool_destroy g pool = fold (pool_free_page g) (pages pool) pool"

section \<open>Tracking semaphores\<close>

record 'g tracking_semaphore =
  semaphore :: "'g gpu_semaphore"
  completed_value :: NvU64
  queued_value :: NvU64

definition uvm_gpu_tracking_semaphore_alloc ::
    "uvm_global \<Rightarrow> 'g option \<Rightarrow> page_allocs \<Rightarrow> 'g semaphore_pool \<Rightarrow>
     NV_STATUS \<times> 'g semaphore_pool \<times> 'g tracking_semaphore" where
  "uvm_gpu_tracking_semaphore_alloc g new_page al pool =
     (let (status, pool', sem) = uvm_gpu_semaphore_alloc g new_page al pool
      in (status, pool', \<lparr>semaphore = sem, completed_value = 0, queued_value = 0\<rparr>))"

definition uvm_gpu_tracking_semaphore_free ::
    "uvm_global \<Rightarrow> 'g semaphore_pool \<Rightarrow> 'g tracking_semaphore \<Rightarrow> 'g semaphore_pool \<times> 'g tracking_semaphore" where
  "uvm_gpu_tracking_semaphore_free g pool ts =
     (let (pool', sem) = uvm_gpu_semaphore_free g pool (semaphore ts) in (pool', ts\<lparr>semaphore := sem\<rparr>))"

text \<open>
  The part of \<^verbatim>\<open>update_completed_value_locked\<close> after the payload is read: widen the 32-bit
  payload \<open>new_sem_value\<close> to 64 bits relative to the last completed value.
\<close>

definition widen_payload :: "NvU64 \<Rightarrow> NvU32 \<Rightarrow> NvU64" where
  "widen_payload old_value new_sem_value =
     (let old_sem_value = (ucast old_value :: NvU32) in
      if old_sem_value = new_sem_value then old_value
      else
        (let new_value = (old_value AND 0xFFFFFFFF00000000) OR ucast new_sem_value
         in if new_sem_value < old_sem_value then new_value + push_bit 32 1 else new_value))"

text \<open>
  One iteration's reads in \<^verbatim>\<open>gpu_semaphore_encrypted_payload_update\<close>: the notifier, the
  authentication tag, the encrypted payload, and the notifier again.
\<close>

record observation =
  obs_notifier :: NvU32
  obs_auth_tag :: "NvU8 list"
  obs_payload :: NvU32
  obs_new_notifier :: NvU32

datatype payload_read =
    No_change
  | Out_of_tries
  | Got NvU32 "NvU8 list" NvU32

text \<open>
  The do-while loop; \<open>i\<close> counts iterations, and the loop takes the \<open>i\<close>-th observation. A
  \<^verbatim>\<open>continue\<close> goes to the loop condition. No result within the fuel is \<open>None\<close>.
\<close>

fun payload_read_loop ::
    "nat \<Rightarrow> (nat \<Rightarrow> observation) \<Rightarrow> nat \<Rightarrow> NvU32 \<Rightarrow> NvU32 \<Rightarrow> payload_read option" where
  "payload_read_loop 0 obs i last_observed tries_left = None"
| "payload_read_loop (Suc fuel) obs i last_observed tries_left =
     (let gpu_notifier = obs_notifier (obs i) in
      if odd (unat gpu_notifier) then
        (if tries_left > 0 then payload_read_loop fuel obs (Suc i) last_observed tries_left
         else Some Out_of_tries)
      else if gpu_notifier = last_observed then Some No_change
      else
        (let tries_left' = tries_left - 1 in
         if tries_left' > 0 \<and> gpu_notifier \<noteq> obs_new_notifier (obs i)
         then payload_read_loop fuel obs (Suc i) last_observed tries_left'
         else if tries_left' = 0 then Some Out_of_tries
         else Some (Got gpu_notifier (obs_auth_tag (obs i)) (obs_payload (obs i)))))"

text \<open>
  \<open>decrypt iv_index payload tag\<close> is the outcome of the CSL decryption with the channel's
  initialisation vector at \<open>iv_index\<close>. The second component of the result is the fatal error the
  function raises, \<open>NV_OK\<close> when there is none.
\<close>

definition gpu_semaphore_encrypted_payload_update ::
    "nat \<Rightarrow> (nat \<Rightarrow> observation) \<Rightarrow> (NvU32 \<Rightarrow> NvU32 \<Rightarrow> NvU8 list \<Rightarrow> NV_STATUS + NvU32) \<Rightarrow> NvU32 \<Rightarrow>
     'g gpu_semaphore \<Rightarrow> ('g gpu_semaphore \<times> NV_STATUS) option" where
  "gpu_semaphore_encrypted_payload_update fuel obs decrypt num_gpfifo_entries sem =
     (case payload_read_loop fuel obs 0 (last_observed_notifier sem) num_gpfifo_entries of
        None \<Rightarrow> None
      | Some No_change \<Rightarrow> Some (sem, NV_OK)
      | Some Out_of_tries \<Rightarrow> Some (sem, NV_ERR_INVALID_STATE)
      | Some (Got gpu_notifier tag payload) \<Rightarrow>
          (case decrypt ((gpu_notifier div 2) mod num_gpfifo_entries) payload tag of
             Inl status \<Rightarrow> Some (sem, status)
           | Inr new_semaphore_value \<Rightarrow>
               Some (sem\<lparr>cached_payload := new_semaphore_value, last_observed_notifier := gpu_notifier\<rparr>, NV_OK)))"

text \<open>
  \<^verbatim>\<open>update_completed_value_locked\<close>: for a semaphore of a secure pool \<open>enc_update\<close> is the
  refresh of the cached payload above; the payload is then read and widened. \<open>jump_ok\<close> is the
  release-build check for unexpectedly large jumps, which only logs.
\<close>

definition UVM_GPU_SEMAPHORE_MAX_JUMP :: NvU64 where
  "UVM_GPU_SEMAPHORE_MAX_JUMP = 2 * (1024 * 1024)"

definition update_completed_value_locked ::
    "uvm_global \<Rightarrow> 'g semaphore_pool \<Rightarrow> ('g gpu_semaphore \<Rightarrow> 'g gpu_semaphore) \<Rightarrow> 'g tracking_semaphore \<Rightarrow>
     NvU64 \<times> 'g tracking_semaphore" where
  "update_completed_value_locked g pool enc_update ts =
     (let ts1 = (if gpu_semaphore_pool_is_secure g pool then ts\<lparr>semaphore := enc_update (semaphore ts)\<rparr> else ts);
          new_value = widen_payload (completed_value ts1) (uvm_gpu_semaphore_get_payload g pool (semaphore ts1))
      in (new_value, ts1\<lparr>completed_value := new_value\<rparr>))"

definition jump_ok :: "NvU64 \<Rightarrow> NvU64 \<Rightarrow> bool" where
  "jump_ok old_value new_value \<longleftrightarrow> new_value - old_value \<le> UVM_GPU_SEMAPHORE_MAX_JUMP"

definition uvm_gpu_tracking_semaphore_update_completed_value ::
    "uvm_global \<Rightarrow> 'g semaphore_pool \<Rightarrow> ('g gpu_semaphore \<Rightarrow> 'g gpu_semaphore) \<Rightarrow> 'g tracking_semaphore \<Rightarrow>
     NvU64 \<times> 'g tracking_semaphore" where
  "uvm_gpu_tracking_semaphore_update_completed_value g pool enc_update ts =
     update_completed_value_locked g pool enc_update ts"

definition uvm_gpu_tracking_semaphore_is_value_completed ::
    "uvm_global \<Rightarrow> 'g semaphore_pool \<Rightarrow> ('g gpu_semaphore \<Rightarrow> 'g gpu_semaphore) \<Rightarrow> 'g tracking_semaphore \<Rightarrow>
     NvU64 \<Rightarrow> bool \<times> 'g tracking_semaphore" where
  "uvm_gpu_tracking_semaphore_is_value_completed g pool enc_update ts val =
     (if completed_value ts \<ge> val then (True, ts)
      else let (completed, ts') = uvm_gpu_tracking_semaphore_update_completed_value g pool enc_update ts
           in (completed \<ge> val, ts'))"

definition uvm_gpu_tracking_semaphore_is_completed ::
    "uvm_global \<Rightarrow> 'g semaphore_pool \<Rightarrow> ('g gpu_semaphore \<Rightarrow> 'g gpu_semaphore) \<Rightarrow> 'g tracking_semaphore \<Rightarrow>
     bool \<times> 'g tracking_semaphore" where
  "uvm_gpu_tracking_semaphore_is_completed g pool enc_update ts =
     uvm_gpu_tracking_semaphore_is_value_completed g pool enc_update ts (queued_value ts)"

section \<open>Canaries\<close>

lemma is_canary_make_canary [simp]: "is_canary (make_canary v)"
proof -
  let ?M = "0xf0000000 :: NvU32" and ?B = "0x0badc0de :: NvU32"
  have "((x AND ?M) OR ?B) AND NOT ?M = (x AND (?M AND NOT ?M)) OR (?B AND NOT ?M)" for x
    by (simp only: bit.conj_disj_distrib2 and.assoc)
  moreover have "?M AND NOT ?M = 0" "?B AND NOT ?M = ?B" by simp_all
  ultimately show ?thesis
    by (simp add: is_canary_def make_canary_def UVM_SEMAPHORE_CANARY_MASK_def UVM_SEMAPHORE_CANARY_BASE_def)
qed

section \<open>Widening the payload\<close>

lemma unat_widen_low: "unat (ucast (v :: NvU64) :: NvU32) = unat v mod 2 ^ 32"
  by (simp add: unsigned_ucast_eq take_bit_eq_mod)

lemma unat_replace_low:
  fixes v :: NvU64 and p :: NvU32
  shows "unat ((v AND 0xFFFFFFFF00000000) OR ucast p) = unat v div 2 ^ 32 * 2 ^ 32 + unat p"
proof -
  have m: "(0xFFFFFFFF00000000 :: NvU64) = NOT (mask 32)" by (simp add: mask_eq_exp_minus_1)
  let ?h = "v AND NOT (mask 32)"
  have dis: "?h AND ucast p = 0"
    by (auto simp: bit_eq_iff bit_simps dest: bit_imp_le_length)
  have "unat (?h OR ucast p) = unat (?h + ucast p)" using disjunctive_add_eq_or[OF dis] by simp
  also have "\<dots> = unat ?h + unat p"
  proof -
    have "unat ?h = unat v div 2 ^ 32 * 2 ^ 32" by (rule unat_and_not_mask)
    moreover have "unat v < 2 ^ 64" using unsigned_less[of v] by simp
    then have "unat v div 2 ^ 32 < 2 ^ 32" by (simp add: less_mult_imp_div_less)
    moreover have "unat p < 2 ^ 32" using unsigned_less[of p] by simp
    moreover have "unat (ucast p :: NvU64) = unat p" by (simp add: unsigned_ucast_eq take_bit_nat_eq_self_iff order_less_trans[OF unsigned_less])
    ultimately show ?thesis by (simp add: unat_plus_if')
  qed
  finally show ?thesis by (simp add: m unat_and_not_mask)
qed

text \<open>
  A 64-bit count whose low half is the payload and which is ahead of the old value by less than
  \<open>2\<^sup>32\<close> is recovered exactly.
\<close>

lemma widen_payload_exact:
  fixes old true_value :: NvU64
  assumes low: "payload = ucast true_value" and ge: "old \<le> true_value"
    and near: "unat true_value - unat old < 2 ^ 32"
  shows "widen_payload old payload = true_value"
proof -
  define o' t' where "o' = unat old" and "t' = unat true_value"
  have "t' < 2 ^ 64" unfolding t'_def using unsigned_less[of true_value] by simp
  have le: "o' \<le> t'" using ge by (simp add: word_le_nat_alt o'_def t'_def)
  have near': "t' < o' + 2 ^ 32" using near le by (simp add: o'_def t'_def)
  define q r q' r' where "q = o' div 2 ^ 32" and "r = o' mod 2 ^ 32"
    and "q' = t' div 2 ^ 32" and "r' = t' mod 2 ^ 32"
  have lo: "unat payload = r'" "unat (ucast old :: NvU32) = r"
    by (simp_all add: low unat_widen_low o'_def t'_def r_def r'_def)
  have eqs: "t' = q' * 2 ^ 32 + r'" "o' = q * 2 ^ 32 + r" by (simp_all add: q_def r_def q'_def r'_def)
  have r: "r < 2 ^ 32" "r' < 2 ^ 32" by (simp_all add: r_def r'_def)
  have dle: "q \<le> q'" unfolding q_def q'_def using le by (rule div_le_mono)
  have "t' div 2 ^ 32 \<le> (o' + 2 ^ 32) div 2 ^ 32" using near' by (intro div_le_mono) simp
  then have "q' \<le> q + 1" by (simp add: q_def q'_def)
  with dle have step: "q' = q \<or> q' = q + 1" by linarith
  let ?new = "(old AND 0xFFFFFFFF00000000) OR ucast payload :: NvU64"
  have new: "unat ?new = q * 2 ^ 32 + r'"
    by (simp only: unat_replace_low lo o'_def q_def)
  consider (eq) "r = r'" | (lt) "r' < r" | (gt) "r < r'" by linarith
  then show ?thesis
  proof cases
    case eq
    with eqs step near' have "o' = t'" by auto
    then have "old = true_value" by (simp add: o'_def t'_def word_unat_eq_iff)
    then show ?thesis by (simp add: widen_payload_def low)
  next
    case lt
    then have q: "q' = q + 1" using eqs step le by auto
    have "unat (?new + push_bit 32 1) = t'"
    proof -
      have "unat (push_bit 32 1 :: NvU64) = 2 ^ 32" by simp
      moreover have "unat ?new + 2 ^ 32 = t'" using new q eqs by simp
      ultimately show ?thesis using \<open>t' < 2 ^ 64\<close> by (simp only: unat_plus_if') simp
    qed
    then have "?new + push_bit 32 1 = true_value" by (simp add: t'_def word_unat_eq_iff)
    moreover have "payload < ucast old" "ucast old \<noteq> payload"
      using lt lo by (auto simp: word_less_nat_alt)
    ultimately show ?thesis by (simp add: widen_payload_def)
  next
    case gt
    then have q: "q' = q" using eqs step near' by auto
    have "unat ?new = t'" using new q eqs by simp
    then have "?new = true_value" by (simp add: t'_def word_unat_eq_iff)
    moreover have "\<not> payload < ucast old" "ucast old \<noteq> payload"
      using gt lo by (auto simp: word_less_nat_alt)
    ultimately show ?thesis by (simp add: widen_payload_def)
  qed
qed

section \<open>The pool invariant\<close>

definition page_ok :: "uvm_global \<Rightarrow> bool \<Rightarrow> semaphore_pool_page \<Rightarrow> bool" where
  "page_ok g secure page \<longleftrightarrow> free_semaphores page \<subseteq> {..<UVM_SEMAPHORE_COUNT_PER_PAGE} \<and>
     memory page \<noteq> None \<and> (secure \<longrightarrow> notifier_memory page \<noteq> None) \<and>
     (\<not> secure \<and> is_debug g \<longrightarrow> (\<forall>i\<in>free_semaphores page. is_canary (the (memory page) i)))"

definition free_total :: "'g semaphore_pool \<Rightarrow> nat" where
  "free_total pool = (\<Sum>p\<leftarrow>pages pool. card (free_semaphores (page_store pool p)))"

definition allocated :: "'g semaphore_pool \<Rightarrow> ('g \<times> nat) set" where
  "allocated pool = {(p, i). p \<in> set (pages pool) \<and> i < UVM_SEMAPHORE_COUNT_PER_PAGE \<and>
                            i \<notin> free_semaphores (page_store pool p)}"

definition pool_ok :: "uvm_global \<Rightarrow> 'g semaphore_pool \<Rightarrow> bool" where
  "pool_ok g pool \<longleftrightarrow> distinct (pages pool) \<and>
     (\<forall>p\<in>set (pages pool). page_ok g (gpu_semaphore_pool_is_secure g pool) (page_store pool p)) \<and>
     length (pages pool) * UVM_SEMAPHORE_COUNT_PER_PAGE < 2 ^ 32 \<and>
     unat (free_semaphores_count pool) = free_total pool"

definition payload_at :: "'g semaphore_pool \<Rightarrow> 'g \<times> nat \<Rightarrow> NvU32" where
  "payload_at pool pi = the (memory (page_store pool (fst pi))) (snd pi)"

lemma is_secure_page_store [simp]:
  "gpu_semaphore_pool_is_secure g (pool\<lparr>page_store := st\<rparr>) = gpu_semaphore_pool_is_secure g pool"
  by (simp add: gpu_semaphore_pool_is_secure_def)

lemma find_first_bit_hit:
  assumes "i < n" and "i \<in> bits"
  shows "find_first_bit bits n < n" and "find_first_bit bits n \<in> bits"
proof -
  from assms have "filter (\<lambda>i. i \<in> bits) [0..<n] \<noteq> []" by (auto simp: filter_empty_conv)
  then obtain j js where f: "filter (\<lambda>i. i \<in> bits) [0..<n] = j # js" by (cases "filter (\<lambda>i. i \<in> bits) [0..<n]") auto
  then have "j \<in> set (filter (\<lambda>i. i \<in> bits) [0..<n])" by (simp only: list.set_intros)
  then have "j < n" "j \<in> bits" by auto
  with f show "find_first_bit bits n < n" "find_first_bit bits n \<in> bits" by (auto simp: find_first_bit_def)
qed

lemma find_first_bit_eq:
  assumes "i < n" and "i \<in> bits" and "\<forall>j<i. j \<notin> bits"
  shows "find_first_bit bits n = i"
proof -
  have "[0..<n] = [0..<i] @ i # [Suc i..<n]"
    using assms(1) upt_add_eq_append[of 0 i "n - i"] by (simp add: upt_conv_Cons)
  moreover have "filter (\<lambda>j. j \<in> bits) [0..<i] = []" using assms(3) by (auto simp: filter_empty_conv)
  ultimately show ?thesis using assms(2) by (simp add: find_first_bit_def)
qed

lemma find_first_bit_full_iff: "find_first_bit bits n = n \<longleftrightarrow> (\<forall>i<n. i \<notin> bits)"
proof -
  have "filter (\<lambda>i. i \<in> bits) [0..<n] = [] \<Longrightarrow> find_first_bit bits n = n" by (simp add: find_first_bit_def)
  then show ?thesis using find_first_bit_hit[of _ n bits] by (auto simp: filter_empty_conv)
qed

lemma page_free_card:
  assumes "page_ok g secure page"
  shows "finite (free_semaphores page)" "card (free_semaphores page) \<le> UVM_SEMAPHORE_COUNT_PER_PAGE"
    "card (free_semaphores page) = 0 \<longleftrightarrow> free_semaphores page = {}"
proof -
  from assms have s: "free_semaphores page \<subseteq> {..<UVM_SEMAPHORE_COUNT_PER_PAGE}" by (simp add: page_ok_def)
  then show f: "finite (free_semaphores page)" by (rule finite_subset) simp
  from s show "card (free_semaphores page) \<le> UVM_SEMAPHORE_COUNT_PER_PAGE"
    using card_mono[OF finite_lessThan s] by simp
  show "card (free_semaphores page) = 0 \<longleftrightarrow> free_semaphores page = {}" using f by simp
qed

lemma free_total_le:
  assumes "pool_ok g pool"
  shows "free_total pool \<le> length (pages pool) * UVM_SEMAPHORE_COUNT_PER_PAGE"
proof -
  have "(\<Sum>p\<leftarrow>ps. card (free_semaphores (page_store pool p))) \<le> length ps * UVM_SEMAPHORE_COUNT_PER_PAGE"
    if "\<forall>p\<in>set ps. page_ok g (gpu_semaphore_pool_is_secure g pool) (page_store pool p)" for ps
    using that by (induction ps) (auto dest: page_free_card(2) add_mono)
  with assms show ?thesis by (simp add: pool_ok_def free_total_def)
qed

text \<open>Replacing one page of a pool: how the count of free semaphores changes.\<close>

lemma sum_list_upd:
  assumes "distinct ps" and "p \<in> set ps"
  shows "(\<Sum>q\<leftarrow>ps. f ((st(p := v)) q)) + f (st p) = (\<Sum>q\<leftarrow>ps. f (st q)) + (f v :: nat)"
  using assms
proof (induction ps)
  case (Cons q ps)
  show ?case
  proof (cases "q = p")
    case True
    with Cons.prems have "map (\<lambda>q. f ((st(p := v)) q)) ps = map (\<lambda>q. f (st q)) ps" by (auto simp: map_eq_conv)
    with True show ?thesis by (simp only: list.map sum_list.Cons) simp
  next
    case False
    with Cons show ?thesis by (simp add: algebra_simps)
  qed
qed simp

lemma pool_ok_page_upd:
  assumes ok: "pool_ok g pool" and p: "p \<in> set (pages pool)"
    and page: "page_ok g (gpu_semaphore_pool_is_secure g pool) page"
    and cnt: "unat cnt + card (free_semaphores (page_store pool p)) =
      unat (free_semaphores_count pool) + card (free_semaphores page)"
  shows "pool_ok g (pool\<lparr>page_store := (page_store pool)(p := page), free_semaphores_count := cnt\<rparr>)"
  using assms sum_list_upd[of "pages pool" p "\<lambda>pg. card (free_semaphores pg)" "page_store pool" page]
  by (auto simp: pool_ok_def free_total_def gpu_semaphore_pool_is_secure_def)

lemma pool_alloc_page_ok:
  assumes ok: "pool_ok g pool" and fresh: "p \<notin> set (pages pool)" and al: "page_allocs_ok al"
    and room: "(length (pages pool) + 1) * UVM_SEMAPHORE_COUNT_PER_PAGE < 2 ^ 32"
    and run: "pool_alloc_page g (Some p) al pool = (status, pool')"
  shows "if status = NV_OK
    then pool_ok g pool' \<and> pages pool' = p # pages pool \<and> aperture pool' = aperture pool \<and>
      free_semaphores (page_store pool' p) = {..<UVM_SEMAPHORE_COUNT_PER_PAGE} \<and>
      (\<forall>q. q \<noteq> p \<longrightarrow> page_store pool' q = page_store pool q)
    else pool' = pool"
proof -
  let ?sec = "gpu_semaphore_pool_is_secure g pool"
  obtain st page where b: "pool_page_alloc_buffers ?sec al zero_page = (st, page)" by fastforce
  show ?thesis
  proof (cases "st = NV_OK")
    case False
    with b run show ?thesis by (auto simp: pool_alloc_page_def)
  next
    case True
    with b al have mem: "memory page \<noteq> None" "?sec \<longrightarrow> notifier_memory page \<noteq> None"
      by (auto simp: page_allocs_ok_def pool_page_alloc_buffers_def Let_def split: sum.splits if_splits)
    have "unat (free_semaphores_count pool) \<le> length (pages pool) * UVM_SEMAPHORE_COUNT_PER_PAGE"
      using free_total_le[OF ok] ok by (simp add: pool_ok_def)
    then have cnt: "unat (free_semaphores_count pool + 1024) = unat (free_semaphores_count pool) + 1024"
      using room by (simp add: unat_plus_if')
    define page2 where "page2 = (if semaphore_uses_canary g pool
        then page\<lparr>free_semaphores := {..<UVM_SEMAPHORE_COUNT_PER_PAGE}, memory := Some (\<lambda>i.
          if i < UVM_SEMAPHORE_COUNT_PER_PAGE then make_canary 0 else the (memory page) i)\<rparr>
        else page\<lparr>free_semaphores := {..<UVM_SEMAPHORE_COUNT_PER_PAGE}\<rparr>)"
    have fr: "free_semaphores page2 = {..<UVM_SEMAPHORE_COUNT_PER_PAGE}" by (simp add: page2_def)
    have pok: "page_ok g ?sec page2"
      using mem by (auto simp: page2_def page_ok_def semaphore_uses_canary_def)
    have pool': "pool' = pool\<lparr>pages := p # pages pool, free_semaphores_count := free_semaphores_count pool + 1024,
        page_store := (page_store pool)(p := page2)\<rparr>" "status = NV_OK"
      using run True b by (auto simp: pool_alloc_page_def Let_def page2_def)
    have same: "map (\<lambda>q. card (free_semaphores (((page_store pool)(p := page2)) q))) (pages pool) =
        map (\<lambda>q. card (free_semaphores (page_store pool q))) (pages pool)"
      using fresh by (auto simp: map_eq_conv)
    have parts: "pages pool' = p # pages pool" "page_store pool' = (page_store pool)(p := page2)"
      by (simp_all add: pool')
    have total: "free_total pool' = free_total pool + 1024"
      unfolding free_total_def parts by (simp only: list.map sum_list.Cons same) (simp add: fr)
    have sec: "gpu_semaphore_pool_is_secure g pool' = ?sec"
      by (simp add: pool' gpu_semaphore_pool_is_secure_def)
    have "pool_ok g pool'"
      unfolding pool_ok_def sec total using ok fresh room cnt pok by (auto simp: pool_ok_def pool')
    then show ?thesis by (simp add: pool' fr)
  qed
qed

lemma take_semaphore_ok:
  assumes ok: "pool_ok g pool" and p: "p \<in> set (pages pool)" and i: "i \<in> free_semaphores (page_store pool p)"
    and run: "take_semaphore g pool p i = (pool', sem)"
  shows "pool_ok g pool'" and "allocated pool' = insert (p, i) (allocated pool)"
    and "(p, i) \<notin> allocated pool" and "i < UVM_SEMAPHORE_COUNT_PER_PAGE"
    and "sem_page sem = Some p" and "sem_index sem = i" and "uvm_gpu_semaphore_get_payload g pool' sem = 0"
    and "aperture pool' = aperture pool" and "pages pool' = pages pool"
    and "\<And>q. q \<noteq> (p, i) \<Longrightarrow> payload_at pool' q = payload_at pool q"
proof -
  let ?page = "page_store pool p" and ?sec = "gpu_semaphore_pool_is_secure g pool"
  define page2 where "page2 = (if ?sec
    then ?page\<lparr>notifier_memory := Some ((the (notifier_memory ?page))(i := 0)),
               free_semaphores := free_semaphores ?page - {i}\<rparr>
    else ?page\<lparr>memory := Some ((the (memory ?page))(i := 0)), free_semaphores := free_semaphores ?page - {i}\<rparr>)"
  have pool': "pool' = pool\<lparr>page_store := (page_store pool)(p := page2),
      free_semaphores_count := free_semaphores_count pool - 1\<rparr>"
    using run by (cases ?sec; simp add: take_semaphore_def uvm_gpu_semaphore_set_payload_def Let_def
        zero_semaphore_def page2_def; drule sym; simp)
  have "sem = \<lparr>sem_page = Some p, sem_index = i, cached_payload = 0, last_observed_notifier = 0\<rparr>"
    using run by (cases ?sec; simp add: take_semaphore_def uvm_gpu_semaphore_set_payload_def Let_def
        zero_semaphore_def)
  then have sem: "sem_page sem = Some p" "sem_index sem = i" "cached_payload sem = 0" by simp_all
  have pok: "page_ok g ?sec ?page" using ok p by (auto simp: pool_ok_def)
  then show il: "i < UVM_SEMAPHORE_COUNT_PER_PAGE" using i by (auto simp: page_ok_def)
  have fr: "free_semaphores page2 = free_semaphores ?page - {i}" by (simp add: page2_def)
  have card: "card (free_semaphores ?page) = card (free_semaphores page2) + 1"
    using card_Suc_Diff1[OF page_free_card(1)[OF pok] i] by (simp add: fr)
  have "card (free_semaphores ?page) \<le> free_total pool"
    unfolding free_total_def using p by (intro member_le_sum_list) auto
  then have "0 < unat (free_semaphores_count pool)" using ok card by (simp add: pool_ok_def)
  then have "unat (free_semaphores_count pool - 1) = unat (free_semaphores_count pool) - 1"
    by (simp add: unat_minus_one unat_gt_0)
  then have cnt: "unat (free_semaphores_count pool - 1) + card (free_semaphores ?page) =
      unat (free_semaphores_count pool) + card (free_semaphores page2)"
    using card \<open>0 < unat (free_semaphores_count pool)\<close> by simp
  have "page_ok g ?sec page2" using pok by (auto simp: page_ok_def page2_def)
  from pool_ok_page_upd[OF ok p this cnt] show "pool_ok g pool'" by (simp add: pool')
  show "allocated pool' = insert (p, i) (allocated pool)" using p il by (auto simp: allocated_def pool' fr split: if_splits)
  show "(p, i) \<notin> allocated pool" using i by (simp add: allocated_def)
  show "sem_page sem = Some p" "sem_index sem = i" by (fact sem)+
  show "uvm_gpu_semaphore_get_payload g pool' sem = 0"
    using sem by (simp add: uvm_gpu_semaphore_get_payload_def pool' gpu_semaphore_pool_is_secure_def page2_def)
  show "aperture pool' = aperture pool" "pages pool' = pages pool" by (simp_all add: pool')
  show "\<And>q. q \<noteq> (p, i) \<Longrightarrow> payload_at pool' q = payload_at pool q"
    by (auto simp: payload_at_def pool' page2_def)
qed

lemma alloc_from_pages_hit:
  assumes "\<exists>p\<in>set ps. \<exists>i<UVM_SEMAPHORE_COUNT_PER_PAGE. i \<in> free_semaphores (page_store pool p)"
  shows "\<exists>p\<in>set ps. \<exists>i\<in>free_semaphores (page_store pool p).
    alloc_from_pages g pool ps = (NV_OK, take_semaphore g pool p i)"
  using assms
proof (induction ps)
  case (Cons p ps)
  let ?i = "find_first_bit (free_semaphores (page_store pool p)) UVM_SEMAPHORE_COUNT_PER_PAGE"
  show ?case
  proof (cases "?i = UVM_SEMAPHORE_COUNT_PER_PAGE")
    case True
    with Cons show ?thesis by (auto simp: find_first_bit_full_iff)
  next
    case False
    then obtain j where "j < UVM_SEMAPHORE_COUNT_PER_PAGE" "j \<in> free_semaphores (page_store pool p)"
      by (auto simp: find_first_bit_full_iff)
    with find_first_bit_hit(2)[OF this] False show ?thesis by (intro bexI[of _ p] bexI[of _ ?i]) auto
  qed
qed simp

lemma free_total_pos:
  assumes "pool_ok g pool" and "0 < free_total pool"
  shows "\<exists>p\<in>set (pages pool). \<exists>i<UVM_SEMAPHORE_COUNT_PER_PAGE. i \<in> free_semaphores (page_store pool p)"
proof (rule ccontr)
  assume "\<not> ?thesis"
  then have "\<forall>p\<in>set (pages pool). free_semaphores (page_store pool p) = {}"
    using assms(1) by (fastforce simp: pool_ok_def page_ok_def)
  then have "map (\<lambda>p. card (free_semaphores (page_store pool p))) (pages pool) = map (\<lambda>p. 0) (pages pool)"
    by (auto simp: map_eq_conv)
  then have "free_total pool = 0" by (simp only: free_total_def) simp
  with assms(2) show False by simp
qed

lemma uvm_gpu_semaphore_free_ok:
  assumes ok: "pool_ok g pool" and al: "(p, i) \<in> allocated pool"
    and sem: "sem_page sem = Some p" "sem_index sem = i"
    and run: "uvm_gpu_semaphore_free g pool sem = (pool', sem')"
  shows "pool_ok g pool'" and "allocated pool' = allocated pool - {(p, i)}" and "sem_page sem' = None"
    and "\<And>q. q \<noteq> (p, i) \<Longrightarrow> payload_at pool' q = payload_at pool q"
    and "semaphore_uses_canary g pool \<Longrightarrow> is_canary (payload_at pool' (p, i))"
    and "pages pool' = pages pool" and "aperture pool' = aperture pool"
proof -
  let ?page = "page_store pool p" and ?sec = "gpu_semaphore_pool_is_secure g pool"
  define page2 where "page2 = (if semaphore_uses_canary g pool
    then ?page\<lparr>memory := Some ((the (memory ?page))(i := make_canary (the (memory ?page) i))),
               free_semaphores := insert i (free_semaphores ?page)\<rparr>
    else ?page\<lparr>free_semaphores := insert i (free_semaphores ?page)\<rparr>)"
  have pool': "pool' = pool\<lparr>page_store := (page_store pool)(p := page2),
      free_semaphores_count := free_semaphores_count pool + 1\<rparr>" and sem': "sem_page sem' = None"
    using run sem by (cases "semaphore_uses_canary g pool"; auto simp: uvm_gpu_semaphore_free_def
        uvm_gpu_semaphore_set_payload_def uvm_gpu_semaphore_get_payload_def semaphore_uses_canary_def
        Let_def page2_def)+
  from al have p: "p \<in> set (pages pool)" and il: "i < UVM_SEMAPHORE_COUNT_PER_PAGE"
    and i: "i \<notin> free_semaphores ?page" by (auto simp: allocated_def)
  have pok: "page_ok g ?sec ?page" using ok p by (auto simp: pool_ok_def)
  have pok2: "page_ok g ?sec page2"
    using pok il by (auto simp: page_ok_def page2_def semaphore_uses_canary_def)
  have fr: "free_semaphores page2 = insert i (free_semaphores ?page)" by (simp add: page2_def)
  then have card: "card (free_semaphores page2) = card (free_semaphores ?page) + 1"
    using i page_free_card(1)[OF pok] by simp
  have "free_total pool < 2 ^ 32 - 1"
  proof -
    have "length (pages pool) * UVM_SEMAPHORE_COUNT_PER_PAGE < 2 ^ 32" using ok by (simp add: pool_ok_def)
    then have "length (pages pool) * UVM_SEMAPHORE_COUNT_PER_PAGE < 2 ^ 32 - 1" by simp
    with free_total_le[OF ok] show ?thesis by simp
  qed
  then have "unat (free_semaphores_count pool + 1) = unat (free_semaphores_count pool) + 1"
    using ok by (simp add: pool_ok_def unat_plus_if')
  then have cnt: "unat (free_semaphores_count pool + 1) + card (free_semaphores ?page) =
      unat (free_semaphores_count pool) + card (free_semaphores page2)" using card by simp
  from pool_ok_page_upd[OF ok p pok2 cnt] show "pool_ok g pool'" by (simp add: pool')
  show "allocated pool' = allocated pool - {(p, i)}" using p il by (auto simp: allocated_def pool' fr split: if_splits)
  show "sem_page sem' = None" by (fact sem')
  show "\<And>q. q \<noteq> (p, i) \<Longrightarrow> payload_at pool' q = payload_at pool q"
    by (auto simp: payload_at_def pool' page2_def)
  show "semaphore_uses_canary g pool \<Longrightarrow> is_canary (payload_at pool' (p, i))"
    by (simp add: payload_at_def pool' page2_def)
  show "pages pool' = pages pool" "aperture pool' = aperture pool" by (simp_all add: pool')
qed

section \<open>Properties of pools\<close>

text \<open>A semaphore allocation fails only when the pool is empty and a new page cannot be
  allocated, and then changes nothing; the error path after the search for a free semaphore is never
  taken. On success the semaphore was not allocated before, it is the only one that becomes
  allocated, its payload reads 0, no other payload changes, and the pool invariant holds.\<close>

theorem uvm_gpu_semaphore_alloc_correct:
  assumes ok: "pool_ok g pool" and fresh: "new_page \<notin> set (pages pool)" and al: "page_allocs_ok al"
    and room: "(length (pages pool) + 1) * UVM_SEMAPHORE_COUNT_PER_PAGE < 2 ^ 32"
    and run: "uvm_gpu_semaphore_alloc g (Some new_page) al pool = (status, pool', sem)"
  shows "if status = NV_OK
    then pool_ok g pool' \<and> uvm_gpu_semaphore_get_payload g pool' sem = 0 \<and>
      (\<exists>p i. sem_page sem = Some p \<and> sem_index sem = i \<and> i < UVM_SEMAPHORE_COUNT_PER_PAGE \<and>
         (p, i) \<notin> allocated pool \<and> allocated pool' = insert (p, i) (allocated pool) \<and>
         (\<forall>q\<in>allocated pool. payload_at pool' q = payload_at pool q))
    else free_semaphores_count pool = 0 \<and> status = fst (pool_alloc_page g (Some new_page) al pool) \<and>
      pool' = pool \<and> sem_page sem = None"
proof -
  obtain st pool1 where s1: "(if free_semaphores_count pool = 0 then pool_alloc_page g (Some new_page) al pool
      else (NV_OK, pool)) = (st, pool1)" by fastforce
  show ?thesis
  proof (cases "st = NV_OK")
    case False
    then have e: "free_semaphores_count pool = 0" "pool_alloc_page g (Some new_page) al pool = (st, pool1)"
      using s1 by (auto split: if_splits)
    with run False pool_alloc_page_ok[OF ok fresh al room e(2)] show ?thesis
      by (auto simp: uvm_gpu_semaphore_alloc_def zero_semaphore_def)
  next
    case True
    have "pool_ok g pool1 \<and> allocated pool1 = allocated pool \<and>
      (\<forall>q\<in>allocated pool. payload_at pool1 q = payload_at pool q) \<and> 0 < free_total pool1"
    proof (cases "free_semaphores_count pool = 0")
      case False
      with s1 ok show ?thesis
        by (auto simp: pool_ok_def simp flip: unat_gt_0)
    next
      case c: True
      with s1 True have "pool_alloc_page g (Some new_page) al pool = (NV_OK, pool1)" by simp
      note A = pool_alloc_page_ok[OF ok fresh al room this, simplified]
      have "allocated pool1 = allocated pool" using A fresh by (auto simp: allocated_def)
      moreover have "\<forall>q\<in>allocated pool. payload_at pool1 q = payload_at pool q"
        using A fresh by (auto simp: allocated_def payload_at_def)
      ultimately show ?thesis using A by (simp add: free_total_def)
    qed
    then have ok1: "pool_ok g pool1" and alloc1: "allocated pool1 = allocated pool"
      and pay: "\<forall>q\<in>allocated pool. payload_at pool1 q = payload_at pool q" and pos: "0 < free_total pool1"
      by auto
    from alloc_from_pages_hit[OF free_total_pos[OF ok1 pos], of g] obtain p i where
      pi: "p \<in> set (pages pool1)" "i \<in> free_semaphores (page_store pool1 p)"
        "alloc_from_pages g pool1 (pages pool1) = (NV_OK, take_semaphore g pool1 p i)" by blast
    with run s1 True have t: "take_semaphore g pool1 p i = (pool', sem)" and st: "status = NV_OK"
      by (simp_all add: uvm_gpu_semaphore_alloc_def)
    note T = take_semaphore_ok[OF ok1 pi(1,2) t]
    have "payload_at pool' q = payload_at pool q" if "q \<in> allocated pool" for q
      using that T(3) T(10)[of q] alloc1 pay by auto
    with T st alloc1 show ?thesis by auto
  qed
qed

text \<open>Freeing an allocated semaphore keeps the pool invariant, makes exactly that semaphore
  available again, leaves every other payload alone, writes a canary on debug builds, and clears the
  page of the semaphore so that freeing it again does nothing.\<close>

theorem uvm_gpu_semaphore_free_correct:
  assumes ok: "pool_ok g pool" and al: "(p, i) \<in> allocated pool"
    and sem: "sem_page sem = Some p" "sem_index sem = i"
    and run: "uvm_gpu_semaphore_free g pool sem = (pool', sem')"
  shows "pool_ok g pool' \<and> allocated pool' = allocated pool - {(p, i)} \<and>
    (\<forall>q\<in>allocated pool'. payload_at pool' q = payload_at pool q) \<and>
    (semaphore_uses_canary g pool \<longrightarrow> is_canary (payload_at pool' (p, i))) \<and>
    uvm_gpu_semaphore_free g pool' sem' = (pool', sem')"
  using uvm_gpu_semaphore_free_ok[OF ok al sem run]
  by (auto simp: uvm_gpu_semaphore_free_def)

lemma pool_free_page_ok:
  assumes ok: "pool_ok g pool" and all: "\<forall>q\<in>set (pages pool). free_semaphores (page_store pool q) = {..<UVM_SEMAPHORE_COUNT_PER_PAGE}"
    and ps: "pages pool = p # ps"
  shows "pool_free_page_asserts g p pool" and "pool_ok g (pool_free_page g p pool)"
    and "pages (pool_free_page g p pool) = ps"
    and "\<forall>q\<in>set ps. free_semaphores (page_store (pool_free_page g p pool) q) = {..<UVM_SEMAPHORE_COUNT_PER_PAGE}"
proof -
  let ?page = "page_store pool p" and ?pool' = "pool_free_page g p pool"
  have full: "free_semaphores ?page = {..<UVM_SEMAPHORE_COUNT_PER_PAGE}" and np: "p \<notin> set ps"
    using all ps ok by (auto simp: pool_ok_def)
  have cnt: "unat (free_semaphores_count pool) = 1024 + (\<Sum>q\<leftarrow>ps. card (free_semaphores (page_store pool q)))"
    using ok full by (simp add: pool_ok_def free_total_def ps)
  then have ge: "1024 \<le> free_semaphores_count pool" by (simp add: word_le_nat_alt)
  then show "pool_free_page_asserts g p pool"
    using ok full ps by (auto simp: pool_free_page_asserts_def pool_ok_def page_ok_def semaphore_uses_canary_def)
  have sec: "gpu_semaphore_pool_is_secure g ?pool' = gpu_semaphore_pool_is_secure g pool"
    by (simp add: pool_free_page_def gpu_semaphore_pool_is_secure_def)
  have pg: "pages ?pool' = ps" "\<forall>q\<in>set ps. page_store ?pool' q = page_store pool q"
    using np by (auto simp: pool_free_page_def ps)
  then have "free_total ?pool' = (\<Sum>q\<leftarrow>ps. card (free_semaphores (page_store pool q)))"
    unfolding free_total_def by (simp cong: map_cong)
  moreover have "unat (free_semaphores_count ?pool') = unat (free_semaphores_count pool) - 1024"
    using ge by (simp add: pool_free_page_def unat_sub)
  ultimately show "pool_ok g ?pool'"
    using ok cnt pg by (auto simp: pool_ok_def sec ps)
  show "pages ?pool' = ps" by (fact pg)
  show "\<forall>q\<in>set ps. free_semaphores (page_store ?pool' q) = {..<UVM_SEMAPHORE_COUNT_PER_PAGE}"
    using pg all ps by simp
qed

text \<open>The pools that \<^verbatim>\<open>uvm_gpu_semaphore_pool_destroy\<close> goes through: before each page is freed.\<close>

fun destroy_states :: "uvm_global \<Rightarrow> 'g semaphore_pool \<Rightarrow> 'g list \<Rightarrow> ('g \<times> 'g semaphore_pool) list" where
  "destroy_states g pool [] = []"
| "destroy_states g pool (p # ps) = (p, pool) # destroy_states g (pool_free_page g p pool) ps"

text \<open>Destroying a pool with no semaphore allocated satisfies every assertion of
  \<^verbatim>\<open>pool_free_page\<close> on every page (all semaphores free, the count large enough, canaries
  intact), and ends with no page and a count of zero.\<close>

theorem uvm_gpu_semaphore_pool_destroy_correct:
  assumes "pool_ok g pool" and "allocated pool = {}"
  shows "(\<forall>(p, st)\<in>set (destroy_states g pool (pages pool)). pool_free_page_asserts g p st) \<and>
    pages (uvm_gpu_semaphore_pool_destroy g pool) = [] \<and>
    free_semaphores_count (uvm_gpu_semaphore_pool_destroy g pool) = 0"
proof -
  have "(\<forall>(p, st)\<in>set (destroy_states g pool ps). pool_free_page_asserts g p st) \<and>
      pages (fold (pool_free_page g) ps pool) = [] \<and> pool_ok g (fold (pool_free_page g) ps pool)"
    if "pool_ok g pool" "pages pool = ps"
      "\<forall>q\<in>set ps. free_semaphores (page_store pool q) = {..<UVM_SEMAPHORE_COUNT_PER_PAGE}" for ps
    using that
  proof (induction ps arbitrary: pool)
    case (Cons p ps)
    note F = pool_free_page_ok[OF Cons.prems(1) _ Cons.prems(2)]
    show ?case using Cons.IH[OF F(2,3,4)] F(1) Cons.prems by simp
  qed simp
  moreover have "\<forall>q\<in>set (pages pool). free_semaphores (page_store pool q) = {..<UVM_SEMAPHORE_COUNT_PER_PAGE}"
    using assms by (fastforce simp: allocated_def pool_ok_def page_ok_def)
  ultimately show ?thesis
    using assms(1) by (fastforce simp: uvm_gpu_semaphore_pool_destroy_def pool_ok_def free_total_def unat_eq_zero)
qed

lemma unat_and_mask: "unat ((w :: 'a::len word) AND mask k) = unat w mod 2 ^ k"
  by (metis take_bit_eq_mask take_bit_eq_mod unsigned_take_bit_eq)

section \<open>Properties of canaries and tracking semaphores\<close>

lemma unat_or_disjoint: "(a :: 'a::len word) AND b = 0 \<Longrightarrow> a OR b = a + b"
  by (simp add: disjunctive_add_eq_or)

lemma canary_split: "\<exists>k. make_canary v = v - k \<and> 0x34523F22 \<le> k \<and> k < 0x50000000"
proof -
  define w where "w = v - push_bit 30 1"
  define lo where "lo = w AND mask 28"
  have M: "UVM_SEMAPHORE_CANARY_MASK = NOT (mask 28)"
    by (simp add: UVM_SEMAPHORE_CANARY_MASK_def mask_eq_exp_minus_1)
  have B: "UVM_SEMAPHORE_CANARY_BASE AND NOT (mask 28) = 0"
    by (simp add: UVM_SEMAPHORE_CANARY_BASE_def mask_eq_exp_minus_1)
  then have dis: "(w AND NOT (mask 28)) AND UVM_SEMAPHORE_CANARY_BASE = 0"
    by (metis and.assoc and.commute and_zero_eq)
  have "make_canary v = (w AND NOT (mask 28)) + UVM_SEMAPHORE_CANARY_BASE"
    unfolding make_canary_def M w_def[symmetric] by (rule unat_or_disjoint[OF dis])
  moreover have "w = (w AND NOT (mask 28)) + lo"
  proof -
    have "(w AND NOT (mask 28)) AND lo = 0" by (auto simp: lo_def bit_eq_iff bit_simps)
    then have "(w AND NOT (mask 28)) OR lo = (w AND NOT (mask 28)) + lo" by (rule unat_or_disjoint)
    moreover have "(w AND NOT (mask 28)) OR lo = w" by (auto simp: lo_def bit_eq_iff bit_simps)
    ultimately show ?thesis by simp
  qed
  ultimately have eq: "make_canary v = v - (push_bit 30 1 - UVM_SEMAPHORE_CANARY_BASE + lo)"
    by (simp add: w_def algebra_simps)
  have "push_bit 30 1 - UVM_SEMAPHORE_CANARY_BASE = (0x34523F22 :: NvU32)"
    by (simp add: UVM_SEMAPHORE_CANARY_BASE_def)
  with eq have eq': "make_canary v = v - (0x34523F22 + lo)" by simp
  have "unat lo < 2 ^ 28"
    by (simp add: lo_def unat_and_mask)
  then have "unat (0x34523F22 + lo) = 0x34523F22 + unat lo" by (simp add: unat_plus_if')
  then have "0x34523F22 \<le> 0x34523F22 + lo" "0x34523F22 + lo < 0x50000000"
    using \<open>unat lo < 2 ^ 28\<close> by (simp_all add: word_le_nat_alt word_less_nat_alt)
  with eq' show ?thesis by blast
qed

text \<open>The canary written on free is recognised as a canary, and it lies behind the payload it
  replaces by less than half of the 32-bit number wheel, so that a pending acquire of a value within
  \<open>2\<^sup>29\<close> of the payload does not see the semaphore as released.\<close>

theorem make_canary_correct:
  assumes "unat ahead \<le> 2 ^ 29"
  shows "is_canary (make_canary payload) \<and>
    0 < unat (payload - make_canary payload) \<and>
    unat ((payload + ahead) - make_canary payload) < 2 ^ 31"
proof -
  obtain k where k: "make_canary payload = payload - k" "0x34523F22 \<le> k" "k < 0x50000000"
    using canary_split by blast
  then have uk: "0x34523F22 \<le> unat k" "unat k < 0x50000000"
    by (simp_all add: word_le_nat_alt word_less_nat_alt)
  have "payload + ahead - make_canary payload = ahead + k" using k by simp
  moreover have "unat (ahead + k) = unat ahead + unat k"
    using uk assms by (simp add: unat_plus_if')
  ultimately show ?thesis using uk assms k is_canary_make_canary[of payload] by simp
qed

definition refreshed ::
    "uvm_global \<Rightarrow> 'g semaphore_pool \<Rightarrow> ('g gpu_semaphore \<Rightarrow> 'g gpu_semaphore) \<Rightarrow> 'g tracking_semaphore \<Rightarrow> 'g gpu_semaphore" where
  "refreshed g pool enc_update ts =
     (if gpu_semaphore_pool_is_secure g pool then enc_update (semaphore ts) else semaphore ts)"

lemma update_completed_value_locked_exact:
  assumes "uvm_gpu_semaphore_get_payload g pool (refreshed g pool enc ts) = ucast true_value"
    and "completed_value ts \<le> true_value" and "unat true_value - unat (completed_value ts) < 2 ^ 32"
  shows "update_completed_value_locked g pool enc ts =
    (true_value, ts\<lparr>semaphore := refreshed g pool enc ts, completed_value := true_value\<rparr>)"
  using widen_payload_exact[OF assms]
  by (auto simp: update_completed_value_locked_def refreshed_def Let_def)

text \<open>C27. When the 32-bit payload is the low half of the 64-bit count the GPU has reached, and
  fewer than \<open>2\<^sup>32\<close> values passed since the last update, a query for a value answers exactly
  whether the GPU has reached it, and the completed value afterwards is one the GPU has reached and
  never goes back, also across a wrap of the payload.\<close>

theorem uvm_gpu_tracking_semaphore_is_value_completed_correct:
  assumes pay: "uvm_gpu_semaphore_get_payload g pool (refreshed g pool enc ts) = ucast reached"
    and ge: "completed_value ts \<le> reached"
    and near: "unat reached - unat (completed_value ts) < 2 ^ 32"
    and run: "uvm_gpu_tracking_semaphore_is_value_completed g pool enc ts val = (done, ts')"
  shows "(done \<longleftrightarrow> val \<le> reached) \<and> completed_value ts \<le> completed_value ts' \<and>
    completed_value ts' \<le> reached \<and> (\<not> done \<longrightarrow> completed_value ts' = reached)"
  using run ge update_completed_value_locked_exact[OF pay ge near]
  by (auto simp: uvm_gpu_tracking_semaphore_is_value_completed_def
      uvm_gpu_tracking_semaphore_update_completed_value_def split: if_splits)

section \<open>Encrypted payloads\<close>

text \<open>
  The GPU's side of a secure semaphore: it makes the notifier odd, writes the tag and the payload,
  and makes the notifier even again. \<open>w_notifier\<close> counts without wrapping.
\<close>

record gpu_mem =
  w_notifier :: nat
  w_auth_tag :: "NvU8 list"
  w_payload :: NvU32

inductive writer_step :: "gpu_mem \<Rightarrow> gpu_mem \<Rightarrow> bool" where
  idle: "writer_step m m"
| begin_update: "even (w_notifier m) \<Longrightarrow> writer_step m (m\<lparr>w_notifier := w_notifier m + 1\<rparr>)"
| write_tag: "odd (w_notifier m) \<Longrightarrow> writer_step m (m\<lparr>w_auth_tag := t\<rparr>)"
| write_payload: "odd (w_notifier m) \<Longrightarrow> writer_step m (m\<lparr>w_payload := v\<rparr>)"
| end_update: "odd (w_notifier m) \<Longrightarrow> writer_step m (m\<lparr>w_notifier := w_notifier m + 1\<rparr>)"

inductive_cases writer_stepE: "writer_step m m'"

definition gpu_trace :: "(nat \<Rightarrow> gpu_mem) \<Rightarrow> bool" where
  "gpu_trace tr \<longleftrightarrow> (\<forall>t. writer_step (tr t) (tr (Suc t))) \<and> (\<forall>t. w_notifier (tr t) < 2 ^ 32)"

text \<open>An observation whose reads happen at times in order, the tag in between the notifier reads.\<close>

definition observed_in :: "(nat \<Rightarrow> gpu_mem) \<Rightarrow> observation \<Rightarrow> bool" where
  "observed_in tr ob \<longleftrightarrow> (\<exists>t1 t2 t3 t4. t1 \<le> t2 \<and> t2 \<le> t3 \<and> t3 \<le> t4 \<and>
     obs_notifier ob = word_of_nat (w_notifier (tr t1)) \<and> obs_auth_tag ob = w_auth_tag (tr t2) \<and>
     obs_payload ob = w_payload (tr t3) \<and> obs_new_notifier ob = word_of_nat (w_notifier (tr t4)))"

lemma writer_step_even:
  assumes "writer_step m m'"
  shows "w_notifier m \<le> w_notifier m'" "even (w_notifier m) \<Longrightarrow> w_notifier m' = w_notifier m \<Longrightarrow> m' = m"
  using assms by (auto elim: writer_stepE)

lemma trace_mono: "gpu_trace tr \<Longrightarrow> t \<le> u \<Longrightarrow> w_notifier (tr t) \<le> w_notifier (tr u)"
  by (rule lift_Suc_mono_le) (auto simp: gpu_trace_def dest: writer_step_even(1))

lemma trace_stable:
  assumes tr: "gpu_trace tr" and ev: "even (w_notifier (tr t))"
    and eq: "w_notifier (tr (t + d)) = w_notifier (tr t)" and "k \<le> d"
  shows "tr (t + k) = tr t"
  using \<open>k \<le> d\<close>
proof (induction k)
  case (Suc k)
  then have IH: "tr (t + k) = tr t" by simp
  have "w_notifier (tr (t + Suc k)) \<le> w_notifier (tr (t + d))"
    using Suc.prems by (intro trace_mono[OF tr]) simp
  moreover have "w_notifier (tr t) \<le> w_notifier (tr (t + Suc k))" by (intro trace_mono[OF tr]) simp
  ultimately have "w_notifier (tr (Suc (t + k))) = w_notifier (tr (t + k))" using eq IH by simp
  moreover have "writer_step (tr (t + k)) (tr (Suc (t + k)))" using tr by (simp add: gpu_trace_def)
  ultimately show ?case using writer_step_even(2) ev IH by (metis add_Suc_right)
qed simp

lemma payload_read_loop_Got:
  "payload_read_loop fuel obs i last_obs tries = Some (Got n tag pay) \<Longrightarrow>
   \<exists>j\<ge>i. even (unat n) \<and> n \<noteq> last_obs \<and> obs_notifier (obs j) = n \<and> obs_new_notifier (obs j) = n \<and>
     obs_auth_tag (obs j) = tag \<and> obs_payload (obs j) = pay"
proof (induction fuel arbitrary: i tries)
  case (Suc fuel)
  let ?ob = "obs i"
  show ?case
  proof (cases "\<exists>tries'. payload_read_loop fuel obs (Suc i) last_obs tries' = Some (Got n tag pay)")
    case True
    then obtain tries' where "payload_read_loop fuel obs (Suc i) last_obs tries' = Some (Got n tag pay)" ..
    from Suc.IH[OF this] obtain j where "Suc i \<le> j" "even (unat n) \<and> n \<noteq> last_obs \<and>
      obs_notifier (obs j) = n \<and> obs_new_notifier (obs j) = n \<and> obs_auth_tag (obs j) = tag \<and>
      obs_payload (obs j) = pay" by blast
    then show ?thesis using Suc_leD by blast
  next
    case False
    with Suc.prems have "even (unat n) \<and> n \<noteq> last_obs \<and> obs_notifier ?ob = n \<and> obs_new_notifier ?ob = n \<and>
        obs_auth_tag ?ob = tag \<and> obs_payload ?ob = pay"
      by (simp add: Let_def word_gt_0 split: if_splits)
    then show ?thesis by blast
  qed
qed simp

text \<open>C36. A payload accepted by \<^verbatim>\<open>gpu_semaphore_encrypted_payload_update\<close> is never torn: when
  the reads race with a GPU that follows the notifier protocol, the tag and the payload that are
  decrypted are those of one moment at which the notifier had the even value that is recorded, and
  that value differs from the last one observed. Otherwise the semaphore is unchanged.\<close>

theorem gpu_semaphore_encrypted_payload_update_consistent:
  assumes tr: "gpu_trace tr" and obs: "\<forall>i. observed_in tr (obs i)"
    and run: "gpu_semaphore_encrypted_payload_update fuel obs decrypt entries sem = Some (sem', status)"
  shows "sem' = sem \<or>
    (\<exists>t v. even (w_notifier (tr t)) \<and> last_observed_notifier sem' = word_of_nat (w_notifier (tr t)) \<and>
       last_observed_notifier sem' \<noteq> last_observed_notifier sem \<and>
       decrypt ((last_observed_notifier sem' div 2) mod entries) (w_payload (tr t)) (w_auth_tag (tr t)) = Inr v \<and>
       sem' = sem\<lparr>cached_payload := v, last_observed_notifier := word_of_nat (w_notifier (tr t))\<rparr> \<and> status = NV_OK)"
proof (cases "sem' = sem")
  case False
  with run obtain n tag pay v where
    L: "payload_read_loop fuel obs 0 (last_observed_notifier sem) entries = Some (Got n tag pay)"
    and D: "decrypt ((n div 2) mod entries) pay tag = Inr v"
      "sem' = sem\<lparr>cached_payload := v, last_observed_notifier := n\<rparr>" "status = NV_OK"
    by (auto simp: gpu_semaphore_encrypted_payload_update_def split: option.splits payload_read.splits sum.splits)
  from payload_read_loop_Got[OF L] obtain j where
    J: "even (unat n)" "n \<noteq> last_observed_notifier sem" "obs_notifier (obs j) = n"
      "obs_new_notifier (obs j) = n" "obs_auth_tag (obs j) = tag" "obs_payload (obs j) = pay" by blast
  from obs[rule_format, of j] obtain t1 t2 t3 t4 where
    t: "t1 \<le> t2" "t2 \<le> t3" "t3 \<le> t4" and
    O: "n = word_of_nat (w_notifier (tr t1))" "tag = w_auth_tag (tr t2)" "pay = w_payload (tr t3)"
      "n = word_of_nat (w_notifier (tr t4))" unfolding observed_in_def J by blast
  have u: "unat (word_of_nat (w_notifier (tr t)) :: NvU32) = w_notifier (tr t)" for t
    using tr by (simp add: gpu_trace_def unat_of_nat)
  from O(1,4) u have eq: "w_notifier (tr t4) = w_notifier (tr t1)" by metis
  have ev: "even (w_notifier (tr t1))" using J(1) u O(1) by metis
  have "tr t2 = tr t1" "tr t3 = tr t1"
    using trace_stable[OF tr ev, of "t4 - t1" "t2 - t1"] trace_stable[OF tr ev, of "t4 - t1" "t3 - t1"] t eq
    by simp_all
  then show ?thesis using O D J(2) ev by auto
qed simp

lemma payload_read_loop_even:
  assumes "unat tries \<le> length (filter (\<lambda>j. even (unat (obs_notifier (obs j)))) [i..<i + fuel])" and "0 < tries"
  shows "payload_read_loop fuel obs i last_obs tries \<noteq> None"
  using assms
proof (induction fuel arbitrary: i tries)
  case 0
  then show ?case by (simp add: word_less_nat_alt)
next
  case (Suc fuel)
  let ?P = "\<lambda>j. even (unat (obs_notifier (obs j)))"
  define rest where "rest = length (filter ?P [Suc i..<Suc i + fuel])"
  have "[i..<i + Suc fuel] = i # [Suc i..<Suc i + fuel]" by (simp add: upt_conv_Cons)
  then have cnt: "unat tries \<le> (if ?P i then 1 else 0) + rest"
    using Suc.prems(1) by (simp only: filter.simps rest_def) (simp split: if_splits)
  have IH: "unat tr \<le> rest \<Longrightarrow> 0 < tr \<Longrightarrow> payload_read_loop fuel obs (Suc i) last_obs tr \<noteq> None" for tr
    unfolding rest_def by (rule Suc.IH)
  show ?case
  proof (cases "?P i")
    case False
    with IH[of tries] cnt Suc.prems(2) show ?thesis by simp
  next
    case True
    have "unat (tries - 1) \<le> rest" using True cnt Suc.prems(2) by (simp add: unat_minus_one word_gt_0)
    with True IH[of "tries - 1"] show ?thesis by (auto simp: Let_def)
  qed
qed

lemma payload_read_loop_odd:
  assumes "\<forall>j. odd (unat (obs_notifier (obs j)))" and "0 < tries"
  shows "payload_read_loop fuel obs i last_obs tries = None"
  using assms by (induction fuel arbitrary: i) auto

text \<open>The refresh of a secure payload returns as soon as as many reads of the notifier as the
  channel has GPFIFO entries were even. Reads that find an update in progress do not count as
  tries: while the notifier stays odd the loop does not return at all, whatever the number of
  tries.\<close>

theorem gpu_semaphore_encrypted_payload_update_returns:
  assumes "0 < entries"
  shows "(unat entries \<le> length (filter (\<lambda>j. even (unat (obs_notifier (obs j)))) [0..<fuel]) \<longrightarrow>
      gpu_semaphore_encrypted_payload_update fuel obs decrypt entries sem \<noteq> None) \<and>
    ((\<forall>j. odd (unat (obs_notifier (obs j)))) \<longrightarrow>
      gpu_semaphore_encrypted_payload_update fuel obs decrypt entries sem = None)"
  using payload_read_loop_even[of entries obs 0 fuel "last_observed_notifier sem"]
    payload_read_loop_odd[OF _ assms, of obs fuel 0 "last_observed_notifier sem"] assms
  by (auto simp: gpu_semaphore_encrypted_payload_update_def split: option.splits payload_read.splits sum.splits)

text \<open>The last permitted try is always rejected: with one try left, a consistent new payload
  (both reads of the notifier even and equal) is reported as \<^verbatim>\<open>NV_ERR_INVALID_STATE\<close> without being
  decrypted; with two tries left the same payload is accepted.\<close>

theorem gpu_semaphore_encrypted_payload_update_last_try:
  assumes "even (unat (obs_notifier (obs 0)))" and "obs_new_notifier (obs 0) = obs_notifier (obs 0)"
    and "obs_notifier (obs 0) \<noteq> last_observed_notifier sem"
    and "decrypt (obs_notifier (obs 0) div 2 mod 2) (obs_payload (obs 0)) (obs_auth_tag (obs 0)) = Inr v"
  shows "gpu_semaphore_encrypted_payload_update (Suc fuel) obs decrypt 1 sem = Some (sem, NV_ERR_INVALID_STATE) \<and>
    gpu_semaphore_encrypted_payload_update (Suc fuel) obs decrypt 2 sem =
      Some (sem\<lparr>cached_payload := v, last_observed_notifier := obs_notifier (obs 0)\<rparr>, NV_OK)"
  using assms by (simp add: gpu_semaphore_encrypted_payload_update_def Let_def)

section \<open>Concrete instances\<close>

definition debug_global :: uvm_global where
  "debug_global = \<lparr>conf_computing_enabled = False, is_debug = True\<rparr>"

definition good_allocs :: page_allocs where
  "good_allocs = \<lparr>alloc_memory = Inr (\<lambda>_. 0), alloc_encrypted = Inr (\<lambda>_. 0),
                  alloc_auth_tag = Inr (\<lambda>_. 0), alloc_notifier = Inr (\<lambda>_. 0)\<rparr>"

definition empty_pool :: "nat semaphore_pool" where
  "empty_pool = \<lparr>pages = [], aperture = UVM_APERTURE_SYS, free_semaphores_count = 0, page_store = (\<lambda>_. zero_page)\<rparr>"

definition canary_page :: semaphore_pool_page where
  "canary_page = zero_page\<lparr>memory := Some (\<lambda>_. make_canary 0), free_semaphores := {..<UVM_SEMAPHORE_COUNT_PER_PAGE}\<rparr>"

text \<open>A pool of one page in which semaphore 5 is allocated, with payload 3.\<close>

definition used_pool :: "nat semaphore_pool" where
  "used_pool = \<lparr>pages = [0], aperture = UVM_APERTURE_SYS, free_semaphores_count = 1023,
     page_store = (\<lambda>_. canary_page\<lparr>memory := Some ((\<lambda>_. make_canary 0)(5 := 3)),
                                    free_semaphores := {..<UVM_SEMAPHORE_COUNT_PER_PAGE} - {5}\<rparr>)\<rparr>"

definition sem5 :: "nat gpu_semaphore" where
  "sem5 = \<lparr>sem_page = Some 0, sem_index = 5, cached_payload = 0, last_observed_notifier = 0\<rparr>"

lemma used_pool_ok: "pool_ok debug_global used_pool" and used_pool_allocated: "allocated used_pool = {(0, 5)}"
  by (auto simp: pool_ok_def used_pool_def page_ok_def free_total_def canary_page_def zero_page_def allocated_def
      gpu_semaphore_pool_is_secure_def debug_global_def)

theorem uvm_gpu_semaphore_alloc_correct_witness:
  "\<exists>pool' sem p i. uvm_gpu_semaphore_alloc debug_global (Some 0) good_allocs empty_pool = (NV_OK, pool', sem) \<and>
     pool_ok debug_global pool' \<and> allocated pool' = {(p, i)} \<and> uvm_gpu_semaphore_get_payload debug_global pool' sem = 0"
proof -
  obtain status pool' sem where
    run: "uvm_gpu_semaphore_alloc debug_global (Some 0) good_allocs empty_pool = (status, pool', sem)"
    by (metis prod_cases3)
  have ok: "pool_ok debug_global empty_pool" "page_allocs_ok good_allocs"
    and side: "0 \<notin> set (pages empty_pool)"
      "(length (pages empty_pool) + 1) * UVM_SEMAPHORE_COUNT_PER_PAGE < 2 ^ 32"
      "allocated empty_pool = {}"
    by (auto simp: pool_ok_def empty_pool_def free_total_def page_allocs_ok_def good_allocs_def allocated_def)
  have "fst (pool_alloc_page debug_global (Some 0) good_allocs empty_pool) = NV_OK"
    by (simp add: pool_alloc_page_def pool_page_alloc_buffers_def good_allocs_def Let_def
        gpu_semaphore_pool_is_secure_def debug_global_def)
  with uvm_gpu_semaphore_alloc_correct[OF ok(1) side(1) ok(2) side(2) run] run side(3)
  show ?thesis by (cases "status = NV_OK") auto
qed

theorem uvm_gpu_semaphore_free_correct_witness:
  "\<exists>pool' sem'. uvm_gpu_semaphore_free debug_global used_pool sem5 = (pool', sem') \<and>
     pool_ok debug_global pool' \<and> allocated pool' = {} \<and> is_canary (payload_at pool' (0, 5))"
proof -
  obtain pool' sem' where run: "uvm_gpu_semaphore_free debug_global used_pool sem5 = (pool', sem')" by fastforce
  have "(0, 5) \<in> allocated used_pool" by (simp add: used_pool_allocated)
  moreover have "sem_page sem5 = Some 0" "sem_index sem5 = 5" by (simp_all add: sem5_def)
  moreover have "semaphore_uses_canary debug_global used_pool"
    by (simp add: semaphore_uses_canary_def gpu_semaphore_pool_is_secure_def debug_global_def)
  ultimately show ?thesis
    using uvm_gpu_semaphore_free_correct[OF used_pool_ok _ _ _ run, of 0 5] run used_pool_allocated by auto
qed

theorem uvm_gpu_semaphore_pool_destroy_correct_witness:
  "\<exists>pool :: nat semaphore_pool. pages pool = [0] \<and> pool_free_page_asserts debug_global 0 pool \<and>
     pages (uvm_gpu_semaphore_pool_destroy debug_global pool) = []"
proof -
  let ?pool = "\<lparr>pages = [0 :: nat], aperture = UVM_APERTURE_SYS, free_semaphores_count = 1024,
    page_store = (\<lambda>_. canary_page)\<rparr>"
  have "pool_ok debug_global ?pool" "allocated ?pool = {}"
    by (auto simp: pool_ok_def page_ok_def free_total_def canary_page_def zero_page_def allocated_def
      gpu_semaphore_pool_is_secure_def debug_global_def)
  from uvm_gpu_semaphore_pool_destroy_correct[OF this] show ?thesis by (intro exI[of _ ?pool]) auto
qed

theorem make_canary_correct_witness:
  "is_canary (make_canary 7) \<and> unat ((7 + 5) - make_canary 7) < 2 ^ 31"
proof -
  have "unat (5 :: NvU32) \<le> 2 ^ 29" by simp
  from make_canary_correct[OF this, of 7] show ?thesis by blast
qed

theorem uvm_gpu_tracking_semaphore_is_value_completed_correct_witness:
  "fst (uvm_gpu_tracking_semaphore_is_value_completed debug_global used_pool id
     \<lparr>semaphore = sem5, completed_value = 0xFFFFFFFE, queued_value = 0\<rparr> 0x100000002)"
proof -
  let ?ts = "\<lparr>semaphore = sem5, completed_value = 0xFFFFFFFE, queued_value = 0\<rparr>"
  obtain don ts' where
    run: "uvm_gpu_tracking_semaphore_is_value_completed debug_global used_pool id ?ts 0x100000002 = (don, ts')"
    by fastforce
  have "uvm_gpu_semaphore_get_payload debug_global used_pool (refreshed debug_global used_pool id ?ts) =
      ucast (0x100000003 :: NvU64)"
    by (simp add: uvm_gpu_semaphore_get_payload_def refreshed_def gpu_semaphore_pool_is_secure_def
        debug_global_def used_pool_def sem5_def)
  from uvm_gpu_tracking_semaphore_is_value_completed_correct[OF this _ _ run] run show ?thesis by simp
qed

definition quiet_trace :: "nat \<Rightarrow> gpu_mem" where
  "quiet_trace t = \<lparr>w_notifier = 2, w_auth_tag = [7], w_payload = 9\<rparr>"

definition quiet_obs :: "nat \<Rightarrow> observation" where
  "quiet_obs i = \<lparr>obs_notifier = 2, obs_auth_tag = [7], obs_payload = 9, obs_new_notifier = 2\<rparr>"

theorem gpu_semaphore_encrypted_payload_update_consistent_witness:
  "gpu_semaphore_encrypted_payload_update 1 quiet_obs (\<lambda>_ p _. Inr p) 4 sem5 =
     Some (sem5\<lparr>cached_payload := 9, last_observed_notifier := 2\<rparr>, NV_OK) \<and>
   (\<exists>t. even (w_notifier (quiet_trace t)) \<and> w_payload (quiet_trace t) = 9)"
proof -
  have run: "gpu_semaphore_encrypted_payload_update 1 quiet_obs (\<lambda>_ p _. Inr p) 4 sem5 =
      Some (sem5\<lparr>cached_payload := 9, last_observed_notifier := 2\<rparr>, NV_OK)"
    by (simp add: gpu_semaphore_encrypted_payload_update_def quiet_obs_def sem5_def)
  have "gpu_trace quiet_trace" "\<forall>i. observed_in quiet_trace (quiet_obs i)"
    by (auto simp: gpu_trace_def quiet_trace_def observed_in_def quiet_obs_def intro: writer_step.idle)
  from gpu_semaphore_encrypted_payload_update_consistent[OF this run] run show ?thesis
    by (auto simp: sem5_def quiet_trace_def)
qed

theorem gpu_semaphore_encrypted_payload_update_returns_witness:
  "gpu_semaphore_encrypted_payload_update 1 quiet_obs (\<lambda>_ p _. Inr p) 1 sem5 \<noteq> None"
  using gpu_semaphore_encrypted_payload_update_returns[of 1 quiet_obs 1 "\<lambda>_ p _. Inr p" sem5]
  by (simp add: quiet_obs_def)

theorem gpu_semaphore_encrypted_payload_update_last_try_witness:
  "gpu_semaphore_encrypted_payload_update 1 quiet_obs (\<lambda>_ p _. Inr p) 1 sem5 = Some (sem5, NV_ERR_INVALID_STATE)"
  using gpu_semaphore_encrypted_payload_update_last_try[of quiet_obs sem5 "\<lambda>_ p _. Inr p" 9 0]
  by (simp add: quiet_obs_def sem5_def)

end
