(* ===== verification/Tracker.thy ===== *)
theory Tracker
  imports Gpu_Semaphore "HOL-Library.Multiset"
begin

text \<open>
  Trackers of \<^verbatim>\<open>uvm_tracker.c\<close> and \<^verbatim>\<open>uvm_tracker.h\<close>: sets of (channel, value) pairs, at most
  one per channel, that have to complete before an operation may proceed. The entries are an array
  of which the first \<^verbatim>\<open>size\<close> are in use; a request for memory is an argument, \<open>None\<close> when it
  fails and otherwise the initial contents of the new array. What a tracker asks of a channel is the
  record \<open>channel_ops\<close>, on a state \<open>'s\<close> of the channels that changes while the tracker waits;
  the interface is a locale, interpreted at the end on the channels' tracking semaphores.
\<close>

section \<open>Data\<close>

record 'c tracker_entry =
  channel :: "'c option"
  tvalue :: NvU64

record 'c tracker =
  entries :: "nat \<Rightarrow> 'c tracker_entry"
  tsize :: NvU32
  max_size :: NvU32

type_synonym 'c alloc = "(nat \<Rightarrow> 'c tracker_entry) option"

record ('c, 's, 'g) channel_ops =
  is_value_completed :: "'c \<Rightarrow> NvU64 \<Rightarrow> 's \<Rightarrow> bool \<times> 's"
  check_errors :: "'c \<Rightarrow> 's \<Rightarrow> NV_STATUS \<times> 's"
  global_status :: "'s \<Rightarrow> NV_STATUS"
  spin_loop :: "'s \<Rightarrow> 's"
  get_gpu :: "'c \<Rightarrow> 'g"

definition null_entry :: "'c tracker_entry" where
  "null_entry = \<lparr>channel = None, tvalue = 0\<rparr>"

text \<open>The entries in use, as \<^verbatim>\<open>for_each_tracker_entry\<close> visits them.\<close>

definition used :: "'c tracker \<Rightarrow> 'c tracker_entry list" where
  "used tracker = map (entries tracker) [0..<unat (tsize tracker)]"

section \<open>Space\<close>

definition uvm_tracker_init :: "'c tracker" where
  "uvm_tracker_init = \<lparr>entries = (\<lambda>_. null_entry), tsize = 0, max_size = 1\<rparr>"

definition uvm_tracker_deinit :: "'c tracker \<Rightarrow> 'c tracker" where
  "uvm_tracker_deinit tracker = \<lparr>entries = (\<lambda>_. null_entry), tsize = 0, max_size = 0\<rparr>"

definition uvm_tracker_clear :: "'c tracker \<Rightarrow> 'c tracker" where
  "uvm_tracker_clear tracker = tracker\<lparr>tsize := 0\<rparr>"

definition uvm_tracker_is_empty :: "'c tracker \<Rightarrow> bool" where
  "uvm_tracker_is_empty tracker \<longleftrightarrow> tsize tracker = 0"

definition tracker_is_using_static_entries :: "'c tracker \<Rightarrow> bool" where
  "tracker_is_using_static_entries tracker \<longleftrightarrow> max_size tracker = 1"

fun fls :: "nat \<Rightarrow> nat" where
  "fls n = (if n = 0 then 0 else Suc (fls (n div 2)))"

declare fls.simps [simp del]

definition roundup_pow_of_two :: "nat \<Rightarrow> nat" where
  "roundup_pow_of_two n = (if n = 1 then 1 else 2 ^ fls (n - 1))"

definition uvm_tracker_reserve :: "'c alloc \<Rightarrow> 'c tracker \<Rightarrow> NvU32 \<Rightarrow> NV_STATUS \<times> 'c tracker" where
  "uvm_tracker_reserve al tracker min_free_entries =
     (if tsize tracker + min_free_entries > max_size tracker then
        (let new_max_size = max 8 (of_nat (roundup_pow_of_two (unat (tsize tracker + min_free_entries)))) in
         case al of
           None \<Rightarrow> (NV_ERR_NO_MEMORY, tracker)
         | Some fresh \<Rightarrow>
             (let kept = (if tracker_is_using_static_entries tracker then unat (tsize tracker)
                          else unat (max_size tracker))
              in (NV_OK, tracker\<lparr>entries := (\<lambda>i. if i < kept then entries tracker i else fresh i),
                                  max_size := new_max_size\<rparr>)))
      else (NV_OK, tracker))"

definition get_new_entry :: "'c alloc \<Rightarrow> 'c tracker \<Rightarrow> (nat \<times> 'c tracker) option" where
  "get_new_entry al tracker =
     (case uvm_tracker_reserve al tracker 1 of
        (status, tracker1) \<Rightarrow>
          if status \<noteq> NV_OK then None
          else Some (unat (tsize tracker1), tracker1\<lparr>tsize := tsize tracker1 + 1\<rparr>))"

section \<open>Adding entries\<close>

definition uvm_tracker_overwrite :: "'c alloc \<Rightarrow> 'c tracker \<Rightarrow> 'c tracker \<Rightarrow> NV_STATUS \<times> 'c tracker" where
  "uvm_tracker_overwrite al dst src =
     (let (status, dst1) = uvm_tracker_reserve al (uvm_tracker_clear dst) (tsize src) in
      if status \<noteq> NV_OK then (status, dst1)
      else (NV_OK, dst1\<lparr>tsize := tsize src,
                        entries := (\<lambda>i. if i < unat (tsize src) then entries src i else entries dst1 i)\<rparr>))"

definition uvm_tracker_init_from :: "'c alloc \<Rightarrow> 'c tracker \<Rightarrow> NV_STATUS \<times> 'c tracker" where
  "uvm_tracker_init_from al src =
     (let (status, dst) = uvm_tracker_overwrite al uvm_tracker_init src in
      if status \<noteq> NV_OK then (status, uvm_tracker_init) else (status, dst))"

text \<open>The index of the entry of a channel, if there is one.\<close>

definition find_entry :: "'c tracker \<Rightarrow> 'c option \<Rightarrow> nat option" where
  "find_entry tracker ch = find (\<lambda>i. channel (entries tracker i) = ch) [0..<unat (tsize tracker)]"

definition uvm_tracker_add_entry :: "'c alloc \<Rightarrow> 'c tracker \<Rightarrow> 'c tracker_entry \<Rightarrow> NV_STATUS \<times> 'c tracker" where
  "uvm_tracker_add_entry al tracker new_entry =
     (case find_entry tracker (channel new_entry) of
        Some i \<Rightarrow>
          (NV_OK, tracker\<lparr>entries := (entries tracker)(i := (entries tracker i)
             \<lparr>tvalue := max (tvalue (entries tracker i)) (tvalue new_entry)\<rparr>)\<rparr>)
      | None \<Rightarrow>
          (case get_new_entry al tracker of
             None \<Rightarrow> (NV_ERR_NO_MEMORY, tracker)
           | Some (i, tracker1) \<Rightarrow> (NV_OK, tracker1\<lparr>entries := (entries tracker1)(i := new_entry)\<rparr>)))"

definition uvm_tracker_overwrite_with_entry :: "'c tracker \<Rightarrow> 'c tracker_entry \<Rightarrow> NV_STATUS \<times> 'c tracker" where
  "uvm_tracker_overwrite_with_entry tracker entry =
     uvm_tracker_add_entry None (uvm_tracker_clear tracker) entry"

definition needed_free_entries :: "'c tracker \<Rightarrow> 'c tracker \<Rightarrow> NvU32" where
  "needed_free_entries dst src =
     of_nat (length (filter (\<lambda>e. find_entry dst (channel e) = None) (used src)))"

definition reserve_for_entries_from_tracker ::
    "'c alloc \<Rightarrow> 'c tracker \<Rightarrow> 'c tracker \<Rightarrow> NV_STATUS \<times> 'c tracker" where
  "reserve_for_entries_from_tracker al dst src = uvm_tracker_reserve al dst (needed_free_entries dst src)"

section \<open>Completion\<close>

definition uvm_tracker_is_entry_completed ::
    "('c, 's, 'g) channel_ops \<Rightarrow> 'c tracker_entry \<Rightarrow> 's \<Rightarrow> bool \<times> 's" where
  "uvm_tracker_is_entry_completed ops entry s =
     (case channel entry of None \<Rightarrow> (True, s) | Some c \<Rightarrow> is_value_completed ops c (tvalue entry) s)"

text \<open>The loop of \<^verbatim>\<open>uvm_tracker_remove_completed\<close> at index \<open>i\<close>, on the current size.\<close>

function remove_completed_from ::
    "('c, 's, 'g) channel_ops \<Rightarrow> nat \<Rightarrow> nat \<Rightarrow> (nat \<Rightarrow> 'c tracker_entry) \<Rightarrow> 's \<Rightarrow>
     nat \<times> (nat \<Rightarrow> 'c tracker_entry) \<times> 's" where
  "remove_completed_from ops i n es s =
     (if i < n then
        (case uvm_tracker_is_entry_completed ops (es i) s of
           (True, s1) \<Rightarrow> remove_completed_from ops i (n - 1) (if i \<noteq> n - 1 then es(i := es (n - 1)) else es) s1
         | (False, s1) \<Rightarrow> remove_completed_from ops (Suc i) n es s1)
      else (n, es, s))"
  by pat_completeness auto
termination by (relation "measure (\<lambda>(ops, i, n, es, s). n - i)") auto

declare remove_completed_from.simps [simp del]

definition uvm_tracker_remove_completed ::
    "('c, 's, 'g) channel_ops \<Rightarrow> 'c tracker \<Rightarrow> 's \<Rightarrow> 'c tracker \<times> 's" where
  "uvm_tracker_remove_completed ops tracker s =
     (let (n, es, s') = remove_completed_from ops 0 (unat (tsize tracker)) (entries tracker) s
      in (tracker\<lparr>tsize := of_nat n, entries := es\<rparr>, s'))"

definition uvm_tracker_is_completed ::
    "('c, 's, 'g) channel_ops \<Rightarrow> 'c tracker \<Rightarrow> 's \<Rightarrow> bool \<times> 'c tracker \<times> 's" where
  "uvm_tracker_is_completed ops tracker s =
     (let (tracker', s') = uvm_tracker_remove_completed ops tracker s in (tsize tracker' = 0, tracker', s'))"

text \<open>Adding a tracker; \<open>src = None\<close> is NULL and \<open>same\<close> tells that both pointers are equal.\<close>

fun add_entries :: "'c alloc \<Rightarrow> 'c tracker \<Rightarrow> 'c tracker_entry list \<Rightarrow> 'c tracker" where
  "add_entries al dst [] = dst"
| "add_entries al dst (e # es) = add_entries al (snd (uvm_tracker_add_entry al dst e)) es"

definition uvm_tracker_add_tracker ::
    "('c, 's, 'g) channel_ops \<Rightarrow> 'c alloc \<Rightarrow> 'c alloc \<Rightarrow> 'c alloc \<Rightarrow> bool \<Rightarrow> 'c tracker \<Rightarrow> 'c tracker option \<Rightarrow> 's \<Rightarrow>
     NV_STATUS \<times> 'c tracker \<times> 'c tracker option \<times> 's" where
  "uvm_tracker_add_tracker ops al1 al2 al3 same dst src s =
     (case src of
        None \<Rightarrow> (NV_OK, dst, src, s)
      | Some src0 \<Rightarrow>
          if same then (NV_OK, dst, src, s)
          else if uvm_tracker_is_empty src0 then (NV_OK, dst, src, s)
          else
            (let (status, dst1) = uvm_tracker_reserve al1 dst (tsize src0);
                 (status, dst2, src2, s2) =
                   (if status = NV_ERR_NO_MEMORY then
                      (let (dst', s') = uvm_tracker_remove_completed ops dst1 s;
                           (src', s'') = uvm_tracker_remove_completed ops src0 s';
                           (status', dst'') = reserve_for_entries_from_tracker al2 dst' src'
                       in (status', dst'', src', s''))
                    else (status, dst1, src0, s))
             in if status \<noteq> NV_OK then (status, dst2, Some src2, s2)
                else (NV_OK, add_entries al3 dst2 (used src2), Some src2, s2)))"

section \<open>Errors and waiting\<close>

fun check_entries :: "('c, 's, 'g) channel_ops \<Rightarrow> 'c tracker_entry list \<Rightarrow> 's \<Rightarrow> NV_STATUS \<times> 's" where
  "check_entries ops [] s = (NV_OK, s)"
| "check_entries ops (e # es) s =
     (let (status, s1) = check_errors ops (the (channel e)) s in
      if status \<noteq> NV_OK then (status, s1) else check_entries ops es s1)"

definition uvm_tracker_check_errors :: "('c, 's, 'g) channel_ops \<Rightarrow> 'c tracker \<Rightarrow> 's \<Rightarrow> NV_STATUS \<times> 's" where
  "uvm_tracker_check_errors ops tracker s =
     (if global_status ops s \<noteq> NV_OK then (global_status ops s, s) else check_entries ops (used tracker) s)"

definition uvm_tracker_query ::
    "('c, 's, 'g) channel_ops \<Rightarrow> 'c tracker \<Rightarrow> 's \<Rightarrow> NV_STATUS \<times> 'c tracker \<times> 's" where
  "uvm_tracker_query ops tracker s =
     (let (completed, tracker1, s1) = uvm_tracker_is_completed ops tracker s;
          (status, s2) = uvm_tracker_check_errors ops tracker1 s1
      in if status \<noteq> NV_OK then (status, tracker1, s2)
         else ((if completed then NV_OK else NV_WARN_MORE_PROCESSING_REQUIRED), tracker1, s2))"

fun wait_loop ::
    "('c, 's, 'g) channel_ops \<Rightarrow> nat \<Rightarrow> NV_STATUS \<Rightarrow> 'c tracker \<Rightarrow> 's \<Rightarrow> (NV_STATUS \<times> 'c tracker \<times> 's) option" where
  "wait_loop ops 0 status tracker s = None"
| "wait_loop ops (Suc fuel) status tracker s =
     (let (completed, tracker1, s1) = uvm_tracker_is_completed ops tracker s in
      if \<not> completed \<and> status = NV_OK then
        (let (status', s2) = uvm_tracker_check_errors ops tracker1 (spin_loop ops s1)
         in wait_loop ops fuel status' tracker1 s2)
      else Some (status, tracker1, s1))"

definition uvm_tracker_wait ::
    "('c, 's, 'g) channel_ops \<Rightarrow> nat \<Rightarrow> 'c tracker \<Rightarrow> 's \<Rightarrow> (NV_STATUS \<times> 'c tracker \<times> 's) option" where
  "uvm_tracker_wait ops fuel tracker s =
     (case wait_loop ops fuel NV_OK tracker s of
        None \<Rightarrow> None
      | Some (status, tracker1, s1) \<Rightarrow>
          Some (status, (if status \<noteq> NV_OK then uvm_tracker_clear tracker1 else tracker1), s1))"

definition uvm_tracker_wait_deinit ::
    "('c, 's, 'g) channel_ops \<Rightarrow> nat \<Rightarrow> 'c tracker \<Rightarrow> 's \<Rightarrow> (NV_STATUS \<times> 'c tracker \<times> 's) option" where
  "uvm_tracker_wait_deinit ops fuel tracker s =
     map_option (\<lambda>(status, tracker1, s1). (status, uvm_tracker_deinit tracker1, s1))
       (uvm_tracker_wait ops fuel tracker s)"

fun entry_wait_loop ::
    "('c, 's, 'g) channel_ops \<Rightarrow> nat \<Rightarrow> NV_STATUS \<Rightarrow> 'c tracker_entry \<Rightarrow> 's \<Rightarrow> (NV_STATUS \<times> 's) option" where
  "entry_wait_loop ops 0 status entry s = None"
| "entry_wait_loop ops (Suc fuel) status entry s =
     (let (completed, s1) = uvm_tracker_is_entry_completed ops entry s in
      if \<not> completed \<and> status = NV_OK then
        (let (status1, s2) = check_errors ops (the (channel entry)) (spin_loop ops s1)
         in entry_wait_loop ops fuel (if status1 = NV_OK then global_status ops s2 else status1) entry s2)
      else Some (status, s1))"

definition wait_for_entry_with_spin ::
    "('c, 's, 'g) channel_ops \<Rightarrow> nat \<Rightarrow> 'c tracker_entry \<Rightarrow> 's \<Rightarrow> (NV_STATUS \<times> 'c tracker_entry \<times> 's) option" where
  "wait_for_entry_with_spin ops fuel entry s =
     (case entry_wait_loop ops fuel NV_OK entry s of
        None \<Rightarrow> None
      | Some (status, s1) \<Rightarrow> Some (status, (if status \<noteq> NV_OK then null_entry else entry), s1))"

definition uvm_tracker_wait_for_entry ::
    "('c, 's, 'g) channel_ops \<Rightarrow> nat \<Rightarrow> 'c tracker_entry \<Rightarrow> 's \<Rightarrow> (NV_STATUS \<times> 'c tracker_entry \<times> 's) option" where
  "uvm_tracker_wait_for_entry ops fuel entry s = wait_for_entry_with_spin ops fuel entry s"

definition uvm_tracker_entry_gpu :: "('c, 's, 'g) channel_ops \<Rightarrow> 'c tracker_entry \<Rightarrow> 'g" where
  "uvm_tracker_entry_gpu ops entry = get_gpu ops (the (channel entry))"

fun wait_others ::
    "('c, 's, 'g) channel_ops \<Rightarrow> nat \<Rightarrow> 'g \<Rightarrow> nat list \<Rightarrow> 'c tracker \<Rightarrow> 's \<Rightarrow> (NV_STATUS \<times> 'c tracker \<times> 's) option" where
  "wait_others ops fuel gpu [] tracker s = Some (NV_OK, tracker, s)"
| "wait_others ops fuel gpu (i # is) tracker s =
     (if uvm_tracker_entry_gpu ops (entries tracker i) = gpu then wait_others ops fuel gpu is tracker s
      else case wait_for_entry_with_spin ops fuel (entries tracker i) s of
        None \<Rightarrow> None
      | Some (status, entry, s1) \<Rightarrow>
          (let tracker1 = tracker\<lparr>entries := (entries tracker)(i := entry)\<rparr> in
           if status \<noteq> NV_OK then Some (status, tracker1, s1)
           else wait_others ops fuel gpu is tracker1 s1))"

definition uvm_tracker_wait_for_other_gpus ::
    "('c, 's, 'g) channel_ops \<Rightarrow> nat \<Rightarrow> 'c tracker \<Rightarrow> 'g \<Rightarrow> 's \<Rightarrow> (NV_STATUS \<times> 'c tracker \<times> 's) option" where
  "uvm_tracker_wait_for_other_gpus ops fuel tracker gpu s =
     (case wait_others ops fuel gpu [0..<unat (tsize tracker)] tracker s of
        None \<Rightarrow> None
      | Some (status, tracker1, s1) \<Rightarrow>
          if status = NV_OK then (let (tracker2, s2) = uvm_tracker_remove_completed ops tracker1 s1 in Some (NV_OK, tracker2, s2))
          else Some (status, uvm_tracker_clear tracker1, s1))"

text \<open>The versions that wait when memory runs out.\<close>

definition uvm_tracker_overwrite_safe ::
    "('c, 's, 'g) channel_ops \<Rightarrow> nat \<Rightarrow> 'c alloc \<Rightarrow> 'c tracker \<Rightarrow> 'c tracker \<Rightarrow> 's \<Rightarrow>
     (NV_STATUS \<times> 'c tracker \<times> 'c tracker \<times> 's) option" where
  "uvm_tracker_overwrite_safe ops fuel al dst src s =
     (case uvm_tracker_overwrite al dst src of
        (status, dst1) \<Rightarrow>
          if status = NV_ERR_NO_MEMORY
          then map_option (\<lambda>(st, src1, s1). (st, dst1, src1, s1)) (uvm_tracker_wait ops fuel src s)
          else Some (status, dst1, src, s))"

definition uvm_tracker_add_entry_safe ::
    "('c, 's, 'g) channel_ops \<Rightarrow> nat \<Rightarrow> 'c alloc \<Rightarrow> 'c tracker \<Rightarrow> 'c tracker_entry \<Rightarrow> 's \<Rightarrow>
     (NV_STATUS \<times> 'c tracker \<times> 'c tracker_entry \<times> 's) option" where
  "uvm_tracker_add_entry_safe ops fuel al tracker new_entry s =
     (case uvm_tracker_add_entry al tracker new_entry of
        (status, tracker1) \<Rightarrow>
          if status = NV_ERR_NO_MEMORY
          then map_option (\<lambda>(st, e1, s1). (st, tracker1, e1, s1)) (uvm_tracker_wait_for_entry ops fuel new_entry s)
          else Some (status, tracker1, new_entry, s))"

definition uvm_tracker_add_tracker_safe ::
    "('c, 's, 'g) channel_ops \<Rightarrow> nat \<Rightarrow> 'c alloc \<Rightarrow> 'c alloc \<Rightarrow> 'c alloc \<Rightarrow> bool \<Rightarrow> 'c tracker \<Rightarrow> 'c tracker option \<Rightarrow> 's \<Rightarrow>
     (NV_STATUS \<times> 'c tracker \<times> 'c tracker option \<times> 's) option" where
  "uvm_tracker_add_tracker_safe ops fuel al1 al2 al3 same dst src s =
     (case uvm_tracker_add_tracker ops al1 al2 al3 same dst src s of
        (status, dst1, src1, s1) \<Rightarrow>
          if status = NV_ERR_NO_MEMORY
          then map_option (\<lambda>(st, src2, s2). (st, dst1, Some src2, s2)) (uvm_tracker_wait ops fuel (the src1) s1)
          else Some (status, dst1, src1, s1))"

section \<open>Invariant\<close>

definition tracker_ok :: "'c tracker \<Rightarrow> bool" where
  "tracker_ok tracker \<longleftrightarrow> 1 \<le> max_size tracker \<and> tsize tracker \<le> max_size tracker \<and>
     distinct (map channel (used tracker)) \<and> None \<notin> channel ` set (used tracker)"

text \<open>What has to complete before the tracker is completed: every value up to the tracked one.\<close>

definition demands :: "'c tracker \<Rightarrow> ('c \<times> NvU64) set" where
  "demands tracker = {(c, v). \<exists>e\<in>set (used tracker). channel e = Some c \<and> v \<le> tvalue e}"

lemma used_length [simp]: "length (used tracker) = unat (tsize tracker)"
  by (simp add: used_def)

lemma used_nth [simp]: "i < unat (tsize tracker) \<Longrightarrow> used tracker ! i = entries tracker i"
  by (simp add: used_def)

lemma used_clear [simp]: "used (uvm_tracker_clear tracker) = []"
  by (simp add: used_def uvm_tracker_clear_def)

lemma set_used: "set (used tracker) = entries tracker ` {..<unat (tsize tracker)}"
  by (auto simp: used_def)

lemma fls_bounds: "n < 2 ^ fls n" "0 < n \<Longrightarrow> 2 ^ fls n \<le> 2 * n"
proof (induction n rule: less_induct)
  case (less n)
  { case 1 then show ?case
    proof (cases "n = 0")
      case False
      then have "n div 2 < 2 ^ fls (n div 2)" using less(1) by simp
      with False show ?thesis by (subst fls.simps) simp
    qed simp
  next
    case 2
    show ?case
    proof (cases "n div 2 = 0")
      case True
      with 2 have "n = 1" by simp
      then show ?thesis by (simp add: fls.simps)
    next
      case False
      then have "2 ^ fls (n div 2) \<le> 2 * (n div 2)" using less(2)[of "n div 2"] 2 by simp
      with 2 show ?thesis by (subst fls.simps) simp
    qed }
qed

lemma roundup_bounds:
  assumes "0 < n"
  shows "n \<le> roundup_pow_of_two n" and "n \<le> 2 ^ 31 \<Longrightarrow> roundup_pow_of_two n < 2 ^ 32"
proof -
  show "n \<le> roundup_pow_of_two n"
    using fls_bounds(1)[of "n - 1"] by (auto simp: roundup_pow_of_two_def)
  show "roundup_pow_of_two n < 2 ^ 32" if "n \<le> 2 ^ 31"
  proof (cases "n = 1")
    case False
    then have "2 ^ fls (n - 1) \<le> 2 * (n - 1)" using fls_bounds(2)[of "n - 1"] assms by simp
    also have "\<dots> < 2 ^ 32" using that assms by simp
    finally show ?thesis using False by (simp add: roundup_pow_of_two_def)
  qed (simp add: roundup_pow_of_two_def)
qed

lemma uvm_tracker_reserve_cases:
  assumes ok: "tsize tracker \<le> max_size tracker" and pos: "1 \<le> max_size tracker"
    and small: "unat (tsize tracker) + unat n \<le> 2 ^ 31"
    and run: "uvm_tracker_reserve al tracker n = (status, tracker')"
  shows "if max_size tracker < tsize tracker + n \<and> al = None
    then status = NV_ERR_NO_MEMORY \<and> tracker' = tracker
    else status = NV_OK \<and> used tracker' = used tracker \<and> tsize tracker' = tsize tracker \<and>
      1 \<le> max_size tracker' \<and> unat (tsize tracker) + unat n \<le> unat (max_size tracker')"
proof -
  have sum: "unat (tsize tracker + n) = unat (tsize tracker) + unat n"
    using small by (simp add: unat_plus_if')
  show ?thesis
  proof (cases "max_size tracker < tsize tracker + n")
    case False
    with run ok pos sum show ?thesis by (simp add: uvm_tracker_reserve_def word_le_nat_alt not_less)
  next
    case True
    show ?thesis
    proof (cases al)
      case None
      with True run show ?thesis by (simp add: uvm_tracker_reserve_def Let_def)
    next
      case (Some fresh)
      define r where "r = roundup_pow_of_two (unat (tsize tracker + n))"
      have "0 < unat (tsize tracker + n)" using True by (metis unat_0 gr_zeroI less_nat_zero_code word_less_nat_alt)
      then have r: "unat (tsize tracker + n) \<le> r" "r < 2 ^ 32"
        using roundup_bounds small sum by (simp_all add: r_def)
      then have "unat (of_nat r :: NvU32) = r" by (simp add: unat_of_nat)
      then have m: "unat (tsize tracker + n) \<le> unat (max 8 (of_nat r :: NvU32))"
        using r by (auto simp: max_def word_le_nat_alt)
      have t': "status = NV_OK" "tracker' = tracker\<lparr>entries := (\<lambda>i. if i < (if tracker_is_using_static_entries tracker
          then unat (tsize tracker) else unat (max_size tracker)) then entries tracker i else fresh i),
          max_size := max 8 (of_nat r)\<rparr>"
        using True Some run by (simp_all add: uvm_tracker_reserve_def Let_def r_def)
      have "(1 :: NvU32) \<le> 8" by simp
      then have "(1 :: NvU32) \<le> max 8 (of_nat r)" by (metis max.coboundedI1)
      moreover have "used tracker' = used tracker"
        using ok by (auto simp: t' used_def word_le_nat_alt)
      ultimately show ?thesis using m sum t' Some by simp
    qed
  qed
qed

lemma find_entry_Some:
  assumes "find_entry tracker ch = Some i"
  shows "i < unat (tsize tracker)" and "channel (entries tracker i) = ch"
  using assms by (auto simp: find_entry_def find_Some_iff)

lemma find_entry_None: "find_entry tracker ch = None \<longleftrightarrow> ch \<notin> channel ` set (used tracker)"
  by (auto simp: find_entry_def find_None_iff set_used)

lemma used_update:
  "i < unat (tsize tracker) \<Longrightarrow>
   used (tracker\<lparr>entries := (entries tracker)(i := e)\<rparr>) = (used tracker)[i := e]"
  by (auto simp: used_def list_eq_iff_nth_eq nth_list_update)

lemma tracker_ok_intro:
  assumes "1 \<le> max_size tracker" and "tsize tracker \<le> max_size tracker" and "used tracker = es"
    and "distinct (map channel es)" and "None \<notin> channel ` set es"
  shows "tracker_ok tracker"
  using assms by (simp add: tracker_ok_def)

text \<open>Adding an entry: the tracker asks for what it asked before and for the new entry.\<close>

lemma uvm_tracker_add_entry_cases:
  assumes ok: "tracker_ok tracker" and small: "unat (tsize tracker) < 2 ^ 31"
    and ch: "channel new = Some c"
    and run: "uvm_tracker_add_entry al tracker new = (status, tracker')"
  shows "if find_entry tracker (Some c) = None \<and> tsize tracker = max_size tracker \<and> al = None
    then status = NV_ERR_NO_MEMORY \<and> tracker' = tracker
    else status = NV_OK \<and> tracker_ok tracker' \<and>
      demands tracker' = demands tracker \<union> {(c, v) |v. v \<le> tvalue new} \<and>
      unat (tsize tracker') = unat (tsize tracker) + (if find_entry tracker (Some c) = None then 1 else 0) \<and>
      channel ` set (used tracker') = insert (Some c) (channel ` set (used tracker)) \<and>
      max_size tracker \<le> max_size tracker'"
proof (cases "find_entry tracker (Some c)")
  case (Some i)
  note F = find_entry_Some[OF Some]
  let ?e = "(entries tracker i)\<lparr>tvalue := max (tvalue (entries tracker i)) (tvalue new)\<rparr>"
  have t': "status = NV_OK" "tracker' = tracker\<lparr>entries := (entries tracker)(i := ?e)\<rparr>"
    using run Some ch by (simp_all add: uvm_tracker_add_entry_def)
  have u: "used tracker' = (used tracker)[i := ?e]" using F(1) by (simp add: t' used_update)
  have ch': "map channel (used tracker') = map channel (used tracker)"
    using F unfolding u by (simp add: map_update list_update_id list_eq_iff_nth_eq nth_list_update)
  then have chs: "channel ` set (used tracker') = channel ` set (used tracker)" by (metis set_map)
  have "demands tracker' = demands tracker \<union> {(c, v) |v. v \<le> tvalue new}"
  proof -
    have uniq: "e = entries tracker i" if "e \<in> set (used tracker)" "channel e = Some c" for e
    proof -
      from that(1) obtain j where j: "j < unat (tsize tracker)" "e = entries tracker j" by (auto simp: set_used)
      with that F ok have "j = i"
        by (auto simp: tracker_ok_def distinct_conv_nth) (metis length_map nth_map used_length used_nth)
      with j show ?thesis by simp
    qed
    have mem: "entries tracker i \<in> set (used tracker)" using F(1) by (auto simp: set_used)
    have s': "set (used tracker') = insert ?e (set (used tracker) - {entries tracker i})"
    proof -
      have "distinct (used tracker)" using ok by (simp add: tracker_ok_def distinct_map)
      then show ?thesis unfolding u using F(1) by (simp add: set_update_distinct)
    qed
    show ?thesis
      unfolding demands_def s' using F(2) mem by (auto simp: le_max_iff_disj dest: uniq)
  qed
  moreover have "Some c \<in> channel ` set (used tracker)" using F by (force simp: set_used)
  ultimately show ?thesis using ok Some chs ch' by (auto simp: t' tracker_ok_def)
next
  case None
  obtain st t1 where res: "uvm_tracker_reserve al tracker 1 = (st, t1)" by fastforce
  have R: "if max_size tracker < tsize tracker + 1 \<and> al = None
    then st = NV_ERR_NO_MEMORY \<and> t1 = tracker
    else st = NV_OK \<and> used t1 = used tracker \<and> tsize t1 = tsize tracker \<and>
      1 \<le> max_size t1 \<and> unat (tsize tracker) + unat (1 :: NvU32) \<le> unat (max_size t1)"
    using uvm_tracker_reserve_cases[OF _ _ _ res] ok small by (simp add: tracker_ok_def)
  have s1: "unat (tsize tracker + 1) = unat (tsize tracker) + 1" using small by (simp add: unat_plus_if')
  have full: "max_size tracker < tsize tracker + 1 \<longleftrightarrow> tsize tracker = max_size tracker"
    using ok s1 by (auto simp: tracker_ok_def word_less_nat_alt word_le_nat_alt word_unat_eq_iff)
  show ?thesis
  proof (cases "tsize tracker = max_size tracker \<and> al = None")
    case True
    with R full res run None ch show ?thesis by (simp add: uvm_tracker_add_entry_def get_new_entry_def)
  next
    case False
    with R full have R': "st = NV_OK" "used t1 = used tracker" "tsize t1 = tsize tracker"
      "1 \<le> max_size t1" "unat (tsize tracker) + 1 \<le> unat (max_size t1)" by (auto split: if_splits)
    have t': "status = NV_OK" "tracker' = t1\<lparr>tsize := tsize t1 + 1, entries := (entries t1)(unat (tsize t1) := new)\<rparr>"
      using run None ch res R'(1) by (simp_all add: uvm_tracker_add_entry_def get_new_entry_def)
    have u: "used tracker' = used tracker @ [new]"
      using s1 R' by (auto simp: t' used_def)
    have mx: "max_size tracker \<le> max_size t1"
      using res R'(1,5) ok small False full
      by (auto simp: uvm_tracker_reserve_def tracker_ok_def word_le_nat_alt Let_def split: if_splits option.splits)
    have "tracker_ok tracker'"
      using ok R' ch s1 None u
      by (intro tracker_ok_intro[OF _ _ u]) (auto simp: t' tracker_ok_def find_entry_None word_le_nat_alt)
    moreover have "demands tracker' = demands tracker \<union> {(c, v) |v. v \<le> tvalue new}"
      using ch by (auto simp: demands_def u)
    ultimately show ?thesis
      using False None t' s1 R' u ch mx by auto
  qed
qed

lemma add_entries_ok:
  assumes "tracker_ok dst" and "None \<notin> channel ` set es" and "distinct (map channel es)"
    and "unat (tsize dst) + length (filter (\<lambda>e. find_entry dst (channel e) = None) es) \<le> unat (max_size dst)"
    and "unat (tsize dst) + length es \<le> 2 ^ 31"
  shows "tracker_ok (add_entries al dst es) \<and>
    demands (add_entries al dst es) = demands dst \<union> {(c, v). \<exists>e\<in>set es. channel e = Some c \<and> v \<le> tvalue e}"
  using assms
proof (induction es arbitrary: dst)
  case (Cons e es)
  from Cons.prems(2) obtain c where c: "channel e = Some c" by (cases "channel e") auto
  obtain st dst' where run: "uvm_tracker_add_entry al dst e = (st, dst')" by fastforce
  let ?new = "\<lambda>d es. length (filter (\<lambda>e. find_entry d (channel e) = None) es)"
  have room: "\<not> (find_entry dst (Some c) = None \<and> tsize dst = max_size dst)"
    using Cons.prems(4) c by auto
  have small: "unat (tsize dst) < 2 ^ 31" using Cons.prems(5) by simp
  from uvm_tracker_add_entry_cases[OF Cons.prems(1) small c run] room
  have A: "tracker_ok dst'" "demands dst' = demands dst \<union> {(c, v) |v. v \<le> tvalue e}"
    "unat (tsize dst') = unat (tsize dst) + (if find_entry dst (Some c) = None then 1 else 0)"
    "channel ` set (used dst') = insert (Some c) (channel ` set (used dst))"
    "max_size dst \<le> max_size dst'" by (auto split: if_splits)
  have "filter (\<lambda>x. find_entry dst' (channel x) = None) es = filter (\<lambda>x. find_entry dst (channel x) = None) es"
    using Cons.prems(3) c by (intro filter_cong) (auto simp: find_entry_None A(4) image_iff)
  then have "unat (tsize dst') + ?new dst' es \<le> unat (max_size dst')"
    using Cons.prems(4) A(3,5) c by (auto simp: word_le_nat_alt split: if_splits)
  then have "tracker_ok (add_entries al dst' es) \<and>
      demands (add_entries al dst' es) = demands dst' \<union> {(c, v). \<exists>e\<in>set es. channel e = Some c \<and> v \<le> tvalue e}"
    using Cons.prems A by (intro Cons.IH) auto
  with A(2) c run show ?case by auto
qed (simp add: demands_def)

text \<open>Overwriting an element by the last one and dropping the last one removes it.\<close>

lemma swap_remove_mset:
  assumes "i < n"
  shows "mset (map es [0..<n]) =
    add_mset (es i) (mset (map (if i \<noteq> n - 1 then es(i := es (n - 1)) else es) [0..<n - 1]))"
proof -
  from assms obtain m where n: "n = Suc m" by (cases n) auto
  show ?thesis
  proof (cases "i = m")
    case False
    with assms n have im: "i < m" by simp
    then have "map (es(i := es m)) [0..<m] = (map es [0..<m])[i := es m]"
      by (auto simp: list_eq_iff_nth_eq nth_list_update)
    with False im n show ?thesis by (simp add: mset_update)
  qed (simp add: n)
qed

lemma submset_distinct:
  assumes "mset ys \<subseteq># mset xs" and "distinct xs"
  shows "distinct ys"
proof -
  obtain zs where "mset zs = mset xs - mset ys" using ex_mset by blast
  with assms(1) have "mset xs = mset (ys @ zs)" by simp
  then show ?thesis using assms(2) mset_eq_imp_distinct_iff by fastforce
qed

section \<open>The interface to channels\<close>

text \<open>
  What trackers rely on: a query for completion answers truthfully against the value each channel
  has reached, queries and error checks do not change what is reached, a failed error check leaves
  a global error, and waiting only makes progress.
\<close>

locale completion_source =
  fixes ops :: "('c, 's, 'g) channel_ops"
    and inv :: "'s \<Rightarrow> bool"
    and reached :: "'s \<Rightarrow> 'c \<Rightarrow> NvU64"
  assumes value_completed: "inv s \<Longrightarrow> is_value_completed ops c v s = (b, s') \<Longrightarrow>
      inv s' \<and> reached s' = reached s \<and> (b \<longleftrightarrow> v \<le> reached s c) \<and> global_status ops s' = global_status ops s"
    and errors: "inv s \<Longrightarrow> check_errors ops c s = (st, s') \<Longrightarrow>
      inv s' \<and> reached s' = reached s \<and> (st \<noteq> NV_OK \<longrightarrow> global_status ops s' \<noteq> NV_OK)"
    and spin: "inv s \<Longrightarrow> inv (spin_loop ops s) \<and> reached s c \<le> reached (spin_loop ops s) c"
begin

definition done_entry :: "'s \<Rightarrow> 'c tracker_entry \<Rightarrow> bool" where
  "done_entry s e \<longleftrightarrow> (case channel e of None \<Rightarrow> True | Some c \<Rightarrow> tvalue e \<le> reached s c)"

definition finished :: "'s \<Rightarrow> ('c \<times> NvU64) set" where
  "finished s = {(c, v). v \<le> reached s c}"

lemma finished_cong: "reached s' = reached s \<Longrightarrow> finished s' = finished s"
  by (simp add: finished_def)

lemma done_cong: "reached s' = reached s \<Longrightarrow> done_entry s' e = done_entry s e"
  by (simp add: done_entry_def split: option.splits)

lemma entry_completed:
  assumes "inv s" and "uvm_tracker_is_entry_completed ops e s = (b, s')"
  shows "inv s'" "reached s' = reached s" "b \<longleftrightarrow> done_entry s e" "global_status ops s' = global_status ops s"
  using assms value_completed[of s "the (channel e)" "tvalue e" b s']
  by (auto simp: uvm_tracker_is_entry_completed_def done_entry_def split: option.splits)

lemma remove_completed_from_ok:
  assumes "inv s" and "i \<le> n" and "remove_completed_from ops i n es s = (n', es', s')"
    and "\<forall>j<i. \<not> done_entry s (es j)"
  shows "inv s' \<and> reached s' = reached s \<and> global_status ops s' = global_status ops s \<and> n' \<le> n \<and>
    mset (map es' [0..<n']) = filter_mset (\<lambda>e. \<not> done_entry s e) (mset (map es [0..<n]))"
  using assms
proof (induction "n - i" arbitrary: i n es s rule: less_induct)
  case less
  show ?case
  proof (cases "i < n")
    case False
    with less.prems have "i = n" "n' = n" "es' = es" "s' = s" by (auto simp: remove_completed_from.simps)
    with less.prems have "filter_mset (\<lambda>e. \<not> done_entry s e) (mset (map es [0..<n])) = mset (map es [0..<n])"
      by (intro filter_mset_eq_conv[THEN iffD2]) auto
    with \<open>n' = n\<close> \<open>es' = es\<close> \<open>s' = s\<close> less.prems show ?thesis by simp
  next
    case True
    obtain b s1 where c: "uvm_tracker_is_entry_completed ops (es i) s = (b, s1)" by fastforce
    note E = entry_completed[OF less.prems(1) c]
    show ?thesis
    proof (cases b)
      case b: True
      let ?es = "if i \<noteq> n - 1 then es(i := es (n - 1)) else es"
      have "remove_completed_from ops i (n - 1) ?es s1 = (n', es', s')"
        using less.prems(3) True c b by (simp add: remove_completed_from.simps[of ops i n])
      moreover have "\<forall>j<i. \<not> done_entry s1 (?es j)" using less.prems(4) done_cong[OF E(2)] by simp
      ultimately have IH: "inv s' \<and> reached s' = reached s1 \<and> global_status ops s' = global_status ops s1 \<and>
          n' \<le> n - 1 \<and> mset (map es' [0..<n']) = filter_mset (\<lambda>e. \<not> done_entry s1 e) (mset (map ?es [0..<n - 1]))"
        using True E(1) by (intro less.hyps) auto
      have "mset (map es [0..<n]) = add_mset (es i) (mset (map ?es [0..<n - 1]))"
        by (rule swap_remove_mset[OF True])
      then have "filter_mset (\<lambda>e. \<not> done_entry s e) (mset (map es [0..<n])) =
          filter_mset (\<lambda>e. \<not> done_entry s e) (mset (map ?es [0..<n - 1]))" using b E(3) by simp
      with IH E done_cong[OF E(2)] show ?thesis by auto
    next
      case b: False
      have "remove_completed_from ops (Suc i) n es s1 = (n', es', s')"
        using less.prems(3) True c b by (simp add: remove_completed_from.simps[of ops i n])
      moreover have "\<forall>j<Suc i. \<not> done_entry s1 (es j)"
        using less.prems(4) b E(3) done_cong[OF E(2)] by (auto simp: less_Suc_eq)
      ultimately have "inv s' \<and> reached s' = reached s1 \<and> global_status ops s' = global_status ops s1 \<and>
          n' \<le> n \<and> mset (map es' [0..<n']) = filter_mset (\<lambda>e. \<not> done_entry s1 e) (mset (map es [0..<n]))"
        using True E(1) by (intro less.hyps) auto
      with E done_cong[OF E(2)] show ?thesis by auto
    qed
  qed
qed

lemma demands_split:
  assumes "mset (used tr') = filter_mset (\<lambda>e. \<not> done_entry s e) (mset (used tr))"
  shows "demands tr' \<subseteq> demands tr" "demands tr \<subseteq> demands tr' \<union> finished s"
proof -
  from assms have s: "set (used tr') = {e \<in> set (used tr). \<not> done_entry s e}"
    by (metis set_mset_filter set_mset_mset)
  show "demands tr' \<subseteq> demands tr" by (auto simp: demands_def s)
  show "demands tr \<subseteq> demands tr' \<union> finished s"
    by (auto simp: demands_def s done_entry_def finished_def intro: order_trans split: option.splits)
qed

lemma remove_completed_ok:
  assumes inv: "inv s" and ok: "tracker_ok tr"
    and run: "uvm_tracker_remove_completed ops tr s = (tr', s')"
  shows "inv s'" "reached s' = reached s" "global_status ops s' = global_status ops s"
    "mset (used tr') = filter_mset (\<lambda>e. \<not> done_entry s e) (mset (used tr))"
    "tracker_ok tr'" "max_size tr' = max_size tr" "unat (tsize tr') \<le> unat (tsize tr)"
    "demands tr' \<subseteq> demands tr" "demands tr \<subseteq> demands tr' \<union> finished s'"
proof -
  obtain n es s1 where r: "remove_completed_from ops 0 (unat (tsize tr)) (entries tr) s = (n, es, s1)"
    by (metis prod_cases3)
  have t': "tr' = tr\<lparr>tsize := of_nat n, entries := es\<rparr>" "s' = s1"
    using run r by (simp_all add: uvm_tracker_remove_completed_def)
  from remove_completed_from_ok[OF inv _ r]
  have R: "inv s1" "reached s1 = reached s" "global_status ops s1 = global_status ops s" "n \<le> unat (tsize tr)"
    "mset (map es [0..<n]) = filter_mset (\<lambda>e. \<not> done_entry s e) (mset (map (entries tr) [0..<unat (tsize tr)]))"
    by auto
  have "unat (tsize tr) < 2 ^ 32" using unsigned_less[of "tsize tr"] by simp
  with R(4) have "n < 2 ^ 32" by linarith
  then have n: "unat (of_nat n :: NvU32) = n" by (simp add: unat_of_nat)
  show m: "mset (used tr') = filter_mset (\<lambda>e. \<not> done_entry s e) (mset (used tr))"
    using R(5) n by (simp add: used_def t')
  show "inv s'" "reached s' = reached s" "global_status ops s' = global_status ops s"
    "max_size tr' = max_size tr" "unat (tsize tr') \<le> unat (tsize tr)" using R n by (simp_all add: t')
  show "demands tr' \<subseteq> demands tr" by (rule demands_split(1)[OF m])
  show "demands tr \<subseteq> demands tr' \<union> finished s'"
    using demands_split(2)[OF m] finished_cong[of s' s] R(2) by (simp add: t')
  have sub: "mset (map channel (used tr')) \<subseteq># mset (map channel (used tr))"
    unfolding mset_map m by (rule image_mset_subseteq_mono) simp
  have "distinct (map channel (used tr'))" using submset_distinct[OF sub] ok by (simp add: tracker_ok_def)
  moreover have "channel ` set (used tr') \<subseteq> channel ` set (used tr)"
    using set_mset_mono[OF sub] by simp
  ultimately show "tracker_ok tr'"
    using ok R(4) n by (auto simp: tracker_ok_def t' word_le_nat_alt)
qed

lemma is_completed_ok:
  assumes inv: "inv s" and ok: "tracker_ok tr"
    and run: "uvm_tracker_is_completed ops tr s = (b, tr', s')"
  shows "inv s'" "reached s' = reached s" "global_status ops s' = global_status ops s"
    "tracker_ok tr'" "max_size tr' = max_size tr" "demands tr' \<subseteq> demands tr"
    "demands tr \<subseteq> demands tr' \<union> finished s'" "b \<longleftrightarrow> tsize tr' = 0"
    "b \<longleftrightarrow> demands tr \<subseteq> finished s"
proof -
  from run have r: "uvm_tracker_remove_completed ops tr s = (tr', s')" and b: "b \<longleftrightarrow> tsize tr' = 0"
    by (auto simp: uvm_tracker_is_completed_def split: prod.splits)
  note R = remove_completed_ok[OF inv ok r]
  show "inv s'" "reached s' = reached s" "global_status ops s' = global_status ops s"
    "tracker_ok tr'" "max_size tr' = max_size tr" "demands tr' \<subseteq> demands tr"
    "demands tr \<subseteq> demands tr' \<union> finished s'" "b \<longleftrightarrow> tsize tr' = 0" using R b by simp_all
  have "b \<longleftrightarrow> used tr' = []" using b by (simp add: used_def unat_eq_zero)
  also have "\<dots> \<longleftrightarrow> (\<forall>e\<in>set (used tr). done_entry s e)"
  proof -
    have "set (used tr') = {e \<in> set (used tr). \<not> done_entry s e}"
      using R(4) by (metis set_mset_filter set_mset_mset)
    then show ?thesis by (auto simp flip: set_empty)
  qed
  also have "\<dots> \<longleftrightarrow> demands tr \<subseteq> finished s"
  proof -
    have some: "channel e \<noteq> None" if "e \<in> set (used tr)" for e
      using that ok by (metis imageI tracker_ok_def)
    have "done_entry s e" if "demands tr \<subseteq> finished s" "e \<in> set (used tr)" for e
    proof -
      from some[OF that(2)] obtain c where c: "channel e = Some c" by auto
      with that(2) have "(c, tvalue e) \<in> demands tr" by (auto simp: demands_def)
      with that(1) c show ?thesis by (auto simp: done_entry_def finished_def)
    qed
    then show ?thesis
      by (auto simp: done_entry_def demands_def finished_def intro: order_trans dest!: bspec)
  qed
  finally show "b \<longleftrightarrow> demands tr \<subseteq> finished s" .
qed

lemma check_entries_ok:
  assumes "inv s" and "check_entries ops es s = (st, s')"
  shows "inv s' \<and> reached s' = reached s \<and> (st \<noteq> NV_OK \<longrightarrow> global_status ops s' \<noteq> NV_OK)"
  using assms
proof (induction es arbitrary: s)
  case (Cons e es)
  obtain st1 s1 where c: "check_errors ops (the (channel e)) s = (st1, s1)" by fastforce
  from errors[OF Cons.prems(1) c] Cons.IH[of s1] Cons.prems(2) c show ?case
    by (cases "st1 = NV_OK") auto
qed simp

lemma check_errors_ok:
  assumes "inv s" and "uvm_tracker_check_errors ops tr s = (st, s')"
  shows "inv s'" "reached s' = reached s" "st \<noteq> NV_OK \<Longrightarrow> global_status ops s' \<noteq> NV_OK"
  using assms check_entries_ok[of s "used tr" st s']
  by (auto simp: uvm_tracker_check_errors_def split: if_splits)

lemma finished_spin: "inv s \<Longrightarrow> finished s \<subseteq> finished (spin_loop ops s)"
  using spin by (fastforce simp: finished_def intro: order_trans)

lemma wait_loop_ok:
  assumes "inv s" and "tracker_ok tr" and "wait_loop ops fuel st tr s = Some (st', tr', s')"
    and "st \<noteq> NV_OK \<longrightarrow> global_status ops s \<noteq> NV_OK"
  shows "inv s' \<and> finished s \<subseteq> finished s' \<and> tracker_ok tr' \<and> max_size tr' = max_size tr \<and>
    demands tr \<subseteq> demands tr' \<union> finished s' \<and> (st' = NV_OK \<longrightarrow> tsize tr' = 0) \<and>
    (st' \<noteq> NV_OK \<longrightarrow> global_status ops s' \<noteq> NV_OK)"
  using assms
proof (induction fuel arbitrary: st tr s)
  case (Suc fuel)
  obtain b tr1 s1 where c: "uvm_tracker_is_completed ops tr s = (b, tr1, s1)" by (metis prod_cases3)
  note C = is_completed_ok[OF Suc.prems(1,2) c]
  show ?case
  proof (cases "\<not> b \<and> st = NV_OK")
    case False
    with Suc.prems c C show ?thesis using finished_cong[OF C(2)] by auto
  next
    case True
    obtain st2 s2 where e: "uvm_tracker_check_errors ops tr1 (spin_loop ops s1) = (st2, s2)" by fastforce
    have sp: "inv (spin_loop ops s1)" using spin C(1) by blast
    note E = check_errors_ok[OF sp e]
    have "wait_loop ops fuel st2 tr1 s2 = Some (st', tr', s')" using Suc.prems(3) True c e by simp
    then have IH: "inv s' \<and> finished s2 \<subseteq> finished s' \<and> tracker_ok tr' \<and> max_size tr' = max_size tr1 \<and>
        demands tr1 \<subseteq> demands tr' \<union> finished s' \<and> (st' = NV_OK \<longrightarrow> tsize tr' = 0) \<and>
        (st' \<noteq> NV_OK \<longrightarrow> global_status ops s' \<noteq> NV_OK)"
      using E C(4) by (intro Suc.IH) auto
    have "finished s \<subseteq> finished s2" "finished s1 \<subseteq> finished s2"
      using finished_spin[OF C(1)] finished_cong[OF E(2)] finished_cong[OF C(2)] by simp_all
    then have "finished s \<subseteq> finished s'" "demands tr \<subseteq> demands tr' \<union> finished s'" using IH C(7) by blast+
    with IH C(5) show ?thesis by simp
  qed
qed simp

lemma wait_ok:
  assumes "inv s" and "tracker_ok tr" and "uvm_tracker_wait ops fuel tr s = Some (st, tr', s')"
  shows "inv s'" "finished s \<subseteq> finished s'" "tracker_ok tr'" "max_size tr' = max_size tr" "tsize tr' = 0"
    "st = NV_OK \<Longrightarrow> demands tr \<subseteq> finished s'" "st \<noteq> NV_OK \<Longrightarrow> global_status ops s' \<noteq> NV_OK"
proof -
  from assms(3) obtain tr1 where w: "wait_loop ops fuel NV_OK tr s = Some (st, tr1, s')"
    and t': "tr' = (if st \<noteq> NV_OK then uvm_tracker_clear tr1 else tr1)"
    by (auto simp: uvm_tracker_wait_def split: option.splits)
  from wait_loop_ok[OF assms(1,2) w] have W: "inv s'" "finished s \<subseteq> finished s'" "tracker_ok tr1"
    "max_size tr1 = max_size tr" "demands tr \<subseteq> demands tr1 \<union> finished s'" "st = NV_OK \<longrightarrow> tsize tr1 = 0"
    "st \<noteq> NV_OK \<longrightarrow> global_status ops s' \<noteq> NV_OK" by auto
  show "inv s'" "finished s \<subseteq> finished s'" "st \<noteq> NV_OK \<Longrightarrow> global_status ops s' \<noteq> NV_OK" using W by auto
  show "tracker_ok tr'" "max_size tr' = max_size tr" "tsize tr' = 0"
    using W t' by (auto simp: tracker_ok_def used_def uvm_tracker_clear_def)
  show "st = NV_OK \<Longrightarrow> demands tr \<subseteq> finished s'"
    using W(5,6) by (auto simp: demands_def used_def)
qed

lemma entry_wait_loop_ok:
  assumes "inv s" and "entry_wait_loop ops fuel st e s = Some (st', s')"
    and "st \<noteq> NV_OK \<longrightarrow> global_status ops s \<noteq> NV_OK"
  shows "inv s' \<and> finished s \<subseteq> finished s' \<and> (st' = NV_OK \<longrightarrow> done_entry s' e) \<and>
    (st' \<noteq> NV_OK \<longrightarrow> global_status ops s' \<noteq> NV_OK)"
  using assms
proof (induction fuel arbitrary: st s)
  case (Suc fuel)
  obtain b s1 where c: "uvm_tracker_is_entry_completed ops e s = (b, s1)" by fastforce
  note C = entry_completed[OF Suc.prems(1) c]
  show ?case
  proof (cases "\<not> b \<and> st = NV_OK")
    case False
    with Suc.prems c C show ?thesis using finished_cong[OF C(2)] done_cong[OF C(2)] by auto
  next
    case True
    obtain st2 s2 where e: "check_errors ops (the (channel e)) (spin_loop ops s1) = (st2, s2)" by fastforce
    have sp: "inv (spin_loop ops s1)" using spin C(1) by blast
    note E = errors[OF sp e]
    have w: "entry_wait_loop ops fuel (if st2 = NV_OK then global_status ops s2 else st2) e s2 = Some (st', s')"
      using Suc.prems(2) True c e by simp
    have "inv s2" using E by blast
    note IH = Suc.IH[OF this w]
    have F: "finished s \<subseteq> finished s2"
      using finished_spin[OF C(1)] finished_cong[of s2 "spin_loop ops s1"] finished_cong[OF C(2)] E by simp
    from IH E have "inv s' \<and> finished s2 \<subseteq> finished s' \<and> (st' = NV_OK \<longrightarrow> done_entry s' e) \<and>
        (st' \<noteq> NV_OK \<longrightarrow> global_status ops s' \<noteq> NV_OK)" by (simp split: if_splits)
    with F show ?thesis using subset_trans by blast
  qed
qed simp

lemma wait_for_entry_ok:
  assumes "inv s" and "wait_for_entry_with_spin ops fuel e s = Some (st, e', s')"
  shows "inv s'" "finished s \<subseteq> finished s'" "st = NV_OK \<Longrightarrow> done_entry s' e \<and> e' = e"
    "st \<noteq> NV_OK \<Longrightarrow> e' = null_entry \<and> global_status ops s' \<noteq> NV_OK"
  using assms entry_wait_loop_ok[of s fuel NV_OK e st s']
  by (auto simp: wait_for_entry_with_spin_def split: option.splits)

lemma done_mono: "finished s \<subseteq> finished s' \<Longrightarrow> done_entry s e \<Longrightarrow> done_entry s' e"
  by (auto simp: finished_def done_entry_def split: option.splits)

lemma wait_others_ok:
  assumes "inv s" and "wait_others ops fuel gpu is tr s = Some (st, tr', s')"
  shows "inv s' \<and> finished s \<subseteq> finished s' \<and> tsize tr' = tsize tr \<and> max_size tr' = max_size tr \<and>
    (st = NV_OK \<longrightarrow> tr' = tr \<and> (\<forall>i\<in>set is. uvm_tracker_entry_gpu ops (entries tr i) = gpu \<or> done_entry s' (entries tr i))) \<and>
    (st \<noteq> NV_OK \<longrightarrow> global_status ops s' \<noteq> NV_OK)"
  using assms
proof (induction "is" arbitrary: tr s)
  case (Cons i js)
  show ?case
  proof (cases "uvm_tracker_entry_gpu ops (entries tr i) = gpu")
    case True
    with Cons show ?thesis by auto
  next
    case False
    from Cons.prems(2) False obtain st1 e s1 where
      w: "wait_for_entry_with_spin ops fuel (entries tr i) s = Some (st1, e, s1)"
      by (auto split: option.splits)
    note W = wait_for_entry_ok[OF Cons.prems(1) w]
    show ?thesis
    proof (cases "st1 = NV_OK")
      case True
      with W have tr: "tr\<lparr>entries := (entries tr)(i := e)\<rparr> = tr" by simp
      with Cons.prems(2) False w True have "wait_others ops fuel gpu js tr s1 = Some (st, tr', s')" by simp
      from Cons.IH[OF W(1) this] W(2) W(3)[OF True] done_mono[of s1 s' "entries tr i"] show ?thesis by auto
    next
      case e: False
      with Cons.prems(2) False w W show ?thesis by auto
    qed
  qed
qed simp

lemma add_used_ok:
  assumes "tracker_ok dst" and "tracker_ok src"
    and "unat (tsize dst) + unat (needed_free_entries dst src) \<le> unat (max_size dst)"
    and "unat (tsize dst) + unat (tsize src) \<le> 2 ^ 31"
  shows "tracker_ok (add_entries al dst (used src))" "demands (add_entries al dst (used src)) = demands dst \<union> demands src"
proof -
  let ?n = "length (filter (\<lambda>e. find_entry dst (channel e) = None) (used src))"
  have "?n \<le> unat (tsize src)" using length_filter_le[of _ "used src"] by simp
  moreover have "unat (tsize src) < 2 ^ 32" using unsigned_less[of "tsize src"] by simp
  ultimately have "?n < 2 ^ 32" by linarith
  then have "unat (needed_free_entries dst src) = ?n" by (simp add: needed_free_entries_def unat_of_nat)
  then have "tracker_ok (add_entries al dst (used src)) \<and> demands (add_entries al dst (used src)) =
      demands dst \<union> {(c, v). \<exists>e\<in>set (used src). channel e = Some c \<and> v \<le> tvalue e}"
    using assms by (intro add_entries_ok) (auto simp: tracker_ok_def)
  then show "tracker_ok (add_entries al dst (used src))"
    "demands (add_entries al dst (used src)) = demands dst \<union> demands src" by (simp_all add: demands_def)
qed

lemma needed_le:
  "unat (needed_free_entries dst src) \<le> unat (tsize src)"
proof -
  let ?n = "length (filter (\<lambda>e. find_entry dst (channel e) = None) (used src))"
  have "unat (of_nat ?n :: NvU32) \<le> ?n" by (simp add: unat_of_nat)
  also have "?n \<le> unat (tsize src)" using length_filter_le[of _ "used src"] by simp
  finally show ?thesis by (simp add: needed_free_entries_def)
qed

lemma reserved_ok:
  assumes "tracker_ok dst" and "unat (tsize dst) + unat n \<le> 2 ^ 31"
    and "uvm_tracker_reserve al dst n = (st, dst')"
  shows "tracker_ok dst'" "demands dst' = demands dst" "tsize dst' = tsize dst"
    "st = NV_OK \<Longrightarrow> unat (tsize dst) + unat n \<le> unat (max_size dst')"
    "st \<noteq> NV_OK \<Longrightarrow> st = NV_ERR_NO_MEMORY \<and> dst' = dst"
proof -
  have R: "if max_size dst < tsize dst + n \<and> al = None then st = NV_ERR_NO_MEMORY \<and> dst' = dst
    else st = NV_OK \<and> used dst' = used dst \<and> tsize dst' = tsize dst \<and>
      1 \<le> max_size dst' \<and> unat (tsize dst) + unat n \<le> unat (max_size dst')"
    using uvm_tracker_reserve_cases[OF _ _ assms(2,3)] assms(1) by (simp add: tracker_ok_def)
  then show "tracker_ok dst'" "demands dst' = demands dst" "tsize dst' = tsize dst"
    "st = NV_OK \<Longrightarrow> unat (tsize dst) + unat n \<le> unat (max_size dst')"
    "st \<noteq> NV_OK \<Longrightarrow> st = NV_ERR_NO_MEMORY \<and> dst' = dst"
    using assms(1) by (auto simp: tracker_ok_def demands_def word_le_nat_alt split: if_splits)
qed

lemma add_tracker_ok:
  assumes inv: "inv s" and ok: "tracker_ok dst" "tracker_ok src" and same: "same \<longrightarrow> src = dst"
    and small: "unat (tsize dst) + unat (tsize src) \<le> 2 ^ 31"
    and run: "uvm_tracker_add_tracker ops al1 al2 al3 same dst (Some src) s = (st, dst', src', s')"
  shows "inv s' \<and> reached s' = reached s \<and> tracker_ok dst' \<and> (\<exists>src1. src' = Some src1 \<and> tracker_ok src1 \<and> demands src1 \<subseteq> demands src \<and> demands src \<subseteq> demands src1 \<union> finished s') \<and>
    (if st = NV_OK then demands dst' \<subseteq> demands dst \<union> demands src \<and>
       demands dst \<union> demands src \<subseteq> demands dst' \<union> finished s'
     else st = NV_ERR_NO_MEMORY \<and> demands dst' \<subseteq> demands dst \<and> demands dst \<subseteq> demands dst' \<union> finished s')"
proof (cases "same \<or> uvm_tracker_is_empty src")
  case True
  have "uvm_tracker_is_empty src \<Longrightarrow> demands src = {}"
    by (simp add: uvm_tracker_is_empty_def demands_def used_def)
  moreover have "st = NV_OK" "dst' = dst" "src' = Some src" "s' = s"
    using True run by (cases same; simp add: uvm_tracker_add_tracker_def)+
  ultimately show ?thesis using True inv ok same by auto
next
  case False
  obtain st1 dst1 where r1: "uvm_tracker_reserve al1 dst (tsize src) = (st1, dst1)" by fastforce
  note R1 = reserved_ok[OF ok(1) small r1]
  show ?thesis
  proof (cases "st1 = NV_OK")
    case True
    then have res: "st = NV_OK" "dst' = add_entries al3 dst1 (used src)" "src' = Some src" "s' = s"
      using run False r1 by (simp_all add: uvm_tracker_add_tracker_def)
    have "unat (tsize dst1) + unat (needed_free_entries dst1 src) \<le> unat (max_size dst1)"
      using R1(3) R1(4)[OF True] needed_le[of dst1 src] by simp
    with add_used_ok[OF R1(1) ok(2)] R1(2,3) small res inv ok show ?thesis by auto
  next
    case F1: False
    with R1(5) have d1: "st1 = NV_ERR_NO_MEMORY" "dst1 = dst" by auto
    obtain d2 s2 where c1: "uvm_tracker_remove_completed ops dst s = (d2, s2)" by fastforce
    obtain sr2 s3 where c2: "uvm_tracker_remove_completed ops src s2 = (sr2, s3)" by fastforce
    obtain st4 d4 where r4: "uvm_tracker_reserve al2 d2 (needed_free_entries d2 sr2) = (st4, d4)" by fastforce
    note C1 = remove_completed_ok[OF inv ok(1) c1]
    note C2 = remove_completed_ok[OF C1(1) ok(2) c2]
    have sm2: "unat (tsize d2) + unat (tsize sr2) \<le> 2 ^ 31" using C1(7) C2(7) small by linarith
    then have sm: "unat (tsize d2) + unat (needed_free_entries d2 sr2) \<le> 2 ^ 31"
      using needed_le[of d2 sr2] by linarith
    note R4 = reserved_ok[OF C1(5) sm r4]
    have res: "st = st4" "dst' = (if st4 = NV_OK then add_entries al3 d4 (used sr2) else d4)"
      "src' = Some sr2" "s' = s3"
      using run False r1 d1 c1 c2 r4
      by (simp_all add: uvm_tracker_add_tracker_def reserve_for_entries_from_tracker_def split: if_splits)
    have fin: "finished s2 = finished s3" using finished_cong[OF C2(2)] by simp
    show ?thesis
    proof (cases "st4 = NV_OK")
      case False
      with R4(5) res C1 C2 fin show ?thesis by auto
    next
      case True
      have "channel ` set (used d4) = channel ` set (used d2)"
        using True r4 C1(5) uvm_tracker_reserve_cases[OF _ _ sm r4] by (auto simp: tracker_ok_def split: if_splits)
      then have "needed_free_entries d4 sr2 = needed_free_entries d2 sr2"
        by (simp add: needed_free_entries_def find_entry_None)
      then have "unat (tsize d4) + unat (needed_free_entries d4 sr2) \<le> unat (max_size d4)"
        using R4(3) R4(4)[OF True] by simp
      from add_used_ok[OF R4(1) C2(5) this] R4(2,3) sm2 res True C1 C2 fin show ?thesis by auto
    qed
  qed
qed

lemma wait_for_other_gpus_ok:
  assumes inv: "inv s" and ok: "tracker_ok tr"
    and run: "uvm_tracker_wait_for_other_gpus ops fuel tr gpu s = Some (st, tr', s')"
  shows "inv s' \<and> finished s \<subseteq> finished s' \<and> max_size tr' = max_size tr \<and>
    (if st = NV_OK
     then tracker_ok tr' \<and> (\<forall>e\<in>set (used tr'). uvm_tracker_entry_gpu ops e = gpu) \<and>
       demands tr' \<subseteq> demands tr \<and> demands tr \<subseteq> demands tr' \<union> finished s' \<and> unat (tsize tr') \<le> unat (tsize tr)
     else tsize tr' = 0 \<and> global_status ops s' \<noteq> NV_OK)"
proof -
  from run obtain st1 tr1 s1 where w: "wait_others ops fuel gpu [0..<unat (tsize tr)] tr s = Some (st1, tr1, s1)"
    by (auto simp: uvm_tracker_wait_for_other_gpus_def split: option.splits)
  note W = wait_others_ok[OF inv w]
  show ?thesis
  proof (cases "st1 = NV_OK")
    case False
    with run w W show ?thesis by (auto simp: uvm_tracker_wait_for_other_gpus_def uvm_tracker_clear_def)
  next
    case True
    with W have tr1: "tr1 = tr" and others: "\<forall>e\<in>set (used tr). uvm_tracker_entry_gpu ops e = gpu \<or> done_entry s1 e"
      by (auto simp: set_used)
    obtain tr2 s2 where c: "uvm_tracker_remove_completed ops tr s1 = (tr2, s2)" by fastforce
    have i1: "inv s1" using W by blast
    note C = remove_completed_ok[OF i1 ok c]
    have res: "st = NV_OK" "tr' = tr2" "s' = s2"
      using run w True tr1 c by (simp_all add: uvm_tracker_wait_for_other_gpus_def)
    have "set (used tr2) = {e \<in> set (used tr). \<not> done_entry s1 e}"
      using C(4) by (metis set_mset_filter set_mset_mset)
    with others have "\<forall>e\<in>set (used tr2). uvm_tracker_entry_gpu ops e = gpu" by auto
    moreover have "finished s \<subseteq> finished s2" using W finished_cong[OF C(2)] by simp
    ultimately show ?thesis using res C by simp
  qed
qed

end

text \<open>
  A source on which waiting ends: every spin brings the channels closer to values they eventually
  reach.
\<close>

locale live_source = completion_source ops inv reached
  for ops :: "('c, 's, 'g) channel_ops" and inv :: "'s \<Rightarrow> bool" and reached :: "'s \<Rightarrow> 'c \<Rightarrow> NvU64" +
  fixes steps_left :: "'s \<Rightarrow> nat" and final :: "'s \<Rightarrow> 'c \<Rightarrow> NvU64"
  assumes query_keeps: "inv s \<Longrightarrow> is_value_completed ops c v s = (b, s') \<Longrightarrow>
      steps_left s' = steps_left s \<and> final s' = final s"
    and errors_keep: "inv s \<Longrightarrow> check_errors ops c s = (st, s') \<Longrightarrow>
      steps_left s' = steps_left s \<and> final s' = final s"
    and spin_step: "inv s \<Longrightarrow> steps_left (spin_loop ops s) = steps_left s - 1 \<and> final (spin_loop ops s) = final s"
    and no_step_left: "inv s \<Longrightarrow> steps_left s = 0 \<Longrightarrow> final s c \<le> reached s c"
begin

definition same_future :: "'s \<Rightarrow> 's \<Rightarrow> bool" where
  "same_future s s' \<longleftrightarrow> steps_left s' = steps_left s \<and> final s' = final s"

lemma entry_keeps: "inv s \<Longrightarrow> uvm_tracker_is_entry_completed ops e s = (b, s') \<Longrightarrow> same_future s s'"
  using query_keeps by (auto simp: same_future_def uvm_tracker_is_entry_completed_def split: option.splits)

lemma remove_keeps:
  "inv s \<Longrightarrow> remove_completed_from ops i n es s = (n', es', s') \<Longrightarrow> same_future s s'"
proof (induction "n - i" arbitrary: i n es s rule: less_induct)
  case less
  show ?case
  proof (cases "i < n")
    case False
    with less.prems show ?thesis by (simp add: remove_completed_from.simps same_future_def)
  next
    case True
    obtain b s1 where c: "uvm_tracker_is_entry_completed ops (es i) s = (b, s1)" by fastforce
    let ?es = "if i \<noteq> n - 1 then es(i := es (n - 1)) else es"
    note E = entry_completed(1)[OF less.prems(1) c] entry_keeps[OF less.prems(1) c]
    have "same_future s1 s'"
    proof (cases b)
      case b: True
      with less.prems(2) True c have "remove_completed_from ops i (n - 1) ?es s1 = (n', es', s')"
        by (simp add: remove_completed_from.simps[of ops i n])
      from less.hyps[OF _ E(1) this] True show ?thesis by simp
    next
      case b: False
      with less.prems(2) True c have "remove_completed_from ops (Suc i) n es s1 = (n', es', s')"
        by (simp add: remove_completed_from.simps[of ops i n])
      from less.hyps[OF _ E(1) this] True show ?thesis by simp
    qed
    with E(2) show ?thesis by (simp add: same_future_def)
  qed
qed

lemma completed_keeps:
  assumes "inv s" and "uvm_tracker_is_completed ops tr s = (b, tr', s')"
  shows "same_future s s'"
proof -
  obtain n es s1 where r: "remove_completed_from ops 0 (unat (tsize tr)) (entries tr) s = (n, es, s1)"
    by (metis prod_cases3)
  with assms(2) have "s' = s1" by (auto simp: uvm_tracker_is_completed_def uvm_tracker_remove_completed_def)
  with remove_keeps[OF assms(1) r] show ?thesis by simp
qed

lemma check_entries_keep: "inv s \<Longrightarrow> check_entries ops es s = (st, s') \<Longrightarrow> same_future s s'"
proof (induction es arbitrary: s)
  case (Cons e es)
  obtain st1 s1 where c: "check_errors ops (the (channel e)) s = (st1, s1)" by fastforce
  with errors[OF Cons.prems(1) c] errors_keep[OF Cons.prems(1) c] Cons.IH[of s1] Cons.prems(2)
  show ?case by (cases "st1 = NV_OK") (auto simp: same_future_def)
qed (simp add: same_future_def)

lemma check_keeps:
  assumes "inv s" and "uvm_tracker_check_errors ops tr s = (st, s')"
  shows "same_future s s'"
  using assms check_entries_keep[of s "used tr" st s']
  by (auto simp: uvm_tracker_check_errors_def same_future_def split: if_splits)

lemma wait_loop_returns:
  assumes "inv s" and "tracker_ok tr" and "\<forall>(c, v)\<in>demands tr. v \<le> final s c"
    and "(if st = NV_OK then steps_left s + 2 else 1) \<le> fuel"
  shows "wait_loop ops fuel st tr s \<noteq> None"
  using assms
proof (induction fuel arbitrary: st tr s)
  case (Suc fuel)
  obtain b tr1 s1 where c: "uvm_tracker_is_completed ops tr s = (b, tr1, s1)" by (metis prod_cases3)
  note C = is_completed_ok[OF Suc.prems(1,2) c] and K = completed_keeps[OF Suc.prems(1) c]
  show ?case
  proof (cases "\<not> b \<and> st = NV_OK")
    case False
    with c show ?thesis by auto
  next
    case True
    obtain st2 s2 where e: "uvm_tracker_check_errors ops tr1 (spin_loop ops s1) = (st2, s2)" by fastforce
    have sp: "inv (spin_loop ops s1)" using spin C(1) by blast
    have left: "steps_left s \<noteq> 0"
    proof
      assume "steps_left s = 0"
      then have "v \<le> reached s c" if "(c, v) \<in> demands tr" for c v
        using that Suc.prems(3) no_step_left[OF Suc.prems(1), of c] order_trans by blast
      then have "demands tr \<subseteq> finished s" by (auto simp: finished_def)
      with True C(9) show False by simp
    qed
    have fut: "steps_left s2 = steps_left s - 1" "final s2 = final s"
      using K check_keeps[OF sp e] spin_step[OF C(1)] by (simp_all add: same_future_def)
    have "\<forall>(c, v)\<in>demands tr1. v \<le> final s2 c" using Suc.prems(3) C(6) fut by auto
    then have "wait_loop ops fuel st2 tr1 s2 \<noteq> None"
      using Suc.prems(4) True left fut check_errors_ok(1)[OF sp e] C(4) by (intro Suc.IH) auto
    with True c e show ?thesis by simp
  qed
qed (simp split: if_splits)

lemma wait_returns:
  assumes "inv s" and "tracker_ok tr" and "\<forall>(c, v)\<in>demands tr. v \<le> final s c" and "steps_left s + 2 \<le> fuel"
  shows "uvm_tracker_wait ops fuel tr s \<noteq> None"
  using wait_loop_returns[OF assms(1-3), of NV_OK fuel] assms(4)
  by (auto simp: uvm_tracker_wait_def)

end

section \<open>The channels\<close>

text \<open>
  The state of the channels as trackers see it: each channel's tracking semaphore, the 64-bit count
  the GPU has reached on it, the error notifier of each channel and the global error. The GPU's
  counts and errors at the next spins are the list \<open>schedule\<close>: each spin of a waiting thread takes
  the next element. A check of a value reads the low 32 bits of the count reached as the payload, in a secure pool too: that the encrypted
  copies give such a payload, if they are updated at all, is shown for the semaphores themselves (see \<^verbatim>\<open>Gpu_Semaphore\<close>).
\<close>

record ('c, 'g) channels =
  ch_global :: uvm_global
  ch_pool :: "nat semaphore_pool"
  ch_sem :: "'c \<Rightarrow> nat tracking_semaphore"
  ch_reached :: "'c \<Rightarrow> NvU64"
  ch_error :: "'c \<Rightarrow> NV_STATUS"
  fatal_error :: NV_STATUS
  schedule :: "(('c \<Rightarrow> NvU64) \<times> ('c \<Rightarrow> NV_STATUS)) list"
  ch_gpu :: "'c \<Rightarrow> 'g"

definition uvm_global_set_fatal_error :: "NV_STATUS \<Rightarrow> ('c, 'g) channels \<Rightarrow> ('c, 'g) channels" where
  "uvm_global_set_fatal_error status w = (if fatal_error w = NV_OK then w\<lparr>fatal_error := status\<rparr> else w)"

definition uvm_channel_is_value_completed ::
    "'c \<Rightarrow> NvU64 \<Rightarrow> ('c, 'g) channels \<Rightarrow> bool \<times> ('c, 'g) channels" where
  "uvm_channel_is_value_completed c val w =
     (let ts = ch_sem w c;
          (pool, sem) = uvm_gpu_semaphore_set_payload (ch_global w) (ch_pool w) (semaphore ts) (ucast (ch_reached w c));
          (completed, ts') = uvm_gpu_tracking_semaphore_is_value_completed (ch_global w) pool (\<lambda>_. sem) ts val
      in (completed, w\<lparr>ch_sem := (ch_sem w)(c := ts')\<rparr>))"

definition uvm_channel_check_errors :: "'c \<Rightarrow> ('c, 'g) channels \<Rightarrow> NV_STATUS \<times> ('c, 'g) channels" where
  "uvm_channel_check_errors c w =
     (if ch_error w c = NV_OK then (NV_OK, w)
      else (ch_error w c, uvm_global_set_fatal_error (ch_error w c) w))"

definition channels_spin :: "('c, 'g) channels \<Rightarrow> ('c, 'g) channels" where
  "channels_spin w =
     (case schedule w of [] \<Rightarrow> w
      | (counts, errs) # later \<Rightarrow> w\<lparr>ch_reached := counts, ch_error := errs, schedule := later\<rparr>)"

definition uvm_channel_ops :: "'g itself \<Rightarrow> ('c \<Rightarrow> 'g) \<Rightarrow> ('c, ('c, 'g) channels, 'g) channel_ops" where
  "uvm_channel_ops ty gpu_of = \<lparr>is_value_completed = uvm_channel_is_value_completed,
     check_errors = uvm_channel_check_errors, global_status = fatal_error, spin_loop = channels_spin,
     get_gpu = gpu_of\<rparr>"

text \<open>
  Every count still to come is ahead of the last completed value of its channel by less than
  \<open>2\<^sup>32\<close>, and the counts only grow.
\<close>

definition final_counts :: "('c, 'g) channels \<Rightarrow> 'c \<Rightarrow> NvU64" where
  "final_counts w = (if schedule w = [] then ch_reached w else fst (last (schedule w)))"

definition channels_ok :: "('c, 'g) channels \<Rightarrow> bool" where
  "channels_ok w \<longleftrightarrow>
     (\<forall>c. completed_value (ch_sem w c) \<le> ch_reached w c \<and>
          unat (final_counts w c) - unat (completed_value (ch_sem w c)) < 2 ^ 32) \<and>
     sorted_wrt (\<lambda>f g. \<forall>c. f c \<le> g c) (ch_reached w # map fst (schedule w))"

lemma reached_le_final:
  assumes "channels_ok w"
  shows "ch_reached w c \<le> final_counts w c"
proof (cases "schedule w" rule: rev_cases)
  case (snoc xs x)
  then have "fst x \<in> set (map fst (schedule w))" by simp
  then show ?thesis using assms snoc by (auto simp: channels_ok_def final_counts_def)
qed (simp add: final_counts_def)

lemma set_payload_get:
  fixes pool :: "'g semaphore_pool"
  assumes "uvm_gpu_semaphore_set_payload g pool sem v = (pool', sem')"
  shows "uvm_gpu_semaphore_get_payload g pool' (if gpu_semaphore_pool_is_secure g pool' then sem' else sem) = v"
  using assms by (auto simp: uvm_gpu_semaphore_set_payload_def uvm_gpu_semaphore_get_payload_def Let_def
      split: if_splits)

lemma uvm_channel_is_value_completed_ok:
  assumes ok: "channels_ok w" and run: "uvm_channel_is_value_completed c v w = (b, w')"
  shows "channels_ok w'" "ch_reached w' = ch_reached w" "b \<longleftrightarrow> v \<le> ch_reached w c"
    "fatal_error w' = fatal_error w" "schedule w' = schedule w"
proof -
  let ?ts = "ch_sem w c"
  obtain pool sem where p: "uvm_gpu_semaphore_set_payload (ch_global w) (ch_pool w) (semaphore ?ts)
      (ucast (ch_reached w c)) = (pool, sem)" by fastforce
  obtain ts' where q: "uvm_gpu_tracking_semaphore_is_value_completed (ch_global w) pool (\<lambda>_. sem) ?ts v = (b, ts')"
    and w': "w' = w\<lparr>ch_sem := (ch_sem w)(c := ts')\<rparr>"
    using run p by (auto simp: uvm_channel_is_value_completed_def split: prod.splits)
  have pay: "uvm_gpu_semaphore_get_payload (ch_global w) pool (refreshed (ch_global w) pool (\<lambda>_. sem) ?ts) =
      ucast (ch_reached w c)"
    using set_payload_get[OF p] by (simp add: refreshed_def)
  have ge: "completed_value ?ts \<le> ch_reached w c" using ok by (simp add: channels_ok_def)
  have "unat (ch_reached w c) \<le> unat (final_counts w c)"
    using reached_le_final[OF ok, of c] by (simp add: word_le_nat_alt)
  then have near: "unat (ch_reached w c) - unat (completed_value ?ts) < 2 ^ 32"
    using ok unfolding channels_ok_def by (metis (no_types, lifting) diff_le_mono le_less_trans)
  note U = update_completed_value_locked_exact[OF pay ge near]
  have b: "b \<longleftrightarrow> v \<le> ch_reached w c" and lo: "completed_value ?ts \<le> completed_value ts'"
    and hi: "completed_value ts' \<le> ch_reached w c"
    using q U ge by (auto simp: uvm_gpu_tracking_semaphore_is_value_completed_def
        uvm_gpu_tracking_semaphore_update_completed_value_def split: if_splits)
  show "b \<longleftrightarrow> v \<le> ch_reached w c" by (fact b)
  show "ch_reached w' = ch_reached w" "fatal_error w' = fatal_error w" "schedule w' = schedule w"
    by (simp_all add: w')
  have "unat (final_counts w c) - unat (completed_value ts') \<le> unat (final_counts w c) - unat (completed_value ?ts)"
    using lo by (simp add: word_le_nat_alt diff_le_mono2)
  also have "\<dots> < 2 ^ 32" using ok by (simp add: channels_ok_def)
  finally show "channels_ok w'"
    using ok hi by (auto simp: channels_ok_def w' final_counts_def)
qed

lemma channels_spin_ok:
  assumes ok: "channels_ok w"
  shows "channels_ok (channels_spin w)" "ch_reached w c \<le> ch_reached (channels_spin w) c"
    "final_counts (channels_spin w) = final_counts w"
    "length (schedule (channels_spin w)) = length (schedule w) - 1"
proof -
  have "channels_ok (channels_spin w) \<and> (\<forall>c. ch_reached w c \<le> ch_reached (channels_spin w) c) \<and>
      final_counts (channels_spin w) = final_counts w \<and>
      length (schedule (channels_spin w)) = length (schedule w) - 1"
  proof (cases "schedule w")
    case Nil
    then show ?thesis using ok by (simp add: channels_spin_def)
  next
    case (Cons x later)
    have w': "channels_spin w = w\<lparr>ch_reached := fst x, ch_error := snd x, schedule := later\<rparr>"
      using Cons by (simp add: channels_spin_def split: prod.splits)
    have sorted: "\<forall>c. ch_reached w c \<le> fst x c"
      "sorted_wrt (\<lambda>f g. \<forall>c. f c \<le> g c) (fst x # map fst later)"
      using ok Cons by (simp_all add: channels_ok_def)
    have fin: "final_counts (channels_spin w) = final_counts w"
      using Cons by (simp add: w' final_counts_def)
    have "completed_value (ch_sem w c) \<le> fst x c" for c
      using ok sorted(1) order_trans unfolding channels_ok_def by blast
    then have "channels_ok (channels_spin w)"
      using ok sorted(2) unfolding channels_ok_def fin by (simp add: w')
    then show ?thesis using fin sorted(1) Cons by (simp add: w')
  qed
  then show "channels_ok (channels_spin w)" "ch_reached w c \<le> ch_reached (channels_spin w) c"
    "final_counts (channels_spin w) = final_counts w"
    "length (schedule (channels_spin w)) = length (schedule w) - 1" by blast+
qed

lemma channels_ok_fatal_error [simp]: "channels_ok (w\<lparr>fatal_error := e\<rparr>) = channels_ok w"
  by (simp add: channels_ok_def final_counts_def)

interpretation channel_source: live_source "uvm_channel_ops TYPE('g) gpu_of" channels_ok ch_reached
  "\<lambda>w. length (schedule w)" final_counts for gpu_of :: "'c \<Rightarrow> 'g"
proof (unfold_locales, goal_cases)
  case (1 s c v b s')
  then show ?case using uvm_channel_is_value_completed_ok[of s c v b s'] by (simp add: uvm_channel_ops_def)
next
  case (2 s c st s')
  then show ?case
    by (auto simp: uvm_channel_ops_def uvm_channel_check_errors_def uvm_global_set_fatal_error_def
        split: if_splits)
next
  case (3 s c)
  then show ?case using channels_spin_ok(1,2)[OF 3] by (simp add: uvm_channel_ops_def)
next
  case (4 s c v b s')
  then have "schedule s' = schedule s" "ch_reached s' = ch_reached s"
    using uvm_channel_is_value_completed_ok[of s c v b s'] by (simp_all add: uvm_channel_ops_def)
  then show ?case by (simp add: final_counts_def)
next
  case (5 s c st s')
  then show ?case
    by (auto simp: uvm_channel_ops_def uvm_channel_check_errors_def uvm_global_set_fatal_error_def
        final_counts_def split: if_splits)
next
  case (6 s)
  then show ?case using channels_spin_ok(3,4)[OF 6] by (simp add: uvm_channel_ops_def)
next
  case (7 s c)
  then show ?case by (simp add: final_counts_def)
qed

section \<open>Properties\<close>

text \<open>The pairs of a channel and a value that the channel has reached.\<close>

definition completed_pairs :: "('c, 'g) channels \<Rightarrow> ('c \<times> NvU64) set" where
  "completed_pairs w = {(c, v). v \<le> ch_reached w c}"

lemma finished_eq: "channel_source.finished = completed_pairs"
  by (simp add: fun_eq_iff channel_source.finished_def completed_pairs_def)

text \<open>Adding an entry to a tracker fails only when the channel is not tracked yet, the array is
  full and memory runs out, and then changes nothing. Otherwise the tracker asks for what it asked
  before and for the new entry, with at most one entry per channel.\<close>

theorem uvm_tracker_add_entry_correct:
  assumes "tracker_ok tracker" and "unat (tsize tracker) < 2 ^ 31" and "channel new = Some c"
    and "uvm_tracker_add_entry al tracker new = (status, tracker')"
  shows "if Some c \<notin> channel ` set (used tracker) \<and> tsize tracker = max_size tracker \<and> al = None
    then status = NV_ERR_NO_MEMORY \<and> tracker' = tracker
    else status = NV_OK \<and> tracker_ok tracker' \<and>
      demands tracker' = demands tracker \<union> {(c, v) |v. v \<le> tvalue new} \<and>
      channel ` set (used tracker') = insert (Some c) (channel ` set (used tracker))"
  using uvm_tracker_add_entry_cases[OF assms] by (simp add: find_entry_None split: if_splits)

text \<open>Overwriting a tracker with a single entry never fails, without any memory allocation: a
  cleared tracker has room for one entry.\<close>

theorem uvm_tracker_overwrite_with_entry_correct:
  assumes ok: "tracker_ok tracker" and ch: "channel entry = Some c"
    and run: "uvm_tracker_overwrite_with_entry tracker entry = (status, tracker')"
  shows "status = NV_OK \<and> tracker_ok tracker' \<and> used tracker' = [entry] \<and> max_size tracker' = max_size tracker"
proof -
  let ?t = "uvm_tracker_clear tracker"
  have "find_entry ?t (Some c) = None" by (simp add: find_entry_None)
  moreover have "max_size tracker \<noteq> 0" using ok by (intro notI) (simp add: tracker_ok_def)
  ultimately have t': "status = NV_OK" "tracker' = ?t\<lparr>tsize := 1, entries := (entries tracker)(0 := entry)\<rparr>"
    using run ch by (auto simp: uvm_tracker_overwrite_with_entry_def uvm_tracker_add_entry_def
        get_new_entry_def uvm_tracker_reserve_def uvm_tracker_clear_def)
  then show ?thesis using ok ch by (auto simp: tracker_ok_def used_def uvm_tracker_clear_def)
qed

text \<open>Overwriting a tracker by another one makes them ask for the same entries in the same
  order; it fails only when memory runs out, and then the destination is left empty.\<close>

theorem uvm_tracker_overwrite_correct:
  assumes ok: "tracker_ok dst" "tracker_ok src" and small: "unat (tsize src) \<le> 2 ^ 31"
    and run: "uvm_tracker_overwrite al dst src = (status, dst')"
  shows "tracker_ok dst' \<and>
    (if max_size dst < tsize src \<and> al = None then status = NV_ERR_NO_MEMORY \<and> used dst' = []
     else status = NV_OK \<and> used dst' = used src)"
proof -
  obtain st d1 where r: "uvm_tracker_reserve al (uvm_tracker_clear dst) (tsize src) = (st, d1)" by fastforce
  have R: "if max_size dst < tsize src \<and> al = None
    then st = NV_ERR_NO_MEMORY \<and> d1 = uvm_tracker_clear dst
    else st = NV_OK \<and> 1 \<le> max_size d1 \<and> unat (tsize src) \<le> unat (max_size d1)"
    using uvm_tracker_reserve_cases[OF _ _ _ r] ok small
    by (auto simp: tracker_ok_def uvm_tracker_clear_def split: if_splits)
  have clr: "tracker_ok (uvm_tracker_clear dst)"
    using ok by (auto simp: tracker_ok_def) (auto simp: uvm_tracker_clear_def)
  show ?thesis
  proof (cases "max_size dst < tsize src \<and> al = None")
    case True
    with R r run clr show ?thesis by (auto simp: uvm_tracker_overwrite_def)
  next
    case False
    with R have st: "st = NV_OK" "1 \<le> max_size d1" "tsize src \<le> max_size d1" by (auto simp: word_le_nat_alt)
    with r run have d': "status = NV_OK" "dst' = d1\<lparr>tsize := tsize src,
        entries := (\<lambda>i. if i < unat (tsize src) then entries src i else entries d1 i)\<rparr>"
      by (simp_all add: uvm_tracker_overwrite_def)
    then have u: "used dst' = used src" by (simp add: used_def)
    moreover have "tracker_ok dst'"
      using ok(2) st by (intro tracker_ok_intro[OF _ _ u]) (auto simp: d' tracker_ok_def)
    ultimately show ?thesis using d' False by auto
  qed
qed

text \<open>Removing the completed entries of a tracker keeps exactly the entries whose value the
  channel has not reached, each once, in some order.\<close>

theorem uvm_tracker_remove_completed_correct:
  fixes gpu_of :: "'c \<Rightarrow> 'g"
  assumes "channels_ok w" and "tracker_ok tracker"
    and "uvm_tracker_remove_completed (uvm_channel_ops TYPE('g) gpu_of) tracker w = (tracker', w')"
  shows "tracker_ok tracker' \<and> channels_ok w' \<and> ch_reached w' = ch_reached w \<and>
    mset (used tracker') =
      filter_mset (\<lambda>e. case channel e of None \<Rightarrow> False | Some c \<Rightarrow> ch_reached w c < tvalue e) (mset (used tracker))"
proof -
  note R = channel_source.remove_completed_ok[OF assms]
  have "channel_source.done_entry w e \<longleftrightarrow> \<not> (case channel e of None \<Rightarrow> False | Some c \<Rightarrow> ch_reached w c < tvalue e)" for e
    by (simp add: channel_source.done_entry_def not_less split: option.splits)
  with R show ?thesis by simp
qed

text \<open>C31. After a tracker is added to another one, the destination asks for everything either of
  them asked for that has not completed, and for nothing else; this covers the path taken when
  memory runs out. On an error no entry is added to the destination.\<close>

theorem uvm_tracker_add_tracker_correct:
  fixes gpu_of :: "'c \<Rightarrow> 'g"
  assumes "channels_ok w" and "tracker_ok dst" and "tracker_ok src" and "same \<longrightarrow> src = dst"
    and "unat (tsize dst) + unat (tsize src) \<le> 2 ^ 31"
    and "uvm_tracker_add_tracker (uvm_channel_ops TYPE('g) gpu_of) al1 al2 al3 same dst (Some src) w =
      (status, dst', src', w')"
  shows "channels_ok w' \<and> tracker_ok dst' \<and>
    (if status = NV_OK then demands dst' \<subseteq> demands dst \<union> demands src \<and>
       demands dst \<union> demands src \<subseteq> demands dst' \<union> completed_pairs w'
     else status = NV_ERR_NO_MEMORY \<and> demands dst' \<subseteq> demands dst \<and>
       demands dst \<subseteq> demands dst' \<union> completed_pairs w')"
  using channel_source.add_tracker_ok[OF assms] by (simp add: finished_eq split: if_splits)

text \<open>C32. When waiting on a tracker returns, the tracker is empty and its capacity unchanged; on
  success everything it asked for has completed, and on failure a global error is set.\<close>

theorem uvm_tracker_wait_correct:
  fixes gpu_of :: "'c \<Rightarrow> 'g"
  assumes "channels_ok w" and "tracker_ok tracker"
    and "uvm_tracker_wait (uvm_channel_ops TYPE('g) gpu_of) fuel tracker w = Some (status, tracker', w')"
  shows "tsize tracker' = 0 \<and> max_size tracker' = max_size tracker \<and> channels_ok w' \<and>
    completed_pairs w \<subseteq> completed_pairs w' \<and>
    (if status = NV_OK then demands tracker \<subseteq> completed_pairs w' else fatal_error w' \<noteq> NV_OK)"
  using channel_source.wait_ok[OF assms] by (simp add: finished_eq uvm_channel_ops_def)

text \<open>C35. Waiting on a tracker returns after at most as many iterations as the channels take to
  reach the values it asks for, plus two.\<close>

theorem uvm_tracker_wait_terminates:
  fixes gpu_of :: "'c \<Rightarrow> 'g"
  assumes "channels_ok w" and "tracker_ok tracker" and "\<forall>(c, v)\<in>demands tracker. v \<le> final_counts w c"
    and "length (schedule w) + 2 \<le> fuel"
  shows "\<exists>status tracker' w'.
    uvm_tracker_wait (uvm_channel_ops TYPE('g) gpu_of) fuel tracker w = Some (status, tracker', w')"
  using channel_source.wait_returns[OF assms, of gpu_of] by auto

text \<open>When waiting for the other GPUs returns successfully, only entries of channels of the
  given GPU are left and everything removed has completed; on failure the tracker is empty and a
  global error is set.\<close>

theorem uvm_tracker_wait_for_other_gpus_correct:
  fixes gpu_of :: "'c \<Rightarrow> 'g"
  assumes "channels_ok w" and "tracker_ok tracker"
    and "uvm_tracker_wait_for_other_gpus (uvm_channel_ops TYPE('g) gpu_of) fuel tracker gpu w =
      Some (status, tracker', w')"
  shows "max_size tracker' = max_size tracker \<and>
    (if status = NV_OK
     then (\<forall>e\<in>set (used tracker'). gpu_of (the (channel e)) = gpu) \<and>
       demands tracker \<subseteq> demands tracker' \<union> completed_pairs w'
     else tsize tracker' = 0 \<and> fatal_error w' \<noteq> NV_OK)"
  using channel_source.wait_for_other_gpus_ok[OF assms]
  by (cases "status = NV_OK") (simp_all add: finished_eq uvm_tracker_entry_gpu_def uvm_channel_ops_def)

section \<open>Concrete instances\<close>

text \<open>Two channels on two GPUs, at 0, that reach 5 at the first spin of a waiting thread.\<close>

definition two_channels :: "(nat, nat) channels" where
  "two_channels = \<lparr>ch_global = debug_global, ch_pool = used_pool,
     ch_sem = (\<lambda>_. \<lparr>semaphore = sem5, completed_value = 0, queued_value = 5\<rparr>),
     ch_reached = (\<lambda>_. 0), ch_error = (\<lambda>_. NV_OK), fatal_error = NV_OK,
     schedule = [(\<lambda>_. 5, \<lambda>_. NV_OK)], ch_gpu = (\<lambda>c. c)\<rparr>"

abbreviation sample_ops :: "(nat, (nat, nat) channels, nat) channel_ops" where
  "sample_ops \<equiv> uvm_channel_ops TYPE(nat) (\<lambda>c. c)"

definition one_entry :: "nat \<Rightarrow> NvU64 \<Rightarrow> nat tracker" where
  "one_entry c v = \<lparr>entries = (\<lambda>_. \<lparr>channel = Some c, tvalue = v\<rparr>), tsize = 1, max_size = 1\<rparr>"

lemma two_channels_ok: "channels_ok two_channels"
  by (simp add: channels_ok_def two_channels_def final_counts_def)

lemma one_entry_used: "used (one_entry c v) = [\<lparr>channel = Some c, tvalue = v\<rparr>]"
  by (simp add: used_def one_entry_def)

lemma one_entry_ok: "tracker_ok (one_entry c v)"
  by (simp add: tracker_ok_def one_entry_used) (simp add: one_entry_def)

lemma one_entry_demands: "demands (one_entry c v) = {(c, x) |x. x \<le> v}"
  by (auto simp: demands_def one_entry_used)

theorem uvm_tracker_add_entry_correct_witness:
  "uvm_tracker_add_entry None (one_entry 0 3) \<lparr>channel = Some 7, tvalue = 4\<rparr> = (NV_ERR_NO_MEMORY, one_entry 0 3)"
proof -
  obtain status tracker' where
    run: "uvm_tracker_add_entry None (one_entry 0 3) \<lparr>channel = Some 7, tvalue = 4\<rparr> = (status, tracker')" by fastforce
  have "unat (tsize (one_entry 0 3)) < 2 ^ 31" "channel \<lparr>channel = Some (7::nat), tvalue = 4\<rparr> = Some 7"
    "tsize (one_entry 0 3) = max_size (one_entry 0 3)" by (simp_all add: one_entry_def)
  with uvm_tracker_add_entry_correct[OF one_entry_ok _ _ run, of 7] run show ?thesis by (simp add: one_entry_used)
qed

theorem uvm_tracker_overwrite_with_entry_correct_witness:
  "\<exists>t. uvm_tracker_overwrite_with_entry (one_entry 0 3) \<lparr>channel = Some 7, tvalue = 4\<rparr> = (NV_OK, t) \<and>
     used t = [\<lparr>channel = Some 7, tvalue = 4\<rparr>]"
proof -
  obtain status t where
    run: "uvm_tracker_overwrite_with_entry (one_entry 0 3) \<lparr>channel = Some 7, tvalue = 4\<rparr> = (status, t)" by fastforce
  have "channel \<lparr>channel = Some (7::nat), tvalue = 4\<rparr> = Some 7" by simp
  from uvm_tracker_overwrite_with_entry_correct[OF one_entry_ok this run] run show ?thesis by simp
qed

theorem uvm_tracker_overwrite_correct_witness:
  "\<exists>t. uvm_tracker_overwrite None uvm_tracker_init (one_entry 7 4) = (NV_OK, t) \<and> used t = used (one_entry 7 4)"
proof -
  obtain status t where run: "uvm_tracker_overwrite None uvm_tracker_init (one_entry 7 4) = (status, t)" by fastforce
  have "tracker_ok (uvm_tracker_init :: nat tracker)" by (simp add: tracker_ok_def used_def uvm_tracker_init_def)
  moreover have "unat (tsize (one_entry 7 4)) \<le> 2 ^ 31" "\<not> max_size (uvm_tracker_init :: nat tracker) < tsize (one_entry 7 4)"
    by (simp_all add: one_entry_def uvm_tracker_init_def)
  ultimately show ?thesis using uvm_tracker_overwrite_correct[OF _ one_entry_ok _ run] run by simp
qed

theorem uvm_tracker_remove_completed_correct_witness:
  "mset (used (fst (uvm_tracker_remove_completed sample_ops (one_entry 7 4) two_channels))) =
     {# \<lparr>channel = Some 7, tvalue = 4\<rparr> #}"
proof -
  obtain t w where run: "uvm_tracker_remove_completed sample_ops (one_entry 7 4) two_channels = (t, w)" by fastforce
  from uvm_tracker_remove_completed_correct[OF two_channels_ok one_entry_ok run] run show ?thesis
    by (simp add: one_entry_used two_channels_def)
qed

theorem uvm_tracker_add_tracker_correct_witness:
  "\<exists>dst' src' w'. uvm_tracker_add_tracker sample_ops (Some (\<lambda>_. null_entry)) None None False (one_entry 0 3)
      (Some (one_entry 7 4)) two_channels = (NV_OK, dst', src', w') \<and>
    demands dst' \<subseteq> {(0, x) |x. x \<le> 3} \<union> {(7, x) |x. x \<le> 4}"
proof -
  obtain status dst' src' w' where
    run: "uvm_tracker_add_tracker sample_ops (Some (\<lambda>_. null_entry)) None None False (one_entry 0 3)
      (Some (one_entry 7 4)) two_channels = (status, dst', src', w')" by (metis prod_cases4)
  then have "status = NV_OK"
    by (simp add: uvm_tracker_add_tracker_def uvm_tracker_is_empty_def one_entry_def uvm_tracker_reserve_def Let_def)
  moreover have "unat (tsize (one_entry 0 3)) + unat (tsize (one_entry 7 4)) \<le> 2 ^ 31" by (simp add: one_entry_def)
  ultimately show ?thesis
    using uvm_tracker_add_tracker_correct[OF two_channels_ok one_entry_ok one_entry_ok _ _ run] run
    by (simp add: one_entry_demands)
qed

theorem uvm_tracker_wait_terminates_witness:
  "\<exists>status t w. uvm_tracker_wait sample_ops 3 (one_entry 7 4) two_channels = Some (status, t, w)"
proof -
  have "\<forall>(c, v)\<in>demands (one_entry 7 4). v \<le> final_counts two_channels c"
    by (auto simp: one_entry_demands final_counts_def two_channels_def intro: order_trans)
  moreover have "length (schedule two_channels) + 2 \<le> 3" by (simp add: two_channels_def)
  ultimately show ?thesis using uvm_tracker_wait_terminates[OF two_channels_ok one_entry_ok] by blast
qed

lemmas sample_run = uvm_tracker_is_completed_def uvm_tracker_remove_completed_def remove_completed_from.simps
  uvm_tracker_is_entry_completed_def uvm_channel_ops_def uvm_channel_is_value_completed_def
  uvm_gpu_semaphore_set_payload_def uvm_gpu_tracking_semaphore_is_value_completed_def
  uvm_gpu_tracking_semaphore_update_completed_value_def update_completed_value_locked_def
  gpu_semaphore_pool_is_secure_def widen_payload_def uvm_gpu_semaphore_get_payload_def
  uvm_tracker_check_errors_def uvm_channel_check_errors_def channels_spin_def two_channels_def
  one_entry_def debug_global_def sem5_def used_pool_def

lemma sample_wait_run:
  "\<exists>t w. uvm_tracker_wait sample_ops (Suc (Suc (Suc 0))) (one_entry 7 4) two_channels = Some (NV_OK, t, w)"
  by (simp add: uvm_tracker_wait_def sample_run used_def Let_def)

lemma sample_wait_others_run:
  "\<exists>t w. uvm_tracker_wait_for_other_gpus sample_ops (Suc (Suc (Suc 0))) (one_entry 7 4) 0 two_channels = Some (NV_OK, t, w)"
  by (simp add: uvm_tracker_wait_for_other_gpus_def wait_for_entry_with_spin_def uvm_tracker_entry_gpu_def
      sample_run used_def Let_def)

theorem uvm_tracker_wait_correct_witness:
  "\<exists>t w. uvm_tracker_wait sample_ops (Suc (Suc (Suc 0))) (one_entry 7 4) two_channels = Some (NV_OK, t, w) \<and>
     tsize t = 0 \<and> (7, 4) \<in> completed_pairs w"
proof -
  from sample_wait_run obtain t w where
    run: "uvm_tracker_wait sample_ops (Suc (Suc (Suc 0))) (one_entry 7 4) two_channels = Some (NV_OK, t, w)" by blast
  from uvm_tracker_wait_correct[OF two_channels_ok one_entry_ok run] run show ?thesis
    by (auto simp: one_entry_demands)
qed

theorem uvm_tracker_wait_for_other_gpus_correct_witness:
  "\<exists>t w. uvm_tracker_wait_for_other_gpus sample_ops (Suc (Suc (Suc 0))) (one_entry 7 4) 0 two_channels = Some (NV_OK, t, w) \<and>
     (7, 4) \<in> demands t \<union> completed_pairs w"
proof -
  from sample_wait_others_run obtain t w where
    run: "uvm_tracker_wait_for_other_gpus sample_ops (Suc (Suc (Suc 0))) (one_entry 7 4) 0 two_channels = Some (NV_OK, t, w)"
    by blast
  from uvm_tracker_wait_for_other_gpus_correct[OF two_channels_ok one_entry_ok run] run show ?thesis
    by (auto simp: one_entry_demands)
qed

end
