(* ===== verification/Tracker_Progress.thy ===== *)
theory Tracker_Progress
  imports Tracker
begin

text \<open>
  What users of trackers need beyond the contracts of \<^verbatim>\<open>Tracker\<close>. The locale \<open>sticky_source\<close> adds to the channels the law that a global error is never taken
  back; in it, \<open>later\<close> relates the states before and after every operation on trackers. The context of \<open>live_source\<close> is extended by the facts that
  \<^verbatim>\<open>uvm_tracker_wait_for_other_gpus\<close> and \<^verbatim>\<open>uvm_tracker_add_tracker_safe\<close> (\<^verbatim>\<open>uvm_tracker.c\<close>) return when the channels reach what is waited
  for. Both locales hold for the channels of \<^verbatim>\<open>Tracker\<close>.
\<close>

section \<open>Lasting errors\<close>

text \<open>A global error is never taken back: what trackers need of channels, extended by this law.\<close>

locale sticky_source = completion_source ops inv reached
  for ops :: "('c, 's, 'g) channel_ops" and inv :: "'s \<Rightarrow> bool" and reached :: "'s \<Rightarrow> 'c \<Rightarrow> NvU64" +
  assumes errors_sticky: "inv s \<Longrightarrow> check_errors ops c s = (st, s') \<Longrightarrow> global_status ops s \<noteq> NV_OK \<Longrightarrow> global_status ops s' \<noteq> NV_OK"
    and spin_sticky: "inv s \<Longrightarrow> global_status ops s \<noteq> NV_OK \<Longrightarrow> global_status ops (spin_loop ops s) \<noteq> NV_OK"
begin

text \<open>Progress of the world: more is finished, and an error stays.\<close>

definition later :: "'s \<Rightarrow> 's \<Rightarrow> bool" where
  "later s s' \<longleftrightarrow> inv s' \<and> finished s \<subseteq> finished s' \<and> (global_status ops s \<noteq> NV_OK \<longrightarrow> global_status ops s' \<noteq> NV_OK)"

lemma later_refl: "inv s \<Longrightarrow> later s s" by (simp add: later_def)

lemma later_trans: "later s s' \<Longrightarrow> later s' s'' \<Longrightarrow> later s s''" by (auto simp: later_def)

lemma later_inv: "later s s' \<Longrightarrow> inv s'" by (simp add: later_def)

lemma later_same: "inv s' \<Longrightarrow> reached s' = reached s \<Longrightarrow> (global_status ops s \<noteq> NV_OK \<Longrightarrow> global_status ops s' \<noteq> NV_OK) \<Longrightarrow> later s s'"
  using finished_cong[of s' s] by (simp add: later_def)

lemma later_remove_completed:
  assumes "inv s" and "uvm_tracker_remove_completed ops tr s = (tr', s')"
  shows "later s s'"
proof -
  obtain n es where "remove_completed_from ops 0 (unat (tsize tr)) (entries tr) s = (n, es, s')"
    using assms(2) by (auto simp: uvm_tracker_remove_completed_def split: prod.splits)
  from remove_completed_from_ok[OF assms(1) le0 this] show ?thesis by (auto intro!: later_same)
qed

lemma later_is_completed: "inv s \<Longrightarrow> uvm_tracker_is_completed ops tr s = (b, tr', s') \<Longrightarrow> later s s'"
  by (auto simp: uvm_tracker_is_completed_def intro: later_remove_completed split: prod.splits)

lemma later_check_entries: "inv s \<Longrightarrow> check_entries ops es s = (st, s') \<Longrightarrow> later s s'"
proof (induction es arbitrary: s)
  case (Cons e es)
  obtain st1 s1 where c: "check_errors ops (the (channel e)) s = (st1, s1)" by (cases "check_errors ops (the (channel e)) s")
  have l: "later s s1" using errors[OF Cons.prems(1) c] errors_sticky[OF Cons.prems(1) c] by (auto intro: later_same)
  then show ?case using Cons.prems(2) c Cons.IH[OF later_inv[OF l]] later_trans[OF l] by (auto split: if_splits)
qed (auto simp: later_refl)

lemma later_check_errors: "inv s \<Longrightarrow> uvm_tracker_check_errors ops tr s = (st, s') \<Longrightarrow> later s s'"
  using later_check_entries[of s "used tr" st s'] by (auto simp: uvm_tracker_check_errors_def later_refl split: if_splits)

lemma later_spin: "inv s \<Longrightarrow> later s (spin_loop ops s)"
  using spin finished_spin spin_sticky by (simp add: later_def)

lemma later_wait_loop: "inv s \<Longrightarrow> wait_loop ops fuel st tr s = Some (st', tr', s') \<Longrightarrow> later s s'"
proof (induction fuel arbitrary: st tr s)
  case (Suc fuel)
  obtain b tr1 s1 where c: "uvm_tracker_is_completed ops tr s = (b, tr1, s1)" by (metis surj_pair)
  have l1: "later s s1" by (rule later_is_completed[OF Suc.prems(1) c])
  show ?case
  proof (cases "\<not> b \<and> st = NV_OK")
    case True
    obtain st2 s2 where e: "uvm_tracker_check_errors ops tr1 (spin_loop ops s1) = (st2, s2)"
      by (cases "uvm_tracker_check_errors ops tr1 (spin_loop ops s1)")
    have l2: "later s s2"
      using later_trans[OF l1 later_trans[OF later_spin[OF later_inv[OF l1]] later_check_errors[OF _ e]]] later_inv[OF later_spin[OF later_inv[OF l1]]] by blast
    have "wait_loop ops fuel st2 tr1 s2 = Some (st', tr', s')" using Suc.prems(2) c e True by simp
    then show ?thesis using Suc.IH[OF later_inv[OF l2]] later_trans[OF l2] by blast
  qed (use Suc.prems(2) c l1 in auto)
qed simp

lemma later_wait: "inv s \<Longrightarrow> uvm_tracker_wait ops fuel tr s = Some (st, tr', s') \<Longrightarrow> later s s'"
  using later_wait_loop by (auto simp: uvm_tracker_wait_def split: option.splits)

lemma later_entry_wait_loop: "inv s \<Longrightarrow> entry_wait_loop ops fuel st e s = Some (st', s') \<Longrightarrow> later s s'"
proof (induction fuel arbitrary: st s)
  case (Suc fuel)
  obtain b s1 where c: "uvm_tracker_is_entry_completed ops e s = (b, s1)" by (metis surj_pair)
  have l1: "later s s1" using entry_completed[OF Suc.prems(1) c] by (auto intro: later_same)
  show ?case
  proof (cases "\<not> b \<and> st = NV_OK")
    case True
    obtain st2 s2 where e: "check_errors ops (the (channel e)) (spin_loop ops s1) = (st2, s2)"
      by (cases "check_errors ops (the (channel e)) (spin_loop ops s1)")
    have i: "inv (spin_loop ops s1)" using later_inv[OF later_spin[OF later_inv[OF l1]]] .
    have "later (spin_loop ops s1) s2" using errors[OF i e] errors_sticky[OF i e] by (auto intro: later_same)
    then have l2: "later s s2" using later_trans[OF l1 later_trans[OF later_spin[OF later_inv[OF l1]]]] by blast
    show ?thesis using Suc.prems(2) c e True Suc.IH[OF later_inv[OF l2]] later_trans[OF l2] by auto
  qed (use Suc.prems(2) c l1 in auto)
qed simp

lemma later_wait_others: "inv s \<Longrightarrow> wait_others ops fuel gpu is tr s = Some (st, tr', s') \<Longrightarrow> later s s'"
proof (induction "is" arbitrary: tr s)
  case (Cons i "is")
  show ?case
  proof (cases "uvm_tracker_entry_gpu ops (entries tr i) = gpu")
    case False
    then obtain st1 e s1 where w: "wait_for_entry_with_spin ops fuel (entries tr i) s = Some (st1, e, s1)"
      using Cons.prems(2) by (auto split: option.splits)
    have l: "later s s1" using later_entry_wait_loop[OF Cons.prems(1)] w by (auto simp: wait_for_entry_with_spin_def split: option.splits)
    then show ?thesis using Cons.prems(2) False w Cons.IH[OF later_inv[OF l]] later_trans[OF l] by (auto simp: Let_def split: if_splits)
  qed (use Cons in auto)
qed (auto simp: later_refl)

lemma later_wait_for_other_gpus:
  assumes "inv s" and "uvm_tracker_wait_for_other_gpus ops fuel tr gpu s = Some (st, tr', s')"
  shows "later s s'"
proof -
  obtain st1 tr1 s1 where w: "wait_others ops fuel gpu [0..<unat (tsize tr)] tr s = Some (st1, tr1, s1)"
    using assms(2) by (auto simp: uvm_tracker_wait_for_other_gpus_def split: option.splits)
  note l = later_wait_others[OF assms(1) w]
  show ?thesis
    using assms(2) w l later_trans[OF l later_remove_completed[OF later_inv[OF l]]]
    by (auto simp: uvm_tracker_wait_for_other_gpus_def split: if_splits prod.splits)
qed

lemma later_add_tracker:
  assumes "inv s" and "uvm_tracker_add_tracker ops al1 al2 al3 same dst src s = (st, dst', src', s')"
  shows "later s s'"
proof -
  have two: "later s s2" if "uvm_tracker_remove_completed ops t s = (t', s1)" "uvm_tracker_remove_completed ops u s1 = (u', s2)" for t u t' u' s1 s2
    using later_remove_completed[OF assms(1) that(1)] later_remove_completed[OF _ that(2)] by (meson later_inv later_trans)
  show ?thesis
    using assms(2) later_refl[OF assms(1)]
    by (auto simp: uvm_tracker_add_tracker_def Let_def intro: two split: option.splits prod.splits if_splits)
qed

lemma later_add_tracker_safe:
  assumes "inv s" and "uvm_tracker_add_tracker_safe ops fuel al1 al2 al3 same dst src s = Some (st, dst', src', s')"
  shows "later s s'"
proof -
  obtain st1 d1 u1 s1 where a: "uvm_tracker_add_tracker ops al1 al2 al3 same dst src s = (st1, d1, u1, s1)" by (metis surj_pair)
  note l = later_add_tracker[OF assms(1) a]
  show ?thesis using assms(2) a l later_trans[OF l later_wait[OF later_inv[OF l]]]
    by (auto simp: uvm_tracker_add_tracker_safe_def split: if_splits option.splits)
qed

end

section \<open>Waits that return\<close>

context live_source
begin

text \<open>The channels still reach the same values, in at most as many spins.\<close>

definition nearer :: "'s \<Rightarrow> 's \<Rightarrow> bool" where
  "nearer s s' \<longleftrightarrow> inv s' \<and> steps_left s' \<le> steps_left s \<and> final s' = final s"

lemma nearer_refl: "inv s \<Longrightarrow> nearer s s" by (simp add: nearer_def)

lemma nearer_trans: "nearer s s' \<Longrightarrow> nearer s' s'' \<Longrightarrow> nearer s s''" by (auto simp: nearer_def)

lemma nearer_inv: "nearer s s' \<Longrightarrow> inv s'" by (simp add: nearer_def)

lemma nearer_same: "inv s' \<Longrightarrow> same_future s s' \<Longrightarrow> nearer s s'" by (simp add: nearer_def same_future_def)

lemma nearer_remove_completed:
  assumes "inv s" and "uvm_tracker_remove_completed ops tr s = (tr', s')"
  shows "nearer s s'"
proof -
  obtain n es where r: "remove_completed_from ops 0 (unat (tsize tr)) (entries tr) s = (n, es, s')"
    using assms(2) by (auto simp: uvm_tracker_remove_completed_def split: prod.splits)
  show ?thesis using remove_completed_from_ok[OF assms(1) le0 r] remove_keeps[OF assms(1) r] by (auto intro: nearer_same)
qed

lemma nearer_spin: "inv s \<Longrightarrow> nearer s (spin_loop ops s)"
  using spin spin_step by (simp add: nearer_def)

lemma nearer_check:
  assumes "inv s" "uvm_tracker_check_errors ops tr s = (st, s')"
  shows "nearer s s'"
  using check_errors_ok(1)[OF assms] check_keeps[OF assms] by (rule nearer_same)

lemma nearer_wait_loop: "inv s \<Longrightarrow> tracker_ok tr \<Longrightarrow> wait_loop ops fuel st tr s = Some (st', tr', s') \<Longrightarrow> nearer s s'"
proof (induction fuel arbitrary: st tr s)
  case (Suc fuel)
  obtain b tr1 s1 where c: "uvm_tracker_is_completed ops tr s = (b, tr1, s1)" by (metis surj_pair)
  note C = is_completed_ok[OF Suc.prems(1,2) c]
  have n1: "nearer s s1" using C(1) completed_keeps[OF Suc.prems(1) c] by (rule nearer_same)
  show ?case
  proof (cases "\<not> b \<and> st = NV_OK")
    case True
    obtain st2 s2 where e: "uvm_tracker_check_errors ops tr1 (spin_loop ops s1) = (st2, s2)" by fastforce
    note sp = nearer_spin[OF nearer_inv[OF n1]]
    have n2: "nearer s s2" by (rule nearer_trans[OF n1 nearer_trans[OF sp nearer_check[OF nearer_inv[OF sp] e]]])
    have "wait_loop ops fuel st2 tr1 s2 = Some (st', tr', s')" using Suc.prems(3) c e True by simp
    then show ?thesis using Suc.IH[OF nearer_inv[OF n2] C(4)] nearer_trans[OF n2] by blast
  qed (use Suc.prems(3) c n1 in auto)
qed simp

lemma nearer_wait: "inv s \<Longrightarrow> tracker_ok tr \<Longrightarrow> uvm_tracker_wait ops fuel tr s = Some (st, tr', s') \<Longrightarrow> nearer s s'"
  using nearer_wait_loop by (auto simp: uvm_tracker_wait_def split: option.splits)

lemma entry_wait_loop_returns:
  assumes "inv s" "\<forall>c. channel e = Some c \<longrightarrow> tvalue e \<le> final s c" "(if st = NV_OK then steps_left s + 2 else 1) \<le> fuel"
  shows "\<exists>st' s'. entry_wait_loop ops fuel st e s = Some (st', s') \<and> nearer s s'"
  using assms
proof (induction fuel arbitrary: st s)
  case (Suc fuel)
  obtain b s1 where c: "uvm_tracker_is_entry_completed ops e s = (b, s1)" by fastforce
  note C = entry_completed[OF Suc.prems(1) c]
  have n1: "nearer s s1" using C(1) entry_keeps[OF Suc.prems(1) c] by (rule nearer_same)
  show ?case
  proof (cases "\<not> b \<and> st = NV_OK")
    case False
    with c n1 show ?thesis by auto
  next
    case True
    obtain st2 s2 where e: "check_errors ops (the (channel e)) (spin_loop ops s1) = (st2, s2)" by fastforce
    note sp = nearer_spin[OF C(1)]
    have n2: "nearer s s2"
      using nearer_trans[OF n1 nearer_trans[OF sp nearer_same]] errors[OF nearer_inv[OF sp] e] errors_keep[OF nearer_inv[OF sp] e] by (simp add: same_future_def)
    have left: "steps_left s \<noteq> 0"
      using True C(3) Suc.prems(2) no_step_left[OF Suc.prems(1)] by (auto simp: done_entry_def split: option.splits intro: order_trans)
    have fut: "steps_left s2 = steps_left s - 1" "final s2 = final s"
      using entry_keeps[OF Suc.prems(1) c] spin_step[OF C(1)] errors_keep[OF nearer_inv[OF sp] e] by (simp_all add: same_future_def)
    have "\<exists>st' s'. entry_wait_loop ops fuel (if st2 = NV_OK then global_status ops s2 else st2) e s2 = Some (st', s') \<and> nearer s2 s'"
      by (rule Suc.IH[OF nearer_inv[OF n2]]) (use Suc.prems(2,3) fut True left in auto)
    then show ?thesis using True c e nearer_trans[OF n2] by auto
  qed
qed (simp split: if_splits)

lemma wait_others_returns:
  assumes "inv s" "\<forall>i\<in>set is. \<forall>c. channel (entries tr i) = Some c \<longrightarrow> tvalue (entries tr i) \<le> final s c" "steps_left s + 2 \<le> fuel"
  shows "\<exists>st tr' s'. wait_others ops fuel gpu is tr s = Some (st, tr', s') \<and> nearer s s'"
  using assms
proof (induction "is" arbitrary: tr s)
  case (Cons i "is")
  show ?case
  proof (cases "uvm_tracker_entry_gpu ops (entries tr i) = gpu")
    case False
    obtain st1 s1 where w: "entry_wait_loop ops fuel NV_OK (entries tr i) s = Some (st1, s1)" "nearer s s1"
      using entry_wait_loop_returns[OF Cons.prems(1), of "entries tr i" NV_OK fuel] Cons.prems(2,3) by auto
    have f: "steps_left s1 + 2 \<le> fuel" "final s1 = final s" using w(2) Cons.prems(3) by (auto simp: nearer_def)
    have "\<exists>st tr' s'. wait_others ops fuel gpu is tr s1 = Some (st, tr', s') \<and> nearer s1 s'"
      by (rule Cons.IH[OF nearer_inv[OF w(2)] _ f(1)]) (use Cons.prems(2) f(2) in auto)
    then show ?thesis using False w nearer_trans[OF w(2)] by (auto simp: wait_for_entry_with_spin_def)
  qed (use Cons in auto)
qed (auto simp: nearer_refl)

lemma wait_for_other_gpus_returns:
  assumes inv: "inv s" and reach: "\<forall>(c, v)\<in>demands tr. v \<le> final s c" and fuel: "steps_left s + 2 \<le> fuel"
  shows "\<exists>st tr' s'. uvm_tracker_wait_for_other_gpus ops fuel tr gpu s = Some (st, tr', s') \<and> nearer s s'"
proof -
  have "\<forall>i\<in>set [0..<unat (tsize tr)]. \<forall>c. channel (entries tr i) = Some c \<longrightarrow> tvalue (entries tr i) \<le> final s c"
    using reach by (fastforce simp: demands_def set_used)
  from wait_others_returns[OF inv this fuel] obtain st tr1 s1 where w: "wait_others ops fuel gpu [0..<unat (tsize tr)] tr s = Some (st, tr1, s1)" "nearer s s1" by blast
  obtain tr2 s2 where c: "uvm_tracker_remove_completed ops tr1 s1 = (tr2, s2)" by fastforce
  have "nearer s s2" by (rule nearer_trans[OF w(2) nearer_remove_completed[OF nearer_inv[OF w(2)] c]])
  then show ?thesis using w c by (auto simp: uvm_tracker_wait_for_other_gpus_def)
qed

lemma nearer_add_tracker:
  assumes "inv s" and "uvm_tracker_add_tracker ops al1 al2 al3 same dst src s = (st, dst', src', s')"
  shows "nearer s s'"
proof -
  have two: "nearer s s2" if "uvm_tracker_remove_completed ops t s = (t', s1)" "uvm_tracker_remove_completed ops u s1 = (u', s2)" for t u t' u' s1 s2
    using nearer_remove_completed[OF assms(1) that(1)] nearer_remove_completed[OF _ that(2)] by (meson nearer_inv nearer_trans)
  show ?thesis
    using assms(2) nearer_refl[OF assms(1)]
    by (auto simp: uvm_tracker_add_tracker_def Let_def intro: two split: option.splits prod.splits if_splits)
qed

lemma add_tracker_safe_returns:
  assumes inv: "inv s" and ok: "tracker_ok dst" "tracker_ok src" and small: "unat (tsize dst) + unat (tsize src) \<le> 2 ^ 31"
    and reach: "\<forall>(c, v)\<in>demands src. v \<le> final s c" and fuel: "steps_left s + 2 \<le> fuel"
  shows "\<exists>st dst' src' s'. uvm_tracker_add_tracker_safe ops fuel al1 al2 al3 False dst (Some src) s = Some (st, dst', Some src', s') \<and>
    nearer s s' \<and> tracker_ok src' \<and> demands src' \<subseteq> demands src"
proof -
  obtain st1 d1 u1 s1 where a: "uvm_tracker_add_tracker ops al1 al2 al3 False dst (Some src) s = (st1, d1, u1, s1)" by (metis surj_pair)
  from add_tracker_ok[OF inv ok _ small a, simplified] obtain src1 where u1: "u1 = Some src1" "tracker_ok src1" "demands src1 \<subseteq> demands src" "inv s1" by blast
  note n1 = nearer_add_tracker[OF inv a]
  show ?thesis
  proof (cases "st1 = NV_ERR_NO_MEMORY")
    case True
    have "\<forall>(c, v)\<in>demands src1. v \<le> final s1 c" "steps_left s1 + 2 \<le> fuel" using u1(3) n1 reach fuel by (auto simp: nearer_def)
    from wait_returns[OF u1(4,2) this] obtain st t s2 where w: "uvm_tracker_wait ops fuel src1 s1 = Some (st, t, s2)" by auto
    note W = wait_ok[OF u1(4,2) w]
    have "demands t = {}" using W(5) by (simp add: demands_def used_def)
    then show ?thesis using True a u1(1) w W(3) nearer_trans[OF n1 nearer_wait[OF u1(4,2) w]] by (simp add: uvm_tracker_add_tracker_safe_def)
  qed (use a u1 n1 in \<open>auto simp: uvm_tracker_add_tracker_safe_def\<close>)
qed

end

section \<open>The channels\<close>

interpretation sticky_channels: sticky_source "uvm_channel_ops TYPE('g) gpu_of" channels_ok ch_reached for gpu_of :: "'c \<Rightarrow> 'g"
proof (unfold_locales, goal_cases)
  case (1 s c st s')
  then show ?case by (auto simp: uvm_channel_ops_def uvm_channel_check_errors_def uvm_global_set_fatal_error_def split: if_splits)
next
  case (2 s)
  then show ?case by (simp add: uvm_channel_ops_def channels_spin_def split: list.splits prod.splits)
qed

lemma later_channels: "sticky_channels.later gpu_of w w' \<longleftrightarrow>
    channels_ok w' \<and> completed_pairs w \<subseteq> completed_pairs w' \<and> (fatal_error w \<noteq> NV_OK \<longrightarrow> fatal_error w' \<noteq> NV_OK)"
  unfolding sticky_channels.later_def finished_eq by (simp add: uvm_channel_ops_def)

end
