(* ===== verification/Dma_Buffer_Pool.thy ===== *)
theory Dma_Buffer_Pool
  imports Tracker_Progress
begin

text \<open>
  The pool of DMA buffers that confidential computing uses to exchange encrypted data with a GPU, and the initialisation of a GPU for confidential computing
  (\<^verbatim>\<open>uvm_conf_computing.c\<close>). A buffer in the list of free buffers may still be used by GPU work: its tracker waits for it. The sections below have the operations in the
  order of the source, what each of them does, the pool in use as a step relation with its invariant, and the properties.

  The buffers and the memory they hold are named by handles. What the memory allocator returns is given for each creation of a buffer (\<open>create_outcome\<close>); allocators
  return structures that are not in use (\<open>fresh_outcomes\<close>). The time spent in an allocation, which is added to a statistics counter, is left out.
\<close>

section \<open>Model\<close>

text \<open>
  Memory handles are of the type \<open>'m\<close>; \<open>mem_balance\<close> counts the allocations of a handle minus the calls of \<^verbatim>\<open>uvm_mem_free\<close>, which does nothing for NULL. The fields of the
  structure that hold IVs and key versions are not used by the pool.
\<close>

record ('c, 'm) dma_buffer =
  buf_alloc :: "'m option"
  buf_tracker :: "'c tracker"
  buf_auth_tag :: "'m option"
  encrypted_page_mask :: "nat set"

record ('b, 'c, 'm) dma_pool =
  free_dma_buffers :: "'b list"
  num_dma_buffers :: nat
  dma_buffers :: "'b \<Rightarrow> ('c, 'm) dma_buffer option"
  mem_balance :: "'m \<Rightarrow> int"

definition mem_alloc :: "'m \<Rightarrow> ('m \<Rightarrow> int) \<Rightarrow> ('m \<Rightarrow> int)" where "mem_alloc m bal = bal(m := bal m + 1)"

definition mem_free :: "'m option \<Rightarrow> ('m \<Rightarrow> int) \<Rightarrow> ('m \<Rightarrow> int)" where
  "mem_free mem bal = (case mem of None \<Rightarrow> bal | Some m \<Rightarrow> bal(m := bal m - 1))"

definition upd_buffer :: "'b \<Rightarrow> (('c, 'm) dma_buffer \<Rightarrow> ('c, 'm) dma_buffer) \<Rightarrow> ('b, 'c, 'm) dma_pool \<Rightarrow> ('b, 'c, 'm) dma_pool" where
  "upd_buffer b f P = P\<lparr>dma_buffers := (dma_buffers P)(b := map_option f (dma_buffers P b))\<rparr>"

subsection \<open>Creating and destroying buffers\<close>

definition dma_buffer_destroy_locked ::
    "('c, 's, 'g) channel_ops \<Rightarrow> nat \<Rightarrow> 'b \<Rightarrow> ('b, 'c, 'm) dma_pool \<Rightarrow> 's \<Rightarrow> (('b, 'c, 'm) dma_pool \<times> 's) option" where
  "dma_buffer_destroy_locked ops fuel b P s =
     (let P = P\<lparr>free_dma_buffers := remove1 b (free_dma_buffers P)\<rparr>;
          x = the (dma_buffers P b)
      in case uvm_tracker_wait_deinit ops fuel (buf_tracker x) s of
           None \<Rightarrow> None
         | Some (_, _, s) \<Rightarrow>
             Some (P\<lparr>mem_balance := mem_free (buf_auth_tag x) (mem_free (buf_alloc x) (mem_balance P)),
                     dma_buffers := (dma_buffers P)(b := None)\<rparr>, s))"

text \<open>The outcomes of the steps of \<^verbatim>\<open>dma_buffer_create\<close>: the structure, the buffer and its mapping, the authentication tags and their mapping.\<close>

record ('b, 'm) create_outcome =
  struct_outcome :: "'b option"
  alloc_outcome :: "NV_STATUS \<times> 'm"
  map_outcome :: NV_STATUS
  tag_alloc_outcome :: "NV_STATUS \<times> 'm"
  tag_map_outcome :: NV_STATUS

definition dma_buffer_create ::
    "('c, 's, 'g) channel_ops \<Rightarrow> nat \<Rightarrow> ('b, 'm) create_outcome \<Rightarrow> ('b, 'c, 'm) dma_pool \<Rightarrow> 's \<Rightarrow>
     (NV_STATUS \<times> 'b option \<times> ('b, 'c, 'm) dma_pool \<times> 's) option" where
  "dma_buffer_create ops fuel m P s =
     (case struct_outcome m of
        None \<Rightarrow> Some (NV_ERR_NO_MEMORY, None, P, s)
      | Some b \<Rightarrow>
          let err = (\<lambda>status P. map_option (\<lambda>(P, s). (status, None, P, s)) (dma_buffer_destroy_locked ops fuel b P s));
              P = P\<lparr>dma_buffers := (dma_buffers P)(b \<mapsto>
                \<lparr>buf_alloc = None, buf_tracker = uvm_tracker_init, buf_auth_tag = None, encrypted_page_mask = {}\<rparr>)\<rparr>;
              (status, mem) = alloc_outcome m
          in if status \<noteq> NV_OK then err status P
             else
               let P = upd_buffer b (\<lambda>x. x\<lparr>buf_alloc := Some mem\<rparr>) (P\<lparr>mem_balance := mem_alloc mem (mem_balance P)\<rparr>)
               in if map_outcome m \<noteq> NV_OK then err (map_outcome m) P
                  else
                    let (status, mem) = tag_alloc_outcome m
                    in if status \<noteq> NV_OK then err status P
                       else
                         let P = upd_buffer b (\<lambda>x. x\<lparr>buf_auth_tag := Some mem\<rparr>) (P\<lparr>mem_balance := mem_alloc mem (mem_balance P)\<rparr>)
                         in if tag_map_outcome m \<noteq> NV_OK then err (tag_map_outcome m) P
                            else Some (NV_OK, Some b, P, s))"

definition dma_buffer_pool_add :: "'b \<Rightarrow> ('b, 'c, 'm) dma_pool \<Rightarrow> ('b, 'c, 'm) dma_pool" where
  "dma_buffer_pool_add b P = P\<lparr>free_dma_buffers := free_dma_buffers P @ [b]\<rparr>"

text \<open>The loop that creates and adds \<open>n\<close> buffers: the status, and the number of buffers added.\<close>

fun create_loop ::
    "('c, 's, 'g) channel_ops \<Rightarrow> nat \<Rightarrow> (nat \<Rightarrow> ('b, 'm) create_outcome) \<Rightarrow> nat \<Rightarrow> nat \<Rightarrow> ('b, 'c, 'm) dma_pool \<Rightarrow> 's \<Rightarrow>
     (NV_STATUS \<times> nat \<times> ('b, 'c, 'm) dma_pool \<times> 's) option" where
  "create_loop ops fuel outcomes i 0 P s = Some (NV_OK, i, P, s)"
| "create_loop ops fuel outcomes i (Suc n) P s =
     (case dma_buffer_create ops fuel (outcomes i) P s of
        None \<Rightarrow> None
      | Some (status, b, P, s) \<Rightarrow>
          if status \<noteq> NV_OK then Some (status, i, P, s)
          else create_loop ops fuel outcomes (Suc i) n (dma_buffer_pool_add (the b) P) s)"

subsection \<open>The pool\<close>

fun sync_loop ::
    "('c, 's, 'g) channel_ops \<Rightarrow> nat \<Rightarrow> 'b list \<Rightarrow> ('b, 'c, 'm) dma_pool \<Rightarrow> 's \<Rightarrow> (('b, 'c, 'm) dma_pool \<times> 's) option" where
  "sync_loop ops fuel [] P s = Some (P, s)"
| "sync_loop ops fuel (b # bs) P s =
     (case uvm_tracker_wait ops fuel (buf_tracker (the (dma_buffers P b))) s of
        None \<Rightarrow> None
      | Some (_, t, s) \<Rightarrow> sync_loop ops fuel bs (upd_buffer b (\<lambda>x. x\<lparr>buf_tracker := t\<rparr>) P) s)"

definition uvm_conf_computing_dma_buffer_pool_sync ::
    "('c, 's, 'g) channel_ops \<Rightarrow> nat \<Rightarrow> ('b, 'c, 'm) dma_pool \<Rightarrow> 's \<Rightarrow> (('b, 'c, 'm) dma_pool \<times> 's) option" where
  "uvm_conf_computing_dma_buffer_pool_sync ops fuel P s =
     (if num_dma_buffers P = 0 then Some (P, s) else sync_loop ops fuel (free_dma_buffers P) P s)"

fun deinit_loop ::
    "('c, 's, 'g) channel_ops \<Rightarrow> nat \<Rightarrow> 'b list \<Rightarrow> ('b, 'c, 'm) dma_pool \<Rightarrow> 's \<Rightarrow> (('b, 'c, 'm) dma_pool \<times> 's) option" where
  "deinit_loop ops fuel [] P s = Some (P, s)"
| "deinit_loop ops fuel (b # bs) P s =
     (case dma_buffer_destroy_locked ops fuel b P s of
        None \<Rightarrow> None
      | Some (P, s) \<Rightarrow> deinit_loop ops fuel bs (P\<lparr>num_dma_buffers := num_dma_buffers P - 1\<rparr>) s)"

definition conf_computing_dma_buffer_pool_deinit ::
    "('c, 's, 'g) channel_ops \<Rightarrow> nat \<Rightarrow> ('b, 'c, 'm) dma_pool \<Rightarrow> 's \<Rightarrow> (('b, 'c, 'm) dma_pool \<times> 's) option" where
  "conf_computing_dma_buffer_pool_deinit ops fuel P s =
     (if num_dma_buffers P = 0 then Some (P, s) else deinit_loop ops fuel (free_dma_buffers P) P s)"

definition conf_computing_dma_buffer_pool_init ::
    "('c, 's, 'g) channel_ops \<Rightarrow> nat \<Rightarrow> (nat \<Rightarrow> ('b, 'm) create_outcome) \<Rightarrow> ('b, 'c, 'm) dma_pool \<Rightarrow> 's \<Rightarrow>
     (NV_STATUS \<times> ('b, 'c, 'm) dma_pool \<times> 's) option" where
  "conf_computing_dma_buffer_pool_init ops fuel outcomes P s =
     (let n = 32
      in case create_loop ops fuel outcomes 0 n (P\<lparr>free_dma_buffers := [], num_dma_buffers := n\<rparr>) s of
           None \<Rightarrow> None
         | Some (status, i, P, s) \<Rightarrow>
             if i < n then map_option (\<lambda>(P, s). (status, P, s)) (conf_computing_dma_buffer_pool_deinit ops fuel P s)
             else Some (status, P, s))"

definition dma_buffer_pool_expand_locked ::
    "('c, 's, 'g) channel_ops \<Rightarrow> nat \<Rightarrow> (nat \<Rightarrow> ('b, 'm) create_outcome) \<Rightarrow> ('b, 'c, 'm) dma_pool \<Rightarrow> 's \<Rightarrow>
     (NV_STATUS \<times> ('b, 'c, 'm) dma_pool \<times> 's) option" where
  "dma_buffer_pool_expand_locked ops fuel outcomes P s =
     map_option (\<lambda>(status, i, P, s).
       let P = P\<lparr>num_dma_buffers := num_dma_buffers P + i\<rparr>
       in (if i = 0 then status else NV_OK, P, s))
     (create_loop ops fuel outcomes 0 (num_dma_buffers P) P s)"

text \<open>
  Freeing a buffer, if it is not NULL: \<open>al1\<close>, \<open>al2\<close>, \<open>al3\<close> are the outcomes of growing its tracker. The result has the caller's tracker, from which completed entries are removed.
\<close>

definition uvm_conf_computing_dma_buffer_free ::
    "('c, 's, 'g) channel_ops \<Rightarrow> nat \<Rightarrow> 'c alloc \<Rightarrow> 'c alloc \<Rightarrow> 'c alloc \<Rightarrow> 'b option \<Rightarrow> 'c tracker option \<Rightarrow> ('b, 'c, 'm) dma_pool \<Rightarrow> 's \<Rightarrow>
     ('c tracker option \<times> ('b, 'c, 'm) dma_pool \<times> 's) option" where
  "uvm_conf_computing_dma_buffer_free ops fuel al1 al2 al3 dma_buffer tr P s =
     (case dma_buffer of
        None \<Rightarrow> Some (tr, P, s)
      | Some b \<Rightarrow>
          let (t, s) = uvm_tracker_remove_completed ops (buf_tracker (the (dma_buffers P b))) s
          in case tr of
               None \<Rightarrow> Some (None, dma_buffer_pool_add b (upd_buffer b (\<lambda>x. x\<lparr>buf_tracker := t\<rparr>) P), s)
             | Some u \<Rightarrow>
                 let (u, s) = uvm_tracker_remove_completed ops u s
                 in case uvm_tracker_add_tracker_safe ops fuel al1 al2 al3 False t (Some u) s of
                      None \<Rightarrow> None
                    | Some (_, t, u, s) \<Rightarrow> Some (u, dma_buffer_pool_add b (upd_buffer b (\<lambda>x. x\<lparr>buf_tracker := t\<rparr>) P), s))"

text \<open>
  Allocating a buffer for a pool of \<open>gpu\<close>; \<open>out\<close> is the caller's tracker and \<open>outcomes\<close> are for the buffers that are added to an empty pool. The head of the list
  is taken when it exists; that it does is shown below. The second component of the result is what was stored to the caller's pointer, which the last error
  path leaves there.
\<close>

definition alloc_error ::
    "('c, 's, 'g) channel_ops \<Rightarrow> nat \<Rightarrow> NV_STATUS \<Rightarrow> 'b \<Rightarrow> 'b option \<Rightarrow> 'c tracker option \<Rightarrow> ('b, 'c, 'm) dma_pool \<Rightarrow> 's \<Rightarrow>
     (NV_STATUS \<times> 'b option \<times> 'c tracker option \<times> ('b, 'c, 'm) dma_pool \<times> 's) option" where
  "alloc_error ops fuel status b dma_buffer_out out P s =
     map_option (\<lambda>(_, P, s). (status, dma_buffer_out, out, P, s))
       (uvm_conf_computing_dma_buffer_free ops fuel None None None (Some b) None (upd_buffer b (\<lambda>x. x\<lparr>buf_tracker := uvm_tracker_deinit (buf_tracker x)\<rparr>) P) s)"

text \<open>What the pool's tracker still waits for is handed to the caller, or waited for.\<close>

definition hand_over_tracker ::
    "('c, 's, 'g) channel_ops \<Rightarrow> nat \<Rightarrow> 'c alloc \<Rightarrow> 'c alloc \<Rightarrow> 'c alloc \<Rightarrow> 'c tracker option \<Rightarrow> 'c tracker \<Rightarrow> 's \<Rightarrow>
     (NV_STATUS \<times> 'c tracker option \<times> 'c tracker \<times> 's) option" where
  "hand_over_tracker ops fuel al1 al2 al3 out t s =
     (case out of
        Some u \<Rightarrow> map_option (\<lambda>(status, u, t, s). (status, Some u, the t, s)) (uvm_tracker_add_tracker_safe ops fuel al1 al2 al3 False u (Some t) s)
      | None \<Rightarrow> map_option (\<lambda>(status, t, s). (status, None, t, s)) (uvm_tracker_wait ops fuel t s))"

definition take_buffer ::
    "('c, 's, 'g) channel_ops \<Rightarrow> nat \<Rightarrow> 'g \<Rightarrow> 'c alloc \<Rightarrow> 'c alloc \<Rightarrow> 'c alloc \<Rightarrow> 'c tracker option \<Rightarrow> ('b, 'c, 'm) dma_pool \<Rightarrow> 's \<Rightarrow>
     (NV_STATUS \<times> 'b option \<times> 'c tracker option \<times> ('b, 'c, 'm) dma_pool \<times> 's) option" where
  "take_buffer ops fuel gpu al1 al2 al3 out P s =
     (case free_dma_buffers P of
        [] \<Rightarrow> None
      | b # bs \<Rightarrow>
          let P = P\<lparr>free_dma_buffers := bs\<rparr>;
              set_tracker = (\<lambda>t. upd_buffer b (\<lambda>x. x\<lparr>buf_tracker := t\<rparr>) P)
          in case uvm_tracker_wait_for_other_gpus ops fuel (buf_tracker (the (dma_buffers P b))) gpu s of
               None \<Rightarrow> None
             | Some (status, t, s) \<Rightarrow>
                 if status \<noteq> NV_OK then alloc_error ops fuel status b None out (set_tracker t) s
                 else case hand_over_tracker ops fuel al1 al2 al3 out t s of
                        None \<Rightarrow> None
                      | Some (status, out, t, s) \<Rightarrow>
                          if status \<noteq> NV_OK then alloc_error ops fuel status b None out (set_tracker t) s
                          else case uvm_tracker_wait ops fuel t s of
                                 None \<Rightarrow> None
                               | Some (status, t, s) \<Rightarrow>
                                   let P = upd_buffer b (\<lambda>x. x\<lparr>encrypted_page_mask := {}\<rparr>) (set_tracker t)
                                   in if status \<noteq> NV_OK then alloc_error ops fuel status b (Some b) out P s
                                      else Some (NV_OK, Some b, out, P, s))"

definition uvm_conf_computing_dma_buffer_alloc ::
    "('c, 's, 'g) channel_ops \<Rightarrow> nat \<Rightarrow> 'g \<Rightarrow> (nat \<Rightarrow> ('b, 'm) create_outcome) \<Rightarrow> 'c alloc \<Rightarrow> 'c alloc \<Rightarrow> 'c alloc \<Rightarrow> 'c tracker option \<Rightarrow>
     ('b, 'c, 'm) dma_pool \<Rightarrow> 's \<Rightarrow> (NV_STATUS \<times> 'b option \<times> 'c tracker option \<times> ('b, 'c, 'm) dma_pool \<times> 's) option" where
  "uvm_conf_computing_dma_buffer_alloc ops fuel gpu outcomes al1 al2 al3 out P s =
     (if free_dma_buffers P = []
      then case dma_buffer_pool_expand_locked ops fuel outcomes P s of
             None \<Rightarrow> None
           | Some (status, P, s) \<Rightarrow>
               if status \<noteq> NV_OK then Some (status, None, out, P, s)
               else take_buffer ops fuel gpu al1 al2 al3 out P s
      else take_buffer ops fuel gpu al1 al2 al3 out P s)"

subsection \<open>Initialising a GPU\<close>

text \<open>\<open>iv_outcome\<close> and \<open>iv_map_outcome\<close> are the outcomes of allocating and of mapping the memory of the dummy IV.\<close>

record ('b, 'c, 'm) gpu_conf =
  gpu_pool :: "('b, 'c, 'm) dma_pool"
  iv_mem :: "'m option"
  iv_rotation_limit :: NvU64

definition dummy_iv_mem_deinit :: "('b, 'c, 'm) gpu_conf \<Rightarrow> ('b, 'c, 'm) gpu_conf" where
  "dummy_iv_mem_deinit g = g\<lparr>gpu_pool := (gpu_pool g)\<lparr>mem_balance := mem_free (iv_mem g) (mem_balance (gpu_pool g))\<rparr>\<rparr>"

definition dummy_iv_mem_init :: "bool \<Rightarrow> NV_STATUS \<times> 'm \<Rightarrow> NV_STATUS \<Rightarrow> ('b, 'c, 'm) gpu_conf \<Rightarrow> NV_STATUS \<times> ('b, 'c, 'm) gpu_conf" where
  "dummy_iv_mem_init hcc iv_outcome iv_map_outcome g =
     (if \<not> hcc then (NV_OK, g)
      else let (status, mem) = iv_outcome
           in if status \<noteq> NV_OK then (status, g)
              else let g = g\<lparr>iv_mem := Some mem, gpu_pool := (gpu_pool g)\<lparr>mem_balance := mem_alloc mem (mem_balance (gpu_pool g))\<rparr>\<rparr>
                   in if iv_map_outcome \<noteq> NV_OK then (iv_map_outcome, dummy_iv_mem_deinit g) else (NV_OK, g))"

definition uvm_conf_computing_gpu_deinit ::
    "('c, 's, 'g) channel_ops \<Rightarrow> nat \<Rightarrow> ('b, 'c, 'm) gpu_conf \<Rightarrow> 's \<Rightarrow> (('b, 'c, 'm) gpu_conf \<times> 's) option" where
  "uvm_conf_computing_gpu_deinit ops fuel g s =
     (let g = dummy_iv_mem_deinit g
      in map_option (\<lambda>(P, s). (g\<lparr>gpu_pool := P\<rparr>, s)) (conf_computing_dma_buffer_pool_deinit ops fuel (gpu_pool g) s))"

definition UVM_CONF_COMPUTING_IV_REMAINING_LIMIT_MIN :: NvU64 where "UVM_CONF_COMPUTING_IV_REMAINING_LIMIT_MIN = 2342"
definition UVM_CONF_COMPUTING_IV_REMAINING_LIMIT_MAX :: NvU64 where "UVM_CONF_COMPUTING_IV_REMAINING_LIMIT_MAX = 0xfffffffe"
definition UVM_CONF_COMPUTING_IV_REMAINING_LIMIT_DEFAULT :: NvU64 where "UVM_CONF_COMPUTING_IV_REMAINING_LIMIT_DEFAULT = push_bit 31 1"
definition UVM_CONF_COMPUTING_IV_REMAINING_LIMIT_TESTS :: NvU64 where "UVM_CONF_COMPUTING_IV_REMAINING_LIMIT_TESTS = push_bit 32 1 - 500"

definition uvm_conf_computing_gpu_init ::
    "('c, 's, 'g) channel_ops \<Rightarrow> nat \<Rightarrow> bool \<Rightarrow> bool \<Rightarrow> bool \<Rightarrow> (nat \<Rightarrow> ('b, 'm) create_outcome) \<Rightarrow> NV_STATUS \<times> 'm \<Rightarrow> NV_STATUS \<Rightarrow>
     ('b, 'c, 'm) gpu_conf \<Rightarrow> 's \<Rightarrow> (NV_STATUS \<times> ('b, 'c, 'm) gpu_conf \<times> 's) option" where
  "uvm_conf_computing_gpu_init ops fuel enabled builtin_tests hcc outcomes iv_outcome iv_map_outcome g s =
     (if \<not> enabled then Some (NV_OK, g, s)
      else case conf_computing_dma_buffer_pool_init ops fuel outcomes (gpu_pool g) s of
             None \<Rightarrow> None
           | Some (status, P, s) \<Rightarrow>
               let g = g\<lparr>gpu_pool := P\<rparr>
               in if status \<noteq> NV_OK then Some (status, g, s)
                  else
                    let (status, g) = dummy_iv_mem_init hcc iv_outcome iv_map_outcome g
                    in if status \<noteq> NV_OK then map_option (\<lambda>(g, s). (status, g, s)) (uvm_conf_computing_gpu_deinit ops fuel g s)
                       else
                         let lim = (if builtin_tests \<and> iv_rotation_limit g = UVM_CONF_COMPUTING_IV_REMAINING_LIMIT_DEFAULT
                                    then UVM_CONF_COMPUTING_IV_REMAINING_LIMIT_TESTS else iv_rotation_limit g);
                             lim = (if lim < UVM_CONF_COMPUTING_IV_REMAINING_LIMIT_MIN \<or> lim > UVM_CONF_COMPUTING_IV_REMAINING_LIMIT_MAX
                                    then UVM_CONF_COMPUTING_IV_REMAINING_LIMIT_DEFAULT else lim)
                         in Some (NV_OK, g\<lparr>iv_rotation_limit := lim\<rparr>, s))"

section \<open>What the operations do\<close>

lemma upd_buffer_simps [simp]:
  "free_dma_buffers (upd_buffer b f P) = free_dma_buffers P" "num_dma_buffers (upd_buffer b f P) = num_dma_buffers P"
  "mem_balance (upd_buffer b f P) = mem_balance P" "dom (dma_buffers (upd_buffer b f P)) = dom (dma_buffers P)"
  "dma_buffers (upd_buffer b f P) x = (if x = b then map_option f (dma_buffers P b) else dma_buffers P x)"
  by (auto simp: upd_buffer_def)

lemma upd_buffer_upd [simp]: "upd_buffer b f (upd_buffer b g P) = upd_buffer b (\<lambda>x. f (g x)) P"
  by (simp add: upd_buffer_def option.map_comp comp_def)

lemma free_alloc [simp]: "mem_free (Some m) (mem_alloc m bal) = bal" "mem_free None bal = bal"
  by (simp_all add: mem_free_def mem_alloc_def)

lemma free_alloc_two [simp]: "mem_free (Some n) (mem_free (Some m) (mem_alloc n (mem_alloc m bal))) = bal"
  by (auto simp: mem_free_def mem_alloc_def fun_eq_iff)

lemma wait_empty: "tsize t = 0 \<Longrightarrow> uvm_tracker_wait ops (Suc fuel) t s = Some (NV_OK, t\<lparr>entries := entries t\<rparr>, s)"
  by (simp add: uvm_tracker_wait_def uvm_tracker_is_completed_def uvm_tracker_remove_completed_def remove_completed_from.simps)

lemma destroy_new:
  assumes b: "b \<notin> set (free_dma_buffers P)" "dma_buffers P b = Some x" "tsize (buf_tracker x) = 0"
    and bal: "mem_free (buf_auth_tag x) (mem_free (buf_alloc x) (mem_balance P)) = bal"
  shows "dma_buffer_destroy_locked ops (Suc fuel) b P s = Some (P\<lparr>mem_balance := bal, dma_buffers := (dma_buffers P)(b := None)\<rparr>, s)"
  using assms wait_empty[of "buf_tracker x" ops fuel s]
  by (simp add: dma_buffer_destroy_locked_def uvm_tracker_wait_deinit_def remove1_idem)

text \<open>Creating a buffer adds it, with an empty tracker, or leaves everything as it was.\<close>

definition new_buffer :: "'m \<Rightarrow> 'm \<Rightarrow> ('c, 'm) dma_buffer" where
  "new_buffer m n = \<lparr>buf_alloc = Some m, buf_tracker = uvm_tracker_init, buf_auth_tag = Some n, encrypted_page_mask = {}\<rparr>"

lemma create_cases:
  fixes P :: "('b, 'c, 'm) dma_pool"
  assumes fresh: "\<And>b. struct_outcome m = Some b \<Longrightarrow> dma_buffers P b = None \<and> b \<notin> set (free_dma_buffers P)"
  obtains (fail) st where "dma_buffer_create ops (Suc fuel) m P s = Some (st, None, P, s)" "st \<noteq> NV_OK"
  | (ok) b i j where "dma_buffer_create ops (Suc fuel) m P s =
        Some (NV_OK, Some b, P\<lparr>dma_buffers := (dma_buffers P)(b \<mapsto> new_buffer i j), mem_balance := mem_alloc j (mem_alloc i (mem_balance P))\<rparr>, s)"
      "struct_outcome m = Some b"
proof (cases "struct_outcome m")
  case None
  then show ?thesis using fail by (simp add: dma_buffer_create_def)
next
  case (Some b)
  let ?x = "\<lparr>buf_alloc = None, buf_tracker = uvm_tracker_init, buf_auth_tag = None, encrypted_page_mask = {}\<rparr>"
  obtain st1 i st2 j where o: "alloc_outcome m = (st1, i)" "tag_alloc_outcome m = (st2, j)" by (metis surj_pair)
  have b: "dma_buffers P b = None" "b \<notin> set (free_dma_buffers P)" using fresh[OF Some] by simp_all
  have t: "tsize (uvm_tracker_init :: 'c tracker) = 0" by (simp add: uvm_tracker_init_def)
  have id: "(dma_buffers P)(b := None) = dma_buffers P" using b by auto
  have "dma_buffer_create ops (Suc fuel) m P s =
      (if st1 \<noteq> NV_OK then Some (st1, None, P, s) else if map_outcome m \<noteq> NV_OK then Some (map_outcome m, None, P, s)
       else if st2 \<noteq> NV_OK then Some (st2, None, P, s) else if tag_map_outcome m \<noteq> NV_OK then Some (tag_map_outcome m, None, P, s)
       else Some (NV_OK, Some b, P\<lparr>dma_buffers := (dma_buffers P)(b \<mapsto> new_buffer i j), mem_balance := mem_alloc j (mem_alloc i (mem_balance P))\<rparr>, s))"
    using b t by (simp add: dma_buffer_create_def Some o Let_def upd_buffer_def destroy_new[where bal = "mem_balance P"] id new_buffer_def)
  then show ?thesis using fail ok Some by (metis (full_types))
qed

section \<open>The buffers and their memory\<close>

text \<open>How often a buffer holds a memory handle.\<close>

definition buf_mem :: "('c, 'm) dma_buffer \<Rightarrow> 'm \<Rightarrow> int" where
  "buf_mem x m = (if buf_alloc x = Some m then 1 else 0) + (if buf_auth_tag x = Some m then 1 else 0)"

text \<open>
  The buffers of a pool are the free ones and those \<open>held\<close> by users; the memory allocated, apart from \<open>base\<close>, is what they hold. When the pool is ready,
  \<open>num_dma_buffers\<close> is their number.
\<close>

definition pool_shape :: "('m \<Rightarrow> int) \<Rightarrow> 'b set \<Rightarrow> ('b, 'c, 'm) dma_pool \<Rightarrow> bool" where
  "pool_shape base held P \<longleftrightarrow>
     distinct (free_dma_buffers P) \<and> finite held \<and> set (free_dma_buffers P) \<inter> held = {} \<and>
     dom (dma_buffers P) = set (free_dma_buffers P) \<union> held \<and>
     (\<forall>m. mem_balance P m = base m + (\<Sum>b\<in>dom (dma_buffers P). buf_mem (the (dma_buffers P b)) m))"

definition dma_pool_ok :: "('m \<Rightarrow> int) \<Rightarrow> 'b set \<Rightarrow> ('b, 'c, 'm) dma_pool \<Rightarrow> bool" where
  "dma_pool_ok base held P \<longleftrightarrow> pool_shape base held P \<and> num_dma_buffers P = length (free_dma_buffers P) + card held"

lemma free_buf_mem: "mem_free (buf_auth_tag x) (mem_free (buf_alloc x) bal) m = bal m - buf_mem x m"
  by (auto simp: mem_free_def buf_mem_def split: option.split)

lemma alloc_buf_mem:
  "mem_alloc j (mem_alloc i bal) m = bal m + ((if i = m then 1 else 0) + (if j = m then 1 else 0))"
  "buf_mem (new_buffer i j) m = (if i = m then 1 else 0) + (if j = m then 1 else 0)"
  by (auto simp: mem_alloc_def buf_mem_def new_buffer_def)

lemma pool_shape_finite: "pool_shape base held P \<Longrightarrow> finite (dom (dma_buffers P))"
  by (simp add: pool_shape_def)

text \<open>Adding a new buffer.\<close>

lemma shape_add:
  fixes P :: "('b, 'c, 'm) dma_pool"
  assumes shape: "pool_shape base held P" and b: "dma_buffers P b = None"
  shows "pool_shape base held (dma_buffer_pool_add b
    (P\<lparr>dma_buffers := (dma_buffers P)(b \<mapsto> new_buffer i j), mem_balance := mem_alloc j (mem_alloc i (mem_balance P))\<rparr>))"
proof -
  have nb: "b \<notin> dom (dma_buffers P)" using b by auto
  have "(\<Sum>a\<in>insert b (dom (dma_buffers P)). buf_mem (the (((dma_buffers P)(b \<mapsto> new_buffer i j)) a)) m) =
      buf_mem (new_buffer i j :: ('c, 'm) dma_buffer) m + (\<Sum>a\<in>dom (dma_buffers P). buf_mem (the (dma_buffers P a)) m)" for m
  proof -
    have "(\<Sum>a\<in>dom (dma_buffers P). buf_mem (the (((dma_buffers P)(b \<mapsto> new_buffer i j)) a)) m) =
        (\<Sum>a\<in>dom (dma_buffers P). buf_mem (the (dma_buffers P a)) m)" by (rule sum.cong) (use nb in auto)
    then show ?thesis using pool_shape_finite[OF shape] nb by simp
  qed
  then show ?thesis using shape nb by (auto simp: pool_shape_def dma_buffer_pool_add_def alloc_buf_mem)
qed

text \<open>Moving buffers between the list and the users, and changing their trackers and masks.\<close>

lemma shape_move:
  assumes shape: "pool_shape base held P" and P': "mem_balance P' = mem_balance P" "distinct (free_dma_buffers P')"
      "set (free_dma_buffers P') \<inter> held' = {}" "set (free_dma_buffers P') \<union> held' = set (free_dma_buffers P) \<union> held"
    and bufs: "\<And>b. map_option buf_alloc (dma_buffers P' b) = map_option buf_alloc (dma_buffers P b)"
      "\<And>b. map_option buf_auth_tag (dma_buffers P' b) = map_option buf_auth_tag (dma_buffers P b)"
  shows "pool_shape base held' P'"
proof -
  have "dma_buffers P' b = None \<longleftrightarrow> dma_buffers P b = None" for b using bufs(1)[of b] by (metis option.map_disc_iff)
  then have dom: "dom (dma_buffers P') = dom (dma_buffers P)" by (simp add: dom_def)
  have "buf_mem (the (dma_buffers P' b)) m = buf_mem (the (dma_buffers P b)) m" if "b \<in> dom (dma_buffers P)" for b m
    using that bufs(1)[of b] bufs(2)[of b] by (auto simp: buf_mem_def)
  then have "(\<Sum>b\<in>dom (dma_buffers P'). buf_mem (the (dma_buffers P' b)) m) = (\<Sum>b\<in>dom (dma_buffers P). buf_mem (the (dma_buffers P b)) m)" for m
    unfolding dom by (intro sum.cong) auto
  moreover have "finite held'" using shape P'(4) by (metis finite_Un List.finite_set pool_shape_def)
  ultimately show ?thesis using shape P' dom by (simp add: pool_shape_def)
qed

text \<open>The buffers \<open>new\<close> were added to a pool.\<close>

definition added :: "'b list \<Rightarrow> ('b, 'c, 'm) dma_pool \<Rightarrow> ('b, 'c, 'm) dma_pool \<Rightarrow> bool" where
  "added new P P' \<longleftrightarrow>
     free_dma_buffers P' = free_dma_buffers P @ new \<and> num_dma_buffers P' = num_dma_buffers P \<and>
     (\<forall>b\<in>set new. dma_buffers P b = None \<and> (\<exists>i j. dma_buffers P' b = Some (new_buffer i j))) \<and>
     (\<forall>b. b \<notin> set new \<longrightarrow> dma_buffers P' b = dma_buffers P b)"

lemma create_loop_ok:
  assumes inj: "\<And>k k' b. struct_outcome (outcomes k) = Some b \<Longrightarrow> struct_outcome (outcomes k') = Some b \<Longrightarrow> k = k'"
  shows "pool_shape base held P \<Longrightarrow> (\<forall>k\<ge>i. \<forall>b. struct_outcome (outcomes k) = Some b \<longrightarrow> dma_buffers P b = None) \<Longrightarrow>
    \<exists>st new P'. create_loop ops (Suc fuel) outcomes i n P s = Some (st, i + length new, P', s) \<and> length new \<le> n \<and>
      (st = NV_OK \<longleftrightarrow> length new = n) \<and> added new P P' \<and> pool_shape base held P' \<and>
      (st \<noteq> NV_OK \<longrightarrow> new = [] \<longrightarrow> dma_buffer_create ops (Suc fuel) (outcomes i) P s = Some (st, None, P, s))"
proof (induction n arbitrary: i P)
  case 0
  then show ?case by (intro exI[of _ NV_OK] exI[of _ "[]"] exI[of _ P]) (simp add: added_def)
next
  case (Suc n)
  have f: "dma_buffers P b = None \<and> b \<notin> set (free_dma_buffers P)" if "struct_outcome (outcomes i) = Some b" for b
    using Suc.prems that by (auto simp: pool_shape_def)
  show ?case
  proof (rule create_cases[where m = "outcomes i" and P = P and ops = ops and fuel = fuel and s = s])
    fix st assume "dma_buffer_create ops (Suc fuel) (outcomes i) P s = Some (st, None, P, s)" "st \<noteq> NV_OK"
    then show ?thesis using Suc.prems(1) by (intro exI[of _ st] exI[of _ "[]"] exI[of _ P]) (simp add: added_def)
  next
    fix b x y
    assume 2: "dma_buffer_create ops (Suc fuel) (outcomes i) P s =
        Some (NV_OK, Some b, P\<lparr>dma_buffers := (dma_buffers P)(b \<mapsto> new_buffer x y), mem_balance := mem_alloc y (mem_alloc x (mem_balance P))\<rparr>, s)"
      "struct_outcome (outcomes i) = Some b"
    define Q where "Q = dma_buffer_pool_add b
      (P\<lparr>dma_buffers := (dma_buffers P)(b \<mapsto> new_buffer x y), mem_balance := mem_alloc y (mem_alloc x (mem_balance P))\<rparr>)"
    have shape: "pool_shape base held Q" unfolding Q_def by (rule shape_add[OF Suc.prems(1)]) (use f[OF 2(2)] in simp)
    have "\<forall>k\<ge>Suc i. \<forall>c. struct_outcome (outcomes k) = Some c \<longrightarrow> dma_buffers Q c = None"
    proof (intro allI impI)
      fix k c assume k: "Suc i \<le> k" "struct_outcome (outcomes k) = Some c"
      have "c \<noteq> b" using inj[of i b k] 2(2) k by auto
      moreover have "dma_buffers P c = None" using Suc.prems(2) k(2) Suc_leD[OF k(1)] by blast
      ultimately show "dma_buffers Q c = None" by (simp add: Q_def dma_buffer_pool_add_def)
    qed
    from Suc.IH[OF shape this] obtain st new P' where r: "create_loop ops (Suc fuel) outcomes (Suc i) n Q s = Some (st, Suc i + length new, P', s)"
      "length new \<le> n" "st = NV_OK \<longleftrightarrow> length new = n" "added new Q P'" "pool_shape base held P'" by blast
    have b: "b \<notin> set new" using r(4) by (auto simp: added_def Q_def dma_buffer_pool_add_def)
    have "create_loop ops (Suc fuel) outcomes i (Suc n) P s = Some (st, i + length (b # new), P', s)"
      using r(1) 2(1) by (simp add: Q_def)
    moreover have "added (b # new) P P'"
      using r(4) b f[OF 2(2)] by (auto simp: added_def Q_def dma_buffer_pool_add_def split: if_splits)
    ultimately show ?thesis using r by (intro exI[of _ st] exI[of _ "b # new"] exI[of _ P']) simp
  qed (use f in blast)
qed

text \<open>Destroying the free buffers.\<close>

lemma destroy_shape:
  assumes shape: "pool_shape base held P" and free: "free_dma_buffers P = b # bs"
    and run: "dma_buffer_destroy_locked ops fuel b P s = Some (P', s')"
  shows "pool_shape base held P'" "free_dma_buffers P' = bs" "num_dma_buffers P' = num_dma_buffers P"
    "\<And>c. c \<noteq> b \<Longrightarrow> dma_buffers P' c = dma_buffers P c" "\<exists>st t. uvm_tracker_wait ops fuel (buf_tracker (the (dma_buffers P b))) s = Some (st, t, s')"
proof -
  let ?x = "the (dma_buffers P b)"
  have P': "P' = P\<lparr>free_dma_buffers := bs, mem_balance := mem_free (buf_auth_tag ?x) (mem_free (buf_alloc ?x) (mem_balance P)),
      dma_buffers := (dma_buffers P)(b := None)\<rparr>"
    using run free by (auto simp: dma_buffer_destroy_locked_def Let_def split: option.splits)
  then show "free_dma_buffers P' = bs" "num_dma_buffers P' = num_dma_buffers P" "\<And>c. c \<noteq> b \<Longrightarrow> dma_buffers P' c = dma_buffers P c" by simp_all
  show "\<exists>st t. uvm_tracker_wait ops fuel (buf_tracker ?x) s = Some (st, t, s')"
    using run by (auto simp: dma_buffer_destroy_locked_def uvm_tracker_wait_deinit_def Let_def split: option.splits)
  have b: "b \<in> dom (dma_buffers P)" using shape free by (auto simp: pool_shape_def)
  have dom: "dom (dma_buffers P) - {b} = set bs \<union> held" using shape free by (auto simp: pool_shape_def)
  have "(\<Sum>a\<in>dom (dma_buffers P). buf_mem (the (dma_buffers P a)) m) =
      buf_mem ?x m + (\<Sum>a\<in>set bs \<union> held. buf_mem (the (dma_buffers P a)) m)" for m
    unfolding dom[symmetric] using sum.remove[OF pool_shape_finite[OF shape] b] by simp
  moreover have "(\<Sum>a\<in>set bs \<union> held. buf_mem (the (((dma_buffers P)(b := None)) a)) m) =
      (\<Sum>a\<in>set bs \<union> held. buf_mem (the (dma_buffers P a)) m)" for m by (rule sum.cong) (use dom in auto)
  moreover have "dom (dma_buffers P') = set bs \<union> held" using dom by (simp add: P')
  ultimately show "pool_shape base held P'" using shape free by (simp add: pool_shape_def P' free_buf_mem)
qed

lemma deinit_loop_shape:
  "pool_shape base held P \<Longrightarrow> free_dma_buffers P = bs \<Longrightarrow> deinit_loop ops fuel bs P s = Some (P', s') \<Longrightarrow>
   pool_shape base held P' \<and> free_dma_buffers P' = [] \<and> num_dma_buffers P' = num_dma_buffers P - length bs"
proof (induction bs arbitrary: P s)
  case (Cons b bs)
  obtain Q s1 where d: "dma_buffer_destroy_locked ops fuel b P s = Some (Q, s1)" using Cons.prems(3) by (auto split: option.splits)
  note D = destroy_shape[OF Cons.prems(1,2) d]
  have "pool_shape base held (Q\<lparr>num_dma_buffers := num_dma_buffers Q - 1\<rparr>)" using D(1) by (simp add: pool_shape_def)
  from Cons.IH[OF this] show ?case using Cons.prems(3) d D by simp
qed simp

lemma deinit_loop_idle:
  "pool_shape base held P \<Longrightarrow> free_dma_buffers P = bs \<Longrightarrow> (\<And>b. b \<in> set bs \<Longrightarrow> tsize (buf_tracker (the (dma_buffers P b))) = 0) \<Longrightarrow>
   \<exists>P'. deinit_loop ops (Suc fuel) bs P s = Some (P', s)"
proof (induction bs arbitrary: P)
  case (Cons b bs)
  have b: "b \<notin> set bs" using Cons.prems(1,2) by (simp add: pool_shape_def)
  have "tsize (buf_tracker (the (dma_buffers P b))) = 0" using Cons.prems(3) by simp
  then obtain Q where d: "dma_buffer_destroy_locked ops (Suc fuel) b P s = Some (Q, s)"
    using wait_empty[of "buf_tracker (the (dma_buffers P b))" ops fuel s]
    by (auto simp: dma_buffer_destroy_locked_def uvm_tracker_wait_deinit_def Let_def)
  note D = destroy_shape[OF Cons.prems(1,2) d]
  let ?Q = "Q\<lparr>num_dma_buffers := num_dma_buffers Q - 1\<rparr>"
  have "pool_shape base held ?Q" using D(1) by (simp add: pool_shape_def)
  moreover have "tsize (buf_tracker (the (dma_buffers ?Q c))) = 0" if "c \<in> set bs" for c
  proof -
    have "c \<noteq> b" using that b by auto
    then show ?thesis using D(4)[of c] Cons.prems(3)[of c] that by simp
  qed
  ultimately show ?case using Cons.IH[of ?Q] D(2) d by simp
qed simp

section \<open>Buffers and pending work\<close>

lemma demands_empty: "tsize t = 0 \<Longrightarrow> demands t = {}"
  by (simp add: demands_def used_def)

lemma tracker_size:
  assumes "tracker_ok t"
  shows "unat (tsize t) = card (fst ` demands t)" "finite (fst ` demands t)"
proof -
  have "fst ` demands t = (\<lambda>e. the (channel e)) ` set (used t)"
  proof
    show "fst ` demands t \<subseteq> (\<lambda>e. the (channel e)) ` set (used t)" by (force simp: demands_def)
    show "(\<lambda>e. the (channel e)) ` set (used t) \<subseteq> fst ` demands t"
    proof
      fix c assume "c \<in> (\<lambda>e. the (channel e)) ` set (used t)"
      then obtain e where e: "e \<in> set (used t)" "c = the (channel e)" by auto
      then have "channel e \<noteq> None" using assms by (metis imageI tracker_ok_def)
      then have "channel e = Some c" using e(2) by auto
      then have "(c, tvalue e) \<in> demands t" using e by (auto simp: demands_def)
      then show "c \<in> fst ` demands t" by force
    qed
  qed
  moreover have "inj_on (\<lambda>e. the (channel e)) (set (used t))"
  proof (rule inj_onI)
    fix d e assume de: "d \<in> set (used t)" "e \<in> set (used t)" "the (channel d) = the (channel e)"
    then have "channel d \<noteq> None" "channel e \<noteq> None" using assms by (metis imageI tracker_ok_def)+
    then have "channel d = channel e" using de(3) by auto
    then show "d = e" using de assms by (metis distinct_map inj_on_def tracker_ok_def)
  qed
  moreover have "distinct (used t)" using assms by (simp add: tracker_ok_def distinct_map)
  ultimately show "unat (tsize t) = card (fst ` demands t)" "finite (fst ` demands t)"
    by (simp_all add: card_image distinct_card)
qed

text \<open>A tracker has at most one entry for each channel.\<close>

lemma tracker_size_card: "tracker_ok (t :: 'c::finite tracker) \<Longrightarrow> unat (tsize t) \<le> CARD('c)"
  by (simp add: tracker_size card_mono)

text \<open>Trackers small enough to be added, and the caller's tracker after a call: it still waits for what it waited for before and has not completed.\<close>

definition fits :: "'c tracker option \<Rightarrow> 'c tracker \<Rightarrow> bool" where
  "fits out t \<longleftrightarrow> (case out of None \<Rightarrow> True | Some u \<Rightarrow> tracker_ok u \<and> unat (tsize u) + unat (tsize t) \<le> 2 ^ 31)"

definition covers :: "'c tracker option \<Rightarrow> 'c tracker option \<Rightarrow> ('c \<times> NvU64) set \<Rightarrow> bool" where
  "covers out out' fin \<longleftrightarrow> (case out of None \<Rightarrow> True | Some u \<Rightarrow> tracker_ok (the out') \<and> demands u \<subseteq> demands (the out') \<union> fin)"

text \<open>Changes of a buffer that keep its memory.\<close>

definition keeps_mem :: "(('c, 'm) dma_buffer \<Rightarrow> ('c, 'm) dma_buffer) \<Rightarrow> bool" where
  "keeps_mem f \<longleftrightarrow> (\<forall>x. buf_alloc (f x) = buf_alloc x \<and> buf_auth_tag (f x) = buf_auth_tag x)"

context sticky_source
begin

lemma add_safe_ok:
  assumes inv: "inv s" and ok: "tracker_ok dst" "tracker_ok src" and small: "unat (tsize dst) + unat (tsize src) \<le> 2 ^ 31"
    and run: "uvm_tracker_add_tracker_safe ops fuel al1 al2 al3 False dst (Some src) s = Some (st, dst', src', s')"
  shows "if st = NV_OK
    then tracker_ok dst' \<and> demands dst \<union> demands src \<subseteq> demands dst' \<union> finished s' \<and> demands dst' \<subseteq> demands dst \<union> demands src \<and>
      tracker_ok (the src') \<and> demands src \<subseteq> demands (the src') \<union> finished s'
    else global_status ops s' \<noteq> NV_OK"
proof -
  obtain st1 d1 u1 s1 where a: "uvm_tracker_add_tracker ops al1 al2 al3 False dst (Some src) s = (st1, d1, u1, s1)" by (metis surj_pair)
  note A = add_tracker_ok[OF inv ok _ small a, simplified]
  show ?thesis
  proof (cases "st1 = NV_ERR_NO_MEMORY")
    case False
    then show ?thesis using A run a by (auto simp: uvm_tracker_add_tracker_safe_def split: if_splits)
  next
    case True
    obtain src1 where u1: "u1 = Some src1" "tracker_ok src1" "demands src \<subseteq> demands src1 \<union> finished s1" and i1: "inv s1" using A by blast
    obtain t2 where w: "uvm_tracker_wait ops fuel src1 s1 = Some (st, t2, s')" "dst' = d1" "src' = Some t2"
      using run a True u1(1) by (auto simp: uvm_tracker_add_tracker_safe_def)
    note W = wait_ok[OF i1 u1(2) w(1)]
    have d: "tracker_ok d1" "demands d1 \<subseteq> demands dst" "demands dst \<subseteq> demands d1 \<union> finished s1" using A True by (auto split: if_splits)
    show ?thesis
    proof (cases "st = NV_OK")
      case True
      then have "demands src \<subseteq> finished s'" using W(2,6) u1(3) by blast
      then show ?thesis using True W d w by auto
    qed (use W(7) in simp)
  qed
qed

text \<open>Freeing a buffer adds it to the tail of the list, with a tracker that waits for the work of both trackers, unless there is a global error.\<close>

lemma free_ok:
  assumes inv: "inv s" and run: "uvm_conf_computing_dma_buffer_free ops fuel al1 al2 al3 (Some b) tr P s = Some (tr', P', s')"
    and t: "t = buf_tracker (the (dma_buffers P b))"
  shows "later s s' \<and> (\<exists>d. P' = dma_buffer_pool_add b (upd_buffer b (\<lambda>x. x\<lparr>buf_tracker := d\<rparr>) P) \<and>
    (tracker_ok t \<longrightarrow> fits tr t \<longrightarrow> global_status ops s' = NV_OK \<longrightarrow>
       tracker_ok d \<and> demands t \<union> (case tr of None \<Rightarrow> {} | Some u \<Rightarrow> demands u) \<subseteq> demands d \<union> finished s'))"
proof -
  obtain t1 s1 where r1: "uvm_tracker_remove_completed ops t s = (t1, s1)" by (cases "uvm_tracker_remove_completed ops t s")
  note l1 = later_remove_completed[OF inv r1] and R1 = remove_completed_ok[OF inv _ r1]
  show ?thesis
  proof (cases tr)
    case None
    then have "P' = dma_buffer_pool_add b (upd_buffer b (\<lambda>x. x\<lparr>buf_tracker := t1\<rparr>) P)" "s' = s1"
      using run r1 by (simp_all add: uvm_conf_computing_dma_buffer_free_def t)
    then show ?thesis using None l1 R1 by (intro conjI exI[of _ t1]) auto
  next
    case (Some u)
    obtain u1 s2 where r2: "uvm_tracker_remove_completed ops u s1 = (u1, s2)" by (cases "uvm_tracker_remove_completed ops u s1")
    obtain st d u2 where a: "uvm_tracker_add_tracker_safe ops fuel al1 al2 al3 False t1 (Some u1) s2 = Some (st, d, u2, s')"
      and P': "P' = dma_buffer_pool_add b (upd_buffer b (\<lambda>x. x\<lparr>buf_tracker := d\<rparr>) P)"
      using run r1 r2 Some by (auto simp: uvm_conf_computing_dma_buffer_free_def t split: option.splits)
    note l2 = later_remove_completed[OF later_inv[OF l1] r2] and R2 = remove_completed_ok[OF later_inv[OF l1] _ r2]
    note l3 = later_add_tracker_safe[OF later_inv[OF l2] a]
    have "tracker_ok d \<and> demands t \<union> demands u \<subseteq> demands d \<union> finished s'"
      if ok: "tracker_ok t" "fits tr t" "global_status ops s' = NV_OK"
    proof -
      have u: "tracker_ok u" "unat (tsize t1) + unat (tsize u1) \<le> 2 ^ 31"
        using R1(7)[OF ok(1)] R2(7) ok(2) Some by (auto simp: fits_def intro: order_trans[OF add_mono])
      from add_safe_ok[OF later_inv[OF l2] R1(5)[OF ok(1)] R2(5)[OF u(1)] u(2) a] ok(3)
      have D: "tracker_ok d" "demands t1 \<union> demands u1 \<subseteq> demands d \<union> finished s'" by (auto split: if_splits)
      have "finished s1 \<subseteq> finished s'" "finished s2 \<subseteq> finished s'" using l2 l3 by (auto simp: later_def)
      then show ?thesis using D R1(9)[OF ok(1)] R2(9)[OF u(1)] by blast
    qed
    then show ?thesis using Some P' later_trans[OF l1 later_trans[OF l2 l3]] by (intro conjI exI[of _ d]) auto
  qed
qed

end

context sticky_source
begin

text \<open>A buffer given back by the error paths: a global error is set.\<close>

lemma alloc_error_ok:
  assumes "inv s" and "alloc_error ops fuel status b buf out P s = Some (st, buf', out', P', s')"
  shows "st = status \<and> later s s' \<and> (\<exists>d. P' = dma_buffer_pool_add b (upd_buffer b (\<lambda>x. x\<lparr>buf_tracker := d\<rparr>) P))"
proof -
  let ?Q = "upd_buffer b (\<lambda>x. x\<lparr>buf_tracker := uvm_tracker_deinit (buf_tracker x)\<rparr>) P"
  obtain tr where f: "uvm_conf_computing_dma_buffer_free ops fuel None None None (Some b) None ?Q s = Some (tr, P', s')" "st = status"
    using assms(2) by (auto simp: alloc_error_def)
  from free_ok[OF assms(1) f(1) refl] obtain d where "P' = dma_buffer_pool_add b (upd_buffer b (\<lambda>x. x\<lparr>buf_tracker := d\<rparr>) ?Q)" by blast
  then have "P' = dma_buffer_pool_add b (upd_buffer b (\<lambda>x. x\<lparr>buf_tracker := d\<rparr>) P)" by simp
  then show ?thesis using f(2) free_ok[OF assms(1) f(1) refl] by blast
qed

lemma hand_over_ok:
  assumes inv: "inv s" and run: "hand_over_tracker ops fuel al1 al2 al3 out t s = Some (st, out', t', s')"
  shows "later s s'" "tracker_ok t \<Longrightarrow> fits out t \<Longrightarrow>
    if st = NV_OK then tracker_ok t' \<and> demands t \<subseteq> demands t' \<union> finished s' \<and> covers out out' (finished s') else global_status ops s' \<noteq> NV_OK"
proof -
  show "later s s'"
    using run later_wait[OF inv] later_add_tracker_safe[OF inv] by (auto simp: hand_over_tracker_def split: option.splits)
  assume ok: "tracker_ok t" "fits out t"
  show "if st = NV_OK then tracker_ok t' \<and> demands t \<subseteq> demands t' \<union> finished s' \<and> covers out out' (finished s') else global_status ops s' \<noteq> NV_OK"
  proof (cases out)
    case None
    then have "uvm_tracker_wait ops fuel t s = Some (st, t', s')" using run by (auto simp: hand_over_tracker_def)
    from wait_ok[OF inv ok(1) this] None show ?thesis by (auto simp: covers_def)
  next
    case (Some u)
    then obtain u' tt where a: "uvm_tracker_add_tracker_safe ops fuel al1 al2 al3 False u (Some t) s = Some (st, u', tt, s')"
      "out' = Some u'" "t' = the tt" using run by (auto simp: hand_over_tracker_def)
    have o: "tracker_ok u" "unat (tsize u) + unat (tsize t) \<le> 2 ^ 31" using ok(2) Some by (simp_all add: fits_def)
    show ?thesis using add_safe_ok[OF inv o(1) ok(1) o(2) a(1)] Some a by (auto simp: covers_def)
  qed
qed

text \<open>
  The outcome of taking the buffer \<open>b\<close>, whose tracker is \<open>t\<close>, from the pool \<open>P\<close>: the buffer is handed out, or it is back at the tail of the list.
  Without a global error it is handed out, and everything its tracker waited for has completed.
\<close>

definition taken ::
    "'b \<Rightarrow> 'c tracker \<Rightarrow> 'c tracker option \<Rightarrow> ('b, 'c, 'm) dma_pool \<Rightarrow> 's \<Rightarrow>
     NV_STATUS \<times> 'b option \<times> 'c tracker option \<times> ('b, 'c, 'm) dma_pool \<times> 's \<Rightarrow> bool" where
  "taken b t out P s = (\<lambda>(st, buf, out', P', s').
     later s s' \<and>
     (\<exists>f. keeps_mem f \<and> (if st = NV_OK then buf = Some b \<and> P' = upd_buffer b f P else P' = dma_buffer_pool_add b (upd_buffer b f P))) \<and>
     (tracker_ok t \<longrightarrow> fits out t \<longrightarrow> global_status ops s' = NV_OK \<longrightarrow>
        st = NV_OK \<and> demands t \<subseteq> finished s' \<and> covers out out' (finished s') \<and>
        (\<exists>d. tracker_ok d \<and> tsize d = 0 \<and> P' = upd_buffer b (\<lambda>x. x\<lparr>buf_tracker := d, encrypted_page_mask := {}\<rparr>) P)))"

lemma taken_error:
  assumes e: "alloc_error ops fuel sr b o1 o2 (upd_buffer b g P) r = Some res" and r: "later s r" "sr \<noteq> NV_OK" "keeps_mem g"
    and err: "tracker_ok t \<Longrightarrow> fits out t \<Longrightarrow> global_status ops r \<noteq> NV_OK"
  shows "taken b t out P s res"
proof -
  obtain st buf out' P' s' where res: "res = (st, buf, out', P', s')" by (cases res)
  note E = alloc_error_ok[OF later_inv[OF r(1)] e[unfolded res]]
  then obtain d where "P' = dma_buffer_pool_add b (upd_buffer b (\<lambda>x. (g x)\<lparr>buf_tracker := d\<rparr>) P)" by auto
  moreover have "keeps_mem (\<lambda>x. (g x)\<lparr>buf_tracker := d\<rparr>)" using r(3) by (simp add: keeps_mem_def)
  moreover have "later s s'" "st = sr" using E later_trans[OF r(1)] by auto
  moreover have "\<not> (tracker_ok t \<and> fits out t \<and> global_status ops s' = NV_OK)" using err E by (auto simp: later_def)
  ultimately show ?thesis using r(2) by (auto simp: taken_def res)
qed

lemma take_ok:
  assumes inv: "inv s" and free: "free_dma_buffers P = b # bs"
    and run: "take_buffer ops fuel gpu al1 al2 al3 out P s = Some res"
  shows "taken b (buf_tracker (the (dma_buffers P b))) out (P\<lparr>free_dma_buffers := bs\<rparr>) s res"
proof -
  define t where "t = buf_tracker (the (dma_buffers P b))"
  let ?P = "P\<lparr>free_dma_buffers := bs\<rparr>" and ?f = "\<lambda>d x. x\<lparr>buf_tracker := d, encrypted_page_mask := {}\<rparr>"
  have k: "keeps_mem (\<lambda>x. x\<lparr>buf_tracker := d\<rparr>)" "keeps_mem (?f d)" for d by (simp_all add: keeps_mem_def)
  obtain st1 t1 s1 where w1: "uvm_tracker_wait_for_other_gpus ops fuel t gpu s = Some (st1, t1, s1)"
    using run free by (auto simp: take_buffer_def t_def Let_def split: option.splits)
  note run1 = run[unfolded take_buffer_def free list.case Let_def, simplified, unfolded w1[unfolded t_def], simplified]
  note l1 = later_wait_for_other_gpus[OF inv w1] and W1 = wait_for_other_gpus_ok[OF inv _ w1]
  have "taken b t out ?P s res"
  proof (cases "st1 = NV_OK")
    case False
    show ?thesis by (rule taken_error[OF _ l1 False k(1)]) (use run1 False W1 in auto)
  next
    case ok1: True
    obtain st2 out2 t2 s2 where h: "hand_over_tracker ops fuel al1 al2 al3 out t1 s1 = Some (st2, out2, t2, s2)"
      using run1 ok1 by (auto split: option.splits)
    note H = hand_over_ok[OF later_inv[OF l1] h] and run2 = run1[unfolded h ok1, simplified]
    note l2 = later_trans[OF l1 H(1)]
    have T1: "tracker_ok t1" "demands t \<subseteq> demands t1 \<union> finished s1" "fits out t1" if "tracker_ok t" "fits out t"
      using W1[OF that(1)] that(2) ok1 by (auto simp: fits_def split: option.splits)
    show ?thesis
    proof (cases "st2 = NV_OK")
      case False
      show ?thesis by (rule taken_error[OF _ l2 False k(1)]) (use run2 False H(2) T1 in auto)
    next
      case ok2: True
      obtain st3 t3 s3 where w3: "uvm_tracker_wait ops fuel t2 s2 = Some (st3, t3, s3)"
        using run2 ok2 by (auto split: option.splits)
      note l = later_wait[OF later_inv[OF l2] w3] and W3 = wait_ok[OF later_inv[OF l2] _ w3] and run3 = run2[unfolded w3 ok2, simplified]
      have T2: "tracker_ok t2" "demands t1 \<subseteq> demands t2 \<union> finished s2" "covers out out2 (finished s2)" if "tracker_ok t" "fits out t"
        using H(2) T1[OF that] ok2 by simp_all
      show ?thesis
      proof (cases "st3 = NV_OK")
        case False
        show ?thesis by (rule taken_error[OF _ later_trans[OF l2 l] False k(2)]) (use run3 False W3(7) T2 in auto)
      next
        case True
        then have res: "res = (NV_OK, Some b, out2, upd_buffer b (?f t3) ?P, s3)" using run3 by simp
        have mono: "finished s1 \<subseteq> finished s2" "finished s2 \<subseteq> finished s3" using H(1) l by (simp_all add: later_def)
        have "demands t \<subseteq> finished s3 \<and> tracker_ok t3 \<and> tsize t3 = 0 \<and> covers out out2 (finished s3)" if a: "tracker_ok t" "fits out t"
        proof -
          have "demands t \<subseteq> finished s3" using T1(2)[OF a] T2(1,2)[OF a] W3(6)[OF _ True] mono by blast
          moreover have "covers out out2 (finished s3)" using T2(3)[OF a] mono by (auto simp: covers_def split: option.splits)
          ultimately show ?thesis using W3(3,5) T2(1)[OF a] by simp
        qed
        then show ?thesis using later_trans[OF l2 l] k(2)[of t3] by (auto simp: res taken_def)
      qed
    qed
  qed
  then show ?thesis by (simp add: t_def)
qed

end

section \<open>Pending work of the buffers\<close>

text \<open>
  \<open>pending b\<close> is the GPU work that uses the buffer \<open>b\<close>: pairs of a channel and a value, as in \<open>demands\<close>. The work of a free buffer is covered when its
  tracker waits for what is not in \<open>fin\<close>.
\<close>

definition covered :: "('b \<Rightarrow> ('c \<times> NvU64) set) \<Rightarrow> ('b, 'c, 'm) dma_pool \<Rightarrow> ('c \<times> NvU64) set \<Rightarrow> bool" where
  "covered pending P fin \<longleftrightarrow> (\<forall>b x. dma_buffers P b = Some x \<longrightarrow> tracker_ok (buf_tracker x) \<and>
     (b \<in> set (free_dma_buffers P) \<longrightarrow> pending b \<subseteq> demands (buf_tracker x) \<union> fin))"

lemma coveredD:
  assumes "covered pending P fin" "b \<in> dom (dma_buffers P)"
  shows "tracker_ok (buf_tracker (the (dma_buffers P b)))"
    "b \<in> set (free_dma_buffers P) \<Longrightarrow> pending b \<subseteq> demands (buf_tracker (the (dma_buffers P b))) \<union> fin"
  using assms by (auto simp: covered_def) blast

lemma covered_mono: "covered pending P fin \<Longrightarrow> fin \<subseteq> fin' \<Longrightarrow> covered pending P fin'"
  unfolding covered_def by blast

text \<open>A new tracker for one buffer, which may be or become free.\<close>

lemma covered_upd:
  assumes cov: "covered pending P fin" and fin: "fin \<subseteq> fin'" and d: "tracker_ok d"
    and f: "\<And>x. buf_tracker (f x) = d" and free: "set (free_dma_buffers P') \<subseteq> insert b (set (free_dma_buffers P))"
    and bufs: "dma_buffers P' = dma_buffers (upd_buffer b f P)"
    and b: "b \<in> set (free_dma_buffers P') \<Longrightarrow> pending b \<subseteq> demands d \<union> fin'"
  shows "covered pending P' fin'"
  unfolding covered_def
proof (intro allI impI)
  fix c x assume x: "dma_buffers P' c = Some x"
  show "tracker_ok (buf_tracker x) \<and> (c \<in> set (free_dma_buffers P') \<longrightarrow> pending c \<subseteq> demands (buf_tracker x) \<union> fin')"
  proof (cases "c = b")
    case True
    then show ?thesis using x d f b by (auto simp: bufs)
  next
    case False
    then have "dma_buffers P c = Some x" "c \<in> set (free_dma_buffers P') \<Longrightarrow> c \<in> set (free_dma_buffers P)" using x free by (auto simp: bufs)
    then show ?thesis using cov fin unfolding covered_def by blast
  qed
qed

text \<open>Nothing is pending on a structure that is not yet a buffer.\<close>

definition unused :: "('b \<Rightarrow> ('c \<times> NvU64) set) \<Rightarrow> ('b, 'c, 'm) dma_pool \<Rightarrow> bool" where
  "unused pending P \<longleftrightarrow> (\<forall>b. dma_buffers P b = None \<longrightarrow> pending b = {})"

definition fresh_outcomes :: "(nat \<Rightarrow> ('b, 'm) create_outcome) \<Rightarrow> ('b, 'c, 'm) dma_pool \<Rightarrow> bool" where
  "fresh_outcomes outcomes P \<longleftrightarrow>
     (\<forall>k k' b. struct_outcome (outcomes k) = Some b \<longrightarrow> dma_buffers P b = None \<and> (struct_outcome (outcomes k') = Some b \<longrightarrow> k = k'))"

lemma new_tracker [simp]: "tracker_ok (buf_tracker (new_buffer i j))"
  by (simp add: new_buffer_def tracker_ok_def uvm_tracker_init_def used_def)

definition keeps_covered :: "('b, 'c, 'm) dma_pool \<Rightarrow> ('b, 'c, 'm) dma_pool \<Rightarrow> bool" where
  "keeps_covered P P' \<longleftrightarrow> (\<forall>pending. unused pending P \<longrightarrow> unused pending P' \<and> (\<forall>fin. covered pending P fin \<longrightarrow> covered pending P' fin))"

lemma keeps_covered_refl [simp]: "keeps_covered P P" by (simp add: keeps_covered_def)

lemma keeps_covered_added:
  assumes new: "added new P P'"
  shows "keeps_covered P P'"
  unfolding keeps_covered_def
proof (intro allI impI conjI)
  fix pending assume un: "unused pending P"
  have "pending b = {}" if "dma_buffers P' b = None" for b
    using that un new by (cases "b \<in> set new") (auto simp: added_def unused_def)
  then show "unused pending P'" by (simp add: unused_def)
  fix fin assume cov: "covered pending P fin"
  have "tracker_ok (buf_tracker x) \<and> (b \<in> set (free_dma_buffers P') \<longrightarrow> pending b \<subseteq> demands (buf_tracker x) \<union> fin)"
    if "dma_buffers P' b = Some x" for b x
  proof (cases "b \<in> set new")
    case True
    then show ?thesis using that un new by (fastforce simp: added_def unused_def)
  next
    case False
    then show ?thesis using that cov new by (auto simp: added_def covered_def)
  qed
  then show "covered pending P' fin" by (simp add: covered_def)
qed

lemma keeps_covered_cong:
  "dma_buffers Q = dma_buffers P \<Longrightarrow> free_dma_buffers Q = free_dma_buffers P \<Longrightarrow> keeps_covered R Q \<longleftrightarrow> keeps_covered R P"
  "dma_buffers Q = dma_buffers P \<Longrightarrow> free_dma_buffers Q = free_dma_buffers P \<Longrightarrow> keeps_covered Q R \<longleftrightarrow> keeps_covered P R"
  by (simp_all add: keeps_covered_def covered_def unused_def)

text \<open>Creating buffers in a row.\<close>

lemma create_loop_fresh:
  assumes "pool_shape base held P" "fresh_outcomes outcomes P" "0 < fuel"
  obtains st new P' where "create_loop ops fuel outcomes 0 n P s = Some (st, length new, P', s)" "length new \<le> n"
    "st = NV_OK \<longleftrightarrow> length new = n" "added new P P'" "pool_shape base held P'"
    "st \<noteq> NV_OK \<Longrightarrow> new = [] \<Longrightarrow> dma_buffer_create ops fuel (outcomes 0) P s = Some (st, None, P, s)"
proof -
  obtain k where k: "fuel = Suc k" using assms(3) by (cases fuel) auto
  have "\<exists>st new P'. create_loop ops (Suc k) outcomes 0 n P s = Some (st, 0 + length new, P', s) \<and> length new \<le> n \<and>
      (st = NV_OK \<longleftrightarrow> length new = n) \<and> added new P P' \<and> pool_shape base held P' \<and>
      (st \<noteq> NV_OK \<longrightarrow> new = [] \<longrightarrow> dma_buffer_create ops (Suc k) (outcomes 0) P s = Some (st, None, P, s))"
    by (rule create_loop_ok[OF _ assms(1)]) (use assms(2) in \<open>auto simp: fresh_outcomes_def\<close>)
  then show ?thesis using that k by auto
qed

lemma expand_ok:
  assumes ok: "dma_pool_ok base held P" "0 < num_dma_buffers P" "fresh_outcomes outcomes P" "0 < fuel"
  obtains st new P' where "dma_buffer_pool_expand_locked ops fuel outcomes P s = Some (st, P', s)" "dma_pool_ok base held P'"
    "free_dma_buffers P' = free_dma_buffers P @ new" "st = NV_OK \<longleftrightarrow> new \<noteq> []" "num_dma_buffers P \<le> num_dma_buffers P'"
    "keeps_covered P P'" "\<forall>b\<in>set new. \<exists>i j. dma_buffers P' b = Some (new_buffer i j)"
    "st \<noteq> NV_OK \<Longrightarrow> dma_buffer_create ops fuel (outcomes 0) P s = Some (st, None, P, s)"
proof -
  have shape0: "pool_shape base held P" using ok(1) by (simp add: dma_pool_ok_def)
  obtain st new Q where c: "create_loop ops fuel outcomes 0 (num_dma_buffers P) P s = Some (st, length new, Q, s)" "st = NV_OK \<longleftrightarrow> length new = num_dma_buffers P"
    "added new P Q" "pool_shape base held Q" "st \<noteq> NV_OK \<Longrightarrow> new = [] \<Longrightarrow> dma_buffer_create ops fuel (outcomes 0) P s = Some (st, None, P, s)"
    using create_loop_fresh[OF shape0 ok(3,4), of ops "num_dma_buffers P" s] by blast
  let ?Q = "Q\<lparr>num_dma_buffers := num_dma_buffers Q + length new\<rparr>"
  have run: "dma_buffer_pool_expand_locked ops fuel outcomes P s = Some (if length new = 0 then st else NV_OK, ?Q, s)"
    using c(1) by (simp add: dma_buffer_pool_expand_locked_def)
  have shape: "dma_pool_ok base held ?Q" using c(3,4) ok(1) by (simp add: dma_pool_ok_def pool_shape_def added_def)
  have cov: "keeps_covered P ?Q" using keeps_covered_added[OF c(3)] keeps_covered_cong(1)[of ?Q Q P] by simp
  show ?thesis by (rule that[OF run shape _ _ _ cov, of new]) (use c(2,3,5) ok(2) in \<open>auto simp: added_def split: if_splits\<close>)
qed

context sticky_source
begin

text \<open>Allocating a buffer: it is taken from the head of the list, which is not empty.\<close>

lemma alloc_ok:
  assumes ok: "inv s" "dma_pool_ok base held P" "0 < num_dma_buffers P" "fresh_outcomes outcomes P" "0 < fuel"
    and run: "uvm_conf_computing_dma_buffer_alloc ops fuel gpu outcomes al1 al2 al3 out P s = Some res"
  obtains (empty) st Q where "res = (st, None, out, Q, s)" "st \<noteq> NV_OK" "free_dma_buffers P = []" "dma_pool_ok base held Q" "0 < num_dma_buffers Q"
      "keeps_covered P Q" "dma_buffer_create ops fuel (outcomes 0) P s = Some (st, None, P, s)"
  | (taken) b bs Q where "dma_pool_ok base held Q" "0 < num_dma_buffers Q" "free_dma_buffers Q = b # bs"
      "keeps_covered P Q"
      "taken b (buf_tracker (the (dma_buffers Q b))) out (Q\<lparr>free_dma_buffers := bs\<rparr>) s res"
proof (cases "free_dma_buffers P")
  case Nil
  obtain st new Q where e: "dma_buffer_pool_expand_locked ops fuel outcomes P s = Some (st, Q, s)" "dma_pool_ok base held Q"
    "free_dma_buffers Q = free_dma_buffers P @ new" "st = NV_OK \<longleftrightarrow> new \<noteq> []" "num_dma_buffers P \<le> num_dma_buffers Q"
    "keeps_covered P Q" "st \<noteq> NV_OK \<Longrightarrow> dma_buffer_create ops fuel (outcomes 0) P s = Some (st, None, P, s)"
    by (rule expand_ok[OF ok(2-5), where ops = ops and s = s]) (rule that)
  show ?thesis
  proof (cases "st = NV_OK")
    case True
    then obtain b bs where b: "free_dma_buffers Q = b # bs" using e(3,4) Nil by (cases new) auto
    have "take_buffer ops fuel gpu al1 al2 al3 out Q s = Some res" using run Nil e(1) True by (simp add: uvm_conf_computing_dma_buffer_alloc_def)
    then show ?thesis using taken[OF e(2) _ b e(6)] take_ok[OF ok(1) b] ok(3) e(5) by simp
  next
    case False
    then have "res = (st, None, out, Q, s)" using run Nil e(1) by (simp add: uvm_conf_computing_dma_buffer_alloc_def)
    then show ?thesis using empty[OF _ False Nil e(2) _ e(6) e(7)[OF False]] ok(3) e(5) by simp
  qed
next
  case (Cons b bs)
  then have "take_buffer ops fuel gpu al1 al2 al3 out P s = Some res" using run by (simp add: uvm_conf_computing_dma_buffer_alloc_def)
  then show ?thesis using taken[OF ok(2,3) Cons keeps_covered_refl] take_ok[OF ok(1) Cons] by simp
qed

text \<open>Synchronising the pool keeps its structure, and its pending work covered.\<close>

lemma sync_ok:
  assumes "inv s" and "sync_loop ops fuel bs P s = Some (P', s')"
  shows "later s s' \<and> free_dma_buffers P' = free_dma_buffers P \<and> num_dma_buffers P' = num_dma_buffers P \<and> mem_balance P' = mem_balance P \<and>
    (\<forall>b. map_option buf_alloc (dma_buffers P' b) = map_option buf_alloc (dma_buffers P b) \<and>
         map_option buf_auth_tag (dma_buffers P' b) = map_option buf_auth_tag (dma_buffers P b)) \<and>
    (global_status ops s' = NV_OK \<longrightarrow> set bs \<subseteq> dom (dma_buffers P) \<longrightarrow> covered pending P (finished s) \<longrightarrow> covered pending P' (finished s'))"
  using assms
proof (induction bs arbitrary: P s)
  case (Cons b bs)
  let ?t = "buf_tracker (the (dma_buffers P b))"
  obtain st t s1 where w: "uvm_tracker_wait ops fuel ?t s = Some (st, t, s1)" using Cons.prems(2) by (auto split: option.splits)
  let ?P = "upd_buffer b (\<lambda>x. x\<lparr>buf_tracker := t\<rparr>) P"
  note l = later_wait[OF Cons.prems(1) w]
  have r: "sync_loop ops fuel bs ?P s1 = Some (P', s')" using Cons.prems(2) w by simp
  note I = Cons.IH[OF later_inv[OF l] r]
  have "covered pending ?P (finished s1)"
    if s': "global_status ops s' = NV_OK" and b: "b \<in> dom (dma_buffers P)" and cov: "covered pending P (finished s)"
  proof -
    have t: "tracker_ok ?t" using coveredD(1)[OF cov b] .
    note W = wait_ok[OF Cons.prems(1) t w]
    have "global_status ops s1 = NV_OK" using I s' by (auto simp: later_def)
    then have dem: "demands ?t \<subseteq> finished s1" using W(6,7) by blast
    have "pending b \<subseteq> demands t \<union> finished s1" if "b \<in> set (free_dma_buffers P)"
    proof -
      have "pending b \<subseteq> demands ?t \<union> finished s" using coveredD(2)[OF cov b that] .
      then show ?thesis using dem W(2) by blast
    qed
    then show ?thesis by (intro covered_upd[OF cov W(2,3), where f = "\<lambda>x. x\<lparr>buf_tracker := t\<rparr>" and b = b]) auto
  qed
  then show ?case using I later_trans[OF l] by (auto simp: option.map_comp comp_def)
qed (simp add: later_refl)

end

section \<open>The pool in use\<close>

text \<open>
  The pool of a GPU with the channels, the buffers handed out and the work pending on each buffer. Threads allocate buffers, push work that uses the buffers they hold
  and free them; by the contract of freeing, the tracker passed waits for the work pushed, and no tracker means that there is none left. Another thread may synchronise
  the pool, and the channels make progress. An operation is one step: the lock of the pool protects the list, and a buffer outside of it has one user.
\<close>

record ('b, 'c, 'm, 'g) pool_system =
  sys_pool :: "('b, 'c, 'm) dma_pool"
  sys_world :: "('c, 'g) channels"
  sys_held :: "'b set"
  sys_pending :: "'b \<Rightarrow> ('c \<times> NvU64) set"

definition opt_demands :: "'c tracker option \<Rightarrow> ('c \<times> NvU64) set" where
  "opt_demands tr = (case tr of None \<Rightarrow> {} | Some u \<Rightarrow> demands u)"

inductive pool_step :: "('c \<Rightarrow> 'g) \<Rightarrow> 'g \<Rightarrow> ('b, 'c, 'm, 'g) pool_system \<Rightarrow> ('b, 'c, 'm, 'g) pool_system \<Rightarrow> bool"
  for gpu_of :: "'c \<Rightarrow> 'g" and gpu :: 'g
where
  step_alloc: "pool_step gpu_of gpu S (S\<lparr>sys_pool := P, sys_world := w, sys_held := (if st = NV_OK then insert (the buf) (sys_held S) else sys_held S)\<rparr>)"
    if "uvm_conf_computing_dma_buffer_alloc (uvm_channel_ops TYPE('g) gpu_of) fuel gpu outcomes al1 al2 al3 out (sys_pool S) (sys_world S) = Some (st, buf, out', P, w)"
      "0 < fuel" "fresh_outcomes outcomes (sys_pool S)" "\<forall>u. out = Some u \<longrightarrow> tracker_ok u"
| step_push: "pool_step gpu_of gpu S (S\<lparr>sys_pending := (sys_pending S)(b := sys_pending S b \<union> W)\<rparr>)" if "b \<in> sys_held S"
| step_free: "pool_step gpu_of gpu S (S\<lparr>sys_pool := P, sys_world := w, sys_held := sys_held S - {b}\<rparr>)"
    if "uvm_conf_computing_dma_buffer_free (uvm_channel_ops TYPE('g) gpu_of) fuel al1 al2 al3 (Some b) tr (sys_pool S) (sys_world S) = Some (tr', P, w)"
      "b \<in> sys_held S" "\<forall>u. tr = Some u \<longrightarrow> tracker_ok u" "sys_pending S b \<subseteq> opt_demands tr \<union> completed_pairs (sys_world S)"
| step_sync: "pool_step gpu_of gpu S (S\<lparr>sys_pool := P, sys_world := w\<rparr>)"
    if "uvm_conf_computing_dma_buffer_pool_sync (uvm_channel_ops TYPE('g) gpu_of) fuel (sys_pool S) (sys_world S) = Some (P, w)"
| step_channels: "pool_step gpu_of gpu S (S\<lparr>sys_world := w\<rparr>)"
    if "channels_ok w" "completed_pairs (sys_world S) \<subseteq> completed_pairs w" "fatal_error (sys_world S) \<noteq> NV_OK \<longrightarrow> fatal_error w \<noteq> NV_OK"

inductive pool_reachable :: "('c \<Rightarrow> 'g) \<Rightarrow> 'g \<Rightarrow> ('m \<Rightarrow> int) \<Rightarrow> ('b, 'c, 'm, 'g) pool_system \<Rightarrow> bool"
  for gpu_of :: "'c \<Rightarrow> 'g" and gpu :: 'g and base :: "'m \<Rightarrow> int"
where
  reach_init: "pool_reachable gpu_of gpu base \<lparr>sys_pool = P, sys_world = w, sys_held = {}, sys_pending = (\<lambda>_. {})\<rparr>"
    if "conf_computing_dma_buffer_pool_init (uvm_channel_ops TYPE('g) gpu_of) fuel outcomes P0 w0 = Some (NV_OK, P, w)"
      "channels_ok w0" "dma_buffers P0 = Map.empty" "mem_balance P0 = base" "fresh_outcomes outcomes P0" "0 < fuel"
| reach_step: "pool_reachable gpu_of gpu base S'" if "pool_reachable gpu_of gpu base S" "pool_step gpu_of gpu S S'"

text \<open>The invariant: the structure of the pool, and, as long as there is no global error, that the pending work of the free buffers is covered.\<close>

definition system_ok :: "('m \<Rightarrow> int) \<Rightarrow> ('b, 'c, 'm, 'g) pool_system \<Rightarrow> bool" where
  "system_ok base S \<longleftrightarrow> channels_ok (sys_world S) \<and> dma_pool_ok base (sys_held S) (sys_pool S) \<and> 0 < num_dma_buffers (sys_pool S) \<and>
     unused (sys_pending S) (sys_pool S) \<and>
     (fatal_error (sys_world S) = NV_OK \<longrightarrow> covered (sys_pending S) (sys_pool S) (completed_pairs (sys_world S)))"

lemma fits_card: "CARD('c::finite) \<le> 2 ^ 30 \<Longrightarrow> tracker_ok t \<Longrightarrow> (\<forall>u. out = Some u \<longrightarrow> tracker_ok u) \<Longrightarrow> fits out (t :: 'c tracker)"
  using tracker_size_card[of t] tracker_size_card[of "the out"] by (auto simp: fits_def split: option.splits)

subsection \<open>Initialisation\<close>

text \<open>An initialised pool has 32 buffers; after a failure there is none, and all memory is returned.\<close>

lemma pool_init_ok:
  assumes P0: "dma_buffers P0 = Map.empty" "mem_balance P0 = base" and fresh: "fresh_outcomes outcomes P0" and fuel: "0 < fuel"
  obtains (ok) P where "conf_computing_dma_buffer_pool_init ops fuel outcomes P0 s = Some (NV_OK, P, s)" "dma_pool_ok base {} P"
      "num_dma_buffers P = 32" "keeps_covered (P0\<lparr>free_dma_buffers := []\<rparr>) P"
      "\<forall>b\<in>set (free_dma_buffers P). tsize (buf_tracker (the (dma_buffers P b))) = 0"
  | (fail) st n P where "conf_computing_dma_buffer_pool_init ops fuel outcomes P0 s = Some (st, P, s)" "st \<noteq> NV_OK" "n < 32"
      "P = P0\<lparr>free_dma_buffers := [], num_dma_buffers := 32 - n\<rparr>"
      "\<exists>P'. create_loop ops fuel outcomes 0 32 (P0\<lparr>free_dma_buffers := [], num_dma_buffers := 32\<rparr>) s = Some (st, n, P', s)"
proof -
  let ?P = "P0\<lparr>free_dma_buffers := [], num_dma_buffers := 32\<rparr>"
  have shape: "pool_shape base {} ?P" and fresh': "fresh_outcomes outcomes ?P" using P0 fresh by (simp_all add: pool_shape_def fresh_outcomes_def)
  obtain st new Q where c: "create_loop ops fuel outcomes 0 32 ?P s = Some (st, length new, Q, s)" "length new \<le> 32"
    "st = NV_OK \<longleftrightarrow> length new = 32" "added new ?P Q" "pool_shape base {} Q" using create_loop_fresh[OF shape fresh' fuel, of ops 32 s] by blast
  have Q: "free_dma_buffers Q = new" "num_dma_buffers Q = 32" using c(4) by (simp_all add: added_def)
  have idle: "tsize (buf_tracker (the (dma_buffers Q b))) = 0" if "b \<in> set new" for b
    using c(4) that by (auto simp: added_def new_buffer_def uvm_tracker_init_def)
  show ?thesis
  proof (cases "st = NV_OK")
    case True
    then have "conf_computing_dma_buffer_pool_init ops fuel outcomes P0 s = Some (NV_OK, Q, s)"
      using c(1,3) by (simp add: conf_computing_dma_buffer_pool_init_def)
    moreover have "dma_pool_ok base {} Q" using c(3,5) Q True by (simp add: dma_pool_ok_def)
    moreover have "keeps_covered (P0\<lparr>free_dma_buffers := []\<rparr>) Q"
      using keeps_covered_added[OF c(4)] keeps_covered_cong(2)[of ?P "P0\<lparr>free_dma_buffers := []\<rparr>" Q] by simp
    ultimately show ?thesis using ok Q idle by blast
  next
    case False
    obtain k where k: "fuel = Suc k" using fuel by (cases fuel) auto
    obtain P where P: "deinit_loop ops fuel new Q s = Some (P, s)" using deinit_loop_idle[OF c(5) Q(1) idle, of ops k s] k by blast
    from deinit_loop_shape[OF c(5) Q(1) P]
    have R: "pool_shape base {} P" "free_dma_buffers P = []" "num_dma_buffers P = 32 - length new" using Q(2) by simp_all
    then have d: "dom (dma_buffers P) = {}" by (simp add: pool_shape_def)
    then have "dma_buffers P = Map.empty" by (simp add: dom_eq_empty_conv)
    moreover have "mem_balance P = base" using R(1) unfolding pool_shape_def d by (simp add: fun_eq_iff)
    ultimately have "P = P0\<lparr>free_dma_buffers := [], num_dma_buffers := 32 - length new\<rparr>" using R(2,3) P0 by simp
    moreover have "conf_computing_dma_buffer_pool_init ops fuel outcomes P0 s = Some (st, P, s)"
      using c(1,2,3) False P Q by (simp add: conf_computing_dma_buffer_pool_init_def conf_computing_dma_buffer_pool_deinit_def)
    ultimately show ?thesis using fail[of st P "length new"] False c(1,2,3) by force
  qed
qed

subsection \<open>The steps keep the invariant\<close>

lemma shape_upd:
  assumes "pool_shape base h P" "keeps_mem f" "dma_buffers P' = dma_buffers (upd_buffer b f P)" "mem_balance P' = mem_balance P" "distinct (free_dma_buffers P')"
    "set (free_dma_buffers P') \<inter> h' = {}" "set (free_dma_buffers P') \<union> h' = set (free_dma_buffers P) \<union> h"
  shows "pool_shape base h' P'"
  by (rule shape_move[OF assms(1,4-7)]) (use assms(2,3) in \<open>auto simp: option.map_comp comp_def keeps_mem_def\<close>)

lemma alloc_step_ok:
  fixes S :: "('b, 'c::finite, 'm, 'g) pool_system" and gpu_of :: "'c \<Rightarrow> 'g"
  assumes card: "CARD('c) \<le> 2 ^ 30" and S: "system_ok base S" "0 < fuel" "fresh_outcomes outcomes (sys_pool S)" "\<forall>u. out = Some u \<longrightarrow> tracker_ok u"
    and run: "uvm_conf_computing_dma_buffer_alloc (uvm_channel_ops TYPE('g) gpu_of) fuel gpu outcomes al1 al2 al3 out (sys_pool S) (sys_world S) = Some (st, buf, out', P, w)"
  shows "system_ok base (S\<lparr>sys_pool := P, sys_world := w, sys_held := (if st = NV_OK then insert (the buf) (sys_held S) else sys_held S)\<rparr>) \<and>
    (st = NV_OK \<longrightarrow> (\<exists>b x. buf = Some b \<and> b \<notin> sys_held S \<and> dma_buffers P b = Some x \<and>
       (fatal_error w = NV_OK \<longrightarrow> sys_pending S b \<subseteq> completed_pairs w \<and> tsize (buf_tracker x) = 0 \<and> encrypted_page_mask x = {} \<and>
          covers out out' (completed_pairs w)))) \<and>
    (st \<noteq> NV_OK \<longrightarrow> fatal_error w \<noteq> NV_OK \<or> free_dma_buffers (sys_pool S) = [] \<and>
       dma_buffer_create (uvm_channel_ops TYPE('g) gpu_of) fuel (outcomes 0) (sys_pool S) (sys_world S) = Some (st, None, sys_pool S, sys_world S))"
proof -
  have inv: "channels_ok (sys_world S)" "dma_pool_ok base (sys_held S) (sys_pool S)" "0 < num_dma_buffers (sys_pool S)" "unused (sys_pending S) (sys_pool S)"
    using S(1) by (simp_all add: system_ok_def)
  show ?thesis
  proof (cases rule: sticky_channels.alloc_ok[OF inv(1-3) S(3,2) run])
    case (1 st' Q)
    then show ?thesis using S(1) by (auto simp: system_ok_def keeps_covered_def)
  next
    case taken: (2 b bs Q)
    let ?Q = "Q\<lparr>free_dma_buffers := bs\<rparr>" and ?t = "buf_tracker (the (dma_buffers Q b))"
    note T = taken(5)[unfolded sticky_channels.taken_def prod.case later_channels finished_eq, simplified uvm_channel_ops_def channel_ops.simps]
    have shape: "pool_shape base (sys_held S) Q" "num_dma_buffers Q = Suc (length bs) + card (sys_held S)" using taken(1,3) by (simp_all add: dma_pool_ok_def)
    have b: "b \<notin> set bs" "distinct bs" "b \<notin> sys_held S" "set bs \<inter> sys_held S = {}" "finite (sys_held S)" "b \<in> dom (dma_buffers Q)"
      using shape(1) taken(3) by (auto simp: pool_shape_def)
    have un: "unused (sys_pending S) Q" using taken(4) inv(4) by (simp add: keeps_covered_def)
    obtain f where f: "keeps_mem f" "if st = NV_OK then buf = Some b \<and> P = upd_buffer b f ?Q else P = dma_buffer_pool_add b (upd_buffer b f ?Q)" using T by blast
    have w: "channels_ok w" "completed_pairs (sys_world S) \<subseteq> completed_pairs w" "fatal_error (sys_world S) \<noteq> NV_OK \<Longrightarrow> fatal_error w \<noteq> NV_OK" using T by auto
    have P: "dma_buffers P = dma_buffers (upd_buffer b f Q)" "mem_balance P = mem_balance Q" "num_dma_buffers P = num_dma_buffers Q"
      "free_dma_buffers P = (if st = NV_OK then bs else bs @ [b])" using f(2) by (auto simp: dma_buffer_pool_add_def upd_buffer_def split: if_splits)
    have "pool_shape base (if st = NV_OK then insert b (sys_held S) else sys_held S) P"
      by (rule shape_upd[OF shape(1) f(1) P(1,2)]) (use b P(4) taken(3) in \<open>auto split: if_splits\<close>)
    then have pool: "dma_pool_ok base (if st = NV_OK then insert b (sys_held S) else sys_held S) P" using shape(2) P(3,4) b by (simp add: dma_pool_ok_def)
    have un: "unused (sys_pending S) P" using taken(4) inv(4) P(1) by (auto simp: keeps_covered_def unused_def split: if_splits)
    have clean: "st = NV_OK \<and> sys_pending S b \<subseteq> completed_pairs w \<and> covers out out' (completed_pairs w) \<and> covered (sys_pending S) P (completed_pairs w) \<and>
        tsize (buf_tracker (the (dma_buffers P b))) = 0 \<and> encrypted_page_mask (the (dma_buffers P b)) = {}" if e: "fatal_error w = NV_OK"
    proof -
      have cov: "covered (sys_pending S) Q (completed_pairs (sys_world S))"
        using S(1) w(3) e taken(4) by (auto simp: system_ok_def keeps_covered_def)
      have t: "tracker_ok ?t" "sys_pending S b \<subseteq> demands ?t \<union> completed_pairs (sys_world S)" using coveredD[OF cov b(6)] taken(3) by simp_all
      from T t(1) fits_card[OF card t(1) S(4)] e obtain d where d: "st = NV_OK" "demands ?t \<subseteq> completed_pairs w" "covers out out' (completed_pairs w)"
        "tracker_ok d" "tsize d = 0" "P = upd_buffer b (\<lambda>x. x\<lparr>buf_tracker := d, encrypted_page_mask := {}\<rparr>) ?Q" by blast
      have "covered (sys_pending S) P (completed_pairs w)"
        by (rule covered_upd[OF cov w(2) d(4), where f = "\<lambda>x. x\<lparr>buf_tracker := d, encrypted_page_mask := {}\<rparr>" and b = b])
          (use d b(1) taken(3) in \<open>auto simp: upd_buffer_def\<close>)
      moreover have "sys_pending S b \<subseteq> completed_pairs w" using t(2) d(2) w(2) by blast
      ultimately show ?thesis using d b(6) by auto
    qed
    have "system_ok base (S\<lparr>sys_pool := P, sys_world := w, sys_held := (if st = NV_OK then insert (the buf) (sys_held S) else sys_held S)\<rparr>)"
      using w(1) pool P(3) taken(2) un clean f(2) by (auto simp: system_ok_def split: if_splits)
    moreover have "\<exists>x. dma_buffers P b = Some x" using b(6) P(1) by auto
    ultimately show ?thesis using f(2) b(3) clean by auto
  qed
qed

lemma system_okD:
  assumes "system_ok base S"
  shows "channels_ok (sys_world S)" "pool_shape base (sys_held S) (sys_pool S)" "unused (sys_pending S) (sys_pool S)"
    "num_dma_buffers (sys_pool S) = length (free_dma_buffers (sys_pool S)) + card (sys_held S)" "0 < num_dma_buffers (sys_pool S)"
  using assms unfolding system_ok_def dma_pool_ok_def by blast+

lemma free_step_ok:
  fixes S :: "('b, 'c::finite, 'm, 'g) pool_system" and gpu_of :: "'c \<Rightarrow> 'g"
  assumes card: "CARD('c) \<le> 2 ^ 30" and S: "system_ok base S"
    and run: "uvm_conf_computing_dma_buffer_free (uvm_channel_ops TYPE('g) gpu_of) fuel al1 al2 al3 (Some b) tr (sys_pool S) (sys_world S) = Some (tr', P, w)"
    and b: "b \<in> sys_held S" and tr: "\<forall>u. tr = Some u \<longrightarrow> tracker_ok u" and pend: "sys_pending S b \<subseteq> opt_demands tr \<union> completed_pairs (sys_world S)"
  shows "system_ok base (S\<lparr>sys_pool := P, sys_world := w, sys_held := sys_held S - {b}\<rparr>)"
proof -
  let ?Q = "sys_pool S" and ?t = "buf_tracker (the (dma_buffers (sys_pool S) b))"
  note inv = system_okD[OF S]
  have h: "finite (sys_held S)" "b \<notin> set (free_dma_buffers ?Q)" "distinct (free_dma_buffers ?Q)" "b \<in> dom (dma_buffers ?Q)"
    "set (free_dma_buffers ?Q) \<inter> sys_held S = {}" using inv(2) b by (auto simp: pool_shape_def)
  note F = sticky_channels.free_ok[OF inv(1) run refl, unfolded later_channels finished_eq, folded opt_demands_def]
  then obtain d where d: "P = dma_buffer_pool_add b (upd_buffer b (\<lambda>x. x\<lparr>buf_tracker := d\<rparr>) ?Q)"
    "tracker_ok ?t \<Longrightarrow> fits tr ?t \<Longrightarrow> fatal_error w = NV_OK \<Longrightarrow> tracker_ok d \<and> demands ?t \<union> opt_demands tr \<subseteq> demands d \<union> completed_pairs w"
    by (auto simp: uvm_channel_ops_def)
  have w: "channels_ok w" "completed_pairs (sys_world S) \<subseteq> completed_pairs w" "fatal_error (sys_world S) \<noteq> NV_OK \<Longrightarrow> fatal_error w \<noteq> NV_OK" using F by auto
  have P: "dma_buffers P = dma_buffers (upd_buffer b (\<lambda>x. x\<lparr>buf_tracker := d\<rparr>) ?Q)" "mem_balance P = mem_balance ?Q" "num_dma_buffers P = num_dma_buffers ?Q"
    "free_dma_buffers P = free_dma_buffers ?Q @ [b]" by (simp_all add: d(1) dma_buffer_pool_add_def upd_buffer_def)
  have "keeps_mem (\<lambda>x. x\<lparr>buf_tracker := d\<rparr>)" by (simp add: keeps_mem_def)
  then have "pool_shape base (sys_held S - {b}) P" by (rule shape_upd[OF inv(2) _ P(1,2)]) (use h b P(4) in auto)
  moreover have "Suc (card (sys_held S - {b})) = card (sys_held S)" using card_Suc_Diff1[OF h(1) b] .
  ultimately have pool: "dma_pool_ok base (sys_held S - {b}) P" using inv(4) P(3,4) by (simp add: dma_pool_ok_def)
  have "covered (sys_pending S) P (completed_pairs w)" if e: "fatal_error w = NV_OK"
  proof -
    have cov: "covered (sys_pending S) ?Q (completed_pairs (sys_world S))" using S w(3) e by (auto simp: system_ok_def)
    have t: "tracker_ok ?t" using coveredD(1)[OF cov h(4)] .
    note D = d(2)[OF t fits_card[OF card t tr] e]
    have "sys_pending S b \<subseteq> demands d \<union> completed_pairs w" using D pend w(2) by blast
    then show ?thesis
      by (intro covered_upd[OF cov w(2), where d = d and f = "\<lambda>x. x\<lparr>buf_tracker := d\<rparr>" and b = b]) (use D P(1,4) in auto)
  qed
  moreover have "unused (sys_pending S) P" using inv(3) P(1) by (auto simp: unused_def split: if_splits)
  ultimately show ?thesis using w(1) pool P(3) inv(5) by (simp add: system_ok_def)
qed

lemma sync_step_ok:
  fixes S :: "('b, 'c, 'm, 'g) pool_system" and gpu_of :: "'c \<Rightarrow> 'g"
  assumes S: "system_ok base S"
    and run: "uvm_conf_computing_dma_buffer_pool_sync (uvm_channel_ops TYPE('g) gpu_of) fuel (sys_pool S) (sys_world S) = Some (P, w)"
  shows "system_ok base (S\<lparr>sys_pool := P, sys_world := w\<rparr>)"
proof -
  let ?Q = "sys_pool S"
  note inv = system_okD[OF S]
  have r: "sync_loop (uvm_channel_ops TYPE('g) gpu_of) fuel (free_dma_buffers ?Q) ?Q (sys_world S) = Some (P, w)"
    using run inv(5) by (simp add: uvm_conf_computing_dma_buffer_pool_sync_def)
  note F = sticky_channels.sync_ok[OF inv(1) r, of "sys_pending S", unfolded later_channels finished_eq]
  have w: "channels_ok w" "fatal_error (sys_world S) \<noteq> NV_OK \<Longrightarrow> fatal_error w \<noteq> NV_OK" using F by auto
  have P: "free_dma_buffers P = free_dma_buffers ?Q" "num_dma_buffers P = num_dma_buffers ?Q" "mem_balance P = mem_balance ?Q" using F by auto
  have bufs: "map_option buf_alloc (dma_buffers P b) = map_option buf_alloc (dma_buffers ?Q b)"
    "map_option buf_auth_tag (dma_buffers P b) = map_option buf_auth_tag (dma_buffers ?Q b)" for b using F by auto
  have "pool_shape base (sys_held S) P" by (rule shape_move[OF inv(2) P(3) _ _ _ bufs]) (use inv(2) P(1) in \<open>auto simp: pool_shape_def\<close>)
  then have pool: "dma_pool_ok base (sys_held S) P" using inv(4) P by (simp add: dma_pool_ok_def)
  have "dma_buffers P b = None \<longleftrightarrow> dma_buffers ?Q b = None" for b using bufs(1)[of b] by (metis option.map_disc_iff)
  then have un: "unused (sys_pending S) P" using inv(3) by (simp add: unused_def)
  have "set (free_dma_buffers ?Q) \<subseteq> dom (dma_buffers ?Q)" using inv(2) by (simp add: pool_shape_def)
  then have "covered (sys_pending S) P (completed_pairs w)" if "fatal_error w = NV_OK"
    using F S w(2) that by (auto simp: system_ok_def uvm_channel_ops_def)
  then show ?thesis using w(1) pool P(2) inv(5) un by (simp add: system_ok_def)
qed

lemma pool_step_ok:
  fixes S :: "('b, 'c::finite, 'm, 'g) pool_system"
  assumes card: "CARD('c) \<le> 2 ^ 30" and S: "system_ok base S" and step: "pool_step gpu_of gpu S S'"
  shows "system_ok base S'"
  using step
proof cases
  case (step_alloc fuel outcomes al1 al2 al3 out st buf out' P w)
  then show ?thesis using alloc_step_ok[OF card S step_alloc(3-5) step_alloc(2)] by simp
next
  case (step_push b W)
  then have "b \<notin> set (free_dma_buffers (sys_pool S))" "b \<in> dom (dma_buffers (sys_pool S))"
    using S by (auto simp: system_ok_def dma_pool_ok_def pool_shape_def)
  then show ?thesis using S step_push by (auto simp: system_ok_def unused_def covered_def)
next
  case (step_free fuel al1 al2 al3 b tr tr' P w)
  then show ?thesis using free_step_ok[OF card S step_free(2-5)] by simp
next
  case (step_sync fuel P w)
  then show ?thesis using sync_step_ok[OF S step_sync(2)] by simp
next
  case (step_channels w)
  then show ?thesis using S covered_mono[OF _ step_channels(3)] by (auto simp: system_ok_def)
qed

lemma pool_reachable_ok:
  fixes S :: "('b, 'c::finite, 'm, 'g) pool_system"
  assumes card: "CARD('c) \<le> 2 ^ 30" and "pool_reachable gpu_of gpu base S"
  shows "system_ok base S"
  using assms(2)
proof induction
  case (reach_init fuel outcomes P0 w0 P w)
  show ?case
  proof (cases rule: pool_init_ok[OF reach_init(3-6), of "uvm_channel_ops TYPE('g) gpu_of" w0])
    case (1 Q)
    have "covered (\<lambda>_. {}) (P0\<lparr>free_dma_buffers := []\<rparr>) (completed_pairs w)" "unused (\<lambda>_. {}) (P0\<lparr>free_dma_buffers := []\<rparr>)"
      using reach_init(3) by (simp_all add: covered_def unused_def)
    then show ?thesis using 1 reach_init(1,2) by (simp add: system_ok_def keeps_covered_def)
  qed (use reach_init(1) in simp)
next
  case (reach_step S S')
  then show ?case using pool_step_ok[OF card, of base S gpu_of gpu S'] by simp
qed

subsection \<open>Allocation and tear-down return\<close>

lemma alloc_error_returns: "alloc_error ops fuel status b buf out P s \<noteq> None"
  by (simp add: alloc_error_def uvm_conf_computing_dma_buffer_free_def split: prod.splits)

context live_source
begin

lemma hand_over_returns:
  assumes inv: "inv s" and ok: "tracker_ok t" "fits out t" and reach: "\<forall>(c, v)\<in>demands t. v \<le> final s c" and fuel: "steps_left s + 2 \<le> fuel"
  shows "\<exists>st out' t' s'. hand_over_tracker ops fuel al1 al2 al3 out t s = Some (st, out', t', s') \<and> nearer s s' \<and> tracker_ok t' \<and> demands t' \<subseteq> demands t"
proof (cases out)
  case None
  obtain st t' s' where w: "uvm_tracker_wait ops fuel t s = Some (st, t', s')" using wait_returns[OF inv ok(1) reach fuel] by auto
  then show ?thesis using None wait_ok[OF inv ok(1) w] nearer_wait[OF inv ok(1) w] by (simp add: hand_over_tracker_def demands_empty)
next
  case (Some u)
  then have u: "tracker_ok u" "unat (tsize u) + unat (tsize t) \<le> 2 ^ 31" using ok(2) by (simp_all add: fits_def)
  from add_tracker_safe_returns[OF inv u(1) ok(1) u(2) reach fuel, of al1 al2 al3] Some show ?thesis by (auto simp: hand_over_tracker_def)
qed

lemma take_returns:
  assumes inv: "inv s" and free: "free_dma_buffers P = b # bs" and t: "t = buf_tracker (the (dma_buffers P b))"
    and ok: "tracker_ok t" "fits out t" and reach: "\<forall>(c, v)\<in>demands t. v \<le> final s c" and fuel: "steps_left s + 2 \<le> fuel"
  shows "take_buffer ops fuel gpu al1 al2 al3 out P s \<noteq> None"
proof -
  obtain st1 t1 s1 where w1: "uvm_tracker_wait_for_other_gpus ops fuel t gpu s = Some (st1, t1, s1)" "nearer s s1"
    using wait_for_other_gpus_returns[OF inv reach fuel] by blast
  note W1 = wait_for_other_gpus_ok[OF inv ok(1) w1(1)]
  show ?thesis
  proof (cases "st1 = NV_OK")
    case False
    then show ?thesis using free w1(1) t by (simp add: take_buffer_def Let_def alloc_error_returns del: not_None_eq)
  next
    case True
    then have T1: "tracker_ok t1" "demands t1 \<subseteq> demands t" "fits out t1" using W1 ok(2) by (auto simp: fits_def split: option.splits)
    have reach1: "\<forall>(c, v)\<in>demands t1. v \<le> final s1 c" "steps_left s1 + 2 \<le> fuel" using T1(2) w1(2) reach fuel by (auto simp: nearer_def)
    obtain st2 out2 t2 s2 where h: "hand_over_tracker ops fuel al1 al2 al3 out t1 s1 = Some (st2, out2, t2, s2)" "nearer s1 s2" "tracker_ok t2" "demands t2 \<subseteq> demands t1"
      using hand_over_returns[OF nearer_inv[OF w1(2)] T1(1,3) reach1] by blast
    have "\<forall>(c, v)\<in>demands t2. v \<le> final s2 c" "steps_left s2 + 2 \<le> fuel" using h reach1 by (auto simp: nearer_def)
    from wait_returns[OF nearer_inv[OF h(2)] h(3) this] obtain st3 t3 s3 where w3: "uvm_tracker_wait ops fuel t2 s2 = Some (st3, t3, s3)" by auto
    show ?thesis using free w1(1) t True h(1) w3 by (simp add: take_buffer_def Let_def alloc_error_returns del: not_None_eq)
  qed
qed

lemma deinit_loop_returns:
  "inv s \<Longrightarrow> pool_shape base held P \<Longrightarrow> free_dma_buffers P = bs \<Longrightarrow> \<forall>b\<in>set bs. tracker_ok (buf_tracker (the (dma_buffers P b))) \<Longrightarrow>
   \<forall>b\<in>set bs. \<forall>(c, v)\<in>demands (buf_tracker (the (dma_buffers P b))). v \<le> final s c \<Longrightarrow> steps_left s + 2 \<le> fuel \<Longrightarrow>
   \<exists>P' s'. deinit_loop ops fuel bs P s = Some (P', s')"
proof (induction bs arbitrary: P s)
  case (Cons b bs)
  let ?t = "buf_tracker (the (dma_buffers P b))"
  have t: "tracker_ok ?t" "\<forall>(c, v)\<in>demands ?t. v \<le> final s c" using Cons.prems(4,5) by simp_all
  obtain st t' s1 where w: "uvm_tracker_wait ops fuel ?t s = Some (st, t', s1)" using wait_returns[OF Cons.prems(1) t Cons.prems(6)] by auto
  then obtain Q where d: "dma_buffer_destroy_locked ops fuel b P s = Some (Q, s1)"
    by (auto simp: dma_buffer_destroy_locked_def uvm_tracker_wait_deinit_def Let_def)
  note D = destroy_shape[OF Cons.prems(2,3) d] and n = nearer_wait[OF Cons.prems(1) t(1) w]
  let ?Q = "Q\<lparr>num_dma_buffers := num_dma_buffers Q - 1\<rparr>"
  have shape: "pool_shape base held ?Q" using D(1) by (simp add: pool_shape_def)
  have nb: "b \<notin> set bs" using Cons.prems(2,3) by (simp add: pool_shape_def)
  have same: "dma_buffers ?Q c = dma_buffers P c" if "c \<in> set bs" for c
  proof -
    have "c \<noteq> b" using that nb by blast
    then show ?thesis using D(4) by simp
  qed
  have left: "steps_left s1 + 2 \<le> fuel" "final s1 = final s" using n Cons.prems(6) by (simp_all add: nearer_def)
  from Cons.IH[OF nearer_inv[OF n] shape _ _ _ left(1)] show ?case using D(2) same Cons.prems(4,5) left(2) d by simp
qed simp

end

lemma alloc_returns:
  fixes S :: "('b, 'c::finite, 'm, 'g) pool_system" and gpu_of :: "'c \<Rightarrow> 'g"
  assumes card: "CARD('c) \<le> 2 ^ 30" and S: "system_ok base S" "fatal_error (sys_world S) = NV_OK"
    and fresh: "fresh_outcomes outcomes (sys_pool S)" and out: "\<forall>u. out = Some u \<longrightarrow> tracker_ok u"
    and reach: "\<forall>b\<in>set (free_dma_buffers (sys_pool S)). \<forall>(c, v)\<in>demands (buf_tracker (the (dma_buffers (sys_pool S) b))). v \<le> final_counts (sys_world S) c"
    and fuel: "length (schedule (sys_world S)) + 2 \<le> fuel"
  shows "uvm_conf_computing_dma_buffer_alloc (uvm_channel_ops TYPE('g) gpu_of) fuel gpu outcomes al1 al2 al3 out (sys_pool S) (sys_world S) \<noteq> None"
proof -
  let ?P = "sys_pool S" and ?ops = "uvm_channel_ops TYPE('g) gpu_of"
  note inv = system_okD[OF S(1)]
  have cov: "covered (sys_pending S) ?P (completed_pairs (sys_world S))" using S by (simp add: system_ok_def)
  have take: "take_buffer ?ops fuel gpu al1 al2 al3 out Q (sys_world S) \<noteq> None"
    if "free_dma_buffers Q = b # bs" "tracker_ok (buf_tracker (the (dma_buffers Q b)))"
      "\<forall>(c, v)\<in>demands (buf_tracker (the (dma_buffers Q b))). v \<le> final_counts (sys_world S) c" for Q :: "('b, 'c, 'm) dma_pool" and b bs
    by (rule channel_source.take_returns[OF inv(1) that(1) refl that(2) fits_card[OF card that(2) out] that(3) fuel])
  show ?thesis
  proof (cases "free_dma_buffers ?P")
    case (Cons b bs)
    then have "b \<in> dom (dma_buffers ?P)" using inv(2) by (auto simp: pool_shape_def)
    then show ?thesis using take[OF Cons] coveredD(1)[OF cov] reach Cons by (simp add: uvm_conf_computing_dma_buffer_alloc_def)
  next
    case Nil
    have f: "0 < fuel" using fuel by simp
    have pool: "dma_pool_ok base (sys_held S) ?P" using S(1) by (simp add: system_ok_def)
    obtain st new Q where e: "dma_buffer_pool_expand_locked ?ops fuel outcomes ?P (sys_world S) = Some (st, Q, sys_world S)"
      "free_dma_buffers Q = free_dma_buffers ?P @ new" "st = NV_OK \<longleftrightarrow> new \<noteq> []" "\<forall>b\<in>set new. \<exists>i j. dma_buffers Q b = Some (new_buffer i j)"
      by (rule expand_ok[OF pool inv(5) fresh f, where ops = ?ops and s = "sys_world S"]) (rule that)
    show ?thesis
    proof (cases new)
      case (Cons b bs)
      then have b: "free_dma_buffers Q = b # bs" "\<exists>i j. dma_buffers Q b = Some (new_buffer i j)" using e(2,4) Nil by auto
      then have "tracker_ok (buf_tracker (the (dma_buffers Q b)))" "demands (buf_tracker (the (dma_buffers Q b))) = {}"
        by (auto simp: demands_empty new_buffer_def uvm_tracker_init_def tracker_ok_def used_def)
      then show ?thesis using take[OF b(1)] Nil e(1,3) Cons by (simp add: uvm_conf_computing_dma_buffer_alloc_def)
    qed (use Nil e(1,3) in \<open>simp add: uvm_conf_computing_dma_buffer_alloc_def\<close>)
  qed
qed

subsection \<open>Initialising a GPU\<close>

lemmas gpu_init_defs = uvm_conf_computing_gpu_init_def dummy_iv_mem_init_def dummy_iv_mem_deinit_def uvm_conf_computing_gpu_deinit_def Let_def

lemma rotation_limits:
  "UVM_CONF_COMPUTING_IV_REMAINING_LIMIT_MIN \<le> UVM_CONF_COMPUTING_IV_REMAINING_LIMIT_DEFAULT"
  "UVM_CONF_COMPUTING_IV_REMAINING_LIMIT_DEFAULT \<le> UVM_CONF_COMPUTING_IV_REMAINING_LIMIT_MAX"
  "UVM_CONF_COMPUTING_IV_REMAINING_LIMIT_MIN \<le> UVM_CONF_COMPUTING_IV_REMAINING_LIMIT_TESTS"
  "UVM_CONF_COMPUTING_IV_REMAINING_LIMIT_TESTS \<le> UVM_CONF_COMPUTING_IV_REMAINING_LIMIT_MAX"
  by (simp_all add: UVM_CONF_COMPUTING_IV_REMAINING_LIMIT_MIN_def UVM_CONF_COMPUTING_IV_REMAINING_LIMIT_MAX_def
      UVM_CONF_COMPUTING_IV_REMAINING_LIMIT_DEFAULT_def UVM_CONF_COMPUTING_IV_REMAINING_LIMIT_TESTS_def push_bit_eq_mult)

text \<open>Tearing a pool down returns everything but the memory of \<open>base\<close>; when its buffers are new, this is without waiting.\<close>

lemma pool_deinit_shape:
  assumes ok: "dma_pool_ok base {} P" and run: "conf_computing_dma_buffer_pool_deinit ops fuel P s = Some (P', s')"
  shows "free_dma_buffers P' = [] \<and> num_dma_buffers P' = 0 \<and> dma_buffers P' = Map.empty \<and> mem_balance P' = base"
proof -
  have shape: "pool_shape base {} P" "num_dma_buffers P = length (free_dma_buffers P)" using ok by (simp_all add: dma_pool_ok_def)
  have R: "pool_shape base {} P'" "free_dma_buffers P' = []" "num_dma_buffers P' = 0"
    using run shape deinit_loop_shape[OF shape(1) refl, of ops fuel s P' s']
    by (auto simp: conf_computing_dma_buffer_pool_deinit_def split: if_splits)
  then have d: "dom (dma_buffers P') = {}" by (simp add: pool_shape_def)
  moreover have "mem_balance P' = base" using R(1) unfolding pool_shape_def d by (simp add: fun_eq_iff)
  ultimately show ?thesis using R by (simp add: dom_eq_empty_conv)
qed

lemma pool_deinit_returns:
  fixes S :: "('b, 'c::finite, 'm, 'g) pool_system" and gpu_of :: "'c \<Rightarrow> 'g"
  assumes S: "system_ok base S" "sys_held S = {}" "fatal_error (sys_world S) = NV_OK"
    and reach: "\<forall>b\<in>set (free_dma_buffers (sys_pool S)). \<forall>(c, v)\<in>demands (buf_tracker (the (dma_buffers (sys_pool S) b))). v \<le> final_counts (sys_world S) c"
    and fuel: "length (schedule (sys_world S)) + 2 \<le> fuel"
  shows "\<exists>P w. conf_computing_dma_buffer_pool_deinit (uvm_channel_ops TYPE('g) gpu_of) fuel (sys_pool S) (sys_world S) = Some (P, w) \<and>
    free_dma_buffers P = [] \<and> num_dma_buffers P = 0 \<and> dma_buffers P = Map.empty \<and> mem_balance P = base"
proof -
  note inv = system_okD[OF S(1)]
  have cov: "covered (sys_pending S) (sys_pool S) (completed_pairs (sys_world S))" and ok: "dma_pool_ok base {} (sys_pool S)" using S by (simp_all add: system_ok_def)
  have "set (free_dma_buffers (sys_pool S)) \<subseteq> dom (dma_buffers (sys_pool S))" using inv(2) by (simp add: pool_shape_def)
  then have "\<forall>b\<in>set (free_dma_buffers (sys_pool S)). tracker_ok (buf_tracker (the (dma_buffers (sys_pool S) b)))" using coveredD(1)[OF cov] by blast
  from channel_source.deinit_loop_returns[OF inv(1,2) refl this reach fuel, of gpu_of] obtain P w
    where "conf_computing_dma_buffer_pool_deinit (uvm_channel_ops TYPE('g) gpu_of) fuel (sys_pool S) (sys_world S) = Some (P, w)"
    using inv(5) by (auto simp: conf_computing_dma_buffer_pool_deinit_def)
  with pool_deinit_shape[OF ok this] show ?thesis by blast
qed

lemma shape_base:
  "pool_shape base h P \<Longrightarrow> (\<And>x. bal x = mem_balance P x + k x) \<Longrightarrow> pool_shape (\<lambda>x. base x + k x) h (P\<lparr>mem_balance := bal\<rparr>)"
  by (simp add: pool_shape_def)

lemma pool_deinit_idle:
  assumes ok: "dma_pool_ok base {} P" and fuel: "0 < fuel" and idle: "\<forall>b\<in>set (free_dma_buffers P). tsize (buf_tracker (the (dma_buffers P b))) = 0"
    and bal: "\<And>x. bal x = mem_balance P x + k x"
  obtains P' where "conf_computing_dma_buffer_pool_deinit ops fuel (P\<lparr>mem_balance := bal\<rparr>) s = Some (P', s)"
    "dma_buffers P' = Map.empty" "mem_balance P' = (\<lambda>x. base x + k x)" "num_dma_buffers P' = 0"
proof -
  let ?P = "P\<lparr>mem_balance := bal\<rparr>"
  obtain n where n: "fuel = Suc n" using fuel by (cases fuel) auto
  have shape: "pool_shape (\<lambda>x. base x + k x) {} ?P" using shape_base[OF _ bal] ok by (simp add: dma_pool_ok_def)
  obtain P' where "deinit_loop ops fuel (free_dma_buffers ?P) ?P s = Some (P', s)"
    using deinit_loop_idle[OF shape refl, of ops n s] idle n by auto
  then obtain P' where r: "conf_computing_dma_buffer_pool_deinit ops fuel ?P s = Some (P', s)"
    by (cases "num_dma_buffers P = 0") (simp_all add: conf_computing_dma_buffer_pool_deinit_def)
  have "dma_pool_ok (\<lambda>x. base x + k x) {} ?P" using shape ok by (simp add: dma_pool_ok_def)
  from pool_deinit_shape[OF this r] show ?thesis using that[OF r] by simp
qed

text \<open>
  The outcomes of \<^verbatim>\<open>uvm_conf_computing_gpu_init\<close>, by the first step that fails. When the dummy IV cannot be mapped, its memory is freed by
  \<^verbatim>\<open>dummy_iv_mem_init\<close> and, because the handle stays in \<open>iv_mem\<close>, once more by \<^verbatim>\<open>uvm_conf_computing_gpu_deinit\<close>.
\<close>

definition gpu_init_outcome ::
    "bool \<Rightarrow> NV_STATUS \<times> 'm \<Rightarrow> NV_STATUS \<Rightarrow> ('m \<Rightarrow> int) \<Rightarrow> NV_STATUS \<Rightarrow> ('b, 'c, 'm) gpu_conf \<Rightarrow> bool" where
  "gpu_init_outcome hcc iv iv_map base st g \<longleftrightarrow>
     (if st = NV_OK
      then UVM_CONF_COMPUTING_IV_REMAINING_LIMIT_MIN \<le> iv_rotation_limit g \<and> iv_rotation_limit g \<le> UVM_CONF_COMPUTING_IV_REMAINING_LIMIT_MAX \<and>
        num_dma_buffers (gpu_pool g) = 32 \<and> iv_mem g = (if hcc then Some (snd iv) else None) \<and>
        dma_pool_ok (if hcc then mem_alloc (snd iv) base else base) {} (gpu_pool g)
      else dma_buffers (gpu_pool g) = Map.empty \<and>
        (if iv_mem g = None then mem_balance (gpu_pool g) = base
         else hcc \<and> fst iv = NV_OK \<and> iv_map \<noteq> NV_OK \<and> iv_mem g = Some (snd iv) \<and> mem_balance (gpu_pool g) = base(snd iv := base (snd iv) - 1)))"

lemma gpu_init_ok:
  assumes g: "iv_mem g = None" "dma_buffers (gpu_pool g) = Map.empty" "mem_balance (gpu_pool g) = base"
    and fresh: "fresh_outcomes outcomes (gpu_pool g)" and fuel: "0 < fuel"
  shows "\<exists>st g'. uvm_conf_computing_gpu_init ops fuel True builtin_tests hcc outcomes iv iv_map g s = Some (st, g', s) \<and> gpu_init_outcome hcc iv iv_map base st g'"
proof (cases rule: pool_init_ok[OF g(2,3) fresh fuel, of ops s])
  case (2 st n P)
  then show ?thesis using g by (simp add: uvm_conf_computing_gpu_init_def gpu_init_outcome_def)
next
  case init: (1 P)
  obtain st m where iv: "iv = (st, m)" by (cases iv)
  let ?g = "g\<lparr>gpu_pool := P\<rparr>" and ?bal = "mem_free (Some m) (mem_balance P)"
  note simps = uvm_conf_computing_gpu_init_def init(1) iv dummy_iv_mem_init_def Let_def uvm_conf_computing_gpu_deinit_def dummy_iv_mem_deinit_def
  consider (alloc) "hcc" "st \<noteq> NV_OK" | (map) "hcc" "st = NV_OK" "iv_map \<noteq> NV_OK" | (ok) "hcc \<longrightarrow> st = NV_OK \<and> iv_map = NV_OK" by blast
  then show ?thesis
  proof cases
    case alloc
    obtain P' where "conf_computing_dma_buffer_pool_deinit ops fuel (P\<lparr>mem_balance := mem_balance P\<rparr>) s = Some (P', s)"
      "dma_buffers P' = Map.empty" "mem_balance P' = (\<lambda>x. base x + 0)" using pool_deinit_idle[OF init(2) fuel init(5), of "mem_balance P" "\<lambda>_. 0" ops s] by auto
    then show ?thesis using alloc g by (simp add: simps gpu_init_outcome_def)
  next
    case map
    obtain P' where "conf_computing_dma_buffer_pool_deinit ops fuel (P\<lparr>mem_balance := ?bal\<rparr>) s = Some (P', s)"
      "dma_buffers P' = Map.empty" "mem_balance P' = (\<lambda>x. base x + (if x = m then -1 else 0))"
      by (rule pool_deinit_idle[OF init(2) fuel init(5), of ?bal "\<lambda>x. if x = m then -1 else 0" ops s]) (simp add: mem_free_def, rule that)
    moreover have "(\<lambda>x. base x + (if x = m then -1 else 0)) = base(m := base m - 1)" by auto
    ultimately show ?thesis using map g by (simp add: simps gpu_init_outcome_def)
  next
    case ok
    have "dma_pool_ok (mem_alloc m base) {} (P\<lparr>mem_balance := mem_alloc m (mem_balance P)\<rparr>)"
      using shape_base[of base "{}" P "mem_alloc m (mem_balance P)" "\<lambda>x. if x = m then 1 else 0"] init(2)
      by (simp add: dma_pool_ok_def mem_alloc_def fun_upd_def if_distrib cong: if_cong)
    then show ?thesis using ok g init rotation_limits
      by (auto simp: simps gpu_init_outcome_def not_less)
  qed
qed

section \<open>Properties\<close>

text \<open>C5. An allocated DMA buffer can be used at once: in every state that a pool reaches by initialisation, allocations, pushes, frees, synchronisation and progress of
  the channels, a successful allocation returns a buffer that nobody holds, with an empty tracker and page mask, and all GPU work that was pending on it has completed,
  unless a global error was set. The caller's tracker, if there is one, still waits for what it waited for.\<close>

theorem uvm_conf_computing_dma_buffer_alloc_safe:
  fixes S :: "('b, 'c::finite, 'm, 'g) pool_system" and gpu_of :: "'c \<Rightarrow> 'g"
  assumes "CARD('c) \<le> 2 ^ 30" and "pool_reachable gpu_of gpu base S" and "0 < fuel" and "fresh_outcomes outcomes (sys_pool S)" and "\<forall>u. out = Some u \<longrightarrow> tracker_ok u"
    and "uvm_conf_computing_dma_buffer_alloc (uvm_channel_ops TYPE('g) gpu_of) fuel gpu outcomes al1 al2 al3 out (sys_pool S) (sys_world S) = Some (NV_OK, buf, out', P, w)"
    and "fatal_error w = NV_OK"
  shows "\<exists>b x. buf = Some b \<and> b \<notin> sys_held S \<and> dma_buffers P b = Some x \<and> sys_pending S b \<subseteq> completed_pairs w \<and>
    tsize (buf_tracker x) = 0 \<and> encrypted_page_mask x = {} \<and> covers out out' (completed_pairs w)"
  using alloc_step_ok[OF assms(1) pool_reachable_ok[OF assms(1,2)] assms(3-6)] assms(7) by blast

text \<open>C16. A DMA buffer pool never loses or leaks a buffer: in every reachable state \<open>num_dma_buffers\<close> is positive and counts the free buffers, which are distinct, and
  the buffers held, which are not in the list; the memory allocated for the pool is exactly what these buffers hold. Once every buffer was freed, when there is no global error and
  the channels reach the values that the trackers of the buffers wait for, tearing the pool down returns: each wait takes at most two more iterations than the channels take spins to reach them. Then no
  buffer is left, and all memory of the pool is returned.\<close>

theorem dma_buffer_pool_invariant:
  fixes S :: "('b, 'c::finite, 'm, 'g) pool_system" and gpu_of :: "'c \<Rightarrow> 'g"
  assumes "CARD('c) \<le> 2 ^ 30" and "pool_reachable gpu_of gpu base S"
  shows "distinct (free_dma_buffers (sys_pool S)) \<and> set (free_dma_buffers (sys_pool S)) \<inter> sys_held S = {} \<and>
    dom (dma_buffers (sys_pool S)) = set (free_dma_buffers (sys_pool S)) \<union> sys_held S \<and> 0 < num_dma_buffers (sys_pool S) \<and>
    num_dma_buffers (sys_pool S) = length (free_dma_buffers (sys_pool S)) + card (sys_held S) \<and>
    (\<forall>m. mem_balance (sys_pool S) m = base m + (\<Sum>b\<in>dom (dma_buffers (sys_pool S)). buf_mem (the (dma_buffers (sys_pool S) b)) m)) \<and>
    (sys_held S = {} \<longrightarrow> fatal_error (sys_world S) = NV_OK \<longrightarrow>
     (\<forall>b\<in>set (free_dma_buffers (sys_pool S)). \<forall>(c, v)\<in>demands (buf_tracker (the (dma_buffers (sys_pool S) b))). v \<le> final_counts (sys_world S) c) \<longrightarrow>
     (\<forall>fuel \<ge> length (schedule (sys_world S)) + 2.
        \<exists>P w. conf_computing_dma_buffer_pool_deinit (uvm_channel_ops TYPE('g) gpu_of) fuel (sys_pool S) (sys_world S) = Some (P, w) \<and>
          free_dma_buffers P = [] \<and> num_dma_buffers P = 0 \<and> dma_buffers P = Map.empty \<and> mem_balance P = base))"
proof -
  note ok = pool_reachable_ok[OF assms]
  show ?thesis using system_okD(2,4,5)[OF ok] pool_deinit_returns[OF ok] unfolding pool_shape_def by blast
qed

text \<open>C23. Allocating a DMA buffer returns: when the channels reach the values that the trackers of the free buffers wait for, an allocation takes at most two more
  iterations of each wait than the channels take spins to reach them. It fails only with a global error, or when the pool is empty and the first buffer that would expand it cannot be
  created, with the status of this creation.\<close>

theorem uvm_conf_computing_dma_buffer_alloc_returns:
  fixes S :: "('b, 'c::finite, 'm, 'g) pool_system" and gpu_of :: "'c \<Rightarrow> 'g"
  assumes "CARD('c) \<le> 2 ^ 30" and "pool_reachable gpu_of gpu base S" and "fatal_error (sys_world S) = NV_OK" and "fresh_outcomes outcomes (sys_pool S)"
    and "\<forall>u. out = Some u \<longrightarrow> tracker_ok u"
    and "\<forall>b\<in>set (free_dma_buffers (sys_pool S)). \<forall>(c, v)\<in>demands (buf_tracker (the (dma_buffers (sys_pool S) b))). v \<le> final_counts (sys_world S) c"
    and "length (schedule (sys_world S)) + 2 \<le> fuel"
  shows "\<exists>st buf out' P w.
    uvm_conf_computing_dma_buffer_alloc (uvm_channel_ops TYPE('g) gpu_of) fuel gpu outcomes al1 al2 al3 out (sys_pool S) (sys_world S) = Some (st, buf, out', P, w) \<and>
    (st \<noteq> NV_OK \<longrightarrow> fatal_error w \<noteq> NV_OK \<or> free_dma_buffers (sys_pool S) = [] \<and>
       dma_buffer_create (uvm_channel_ops TYPE('g) gpu_of) fuel (outcomes 0) (sys_pool S) (sys_world S) = Some (st, None, sys_pool S, sys_world S))"
proof -
  note ok = pool_reachable_ok[OF assms(1,2)]
  obtain st buf out' P w where run: "uvm_conf_computing_dma_buffer_alloc (uvm_channel_ops TYPE('g) gpu_of) fuel gpu outcomes al1 al2 al3 out
      (sys_pool S) (sys_world S) = Some (st, buf, out', P, w)"
    using alloc_returns[OF assms(1) ok assms(3-7)] by (metis not_None_eq surj_pair)
  have "0 < fuel" using assms(7) by simp
  from alloc_step_ok[OF assms(1) ok this assms(4,5) run] run show ?thesis by blast
qed

text \<open>C39. Initialising a DMA buffer pool creates 32 free buffers, or fails with the status of the first buffer that could not be created; then all memory is returned
  and no buffer is left, but \<open>num_dma_buffers\<close> is not zero: it counts the buffers that were not created.\<close>

theorem conf_computing_dma_buffer_pool_init_correct:
  assumes "dma_buffers P0 = Map.empty" and "mem_balance P0 = base" and "fresh_outcomes outcomes P0" and "0 < fuel"
  shows "\<exists>st P. conf_computing_dma_buffer_pool_init ops fuel outcomes P0 s = Some (st, P, s) \<and>
    (if st = NV_OK then dma_pool_ok base {} P \<and> length (free_dma_buffers P) = 32
     else \<exists>n<32. P = P0\<lparr>free_dma_buffers := [], num_dma_buffers := 32 - n\<rparr> \<and>
       (\<exists>P'. create_loop ops fuel outcomes 0 32 (P0\<lparr>free_dma_buffers := [], num_dma_buffers := 32\<rparr>) s = Some (st, n, P', s)))"
proof (cases rule: pool_init_ok[OF assms, of ops s])
  case (1 P)
  then show ?thesis by (auto simp: dma_pool_ok_def)
next
  case (2 st n P)
  then show ?thesis by auto
qed

text \<open>C38. Initialising confidential computing on a GPU: on success the key rotation limit is in the safe range, the pool has 32 buffers and, in HCC mode, the dummy IV is
  allocated. On failure no buffer is left and all memory is returned, with one exception: when the dummy IV is allocated but cannot be mapped, its memory is freed twice.\<close>

theorem uvm_conf_computing_gpu_init_correct:
  assumes "iv_mem g = None" and "dma_buffers (gpu_pool g) = Map.empty" and "mem_balance (gpu_pool g) = base" and "fresh_outcomes outcomes (gpu_pool g)" and "0 < fuel"
  shows "\<exists>st g'. uvm_conf_computing_gpu_init ops fuel True builtin_tests hcc outcomes iv iv_map g s = Some (st, g', s) \<and>
    (if st = NV_OK
     then UVM_CONF_COMPUTING_IV_REMAINING_LIMIT_MIN \<le> iv_rotation_limit g' \<and> iv_rotation_limit g' \<le> UVM_CONF_COMPUTING_IV_REMAINING_LIMIT_MAX \<and>
       num_dma_buffers (gpu_pool g') = 32 \<and> iv_mem g' = (if hcc then Some (snd iv) else None) \<and>
       dma_pool_ok (if hcc then mem_alloc (snd iv) base else base) {} (gpu_pool g')
     else dma_buffers (gpu_pool g') = Map.empty \<and>
       (if iv_mem g' = None then mem_balance (gpu_pool g') = base
        else hcc \<and> fst iv = NV_OK \<and> iv_map \<noteq> NV_OK \<and> iv_mem g' = Some (snd iv) \<and> mem_balance (gpu_pool g') = base(snd iv := base (snd iv) - 1)))"
  using gpu_init_ok[OF assms] unfolding gpu_init_outcome_def .

section \<open>Concrete instances\<close>

text \<open>Two channels of one GPU, a pool that is not initialised, and buffers that can all be created.\<close>

definition gpu_channels :: "(bool, unit) channels" where
  "gpu_channels = \<lparr>ch_global = debug_global, ch_pool = used_pool, ch_sem = (\<lambda>_. \<lparr>semaphore = sem5, completed_value = 0, queued_value = 5\<rparr>),
     ch_reached = (\<lambda>_. 0), ch_error = (\<lambda>_. NV_OK), fatal_error = NV_OK, schedule = [(\<lambda>_. 5, \<lambda>_. NV_OK)], ch_gpu = (\<lambda>_. ())\<rparr>"

definition no_pool :: "(nat, bool, nat) dma_pool" where
  "no_pool = \<lparr>free_dma_buffers = [], num_dma_buffers = 0, dma_buffers = Map.empty, mem_balance = (\<lambda>_. 0)\<rparr>"

definition good_outcome :: "nat \<Rightarrow> (nat, nat) create_outcome" where
  "good_outcome k = \<lparr>struct_outcome = Some k, alloc_outcome = (NV_OK, 2 * k), map_outcome = NV_OK, tag_alloc_outcome = (NV_OK, 2 * k + 1), tag_map_outcome = NV_OK\<rparr>"

abbreviation gpu_ops :: "(bool, (bool, unit) channels, unit) channel_ops" where
  "gpu_ops \<equiv> uvm_channel_ops TYPE(unit) (\<lambda>_. ())"

lemma gpu_channels_ok: "channels_ok gpu_channels"
  by (simp add: channels_ok_def gpu_channels_def final_counts_def)

lemma good_outcome_fresh: "fresh_outcomes good_outcome no_pool"
  by (simp add: fresh_outcomes_def good_outcome_def no_pool_def)

lemma good_outcome_status: "create_loop ops fuel good_outcome i n P s = Some (st, j, P', s') \<Longrightarrow> st = NV_OK"
  by (induction n arbitrary: i P) (auto simp: dma_buffer_create_def good_outcome_def)

lemma no_pool_simps [simp]: "dma_buffers no_pool = Map.empty" "mem_balance no_pool = (\<lambda>_. 0)" "num_dma_buffers no_pool = 0"
  by (simp_all add: no_pool_def)

text \<open>The pool after its initialisation.\<close>

definition ready_system :: "(nat, bool, nat, unit) pool_system" where
  "ready_system = \<lparr>sys_pool = fst (snd (the (conf_computing_dma_buffer_pool_init gpu_ops 1 good_outcome no_pool gpu_channels))),
     sys_world = gpu_channels, sys_held = {}, sys_pending = (\<lambda>_. {})\<rparr>"

lemma ready_pool_ok:
  "conf_computing_dma_buffer_pool_init gpu_ops 1 good_outcome no_pool gpu_channels = Some (NV_OK, sys_pool ready_system, gpu_channels) \<and>
   num_dma_buffers (sys_pool ready_system) = 32 \<and> dma_pool_ok (\<lambda>_. 0) {} (sys_pool ready_system) \<and>
   (\<forall>b\<in>set (free_dma_buffers (sys_pool ready_system)). tsize (buf_tracker (the (dma_buffers (sys_pool ready_system) b))) = 0)"
proof (cases rule: pool_init_ok[OF no_pool_simps(1,2) good_outcome_fresh zero_less_one, of gpu_ops gpu_channels])
  case (1 P)
  then show ?thesis by (simp add: ready_system_def)
next
  case (2 st n P)
  then show ?thesis using good_outcome_status[of gpu_ops 1 0 32] by auto
qed

lemma ready_free: "free_dma_buffers (sys_pool ready_system) \<noteq> []"
  using ready_pool_ok by (auto simp: dma_pool_ok_def)

lemma ready_reachable: "pool_reachable (\<lambda>_. ()) () (\<lambda>_. 0) ready_system"
  using reach_init[OF ready_pool_ok[THEN conjunct1] gpu_channels_ok no_pool_simps(1,2) good_outcome_fresh] by (simp add: ready_system_def)

lemma take_idle:
  assumes "free_dma_buffers P = b # bs" "tsize (buf_tracker (the (dma_buffers P b))) = 0"
  shows "\<exists>P'. take_buffer ops (Suc fuel) gpu al1 al2 al3 None P s = Some (NV_OK, Some b, None, P', s)"
  using assms by (simp add: take_buffer_def hand_over_tracker_def Let_def uvm_tracker_wait_for_other_gpus_def wait_empty uvm_tracker_remove_completed_def
      remove_completed_from.simps)

definition no_memory :: "nat \<Rightarrow> (nat, nat) create_outcome" where
  "no_memory k = (good_outcome k)\<lparr>struct_outcome := None\<rparr>"

lemma no_memory_fresh: "fresh_outcomes no_memory P"
  by (simp add: fresh_outcomes_def no_memory_def)

lemma ready_alloc: "\<exists>b P. uvm_conf_computing_dma_buffer_alloc gpu_ops 3 () no_memory None None None None (sys_pool ready_system) gpu_channels =
    Some (NV_OK, Some b, None, P, gpu_channels)"
proof -
  obtain b bs where b: "free_dma_buffers (sys_pool ready_system) = b # bs" using ready_free by (cases "free_dma_buffers (sys_pool ready_system)") auto
  then show ?thesis using take_idle[OF b, of gpu_ops 2 "()" None None None gpu_channels] ready_pool_ok
    by (auto simp: uvm_conf_computing_dma_buffer_alloc_def numeral_3_eq_3)
qed

theorem uvm_conf_computing_dma_buffer_alloc_safe_witness:
  "\<exists>b P. uvm_conf_computing_dma_buffer_alloc gpu_ops 3 () no_memory None None None None (sys_pool ready_system) gpu_channels = Some (NV_OK, Some b, None, P, gpu_channels) \<and>
     b \<notin> sys_held ready_system \<and> sys_pending ready_system b \<subseteq> completed_pairs gpu_channels"
proof -
  obtain b P where run: "uvm_conf_computing_dma_buffer_alloc gpu_ops 3 () no_memory None None None None (sys_pool ready_system) (sys_world ready_system) =
      Some (NV_OK, Some b, None, P, gpu_channels)" using ready_alloc by (auto simp: ready_system_def)
  have "CARD(bool) \<le> 2 ^ 30" "(0 :: nat) < 3" "\<forall>u. (None :: bool tracker option) = Some u \<longrightarrow> tracker_ok u" "fatal_error gpu_channels = NV_OK"
    by (simp_all add: gpu_channels_def)
  with uvm_conf_computing_dma_buffer_alloc_safe[OF _ ready_reachable _ no_memory_fresh _ run] run show ?thesis by (auto simp: ready_system_def)
qed

lemma ready_reach:
  "\<forall>b\<in>set (free_dma_buffers (sys_pool ready_system)).
     \<forall>(c, v)\<in>demands (buf_tracker (the (dma_buffers (sys_pool ready_system) b))). v \<le> final_counts (sys_world ready_system) c"
  using ready_pool_ok by (simp add: demands_empty)

theorem dma_buffer_pool_invariant_witness:
  "num_dma_buffers (sys_pool ready_system) = length (free_dma_buffers (sys_pool ready_system)) + 0 \<and>
   (\<exists>P w. conf_computing_dma_buffer_pool_deinit gpu_ops 3 (sys_pool ready_system) gpu_channels = Some (P, w) \<and>
      num_dma_buffers P = 0 \<and> dma_buffers P = Map.empty \<and> mem_balance P = (\<lambda>_. 0))"
proof -
  have "CARD(bool) \<le> 2 ^ 30" by simp
  note I = dma_buffer_pool_invariant[OF this ready_reachable]
  have held: "sys_held ready_system = {}" "fatal_error (sys_world ready_system) = NV_OK" "length (schedule (sys_world ready_system)) + 2 \<le> 3"
    "sys_world ready_system = gpu_channels" by (simp_all add: ready_system_def gpu_channels_def)
  have "\<exists>P w. conf_computing_dma_buffer_pool_deinit gpu_ops 3 (sys_pool ready_system) (sys_world ready_system) = Some (P, w) \<and>
      num_dma_buffers P = 0 \<and> dma_buffers P = Map.empty \<and> mem_balance P = (\<lambda>_. 0)"
    using I ready_reach held(1-3) by blast
  moreover have "num_dma_buffers (sys_pool ready_system) = length (free_dma_buffers (sys_pool ready_system)) + card (sys_held ready_system)" using I by blast
  ultimately show ?thesis using held(1,4) by simp
qed

theorem uvm_conf_computing_dma_buffer_alloc_returns_witness:
  "\<exists>st buf out' P w. uvm_conf_computing_dma_buffer_alloc gpu_ops 3 () no_memory None None None None (sys_pool ready_system) (sys_world ready_system) =
     Some (st, buf, out', P, w) \<and> (st = NV_OK \<or> fatal_error w \<noteq> NV_OK)"
proof -
  have "CARD(bool) \<le> 2 ^ 30" "fatal_error (sys_world ready_system) = NV_OK" "length (schedule (sys_world ready_system)) + 2 \<le> 3"
    "\<forall>u. (None :: bool tracker option) = Some u \<longrightarrow> tracker_ok u" by (simp_all add: ready_system_def gpu_channels_def)
  then show ?thesis using ready_reach
    using uvm_conf_computing_dma_buffer_alloc_returns[OF _ ready_reachable _ no_memory_fresh, of None 3 None None None] ready_free by blast
qed

lemma no_memory_loop: "0 < n \<Longrightarrow> create_loop ops fuel no_memory i n P s = Some (NV_ERR_NO_MEMORY, i, P, s)"
  by (cases n) (simp_all add: dma_buffer_create_def no_memory_def)

theorem conf_computing_dma_buffer_pool_init_correct_witness:
  "conf_computing_dma_buffer_pool_init gpu_ops 1 no_memory no_pool gpu_channels = Some (NV_ERR_NO_MEMORY, no_pool\<lparr>num_dma_buffers := 32\<rparr>, gpu_channels)"
proof -
  obtain st P where r: "conf_computing_dma_buffer_pool_init gpu_ops 1 no_memory no_pool gpu_channels = Some (st, P, gpu_channels)" "if st = NV_OK
      then dma_pool_ok (\<lambda>_. 0) {} P \<and> length (free_dma_buffers P) = 32
      else \<exists>n<32. P = no_pool\<lparr>free_dma_buffers := [], num_dma_buffers := 32 - n\<rparr> \<and>
       (\<exists>P'. create_loop gpu_ops 1 no_memory 0 32 (no_pool\<lparr>free_dma_buffers := [], num_dma_buffers := 32\<rparr>) gpu_channels = Some (st, n, P', gpu_channels))"
    using conf_computing_dma_buffer_pool_init_correct[OF no_pool_simps(1,2) no_memory_fresh zero_less_one, of gpu_ops gpu_channels] by blast
  have "st = NV_ERR_NO_MEMORY"
    using r(1) by (simp add: conf_computing_dma_buffer_pool_init_def conf_computing_dma_buffer_pool_deinit_def no_memory_loop)
  then show ?thesis using r by (auto simp: no_memory_loop) (simp add: no_pool_def)
qed

definition no_conf :: "(nat, bool, nat) gpu_conf" where
  "no_conf = \<lparr>gpu_pool = no_pool, iv_mem = None, iv_rotation_limit = 0\<rparr>"

theorem uvm_conf_computing_gpu_init_correct_witness:
  "\<exists>g. uvm_conf_computing_gpu_init gpu_ops 1 True False True good_outcome (NV_OK, 100) NV_ERR_NO_MEMORY no_conf gpu_channels = Some (NV_ERR_NO_MEMORY, g, gpu_channels) \<and>
     mem_balance (gpu_pool g) 100 = -1"
proof -
  have h: "iv_mem no_conf = None" "dma_buffers (gpu_pool no_conf) = Map.empty" "mem_balance (gpu_pool no_conf) = (\<lambda>_. 0)" "fresh_outcomes good_outcome (gpu_pool no_conf)"
    using good_outcome_fresh by (simp_all add: no_conf_def)
  obtain st g where r: "uvm_conf_computing_gpu_init gpu_ops 1 True False True good_outcome (NV_OK, 100) NV_ERR_NO_MEMORY no_conf gpu_channels = Some (st, g, gpu_channels)"
    "if st = NV_OK then iv_mem g = Some (100 :: nat) else iv_mem g \<noteq> None \<longrightarrow> mem_balance (gpu_pool g) = (\<lambda>_. 0)(100 := -1)"
    using uvm_conf_computing_gpu_init_correct[OF h zero_less_one, of gpu_ops False True "(NV_OK, 100)" NV_ERR_NO_MEMORY gpu_channels] by (auto split: if_splits)
  have "st = NV_ERR_NO_MEMORY" "iv_mem g = Some 100"
    using r(1) ready_pool_ok by (auto simp: gpu_init_defs no_conf_def)
  then show ?thesis using r by auto
qed

end
