(* ===== verification/Perf_Prefetch.thy ===== *)
theory Perf_Prefetch
  imports Range_Tree
begin

text \<open>
  The tree-based page prefetcher of \<^verbatim>\<open>uvm_perf_prefetch.c\<close>, with the page mask and
  region helpers of \<^verbatim>\<open>uvm_va_block.h\<close> and the tree macros of \<^verbatim>\<open>uvm_perf_utils.h\<close> it is
  written with. A page mask is the set of its set bits and page indices are natural numbers:
  a block has 512 pages, so the 16 bit indices of the code never wrap; virtual addresses and
  the 16 bit fault counter are words. The results of the code the prefetcher consults
  (thrashing detection, policies, HMM, GPU big page sizes) are fields of a record that is
  passed in; the range groups are a range tree of \<^verbatim>\<open>Range_Tree\<close>.
\<close>

section \<open>Pages, regions and masks\<close>

definition UVM_PAGE_SIZE_64K :: nat where "UVM_PAGE_SIZE_64K = 2 ^ 16"

type_synonym page_mask = "nat set"

record va_block_region =
  first :: nat
  outer :: nat

definition uvm_va_block_region :: "nat \<Rightarrow> nat \<Rightarrow> va_block_region" where
  "uvm_va_block_region f u = \<lparr>first = f, outer = u\<rparr>"

abbreviation region_pages :: "va_block_region \<Rightarrow> nat set" where
  "region_pages r \<equiv> {first r..<outer r}"

definition uvm_va_block_region_num_pages :: "va_block_region \<Rightarrow> nat" where
  "uvm_va_block_region_num_pages r = outer r - first r"

definition bitmap_weight :: "page_mask \<Rightarrow> nat \<Rightarrow> nat" where
  "bitmap_weight m n = card (m \<inter> {..<n})"

definition uvm_page_mask_region_weight :: "page_mask \<Rightarrow> va_block_region \<Rightarrow> nat" where
  "uvm_page_mask_region_weight m r =
     bitmap_weight m (outer r) - (if 0 < first r then bitmap_weight m (first r) else 0)"

definition uvm_page_mask_weight :: "page_mask \<Rightarrow> nat" where
  "uvm_page_mask_weight m = bitmap_weight m PAGES_PER_UVM_VA_BLOCK"

definition uvm_page_mask_region_empty :: "page_mask \<Rightarrow> va_block_region \<Rightarrow> bool" where
  "uvm_page_mask_region_empty m r \<longleftrightarrow> m \<inter> region_pages r = {}"

definition uvm_page_mask_region_fill :: "page_mask \<Rightarrow> va_block_region \<Rightarrow> page_mask" where
  "uvm_page_mask_region_fill m r = m \<union> region_pages r"

definition uvm_page_mask_region_clear :: "page_mask \<Rightarrow> va_block_region \<Rightarrow> page_mask" where
  "uvm_page_mask_region_clear m r = m - region_pages r"

definition uvm_page_mask_shift_right :: "page_mask \<Rightarrow> nat \<Rightarrow> page_mask" where
  "uvm_page_mask_shift_right m n = (\<lambda>i. i - n) ` (m \<inter> {n..<PAGES_PER_UVM_VA_BLOCK})"

definition uvm_page_mask_shift_left :: "page_mask \<Rightarrow> nat \<Rightarrow> page_mask" where
  "uvm_page_mask_shift_left m n = (\<lambda>i. i + n) ` m \<inter> {..<PAGES_PER_UVM_VA_BLOCK}"

text \<open>The pages that \<^verbatim>\<open>for_each_va_block_page_in_region_mask\<close> visits, in order.\<close>

definition pages_in_region_mask :: "page_mask \<Rightarrow> va_block_region \<Rightarrow> nat list" where
  "pages_in_region_mask m r = filter (\<lambda>i. i \<in> m) [first r..<outer r]"

section \<open>The block and what the prefetcher reads\<close>

datatype processor_id = CPU | GPU nat | UVM_ID_INVALID

record prefetch_block =
  block_start :: NvU64
  block_end :: NvU64
  is_hmm :: bool
  resident :: "processor_id set"
  cpu_resident :: page_mask
  gpu_resident :: "nat \<Rightarrow> page_mask option"
  cpu_pte_read :: page_mask
  last_migration_proc_id :: processor_id
  fault_migrations_to_last_proc :: NvU16

record 'p prefetch_env =
  thrashing_pages :: "page_mask option"
  preferred_location :: processor_id
  hmm_prefetch_region :: va_block_region
  gpu_big_page_size :: "nat \<Rightarrow> nat option"
  range_groups :: "'p range_tree"
  page_prefetch_enabled :: bool

record prefetch_tunables =
  prefetch_enable :: bool
  prefetch_threshold :: nat
  prefetch_min_faults :: nat

definition uvm_va_block_num_cpu_pages :: "prefetch_block \<Rightarrow> nat" where
  "uvm_va_block_num_cpu_pages b = unat (block_end b - block_start b + 1) div PAGE_SIZE"

definition uvm_va_block_region_from_block :: "prefetch_block \<Rightarrow> va_block_region" where
  "uvm_va_block_region_from_block b = uvm_va_block_region 0 (uvm_va_block_num_cpu_pages b)"

definition uvm_va_block_cpu_page_index :: "prefetch_block \<Rightarrow> NvU64 \<Rightarrow> nat" where
  "uvm_va_block_cpu_page_index b addr = unat (addr - block_start b) div PAGE_SIZE"

definition uvm_va_block_region_from_start_end :: "prefetch_block \<Rightarrow> NvU64 \<Rightarrow> NvU64 \<Rightarrow> va_block_region" where
  "uvm_va_block_region_from_start_end b start stop =
     \<lparr>first = uvm_va_block_cpu_page_index b start, outer = uvm_va_block_cpu_page_index b stop + 1\<rparr>"

definition uvm_va_block_region_start :: "prefetch_block \<Rightarrow> va_block_region \<Rightarrow> NvU64" where
  "uvm_va_block_region_start b r = block_start b + of_nat (first r * PAGE_SIZE)"

definition uvm_va_block_region_end :: "prefetch_block \<Rightarrow> va_block_region \<Rightarrow> NvU64" where
  "uvm_va_block_region_end b r = block_start b + of_nat (outer r * PAGE_SIZE) - 1"

definition range_big_page_region_all :: "NvU64 \<Rightarrow> NvU64 \<Rightarrow> nat \<Rightarrow> va_block_region" where
  "range_big_page_region_all start stop big_page_size =
     (let first_addr = UVM_ALIGN_UP start (of_nat big_page_size);
          outer_addr = UVM_ALIGN_DOWN (stop + 1) (of_nat big_page_size)
      in if outer_addr \<le> first_addr then uvm_va_block_region 0 0
         else uvm_va_block_region (unat (first_addr - start) div PAGE_SIZE)
                (unat (outer_addr - start) div PAGE_SIZE))"

definition uvm_va_block_big_page_region_subset ::
    "prefetch_block \<Rightarrow> va_block_region \<Rightarrow> nat \<Rightarrow> va_block_region" where
  "uvm_va_block_big_page_region_subset b region big_page_size =
     (let big_region = range_big_page_region_all (uvm_va_block_region_start b region)
                         (uvm_va_block_region_end b region) big_page_size
      in if outer big_region \<noteq> 0
         then uvm_va_block_region (first big_region + first region) (outer big_region + first region)
         else big_region)"

section \<open>The bitmap tree\<close>

record bitmap_tree =
  pages :: page_mask
  offset :: nat
  leaf_count :: nat
  level_count :: nat

record bitmap_tree_iter =
  level_idx :: int
  node_idx :: nat

fun ilog2 :: "nat \<Rightarrow> nat" where
  "ilog2 n = (if n < 2 then 0 else Suc (ilog2 (n div 2)))"

declare ilog2.simps [simp del]

text \<open>The kernel's \<^verbatim>\<open>roundup_pow_of_two\<close>: one shifted by the position of the last set bit of \<open>n - 1\<close>.\<close>

definition roundup_pow_of_two :: "nat \<Rightarrow> nat" where
  "roundup_pow_of_two n = (if n \<le> 1 then 1 else 2 ^ Suc (ilog2 (n - 1)))"

definition uvm_perf_tree_iter_max_leaves :: "bitmap_tree \<Rightarrow> bitmap_tree_iter \<Rightarrow> nat" where
  "uvm_perf_tree_iter_max_leaves t it = 2 ^ nat (int (level_count t) - 1 - level_idx it)"

definition uvm_perf_tree_iter_leaf_range_start :: "bitmap_tree \<Rightarrow> bitmap_tree_iter \<Rightarrow> nat" where
  "uvm_perf_tree_iter_leaf_range_start t it =
     node_idx it div uvm_perf_tree_iter_max_leaves t it * uvm_perf_tree_iter_max_leaves t it"

definition uvm_perf_tree_iter_leaf_range :: "bitmap_tree \<Rightarrow> bitmap_tree_iter \<Rightarrow> nat" where
  "uvm_perf_tree_iter_leaf_range t it =
     (let range_leaves = uvm_perf_tree_iter_max_leaves t it;
          range_start = uvm_perf_tree_iter_leaf_range_start t it;
          range_end_max = range_start + range_leaves;
          range_end = min range_end_max (leaf_count t)
      in range_end - range_start)"

definition uvm_perf_prefetch_bitmap_tree_iter_init :: "bitmap_tree \<Rightarrow> nat \<Rightarrow> bitmap_tree_iter" where
  "uvm_perf_prefetch_bitmap_tree_iter_init t page_index =
     \<lparr>level_idx = int (level_count t) - 1, node_idx = page_index\<rparr>"

definition uvm_perf_prefetch_bitmap_tree_iter_get_range ::
    "bitmap_tree \<Rightarrow> bitmap_tree_iter \<Rightarrow> va_block_region" where
  "uvm_perf_prefetch_bitmap_tree_iter_get_range t it =
     (let range_leaves = uvm_perf_tree_iter_leaf_range t it;
          range_start = uvm_perf_tree_iter_leaf_range_start t it
      in uvm_va_block_region range_start (range_start + range_leaves))"

definition uvm_perf_prefetch_bitmap_tree_iter_get_count :: "bitmap_tree \<Rightarrow> bitmap_tree_iter \<Rightarrow> nat" where
  "uvm_perf_prefetch_bitmap_tree_iter_get_count t it =
     uvm_page_mask_region_weight (pages t) (uvm_perf_prefetch_bitmap_tree_iter_get_range t it)"

text \<open>
  The loop of \<^verbatim>\<open>uvm_perf_prefetch_bitmap_tree_traverse_counters\<close> with the body of
  \<^verbatim>\<open>compute_prefetch_region\<close>: from the leaf to the root, the last dense enough subregion wins.
\<close>

function traverse_counters ::
    "nat \<Rightarrow> bitmap_tree \<Rightarrow> bitmap_tree_iter \<Rightarrow> va_block_region \<Rightarrow> va_block_region" where
  "traverse_counters threshold t it prefetch_region =
     (if level_idx it < 0 then prefetch_region
      else
        let counter = uvm_perf_prefetch_bitmap_tree_iter_get_count t it;
            subregion = uvm_perf_prefetch_bitmap_tree_iter_get_range t it;
            subregion_pages = uvm_va_block_region_num_pages subregion
        in traverse_counters threshold t (it\<lparr>level_idx := level_idx it - 1\<rparr>)
             (if counter * 100 > subregion_pages * threshold then subregion else prefetch_region))"
  by pat_completeness auto
termination by (relation "measure (\<lambda>(_, _, it, _). nat (level_idx it + 1))") auto

declare traverse_counters.simps [simp del]

definition clamp_first :: "nat \<Rightarrow> va_block_region \<Rightarrow> nat \<Rightarrow> nat" where
  "clamp_first off max_region f =
     (let f = f + first max_region
      in if f < off then off
         else let f = f - off in if f < first max_region then first max_region else f)"

definition clamp_outer :: "nat \<Rightarrow> va_block_region \<Rightarrow> nat \<Rightarrow> nat" where
  "clamp_outer off max_region u =
     (let u = u + first max_region
      in if u < off then off
         else let u = u - off in if u > outer max_region then outer max_region else u)"

definition compute_prefetch_region :: "nat \<Rightarrow> nat \<Rightarrow> bitmap_tree \<Rightarrow> va_block_region \<Rightarrow> va_block_region" where
  "compute_prefetch_region threshold page_index t max_region =
     (let it = uvm_perf_prefetch_bitmap_tree_iter_init t (page_index - first max_region + offset t);
          r = traverse_counters threshold t it (uvm_va_block_region 0 0)
      in if outer r \<noteq> 0
         then uvm_va_block_region (clamp_first (offset t) max_region (first r))
                (clamp_outer (offset t) max_region (outer r))
         else r)"

definition grow_fault_granularity_if_no_thrashing ::
    "bitmap_tree \<Rightarrow> va_block_region \<Rightarrow> nat \<Rightarrow> page_mask \<Rightarrow> page_mask option \<Rightarrow> bitmap_tree" where
  "grow_fault_granularity_if_no_thrashing t region f faulted thrashing =
     (if \<not> uvm_page_mask_region_empty faulted region \<and>
         (case thrashing of None \<Rightarrow> True | Some th \<Rightarrow> uvm_page_mask_region_empty th region)
      then t\<lparr>pages := uvm_page_mask_region_fill (pages t)
              (uvm_va_block_region (first region - f + offset t) (outer region - f + offset t))\<rparr>
      else t)"

text \<open>
  The loop over the big pages of the region. The code steps by the pages of a big page, which is
  not zero: a big page is at least 64 KB.
\<close>

function grow_big_pages ::
    "nat \<Rightarrow> nat \<Rightarrow> nat \<Rightarrow> nat \<Rightarrow> page_mask \<Rightarrow> page_mask option \<Rightarrow> bitmap_tree \<Rightarrow> bitmap_tree" where
  "grow_big_pages page_index u pages_per_big_page f faulted thrashing t =
     (if page_index < u \<and> 0 < pages_per_big_page
      then grow_big_pages (page_index + pages_per_big_page) u pages_per_big_page f faulted thrashing
             (grow_fault_granularity_if_no_thrashing t
                (uvm_va_block_region page_index (page_index + pages_per_big_page)) f faulted thrashing)
      else t)"
  by pat_completeness auto
termination by (relation "measure (\<lambda>(i, u, _). u - i)") auto

declare grow_big_pages.simps [simp del]

definition grow_fault_granularity ::
    "bitmap_tree \<Rightarrow> nat \<Rightarrow> va_block_region \<Rightarrow> va_block_region \<Rightarrow> page_mask \<Rightarrow> page_mask option \<Rightarrow>
     bitmap_tree" where
  "grow_fault_granularity t big_page_size big_pages_region max_region faulted thrashing =
     (let f = first max_region;
          grow = (\<lambda>r t. grow_fault_granularity_if_no_thrashing t r f faulted thrashing)
      in if outer big_pages_region = 0 then grow max_region t
         else
           let t1 = (if first big_pages_region > f
                     then grow (uvm_va_block_region f (first big_pages_region)) t else t);
               t2 = grow_big_pages (first big_pages_region) (outer big_pages_region)
                      (big_page_size div PAGE_SIZE) f faulted thrashing t1
           in if outer big_pages_region < outer max_region
              then grow (uvm_va_block_region (outer big_pages_region) (outer max_region)) t2
              else t2)"

definition init_bitmap_tree_from_region ::
    "va_block_region \<Rightarrow> page_mask option \<Rightarrow> page_mask \<Rightarrow> bitmap_tree" where
  "init_bitmap_tree_from_region max_region resident_mask faulted =
     (let m = (case resident_mask of Some r \<Rightarrow> r \<union> faulted | None \<Rightarrow> faulted);
          leaves = uvm_va_block_region_num_pages max_region
      in \<lparr>pages = uvm_page_mask_shift_right m (first max_region), offset = 0, leaf_count = leaves,
          level_count = ilog2 (roundup_pow_of_two leaves) + 1\<rparr>)"

definition residency_big_page_size :: "'p prefetch_env \<Rightarrow> processor_id \<Rightarrow> nat" where
  "residency_big_page_size env new_residency =
     (case new_residency of
        GPU i \<Rightarrow> (case gpu_big_page_size env i of Some s \<Rightarrow> s | None \<Rightarrow> UVM_PAGE_SIZE_64K)
      | _ \<Rightarrow> UVM_PAGE_SIZE_64K)"

definition update_bitmap_tree_from_va_block ::
    "'p prefetch_env \<Rightarrow> bitmap_tree \<Rightarrow> prefetch_block \<Rightarrow> processor_id \<Rightarrow> page_mask \<Rightarrow> va_block_region \<Rightarrow>
     bitmap_tree" where
  "update_bitmap_tree_from_va_block env t b new_residency faulted max_region =
     (let big_page_size = residency_big_page_size env new_residency;
          big_pages_region = uvm_va_block_big_page_region_subset b max_region big_page_size;
          t' = (if first big_pages_region > first max_region
                then let off = big_page_size div PAGE_SIZE -
                               (first big_pages_region - first max_region);
                         leaves = uvm_va_block_region_num_pages max_region + off
                     in \<lparr>pages = uvm_page_mask_shift_left (pages t) off, offset = off,
                         leaf_count = leaves, level_count = ilog2 (roundup_pow_of_two leaves) + 1\<rparr>
                else t)
      in grow_fault_granularity t' big_page_size big_pages_region max_region faulted
           (thrashing_pages env))"

fun prefetch_pages_loop ::
    "nat \<Rightarrow> va_block_region \<Rightarrow> bitmap_tree \<Rightarrow> nat list \<Rightarrow> page_mask \<Rightarrow> page_mask" where
  "prefetch_pages_loop threshold max_region t [] out = out"
| "prefetch_pages_loop threshold max_region t (page_index # is) out =
     (let region = compute_prefetch_region threshold page_index t max_region;
          out = uvm_page_mask_region_fill out region
      in if outer region = outer max_region then out
         else prefetch_pages_loop threshold max_region t is out)"

definition compute_prefetch_mask ::
    "nat \<Rightarrow> va_block_region \<Rightarrow> va_block_region \<Rightarrow> bitmap_tree \<Rightarrow> page_mask \<Rightarrow> page_mask" where
  "compute_prefetch_mask threshold faulted_region max_region t faulted =
     prefetch_pages_loop threshold max_region t (pages_in_region_mask faulted faulted_region) {}"

section \<open>Hints\<close>

definition resident_mask_of :: "prefetch_block \<Rightarrow> processor_id \<Rightarrow> page_mask option" where
  "resident_mask_of b p =
     (case p of CPU \<Rightarrow> Some (cpu_resident b) | GPU i \<Rightarrow> gpu_resident b i | UVM_ID_INVALID \<Rightarrow> None)"

definition max_prefetch_region :: "'p prefetch_env \<Rightarrow> prefetch_block \<Rightarrow> va_block_region" where
  "max_prefetch_region env b =
     (if is_hmm b then hmm_prefetch_region env else uvm_va_block_region_from_block b)"

definition uvm_perf_prefetch_prenotify_fault_migrations ::
    "prefetch_tunables \<Rightarrow> 'p prefetch_env \<Rightarrow> prefetch_block \<Rightarrow> processor_id \<Rightarrow> page_mask \<Rightarrow>
     va_block_region \<Rightarrow> nat \<times> page_mask \<times> prefetch_block" where
  "uvm_perf_prefetch_prenotify_fault_migrations g env b new_residency faulted faulted_region =
     (let b = (if last_migration_proc_id b \<noteq> new_residency
               then b\<lparr>last_migration_proc_id := new_residency, fault_migrations_to_last_proc := 0\<rparr>
               else b);
          max_region = max_prefetch_region env b;
          resident_mask = resident_mask_of b new_residency;
          prefetch =
            (if resident b = {} \<and> new_residency = preferred_location env
             then uvm_page_mask_region_fill {} max_region
             else
               let t = init_bitmap_tree_from_region max_region resident_mask faulted;
                   t = update_bitmap_tree_from_va_block env t b new_residency faulted max_region;
                   scratch = (case thrashing_pages env of Some th \<Rightarrow> faulted - th | None \<Rightarrow> faulted)
               in compute_prefetch_mask (prefetch_threshold g) faulted_region max_region t scratch);
          prefetch = prefetch - faulted;
          prefetch = (if new_residency = CPU \<and> \<not> is_hmm b
                      then prefetch - (cpu_resident b \<inter> cpu_pte_read b) else prefetch);
          prefetch = (case thrashing_pages env of Some th \<Rightarrow> prefetch - th | None \<Rightarrow> prefetch);
          b = b\<lparr>fault_migrations_to_last_proc := fault_migrations_to_last_proc b +
                 of_nat (uvm_page_mask_region_weight faulted faulted_region)\<rparr>
      in (uvm_page_mask_weight prefetch, prefetch, b))"

definition uvm_perf_prefetch_enabled :: "prefetch_tunables \<Rightarrow> 'p prefetch_env \<Rightarrow> bool" where
  "uvm_perf_prefetch_enabled g env \<longleftrightarrow> (if \<not> prefetch_enable g then False else page_prefetch_enabled env)"

definition uvm_perf_prefetch_compute_ats ::
    "prefetch_tunables \<Rightarrow> 'p prefetch_env \<Rightarrow> page_mask \<Rightarrow> va_block_region \<Rightarrow> va_block_region \<Rightarrow>
     page_mask option \<Rightarrow> page_mask" where
  "uvm_perf_prefetch_compute_ats g env faulted faulted_region max_region residency_mask =
     (if \<not> uvm_perf_prefetch_enabled g env then {}
      else compute_prefetch_mask (prefetch_threshold g) faulted_region max_region
             (init_bitmap_tree_from_region max_region residency_mask faulted) faulted)"

text \<open>The range group ranges of the block, and the loop that drops those without faulted pages.\<close>

fun drop_idle_range_groups ::
    "prefetch_block \<Rightarrow> page_mask \<Rightarrow> range_node list \<Rightarrow> page_mask \<times> bool \<Rightarrow> page_mask \<times> bool" where
  "drop_idle_range_groups b faulted [] (prefetch, changed) = (prefetch, changed)"
| "drop_idle_range_groups b faulted (rgr # rgrs) (prefetch, changed) =
     (let region = uvm_va_block_region_from_start_end b (max (node_start rgr) (block_start b))
                     (min (node_end rgr) (block_end b))
      in drop_idle_range_groups b faulted rgrs
           (if uvm_page_mask_region_empty faulted region \<and> \<not> uvm_page_mask_region_empty prefetch region
            then (uvm_page_mask_region_clear prefetch region, True)
            else (prefetch, changed)))"

record prefetch_hint =
  prefetch_pages_mask :: page_mask
  residency :: processor_id

definition uvm_perf_prefetch_get_hint_va_block ::
    "prefetch_tunables \<Rightarrow> 'p prefetch_env \<Rightarrow> prefetch_block \<Rightarrow> processor_id \<Rightarrow> page_mask \<Rightarrow>
     va_block_region \<Rightarrow> prefetch_hint \<times> prefetch_block" where
  "uvm_perf_prefetch_get_hint_va_block g env b new_residency faulted faulted_region =
     (if \<not> uvm_perf_prefetch_enabled g env
      then (\<lparr>prefetch_pages_mask = {}, residency = UVM_ID_INVALID\<rparr>, b)
      else
        let (pending, prefetch, b) =
              uvm_perf_prefetch_prenotify_fault_migrations g env b new_residency faulted faulted_region
        in if unat (fault_migrations_to_last_proc b) \<ge> prefetch_min_faults g \<and> pending > 0
           then
             let rgrs = map (node_mem (range_groups env))
                          (uvm_range_tree_for_each_in (range_groups env) (block_start b) (block_end b));
                 (prefetch, changed) = drop_idle_range_groups b faulted rgrs (prefetch, False);
                 pending = (if changed then uvm_page_mask_weight prefetch else pending)
             in (\<lparr>prefetch_pages_mask = prefetch,
                  residency = (if pending > 0 then last_migration_proc_id b else UVM_ID_INVALID)\<rparr>, b)
           else (\<lparr>prefetch_pages_mask = prefetch, residency = UVM_ID_INVALID\<rparr>, b))"

section \<open>Tunables\<close>

definition UVM_PREFETCH_THRESHOLD_DEFAULT :: nat where "UVM_PREFETCH_THRESHOLD_DEFAULT = 51"
definition UVM_PREFETCH_MIN_FAULTS_MIN :: nat where "UVM_PREFETCH_MIN_FAULTS_MIN = 1"
definition UVM_PREFETCH_MIN_FAULTS_DEFAULT :: nat where "UVM_PREFETCH_MIN_FAULTS_DEFAULT = 1"
definition UVM_PREFETCH_MIN_FAULTS_MAX :: nat where "UVM_PREFETCH_MIN_FAULTS_MAX = 20"

text \<open>The module parameters in, the globals out; the globals start as zero.\<close>

definition uvm_perf_prefetch_init :: "nat \<Rightarrow> nat \<Rightarrow> nat \<Rightarrow> NV_STATUS \<times> prefetch_tunables" where
  "uvm_perf_prefetch_init enable threshold min_faults =
     (NV_OK,
      if enable = 0 then \<lparr>prefetch_enable = False, prefetch_threshold = 0, prefetch_min_faults = 0\<rparr>
      else \<lparr>prefetch_enable = True,
            prefetch_threshold =
              (if threshold \<le> 100 then threshold else UVM_PREFETCH_THRESHOLD_DEFAULT),
            prefetch_min_faults =
              (if min_faults \<ge> UVM_PREFETCH_MIN_FAULTS_MIN \<and> min_faults \<le> UVM_PREFETCH_MIN_FAULTS_MAX
               then min_faults else UVM_PREFETCH_MIN_FAULTS_DEFAULT)\<rparr>)"

definition uvm_test_set_page_prefetch_policy :: "nat \<Rightarrow> 'p prefetch_env \<Rightarrow> NV_STATUS \<times> 'p prefetch_env" where
  "uvm_test_set_page_prefetch_policy policy env =
     (if policy \<ge> 2 then (NV_ERR_INVALID_ARGUMENT, env)
      else (NV_OK, env\<lparr>page_prefetch_enabled := (policy = 0)\<rparr>))"

section \<open>The tree walk\<close>

definition tree_node :: "bitmap_tree \<Rightarrow> nat \<Rightarrow> nat \<Rightarrow> va_block_region" where
  "tree_node t n k =
     uvm_va_block_region (n div 2 ^ k * 2 ^ k) (min (n div 2 ^ k * 2 ^ k + 2 ^ k) (leaf_count t))"

definition dense :: "nat \<Rightarrow> bitmap_tree \<Rightarrow> va_block_region \<Rightarrow> bool" where
  "dense threshold t r \<longleftrightarrow>
     card (pages t \<inter> region_pages r) * 100 > uvm_va_block_region_num_pages r * threshold"

lemma region_sel [simp]:
  "first (uvm_va_block_region f u) = f" "outer (uvm_va_block_region f u) = u"
  by (simp_all add: uvm_va_block_region_def)

lemma tree_node_contains:
  assumes "n < leaf_count t"
  shows "first (tree_node t n k) \<le> n" and "n < outer (tree_node t n k)"
    and "outer (tree_node t n k) \<le> leaf_count t"
proof -
  have "n div 2 ^ k * 2 ^ k + n mod 2 ^ k = n" by (rule div_mult_mod_eq)
  moreover have "n mod 2 ^ k < 2 ^ k" by simp
  ultimately show "first (tree_node t n k) \<le> n" "n < outer (tree_node t n k)"
    "outer (tree_node t n k) \<le> leaf_count t"
    using assms by (auto simp: tree_node_def simp del: mod_less_divisor)
qed

lemma iter_get_range:
  assumes "n < leaf_count t" "k < level_count t"
  shows "uvm_perf_prefetch_bitmap_tree_iter_get_range t
           \<lparr>level_idx = int (level_count t) - 1 - int k, node_idx = n\<rparr> = tree_node t n k"
proof -
  have "n div 2 ^ k * 2 ^ k \<le> n" by simp
  also have "n \<le> leaf_count t" using assms(1) by simp
  finally have "n div 2 ^ k * 2 ^ k \<le> min (n div 2 ^ k * 2 ^ k + 2 ^ k) (leaf_count t)" by simp
  with assms show ?thesis
    by (simp add: uvm_perf_prefetch_bitmap_tree_iter_get_range_def tree_node_def Let_def
      uvm_perf_tree_iter_leaf_range_def uvm_perf_tree_iter_leaf_range_start_def
      uvm_perf_tree_iter_max_leaves_def)
qed

lemma region_weight_card:
  assumes "first r \<le> outer r"
  shows "uvm_page_mask_region_weight m r = card (m \<inter> region_pages r)"
proof -
  have "m \<inter> {..<outer r} = (m \<inter> {..<first r}) \<union> (m \<inter> region_pages r)" using assms by auto
  moreover have "card ((m \<inter> {..<first r}) \<union> (m \<inter> region_pages r)) =
      card (m \<inter> {..<first r}) + card (m \<inter> region_pages r)"
    by (intro card_Un_disjoint) auto
  ultimately have "card (m \<inter> {..<outer r}) = card (m \<inter> {..<first r}) + card (m \<inter> region_pages r)"
    by argo
  then show ?thesis by (auto simp: uvm_page_mask_region_weight_def bitmap_weight_def)
qed

lemma traverse_counters_eq:
  assumes n: "n < leaf_count t" and "j \<le> level_count t"
  shows "traverse_counters threshold t \<lparr>level_idx = int j - 1, node_idx = n\<rparr> r =
    (let ks = filter (\<lambda>k. dense threshold t (tree_node t n k)) [level_count t - j..<level_count t]
     in if ks = [] then r else tree_node t n (last ks))"
  using assms(2)
proof (induction j arbitrary: r)
  case 0
  then show ?case by (simp add: traverse_counters.simps)
next
  case (Suc j)
  let ?k = "level_count t - Suc j"
  have k: "?k < level_count t" and l: "int j = int (level_count t) - 1 - int ?k" using Suc.prems by auto
  have up: "[?k..<level_count t] = ?k # [level_count t - j..<level_count t]"
    using Suc.prems by (simp add: upt_conv_Cons Suc_diff_Suc)
  have rng: "uvm_perf_prefetch_bitmap_tree_iter_get_range t \<lparr>level_idx = int j, node_idx = n\<rparr> = tree_node t n ?k"
    unfolding l by (rule iter_get_range[OF n k])
  have le: "first (tree_node t n ?k) \<le> outer (tree_node t n ?k)"
    using tree_node_contains[OF n, of ?k] by linarith
  have step: "traverse_counters threshold t \<lparr>level_idx = int (Suc j) - 1, node_idx = n\<rparr> r =
    traverse_counters threshold t \<lparr>level_idx = int j - 1, node_idx = n\<rparr>
      (if dense threshold t (tree_node t n ?k) then tree_node t n ?k else r)"
    by (subst traverse_counters.simps)
      (simp add: rng dense_def uvm_perf_prefetch_bitmap_tree_iter_get_count_def region_weight_card[OF le] Let_def)
  show ?case unfolding step up using Suc.IH Suc.prems by (auto simp: Let_def)
qed

section \<open>The region of one fault\<close>

definition prefetch_tree_ok :: "bitmap_tree \<Rightarrow> va_block_region \<Rightarrow> bool" where
  "prefetch_tree_ok t mr \<longleftrightarrow>
     first mr < outer mr \<and> leaf_count t = outer mr - first mr + offset t \<and>
     pages t \<inter> {..<leaf_count t} \<subseteq> {offset t..} \<and> leaf_count t \<le> 2 ^ (level_count t - 1) \<and> 0 < level_count t"

definition leaf_of :: "bitmap_tree \<Rightarrow> va_block_region \<Rightarrow> nat \<Rightarrow> nat" where
  "leaf_of t mr p = p - first mr + offset t"

definition largest_dense :: "nat \<Rightarrow> bitmap_tree \<Rightarrow> nat \<Rightarrow> nat \<Rightarrow> bool" where
  "largest_dense threshold t n k \<longleftrightarrow>
     k < level_count t \<and> dense threshold t (tree_node t n k) \<and>
     (\<forall>j. k < j \<and> j < level_count t \<longrightarrow> \<not> dense threshold t (tree_node t n j))"

lemma leaf_of_less:
  assumes "prefetch_tree_ok t mr" "p \<in> region_pages mr"
  shows "leaf_of t mr p < leaf_count t"
  using assms by (auto simp: prefetch_tree_ok_def leaf_of_def)

lemma last_filter_upt:
  assumes "filter P [0..<n] \<noteq> []"
  shows "last (filter P [0..<n]) < n \<and> P (last (filter P [0..<n])) \<and>
    (\<forall>j. last (filter P [0..<n]) < j \<and> j < n \<longrightarrow> \<not> P j)"
  using assms
proof (induction n)
  case (Suc n)
  show ?case
  proof (cases "P n")
    case True
    then show ?thesis by auto
  next
    case False
    then have "filter P [0..<Suc n] = filter P [0..<n]" by simp
    with Suc False show ?thesis by (metis less_SucE less_SucI)
  qed
qed simp

lemma traverse_counters_cases:
  assumes n: "n < leaf_count t"
  obtains (none) "\<forall>k<level_count t. \<not> dense threshold t (tree_node t n k)"
      "traverse_counters threshold t (uvm_perf_prefetch_bitmap_tree_iter_init t n) r = r"
    | (some) k where "largest_dense threshold t n k"
      "traverse_counters threshold t (uvm_perf_prefetch_bitmap_tree_iter_init t n) r = tree_node t n k"
proof -
  let ?ks = "filter (\<lambda>k. dense threshold t (tree_node t n k)) [0..<level_count t]"
  have eq: "traverse_counters threshold t (uvm_perf_prefetch_bitmap_tree_iter_init t n) r =
    (if ?ks = [] then r else tree_node t n (last ?ks))"
    using traverse_counters_eq[OF n order_refl, of threshold r]
    by (simp add: uvm_perf_prefetch_bitmap_tree_iter_init_def Let_def)
  show thesis
  proof (cases "?ks = []")
    case True
    then have "\<forall>k<level_count t. \<not> dense threshold t (tree_node t n k)" by (simp add: filter_empty_conv)
    moreover from True eq have
      "traverse_counters threshold t (uvm_perf_prefetch_bitmap_tree_iter_init t n) r = r" by simp
    ultimately show thesis by (rule none)
  next
    case False
    have "largest_dense threshold t n (last ?ks)"
      using last_filter_upt[OF False] unfolding largest_dense_def by blast
    moreover from False eq have
      "traverse_counters threshold t (uvm_perf_prefetch_bitmap_tree_iter_init t n) r = tree_node t n (last ?ks)"
      by (simp only: if_False)
    ultimately show thesis by (rule some)
  qed
qed

lemma dense_node_beyond_offset:
  assumes "prefetch_tree_ok t mr" "n < leaf_count t" "dense threshold t (tree_node t n k)"
  shows "offset t < outer (tree_node t n k)"
proof -
  have "pages t \<inter> region_pages (tree_node t n k) \<noteq> {}" using assms(3) by (auto simp: dense_def)
  then show ?thesis
    using assms(1) tree_node_contains(3)[OF assms(2), of k] unfolding prefetch_tree_ok_def by fastforce
qed

lemma compute_prefetch_region_cases:
  assumes ok: "prefetch_tree_ok t mr" and p: "p \<in> region_pages mr"
  obtains (none) "\<forall>k<level_count t. \<not> dense threshold t (tree_node t (leaf_of t mr p) k)"
      "compute_prefetch_region threshold p t mr = uvm_va_block_region 0 0"
    | (some) k where "largest_dense threshold t (leaf_of t mr p) k"
      "compute_prefetch_region threshold p t mr =
         uvm_va_block_region (clamp_first (offset t) mr (first (tree_node t (leaf_of t mr p) k)))
           (first mr + outer (tree_node t (leaf_of t mr p) k) - offset t)"
      "first mr + outer (tree_node t (leaf_of t mr p) k) - offset t \<le> outer mr"
      "first mr < first mr + outer (tree_node t (leaf_of t mr p) k) - offset t"
proof -
  note n = leaf_of_less[OF ok p]
  from n show thesis
  proof (cases rule: traverse_counters_cases[where threshold = threshold and r = "uvm_va_block_region 0 0"])
    case none
    then show thesis by (intro that(1)) (simp_all add: compute_prefetch_region_def Let_def leaf_of_def)
  next
    case (some k)
    let ?r = "tree_node t (leaf_of t mr p) k"
    have off: "offset t < outer ?r"
      using some(1) by (intro dense_node_beyond_offset[OF ok n, of threshold]) (simp add: largest_dense_def)
    have u: "outer ?r \<le> outer mr - first mr + offset t"
      using tree_node_contains(3)[OF n, of k] ok by (simp add: prefetch_tree_ok_def)
    have c: "clamp_outer (offset t) mr (outer ?r) = first mr + outer ?r - offset t"
      using off u p by (auto simp: clamp_outer_def Let_def)
    show thesis
      using some off u p c
      by (intro that(2)[of k]) (simp_all add: compute_prefetch_region_def Let_def leaf_of_def)
  qed
qed

lemma compute_prefetch_region_in_max:
  assumes "prefetch_tree_ok t mr" "p \<in> region_pages mr"
  shows "region_pages (compute_prefetch_region threshold p t mr) \<subseteq> region_pages mr"
  using assms
proof (cases rule: compute_prefetch_region_cases[where threshold = threshold])
  case (some k)
  then show ?thesis by (auto simp: clamp_first_def Let_def split: if_splits)
qed auto

lemma compute_prefetch_mask_in_max:
  assumes ok: "prefetch_tree_ok t mr" and sub: "m \<inter> region_pages fr \<subseteq> region_pages mr"
  shows "compute_prefetch_mask threshold fr mr t m \<subseteq> region_pages mr"
proof -
  have "prefetch_pages_loop threshold mr t is out \<subseteq> region_pages mr"
    if "set is \<subseteq> region_pages mr" "out \<subseteq> region_pages mr" for "is" out
    using that
  proof (induction "is" arbitrary: out)
    case (Cons i "is")
    then have "uvm_page_mask_region_fill out (compute_prefetch_region threshold i t mr) \<subseteq> region_pages mr"
      using compute_prefetch_region_in_max[OF ok, of i threshold] by (auto simp: uvm_page_mask_region_fill_def)
    with Cons show ?case by (simp add: Let_def)
  qed simp
  moreover have "set (pages_in_region_mask m fr) \<subseteq> region_pages mr"
    using sub by (auto simp: pages_in_region_mask_def)
  ultimately show ?thesis by (simp add: compute_prefetch_mask_def)
qed

lemma clamp_first_iff:
  assumes "offset t \<le> first mr + a" "offset t < b" "first mr + b - offset t \<le> outer mr"
  shows "clamp_first (offset t) mr a \<le> q \<and> q < first mr + b - offset t \<longleftrightarrow>
    (first mr \<le> q \<and> q < outer mr) \<and> a \<le> leaf_of t mr q \<and> leaf_of t mr q < b"
  using assms unfolding clamp_first_def leaf_of_def Let_def by (simp split: if_split) arith

text \<open>C18. For a fault on a page of the region that may be prefetched, the prefetcher walks from the page's leaf to the root of the
  tree and keeps the largest subtree with more than the threshold percentage of its pages set.
  If no subtree is dense enough nothing is prefetched. Otherwise, when the subtree does not
  begin in the alignment gap in front of the region (always so when the region starts on a big page), the prefetch
  region is exactly the pages of that subtree that lie in the region, and it contains the
  faulting page.\<close>

theorem compute_prefetch_region_largest:
  assumes "prefetch_tree_ok t mr" and "p \<in> region_pages mr"
  shows "(if \<exists>k<level_count t. dense threshold t (tree_node t (leaf_of t mr p) k)
     then \<exists>k. largest_dense threshold t (leaf_of t mr p) k \<and>
       (offset t \<le> first mr + first (tree_node t (leaf_of t mr p) k) \<longrightarrow>
         region_pages (compute_prefetch_region threshold p t mr) =
           {q \<in> region_pages mr. leaf_of t mr q \<in> region_pages (tree_node t (leaf_of t mr p) k)} \<and>
         p \<in> region_pages (compute_prefetch_region threshold p t mr))
     else region_pages (compute_prefetch_region threshold p t mr) = {})"
  using assms
proof (cases rule: compute_prefetch_region_cases[where threshold = threshold])
  case none
  then show ?thesis by auto
next
  case (some k)
  note c = tree_node_contains[OF leaf_of_less[OF assms], of k]
  have "region_pages (compute_prefetch_region threshold p t mr) =
           {q \<in> region_pages mr. leaf_of t mr q \<in> region_pages (tree_node t (leaf_of t mr p) k)}"
    if "offset t \<le> first mr + first (tree_node t (leaf_of t mr p) k)"
    using that some(2-4) clamp_first_iff[OF that _ some(3)] by (simp add: set_eq_iff)
  moreover have ex: "\<exists>k<level_count t. dense threshold t (tree_node t (leaf_of t mr p) k)"
    using some(1) by (auto simp: largest_dense_def)
  moreover have "p \<in> {q \<in> region_pages mr. leaf_of t mr q \<in> region_pages (tree_node t (leaf_of t mr p) k)}"
    using assms(2) c by simp
  ultimately show ?thesis unfolding if_P[OF ex] by (intro exI[of _ k] conjI impI some(1)) simp_all
qed

section \<open>Building the tree\<close>

lemma ilog2_pow [simp]: "ilog2 (2 ^ k) = k"
proof (induction k)
  case (Suc k)
  have "\<not> 2 ^ Suc k < (2 :: nat)" by simp
  then show ?case using Suc by (subst ilog2.simps) simp
qed (simp add: ilog2.simps)

lemma less_exp_ilog2: "n < 2 ^ Suc (ilog2 n)"
proof (induction n rule: ilog2.induct)
  case (1 n)
  show ?case
  proof (cases "n < 2")
    case False
    then have "ilog2 n = Suc (ilog2 (n div 2))" by (simp add: ilog2.simps[of n])
    moreover from 1 False have "n div 2 < 2 ^ Suc (ilog2 (n div 2))" by blast
    then have "n < 2 * 2 ^ Suc (ilog2 (n div 2))" by linarith
    ultimately show ?thesis by simp
  qed (simp add: ilog2.simps)
qed

lemma tree_levels: "n \<le> 2 ^ ilog2 (roundup_pow_of_two n)"
proof (cases "n \<le> 1")
  case False
  then have "n \<le> 2 ^ Suc (ilog2 (n - 1))" using less_exp_ilog2[of "n - 1"] by linarith
  then show ?thesis using False by (simp only: roundup_pow_of_two_def if_False ilog2_pow)
qed (simp add: roundup_pow_of_two_def ilog2.simps)

lemma init_bitmap_tree_ok:
  assumes "first mr < outer mr"
  shows "prefetch_tree_ok (init_bitmap_tree_from_region mr rm faulted) mr"
  using assms tree_levels[of "outer mr - first mr"]
  by (simp add: prefetch_tree_ok_def init_bitmap_tree_from_region_def Let_def uvm_va_block_region_num_pages_def)

lemma grow_if_no_thrashing_shape [simp]:
  "offset (grow_fault_granularity_if_no_thrashing t r f faulted th) = offset t"
  "leaf_count (grow_fault_granularity_if_no_thrashing t r f faulted th) = leaf_count t"
  by (simp_all add: grow_fault_granularity_if_no_thrashing_def)

lemma grow_if_no_thrashing_ok:
  assumes "prefetch_tree_ok t mr"
  shows "prefetch_tree_ok (grow_fault_granularity_if_no_thrashing t r f faulted th) mr"
  using assms
  by (auto simp: prefetch_tree_ok_def grow_fault_granularity_if_no_thrashing_def uvm_page_mask_region_fill_def)

lemma grow_big_pages_shape [simp]:
  "offset (grow_big_pages i u m f faulted th t) = offset t"
  "leaf_count (grow_big_pages i u m f faulted th t) = leaf_count t"
  by (induction i u m f faulted th t rule: grow_big_pages.induct, subst grow_big_pages.simps, simp)
    (induction i u m f faulted th t rule: grow_big_pages.induct, subst grow_big_pages.simps, simp)

lemma grow_big_pages_ok:
  assumes "prefetch_tree_ok t mr"
  shows "prefetch_tree_ok (grow_big_pages i u m f faulted th t) mr"
  using assms
proof (induction i u m f faulted th t rule: grow_big_pages.induct)
  case (1 i u m f faulted th t)
  show ?case
  proof (cases "i < u \<and> 0 < m")
    case True
    with 1(1)[OF True grow_if_no_thrashing_ok[OF 1(2)]] show ?thesis
      by (simp add: grow_big_pages.simps[of i u m f faulted th t])
  next
    case False
    then have "grow_big_pages i u m f faulted th t = t" by (subst grow_big_pages.simps) (simp only: if_False)
    with 1(2) show ?thesis by simp
  qed
qed

lemma grow_fault_granularity_shape [simp]:
  "offset (grow_fault_granularity t s br mr faulted th) = offset t"
  "leaf_count (grow_fault_granularity t s br mr faulted th) = leaf_count t"
  by (simp_all add: grow_fault_granularity_def Let_def)

lemma grow_fault_granularity_ok:
  assumes "prefetch_tree_ok t mr"
  shows "prefetch_tree_ok (grow_fault_granularity t s br mr faulted th) mr"
  using assms by (simp add: grow_fault_granularity_def Let_def grow_if_no_thrashing_ok grow_big_pages_ok)

lemma shift_tree_ok:
  assumes "first mr < outer mr"
  shows "prefetch_tree_ok \<lparr>pages = uvm_page_mask_shift_left m off, offset = off,
    leaf_count = uvm_va_block_region_num_pages mr + off,
    level_count = ilog2 (roundup_pow_of_two (uvm_va_block_region_num_pages mr + off)) + 1\<rparr> mr"
  using assms tree_levels[of "uvm_va_block_region_num_pages mr + off"]
  by (auto simp: prefetch_tree_ok_def uvm_page_mask_shift_left_def uvm_va_block_region_num_pages_def)

lemma update_bitmap_tree_ok:
  assumes "first mr < outer mr" "prefetch_tree_ok t mr"
  shows "prefetch_tree_ok (update_bitmap_tree_from_va_block env t b p faulted mr) mr"
  unfolding update_bitmap_tree_from_va_block_def Let_def
  using shift_tree_ok[OF assms(1)] assms(2)
  by (intro grow_fault_granularity_ok) (simp del: diff_diff_right split: if_split)

text \<open>Where the big pages of a region lie, in page numbers of the address space.\<close>

definition prefetch_block_ok :: "prefetch_block \<Rightarrow> bool" where
  "prefetch_block_ok b \<longleftrightarrow>
     4096 dvd unat (block_start b) \<and> 4096 dvd unat (block_end b) + 1 \<and> block_start b < block_end b \<and>
     unat (block_start b) div 2 ^ 21 = unat (block_end b) div 2 ^ 21 \<and> block_end b < 2 ^ 63"

definition abs_page :: "prefetch_block \<Rightarrow> nat \<Rightarrow> nat" where
  "abs_page b i = unat (block_start b) div 4096 + i"

lemma unat_align_up:
  assumes "k < 63" "unat x < 2 ^ 63"
  shows "unat (UVM_ALIGN_UP x (2 ^ k)) = (unat x + (2 ^ k - 1)) div 2 ^ k * 2 ^ k"
proof -
  have "(2 :: nat) ^ k < 2 ^ 63" using assms(1) by (simp only: power_strict_increasing_iff)
  then have lt: "unat x + (2 ^ k - 1) < 2 ^ 64" using assms(2) by simp
  have e: "x + 2 ^ k - 1 = x + mask k" by (metis add_diff_eq pow2_minus_one)
  have um: "unat (mask k :: NvU64) = 2 ^ k - 1"
    using assms(1) by (simp add: unat_minus_one unat_pow2 flip: pow2_minus_one)
  have "unat (x + mask k) = unat x + (2 ^ k - 1)" using lt um by (simp add: unat_plus_if')
  then show ?thesis by (simp add: UVM_ALIGN_UP_def e pow2_minus_one unat_and_not_mask)
qed

lemma unat_align_down: "unat (UVM_ALIGN_DOWN x (2 ^ k)) = unat x div 2 ^ k * 2 ^ k"
  by (simp add: UVM_ALIGN_DOWN_def pow2_minus_one unat_and_not_mask)

lemma prefetch_block_pages:
  assumes "prefetch_block_ok b"
  shows "unat (block_start b) = 4096 * abs_page b 0"
    and "unat (block_end b) + 1 = 4096 * abs_page b (uvm_va_block_num_cpu_pages b)"
    and "abs_page b (uvm_va_block_num_cpu_pages b) \<le> abs_page b 0 div 512 * 512 + 512"
    and "0 < uvm_va_block_num_cpu_pages b"
proof -
  let ?s = "unat (block_start b)" and ?e = "unat (block_end b)"
  obtain S where S: "?s = 4096 * S" using assms by (auto simp: prefetch_block_ok_def elim: dvdE)
  obtain E where E: "?e + 1 = 4096 * E" using assms by (auto simp: prefetch_block_ok_def elim: dvdE)
  have lt: "?s < ?e" "?s div 2 ^ 21 = ?e div 2 ^ 21" using assms
    by (auto simp: prefetch_block_ok_def word_less_nat_alt)
  have e63: "?e < 2 ^ 63" using assms by (simp add: prefetch_block_ok_def word_less_nat_alt)
  have "unat (block_end b - block_start b) = ?e - ?s" using lt by (simp add: unat_sub word_le_nat_alt)
  then have "unat (block_end b - block_start b + 1) = ?e + 1 - ?s"
    using e63 lt by (simp add: unat_plus_if' Suc_diff_le)
  also have "\<dots> = 4096 * (E - S)" unfolding E S by (simp add: diff_mult_distrib2)
  finally have n: "uvm_va_block_num_cpu_pages b = E - S"
    by (simp add: uvm_va_block_num_cpu_pages_def PAGE_SIZE_def)
  have SE: "S < E" using lt S E by simp
  show "?s = 4096 * abs_page b 0" "?e + 1 = 4096 * abs_page b (uvm_va_block_num_cpu_pages b)"
    "0 < uvm_va_block_num_cpu_pages b"
    using S E SE by (simp_all add: abs_page_def n)
  have "S div 512 = (E - 1) div 512"
  proof -
    have "?s div 2 ^ 21 = S div 512" using S by (simp add: div_mult2_eq[of _ 4096 512, simplified])
    moreover have "?e = 4096 * (E - 1) + 4095" using E SE by simp
    then have "?e div 2 ^ 21 = (E - 1) div 512" by (simp add: div_mult2_eq[of _ 4096 512, simplified])
    ultimately show ?thesis using lt by simp
  qed
  then show "abs_page b (uvm_va_block_num_cpu_pages b) \<le> abs_page b 0 div 512 * 512 + 512"
    using SE S by (simp add: abs_page_def n)
qed

lemma div_scaled_down: "4096 * x div (4096 * m) * (4096 * m) = 4096 * (x div m * m :: nat)"
  by (simp add: div_mult2_eq)

lemma div_scaled_up: "0 < m \<Longrightarrow> (4096 * x + (4096 * m - 1)) div (4096 * m) * (4096 * m) = 4096 * ((x + (m - 1)) div m * m :: nat)"
proof -
  assume "0 < m"
  then have "4096 * x + (4096 * m - 1) = 4096 * (x + (m - 1)) + 4095" by (simp add: algebra_simps)
  then have "(4096 * x + (4096 * m - 1)) div 4096 = x + (m - 1)" by simp
  then show ?thesis by (simp add: div_mult2_eq)
qed

lemma region_addresses:
  assumes b: "prefetch_block_ok b" and mr: "first mr < outer mr" "outer mr \<le> uvm_va_block_num_cpu_pages b"
  shows "unat (uvm_va_block_region_start b mr) = 4096 * abs_page b (first mr)"
    and "unat (uvm_va_block_region_end b mr + 1) = 4096 * abs_page b (outer mr)"
proof -
  note P = prefetch_block_pages[OF b]
  have "unat (block_end b) < 2 ^ 63" using b by (simp add: prefetch_block_ok_def word_less_nat_alt)
  then have top: "4096 * abs_page b (uvm_va_block_num_cpu_pages b) \<le> 2 ^ 63" using P(2) by linarith
  have "unat (block_start b + of_nat (i * PAGE_SIZE)) = 4096 * abs_page b i"
    if "i \<le> uvm_va_block_num_cpu_pages b" for i
  proof -
    have "4096 * abs_page b i \<le> 2 ^ 63" using that top by (simp add: abs_page_def)
    moreover have "4096 * abs_page b i = unat (block_start b) + i * PAGE_SIZE"
      using P(1) by (simp add: abs_page_def PAGE_SIZE_def)
    ultimately show ?thesis
      by (simp add: unat_word_ariths unat_of_nat PAGE_SIZE_def mod_add_right_eq)
  qed
  with mr show "unat (uvm_va_block_region_start b mr) = 4096 * abs_page b (first mr)"
    "unat (uvm_va_block_region_end b mr + 1) = 4096 * abs_page b (outer mr)"
    by (simp_all add: uvm_va_block_region_start_def uvm_va_block_region_end_def)
qed

lemma big_page_region_subset_eq:
  assumes b: "prefetch_block_ok b" and mr: "first mr < outer mr" "outer mr \<le> uvm_va_block_num_cpu_pages b"
    and k: "12 \<le> k" "k < 63"
  defines "m \<equiv> 2 ^ (k - 12)"
  defines "F \<equiv> (abs_page b (first mr) + (m - 1)) div m * m" and "U \<equiv> abs_page b (outer mr) div m * m"
  shows "uvm_va_block_big_page_region_subset b mr (2 ^ k) =
    (if U \<le> F then uvm_va_block_region 0 0
     else uvm_va_block_region (F - abs_page b 0) (U - abs_page b 0))"
proof -
  let ?A = "abs_page b (first mr)"
  note adr = region_addresses[OF b mr]
  have pk: "(2 :: nat) ^ k = 4096 * m"
    using k power_add[of "2 :: nat" 12 "k - 12"] by (simp add: m_def)
  have m0: "0 < m" by (simp add: m_def)
  have top: "unat (uvm_va_block_region_start b mr) < 2 ^ 63"
  proof -
    have "?A < abs_page b (uvm_va_block_num_cpu_pages b)" using mr by (simp add: abs_page_def)
    moreover have "unat (block_end b) < 2 ^ 63" using b by (simp add: prefetch_block_ok_def word_less_nat_alt)
    ultimately show ?thesis using adr(1) prefetch_block_pages(2)[OF b] by linarith
  qed
  have F: "unat (UVM_ALIGN_UP (uvm_va_block_region_start b mr) (2 ^ k)) = 4096 * F"
    using unat_align_up[OF k(2) top] unfolding adr(1) pk F_def div_scaled_up[OF m0] .
  have U: "unat (UVM_ALIGN_DOWN (uvm_va_block_region_end b mr + 1) (2 ^ k)) = 4096 * U"
    unfolding unat_align_down adr(2) pk U_def div_scaled_down ..
  have AF: "?A \<le> F"
    using div_mult_mod_eq[of "?A + (m - 1)" m] mod_less_divisor[OF m0, of "?A + (m - 1)"] unfolding F_def by linarith
  have sub: "unat (x - uvm_va_block_region_start b mr) div 4096 = y - ?A" if "unat x = 4096 * y" "?A \<le> y" for x y
    using that adr(1) by (simp add: unat_sub word_le_nat_alt flip: diff_mult_distrib2)
  have A: "?A = abs_page b 0 + first mr" by (simp add: abs_page_def)
  show ?thesis
  proof (cases "U \<le> F")
    case True
    then show ?thesis
      by (simp add: uvm_va_block_big_page_region_subset_def range_big_page_region_all_def Let_def word_le_nat_alt F U)
  next
    case False
    then have lt: "\<not> UVM_ALIGN_DOWN (uvm_va_block_region_end b mr + 1) (2 ^ k)
        \<le> UVM_ALIGN_UP (uvm_va_block_region_start b mr) (2 ^ k)" by (simp add: word_le_nat_alt F U)
    have AU: "?A \<le> U" "0 < U - ?A" using AF False by auto
    have "F - ?A + first mr = F - abs_page b 0" "U - ?A + first mr = U - abs_page b 0"
      using AF AU A by linarith+
    with False lt AU(2) sub[OF F AF] sub[OF U AU(1)] show ?thesis
      by (simp add: uvm_va_block_big_page_region_subset_def range_big_page_region_all_def Let_def PAGE_SIZE_def)
  qed
qed

lemma align_up_gap:
  fixes A m :: nat
  assumes "0 < m"
  defines "F \<equiv> (A + (m - 1)) div m * m"
  shows "A \<le> F" and "F - A < m" and "A < F \<Longrightarrow> m - (F - A) = A mod m" and "F = A \<Longrightarrow> A mod m = 0"
proof -
  have F: "F + (A + (m - 1)) mod m = A + (m - 1)" unfolding F_def by simp
  have r: "(A + (m - 1)) mod m < m" using assms(1) by simp
  show "A \<le> F" "F - A < m" using F r assms(1) by linarith+
  show "F = A \<Longrightarrow> A mod m = 0" by (metis F_def mod_mult_self2_is_0)
  assume "A < F"
  then obtain c where "(A + (m - 1)) div m = Suc c" by (cases "(A + (m - 1)) div m") (auto simp: F_def)
  then have "F = c * m + m" by (simp add: F_def)
  with \<open>A < F\<close> \<open>F - A < m\<close> have "A = m - (F - A) + c * m" "m - (F - A) < m" by linarith+
  then show "m - (F - A) = A mod m" by (metis mod_less mod_mult_self1 mult.commute)
qed

lemma align_within_block:
  assumes "m dvd (512 :: nat)"
  shows "A div 512 * 512 \<le> A - A mod m"
proof -
  obtain q where q: "512 = m * q" using assms by (rule dvdE)
  have "A div 512 * 512 = A div m div q * q * m" unfolding q by (simp add: div_mult2_eq)
  also have "\<dots> \<le> A div m * m" by (intro mult_le_mono1) simp
  also have "\<dots> = A - A mod m" by (simp add: minus_mod_eq_div_mult)
  finally show ?thesis .
qed

text \<open>Building the tree of a block keeps what the code asserts: the offset is smaller than a big
  page, the leaves fit into a page mask, and the tree covers the region. If the region holds a whole
  big page for the new residency, leaf zero of the tree is aligned to a big page of the address space.\<close>

theorem update_bitmap_tree_from_va_block_aligned:
  fixes rm :: "page_mask option" and faulted :: page_mask
  assumes b: "prefetch_block_ok b" and mr: "first mr < outer mr" "outer mr \<le> uvm_va_block_num_cpu_pages b"
    and k: "residency_big_page_size env p = 2 ^ k" "16 \<le> k" "k \<le> 21"
  defines "t \<equiv> update_bitmap_tree_from_va_block env (init_bitmap_tree_from_region mr rm faulted) b p faulted mr"
  shows "prefetch_tree_ok t mr \<and> offset t < 2 ^ (k - 12) \<and> leaf_count t \<le> PAGES_PER_UVM_VA_BLOCK \<and>
    (outer (uvm_va_block_big_page_region_subset b mr (2 ^ k)) \<noteq> 0 \<longrightarrow>
       offset t = abs_page b (first mr) mod 2 ^ (k - 12))"
proof -
  define m :: nat where "m = 2 ^ (k - 12)"
  let ?A = "abs_page b (first mr)" and ?E = "abs_page b (outer mr)"
  define F where "F = (?A + (m - 1)) div m * m"
  have m0: "0 < m" and mdvd: "m dvd 512"
  proof -
    have "m dvd 2 ^ 9" unfolding m_def using k by (intro le_imp_power_dvd) simp
    then show "0 < m" "m dvd 512" by (auto simp: m_def)
  qed
  note gap = align_up_gap[OF m0, of ?A, folded F_def]
  have br: "uvm_va_block_big_page_region_subset b mr (2 ^ k) =
    (if ?E div m * m \<le> F then uvm_va_block_region 0 0
     else uvm_va_block_region (F - abs_page b 0) (?E div m * m - abs_page b 0))"
    unfolding m_def F_def using k by (intro big_page_region_subset_eq[OF b mr]) auto
  have pb: "(2 :: nat) ^ k div PAGE_SIZE = m"
    using k power_add[of "2 :: nat" 12 "k - 12"] by (simp add: m_def PAGE_SIZE_def)
  have A: "?A = abs_page b 0 + first mr" "?E = abs_page b 0 + outer mr" by (simp_all add: abs_page_def)
  have leaf: "leaf_count t = outer mr - first mr + offset t"
    and off: "offset t = (if \<not> ?E div m * m \<le> F \<and> ?A < F then m - (F - ?A) else 0)"
    unfolding t_def update_bitmap_tree_from_va_block_def Let_def k(1) br pb
    using A by (auto simp: init_bitmap_tree_from_region_def uvm_va_block_region_num_pages_def Let_def)
  have offm: "offset t \<le> ?A mod m" "offset t < m" using off gap m0 by auto
  have "?E \<le> ?A div 512 * 512 + 512"
  proof -
    have "?E \<le> abs_page b (uvm_va_block_num_cpu_pages b)" using mr by (simp add: abs_page_def)
    also have "\<dots> \<le> abs_page b 0 div 512 * 512 + 512" by (rule prefetch_block_pages(3)[OF b])
    also have "\<dots> \<le> ?A div 512 * 512 + 512" by (simp add: A div_le_mono)
    finally show ?thesis .
  qed
  moreover have "?A div 512 * 512 \<le> ?A - ?A mod m" by (rule align_within_block[OF mdvd])
  moreover have "?A mod m \<le> ?A" by simp
  ultimately have "leaf_count t \<le> 512" using leaf offm(1) A mr(1) by linarith
  moreover have "prefetch_tree_ok t mr"
    unfolding t_def by (intro update_bitmap_tree_ok mr(1) init_bitmap_tree_ok)
  moreover have "offset t = ?A mod m" if "outer (uvm_va_block_big_page_region_subset b mr (2 ^ k)) \<noteq> 0"
  proof -
    have "\<not> ?E div m * m \<le> F" using that br by (auto split: if_splits)
    with off gap show ?thesis by (cases "?A < F") auto
  qed
  ultimately show ?thesis using offm(2) by (auto simp: m_def PAGES_PER_UVM_VA_BLOCK_def PAGE_SIZE_def)
qed

section \<open>Hints\<close>

definition range_group_region :: "prefetch_block \<Rightarrow> range_node \<Rightarrow> va_block_region" where
  "range_group_region b rgr =
     uvm_va_block_region_from_start_end b (max (node_start rgr) (block_start b)) (min (node_end rgr) (block_end b))"

lemma drop_idle_range_groups_spec:
  assumes "drop_idle_range_groups b faulted rgrs (p, c) = (p', c')"
  shows "p' \<subseteq> p \<and> (\<not> c' \<longrightarrow> p' = p) \<and>
    (\<forall>rgr\<in>set rgrs. faulted \<inter> region_pages (range_group_region b rgr) = {} \<longrightarrow>
       p' \<inter> region_pages (range_group_region b rgr) = {}) \<and> (c \<longrightarrow> c')"
  using assms
proof (induction rgrs arbitrary: p c)
  case (Cons rgr rgrs)
  let ?r = "range_group_region b rgr"
  let ?idle = "uvm_page_mask_region_empty faulted ?r \<and> \<not> uvm_page_mask_region_empty p ?r"
  from Cons.prems have "drop_idle_range_groups b faulted rgrs
      (if ?idle then (uvm_page_mask_region_clear p ?r, True) else (p, c)) = (p', c')"
    by (simp add: Let_def flip: range_group_region_def)
  then show ?case
  proof (cases ?idle)
    case True
    with Cons have "drop_idle_range_groups b faulted rgrs (uvm_page_mask_region_clear p ?r, True) = (p', c')"
      by (simp add: Let_def flip: range_group_region_def)
    from Cons.IH[OF this] show ?thesis by (auto simp: uvm_page_mask_region_clear_def)
  next
    case False
    with Cons.prems have "drop_idle_range_groups b faulted rgrs (p, c) = (p', c')"
      by (simp add: Let_def del: de_Morgan_conj flip: range_group_region_def)
    from Cons.IH[OF this] show ?thesis using False by (auto simp: uvm_page_mask_region_empty_def)
  qed
qed simp

lemma weight_pos_iff: "m \<subseteq> {..<PAGES_PER_UVM_VA_BLOCK} \<Longrightarrow> uvm_page_mask_weight m > 0 \<longleftrightarrow> m \<noteq> {}"
  by (auto simp: uvm_page_mask_weight_def bitmap_weight_def Int_absorb2 card_gt_0_iff finite_subset)

definition fault_count :: "prefetch_block \<Rightarrow> processor_id \<Rightarrow> page_mask \<Rightarrow> va_block_region \<Rightarrow> NvU16" where
  "fault_count b p faulted fr =
     (if last_migration_proc_id b = p then fault_migrations_to_last_proc b else 0) +
     of_nat (uvm_page_mask_region_weight faulted fr)"

definition skipped_pages :: "'p prefetch_env \<Rightarrow> prefetch_block \<Rightarrow> processor_id \<Rightarrow> page_mask \<Rightarrow> page_mask" where
  "skipped_pages env b p faulted =
     faulted \<union> (case thrashing_pages env of Some th \<Rightarrow> th | None \<Rightarrow> {}) \<union>
     (if p = CPU \<and> \<not> is_hmm b then cpu_resident b \<inter> cpu_pte_read b else {})"

lemma prenotify_spec:
  assumes mr: "first (max_prefetch_region env b) < outer (max_prefetch_region env b)"
    and sub: "faulted \<inter> region_pages fr \<subseteq> region_pages (max_prefetch_region env b)"
    and eq: "uvm_perf_prefetch_prenotify_fault_migrations g env b p faulted fr = (pending, m, b')"
  shows "pending = uvm_page_mask_weight m \<and> m \<subseteq> region_pages (max_prefetch_region env b) \<and>
    m \<inter> skipped_pages env b p faulted = {} \<and>
    b' = b\<lparr>last_migration_proc_id := p, fault_migrations_to_last_proc := fault_count b p faulted fr\<rparr>"
proof -
  define b1 where "b1 = (if last_migration_proc_id b \<noteq> p
    then b\<lparr>last_migration_proc_id := p, fault_migrations_to_last_proc := 0\<rparr> else b)"
  let ?mr = "max_prefetch_region env b"
  define raw where "raw =
    (if resident b = {} \<and> p = preferred_location env then uvm_page_mask_region_fill {} ?mr
     else compute_prefetch_mask (prefetch_threshold g) fr ?mr
       (update_bitmap_tree_from_va_block env
          (init_bitmap_tree_from_region ?mr (resident_mask_of b p) faulted) b1 p faulted ?mr)
       (case thrashing_pages env of Some th \<Rightarrow> faulted - th | None \<Rightarrow> faulted))"
  have b1: "is_hmm b1 = is_hmm b" "resident b1 = resident b" "cpu_resident b1 = cpu_resident b"
    "cpu_pte_read b1 = cpu_pte_read b" "max_prefetch_region env b1 = ?mr" "resident_mask_of b1 p = resident_mask_of b p"
    by (simp_all add: b1_def max_prefetch_region_def uvm_va_block_region_from_block_def
        uvm_va_block_num_cpu_pages_def resident_mask_of_def split: processor_id.split)
  have b': "b1\<lparr>fault_migrations_to_last_proc := fault_migrations_to_last_proc b1 +
      of_nat (uvm_page_mask_region_weight faulted fr)\<rparr> =
    b\<lparr>last_migration_proc_id := p, fault_migrations_to_last_proc := fault_count b p faulted fr\<rparr>"
    by (auto simp: b1_def fault_count_def)
  have "raw \<subseteq> region_pages ?mr"
  proof -
    have "(case thrashing_pages env of Some th \<Rightarrow> faulted - th | None \<Rightarrow> faulted) \<inter> region_pages fr
      \<subseteq> region_pages ?mr" using sub by (auto split: option.splits)
    note C = compute_prefetch_mask_in_max[OF update_bitmap_tree_ok[OF mr init_bitmap_tree_ok[OF mr]] this]
    show ?thesis unfolding raw_def
      by (rule if_split[THEN iffD2]) (simp add: uvm_page_mask_region_fill_def C)
  qed
  moreover from eq have "m = (case thrashing_pages env of
      Some th \<Rightarrow> (if p = CPU \<and> \<not> is_hmm b then raw - faulted - (cpu_resident b \<inter> cpu_pte_read b) else raw - faulted) - th
    | None \<Rightarrow> (if p = CPU \<and> \<not> is_hmm b then raw - faulted - (cpu_resident b \<inter> cpu_pte_read b) else raw - faulted))"
    "pending = uvm_page_mask_weight m"
    "b' = b\<lparr>last_migration_proc_id := p, fault_migrations_to_last_proc := fault_count b p faulted fr\<rparr>"
    unfolding uvm_perf_prefetch_prenotify_fault_migrations_def Let_def b1_def[symmetric] b1 raw_def[symmetric] b'
    by (simp, metis prod.inject, simp)
  ultimately show ?thesis by (auto simp: skipped_pages_def split: option.splits if_splits)
qed

text \<open>C25. A prefetch hint is safe and useful: the pages it names lie in the region the block may prefetch,
  none of them is already faulting, thrashing, or (for a migration to the CPU of a managed block) resident and mapped
  on the CPU. A hint is given only when prefetching is enabled and the
  faults that went to this processor in a row reach the minimum; it then names the processor of the fault, it has at least one page, and
  no page of a range group range of the block in which nothing faulted. Of the block only the
  fault history changes.\<close>

theorem uvm_perf_prefetch_get_hint_va_block_safe:
  assumes mr: "first (max_prefetch_region env b) < outer (max_prefetch_region env b)"
      "outer (max_prefetch_region env b) \<le> PAGES_PER_UVM_VA_BLOCK"
    and sub: "faulted \<inter> region_pages fr \<subseteq> region_pages (max_prefetch_region env b)"
    and rg: "range_tree_ok (range_groups env)" and b: "block_start b \<le> block_end b"
    and p: "p \<noteq> UVM_ID_INVALID"
    and eq: "uvm_perf_prefetch_get_hint_va_block g env b p faulted fr = (hint, b')"
  shows "prefetch_pages_mask hint \<subseteq> region_pages (max_prefetch_region env b) \<and>
    prefetch_pages_mask hint \<inter> skipped_pages env b p faulted = {} \<and>
    residency hint \<in> {p, UVM_ID_INVALID} \<and>
    (residency hint = p \<longrightarrow>
       uvm_perf_prefetch_enabled g env \<and> prefetch_min_faults g \<le> unat (fault_count b p faulted fr) \<and>
       prefetch_pages_mask hint \<noteq> {} \<and>
       (\<forall>n\<in>set (head (range_groups env)).
          let rgr = node_mem (range_groups env) n in
          uvm_ranges_overlap (node_start rgr) (node_end rgr) (block_start b) (block_end b) \<and>
          faulted \<inter> region_pages (range_group_region b rgr) = {} \<longrightarrow>
          prefetch_pages_mask hint \<inter> region_pages (range_group_region b rgr) = {})) \<and>
    b' = (if uvm_perf_prefetch_enabled g env
          then b\<lparr>last_migration_proc_id := p, fault_migrations_to_last_proc := fault_count b p faulted fr\<rparr>
          else b)"
proof (cases "uvm_perf_prefetch_enabled g env")
  case False
  with eq p show ?thesis by (auto simp: uvm_perf_prefetch_get_hint_va_block_def)
next
  case True
  obtain pending m b1 where pre:
      "uvm_perf_prefetch_prenotify_fault_migrations g env b p faulted fr = (pending, m, b1)"
    by (metis prod_cases3)
  note S = prenotify_spec[OF mr(1) sub pre]
  have fields: "block_start b1 = block_start b" "block_end b1 = block_end b" "last_migration_proc_id b1 = p"
    "fault_migrations_to_last_proc b1 = fault_count b p faulted fr" "range_group_region b1 = range_group_region b"
    using S by (auto simp: range_group_region_def uvm_va_block_region_from_start_end_def
        uvm_va_block_cpu_page_index_def fun_eq_iff)
  let ?rgrs = "map (node_mem (range_groups env))
    (uvm_range_tree_for_each_in (range_groups env) (block_start b) (block_end b))"
  obtain m' c where dr: "drop_idle_range_groups b1 faulted ?rgrs (m, False) = (m', c)" by fastforce
  note D = drop_idle_range_groups_spec[OF dr, unfolded fields]
  have sub512: "m \<subseteq> {..<PAGES_PER_UVM_VA_BLOCK}" using S mr(2) by auto
  then have sub512': "m' \<subseteq> {..<PAGES_PER_UVM_VA_BLOCK}" using D by auto
  show ?thesis
  proof (cases "prefetch_min_faults g \<le> unat (fault_count b p faulted fr) \<and> pending > 0")
    case go: True
    have pend: "(if c then uvm_page_mask_weight m' else pending) > 0 \<longleftrightarrow> m' \<noteq> {}"
      using D S weight_pos_iff[OF sub512] weight_pos_iff[OF sub512'] by auto
    have "uvm_perf_prefetch_get_hint_va_block g env b p faulted fr =
        (\<lparr>prefetch_pages_mask = m', residency = (if m' \<noteq> {} then p else UVM_ID_INVALID)\<rparr>, b1)"
      unfolding uvm_perf_prefetch_get_hint_va_block_def pre
      using True go by (simp add: fields dr Let_def pend del: if_split)
    then have h: "hint = \<lparr>prefetch_pages_mask = m', residency = (if m' \<noteq> {} then p else UVM_ID_INVALID)\<rparr>"
        "b' = b1" using eq by simp_all
    have groups: "\<forall>n\<in>set (head (range_groups env)).
        let rgr = node_mem (range_groups env) n in
        uvm_ranges_overlap (node_start rgr) (node_end rgr) (block_start b) (block_end b) \<and>
        faulted \<inter> region_pages (range_group_region b rgr) = {} \<longrightarrow>
        m' \<inter> region_pages (range_group_region b rgr) = {}"
      using D unfolding uvm_range_tree_for_each_in_eq[OF rg b] Let_def by simp
    show ?thesis using True go S D h groups p by (simp add: Int_subset_iff) blast
  next
    case False
    then have "hint = \<lparr>prefetch_pages_mask = m, residency = UVM_ID_INVALID\<rparr>" "b' = b1"
      using eq True pre by (auto simp: uvm_perf_prefetch_get_hint_va_block_def Let_def fields split: if_splits)
    then show ?thesis using True S p by simp
  qed
qed

lemma largest_dense_unique: "largest_dense th t n k \<Longrightarrow> largest_dense th t n j \<Longrightarrow> k = j"
  by (metis largest_dense_def linorder_neqE_nat)

text \<open>When the dense subtree begins in the alignment gap in front of the region, the clamp starts the
  prefetch region at the page whose index is the tree offset instead of the first page of the region: every
  page of the region below that index is dropped, even the faulting one, and the region the code computes may
  end before it starts.\<close>

theorem compute_prefetch_region_gap_drops_pages:
  assumes ok: "prefetch_tree_ok t mr" and p: "p \<in> region_pages mr"
    and k: "largest_dense threshold t (leaf_of t mr p) k"
    and gap: "first mr + first (tree_node t (leaf_of t mr p) k) < offset t"
  shows "compute_prefetch_region threshold p t mr =
      uvm_va_block_region (offset t) (first mr + outer (tree_node t (leaf_of t mr p) k) - offset t) \<and>
    (\<forall>q<offset t. q \<notin> region_pages (compute_prefetch_region threshold p t mr))"
  using ok p
proof (cases rule: compute_prefetch_region_cases[where threshold = threshold])
  case none
  with k show ?thesis by (auto simp: largest_dense_def)
next
  case (some j)
  then have "j = k" using k by (metis largest_dense_unique)
  with some gap show ?thesis by (simp add: clamp_first_def Let_def add.commute)
qed

section \<open>Concrete blocks\<close>

definition gap_tree :: bitmap_tree where
  "gap_tree = \<lparr>pages = {9..<16}, offset = 9, leaf_count = 73, level_count = 8\<rparr>"

definition gap_region :: va_block_region where "gap_region = \<lparr>first = 0, outer = 64\<rparr>"

lemma gap_tree_ok: "prefetch_tree_ok gap_tree gap_region"
  by (auto simp: prefetch_tree_ok_def gap_tree_def gap_region_def)

lemma gap_dense: "dense 51 gap_tree (tree_node gap_tree 9 k) \<longleftrightarrow> k = 0 \<or> k = 2 \<or> k = 3" if "k < 8"
proof -
  have "k \<in> {0, 1, 2, 3, 4, 5, 6, 7}" using that by auto
  then show ?thesis
    by (auto simp: dense_def tree_node_def gap_tree_def uvm_va_block_region_num_pages_def)
qed

lemma gap_largest: "largest_dense 51 gap_tree (leaf_of gap_tree gap_region 0) 3"
  using gap_dense by (auto simp: largest_dense_def leaf_of_def gap_tree_def gap_region_def)

theorem compute_prefetch_region_gap_drops_pages_witness:
  "compute_prefetch_region 51 0 gap_tree gap_region = uvm_va_block_region 9 7 \<and>
   0 \<notin> region_pages (compute_prefetch_region 51 0 gap_tree gap_region)"
  using compute_prefetch_region_gap_drops_pages[OF gap_tree_ok _ gap_largest]
  by (simp add: leaf_of_def tree_node_def gap_tree_def gap_region_def)

definition half_tree :: bitmap_tree where
  "half_tree = \<lparr>pages = {4, 5, 6}, offset = 0, leaf_count = 16, level_count = 5\<rparr>"

definition half_region :: va_block_region where "half_region = \<lparr>first = 16, outer = 32\<rparr>"

lemma half_dense: "dense 51 half_tree (tree_node half_tree 5 k) \<longleftrightarrow> k \<le> 2" if "k < 5"
proof -
  have i: "{4, 5, 6} = {4..<7 :: nat}" by auto
  have "k \<in> {0, 1, 2, 3, 4}" using that by auto
  then show ?thesis
    by (auto simp: dense_def tree_node_def half_tree_def uvm_va_block_region_num_pages_def i)
qed

theorem compute_prefetch_region_largest_witness:
  "region_pages (compute_prefetch_region 51 21 half_tree half_region) = {20..<24}"
proof -
  have ok: "prefetch_tree_ok half_tree half_region" and p: "21 \<in> region_pages half_region"
    by (auto simp: prefetch_tree_ok_def half_tree_def half_region_def)
  have n: "leaf_of half_tree half_region 21 = 5" by (simp add: leaf_of_def half_tree_def half_region_def)
  have ex: "\<exists>k<level_count half_tree. dense 51 half_tree (tree_node half_tree 5 k)"
    by (intro exI[of _ 2]) (simp add: half_dense, simp add: half_tree_def)
  from compute_prefetch_region_largest[OF ok p, of 51, unfolded n if_P[OF ex]]
  obtain k where k: "largest_dense 51 half_tree 5 k" and
    r: "region_pages (compute_prefetch_region 51 21 half_tree half_region) =
      {q \<in> region_pages half_region. leaf_of half_tree half_region q \<in> region_pages (tree_node half_tree 5 k)}"
    by (auto simp: half_tree_def)
  have "largest_dense 51 half_tree 5 2"
    using half_dense by (auto simp: largest_dense_def half_tree_def)
  with k have "k = 2" by (metis largest_dense_unique)
  then show ?thesis unfolding r
    by (auto simp: leaf_of_def tree_node_def half_tree_def half_region_def)
qed

definition gap_block :: prefetch_block where
  "gap_block = \<lparr>block_start = 0x409000, block_end = 0x448FFF, is_hmm = False, resident = {CPU},
     cpu_resident = {}, gpu_resident = (\<lambda>_. None), cpu_pte_read = {},
     last_migration_proc_id = UVM_ID_INVALID, fault_migrations_to_last_proc = 0\<rparr>"

definition plain_env :: "nat prefetch_env" where
  "plain_env = \<lparr>thrashing_pages = Some {40}, preferred_location = UVM_ID_INVALID,
     hmm_prefetch_region = uvm_va_block_region 0 0, gpu_big_page_size = (\<lambda>_. None),
     range_groups = sample_tree, page_prefetch_enabled = True\<rparr>"

lemma gap_block_ok: "prefetch_block_ok gap_block"
  by (simp add: prefetch_block_ok_def gap_block_def dvd_eq_mod_eq_0)

lemma gap_block_pages: "uvm_va_block_num_cpu_pages gap_block = 64"
  by (simp add: uvm_va_block_num_cpu_pages_def gap_block_def PAGE_SIZE_def)

lemma gap_block_region: "max_prefetch_region plain_env gap_block = \<lparr>first = 0, outer = 64\<rparr>"
  using gap_block_pages
  by (simp add: max_prefetch_region_def uvm_va_block_region_from_block_def uvm_va_block_region_def)
    (simp add: gap_block_def)

theorem update_bitmap_tree_from_va_block_aligned_witness:
  "offset (update_bitmap_tree_from_va_block plain_env
     (init_bitmap_tree_from_region gap_region None {0}) gap_block CPU {0} gap_region) = 9"
proof -
  have "uvm_va_block_big_page_region_subset gap_block gap_region (2 ^ 16) = uvm_va_block_region 7 55"
    using big_page_region_subset_eq[OF gap_block_ok, of gap_region 16] gap_block_pages
    by (simp add: gap_region_def abs_page_def) (simp add: gap_block_def)
  moreover have "residency_big_page_size plain_env CPU = 2 ^ 16"
    by (simp add: residency_big_page_size_def UVM_PAGE_SIZE_64K_def)
  ultimately show ?thesis
    using update_bitmap_tree_from_va_block_aligned[OF gap_block_ok, of gap_region plain_env CPU 16 None "{0}"]
      gap_block_pages
    by (simp add: gap_region_def abs_page_def) (simp add: gap_block_def)
qed

theorem uvm_perf_prefetch_get_hint_va_block_safe_witness:
  "\<exists>hint b'. uvm_perf_prefetch_get_hint_va_block (snd (uvm_perf_prefetch_init 1 51 1)) plain_env gap_block CPU {0, 3}
      \<lparr>first = 0, outer = 8\<rparr> = (hint, b') \<and>
    prefetch_pages_mask hint \<subseteq> {0..<64} - {0, 3, 40} \<and> fault_migrations_to_last_proc b' = 2"
proof -
  let ?g = "snd (uvm_perf_prefetch_init 1 51 1)"
  obtain hint b' where eq: "uvm_perf_prefetch_get_hint_va_block ?g plain_env gap_block CPU {0, 3}
      \<lparr>first = 0, outer = 8\<rparr> = (hint, b')" by fastforce
  have ok: "range_tree_ok (range_groups plain_env)" by (simp add: plain_env_def sample_tree_ok)
  have en: "uvm_perf_prefetch_enabled ?g plain_env"
    by (simp add: uvm_perf_prefetch_enabled_def uvm_perf_prefetch_init_def plain_env_def)
  have "{0, 3} \<inter> {..<8} = {0, 3 :: nat}" by auto
  then have w: "fault_count gap_block CPU {0, 3} \<lparr>first = 0, outer = 8\<rparr> = 2"
    by (simp add: fault_count_def gap_block_def uvm_page_mask_region_weight_def bitmap_weight_def)
  have sk: "{0, 3, 40} \<subseteq> skipped_pages plain_env gap_block CPU {0, 3}"
    by (auto simp: skipped_pages_def plain_env_def)
  have "prefetch_pages_mask hint \<subseteq> {0..<64} - {0, 3, 40} \<and> fault_migrations_to_last_proc b' = 2"
    using uvm_perf_prefetch_get_hint_va_block_safe[OF _ _ _ ok _ _ eq] en w sk
    by (simp add: gap_block_region PAGES_PER_UVM_VA_BLOCK_def PAGE_SIZE_def) (auto simp: gap_block_def)
  with eq show ?thesis by blast
qed

lemma tree_node_same:
  assumes "n < leaf_count t" "n \<le> n'" "n' < outer (tree_node t n k)" "k \<le> j"
  shows "tree_node t n' j = tree_node t n j"
proof -
  let ?s = "n div 2 ^ k * 2 ^ k"
  have "?s \<le> n" by simp
  then have "?s \<le> n'" using assms(2) by (rule order_trans)
  moreover have "n' < ?s + 2 ^ k" using assms(3) by (simp add: tree_node_def)
  ultimately have "n' div 2 ^ k = n div 2 ^ k"
    by (intro div_nat_eqI) (auto simp: algebra_simps)
  moreover have "m div 2 ^ j = m div 2 ^ k div 2 ^ (j - k)" for m :: nat
    using assms(4) by (simp flip: div_mult2_eq power_add)
  ultimately have "n' div 2 ^ j = n div 2 ^ j" by metis
  then show ?thesis by (simp add: tree_node_def)
qed

lemma compute_prefetch_region_to_end:
  assumes ok: "prefetch_tree_ok t mr" and p: "p \<in> region_pages mr" and q: "q \<in> region_pages mr" "p \<le> q"
    and end_: "outer (compute_prefetch_region threshold p t mr) = outer mr"
  shows "compute_prefetch_region threshold q t mr = compute_prefetch_region threshold p t mr"
  using ok p
proof (cases rule: compute_prefetch_region_cases[where threshold = threshold])
  case none
  then show ?thesis using end_ p by simp
next
  case (some k)
  let ?n = "leaf_of t mr p" and ?n' = "leaf_of t mr q"
  note n = leaf_of_less[OF ok p] and n' = leaf_of_less[OF ok q(1)]
  have "outer (tree_node t ?n k) = leaf_count t"
    using some(2) end_ tree_node_contains(3)[OF n, of k] ok p by (auto simp: prefetch_tree_ok_def)
  then have same: "tree_node t ?n' j = tree_node t ?n j" if "k \<le> j" for j
    using that n n' q(2) by (intro tree_node_same[of _ _ _ k]) (auto simp: leaf_of_def)
  then have "largest_dense threshold t ?n' k" using some(1) by (auto simp: largest_dense_def)
  from ok q(1) show ?thesis
  proof (cases rule: compute_prefetch_region_cases[where threshold = threshold])
    case none
    then show ?thesis using \<open>largest_dense threshold t ?n' k\<close> by (auto simp: largest_dense_def)
  next
    case (some j)
    then have "j = k" using \<open>largest_dense threshold t ?n' k\<close> by (metis largest_dense_unique)
    then show ?thesis using some(2) same[of k] \<open>compute_prefetch_region threshold p t mr = _\<close> by simp
  qed
qed

lemma prefetch_pages_loop_union:
  assumes ok: "prefetch_tree_ok t mr"
  shows "sorted is \<Longrightarrow> set is \<subseteq> region_pages mr \<Longrightarrow>
    prefetch_pages_loop threshold mr t is out =
      out \<union> (\<Union>p\<in>set is. region_pages (compute_prefetch_region threshold p t mr))"
proof (induction "is" arbitrary: out)
  case (Cons i "is")
  let ?r = "\<lambda>p. compute_prefetch_region threshold p t mr"
  show ?case
  proof (cases "outer (?r i) = outer mr")
    case True
    have "?r p = ?r i" if "p \<in> set is" for p
      using Cons.prems that by (intro compute_prefetch_region_to_end[OF ok _ _ _ True]) auto
    then have "(\<Union>p\<in>set (i # is). region_pages (?r p)) = region_pages (?r i)" by auto
    with True show ?thesis by (simp add: Let_def uvm_page_mask_region_fill_def)
  next
    case False
    with Cons show ?thesis by (auto simp: Let_def uvm_page_mask_region_fill_def)
  qed
qed simp

text \<open>C37. The early exit of the prefetch loop is only an optimisation: the mask is the union of the prefetch regions of all
  faulted pages of the faulted region. This gives the masks of the ATS path, where the tree starts at the region itself.\<close>

theorem compute_prefetch_mask_union:
  assumes "first mr < outer mr" and "faulted \<inter> region_pages fr \<subseteq> region_pages mr"
    and "uvm_perf_prefetch_enabled g env"
  shows "uvm_perf_prefetch_compute_ats g env faulted fr mr rm =
    (\<Union>p \<in> faulted \<inter> region_pages fr. region_pages (compute_prefetch_region (prefetch_threshold g) p
       (init_bitmap_tree_from_region mr rm faulted) mr)) \<and>
    uvm_perf_prefetch_compute_ats g env faulted fr mr rm \<subseteq> region_pages mr"
proof -
  have "set (pages_in_region_mask faulted fr) = faulted \<inter> region_pages fr"
    "sorted (pages_in_region_mask faulted fr)"
    by (auto simp: pages_in_region_mask_def sorted_wrt_filter)
  then show ?thesis
    using assms prefetch_pages_loop_union[OF init_bitmap_tree_ok[OF assms(1)], of "pages_in_region_mask faulted fr"]
      compute_prefetch_mask_in_max[OF init_bitmap_tree_ok[OF assms(1)] assms(2)]
    by (simp add: uvm_perf_prefetch_compute_ats_def compute_prefetch_mask_def)
qed

theorem compute_prefetch_mask_union_witness:
  "uvm_perf_prefetch_compute_ats (snd (uvm_perf_prefetch_init 1 51 1)) plain_env {20, 21} gap_region gap_region None
     \<subseteq> {0..<64}"
proof -
  have "uvm_perf_prefetch_enabled (snd (uvm_perf_prefetch_init 1 51 1)) plain_env"
    by (simp add: uvm_perf_prefetch_enabled_def uvm_perf_prefetch_init_def plain_env_def)
  from compute_prefetch_mask_union[OF _ _ this, of gap_region "{20, 21}" gap_region None]
  show ?thesis by (simp only: gap_region_def) (simp add: subset_iff)
qed

end
