(* ===== verification/Mmu_Hal.thy ===== *)
theory Mmu_Hal
  imports Uvm_Prelude
begin

text \<open>
  The page table formats of the GPU generations: the bit patterns of PTEs and PDEs that
  \<^verbatim>\<open>uvm_pascal_mmu.c\<close>, \<^verbatim>\<open>uvm_volta_mmu.c\<close>, \<^verbatim>\<open>uvm_turing_mmu.c\<close>, \<^verbatim>\<open>uvm_ampere_mmu.c\<close> and
  \<^verbatim>\<open>uvm_hopper_mmu.c\<close> build, the geometry of their page tables, and the table of functions
  (\<^verbatim>\<open>uvm_mmu_mode_hal_t\<close>) the rest of the driver calls. Each generation copies the table of the
  previous one and replaces entries, as the code does. What the entries mean to the hardware is
  stated by decoders that read the fields of \<^verbatim>\<open>dev_mmu.h\<close>; the laws of an entry format are a
  locale with an interpretation per generation.
\<close>

named_theorems mmu_fields \<open>the bit positions of the hardware fields\<close>

section \<open>Types of \<^verbatim>\<open>uvm_hal_types.h\<close>\<close>

datatype aperture =
    UVM_APERTURE_PEER nat
  | UVM_APERTURE_PEER_MAX
  | UVM_APERTURE_SYS
  | UVM_APERTURE_VID
  | UVM_APERTURE_DEFAULT
  | UVM_APERTURE_MAX

fun aperture_num :: "aperture \<Rightarrow> nat" where
  "aperture_num (UVM_APERTURE_PEER i) = i"
| "aperture_num UVM_APERTURE_PEER_MAX = 8"
| "aperture_num UVM_APERTURE_SYS = 9"
| "aperture_num UVM_APERTURE_VID = 10"
| "aperture_num UVM_APERTURE_DEFAULT = 11"
| "aperture_num UVM_APERTURE_MAX = 12"

definition uvm_aperture_is_peer :: "aperture \<Rightarrow> bool" where
  "uvm_aperture_is_peer ap \<longleftrightarrow> aperture_num ap < 8"

definition UVM_APERTURE_PEER_ID :: "aperture \<Rightarrow> NvU64" where
  "UVM_APERTURE_PEER_ID ap = of_nat (aperture_num ap)"

datatype prot = UVM_PROT_NONE | UVM_PROT_READ_ONLY | UVM_PROT_READ_WRITE | UVM_PROT_READ_WRITE_ATOMIC

datatype membar = UVM_MEMBAR_NONE | UVM_MEMBAR_GPU | UVM_MEMBAR_SYS

record gpu_phys_address =
  phys_address :: NvU64
  phys_aperture :: aperture

definition UVM_PAGE_SIZE_4K :: NvU32 where "UVM_PAGE_SIZE_4K = 0x1000"
definition UVM_PAGE_SIZE_64K :: NvU32 where "UVM_PAGE_SIZE_64K = 0x10000"
definition UVM_PAGE_SIZE_128K :: NvU32 where "UVM_PAGE_SIZE_128K = 0x20000"
definition UVM_PAGE_SIZE_2M :: NvU32 where "UVM_PAGE_SIZE_2M = 0x200000"
definition UVM_PAGE_SIZE_512M :: NvU32 where "UVM_PAGE_SIZE_512M = 0x20000000"

lemmas page_size_defs = UVM_PAGE_SIZE_4K_def UVM_PAGE_SIZE_64K_def UVM_PAGE_SIZE_128K_def
  UVM_PAGE_SIZE_2M_def UVM_PAGE_SIZE_512M_def

definition UVM_MMU_PTE_FLAGS_NONE :: NvU64 where "UVM_MMU_PTE_FLAGS_NONE = 0"
definition UVM_MMU_PTE_FLAGS_CACHED :: NvU64 where "UVM_MMU_PTE_FLAGS_CACHED = 1"
definition UVM_MMU_PTE_FLAGS_ACCESS_COUNTERS_DISABLED :: NvU64 where
  "UVM_MMU_PTE_FLAGS_ACCESS_COUNTERS_DISABLED = 2"

text \<open>A page directory on the host, as far as the entry formats look at it.\<close>

datatype page_directory =
  Page_Directory (dir_depth: nat) (index_in_parent: nat) (host_parent: "page_directory option")

section \<open>Hardware fields\<close>

text \<open>
  A field is a pair of the high and the low bit. Fields of the upper half of a dual PDE are
  numbered from 64 and the 64 bit macros take the positions modulo 64.
\<close>

type_synonym hw_field = "nat \<times> nat"

definition hw_mask :: "hw_field \<Rightarrow> NvU64" where
  "hw_mask f = (case f of (hi, lo) \<Rightarrow> mask (hi - lo + 1))"

definition HWSIZE :: "hw_field \<Rightarrow> nat" where
  "HWSIZE f = (case f of (hi, lo) \<Rightarrow> hi - lo + 1)"

definition HWVALUE64 :: "hw_field \<Rightarrow> NvU64 \<Rightarrow> NvU64" where
  "HWVALUE64 f v = (case f of (hi, lo) \<Rightarrow> push_bit (lo mod 64) (v AND hw_mask f))"

definition HWCONST64 :: "hw_field \<Rightarrow> NvU64 \<Rightarrow> NvU64" where
  "HWCONST64 f c = (case f of (hi, lo) \<Rightarrow> push_bit (lo mod 64) c)"

definition WRITE_HWCONST64 :: "NvU64 \<Rightarrow> hw_field \<Rightarrow> NvU64 \<Rightarrow> NvU64" where
  "WRITE_HWCONST64 v f c =
     (case f of (hi, lo) \<Rightarrow> (v AND NOT (push_bit (lo mod 64) (hw_mask f))) OR HWCONST64 f c)"

definition DRF_VAL64 :: "hw_field \<Rightarrow> NvU64 \<Rightarrow> NvU64" where
  "DRF_VAL64 f v = (case f of (hi, lo) \<Rightarrow> drop_bit (lo mod 64) v AND hw_mask f)"

text \<open>\<^verbatim>\<open>NV_MMU_VER2\<close>: Pascal to Ampere.\<close>

definition VER2_PTE_VALID :: hw_field where "VER2_PTE_VALID = (0, 0)"
definition VER2_PTE_APERTURE :: hw_field where "VER2_PTE_APERTURE = (2, 1)"
definition VER2_PTE_VOL :: hw_field where "VER2_PTE_VOL = (3, 3)"
definition VER2_PTE_ENCRYPTED :: hw_field where "VER2_PTE_ENCRYPTED = (4, 4)"
definition VER2_PTE_PRIVILEGE :: hw_field where "VER2_PTE_PRIVILEGE = (5, 5)"
definition VER2_PTE_READ_ONLY :: hw_field where "VER2_PTE_READ_ONLY = (6, 6)"
definition VER2_PTE_ATOMIC_DISABLE :: hw_field where "VER2_PTE_ATOMIC_DISABLE = (7, 7)"
definition VER2_PTE_ADDRESS_SYS :: hw_field where "VER2_PTE_ADDRESS_SYS = (53, 8)"
definition VER2_PTE_ADDRESS_VID :: hw_field where "VER2_PTE_ADDRESS_VID = (32, 8)"
definition VER2_PTE_ADDRESS_VID_PEER :: hw_field where "VER2_PTE_ADDRESS_VID_PEER = (35, 33)"
definition VER2_PTE_COMPTAGLINE :: hw_field where "VER2_PTE_COMPTAGLINE = (53, 36)"
definition TURING_PTE_COMPTAGLINE :: hw_field where "TURING_PTE_COMPTAGLINE = (55, 36)"
definition VER2_PTE_KIND :: hw_field where "VER2_PTE_KIND = (63, 56)"
definition VER2_PDE_APERTURE :: hw_field where "VER2_PDE_APERTURE = (2, 1)"
definition VER2_PDE_VOL :: hw_field where "VER2_PDE_VOL = (3, 3)"
definition VER2_PDE_NO_ATS :: hw_field where "VER2_PDE_NO_ATS = (5, 5)"
definition VER2_PDE_ADDRESS_SYS :: hw_field where "VER2_PDE_ADDRESS_SYS = (53, 8)"
definition VER2_PDE_ADDRESS_VID :: hw_field where "VER2_PDE_ADDRESS_VID = (32, 8)"
definition VER2_DUAL_PDE_APERTURE_BIG :: hw_field where "VER2_DUAL_PDE_APERTURE_BIG = (2, 1)"
definition VER2_DUAL_PDE_VOL_BIG :: hw_field where "VER2_DUAL_PDE_VOL_BIG = (3, 3)"
definition VER2_DUAL_PDE_ADDRESS_BIG_SYS :: hw_field where "VER2_DUAL_PDE_ADDRESS_BIG_SYS = (53, 4)"
definition VER2_DUAL_PDE_ADDRESS_BIG_VID :: hw_field where "VER2_DUAL_PDE_ADDRESS_BIG_VID = (32, 4)"
definition VER2_DUAL_PDE_APERTURE_SMALL :: hw_field where "VER2_DUAL_PDE_APERTURE_SMALL = (66, 65)"
definition VER2_DUAL_PDE_VOL_SMALL :: hw_field where "VER2_DUAL_PDE_VOL_SMALL = (67, 67)"
definition VER2_DUAL_PDE_ADDRESS_SMALL_SYS :: hw_field where "VER2_DUAL_PDE_ADDRESS_SMALL_SYS = (117, 72)"
definition VER2_DUAL_PDE_ADDRESS_SMALL_VID :: hw_field where "VER2_DUAL_PDE_ADDRESS_SMALL_VID = (96, 72)"
definition VER2_PDE_IS_PDE :: hw_field where "VER2_PDE_IS_PDE = (0, 0)"

text \<open>\<^verbatim>\<open>NV_MMU_VER3\<close>: Hopper.\<close>

definition VER3_PTE_VALID :: hw_field where "VER3_PTE_VALID = (0, 0)"
definition VER3_PTE_APERTURE :: hw_field where "VER3_PTE_APERTURE = (2, 1)"
definition VER3_PTE_PCF :: hw_field where "VER3_PTE_PCF = (7, 3)"
definition VER3_PTE_KIND :: hw_field where "VER3_PTE_KIND = (11, 8)"
definition VER3_PTE_ADDRESS :: hw_field where "VER3_PTE_ADDRESS = (51, 12)"
definition VER3_PTE_ADDRESS_VID :: hw_field where "VER3_PTE_ADDRESS_VID = (39, 12)"
definition VER3_PTE_PEER_ID :: hw_field where "VER3_PTE_PEER_ID = (63, 61)"
definition VER3_PDE_IS_PTE :: hw_field where "VER3_PDE_IS_PTE = (0, 0)"
definition VER3_PDE_APERTURE :: hw_field where "VER3_PDE_APERTURE = (2, 1)"
definition VER3_PDE_PCF :: hw_field where "VER3_PDE_PCF = (5, 3)"
definition VER3_PDE_ADDRESS :: hw_field where "VER3_PDE_ADDRESS = (51, 12)"
definition VER3_DUAL_PDE_APERTURE_BIG :: hw_field where "VER3_DUAL_PDE_APERTURE_BIG = (2, 1)"
definition VER3_DUAL_PDE_PCF_BIG :: hw_field where "VER3_DUAL_PDE_PCF_BIG = (5, 3)"
definition VER3_DUAL_PDE_ADDRESS_BIG :: hw_field where "VER3_DUAL_PDE_ADDRESS_BIG = (51, 8)"
definition VER3_DUAL_PDE_APERTURE_SMALL :: hw_field where "VER3_DUAL_PDE_APERTURE_SMALL = (66, 65)"
definition VER3_DUAL_PDE_PCF_SMALL :: hw_field where "VER3_DUAL_PDE_PCF_SMALL = (69, 67)"
definition VER3_DUAL_PDE_ADDRESS_SMALL :: hw_field where "VER3_DUAL_PDE_ADDRESS_SMALL = (115, 76)"

lemmas hw_field_defs [mmu_fields] = VER2_PTE_VALID_def
  VER2_PTE_APERTURE_def
  VER2_PTE_VOL_def
  VER2_PTE_ENCRYPTED_def
  VER2_PTE_PRIVILEGE_def
  VER2_PTE_READ_ONLY_def
  VER2_PTE_ATOMIC_DISABLE_def
  VER2_PTE_ADDRESS_SYS_def
  VER2_PTE_ADDRESS_VID_def
  VER2_PTE_ADDRESS_VID_PEER_def
  VER2_PTE_COMPTAGLINE_def
  TURING_PTE_COMPTAGLINE_def
  VER2_PTE_KIND_def
  VER2_PDE_APERTURE_def
  VER2_PDE_VOL_def
  VER2_PDE_NO_ATS_def
  VER2_PDE_ADDRESS_SYS_def
  VER2_PDE_ADDRESS_VID_def
  VER2_DUAL_PDE_APERTURE_BIG_def
  VER2_DUAL_PDE_VOL_BIG_def
  VER2_DUAL_PDE_ADDRESS_BIG_SYS_def
  VER2_DUAL_PDE_ADDRESS_BIG_VID_def
  VER2_DUAL_PDE_APERTURE_SMALL_def
  VER2_DUAL_PDE_VOL_SMALL_def
  VER2_DUAL_PDE_ADDRESS_SMALL_SYS_def
  VER2_DUAL_PDE_ADDRESS_SMALL_VID_def
  VER2_PDE_IS_PDE_def
  VER3_PTE_VALID_def
  VER3_PTE_APERTURE_def
  VER3_PTE_PCF_def
  VER3_PTE_KIND_def
  VER3_PTE_ADDRESS_def
  VER3_PTE_ADDRESS_VID_def
  VER3_PTE_PEER_ID_def
  VER3_PDE_IS_PTE_def
  VER3_PDE_APERTURE_def
  VER3_PDE_PCF_def
  VER3_PDE_ADDRESS_def
  VER3_DUAL_PDE_APERTURE_BIG_def
  VER3_DUAL_PDE_PCF_BIG_def
  VER3_DUAL_PDE_ADDRESS_BIG_def
  VER3_DUAL_PDE_APERTURE_SMALL_def
  VER3_DUAL_PDE_PCF_SMALL_def
  VER3_DUAL_PDE_ADDRESS_SMALL_def

section \<open>The table of functions\<close>

record mmu_mode_hal =
  make_pte :: "aperture \<Rightarrow> NvU64 \<Rightarrow> prot \<Rightarrow> NvU64 \<Rightarrow> NvU64"
  make_sked_reflected_pte :: NvU64
  make_sparse_pte :: NvU64
  unmapped_pte :: "NvU32 \<Rightarrow> NvU64"
  poisoned_pte :: NvU64
  make_pde :: "gpu_phys_address option list \<Rightarrow> page_directory \<Rightarrow> nat \<Rightarrow> NvU64 list"
  entry_size :: "nat \<Rightarrow> nat"
  index_bits :: "nat \<Rightarrow> NvU32 \<Rightarrow> nat"
  entries_per_index :: "nat \<Rightarrow> nat"
  entry_offset :: "nat \<Rightarrow> NvU32 \<Rightarrow> nat"
  num_va_bits :: nat
  allocation_size :: "nat \<Rightarrow> NvU32 \<Rightarrow> nat"
  page_table_depth :: "NvU32 \<Rightarrow> nat"
  page_sizes :: NvU32

section \<open>Pascal\<close>

definition MMU_BIG :: nat where "MMU_BIG = 0"
definition MMU_SMALL :: nat where "MMU_SMALL = 1"

definition entries_per_index_pascal :: "nat \<Rightarrow> nat" where
  "entries_per_index_pascal depth = (if depth = 3 then 2 else 1)"

definition entry_offset_pascal :: "nat \<Rightarrow> NvU32 \<Rightarrow> nat" where
  "entry_offset_pascal depth page_size =
     (if page_size = UVM_PAGE_SIZE_4K \<and> depth = 3 then MMU_SMALL else MMU_BIG)"

definition single_pde_pascal :: "gpu_phys_address option \<Rightarrow> NvU64" where
  "single_pde_pascal phys_alloc =
     (case phys_alloc of None \<Rightarrow> 0
      | Some addr \<Rightarrow>
          let address = drop_bit 12 (phys_address addr);
              pde_bits = HWCONST64 VER2_PDE_IS_PDE 0 OR HWCONST64 VER2_PDE_VOL 1
          in case phys_aperture addr of
               UVM_APERTURE_SYS \<Rightarrow>
                 pde_bits OR (HWCONST64 VER2_PDE_APERTURE 2 OR HWVALUE64 VER2_PDE_ADDRESS_SYS address)
             | UVM_APERTURE_VID \<Rightarrow>
                 pde_bits OR (HWCONST64 VER2_PDE_APERTURE 1 OR HWVALUE64 VER2_PDE_ADDRESS_VID address)
             | _ \<Rightarrow> pde_bits)"

definition big_half_pde_pascal :: "gpu_phys_address option \<Rightarrow> NvU64" where
  "big_half_pde_pascal phys_alloc =
     (case phys_alloc of None \<Rightarrow> 0
      | Some addr \<Rightarrow>
          let address = drop_bit 8 (phys_address addr);
              pde_bits = HWCONST64 VER2_DUAL_PDE_VOL_BIG 1
          in case phys_aperture addr of
               UVM_APERTURE_SYS \<Rightarrow>
                 pde_bits OR (HWCONST64 VER2_DUAL_PDE_APERTURE_BIG 2 OR
                   HWVALUE64 VER2_DUAL_PDE_ADDRESS_BIG_SYS address)
             | UVM_APERTURE_VID \<Rightarrow>
                 pde_bits OR (HWCONST64 VER2_DUAL_PDE_APERTURE_BIG 1 OR
                   HWVALUE64 VER2_DUAL_PDE_ADDRESS_BIG_VID address)
             | _ \<Rightarrow> pde_bits)"

definition small_half_pde_pascal :: "gpu_phys_address option \<Rightarrow> NvU64" where
  "small_half_pde_pascal phys_alloc =
     (case phys_alloc of None \<Rightarrow> 0
      | Some addr \<Rightarrow>
          let address = drop_bit 12 (phys_address addr);
              pde_bits = HWCONST64 VER2_DUAL_PDE_VOL_SMALL 1
          in case phys_aperture addr of
               UVM_APERTURE_SYS \<Rightarrow>
                 pde_bits OR HWCONST64 VER2_DUAL_PDE_APERTURE_SMALL 2 OR
                   HWVALUE64 VER2_DUAL_PDE_ADDRESS_SMALL_SYS address
             | UVM_APERTURE_VID \<Rightarrow>
                 pde_bits OR HWCONST64 VER2_DUAL_PDE_APERTURE_SMALL 1 OR
                   HWVALUE64 VER2_DUAL_PDE_ADDRESS_SMALL_VID address
             | _ \<Rightarrow> pde_bits)"

definition make_pde_pascal :: "gpu_phys_address option list \<Rightarrow> page_directory \<Rightarrow> nat \<Rightarrow> NvU64 list" where
  "make_pde_pascal phys_allocs dir child_index =
     (let entry_count = entries_per_index_pascal (dir_depth dir)
      in if entry_count = 1 then [single_pde_pascal (phys_allocs ! 0)]
         else if entry_count = 2
         then [big_half_pde_pascal (phys_allocs ! MMU_BIG) OR HWCONST64 VER2_PDE_IS_PDE 0,
               small_half_pde_pascal (phys_allocs ! MMU_SMALL)]
         else [])"

definition entry_size_pascal :: "nat \<Rightarrow> nat" where
  "entry_size_pascal depth = (if depth = 3 then 16 else 8)"

definition index_bits_pascal :: "nat \<Rightarrow> NvU32 \<Rightarrow> nat" where
  "index_bits_pascal depth page_size =
     (if depth < 4 then [2, 9, 9, 8] ! depth
      else if depth = 4
      then (if page_size = UVM_PAGE_SIZE_4K then 9 else if page_size = UVM_PAGE_SIZE_64K then 5 else 0)
      else 0)"

definition num_va_bits_pascal :: nat where "num_va_bits_pascal = 49"

definition allocation_size_pascal :: "nat \<Rightarrow> NvU32 \<Rightarrow> nat" where
  "allocation_size_pascal depth page_size =
     (if depth = 4 \<and> page_size = UVM_PAGE_SIZE_64K then 256 else 4096)"

definition page_table_depth_pascal :: "NvU32 \<Rightarrow> nat" where
  "page_table_depth_pascal page_size = (if page_size = UVM_PAGE_SIZE_2M then 3 else 4)"

definition page_sizes_pascal :: NvU32 where
  "page_sizes_pascal = UVM_PAGE_SIZE_2M OR UVM_PAGE_SIZE_64K OR UVM_PAGE_SIZE_4K"

definition unmapped_pte_pascal :: "NvU32 \<Rightarrow> NvU64" where
  "unmapped_pte_pascal page_size =
     (if page_size \<noteq> UVM_PAGE_SIZE_64K then 0
      else HWCONST64 VER2_PTE_VALID 0 OR HWCONST64 VER2_PTE_VOL 0 OR HWCONST64 VER2_PTE_PRIVILEGE 1)"

text \<open>The aperture field of a PTE, the same constants in both format versions.\<close>

definition pte_aperture_bits :: "aperture \<Rightarrow> NvU64" where
  "pte_aperture_bits ap =
     (if ap = UVM_APERTURE_SYS then 2
      else if ap = UVM_APERTURE_VID then 0
      else if uvm_aperture_is_peer ap then 1
      else 0)"

definition make_pte_pascal :: "aperture \<Rightarrow> NvU64 \<Rightarrow> prot \<Rightarrow> NvU64 \<Rightarrow> NvU64" where
  "make_pte_pascal ap address p flags =
     (let pte_bits = HWCONST64 VER2_PTE_VALID 1 OR
            HWVALUE64 VER2_PTE_APERTURE (pte_aperture_bits ap) OR
            (if flags AND UVM_MMU_PTE_FLAGS_CACHED \<noteq> 0 then HWCONST64 VER2_PTE_VOL 0
             else HWCONST64 VER2_PTE_VOL 1) OR
            HWCONST64 VER2_PTE_ENCRYPTED 0 OR
            HWCONST64 VER2_PTE_PRIVILEGE 0 OR
            (if p = UVM_PROT_READ_ONLY then HWCONST64 VER2_PTE_READ_ONLY 1
             else HWCONST64 VER2_PTE_READ_ONLY 0) OR
            (if p = UVM_PROT_READ_WRITE_ATOMIC then HWCONST64 VER2_PTE_ATOMIC_DISABLE 0
             else HWCONST64 VER2_PTE_ATOMIC_DISABLE 1);
          address = drop_bit 12 address;
          pte_bits =
            (if ap = UVM_APERTURE_SYS then pte_bits OR HWVALUE64 VER2_PTE_ADDRESS_SYS address
             else pte_bits OR HWVALUE64 VER2_PTE_ADDRESS_VID address OR
               (if ap \<noteq> UVM_APERTURE_VID
                then HWVALUE64 VER2_PTE_ADDRESS_VID_PEER (UVM_APERTURE_PEER_ID ap) else 0) OR
               HWVALUE64 VER2_PTE_COMPTAGLINE 0)
      in pte_bits OR HWVALUE64 VER2_PTE_KIND 0)"

definition make_sked_reflected_pte_pascal :: NvU64 where
  "make_sked_reflected_pte_pascal = HWCONST64 VER2_PTE_VALID 1 OR HWVALUE64 VER2_PTE_KIND 0xCA"

definition make_sparse_pte_pascal :: NvU64 where
  "make_sparse_pte_pascal = HWCONST64 VER2_PTE_VALID 0 OR HWCONST64 VER2_PTE_VOL 1"

definition poisoned_pte_pascal :: NvU64 where
  "poisoned_pte_pascal =
     (let phys_addr = 0x1bad000000;
          pte_bits = make_pte_pascal UVM_APERTURE_VID phys_addr UVM_PROT_READ_ONLY UVM_MMU_PTE_FLAGS_NONE
      in WRITE_HWCONST64 pte_bits VER2_PTE_PRIVILEGE 1)"

definition pascal_mmu_mode_hal :: mmu_mode_hal where
  "pascal_mmu_mode_hal = \<lparr>
     make_pte = make_pte_pascal,
     make_sked_reflected_pte = make_sked_reflected_pte_pascal,
     make_sparse_pte = make_sparse_pte_pascal,
     unmapped_pte = unmapped_pte_pascal,
     poisoned_pte = poisoned_pte_pascal,
     make_pde = make_pde_pascal,
     entry_size = entry_size_pascal,
     index_bits = index_bits_pascal,
     entries_per_index = entries_per_index_pascal,
     entry_offset = entry_offset_pascal,
     num_va_bits = num_va_bits_pascal,
     allocation_size = allocation_size_pascal,
     page_table_depth = page_table_depth_pascal,
     page_sizes = page_sizes_pascal\<rparr>"

definition uvm_hal_mmu_mode_pascal :: "NvU32 \<Rightarrow> mmu_mode_hal option" where
  "uvm_hal_mmu_mode_pascal big_page_size =
     (if big_page_size = UVM_PAGE_SIZE_128K then None else Some pascal_mmu_mode_hal)"

section \<open>Volta\<close>

text \<open>\<open>ats\<close> is \<^verbatim>\<open>g_uvm_global.ats.enabled\<close>.\<close>

definition single_pde_volta :: "bool \<Rightarrow> gpu_phys_address option \<Rightarrow> nat \<Rightarrow> NvU64" where
  "single_pde_volta ats phys_alloc depth =
     (case phys_alloc of None \<Rightarrow> 0
      | Some addr \<Rightarrow>
          let address = drop_bit 12 (phys_address addr);
              pde_bits = HWCONST64 VER2_PDE_IS_PDE 0 OR HWCONST64 VER2_PDE_VOL 1;
              pde_bits = (case phys_aperture addr of
                 UVM_APERTURE_SYS \<Rightarrow>
                   pde_bits OR (HWCONST64 VER2_PDE_APERTURE 2 OR HWVALUE64 VER2_PDE_ADDRESS_SYS address)
               | UVM_APERTURE_VID \<Rightarrow>
                   pde_bits OR (HWCONST64 VER2_PDE_APERTURE 1 OR HWVALUE64 VER2_PDE_ADDRESS_VID address)
               | _ \<Rightarrow> pde_bits)
          in if depth = 2 \<and> ats then pde_bits OR HWCONST64 VER2_PDE_NO_ATS 1 else pde_bits)"

definition entries_per_index_volta :: "nat \<Rightarrow> nat" where
  "entries_per_index_volta depth = (if depth = 3 then 2 else 1)"

definition big_half_pde_volta :: "gpu_phys_address option \<Rightarrow> NvU64" where
  "big_half_pde_volta phys_alloc =
     (case phys_alloc of None \<Rightarrow> 0
      | Some addr \<Rightarrow>
          let address = drop_bit 8 (phys_address addr);
              pde_bits = HWCONST64 VER2_DUAL_PDE_VOL_BIG 1
          in case phys_aperture addr of
               UVM_APERTURE_SYS \<Rightarrow>
                 pde_bits OR (HWCONST64 VER2_DUAL_PDE_APERTURE_BIG 2 OR
                   HWVALUE64 VER2_DUAL_PDE_ADDRESS_BIG_SYS address)
             | UVM_APERTURE_VID \<Rightarrow>
                 pde_bits OR (HWCONST64 VER2_DUAL_PDE_APERTURE_BIG 1 OR
                   HWVALUE64 VER2_DUAL_PDE_ADDRESS_BIG_VID address)
             | _ \<Rightarrow> pde_bits)"

definition small_half_pde_volta :: "gpu_phys_address option \<Rightarrow> NvU64" where
  "small_half_pde_volta phys_alloc =
     (case phys_alloc of None \<Rightarrow> 0
      | Some addr \<Rightarrow>
          let address = drop_bit 12 (phys_address addr);
              pde_bits = HWCONST64 VER2_DUAL_PDE_VOL_SMALL 1
          in case phys_aperture addr of
               UVM_APERTURE_SYS \<Rightarrow>
                 pde_bits OR HWCONST64 VER2_DUAL_PDE_APERTURE_SMALL 2 OR
                   HWVALUE64 VER2_DUAL_PDE_ADDRESS_SMALL_SYS address
             | UVM_APERTURE_VID \<Rightarrow>
                 pde_bits OR HWCONST64 VER2_DUAL_PDE_APERTURE_SMALL 1 OR
                   HWVALUE64 VER2_DUAL_PDE_ADDRESS_SMALL_VID address
             | _ \<Rightarrow> pde_bits)"

definition make_pde_volta ::
    "bool \<Rightarrow> gpu_phys_address option list \<Rightarrow> page_directory \<Rightarrow> nat \<Rightarrow> NvU64 list" where
  "make_pde_volta ats phys_allocs dir child_index =
     (let entry_count = entries_per_index_volta (dir_depth dir)
      in if entry_count = 1 then [single_pde_volta ats (phys_allocs ! 0) (dir_depth dir)]
         else if entry_count = 2
         then [big_half_pde_volta (phys_allocs ! MMU_BIG) OR HWCONST64 VER2_PDE_IS_PDE 0,
               small_half_pde_volta (phys_allocs ! MMU_SMALL)]
         else [])"

definition make_pte_volta :: "aperture \<Rightarrow> NvU64 \<Rightarrow> prot \<Rightarrow> NvU64 \<Rightarrow> NvU64" where
  "make_pte_volta ap address p flags =
     (let pte_bits = HWCONST64 VER2_PTE_VALID 1 OR
            HWVALUE64 VER2_PTE_APERTURE (pte_aperture_bits ap) OR
            (if flags AND UVM_MMU_PTE_FLAGS_CACHED \<noteq> 0 then HWCONST64 VER2_PTE_VOL 0
             else HWCONST64 VER2_PTE_VOL 1) OR
            HWCONST64 VER2_PTE_ENCRYPTED 0 OR
            HWCONST64 VER2_PTE_PRIVILEGE 0 OR
            (if p = UVM_PROT_READ_ONLY then HWCONST64 VER2_PTE_READ_ONLY 1
             else HWCONST64 VER2_PTE_READ_ONLY 0) OR
            (if p = UVM_PROT_READ_WRITE_ATOMIC then HWCONST64 VER2_PTE_ATOMIC_DISABLE 0
             else HWCONST64 VER2_PTE_ATOMIC_DISABLE 1);
          address = drop_bit 12 address;
          pte_bits =
            (if ap = UVM_APERTURE_SYS then pte_bits OR HWVALUE64 VER2_PTE_ADDRESS_SYS address
             else
               let addr_lo = address AND hw_mask VER2_PTE_ADDRESS_VID;
                   addr_hi = drop_bit (HWSIZE VER2_PTE_ADDRESS_VID) address
               in pte_bits OR HWVALUE64 VER2_PTE_ADDRESS_VID addr_lo OR
                  HWVALUE64 VER2_PTE_COMPTAGLINE addr_hi OR
                  (if ap \<noteq> UVM_APERTURE_VID
                   then HWVALUE64 VER2_PTE_ADDRESS_VID_PEER (UVM_APERTURE_PEER_ID ap) else 0))
      in pte_bits OR HWVALUE64 VER2_PTE_KIND 0)"

definition uvm_hal_mmu_mode_volta :: "bool \<Rightarrow> NvU32 \<Rightarrow> mmu_mode_hal option" where
  "uvm_hal_mmu_mode_volta ats big_page_size =
     (if big_page_size = UVM_PAGE_SIZE_128K then None
      else map_option (\<lambda>hal. hal\<lparr>make_pte := make_pte_volta, make_pde := make_pde_volta ats\<rparr>)
             (uvm_hal_mmu_mode_pascal big_page_size))"

section \<open>Turing\<close>

definition make_pte_turing :: "aperture \<Rightarrow> NvU64 \<Rightarrow> prot \<Rightarrow> NvU64 \<Rightarrow> NvU64" where
  "make_pte_turing ap address p flags =
     (let pte_bits = HWCONST64 VER2_PTE_VALID 1 OR
            HWVALUE64 VER2_PTE_APERTURE (pte_aperture_bits ap) OR
            (if flags AND UVM_MMU_PTE_FLAGS_CACHED \<noteq> 0 then HWCONST64 VER2_PTE_VOL 0
             else HWCONST64 VER2_PTE_VOL 1) OR
            HWCONST64 VER2_PTE_ENCRYPTED 0 OR
            HWCONST64 VER2_PTE_PRIVILEGE 0 OR
            (if p = UVM_PROT_READ_ONLY then HWCONST64 VER2_PTE_READ_ONLY 1
             else HWCONST64 VER2_PTE_READ_ONLY 0) OR
            (if p = UVM_PROT_READ_WRITE_ATOMIC then HWCONST64 VER2_PTE_ATOMIC_DISABLE 0
             else HWCONST64 VER2_PTE_ATOMIC_DISABLE 1);
          address = drop_bit 12 address;
          pte_bits =
            (if ap = UVM_APERTURE_SYS then pte_bits OR HWVALUE64 VER2_PTE_ADDRESS_SYS address
             else
               let addr_lo = address AND hw_mask VER2_PTE_ADDRESS_VID;
                   addr_hi = drop_bit (HWSIZE VER2_PTE_ADDRESS_VID) address
               in pte_bits OR HWVALUE64 VER2_PTE_ADDRESS_VID addr_lo OR
                  HWVALUE64 TURING_PTE_COMPTAGLINE addr_hi OR
                  (if ap \<noteq> UVM_APERTURE_VID
                   then HWVALUE64 VER2_PTE_ADDRESS_VID_PEER (UVM_APERTURE_PEER_ID ap) else 0))
      in pte_bits OR HWVALUE64 VER2_PTE_KIND 6)"

definition make_sked_reflected_pte_turing :: NvU64 where
  "make_sked_reflected_pte_turing = HWCONST64 VER2_PTE_VALID 1 OR HWVALUE64 VER2_PTE_KIND 0xF"

definition poisoned_pte_turing :: NvU64 where
  "poisoned_pte_turing =
     (let phys_addr = 0x1bad000000;
          pte_bits = make_pte_turing UVM_APERTURE_VID phys_addr UVM_PROT_READ_ONLY UVM_MMU_PTE_FLAGS_NONE
      in WRITE_HWCONST64 pte_bits VER2_PTE_PRIVILEGE 1)"

definition uvm_hal_mmu_mode_turing :: "bool \<Rightarrow> NvU32 \<Rightarrow> mmu_mode_hal option" where
  "uvm_hal_mmu_mode_turing ats big_page_size =
     (if big_page_size = UVM_PAGE_SIZE_128K then None
      else map_option (\<lambda>hal. hal\<lparr>make_pte := make_pte_turing,
               make_sked_reflected_pte := make_sked_reflected_pte_turing,
               poisoned_pte := poisoned_pte_turing\<rparr>)
             (uvm_hal_mmu_mode_volta ats big_page_size))"

section \<open>Ampere\<close>

definition page_table_depth_ampere :: "NvU32 \<Rightarrow> nat" where
  "page_table_depth_ampere page_size =
     (if page_size = UVM_PAGE_SIZE_2M then 3 else if page_size = UVM_PAGE_SIZE_512M then 2 else 4)"

definition page_sizes_ampere :: NvU32 where
  "page_sizes_ampere = UVM_PAGE_SIZE_512M OR UVM_PAGE_SIZE_2M OR UVM_PAGE_SIZE_64K OR UVM_PAGE_SIZE_4K"

definition uvm_hal_mmu_mode_ampere :: "bool \<Rightarrow> NvU32 \<Rightarrow> mmu_mode_hal option" where
  "uvm_hal_mmu_mode_ampere ats big_page_size =
     (if big_page_size = UVM_PAGE_SIZE_128K then None
      else map_option (\<lambda>hal. hal\<lparr>page_table_depth := page_table_depth_ampere,
               page_sizes := page_sizes_ampere\<rparr>)
             (uvm_hal_mmu_mode_turing ats big_page_size))"

section \<open>Hopper\<close>

definition page_table_depth_hopper :: "NvU32 \<Rightarrow> nat" where
  "page_table_depth_hopper page_size =
     (if page_size = UVM_PAGE_SIZE_2M then 4 else if page_size = UVM_PAGE_SIZE_512M then 3 else 5)"

definition entries_per_index_hopper :: "nat \<Rightarrow> nat" where
  "entries_per_index_hopper depth = (if depth = 4 then 2 else 1)"

definition entry_offset_hopper :: "nat \<Rightarrow> NvU32 \<Rightarrow> nat" where
  "entry_offset_hopper depth page_size =
     (if page_size = UVM_PAGE_SIZE_4K \<and> depth = 4 then MMU_SMALL else MMU_BIG)"

definition entry_size_hopper :: "nat \<Rightarrow> nat" where
  "entry_size_hopper depth = entries_per_index_hopper depth * 8"

definition index_bits_hopper :: "nat \<Rightarrow> NvU32 \<Rightarrow> nat" where
  "index_bits_hopper depth page_size =
     (if depth < 5 then [1, 9, 9, 9, 8] ! depth
      else if depth = 5
      then (if page_size = UVM_PAGE_SIZE_4K then 9 else if page_size = UVM_PAGE_SIZE_64K then 5 else 0)
      else 0)"

definition num_va_bits_hopper :: nat where "num_va_bits_hopper = 57"

definition allocation_size_hopper :: "nat \<Rightarrow> NvU32 \<Rightarrow> nat" where
  "allocation_size_hopper depth page_size =
     (if depth = 5 \<and> page_size = UVM_PAGE_SIZE_64K then 256 else 4096)"

text \<open>The permission control flags of a PTE, with the values of \<^verbatim>\<open>NV_MMU_VER3_PTE_PCF\<close>.\<close>

definition pte_pcf :: "prot \<Rightarrow> NvU64 \<Rightarrow> NvU64" where
  "pte_pcf p flags =
     (let ac = (flags AND UVM_MMU_PTE_FLAGS_ACCESS_COUNTERS_DISABLED = 0);
          cached = (flags AND UVM_MMU_PTE_FLAGS_CACHED \<noteq> 0)
      in if ac
         then (case p of
             UVM_PROT_READ_ONLY \<Rightarrow> if cached then 0xC else 0xD
           | UVM_PROT_READ_WRITE \<Rightarrow> if cached then 8 else 9
           | UVM_PROT_READ_WRITE_ATOMIC \<Rightarrow> if cached then 0 else 1
           | UVM_PROT_NONE \<Rightarrow> 0)
         else (case p of
             UVM_PROT_READ_ONLY \<Rightarrow> if cached then 0x1C else 0x1D
           | UVM_PROT_READ_WRITE \<Rightarrow> if cached then 0x18 else 0x19
           | UVM_PROT_READ_WRITE_ATOMIC \<Rightarrow> if cached then 0x10 else 0x11
           | UVM_PROT_NONE \<Rightarrow> 0))"

definition make_pte_hopper :: "aperture \<Rightarrow> NvU64 \<Rightarrow> prot \<Rightarrow> NvU64 \<Rightarrow> NvU64" where
  "make_pte_hopper ap address p flags =
     (let pte_bits = HWCONST64 VER3_PTE_VALID 1 OR
            HWVALUE64 VER3_PTE_APERTURE (pte_aperture_bits ap) OR
            HWVALUE64 VER3_PTE_PCF (pte_pcf p flags) OR
            HWVALUE64 VER3_PTE_KIND 6;
          address = drop_bit 12 address
      in if ap = UVM_APERTURE_VID then pte_bits OR HWVALUE64 VER3_PTE_ADDRESS_VID address
         else pte_bits OR HWVALUE64 VER3_PTE_ADDRESS address OR
           (if uvm_aperture_is_peer ap then HWVALUE64 VER3_PTE_PEER_ID (UVM_APERTURE_PEER_ID ap) else 0))"

definition make_sked_reflected_pte_hopper :: NvU64 where
  "make_sked_reflected_pte_hopper =
     HWCONST64 VER3_PTE_VALID 1 OR
     HWVALUE64 VER3_PTE_PCF (pte_pcf UVM_PROT_READ_WRITE_ATOMIC UVM_MMU_PTE_FLAGS_NONE) OR
     HWVALUE64 VER3_PTE_KIND 0xF"

definition make_sparse_pte_hopper :: NvU64 where
  "make_sparse_pte_hopper = HWCONST64 VER3_PTE_VALID 0 OR HWCONST64 VER3_PTE_PCF 1"

definition unmapped_pte_hopper :: "NvU32 \<Rightarrow> NvU64" where
  "unmapped_pte_hopper page_size =
     (if page_size \<noteq> UVM_PAGE_SIZE_64K then 0
      else HWCONST64 VER3_PTE_VALID 0 OR HWCONST64 VER3_PTE_PCF 3)"

definition poisoned_pte_hopper :: NvU64 where
  "poisoned_pte_hopper =
     (let phys_addr = 0x2bad000000;
          pte_bits = make_pte_hopper UVM_APERTURE_VID phys_addr UVM_PROT_READ_ONLY UVM_MMU_PTE_FLAGS_NONE
      in WRITE_HWCONST64 pte_bits VER3_PTE_PCF 0x1F)"

text \<open>
  \<^verbatim>\<open>PDE_PCF\<close> of valid and invalid entries, by whether ATS is allowed below the entry; the three
  PDE types use the same values. The addresses the CPU cannot reach
  (\<^verbatim>\<open>uvm_cpu_get_unaddressable_range\<close>) come from the platform and are an argument.
\<close>

record ats_config =
  ats_enabled :: bool
  max_va_lower :: NvU64
  min_va_upper :: NvU64

definition valid_pcf :: "bool \<Rightarrow> NvU64" where "valid_pcf allowed = (if allowed then 1 else 3)"
definition invalid_pcf :: "bool \<Rightarrow> NvU64" where "invalid_pcf allowed = (if allowed then 0 else 2)"

definition va_base :: "nat list" where "va_base = [56, 47, 38, 29, 21]"

fun pde_base_va :: "page_directory \<Rightarrow> nat \<Rightarrow> NvU64" where
  "pde_base_va (Page_Directory depth index parent) index_in_dir =
     of_nat index_in_dir * push_bit (va_base ! depth) 1 +
     (case parent of None \<Rightarrow> 0 | Some dir \<Rightarrow> pde_base_va dir index)"

definition is_ats_range_valid :: "ats_config \<Rightarrow> page_directory \<Rightarrow> nat \<Rightarrow> bool" where
  "is_ats_range_valid ats dir child_index =
     (let pde_base_va = signed_drop_bit (64 - num_va_bits_hopper)
            (push_bit (64 - num_va_bits_hopper) (pde_base_va dir child_index))
      in pde_base_va < max_va_lower ats \<or> pde_base_va \<ge> min_va_upper ats)"

definition pde_pcf :: "ats_config \<Rightarrow> bool \<Rightarrow> page_directory \<Rightarrow> nat \<Rightarrow> NvU64" where
  "pde_pcf ats valid dir child_index =
     (let pcf = (if valid then valid_pcf else invalid_pcf)
      in if \<not> ats_enabled ats then pcf True
         else if dir_depth dir = 0 \<or> (\<not> valid \<and> is_ats_range_valid ats dir child_index) then pcf True
         else pcf False)"

definition single_pde_hopper ::
    "ats_config \<Rightarrow> gpu_phys_address option \<Rightarrow> page_directory \<Rightarrow> nat \<Rightarrow> NvU64" where
  "single_pde_hopper ats phys_alloc dir child_index =
     (let pde_bits =
            (case phys_alloc of None \<Rightarrow> 0
             | Some addr \<Rightarrow>
                 HWCONST64 VER3_PDE_IS_PTE 0 OR
                 (case phys_aperture addr of
                    UVM_APERTURE_SYS \<Rightarrow> HWCONST64 VER3_PDE_APERTURE 2
                  | UVM_APERTURE_VID \<Rightarrow> HWCONST64 VER3_PDE_APERTURE 1
                  | _ \<Rightarrow> 0) OR
                 HWVALUE64 VER3_PDE_ADDRESS (drop_bit 12 (phys_address addr)))
      in pde_bits OR HWVALUE64 VER3_PDE_PCF (pde_pcf ats (phys_alloc \<noteq> None) dir child_index))"

definition big_half_pde_hopper ::
    "ats_config \<Rightarrow> gpu_phys_address option \<Rightarrow> page_directory \<Rightarrow> nat \<Rightarrow> NvU64" where
  "big_half_pde_hopper ats phys_alloc dir child_index =
     (let pde_bits =
            (case phys_alloc of None \<Rightarrow> 0
             | Some addr \<Rightarrow>
                 (case phys_aperture addr of
                    UVM_APERTURE_SYS \<Rightarrow> HWCONST64 VER3_DUAL_PDE_APERTURE_BIG 2
                  | UVM_APERTURE_VID \<Rightarrow> HWCONST64 VER3_DUAL_PDE_APERTURE_BIG 1
                  | _ \<Rightarrow> 0) OR
                 HWVALUE64 VER3_DUAL_PDE_ADDRESS_BIG (drop_bit 8 (phys_address addr)))
      in pde_bits OR HWVALUE64 VER3_DUAL_PDE_PCF_BIG (pde_pcf ats (phys_alloc \<noteq> None) dir child_index))"

definition small_half_pde_hopper ::
    "ats_config \<Rightarrow> gpu_phys_address option \<Rightarrow> page_directory \<Rightarrow> nat \<Rightarrow> NvU64" where
  "small_half_pde_hopper ats phys_alloc dir child_index =
     (let pde_bits =
            (case phys_alloc of None \<Rightarrow> 0
             | Some addr \<Rightarrow>
                 (case phys_aperture addr of
                    UVM_APERTURE_SYS \<Rightarrow> HWCONST64 VER3_DUAL_PDE_APERTURE_SMALL 2
                  | UVM_APERTURE_VID \<Rightarrow> HWCONST64 VER3_DUAL_PDE_APERTURE_SMALL 1
                  | _ \<Rightarrow> 0) OR
                 HWVALUE64 VER3_DUAL_PDE_ADDRESS_SMALL (drop_bit 12 (phys_address addr)))
      in pde_bits OR HWVALUE64 VER3_DUAL_PDE_PCF_SMALL (pde_pcf ats (phys_alloc \<noteq> None) dir child_index))"

definition make_pde_hopper ::
    "ats_config \<Rightarrow> gpu_phys_address option list \<Rightarrow> page_directory \<Rightarrow> nat \<Rightarrow> NvU64 list" where
  "make_pde_hopper ats phys_allocs dir child_index =
     (let entry_count = entries_per_index_hopper (dir_depth dir)
      in if entry_count = 1 then [single_pde_hopper ats (phys_allocs ! 0) dir child_index]
         else if entry_count = 2
         then [big_half_pde_hopper ats (phys_allocs ! MMU_BIG) dir child_index OR HWCONST64 VER3_PDE_IS_PTE 0,
               small_half_pde_hopper ats (phys_allocs ! MMU_SMALL) dir child_index]
         else [])"

definition uvm_hal_mmu_mode_hopper :: "ats_config \<Rightarrow> NvU32 \<Rightarrow> mmu_mode_hal option" where
  "uvm_hal_mmu_mode_hopper ats big_page_size =
     (if big_page_size = UVM_PAGE_SIZE_128K then None
      else map_option (\<lambda>hal. hal\<lparr>
               entry_size := entry_size_hopper,
               index_bits := index_bits_hopper,
               entries_per_index := entries_per_index_hopper,
               entry_offset := entry_offset_hopper,
               num_va_bits := num_va_bits_hopper,
               allocation_size := allocation_size_hopper,
               page_table_depth := page_table_depth_hopper,
               make_pte := make_pte_hopper,
               make_sked_reflected_pte := make_sked_reflected_pte_hopper,
               make_sparse_pte := make_sparse_pte_hopper,
               unmapped_pte := unmapped_pte_hopper,
               poisoned_pte := poisoned_pte_hopper,
               make_pde := make_pde_hopper ats\<rparr>)
             (uvm_hal_mmu_mode_ampere (ats_enabled ats) big_page_size))"

section \<open>Reading fields back\<close>

text \<open>Two fields are apart when their bits within a 64 bit half do not meet.\<close>

definition field_ok :: "hw_field \<Rightarrow> bool" where
  "field_ok f \<longleftrightarrow> (case f of (hi, lo) \<Rightarrow> lo \<le> hi \<and> lo mod 64 + (hi - lo) < 64)"

definition apart :: "hw_field \<Rightarrow> hw_field \<Rightarrow> bool" where
  "apart f g \<longleftrightarrow> (case (f, g) of ((hi, lo), (hi', lo')) \<Rightarrow>
     lo mod 64 + (hi - lo) < lo' mod 64 \<or> lo' mod 64 + (hi' - lo') < lo mod 64)"

lemma DRF_VAL64_or [simp]: "DRF_VAL64 f (v OR w) = DRF_VAL64 f v OR DRF_VAL64 f w"
  by (cases f) (simp add: DRF_VAL64_def drop_bit_or and.commute[of _ "mask _"] bit.conj_disj_distrib hw_mask_def)

lemma DRF_VAL64_zero [simp]: "DRF_VAL64 f 0 = 0"
  by (cases f) (simp add: DRF_VAL64_def)

lemma DRF_VAL64_same:
  assumes "field_ok f"
  shows "DRF_VAL64 f (HWVALUE64 f v) = v AND hw_mask f"
  using assms
  by (cases f) (auto simp: DRF_VAL64_def HWVALUE64_def hw_mask_def field_ok_def bit_eq_iff bit_simps)

lemma DRF_VAL64_apart:
  assumes "apart f g"
  shows "DRF_VAL64 f (HWVALUE64 g v) = 0"
  using assms
  by (cases f; cases g) (auto simp: DRF_VAL64_def HWVALUE64_def hw_mask_def apart_def bit_eq_iff bit_simps)

lemma HWCONST64_value: "c AND hw_mask f = c \<Longrightarrow> HWCONST64 f c = HWVALUE64 f c"
  by (cases f) (simp add: HWCONST64_def HWVALUE64_def)

lemma DRF_VAL64_write_same:
  assumes "field_ok f" "c AND hw_mask f = c"
  shows "DRF_VAL64 f (WRITE_HWCONST64 v f c) = c"
proof -
  have "DRF_VAL64 f (v AND NOT (push_bit (snd f mod 64) (hw_mask f))) = 0"
    using assms(1)
    by (cases f) (auto simp: DRF_VAL64_def hw_mask_def field_ok_def bit_eq_iff bit_simps)
  then show ?thesis
    using assms by (cases f) (simp add: WRITE_HWCONST64_def HWCONST64_value DRF_VAL64_same)
qed

lemma DRF_VAL64_write_apart:
  assumes "apart f g" "c AND hw_mask g = c"
  shows "DRF_VAL64 f (WRITE_HWCONST64 v g c) = DRF_VAL64 f v"
proof -
  have "DRF_VAL64 f (v AND NOT (push_bit (snd g mod 64) (hw_mask g))) = DRF_VAL64 f v"
    using assms(1)
    by (cases f; cases g)
      (auto simp: DRF_VAL64_def hw_mask_def apart_def bit_eq_iff bit_simps dest: bit_imp_le_length)
  then show ?thesis
    using assms by (cases g) (simp add: WRITE_HWCONST64_def HWCONST64_value DRF_VAL64_apart)
qed

text \<open>
  A physical address fits a field of \<open>n\<close> bits above a shift of \<open>k\<close> when it is aligned and below
  \<open>2 ^ (n + k)\<close>; then the field holds all of it.
\<close>

lemma mask_drop_bit_fits:
  fixes a :: NvU64
  assumes "a < 2 ^ (n + k)" "n + k < 64"
  shows "drop_bit k a AND mask n = drop_bit k a"
proof -
  have "unat a < 2 ^ (n + k)" using assms by (simp add: word_less_nat_alt unat_pow2)
  moreover have "unat (drop_bit k a) = unat a div 2 ^ k"
    using unsigned_less[of a, where ?'a = nat]
    by (simp only: unsigned_drop_bit_eq) (simp add: take_bit_nat_eq_self drop_bit_eq_div)
  ultimately have "unat (drop_bit k a) < 2 ^ n"
    by (simp add: less_mult_imp_div_less power_add del: unsigned_drop_bit_eq)
  then have "take_bit n (drop_bit k a) = drop_bit k a"
    by (simp add: word_unat_eq_iff unsigned_take_bit_eq take_bit_nat_eq_self del: unsigned_drop_bit_eq)
  then show ?thesis by (simp add: take_bit_eq_mask)
qed

lemma push_drop_aligned:
  fixes a :: NvU64
  assumes "2 ^ k dvd unat a"
  shows "push_bit k (drop_bit k a) = a"
proof -
  have "unat (a AND NOT (mask k)) = unat a" using assms by (simp add: unat_and_not_mask)
  then have "a AND NOT (mask k) = a" by (simp only: word_unat_eq_iff)
  then show ?thesis by (simp add: and_not_mask_eq)
qed
section \<open>What the hardware reads\<close>

record pte_view =
  view_aperture :: aperture
  view_address :: NvU64
  view_prot :: prot
  view_cached :: bool

definition pte_aperture :: "NvU64 \<Rightarrow> NvU64 \<Rightarrow> aperture" where
  "pte_aperture ap peer =
     (if ap = 0 then UVM_APERTURE_VID else if ap = 1 then UVM_APERTURE_PEER (unat peer) else UVM_APERTURE_SYS)"

definition ver2_decode :: "hw_field \<Rightarrow> NvU64 \<Rightarrow> pte_view option" where
  "ver2_decode comptag w =
     (if DRF_VAL64 VER2_PTE_VALID w = 0 then None
      else
        let ap = pte_aperture (DRF_VAL64 VER2_PTE_APERTURE w) (DRF_VAL64 VER2_PTE_ADDRESS_VID_PEER w)
        in Some \<lparr>view_aperture = ap,
             view_address =
               (if ap = UVM_APERTURE_SYS then push_bit 12 (DRF_VAL64 VER2_PTE_ADDRESS_SYS w)
                else push_bit 12 (DRF_VAL64 VER2_PTE_ADDRESS_VID w OR push_bit 25 (DRF_VAL64 comptag w))),
             view_prot =
               (if DRF_VAL64 VER2_PTE_READ_ONLY w = 1 then UVM_PROT_READ_ONLY
                else if DRF_VAL64 VER2_PTE_ATOMIC_DISABLE w = 1 then UVM_PROT_READ_WRITE
                else UVM_PROT_READ_WRITE_ATOMIC),
             view_cached = (DRF_VAL64 VER2_PTE_VOL w = 0)\<rparr>)"

definition ver3_decode :: "NvU64 \<Rightarrow> pte_view option" where
  "ver3_decode w =
     (if DRF_VAL64 VER3_PTE_VALID w = 0 then None
      else
        let ap = pte_aperture (DRF_VAL64 VER3_PTE_APERTURE w) (DRF_VAL64 VER3_PTE_PEER_ID w);
            pcf = DRF_VAL64 VER3_PTE_PCF w
        in Some \<lparr>view_aperture = ap,
             view_address =
               (if ap = UVM_APERTURE_VID then push_bit 12 (DRF_VAL64 VER3_PTE_ADDRESS_VID w)
                else push_bit 12 (DRF_VAL64 VER3_PTE_ADDRESS w)),
             view_prot =
               (if pcf AND 4 \<noteq> 0 then UVM_PROT_READ_ONLY
                else if pcf AND 8 \<noteq> 0 then UVM_PROT_READ_WRITE
                else UVM_PROT_READ_WRITE_ATOMIC),
             view_cached = (pcf AND 1 = 0)\<rparr>)"

text \<open>The physical addresses of an aperture a format can hold, by the widths of its address fields.\<close>

definition pte_addr_ok :: "nat \<Rightarrow> nat \<Rightarrow> nat \<Rightarrow> aperture \<Rightarrow> NvU64 \<Rightarrow> bool" where
  "pte_addr_ok sys vid peer ap a \<longleftrightarrow> 4096 dvd unat a \<and>
     (case ap of
        UVM_APERTURE_SYS \<Rightarrow> a < 2 ^ sys
      | UVM_APERTURE_VID \<Rightarrow> a < 2 ^ vid
      | UVM_APERTURE_PEER i \<Rightarrow> i < 8 \<and> a < 2 ^ peer
      | _ \<Rightarrow> False)"

locale pte_format =
  fixes mk :: "aperture \<Rightarrow> NvU64 \<Rightarrow> prot \<Rightarrow> NvU64 \<Rightarrow> NvU64"
    and dec :: "NvU64 \<Rightarrow> pte_view option"
    and addr_ok :: "aperture \<Rightarrow> NvU64 \<Rightarrow> bool"
    and unmapped :: "NvU32 \<Rightarrow> NvU64"
    and sparse :: NvU64
  assumes dec_mk: "addr_ok ap a \<Longrightarrow> p \<noteq> UVM_PROT_NONE \<Longrightarrow>
      dec (mk ap a p flags) =
        Some \<lparr>view_aperture = ap, view_address = a, view_prot = p,
          view_cached = (flags AND UVM_MMU_PTE_FLAGS_CACHED \<noteq> 0)\<rparr>"
    and dec_unmapped: "dec (unmapped s) = None"
    and dec_sparse: "dec sparse = None"
    and sparse_not_unmapped: "sparse \<noteq> unmapped s"
begin

lemma mk_inject:
  assumes "addr_ok ap a" "addr_ok ap' a'" "p \<noteq> UVM_PROT_NONE" "p' \<noteq> UVM_PROT_NONE"
    and eq: "mk ap a p flags = mk ap' a' p' flags'"
  shows "ap = ap' \<and> a = a' \<and> p = p'"
  using dec_mk[OF assms(1,3), of flags] dec_mk[OF assms(2,4), of flags'] unfolding eq by simp

lemma mk_mapped:
  assumes "addr_ok ap a" "p \<noteq> UVM_PROT_NONE"
  shows "mk ap a p flags \<noteq> unmapped s" and "mk ap a p flags \<noteq> sparse"
  using dec_mk[OF assms, of flags] dec_unmapped[of s] dec_sparse by (metis option.distinct(1))+

end

lemma peer_id_small: "i < 8 \<Longrightarrow> (of_nat i :: NvU64) AND mask 3 = of_nat i"
proof -
  assume "i < 8"
  then have "i \<in> {0, 1, 2, 3, 4, 5, 6, 7}" by auto
  moreover have "mask 3 = (7 :: NvU64)" by (simp add: mask_eq_exp_minus_1)
  ultimately show ?thesis by auto
qed

lemma unat_peer_id: "i < 8 \<Longrightarrow> unat (of_nat i :: NvU64) = i"
  by (simp add: unat_of_nat)


lemma mask_small: "mask (Suc 0) = (1 :: NvU64)" "mask (Suc (Suc 0)) = (3 :: NvU64)"
  by (simp_all add: mask_eq_exp_minus_1)

lemmas field_simps64 = field_ok_def apart_def hw_mask_def HWCONST64_value DRF_VAL64_same DRF_VAL64_apart mask_small

lemma make_pte_pascal_fields:
  "DRF_VAL64 VER2_PTE_VALID (make_pte_pascal ap a p flags) = 1"
  "DRF_VAL64 VER2_PTE_APERTURE (make_pte_pascal ap a p flags) = pte_aperture_bits ap"
  "DRF_VAL64 VER2_PTE_VOL (make_pte_pascal ap a p flags) =
     (if flags AND UVM_MMU_PTE_FLAGS_CACHED \<noteq> 0 then 0 else 1)"
  "DRF_VAL64 VER2_PTE_READ_ONLY (make_pte_pascal ap a p flags) = (if p = UVM_PROT_READ_ONLY then 1 else 0)"
  "DRF_VAL64 VER2_PTE_ATOMIC_DISABLE (make_pte_pascal ap a p flags) =
     (if p = UVM_PROT_READ_WRITE_ATOMIC then 0 else 1)"
  by (simp_all add: make_pte_pascal_def Let_def mmu_fields field_simps64 pte_aperture_bits_def)

lemma make_pte_pascal_address:
  "DRF_VAL64 VER2_PTE_ADDRESS_SYS (make_pte_pascal UVM_APERTURE_SYS a p flags) = drop_bit 12 a AND mask 46"
  "ap \<noteq> UVM_APERTURE_SYS \<Longrightarrow>
     DRF_VAL64 VER2_PTE_ADDRESS_VID (make_pte_pascal ap a p flags) = drop_bit 12 a AND mask 25"
  "ap \<noteq> UVM_APERTURE_SYS \<Longrightarrow> DRF_VAL64 VER2_PTE_COMPTAGLINE (make_pte_pascal ap a p flags) = 0"
  "DRF_VAL64 VER2_PTE_ADDRESS_VID_PEER (make_pte_pascal (UVM_APERTURE_PEER i) a p flags) = of_nat i AND mask 3"
  by (simp_all add: make_pte_pascal_def Let_def mmu_fields field_simps64 pte_aperture_bits_def UVM_APERTURE_PEER_ID_def)

lemma join_lo_hi: "(x AND mask n) OR push_bit n (drop_bit n x) = (x :: NvU64)"
  by (auto simp: bit_eq_iff bit_simps) (metis le_add_diff_inverse not_le)

lemma ver2_decode_eq:
  assumes ok: "pte_addr_ok 58 vid peer ap a" and p: "p \<noteq> UVM_PROT_NONE"
    and f: "DRF_VAL64 VER2_PTE_VALID w = 1" "DRF_VAL64 VER2_PTE_APERTURE w = pte_aperture_bits ap"
      "DRF_VAL64 VER2_PTE_VOL w = (if flags AND UVM_MMU_PTE_FLAGS_CACHED \<noteq> 0 then 0 else 1)"
      "DRF_VAL64 VER2_PTE_READ_ONLY w = (if p = UVM_PROT_READ_ONLY then 1 else 0)"
      "DRF_VAL64 VER2_PTE_ATOMIC_DISABLE w = (if p = UVM_PROT_READ_WRITE_ATOMIC then 0 else 1)"
    and sys: "ap = UVM_APERTURE_SYS \<Longrightarrow> DRF_VAL64 VER2_PTE_ADDRESS_SYS w = drop_bit 12 a AND mask 46"
    and vid: "ap \<noteq> UVM_APERTURE_SYS \<Longrightarrow>
      DRF_VAL64 VER2_PTE_ADDRESS_VID w OR push_bit 25 (DRF_VAL64 comptag w) = drop_bit 12 a"
    and peer: "\<And>i. ap = UVM_APERTURE_PEER i \<Longrightarrow> DRF_VAL64 VER2_PTE_ADDRESS_VID_PEER w = of_nat i AND mask 3"
  shows "ver2_decode comptag w =
    Some \<lparr>view_aperture = ap, view_address = a, view_prot = p,
      view_cached = (flags AND UVM_MMU_PTE_FLAGS_CACHED \<noteq> 0)\<rparr>"
proof -
  have al: "push_bit 12 (drop_bit 12 a) = a"
    using ok push_drop_aligned[of 12 a] by (simp add: pte_addr_ok_def)
  have prot: "(if DRF_VAL64 VER2_PTE_READ_ONLY w = 1 then UVM_PROT_READ_ONLY
      else if DRF_VAL64 VER2_PTE_ATOMIC_DISABLE w = 1 then UVM_PROT_READ_WRITE else UVM_PROT_READ_WRITE_ATOMIC) = p"
    using p f(4,5) by (cases p) auto
  show ?thesis
  proof (cases ap)
    case (UVM_APERTURE_PEER i)
    then have "i < 8" using ok by (simp add: pte_addr_ok_def)
    then have "pte_aperture (DRF_VAL64 VER2_PTE_APERTURE w) (DRF_VAL64 VER2_PTE_ADDRESS_VID_PEER w) = ap"
      using UVM_APERTURE_PEER f(2) peer
      by (simp add: pte_aperture_def pte_aperture_bits_def uvm_aperture_is_peer_def peer_id_small unat_peer_id)
    with UVM_APERTURE_PEER f al vid prot show ?thesis by (simp add: ver2_decode_def Let_def)
  next
    case UVM_APERTURE_SYS
    then have "drop_bit 12 a AND mask 46 = drop_bit 12 a"
      using ok by (intro mask_drop_bit_fits) (simp_all add: pte_addr_ok_def)
    with UVM_APERTURE_SYS f al sys prot show ?thesis
      by (simp add: ver2_decode_def Let_def pte_aperture_def pte_aperture_bits_def)
  next
    case UVM_APERTURE_VID
    with f al vid prot show ?thesis
      by (simp add: ver2_decode_def Let_def pte_aperture_def pte_aperture_bits_def)
  qed (use ok in \<open>simp_all add: pte_addr_ok_def\<close>)
qed

lemma addr_below:
  assumes "pte_addr_ok sys n n ap a" "ap \<noteq> UVM_APERTURE_SYS"
  shows "a < 2 ^ n"
  using assms by (auto simp: pte_addr_ok_def split: aperture.splits)

lemma make_pte_pascal_decode:
  assumes "pte_addr_ok 58 37 37 ap a" "p \<noteq> UVM_PROT_NONE"
  shows "ver2_decode VER2_PTE_COMPTAGLINE (make_pte_pascal ap a p flags) =
    Some \<lparr>view_aperture = ap, view_address = a, view_prot = p,
      view_cached = (flags AND UVM_MMU_PTE_FLAGS_CACHED \<noteq> 0)\<rparr>"
proof (rule ver2_decode_eq[OF assms make_pte_pascal_fields])
  assume "ap \<noteq> UVM_APERTURE_SYS"
  then show "DRF_VAL64 VER2_PTE_ADDRESS_VID (make_pte_pascal ap a p flags) OR
      push_bit 25 (DRF_VAL64 VER2_PTE_COMPTAGLINE (make_pte_pascal ap a p flags)) = drop_bit 12 a"
    using addr_below[OF assms(1)] mask_drop_bit_fits[of a 25 12] by (simp add: make_pte_pascal_address)
qed (simp_all add: make_pte_pascal_address)

lemma make_pte_volta_fields:
  "DRF_VAL64 VER2_PTE_VALID (make_pte_volta ap a p flags) = 1"
  "DRF_VAL64 VER2_PTE_APERTURE (make_pte_volta ap a p flags) = pte_aperture_bits ap"
  "DRF_VAL64 VER2_PTE_VOL (make_pte_volta ap a p flags) =
     (if flags AND UVM_MMU_PTE_FLAGS_CACHED \<noteq> 0 then 0 else 1)"
  "DRF_VAL64 VER2_PTE_READ_ONLY (make_pte_volta ap a p flags) = (if p = UVM_PROT_READ_ONLY then 1 else 0)"
  "DRF_VAL64 VER2_PTE_ATOMIC_DISABLE (make_pte_volta ap a p flags) =
     (if p = UVM_PROT_READ_WRITE_ATOMIC then 0 else 1)"
  by (simp_all add: make_pte_volta_def Let_def mmu_fields field_simps64 pte_aperture_bits_def)

lemma make_pte_volta_address:
  "DRF_VAL64 VER2_PTE_ADDRESS_SYS (make_pte_volta UVM_APERTURE_SYS a p flags) = drop_bit 12 a AND mask 46"
  "ap \<noteq> UVM_APERTURE_SYS \<Longrightarrow>
     DRF_VAL64 VER2_PTE_ADDRESS_VID (make_pte_volta ap a p flags) = drop_bit 12 a AND mask 25"
  "ap \<noteq> UVM_APERTURE_SYS \<Longrightarrow>
     DRF_VAL64 VER2_PTE_COMPTAGLINE (make_pte_volta ap a p flags) = drop_bit 25 (drop_bit 12 a) AND mask 18"
  "DRF_VAL64 VER2_PTE_ADDRESS_VID_PEER (make_pte_volta (UVM_APERTURE_PEER i) a p flags) = of_nat i AND mask 3"
  by (simp_all add: make_pte_volta_def Let_def mmu_fields field_simps64 pte_aperture_bits_def
      UVM_APERTURE_PEER_ID_def HWSIZE_def)

lemma make_pte_volta_decode:
  assumes "pte_addr_ok 58 55 55 ap a" "p \<noteq> UVM_PROT_NONE"
  shows "ver2_decode VER2_PTE_COMPTAGLINE (make_pte_volta ap a p flags) =
    Some \<lparr>view_aperture = ap, view_address = a, view_prot = p,
      view_cached = (flags AND UVM_MMU_PTE_FLAGS_CACHED \<noteq> 0)\<rparr>"
proof (rule ver2_decode_eq[OF assms make_pte_volta_fields])
  assume "ap \<noteq> UVM_APERTURE_SYS"
  then show "DRF_VAL64 VER2_PTE_ADDRESS_VID (make_pte_volta ap a p flags) OR
      push_bit 25 (DRF_VAL64 VER2_PTE_COMPTAGLINE (make_pte_volta ap a p flags)) = drop_bit 12 a"
    using addr_below[OF assms(1)] mask_drop_bit_fits[of a 18 37] join_lo_hi[of "drop_bit 12 a" 25]
    by (simp add: make_pte_volta_address)
qed (simp_all add: make_pte_volta_address)

lemma make_pte_turing_fields:
  "DRF_VAL64 VER2_PTE_VALID (make_pte_turing ap a p flags) = 1"
  "DRF_VAL64 VER2_PTE_APERTURE (make_pte_turing ap a p flags) = pte_aperture_bits ap"
  "DRF_VAL64 VER2_PTE_VOL (make_pte_turing ap a p flags) =
     (if flags AND UVM_MMU_PTE_FLAGS_CACHED \<noteq> 0 then 0 else 1)"
  "DRF_VAL64 VER2_PTE_READ_ONLY (make_pte_turing ap a p flags) = (if p = UVM_PROT_READ_ONLY then 1 else 0)"
  "DRF_VAL64 VER2_PTE_ATOMIC_DISABLE (make_pte_turing ap a p flags) =
     (if p = UVM_PROT_READ_WRITE_ATOMIC then 0 else 1)"
  by (simp_all add: make_pte_turing_def Let_def mmu_fields field_simps64 pte_aperture_bits_def)

lemma make_pte_turing_address:
  "DRF_VAL64 VER2_PTE_ADDRESS_SYS (make_pte_turing UVM_APERTURE_SYS a p flags) = drop_bit 12 a AND mask 46"
  "ap \<noteq> UVM_APERTURE_SYS \<Longrightarrow>
     DRF_VAL64 VER2_PTE_ADDRESS_VID (make_pte_turing ap a p flags) = drop_bit 12 a AND mask 25"
  "ap \<noteq> UVM_APERTURE_SYS \<Longrightarrow>
     DRF_VAL64 TURING_PTE_COMPTAGLINE (make_pte_turing ap a p flags) = drop_bit 25 (drop_bit 12 a) AND mask 20"
  "DRF_VAL64 VER2_PTE_ADDRESS_VID_PEER (make_pte_turing (UVM_APERTURE_PEER i) a p flags) = of_nat i AND mask 3"
  by (simp_all add: make_pte_turing_def Let_def mmu_fields field_simps64 pte_aperture_bits_def
      UVM_APERTURE_PEER_ID_def HWSIZE_def)

lemma make_pte_turing_decode:
  assumes "pte_addr_ok 58 57 57 ap a" "p \<noteq> UVM_PROT_NONE"
  shows "ver2_decode TURING_PTE_COMPTAGLINE (make_pte_turing ap a p flags) =
    Some \<lparr>view_aperture = ap, view_address = a, view_prot = p,
      view_cached = (flags AND UVM_MMU_PTE_FLAGS_CACHED \<noteq> 0)\<rparr>"
proof (rule ver2_decode_eq[OF assms make_pte_turing_fields])
  assume "ap \<noteq> UVM_APERTURE_SYS"
  then show "DRF_VAL64 VER2_PTE_ADDRESS_VID (make_pte_turing ap a p flags) OR
      push_bit 25 (DRF_VAL64 TURING_PTE_COMPTAGLINE (make_pte_turing ap a p flags)) = drop_bit 12 a"
    using addr_below[OF assms(1)] mask_drop_bit_fits[of a 20 37] join_lo_hi[of "drop_bit 12 a" 25]
    by (simp add: make_pte_turing_address)
qed (simp_all add: make_pte_turing_address)
lemma make_pte_hopper_fields:
  "DRF_VAL64 VER3_PTE_VALID (make_pte_hopper ap a p flags) = 1"
  "DRF_VAL64 VER3_PTE_APERTURE (make_pte_hopper ap a p flags) = pte_aperture_bits ap"
  "DRF_VAL64 VER3_PTE_PCF (make_pte_hopper ap a p flags) = pte_pcf p flags AND mask 5"
  by (simp_all add: make_pte_hopper_def Let_def mmu_fields field_simps64 pte_aperture_bits_def)

lemma make_pte_hopper_address:
  "DRF_VAL64 VER3_PTE_ADDRESS_VID (make_pte_hopper UVM_APERTURE_VID a p flags) = drop_bit 12 a AND mask 28"
  "ap \<noteq> UVM_APERTURE_VID \<Longrightarrow>
     DRF_VAL64 VER3_PTE_ADDRESS (make_pte_hopper ap a p flags) = drop_bit 12 a AND mask 40"
  "i < 8 \<Longrightarrow>
     DRF_VAL64 VER3_PTE_PEER_ID (make_pte_hopper (UVM_APERTURE_PEER i) a p flags) = of_nat i AND mask 3"
  by (simp_all add: make_pte_hopper_def Let_def mmu_fields field_simps64 pte_aperture_bits_def
      UVM_APERTURE_PEER_ID_def uvm_aperture_is_peer_def)

lemma mask_5: "mask 5 = (31 :: NvU64)"
  by (simp add: mask_eq_exp_minus_1)

lemma pte_pcf_bits:
  assumes "p \<noteq> UVM_PROT_NONE"
  shows "pte_pcf p flags AND mask 5 = pte_pcf p flags"
    and "(pte_pcf p flags AND 4 \<noteq> 0) = (p = UVM_PROT_READ_ONLY)"
    and "p \<noteq> UVM_PROT_READ_ONLY \<Longrightarrow> (pte_pcf p flags AND 8 \<noteq> 0) = (p = UVM_PROT_READ_WRITE)"
    and "(pte_pcf p flags AND 1 = 0) = (flags AND UVM_MMU_PTE_FLAGS_CACHED \<noteq> 0)"
  using assms by (cases p; simp add: pte_pcf_def Let_def mask_5)+

lemma make_pte_hopper_decode:
  assumes ok: "pte_addr_ok 52 40 52 ap a" and p: "p \<noteq> UVM_PROT_NONE"
  shows "ver3_decode (make_pte_hopper ap a p flags) =
    Some \<lparr>view_aperture = ap, view_address = a, view_prot = p,
      view_cached = (flags AND UVM_MMU_PTE_FLAGS_CACHED \<noteq> 0)\<rparr>"
proof -
  let ?w = "make_pte_hopper ap a p flags"
  have al: "push_bit 12 (drop_bit 12 a) = a"
    using ok push_drop_aligned[of 12 a] by (simp add: pte_addr_ok_def)
  have pcf: "DRF_VAL64 VER3_PTE_PCF ?w = pte_pcf p flags"
    using pte_pcf_bits(1)[OF p] by (simp add: make_pte_hopper_fields)
  have prot: "(if pte_pcf p flags AND 4 \<noteq> 0 then UVM_PROT_READ_ONLY
      else if pte_pcf p flags AND 8 \<noteq> 0 then UVM_PROT_READ_WRITE else UVM_PROT_READ_WRITE_ATOMIC) = p"
    using p pte_pcf_bits(2,3)[OF p] by (cases p) auto
  note step = ver3_decode_def Let_def pcf prot pte_pcf_bits(4)[OF p]
  have wide: "drop_bit 12 a AND mask 40 = drop_bit 12 a" if "a < 2 ^ 52"
    using mask_drop_bit_fits[of a 40 12] that by simp
  show ?thesis
  proof (cases ap)
    case (UVM_APERTURE_PEER i)
    then have "i < 8" "a < 2 ^ 52" using ok by (simp_all add: pte_addr_ok_def)
    moreover have "pte_aperture (DRF_VAL64 VER3_PTE_APERTURE ?w) (DRF_VAL64 VER3_PTE_PEER_ID ?w) = ap"
      using UVM_APERTURE_PEER \<open>i < 8\<close>
      by (simp add: pte_aperture_def pte_aperture_bits_def uvm_aperture_is_peer_def make_pte_hopper_fields
          make_pte_hopper_address peer_id_small unat_peer_id)
    ultimately show ?thesis using UVM_APERTURE_PEER al wide
      unfolding step by (simp add: make_pte_hopper_fields make_pte_hopper_address)
  next
    case UVM_APERTURE_SYS
    then have "a < 2 ^ 52" using ok by (simp add: pte_addr_ok_def)
    with UVM_APERTURE_SYS al wide show ?thesis unfolding step
      by (simp add: make_pte_hopper_fields make_pte_hopper_address pte_aperture_def pte_aperture_bits_def)
  next
    case UVM_APERTURE_VID
    then have "drop_bit 12 a AND mask 28 = drop_bit 12 a"
      using ok mask_drop_bit_fits[of a 28 12] by (simp add: pte_addr_ok_def)
    with UVM_APERTURE_VID al show ?thesis unfolding step
      by (simp add: make_pte_hopper_fields make_pte_hopper_address pte_aperture_def pte_aperture_bits_def)
  qed (use ok in \<open>simp_all add: pte_addr_ok_def\<close>)
qed

lemma unmapped_sparse_pascal:
  "ver2_decode c (unmapped_pte_pascal s) = None" "ver2_decode c make_sparse_pte_pascal = None"
  "make_sparse_pte_pascal \<noteq> unmapped_pte_pascal s"
  by (simp_all add: ver2_decode_def unmapped_pte_pascal_def make_sparse_pte_pascal_def mmu_fields
      DRF_VAL64_def HWCONST64_def hw_mask_def mask_small)

lemma unmapped_sparse_hopper:
  "ver3_decode (unmapped_pte_hopper s) = None" "ver3_decode make_sparse_pte_hopper = None"
  "make_sparse_pte_hopper \<noteq> unmapped_pte_hopper s"
  by (simp_all add: ver3_decode_def unmapped_pte_hopper_def make_sparse_pte_hopper_def mmu_fields
      DRF_VAL64_def HWCONST64_def hw_mask_def mask_small)

interpretation pascal: pte_format make_pte_pascal "ver2_decode VER2_PTE_COMPTAGLINE" "pte_addr_ok 58 37 37"
    unmapped_pte_pascal make_sparse_pte_pascal
  by unfold_locales (simp_all add: make_pte_pascal_decode unmapped_sparse_pascal)

interpretation volta: pte_format make_pte_volta "ver2_decode VER2_PTE_COMPTAGLINE" "pte_addr_ok 58 55 55"
    unmapped_pte_pascal make_sparse_pte_pascal
  by unfold_locales (simp_all add: make_pte_volta_decode unmapped_sparse_pascal)

interpretation turing: pte_format make_pte_turing "ver2_decode TURING_PTE_COMPTAGLINE" "pte_addr_ok 58 57 57"
    unmapped_pte_pascal make_sparse_pte_pascal
  by unfold_locales (simp_all add: make_pte_turing_decode unmapped_sparse_pascal)

interpretation hopper: pte_format make_pte_hopper ver3_decode "pte_addr_ok 52 40 52"
    unmapped_pte_hopper make_sparse_pte_hopper
  by unfold_locales (simp_all add: make_pte_hopper_decode unmapped_sparse_hopper)

section \<open>Page directory entries\<close>

text \<open>
  What a PDE, or a half of a dual PDE, points to: nothing when its aperture field is 0, video memory for 1, and coherent system memory for 2. The value 3,
  non-coherent system memory, is not an aperture of any allocation of the driver: it is read as \<^verbatim>\<open>UVM_APERTURE_DEFAULT\<close>.
\<close>

definition pde_decode :: "hw_field \<Rightarrow> hw_field \<Rightarrow> hw_field \<Rightarrow> nat \<Rightarrow> NvU64 \<Rightarrow> gpu_phys_address option" where
  "pde_decode apf sysf vidf shift w =
     (let ap = DRF_VAL64 apf w
      in if ap = 1 then Some \<lparr>phys_address = push_bit shift (DRF_VAL64 vidf w), phys_aperture = UVM_APERTURE_VID\<rparr>
         else if ap = 2 then Some \<lparr>phys_address = push_bit shift (DRF_VAL64 sysf w), phys_aperture = UVM_APERTURE_SYS\<rparr>
         else if ap = 0 then None
         else Some \<lparr>phys_address = push_bit shift (DRF_VAL64 sysf w), phys_aperture = UVM_APERTURE_DEFAULT\<rparr>)"

definition alloc_ok :: "nat \<Rightarrow> nat \<Rightarrow> nat \<Rightarrow> gpu_phys_address option \<Rightarrow> bool" where
  "alloc_ok shift sys vid alloc \<longleftrightarrow>
     (case alloc of None \<Rightarrow> True
      | Some x \<Rightarrow> 2 ^ shift dvd unat (phys_address x) \<and>
          (phys_aperture x = UVM_APERTURE_SYS \<and> phys_address x < 2 ^ sys \<or>
           phys_aperture x = UVM_APERTURE_VID \<and> phys_address x < 2 ^ vid))"

lemma pde_decode_eq:
  assumes ok: "alloc_ok shift sys vid alloc"
    and n: "sys = ns + shift" "vid = nv + shift" "sys < 64" "vid < 64"
    and none: "alloc = None \<Longrightarrow> DRF_VAL64 apf w = 0"
    and s: "\<And>x. alloc = Some x \<Longrightarrow> phys_aperture x = UVM_APERTURE_SYS \<Longrightarrow>
      DRF_VAL64 apf w = 2 \<and> DRF_VAL64 sysf w = drop_bit shift (phys_address x) AND mask ns"
    and v: "\<And>x. alloc = Some x \<Longrightarrow> phys_aperture x = UVM_APERTURE_VID \<Longrightarrow>
      DRF_VAL64 apf w = 1 \<and> DRF_VAL64 vidf w = drop_bit shift (phys_address x) AND mask nv"
  shows "pde_decode apf sysf vidf shift w = alloc"
proof (cases alloc)
  case None
  with none show ?thesis by (simp add: pde_decode_def)
next
  case (Some x)
  have al: "push_bit shift (drop_bit shift (phys_address x)) = phys_address x"
    using ok Some by (intro push_drop_aligned) (simp add: alloc_ok_def)
  consider (sys) "phys_aperture x = UVM_APERTURE_SYS" "phys_address x < 2 ^ (ns + shift)"
    | (vid) "phys_aperture x = UVM_APERTURE_VID" "phys_address x < 2 ^ (nv + shift)"
    using ok Some n by (auto simp: alloc_ok_def)
  then show ?thesis
  proof cases
    case sys
    with s[OF Some] al n(1,3) Some mask_drop_bit_fits[of "phys_address x" ns shift] show ?thesis
      by (simp add: pde_decode_def)
  next
    case vid
    with v[OF Some] al n(2,4) Some mask_drop_bit_fits[of "phys_address x" nv shift] show ?thesis
      by (simp add: pde_decode_def)
  qed
qed

lemmas pde_simps = Let_def mmu_fields field_simps64

lemma single_pde_pascal_decode:
  assumes "alloc_ok 12 58 37 x"
  shows "pde_decode VER2_PDE_APERTURE VER2_PDE_ADDRESS_SYS VER2_PDE_ADDRESS_VID 12 (single_pde_pascal x) = x"
    and "DRF_VAL64 VER2_PDE_IS_PDE (single_pde_pascal x) = 0"
  by (rule pde_decode_eq[OF assms, of 46 25]; simp add: single_pde_pascal_def pde_simps)
    (use assms in \<open>auto simp: alloc_ok_def single_pde_pascal_def pde_simps split: option.splits\<close>)

lemma single_pde_volta_decode:
  assumes "alloc_ok 12 58 37 x"
  shows "pde_decode VER2_PDE_APERTURE VER2_PDE_ADDRESS_SYS VER2_PDE_ADDRESS_VID 12 (single_pde_volta ats x d) = x"
    and "DRF_VAL64 VER2_PDE_IS_PDE (single_pde_volta ats x d) = 0"
  by (rule pde_decode_eq[OF assms, of 46 25]; simp add: single_pde_volta_def pde_simps)
    (use assms in \<open>auto simp: alloc_ok_def single_pde_volta_def pde_simps split: option.splits\<close>)

lemma big_half_pde_volta_decode:
  assumes "alloc_ok 8 58 37 x"
  shows "pde_decode VER2_DUAL_PDE_APERTURE_BIG VER2_DUAL_PDE_ADDRESS_BIG_SYS VER2_DUAL_PDE_ADDRESS_BIG_VID 8
      (big_half_pde_volta x) = x"
    and "DRF_VAL64 VER2_PDE_IS_PDE (big_half_pde_volta x) = 0"
  by (rule pde_decode_eq[OF assms, of 50 29]; simp add: big_half_pde_volta_def pde_simps)
    (use assms in \<open>auto simp: alloc_ok_def big_half_pde_volta_def pde_simps split: option.splits\<close>)

lemma small_half_pde_volta_decode:
  assumes "alloc_ok 12 58 37 x"
  shows "pde_decode VER2_DUAL_PDE_APERTURE_SMALL VER2_DUAL_PDE_ADDRESS_SMALL_SYS VER2_DUAL_PDE_ADDRESS_SMALL_VID 12
      (small_half_pde_volta x) = x"
  by (rule pde_decode_eq[OF assms, of 46 25]; simp add: small_half_pde_volta_def pde_simps)

lemma pascal_pde_halves [simp]:
  "big_half_pde_pascal = big_half_pde_volta" "small_half_pde_pascal = small_half_pde_volta"
  "entries_per_index_pascal = entries_per_index_volta"
  by (simp_all add: fun_eq_iff big_half_pde_pascal_def big_half_pde_volta_def small_half_pde_pascal_def
      small_half_pde_volta_def entries_per_index_pascal_def entries_per_index_volta_def)

lemma mask_3: "mask 3 = (7 :: NvU64)"
  by (simp add: mask_eq_exp_minus_1)

lemma single_pde_hopper_decode:
  assumes "alloc_ok 12 52 52 x"
  shows "pde_decode VER3_PDE_APERTURE VER3_PDE_ADDRESS VER3_PDE_ADDRESS 12 (single_pde_hopper ats x d i) = x"
    and "DRF_VAL64 VER3_PDE_IS_PTE (single_pde_hopper ats x d i) = 0"
  by (rule pde_decode_eq[OF assms, of 40 40]; simp add: single_pde_hopper_def pde_simps)
    (use assms in \<open>auto simp: alloc_ok_def single_pde_hopper_def pde_simps split: option.splits\<close>)

lemma big_half_pde_hopper_decode:
  assumes "alloc_ok 8 52 52 x"
  shows "pde_decode VER3_DUAL_PDE_APERTURE_BIG VER3_DUAL_PDE_ADDRESS_BIG VER3_DUAL_PDE_ADDRESS_BIG 8
      (big_half_pde_hopper ats x d i) = x"
    and "DRF_VAL64 VER3_PDE_IS_PTE (big_half_pde_hopper ats x d i) = 0"
  by (rule pde_decode_eq[OF assms, of 44 44]; simp add: big_half_pde_hopper_def pde_simps)
    (use assms in \<open>auto simp: alloc_ok_def big_half_pde_hopper_def pde_simps split: option.splits\<close>)

lemma small_half_pde_hopper_decode:
  assumes "alloc_ok 12 52 52 x"
  shows "pde_decode VER3_DUAL_PDE_APERTURE_SMALL VER3_DUAL_PDE_ADDRESS_SMALL VER3_DUAL_PDE_ADDRESS_SMALL 12
      (small_half_pde_hopper ats x d i) = x"
  by (rule pde_decode_eq[OF assms, of 40 40]; simp add: small_half_pde_hopper_def pde_simps)

lemma pde_pcf_bits: "pde_pcf ats v d i AND 7 = pde_pcf ats v d i"
  by (simp add: pde_pcf_def Let_def valid_pcf_def invalid_pcf_def)

text \<open>
  What the hardware must read in the PCF field of an entry for the allocation \<open>alloc\<close>: the first bit is set for a valid entry, which is not cached, and the second one
  forbids the parallel ATS lookup.
\<close>

definition ats_forbidden :: "ats_config \<Rightarrow> page_directory \<Rightarrow> nat \<Rightarrow> gpu_phys_address option \<Rightarrow> bool" where
  "ats_forbidden cfg dir i alloc \<longleftrightarrow> ats_enabled cfg \<and> 0 < dir_depth dir \<and> (alloc \<noteq> None \<or> \<not> is_ats_range_valid cfg dir i)"

definition expected_pcf :: "ats_config \<Rightarrow> page_directory \<Rightarrow> nat \<Rightarrow> gpu_phys_address option \<Rightarrow> NvU64" where
  "expected_pcf cfg dir i alloc = of_bool (alloc \<noteq> None) + 2 * of_bool (ats_forbidden cfg dir i alloc)"

lemma pde_pcf_expected: "pde_pcf cfg (alloc \<noteq> None) dir i = expected_pcf cfg dir i alloc"
  by (auto simp: pde_pcf_def expected_pcf_def ats_forbidden_def valid_pcf_def invalid_pcf_def)

lemma hopper_pcf:
  "DRF_VAL64 VER3_PDE_PCF (single_pde_hopper ats x d i) = expected_pcf ats d i x"
  "DRF_VAL64 VER3_DUAL_PDE_PCF_BIG (big_half_pde_hopper ats x d i) = expected_pcf ats d i x"
  "DRF_VAL64 VER3_DUAL_PDE_PCF_SMALL (small_half_pde_hopper ats x d i) = expected_pcf ats d i x"
  using pde_pcf_bits[of ats _ d i] unfolding pde_pcf_expected[symmetric]
  by (auto simp: single_pde_hopper_def big_half_pde_hopper_def small_half_pde_hopper_def pde_simps mask_3 split: option.split aperture.split)

section \<open>Properties\<close>

text \<open>C17. Round trip of PTEs on every generation: the PTE the driver builds is valid and the hardware reads back from its fields the aperture (with the
  peer number), the whole physical address, the access permission and the caching flag that
  the driver asked for, for every page aligned address that fits the address field of the format.\<close>

theorem mmu_make_pte_roundtrip:
  assumes "p \<noteq> UVM_PROT_NONE" and "s \<noteq> UVM_PAGE_SIZE_128K"
  shows "(pte_addr_ok 58 37 37 ap a \<longrightarrow>
      ver2_decode VER2_PTE_COMPTAGLINE (make_pte (the (uvm_hal_mmu_mode_pascal s)) ap a p flags) =
        Some \<lparr>view_aperture = ap, view_address = a, view_prot = p,
          view_cached = (flags AND UVM_MMU_PTE_FLAGS_CACHED \<noteq> 0)\<rparr>) \<and>
    (pte_addr_ok 58 55 55 ap a \<longrightarrow>
      ver2_decode VER2_PTE_COMPTAGLINE (make_pte (the (uvm_hal_mmu_mode_volta ats s)) ap a p flags) =
        Some \<lparr>view_aperture = ap, view_address = a, view_prot = p,
          view_cached = (flags AND UVM_MMU_PTE_FLAGS_CACHED \<noteq> 0)\<rparr>) \<and>
    (pte_addr_ok 58 57 57 ap a \<longrightarrow>
      ver2_decode TURING_PTE_COMPTAGLINE (make_pte (the (uvm_hal_mmu_mode_ampere ats s)) ap a p flags) =
        Some \<lparr>view_aperture = ap, view_address = a, view_prot = p,
          view_cached = (flags AND UVM_MMU_PTE_FLAGS_CACHED \<noteq> 0)\<rparr>) \<and>
    (pte_addr_ok 52 40 52 ap a \<longrightarrow>
      ver3_decode (make_pte (the (uvm_hal_mmu_mode_hopper cfg s)) ap a p flags) =
        Some \<lparr>view_aperture = ap, view_address = a, view_prot = p,
          view_cached = (flags AND UVM_MMU_PTE_FLAGS_CACHED \<noteq> 0)\<rparr>)"
  using assms pascal.dec_mk volta.dec_mk turing.dec_mk hopper.dec_mk
  by (simp add: uvm_hal_mmu_mode_pascal_def uvm_hal_mmu_mode_volta_def uvm_hal_mmu_mode_turing_def
      uvm_hal_mmu_mode_ampere_def uvm_hal_mmu_mode_hopper_def pascal_mmu_mode_hal_def)

theorem mmu_make_pte_roundtrip_witness:
  "ver3_decode (make_pte (the (uvm_hal_mmu_mode_hopper
       \<lparr>ats_enabled = True, max_va_lower = 0, min_va_upper = 0\<rparr> UVM_PAGE_SIZE_64K))
       (UVM_APERTURE_PEER 5) 0x123456789000 UVM_PROT_READ_WRITE 1) =
     Some \<lparr>view_aperture = UVM_APERTURE_PEER 5, view_address = 0x123456789000,
       view_prot = UVM_PROT_READ_WRITE, view_cached = True\<rparr>"
  using mmu_make_pte_roundtrip[where p = UVM_PROT_READ_WRITE and s = UVM_PAGE_SIZE_64K and
      ap = "UVM_APERTURE_PEER 5" and a = "0x123456789000" and flags = 1 and
      cfg = "\<lparr>ats_enabled = True, max_va_lower = 0, min_va_upper = 0\<rparr>"]
  by (simp add: pte_addr_ok_def page_size_defs UVM_MMU_PTE_FLAGS_CACHED_def dvd_eq_mod_eq_0)

text \<open>Different mappings have different PTEs: two PTEs with the same bits map the same address of the same
  aperture with the same permission, and no PTE of a mapping is the unmapped or the sparse pattern of any page size.\<close>

theorem mmu_make_pte_distinct:
  assumes p: "p \<noteq> UVM_PROT_NONE" "p' \<noteq> UVM_PROT_NONE"
  shows "(pte_addr_ok 58 57 57 ap a \<and> pte_addr_ok 58 57 57 ap' a' \<longrightarrow>
      (make_pte_turing ap a p flags = make_pte_turing ap' a' p' flags' \<longrightarrow> ap = ap' \<and> a = a' \<and> p = p') \<and>
      make_pte_turing ap a p flags \<notin> {unmapped_pte_pascal s, make_sparse_pte_pascal}) \<and>
    (pte_addr_ok 52 40 52 ap a \<and> pte_addr_ok 52 40 52 ap' a' \<longrightarrow>
      (make_pte_hopper ap a p flags = make_pte_hopper ap' a' p' flags' \<longrightarrow> ap = ap' \<and> a = a' \<and> p = p') \<and>
      make_pte_hopper ap a p flags \<notin> {unmapped_pte_hopper s, make_sparse_pte_hopper})"
  by (auto simp: turing.mk_mapped[OF _ p(1)] hopper.mk_mapped[OF _ p(1)]
      dest: turing.mk_inject[OF _ _ p] hopper.mk_inject[OF _ _ p])

theorem mmu_make_pte_distinct_witness:
  "make_pte_hopper UVM_APERTURE_VID 0x1000 UVM_PROT_READ_ONLY 0 \<noteq>
     make_pte_hopper UVM_APERTURE_VID 0x1000 UVM_PROT_READ_WRITE 0"
  using mmu_make_pte_distinct[where p = UVM_PROT_READ_ONLY and p' = UVM_PROT_READ_WRITE and
      ap = UVM_APERTURE_VID and ap' = UVM_APERTURE_VID and a = "0x1000" and a' = "0x1000" and flags = 0 and flags' = 0]
  by (simp add: pte_addr_ok_def)

text \<open>C28. Round trip of PDEs: the directory entry written for a page table allocation points to that
  allocation, an absent allocation leaves the entry (or its half of a dual entry) invalid, and an entry is never
  taken for a PTE. A dual entry keeps its two halves apart. On Hopper with ATS, a valid entry, or half of a dual entry, below
  the root never allows the parallel ATS lookup, and an absent one below the root allows it exactly when its addresses are valid for ATS; at the root and without ATS
  it is always allowed.\<close>

theorem mmu_make_pde_roundtrip:
  assumes big: "alloc_ok 8 58 37 big" "alloc_ok 8 52 52 big" and small: "alloc_ok 12 58 37 small" "alloc_ok 12 52 52 small"
  shows "(dir_depth dir \<noteq> 3 \<longrightarrow>
      (\<exists>w. make_pde_volta ats [small] dir i = [w] \<and> DRF_VAL64 VER2_PDE_IS_PDE w = 0 \<and>
        pde_decode VER2_PDE_APERTURE VER2_PDE_ADDRESS_SYS VER2_PDE_ADDRESS_VID 12 w = small)) \<and>
    (dir_depth dir = 3 \<longrightarrow>
      (\<exists>b w. make_pde_volta ats [big, small] dir i = [b, w] \<and> DRF_VAL64 VER2_PDE_IS_PDE b = 0 \<and>
        pde_decode VER2_DUAL_PDE_APERTURE_BIG VER2_DUAL_PDE_ADDRESS_BIG_SYS VER2_DUAL_PDE_ADDRESS_BIG_VID 8 b = big \<and>
        pde_decode VER2_DUAL_PDE_APERTURE_SMALL VER2_DUAL_PDE_ADDRESS_SMALL_SYS VER2_DUAL_PDE_ADDRESS_SMALL_VID 12 w = small)) \<and>
    (dir_depth dir \<noteq> 4 \<longrightarrow>
      (\<exists>w. make_pde_hopper cfg [small] dir i = [w] \<and> DRF_VAL64 VER3_PDE_IS_PTE w = 0 \<and>
        pde_decode VER3_PDE_APERTURE VER3_PDE_ADDRESS VER3_PDE_ADDRESS 12 w = small \<and>
        DRF_VAL64 VER3_PDE_PCF w = expected_pcf cfg dir i small)) \<and>
    (dir_depth dir = 4 \<longrightarrow>
      (\<exists>b w. make_pde_hopper cfg [big, small] dir i = [b, w] \<and> DRF_VAL64 VER3_PDE_IS_PTE b = 0 \<and>
        pde_decode VER3_DUAL_PDE_APERTURE_BIG VER3_DUAL_PDE_ADDRESS_BIG VER3_DUAL_PDE_ADDRESS_BIG 8 b = big \<and>
        pde_decode VER3_DUAL_PDE_APERTURE_SMALL VER3_DUAL_PDE_ADDRESS_SMALL VER3_DUAL_PDE_ADDRESS_SMALL 12 w = small \<and>
        DRF_VAL64 VER3_DUAL_PDE_PCF_BIG b = expected_pcf cfg dir i big \<and>
        DRF_VAL64 VER3_DUAL_PDE_PCF_SMALL w = expected_pcf cfg dir i small))"
  using single_pde_volta_decode[OF small(1)] big_half_pde_volta_decode[OF big(1)] small_half_pde_volta_decode[OF small(1)]
    single_pde_hopper_decode[OF small(2)] big_half_pde_hopper_decode[OF big(2)] small_half_pde_hopper_decode[OF small(2)]
  by (simp add: make_pde_volta_def make_pde_hopper_def entries_per_index_volta_def entries_per_index_hopper_def
      MMU_BIG_def MMU_SMALL_def HWCONST64_def hopper_pcf split: prod.split)

definition sample_alloc :: "gpu_phys_address option" where
  "sample_alloc = Some \<lparr>phys_address = 0x1000, phys_aperture = UVM_APERTURE_VID\<rparr>"

theorem mmu_make_pde_roundtrip_witness:
  "\<exists>b w. make_pde_volta False [None, sample_alloc] (Page_Directory 3 0 None) 7 = [b, w] \<and>
     DRF_VAL64 VER2_PDE_IS_PDE b = 0 \<and>
     pde_decode VER2_DUAL_PDE_APERTURE_BIG VER2_DUAL_PDE_ADDRESS_BIG_SYS VER2_DUAL_PDE_ADDRESS_BIG_VID 8 b = None \<and>
     pde_decode VER2_DUAL_PDE_APERTURE_SMALL VER2_DUAL_PDE_ADDRESS_SMALL_SYS VER2_DUAL_PDE_ADDRESS_SMALL_VID 12 w = sample_alloc"
proof -
  have "alloc_ok 8 58 37 None" "alloc_ok 8 52 52 None" "alloc_ok 12 58 37 sample_alloc" "alloc_ok 12 52 52 sample_alloc"
    by (simp_all add: alloc_ok_def sample_alloc_def)
  from mmu_make_pde_roundtrip[OF this, of "Page_Directory 3 0 None" False 7] show ?thesis by simp
qed

lemma upt_small:
  "[0..<3] = [0, 1, 2]" "[0..<4] = [0, 1, 2, 3]"
  "[0..<5] = [0, 1, 2, 3, 4]" "[0..<6] = [0, 1, 2, 3, 4, 5]"
  by (simp_all add: upt_rec)

text \<open>The geometry of the tables for a page size of \<open>2 ^ n\<close> bytes.\<close>

definition table_layout_ok :: "mmu_mode_hal \<Rightarrow> NvU32 \<Rightarrow> nat \<Rightarrow> bool" where
  "table_layout_ok hal s n \<longleftrightarrow>
     (let d = page_table_depth hal s in
      s AND page_sizes hal = s \<and>
      (\<Sum>i\<leftarrow>[0..<Suc d]. index_bits hal i s) + n = num_va_bits hal \<and>
      list_all (\<lambda>i.
         entry_size hal i * 2 ^ index_bits hal i s \<le> allocation_size hal i s \<and>
         entry_size hal i = 8 * entries_per_index hal i \<and>
         entry_offset hal i s < entries_per_index hal i) [0..<Suc d])"

text \<open>The page tables cover the virtual address space: on every generation and for every page size it supports, the index bits of
  the levels down to the page table and the page offset add up to the bits of a virtual address, the entries of each table fit its
  allocation, and the entry of a page size lies inside its dual entry.\<close>

theorem mmu_table_layout:
  "table_layout_ok (the (uvm_hal_mmu_mode_pascal UVM_PAGE_SIZE_64K)) UVM_PAGE_SIZE_4K 12 \<and>
   table_layout_ok (the (uvm_hal_mmu_mode_pascal UVM_PAGE_SIZE_64K)) UVM_PAGE_SIZE_64K 16 \<and>
   table_layout_ok (the (uvm_hal_mmu_mode_pascal UVM_PAGE_SIZE_64K)) UVM_PAGE_SIZE_2M 21 \<and>
   table_layout_ok (the (uvm_hal_mmu_mode_ampere ats UVM_PAGE_SIZE_64K)) UVM_PAGE_SIZE_4K 12 \<and>
   table_layout_ok (the (uvm_hal_mmu_mode_ampere ats UVM_PAGE_SIZE_64K)) UVM_PAGE_SIZE_64K 16 \<and>
   table_layout_ok (the (uvm_hal_mmu_mode_ampere ats UVM_PAGE_SIZE_64K)) UVM_PAGE_SIZE_2M 21 \<and>
   table_layout_ok (the (uvm_hal_mmu_mode_ampere ats UVM_PAGE_SIZE_64K)) UVM_PAGE_SIZE_512M 29 \<and>
   table_layout_ok (the (uvm_hal_mmu_mode_hopper cfg UVM_PAGE_SIZE_64K)) UVM_PAGE_SIZE_4K 12 \<and>
   table_layout_ok (the (uvm_hal_mmu_mode_hopper cfg UVM_PAGE_SIZE_64K)) UVM_PAGE_SIZE_64K 16 \<and>
   table_layout_ok (the (uvm_hal_mmu_mode_hopper cfg UVM_PAGE_SIZE_64K)) UVM_PAGE_SIZE_2M 21 \<and>
   table_layout_ok (the (uvm_hal_mmu_mode_hopper cfg UVM_PAGE_SIZE_64K)) UVM_PAGE_SIZE_512M 29"
  by (intro conjI; simp add: table_layout_ok_def del: upt_Suc add: Let_def upt_small uvm_hal_mmu_mode_pascal_def uvm_hal_mmu_mode_volta_def
      uvm_hal_mmu_mode_turing_def uvm_hal_mmu_mode_ampere_def uvm_hal_mmu_mode_hopper_def pascal_mmu_mode_hal_def
      page_size_defs page_table_depth_pascal_def page_table_depth_ampere_def page_table_depth_hopper_def
      page_sizes_pascal_def page_sizes_ampere_def index_bits_pascal_def index_bits_hopper_def
      num_va_bits_pascal_def num_va_bits_hopper_def entry_size_pascal_def entry_size_hopper_def
      entries_per_index_volta_def entries_per_index_hopper_def allocation_size_pascal_def allocation_size_hopper_def
      entry_offset_pascal_def entry_offset_hopper_def MMU_BIG_def MMU_SMALL_def)

end
