(* ===== verification/Page_Tree.thy ===== *)
theory Page_Tree
  imports Mmu_Hal "HOL-Library.Multiset"
begin

text \<open>
  Page trees (\<^verbatim>\<open>uvm_mmu.c\<close>): the host's copy of a GPU page table hierarchy. Directories are addresses of
  type \<open>'d\<close> in a heap; a directory points to its parent and its children and counts the references to
  its entries, one per child and one per PTE of a range that a caller holds. Getting PTEs walks from the root, links
  preallocated directories where an entry is missing, and starts over when one has to be allocated, since
  allocation drops the lock; putting PTEs frees the directories that become unused. The outcome of an allocation
  is an argument. Reference counts and indices are natural numbers: a table has at most
  512 entries per child directory or PTE, so that the 32 bit counters cannot wrap.

  What the tree needs of the page table format is the locale \<open>page_geometry\<close>, interpreted on the tables of the
  GPU generations.
\<close>

section \<open>Data\<close>

record page_table_alloc =
  alloc_addr :: gpu_phys_address
  alloc_size :: nat

record 'd page_dir =
  dir_parent :: "'d option"
  dir_index :: nat
  dir_alloc :: page_table_alloc
  dir_refs :: nat
  dir_level :: nat
  dir_entries :: "nat \<Rightarrow> 'd option"

type_synonym 'd dir_heap = "'d \<rightharpoonup> 'd page_dir"

record 'd table_range =
  range_table :: 'd
  range_start_index :: nat
  range_entry_count :: nat
  range_pg_size :: NvU32

text \<open>The fields of a tree that its operations read; the directories are in the heap.\<close>

record 'd page_tree =
  pt_hal :: mmu_mode_hal
  pt_root :: 'd
  pt_location :: aperture
  pt_location_sys_fallback :: bool
  map_remap_larger_page_promotion :: bool

definition UVM_PAGE_SIZE_AGNOSTIC :: NvU32 where "UVM_PAGE_SIZE_AGNOSTIC = 0"

definition MAX_OPERATION_DEPTH :: nat where "MAX_OPERATION_DEPTH = 5"

definition upd_dir :: "'d \<Rightarrow> ('d page_dir \<Rightarrow> 'd page_dir) \<Rightarrow> 'd dir_heap \<Rightarrow> 'd dir_heap" where
  "upd_dir d f h = h(d := map_option f (h d))"

section \<open>Operations\<close>

subsection \<open>Allocation\<close>

text \<open>
  The outcomes of the allocations for a directory: the host structure (\<^verbatim>\<open>uvm_kvmalloc_zero\<close>) and the physical
  memory in vidmem and in sysmem.
\<close>

record 'd dir_outcome =
  host_outcome :: "'d option"
  vid_outcome :: "NV_STATUS + gpu_phys_address"
  sys_outcome :: "NV_STATUS + gpu_phys_address"

definition phys_mem_allocate :: "'d dir_outcome \<Rightarrow> aperture \<Rightarrow> NV_STATUS + gpu_phys_address" where
  "phys_mem_allocate m loc = (if loc = UVM_APERTURE_SYS then sys_outcome m else vid_outcome m)"

definition allocate_directory ::
    "'d page_tree \<Rightarrow> NvU32 \<Rightarrow> nat \<Rightarrow> bool \<Rightarrow> 'd dir_outcome \<Rightarrow> 'd dir_heap \<Rightarrow> 'd option \<times> 'd dir_heap" where
  "allocate_directory tree pg_size depth evict m h =
     (case host_outcome m of
        None \<Rightarrow> (None, h)
      | Some d \<Rightarrow>
          let alloc = phys_mem_allocate m (pt_location tree);
              alloc = (if alloc = Inl NV_ERR_NO_MEMORY \<and> pt_location tree = UVM_APERTURE_VID \<and>
                          pt_location_sys_fallback tree \<and> evict
                       then phys_mem_allocate m UVM_APERTURE_SYS else alloc)
          in case alloc of
               Inl status \<Rightarrow> (None, h)
             | Inr addr \<Rightarrow>
                 (Some d, h(d \<mapsto> \<lparr>dir_parent = None, dir_index = 0,
                    dir_alloc = \<lparr>alloc_addr = addr, alloc_size = allocation_size (pt_hal tree) depth pg_size\<rparr>,
                    dir_refs = 0, dir_level = depth, dir_entries = (\<lambda>_. None)\<rparr>)))"

text \<open>Where a tree may put its tables: from the location asked for and the module parameter \<^verbatim>\<open>uvm_page_table_location\<close>.\<close>

definition page_tree_set_location :: "aperture \<Rightarrow> aperture \<Rightarrow> 'd page_tree \<Rightarrow> 'd page_tree" where
  "page_tree_set_location page_table_aperture loc tree =
     (if loc = UVM_APERTURE_DEFAULT then
        if page_table_aperture = UVM_APERTURE_DEFAULT
        then tree\<lparr>pt_location := UVM_APERTURE_VID, pt_location_sys_fallback := True\<rparr>
        else tree\<lparr>pt_location := page_table_aperture, pt_location_sys_fallback := False\<rparr>
      else tree\<lparr>pt_location := loc, pt_location_sys_fallback := False\<rparr>)"

subsection \<open>Entries\<close>

definition entry_index_from_vaddr :: "NvU64 \<Rightarrow> nat \<Rightarrow> nat \<Rightarrow> nat" where
  "entry_index_from_vaddr vaddr addr_bit_shift bits = unat (drop_bit addr_bit_shift vaddr AND mask bits)"

definition index_to_entry :: "mmu_mode_hal \<Rightarrow> nat \<Rightarrow> nat \<Rightarrow> NvU32 \<Rightarrow> nat" where
  "index_to_entry hal entry_index depth pg_size = entries_per_index hal depth * entry_index + entry_offset hal depth pg_size"

definition host_pde_write :: "'d \<Rightarrow> 'd \<Rightarrow> nat \<Rightarrow> 'd dir_heap \<Rightarrow> 'd dir_heap" where
  "host_pde_write d parent index h =
     upd_dir parent (\<lambda>p. p\<lparr>dir_refs := dir_refs p + 1\<rparr>)
       (upd_dir d (\<lambda>x. x\<lparr>dir_parent := Some parent, dir_index := index\<rparr>) h)"

definition host_pde_clear :: "mmu_mode_hal \<Rightarrow> 'd \<Rightarrow> nat \<Rightarrow> NvU32 \<Rightarrow> 'd dir_heap \<Rightarrow> 'd dir_heap" where
  "host_pde_clear hal d entry_index pg_size h =
     upd_dir d (\<lambda>x. x\<lparr>dir_entries := (dir_entries x)(index_to_entry hal entry_index (dir_level x) pg_size := None),
                       dir_refs := dir_refs x - 1\<rparr>) h"

definition page_table_range_init ::
    "NvU32 \<Rightarrow> 'd \<Rightarrow> nat \<Rightarrow> nat \<Rightarrow> 'd dir_heap \<Rightarrow> 'd table_range \<times> 'd dir_heap" where
  "page_table_range_init pg_size d start_index end_index h =
     (let count = 1 + end_index - start_index
      in (\<lparr>range_table = d, range_start_index = start_index, range_entry_count = count, range_pg_size = pg_size\<rparr>,
          upd_dir d (\<lambda>x. x\<lparr>dir_refs := dir_refs x + count\<rparr>) h))"

subsection \<open>Getting PTEs\<close>

text \<open>
  The walk of \<^verbatim>\<open>try_get_ptes\<close>. It returns the directories it linked, with the depth of the first one's
  parent for the TLB invalidate, and either the range or the depth at which a directory is missing. The walk
  ends at the depth of the page table, at most \<^verbatim>\<open>MAX_OPERATION_DEPTH\<close> levels below the root: the fuel
  is never used up in a well-formed tree.
\<close>

datatype 'd walk_result = Got "'d table_range" | Missing nat

fun get_walk ::
    "nat \<Rightarrow> mmu_mode_hal \<Rightarrow> NvU32 \<Rightarrow> NvU64 \<Rightarrow> NvU64 \<Rightarrow> (nat \<Rightarrow> 'd option) \<Rightarrow> 'd \<Rightarrow> nat \<Rightarrow> 'd dir_heap \<Rightarrow>
     ('d walk_result \<times> 'd list \<times> 'd dir_heap) option" where
  "get_walk 0 hal pg_size start n cache d shift h = None"
| "get_walk (Suc fuel) hal pg_size start n cache d shift h =
     (let x = the (h d);
          bits = index_bits hal (dir_level x) pg_size;
          shift = shift - bits;
          start_index = entry_index_from_vaddr start shift bits;
          end_index = entry_index_from_vaddr (start + n - 1) shift bits;
          e = index_to_entry hal start_index (dir_level x) pg_size
      in if dir_level x = page_table_depth hal pg_size then
           (let (r, h) = page_table_range_init pg_size d start_index end_index h in Some (Got r, [], h))
         else case dir_entries x e of
           Some child \<Rightarrow> get_walk fuel hal pg_size start n cache child shift h
         | None \<Rightarrow>
             (case cache (dir_level x) of
                None \<Rightarrow> Some (Missing (dir_level x), [], h)
              | Some c \<Rightarrow>
                  let h = host_pde_write c d start_index h;
                      h = upd_dir d (\<lambda>x. x\<lparr>dir_entries := (dir_entries x)(e := Some c)\<rparr>) h
                  in map_option (\<lambda>(r, used, h). (r, c # used, h))
                       (get_walk fuel hal pg_size start n cache c shift h)))"

fun undo_links :: "mmu_mode_hal \<Rightarrow> NvU32 \<Rightarrow> 'd list \<Rightarrow> 'd dir_heap \<Rightarrow> 'd dir_heap" where
  "undo_links hal pg_size [] h = h"
| "undo_links hal pg_size (u # used) h =
     undo_links hal pg_size used (host_pde_clear hal (the (dir_parent (the (h u)))) (dir_index (the (h u))) pg_size h)"

definition free_directories :: "'d list \<Rightarrow> 'd dir_heap \<Rightarrow> 'd dir_heap" where
  "free_directories ds h = (\<lambda>d. if d \<in> set ds then None else h d)"

definition free_unused_directories :: "'d list \<Rightarrow> (nat \<Rightarrow> 'd option) \<Rightarrow> 'd dir_heap \<Rightarrow> 'd dir_heap" where
  "free_unused_directories used cache h =
     free_directories (filter (\<lambda>d. d \<notin> set used) (List.map_filter cache [0..<MAX_OPERATION_DEPTH])) h"

text \<open>Success gives the range and the directories that the GPU has to be told about.\<close>

definition try_get_ptes ::
    "'d page_tree \<Rightarrow> NvU32 \<Rightarrow> NvU64 \<Rightarrow> NvU64 \<Rightarrow> (nat \<Rightarrow> 'd option) \<Rightarrow> 'd dir_heap \<Rightarrow>
     ('d walk_result \<times> 'd list \<times> 'd dir_heap) option" where
  "try_get_ptes tree pg_size start n cache h =
     (case get_walk (Suc MAX_OPERATION_DEPTH) (pt_hal tree) pg_size start n cache (pt_root tree) (num_va_bits (pt_hal tree)) h of
        None \<Rightarrow> None
      | Some (Missing k, used, h) \<Rightarrow> Some (Missing k, [], undo_links (pt_hal tree) pg_size used h)
      | Some (Got r, used, h) \<Rightarrow> Some (Got r, used, free_unused_directories used cache h))"

text \<open>
  The outcomes of what is done to the memory of the GPU when the range was found: of the wait and of the push in \<^verbatim>\<open>write_gpu_state\<close>, which does nothing when no directory was linked,
  and of beginning the push in \<^verbatim>\<open>map_remap\<close>, which fills the entries of 512 MB pages on GPUs that promote pages. An error there is
  returned, and the tree keeps the directories and the references of the range.
\<close>

type_synonym gpu_outcome = "NV_STATUS \<times> NV_STATUS"

definition map_remap :: "NvU32 \<Rightarrow> NV_STATUS \<Rightarrow> NV_STATUS" where
  "map_remap pg_size begin_status = (if pg_size \<noteq> UVM_PAGE_SIZE_512M then NV_OK else begin_status)"

definition get_ptes_status :: "'d page_tree \<Rightarrow> NvU32 \<Rightarrow> gpu_outcome \<Rightarrow> 'd list \<Rightarrow> NV_STATUS" where
  "get_ptes_status tree pg_size gpu_status used =
     (let (write_status, remap_status) = gpu_status;
          status = (if used = [] then NV_OK else write_status)
      in if status = NV_OK \<and> map_remap_larger_page_promotion tree then map_remap pg_size remap_status else status)"

text \<open>
  The retries of \<^verbatim>\<open>uvm_page_tree_get_ptes_async\<close>. The lock is dropped while a directory is allocated: \<open>others i\<close> is what
  other threads do to the heap in the meantime, and \<open>outcomes i\<close> the outcome of the allocation. The result is the status, the range and the directories linked.
\<close>

fun get_ptes_loop ::
    "nat \<Rightarrow> 'd page_tree \<Rightarrow> NvU32 \<Rightarrow> NvU64 \<Rightarrow> NvU64 \<Rightarrow> bool \<Rightarrow> (nat \<Rightarrow> 'd dir_outcome) \<Rightarrow>
     (nat \<Rightarrow> 'd dir_heap \<Rightarrow> 'd dir_heap) \<Rightarrow> gpu_outcome \<Rightarrow> nat \<Rightarrow> (nat \<Rightarrow> 'd option) \<Rightarrow> 'd dir_heap \<Rightarrow>
     (NV_STATUS \<times> ('d table_range \<times> 'd list) option \<times> 'd dir_heap) option" where
  "get_ptes_loop 0 tree pg_size start n evict outcomes others gpu_status i cache h = None"
| "get_ptes_loop (Suc fuel) tree pg_size start n evict outcomes others gpu_status i cache h =
     (case try_get_ptes tree pg_size start n cache h of
        None \<Rightarrow> None
      | Some (Got r, used, h) \<Rightarrow> Some (get_ptes_status tree pg_size gpu_status used, Some (r, used), h)
      | Some (Missing cur_depth, _, h) \<Rightarrow>
          (case allocate_directory tree pg_size (cur_depth + 1) evict (outcomes i) (others i h) of
             (None, h) \<Rightarrow> Some (NV_ERR_NO_MEMORY, None, free_unused_directories [] cache h)
           | (Some d, h) \<Rightarrow>
               get_ptes_loop fuel tree pg_size start n evict outcomes others gpu_status (Suc i) (cache(cur_depth := Some d)) h))"

definition uvm_page_tree_get_ptes_async ::
    "'d page_tree \<Rightarrow> NvU32 \<Rightarrow> NvU64 \<Rightarrow> NvU64 \<Rightarrow> bool \<Rightarrow> (nat \<Rightarrow> 'd dir_outcome) \<Rightarrow>
     (nat \<Rightarrow> 'd dir_heap \<Rightarrow> 'd dir_heap) \<Rightarrow> gpu_outcome \<Rightarrow> 'd dir_heap \<Rightarrow>
     (NV_STATUS \<times> ('d table_range \<times> 'd list) option \<times> 'd dir_heap) option" where
  "uvm_page_tree_get_ptes_async tree pg_size start n evict outcomes others gpu_status h =
     get_ptes_loop (Suc MAX_OPERATION_DEPTH) tree pg_size start n evict outcomes others gpu_status 0 (\<lambda>_. None) h"

subsection \<open>Putting PTEs\<close>

text \<open>
  The way up of \<^verbatim>\<open>uvm_page_tree_put_ptes_async\<close>: a directory whose last reference is gone is unlinked from its parent.
  The recursion is bounded by the level of the directory.
\<close>

fun put_walk :: "nat \<Rightarrow> mmu_mode_hal \<Rightarrow> NvU32 \<Rightarrow> 'd \<Rightarrow> 'd dir_heap \<Rightarrow> 'd list \<times> 'd dir_heap" where
  "put_walk 0 hal pg_size d h = ([], h)"
| "put_walk (Suc fuel) hal pg_size d h =
     (case dir_parent (the (h d)) of
        None \<Rightarrow> ([], h)
      | Some parent \<Rightarrow>
          if dir_refs (the (h d)) = 0 then
            (let h = host_pde_clear hal parent (dir_index (the (h d))) pg_size h;
                 (queue, h) = put_walk fuel hal pg_size parent h
             in (d # queue, h))
          else ([], h))"

definition release_range :: "'d table_range \<Rightarrow> 'd dir_heap \<Rightarrow> 'd dir_heap" where
  "release_range r h = upd_dir (range_table r) (\<lambda>x. x\<lparr>dir_refs := dir_refs x - range_entry_count r\<rparr>) h"

text \<open>
  \<open>status\<close> is the outcome of beginning the push for the PDE clears (with the wait before it when the CPU writes): when it fails, the
  reference is taken back. Otherwise the directories of the queue are freed, after the push that
  clears their PDEs.
\<close>

definition uvm_page_tree_put_ptes_async ::
    "'d page_tree \<Rightarrow> 'd table_range \<Rightarrow> NV_STATUS \<Rightarrow> 'd dir_heap \<Rightarrow> 'd list \<times> 'd dir_heap" where
  "uvm_page_tree_put_ptes_async tree r status h =
     (let d = range_table r;
          h1 = release_range r h;
          x = the (h1 d)
      in if dir_parent x \<noteq> None \<and> dir_refs x = 0 \<and> status \<noteq> NV_OK
         then ([], upd_dir d (\<lambda>x. x\<lparr>dir_refs := dir_refs x + range_entry_count r\<rparr>) h1)
         else
           let (queue, h2) = put_walk (Suc (dir_level x)) (pt_hal tree) (range_pg_size r) d h1
           in (queue, free_directories queue h2))"

subsection \<open>Ranges\<close>

definition uvm_page_table_range_get_upper :: "'d table_range \<Rightarrow> nat \<Rightarrow> 'd dir_heap \<Rightarrow> 'd table_range \<times> 'd dir_heap" where
  "uvm_page_table_range_get_upper existing num_upper_pages h =
     (let upper_start_index = range_start_index existing + (range_entry_count existing - num_upper_pages);
          upper_end_index = upper_start_index + num_upper_pages - 1
      in page_table_range_init (range_pg_size existing) (range_table existing) upper_start_index upper_end_index h)"

definition uvm_page_table_range_shrink ::
    "'d page_tree \<Rightarrow> 'd table_range \<Rightarrow> nat \<Rightarrow> NV_STATUS \<Rightarrow> 'd dir_heap \<Rightarrow> 'd table_range \<times> 'd dir_heap" where
  "uvm_page_table_range_shrink tree r new_page_count status h =
     (if new_page_count > 0
      then (r\<lparr>range_entry_count := new_page_count\<rparr>,
            upd_dir (range_table r) (\<lambda>x. x\<lparr>dir_refs := dir_refs x - (range_entry_count r - new_page_count)\<rparr>) h)
      else (r, snd (uvm_page_tree_put_ptes_async tree r status h)))"

text \<open>
  \<^verbatim>\<open>uvm_page_tree_alloc_table\<close>: a table below the entry of \<open>single\<close>; if another thread put one there first, that one is used and
  the new one freed. \<open>status\<close> is the outcome of poisoning the new table and of waiting for the tree's tracker.
\<close>

definition uvm_page_tree_alloc_table ::
    "'d page_tree \<Rightarrow> NvU32 \<Rightarrow> bool \<Rightarrow> 'd dir_outcome \<Rightarrow> NV_STATUS \<Rightarrow> 'd table_range \<Rightarrow> 'd dir_heap \<Rightarrow>
     NV_STATUS \<times> 'd table_range option \<times> 'd dir_heap" where
  "uvm_page_tree_alloc_table tree pg_size evict outcome status single h =
     (let hal = pt_hal tree;
          t = range_table single;
          depth = dir_level (the (h t));
          e = index_to_entry hal (range_start_index single) depth pg_size
      in case allocate_directory tree pg_size (depth + 1) evict outcome h of
           (None, h) \<Rightarrow> (NV_ERR_NO_MEMORY, None, h)
         | (Some d, h) \<Rightarrow>
             if status \<noteq> NV_OK then (status, None, free_directories [d] h)
             else
               let count = 2 ^ index_bits hal (depth + 1) pg_size;
                   (should_free, c, h) =
                     (case dir_entries (the (h t)) e of
                        None \<Rightarrow> (False, d, host_pde_write d t (range_start_index single)
                                   (upd_dir t (\<lambda>x. x\<lparr>dir_entries := (dir_entries x)(e := Some d)\<rparr>) h))
                      | Some c \<Rightarrow> (True, c, h));
                   h = upd_dir c (\<lambda>x. x\<lparr>dir_refs := dir_refs x + count\<rparr>) h;
                   h = (if should_free then free_directories [d] h else h)
               in (NV_OK, Some \<lparr>range_table = c, range_start_index = 0, range_entry_count = count,
                                 range_pg_size = pg_size\<rparr>, h))"

section \<open>The invariant of a tree\<close>

abbreviation dir_at :: "'d dir_heap \<Rightarrow> 'd \<Rightarrow> 'd page_dir" where "dir_at h d \<equiv> the (h d)"

definition held_refs :: "'d table_range multiset \<Rightarrow> 'd \<Rightarrow> nat" where
  "held_refs held d = (\<Sum>r\<in>#filter_mset (\<lambda>r. range_table r = d) held. range_entry_count r)"

text \<open>
  A directory of the tree \<open>T\<close>: every child has one entry and the leaf level has none; the children are in the
  tree and point back to it; the reference count is the number of children and of PTEs held.
\<close>

definition child_count :: "'d page_dir \<Rightarrow> nat" where
  "child_count x = card {e. dir_entries x e \<noteq> None}"

definition dir_shape :: "nat \<Rightarrow> 'd page_dir \<Rightarrow> bool" where
  "dir_shape leaf x \<longleftrightarrow>
     finite {e. dir_entries x e \<noteq> None} \<and>
     (\<forall>e e' c. dir_entries x e = Some c \<longrightarrow> dir_entries x e' = Some c \<longrightarrow> e = e') \<and>
     dir_level x \<le> leaf \<and> (dir_level x = leaf \<longrightarrow> dir_entries x = (\<lambda>_. None))"

definition child_ok :: "mmu_mode_hal \<Rightarrow> 'd set \<Rightarrow> 'd dir_heap \<Rightarrow> 'd \<Rightarrow> nat \<Rightarrow> 'd \<Rightarrow> bool" where
  "child_ok hal T h d e c \<longleftrightarrow>
     c \<in> T \<and> dir_parent (dir_at h c) = Some d \<and> dir_level (dir_at h c) = Suc (dir_level (dir_at h d)) \<and>
     dir_index (dir_at h c) = e div entries_per_index hal (dir_level (dir_at h d))"

definition dir_ok :: "mmu_mode_hal \<Rightarrow> nat \<Rightarrow> 'd set \<Rightarrow> 'd table_range multiset \<Rightarrow> 'd dir_heap \<Rightarrow> 'd \<Rightarrow> bool" where
  "dir_ok hal leaf T held h d \<longleftrightarrow>
     dir_shape leaf (dir_at h d) \<and>
     (\<forall>e c. dir_entries (dir_at h d) e = Some c \<longrightarrow> child_ok hal T h d e c) \<and>
     dir_refs (dir_at h d) = child_count (dir_at h d) + held_refs held d"

text \<open>The entry of the parent that the page size selects is the one of the directory.\<close>

definition slot_ok :: "mmu_mode_hal \<Rightarrow> 'd set \<Rightarrow> 'd dir_heap \<Rightarrow> NvU32 \<Rightarrow> 'd \<Rightarrow> bool" where
  "slot_ok hal T h pg_size d \<longleftrightarrow>
     (\<forall>p\<in>T. dir_parent (dir_at h d) = Some p \<longrightarrow>
        dir_entries (dir_at h p) (index_to_entry hal (dir_index (dir_at h d)) (dir_level (dir_at h p)) pg_size) = Some d)"

definition range_ok :: "mmu_mode_hal \<Rightarrow> 'd set \<Rightarrow> 'd dir_heap \<Rightarrow> 'd table_range \<Rightarrow> bool" where
  "range_ok hal T h r \<longleftrightarrow>
     range_table r \<in> T \<and> page_table_depth hal (range_pg_size r) = dir_level (dir_at h (range_table r)) \<and>
     range_entry_count r > 0 \<and> slot_ok hal T h (range_pg_size r) (range_table r)"

text \<open>
  \<open>T\<close> are the directories of the tree and \<open>held\<close> the ranges of its users. Every directory but the root
  has a parent in the tree and is in use; the directories in \<open>X\<close>, which an operation is about to use or free, may have no reference.
\<close>

definition tree_inv ::
    "mmu_mode_hal \<Rightarrow> nat \<Rightarrow> 'd \<Rightarrow> 'd set \<Rightarrow> 'd table_range multiset \<Rightarrow> 'd set \<Rightarrow> 'd dir_heap \<Rightarrow> bool" where
  "tree_inv hal leaf root T held X h \<longleftrightarrow>
     finite T \<and> T \<subseteq> dom h \<and> root \<in> T \<and> dir_parent (dir_at h root) = None \<and> dir_level (dir_at h root) = 0 \<and>
     (\<forall>d\<in>T. dir_ok hal leaf T held h d) \<and>
     (\<forall>d\<in>T - {root}. \<exists>p\<in>T. dir_parent (dir_at h d) = Some p \<and> (\<exists>e. dir_entries (dir_at h p) e = Some d)) \<and>
     (\<forall>d\<in>T - {root} - X. dir_refs (dir_at h d) > 0) \<and>
     (\<forall>r\<in>#held. range_ok hal T h r)"

lemma dir_ok_cong:
  assumes T: "\<And>d. d \<in> T \<Longrightarrow> h' d = h d" and d: "d \<in> T" and ok: "dir_ok hal leaf T held h d"
  shows "dir_ok hal leaf T held h' d"
proof -
  have "child_ok hal T h' d e c" if "child_ok hal T h d e c" for e c
    using that T d unfolding child_ok_def by metis
  with ok show ?thesis by (simp add: dir_ok_def T[OF d])
qed

lemma range_ok_cong:
  assumes T: "\<And>d. d \<in> T \<Longrightarrow> h' d = h d" and ok: "range_ok hal T h r"
  shows "range_ok hal T h' r"
  using ok T by (auto simp: range_ok_def slot_ok_def)

lemma tree_inv_cong:
  assumes T: "\<And>d. d \<in> T \<Longrightarrow> h' d = h d" and inv: "tree_inv hal leaf root T held X h"
  shows "tree_inv hal leaf root T held X h'"
proof -
  have "T \<subseteq> dom h'" using inv T by (auto simp: tree_inv_def dom_def)
  moreover have "\<forall>d\<in>T. dir_ok hal leaf T held h' d" using inv dir_ok_cong[OF T] by (simp add: tree_inv_def)
  moreover have "\<forall>r\<in>#held. range_ok hal T h' r" using inv range_ok_cong[OF T] by (simp add: tree_inv_def)
  moreover have "\<forall>d\<in>T - {root}. \<exists>p\<in>T. dir_parent (dir_at h' d) = Some p \<and> (\<exists>e. dir_entries (dir_at h' p) e = Some d)"
    using inv T unfolding tree_inv_def by (metis DiffD1)
  ultimately show ?thesis using inv T by (simp add: tree_inv_def)
qed

lemma upd_dir_simps [simp]:
  "upd_dir d f h d = map_option f (h d)" "x \<noteq> d \<Longrightarrow> upd_dir d f h x = h x"
  by (simp_all add: upd_dir_def)

lemma dom_upd_dir [simp]: "dom (upd_dir d f h) = dom h"
  by (auto simp: upd_dir_def dom_def)

lemma held_refs_add [simp]:
  "held_refs (add_mset r held) d = (if range_table r = d then range_entry_count r else 0) + held_refs held d"
  by (simp add: held_refs_def)

lemma finite_entries_upd: "finite {e. (f(a := b)) e \<noteq> None} \<longleftrightarrow> finite {e. f e \<noteq> (None :: 'b option)}"
proof -
  have "{e. (f(a := b)) e \<noteq> None} \<subseteq> insert a {e. f e \<noteq> None}" "{e. f e \<noteq> None} \<subseteq> insert a {e. (f(a := b)) e \<noteq> None}"
    by auto
  then show ?thesis by (metis finite_insert finite_subset)
qed

lemma card_entries_add:
  assumes "f e = None" "finite {e. f e \<noteq> None}"
  shows "card {x. (f(e := Some c)) x \<noteq> None} = Suc (card {x. f x \<noteq> None})"
proof -
  have "{x. (f(e := Some c)) x \<noteq> None} = insert e {x. f x \<noteq> None}" by auto
  with assms show ?thesis by simp
qed

lemma card_entries_remove:
  assumes "f e \<noteq> None" "finite {e. f e \<noteq> None}"
  shows "Suc (card {x. (f(e := None)) x \<noteq> None}) = card {x. f x \<noteq> None}"
proof -
  have "{x. (f(e := None)) x \<noteq> None} = {x. f x \<noteq> None} - {e}" by auto
  with assms show ?thesis by (metis (mono_tags, lifting) card_Suc_Diff1 mem_Collect_eq)
qed

lemma tree_invD:
  assumes "tree_inv hal leaf root T held X h"
  shows "finite T" "T \<subseteq> dom h" "root \<in> T" "dir_parent (dir_at h root) = None" "dir_level (dir_at h root) = 0"
    and "d \<in> T \<Longrightarrow> dir_ok hal leaf T held h d"
    and "d \<in> T \<Longrightarrow> d \<noteq> root \<Longrightarrow> \<exists>p\<in>T. dir_parent (dir_at h d) = Some p \<and> (\<exists>e. dir_entries (dir_at h p) e = Some d)"
    and "d \<in> T \<Longrightarrow> d \<noteq> root \<Longrightarrow> d \<notin> X \<Longrightarrow> dir_refs (dir_at h d) > 0"
    and "r \<in># held \<Longrightarrow> range_ok hal T h r"
  using assms unfolding tree_inv_def by blast+

lemma tree_invI:
  assumes "finite T" "T \<subseteq> dom h" "root \<in> T" "dir_parent (dir_at h root) = None" "dir_level (dir_at h root) = 0"
    and "\<And>d. d \<in> T \<Longrightarrow> dir_ok hal leaf T held h d"
    and "\<And>d. d \<in> T \<Longrightarrow> d \<noteq> root \<Longrightarrow> \<exists>p\<in>T. dir_parent (dir_at h d) = Some p \<and> (\<exists>e. dir_entries (dir_at h p) e = Some d)"
    and "\<And>d. d \<in> T \<Longrightarrow> d \<noteq> root \<Longrightarrow> d \<notin> X \<Longrightarrow> dir_refs (dir_at h d) > 0"
    and "\<And>r. r \<in># held \<Longrightarrow> range_ok hal T h r"
  shows "tree_inv hal leaf root T held X h"
  using assms unfolding tree_inv_def by blast

lemma tree_inv_parent:
  assumes "tree_inv hal leaf root T held X h" "d \<in> T" "dir_parent (dir_at h d) = Some p"
  shows "p \<in> T" "d \<noteq> root"
proof -
  show d: "d \<noteq> root" using assms tree_invD(4) by fastforce
  show "p \<in> T" using tree_invD(7)[OF assms(1,2) d] assms(3) by auto
qed

text \<open>A range stays well placed when its directories keep their places.\<close>

lemma range_ok_mono:
  assumes inv: "tree_inv hal leaf root T held X h" and r: "r \<in># held" and T': "range_table r \<in> T'"
    and same: "\<And>x. x \<in> T \<Longrightarrow> dir_parent (dir_at h' x) = dir_parent (dir_at h x)"
      "\<And>x. x \<in> T \<Longrightarrow> dir_level (dir_at h' x) = dir_level (dir_at h x)"
      "\<And>x. x \<in> T \<Longrightarrow> dir_index (dir_at h' x) = dir_index (dir_at h x)"
    and entries: "\<And>p e. p \<in> T \<Longrightarrow> dir_entries (dir_at h p) e = Some (range_table r) \<Longrightarrow>
      dir_entries (dir_at h' p) e = Some (range_table r)"
  shows "range_ok hal T' h' r"
proof -
  have ok: "range_ok hal T h r" by (rule tree_invD(9)[OF inv r])
  then have t: "range_table r \<in> T" by (simp add: range_ok_def)
  have "slot_ok hal T' h' (range_pg_size r) (range_table r)"
    unfolding slot_ok_def
  proof (intro ballI impI)
    fix p assume "dir_parent (dir_at h' (range_table r)) = Some p"
    then have p: "dir_parent (dir_at h (range_table r)) = Some p" using same(1)[OF t] by simp
    then have pT: "p \<in> T" using tree_inv_parent[OF inv t] by simp
    with ok p have "dir_entries (dir_at h p)
        (index_to_entry hal (dir_index (dir_at h (range_table r))) (dir_level (dir_at h p)) (range_pg_size r)) = Some (range_table r)"
      by (simp add: range_ok_def slot_ok_def)
    then show "dir_entries (dir_at h' p)
        (index_to_entry hal (dir_index (dir_at h' (range_table r))) (dir_level (dir_at h' p)) (range_pg_size r)) = Some (range_table r)"
      using entries[OF pT] same[OF t] same[OF pT] by simp
  qed
  then show ?thesis using ok T' same[OF t] by (simp add: range_ok_def)
qed

lemma held_refs_zero: "(\<And>r. r \<in># held \<Longrightarrow> range_table r \<noteq> d) \<Longrightarrow> held_refs held d = 0"
  by (auto simp: held_refs_def)

definition link_child :: "'d \<Rightarrow> 'd \<Rightarrow> nat \<Rightarrow> nat \<Rightarrow> 'd dir_heap \<Rightarrow> 'd dir_heap" where
  "link_child c d index e h =
     upd_dir d (\<lambda>x. x\<lparr>dir_entries := (dir_entries x)(e := Some c)\<rparr>) (host_pde_write c d index h)"

lemma link_child_cells:
  assumes "c \<noteq> d"
  shows "link_child c d index e h d = map_option (\<lambda>x. x\<lparr>dir_refs := dir_refs x + 1, dir_entries := (dir_entries x)(e := Some c)\<rparr>) (h d)"
    and "link_child c d index e h c = map_option (\<lambda>x. x\<lparr>dir_parent := Some d, dir_index := index\<rparr>) (h c)"
    and "x \<noteq> c \<Longrightarrow> x \<noteq> d \<Longrightarrow> link_child c d index e h x = h x"
  using assms by (simp_all add: link_child_def host_pde_write_def option.map_comp o_def)

lemma dom_link_child [simp]: "dom (link_child c d index e h) = dom h"
  by (simp add: link_child_def host_pde_write_def)

text \<open>A directory that no tree uses yet, as allocated.\<close>

definition unused_dir :: "nat \<Rightarrow> 'd dir_heap \<Rightarrow> 'd \<Rightarrow> bool" where
  "unused_dir level h c \<longleftrightarrow>
     c \<in> dom h \<and> dir_refs (dir_at h c) = 0 \<and> dir_entries (dir_at h c) = (\<lambda>_. None) \<and> dir_level (dir_at h c) = level"

lemma link_child_inv:
  assumes inv: "tree_inv hal leaf root T held X h" and d: "d \<in> T" and c: "c \<notin> T"
    and new: "unused_dir (Suc (dir_level (dir_at h d))) h c" and lev: "dir_level (dir_at h d) < leaf"
    and e: "dir_entries (dir_at h d) e = None" "e div entries_per_index hal (dir_level (dir_at h d)) = index"
  shows "tree_inv hal leaf root (insert c T) held (insert c (X - {d})) (link_child c d index e h)"
proof -
  let ?h = "link_child c d index e h"
  note D = tree_invD[OF inv]
  have cd: "c \<noteq> d" using c d by auto
  obtain xd where xd: "h d = Some xd" using D(2) d by blast
  obtain xc where xc: "h c = Some xc" using new by (auto simp: unused_dir_def)
  have hd: "?h d = Some (xd\<lparr>dir_refs := dir_refs xd + 1, dir_entries := (dir_entries xd)(e := Some c)\<rparr>)"
    using link_child_cells(1)[OF cd] xd by simp
  have hc: "?h c = Some (xc\<lparr>dir_parent := Some d, dir_index := index\<rparr>)"
    using link_child_cells(2)[OF cd] xc by simp
  have hx: "?h x = h x" if "x \<noteq> c" "x \<noteq> d" for x using link_child_cells(3)[OF cd] that by simp
  have same: "dir_parent (dir_at ?h x) = dir_parent (dir_at h x)" "dir_level (dir_at ?h x) = dir_level (dir_at h x)"
      "dir_index (dir_at ?h x) = dir_index (dir_at h x)" if "x \<in> T" for x
  proof -
    have "x \<noteq> c" using that c by auto
    then have "?h x = h x \<or> x = d" using hx by blast
    then show "dir_parent (dir_at ?h x) = dir_parent (dir_at h x)" "dir_level (dir_at ?h x) = dir_level (dir_at h x)"
      "dir_index (dir_at ?h x) = dir_index (dir_at h x)" using hd xd by auto
  qed
  have entries: "dir_entries (dir_at ?h p) e' = Some y" if "p \<in> T" "dir_entries (dir_at h p) e' = Some y" for p e' y
  proof (cases "p = d")
    case True
    then have "e' \<noteq> e" using that(2) e(1) by auto
    with True that(2) hd xd show ?thesis by simp
  next
    case False
    then have "?h p = h p" using that(1) c by (intro hx) auto
    with that(2) show ?thesis by simp
  qed
  have old_child: "child_ok hal (insert c T) ?h x e' c'" if "x \<in> T" "child_ok hal T h x e' c'" for x e' c'
    using that same by (simp add: child_ok_def)
  have ok_d: "dir_ok hal leaf (insert c T) held ?h d"
  proof -
    have okd: "dir_shape leaf xd" "dir_refs xd = child_count xd + held_refs held d"
        "\<And>e' c'. dir_entries xd e' = Some c' \<Longrightarrow> child_ok hal T h d e' c'"
      using D(6)[OF d] xd by (auto simp: dir_ok_def)
    have fin: "finite {e. dir_entries xd e \<noteq> None}" using okd(1) by (simp add: dir_shape_def)
    have ec: "dir_entries xd e' \<noteq> Some c" for e' using okd(3)[of e' c] c by (auto simp: child_ok_def)
    have "child_ok hal (insert c T) ?h d e c" using new e(2) hc hd xd xc by (simp add: child_ok_def unused_dir_def)
    then show ?thesis using okd ec fin lev e(1) hd xd old_child[OF d] card_entries_add[of "dir_entries xd" e c]
      by (auto simp: dir_ok_def dir_shape_def child_count_def finite_entries_upd[of "dir_entries xd", simplified])
  qed
  have ok_c: "dir_ok hal leaf (insert c T) held ?h c"
  proof -
    have "held_refs held c = 0" using D(9) c by (intro held_refs_zero) (auto simp: range_ok_def)
    then show ?thesis using new lev hc xc by (simp add: dir_ok_def dir_shape_def child_count_def unused_dir_def)
  qed
  have ok_x: "dir_ok hal leaf (insert c T) held ?h x" if "x \<in> T" "x \<noteq> d" for x
  proof -
    have "?h x = h x" using that c by (intro hx) auto
    then show ?thesis using D(6)[OF that(1)] old_child[OF that(1)] by (simp add: dir_ok_def)
  qed
  have parent: "\<exists>p\<in>insert c T. dir_parent (dir_at ?h x) = Some p \<and> (\<exists>e. dir_entries (dir_at ?h p) e = Some x)"
    if x: "x \<in> T" "x \<noteq> root" for x
  proof -
    obtain p e' where p: "p \<in> T" "dir_parent (dir_at h x) = Some p" "dir_entries (dir_at h p) e' = Some x"
      using D(7)[OF x] by blast
    have "dir_entries (dir_at ?h p) e' = Some x" using entries[OF p(1,3)] .
    then show ?thesis using p same(1)[OF x(1)] by auto
  qed
  have ranges: "range_ok hal (insert c T) ?h r" if "r \<in># held" for r
    by (rule range_ok_mono[OF inv that]) (use D(9)[OF that] same entries in \<open>auto simp: range_ok_def\<close>)
  have refs: "dir_refs (dir_at ?h x) > 0" if "x \<in> T" "x \<noteq> root" "x = d \<or> x \<notin> X" for x
  proof (cases "x = d")
    case False
    then have "?h x = h x" using that(1) c by (intro hx) auto
    with False that show ?thesis using D(8)[of x] by simp
  qed (simp add: hd)
  have new_parent: "dir_parent (dir_at ?h c) = Some d" "dir_entries (dir_at ?h d) e = Some c" using hc hd by simp_all
  show ?thesis
  proof (rule tree_invI)
    show "finite (insert c T)" "root \<in> insert c T" using D(1,3) by simp_all
    show "insert c T \<subseteq> dom ?h" using D(2) new by (simp add: unused_dir_def)
    show "dir_parent (dir_at ?h root) = None" "dir_level (dir_at ?h root) = 0" using same[OF D(3)] D(4,5) by simp_all
    show "dir_ok hal leaf (insert c T) held ?h x" if "x \<in> insert c T" for x
      using that ok_c ok_d ok_x by (cases "x = c"; cases "x = d") simp_all
    show "\<exists>p\<in>insert c T. dir_parent (dir_at ?h x) = Some p \<and> (\<exists>e. dir_entries (dir_at ?h p) e = Some x)"
      if "x \<in> insert c T" "x \<noteq> root" for x
      using that parent[of x] new_parent d by (cases "x = c") blast+
    show "dir_refs (dir_at ?h x) > 0" if "x \<in> insert c T" "x \<noteq> root" "x \<notin> insert c (X - {d})" for x
      using that refs[of x] by blast
    show "range_ok hal (insert c T) ?h r" if "r \<in># held" for r by (rule ranges[OF that])
  qed
qed

text \<open>Changes of the reference counts only.\<close>

lemma tree_inv_refs:
  assumes inv: "tree_inv hal leaf root T held X h"
    and h': "\<And>x. x \<in> T \<Longrightarrow> h' x = Some ((dir_at h x)\<lparr>dir_refs := child_count (dir_at h x) + held_refs held' x\<rparr>)"
    and ranges: "\<And>r. r \<in># held' \<Longrightarrow> range_ok hal T h r"
    and pos: "\<And>x. x \<in> T \<Longrightarrow> x \<noteq> root \<Longrightarrow> x \<notin> X' \<Longrightarrow> child_count (dir_at h x) + held_refs held' x > 0"
  shows "tree_inv hal leaf root T held' X' h'"
proof (rule tree_invI)
  note D = tree_invD[OF inv]
  show "finite T" "root \<in> T" using D(1,3) by simp_all
  show "T \<subseteq> dom h'" using h' by auto
  show "dir_parent (dir_at h' root) = None" "dir_level (dir_at h' root) = 0" using D(3-5) h' by simp_all
  have child: "child_ok hal T h' d e c" if "d \<in> T" "child_ok hal T h d e c" for d e c
    using that h'[OF that(1)] h'[of c] by (simp add: child_ok_def)
  show "dir_ok hal leaf T held' h' d" if "d \<in> T" for d
    using D(6)[OF that] h'[OF that] child[OF that] by (simp add: dir_ok_def dir_shape_def child_count_def)
  show "\<exists>p\<in>T. dir_parent (dir_at h' d) = Some p \<and> (\<exists>e. dir_entries (dir_at h' p) e = Some d)" if "d \<in> T" "d \<noteq> root" for d
  proof -
    obtain p e where "p \<in> T" "dir_parent (dir_at h d) = Some p" "dir_entries (dir_at h p) e = Some d" using D(7)[OF \<open>d \<in> T\<close> \<open>d \<noteq> root\<close>] by blast
    then show ?thesis using h'[OF \<open>d \<in> T\<close>] h'[of p] by auto
  qed
  show "dir_refs (dir_at h' d) > 0" if "d \<in> T" "d \<noteq> root" "d \<notin> X'" for d using h'[OF that(1)] pos[OF that] by simp
  show "range_ok hal T h' r" if "r \<in># held'" for r
  proof -
    have ok: "range_ok hal T h r" by (rule ranges[OF that])
    then show ?thesis using h' by (auto simp: range_ok_def slot_ok_def)
  qed
qed

lemma dir_refs_eq:
  "tree_inv hal leaf root T held X h \<Longrightarrow> d \<in> T \<Longrightarrow> dir_refs (dir_at h d) = child_count (dir_at h d) + held_refs held d"
  using tree_invD(6) by (fastforce simp: dir_ok_def)

lemma hold_range_inv:
  assumes inv: "tree_inv hal leaf root T held X h" and r: "range_ok hal T h r" and n: "range_entry_count r = n"
  shows "tree_inv hal leaf root T (add_mset r held) (X - {range_table r})
    (upd_dir (range_table r) (\<lambda>x. x\<lparr>dir_refs := dir_refs x + n\<rparr>) h)"
proof (rule tree_inv_refs[OF inv])
  note D = tree_invD[OF inv]
  show "upd_dir (range_table r) (\<lambda>x. x\<lparr>dir_refs := dir_refs x + n\<rparr>) h x =
      Some ((dir_at h x)\<lparr>dir_refs := child_count (dir_at h x) + held_refs (add_mset r held) x\<rparr>)" if x: "x \<in> T" for x
  proof -
    obtain y where y: "h x = Some y" using D(2) x by blast
    then show ?thesis using dir_refs_eq[OF inv x] n by (cases "x = range_table r") (auto simp: upd_dir_def)
  qed
  show "range_ok hal T h s" if "s \<in># add_mset r held" for s using that r D(9) by auto
  show "child_count (dir_at h x) + held_refs (add_mset r held) x > 0" if "x \<in> T" "x \<noteq> root" "x \<notin> X - {range_table r}" for x
    using that D(8)[OF that(1,2)] dir_refs_eq[OF inv that(1)] r by (auto simp: range_ok_def)
qed

lemma release_range_inv:
  assumes inv: "tree_inv hal leaf root T (add_mset r held) X h"
  shows "tree_inv hal leaf root T held (insert (range_table r) X) (release_range r h)"
proof (rule tree_inv_refs[OF inv])
  note D = tree_invD[OF inv]
  show "release_range r h x = Some ((dir_at h x)\<lparr>dir_refs := child_count (dir_at h x) + held_refs held x\<rparr>)" if x: "x \<in> T" for x
  proof -
    obtain y where y: "h x = Some y" using D(2) x by blast
    then show ?thesis using dir_refs_eq[OF inv x] by (cases "x = range_table r") (auto simp: release_range_def upd_dir_def)
  qed
  show "range_ok hal T h s" if "s \<in># held" for s using that D(9) by auto
  show "child_count (dir_at h x) + held_refs held x > 0" if "x \<in> T" "x \<noteq> root" "x \<notin> insert (range_table r) X" for x
    using that D(8)[OF that(1,2)] dir_refs_eq[OF inv that(1)] by auto
qed

lemma unlink_inv:
  assumes inv: "tree_inv hal leaf root T held X h" and d: "d \<in> T" "dir_parent (dir_at h d) = Some p"
    and unused: "dir_refs (dir_at h d) = 0"
    and e: "dir_entries (dir_at h p) (index_to_entry hal (dir_index (dir_at h d)) (dir_level (dir_at h p)) pg_size) = Some d"
  shows "tree_inv hal leaf root (T - {d}) held (insert p (X - {d})) (host_pde_clear hal p (dir_index (dir_at h d)) pg_size h)"
proof -
  let ?e = "index_to_entry hal (dir_index (dir_at h d)) (dir_level (dir_at h p)) pg_size"
  let ?h = "host_pde_clear hal p (dir_index (dir_at h d)) pg_size h"
  note D = tree_invD[OF inv]
  have p: "p \<in> T" and d_root: "d \<noteq> root" using tree_inv_parent[OF inv d] by simp_all
  obtain xp where xp: "h p = Some xp" using D(2) p by blast
  have hp: "?h p = Some (xp\<lparr>dir_entries := (dir_entries xp)(?e := None), dir_refs := dir_refs xp - 1\<rparr>)"
    using xp by (simp add: host_pde_clear_def)
  have hx: "?h x = h x" if "x \<noteq> p" for x using that by (simp add: host_pde_clear_def)
  have same: "dir_parent (dir_at ?h x) = dir_parent (dir_at h x)" "dir_level (dir_at ?h x) = dir_level (dir_at h x)"
      "dir_index (dir_at ?h x) = dir_index (dir_at h x)" for x
    using hp hx[of x] xp by (cases "x = p"; simp)+
  have none: "child_count (dir_at h d) = 0" "held_refs held d = 0" using dir_refs_eq[OF inv d(1)] unused by simp_all
  have shape_d: "dir_shape leaf (dir_at h d)" using D(6)[OF d(1)] by (simp add: dir_ok_def)
  have no_child: "dir_entries (dir_at h d) e' = None" for e'
    using none(1) shape_d unfolding child_count_def dir_shape_def by (metis (mono_tags, lifting) card_0_eq empty_iff mem_Collect_eq)
  have pd: "p \<noteq> d" using e no_child by auto
  have entries: "dir_entries (dir_at ?h q) e' = Some y" if "dir_entries (dir_at h q) e' = Some y" "y \<noteq> d" for q e' y
  proof (cases "q = p")
    case True
    then have "e' \<noteq> ?e" using that e by auto
    with True that hp xp show ?thesis by simp
  qed (simp add: that hx)
  have were: "dir_entries (dir_at h q) e' = Some y" if "dir_entries (dir_at ?h q) e' = Some y" for q e' y
    using that hp hx xp by (cases "q = p") (auto split: if_splits)
  have not_d: "y \<noteq> d" if "dir_entries (dir_at ?h q) e' = Some y" "q \<in> T" for q e' y
  proof
    assume "y = d"
    then have q: "dir_entries (dir_at h q) e' = Some d" using were[OF that(1)] by simp
    then have "q = p" using D(6)[OF that(2)] d(2) by (auto simp: dir_ok_def child_ok_def)
    with q e have "e' = ?e" using D(6)[OF p] by (auto simp: dir_ok_def dir_shape_def)
    with that(1) \<open>q = p\<close> hp show False by simp
  qed
  have child: "child_ok hal (T - {d}) ?h q e' y" if "q \<in> T" "dir_entries (dir_at ?h q) e' = Some y" for q e' y
    using D(6)[OF that(1)] were[OF that(2)] not_d[OF that(2,1)] same by (simp add: dir_ok_def child_ok_def)
  show ?thesis
  proof (rule tree_invI)
    show "finite (T - {d})" "root \<in> T - {d}" using D(1,3) d_root by simp_all
    show "T - {d} \<subseteq> dom ?h" using D(2) by (auto simp: host_pde_clear_def)
    show "dir_parent (dir_at ?h root) = None" "dir_level (dir_at ?h root) = 0" using same D(4,5) by simp_all
    show "dir_ok hal leaf (T - {d}) held ?h x" if x: "x \<in> T - {d}" for x
    proof (cases "x = p")
      case True
      have okp: "dir_shape leaf xp" "dir_refs xp = child_count xp + held_refs held p" using D(6)[OF p] xp by (simp_all add: dir_ok_def)
      have fin: "finite {e. dir_entries xp e \<noteq> None}" using okp(1) by (simp add: dir_shape_def)
      have "Suc (child_count (dir_at ?h p)) = child_count xp"
        using card_entries_remove[of "dir_entries xp" ?e] fin e xp hp by (simp add: child_count_def)
      moreover have "dir_shape leaf (dir_at ?h p)"
        using okp(1) hp by (auto simp: dir_shape_def finite_entries_upd[of "dir_entries xp", simplified])
      ultimately show ?thesis using True okp(2) child[of p] p hp by (simp add: dir_ok_def)
    next
      case False
      then have "?h x = h x" by (rule hx)
      then show ?thesis using x D(6)[of x] child[of x] by (simp add: dir_ok_def)
    qed
    show "\<exists>q\<in>T - {d}. dir_parent (dir_at ?h x) = Some q \<and> (\<exists>e. dir_entries (dir_at ?h q) e = Some x)"
      if x: "x \<in> T - {d}" "x \<noteq> root" for x
    proof -
      obtain q e' where q: "q \<in> T" "dir_parent (dir_at h x) = Some q" "dir_entries (dir_at h q) e' = Some x"
        using D(7)[of x] x by blast
      then have "q \<noteq> d" using no_child by auto
      then show ?thesis using q entries[OF q(3)] x same by auto
    qed
    show "dir_refs (dir_at ?h x) > 0" if "x \<in> T - {d}" "x \<noteq> root" "x \<notin> insert p (X - {d})" for x
      using that D(8)[of x] hx[of x] by auto
    show "range_ok hal (T - {d}) ?h r" if r: "r \<in># held" for r
    proof (rule range_ok_mono[OF inv r])
      have "range_table r \<noteq> d"
        using none(2) r D(9)[OF r] by (auto simp: held_refs_def range_ok_def)
      then show "range_table r \<in> T - {d}" using D(9)[OF r] by (simp add: range_ok_def)
      show "dir_entries (dir_at ?h q) e' = Some (range_table r)" if "dir_entries (dir_at h q) e' = Some (range_table r)" for q e'
        using entries[OF that] \<open>range_table r \<noteq> d\<close> by simp
    qed (rule same)+
  qed
qed

end
