(* ===== verification/Page_Tree_Ops.thy ===== *)
theory Page_Tree_Ops
  imports Page_Tree
begin

text \<open>
  What the operations on page trees do. The laws of a page table format that they rely on are the locale
  \<open>page_geometry\<close>, interpreted on the formats of the GPU generations; the laws for what other threads do
  while the lock is dropped are the locale \<open>page_tree_threads\<close>. Putting PTEs leaves exactly the
  directories that the remaining ranges need; getting PTEs returns after at most one attempt per level, with a range for the
  pages asked for; getting and putting gives the tree back; ranges can be split, and tables added below an entry.
\<close>

section \<open>What the tree relies on\<close>

text \<open>
  The laws of a page table format: the entries of an index are selected by \<open>entry_offset\<close>; only
  the directories above the last level have two entries per index; no page table is below the level of
  the agnostic page size, which the arrays of the walks have room for; and the index bits of the levels and the
  offset in a page make up the virtual address.
\<close>

abbreviation leaf_level :: "mmu_mode_hal \<Rightarrow> nat" where
  "leaf_level hal \<equiv> page_table_depth hal UVM_PAGE_SIZE_AGNOSTIC"

definition supported_page_size :: "mmu_mode_hal \<Rightarrow> NvU32 \<Rightarrow> bool" where
  "supported_page_size hal pg_size \<longleftrightarrow> (\<exists>k<32. pg_size = push_bit k 1 \<and> bit (page_sizes hal) k)"

text \<open>The bits of an address that are not yet used for an index when a walk reaches a depth.\<close>

definition table_shift :: "mmu_mode_hal \<Rightarrow> NvU32 \<Rightarrow> nat \<Rightarrow> nat" where
  "table_shift hal pg_size depth = num_va_bits hal - (\<Sum>k<depth. index_bits hal k pg_size)"

lemma table_shift_simps [simp]:
  "table_shift hal pg_size 0 = num_va_bits hal"
  "table_shift hal pg_size depth - index_bits hal depth pg_size = table_shift hal pg_size (Suc depth)"
  by (simp_all add: table_shift_def)

locale page_geometry =
  fixes hal :: mmu_mode_hal
  assumes entry_offset_less: "entry_offset hal k pg_size < entries_per_index hal k"
    and single_entry: "Suc k \<noteq> leaf_level hal \<Longrightarrow> entries_per_index hal k = 1"
    and depth_le_leaf: "page_table_depth hal pg_size \<le> leaf_level hal"
    and leaf_bound: "leaf_level hal \<le> MAX_OPERATION_DEPTH"
    and page_shift: "supported_page_size hal pg_size \<Longrightarrow>
      unat pg_size = 2 ^ table_shift hal pg_size (Suc (page_table_depth hal pg_size)) \<and>
      (\<Sum>k<Suc (page_table_depth hal pg_size). index_bits hal k pg_size) \<le> num_va_bits hal"
    and va_bits: "num_va_bits hal < 60"
begin

lemma entry_div: "index_to_entry hal i k pg_size div entries_per_index hal k = i"
  using entry_offset_less[of k pg_size] by (simp add: index_to_entry_def div_add1_eq)

lemma upper_entry: "Suc k \<noteq> leaf_level hal \<Longrightarrow> index_to_entry hal i k pg_size = i"
  using entry_offset_less[of k pg_size] single_entry[of k] by (simp add: index_to_entry_def)

text \<open>Above the last level an index has one entry, so that any page size finds the entry of a directory.\<close>

lemma upper_slot_ok:
  assumes inv: "tree_inv hal (leaf_level hal) root T held X h" and d: "d \<in> T" "dir_level (dir_at h d) < leaf_level hal"
  shows "slot_ok hal T h pg_size d"
  unfolding slot_ok_def
proof (intro ballI impI)
  fix p assume p: "p \<in> T" "dir_parent (dir_at h d) = Some p"
  obtain e where e: "dir_entries (dir_at h p) e = Some d"
    using tree_invD(7)[OF inv d(1) tree_inv_parent(2)[OF inv d(1) p(2)]] p(2) by auto
  then have ok: "child_ok hal T h p e d" using tree_invD(6)[OF inv p(1)] by (simp add: dir_ok_def)
  then have k: "Suc (dir_level (dir_at h p)) \<noteq> leaf_level hal" using d(2) by (simp add: child_ok_def)
  with ok have "dir_index (dir_at h d) = e" by (simp add: child_ok_def single_entry)
  with e show "dir_entries (dir_at h p) (index_to_entry hal (dir_index (dir_at h d)) (dir_level (dir_at h p)) pg_size) = Some d"
    by (simp add: upper_entry[OF k])
qed

end

subsection \<open>The formats of the GPU generations\<close>

lemma supported_sizes_pascal:
  "supported_page_size hal pg_size \<Longrightarrow> page_sizes hal = page_sizes_pascal \<Longrightarrow>
   pg_size \<in> {UVM_PAGE_SIZE_4K, UVM_PAGE_SIZE_64K, UVM_PAGE_SIZE_2M}"
  by (auto simp: supported_page_size_def page_sizes_pascal_def UVM_PAGE_SIZE_4K_def UVM_PAGE_SIZE_64K_def
      UVM_PAGE_SIZE_2M_def bit_simps less_Suc_eq numeral_eq_Suc)

lemma supported_sizes_ampere:
  "supported_page_size hal pg_size \<Longrightarrow> page_sizes hal = page_sizes_ampere \<Longrightarrow>
   pg_size \<in> {UVM_PAGE_SIZE_4K, UVM_PAGE_SIZE_64K, UVM_PAGE_SIZE_2M, UVM_PAGE_SIZE_512M}"
  by (auto simp: supported_page_size_def page_sizes_ampere_def UVM_PAGE_SIZE_4K_def UVM_PAGE_SIZE_64K_def
      UVM_PAGE_SIZE_2M_def UVM_PAGE_SIZE_512M_def bit_simps less_Suc_eq numeral_eq_Suc)

lemmas pg_sizes = UVM_PAGE_SIZE_AGNOSTIC_def UVM_PAGE_SIZE_4K_def UVM_PAGE_SIZE_64K_def UVM_PAGE_SIZE_2M_def
  UVM_PAGE_SIZE_512M_def MMU_BIG_def MMU_SMALL_def MAX_OPERATION_DEPTH_def

lemma sum_levels:
  fixes f :: "nat \<Rightarrow> nat"
  shows "(\<Sum>k<3. f k) = f 0 + f 1 + f 2" "(\<Sum>k<4. f k) = f 0 + f 1 + f 2 + f 3"
    "(\<Sum>k<5. f k) = f 0 + f 1 + f 2 + f 3 + f 4" "(\<Sum>k<6. f k) = f 0 + f 1 + f 2 + f 3 + f 4 + f 5"
  by (simp_all add: numeral_eq_Suc)

lemma page_geometry_pascal:
  assumes "index_bits hal = index_bits_pascal" "entries_per_index hal = entries_per_index_pascal"
    "entry_offset hal = entry_offset_pascal" "num_va_bits hal = num_va_bits_pascal"
    "page_table_depth hal = page_table_depth_pascal" "page_sizes hal = page_sizes_pascal"
  shows "page_geometry hal"
proof
  show "unat pg_size = 2 ^ table_shift hal pg_size (Suc (page_table_depth hal pg_size)) \<and>
      (\<Sum>k<Suc (page_table_depth hal pg_size). index_bits hal k pg_size) \<le> num_va_bits hal"
    if "supported_page_size hal pg_size" for pg_size
    using supported_sizes_pascal[OF that assms(6)] assms
    by (auto simp: table_shift_def num_va_bits_pascal_def page_table_depth_pascal_def index_bits_pascal_def pg_sizes sum_levels
        simp del: sum.lessThan_Suc One_nat_def)
qed (use assms in \<open>auto simp: entries_per_index_pascal_def entries_per_index_volta_def entry_offset_pascal_def page_table_depth_pascal_def num_va_bits_pascal_def pg_sizes\<close>)

lemma page_geometry_ampere:
  assumes "index_bits hal = index_bits_pascal" "entries_per_index hal = entries_per_index_pascal"
    "entry_offset hal = entry_offset_pascal" "num_va_bits hal = num_va_bits_pascal"
    "page_table_depth hal = page_table_depth_ampere" "page_sizes hal = page_sizes_ampere"
  shows "page_geometry hal"
proof
  show "unat pg_size = 2 ^ table_shift hal pg_size (Suc (page_table_depth hal pg_size)) \<and>
      (\<Sum>k<Suc (page_table_depth hal pg_size). index_bits hal k pg_size) \<le> num_va_bits hal"
    if "supported_page_size hal pg_size" for pg_size
    using supported_sizes_ampere[OF that assms(6)] assms
    by (auto simp: table_shift_def num_va_bits_pascal_def page_table_depth_ampere_def index_bits_pascal_def pg_sizes sum_levels
        simp del: sum.lessThan_Suc One_nat_def)
qed (use assms in \<open>auto simp: entries_per_index_pascal_def entries_per_index_volta_def entry_offset_pascal_def page_table_depth_ampere_def num_va_bits_pascal_def pg_sizes\<close>)

lemma page_geometry_hopper:
  assumes "index_bits hal = index_bits_hopper" "entries_per_index hal = entries_per_index_hopper"
    "entry_offset hal = entry_offset_hopper" "num_va_bits hal = num_va_bits_hopper"
    "page_table_depth hal = page_table_depth_hopper" "page_sizes hal = page_sizes_ampere"
  shows "page_geometry hal"
proof
  show "unat pg_size = 2 ^ table_shift hal pg_size (Suc (page_table_depth hal pg_size)) \<and>
      (\<Sum>k<Suc (page_table_depth hal pg_size). index_bits hal k pg_size) \<le> num_va_bits hal"
    if "supported_page_size hal pg_size" for pg_size
    using supported_sizes_ampere[OF that assms(6)] assms
    by (auto simp: table_shift_def num_va_bits_hopper_def page_table_depth_hopper_def index_bits_hopper_def pg_sizes sum_levels
        simp del: sum.lessThan_Suc One_nat_def)
qed (use assms in \<open>auto simp: entries_per_index_hopper_def entry_offset_hopper_def page_table_depth_hopper_def num_va_bits_hopper_def pg_sizes\<close>)

text \<open>The formats that a GPU can have.\<close>

definition gpu_mmu_hal :: "mmu_mode_hal \<Rightarrow> bool" where
  "gpu_mmu_hal hal \<longleftrightarrow> (\<exists>big_page_size ats ats_config.
     Some hal \<in> {uvm_hal_mmu_mode_pascal big_page_size, uvm_hal_mmu_mode_volta ats big_page_size,
       uvm_hal_mmu_mode_turing ats big_page_size, uvm_hal_mmu_mode_ampere ats big_page_size,
       uvm_hal_mmu_mode_hopper ats_config big_page_size})"

lemmas hal_defs = uvm_hal_mmu_mode_pascal_def uvm_hal_mmu_mode_volta_def uvm_hal_mmu_mode_turing_def
  uvm_hal_mmu_mode_ampere_def uvm_hal_mmu_mode_hopper_def pascal_mmu_mode_hal_def

lemma gpu_mmu_hal_geometry: "gpu_mmu_hal hal \<Longrightarrow> page_geometry hal"
proof -
  assume "gpu_mmu_hal hal"
  then consider (p) b where "Some hal = uvm_hal_mmu_mode_pascal b" | (v) a b where "Some hal = uvm_hal_mmu_mode_volta a b"
    | (t) a b where "Some hal = uvm_hal_mmu_mode_turing a b" | (a) a b where "Some hal = uvm_hal_mmu_mode_ampere a b"
    | (h) a b where "Some hal = uvm_hal_mmu_mode_hopper a b"
    by (auto simp: gpu_mmu_hal_def)
  then show ?thesis
    by cases (simp_all add: hal_defs page_geometry_pascal page_geometry_ampere page_geometry_hopper split: if_splits)
qed

interpretation pascal_geometry: page_geometry pascal_mmu_mode_hal
  by (rule page_geometry_pascal) (simp_all add: pascal_mmu_mode_hal_def)

interpretation ampere_geometry: page_geometry "the (uvm_hal_mmu_mode_ampere ats UVM_PAGE_SIZE_64K)"
  by (rule page_geometry_ampere) (simp_all add: hal_defs pg_sizes UVM_PAGE_SIZE_128K_def)

interpretation hopper_geometry: page_geometry "the (uvm_hal_mmu_mode_hopper ats UVM_PAGE_SIZE_64K)"
  by (rule page_geometry_hopper) (simp_all add: hal_defs pg_sizes UVM_PAGE_SIZE_128K_def)
section \<open>Putting PTEs\<close>

lemma tree_inv_level:
  assumes "tree_inv hal leaf root T held X h" "d \<in> T"
  shows "dir_level (dir_at h d) \<le> leaf"
  using tree_invD(6)[OF assms] by (simp add: dir_ok_def dir_shape_def)

text \<open>What is left of a directory when the directories \<open>F\<close> are gone, apart from its reference count.\<close>

definition dir_without :: "'d set \<Rightarrow> 'd page_dir \<Rightarrow> 'd page_dir" where
  "dir_without F x = x\<lparr>dir_refs := 0, dir_entries := (\<lambda>e. case dir_entries x e of
     None \<Rightarrow> None | Some c \<Rightarrow> if c \<in> F then None else Some c)\<rparr>"

lemma dir_without_empty [simp]: "dir_without {} x = x\<lparr>dir_refs := 0\<rparr>"
proof -
  have "(\<lambda>e. case dir_entries x e of None \<Rightarrow> None | Some c \<Rightarrow> if c \<in> {} then None else Some c) = dir_entries x"
    by (rule ext) (simp split: option.split)
  then show ?thesis by (simp add: dir_without_def)
qed

lemma dir_without_insert:
  assumes "x'\<lparr>dir_refs := 0\<rparr> = dir_without {d} x"
  shows "dir_without F x' = dir_without (insert d F) x"
proof -
  have "dir_without F x' = dir_without F (x'\<lparr>dir_refs := 0\<rparr>)" by (simp add: dir_without_def)
  also have "\<dots> = dir_without (insert d F) x"
    unfolding assms by (auto simp: dir_without_def fun_eq_iff split: option.split)
  finally show ?thesis .
qed

text \<open>Clearing the entry of a child removes it from its parent and changes nothing else of the tree.\<close>

lemma unlink_others:
  assumes inv: "tree_inv hal leaf root T held X h" and d: "d \<in> T" "dir_parent (dir_at h d) = Some p"
    and e: "dir_entries (dir_at h p) (index_to_entry hal (dir_index (dir_at h d)) (dir_level (dir_at h p)) pg_size) = Some d"
    and x: "x \<in> T"
  shows "(dir_at (host_pde_clear hal p (dir_index (dir_at h d)) pg_size h) x)\<lparr>dir_refs := 0\<rparr> = dir_without {d} (dir_at h x)"
proof -
  let ?e = "index_to_entry hal (dir_index (dir_at h d)) (dir_level (dir_at h p)) pg_size"
  have only: "y = p \<and> e' = ?e" if "y \<in> T" "dir_entries (dir_at h y) e' = Some d" for y e'
  proof -
    have "y = p" using tree_invD(6)[OF inv that(1)] that(2) d(2) by (auto simp: dir_ok_def child_ok_def)
    then show ?thesis using tree_invD(6)[OF inv that(1)] that(2) e by (auto simp: dir_ok_def dir_shape_def)
  qed
  obtain y where y: "h x = Some y" using tree_invD(2)[OF inv] x by blast
  have other: "dir_entries y e' \<noteq> Some d" if "x \<noteq> p \<or> e' \<noteq> ?e" for e' using only[OF x, of e'] y that by auto
  show ?thesis
  proof (cases "x = p")
    case True
    have "(dir_entries y)(?e := None) = (\<lambda>e. case dir_entries y e of None \<Rightarrow> None | Some c \<Rightarrow> if c \<in> {d} then None else Some c)"
      using e y True other by (auto simp: fun_eq_iff split: option.split)
    then show ?thesis using True y by (simp add: host_pde_clear_def dir_without_def)
  next
    case False
    then have "(\<lambda>e. case dir_entries y e of None \<Rightarrow> None | Some c \<Rightarrow> if c \<in> {d} then None else Some c) = dir_entries y"
      using other by (auto simp: fun_eq_iff split: option.split)
    then show ?thesis using False y by (simp add: host_pde_clear_def dir_without_def)
  qed
qed

context page_geometry
begin

lemma put_walk_correct:
  assumes "tree_inv hal (leaf_level hal) root T held X h" "X \<subseteq> {d}" "d \<in> T" "slot_ok hal T h pg_size d"
    "dir_level (dir_at h d) < fuel" "put_walk fuel hal pg_size d h = (queue, h')"
  shows "set queue \<subseteq> T \<and> distinct queue \<and> tree_inv hal (leaf_level hal) root (T - set queue) held {} h' \<and>
    (\<forall>x. x \<notin> T \<longrightarrow> h' x = h x) \<and>
    (\<forall>x\<in>T - set queue. (dir_at h' x)\<lparr>dir_refs := 0\<rparr> = dir_without (set queue) (dir_at h x))"
  using assms
proof (induction fuel arbitrary: T X d h queue h')
  case (Suc fuel)
  note inv = Suc.prems(1)
  show ?case
  proof (cases "dir_parent (dir_at h d) = None \<or> dir_refs (dir_at h d) > 0")
    case True
    then have q: "queue = []" "h' = h" using Suc.prems(6) by (auto split: option.splits)
    have "d = root \<or> dir_refs (dir_at h d) > 0" using True tree_invD(7)[OF inv Suc.prems(3)] by (cases "d = root") auto
    then have "tree_inv hal (leaf_level hal) root T held {} h"
      using Suc.prems(2) tree_invD[OF inv] by (intro tree_invI) blast+
    then show ?thesis using q by simp
  next
    case False
    then obtain p where p: "dir_parent (dir_at h d) = Some p" and unused: "dir_refs (dir_at h d) = 0" by auto
    let ?h = "host_pde_clear hal p (dir_index (dir_at h d)) pg_size h"
    obtain q2 where q2: "put_walk fuel hal pg_size p ?h = (q2, h')" "queue = d # q2"
      using Suc.prems(6) p unused by (auto simp: Let_def split: prod.splits)
    have pT: "p \<in> T" using tree_inv_parent[OF inv Suc.prems(3) p] by simp
    have e: "dir_entries (dir_at h p) (index_to_entry hal (dir_index (dir_at h d)) (dir_level (dir_at h p)) pg_size) = Some d"
      using Suc.prems(4) pT p by (simp add: slot_ok_def)
    have lev: "dir_level (dir_at h d) = Suc (dir_level (dir_at h p))"
      using tree_invD(6)[OF inv pT] e by (simp add: dir_ok_def child_ok_def)
    have leaf: "dir_level (dir_at h d) \<le> leaf_level hal" using tree_inv_level[OF inv Suc.prems(3)] .
    have inv': "tree_inv hal (leaf_level hal) root (T - {d}) held (insert p (X - {d})) ?h"
      by (rule unlink_inv[OF inv Suc.prems(3) p unused e])
    have pd: "p \<noteq> d" using lev by auto
    obtain xp where xp: "h p = Some xp" using tree_invD(2)[OF inv] pT by blast
    have lev_p: "dir_level (dir_at ?h p) = dir_level (dir_at h p)" using xp by (simp add: host_pde_clear_def)
    have "slot_ok hal (T - {d}) ?h pg_size p" using pT pd lev leaf lev_p by (intro upper_slot_ok[OF inv']) auto
    then have IH: "set q2 \<subseteq> T - {d} \<and> distinct q2 \<and> tree_inv hal (leaf_level hal) root (T - {d} - set q2) held {} h' \<and>
        (\<forall>x. x \<notin> T - {d} \<longrightarrow> h' x = ?h x) \<and>
        (\<forall>x\<in>T - {d} - set q2. (dir_at h' x)\<lparr>dir_refs := 0\<rparr> = dir_without (set q2) (dir_at ?h x))"
      using Suc.prems(2,5) pT pd lev lev_p q2(1) by (intro Suc.IH[OF inv']) auto
    have "T - {d} - set q2 = T - set queue" using q2(2) by auto
    moreover have "h' x = h x" if "x \<notin> T" for x
    proof -
      have "x \<noteq> p" using that pT by auto
      then show ?thesis using IH that by (simp add: host_pde_clear_def)
    qed
    moreover have "(dir_at h' x)\<lparr>dir_refs := 0\<rparr> = dir_without (set queue) (dir_at h x)" if "x \<in> T - set queue" for x
      using IH that q2(2) dir_without_insert[OF unlink_others[OF inv Suc.prems(3) p e], of x "set q2"] by auto
    ultimately show ?thesis using IH q2(2) Suc.prems(3) by auto
  qed
qed simp

end
text \<open>The directories that a tree needs: the root, and every directory on the way to a table of a held range.\<close>

definition needed_dirs :: "'d \<Rightarrow> 'd table_range multiset \<Rightarrow> 'd dir_heap \<Rightarrow> 'd set" where
  "needed_dirs root held h =
     insert root {d. \<exists>r\<in>#held. (range_table r, d) \<in> {(c, p). dir_parent (dir_at h c) = Some p}\<^sup>*}"

lemma held_refs_pos: "held_refs held d > 0 \<Longrightarrow> \<exists>r\<in>#held. range_table r = d"
  by (rule ccontr) (use held_refs_zero[of held d] in auto)

lemma tree_inv_needed:
  assumes inv: "tree_inv hal leaf root T held {} h"
  shows "T = needed_dirs root held h"
proof
  let ?P = "{(c, p). dir_parent (dir_at h c) = Some p}"
  note D = tree_invD[OF inv]
  have up: "p \<in> T" if "(c, p) \<in> ?P\<^sup>*" "c \<in> T" for c p
    using that by (induction rule: rtrancl_induct) (auto dest: tree_inv_parent(1)[OF inv])
  show "needed_dirs root held h \<subseteq> T" using D(3,9) up by (auto simp: needed_dirs_def range_ok_def)
  have "d = root \<or> (\<exists>r\<in>#held. (range_table r, d) \<in> ?P\<^sup>*)" if "d \<in> T" for d
    using that
  proof (induction "leaf - dir_level (dir_at h d)" arbitrary: d rule: less_induct)
    case less
    show ?case
    proof (cases "d = root \<or> held_refs held d > 0")
      case True
      then show ?thesis using held_refs_pos[of held d] by auto
    next
      case False
      then have "child_count (dir_at h d) > 0" using D(8)[OF less.prems] dir_refs_eq[OF inv less.prems] by auto
      then have "{e. dir_entries (dir_at h d) e \<noteq> None} \<noteq> {}" unfolding child_count_def by (metis card_gt_0_iff)
      then obtain e c where e: "dir_entries (dir_at h d) e = Some c" by auto
      then have c: "child_ok hal T h d e c" using D(6)[OF less.prems] by (simp add: dir_ok_def)
      then have cT: "c \<in> T" and up_c: "(c, d) \<in> ?P" and lev: "dir_level (dir_at h c) = Suc (dir_level (dir_at h d))"
        by (simp_all add: child_ok_def)
      have "leaf - dir_level (dir_at h c) < leaf - dir_level (dir_at h d)" using tree_inv_level[OF inv cT] lev by simp
      then have "c = root \<or> (\<exists>r\<in>#held. (range_table r, c) \<in> ?P\<^sup>*)" using less.hyps cT by simp
      moreover have "c \<noteq> root" using up_c D(4) by auto
      ultimately show ?thesis using up_c by (meson rtrancl.rtrancl_into_rtrancl)
    qed
  qed
  then show "T \<subseteq> needed_dirs root held h" by (auto simp: needed_dirs_def)
qed

lemma release_range_undo:
  assumes "tree_inv hal leaf root T (add_mset r held) X h"
  shows "upd_dir (range_table r) (\<lambda>x. x\<lparr>dir_refs := dir_refs x + range_entry_count r\<rparr>) (release_range r h) = h"
proof -
  have t: "range_table r \<in> T" using tree_invD(9)[OF assms, of r] by (simp add: range_ok_def)
  then obtain x where x: "h (range_table r) = Some x" using tree_invD(2)[OF assms] by blast
  then have "dir_refs x \<ge> range_entry_count r" using dir_refs_eq[OF assms t] by simp
  then show ?thesis using x by (auto simp: release_range_def upd_dir_def fun_eq_iff)
qed

lemma range_slot_release:
  assumes inv: "tree_inv hal leaf root T (add_mset r held) X h"
  shows "slot_ok hal T (release_range r h) (range_pg_size r) (range_table r)"
proof -
  have ok: "range_ok hal T h r" using tree_invD(9)[OF inv, of r] by simp
  have same: "dir_at (release_range r h) x = (dir_at h x)\<lparr>dir_refs := dir_refs (dir_at (release_range r h) x)\<rparr>" if "x \<in> T" for x
  proof -
    have "x \<in> dom h" using tree_invD(2)[OF inv] that by blast
    then show ?thesis by (cases "x = range_table r") (auto simp: release_range_def)
  qed
  have f: "dir_parent (dir_at (release_range r h) x) = dir_parent (dir_at h x)" "dir_level (dir_at (release_range r h) x) = dir_level (dir_at h x)"
    "dir_index (dir_at (release_range r h) x) = dir_index (dir_at h x)" "dir_entries (dir_at (release_range r h) x) = dir_entries (dir_at h x)"
    if "x \<in> T" for x
    by (subst same[OF that], simp)+
  show ?thesis using ok f by (auto simp: range_ok_def slot_ok_def)
qed

lemma free_directories_simps [simp]:
  "d \<in> set ds \<Longrightarrow> free_directories ds h d = None" "d \<notin> set ds \<Longrightarrow> free_directories ds h d = h d"
  by (simp_all add: free_directories_def)

lemma put_ptes_correct:
  assumes hal: "gpu_mmu_hal (pt_hal tree)"
    and inv: "tree_inv (pt_hal tree) (leaf_level (pt_hal tree)) (pt_root tree) T (add_mset r held) {} h"
    and put: "uvm_page_tree_put_ptes_async tree r status h = (queue, h')"
    and t: "t = range_table r"
  shows "if status \<noteq> NV_OK \<and> t \<noteq> pt_root tree \<and> child_count (the (h t)) + held_refs held t = 0
    then queue = [] \<and> h' = h
    else T - set queue = needed_dirs (pt_root tree) held h' \<and> set queue \<subseteq> T \<and> distinct queue \<and>
      tree_inv (pt_hal tree) (leaf_level (pt_hal tree)) (pt_root tree) (T - set queue) held {} h' \<and>
      (\<forall>d\<in>set queue. h' d = None) \<and> (\<forall>d. d \<notin> T \<longrightarrow> h' d = h d) \<and>
      (\<forall>d\<in>T - set queue. (the (h' d))\<lparr>dir_refs := 0\<rparr> = dir_without (set queue) (the (h d)))"
proof -
  let ?hal = "pt_hal tree" and ?h = "release_range r h"
  have geo: "page_geometry ?hal" by (rule gpu_mmu_hal_geometry[OF hal])
  have tT: "t \<in> T" using tree_invD(9)[OF inv, of r] t by (simp add: range_ok_def)
  obtain x where x: "h t = Some x" using tree_invD(2)[OF inv] tT by blast
  have inv1: "tree_inv ?hal (leaf_level ?hal) (pt_root tree) T held {t} ?h" using release_range_inv[OF inv] t by simp
  have refs: "dir_refs (dir_at ?h t) = child_count (dir_at h t) + held_refs held t"
    using dir_refs_eq[OF inv tT] x t by (simp add: release_range_def)
  have other: "\<And>y. y \<noteq> t \<Longrightarrow> ?h y = h y" and at_t: "?h t = Some (x\<lparr>dir_refs := dir_refs x - range_entry_count r\<rparr>)"
    using x t by (simp_all add: release_range_def)
  have root: "dir_parent (dir_at ?h t) = None \<longleftrightarrow> t = pt_root tree"
    using tree_invD(4,7)[OF inv1] tT by fastforce
  show ?thesis
  proof (cases "status \<noteq> NV_OK \<and> t \<noteq> pt_root tree \<and> child_count (the (h t)) + held_refs held t = 0")
    case True
    then show ?thesis using put root refs t release_range_undo[OF inv] by (simp add: uvm_page_tree_put_ptes_async_def)
  next
    case False
    obtain h2 where w: "put_walk (Suc (dir_level (dir_at ?h t))) ?hal (range_pg_size r) t ?h = (queue, h2)"
      and h': "h' = free_directories queue h2"
      using put False root refs t by (auto simp: uvm_page_tree_put_ptes_async_def Let_def split: prod.splits if_splits)
    have W: "set queue \<subseteq> T \<and> distinct queue \<and> tree_inv ?hal (leaf_level ?hal) (pt_root tree) (T - set queue) held {} h2 \<and>
        (\<forall>x. x \<notin> T \<longrightarrow> h2 x = ?h x) \<and>
        (\<forall>x\<in>T - set queue. (dir_at h2 x)\<lparr>dir_refs := 0\<rparr> = dir_without (set queue) (dir_at ?h x))"
      by (rule page_geometry.put_walk_correct[OF geo inv1 _ tT _ _ w]) (use range_slot_release[OF inv] t in simp_all)
    have inv': "tree_inv ?hal (leaf_level ?hal) (pt_root tree) (T - set queue) held {} h'"
      by (rule tree_inv_cong[of _ _ h2]) (use W h' in simp_all)
    have same: "dir_without F (dir_at ?h y) = dir_without F (dir_at h y)" for F y
      using other[of y] at_t x by (cases "y = t") (simp_all add: dir_without_def)
    have "h' d = h d" if "d \<notin> T" for d
    proof -
      have "d \<noteq> t" "d \<notin> set queue" using that tT W by auto
      then show ?thesis using W that h' other[of d] by simp
    qed
    moreover have "(the (h' d))\<lparr>dir_refs := 0\<rparr> = dir_without (set queue) (the (h d))" if "d \<in> T - set queue" for d
      using W that h' same by simp
    ultimately show ?thesis unfolding if_not_P[OF False] using W inv' h' tree_inv_needed[OF inv', symmetric] by simp
  qed
qed
section \<open>Getting PTEs\<close>

text \<open>The directories that a caller of the walk has allocated: none is in the tree, and each is as allocated, for the level below its slot.\<close>

definition private_cache :: "'d set \<Rightarrow> (nat \<Rightarrow> 'd option) \<Rightarrow> 'd dir_heap \<Rightarrow> bool" where
  "private_cache T cache h \<longleftrightarrow> (\<forall>k c. cache k = Some c \<longrightarrow> c \<notin> T \<and> unused_dir (Suc k) h c)"

text \<open>The pages \<open>start\<close> to \<open>start + n\<close> do not wrap around and are in one table.\<close>

definition in_one_table :: "mmu_mode_hal \<Rightarrow> NvU32 \<Rightarrow> NvU64 \<Rightarrow> NvU64 \<Rightarrow> bool" where
  "in_one_table hal pg_size start n \<longleftrightarrow>
     n \<noteq> 0 \<and> start \<le> start + n - 1 \<and>
     drop_bit (table_shift hal pg_size (page_table_depth hal pg_size)) start =
     drop_bit (table_shift hal pg_size (page_table_depth hal pg_size)) (start + n - 1)"

lemma entry_index_nat: "entry_index_from_vaddr v s b = unat v div 2 ^ s mod 2 ^ b"
proof -
  have "unat (drop_bit s v) = unat v div 2 ^ s" unfolding unat_drop_bit_eq by (rule drop_bit_eq_div)
  moreover have "unat (take_bit b w) = unat w mod 2 ^ b" for w :: NvU64
    unfolding unsigned_take_bit_eq by (rule take_bit_eq_mod)
  ultimately show ?thesis by (simp add: entry_index_from_vaddr_def flip: take_bit_eq_mask)
qed

text \<open>The index and the entry of an address in the directories at a level.\<close>

definition va_index :: "mmu_mode_hal \<Rightarrow> NvU32 \<Rightarrow> nat \<Rightarrow> NvU64 \<Rightarrow> nat" where
  "va_index hal pg_size k va = entry_index_from_vaddr va (table_shift hal pg_size (Suc k)) (index_bits hal k pg_size)"

definition va_entry :: "mmu_mode_hal \<Rightarrow> NvU32 \<Rightarrow> nat \<Rightarrow> NvU64 \<Rightarrow> nat" where
  "va_entry hal pg_size k va = index_to_entry hal (va_index hal pg_size k va) k pg_size"

text \<open>The table that translates an address for a page size.\<close>

fun find_table :: "nat \<Rightarrow> mmu_mode_hal \<Rightarrow> NvU32 \<Rightarrow> NvU64 \<Rightarrow> 'd dir_heap \<Rightarrow> 'd \<Rightarrow> 'd option" where
  "find_table 0 hal pg_size va h d = None"
| "find_table (Suc fuel) hal pg_size va h d =
     (if dir_level (dir_at h d) = page_table_depth hal pg_size then Some d
      else Option.bind (dir_entries (dir_at h d) (va_entry hal pg_size (dir_level (dir_at h d)) va)) (find_table fuel hal pg_size va h))"

definition walk_range :: "mmu_mode_hal \<Rightarrow> NvU32 \<Rightarrow> NvU64 \<Rightarrow> NvU64 \<Rightarrow> 'd \<Rightarrow> 'd table_range" where
  "walk_range hal pg_size start n d =
     (let depth = page_table_depth hal pg_size; i = va_index hal pg_size depth start; j = va_index hal pg_size depth (start + n - 1)
      in \<lparr>range_table = d, range_start_index = i, range_entry_count = 1 + j - i, range_pg_size = pg_size\<rparr>)"

text \<open>The walk from a directory, with the address bits that are left there.\<close>

definition walk_from ::
    "nat \<Rightarrow> mmu_mode_hal \<Rightarrow> NvU32 \<Rightarrow> NvU64 \<Rightarrow> NvU64 \<Rightarrow> (nat \<Rightarrow> 'd option) \<Rightarrow> 'd \<Rightarrow> 'd dir_heap \<Rightarrow>
     ('d walk_result \<times> 'd list \<times> 'd dir_heap) option" where
  "walk_from fuel hal pg_size start n cache d h =
     get_walk fuel hal pg_size start n cache d (table_shift hal pg_size (dir_level (dir_at h d))) h"

text \<open>The state of a walk: \<open>d\<close> may be a directory that was just linked.\<close>

definition walk_inv ::
    "mmu_mode_hal \<Rightarrow> NvU32 \<Rightarrow> (nat \<Rightarrow> 'd option) \<Rightarrow> 'd \<Rightarrow> 'd table_range multiset \<Rightarrow> nat \<Rightarrow> 'd set \<Rightarrow> 'd set \<Rightarrow> 'd \<Rightarrow> 'd dir_heap \<Rightarrow> bool" where
  "walk_inv hal pg_size cache root held fuel T X d h \<longleftrightarrow>
     tree_inv hal (leaf_level hal) root T held X h \<and> X \<subseteq> {d} \<and> d \<in> T \<and> slot_ok hal T h pg_size d \<and>
     dir_level (dir_at h d) \<le> page_table_depth hal pg_size \<and> page_table_depth hal pg_size < fuel + dir_level (dir_at h d) \<and>
     (\<forall>k c. dir_level (dir_at h d) \<le> k \<longrightarrow> cache k = Some c \<longrightarrow> c \<notin> T \<and> unused_dir (Suc k) h c)"

lemma walk_invD:
  assumes "walk_inv hal pg_size cache root held fuel T X d h"
  shows "tree_inv hal (leaf_level hal) root T held X h" "X \<subseteq> {d}" "d \<in> T" "slot_ok hal T h pg_size d"
    "dir_level (dir_at h d) \<le> page_table_depth hal pg_size" "page_table_depth hal pg_size < fuel + dir_level (dir_at h d)"
    "dir_level (dir_at h d) \<le> k \<Longrightarrow> cache k = Some c \<Longrightarrow> c \<notin> T \<and> unused_dir (Suc k) h c"
  using assms by (simp_all add: walk_inv_def)

lemma get_walk_table:
  "dir_level (dir_at h d) = page_table_depth hal pg_size \<Longrightarrow>
   walk_from (Suc fuel) hal pg_size start n cache d h =
     Some (Got (walk_range hal pg_size start n d), [],
       upd_dir d (\<lambda>x. x\<lparr>dir_refs := dir_refs x + range_entry_count (walk_range hal pg_size start n d)\<rparr>) h)"
  by (simp add: walk_from_def Let_def va_index_def walk_range_def page_table_range_init_def)

lemma get_walk_child:
  "dir_level (dir_at h d) = k \<Longrightarrow> k \<noteq> page_table_depth hal pg_size \<Longrightarrow>
   dir_entries (dir_at h d) (va_entry hal pg_size k start) = Some c \<Longrightarrow> dir_level (dir_at h c) = Suc k \<Longrightarrow>
   walk_from (Suc fuel) hal pg_size start n cache d h = walk_from fuel hal pg_size start n cache c h"
  by (simp add: walk_from_def Let_def va_entry_def va_index_def)

lemma get_walk_missing:
  "dir_level (dir_at h d) = k \<Longrightarrow> k \<noteq> page_table_depth hal pg_size \<Longrightarrow>
   dir_entries (dir_at h d) (va_entry hal pg_size k start) = None \<Longrightarrow> cache k = None \<Longrightarrow>
   walk_from (Suc fuel) hal pg_size start n cache d h = Some (Missing k, [], h)"
  by (simp add: walk_from_def Let_def va_entry_def va_index_def)

lemma get_walk_link:
  "dir_level (dir_at h d) = k \<Longrightarrow> k \<noteq> page_table_depth hal pg_size \<Longrightarrow>
   dir_entries (dir_at h d) (va_entry hal pg_size k start) = None \<Longrightarrow> cache k = Some c \<Longrightarrow>
   h' = link_child c d (va_index hal pg_size k start) (va_entry hal pg_size k start) h \<Longrightarrow> dir_level (dir_at h' c) = Suc k \<Longrightarrow>
   walk_from (Suc fuel) hal pg_size start n cache d h =
     map_option (\<lambda>(r, used, h). (r, c # used, h)) (walk_from fuel hal pg_size start n cache c h')"
  by (simp add: walk_from_def Let_def va_entry_def va_index_def link_child_def)
lemma tree_inv_used:
  assumes inv: "tree_inv hal leaf root T held X h" and X: "X \<subseteq> {d}" and d: "d \<in> T" "dir_entries (dir_at h d) e = Some c"
  shows "tree_inv hal leaf root T held {} h"
proof -
  have "finite {e. dir_entries (dir_at h d) e \<noteq> None}"
    using tree_invD(6)[OF inv d(1)] by (simp add: dir_ok_def dir_shape_def)
  then have "child_count (dir_at h d) > 0" unfolding child_count_def using d(2) by (auto simp: card_gt_0_iff)
  then have "dir_refs (dir_at h d) > 0" using dir_refs_eq[OF inv d(1)] by simp
  then show ?thesis using X tree_invD[OF inv] by (intro tree_invI) blast+
qed

context page_geometry
begin

lemma entry_slot_ok:
  assumes inv: "tree_inv hal leaf root T held X h" and d: "d \<in> T"
    and e: "dir_entries (dir_at h d) (index_to_entry hal i (dir_level (dir_at h d)) pg_size) = Some c"
  shows "slot_ok hal T h pg_size c"
proof -
  have "child_ok hal T h d (index_to_entry hal i (dir_level (dir_at h d)) pg_size) c"
    using tree_invD(6)[OF inv d] e by (simp add: dir_ok_def)
  then show ?thesis using e by (simp add: child_ok_def slot_ok_def entry_div)
qed

lemma walk_child:
  assumes w: "walk_inv hal pg_size cache root held (Suc fuel) T X d h" and k: "dir_level (dir_at h d) = k" "k \<noteq> page_table_depth hal pg_size"
    and e: "dir_entries (dir_at h d) (va_entry hal pg_size k start) = Some c"
  shows "walk_inv hal pg_size cache root held fuel T {} c h" "dir_level (dir_at h c) = Suc k"
proof -
  note W = walk_invD[OF w]
  have inv: "tree_inv hal (leaf_level hal) root T held {} h" by (rule tree_inv_used[OF W(1-3) e])
  have c: "child_ok hal T h d (va_entry hal pg_size k start) c" using tree_invD(6)[OF W(1,3)] e by (simp add: dir_ok_def)
  then show lev: "dir_level (dir_at h c) = Suc k" using k by (simp add: child_ok_def)
  have "slot_ok hal T h pg_size c" using entry_slot_ok[OF inv W(3)] e k by (simp add: va_entry_def)
  moreover have "y \<notin> T \<and> unused_dir (Suc j) h y" if "Suc k \<le> j" "cache j = Some y" for j y
    using W(7)[of j y] k that by simp
  ultimately show "walk_inv hal pg_size cache root held fuel T {} c h"
    using inv c k lev W(5,6) by (simp add: walk_inv_def child_ok_def)
qed

lemma walk_link:
  assumes w: "walk_inv hal pg_size cache root held (Suc fuel) T X d h" and k: "dir_level (dir_at h d) = k" "k \<noteq> page_table_depth hal pg_size"
    and e: "dir_entries (dir_at h d) (va_entry hal pg_size k start) = None" and c: "cache k = Some c"
    and h': "h' = link_child c d (va_index hal pg_size k start) (va_entry hal pg_size k start) h"
  shows "walk_inv hal pg_size cache root held fuel (insert c T) {c} c h'" and "dir_level (dir_at h' c) = Suc k"
proof -
  note W = walk_invD[OF w]
  have new: "c \<notin> T" "unused_dir (Suc k) h c" using W(7)[of k c] k c by simp_all
  have cd: "c \<noteq> d" using new W(3) by auto
  have lt: "k < page_table_depth hal pg_size" using k W(5) by simp
  have "tree_inv hal (leaf_level hal) root (insert c T) held (insert c (X - {d})) h'"
    unfolding h' by (rule link_child_inv[OF W(1,3) new(1)]) (use new k lt depth_le_leaf[of pg_size] e in \<open>simp_all add: va_entry_def entry_div\<close>)
  moreover have "insert c (X - {d}) = {c}" using W(2) by auto
  ultimately have inv: "tree_inv hal (leaf_level hal) root (insert c T) held {c} h'" by simp
  obtain xc where xc: "h c = Some xc" using new(2) by (auto simp: unused_dir_def)
  obtain xd where xd: "h d = Some xd" using tree_invD(2)[OF W(1)] W(3) by blast
  note cells = link_child_cells[OF cd, where index = "va_index hal pg_size k start" and e = "va_entry hal pg_size k start" and h = h, folded h']
  show lev: "dir_level (dir_at h' c) = Suc k" using new(2) cells(2) xc by (simp add: unused_dir_def)
  have "dir_level (dir_at h' d) = k" "dir_entries (dir_at h' d) (va_entry hal pg_size k start) = Some c"
    using cells(1) xd k by simp_all
  then have slot: "slot_ok hal (insert c T) h' pg_size c" using entry_slot_ok[OF inv, of d "va_index hal pg_size k start" pg_size c] W(3) by (simp add: va_entry_def)
  have "y \<notin> insert c T \<and> unused_dir (Suc j) h' y" if "Suc k \<le> j" "cache j = Some y" for j y
  proof -
    have y: "y \<notin> T" "unused_dir (Suc j) h y" using W(7)[of j y] k that by simp_all
    then have "y \<noteq> c" "y \<noteq> d" using new(2) that(1) W(3) by (auto simp: unused_dir_def)
    with y show ?thesis using cells(3) by (simp add: unused_dir_def dom_def)
  qed
  then show "walk_inv hal pg_size cache root held fuel (insert c T) {c} c h'"
    using inv slot lev k lt W(6) by (simp add: walk_inv_def)
qed

text \<open>The cases of a walk, with the walk that is left to do.\<close>

lemma walk_cases [consumes 1, case_names table child missing link]:
  assumes w: "walk_inv hal pg_size cache root held (Suc fuel) T X d h"
  obtains "dir_level (dir_at h d) = page_table_depth hal pg_size"
      "walk_from (Suc fuel) hal pg_size start n cache d h =
         Some (Got (walk_range hal pg_size start n d), [],
           upd_dir d (\<lambda>x. x\<lparr>dir_refs := dir_refs x + range_entry_count (walk_range hal pg_size start n d)\<rparr>) h)"
  | k c where "dir_level (dir_at h d) = k" "k < page_table_depth hal pg_size"
      "dir_entries (dir_at h d) (va_entry hal pg_size k start) = Some c" "dir_level (dir_at h c) = Suc k"
      "walk_inv hal pg_size cache root held fuel T {} c h"
      "walk_from (Suc fuel) hal pg_size start n cache d h = walk_from fuel hal pg_size start n cache c h"
  | k where "dir_level (dir_at h d) = k" "k < page_table_depth hal pg_size"
      "dir_entries (dir_at h d) (va_entry hal pg_size k start) = None" "cache k = None"
      "walk_from (Suc fuel) hal pg_size start n cache d h = Some (Missing k, [], h)"
  | k c h' where "dir_level (dir_at h d) = k" "k < page_table_depth hal pg_size"
      "dir_entries (dir_at h d) (va_entry hal pg_size k start) = None" "cache k = Some c"
      "c \<notin> T" "unused_dir (Suc k) h c" "dir_level (dir_at h' c) = Suc k"
      "h' = link_child c d (va_index hal pg_size k start) (va_entry hal pg_size k start) h"
      "walk_inv hal pg_size cache root held fuel (insert c T) {c} c h'"
      "walk_from (Suc fuel) hal pg_size start n cache d h =
         map_option (\<lambda>(r, used, h). (r, c # used, h)) (walk_from fuel hal pg_size start n cache c h')"
proof -
  define k where "k = dir_level (dir_at h d)"
  show thesis
  proof (cases "k = page_table_depth hal pg_size")
    case True
    then have t: "dir_level (dir_at h d) = page_table_depth hal pg_size" using k_def by simp
    show thesis by (rule that(1)[OF t get_walk_table[where h = h and d = d and cache = cache, OF t]])
  next
    case False
    then have lt: "k < page_table_depth hal pg_size" using walk_invD(5)[OF w] k_def by simp
    show thesis
    proof (cases "dir_entries (dir_at h d) (va_entry hal pg_size k start)")
      case (Some c)
      note W = walk_child[OF w k_def[symmetric] False Some]
      show thesis by (rule that(2)[OF k_def[symmetric] lt Some W(2,1) get_walk_child[where h = h and d = d and c = c, OF k_def[symmetric] False Some W(2)]])
    next
      case None
      show thesis
      proof (cases "cache k")
        case None': None
        show thesis by (rule that(3)[OF k_def[symmetric] lt None None' get_walk_missing[where h = h and d = d and cache = cache, OF k_def[symmetric] False None None']])
      next
        case (Some c)
        note W = walk_link[OF w k_def[symmetric] False None Some refl]
        have "c \<notin> T" "unused_dir (Suc k) h c" using walk_invD(7)[OF w, of k c] Some k_def by simp_all
        from that(4)[OF k_def[symmetric] lt None Some this W(2) refl W(1) get_walk_link[where h = h and d = d and c = c and cache = cache, OF k_def[symmetric] False None Some refl W(2)]]
        show thesis .
      qed
    qed
  qed
qed

lemma walk_total:
  "walk_inv hal pg_size cache root held fuel T X d h \<Longrightarrow> \<exists>res. walk_from fuel hal pg_size start n cache d h = Some res"
proof (induction fuel arbitrary: T X d h)
  case 0
  then show ?case using walk_invD(5,6)[OF 0] by (simp add: walk_from_def)
next
  case (Suc fuel)
  from Suc.prems show ?case
  proof (cases rule: walk_cases[where start = start and n = n])
    case (child k c)
    then show ?thesis using Suc.IH[OF child(5)] by simp
  next
    case (link k c h')
    then show ?thesis using Suc.IH[OF link(9)] by auto
  qed auto
qed

end
subsection \<open>Linking and unlinking\<close>

lemma dir_without_same:
  assumes "dir_without F y = x\<lparr>dir_refs := 0\<rparr>"
  shows "dir_level y = dir_level x" and "dir_entries x e = Some c \<Longrightarrow> dir_entries y e = Some c"
proof -
  have "dir_level (dir_without F y) = dir_level (x\<lparr>dir_refs := 0\<rparr>)" "dir_entries (dir_without F y) e = dir_entries (x\<lparr>dir_refs := 0\<rparr>) e"
    using assms by simp_all
  then show "dir_level y = dir_level x" "dir_entries x e = Some c \<Longrightarrow> dir_entries y e = Some c"
    by (auto simp: dir_without_def split: option.splits if_splits)
qed

lemma link_child_without:
  assumes inv: "tree_inv hal leaf root T held X h" and d: "d \<in> T" and c: "c \<notin> T" and e: "dir_entries (dir_at h d) e = None"
    and x: "x \<in> T" and y: "dir_without F y = (dir_at (link_child c d index e h) x)\<lparr>dir_refs := 0\<rparr>"
  shows "dir_without (insert c F) y = (dir_at h x)\<lparr>dir_refs := 0\<rparr>"
proof -
  have cd: "c \<noteq> d" "x \<noteq> c" using d c x by auto
  obtain z where z: "h x = Some z" using tree_invD(2)[OF inv] x by blast
  have no: "dir_entries z e' \<noteq> Some c" for e'
    using tree_invD(6)[OF inv x] c z by (auto simp: dir_ok_def child_ok_def)
  have "dir_without {c} (dir_at (link_child c d index e h) x) = z\<lparr>dir_refs := 0\<rparr>"
  proof (cases "x = d")
    case True
    have "(\<lambda>e'. case ((dir_entries z)(e := Some c)) e' of None \<Rightarrow> None | Some c' \<Rightarrow> if c' \<in> {c} then None else Some c') = dir_entries z"
      using no e z True by (auto simp: fun_eq_iff split: option.split)
    then show ?thesis using True z link_child_cells(1)[OF cd(1), of index e h] by (simp add: dir_without_def del: fun_upd_apply)
  next
    case False
    have "(\<lambda>e'. case dir_entries z e' of None \<Rightarrow> None | Some c' \<Rightarrow> if c' \<in> {c} then None else Some c') = dir_entries z"
      using no by (auto simp: fun_eq_iff split: option.split)
    then show ?thesis using link_child_cells(3)[OF cd(1,2) False, of index e h] z by (simp add: dir_without_def)
  qed
  moreover have "dir_without (insert c F) y = dir_without {c} (dir_without F y)"
    by (auto simp: dir_without_def fun_eq_iff split: option.split)
  moreover have "dir_without {c} (y'\<lparr>dir_refs := 0\<rparr>) = dir_without {c} y'" for y' :: "'a page_dir" by (simp add: dir_without_def)
  ultimately show ?thesis using y z by simp
qed

lemma host_pde_clear_keeps [simp]:
  "dir_parent (dir_at (host_pde_clear hal d i pg_size h) x) = dir_parent (dir_at h x)"
  "dir_index (dir_at (host_pde_clear hal d i pg_size h) x) = dir_index (dir_at h x)"
  by (cases "h x"; cases "x = d"; simp add: host_pde_clear_def)+

lemma host_pde_clear_commute:
  "a \<noteq> b \<Longrightarrow> host_pde_clear hal a i pg_size (host_pde_clear hal b j pg_size h) =
   host_pde_clear hal b j pg_size (host_pde_clear hal a i pg_size h)"
  by (auto simp: host_pde_clear_def upd_dir_def fun_eq_iff)

lemma undo_links_commute:
  "(\<And>u. u \<in> set used \<Longrightarrow> the (dir_parent (dir_at h u)) \<noteq> d) \<Longrightarrow>
   undo_links hal pg_size used (host_pde_clear hal d i pg_size h) = host_pde_clear hal d i pg_size (undo_links hal pg_size used h)"
proof (induction used arbitrary: h)
  case (Cons u used)
  have "the (dir_parent (dir_at h u)) \<noteq> d" using Cons.prems by simp
  then show ?case using Cons by (simp add: host_pde_clear_commute[of _ d])
qed simp

lemma link_child_clear:
  assumes "c \<noteq> d" "h d = Some x" "e = index_to_entry hal index (dir_level x) pg_size" "dir_entries x e = None" "H d = link_child c d index e h d"
  shows "host_pde_clear hal d index pg_size H d = h d"
proof -
  have "(dir_entries x)(e := None) = dir_entries x" using assms(4) by auto
  then show ?thesis using assms(2,3,5) link_child_cells(1)[OF assms(1), of index e h] by (simp add: host_pde_clear_def)
qed
text \<open>The cached directories for the levels below \<open>k\<close>, down to the tables.\<close>

definition cache_from :: "(nat \<Rightarrow> 'd option) \<Rightarrow> nat \<Rightarrow> nat \<Rightarrow> 'd set" where
  "cache_from cache k depth = {c. \<exists>j. k \<le> j \<and> j < depth \<and> cache j = Some c}"

lemma cache_from_Suc: "cache_from cache (Suc k) depth \<subseteq> cache_from cache k depth"
  by (auto simp: cache_from_def intro: Suc_leD)

lemma cache_fromI: "cache k = Some c \<Longrightarrow> k < depth \<Longrightarrow> c \<in> cache_from cache k depth"
  by (auto simp: cache_from_def)

context page_geometry
begin

lemma walk_got:
  assumes "walk_inv hal pg_size cache root held fuel T X d h"
    and "va_index hal pg_size (page_table_depth hal pg_size) start \<le> va_index hal pg_size (page_table_depth hal pg_size) (start + n - 1)"
    and "walk_from fuel hal pg_size start n cache d h = Some (Got r, used, h')"
  shows "tree_inv hal (leaf_level hal) root (T \<union> set used) (add_mset r held) {} h' \<and>
    find_table fuel hal pg_size start h' d = Some (range_table r) \<and> r = walk_range hal pg_size start n (range_table r) \<and>
    (\<forall>x\<in>T. dir_without (set used) (dir_at h' x) = (dir_at h x)\<lparr>dir_refs := 0\<rparr>) \<and>
    (\<forall>x. x \<notin> T \<longrightarrow> x \<notin> set used \<longrightarrow> h' x = h x) \<and>
    set used \<subseteq> cache_from cache (dir_level (dir_at h d)) (page_table_depth hal pg_size) - T"
  using assms
proof (induction fuel arbitrary: T X d h used)
  case (Suc fuel)
  note W = walk_invD[OF Suc.prems(1)]
  obtain xd where xd: "h d = Some xd" using tree_invD(2)[OF W(1)] W(3) by blast
  from Suc.prems(1) show ?case
  proof (cases rule: walk_cases[where start = start and n = n])
    case table
    define R where "R = walk_range hal pg_size start n d"
    have r: "r = R" "used = []" "h' = upd_dir d (\<lambda>x. x\<lparr>dir_refs := dir_refs x + range_entry_count R\<rparr>) h"
      using Suc.prems(3) unfolding table(2) R_def by auto
    have t: "range_table R = d" "range_pg_size R = pg_size" "range_entry_count R > 0"
      using Suc.prems(2) by (simp_all add: R_def walk_range_def Let_def)
    have "range_ok hal T h R" using table(1) W(3,4) t by (simp add: range_ok_def)
    from hold_range_inv[OF W(1) this refl] have "tree_inv hal (leaf_level hal) root T (add_mset R held) {} h'"
      using W(2) r t by (simp add: Diff_eq_empty_iff[THEN iffD2])
    moreover have "dir_level (dir_at h' d) = page_table_depth hal pg_size" using table(1) r xd by simp
    moreover have "(dir_at h' x)\<lparr>dir_refs := 0\<rparr> = (dir_at h x)\<lparr>dir_refs := 0\<rparr>" for x
      using r xd by (cases "x = d") simp_all
    moreover have "h' x = h x" if "x \<notin> T" for x
    proof -
      have "x \<noteq> d" using that W(3) by auto
      then show ?thesis using r by simp
    qed
    ultimately show ?thesis using r t by (simp add: R_def)
  next
    case (child k c)
    have "walk_from fuel hal pg_size start n cache c h = Some (Got r, used, h')" using child(6) Suc.prems(3) by simp
    note IH = Suc.IH[OF child(5) Suc.prems(2) this]
    have same: "dir_without (set used) (dir_at h' d) = (dir_at h d)\<lparr>dir_refs := 0\<rparr>" using IH W(3) by blast
    have "find_table (Suc fuel) hal pg_size start h' d = find_table fuel hal pg_size start h' c"
      using dir_without_same(1)[OF same] dir_without_same(2)[OF same child(3)] child(1,2) by simp
    moreover have "find_table fuel hal pg_size start h' c = Some (range_table r)" using IH by (elim conjE) assumption
    ultimately have "find_table (Suc fuel) hal pg_size start h' d = Some (range_table r)" by (rule trans)
    moreover have "set used \<subseteq> cache_from cache (dir_level (dir_at h d)) (page_table_depth hal pg_size) - T"
      using IH child(1,4) cache_from_Suc[of cache k "page_table_depth hal pg_size"] by auto
    ultimately show ?thesis using IH by blast
  next
    case (missing k)
    then show ?thesis using Suc.prems(3) by simp
  next
    case (link k c h1)
    obtain used' where u: "walk_from fuel hal pg_size start n cache c h1 = Some (Got r, used', h')" "used = c # used'"
      using Suc.prems(3) unfolding link(10) by auto
    note IH = Suc.IH[OF link(9) Suc.prems(2) u(1)]
    have cd: "c \<noteq> d" using link(5) W(3) by auto
    have d1: "dir_level (dir_at h1 d) = k" "dir_entries (dir_at h1 d) (va_entry hal pg_size k start) = Some c"
      using link(1,8) link_child_cells(1)[OF cd, where h = h] xd by simp_all
    have same: "dir_without (set used') (dir_at h' d) = (dir_at h1 d)\<lparr>dir_refs := 0\<rparr>" using IH W(3) by blast
    have "find_table (Suc fuel) hal pg_size start h' d = find_table fuel hal pg_size start h' c"
      using dir_without_same(1)[OF same] dir_without_same(2)[OF same d1(2)] d1(1) link(2) by simp
    moreover have "find_table fuel hal pg_size start h' c = Some (range_table r)" using IH by (elim conjE) assumption
    ultimately have "find_table (Suc fuel) hal pg_size start h' d = Some (range_table r)" by (rule trans)
    moreover have "dir_without (set used) (dir_at h' x) = (dir_at h x)\<lparr>dir_refs := 0\<rparr>" if "x \<in> T" for x
    proof -
      have e: "dir_entries (dir_at h d) (va_entry hal pg_size k start) = None" by (rule link(3))
      have "dir_without (set used') (dir_at h' x) = (dir_at h1 x)\<lparr>dir_refs := 0\<rparr>" using IH that by blast
      then show ?thesis using link_child_without[OF W(1,3) link(5) e that] link(8) u(2) by simp
    qed
    moreover have "h' x = h x" if "x \<notin> T" "x \<notin> set used" for x
    proof -
      have "x \<noteq> c" "x \<noteq> d" "x \<notin> set used'" using that u(2) W(3) by auto
      then show ?thesis using IH that link(8) link_child_cells(3)[OF cd, where h = h] by simp
    qed
    moreover have "set used \<subseteq> cache_from cache (dir_level (dir_at h d)) (page_table_depth hal pg_size) - T"
      using IH u(2) link(1,5,7) cache_from_Suc[of cache k "page_table_depth hal pg_size"] cache_fromI[of cache k c, OF link(4,2)] by auto
    moreover have "insert c T \<union> set used' = T \<union> set used" using u(2) by auto
    ultimately show ?thesis using IH by simp
  qed
qed (use walk_invD(5,6) in fastforce)

end
lemma upd_dir_keeps: "(\<And>y. f (g y) = f y) \<Longrightarrow> f (dir_at (upd_dir d g h) x) = f (dir_at h x)"
  by (cases "h x"; cases "x = d") auto

lemma link_child_keeps:
  shows "dir_level (dir_at (link_child c d index e h) x) = dir_level (dir_at h x)"
    and "x \<noteq> c \<Longrightarrow> dir_parent (dir_at (link_child c d index e h) x) = dir_parent (dir_at h x)"
    and "x \<noteq> c \<Longrightarrow> dir_index (dir_at (link_child c d index e h) x) = dir_index (dir_at h x)"
  by (simp_all add: link_child_def host_pde_write_def upd_dir_keeps[of dir_level] upd_dir_keeps[of dir_parent] upd_dir_keeps[of dir_index])

context page_geometry
begin

text \<open>A failed walk: undoing its links gives the tree back, and the directories it linked are unused again.\<close>

lemma walk_missing:
  assumes "walk_inv hal pg_size cache root held fuel T X d h"
    and "walk_from fuel hal pg_size start n cache d h = Some (Missing k, used, h')"
  shows "(k < page_table_depth hal pg_size \<and> cache k = None) \<and>
    set used \<subseteq> cache_from cache (dir_level (dir_at h d)) (page_table_depth hal pg_size) - T \<and>
    (\<forall>x. x \<notin> set used \<longrightarrow> undo_links hal pg_size used h' x = h x) \<and>
    (\<forall>x\<in>set used. \<exists>p i. undo_links hal pg_size used h' x = Some ((dir_at h x)\<lparr>dir_parent := p, dir_index := i\<rparr>)) \<and>
    (\<forall>x\<in>set used. \<exists>p. dir_parent (dir_at h' x) = Some p \<and> dir_level (dir_at h d) \<le> dir_level (dir_at h p)) \<and>
    (\<forall>x\<in>T. dir_parent (dir_at h' x) = dir_parent (dir_at h x) \<and> dir_index (dir_at h' x) = dir_index (dir_at h x))"
  using assms
proof (induction fuel arbitrary: T X d h used)
  case (Suc fuel)
  note W = walk_invD[OF Suc.prems(1)]
  obtain xd where xd: "h d = Some xd" using tree_invD(2)[OF W(1)] W(3) by blast
  from Suc.prems(1) show ?case
  proof (cases rule: walk_cases[where start = start and n = n])
    case (child j c)
    have "walk_from fuel hal pg_size start n cache c h = Some (Missing k, used, h')" using Suc.prems(2) unfolding child(6) .
    note IH = Suc.IH[OF child(5) this, unfolded child(4)]
    then show ?thesis unfolding child(1)
      using cache_from_Suc[of cache j "page_table_depth hal pg_size"] Suc_leD by blast
  next
    case (missing j)
    then show ?thesis using Suc.prems(2) by auto
  next
    case (link j c h1)
    obtain used' where u: "walk_from fuel hal pg_size start n cache c h1 = Some (Missing k, used', h')" "used = c # used'"
      using Suc.prems(2) unfolding link(10) by auto
    note IH = Suc.IH[OF link(9) u(1), unfolded link(7)]
    let ?H = "undo_links hal pg_size used' h'"
    have cd: "c \<noteq> d" "d \<notin> set used'" using link(5) W(3) IH by auto
    note keeps = link_child_keeps[where c = c and d = d and index = "va_index hal pg_size j start" and e = "va_entry hal pg_size j start" and h = h, folded link(8)]
    note cells = link_child_cells[OF cd(1), where index = "va_index hal pg_size j start" and e = "va_entry hal pg_size j start" and h = h, folded link(8)]
    obtain xc where xc: "h c = Some xc" using link(6) by (auto simp: unused_dir_def)
    have h1c: "h1 c = Some (xc\<lparr>dir_parent := Some d, dir_index := va_index hal pg_size j start\<rparr>)"
      using cells(2) xc by simp
    then have c_parent: "dir_parent (dir_at h' c) = Some d" "dir_index (dir_at h' c) = va_index hal pg_size j start" using IH by auto
    have "the (dir_parent (dir_at h' x)) \<noteq> d" if "x \<in> set used'" for x
    proof -
      have "\<exists>p. dir_parent (dir_at h' x) = Some p \<and> Suc j \<le> dir_level (dir_at h1 p)" using IH that by blast
      then show ?thesis using keeps(1) link(1) by auto
    qed
    then have undo: "undo_links hal pg_size used h' = host_pde_clear hal d (va_index hal pg_size j start) pg_size ?H"
      using u(2) c_parent by (simp add: undo_links_commute)
    have Hd: "?H d = h1 d" and Hc: "?H c = h1 c" using IH cd by auto
    have back_d: "host_pde_clear hal d (va_index hal pg_size j start) pg_size ?H d = h d"
      by (rule link_child_clear[where h = h, OF cd(1) xd]) (use link(1,3,8) xd Hd in \<open>simp_all add: va_entry_def\<close>)
    have clear: "host_pde_clear hal d (va_index hal pg_size j start) pg_size ?H x = ?H x" if "x \<noteq> d" for x
      using that by (simp add: host_pde_clear_def)
    have "undo_links hal pg_size used h' x = h x" if "x \<notin> set used" for x
      using that u(2) undo back_d clear[of x] IH cells(3)[of x] by (cases "x = d") auto
    moreover have "\<exists>p i. undo_links hal pg_size used h' x = Some ((dir_at h x)\<lparr>dir_parent := p, dir_index := i\<rparr>)" if "x \<in> set used" for x
    proof (cases "x = c")
      case True
      then show ?thesis using undo clear[of c] cd(1) Hc h1c xc by auto
    next
      case False
      then have x: "x \<in> set used'" "x \<noteq> d" using that u(2) cd(2) by auto
      then have "\<exists>p i. ?H x = Some ((dir_at h1 x)\<lparr>dir_parent := p, dir_index := i\<rparr>)" using IH by blast
      then show ?thesis using undo clear[OF x(2)] cells(3)[OF False x(2)] by simp
    qed
    moreover have "\<exists>p. dir_parent (dir_at h' x) = Some p \<and> j \<le> dir_level (dir_at h p)" if "x \<in> set used" for x
      using that u(2) c_parent(1) link(1) IH keeps(1) Suc_leD by auto
    moreover have "dir_parent (dir_at h' x) = dir_parent (dir_at h x) \<and> dir_index (dir_at h' x) = dir_index (dir_at h x)" if "x \<in> T" for x
      using that IH keeps(2,3)[of x] link(5) by auto
    moreover have "set used \<subseteq> cache_from cache j (page_table_depth hal pg_size) - T"
      using IH u(2) link(5) cache_from_Suc[of cache j "page_table_depth hal pg_size"] cache_fromI[of cache j c, OF link(4,2)] by auto
    ultimately show ?thesis unfolding link(1) using IH by blast
  qed (use Suc.prems(2) in auto)
qed (use walk_invD(5,6) in fastforce)

end
subsection \<open>The pages of a range\<close>

context page_geometry
begin

lemma range_pages:
  fixes d :: 'd
  assumes pg: "supported_page_size hal pg_size" and tab: "in_one_table hal pg_size start n"
  defines "depth \<equiv> page_table_depth hal pg_size" and "r \<equiv> walk_range hal pg_size start n d"
  shows "va_index hal pg_size depth start \<le> va_index hal pg_size depth (start + n - 1)"
    and "range_start_index r = unat start div unat pg_size mod 2 ^ index_bits hal depth pg_size"
    and "range_start_index r + range_entry_count r \<le> 2 ^ index_bits hal depth pg_size"
    and "unat start mod unat pg_size = 0 \<Longrightarrow> unat n mod unat pg_size = 0 \<Longrightarrow> range_entry_count r = unat n div unat pg_size"
proof -
  define s where "s = table_shift hal pg_size (Suc depth)"
  define b where "b = index_bits hal depth pg_size"
  define z where "z = start + n - 1"
  have P: "unat pg_size = 2 ^ s" and sum: "(\<Sum>k<Suc depth. index_bits hal k pg_size) \<le> num_va_bits hal"
    using page_shift[OF pg] by (simp_all add: s_def depth_def)
  then have t: "table_shift hal pg_size depth = s + b" by (simp add: s_def b_def table_shift_def)
  have idx: "va_index hal pg_size depth v = unat v div 2 ^ s mod 2 ^ b" for v
    by (simp add: va_index_def entry_index_nat s_def b_def)
  have split: "unat v div 2 ^ s = 2 ^ b * (unat v div 2 ^ (s + b)) + va_index hal pg_size depth v" for v :: NvU64
    by (simp add: idx power_add div_mult2_eq)
  have drop: "unat (drop_bit m v) = unat v div 2 ^ m" for m and v :: NvU64
    unfolding unat_drop_bit_eq by (rule drop_bit_eq_div)
  have "unat (drop_bit (s + b) start) = unat (drop_bit (s + b) z)"
    using tab t by (simp add: in_one_table_def depth_def z_def)
  then have same: "unat start div 2 ^ (s + b) = unat z div 2 ^ (s + b)" unfolding drop .
  have le: "unat start \<le> unat z" using tab by (simp add: in_one_table_def z_def word_le_nat_alt)
  then have "unat start div 2 ^ s \<le> unat z div 2 ^ s" by (rule div_le_mono)
  then show ord: "va_index hal pg_size depth start \<le> va_index hal pg_size depth (start + n - 1)"
    using split[of start] split[of z] same by (simp add: z_def)
  have i: "range_start_index r = va_index hal pg_size depth start"
    and c: "range_entry_count r = 1 + va_index hal pg_size depth z - va_index hal pg_size depth start"
    by (simp_all add: r_def walk_range_def Let_def depth_def z_def)
  show "range_start_index r = unat start div unat pg_size mod 2 ^ index_bits hal depth pg_size" using i idx P by (simp add: b_def)
  have "va_index hal pg_size depth z < 2 ^ b" by (simp add: idx)
  then show "range_start_index r + range_entry_count r \<le> 2 ^ index_bits hal depth pg_size"
    using i c ord by (simp add: b_def z_def)
  show "range_entry_count r = unat n div unat pg_size" if al: "unat start mod unat pg_size = 0" "unat n mod unat pg_size = 0"
  proof -
    define A where "A = unat start div 2 ^ s"
    define N where "N = unat n div 2 ^ s"
    have A: "unat start = A * 2 ^ s" and N: "unat n = N * 2 ^ s" using al P by (simp_all add: A_def N_def mod_0_imp_dvd)
    have n: "n \<noteq> 0" using tab by (simp add: in_one_table_def)
    then have "N > 0" using N by (metis gr0I mult_is_0 unat_eq_zero)
    have "z = start + (n - 1)" by (simp add: z_def)
    then have "unat z = unat start + unat (n - 1)" using le by (simp add: unat_plus_simple[THEN iffD1] word_le_nat_alt)
    also have "\<dots> = A * 2 ^ s + (N * 2 ^ s - 1)" using A N n by (simp add: unat_minus_one)
    also have "\<dots> = (A + (N - 1)) * 2 ^ s + (2 ^ s - 1)"
    proof -
      obtain m where "N = Suc m" using \<open>N > 0\<close> gr0_implies_Suc by blast
      moreover have "(2 :: nat) ^ s \<ge> 1" by simp
      ultimately show ?thesis by (simp add: algebra_simps del: one_le_power)
    qed
    finally have z: "unat z = (A + (N - 1)) * 2 ^ s + (2 ^ s - 1)" .
    have "unat z div 2 ^ s = A + (N - 1)" unfolding z by (subst div_mult_self3) simp_all
    then have "va_index hal pg_size depth z = va_index hal pg_size depth start + (N - 1)"
      using split[of start] split[of z] same A_def by simp
    then show ?thesis using c P N \<open>N > 0\<close> by simp
  qed
qed

end
subsection \<open>One attempt\<close>

lemma free_unused:
  "free_unused_directories used cache h x = (if \<exists>i<MAX_OPERATION_DEPTH. cache i = Some x \<and> x \<notin> set used then None else h x)"
proof -
  have "x \<in> set (List.map_filter cache [0..<MAX_OPERATION_DEPTH]) \<longleftrightarrow> (\<exists>i<MAX_OPERATION_DEPTH. cache i = Some x)"
    by (force simp: List.map_filter_def)
  then show ?thesis by (auto simp: free_unused_directories_def free_directories_def)
qed

lemma find_table_cong:
  assumes inv: "tree_inv hal' leaf root T held X h" and same: "\<And>x. x \<in> T \<Longrightarrow> h' x = h x"
  shows "d \<in> T \<Longrightarrow> find_table fuel hal pg_size va h' d = find_table fuel hal pg_size va h d"
proof (induction fuel arbitrary: d)
  case (Suc fuel)
  let ?e = "va_entry hal pg_size (dir_level (dir_at h d)) va"
  show ?case
  proof (cases "dir_entries (dir_at h d) ?e")
    case (Some c)
    then have "c \<in> T" using tree_invD(6)[OF inv Suc.prems] by (simp add: dir_ok_def child_ok_def)
    then show ?thesis using Suc.IH Some same[OF Suc.prems] by simp
  qed (simp add: same[OF Suc.prems])
qed simp

abbreviation tree_ok :: "'d page_tree \<Rightarrow> 'd set \<Rightarrow> 'd table_range multiset \<Rightarrow> 'd dir_heap \<Rightarrow> bool" where
  "tree_ok tree T held h \<equiv> tree_inv (pt_hal tree) (leaf_level (pt_hal tree)) (pt_root tree) T held {} h"

text \<open>What it takes to have got a range, from the tree \<open>T\<close> in the heap \<open>h\<close>: the directories \<open>used\<close> are linked, and nothing else of the tree has changed.\<close>

definition got_range ::
    "'d page_tree \<Rightarrow> NvU32 \<Rightarrow> NvU64 \<Rightarrow> NvU64 \<Rightarrow> 'd set \<Rightarrow> 'd table_range multiset \<Rightarrow> 'd dir_heap \<Rightarrow> 'd table_range \<Rightarrow> 'd list \<Rightarrow> 'd dir_heap \<Rightarrow> bool" where
  "got_range tree pg_size start n T held h r used h' \<longleftrightarrow>
     tree_ok tree (T \<union> set used) (add_mset r held) h' \<and> set used \<inter> T = {} \<and>
     find_table (Suc MAX_OPERATION_DEPTH) (pt_hal tree) pg_size start h' (pt_root tree) = Some (range_table r) \<and>
     r = walk_range (pt_hal tree) pg_size start n (range_table r) \<and>
     (\<forall>x\<in>T. dir_without (set used) (the (h' x)) = (the (h x))\<lparr>dir_refs := 0\<rparr>)"

lemma try_get_ptes_correct:
  assumes geo: "page_geometry (pt_hal tree)" and inv: "tree_ok tree T held h" and cache: "private_cache T cache h"
    and ord: "va_index (pt_hal tree) pg_size (page_table_depth (pt_hal tree) pg_size) start \<le>
      va_index (pt_hal tree) pg_size (page_table_depth (pt_hal tree) pg_size) (start + n - 1)"
  obtains r used h' where "try_get_ptes tree pg_size start n cache h = Some (Got r, used, h')"
      "got_range tree pg_size start n T held h r used h'" "set used \<subseteq> ran cache"
      "\<And>k c. cache k = Some c \<Longrightarrow> k < MAX_OPERATION_DEPTH \<Longrightarrow> c \<notin> set used \<Longrightarrow> h' c = None"
      "\<And>x. x \<notin> T \<Longrightarrow> x \<notin> ran cache \<Longrightarrow> h' x = h x"
  | k h' where "try_get_ptes tree pg_size start n cache h = Some (Missing k, [], h')"
      "k < page_table_depth (pt_hal tree) pg_size" "cache k = None" "private_cache T cache h'" "\<And>x. x \<notin> ran cache \<Longrightarrow> h' x = h x"
proof -
  let ?hal = "pt_hal tree"
  note D = tree_invD[OF inv]
  have "page_table_depth ?hal pg_size < Suc MAX_OPERATION_DEPTH"
    using page_geometry.depth_le_leaf[OF geo, of pg_size] page_geometry.leaf_bound[OF geo] by simp
  then have w: "walk_inv ?hal pg_size cache (pt_root tree) held (Suc MAX_OPERATION_DEPTH) T {} (pt_root tree) h"
    using inv cache D(3-5) by (simp add: walk_inv_def slot_ok_def private_cache_def)
  let ?walk = "walk_from (Suc MAX_OPERATION_DEPTH) ?hal pg_size start n cache (pt_root tree) h"
  have walk: "get_walk (Suc MAX_OPERATION_DEPTH) ?hal pg_size start n cache (pt_root tree) (num_va_bits ?hal) h = ?walk"
    using D(5) by (simp add: walk_from_def)
  have ran: "cache_from cache k depth \<subseteq> ran cache" for k depth by (auto simp: cache_from_def ran_def)
  obtain res used h2 where res: "?walk = Some (res, used, h2)"
    using page_geometry.walk_total[OF geo w, of start n] by (metis prod_cases3)
  show thesis
  proof (cases res)
    case (Got r)
    let ?h = "free_unused_directories used cache h2"
    note G = page_geometry.walk_got[OF geo w ord res[unfolded Got]]
    have off: "?h x = h2 x" if "x \<in> T \<union> set used \<or> x \<notin> ran cache" for x
    proof -
      have "\<not> (\<exists>i<MAX_OPERATION_DEPTH. cache i = Some x \<and> x \<notin> set used)"
        using that cache by (auto simp: private_cache_def ran_def)
      then show ?thesis by (simp only: free_unused if_False)
    qed
    have inv': "tree_ok tree (T \<union> set used) (add_mset r held) h2" using G by blast
    have "tree_ok tree (T \<union> set used) (add_mset r held) ?h" by (rule tree_inv_cong[OF _ inv']) (simp add: off)
    moreover have "find_table (Suc MAX_OPERATION_DEPTH) ?hal pg_size start ?h (pt_root tree) = Some (range_table r)"
      using find_table_cong[OF inv', of ?h "pt_root tree"] D(3) G off by simp
    moreover have "set used \<inter> T = {}" "r = walk_range ?hal pg_size start n (range_table r)" using G by blast+
    moreover have "\<forall>x\<in>T. dir_without (set used) (the (?h x)) = (the (h x))\<lparr>dir_refs := 0\<rparr>" using G off by simp
    ultimately have got: "got_range tree pg_size start n T held h r used ?h" unfolding got_range_def by blast
    show thesis
    proof (rule that(1))
      show "try_get_ptes tree pg_size start n cache h = Some (Got r, used, ?h)" using walk res Got by (simp add: try_get_ptes_def)
      show used: "set used \<subseteq> ran cache" using G ran by blast
      show "?h c = None" if "cache k = Some c" "k < MAX_OPERATION_DEPTH" "c \<notin> set used" for k c
        using that unfolding free_unused by auto
      show "?h x = h x" if "x \<notin> T" "x \<notin> ran cache" for x
      proof -
        have "x \<notin> set used" using that(2) used by blast
        then have "h2 x = h x" using G that(1) by blast
        then show ?thesis using off[of x] that(2) by simp
      qed
    qed (rule got)
  next
    case (Missing k)
    let ?h = "undo_links ?hal pg_size used h2"
    note M = page_geometry.walk_missing[OF geo w res[unfolded Missing]]
    have used: "set used \<subseteq> ran cache" using M ran by blast
    have "c \<notin> T \<and> unused_dir (Suc j) ?h c" if c: "cache j = Some c" for j c
    proof -
      have u: "c \<notin> T" "unused_dir (Suc j) h c" using cache c by (simp_all add: private_cache_def)
      show ?thesis
      proof (cases "c \<in> set used")
        case True
        then obtain p i where "?h c = Some ((dir_at h c)\<lparr>dir_parent := p, dir_index := i\<rparr>)" using M by blast
        then show ?thesis using u by (simp add: unused_dir_def dom_def)
      next
        case False
        then have "?h c = h c" using M by blast
        then show ?thesis using u by (simp add: unused_dir_def dom_def)
      qed
    qed
    then have cache': "private_cache T cache ?h" by (simp add: private_cache_def)
    show thesis
    proof (rule that(2))
      show "try_get_ptes tree pg_size start n cache h = Some (Missing k, [], ?h)" using walk res Missing by (simp add: try_get_ptes_def)
      show "?h x = h x" if "x \<notin> ran cache" for x using M used that by blast
    qed (use M cache' in blast)+
  qed
qed
subsection \<open>The retries\<close>

lemma allocate_directory_cases:
  obtains "allocate_directory tree pg_size depth evict m h = (None, h)"
  | d x where "host_outcome m = Some d" "allocate_directory tree pg_size depth evict m h = (Some d, h(d \<mapsto> x))"
      "unused_dir depth (h(d \<mapsto> x)) d"
proof (cases "\<exists>d. fst (allocate_directory tree pg_size depth evict m h) = Some d")
  case True
  then show thesis
    by (auto simp: allocate_directory_def Let_def unused_dir_def dom_def split: option.splits sum.splits intro!: that(2))
next
  case False
  then show thesis
    by (intro that(1)) (auto simp: allocate_directory_def Let_def split: option.splits sum.splits)
qed

lemma free_cache:
  assumes "\<And>k d. cache k = Some d \<Longrightarrow> k < MAX_OPERATION_DEPTH"
  shows "free_unused_directories [] cache h x = (if x \<in> ran cache then None else h x)"
  unfolding free_unused using assms by (auto simp: ran_def)

text \<open>A new directory in the cache, in a heap that has the cached ones as they were.\<close>

lemma private_cache_add:
  assumes "private_cache T cache h" "d \<notin> ran cache" "d \<notin> T'" "ran cache \<inter> T' = {}"
    and "\<And>c. c \<in> own \<Longrightarrow> h' c = h c" "ran cache \<subseteq> own" "unused_dir (Suc k) (h'(d \<mapsto> x)) d"
  shows "private_cache T' (cache(k \<mapsto> d)) (h'(d \<mapsto> x))"
proof -
  have "c \<notin> T' \<and> unused_dir (Suc j) (h'(d \<mapsto> x)) c" if "cache j = Some c" for j c
  proof -
    have c: "c \<in> ran cache" "c \<noteq> d" using that assms(2) by (auto simp: ran_def)
    have "unused_dir (Suc j) h c" using assms(1) that by (simp add: private_cache_def)
    then show ?thesis using c assms(4-6) by (auto simp: unused_dir_def dom_def)
  qed
  then show ?thesis using assms(3,7) by (simp add: private_cache_def)
qed

lemma cache_slots_less:
  fixes depth :: nat
  assumes "k < depth" "cache k = None"
  shows "card {j. j < depth \<and> (cache(k \<mapsto> d)) j = None} < card {j. j < depth \<and> cache j = None}"
proof (rule psubset_card_mono)
  show "finite {j. j < depth \<and> cache j = None}" by (rule finite_subset[of _ "{..<depth}"]) auto
qed (use assms in \<open>auto split: if_splits\<close>)

text \<open>
  The outcomes of getting PTEs, with \<open>own\<close> the addresses of this thread's allocations and \<open>I\<close> what is known of the tree at the last attempt:
  a range, with every directory that was allocated either linked or freed; or no memory, with all of them freed.
\<close>

definition get_outcome ::
    "'d page_tree \<Rightarrow> 'd set \<Rightarrow> ('d set \<Rightarrow> 'd table_range multiset \<Rightarrow> 'd dir_heap \<Rightarrow> bool) \<Rightarrow> NvU32 \<Rightarrow> NvU64 \<Rightarrow> NvU64 \<Rightarrow>
     gpu_outcome \<Rightarrow> NV_STATUS \<times> ('d table_range \<times> 'd list) option \<times> 'd dir_heap \<Rightarrow> bool" where
  "get_outcome tree own I pg_size start n gpu_status res \<longleftrightarrow>
     (case res of
        (status, Some (r, used), h') \<Rightarrow>
          status = (get_ptes_status tree pg_size gpu_status used) \<and>
          (\<exists>T held h. I T held h \<and> got_range tree pg_size start n T held h r used h' \<and> set used \<subseteq> own \<and>
             (\<forall>d\<in>own - set used. h' d = None) \<and> (\<forall>x. x \<notin> T \<longrightarrow> x \<notin> own \<longrightarrow> h' x = h x))
      | (status, None, h') \<Rightarrow>
          status = NV_ERR_NO_MEMORY \<and> (\<exists>T held. I T held h') \<and> (\<forall>d\<in>own. h' d = None))"

text \<open>
  The laws that the retries rely on for the time that the lock is dropped: \<open>I\<close> is a property of the tree with the directories \<open>T\<close> and the ranges
  \<open>held\<close> that does not depend on the directories \<open>own\<close> of this thread; the other threads keep it, and do not touch the directories of this thread.
\<close>

locale page_tree_threads =
  fixes tree :: "'d page_tree" and others :: "nat \<Rightarrow> 'd dir_heap \<Rightarrow> 'd dir_heap"
    and own :: "'d set" and I :: "'d set \<Rightarrow> 'd table_range multiset \<Rightarrow> 'd dir_heap \<Rightarrow> bool"
  assumes I_tree: "I T held h \<Longrightarrow> tree_ok tree T held h"
    and I_apart: "I T held h \<Longrightarrow> T \<inter> own = {}"
    and I_own: "I T held h \<Longrightarrow> (\<And>x. x \<notin> own \<Longrightarrow> h' x = h x) \<Longrightarrow> I T held h'"
    and I_others: "I T held h \<Longrightarrow> \<exists>T' held'. I T' held' (others i h)"
    and others_own: "I T held h \<Longrightarrow> d \<in> own \<Longrightarrow> others i h d = h d"
begin

lemma loop_correct:
  assumes geo: "page_geometry (pt_hal tree)"
    and ord: "va_index (pt_hal tree) pg_size (page_table_depth (pt_hal tree) pg_size) start \<le>
      va_index (pt_hal tree) pg_size (page_table_depth (pt_hal tree) pg_size) (start + n - 1)"
    and fresh: "\<And>i j d. host_outcome (outcomes i) = Some d \<Longrightarrow> host_outcome (outcomes j) = Some d \<Longrightarrow> i = j"
    and own_alloc: "\<And>i d. host_outcome (outcomes i) = Some d \<Longrightarrow> d \<in> own"
  shows "I T held h \<Longrightarrow> private_cache T cache h \<Longrightarrow>
    (\<And>k c. cache k = Some c \<Longrightarrow> k < page_table_depth (pt_hal tree) pg_size \<and> (\<exists>j<i. host_outcome (outcomes j) = Some c)) \<Longrightarrow>
    (\<And>d. d \<in> own \<Longrightarrow> h d \<noteq> None \<Longrightarrow> d \<in> ran cache) \<Longrightarrow>
    card {k. k < page_table_depth (pt_hal tree) pg_size \<and> cache k = None} < fuel \<Longrightarrow>
    \<exists>res. get_ptes_loop fuel tree pg_size start n evict outcomes others gpu_status i cache h = Some res \<and>
      get_outcome tree own I pg_size start n gpu_status res"
proof (induction fuel arbitrary: T held h cache i)
  case (Suc fuel)
  let ?D = "page_table_depth (pt_hal tree) pg_size"
  have bound: "?D \<le> MAX_OPERATION_DEPTH"
    using page_geometry.depth_le_leaf[OF geo, of pg_size] page_geometry.leaf_bound[OF geo] by simp
  have ran_own: "ran cache \<subseteq> own" using Suc.prems(3) own_alloc by (fastforce simp: ran_def)
  from geo I_tree[OF Suc.prems(1)] Suc.prems(2) ord show ?case
  proof (cases rule: try_get_ptes_correct)
    case (1 r used h')
    have "h' d = None" if "d \<in> own - set used" for d
    proof (cases "d \<in> ran cache")
      case True
      then obtain k where k: "cache k = Some d" by (auto simp: ran_def)
      then have "k < MAX_OPERATION_DEPTH" using Suc.prems(3)[OF k] bound by simp
      then show ?thesis using 1(4)[OF k] that by simp
    next
      case False
      then have "h d = None" using Suc.prems(4)[of d] that by (cases "h d") auto
      moreover have "d \<notin> T" using I_apart[OF Suc.prems(1)] that by auto
      ultimately show ?thesis using 1(5)[OF _ False] by simp
    qed
    moreover have "h' x = h x" if "x \<notin> T" "x \<notin> own" for x using 1(5)[OF that(1)] that(2) ran_own by auto
    ultimately have "get_outcome tree own I pg_size start n gpu_status (get_ptes_status tree pg_size gpu_status used, Some (r, used), h')"
      using 1(2,3) Suc.prems(1) ran_own unfolding get_outcome_def prod.case option.case by blast
    then show ?thesis using 1(1) by simp
  next
    case (2 k h1)
    define h2 where "h2 = others i h1"
    have I1: "I T held h1" using I_own[OF Suc.prems(1)] 2(5) ran_own by blast
    obtain T2 held2 where I2: "I T2 held2 h2" using I_others[OF I1] h2_def by blast
    have same: "h2 d = h1 d" if "d \<in> own" for d using others_own[OF I1 that] h2_def by simp
    have alive: "d \<in> ran cache" if "d \<in> own" "h2 d \<noteq> None" for d
      using that same[OF that(1)] 2(5)[of d] Suc.prems(4)[of d] by (cases "d \<in> ran cache") auto
    have slots: "k < MAX_OPERATION_DEPTH" if "cache k = Some d" for k d using Suc.prems(3)[OF that] bound by simp
    from allocate_directory_cases[of tree pg_size "k + 1" evict "outcomes i" h2] show ?thesis
    proof cases
      case none: 1
      let ?h = "free_unused_directories [] cache h2"
      have h: "?h x = (if x \<in> ran cache then None else h2 x)" for x by (rule free_cache[OF slots])
      have "I T2 held2 ?h" by (rule I_own[OF I2]) (use h ran_own in auto)
      moreover have "?h d = None" if "d \<in> own" for d using alive[OF that] h by (cases "h2 d") auto
      ultimately have "get_outcome tree own I pg_size start n gpu_status (NV_ERR_NO_MEMORY, None, ?h)"
        unfolding get_outcome_def prod.case option.case by blast
      then show ?thesis using 2(1) none h2_def by simp
    next
      case (2 d x)
      let ?h = "h2(d \<mapsto> x)" and ?cache = "cache(k \<mapsto> d)"
      have d: "d \<in> own" "d \<notin> ran cache"
        using own_alloc[OF 2(1)] Suc.prems(3) fresh[OF 2(1)] by (fastforce simp: ran_def)+
      have "I T2 held2 ?h" by (rule I_own[OF I2]) (use d in auto)
      moreover have "private_cache T2 ?cache ?h"
        by (rule private_cache_add[OF \<open>private_cache T cache h1\<close> d(2) _ _ same]) (use I_apart[OF I2] d(1) ran_own 2(3) in auto)
      moreover have "j < ?D \<and> (\<exists>l<Suc i. host_outcome (outcomes l) = Some c)" if "?cache j = Some c" for j c
      proof (cases "j = k")
        case True
        then show ?thesis using that \<open>k < ?D\<close> 2(1) by auto
      next
        case False
        then have "j < ?D \<and> (\<exists>l<i. host_outcome (outcomes l) = Some c)" using that Suc.prems(3)[of j c] by simp
        then show ?thesis using less_SucI by blast
      qed
      moreover have "y \<in> ran ?cache" if "y \<in> own" "?h y \<noteq> None" for y
      proof (cases "y = d")
        case False
        then have "y \<in> ran cache" using that alive[of y] by simp
        then show ?thesis using ran_map_upd[of cache k d, OF \<open>cache k = None\<close>] by simp
      qed (simp add: ran_def, blast)
      moreover have "card {j. j < ?D \<and> ?cache j = None} < fuel"
        using cache_slots_less[where cache = cache and d = d, OF \<open>k < ?D\<close> \<open>cache k = None\<close>] Suc.prems(5) by simp
      ultimately have "\<exists>res. get_ptes_loop fuel tree pg_size start n evict outcomes others gpu_status (Suc i) ?cache ?h = Some res \<and>
          get_outcome tree own I pg_size start n gpu_status res"
        by (rule Suc.IH)
      then show ?thesis using \<open>try_get_ptes _ _ _ _ _ _ = _\<close> 2(2) h2_def by simp
    qed
  qed
qed simp

lemma get_correct:
  assumes geo: "page_geometry (pt_hal tree)"
    and pages: "supported_page_size (pt_hal tree) pg_size" "in_one_table (pt_hal tree) pg_size start n"
    and fresh: "\<And>i j d. host_outcome (outcomes i) = Some d \<Longrightarrow> host_outcome (outcomes j) = Some d \<Longrightarrow> i = j"
    and own: "\<And>i d. host_outcome (outcomes i) = Some d \<Longrightarrow> d \<in> own" "\<And>d. d \<in> own \<Longrightarrow> h d = None"
    and inv: "I T held h"
  shows "\<exists>res. uvm_page_tree_get_ptes_async tree pg_size start n evict outcomes others gpu_status h = Some res \<and>
    get_outcome tree own I pg_size start n gpu_status res"
  unfolding uvm_page_tree_get_ptes_async_def
proof (rule loop_correct[OF geo page_geometry.range_pages(1)[OF geo pages] fresh own(1) inv])
  have "card {k. k < page_table_depth (pt_hal tree) pg_size \<and> (None :: 'd option) = None} \<le> MAX_OPERATION_DEPTH"
    using page_geometry.depth_le_leaf[OF geo, of pg_size] page_geometry.leaf_bound[OF geo] by simp
  then show "card {k. k < page_table_depth (pt_hal tree) pg_size \<and> (None :: 'd option) = None} < Suc MAX_OPERATION_DEPTH" by simp
qed (use own in \<open>auto simp: private_cache_def\<close>)

end

text \<open>The laws hold when no other thread uses the tree: then it is as it was, apart from the directories of this thread.\<close>

definition unchanged_tree ::
    "'d page_tree \<Rightarrow> 'd set \<Rightarrow> 'd set \<Rightarrow> 'd table_range multiset \<Rightarrow> 'd dir_heap \<Rightarrow> 'd set \<Rightarrow> 'd table_range multiset \<Rightarrow> 'd dir_heap \<Rightarrow> bool" where
  "unchanged_tree tree own T held h T' held' h' \<longleftrightarrow>
     tree_ok tree T held h \<and> T \<inter> own = {} \<and> T' = T \<and> held' = held \<and> (\<forall>x. x \<notin> own \<longrightarrow> h' x = h x)"

interpretation alone: page_tree_threads tree "\<lambda>_ h. h" own "unchanged_tree tree own T held h"
proof
  show "tree_ok tree T' held' h'" if "unchanged_tree tree own T held h T' held' h'" for T' held' h'
  proof -
    have "tree_ok tree T held h" "\<And>x. x \<in> T \<Longrightarrow> h' x = h x" "T' = T" "held' = held" using that by (auto simp: unchanged_tree_def)
    then show ?thesis by (simp add: tree_inv_cong[of T h' h])
  qed
qed (auto simp: unchanged_tree_def)
section \<open>Properties\<close>

text \<open>C1. Getting PTEs returns, whatever the other threads do to the tree while an allocation has dropped the lock, as long as they keep it well formed, keep the
  ranges \<open>mine\<close> held and leave the directories of this thread alone: it never needs more than one attempt per level. Either there was no memory for a directory, every directory
  allocated is freed again and the tree is well formed; or the range returned is for the pages asked for, in the table that a walk finds for them, its PTEs are counted
  in the tree, and every directory allocated is in the tree or freed; this also when the status is the error of writing the linked directories to the GPU or of \<^verbatim>\<open>map_remap\<close>.
\<close>

theorem uvm_page_tree_get_ptes_async_returns:
  assumes hal: "gpu_mmu_hal (pt_hal tree)"
    and pages: "supported_page_size (pt_hal tree) pg_size" "in_one_table (pt_hal tree) pg_size start n"
    and fresh: "\<And>i j d. host_outcome (outcomes i) = Some d \<Longrightarrow> host_outcome (outcomes j) = Some d \<Longrightarrow> i = j"
    and own: "\<And>i d. host_outcome (outcomes i) = Some d \<Longrightarrow> d \<in> own" "\<And>d. d \<in> own \<Longrightarrow> h d = None"
    and inv: "tree_ok tree T held h" "mine \<subseteq># held"
    and others: "\<And>i T held h. tree_ok tree T held h \<Longrightarrow> T \<inter> own = {} \<Longrightarrow> mine \<subseteq># held \<Longrightarrow>
      (\<forall>d\<in>own. others i h d = h d) \<and>
      (\<exists>T' held'. tree_ok tree T' held' (others i h) \<and> T' \<inter> own = {} \<and> mine \<subseteq># held')"
  shows "\<exists>res. uvm_page_tree_get_ptes_async tree pg_size start n evict outcomes others gpu_status h = Some res \<and>
    get_outcome tree own (\<lambda>T held h. tree_ok tree T held h \<and> T \<inter> own = {} \<and> mine \<subseteq># held) pg_size start n gpu_status res"
proof (rule page_tree_threads.get_correct[OF _ gpu_mmu_hal_geometry[OF hal] pages fresh own])
  have "T \<inter> own = {}" using own(2) tree_invD(2)[OF inv(1)] by auto
  then show "tree_ok tree T held h \<and> T \<inter> own = {} \<and> mine \<subseteq># held" using inv by simp
  show "page_tree_threads tree others own (\<lambda>T held h. tree_ok tree T held h \<and> T \<inter> own = {} \<and> mine \<subseteq># held)"
  proof
    show "tree_ok tree T held h' \<and> T \<inter> own = {} \<and> mine \<subseteq># held"
      if old: "tree_ok tree T held h \<and> T \<inter> own = {} \<and> mine \<subseteq># held" and same: "\<And>x. x \<notin> own \<Longrightarrow> h' x = h x" for T held h h'
    proof -
      have "h' x = h x" if "x \<in> T" for x using that old same by blast
      then show ?thesis using old by (simp add: tree_inv_cong[of T h' h])
    qed
  qed (use others in blast)+
qed

text \<open>What a thread gets when it is alone.\<close>

lemma get_alone:
  assumes hal: "gpu_mmu_hal (pt_hal tree)"
    and pages: "supported_page_size (pt_hal tree) pg_size" "in_one_table (pt_hal tree) pg_size start n"
    and fresh: "\<And>i j d. host_outcome (outcomes i) = Some d \<Longrightarrow> host_outcome (outcomes j) = Some d \<Longrightarrow> i = j"
    and own: "\<And>i d. host_outcome (outcomes i) = Some d \<Longrightarrow> d \<in> own" "\<And>d. d \<in> own \<Longrightarrow> h d = None"
    and inv: "tree_ok tree T held h"
  shows "\<exists>res. uvm_page_tree_get_ptes_async tree pg_size start n evict outcomes (\<lambda>_ h. h) gpu_status h = Some res \<and>
    get_outcome tree own (unchanged_tree tree own T held h) pg_size start n gpu_status res"
proof -
  have "T \<inter> own = {}" using own(2) tree_invD(2)[OF inv] by auto
  then have "unchanged_tree tree own T held h T held h" using inv by (simp add: unchanged_tree_def)
  then show ?thesis by (intro alone.get_correct[OF gpu_mmu_hal_geometry[OF hal] pages]) (use fresh own in auto)
qed

text \<open>The range that \<^verbatim>\<open>uvm_page_tree_get_ptes_async\<close> returns: its entries are those of the pages from \<open>start\<close> on, one for each page of the request, they are within the table,
  and the table is the one that a walk of the new tree finds for \<open>start\<close>.
\<close>

theorem uvm_page_tree_get_ptes_async_range:
  assumes hal: "gpu_mmu_hal (pt_hal tree)"
    and pages: "supported_page_size (pt_hal tree) pg_size" "in_one_table (pt_hal tree) pg_size start n"
    and fresh: "\<And>i j d. host_outcome (outcomes i) = Some d \<Longrightarrow> host_outcome (outcomes j) = Some d \<Longrightarrow> i = j"
    and own: "\<And>i d. host_outcome (outcomes i) = Some d \<Longrightarrow> d \<in> own" "\<And>d. d \<in> own \<Longrightarrow> h d = None"
    and inv: "tree_ok tree T held h"
    and aligned: "unat start mod unat pg_size = 0" "unat n mod unat pg_size = 0"
    and got: "uvm_page_tree_get_ptes_async tree pg_size start n evict outcomes (\<lambda>_ h. h) gpu_status h = Some (status, Some (r, used), h')"
    and bits: "bits = index_bits (pt_hal tree) (page_table_depth (pt_hal tree) pg_size) pg_size"
  shows "range_start_index r = unat start div unat pg_size mod 2 ^ bits \<and> range_entry_count r = unat n div unat pg_size \<and>
    range_start_index r + range_entry_count r \<le> 2 ^ bits \<and> range_pg_size r = pg_size \<and>
    find_table (Suc MAX_OPERATION_DEPTH) (pt_hal tree) pg_size start h' (pt_root tree) = Some (range_table r)"
proof -
  note R = page_geometry.range_pages[OF gpu_mmu_hal_geometry[OF hal] pages]
  have "\<exists>h0. got_range tree pg_size start n T held h0 r used h'"
  proof -
    have "\<exists>res. uvm_page_tree_get_ptes_async tree pg_size start n evict outcomes (\<lambda>_ h. h) gpu_status h = Some res \<and>
        get_outcome tree own (unchanged_tree tree own T held h) pg_size start n gpu_status res"
      by (rule get_alone[OF hal pages _ _ _ inv]) (use fresh own in auto)
    then show ?thesis unfolding got by (auto simp: get_outcome_def unchanged_tree_def)
  qed
  then have r: "r = walk_range (pt_hal tree) pg_size start n (range_table r)"
    and find: "find_table (Suc MAX_OPERATION_DEPTH) (pt_hal tree) pg_size start h' (pt_root tree) = Some (range_table r)"
    unfolding got_range_def by blast+
  have "range_start_index r = unat start div unat pg_size mod 2 ^ bits" by (subst r) (simp only: R(2) bits)
  moreover have "range_entry_count r = unat n div unat pg_size" by (subst r) (simp only: R(4)[OF aligned])
  moreover have "range_start_index r + range_entry_count r \<le> 2 ^ bits" by (subst (1 2) r) (simp only: R(3) bits)
  moreover have "range_pg_size r = pg_size" by (subst r) (simp add: walk_range_def Let_def)
  ultimately show ?thesis using find by blast
qed

text \<open>Of two well-formed trees with the same parents, the one for more ranges has the directories of the other.\<close>

lemma tree_inv_mono:
  assumes inv: "tree_inv hal leaf root T held {} h" and inv': "tree_inv hal leaf root T' held' {} h'" and held: "held \<subseteq># held'"
    and same: "\<And>x. x \<in> T \<Longrightarrow> x \<in> T' \<Longrightarrow> dir_parent (dir_at h' x) = dir_parent (dir_at h x)"
  shows "T \<subseteq> T'"
proof -
  have "d \<in> T'" if "(t, d) \<in> {(c, p). dir_parent (dir_at h c) = Some p}\<^sup>*" "t \<in> T \<inter> T'" for t d
  proof -
    have "d \<in> T \<inter> T'" using that
    proof (induction rule: rtrancl_induct)
      case (step c p)
      then have c: "c \<in> T" "c \<in> T'" "dir_parent (dir_at h c) = Some p" by auto
      then show ?case using same[OF c(1,2)] tree_inv_parent(1)[OF inv c(1)] tree_inv_parent(1)[OF inv' c(2)] by simp
    qed
    then show ?thesis by simp
  qed
  moreover have "range_table r \<in> T \<inter> T'" if "r \<in># held" for r
    using tree_invD(9)[OF inv that] tree_invD(9)[OF inv' mset_subset_eqD[OF held that]] by (simp add: range_ok_def)
  moreover have "root \<in> T'" using tree_invD(3)[OF inv'] .
  ultimately show ?thesis unfolding tree_inv_needed[OF inv] needed_dirs_def by blast
qed

lemma tree_inv_unique:
  assumes inv: "tree_inv hal leaf root T held {} h" and inv': "tree_inv hal leaf root T' held {} h'"
    and same: "\<And>x. x \<in> T \<Longrightarrow> x \<in> T' \<Longrightarrow> dir_parent (dir_at h' x) = dir_parent (dir_at h x)"
  shows "T = T'"
  using tree_inv_mono[OF inv inv' _ same] tree_inv_mono[OF inv' inv] same by (simp add: subset_antisym)

lemma same_dir:
  assumes "tree_inv hal leaf root T held {} h" "tree_inv hal leaf root T held {} h'" "x \<in> T"
    and "(dir_at h' x)\<lparr>dir_refs := 0\<rparr> = (dir_at h x)\<lparr>dir_refs := 0\<rparr>"
  shows "h' x = h x"
proof -
  obtain y y' where y: "h x = Some y" "h' x = Some y'" using tree_invD(2)[OF assms(1)] tree_invD(2)[OF assms(2)] assms(3) by blast
  have eq: "y'\<lparr>dir_refs := 0\<rparr> = y\<lparr>dir_refs := 0\<rparr>" using assms(4) y by simp
  then have "dir_entries (y'\<lparr>dir_refs := 0\<rparr>) = dir_entries (y\<lparr>dir_refs := 0\<rparr>)" by simp
  then have "child_count y' = child_count y" by (simp add: child_count_def)
  then have "dir_refs y' = dir_refs y"
    using dir_refs_eq[OF assms(1,3)] dir_refs_eq[OF assms(2,3)] y by simp
  then have "y' = y" using eq by (metis page_dir.surjective page_dir.update_convs(4))
  then show ?thesis using y by simp
qed

text \<open>C13. When no other thread uses the tree, putting the range that was got gives the heap back as it was, and frees the directories that getting it had linked.
\<close>

theorem get_put_roundtrip:
  assumes hal: "gpu_mmu_hal (pt_hal tree)"
    and pages: "supported_page_size (pt_hal tree) pg_size" "in_one_table (pt_hal tree) pg_size start n"
    and fresh: "\<And>i j d. host_outcome (outcomes i) = Some d \<Longrightarrow> host_outcome (outcomes j) = Some d \<Longrightarrow> i = j"
    and own: "\<And>i d. host_outcome (outcomes i) = Some d \<Longrightarrow> d \<in> own" "\<And>d. d \<in> own \<Longrightarrow> h d = None"
    and inv: "tree_ok tree T held h"
    and get: "uvm_page_tree_get_ptes_async tree pg_size start n evict outcomes (\<lambda>_ h. h) gpu_status h = Some (status, Some (r, used), h1)"
    and put: "uvm_page_tree_put_ptes_async tree r NV_OK h1 = (queue, h2)"
  shows "h2 = h \<and> set queue = set used"
proof -
  have apart: "T \<inter> own = {}" using own(2) tree_invD(2)[OF inv] by auto
  have "\<exists>res. uvm_page_tree_get_ptes_async tree pg_size start n evict outcomes (\<lambda>_ h. h) gpu_status h = Some res \<and>
      get_outcome tree own (unchanged_tree tree own T held h) pg_size start n gpu_status res"
    by (rule get_alone[OF hal pages _ _ _ inv]) (use fresh own in auto)
  then obtain h0 where got: "got_range tree pg_size start n T held h0 r used h1" and used: "set used \<subseteq> own"
    and h0: "\<And>x. x \<notin> own \<Longrightarrow> h0 x = h x"
    and h1: "\<And>d. d \<in> own \<Longrightarrow> d \<notin> set used \<Longrightarrow> h1 d = None" "\<And>x. x \<notin> T \<Longrightarrow> x \<notin> own \<Longrightarrow> h1 x = h0 x"
    unfolding get by (auto simp: get_outcome_def unchanged_tree_def)
  have same1: "dir_without (set used) (dir_at h1 x) = (dir_at h x)\<lparr>dir_refs := 0\<rparr>" if "x \<in> T" for x
  proof -
    have "h0 x = h x" using h0[of x] apart that by blast
    then show ?thesis using got that by (simp add: got_range_def)
  qed
  have inv1: "tree_ok tree (T \<union> set used) (add_mset r held) h1" and disj: "set used \<inter> T = {}" using got by (simp_all add: got_range_def)
  let ?T = "T \<union> set used - set queue"
  note P = put_ptes_correct[OF hal inv1 put refl, unfolded simp_thms if_False]
  have q: "set queue \<subseteq> T \<union> set used" "tree_ok tree ?T held h2" "\<And>d. d \<in> set queue \<Longrightarrow> h2 d = None"
    and off: "\<And>d. d \<notin> T \<union> set used \<Longrightarrow> h2 d = h1 d"
    and same2: "\<And>d. d \<in> ?T \<Longrightarrow> (dir_at h2 d)\<lparr>dir_refs := 0\<rparr> = dir_without (set queue) (dir_at h1 d)"
    using P by blast+
  have "dir_parent (dir_at h2 x) = dir_parent (dir_at h x)" if "x \<in> T" "x \<in> ?T" for x
    using arg_cong[OF same1[OF that(1)], of dir_parent] arg_cong[OF same2[OF that(2)], of dir_parent] by (simp add: dir_without_def)
  then have "T = ?T" by (rule tree_inv_unique[OF inv q(2)])
  then have queue: "set queue = set used" using q(1) disj by blast
  have "h2 x = h x" for x
  proof (cases "x \<in> T")
    case True
    then have "(dir_at h2 x)\<lparr>dir_refs := 0\<rparr> = (dir_at h x)\<lparr>dir_refs := 0\<rparr>" using same1[OF True] same2[of x] \<open>T = ?T\<close> queue by auto
    then show ?thesis using same_dir[OF inv q(2)[folded \<open>T = ?T\<close>] True] by simp
  next
    case False
    then show ?thesis using q(3)[of x] off[of x] queue h1 h0 used own(2)[of x] by (cases "x \<in> own"; cases "x \<in> set used") auto
  qed
  then show ?thesis using queue by auto
qed
text \<open>C7. Putting a range: the tree then has exactly the directories that the remaining ranges need, the others are freed, and what remains
  of a directory is what it was without the entries of the freed ones. When the push cannot be started and directories would be freed, nothing
  changes, so that no directory is freed while the GPU may still reach it.
\<close>

theorem uvm_page_tree_put_ptes_async_correct:
  assumes hal: "gpu_mmu_hal (pt_hal tree)"
    and inv: "tree_inv (pt_hal tree) (leaf_level (pt_hal tree)) (pt_root tree) T (add_mset r held) {} h"
    and put: "uvm_page_tree_put_ptes_async tree r status h = (queue, h')"
    and t: "t = range_table r"
  shows "if status \<noteq> NV_OK \<and> t \<noteq> pt_root tree \<and> child_count (the (h t)) + held_refs held t = 0
    then queue = [] \<and> h' = h
    else T - set queue = needed_dirs (pt_root tree) held h' \<and> set queue \<subseteq> T \<and> distinct queue \<and>
      tree_inv (pt_hal tree) (leaf_level (pt_hal tree)) (pt_root tree) (T - set queue) held {} h' \<and>
      (\<forall>d\<in>set queue. h' d = None) \<and> (\<forall>d. d \<notin> T \<longrightarrow> h' d = h d) \<and>
      (\<forall>d\<in>T - set queue. (the (h' d))\<lparr>dir_refs := 0\<rparr> = dir_without (set queue) (the (h d)))"
  by (rule put_ptes_correct[OF assms])
text \<open>Splitting a range: taking the upper \<open>n\<close> entries and shrinking the range by as many gives two ranges
  that make up the old one; the tree is well formed with both of them held, and its heap is as before.
\<close>

lemma page_table_range_split:
  assumes inv: "tree_ok tree T (add_mset r held) h" and n: "0 < n" "n < range_entry_count r"
    and l: "l = r\<lparr>range_entry_count := range_entry_count r - n\<rparr>"
    and u: "u = r\<lparr>range_start_index := range_start_index r + (range_entry_count r - n), range_entry_count := n\<rparr>"
  obtains h1 where "uvm_page_table_range_get_upper r n h = (u, h1)"
    "uvm_page_table_range_shrink tree r (range_entry_count r - n) status h1 = (l, h)" "tree_ok tree T (add_mset l (add_mset u held)) h"
proof -
  let ?t = "range_table r"
  have ok: "range_ok (pt_hal tree) T h r" using tree_invD(9)[OF inv, of r] by simp
  then obtain x where x: "h ?t = Some x" using tree_invD(2)[OF inv] by (auto simp: range_ok_def)
  define h1 where "h1 = upd_dir ?t (\<lambda>x. x\<lparr>dir_refs := dir_refs x + n\<rparr>) h"
  have get: "uvm_page_table_range_get_upper r n h = (u, h1)"
    using n by (auto simp: uvm_page_table_range_get_upper_def page_table_range_init_def Let_def u h1_def)
  have "upd_dir ?t (\<lambda>x. x\<lparr>dir_refs := dir_refs x - n\<rparr>) h1 = h" using x by (auto simp: h1_def upd_dir_def fun_eq_iff)
  then have shrink: "uvm_page_table_range_shrink tree r (range_entry_count r - n) status h1 = (l, h)"
    using n by (simp add: uvm_page_table_range_shrink_def l)
  have "tree_ok tree T (add_mset l (add_mset u held)) h"
  proof (rule tree_inv_refs[OF inv])
    show "h x = Some ((dir_at h x)\<lparr>dir_refs := child_count (dir_at h x) + held_refs (add_mset l (add_mset u held)) x\<rparr>)" if "x \<in> T" for x
    proof -
      have "held_refs (add_mset l (add_mset u held)) x = held_refs (add_mset r held) x" using n by (simp add: u l)
      then show ?thesis using dir_refs_eq[OF inv that] tree_invD(2)[OF inv] that by (cases "h x") auto
    qed
    show "range_ok (pt_hal tree) T h s" if "s \<in># add_mset l (add_mset u held)" for s
      using that ok n tree_invD(9)[OF inv, of s] by (auto simp: range_ok_def u l)
    show "child_count (dir_at h x) + held_refs (add_mset l (add_mset u held)) x > 0" if "x \<in> T" "x \<noteq> pt_root tree" "x \<notin> {}" for x
      using tree_invD(8)[OF inv that] dir_refs_eq[OF inv that(1)] n by (simp add: u l split: if_splits)
  qed
  then show ?thesis using that get shrink by blast
qed

text \<open>A table below an entry that a range holds.\<close>

lemma link_table_inv:
  assumes geo: "page_geometry (pt_hal tree)" and inv: "tree_ok tree T held h" and t: "t \<in> T" "dir_level (the (h t)) = k"
    and k: "Suc k = page_table_depth (pt_hal tree) pg_size" and c: "c \<notin> T" "unused_dir (Suc k) h c"
    and e: "e = index_to_entry (pt_hal tree) i k pg_size" "dir_entries (the (h t)) e = None"
    and r: "r = \<lparr>range_table = c, range_start_index = 0, range_entry_count = n, range_pg_size = pg_size\<rparr>" "n > 0"
  shows "tree_ok tree (insert c T) (add_mset r held) (upd_dir c (\<lambda>x. x\<lparr>dir_refs := dir_refs x + n\<rparr>) (link_child c t i e h))"
proof -
  let ?hal = "pt_hal tree" and ?h = "link_child c t i e h"
  have ct: "c \<noteq> t" using c t by auto
  obtain x where x: "h t = Some x" using tree_invD(2)[OF inv] t by blast
  have lt: "k < leaf_level ?hal" using k page_geometry.depth_le_leaf[OF geo, of pg_size] by simp
  have inv': "tree_inv ?hal (leaf_level ?hal) (pt_root tree) (insert c T) held {c} ?h"
    using link_child_inv[OF inv t(1) c(1), of e i] c(2) t(2) lt e page_geometry.entry_div[OF geo] by simp
  have lev: "dir_level (dir_at ?h y) = dir_level (dir_at h y)" for y by (rule link_child_keeps(1))
  have "dir_entries (dir_at ?h t) (index_to_entry ?hal i (dir_level (dir_at ?h t)) pg_size) = Some c"
    using link_child_cells(1)[OF ct, where index = i and e = e and h = h] x e t(2) lev[of t] by simp
  with t have "slot_ok ?hal (insert c T) ?h pg_size c" by (intro page_geometry.entry_slot_ok[OF geo inv', where d = t]) simp_all
  then have "range_ok ?hal (insert c T) ?h r" using r k c(2) lev[of c] by (simp add: range_ok_def unused_dir_def)
  from hold_range_inv[OF inv' this refl] show ?thesis using r(1) by simp
qed

lemma hold_table_inv:
  assumes geo: "page_geometry (pt_hal tree)" and inv: "tree_ok tree T held h" and t: "t \<in> T" "dir_level (the (h t)) = k"
    and k: "Suc k = page_table_depth (pt_hal tree) pg_size"
    and e: "dir_entries (the (h t)) (index_to_entry (pt_hal tree) i k pg_size) = Some c"
    and r: "r = \<lparr>range_table = c, range_start_index = 0, range_entry_count = n, range_pg_size = pg_size\<rparr>"
  shows "c \<in> T" "c \<noteq> t" "n > 0 \<Longrightarrow> tree_ok tree T (add_mset r held) (upd_dir c (\<lambda>x. x\<lparr>dir_refs := dir_refs x + n\<rparr>) h)"
proof -
  have c: "child_ok (pt_hal tree) T h t (index_to_entry (pt_hal tree) i k pg_size) c"
    using tree_invD(6)[OF inv t(1)] e by (simp add: dir_ok_def)
  then show "c \<in> T" "c \<noteq> t" by (auto simp: child_ok_def)
  assume "n > 0"
  have "slot_ok (pt_hal tree) T h pg_size c" by (rule page_geometry.entry_slot_ok[OF geo inv t(1)]) (use e t in simp)
  then have "range_ok (pt_hal tree) T h r" using c k t r \<open>n > 0\<close> by (simp add: range_ok_def child_ok_def)
  from hold_range_inv[OF inv this refl] show "tree_ok tree T (add_mset r held) (upd_dir c (\<lambda>x. x\<lparr>dir_refs := dir_refs x + n\<rparr>) h)"
    using r by simp
qed

lemma alloc_table_new:
  assumes "c \<noteq> t"
  shows "host_pde_write c t i (upd_dir t (\<lambda>x. x\<lparr>dir_entries := (dir_entries x)(e := Some c)\<rparr>) h) = link_child c t i e h"
  using assms by (cases "h t") (auto simp: link_child_def host_pde_write_def upd_dir_def fun_eq_iff option.map_comp o_def)
text \<open>Allocating a table below an entry: without memory, or when the wait for the tree fails, the heap is as before. Otherwise the caller holds all the PTEs of the one table
  below the entry for the page size; the new directory is that table, or another thread had put one there and the new directory is freed.
\<close>

theorem uvm_page_tree_alloc_table_correct:
  assumes hal: "gpu_mmu_hal (pt_hal tree)" and inv: "tree_ok tree T held h" and single: "single \<in># held" "t = range_table single"
    and k: "Suc (dir_level (the (h t))) = page_table_depth (pt_hal tree) pg_size"
    and new: "\<And>d. host_outcome m = Some d \<Longrightarrow> h d = None"
    and alloc: "uvm_page_tree_alloc_table tree pg_size evict m status single h = (status', res, h')"
  shows "case res of
      None \<Rightarrow> h' = h \<and> status' \<noteq> NV_OK \<and> (status' = status \<or> status' = NV_ERR_NO_MEMORY)
    | Some r \<Rightarrow> status' = NV_OK \<and> range_start_index r = 0 \<and> range_pg_size r = pg_size \<and>
        range_entry_count r = 2 ^ index_bits (pt_hal tree) (page_table_depth (pt_hal tree) pg_size) pg_size \<and>
        dir_entries (the (h' t)) (index_to_entry (pt_hal tree) (range_start_index single) (dir_level (the (h t))) pg_size) = Some (range_table r) \<and>
        tree_ok tree (insert (range_table r) T) (add_mset r held) h' \<and>
        (\<forall>x. x \<notin> insert (range_table r) T \<longrightarrow> h' x = h x)"
proof -
  have geo: "page_geometry (pt_hal tree)" by (rule gpu_mmu_hal_geometry[OF hal])
  let ?hal = "pt_hal tree" and ?k = "dir_level (the (h t))"
  let ?e = "index_to_entry ?hal (range_start_index single) ?k pg_size" and ?n = "2 ^ index_bits ?hal (Suc ?k) pg_size :: nat"
  have t: "t \<in> T" using tree_invD(9)[OF inv single(1)] single(2) by (simp add: range_ok_def)
  then obtain xt where xt: "h t = Some xt" using tree_invD(2)[OF inv] by blast
  from allocate_directory_cases[of tree pg_size "?k + 1" evict m h] show ?thesis
  proof cases
    case 1
    then show ?thesis using alloc single(2) by (auto simp: uvm_page_tree_alloc_table_def)
  next
    case (2 d x)
    have d: "h d = None" "d \<notin> T" "d \<noteq> t" using new[OF 2(1)] tree_invD(2)[OF inv] xt by auto
    let ?h = "h(d \<mapsto> x)"
    have inv1: "tree_ok tree T held ?h" by (rule tree_inv_cong[OF _ inv]) (use d in auto)
    have freed: "free_directories [d] ?h = h" using d by (auto simp: free_directories_def fun_eq_iff)
    show ?thesis
    proof (cases "status = NV_OK")
      case False
      then show ?thesis using alloc single(2) 2(2) freed by (auto simp: uvm_page_tree_alloc_table_def Let_def)
    next
      case True
      show ?thesis
      proof (cases "dir_entries xt ?e")
        case None
        let ?r = "\<lparr>range_table = d, range_start_index = 0, range_entry_count = ?n, range_pg_size = pg_size\<rparr>"
        let ?h2 = "upd_dir d (\<lambda>x. x\<lparr>dir_refs := dir_refs x + ?n\<rparr>) (link_child d t (range_start_index single) ?e ?h)"
        have res: "res = Some ?r" "h' = ?h2" "status' = NV_OK"
          using alloc single(2) 2(2) True None d(3) xt by (auto simp: uvm_page_tree_alloc_table_def Let_def alloc_table_new)
        have "tree_ok tree (insert d T) (add_mset ?r held) ?h2"
          by (rule link_table_inv[OF geo inv1 t, where k = ?k and pg_size = pg_size]) (use d 2(3) None xt k in simp_all)
        moreover have "dir_entries (the (?h2 t)) ?e = Some d"
          using link_child_cells(1)[OF d(3), where index = "range_start_index single" and e = ?e and h = ?h] d(3) xt by simp
        moreover have "?h2 y = h y" if "y \<notin> insert d T" for y
          using that t link_child_cells(3)[OF d(3), where index = "range_start_index single" and e = ?e and h = ?h and x = y] by auto
        ultimately show ?thesis using res k by simp
      next
        case (Some c)
        let ?r = "\<lparr>range_table = c, range_start_index = 0, range_entry_count = ?n, range_pg_size = pg_size\<rparr>"
        have E: "dir_entries (the (h t)) (index_to_entry ?hal (range_start_index single) ?k pg_size) = Some c" using Some xt by simp
        note H = hold_table_inv[where n = ?n, OF geo inv t refl k E refl]
        have cT: "c \<noteq> d" "c \<noteq> t" using H(1,2) d by auto
        have gone: "free_directories [d] (upd_dir c f ?h) = upd_dir c f h" for f
          using d(1) cT(1) by (auto simp: fun_eq_iff upd_dir_def free_directories_def)
        have res: "res = Some ?r" "h' = upd_dir c (\<lambda>x. x\<lparr>dir_refs := dir_refs x + ?n\<rparr>) h" "status' = NV_OK"
          using alloc single(2) 2(2) True Some d(3) xt by (auto simp: uvm_page_tree_alloc_table_def Let_def gone)
        have "tree_ok tree T (add_mset ?r held) h'" using H(3) res by simp
        moreover have "insert c T = T" using H(1) by auto
        moreover have "h' t = h t" using res cT by simp
        moreover have "h' y = h y" if "y \<notin> T" for y
        proof -
          have "y \<noteq> c" using that H(1) by auto
          then show ?thesis using res by simp
        qed
        ultimately show ?thesis using res k Some xt by simp
      qed
    qed
  qed
qed
section \<open>A concrete tree\<close>

text \<open>A tree with addresses that count up, on a GPU with the Pascal format.\<close>

definition addr0 :: gpu_phys_address where
  "addr0 = \<lparr>phys_address = 0, phys_aperture = UVM_APERTURE_VID\<rparr>"

definition tree0 :: "nat page_tree" where
  "tree0 = \<lparr>pt_hal = pascal_mmu_mode_hal, pt_root = 0, pt_location = UVM_APERTURE_VID, pt_location_sys_fallback = False, map_remap_larger_page_promotion = False\<rparr>"

definition outcomes0 :: "nat \<Rightarrow> nat dir_outcome" where
  "outcomes0 i = \<lparr>host_outcome = Some (Suc i), vid_outcome = Inr addr0, sys_outcome = Inr addr0\<rparr>"

definition heap0 :: "nat dir_heap" where
  "heap0 = snd (allocate_directory tree0 UVM_PAGE_SIZE_AGNOSTIC 0 True (outcomes0 0\<lparr>host_outcome := Some 0\<rparr>) Map.empty)"

lemma tree0_ok: "gpu_mmu_hal (pt_hal tree0)" "tree_ok tree0 {0} {#} heap0" "\<And>d. d \<noteq> 0 \<Longrightarrow> heap0 d = None"
proof -
  show "gpu_mmu_hal (pt_hal tree0)"
    unfolding gpu_mmu_hal_def tree0_def
    by (rule exI[of _ UVM_PAGE_SIZE_64K]) (auto simp: uvm_hal_mmu_mode_pascal_def pg_sizes UVM_PAGE_SIZE_128K_def)
  show "tree_ok tree0 {0} {#} heap0"
    by (rule tree_invI)
      (auto simp: heap0_def tree0_def outcomes0_def allocate_directory_def phys_mem_allocate_def dir_ok_def dir_shape_def child_count_def held_refs_def)
  show "heap0 d = None" if "d \<noteq> 0" for d
    using that by (simp add: heap0_def tree0_def outcomes0_def allocate_directory_def phys_mem_allocate_def)
qed

lemma request0: "supported_page_size (pt_hal tree0) UVM_PAGE_SIZE_4K" "in_one_table (pt_hal tree0) UVM_PAGE_SIZE_4K 0x1000 0x2000"
proof -
  show "supported_page_size (pt_hal tree0) UVM_PAGE_SIZE_4K" unfolding supported_page_size_def
    by (rule exI[of _ 12]) (simp add: tree0_def pascal_mmu_mode_hal_def page_sizes_pascal_def pg_sizes bit_simps)
  show "in_one_table (pt_hal tree0) UVM_PAGE_SIZE_4K 0x1000 0x2000"
    by (simp add: in_one_table_def table_shift_def tree0_def pascal_mmu_mode_hal_def num_va_bits_pascal_def page_table_depth_pascal_def
        index_bits_pascal_def pg_sizes sum_levels del: One_nat_def)
qed

lemma get_ptes_loop_memory:
  assumes "\<And>i k h. fst (allocate_directory tree pg_size k evict (outcomes i) h) \<noteq> None"
  shows "get_ptes_loop fuel tree pg_size start n evict outcomes others gpu_status i cache h = Some (status, res, h') \<Longrightarrow> res \<noteq> None"
proof (induction fuel arbitrary: i cache h)
  case (Suc fuel)
  show ?case
  proof
    assume none: "res = None"
    obtain k u h1 where try1: "try_get_ptes tree pg_size start n cache h = Some (Missing k, u, h1)"
      using Suc.prems none by (auto split: option.splits walk_result.splits)
    obtain d h2 where alloc: "allocate_directory tree pg_size (k + 1) evict (outcomes i) (others i h1) = (Some d, h2)"
      using assms[of "k + 1" i "others i h1"] by (cases "allocate_directory tree pg_size (k + 1) evict (outcomes i) (others i h1)") auto
    have "get_ptes_loop fuel tree pg_size start n evict outcomes others gpu_status (Suc i) (cache(k \<mapsto> d)) h2 = Some (status, res, h')"
      using Suc.prems try1 alloc by simp
    then show False using Suc.IH none by blast
  qed
qed simp

lemma get0:
  assumes pages: "supported_page_size (pt_hal tree0) pg_size" "in_one_table (pt_hal tree0) pg_size start n"
  shows "\<exists>status r used h1. uvm_page_tree_get_ptes_async tree0 pg_size start n True outcomes0 (\<lambda>_ h. h) (NV_OK, NV_OK) heap0 = Some (status, Some (r, used), h1) \<and>
     tree_ok tree0 ({0} \<union> set used) {#r#} h1 \<and> finite (dom h1) \<and> r = walk_range (pt_hal tree0) pg_size start n (range_table r)"
proof -
  have "\<exists>res. uvm_page_tree_get_ptes_async tree0 pg_size start n True outcomes0 (\<lambda>_ h. h) (NV_OK, NV_OK) heap0 = Some res \<and>
      get_outcome tree0 {0<..} (unchanged_tree tree0 {0<..} {0} {#} heap0) pg_size start n (NV_OK, NV_OK) res"
    by (rule get_alone[OF tree0_ok(1) pages _ _ _ tree0_ok(2)]) (auto simp: outcomes0_def tree0_ok(3))
  then obtain status res h1 where res: "uvm_page_tree_get_ptes_async tree0 pg_size start n True outcomes0 (\<lambda>_ h. h) (NV_OK, NV_OK) heap0 = Some (status, res, h1)"
    "get_outcome tree0 {0<..} (unchanged_tree tree0 {0<..} {0} {#} heap0) pg_size start n (NV_OK, NV_OK) (status, res, h1)"
    by (metis prod_cases3)
  have "fst (allocate_directory tree0 pg_size k True (outcomes0 i) h) \<noteq> None" for i k h
    by (simp add: allocate_directory_def outcomes0_def tree0_def phys_mem_allocate_def)
  from get_ptes_loop_memory[OF this res(1)[unfolded uvm_page_tree_get_ptes_async_def]] obtain r used where r: "res = Some (r, used)" by auto
  have off: "h1 d = None" if "d \<notin> {0} \<union> set used" for d using res(2) that unfolding r get_outcome_def by auto
  then have "dom h1 \<subseteq> {0} \<union> set used" by (metis domIff subsetI)
  then have "finite (dom h1)" by (rule finite_subset) simp
  moreover have "tree_ok tree0 ({0} \<union> set used) {#r#} h1" "r = walk_range (pt_hal tree0) pg_size start n (range_table r)"
    using res(2) unfolding r get_outcome_def got_range_def unchanged_tree_def prod.case option.case by blast+
  ultimately show ?thesis using res(1) r by blast
qed

theorem uvm_page_tree_get_ptes_async_returns_witness:
  "\<exists>res. uvm_page_tree_get_ptes_async tree0 UVM_PAGE_SIZE_4K 0x1000 0x2000 True outcomes0 (\<lambda>_ h. h) (NV_OK, NV_OK) heap0 = Some res \<and>
    get_outcome tree0 {0<..} (\<lambda>T held h. tree_ok tree0 T held h \<and> T \<inter> {0<..} = {} \<and> {#} \<subseteq># held) UVM_PAGE_SIZE_4K 0x1000 0x2000 (NV_OK, NV_OK) res"
  by (rule uvm_page_tree_get_ptes_async_returns[OF tree0_ok(1) request0 _ _ _ tree0_ok(2)]) (auto simp: outcomes0_def tree0_ok(3))

theorem uvm_page_tree_get_ptes_async_range_witness:
  "\<exists>status r used h1. uvm_page_tree_get_ptes_async tree0 UVM_PAGE_SIZE_4K 0x1000 0x2000 True outcomes0 (\<lambda>_ h. h) (NV_OK, NV_OK) heap0 = Some (status, Some (r, used), h1) \<and>
     range_start_index r = 1 \<and> range_entry_count r = 2"
proof -
  obtain status r used h1 where get: "uvm_page_tree_get_ptes_async tree0 UVM_PAGE_SIZE_4K 0x1000 0x2000 True outcomes0 (\<lambda>_ h. h) (NV_OK, NV_OK) heap0 = Some (status, Some (r, used), h1)"
    using get0[OF request0] by blast
  have "range_start_index r = unat (0x1000 :: NvU64) div unat UVM_PAGE_SIZE_4K mod 2 ^ 9 \<and> range_entry_count r = unat (0x2000 :: NvU64) div unat UVM_PAGE_SIZE_4K \<and>
      range_start_index r + range_entry_count r \<le> 2 ^ 9 \<and> range_pg_size r = UVM_PAGE_SIZE_4K \<and>
      find_table (Suc MAX_OPERATION_DEPTH) (pt_hal tree0) UVM_PAGE_SIZE_4K 0x1000 h1 (pt_root tree0) = Some (range_table r)"
    by (rule uvm_page_tree_get_ptes_async_range[OF tree0_ok(1) request0 _ _ _ tree0_ok(2) _ _ get, where own = "{0<..}"])
      (auto simp: outcomes0_def tree0_ok(3) pg_sizes tree0_def pascal_mmu_mode_hal_def index_bits_pascal_def page_table_depth_pascal_def)
  then show ?thesis using get by (auto simp: pg_sizes)
qed

theorem get_put_roundtrip_witness:
  "\<exists>status r used h1 queue. uvm_page_tree_get_ptes_async tree0 UVM_PAGE_SIZE_4K 0x1000 0x2000 True outcomes0 (\<lambda>_ h. h) (NV_OK, NV_OK) heap0 = Some (status, Some (r, used), h1) \<and>
     uvm_page_tree_put_ptes_async tree0 r NV_OK h1 = (queue, heap0) \<and> set queue = set used"
proof -
  obtain status r used h1 where get: "uvm_page_tree_get_ptes_async tree0 UVM_PAGE_SIZE_4K 0x1000 0x2000 True outcomes0 (\<lambda>_ h. h) (NV_OK, NV_OK) heap0 = Some (status, Some (r, used), h1)"
    using get0[OF request0] by blast
  obtain queue h2 where put: "uvm_page_tree_put_ptes_async tree0 r NV_OK h1 = (queue, h2)" by (metis surj_pair)
  have "h2 = heap0 \<and> set queue = set used"
    by (rule get_put_roundtrip[OF tree0_ok(1) request0 _ _ _ tree0_ok(2) get put, where own = "{0<..}"]) (auto simp: outcomes0_def tree0_ok(3))
  then show ?thesis using get put by blast
qed

theorem uvm_page_tree_put_ptes_async_correct_witness:
  "\<exists>T r h queue h'. tree_ok tree0 T {#r#} h \<and> uvm_page_tree_put_ptes_async tree0 r NV_OK h = (queue, h') \<and>
     T - set queue = needed_dirs 0 {#} h' \<and> (\<forall>d\<in>set queue. h' d = None)"
proof -
  obtain r used h1 where inv: "tree_ok tree0 ({0} \<union> set used) {#r#} h1" using get0[OF request0] by blast
  obtain queue h2 where put: "uvm_page_tree_put_ptes_async tree0 r NV_OK h1 = (queue, h2)" by (metis surj_pair)
  note uvm_page_tree_put_ptes_async_correct[OF tree0_ok(1) inv put refl]
  then have "{0} \<union> set used - set queue = needed_dirs 0 {#} h2 \<and> (\<forall>d\<in>set queue. h2 d = None)" by (simp add: tree0_def)
  then show ?thesis using inv put by blast
qed

lemma request1: "supported_page_size (pt_hal tree0) UVM_PAGE_SIZE_2M" "in_one_table (pt_hal tree0) UVM_PAGE_SIZE_2M 0 0x200000"
proof -
  show "supported_page_size (pt_hal tree0) UVM_PAGE_SIZE_2M" unfolding supported_page_size_def
    by (rule exI[of _ 21]) (simp add: tree0_def pascal_mmu_mode_hal_def page_sizes_pascal_def pg_sizes bit_simps)
  show "in_one_table (pt_hal tree0) UVM_PAGE_SIZE_2M 0 0x200000"
    by (simp add: in_one_table_def table_shift_def tree0_def pascal_mmu_mode_hal_def num_va_bits_pascal_def page_table_depth_pascal_def
        index_bits_pascal_def pg_sizes sum_levels del: One_nat_def)
qed

theorem uvm_page_tree_alloc_table_correct_witness:
  "\<exists>T single h d r h'. tree_ok tree0 T {#single#} h \<and>
     uvm_page_tree_alloc_table tree0 UVM_PAGE_SIZE_4K True (outcomes0 d) NV_OK single h = (NV_OK, Some r, h') \<and>
     range_entry_count r = 512 \<and> tree_ok tree0 (insert (range_table r) T) {#r, single#} h'"
proof -
  obtain s used h where inv: "tree_ok tree0 ({0} \<union> set used) {#s#} h" and fin: "finite (dom h)"
    and s: "s = walk_range (pt_hal tree0) UVM_PAGE_SIZE_2M 0 0x200000 (range_table s)"
    using get0[OF request1] by blast
  have "range_pg_size s = UVM_PAGE_SIZE_2M" by (subst s) (simp add: walk_range_def Let_def)
  then have lev: "dir_level (the (h (range_table s))) = page_table_depth (pt_hal tree0) UVM_PAGE_SIZE_2M"
    using tree_invD(9)[OF inv, of s] by (simp add: range_ok_def)
  obtain d where d: "Suc d \<notin> dom h" using fin infinite_UNIV_nat finite_subset[of "range Suc"] inj_Suc
    by (metis finite_imageD image_subset_iff rangeI subsetI)
  obtain status res h' where run: "uvm_page_tree_alloc_table tree0 UVM_PAGE_SIZE_4K True (outcomes0 d) NV_OK s h = (status, res, h')"
    by (metis prod_cases3)
  have k: "Suc (dir_level (the (h (range_table s)))) = page_table_depth (pt_hal tree0) UVM_PAGE_SIZE_4K"
    unfolding lev by (simp add: tree0_def pascal_mmu_mode_hal_def page_table_depth_pascal_def pg_sizes)
  have res: "\<exists>r. res = Some r"
    using run by (auto simp: uvm_page_tree_alloc_table_def allocate_directory_def outcomes0_def tree0_def phys_mem_allocate_def Let_def split: prod.splits)
  then obtain r where r: "res = Some r" by blast
  have "status = NV_OK \<and> range_entry_count r = 2 ^ index_bits (pt_hal tree0) (page_table_depth (pt_hal tree0) UVM_PAGE_SIZE_4K) UVM_PAGE_SIZE_4K \<and>
      tree_ok tree0 (insert (range_table r) ({0} \<union> set used)) {#r, s#} h'"
    using uvm_page_tree_alloc_table_correct[OF tree0_ok(1) inv _ refl k _ run] r d by (simp add: outcomes0_def domIff)
  moreover have "index_bits (pt_hal tree0) (page_table_depth (pt_hal tree0) UVM_PAGE_SIZE_4K) UVM_PAGE_SIZE_4K = 9"
    by (simp add: tree0_def pascal_mmu_mode_hal_def page_table_depth_pascal_def index_bits_pascal_def pg_sizes)
  ultimately show ?thesis using inv run r by (intro exI[of _ "{0} \<union> set used"] exI[of _ s] exI[of _ h] exI[of _ d] exI[of _ r] exI[of _ h']) simp
qed

end
