(* ===== verification/Range_Vec.thy ===== *)
theory Range_Vec
  imports Page_Tree_Ops "HOL-Library.Countable"
begin

text \<open>
  The range vectors of \<^verbatim>\<open>uvm_mmu.c\<close> (\<^verbatim>\<open>uvm_page_table_range_vec_*\<close>): the PTEs of a VA range of any size, as one \<^verbatim>\<open>uvm_page_table_range_t\<close> for each
  page table that translates a part of it. The theory models how the parts are computed, in 64-bit arithmetic, and how a vector is initialised, freed and split over the
  operations of \<open>Page_Tree\<close>. It shows that the parts are a partition of the range along the page tables, that a vector holds exactly the PTEs of
  its pages, and that a failed initialisation, like freeing, leaves the page tree as it was before. Several gets and puts are related to the tree that they started from by \<open>grown\<close>.
\<close>

section \<open>Model\<close>

subsection \<open>Helpers\<close>

definition ilog2 :: "NvU64 \<Rightarrow> nat" where "ilog2 w = last (filter (bit w) [0..<64])"

definition div_pow2_64 :: "NvU64 \<Rightarrow> NvU64 \<Rightarrow> NvU64" where
  "div_pow2_64 numerator denominator_pow2 = drop_bit (ilog2 denominator_pow2) numerator"

definition uvm_mmu_page_tree_entries :: "'d page_tree \<Rightarrow> nat \<Rightarrow> NvU32 \<Rightarrow> NvU64" where
  "uvm_mmu_page_tree_entries tree depth pg_size = push_bit (index_bits (pt_hal tree) depth pg_size) 1"

definition uvm_mmu_pde_coverage :: "'d page_tree \<Rightarrow> NvU32 \<Rightarrow> NvU64" where
  "uvm_mmu_pde_coverage tree pg_size =
     uvm_mmu_page_tree_entries tree (page_table_depth (pt_hal tree) pg_size) pg_size * ucast pg_size"

subsection \<open>Range vectors\<close>

text \<open>The ranges that are set are a prefix of the array, whose other entries are zero; the list holds this prefix.\<close>

record 'd range_vec =
  vec_start :: NvU64
  vec_size :: NvU64
  vec_page_size :: NvU32
  vec_ranges :: "'d table_range list"

definition range_vec_calc_range_count :: "'d page_tree \<Rightarrow> 'd range_vec \<Rightarrow> nat" where
  "range_vec_calc_range_count tree v =
     (let pde_coverage = uvm_mmu_pde_coverage tree (vec_page_size v);
          aligned_start = UVM_ALIGN_DOWN (vec_start v) pde_coverage;
          aligned_end = UVM_ALIGN_UP (vec_start v + vec_size v) pde_coverage
      in unat (div_pow2_64 (aligned_end - aligned_start) pde_coverage))"

definition range_vec_calc_range_start :: "'d page_tree \<Rightarrow> 'd range_vec \<Rightarrow> nat \<Rightarrow> NvU64" where
  "range_vec_calc_range_start tree v i =
     (let pde_coverage = uvm_mmu_pde_coverage tree (vec_page_size v);
          aligned_start = UVM_ALIGN_DOWN (vec_start v) pde_coverage
      in max (vec_start v) (aligned_start + of_nat i * pde_coverage))"

definition range_vec_calc_range_end :: "'d page_tree \<Rightarrow> 'd range_vec \<Rightarrow> nat \<Rightarrow> NvU64" where
  "range_vec_calc_range_end tree v i =
     (let pde_coverage = uvm_mmu_pde_coverage tree (vec_page_size v);
          start = range_vec_calc_range_start tree v i;
          max_range_end = UVM_ALIGN_UP (start + 1) pde_coverage
      in min (vec_start v + vec_size v) max_range_end)"

definition range_vec_calc_range_size :: "'d page_tree \<Rightarrow> 'd range_vec \<Rightarrow> nat \<Rightarrow> NvU64" where
  "range_vec_calc_range_size tree v i = range_vec_calc_range_end tree v i - range_vec_calc_range_start tree v i"

definition range_vec_calc_range_index :: "'d page_tree \<Rightarrow> 'd range_vec \<Rightarrow> NvU64 \<Rightarrow> nat" where
  "range_vec_calc_range_index tree v addr =
     (let pde_coverage = uvm_mmu_pde_coverage tree (vec_page_size v);
          aligned_start = UVM_ALIGN_DOWN (vec_start v) pde_coverage;
          aligned_addr = UVM_ALIGN_DOWN addr pde_coverage
      in unat (div_pow2_64 (aligned_addr - aligned_start) pde_coverage))"

text \<open>
  Putting the ranges of a vector, in their order, until one that is not set. \<open>put_status i\<close> is the outcome of the push of the \<open>i\<close>-th put.
\<close>

fun put_ranges :: "'d page_tree \<Rightarrow> (nat \<Rightarrow> NV_STATUS) \<Rightarrow> nat \<Rightarrow> 'd table_range list \<Rightarrow> 'd dir_heap \<Rightarrow> 'd dir_heap" where
  "put_ranges tree put_status i [] h = h"
| "put_ranges tree put_status i (r # rs) h =
     (if range_entry_count r = 0 then h
      else put_ranges tree put_status (Suc i) rs (snd (uvm_page_tree_put_ptes_async tree r (put_status i) h)))"

definition uvm_page_table_range_vec_deinit ::
    "'d page_tree \<Rightarrow> (nat \<Rightarrow> NV_STATUS) \<Rightarrow> 'd range_vec \<Rightarrow> 'd dir_heap \<Rightarrow> 'd range_vec \<times> 'd dir_heap" where
  "uvm_page_table_range_vec_deinit tree put_status v h =
     (\<lparr>vec_start = 0, vec_size = 0, vec_page_size = 0, vec_ranges = []\<rparr>, put_ranges tree put_status 0 (vec_ranges v) h)"

text \<open>
  Getting the ranges: for the \<open>i\<close>-th one, \<open>outcomes i\<close>, \<open>others i\<close> and \<open>gpu_status i\<close> are the outcomes and the interference of getting
  its PTEs. A range that was set although its PDEs could not be written is in the vector.
\<close>

fun get_ranges ::
    "'d page_tree \<Rightarrow> 'd range_vec \<Rightarrow> bool \<Rightarrow> (nat \<Rightarrow> nat \<Rightarrow> 'd dir_outcome) \<Rightarrow> (nat \<Rightarrow> nat \<Rightarrow> 'd dir_heap \<Rightarrow> 'd dir_heap) \<Rightarrow>
     (nat \<Rightarrow> gpu_outcome) \<Rightarrow> nat list \<Rightarrow> 'd dir_heap \<Rightarrow> (NV_STATUS \<times> 'd table_range list \<times> 'd dir_heap) option" where
  "get_ranges tree v evict outcomes others gpu_status [] h = Some (NV_OK, [], h)"
| "get_ranges tree v evict outcomes others gpu_status (i # is) h =
     (case uvm_page_tree_get_ptes_async tree (vec_page_size v) (range_vec_calc_range_start tree v i)
             (range_vec_calc_range_size tree v i) evict (outcomes i) (others i) (gpu_status i) h of
        None \<Rightarrow> None
      | Some (status, None, h) \<Rightarrow> Some (status, [], h)
      | Some (status, Some (r, used), h) \<Rightarrow>
          if status \<noteq> NV_OK then Some (status, [r], h)
          else map_option (\<lambda>(status, rs, h). (status, r # rs, h)) (get_ranges tree v evict outcomes others gpu_status is h))"

definition uvm_page_table_range_vec_init ::
    "'d page_tree \<Rightarrow> NvU64 \<Rightarrow> NvU64 \<Rightarrow> NvU32 \<Rightarrow> bool \<Rightarrow> bool \<Rightarrow> (nat \<Rightarrow> nat \<Rightarrow> 'd dir_outcome) \<Rightarrow> (nat \<Rightarrow> nat \<Rightarrow> 'd dir_heap \<Rightarrow> 'd dir_heap) \<Rightarrow>
     (nat \<Rightarrow> gpu_outcome) \<Rightarrow> NV_STATUS \<Rightarrow> (nat \<Rightarrow> NV_STATUS) \<Rightarrow> 'd dir_heap \<Rightarrow> (NV_STATUS \<times> 'd range_vec \<times> 'd dir_heap) option" where
  "uvm_page_table_range_vec_init tree start n pg_size evict array_ok outcomes others gpu_status wait_status put_status h =
     (let v = \<lparr>vec_start = start, vec_size = n, vec_page_size = pg_size, vec_ranges = []\<rparr>
      in if \<not> array_ok
         then (let (v, h) = uvm_page_table_range_vec_deinit tree put_status v h in Some (NV_ERR_NO_MEMORY, v, h))
         else map_option (\<lambda>(status, rs, h).
           let v = v\<lparr>vec_ranges := rs\<rparr>;
               status = (if status = NV_OK then wait_status else status)
           in if status \<noteq> NV_OK
              then (let (v, h) = uvm_page_table_range_vec_deinit tree put_status v h in (status, v, h))
              else (status, v, h))
           (get_ranges tree v evict outcomes others gpu_status [0..<range_vec_calc_range_count tree v] h))"

text \<open>\<open>struct_ok\<close> is the outcome of allocating the vector itself.\<close>

definition uvm_page_table_range_vec_create ::
    "'d page_tree \<Rightarrow> NvU64 \<Rightarrow> NvU64 \<Rightarrow> NvU32 \<Rightarrow> bool \<Rightarrow> bool \<Rightarrow> bool \<Rightarrow> (nat \<Rightarrow> nat \<Rightarrow> 'd dir_outcome) \<Rightarrow> (nat \<Rightarrow> nat \<Rightarrow> 'd dir_heap \<Rightarrow> 'd dir_heap) \<Rightarrow>
     (nat \<Rightarrow> gpu_outcome) \<Rightarrow> NV_STATUS \<Rightarrow> (nat \<Rightarrow> NV_STATUS) \<Rightarrow> 'd dir_heap \<Rightarrow> (NV_STATUS \<times> 'd range_vec option \<times> 'd dir_heap) option" where
  "uvm_page_table_range_vec_create tree start n pg_size evict struct_ok array_ok outcomes others gpu_status wait_status put_status h =
     (if \<not> struct_ok then Some (NV_ERR_NO_MEMORY, None, h)
      else map_option (\<lambda>(status, v, h). (status, if status \<noteq> NV_OK then None else Some v, h))
        (uvm_page_table_range_vec_init tree start n pg_size evict array_ok outcomes others gpu_status wait_status put_status h))"

definition uvm_page_table_range_vec_destroy :: "'d page_tree \<Rightarrow> (nat \<Rightarrow> NV_STATUS) \<Rightarrow> 'd range_vec \<Rightarrow> 'd dir_heap \<Rightarrow> 'd dir_heap" where
  "uvm_page_table_range_vec_destroy tree put_status v h = snd (uvm_page_table_range_vec_deinit tree put_status v h)"

text \<open>Splitting a vector: the array of the upper part may not be available. Shrinking the old array is not visible.\<close>

definition uvm_page_table_range_vec_split_upper ::
    "'d page_tree \<Rightarrow> NvU64 \<Rightarrow> bool \<Rightarrow> 'd range_vec \<Rightarrow> 'd dir_heap \<Rightarrow> NV_STATUS \<times> 'd range_vec \<times> 'd range_vec option \<times> 'd dir_heap" where
  "uvm_page_table_range_vec_split_upper tree new_end array_ok v h =
     (let pde_coverage = uvm_mmu_pde_coverage tree (vec_page_size v);
          new_start = new_end + 1;
          range_base_va = UVM_ALIGN_DOWN new_start pde_coverage;
          split_index = range_vec_calc_range_index tree v new_start;
          r = vec_ranges v ! split_index;
          num_remaining_pages = unat ((if vec_start v > range_base_va then new_start - vec_start v else new_start - range_base_va) div ucast (vec_page_size v));
          new_size = vec_size v - (new_start - vec_start v)
      in if \<not> array_ok then (NV_ERR_NO_MEMORY, v, None, h)
         else if num_remaining_pages \<noteq> 0 then
           (let (upper, h) = uvm_page_table_range_get_upper r (range_entry_count r - num_remaining_pages) h;
                (r, h) = uvm_page_table_range_shrink tree r num_remaining_pages NV_OK h
            in (NV_OK, v\<lparr>vec_size := vec_size v - new_size, vec_ranges := take split_index (vec_ranges v) @ [r]\<rparr>,
                Some (v\<lparr>vec_start := new_start, vec_size := new_size, vec_ranges := upper # drop (Suc split_index) (vec_ranges v)\<rparr>), h))
         else
           (NV_OK, v\<lparr>vec_size := vec_size v - new_size, vec_ranges := take split_index (vec_ranges v)\<rparr>,
            Some (v\<lparr>vec_start := new_start, vec_size := new_size, vec_ranges := drop split_index (vec_ranges v)\<rparr>), h))"

section \<open>The parts of a vector\<close>

lemma filter_eq_upt: "filter ((=) k) [0..<m] = (if k < m then [k] else [])"
  by (induction m) auto

lemma ilog2_pow2: "k < 64 \<Longrightarrow> ilog2 (2 ^ k) = k"
proof -
  assume "k < 64"
  then have "filter (bit (2 ^ k :: NvU64)) [0..<64] = filter ((=) k) [0..<64]"
    by (intro filter_cong) (auto simp: bit_simps)
  with \<open>k < 64\<close> show ?thesis by (simp add: ilog2_def filter_eq_upt)
qed

lemma unat_ALIGN_DOWN: "unat (UVM_ALIGN_DOWN x (2 ^ k)) = unat x div 2 ^ k * 2 ^ k"
  by (simp add: UVM_ALIGN_DOWN_def pow2_minus_one unat_and_not_mask)

lemma unat_ALIGN_UP:
  fixes x :: NvU64
  assumes "k < 64" "unat x + 2 ^ k \<le> 2 ^ 64"
  shows "unat (UVM_ALIGN_UP x (2 ^ k)) = (unat x + (2 ^ k - 1)) div 2 ^ k * 2 ^ k"
proof -
  have e: "x + 2 ^ k - 1 = x + mask k" by (metis add_diff_eq pow2_minus_one)
  have "unat (mask k :: NvU64) = 2 ^ k - 1" using assms(1) by (simp add: unat_minus_one unat_pow2 flip: pow2_minus_one)
  moreover have "unat x + (2 ^ k - 1) < 2 ^ 64" 
  proof -
    have "(1::nat) \<le> 2 ^ k" by simp
    then show ?thesis using assms(2) by linarith
  qed
  ultimately have "unat (x + mask k) = unat x + (2 ^ k - 1)" by (simp add: unat_plus_if')
  then show ?thesis by (simp add: UVM_ALIGN_UP_def e pow2_minus_one unat_and_not_mask)
qed

lemma unat_div_pow2_64: "k < 64 \<Longrightarrow> unat (div_pow2_64 x (2 ^ k)) = unat x div 2 ^ k"
  unfolding div_pow2_64_def ilog2_pow2 unat_drop_bit_eq by (rule drop_bit_eq_div)

text \<open>The requests for a vector: page aligned, not empty, and addressable by the GPU.\<close>

definition vec_ok :: "'d page_tree \<Rightarrow> 'd range_vec \<Rightarrow> bool" where
  "vec_ok tree v \<longleftrightarrow>
     supported_page_size (pt_hal tree) (vec_page_size v) \<and> vec_size v \<noteq> 0 \<and>
     unat (vec_start v) + unat (vec_size v) \<le> 2 ^ num_va_bits (pt_hal tree) \<and>
     unat (vec_start v) mod unat (vec_page_size v) = 0 \<and> unat (vec_size v) mod unat (vec_page_size v) = 0"

text \<open>The bits of an address within the coverage of a table, and the first table of a vector.\<close>

abbreviation vec_shift :: "'d page_tree \<Rightarrow> 'd range_vec \<Rightarrow> nat" where
  "vec_shift tree v \<equiv> table_shift (pt_hal tree) (vec_page_size v) (page_table_depth (pt_hal tree) (vec_page_size v))"

abbreviation vec_end :: "'d range_vec \<Rightarrow> nat" where "vec_end v \<equiv> unat (vec_start v) + unat (vec_size v)"

lemma vec_geometry:
  assumes geo: "page_geometry (pt_hal tree)" and ok: "vec_ok tree v"
  shows "vec_shift tree v < 60" "uvm_mmu_pde_coverage tree (vec_page_size v) = 2 ^ vec_shift tree v"
    "unat (vec_page_size v) dvd 2 ^ vec_shift tree v" "vec_end v + 2 ^ vec_shift tree v \<le> 2 ^ 61"
proof -
  let ?hal = "pt_hal tree" and ?pg = "vec_page_size v" and ?D = "page_table_depth (pt_hal tree) (vec_page_size v)"
  have pg: "supported_page_size ?hal ?pg" and va: "vec_end v \<le> 2 ^ num_va_bits ?hal" using ok by (simp_all add: vec_ok_def)
  define s where "s = table_shift ?hal ?pg (Suc ?D)"
  define b where "b = index_bits ?hal ?D ?pg"
  have P: "unat ?pg = 2 ^ s" and sum: "(\<Sum>k<Suc ?D. index_bits ?hal k ?pg) \<le> num_va_bits ?hal"
    using page_geometry.page_shift[OF geo pg] by (simp_all add: s_def)
  have K: "vec_shift tree v = s + b" using sum by (simp add: s_def b_def table_shift_def)
  show lt: "vec_shift tree v < 60" using page_geometry.va_bits[OF geo] by (simp add: table_shift_def)
  show "unat ?pg dvd 2 ^ vec_shift tree v" by (simp add: P K le_imp_power_dvd)
  have "(ucast ?pg :: NvU64) = word_of_nat (unat ?pg)" by simp
  also have "\<dots> = 2 ^ s" by (simp add: P)
  finally have "(ucast ?pg :: NvU64) = 2 ^ s" .
  then show "uvm_mmu_pde_coverage tree ?pg = 2 ^ vec_shift tree v"
    by (simp add: uvm_mmu_pde_coverage_def uvm_mmu_page_tree_entries_def K power_add mult.commute push_bit_eq_mult b_def)
  have "(2 :: nat) ^ num_va_bits ?hal \<le> 2 ^ 60" "(2 :: nat) ^ vec_shift tree v \<le> 2 ^ 60"
    using page_geometry.va_bits[OF geo] lt by (intro power_increasing; simp)+
  then show "vec_end v + 2 ^ vec_shift tree v \<le> 2 ^ 61" using va by simp
qed

text \<open>The \<open>i\<close>-th part of a vector, as natural numbers, for tables that cover \<open>C\<close> bytes.\<close>

abbreviation part_start :: "nat \<Rightarrow> 'd range_vec \<Rightarrow> nat \<Rightarrow> nat" where
  "part_start C v i \<equiv> max (unat (vec_start v)) ((unat (vec_start v) div C + i) * C)"

abbreviation part_end :: "nat \<Rightarrow> 'd range_vec \<Rightarrow> nat \<Rightarrow> nat" where
  "part_end C v i \<equiv> min (vec_end v) ((unat (vec_start v) div C + Suc i) * C)"

lemma vec_end_word:
  assumes "page_geometry (pt_hal tree)" "vec_ok tree v"
  shows "unat (vec_start v + vec_size v) = vec_end v"
proof -
  have "vec_end v < 2 ^ 64" using vec_geometry(4)[OF assms] by (simp add: order.strict_trans1[of _ "2 ^ 61"])
  then show ?thesis by (simp add: unat_plus_if')
qed

lemma vec_size_pos: "vec_ok tree v \<Longrightarrow> unat (vec_start v) < vec_end v"
  by (simp add: vec_ok_def unat_gt_0)

lemma vec_count:
  assumes geo: "page_geometry (pt_hal tree)" and ok: "vec_ok tree v" and C: "C = 2 ^ vec_shift tree v"
  shows "range_vec_calc_range_count tree v = (vec_end v + (C - 1)) div C - unat (vec_start v) div C"
proof -
  let ?k = "vec_shift tree v"
  note G = vec_geometry[OF geo ok] and E = vec_end_word[OF geo ok]
  let ?a = "UVM_ALIGN_DOWN (vec_start v) (2 ^ ?k)" and ?z = "UVM_ALIGN_UP (vec_start v + vec_size v) (2 ^ ?k)"
  have a: "unat ?a = unat (vec_start v) div C * C" by (simp add: unat_ALIGN_DOWN C)
  have z: "unat ?z = (vec_end v + (C - 1)) div C * C" using G(1,4) E by (subst unat_ALIGN_UP) (simp_all add: C)
  have "unat (vec_start v) \<le> vec_end v + (C - 1)" by simp
  then have le: "unat (vec_start v) div C \<le> (vec_end v + (C - 1)) div C" by (rule div_le_mono)
  then have "?a \<le> ?z" unfolding word_le_nat_alt a z by (rule mult_le_mono1)
  then have "unat (?z - ?a) = ((vec_end v + (C - 1)) div C - unat (vec_start v) div C) * C"
    by (simp add: unat_sub a z diff_mult_distrib)
  then show ?thesis using G(1,2) C by (simp add: range_vec_calc_range_count_def Let_def unat_div_pow2_64)
qed

text \<open>The parts of a vector: none is empty, and each but the last ends where the next one starts.\<close>

lemma part_bounds:
  fixes S E C :: nat
  assumes "0 < C" "S < E" "n = (E + (C - 1)) div C - S div C"
  shows "0 < n" "(S div C + n) * C \<ge> E" "\<And>i. i < n \<Longrightarrow> (S div C + i) * C < E"
proof -
  have z: "E \<le> (E + (C - 1)) div C * C"
  proof -
    have "(E + (C - 1)) mod C < C" using assms(1) by simp
    then show ?thesis using div_mult_mod_eq[of "E + (C - 1)" C] by linarith
  qed
  have "S div C * C < E" using assms(2) by (metis div_times_less_eq_dividend order.strict_trans1)
  then have lt: "S div C < (E + (C - 1)) div C" using z assms(1) by (metis less_le_trans mult_less_cancel2)
  then show "0 < n" and "(S div C + n) * C \<ge> E" using assms(3) z by simp_all
  show "(S div C + i) * C < E" if "i < n" for i
  proof -
    have "Suc (S div C + i) \<le> (E + (C - 1)) div C" using that assms(3) by linarith
    then have "Suc (S div C + i) * C \<le> (E + (C - 1)) div C * C" by (rule mult_le_mono1)
    also have "\<dots> \<le> E + (C - 1)" by simp
    finally show ?thesis using assms(1) by simp
  qed
qed

lemma part_facts:
  assumes geo: "page_geometry (pt_hal tree)" and ok: "vec_ok tree v" and C: "C = 2 ^ vec_shift tree v"
    and n: "n = range_vec_calc_range_count tree v" and i: "i < n"
  shows "part_start C v i < part_end C v i" "part_end C v i = (if Suc i = n then vec_end v else part_start C v (Suc i))"
    and "part_start C v i div C = unat (vec_start v) div C + i" "(part_end C v i - 1) div C = unat (vec_start v) div C + i"
proof -
  let ?S = "unat (vec_start v)" and ?a = "unat (vec_start v) div C"
  have C0: "0 < C" by (simp add: C)
  note B = part_bounds[OF C0 vec_size_pos[OF ok] trans[OF n vec_count[OF geo ok C]]]
  have up: "?S < (?a + Suc j) * C" for j
  proof -
    have "?S < ?a * C + C" using C0 by (metis add_less_cancel_left div_mult_mod_eq mod_less_divisor)
    then show ?thesis by (simp add: algebra_simps)
  qed
  have step: "(?a + i) * C < (?a + Suc i) * C" using C0 by simp
  show lt: "part_start C v i < part_end C v i" using vec_size_pos[OF ok] B(3)[OF i] up[of i] step by simp
  show "part_end C v i = (if Suc i = n then vec_end v else part_start C v (Suc i))"
  proof (cases "Suc i = n")
    case True
    then show ?thesis using B(2) by simp
  next
    case False
    then have "(?a + Suc i) * C < vec_end v" using B(3)[of "Suc i"] i by simp
    then show ?thesis using False up[of i] by simp
  qed
  have div: "x div C = ?a + i" if "(?a + i) * C \<le> x" "x < (?a + Suc i) * C" for x
    using that by (intro div_nat_eqI) (simp_all add: mult.commute)
  show "part_start C v i div C = ?a + i" by (rule div) (use lt in simp_all)
  show "(part_end C v i - 1) div C = ?a + i" by (rule div) (use lt in auto)
qed

lemma unat_range_start:
  assumes geo: "page_geometry (pt_hal tree)" and ok: "vec_ok tree v" and C: "C = 2 ^ vec_shift tree v"
    and i: "i < range_vec_calc_range_count tree v"
  shows "unat (range_vec_calc_range_start tree v i) = part_start C v i"
proof -
  let ?k = "vec_shift tree v"
  note G = vec_geometry[OF geo ok]
  let ?a = "UVM_ALIGN_DOWN (vec_start v) (2 ^ ?k)"
  have a: "unat ?a = unat (vec_start v) div C * C" by (simp add: unat_ALIGN_DOWN C)
  have "(unat (vec_start v) div C + i) * C < vec_end v"
    using part_facts(1)[OF geo ok C refl i] by simp
  then have lt: "(unat (vec_start v) div C + i) * C < 2 ^ 64" using G(4) by simp
  have "?a + of_nat i * 2 ^ ?k = of_nat ((unat (vec_start v) div C + i) * C)"
  proof -
    have "?a = of_nat (unat (vec_start v) div C * C)" by (simp flip: a)
    then show ?thesis by (simp add: C algebra_simps)
  qed
  then have "unat (?a + of_nat i * 2 ^ ?k) = (unat (vec_start v) div C + i) * C" using lt by (simp only: unat_of_nat) simp
  then show ?thesis using G(2) by (simp add: range_vec_calc_range_start_def Let_def max_def word_le_nat_alt)
qed

lemma div_up: "0 < C \<Longrightarrow> (x + 1 + (C - 1)) div C * C = (x div C + 1) * C" for x C :: nat
proof -
  assume C: "0 < C"
  then have "x + 1 + (C - 1) = x + C" by simp
  with C show ?thesis by (simp only: div_add_self2[of C x, OF less_imp_neq[OF C, symmetric]])
qed

lemma unat_range_end:
  assumes geo: "page_geometry (pt_hal tree)" and ok: "vec_ok tree v" and C: "C = 2 ^ vec_shift tree v"
    and i: "i < range_vec_calc_range_count tree v"
  shows "unat (range_vec_calc_range_end tree v i) = part_end C v i"
    "unat (range_vec_calc_range_size tree v i) = part_end C v i - part_start C v i"
proof -
  let ?k = "vec_shift tree v" and ?s = "range_vec_calc_range_start tree v i"
  note G = vec_geometry[OF geo ok] and E = vec_end_word[OF geo ok] and S = unat_range_start[OF geo ok C i]
    and P = part_facts[OF geo ok C refl i]
  have C0: "0 < C" by (simp add: C)
  have lt: "unat ?s < vec_end v" using P(1) S by simp
  then have "unat ?s + 1 < 2 ^ 64" using G(4) by simp
  then have s1: "unat (?s + 1) = unat ?s + 1" by (simp add: unat_plus_if')
  have "unat (UVM_ALIGN_UP (?s + 1) (2 ^ ?k)) = (unat (?s + 1) + (2 ^ ?k - 1)) div 2 ^ ?k * 2 ^ ?k"
    by (rule unat_ALIGN_UP) (use G(1,4) lt s1 in simp_all)
  also have "\<dots> = (unat ?s div C + 1) * C" unfolding s1 C[symmetric] by (rule div_up[OF C0])
  also have "\<dots> = (unat (vec_start v) div C + Suc i) * C" using P(3) S by simp
  finally have "unat (UVM_ALIGN_UP (?s + 1) (2 ^ ?k)) = (unat (vec_start v) div C + Suc i) * C" .
  then show e: "unat (range_vec_calc_range_end tree v i) = part_end C v i"
    using G(2) E by (simp add: range_vec_calc_range_end_def Let_def min_def word_le_nat_alt)
  then have "?s \<le> range_vec_calc_range_end tree v i" using P(1) S by (simp add: word_le_nat_alt)
  then show "unat (range_vec_calc_range_size tree v i) = part_end C v i - part_start C v i"
    by (simp only: range_vec_calc_range_size_def unat_sub e S)
qed

lemma range_index:
  assumes geo: "page_geometry (pt_hal tree)" and ok: "vec_ok tree v" and C: "C = 2 ^ vec_shift tree v"
    and addr: "vec_start v \<le> addr"
  shows "range_vec_calc_range_index tree v addr = unat addr div C - unat (vec_start v) div C"
proof -
  let ?k = "vec_shift tree v"
  note G = vec_geometry[OF geo ok]
  have le: "unat (vec_start v) div C \<le> unat addr div C" using addr by (simp add: word_le_nat_alt div_le_mono)
  have a: "unat (UVM_ALIGN_DOWN x (2 ^ ?k)) = unat x div C * C" for x :: NvU64 by (simp add: unat_ALIGN_DOWN C)
  have "UVM_ALIGN_DOWN (vec_start v) (2 ^ ?k) \<le> UVM_ALIGN_DOWN addr (2 ^ ?k)"
    unfolding word_le_nat_alt a using le by (rule mult_le_mono1)
  then have "unat (UVM_ALIGN_DOWN addr (2 ^ ?k) - UVM_ALIGN_DOWN (vec_start v) (2 ^ ?k)) = (unat addr div C - unat (vec_start v) div C) * C"
    by (simp add: unat_sub a diff_mult_distrib)
  then show ?thesis using G(1,2) C by (simp add: range_vec_calc_range_index_def Let_def unat_div_pow2_64)
qed

text \<open>The request of the \<open>i\<close>-th part is one for pages of a single table.\<close>

lemma part_request:
  assumes geo: "page_geometry (pt_hal tree)" and ok: "vec_ok tree v" and i: "i < range_vec_calc_range_count tree v"
  defines "s \<equiv> range_vec_calc_range_start tree v i" and "n \<equiv> range_vec_calc_range_size tree v i"
  shows "in_one_table (pt_hal tree) (vec_page_size v) s n" "unat s mod unat (vec_page_size v) = 0" "unat n mod unat (vec_page_size v) = 0"
proof -
  define C :: nat where "C = 2 ^ vec_shift tree v"
  let ?p = "unat (vec_page_size v)"
  note G = vec_geometry[OF geo ok] and P = part_facts[OF geo ok C_def refl i]
  have s: "unat s = part_start C v i" and n: "unat n = part_end C v i - part_start C v i"
    using unat_range_start[OF geo ok C_def i] unat_range_end(2)[OF geo ok C_def i] by (simp_all add: s_def n_def)
  have dvd: "?p dvd unat (vec_start v)" "?p dvd vec_end v" "?p dvd C"
    using ok G(3) by (auto simp: vec_ok_def C_def mod_0_imp_dvd)
  then have "?p dvd part_start C v i" "?p dvd part_end C v i" by (simp_all add: max_def min_def)
  then show "unat s mod ?p = 0" "unat n mod ?p = 0" unfolding s n by (simp_all add: dvd_diff_nat)
  have sum: "unat s + (unat n - 1) = part_end C v i - 1" and n0: "unat n \<noteq> 0" using P(1) s n by linarith+
  have nz: "n \<noteq> 0" using n0 by auto
  have n1: "unat (n - 1) = unat n - 1" using nz by (simp add: unat_minus_one)
  have "part_end C v i \<le> vec_end v" by simp
  then have lt: "unat s + unat (n - 1) < 2 ^ 64" unfolding n1 sum using G(4) by (simp add: less_imp_diff_less)
  have e: "s + n - 1 = s + (n - 1)" by simp
  have z: "unat (s + n - 1) = part_end C v i - 1" unfolding e sum[symmetric] n1[symmetric] using lt by (simp add: unat_plus_if')
  have drop: "drop_bit (vec_shift tree v) s = drop_bit (vec_shift tree v) (s + n - 1)"
  proof -
    have d: "unat (drop_bit (vec_shift tree v) x) = unat x div C" for x :: NvU64
      unfolding unat_drop_bit_eq C_def by (rule drop_bit_eq_div)
    show ?thesis unfolding word_unat_eq_iff d z s P(3,4) ..
  qed
  have le: "s \<le> s + n - 1" unfolding word_le_nat_alt z s using P(1) by linarith
  show "in_one_table (pt_hal tree) (vec_page_size v) s n" unfolding in_one_table_def using nz le drop by blast
qed

text \<open>C24. The parts that \<^verbatim>\<open>range_vec_calc_range_*\<close> compute for a range vector, in 64-bit arithmetic: there is at least one, the first starts and the last ends where the vector does, each
  other one ends where the next starts, no part is empty, each is made of whole pages translated by one page table, and the index computed for an address of the vector is the one of the part that has it.
\<close>

theorem range_vec_partition:
  assumes hal: "gpu_mmu_hal (pt_hal tree)" and ok: "vec_ok tree v"
    and n: "n = range_vec_calc_range_count tree v"
  shows "0 < n \<and> range_vec_calc_range_start tree v 0 = vec_start v \<and>
    (\<forall>i<n. range_vec_calc_range_start tree v i < range_vec_calc_range_end tree v i \<and>
       range_vec_calc_range_end tree v i = (if Suc i = n then vec_start v + vec_size v else range_vec_calc_range_start tree v (Suc i)) \<and>
       in_one_table (pt_hal tree) (vec_page_size v) (range_vec_calc_range_start tree v i) (range_vec_calc_range_size tree v i) \<and>
       unat (range_vec_calc_range_start tree v i) mod unat (vec_page_size v) = 0 \<and>
       unat (range_vec_calc_range_size tree v i) mod unat (vec_page_size v) = 0) \<and>
    (\<forall>addr. vec_start v \<le> addr \<and> addr < vec_start v + vec_size v \<longrightarrow>
       (let i = range_vec_calc_range_index tree v addr
        in i < n \<and> range_vec_calc_range_start tree v i \<le> addr \<and> addr < range_vec_calc_range_end tree v i))"
proof -
  define C :: nat where "C = 2 ^ vec_shift tree v"
  have geo: "page_geometry (pt_hal tree)" by (rule gpu_mmu_hal_geometry[OF hal])
  have C0: "0 < C" by (simp add: C_def)
  note S = unat_range_start[OF geo ok C_def, folded n] and E = unat_range_end(1)[OF geo ok C_def, folded n]
    and P = part_facts[OF geo ok C_def n] and R = part_request[OF geo ok, folded n] and Z = vec_end_word[OF geo ok]
  note B = part_bounds[OF C0 vec_size_pos[OF ok] trans[OF n vec_count[OF geo ok C_def]]]
  have "range_vec_calc_range_start tree v 0 = vec_start v"
    by (subst word_unat_eq_iff) (simp add: S[OF B(1)])
  moreover have "range_vec_calc_range_start tree v i < range_vec_calc_range_end tree v i" if "i < n" for i
    using P(1)[OF that] by (simp add: word_less_nat_alt S[OF that] E[OF that])
  moreover have "range_vec_calc_range_end tree v i = (if Suc i = n then vec_start v + vec_size v else range_vec_calc_range_start tree v (Suc i))"
    if "i < n" for i
    using P(2)[OF that] that by (subst word_unat_eq_iff) (simp only: E[OF that] Z S[of "Suc i"] if_distrib[of unat] Suc_lessI cong: if_cong)
  moreover have "i < n \<and> range_vec_calc_range_start tree v i \<le> addr \<and> addr < range_vec_calc_range_end tree v i"
    if addr: "vec_start v \<le> addr" "addr < vec_start v + vec_size v" and i: "i = range_vec_calc_range_index tree v addr" for addr i
  proof -
    have le: "unat (vec_start v) \<le> unat addr" and lt: "unat addr < vec_end v"
      using addr Z by (simp_all add: word_le_nat_alt word_less_nat_alt)
    have a: "unat addr div C = unat (vec_start v) div C + i"
      using range_index[OF geo ok C_def addr(1)] i div_le_mono[OF le, of C] by simp
    have "unat addr div C * C \<le> unat addr" "unat addr < unat addr div C * C + C"
      using dividend_less_div_times[OF C0, of "unat addr"] by (simp_all add: add.commute)
    then have b: "(unat (vec_start v) div C + i) * C \<le> unat addr" "unat addr < (unat (vec_start v) div C + Suc i) * C"
      unfolding a by simp_all
    then have "(unat (vec_start v) div C + i) * C < (unat (vec_start v) div C + n) * C" using lt B(2) by linarith
    then have "i < n" using C0 by simp
    then show ?thesis using le lt b by (simp add: S E word_le_nat_alt word_less_nat_alt)
  qed
  ultimately show ?thesis using B(1) R unfolding Let_def by blast
qed

section \<open>Growing and shrinking a tree\<close>

text \<open>
  The tree \<open>T'\<close> has grown from \<open>T\<close>: without the new directories, which were free in \<open>h\<close>, its directories are as they were, and nothing else has changed.
\<close>

definition grown ::
    "'d page_tree \<Rightarrow> 'd set \<Rightarrow> 'd dir_heap \<Rightarrow> 'd set \<Rightarrow> 'd table_range multiset \<Rightarrow> 'd dir_heap \<Rightarrow> bool" where
  "grown tree T h T' held' h' \<longleftrightarrow>
     tree_ok tree T' held' h' \<and> T \<subseteq> T' \<and>
     (\<forall>x\<in>T. dir_without (-T) (dir_at h' x) = dir_without (-T) (dir_at h x)) \<and>
     (\<forall>x. x \<notin> T' \<longrightarrow> h' x = h x) \<and> (\<forall>x\<in>T' - T. h x = None)"

lemma dir_without_without: "dir_without A (dir_without B x) = dir_without (A \<union> B) x"
  by (auto simp: dir_without_def fun_eq_iff split: option.split)

lemma dir_without_refs [simp]: "dir_without A (x\<lparr>dir_refs := n\<rparr>) = dir_without A x"
  by (simp add: dir_without_def)

lemma dir_without_own:
  assumes "tree_inv hal leaf root T held X h" "x \<in> T"
  shows "dir_without (-T) (dir_at h x) = (dir_at h x)\<lparr>dir_refs := 0\<rparr>"
proof -
  have "(case dir_entries (dir_at h x) e of None \<Rightarrow> None | Some c \<Rightarrow> if c \<in> -T then None else Some c) = dir_entries (dir_at h x) e" for e
    using tree_invD(6)[OF assms] by (auto simp: dir_ok_def child_ok_def split: option.split)
  then show ?thesis by (simp add: dir_without_def)
qed

lemma grown_refl: "tree_ok tree T held h \<Longrightarrow> grown tree T h T held h"
  by (simp add: grown_def)

lemma grown_held: "grown tree T h T' held' h' \<Longrightarrow> tree_ok tree T' held'' h' \<Longrightarrow> grown tree T h T' held'' h'"
  by (simp add: grown_def)

lemma grown_parent: "grown tree T h T' held' h' \<Longrightarrow> x \<in> T \<Longrightarrow> dir_parent (dir_at h' x) = dir_parent (dir_at h x)"
proof -
  assume "grown tree T h T' held' h'" "x \<in> T"
  then have "dir_parent (dir_without (-T) (dir_at h' x)) = dir_parent (dir_without (-T) (dir_at h x))" by (simp add: grown_def)
  then show ?thesis by (simp add: dir_without_def)
qed

lemma grown_again:
  assumes g: "grown tree T h T' held' h'" and ok: "tree_ok tree T'' held'' h''" and sub: "T \<subseteq> T''"
    and without: "\<And>x. x \<in> T \<Longrightarrow> dir_without (-T) (dir_at h'' x) = dir_without (-T) (dir_at h' x)"
    and off: "\<And>x. x \<notin> T'' \<Longrightarrow> h'' x = (if x \<in> T' then None else h' x)" and new: "\<And>x. x \<in> T'' - T' \<Longrightarrow> h' x = None"
  shows "grown tree T h T'' held'' h''"
proof -
  have G: "T \<subseteq> T'" "\<And>x. x \<in> T \<Longrightarrow> dir_without (-T) (dir_at h' x) = dir_without (-T) (dir_at h x)"
    "\<And>x. x \<notin> T' \<Longrightarrow> h' x = h x" "\<And>x. x \<in> T' \<Longrightarrow> x \<notin> T \<Longrightarrow> h x = None"
    using g by (auto simp: grown_def)
  have "h x = None" if "x \<in> T'' - T" for x using that new[of x] G(3)[of x] G(4)[of x] by (cases "x \<in> T'") auto
  moreover have "h'' x = h x" if x: "x \<notin> T''" for x
  proof -
    have "x \<notin> T" using x sub by blast
    then show ?thesis using off[OF x] G(3)[of x] G(4)[of x] by (cases "x \<in> T'") simp_all
  qed
  ultimately show ?thesis using ok sub without G(2) by (simp add: grown_def)
qed

lemma grown_get:
  assumes hal: "gpu_mmu_hal (pt_hal tree)"
    and pages: "supported_page_size (pt_hal tree) pg_size" "in_one_table (pt_hal tree) pg_size start n"
    and fresh: "\<And>i j d. host_outcome (outcomes i) = Some d \<Longrightarrow> host_outcome (outcomes j) = Some d \<Longrightarrow> i = j"
    and own: "\<And>i d. host_outcome (outcomes i) = Some d \<Longrightarrow> d \<in> own" "\<And>d. d \<in> own \<Longrightarrow> h' d = None"
    and inv: "tree_ok tree T' held' h'"
  obtains h'' where
    "uvm_page_tree_get_ptes_async tree pg_size start n evict outcomes (\<lambda>_ h. h) gpu_status h' = Some (NV_ERR_NO_MEMORY, None, h'')"
    "h'' = h'"
  | r used h'' where
    "uvm_page_tree_get_ptes_async tree pg_size start n evict outcomes (\<lambda>_ h. h) gpu_status h' =
       Some (get_ptes_status tree pg_size gpu_status used, Some (r, used), h'')"
    "\<And>S g. grown tree S g T' held' h' \<Longrightarrow> grown tree S g (T' \<union> set used) (add_mset r held') h''" "set used \<subseteq> own"
    "find_table (Suc MAX_OPERATION_DEPTH) (pt_hal tree) pg_size start h'' (pt_root tree) = Some (range_table r)"
    "r = walk_range (pt_hal tree) pg_size start n (range_table r)"
proof -
  have apart: "T' \<inter> own = {}" using own(2) tree_invD(2)[OF inv] by auto
  obtain res where res: "uvm_page_tree_get_ptes_async tree pg_size start n evict outcomes (\<lambda>_ h. h) gpu_status h' = Some res"
    and out: "get_outcome tree own (unchanged_tree tree own T' held' h') pg_size start n gpu_status res"
  proof -
    have "\<exists>res. uvm_page_tree_get_ptes_async tree pg_size start n evict outcomes (\<lambda>_ h. h) gpu_status h' = Some res \<and>
        get_outcome tree own (unchanged_tree tree own T' held' h') pg_size start n gpu_status res"
      by (rule get_alone[OF hal pages _ _ _ inv]) (use fresh own in auto)
    then show ?thesis using that by blast
  qed
  obtain status ur h'' where r3: "res = (status, ur, h'')" by (cases res)
  show ?thesis
  proof (cases ur)
    case None
    then have "h'' x = h' x" for x using out own(2)[of x] by (cases "x \<in> own") (auto simp: r3 get_outcome_def unchanged_tree_def)
    then have "h'' = h'" by blast
    moreover have "status = NV_ERR_NO_MEMORY" using out None by (simp add: r3 get_outcome_def)
    ultimately show ?thesis using that(1) res r3 None by simp
  next
    case (Some ru)
    obtain r used where ru: "ru = (r, used)" by (cases ru)
    obtain h0 where st: "status = (get_ptes_status tree pg_size gpu_status used)"
      and got: "got_range tree pg_size start n T' held' h0 r used h''" and used: "set used \<subseteq> own"
      and h0: "\<And>x. x \<notin> own \<Longrightarrow> h0 x = h' x"
      and h2: "\<And>d. d \<in> own \<Longrightarrow> d \<notin> set used \<Longrightarrow> h'' d = None" "\<And>x. x \<notin> T' \<Longrightarrow> x \<notin> own \<Longrightarrow> h'' x = h0 x"
      using out by (auto simp: r3 Some ru get_outcome_def unchanged_tree_def)
    have inv2: "tree_ok tree (T' \<union> set used) (add_mset r held') h''" and disj: "set used \<inter> T' = {}"
      using got by (simp_all add: got_range_def)
    have w: "dir_without (set used) (dir_at h'' x) = (dir_at h' x)\<lparr>dir_refs := 0\<rparr>" if "x \<in> T'" for x
    proof -
      have "h0 x = h' x" using h0[of x] apart that by blast
      then show ?thesis using got that by (simp add: got_range_def)
    qed
    have grow: "grown tree S g (T' \<union> set used) (add_mset r held') h''" if gS: "grown tree S g T' held' h'" for S g
    proof (rule grown_again[OF gS inv2])
      have S: "S \<subseteq> T'" using gS by (simp add: grown_def)
      then show "S \<subseteq> T' \<union> set used" by blast
      show "dir_without (-S) (dir_at h'' x) = dir_without (-S) (dir_at h' x)" if "x \<in> S" for x
      proof -
        have "-S \<union> set used = -S" using S disj by blast
        moreover have "dir_without (-S) (dir_without (set used) (dir_at h'' x)) = dir_without (-S) ((dir_at h' x)\<lparr>dir_refs := 0\<rparr>)"
          by (rule arg_cong[OF w]) (use that S in blast)
        ultimately show ?thesis by (simp add: dir_without_without)
      qed
      show "h'' x = (if x \<in> T' then None else h' x)" if "x \<notin> T' \<union> set used" for x
        using that h2 h0[of x] own(2)[of x] by (cases "x \<in> own") auto
      show "h' x = None" if "x \<in> T' \<union> set used - T'" for x using that used own(2) by blast
    qed
    show ?thesis
      by (rule that(2)[OF _ grow used]) (use res r3 Some ru st got in \<open>auto simp: got_range_def\<close>)
  qed
qed

lemma grown_put:
  assumes hal: "gpu_mmu_hal (pt_hal tree)" and inv: "tree_ok tree T held h"
    and g: "grown tree T h T' (add_mset r held') h'" and held: "held \<subseteq># held'"
    and put: "uvm_page_tree_put_ptes_async tree r status h' = (queue, h'')"
  obtains "status \<noteq> NV_OK" "h'' = h'" | "grown tree T h (T' - set queue) held' h''"
proof (cases "status \<noteq> NV_OK \<and> range_table r \<noteq> pt_root tree \<and> child_count (the (h' (range_table r))) + held_refs held' (range_table r) = 0")
  case True
  have "tree_ok tree T' (add_mset r held') h'" using g by (simp add: grown_def)
  from put_ptes_correct[OF hal this put refl] True that(1) show ?thesis by simp
next
  case False
  have inv': "tree_ok tree T' (add_mset r held') h'" and sub: "T \<subseteq> T'" using g by (simp_all add: grown_def)
  note P = put_ptes_correct[OF hal inv' put refl, unfolded if_not_P[OF False]]
  have q: "set queue \<subseteq> T'" "tree_ok tree (T' - set queue) held' h''" "\<And>d. d \<in> set queue \<Longrightarrow> h'' d = None"
    and off: "\<And>d. d \<notin> T' \<Longrightarrow> h'' d = h' d"
    and same: "\<And>d. d \<in> T' - set queue \<Longrightarrow> (dir_at h'' d)\<lparr>dir_refs := 0\<rparr> = dir_without (set queue) (dir_at h' d)"
    using P by blast+
  have "dir_parent (dir_at h'' x) = dir_parent (dir_at h x)" if "x \<in> T" "x \<in> T' - set queue" for x
    using arg_cong[OF same[OF that(2)], of dir_parent] grown_parent[OF g that(1)] by (simp add: dir_without_def)
  then have T: "T \<subseteq> T' - set queue" by (rule tree_inv_mono[OF inv q(2) held])
  have "grown tree T h (T' - set queue) held' h''"
  proof (rule grown_again[OF g q(2) T])
    show "dir_without (-T) (dir_at h'' x) = dir_without (-T) (dir_at h' x)" if "x \<in> T" for x
    proof -
      have "-T \<union> set queue = -T" using T by blast
      moreover have "dir_without (-T) ((dir_at h'' x)\<lparr>dir_refs := 0\<rparr>) = dir_without (-T) (dir_without (set queue) (dir_at h' x))"
        by (rule arg_cong[OF same]) (use that T in blast)
      ultimately show ?thesis by (simp add: dir_without_without)
    qed
    show "h'' x = (if x \<in> T' then None else h' x)" if "x \<notin> T' - set queue" for x using that q(3)[of x] off[of x] by auto
  qed auto
  then show ?thesis by (rule that(2))
qed

text \<open>A tree that has grown and shrunk back is as it was.\<close>

lemma grown_back:
  assumes inv: "tree_ok tree T held h" and g: "grown tree T h T' held h'"
  shows "T' = T" "h' = h"
proof -
  have inv': "tree_ok tree T' held h'" using g by (simp add: grown_def)
  show T: "T' = T" using tree_inv_unique[OF inv inv' grown_parent[OF g]] by simp
  have "h' x = h x" for x
  proof (cases "x \<in> T")
    case True
    have "dir_without (-T) (dir_at h' x) = dir_without (-T) (dir_at h x)" using g True by (simp add: grown_def)
    then have "(dir_at h' x)\<lparr>dir_refs := 0\<rparr> = (dir_at h x)\<lparr>dir_refs := 0\<rparr>"
      unfolding dir_without_own[OF inv True] dir_without_own[OF inv'[unfolded T] True] .
    then show ?thesis by (rule same_dir[OF inv inv'[unfolded T] True])
  next
    case False
    then show ?thesis using g T by (simp add: grown_def)
  qed
  then show "h' = h" by blast
qed

text \<open>The table found for an address stays the same when the tree grows, and depends only on the address bits above the table.\<close>

lemma find_table_grown:
  assumes inv: "tree_ok tree T held h" and g: "grown tree T h T' held' h'"
  shows "d \<in> T \<Longrightarrow> find_table fuel hal pg_size va h d = Some t \<Longrightarrow> find_table fuel hal pg_size va h' d = Some t"
proof (induction fuel arbitrary: d)
  case (Suc fuel)
  have w: "dir_without (-T) (dir_at h' d) = (dir_at h d)\<lparr>dir_refs := 0\<rparr>"
    using g Suc.prems(1) dir_without_own[OF inv Suc.prems(1)] by (simp add: grown_def)
  have lvl: "dir_level (dir_at h' d) = dir_level (dir_at h d)"
    using arg_cong[OF w, of dir_level] by (simp add: dir_without_def)
  show ?case
  proof (cases "dir_level (dir_at h d) = page_table_depth hal pg_size")
    case False
    let ?e = "va_entry hal pg_size (dir_level (dir_at h d)) va"
    obtain c where c: "dir_entries (dir_at h d) ?e = Some c" "find_table fuel hal pg_size va h c = Some t"
      using Suc.prems(2) False by (auto simp: bind_eq_Some_conv)
    then have cT: "c \<in> T" using tree_invD(6)[OF inv Suc.prems(1)] by (simp add: dir_ok_def child_ok_def)
    have "dir_entries (dir_without (-T) (dir_at h' d)) ?e = Some c" unfolding w using c(1) by simp
    then have "dir_entries (dir_at h' d) ?e = Some c" by (simp add: dir_without_def split: option.splits if_splits)
    then show ?thesis using False lvl Suc.IH[OF cT c(2)] by simp
  qed (use Suc.prems lvl in simp)
qed simp

section \<open>Initialising and freeing a vector\<close>

text \<open>The range for the \<open>i\<close>-th part of a vector: its entries are those of the pages of the part, in the table that translates them.\<close>

definition part_pages :: "'d page_tree \<Rightarrow> 'd dir_heap \<Rightarrow> 'd range_vec \<Rightarrow> nat \<Rightarrow> 'd table_range \<Rightarrow> bool" where
  "part_pages tree h v i r \<longleftrightarrow>
     (let pg_size = vec_page_size v; bits = index_bits (pt_hal tree) (page_table_depth (pt_hal tree) pg_size) pg_size
      in range_pg_size r = pg_size \<and>
         range_start_index r = unat (range_vec_calc_range_start tree v i) div unat pg_size mod 2 ^ bits \<and>
         range_entry_count r = unat (range_vec_calc_range_size tree v i) div unat pg_size \<and>
         range_start_index r + range_entry_count r \<le> 2 ^ bits \<and>
         find_table (Suc MAX_OPERATION_DEPTH) (pt_hal tree) pg_size (range_vec_calc_range_start tree v i) h (pt_root tree) = Some (range_table r))"

definition vec_holds :: "'d page_tree \<Rightarrow> 'd range_vec \<Rightarrow> 'd dir_heap \<Rightarrow> bool" where
  "vec_holds tree v h \<longleftrightarrow> vec_ok tree v \<and> length (vec_ranges v) = range_vec_calc_range_count tree v \<and>
     (\<forall>i<range_vec_calc_range_count tree v. part_pages tree h v i (vec_ranges v ! i))"

lemma calc_ranges_irrelevant [simp]:
  "range_vec_calc_range_count tree (v\<lparr>vec_ranges := rs\<rparr>) = range_vec_calc_range_count tree v"
  "range_vec_calc_range_start tree (v\<lparr>vec_ranges := rs\<rparr>) i = range_vec_calc_range_start tree v i"
  "range_vec_calc_range_end tree (v\<lparr>vec_ranges := rs\<rparr>) i = range_vec_calc_range_end tree v i"
  "range_vec_calc_range_size tree (v\<lparr>vec_ranges := rs\<rparr>) i = range_vec_calc_range_size tree v i"
  "vec_ok tree (v\<lparr>vec_ranges := rs\<rparr>) = vec_ok tree v"
  "part_pages tree h (v\<lparr>vec_ranges := rs\<rparr>) i = part_pages tree h v i"
  by (simp_all add: range_vec_calc_range_count_def range_vec_calc_range_start_def range_vec_calc_range_end_def
      range_vec_calc_range_size_def vec_ok_def part_pages_def fun_eq_iff)

lemma part_pages_grown:
  assumes inv: "tree_ok tree T held h" and g: "grown tree T h T' held' h'" and p: "part_pages tree h v i r"
  shows "part_pages tree h' v i r"
proof -
  let ?s = "range_vec_calc_range_start tree v i"
  have "find_table (Suc MAX_OPERATION_DEPTH) (pt_hal tree) (vec_page_size v) ?s h (pt_root tree) = Some (range_table r)"
    using p by (simp only: part_pages_def Let_def)
  then have "find_table (Suc MAX_OPERATION_DEPTH) (pt_hal tree) (vec_page_size v) ?s h' (pt_root tree) = Some (range_table r)"
    by (rule find_table_grown[OF inv g tree_invD(3)[OF inv]])
  then show ?thesis using p unfolding part_pages_def Let_def by blast
qed

lemma walk_range_part:
  assumes geo: "page_geometry (pt_hal tree)" and ok: "vec_ok tree v" and i: "i < range_vec_calc_range_count tree v"
    and r: "r = walk_range (pt_hal tree) (vec_page_size v) (range_vec_calc_range_start tree v i) (range_vec_calc_range_size tree v i) (range_table r)"
    and find: "find_table (Suc MAX_OPERATION_DEPTH) (pt_hal tree) (vec_page_size v) (range_vec_calc_range_start tree v i) h (pt_root tree) = Some (range_table r)"
  shows "part_pages tree h v i r"
proof -
  have pg: "supported_page_size (pt_hal tree) (vec_page_size v)" using ok by (simp add: vec_ok_def)
  note Q = part_request[OF geo ok i]
  note R = page_geometry.range_pages[OF geo pg Q(1)]
  let ?b = "2 ^ index_bits (pt_hal tree) (page_table_depth (pt_hal tree) (vec_page_size v)) (vec_page_size v)" and ?p = "unat (vec_page_size v)"
  have "range_start_index r = unat (range_vec_calc_range_start tree v i) div ?p mod ?b" by (subst r) (simp only: R(2))
  moreover have "range_entry_count r = unat (range_vec_calc_range_size tree v i) div ?p" by (subst r) (simp only: R(4)[OF Q(2,3)])
  moreover have "range_start_index r + range_entry_count r \<le> ?b" by (subst (1 2) r) (simp only: R(3))
  moreover have "range_pg_size r = vec_page_size v" by (subst r) (simp add: walk_range_def Let_def)
  ultimately show ?thesis using find unfolding part_pages_def Let_def by blast
qed

lemma get_ranges_correct:
  fixes outcomes :: "nat \<Rightarrow> nat \<Rightarrow> 'd dir_outcome"
  assumes hal: "gpu_mmu_hal (pt_hal tree)" and ok: "vec_ok tree v" and n: "n = range_vec_calc_range_count tree v"
    and fresh: "\<And>i j i' j' d. host_outcome (outcomes i j) = Some d \<Longrightarrow> host_outcome (outcomes i' j') = Some d \<Longrightarrow> i = i' \<and> j = j'"
  shows "k \<le> n \<Longrightarrow> tree_ok tree T1 held1 h1 \<Longrightarrow> (\<forall>i\<ge>k. \<forall>j d. host_outcome (outcomes i j) = Some d \<longrightarrow> h1 d = None) \<Longrightarrow>
    \<exists>status rs h2 T2. get_ranges tree v evict outcomes (\<lambda>_ _ h. h) gpu_status [k..<n] h1 = Some (status, rs, h2) \<and>
      (\<forall>S g. grown tree S g T1 held1 h1 \<longrightarrow> grown tree S g T2 (mset rs + held1) h2) \<and> length rs \<le> n - k \<and>
      (status = NV_OK \<longrightarrow> length rs = n - k \<and> (\<forall>i<n - k. part_pages tree h2 v (k + i) (rs ! i)))"
proof (induction "n - k" arbitrary: k T1 held1 h1)
  case 0
  then show ?case by auto
next
  case (Suc m)
  have kn: "k < n" and upt: "[k..<n] = k # [Suc k..<n]" using Suc.hyps(2) by (simp_all add: upt_conv_Cons)
  have geo: "page_geometry (pt_hal tree)" by (rule gpu_mmu_hal_geometry[OF hal])
  have pg: "supported_page_size (pt_hal tree) (vec_page_size v)" using ok by (simp add: vec_ok_def)
  have Q: "in_one_table (pt_hal tree) (vec_page_size v) (range_vec_calc_range_start tree v k) (range_vec_calc_range_size tree v k)"
    using part_request(1)[OF geo ok] kn n by simp
  define own where "own = {d. \<exists>j. host_outcome (outcomes k j) = Some d}"
  have own: "\<And>j d. host_outcome (outcomes k j) = Some d \<Longrightarrow> d \<in> own" "\<And>d. d \<in> own \<Longrightarrow> h1 d = None"
    using Suc.prems(3) by (auto simp: own_def)
  have fr: "j = j'" if "host_outcome (outcomes k j) = Some d" "host_outcome (outcomes k j') = Some d" for j j' d
    using fresh[OF that] by simp
  show ?case
  proof (rule grown_get[where evict = evict and gpu_status = "gpu_status k", OF hal pg Q fr own Suc.prems(2)])
    fix h'' assume "uvm_page_tree_get_ptes_async tree (vec_page_size v) (range_vec_calc_range_start tree v k) (range_vec_calc_range_size tree v k)
      evict (outcomes k) (\<lambda>_ h. h) (gpu_status k) h1 = Some (NV_ERR_NO_MEMORY, None, h'')" "h'' = h1"
    then show ?thesis by (auto simp: upt intro!: exI[of _ T1])
  next
    fix r used h''
    assume get: "uvm_page_tree_get_ptes_async tree (vec_page_size v) (range_vec_calc_range_start tree v k) (range_vec_calc_range_size tree v k)
      evict (outcomes k) (\<lambda>_ h. h) (gpu_status k) h1 = Some (get_ptes_status tree (vec_page_size v) (gpu_status k) used, Some (r, used), h'')"
      and g: "\<And>S g. grown tree S g T1 held1 h1 \<Longrightarrow> grown tree S g (T1 \<union> set used) (add_mset r held1) h''" and used: "set used \<subseteq> own"
      and find: "find_table (Suc MAX_OPERATION_DEPTH) (pt_hal tree) (vec_page_size v) (range_vec_calc_range_start tree v k) h'' (pt_root tree) = Some (range_table r)"
      and r: "r = walk_range (pt_hal tree) (vec_page_size v) (range_vec_calc_range_start tree v k) (range_vec_calc_range_size tree v k) (range_table r)"
    have g1: "grown tree T1 h1 (T1 \<union> set used) (add_mset r held1) h''" by (rule g[OF grown_refl[OF Suc.prems(2)]])
    then have inv2: "tree_ok tree (T1 \<union> set used) (add_mset r held1) h''" by (simp add: grown_def)
    have free: "h'' d = None" if "Suc k \<le> i" "host_outcome (outcomes i j) = Some d" for i j d
    proof -
      have "h1 d = None" using Suc.prems(3) that by (metis Suc_leD)
      then have "d \<notin> T1" using tree_invD(2)[OF Suc.prems(2)] by auto
      moreover have "d \<notin> set used" using used fresh[OF that(2)] that(1) by (auto simp: own_def)
      ultimately show ?thesis using g1 \<open>h1 d = None\<close> by (simp add: grown_def)
    qed
    have p: "part_pages tree h'' v k r" using walk_range_part[OF geo ok _ r find] kn n by simp
    show ?thesis
    proof (cases "(get_ptes_status tree (vec_page_size v) (gpu_status k) used) = NV_OK")
      case True
      from Suc.hyps(2) have m: "m = n - Suc k" by simp
      have le: "Suc k \<le> n" using kn by simp
      have "\<forall>i\<ge>Suc k. \<forall>j d. host_outcome (outcomes i j) = Some d \<longrightarrow> h'' d = None" using free by blast
      note IH = Suc.hyps(1)[OF m le inv2 this]
      obtain status rs h2 T2 where
        ih: "get_ranges tree v evict outcomes (\<lambda>_ _ h. h) gpu_status [Suc k..<n] h'' = Some (status, rs, h2)"
        and grow: "\<And>S g. grown tree S g (T1 \<union> set used) (add_mset r held1) h'' \<Longrightarrow> grown tree S g T2 (mset rs + add_mset r held1) h2"
        and len: "length rs \<le> n - Suc k" and all: "status = NV_OK \<longrightarrow> length rs = n - Suc k \<and> (\<forall>i<n - Suc k. part_pages tree h2 v (Suc k + i) (rs ! i))"
        using IH by blast
      have p2: "part_pages tree h2 v k r" by (rule part_pages_grown[OF inv2 grow[OF grown_refl[OF inv2]] p])
      have "get_ranges tree v evict outcomes (\<lambda>_ _ h. h) gpu_status [k..<n] h1 = Some (status, r # rs, h2)"
        using get ih True by (simp add: upt)
      moreover have "grown tree S g T2 (mset (r # rs) + held1) h2" if "grown tree S g T1 held1 h1" for S g
        using grow[OF g[OF that]] by simp
      moreover have "length (r # rs) = n - k \<and> (\<forall>i<n - k. part_pages tree h2 v (k + i) ((r # rs) ! i))" if "status = NV_OK"
        using all that kn p2 by (auto simp: nth_Cons split: nat.split)
      moreover have "length (r # rs) \<le> n - k" using len kn by simp
      ultimately show ?thesis by blast
    next
      case False
      then have "get_ranges tree v evict outcomes (\<lambda>_ _ h. h) gpu_status [k..<n] h1 = Some (get_ptes_status tree (vec_page_size v) (gpu_status k) used, [r], h'')"
        using get by (simp add: upt)
      moreover have "grown tree S g (T1 \<union> set used) (mset [r] + held1) h''" if "grown tree S g T1 held1 h1" for S g
        using g[OF that] by simp
      moreover have "length [r] \<le> n - k" using kn by simp
      ultimately show ?thesis using False by blast
    qed
  qed
qed

text \<open>The ranges whose put finds that its push cannot be begun: the put leaves them in place.\<close>

definition failed_puts :: "(nat \<Rightarrow> NV_STATUS) \<Rightarrow> nat \<Rightarrow> 'd table_range list \<Rightarrow> 'd table_range multiset" where
  "failed_puts put_status i rs = mset (map snd (filter (\<lambda>(j, r). put_status j \<noteq> NV_OK) (enumerate i rs)))"

lemma failed_puts_simps [simp]:
  "failed_puts put_status i [] = {#}"
  "failed_puts put_status i (r # rs) = (if put_status i \<noteq> NV_OK then {#r#} else {#}) + failed_puts put_status (Suc i) rs"
  by (simp_all add: failed_puts_def)

lemma failed_puts_none: "(\<And>i. put_status i = NV_OK) \<Longrightarrow> failed_puts put_status i rs = {#}"
  by (simp add: failed_puts_def)

lemma put_ranges_grown:
  assumes hal: "gpu_mmu_hal (pt_hal tree)" and inv: "tree_ok tree T held h"
  shows "grown tree T h T' (mset rs + M) h' \<Longrightarrow> held \<subseteq># M \<Longrightarrow>
    \<exists>T'' L. L \<subseteq># failed_puts put_status i rs \<and> grown tree T h T'' (L + M) (put_ranges tree put_status i rs h')"
proof (induction rs arbitrary: i T' h' M)
  case (Cons r rs)
  then have g: "grown tree T h T' (add_mset r (mset rs + M)) h'" by simp
  then have "tree_ok tree T' (add_mset r (mset rs + M)) h'" by (simp add: grown_def)
  then have "range_ok (pt_hal tree) T' h' r" using tree_invD(9)[of "pt_hal tree" "leaf_level (pt_hal tree)" "pt_root tree" T' _ _ h' r] by simp
  then have c: "range_entry_count r \<noteq> 0" by (simp add: range_ok_def)
  obtain queue h'' where q: "uvm_page_tree_put_ptes_async tree r (put_status i) h' = (queue, h'')"
    by (cases "uvm_page_tree_put_ptes_async tree r (put_status i) h'")
  have put: "put_ranges tree put_status i (r # rs) h' = put_ranges tree put_status (Suc i) rs h''" using c q by simp
  have sub: "held \<subseteq># mset rs + M" using Cons.prems(2) by (simp add: subset_mset.add_increasing)
  show ?case
  proof (rule grown_put[OF hal inv g sub q])
    assume st: "put_status i \<noteq> NV_OK" "h'' = h'"
    have "grown tree T h T' (mset rs + add_mset r M) h''" using g st(2) by simp
    moreover have "held \<subseteq># add_mset r M" using Cons.prems(2) by (metis add_mset_add_single subset_mset.add_increasing2 empty_le)
    ultimately obtain T'' L where "L \<subseteq># failed_puts put_status (Suc i) rs"
      "grown tree T h T'' (L + add_mset r M) (put_ranges tree put_status (Suc i) rs h'')" using Cons.IH by blast
    then show ?thesis using put st(1) by (intro exI[of _ T''] exI[of _ "add_mset r L"]) simp
  next
    assume "grown tree T h (T' - set queue) (mset rs + M) h''"
    from Cons.IH[OF this Cons.prems(2), of "Suc i"] obtain T'' L where "L \<subseteq># failed_puts put_status (Suc i) rs"
      "grown tree T h T'' (L + M) (put_ranges tree put_status (Suc i) rs h'')" by blast
    then show ?thesis using put by (intro exI[of _ T''] exI[of _ L]) (auto intro: subset_mset.order_trans)
  qed
qed (auto intro!: exI[of _ "{#}"])

lemma put_ranges_back:
  assumes "gpu_mmu_hal (pt_hal tree)" "tree_ok tree T held h" "grown tree T h T' (mset rs + held) h'" "\<And>i. put_status i = NV_OK"
  shows "put_ranges tree put_status i rs h' = h"
proof -
  obtain T'' where "grown tree T h T'' held (put_ranges tree put_status i rs h')"
    using put_ranges_grown[OF assms(1-3) subset_mset.order_refl, of put_status i] failed_puts_none[of put_status i rs, OF assms(4)] by auto
  then show ?thesis by (rule grown_back(2)[OF assms(2)])
qed

text \<open>What is left after the ranges \<open>rs\<close> were put: the tree as it was, and the ranges whose put failed.\<close>

definition put_back ::
    "'d page_tree \<Rightarrow> 'd set \<Rightarrow> 'd table_range multiset \<Rightarrow> 'd dir_heap \<Rightarrow> (nat \<Rightarrow> NV_STATUS) \<Rightarrow> 'd table_range list \<Rightarrow> 'd dir_heap \<Rightarrow> bool" where
  "put_back tree T held h put_status rs h' \<longleftrightarrow>
     (\<exists>T' L. L \<subseteq># failed_puts put_status 0 rs \<and> grown tree T h T' (L + held) h') \<and> ((\<forall>i. put_status i = NV_OK) \<longrightarrow> h' = h)"

lemma put_ranges_put_back:
  assumes "gpu_mmu_hal (pt_hal tree)" "tree_ok tree T held h" "grown tree T h T' (mset rs + held) h'"
  shows "put_back tree T held h put_status rs (put_ranges tree put_status 0 rs h')"
  using put_ranges_grown[OF assms subset_mset.order_refl] put_ranges_back[OF assms] by (simp add: put_back_def)

lemma put_back_all: "put_back tree T held h (\<lambda>_. NV_OK) rs h' \<Longrightarrow> h' = h"
  by (simp add: put_back_def)

lemma put_back_none: "tree_ok tree T held h \<Longrightarrow> put_back tree T held h put_status [] h"
  using grown_refl[of tree T held h] by (auto simp: put_back_def intro!: exI[of _ T])

lemma vec_init_correct:
  fixes outcomes :: "nat \<Rightarrow> nat \<Rightarrow> 'd dir_outcome"
  assumes hal: "gpu_mmu_hal (pt_hal tree)"
    and ok: "vec_ok tree \<lparr>vec_start = start, vec_size = n, vec_page_size = pg_size, vec_ranges = []\<rparr>"
    and fresh: "\<And>i j i' j' d. host_outcome (outcomes i j) = Some d \<Longrightarrow> host_outcome (outcomes i' j') = Some d \<Longrightarrow> i = i' \<and> j = j'"
    and free: "\<And>i j d. host_outcome (outcomes i j) = Some d \<Longrightarrow> h d = None"
    and inv: "tree_ok tree T held h"
  shows "\<exists>status v h'. uvm_page_table_range_vec_init tree start n pg_size evict array_ok outcomes (\<lambda>_ _ h. h) gpu_status wait_status put_status h =
      Some (status, v, h') \<and>
    (if status = NV_OK
     then vec_start v = start \<and> vec_size v = n \<and> vec_page_size v = pg_size \<and> vec_holds tree v h' \<and>
       (\<exists>T'. grown tree T h T' (mset (vec_ranges v) + held) h')
     else vec_ranges v = [] \<and> (\<exists>rs. length rs \<le> range_vec_calc_range_count tree \<lparr>vec_start = start, vec_size = n, vec_page_size = pg_size, vec_ranges = []\<rparr> \<and>
       put_back tree T held h put_status rs h'))"
proof -
  define v :: "'d range_vec" where "v = \<lparr>vec_start = start, vec_size = n, vec_page_size = pg_size, vec_ranges = []\<rparr>"
  let ?c = "range_vec_calc_range_count tree v"
  have ok': "vec_ok tree v" using ok by (simp add: v_def)
  have "\<exists>status rs h2 T2. get_ranges tree v evict outcomes (\<lambda>_ _ h. h) gpu_status [0..<?c] h = Some (status, rs, h2) \<and>
      (\<forall>S g. grown tree S g T held h \<longrightarrow> grown tree S g T2 (mset rs + held) h2) \<and> length rs \<le> ?c - 0 \<and>
      (status = NV_OK \<longrightarrow> length rs = ?c - 0 \<and> (\<forall>i<?c - 0. part_pages tree h2 v (0 + i) (rs ! i)))"
    by (rule get_ranges_correct[OF hal ok' refl _ le0 inv]) (use fresh free in blast)+
  then obtain status rs h2 T2 where get: "get_ranges tree v evict outcomes (\<lambda>_ _ h. h) gpu_status [0..<?c] h = Some (status, rs, h2)"
    and grow: "\<And>S g. grown tree S g T held h \<Longrightarrow> grown tree S g T2 (mset rs + held) h2"
    and len: "length rs \<le> ?c" and all: "status = NV_OK \<longrightarrow> length rs = ?c \<and> (\<forall>i<?c. part_pages tree h2 v i (rs ! i))"
    by auto
  have g: "grown tree T h T2 (mset rs + held) h2" by (rule grow[OF grown_refl[OF inv]])
  have undone: "put_back tree T held h put_status rs (put_ranges tree put_status 0 rs h2)" by (rule put_ranges_put_back[OF hal inv g])
  define res where "res = (if array_ok then if status = NV_OK then wait_status else status else NV_ERR_NO_MEMORY)"
  show ?thesis
  proof (cases "array_ok \<and> res = NV_OK")
    case True
    then have st: "status = NV_OK" "wait_status = NV_OK" by (auto simp: res_def split: if_splits)
    have "uvm_page_table_range_vec_init tree start n pg_size evict array_ok outcomes (\<lambda>_ _ h. h) gpu_status wait_status put_status h =
        Some (NV_OK, v\<lparr>vec_ranges := rs\<rparr>, h2)"
      using True get st by (simp add: uvm_page_table_range_vec_init_def flip: v_def)
    moreover have "vec_holds tree (v\<lparr>vec_ranges := rs\<rparr>) h2" using all st ok' by (simp add: vec_holds_def)
    ultimately show ?thesis using g by (auto simp: v_def)
  next
    case False
    have "vec_ranges v = []" by (simp add: v_def)
    then have "uvm_page_table_range_vec_init tree start n pg_size evict array_ok outcomes (\<lambda>_ _ h. h) gpu_status wait_status put_status h =
        Some (res, \<lparr>vec_start = 0, vec_size = 0, vec_page_size = 0, vec_ranges = []\<rparr>,
          if array_ok then put_ranges tree put_status 0 rs h2 else h)"
      using False get
      by (auto simp: uvm_page_table_range_vec_init_def uvm_page_table_range_vec_deinit_def res_def v_def[symmetric] Let_def)
    moreover have "res \<noteq> NV_OK" using False by (auto simp: res_def)
    moreover have "\<exists>rs. length rs \<le> ?c \<and> put_back tree T held h put_status rs (if array_ok then put_ranges tree put_status 0 rs2 h2 else h)"
      if "rs2 = rs" for rs2
      using undone len put_back_none[OF inv] that by (cases array_ok) (auto intro: exI[of _ "[]"])
    ultimately show ?thesis by (simp flip: v_def)
  qed
qed

text \<open>C4. \<^verbatim>\<open>uvm_page_table_range_vec_create\<close>, while no other thread works on the page tree, returns, however its allocations and pushes turn out. When it succeeds, the vector has one range for each part of the
  request, in the table that translates the part, and all of them are held in a tree that has only grown; when it fails, whichever range it failed at, there is no vector. The ranges it had got by a failure, and those of the
  vector at \<^verbatim>\<open>uvm_page_table_range_vec_destroy\<close>, are put back: if the push of every put can be begun, the page tree is left exactly as it was before the call to \<^verbatim>\<open>uvm_page_table_range_vec_create\<close>. A put whose push
  cannot be begun, after a fatal channel error, leaves its range in place: then the page tree is still well formed, holds the ranges it held and some of those whose put failed, at most one for each part, and
  its old directories keep their links to each other.
\<close>

theorem uvm_page_table_range_vec_create_correct:
  fixes outcomes :: "nat \<Rightarrow> nat \<Rightarrow> 'd dir_outcome"
  assumes hal: "gpu_mmu_hal (pt_hal tree)"
    and ok: "vec_ok tree \<lparr>vec_start = start, vec_size = n, vec_page_size = pg_size, vec_ranges = []\<rparr>"
    and fresh: "\<And>i j i' j' d. host_outcome (outcomes i j) = Some d \<Longrightarrow> host_outcome (outcomes i' j') = Some d \<Longrightarrow> i = i' \<and> j = j'"
    and free: "\<And>i j d. host_outcome (outcomes i j) = Some d \<Longrightarrow> h d = None"
    and inv: "tree_ok tree T held h"
  shows "\<exists>status res h'. uvm_page_table_range_vec_create tree start n pg_size evict struct_ok array_ok outcomes (\<lambda>_ _ h. h) gpu_status wait_status put_status h =
      Some (status, res, h') \<and>
    (case res of
       Some v \<Rightarrow> status = NV_OK \<and> vec_start v = start \<and> vec_size v = n \<and> vec_page_size v = pg_size \<and> vec_holds tree v h' \<and>
         (\<exists>T'. grown tree T h T' (mset (vec_ranges v) + held) h') \<and>
         (\<forall>destroy_status. put_back tree T held h destroy_status (vec_ranges v) (uvm_page_table_range_vec_destroy tree destroy_status v h'))
     | None \<Rightarrow> status \<noteq> NV_OK \<and>
         (\<exists>rs. length rs \<le> range_vec_calc_range_count tree \<lparr>vec_start = start, vec_size = n, vec_page_size = pg_size, vec_ranges = []\<rparr> \<and>
           put_back tree T held h put_status rs h'))"
proof (cases struct_ok)
  case True
  let ?v = "\<lparr>vec_start = start, vec_size = n, vec_page_size = pg_size, vec_ranges = []\<rparr> :: 'd range_vec"
  have "\<exists>status v h'. uvm_page_table_range_vec_init tree start n pg_size evict array_ok outcomes (\<lambda>_ _ h. h) gpu_status wait_status put_status h =
      Some (status, v, h') \<and>
    (if status = NV_OK
     then vec_start v = start \<and> vec_size v = n \<and> vec_page_size v = pg_size \<and> vec_holds tree v h' \<and>
       (\<exists>T'. grown tree T h T' (mset (vec_ranges v) + held) h')
     else vec_ranges v = [] \<and> (\<exists>rs. length rs \<le> range_vec_calc_range_count tree ?v \<and> put_back tree T held h put_status rs h'))"
    by (rule vec_init_correct[OF hal ok _ _ inv]) (use fresh free in blast)+
  then obtain status v h' where init: "uvm_page_table_range_vec_init tree start n pg_size evict array_ok outcomes (\<lambda>_ _ h. h) gpu_status wait_status put_status h = Some (status, v, h')"
    and res: "if status = NV_OK
     then vec_start v = start \<and> vec_size v = n \<and> vec_page_size v = pg_size \<and> vec_holds tree v h' \<and>
       (\<exists>T'. grown tree T h T' (mset (vec_ranges v) + held) h')
     else vec_ranges v = [] \<and> (\<exists>rs. length rs \<le> range_vec_calc_range_count tree ?v \<and> put_back tree T held h put_status rs h')" by blast
  show ?thesis
  proof (cases "status = NV_OK")
    case True
    then have "put_back tree T held h st (vec_ranges v) (uvm_page_table_range_vec_destroy tree st v h')" for st
      using res put_ranges_put_back[OF hal inv] by (auto simp: uvm_page_table_range_vec_destroy_def uvm_page_table_range_vec_deinit_def)
    then show ?thesis using init res True \<open>struct_ok\<close> by (simp add: uvm_page_table_range_vec_create_def)
  qed (use init res \<open>struct_ok\<close> in \<open>simp add: uvm_page_table_range_vec_create_def\<close>)
qed (use put_back_none[OF inv] in \<open>auto simp: uvm_page_table_range_vec_create_def intro!: exI[of _ "[]"]\<close>)

section \<open>Splitting a vector\<close>

text \<open>The two vectors that a vector \<open>v\<close> is split into at the address \<open>w\<close>.\<close>

abbreviation lower_vec :: "'d range_vec \<Rightarrow> NvU64 \<Rightarrow> 'd table_range list \<Rightarrow> 'd range_vec" where
  "lower_vec v w rs \<equiv> v\<lparr>vec_size := w - vec_start v, vec_ranges := rs\<rparr>"

abbreviation upper_vec :: "'d range_vec \<Rightarrow> NvU64 \<Rightarrow> 'd table_range list \<Rightarrow> 'd range_vec" where
  "upper_vec v w rs \<equiv> v\<lparr>vec_start := w, vec_size := vec_size v - (w - vec_start v), vec_ranges := rs\<rparr>"

definition split_ok :: "'d page_tree \<Rightarrow> 'd range_vec \<Rightarrow> NvU64 \<Rightarrow> bool" where
  "split_ok tree v w \<longleftrightarrow> vec_ok tree v \<and> vec_start v < w \<and> w < vec_start v + vec_size v \<and> unat w mod unat (vec_page_size v) = 0"

lemma split_nat:
  assumes geo: "page_geometry (pt_hal tree)" and s: "split_ok tree v w"
  shows "unat (vec_start v) < unat w" "unat w < vec_end v" "unat (w - vec_start v) = unat w - unat (vec_start v)"
    "unat (vec_size v - (w - vec_start v)) = vec_end v - unat w"
proof -
  have ok: "vec_ok tree v" using s by (simp add: split_ok_def)
  show lt: "unat (vec_start v) < unat w" and gt: "unat w < vec_end v"
    using s vec_end_word[OF geo ok] by (simp_all add: split_ok_def word_less_nat_alt)
  have le: "vec_start v \<le> w" using lt by (simp add: word_le_nat_alt)
  show d: "unat (w - vec_start v) = unat w - unat (vec_start v)" by (simp add: unat_sub[OF le])
  have "w - vec_start v \<le> vec_size v" unfolding word_le_nat_alt d using gt by linarith
  then show "unat (vec_size v - (w - vec_start v)) = vec_end v - unat w" using lt by (simp add: unat_sub d)
qed

lemma split_vec_ok:
  assumes geo: "page_geometry (pt_hal tree)" and s: "split_ok tree v w"
  shows "vec_ok tree (lower_vec v w ls)" "vec_ok tree (upper_vec v w us)"
    "vec_end (lower_vec v w ls) = unat w" "vec_end (upper_vec v w us) = vec_end v"
proof -
  note N = split_nat[OF geo s]
  show l: "vec_end (lower_vec v w ls) = unat w" and u: "vec_end (upper_vec v w us) = vec_end v" using N by simp_all
  have ok: "vec_ok tree v" and w: "unat (vec_page_size v) dvd unat w" using s by (auto simp: split_ok_def)
  then have d: "unat (vec_page_size v) dvd unat (vec_start v)" "unat (vec_page_size v) dvd vec_end v"
    by (auto simp: vec_ok_def mod_0_imp_dvd)
  have "unat (vec_page_size v) dvd unat w - unat (vec_start v)" "unat (vec_page_size v) dvd vec_end v - unat w"
    using d w by (simp_all add: dvd_diff_nat)
  moreover have "w - vec_start v \<noteq> 0" "vec_size v - (w - vec_start v) \<noteq> 0" using N by (metis unat_0 zero_less_diff less_numeral_extra(3))+
  ultimately show "vec_ok tree (lower_vec v w ls)" "vec_ok tree (upper_vec v w us)"
    using ok N l u d w by (simp_all add: vec_ok_def)
qed

text \<open>The parts of the two vectors: those of the old one below and above the part that has \<open>w\<close>, and the two pieces of this one.\<close>

lemma split_parts:
  fixes v :: "'d range_vec" and ls us :: "'d table_range list"
  assumes geo: "page_geometry (pt_hal tree)" and s: "split_ok tree v w" and C: "C = 2 ^ vec_shift tree v"
  defines "k \<equiv> range_vec_calc_range_index tree v w" and "n \<equiv> range_vec_calc_range_count tree v"
    and "l \<equiv> lower_vec v w ls" and "u \<equiv> upper_vec v w us"
  shows "k < n" "range_vec_calc_range_count tree l = (if C dvd unat w then k else Suc k)" "range_vec_calc_range_count tree u = n - k"
    and "\<And>i. i < k \<Longrightarrow> part_start C l i = part_start C v i \<and> part_end C l i = part_end C v i"
    and "part_start C l k = part_start C v k" "part_end C l k = unat w"
    and "\<And>i. 0 < i \<Longrightarrow> part_start C u i = part_start C v (k + i)" "part_start C u 0 = unat w" "\<And>i. part_end C u i = part_end C v (k + i)"
    and "part_start C v k = (if C dvd unat w then unat w else part_start C v k)" "part_start C v k \<le> unat w" "unat w < part_end C v k"
    and "\<not> C dvd unat w \<Longrightarrow> part_start C v k < unat w"
proof -
  let ?S = "unat (vec_start v)" and ?w = "unat w"
  have ok: "vec_ok tree v" and le: "vec_start v \<le> w" using s by (auto simp: split_ok_def)
  note N = split_nat[OF geo s]
  note V = split_vec_ok(1)[OF geo s, of ls] split_vec_ok(2)[OF geo s, of us] split_vec_ok(3)[OF geo s, of ls] split_vec_ok(4)[OF geo s, of us]
  have C0: "0 < C" by (simp add: C)
  have "?S div C \<le> ?w div C" using N(1) by (simp add: div_le_mono)
  then have k: "?w div C = ?S div C + k" using range_index[OF geo ok C le] by (simp add: k_def)
  have lo: "(?S div C + k) * C \<le> ?w" by (simp flip: k)
  have "?w < (?w div C + 1) * C" using dividend_less_div_times[OF C0, of ?w] by (simp add: algebra_simps)
  then have hi: "?w < (?S div C + Suc k) * C" unfolding k by simp
  have cn: "n = (vec_end v + (C - 1)) div C - ?S div C" using vec_count[OF geo ok C] by (simp add: n_def)
  note B = part_bounds[OF C0 vec_size_pos[OF ok] cn]
  have "(?S div C + k) * C < (?S div C + n) * C" using lo N(2) B(2) by linarith
  then show kn: "k < n" using C0 by simp
  have up: "(?w + (C - 1)) div C = ?w div C + (if C dvd ?w then 0 else 1)"
  proof (cases "C dvd ?w")
    case True
    then obtain q where q: "?w = C * q" by (rule dvdE)
    then have "(?w + (C - 1)) div C = q" using C0 by (intro div_nat_eqI) simp_all
    then show ?thesis using q True C0 by simp
  next
    case False
    then have "0 < ?w mod C" by (metis dvd_eq_mod_eq_0 gr0I)
    then have "?w + (C - 1) = Suc (?w div C) * C + (?w mod C - 1)" using div_mult_mod_eq[of ?w C] C0 N(1) by (simp add: algebra_simps)
    moreover have "?w mod C - 1 < C" using mod_less_divisor[OF C0, of ?w] by linarith
    ultimately have "(?w + (C - 1)) div C = Suc (?w div C)" by (metis div_nat_eqI le_add1 add_less_cancel_left mult.commute mult_Suc_right add.commute)
    then show ?thesis using False by simp
  qed
  show "range_vec_calc_range_count tree l = (if C dvd ?w then k else Suc k)"
    using vec_count[OF geo V(1), of C] V(3) up k C by (simp add: l_def)
  have "?w div C \<le> (vec_end v + (C - 1)) div C" using N(2) by (simp add: div_le_mono)
  then show "range_vec_calc_range_count tree u = n - k"
    using vec_count[OF geo V(2), of C] V(4) k C cn by (simp add: u_def)
  show "part_start C l i = part_start C v i \<and> part_end C l i = part_end C v i" if "i < k" for i
  proof -
    have "(?S div C + Suc i) * C \<le> (?S div C + k) * C" using that by (intro mult_le_mono1) simp
    then have "(?S div C + Suc i) * C \<le> ?w" "(?S div C + Suc i) * C \<le> vec_end v" using lo N(2) by linarith+
    then show ?thesis using V(3) by (simp add: l_def min_def)
  qed
  show "part_start C l k = part_start C v k" "part_end C l k = ?w" using V(3) hi by (simp_all add: l_def)
  show "part_start C u 0 = ?w" using lo k by (simp add: u_def)
  show "part_end C u i = part_end C v (k + i)" for i using V(4) k by (simp add: u_def add.assoc)
  show "part_start C u i = part_start C v (k + i)" if "0 < i" for i
  proof -
    have "(?S div C + Suc k) * C \<le> (?S div C + (k + i)) * C" using that by (intro mult_le_mono1) simp
    then have "?w \<le> (?S div C + (k + i)) * C" using hi by linarith
    then show ?thesis using N(1) k by (simp add: u_def add.assoc)
  qed
  show "part_start C v k \<le> ?w" "?w < part_end C v k" using lo hi N by simp_all
  show "part_start C v k = (if C dvd ?w then ?w else part_start C v k)"
    using N(1) by (simp flip: k)
  show "part_start C v k < ?w" if "\<not> C dvd ?w"
  proof -
    have "?w div C * C \<noteq> ?w" using that by (metis dvd_triv_right)
    then show ?thesis using lo N(1) k by simp
  qed
qed

lemma find_table_va:
  assumes inv: "tree_ok tree T held h" and pg: "hal = pt_hal tree" and va: "unat va div 2 ^ K = unat va' div 2 ^ K"
    and K: "K = table_shift hal pg_size (page_table_depth hal pg_size)"
  shows "d \<in> T \<Longrightarrow> dir_level (dir_at h d) \<le> page_table_depth hal pg_size \<Longrightarrow>
    find_table fuel hal pg_size va h d = find_table fuel hal pg_size va' h d"
proof (induction fuel arbitrary: d)
  case (Suc fuel)
  let ?l = "dir_level (dir_at h d)"
  show ?case
  proof (cases "?l = page_table_depth hal pg_size")
    case False
    then have le: "Suc ?l \<le> page_table_depth hal pg_size" using Suc.prems(2) by simp
    then have "(\<Sum>j<Suc ?l. index_bits hal j pg_size) \<le> (\<Sum>j<page_table_depth hal pg_size. index_bits hal j pg_size)"
      by (intro sum_mono2) auto
    then have "K \<le> table_shift hal pg_size (Suc ?l)" unfolding K table_shift_def by (rule diff_le_mono2)
    then obtain m where m: "table_shift hal pg_size (Suc ?l) = K + m" using le_Suc_ex by blast
    have "va_entry hal pg_size ?l va = va_entry hal pg_size ?l va'"
      by (simp add: va_entry_def va_index_def entry_index_nat m power_add div_mult2_eq va)
    moreover have "find_table fuel hal pg_size va h c = find_table fuel hal pg_size va' h c"
      if "dir_entries (dir_at h d) (va_entry hal pg_size ?l va') = Some c" for c
    proof -
      have "c \<in> T" "dir_level (dir_at h c) = Suc ?l" using tree_invD(6)[OF inv Suc.prems(1)] that by (auto simp: dir_ok_def child_ok_def)
      then show ?thesis using Suc.IH le by simp
    qed
    ultimately show ?thesis using False by (cases "dir_entries (dir_at h d) (va_entry hal pg_size ?l va')") simp_all
  qed simp
qed simp

text \<open>The range for the pages of the addresses \<open>a\<close> to \<open>z\<close>.\<close>

definition pages_of :: "'d page_tree \<Rightarrow> 'd dir_heap \<Rightarrow> NvU32 \<Rightarrow> nat \<Rightarrow> nat \<Rightarrow> 'd table_range \<Rightarrow> bool" where
  "pages_of tree h pg_size a z r \<longleftrightarrow>
     (let bits = index_bits (pt_hal tree) (page_table_depth (pt_hal tree) pg_size) pg_size
      in range_pg_size r = pg_size \<and> range_start_index r = a div unat pg_size mod 2 ^ bits \<and>
         range_entry_count r = (z - a) div unat pg_size \<and> range_start_index r + range_entry_count r \<le> 2 ^ bits \<and>
         find_table (Suc MAX_OPERATION_DEPTH) (pt_hal tree) pg_size (of_nat a) h (pt_root tree) = Some (range_table r))"

lemma part_pages_iff:
  assumes geo: "page_geometry (pt_hal tree)" and ok: "vec_ok tree v" and C: "C = 2 ^ vec_shift tree v"
    and i: "i < range_vec_calc_range_count tree v"
  shows "part_pages tree h v i r \<longleftrightarrow> pages_of tree h (vec_page_size v) (part_start C v i) (part_end C v i) r"
proof -
  note S = unat_range_start[OF geo ok C i]
  have "range_vec_calc_range_start tree v i = of_nat (part_start C v i)" by (simp flip: S)
  then show ?thesis unfolding part_pages_def pages_of_def Let_def unat_range_end(2)[OF geo ok C i] S by simp
qed

lemma pages_of_split:
  assumes inv: "tree_ok tree T held h" and pg: "supported_page_size (pt_hal tree) pg_size" and p: "pages_of tree h pg_size a z r"
    and ord: "a < w" "w < z" "z < 2 ^ 64" and dvd: "unat pg_size dvd a" "unat pg_size dvd w" "unat pg_size dvd z"
    and one: "a div 2 ^ K = w div 2 ^ K" and K: "K = table_shift (pt_hal tree) pg_size (page_table_depth (pt_hal tree) pg_size)"
    and n: "n = (w - a) div unat pg_size"
  shows "pages_of tree h pg_size a w (r\<lparr>range_entry_count := n\<rparr>)"
    "pages_of tree h pg_size w z (r\<lparr>range_start_index := range_start_index r + n, range_entry_count := range_entry_count r - n\<rparr>)"
    "0 < n" "n < range_entry_count r"
proof -
  let ?p = "unat pg_size" and ?b = "(2::nat) ^ index_bits (pt_hal tree) (page_table_depth (pt_hal tree) pg_size) pg_size"
  obtain A W Z where e: "a = ?p * A" "w = ?p * W" "z = ?p * Z" using dvd by (auto simp: dvd_def)
  have p0: "0 < ?p" using ord e by (metis gr0I mult_is_0 less_irrefl)
  have lt: "A < W" "W < Z" using ord e p0 by simp_all
  have nn: "n = W - A" and cnt: "(z - a) div ?p = Z - A" "(z - w) div ?p = Z - W" "a div ?p = A" "w div ?p = W"
    using p0 by (simp_all add: n e flip: diff_mult_distrib2)
  have P: "range_pg_size r = pg_size" "range_start_index r = A mod ?b" "range_entry_count r = Z - A"
    "range_start_index r + range_entry_count r \<le> ?b"
    "find_table (Suc MAX_OPERATION_DEPTH) (pt_hal tree) pg_size (of_nat a) h (pt_root tree) = Some (range_table r)"
    using p unfolding pages_of_def Let_def cnt by blast+
  show "0 < n" "n < range_entry_count r" using lt nn P(3) by simp_all
  have n1: "(w - a) div ?p = n" by (simp add: n)
  have "A mod ?b + (W - A) < ?b" using P(2-4) lt by simp
  then have W: "W mod ?b = A mod ?b + n"
    using lt nn by (metis le_add_diff_inverse less_imp_le_nat mod_add_left_eq mod_less)
  have "unat (of_nat a :: NvU64) = a" "unat (of_nat w :: NvU64) = w" using ord by (simp_all add: unat_of_nat)
  then have "find_table (Suc MAX_OPERATION_DEPTH) (pt_hal tree) pg_size (of_nat w) h (pt_root tree) = Some (range_table r)"
    using P(5) find_table_va[OF inv refl _ K tree_invD(3)[OF inv], of "of_nat a" "of_nat w"] one tree_invD(5)[OF inv]
    by (simp del: find_table.simps)
  then show "pages_of tree h pg_size w z (r\<lparr>range_start_index := range_start_index r + n, range_entry_count := range_entry_count r - n\<rparr>)"
    unfolding pages_of_def Let_def cnt using P W lt nn by (simp add: add.commute)
  show "pages_of tree h pg_size a w (r\<lparr>range_entry_count := n\<rparr>)"
    unfolding pages_of_def Let_def cnt n1 using P lt nn by simp
qed

lemma remaining_pages:
  assumes geo: "page_geometry (pt_hal tree)" and s: "split_ok tree v w" and C: "C = 2 ^ vec_shift tree v"
  shows "unat ((if UVM_ALIGN_DOWN w (uvm_mmu_pde_coverage tree (vec_page_size v)) < vec_start v then w - vec_start v
      else w - UVM_ALIGN_DOWN w (uvm_mmu_pde_coverage tree (vec_page_size v))) div ucast (vec_page_size v)) =
    (unat w - part_start C v (range_vec_calc_range_index tree v w)) div unat (vec_page_size v)"
proof -
  have ok: "vec_ok tree v" and le: "vec_start v \<le> w" using s by (auto simp: split_ok_def)
  let ?base = "UVM_ALIGN_DOWN w (2 ^ vec_shift tree v)"
  have b: "unat ?base = unat w div C * C" by (simp add: unat_ALIGN_DOWN C)
  then have bw: "?base \<le> w" by (simp add: word_le_nat_alt)
  have "unat (vec_start v) div C \<le> unat w div C" using le by (simp add: word_le_nat_alt div_le_mono)
  then have k: "part_start C v (range_vec_calc_range_index tree v w) = max (unat (vec_start v)) (unat w div C * C)"
    using range_index[OF geo ok C le] by simp
  have "unat (if ?base < vec_start v then w - vec_start v else w - ?base) = unat w - max (unat (vec_start v)) (unat w div C * C)"
    using b by (simp add: unat_sub[OF le] unat_sub[OF bw] word_less_nat_alt max_def)
  moreover have "unat (ucast (vec_page_size v) :: NvU64) = unat (vec_page_size v)"
  proof -
    have "unat (vec_page_size v) < 2 ^ 32" using unsigned_less[of "vec_page_size v", where 'a = nat] by simp
    then show ?thesis by (simp add: unsigned_ucast_eq take_bit_nat_eq_self)
  qed
  ultimately show ?thesis unfolding vec_geometry(2)[OF geo ok] k by (simp only: unat_div_distrib)
qed

text \<open>A vector holds its ranges when each is for the pages of its part.\<close>

lemma vec_holdsI:
  assumes geo: "page_geometry (pt_hal tree)" and ok: "vec_ok tree v" and C: "C = 2 ^ vec_shift tree v"
    and n: "length (vec_ranges v) = range_vec_calc_range_count tree v"
    and p: "\<And>i. i < range_vec_calc_range_count tree v \<Longrightarrow> pages_of tree h (vec_page_size v) (part_start C v i) (part_end C v i) (vec_ranges v ! i)"
  shows "vec_holds tree v h"
  using ok n p part_pages_iff[OF geo ok C] by (simp add: vec_holds_def)

lemma vec_holdsD:
  assumes geo: "page_geometry (pt_hal tree)" and h: "vec_holds tree v h" and C: "C = 2 ^ vec_shift tree v" and i: "i < range_vec_calc_range_count tree v"
  shows "pages_of tree h (vec_page_size v) (part_start C v i) (part_end C v i) (vec_ranges v ! i)"
  using h part_pages_iff[OF geo _ C i, of h] i unfolding vec_holds_def by blast

text \<open>The two vectors hold their ranges, when \<open>l\<close> and \<open>u\<close> are the ranges for the pieces of the part that has \<open>w\<close>.\<close>

lemma split_holds:
  fixes v :: "'d range_vec"
  assumes geo: "page_geometry (pt_hal tree)" and holds: "vec_holds tree v h" and s: "split_ok tree v w" and C: "C = 2 ^ vec_shift tree v"
    and k: "k = range_vec_calc_range_index tree v w"
    and l: "\<not> C dvd unat w \<Longrightarrow> pages_of tree h (vec_page_size v) (part_start C v k) (unat w) l"
    and u: "pages_of tree h (vec_page_size v) (unat w) (part_end C v k) u"
  shows "vec_holds tree (lower_vec v w (take k (vec_ranges v) @ (if C dvd unat w then [] else [l]))) h"
    "vec_holds tree (upper_vec v w (u # drop (Suc k) (vec_ranges v))) h"
proof -
  let ?n = "range_vec_calc_range_count tree v" and ?rs = "vec_ranges v"
  let ?ls = "take k ?rs @ (if C dvd unat w then [] else [l])" and ?us = "u # drop (Suc k) ?rs"
  note SP = split_parts[OF geo s C, folded k] and H = vec_holdsD[OF geo holds C]
  have len: "length ?rs = ?n" using holds by (simp add: vec_holds_def)
  have kn: "k < ?n" by (rule SP(1))
  show "vec_holds tree (lower_vec v w ?ls) h"
  proof (rule vec_holdsI[OF geo split_vec_ok(1)[OF geo s], where C = C])
    fix i assume "i < range_vec_calc_range_count tree (lower_vec v w ?ls)"
    then have "i < k \<or> i = k \<and> \<not> C dvd unat w" using SP(2)[where ls = ?ls] by (auto split: if_splits)
    then show "pages_of tree h (vec_page_size (lower_vec v w ?ls)) (part_start C (lower_vec v w ?ls) i)
        (part_end C (lower_vec v w ?ls) i) (vec_ranges (lower_vec v w ?ls) ! i)"
    proof
      assume i: "i < k"
      then show ?thesis using H[of i] SP(4)[where i = i and ls = ?ls] kn len by (simp add: nth_append)
    next
      assume "i = k \<and> \<not> C dvd unat w"
      then show ?thesis using l SP(5,6)[where ls = ?ls] kn len by (simp add: nth_append)
    qed
  qed (use SP(2)[where ls = ?ls] kn len in \<open>simp_all add: C\<close>)
  show "vec_holds tree (upper_vec v w ?us) h"
  proof (rule vec_holdsI[OF geo split_vec_ok(2)[OF geo s], where C = C])
    fix i assume "i < range_vec_calc_range_count tree (upper_vec v w ?us)"
    then have i: "k + i < ?n" using SP(3)[where us = ?us] by simp
    show "pages_of tree h (vec_page_size (upper_vec v w ?us)) (part_start C (upper_vec v w ?us) i)
        (part_end C (upper_vec v w ?us) i) (vec_ranges (upper_vec v w ?us) ! i)"
    proof (cases i)
      case 0
      then show ?thesis using u SP(8)[where us = ?us] SP(9)[where i = 0 and us = ?us] by simp
    next
      case (Suc j)
      then show ?thesis using H[OF i] SP(7)[where i = i and us = ?us] SP(9)[where i = i and us = ?us] len i by simp
    qed
  qed (use SP(3)[where us = ?us] kn len in \<open>simp_all add: C\<close>)
qed

text \<open>The pieces of the part that has \<open>w\<close>, when it is cut.\<close>

lemma split_pieces:
  assumes geo: "page_geometry (pt_hal tree)" and holds: "vec_holds tree v h" and inv: "tree_ok tree T held h" and s: "split_ok tree v w"
    and C: "C = 2 ^ vec_shift tree v" and k: "k = range_vec_calc_range_index tree v w" and cut: "\<not> C dvd unat w"
    and m: "m = (unat w - part_start C v k) div unat (vec_page_size v)" and r: "r = vec_ranges v ! k"
  shows "pages_of tree h (vec_page_size v) (part_start C v k) (unat w) (r\<lparr>range_entry_count := m\<rparr>)"
    "pages_of tree h (vec_page_size v) (unat w) (part_end C v k)
       (r\<lparr>range_start_index := range_start_index r + m, range_entry_count := range_entry_count r - m\<rparr>)"
    "0 < m" "m < range_entry_count r"
proof -
  let ?p = "unat (vec_page_size v)" and ?a = "part_start C v k" and ?z = "part_end C v k"
  have ok: "vec_ok tree v" and dw: "?p dvd unat w" and pg: "supported_page_size (pt_hal tree) (vec_page_size v)"
    using s by (auto simp: split_ok_def vec_ok_def)
  note SP = split_parts[OF geo s C, folded k]
  have kn: "k < range_vec_calc_range_count tree v" by (rule SP(1))
  have rk: "pages_of tree h (vec_page_size v) ?a ?z r" using vec_holdsD[OF geo holds C kn] by (simp add: r)
  note F = part_facts[OF geo ok C refl kn]
  have "?p dvd ?a" "?p dvd ?z - ?a"
    using part_request(2,3)[OF geo ok kn] unat_range_start[OF geo ok C kn] unat_range_end(2)[OF geo ok C kn] by (metis mod_0_imp_dvd)+
  then have d: "?p dvd ?a" "?p dvd ?z" using F(1) by (metis, metis dvd_add le_add_diff_inverse less_imp_le_nat)
  have "?a div C = unat w div C" using F(3) range_index[OF geo ok C, of w] split_nat(1)[OF geo s]
    by (simp add: k word_le_nat_alt div_le_mono)
  then have one: "?a div 2 ^ vec_shift tree v = unat w div 2 ^ vec_shift tree v" by (simp add: C)
  have z: "?z < 2 ^ 64" using vec_geometry(4)[OF geo ok] by simp
  note Q = pages_of_split[OF inv pg rk SP(13)[OF cut] SP(12) z d(1) dw d(2) one refl m]
  show "pages_of tree h (vec_page_size v) ?a (unat w) (r\<lparr>range_entry_count := m\<rparr>)"
    "pages_of tree h (vec_page_size v) (unat w) ?z (r\<lparr>range_start_index := range_start_index r + m, range_entry_count := range_entry_count r - m\<rparr>)"
    "0 < m" "m < range_entry_count r" by (rule Q)+
qed

lemma split_upper_correct:
  assumes hal: "gpu_mmu_hal (pt_hal tree)" and holds: "vec_holds tree v h" and inv: "tree_ok tree T (mset (vec_ranges v) + held) h"
    and s: "split_ok tree v (new_end + 1)"
  obtains ls us where "uvm_page_table_range_vec_split_upper tree new_end True v h =
      (NV_OK, lower_vec v (new_end + 1) ls, Some (upper_vec v (new_end + 1) us), h)"
    "vec_holds tree (lower_vec v (new_end + 1) ls) h" "vec_holds tree (upper_vec v (new_end + 1) us) h"
    "tree_ok tree T (mset ls + mset us + held) h"
proof -
  define w where "w = new_end + 1"
  define C :: nat where "C = 2 ^ vec_shift tree v"
  define k where "k = range_vec_calc_range_index tree v w"
  define rs where "rs = vec_ranges v"
  define m where "m = (unat w - part_start C v k) div unat (vec_page_size v)"
  have geo: "page_geometry (pt_hal tree)" by (rule gpu_mmu_hal_geometry[OF hal])
  have s: "split_ok tree v w" using s by (simp add: w_def)
  note SP = split_parts[OF geo s C_def, folded k_def] and SH = split_holds[OF geo holds s C_def k_def, folded rs_def]
  have rem: "unat ((if UVM_ALIGN_DOWN w (uvm_mmu_pde_coverage tree (vec_page_size v)) < vec_start v then w - vec_start v
      else w - UVM_ALIGN_DOWN w (uvm_mmu_pde_coverage tree (vec_page_size v))) div ucast (vec_page_size v)) = m"
    using remaining_pages[OF geo s C_def] by (simp add: m_def k_def)
  have rk: "pages_of tree h (vec_page_size v) (part_start C v k) (part_end C v k) (rs ! k)"
    using vec_holdsD[OF geo holds C_def SP(1)] by (simp add: rs_def)
  have "k < length rs" using SP(1) holds by (simp add: vec_holds_def rs_def)
  then have rs: "rs = take k rs @ rs ! k # drop (Suc k) rs" "drop k rs = rs ! k # drop (Suc k) rs"
    by (simp_all add: id_take_nth_drop Cons_nth_drop_Suc)
  note run = uvm_page_table_range_vec_split_upper_def[of tree new_end True v h, unfolded Let_def, folded w_def, folded k_def rs_def, unfolded rem]
  show ?thesis
  proof (cases "C dvd unat w")
    case True
    then have aw: "part_start C v k = unat w" using SP(10) by simp
    note V = SH[OF _ rk[unfolded aw], simplified True if_True append_Nil2 rs(2)[symmetric] simp_thms]
    have "mset (take k rs) + mset (drop k rs) = mset rs" by (simp flip: mset_append)
    then show ?thesis using that[of "take k rs" "drop k rs"] run aw inv V by (simp add: w_def rs_def m_def)
  next
    case False
    let ?r = "rs ! k"
    let ?l = "?r\<lparr>range_entry_count := m\<rparr>" and ?u = "?r\<lparr>range_start_index := range_start_index ?r + m, range_entry_count := range_entry_count ?r - m\<rparr>"
    note P = split_pieces[OF geo holds inv s C_def k_def False m_def refl, folded rs_def]
    have inv': "tree_ok tree T (add_mset ?r (mset (take k rs) + mset (drop (Suc k) rs) + held)) h"
      using inv arg_cong[OF rs(1), of mset] by (simp add: rs_def)
    have c: "range_entry_count ?r - (range_entry_count ?r - m) = m" "0 < range_entry_count ?r - m" "range_entry_count ?r - m < range_entry_count ?r"
      using P(3,4) by simp_all
    obtain h1 where up: "uvm_page_table_range_get_upper ?r (range_entry_count ?r - m) h = (?u, h1)"
      and sh: "uvm_page_table_range_shrink tree ?r m NV_OK h1 = (?l, h)"
      and tr: "tree_ok tree T (add_mset ?l (add_mset ?u (mset (take k rs) + mset (drop (Suc k) rs) + held))) h"
      using page_table_range_split[OF inv' c(2,3) refl refl, of NV_OK] unfolding c(1) by blast
    have "tree_ok tree T (mset (take k rs @ [?l]) + mset (?u # drop (Suc k) rs) + held) h" using tr by (simp add: add_mset_commute ac_simps)
    then show ?thesis using that[of "take k rs @ [?l]" "?u # drop (Suc k) rs"] run[unfolded up] sh P(3) SH[OF P(1,2)] False by (simp add: w_def)
  qed
qed

text \<open>C14. Splitting a range vector after \<open>new_end\<close>, a page boundary inside it: the two vectors cover the two parts of the addresses, each has one range for each of its parts in the table that translates it, also
  when the boundary cuts a range; the page tree is well formed with the ranges of both held, and is unchanged. When there is no memory nothing changes.
\<close>

theorem uvm_page_table_range_vec_split_upper_correct:
  assumes hal: "gpu_mmu_hal (pt_hal tree)" and holds: "vec_holds tree v h" and inv: "tree_ok tree T (mset (vec_ranges v) + held) h"
    and s: "split_ok tree v (new_end + 1)"
  shows "if array_ok
    then \<exists>lower upper. uvm_page_table_range_vec_split_upper tree new_end array_ok v h = (NV_OK, lower, Some upper, h) \<and>
      vec_start lower = vec_start v \<and> vec_start lower + vec_size lower = new_end + 1 \<and> vec_start upper = new_end + 1 \<and>
      vec_start upper + vec_size upper = vec_start v + vec_size v \<and> vec_page_size lower = vec_page_size v \<and> vec_page_size upper = vec_page_size v \<and>
      vec_holds tree lower h \<and> vec_holds tree upper h \<and> tree_ok tree T (mset (vec_ranges lower) + mset (vec_ranges upper) + held) h
    else uvm_page_table_range_vec_split_upper tree new_end array_ok v h = (NV_ERR_NO_MEMORY, v, None, h)"
proof (cases array_ok)
  case True
  show ?thesis by (rule split_upper_correct[OF assms]) (simp add: True)
qed (simp add: uvm_page_table_range_vec_split_upper_def Let_def)

section \<open>Examples\<close>

text \<open>Two pages of 4 KB on both sides of the boundary between two tables.\<close>

definition outcomes1 :: "nat \<Rightarrow> nat \<Rightarrow> nat dir_outcome" where
  "outcomes1 i j = \<lparr>host_outcome = Some (Suc (prod_encode (i, j))), vid_outcome = Inr addr0, sys_outcome = Inr addr0\<rparr>"

definition vec0 :: "nat range_vec" where
  "vec0 = \<lparr>vec_start = 0x1ff000, vec_size = 0x2000, vec_page_size = UVM_PAGE_SIZE_4K, vec_ranges = []\<rparr>"

lemma vec0_ok: "vec_ok tree0 vec0"
  using request0(1) by (simp add: vec_ok_def vec0_def tree0_def pascal_mmu_mode_hal_def num_va_bits_pascal_def pg_sizes)

theorem range_vec_partition_witness:
  "range_vec_calc_range_start tree0 vec0 0 = 0x1ff000 \<and>
   (let i = range_vec_calc_range_index tree0 vec0 0x200000 in range_vec_calc_range_start tree0 vec0 i \<le> 0x200000 \<and> 0x200000 < range_vec_calc_range_end tree0 vec0 i)"
proof -
  have v: "vec_start vec0 = 0x1ff000" "vec_start vec0 \<le> 0x200000 \<and> 0x200000 < vec_start vec0 + vec_size vec0" by (simp_all add: vec0_def)
  note P = range_vec_partition[OF tree0_ok(1) vec0_ok refl]
  have "range_vec_calc_range_start tree0 vec0 0 = vec_start vec0" using P by blast
  moreover have "let i = range_vec_calc_range_index tree0 vec0 0x200000
      in range_vec_calc_range_start tree0 vec0 i \<le> 0x200000 \<and> 0x200000 < range_vec_calc_range_end tree0 vec0 i"
    using P v(2) unfolding Let_def by blast
  ultimately show ?thesis using v(1) by simp
qed

lemma get_ptes_loop_status:
  "get_ptes_loop fuel tree pg_size start n evict outcomes others (NV_OK, NV_OK) i cache h = Some (status, Some res, h') \<Longrightarrow> status = NV_OK"
  by (induction fuel arbitrary: i cache h) (auto simp: get_ptes_status_def map_remap_def split: option.splits walk_result.splits prod.splits if_splits)

lemma get_ranges_memory:
  assumes mem: "\<And>i j k h. fst (allocate_directory tree (vec_page_size v) k evict (outcomes i j) h) \<noteq> None"
  shows "get_ranges tree v evict outcomes others (\<lambda>_. (NV_OK, NV_OK)) is h = Some (status, rs, h') \<Longrightarrow> status = NV_OK"
proof (induction "is" arbitrary: h rs)
  case (Cons i "is")
  obtain st res h1 where get: "uvm_page_tree_get_ptes_async tree (vec_page_size v) (range_vec_calc_range_start tree v i)
      (range_vec_calc_range_size tree v i) evict (outcomes i) (others i) (NV_OK, NV_OK) h = Some (st, res, h1)"
    using Cons.prems by (auto split: option.splits)
  have "res \<noteq> None" by (rule get_ptes_loop_memory[OF mem get[unfolded uvm_page_tree_get_ptes_async_def]])
  then obtain r used where res: "res = Some (r, used)" by auto
  have "st = NV_OK" using get unfolding res uvm_page_tree_get_ptes_async_def by (rule get_ptes_loop_status)
  then show ?case using Cons.prems get res Cons.IH by auto
qed simp

lemma vec0_created:
  obtains v h T where "vec_holds tree0 v h" "tree_ok tree0 T (mset (vec_ranges v)) h" "vec_start v = 0x1ff000" "vec_size v = 0x2000" "vec_page_size v = UVM_PAGE_SIZE_4K"
proof -
  let ?get = "get_ranges tree0 vec0 True outcomes1 (\<lambda>_ _ h. h) (\<lambda>_. (NV_OK, NV_OK))"
  have "\<exists>status rs h2 T2. ?get [0..<range_vec_calc_range_count tree0 vec0] heap0 = Some (status, rs, h2) \<and>
      (\<forall>S g. grown tree0 S g {0} {#} heap0 \<longrightarrow> grown tree0 S g T2 (mset rs + {#}) h2) \<and>
      length rs \<le> range_vec_calc_range_count tree0 vec0 - 0 \<and>
      (status = NV_OK \<longrightarrow> length rs = range_vec_calc_range_count tree0 vec0 - 0 \<and>
        (\<forall>i<range_vec_calc_range_count tree0 vec0 - 0. part_pages tree0 h2 vec0 (0 + i) (rs ! i)))"
    by (rule get_ranges_correct[OF tree0_ok(1) vec0_ok refl _ le0 tree0_ok(2)])
      (auto simp: outcomes1_def tree0_ok(3))
  then obtain status rs h2 T2 where get: "?get [0..<range_vec_calc_range_count tree0 vec0] heap0 = Some (status, rs, h2)"
    and grow: "\<And>S g. grown tree0 S g {0} {#} heap0 \<Longrightarrow> grown tree0 S g T2 (mset rs) h2"
    and all: "status = NV_OK \<longrightarrow> length rs = range_vec_calc_range_count tree0 vec0 \<and> (\<forall>i<range_vec_calc_range_count tree0 vec0. part_pages tree0 h2 vec0 i (rs ! i))"
    by auto
  have "status = NV_OK" by (rule get_ranges_memory[OF _ get]) (simp add: allocate_directory_def outcomes1_def tree0_def phys_mem_allocate_def)
  then have "vec_holds tree0 (vec0\<lparr>vec_ranges := rs\<rparr>) h2" using all vec0_ok by (simp add: vec_holds_def)
  moreover have "tree_ok tree0 T2 (mset rs) h2" using grow[OF grown_refl[OF tree0_ok(2)]] by (simp add: grown_def)
  ultimately show ?thesis using that[of "vec0\<lparr>vec_ranges := rs\<rparr>" h2 T2] by (simp add: vec0_def)
qed

theorem uvm_page_table_range_vec_create_correct_witness:
  "\<exists>status res h'. uvm_page_table_range_vec_create tree0 0x1ff000 0x2000 UVM_PAGE_SIZE_4K True True True outcomes1 (\<lambda>_ _ h. h) (\<lambda>_. (NV_OK, NV_OK)) NV_OK (\<lambda>_. NV_OK) heap0 =
      Some (status, res, h') \<and> (case res of Some v \<Rightarrow> vec_holds tree0 v h' \<and> uvm_page_table_range_vec_destroy tree0 (\<lambda>_. NV_OK) v h' = heap0 | None \<Rightarrow> h' = heap0)"
proof -
  have "\<exists>status res h'. uvm_page_table_range_vec_create tree0 0x1ff000 0x2000 UVM_PAGE_SIZE_4K True True True outcomes1 (\<lambda>_ _ h. h) (\<lambda>_. (NV_OK, NV_OK)) NV_OK (\<lambda>_. NV_OK) heap0 =
      Some (status, res, h') \<and>
    (case res of
       Some v \<Rightarrow> status = NV_OK \<and> vec_start v = 0x1ff000 \<and> vec_size v = 0x2000 \<and> vec_page_size v = UVM_PAGE_SIZE_4K \<and> vec_holds tree0 v h' \<and>
         (\<exists>T'. grown tree0 {0} heap0 T' (mset (vec_ranges v) + {#}) h') \<and>
         (\<forall>destroy_status. put_back tree0 {0} {#} heap0 destroy_status (vec_ranges v) (uvm_page_table_range_vec_destroy tree0 destroy_status v h'))
     | None \<Rightarrow> status \<noteq> NV_OK \<and>
         (\<exists>rs. length rs \<le> range_vec_calc_range_count tree0 \<lparr>vec_start = 0x1ff000, vec_size = 0x2000, vec_page_size = UVM_PAGE_SIZE_4K, vec_ranges = []\<rparr> \<and>
           put_back tree0 {0} {#} heap0 (\<lambda>_. NV_OK) rs h'))"
    by (rule uvm_page_table_range_vec_create_correct[OF tree0_ok(1) vec0_ok[unfolded vec0_def] _ _ tree0_ok(2)])
      (auto simp: outcomes1_def tree0_ok(3))
  then obtain status res h' where "uvm_page_table_range_vec_create tree0 0x1ff000 0x2000 UVM_PAGE_SIZE_4K True True True outcomes1 (\<lambda>_ _ h. h) (\<lambda>_. (NV_OK, NV_OK)) NV_OK (\<lambda>_. NV_OK) heap0 =
      Some (status, res, h')"
    "case res of Some v \<Rightarrow> vec_holds tree0 v h' \<and> (\<forall>st. put_back tree0 {0} {#} heap0 st (vec_ranges v) (uvm_page_table_range_vec_destroy tree0 st v h'))
     | None \<Rightarrow> (\<exists>rs. put_back tree0 {0} {#} heap0 (\<lambda>_. NV_OK) rs h')"
    by (fastforce split: option.splits)
  then show ?thesis by (cases res) (auto dest: put_back_all spec[of _ "\<lambda>_. NV_OK"])
qed

theorem uvm_page_table_range_vec_split_upper_correct_witness:
  "\<exists>v h. vec_size v = 0x2000 \<and>
    (\<exists>lower upper. uvm_page_table_range_vec_split_upper tree0 0x1fffff True v h = (NV_OK, lower, Some upper, h) \<and>
       vec_holds tree0 lower h \<and> vec_holds tree0 upper h \<and> vec_start upper = 0x200000)"
proof (rule vec0_created)
  fix v :: "nat range_vec" and h T
  assume v: "vec_holds tree0 v h" "tree_ok tree0 T (mset (vec_ranges v)) h" "vec_start v = 0x1ff000" "vec_size v = 0x2000" "vec_page_size v = UVM_PAGE_SIZE_4K"
  have s: "split_ok tree0 v (0x1fffff + 1)" using v by (simp add: split_ok_def vec_holds_def pg_sizes)
  have "tree_ok tree0 T (mset (vec_ranges v) + {#}) h" using v(2) by simp
  from uvm_page_table_range_vec_split_upper_correct[OF tree0_ok(1) v(1) this s, of True]
  obtain lower upper where "uvm_page_table_range_vec_split_upper tree0 0x1fffff True v h = (NV_OK, lower, Some upper, h)"
    "vec_holds tree0 lower h" "vec_holds tree0 upper h" "vec_start upper = 0x200000" by auto
  then show ?thesis using v(4) by blast
qed

end
