(* ===== verification/Copy_Engine.thy ===== *)
theory Copy_Engine
  imports Mmu_Hal
begin

text \<open>
  The commands of a push and the copy engine functions that push them: the flags of
  \<^verbatim>\<open>uvm_push.h\<close>, the membars of \<^verbatim>\<open>uvm_hal.h\<close>, and the memcopy and memset functions of
  \<^verbatim>\<open>uvm_maxwell_ce.c\<close> (Maxwell and Pascal), \<^verbatim>\<open>uvm_volta_ce.c\<close> (Volta to Ampere) and \<^verbatim>\<open>uvm_hopper_ce.c\<close>.
  A command is a value; what the commands do to memory is \<open>run_cmd\<close>. Memory is a map
  from apertures and addresses to bytes. The source of a copy is inline data of the same push, so that the
  command carries the bytes. A virtual address is one of the flat mapping of vidmem: \<^verbatim>\<open>uvm_mmu_gpu_address\<close>
  makes no other. The contract of the functions is a locale, interpreted on the three generations.
\<close>

section \<open>Addresses and pushes\<close>

record gpu_address =
  ga_address :: NvU64
  ga_aperture :: aperture
  ga_is_virtual :: bool

definition uvm_gpu_address_virtual :: "NvU64 \<Rightarrow> gpu_address" where
  "uvm_gpu_address_virtual va = \<lparr>ga_address = va, ga_aperture = UVM_APERTURE_MAX, ga_is_virtual = True\<rparr>"

definition uvm_gpu_address_physical :: "aperture \<Rightarrow> NvU64 \<Rightarrow> gpu_address" where
  "uvm_gpu_address_physical ap pa = \<lparr>ga_address = pa, ga_aperture = ap, ga_is_virtual = False\<rparr>"

definition uvm_gpu_address_from_phys :: "gpu_phys_address \<Rightarrow> gpu_address" where
  "uvm_gpu_address_from_phys a = uvm_gpu_address_physical (phys_aperture a) (phys_address a)"

text \<open>What the functions read of the GPU. Whether a static or a dynamic flat mapping of vidmem is needed is one flag.\<close>

record gpu_config =
  ce_phys_vidmem_write_supported :: bool
  needs_vidmem_mapping :: bool
  flat_vidmem_va_base :: NvU64

definition uvm_gpu_address_virtual_from_vidmem_phys :: "gpu_config \<Rightarrow> NvU64 \<Rightarrow> gpu_address" where
  "uvm_gpu_address_virtual_from_vidmem_phys gpu pa = uvm_gpu_address_virtual (flat_vidmem_va_base gpu + pa)"

definition uvm_mmu_gpu_address :: "gpu_config \<Rightarrow> gpu_phys_address \<Rightarrow> gpu_address" where
  "uvm_mmu_gpu_address gpu a =
     (if phys_aperture a = UVM_APERTURE_VID \<and> \<not> ce_phys_vidmem_write_supported gpu
      then uvm_gpu_address_virtual_from_vidmem_phys gpu (phys_address a)
      else uvm_gpu_address_from_phys a)"

definition ga_add :: "gpu_address \<Rightarrow> nat \<Rightarrow> gpu_address" where
  "ga_add a n = a\<lparr>ga_address := ga_address a + of_nat n\<rparr>"

datatype push_flag =
    UVM_PUSH_FLAG_CE_NEXT_PIPELINED
  | UVM_PUSH_FLAG_NEXT_MEMBAR_NONE
  | UVM_PUSH_FLAG_NEXT_MEMBAR_GPU

text \<open>
  Copies and fills say whether they are pipelined and which flush follows them. A fill writes
  a number of elements with the pattern of the remap constants; the scrubber writes a number of bytes of
  that pattern.
\<close>

datatype gpu_cmd =
    Ce_Copy gpu_address "NvU8 list" bool membar
  | Ce_Fill gpu_address "NvU8 list" nat bool membar
  | Ce_Scrub gpu_address "NvU8 list" nat bool membar
  | Host_Wait_For_Idle
  | Host_Membar_Gpu
  | Host_Membar_Sys
  | Host_Noop nat

record gpu_push =
  push_flags :: "push_flag set"
  push_cmds :: "gpu_cmd list"

definition push_cmd :: "gpu_cmd \<Rightarrow> gpu_push \<Rightarrow> gpu_push" where
  "push_cmd c p = p\<lparr>push_cmds := push_cmds p @ [c]\<rparr>"

definition uvm_push_set_flag :: "push_flag \<Rightarrow> gpu_push \<Rightarrow> gpu_push" where
  "uvm_push_set_flag f p = p\<lparr>push_flags := insert f (push_flags p)\<rparr>"

definition uvm_push_get_and_reset_flag :: "push_flag \<Rightarrow> gpu_push \<Rightarrow> bool \<times> gpu_push" where
  "uvm_push_get_and_reset_flag f p = (f \<in> push_flags p, p\<lparr>push_flags := push_flags p - {f}\<rparr>)"

definition uvm_push_get_and_reset_membar_flag :: "gpu_push \<Rightarrow> membar \<times> gpu_push" where
  "uvm_push_get_and_reset_membar_flag p =
     (let (none, p) = uvm_push_get_and_reset_flag UVM_PUSH_FLAG_NEXT_MEMBAR_NONE p
      in if none then (UVM_MEMBAR_NONE, p)
         else
           let (gpu, p) = uvm_push_get_and_reset_flag UVM_PUSH_FLAG_NEXT_MEMBAR_GPU p
           in (if gpu then UVM_MEMBAR_GPU else UVM_MEMBAR_SYS, p))"

definition uvm_hal_membar :: "membar \<Rightarrow> gpu_push \<Rightarrow> gpu_push" where
  "uvm_hal_membar m p =
     (case m of
        UVM_MEMBAR_SYS \<Rightarrow> push_cmd Host_Membar_Sys p
      | UVM_MEMBAR_GPU \<Rightarrow> push_cmd Host_Membar_Gpu p
      | UVM_MEMBAR_NONE \<Rightarrow> p)"

definition uvm_hal_wfi_membar :: "membar \<Rightarrow> gpu_push \<Rightarrow> gpu_push" where
  "uvm_hal_wfi_membar m p = uvm_hal_membar m (push_cmd Host_Wait_For_Idle p)"

section \<open>Transfers\<close>

definition max_single_transfer :: nat where "max_single_transfer = 0xFFFFFFFF"

text \<open>
  The loop of every transfer function: at most \<open>max_single_transfer\<close> elements at a time. The body gets
  the destination, the number of elements done before, the number for this time, whether this is the last
  operation, and whether it is pipelined; \<open>again\<close> says whether the operations after the first are pipelined.
\<close>

function transfer_loop ::
    "(gpu_address \<Rightarrow> nat \<Rightarrow> nat \<Rightarrow> bool \<Rightarrow> bool \<Rightarrow> gpu_push \<Rightarrow> gpu_push) \<Rightarrow> nat \<Rightarrow> bool \<Rightarrow>
     gpu_address \<Rightarrow> nat \<Rightarrow> nat \<Rightarrow> bool \<Rightarrow> gpu_push \<Rightarrow> gpu_push" where
  "transfer_loop body element_size again dst off n pipelined p =
     (let this_time = min n max_single_transfer;
          p = body dst off this_time (n = this_time) pipelined p
      in if n - this_time > 0
         then transfer_loop body element_size again (ga_add dst (this_time * element_size)) (off + this_time)
                (n - this_time) again p
         else p)"
  by pat_completeness auto
termination
  by (relation "measure (\<lambda>(body, element_size, again, dst, off, n, pipelined, p). n)")
    (auto simp: max_single_transfer_def)

declare transfer_loop.simps [simp del]

definition bytes :: "nat \<Rightarrow> 'a::len word \<Rightarrow> NvU8 list" where
  "bytes k w = map (\<lambda>i. ucast (drop_bit (8 * i) w)) [0..<k]"

definition pattern_1 :: "NvU8 \<Rightarrow> NvU8 list" where "pattern_1 v = bytes 1 v"
definition pattern_4 :: "NvU32 \<Rightarrow> NvU8 list" where "pattern_4 v = bytes 4 v"

definition pattern_8 :: "NvU64 \<Rightarrow> NvU8 list" where
  "pattern_8 v = bytes 4 (ucast v :: NvU32) @ bytes 4 (ucast (drop_bit 32 v) :: NvU32)"

subsection \<open>Maxwell and Pascal\<close>

definition maxwell_membar_after_transfer :: "gpu_push \<Rightarrow> gpu_push" where
  "maxwell_membar_after_transfer p =
     (let (none, p) = uvm_push_get_and_reset_flag UVM_PUSH_FLAG_NEXT_MEMBAR_NONE p
      in if none then p
         else
           let p = push_cmd Host_Wait_For_Idle p;
               (gpu, p) = uvm_push_get_and_reset_flag UVM_PUSH_FLAG_NEXT_MEMBAR_GPU p
           in push_cmd (if gpu then Host_Membar_Gpu else Host_Membar_Sys) p)"

definition uvm_hal_maxwell_ce_memcopy :: "gpu_address \<Rightarrow> NvU8 list \<Rightarrow> gpu_push \<Rightarrow> gpu_push" where
  "uvm_hal_maxwell_ce_memcopy dst src p =
     (let (pipelined, p) = uvm_push_get_and_reset_flag UVM_PUSH_FLAG_CE_NEXT_PIPELINED p;
          p = transfer_loop
                (\<lambda>dst off n is_last pipelined p.
                   push_cmd (Ce_Copy dst (take n (drop off src)) pipelined UVM_MEMBAR_NONE) p)
                1 True dst 0 (length src) pipelined p
      in maxwell_membar_after_transfer p)"

definition maxwell_memset_common :: "gpu_address \<Rightarrow> NvU8 list \<Rightarrow> nat \<Rightarrow> gpu_push \<Rightarrow> gpu_push" where
  "maxwell_memset_common dst pattern n p =
     (let (pipelined, p) = uvm_push_get_and_reset_flag UVM_PUSH_FLAG_CE_NEXT_PIPELINED p;
          p = transfer_loop
                (\<lambda>dst off n is_last pipelined p. push_cmd (Ce_Fill dst pattern n pipelined UVM_MEMBAR_NONE) p)
                (length pattern) True dst 0 n pipelined p
      in maxwell_membar_after_transfer p)"

definition uvm_hal_maxwell_ce_memset_1 :: "gpu_address \<Rightarrow> NvU8 \<Rightarrow> nat \<Rightarrow> gpu_push \<Rightarrow> gpu_push" where
  "uvm_hal_maxwell_ce_memset_1 dst v n = maxwell_memset_common dst (pattern_1 v) n"

definition uvm_hal_maxwell_ce_memset_4 :: "gpu_address \<Rightarrow> NvU32 \<Rightarrow> nat \<Rightarrow> gpu_push \<Rightarrow> gpu_push" where
  "uvm_hal_maxwell_ce_memset_4 dst v n = maxwell_memset_common dst (pattern_4 v) (n div 4)"

definition uvm_hal_maxwell_ce_memset_8 :: "gpu_address \<Rightarrow> NvU64 \<Rightarrow> nat \<Rightarrow> gpu_push \<Rightarrow> gpu_push" where
  "uvm_hal_maxwell_ce_memset_8 dst v n = maxwell_memset_common dst (pattern_8 v) (n div 8)"

subsection \<open>Volta to Ampere\<close>

text \<open>The flush of the last operation takes the place of the host membar.\<close>

definition flush_of_last :: "bool \<Rightarrow> gpu_push \<Rightarrow> membar \<times> gpu_push" where
  "flush_of_last is_last p = (if is_last then uvm_push_get_and_reset_membar_flag p else (UVM_MEMBAR_NONE, p))"

definition uvm_hal_volta_ce_memcopy :: "gpu_address \<Rightarrow> NvU8 list \<Rightarrow> gpu_push \<Rightarrow> gpu_push" where
  "uvm_hal_volta_ce_memcopy dst src p =
     (let (pipelined, p) = uvm_push_get_and_reset_flag UVM_PUSH_FLAG_CE_NEXT_PIPELINED p
      in transfer_loop
           (\<lambda>dst off n is_last pipelined p.
              let (flush, p) = flush_of_last is_last p
              in push_cmd (Ce_Copy dst (take n (drop off src)) pipelined flush) p)
           1 True dst 0 (length src) pipelined p)"

definition volta_memset_common :: "gpu_address \<Rightarrow> NvU8 list \<Rightarrow> nat \<Rightarrow> gpu_push \<Rightarrow> gpu_push" where
  "volta_memset_common dst pattern n p =
     (let (pipelined, p) = uvm_push_get_and_reset_flag UVM_PUSH_FLAG_CE_NEXT_PIPELINED p
      in transfer_loop
           (\<lambda>dst off n is_last pipelined p.
              let (flush, p) = flush_of_last is_last p
              in push_cmd (Ce_Fill dst pattern n pipelined flush) p)
           (length pattern) False dst 0 n pipelined p)"

definition uvm_hal_volta_ce_memset_1 :: "gpu_address \<Rightarrow> NvU8 \<Rightarrow> nat \<Rightarrow> gpu_push \<Rightarrow> gpu_push" where
  "uvm_hal_volta_ce_memset_1 dst v n = volta_memset_common dst (pattern_1 v) n"

definition uvm_hal_volta_ce_memset_4 :: "gpu_address \<Rightarrow> NvU32 \<Rightarrow> nat \<Rightarrow> gpu_push \<Rightarrow> gpu_push" where
  "uvm_hal_volta_ce_memset_4 dst v n = volta_memset_common dst (pattern_4 v) (n div 4)"

definition uvm_hal_volta_ce_memset_8 :: "gpu_address \<Rightarrow> NvU64 \<Rightarrow> nat \<Rightarrow> gpu_push \<Rightarrow> gpu_push" where
  "uvm_hal_volta_ce_memset_8 dst v n = volta_memset_common dst (pattern_8 v) (n div 8)"

subsection \<open>Hopper\<close>

definition UVM_GPU_MAX_PHYS_MEM :: NvU64 where "UVM_GPU_MAX_PHYS_MEM = 0x10000000000"

definition va_is_flat_vidmem :: "gpu_config \<Rightarrow> NvU64 \<Rightarrow> bool" where
  "va_is_flat_vidmem gpu va \<longleftrightarrow>
     needs_vidmem_mapping gpu \<and> va \<ge> flat_vidmem_va_base gpu \<and>
     va < flat_vidmem_va_base gpu + UVM_GPU_MAX_PHYS_MEM"

definition hopper_scrub_enable :: "gpu_config \<Rightarrow> gpu_address \<Rightarrow> nat \<Rightarrow> bool \<times> gpu_address" where
  "hopper_scrub_enable gpu dst n =
     (if \<not> 4096 dvd unat (ga_address dst) \<or> \<not> 4096 dvd n then (False, dst)
      else if ga_is_virtual dst \<and> \<not> ce_phys_vidmem_write_supported gpu \<and> va_is_flat_vidmem gpu (ga_address dst)
      then (True, uvm_gpu_address_physical UVM_APERTURE_VID (ga_address dst - flat_vidmem_va_base gpu))
      else (\<not> ga_is_virtual dst \<and> ga_aperture dst = UVM_APERTURE_VID, dst))"

definition hopper_memset_common :: "gpu_config \<Rightarrow> gpu_address \<Rightarrow> NvU8 list \<Rightarrow> nat \<Rightarrow> gpu_push \<Rightarrow> gpu_push" where
  "hopper_memset_common gpu dst pattern n p =
     (let (is_scrub, dst) = hopper_scrub_enable gpu dst (n * length pattern);
          (pipelined, p) = uvm_push_get_and_reset_flag UVM_PUSH_FLAG_CE_NEXT_PIPELINED p
      in if length pattern = 8 \<and> is_scrub
         then transfer_loop
                (\<lambda>dst off n is_last pipelined p.
                   let (flush, p) = flush_of_last is_last p
                   in push_cmd (Ce_Scrub dst pattern n pipelined flush) p)
                1 True dst 0 (n * length pattern) pipelined p
         else transfer_loop
                (\<lambda>dst off n is_last pipelined p.
                   let (flush, p) = flush_of_last is_last p
                   in push_cmd (Ce_Fill dst pattern n pipelined flush) p)
                (length pattern) True dst 0 n pipelined p)"

definition uvm_hal_hopper_ce_memset_8 ::
    "gpu_config \<Rightarrow> gpu_address \<Rightarrow> NvU64 \<Rightarrow> nat \<Rightarrow> gpu_push \<Rightarrow> gpu_push" where
  "uvm_hal_hopper_ce_memset_8 gpu dst v n = hopper_memset_common gpu dst (pattern_8 v) (n div 8)"

text \<open>The value of a narrower fill repeated over 64 bits, for the scrubber.\<close>

definition repeat_1 :: "NvU8 \<Rightarrow> NvU64" where
  "repeat_1 v = (let v64 = ucast v; v64 = v64 OR push_bit 8 v64; v64 = v64 OR push_bit 16 v64
     in v64 OR push_bit 32 v64)"

definition repeat_4 :: "NvU32 \<Rightarrow> NvU64" where
  "repeat_4 v = (let v64 = ucast v in v64 OR push_bit 32 v64)"

definition uvm_hal_hopper_ce_memset_1 ::
    "gpu_config \<Rightarrow> gpu_address \<Rightarrow> NvU8 \<Rightarrow> nat \<Rightarrow> gpu_push \<Rightarrow> gpu_push" where
  "uvm_hal_hopper_ce_memset_1 gpu dst v n =
     (let (scrub, dst) = hopper_scrub_enable gpu dst n
      in if scrub
         then uvm_hal_hopper_ce_memset_8 gpu dst (repeat_1 v) n
         else hopper_memset_common gpu dst (pattern_1 v) n)"

definition uvm_hal_hopper_ce_memset_4 ::
    "gpu_config \<Rightarrow> gpu_address \<Rightarrow> NvU32 \<Rightarrow> nat \<Rightarrow> gpu_push \<Rightarrow> gpu_push" where
  "uvm_hal_hopper_ce_memset_4 gpu dst v n =
     (let (scrub, dst) = hopper_scrub_enable gpu dst n
      in if scrub
         then uvm_hal_hopper_ce_memset_8 gpu dst (repeat_4 v) n
         else hopper_memset_common gpu dst (pattern_4 v) (n div 4))"

subsection \<open>The table of functions\<close>

record ce_hal =
  ce_memcopy :: "gpu_address \<Rightarrow> NvU8 list \<Rightarrow> gpu_push \<Rightarrow> gpu_push"
  ce_memset_1 :: "gpu_address \<Rightarrow> NvU8 \<Rightarrow> nat \<Rightarrow> gpu_push \<Rightarrow> gpu_push"
  ce_memset_4 :: "gpu_address \<Rightarrow> NvU32 \<Rightarrow> nat \<Rightarrow> gpu_push \<Rightarrow> gpu_push"
  ce_memset_8 :: "gpu_address \<Rightarrow> NvU64 \<Rightarrow> nat \<Rightarrow> gpu_push \<Rightarrow> gpu_push"

definition maxwell_ce_hal :: ce_hal where
  "maxwell_ce_hal = \<lparr>ce_memcopy = uvm_hal_maxwell_ce_memcopy, ce_memset_1 = uvm_hal_maxwell_ce_memset_1,
     ce_memset_4 = uvm_hal_maxwell_ce_memset_4, ce_memset_8 = uvm_hal_maxwell_ce_memset_8\<rparr>"

definition volta_ce_hal :: ce_hal where
  "volta_ce_hal = \<lparr>ce_memcopy = uvm_hal_volta_ce_memcopy, ce_memset_1 = uvm_hal_volta_ce_memset_1,
     ce_memset_4 = uvm_hal_volta_ce_memset_4, ce_memset_8 = uvm_hal_volta_ce_memset_8\<rparr>"

definition hopper_ce_hal :: "gpu_config \<Rightarrow> ce_hal" where
  "hopper_ce_hal gpu = volta_ce_hal\<lparr>ce_memset_1 := uvm_hal_hopper_ce_memset_1 gpu,
     ce_memset_4 := uvm_hal_hopper_ce_memset_4 gpu, ce_memset_8 := uvm_hal_hopper_ce_memset_8 gpu\<rparr>"

section \<open>What the commands do\<close>

type_synonym phys_mem = "aperture \<times> NvU64 \<Rightarrow> NvU8"

definition location :: "gpu_config \<Rightarrow> gpu_address \<Rightarrow> aperture \<times> NvU64" where
  "location gpu a =
     (if ga_is_virtual a then (UVM_APERTURE_VID, ga_address a - flat_vidmem_va_base gpu)
      else (ga_aperture a, ga_address a))"

fun write_bytes :: "aperture \<times> NvU64 \<Rightarrow> NvU8 list \<Rightarrow> phys_mem \<Rightarrow> phys_mem" where
  "write_bytes l [] m = m"
| "write_bytes l (b # bs) m = write_bytes (fst l, snd l + 1) bs (m(l := b))"

definition fill :: "NvU8 list \<Rightarrow> nat \<Rightarrow> NvU8 list" where
  "fill pattern n = concat (replicate n pattern)"

fun run_cmd :: "gpu_config \<Rightarrow> gpu_cmd \<Rightarrow> phys_mem \<Rightarrow> phys_mem" where
  "run_cmd gpu (Ce_Copy dst data _ _) = write_bytes (location gpu dst) data"
| "run_cmd gpu (Ce_Fill dst pattern n _ _) = write_bytes (location gpu dst) (fill pattern n)"
| "run_cmd gpu (Ce_Scrub dst pattern n _ _) = write_bytes (location gpu dst) (take n (fill pattern n))"
| "run_cmd gpu _ = id"

definition run_push :: "gpu_config \<Rightarrow> gpu_push \<Rightarrow> phys_mem \<Rightarrow> phys_mem" where
  "run_push gpu p = fold (run_cmd gpu) (push_cmds p)"

section \<open>Facts about transfers\<close>

lemma write_bytes_append:
  "write_bytes l (xs @ ys) m = write_bytes (fst l, snd l + of_nat (length xs)) ys (write_bytes l xs m)"
  by (induction xs arbitrary: l m) (simp_all add: algebra_simps)

lemma location_ga_add [simp]:
  "location gpu (ga_add a n) = (fst (location gpu a), snd (location gpu a) + of_nat n)"
  by (simp add: location_def ga_add_def)

lemma ga_add_0 [simp]: "ga_add a 0 = a"
  by (simp add: ga_add_def)

lemma ga_add_add [simp]: "ga_add (ga_add a m) n = ga_add a (m + n)"
  by (simp add: ga_add_def algebra_simps)

lemma location_mmu_gpu_address [simp]:
  "location gpu (uvm_mmu_gpu_address gpu a) = (phys_aperture a, phys_address a)"
  by (simp add: location_def uvm_mmu_gpu_address_def uvm_gpu_address_virtual_from_vidmem_phys_def
      uvm_gpu_address_virtual_def uvm_gpu_address_from_phys_def uvm_gpu_address_physical_def)

lemma run_push_cmd [simp]: "run_push gpu (push_cmd c p) m = run_cmd gpu c (run_push gpu p m)"
  by (simp add: run_push_def push_cmd_def)

lemma push_cmd_fields [simp]:
  "push_flags (push_cmd c p) = push_flags p" "push_cmds (push_cmd c p) = push_cmds p @ [c]"
  by (simp_all add: push_cmd_def)

lemma run_push_flags [simp]: "run_push gpu (p\<lparr>push_flags := F\<rparr>) = run_push gpu p"
  by (simp add: run_push_def)

lemma set_flag_fields [simp]:
  "push_flags (uvm_push_set_flag f p) = insert f (push_flags p)"
  "push_cmds (uvm_push_set_flag f p) = push_cmds p"
  "run_push gpu (uvm_push_set_flag f p) = run_push gpu p"
  by (simp_all add: uvm_push_set_flag_def)

lemma fill_add: "fill pat (a + b) = fill pat a @ fill pat b"
  by (simp add: fill_def replicate_add)

lemma length_fill [simp]: "length (fill pat n) = n * length pat"
  by (induction n) (simp_all add: fill_def)

lemma length_bytes [simp]: "length (bytes k w) = k"
  by (simp add: bytes_def)

lemma pattern_8_eq: "pattern_8 v = bytes 8 v"
proof -
  have "8 * (i - 4) + 32 = 8 * i" if "\<not> i < 4" for i :: nat using that by simp
  then have "bytes 8 v = bytes 4 v @ map (\<lambda>i. ucast (drop_bit (8 * (i + 4)) v)) [0..<4]"
    by (intro nth_equalityI) (auto simp: bytes_def nth_append)
  moreover have "bytes 4 (ucast v :: NvU32) = bytes 4 v"
    by (rule nth_equalityI) (auto simp: bytes_def bit_eq_iff bit_simps)
  moreover have "bytes 4 (ucast (drop_bit 32 v) :: NvU32) = map (\<lambda>i. ucast (drop_bit (8 * (i + 4)) v)) [0..<4]"
    by (rule nth_equalityI) (auto simp: bytes_def bit_eq_iff bit_simps algebra_simps)
  ultimately show ?thesis by (simp add: pattern_8_def)
qed

lemma transfer_loop_once:
  "n \<le> max_single_transfer \<Longrightarrow> transfer_loop body esize again dst off n pip p = body dst off n True pip p"
  by (subst transfer_loop.simps) (simp add: Let_def min_absorb1)

text \<open>A loop whose body writes its piece writes the whole.\<close>

lemma transfer_loop_effect:
  assumes body: "\<And>dst off k l pip p m. off + k \<le> N \<Longrightarrow> run_push gpu (body dst off k l pip p) m =
      write_bytes (location gpu dst) (piece off k) (run_push gpu p m)"
    and split: "\<And>off a b. piece off (a + b) = piece off a @ piece (off + a) b"
    and len: "\<And>off k. off + k \<le> N \<Longrightarrow> length (piece off k) = k * esize"
    and "off + n \<le> N"
  shows "run_push gpu (transfer_loop body esize again dst off n pip p) m =
    write_bytes (location gpu dst) (piece off n) (run_push gpu p m)"
  using assms(4)
proof (induction n arbitrary: dst off pip p m rule: less_induct)
  case (less n)
  show ?case
  proof (cases "max_single_transfer < n")
    case True
    let ?k = max_single_transfer
    let ?p = "body dst off ?k False pip p"
    have "run_push gpu (transfer_loop body esize again dst off n pip p) m =
        run_push gpu (transfer_loop body esize again (ga_add dst (?k * esize)) (off + ?k) (n - ?k) again ?p) m"
      using True by (subst transfer_loop.simps) (simp add: Let_def min_absorb2)
    also have "\<dots> = write_bytes (location gpu (ga_add dst (?k * esize))) (piece (off + ?k) (n - ?k)) (run_push gpu ?p m)"
      using True less.prems by (intro less.IH) (auto simp: max_single_transfer_def)
    also have "run_push gpu ?p m = write_bytes (location gpu dst) (piece off ?k) (run_push gpu p m)"
      using True less.prems by (intro body) simp
    also have "write_bytes (location gpu (ga_add dst (?k * esize))) (piece (off + ?k) (n - ?k)) \<dots> =
        write_bytes (location gpu dst) (piece off ?k @ piece (off + ?k) (n - ?k)) (run_push gpu p m)"
      using True less.prems by (simp add: write_bytes_append len)
    also have "piece off ?k @ piece (off + ?k) (n - ?k) = piece off n"
      using split[of off ?k "n - ?k"] True by simp
    finally show ?thesis .
  next
    case False
    with less.prems show ?thesis by (simp add: transfer_loop_once body)
  qed
qed

text \<open>A loop ends with its body's last operation.\<close>

lemma transfer_loop_last:
  assumes "\<And>dst off k pip p. push_flags (body dst off k False pip p) = push_flags p"
  shows "\<exists>dst' off' k' pip' q. transfer_loop body esize again dst off n pip p = body dst' off' k' True pip' q \<and>
    push_flags q = push_flags p"
proof (induction n arbitrary: dst off pip p rule: less_induct)
  case (less n)
  show ?case
  proof (cases "max_single_transfer < n")
    case True
    let ?k = max_single_transfer
    have "transfer_loop body esize again dst off n pip p =
        transfer_loop body esize again (ga_add dst (?k * esize)) (off + ?k) (n - ?k) again (body dst off ?k False pip p)"
      using True by (subst transfer_loop.simps) (simp add: Let_def min_absorb2)
    moreover have "n - ?k < n" using True by (simp add: max_single_transfer_def)
    ultimately show ?thesis using less.IH[of "n - ?k"] assms by metis
  next
    case False
    then show ?thesis using transfer_loop_once[of n] by (metis not_le)
  qed
qed


section \<open>The contract of a copy engine\<close>

definition requested_membar :: "gpu_push \<Rightarrow> membar" where
  "requested_membar p = fst (uvm_push_get_and_reset_membar_flag p)"

definition transfer_flags :: "push_flag set \<Rightarrow> push_flag set" where
  "transfer_flags F =
     F - {UVM_PUSH_FLAG_CE_NEXT_PIPELINED, UVM_PUSH_FLAG_NEXT_MEMBAR_NONE} -
     (if UVM_PUSH_FLAG_NEXT_MEMBAR_NONE \<in> F then {} else {UVM_PUSH_FLAG_NEXT_MEMBAR_GPU})"

text \<open>The membar in force after the last transfer of a list of commands: its own flush, or a host membar behind a wait for idle.\<close>

fun last_membar :: "gpu_cmd list \<Rightarrow> membar" where
  "last_membar (Ce_Copy _ _ _ f # _) = f"
| "last_membar (Ce_Fill _ _ _ _ f # _) = f"
| "last_membar (Ce_Scrub _ _ _ _ f # _) = f"
| "last_membar (Host_Membar_Gpu # Host_Wait_For_Idle # _) = UVM_MEMBAR_GPU"
| "last_membar (Host_Membar_Sys # Host_Wait_For_Idle # _) = UVM_MEMBAR_SYS"
| "last_membar _ = UVM_MEMBAR_NONE"

definition trailing_membar :: "gpu_push \<Rightarrow> membar" where
  "trailing_membar p = last_membar (rev (push_cmds p))"

definition transfer_ok :: "gpu_config \<Rightarrow> gpu_address \<Rightarrow> NvU8 list \<Rightarrow> gpu_push \<Rightarrow> gpu_push \<Rightarrow> bool" where
  "transfer_ok gpu dst data p q \<longleftrightarrow>
     (\<forall>m. run_push gpu q m = write_bytes (location gpu dst) data (run_push gpu p m)) \<and>
     push_flags q = transfer_flags (push_flags p) \<and> trailing_membar q = requested_membar p"

locale copy_engine =
  fixes gpu :: gpu_config and hal :: ce_hal
  assumes memcopy_ok: "length data \<le> max_single_transfer \<Longrightarrow> transfer_ok gpu dst data p (ce_memcopy hal dst data p)"
    and memset_1_ok: "n \<le> max_single_transfer \<Longrightarrow>
      transfer_ok gpu dst (fill (bytes 1 v1) n) p (ce_memset_1 hal dst v1 n p)"
    and memset_4_ok: "n \<le> max_single_transfer \<Longrightarrow>
      transfer_ok gpu dst (fill (bytes 4 v4) (n div 4)) p (ce_memset_4 hal dst v4 n p)"
    and memset_8_ok: "n \<le> max_single_transfer \<Longrightarrow>
      transfer_ok gpu dst (fill (bytes 8 v8) (n div 8)) p (ce_memset_8 hal dst v8 n p)"
begin

lemma memcopy_run:
  assumes "length data \<le> max_single_transfer"
  shows "run_push gpu (ce_memcopy hal dst data p) m = write_bytes (location gpu dst) data (run_push gpu p m)"
    and "push_flags (ce_memcopy hal dst data p) = transfer_flags (push_flags p)"
  using memcopy_ok[OF assms, of dst p] by (simp_all add: transfer_ok_def)

lemma memset_8_run:
  assumes "n \<le> max_single_transfer"
  shows "run_push gpu (ce_memset_8 hal dst v n p) m = write_bytes (location gpu dst) (fill (bytes 8 v) (n div 8)) (run_push gpu p m)"
    and "push_flags (ce_memset_8 hal dst v n p) = transfer_flags (push_flags p)"
  using memset_8_ok[OF assms, of dst v p] by (simp_all add: transfer_ok_def)

end

lemmas push_flag_defs = uvm_push_get_and_reset_flag_def uvm_push_get_and_reset_membar_flag_def
  transfer_flags_def requested_membar_def flush_of_last_def

lemma piece_copy:
  "take (a + b) (drop off src) = take a (drop off src) @ take b (drop (off + a) src)"
  by (metis drop_drop take_add add.commute)

lemma maxwell_loop_ok:
  assumes mk: "\<And>dst off k pip. off + k \<le> n \<Longrightarrow> run_cmd gpu (mk dst off k pip) = write_bytes (location gpu dst) (piece off k)"
    and split: "\<And>off a b. piece off (a + b) = piece off a @ piece (off + a) b"
    and len: "\<And>off k. off + k \<le> n \<Longrightarrow> length (piece off k) = k * esize"
    and none: "\<And>dst off k pip cs. last_membar (mk dst off k pip # cs) = UVM_MEMBAR_NONE"
  shows "transfer_ok gpu dst (piece 0 n) p
    (let (pip, p) = uvm_push_get_and_reset_flag UVM_PUSH_FLAG_CE_NEXT_PIPELINED p
     in maxwell_membar_after_transfer
          (transfer_loop (\<lambda>dst off k is_last pip p. push_cmd (mk dst off k pip) p) esize again dst 0 n pip p))"
proof -
  obtain pip p' where p': "uvm_push_get_and_reset_flag UVM_PUSH_FLAG_CE_NEXT_PIPELINED p = (pip, p')" by fastforce
  let ?body = "\<lambda>dst off k is_last pip p. push_cmd (mk dst off k pip) p"
  let ?q = "transfer_loop ?body esize again dst 0 n pip p'"
  have eff: "run_push gpu ?q m = write_bytes (location gpu dst) (piece 0 n) (run_push gpu p' m)" for m
    by (rule transfer_loop_effect[where N = n]) (simp_all add: mk split len)
  have "\<exists>dst' off' k' pip' q. ?q = push_cmd (mk dst' off' k' pip') q \<and> push_flags q = push_flags p'"
    by (rule transfer_loop_last) simp
  then obtain c q where q: "?q = push_cmd c q" "push_flags q = push_flags p'" "\<And>cs. last_membar (c # cs) = UVM_MEMBAR_NONE"
    using none by metis
  then have "push_flags ?q = push_flags p'" "trailing_membar ?q = UVM_MEMBAR_NONE"
    by (simp_all add: trailing_membar_def)
  with eff p' show ?thesis
    by (auto simp: transfer_ok_def maxwell_membar_after_transfer_def push_flag_defs trailing_membar_def
        push_cmd_def run_push_def Let_def)
qed

lemma volta_loop_ok:
  assumes mk: "\<And>dst off k pip f. off + k \<le> n \<Longrightarrow> run_cmd gpu (mk dst off k pip f) = write_bytes (location gpu dst) (piece off k)"
    and split: "\<And>off a b. piece off (a + b) = piece off a @ piece (off + a) b"
    and len: "\<And>off k. off + k \<le> n \<Longrightarrow> length (piece off k) = k * esize"
    and flush: "\<And>dst off k pip f cs. last_membar (mk dst off k pip f # cs) = f"
  shows "transfer_ok gpu dst (piece 0 n) p
    (let (pip, p) = uvm_push_get_and_reset_flag UVM_PUSH_FLAG_CE_NEXT_PIPELINED p
     in transfer_loop (\<lambda>dst off k is_last pip p. let (f, p) = flush_of_last is_last p in push_cmd (mk dst off k pip f) p)
          esize again dst 0 n pip p)"
proof -
  obtain pip p' where p': "uvm_push_get_and_reset_flag UVM_PUSH_FLAG_CE_NEXT_PIPELINED p = (pip, p')" by fastforce
  let ?body = "\<lambda>dst off k is_last pip p. let (f, p) = flush_of_last is_last p in push_cmd (mk dst off k pip f) p"
  let ?q = "transfer_loop ?body esize again dst 0 n pip p'"
  have flags [simp]: "run_push gpu (snd (flush_of_last l r)) = run_push gpu r" for l r
    by (simp add: push_flag_defs Let_def)
  have eff: "run_push gpu ?q m = write_bytes (location gpu dst) (piece 0 n) (run_push gpu p' m)" for m
    by (rule transfer_loop_effect[where N = n]) (simp_all add: mk split len case_prod_beta Let_def)
  have "\<exists>dst' off' k' pip' q. ?q = ?body dst' off' k' True pip' q \<and> push_flags q = push_flags p'"
    by (rule transfer_loop_last) (simp add: flush_of_last_def Let_def)
  then obtain dst' off' k' pip' r where r: "?q = ?body dst' off' k' True pip' r" "push_flags r = push_flags p'" by blast
  then have "trailing_membar ?q = fst (flush_of_last True r)" "push_flags ?q = push_flags (snd (flush_of_last True r))"
    by (simp_all add: trailing_membar_def flush case_prod_beta Let_def)
  with eff p' r(2) show ?thesis
    by (auto simp: transfer_ok_def push_flag_defs Let_def)
qed

lemma maxwell_memcopy_ok: "transfer_ok gpu dst src p (uvm_hal_maxwell_ce_memcopy dst src p)"
  using maxwell_loop_ok[where n = "length src" and piece = "\<lambda>off k. take k (drop off src)" and esize = 1 and again = True
      and mk = "\<lambda>dst off k pip. Ce_Copy dst (take k (drop off src)) pip UVM_MEMBAR_NONE" and gpu = gpu and dst = dst and p = p]
  by (simp add: piece_copy uvm_hal_maxwell_ce_memcopy_def Let_def)

lemma maxwell_memset_ok: "transfer_ok gpu dst (fill pat n) p (maxwell_memset_common dst pat n p)"
  using maxwell_loop_ok[where n = n and piece = "\<lambda>off. fill pat" and esize = "length pat" and again = True
      and mk = "\<lambda>dst off k pip. Ce_Fill dst pat k pip UVM_MEMBAR_NONE" and gpu = gpu and dst = dst and p = p]
  by (simp add: fill_add maxwell_memset_common_def Let_def)

lemma volta_memcopy_ok: "transfer_ok gpu dst src p (uvm_hal_volta_ce_memcopy dst src p)"
  using volta_loop_ok[where n = "length src" and piece = "\<lambda>off k. take k (drop off src)" and esize = 1 and again = True
      and mk = "\<lambda>dst off k pip. Ce_Copy dst (take k (drop off src)) pip" and gpu = gpu and dst = dst and p = p]
  by (simp add: piece_copy uvm_hal_volta_ce_memcopy_def Let_def)

lemma fill_loop_ok:
  "transfer_ok gpu dst (fill pat n) p
    (let (pip, p) = uvm_push_get_and_reset_flag UVM_PUSH_FLAG_CE_NEXT_PIPELINED p
     in transfer_loop (\<lambda>dst off k is_last pip p. let (f, p) = flush_of_last is_last p in push_cmd (Ce_Fill dst pat k pip f) p)
          (length pat) again dst 0 n pip p)"
  using volta_loop_ok[where n = n and piece = "\<lambda>off. fill pat" and esize = "length pat" and again = again
      and mk = "\<lambda>dst off. Ce_Fill dst pat" and gpu = gpu and dst = dst and p = p]
  by (simp add: fill_add)

lemma volta_memset_ok: "transfer_ok gpu dst (fill pat n) p (volta_memset_common dst pat n p)"
  using fill_loop_ok[of gpu dst pat n p False] by (simp add: volta_memset_common_def)

lemma hopper_scrub_location:
  "location gpu (snd (hopper_scrub_enable gpu dst n)) = location gpu dst"
  by (simp add: hopper_scrub_enable_def location_def uvm_gpu_address_physical_def)

lemma transfer_ok_location:
  "location gpu dst' = location gpu dst \<Longrightarrow> transfer_ok gpu dst' data p q = transfer_ok gpu dst data p q"
  by (simp add: transfer_ok_def)

lemma take_fill: "0 < length pat \<Longrightarrow> take (n * length pat) (fill pat (n * length pat)) = fill pat n"
proof -
  assume "0 < length pat"
  then have "n \<le> n * length pat" by (cases pat) simp_all
  then have "n * length pat = n + (n * length pat - n)" by simp
  then have "fill pat (n * length pat) = fill pat n @ fill pat (n * length pat - n)" by (metis fill_add)
  then show ?thesis by simp
qed

lemma hopper_memset_ok:
  assumes "n * length pat \<le> max_single_transfer"
  shows "transfer_ok gpu dst (fill pat n) p (hopper_memset_common gpu dst pat n p)"
proof -
  obtain scrub dst' where s: "hopper_scrub_enable gpu dst (n * length pat) = (scrub, dst')" by fastforce
  then have loc: "location gpu dst' = location gpu dst" using hopper_scrub_location by (metis snd_conv)
  have "transfer_ok gpu dst' (fill pat n) p (hopper_memset_common gpu dst pat n p)"
  proof (cases "length pat = 8 \<and> scrub")
    case True
    then have fill: "take (n * 8) (fill pat (n * 8)) = fill pat n" using take_fill[of pat n] by simp
    obtain pip p' where p': "uvm_push_get_and_reset_flag UVM_PUSH_FLAG_CE_NEXT_PIPELINED p = (pip, p')" by fastforce
    have "n * 8 \<le> max_single_transfer" using assms True by simp
    with True s p' have "hopper_memset_common gpu dst pat n p =
        push_cmd (Ce_Scrub dst' pat (n * 8) pip (fst (flush_of_last True p'))) (snd (flush_of_last True p'))"
      by (simp add: hopper_memset_common_def transfer_loop_once Let_def case_prod_beta)
    with fill p' show ?thesis
      by (auto simp: transfer_ok_def push_flag_defs trailing_membar_def Let_def)
  next
    case False
    with s show ?thesis using fill_loop_ok[of gpu dst' pat n p True] by (auto simp: hopper_memset_common_def)
  qed
  with loc show ?thesis using transfer_ok_location by blast
qed

lemma fill_concat: "fill (fill pat k) n = fill pat (n * k)"
  by (induction n) (simp_all add: fill_def replicate_add)

lemma nat_below_8: "i < 8 \<longleftrightarrow> i = 0 \<or> i = 1 \<or> i = 2 \<or> i = 3 \<or> i = 4 \<or> i = 5 \<or> i = 6 \<or> i = (7::nat)"
  by auto

lemma fill_nth: "k < n * length pat \<Longrightarrow> fill pat n ! k = pat ! (k mod length pat)"
proof (induction n arbitrary: k)
  case (Suc n)
  show ?case
  proof (cases "k < length pat")
    case False
    then show ?thesis using Suc.IH[of "k - length pat"] Suc.prems
      by (simp add: fill_def nth_append le_mod_geq)
  qed (simp add: fill_def nth_append)
qed simp

lemma bytes_repeat_1: "bytes 8 (repeat_1 v) = fill (bytes 1 v) 8"
proof (rule nth_equalityI)
  let ?w = "repeat_1 v"
  fix i assume "i < length (bytes 8 ?w)"
  then have i: "i < 8" by simp
  have hi: "\<not> bit v k" if "8 \<le> k" for k using that bit_imp_le_length[of v k] by auto
  from i have "ucast (drop_bit (8 * i) ?w) = v"
    unfolding nat_below_8 repeat_1_def repeat_4_def Let_def by (elim disjE; simp; auto simp: bit_eq_iff bit_simps hi)
  with i show "bytes 8 ?w ! i = fill (bytes 1 v) 8 ! i"
    by (simp add: fill_nth) (simp add: bytes_def)
qed simp

lemma bytes_repeat_4: "bytes 8 (repeat_4 v) = fill (bytes 4 v) 2"
proof (rule nth_equalityI)
  let ?w = "repeat_4 v"
  fix i assume "i < length (bytes 8 ?w)"
  then have i: "i < 8" by simp
  have hi: "\<not> bit v k" if "32 \<le> k" for k using that bit_imp_le_length[of v k] by auto
  from i have "ucast (drop_bit (8 * i) ?w) = (ucast (drop_bit (8 * (i mod 4)) v) :: NvU8)"
    unfolding nat_below_8 repeat_1_def repeat_4_def Let_def by (elim disjE; simp; auto simp: bit_eq_iff bit_simps hi)
  with i show "bytes 8 ?w ! i = fill (bytes 4 v) 2 ! i"
    by (simp add: fill_nth) (simp add: bytes_def)
qed simp

lemma hopper_scrub_dvd: "fst (hopper_scrub_enable gpu dst n) \<Longrightarrow> 4096 dvd n"
  by (auto simp: hopper_scrub_enable_def split: if_splits)

lemma hopper_memset_8_ok:
  "n \<le> max_single_transfer \<Longrightarrow> transfer_ok gpu dst (fill (bytes 8 v) (n div 8)) p (uvm_hal_hopper_ce_memset_8 gpu dst v n p)"
  unfolding uvm_hal_hopper_ce_memset_8_def pattern_8_eq by (rule hopper_memset_ok) simp

lemma hopper_memset_1_ok:
  assumes "n \<le> max_single_transfer"
  shows "transfer_ok gpu dst (fill (bytes 1 v) n) p (uvm_hal_hopper_ce_memset_1 gpu dst v n p)"
proof -
  obtain scrub dst' where s: "hopper_scrub_enable gpu dst n = (scrub, dst')" by fastforce
  then have loc: "location gpu dst' = location gpu dst" using hopper_scrub_location by (metis snd_conv)
  show ?thesis
  proof (cases scrub)
    case True
    then have "4096 dvd n" using s hopper_scrub_dvd by (metis fst_conv)
    then have "8 dvd n" by (rule dvd_trans[rotated]) simp
    then have "fill (bytes 1 v) n = fill (fill (bytes 1 v) 8) (n div 8)" by (simp add: fill_concat del: One_nat_def)
    with True s loc show ?thesis
      using hopper_memset_8_ok[OF assms, of gpu dst' _ p] transfer_ok_location[OF loc]
      by (simp add: uvm_hal_hopper_ce_memset_1_def del: One_nat_def flip: bytes_repeat_1)
  next
    case False
    with s loc show ?thesis
      using hopper_memset_ok[of n "bytes 1 v" gpu dst' p] transfer_ok_location[OF loc] assms
      by (simp add: uvm_hal_hopper_ce_memset_1_def pattern_1_def)
  qed
qed

lemma hopper_memset_4_ok:
  assumes "n \<le> max_single_transfer"
  shows "transfer_ok gpu dst (fill (bytes 4 v) (n div 4)) p (uvm_hal_hopper_ce_memset_4 gpu dst v n p)"
proof -
  obtain scrub dst' where s: "hopper_scrub_enable gpu dst n = (scrub, dst')" by fastforce
  then have loc: "location gpu dst' = location gpu dst" using hopper_scrub_location by (metis snd_conv)
  show ?thesis
  proof (cases scrub)
    case True
    then have "4096 dvd n" using s hopper_scrub_dvd by (metis fst_conv)
    then have "8 dvd n" by (rule dvd_trans[rotated]) simp
    then have "n div 4 = n div 8 * 2" by (auto elim!: dvdE)
    then have "fill (bytes 4 v) (n div 4) = fill (fill (bytes 4 v) 2) (n div 8)" by (simp add: fill_concat)
    with True s loc show ?thesis
      using hopper_memset_8_ok[OF assms, of gpu dst' _ p] transfer_ok_location[OF loc]
      by (simp add: uvm_hal_hopper_ce_memset_4_def flip: bytes_repeat_4)
  next
    case False
    have "n div 4 * length (bytes 4 v) \<le> max_single_transfer" using assms by simp
    with False s loc show ?thesis
      using hopper_memset_ok[of "n div 4" "bytes 4 v" gpu dst' p] transfer_ok_location[OF loc]
      by (simp add: uvm_hal_hopper_ce_memset_4_def pattern_4_def)
  qed
qed

lemma maxwell_memsets_ok:
  "transfer_ok gpu dst (fill (bytes 1 v1) n) p (ce_memset_1 maxwell_ce_hal dst v1 n p)"
  "transfer_ok gpu dst (fill (bytes 4 v4) (n div 4)) p (ce_memset_4 maxwell_ce_hal dst v4 n p)"
  "transfer_ok gpu dst (fill (bytes 8 v8) (n div 8)) p (ce_memset_8 maxwell_ce_hal dst v8 n p)"
  by (simp_all add: maxwell_ce_hal_def maxwell_memset_ok uvm_hal_maxwell_ce_memset_1_def uvm_hal_maxwell_ce_memset_4_def
      uvm_hal_maxwell_ce_memset_8_def pattern_1_def pattern_4_def pattern_8_eq)

lemma volta_memsets_ok:
  "transfer_ok gpu dst (fill (bytes 1 v1) n) p (ce_memset_1 volta_ce_hal dst v1 n p)"
  "transfer_ok gpu dst (fill (bytes 4 v4) (n div 4)) p (ce_memset_4 volta_ce_hal dst v4 n p)"
  "transfer_ok gpu dst (fill (bytes 8 v8) (n div 8)) p (ce_memset_8 volta_ce_hal dst v8 n p)"
  by (simp_all add: volta_ce_hal_def volta_memset_ok uvm_hal_volta_ce_memset_1_def uvm_hal_volta_ce_memset_4_def
      uvm_hal_volta_ce_memset_8_def pattern_1_def pattern_4_def pattern_8_eq)

interpretation maxwell_ce: copy_engine gpu maxwell_ce_hal for gpu
  by unfold_locales (rule maxwell_memsets_ok | simp add: maxwell_ce_hal_def maxwell_memcopy_ok)+

interpretation volta_ce: copy_engine gpu volta_ce_hal for gpu
  by unfold_locales (rule volta_memsets_ok | simp add: volta_ce_hal_def volta_memcopy_ok)+

interpretation hopper_ce: copy_engine gpu "hopper_ce_hal gpu" for gpu
  by unfold_locales (simp_all add: hopper_ce_hal_def volta_ce_hal_def volta_memcopy_ok
      hopper_memset_1_ok hopper_memset_4_ok hopper_memset_8_ok del: One_nat_def)

text \<open>
  The scrubber is only used when the destination and the length are multiples of 4 KB, but a longer scrub is split at
  \<open>2\<^sup>32 - 1\<close> bytes: its second operation starts at an address that is not.
\<close>

lemma hopper_memset_8_scrub_splits_unaligned:
  assumes "\<not> ga_is_virtual dst" "ga_aperture dst = UVM_APERTURE_VID" "4096 dvd unat (ga_address dst)"
    and n: "4096 dvd n" "max_single_transfer < n"
  shows "uvm_hal_hopper_ce_memset_8 gpu dst v n p =
    (let (pip, q) = uvm_push_get_and_reset_flag UVM_PUSH_FLAG_CE_NEXT_PIPELINED p
     in transfer_loop (\<lambda>dst off n is_last pip p. let (flush, p) = flush_of_last is_last p
            in push_cmd (Ce_Scrub dst (bytes 8 v) n pip flush) p)
          1 True (ga_add dst max_single_transfer) max_single_transfer (n - max_single_transfer) True
          (push_cmd (Ce_Scrub dst (bytes 8 v) max_single_transfer pip UVM_MEMBAR_NONE) q)) \<and>
    \<not> 4096 dvd unat (ga_address (ga_add dst max_single_transfer))"
proof
  have "8 dvd n" using n(1) by (rule dvd_trans[rotated]) simp
  then have "n div 8 * 8 = n" by simp
  then show "uvm_hal_hopper_ce_memset_8 gpu dst v n p =
    (let (pip, q) = uvm_push_get_and_reset_flag UVM_PUSH_FLAG_CE_NEXT_PIPELINED p
     in transfer_loop (\<lambda>dst off n is_last pip p. let (flush, p) = flush_of_last is_last p
            in push_cmd (Ce_Scrub dst (bytes 8 v) n pip flush) p)
          1 True (ga_add dst max_single_transfer) max_single_transfer (n - max_single_transfer) True
          (push_cmd (Ce_Scrub dst (bytes 8 v) max_single_transfer pip UVM_MEMBAR_NONE) q))"
    using assms by (simp add: uvm_hal_hopper_ce_memset_8_def hopper_memset_common_def hopper_scrub_enable_def pattern_8_eq case_prod_beta)
      (subst transfer_loop.simps, simp add: min_absorb2 flush_of_last_def Let_def case_prod_beta)
  have "unat (ga_address dst + of_nat max_single_transfer) mod 4096 = (unat (ga_address dst) + max_single_transfer) mod 4096"
    by (simp add: unat_word_ariths max_single_transfer_def mod_mod_cancel)
  also have "\<dots> = max_single_transfer mod 4096" using assms(3) by (metis dvd_imp_mod_0 mod_add_left_eq add_0)
  finally show "\<not> 4096 dvd unat (ga_address (ga_add dst max_single_transfer))"
    by (simp add: ga_add_def dvd_eq_mod_eq_0 max_single_transfer_def)
qed

section \<open>Property\<close>

text \<open>C29. The copy engine functions of every generation do what their callers rely on: a copy writes exactly its bytes at the
  destination, a fill writes the value repeated over the length, whatever the number of operations the transfer is split into,
  the flags of the push are consumed, and the membar that the flags ask for (a system membar by default) follows the last
  operation. On Hopper this is for fills of at most 4 GB - 1; the switch to the scrubber, which
  turns an address of the flat mapping back into a physical one, does not change what is written.\<close>

theorem ce_transfers_correct:
  assumes "hal \<in> {maxwell_ce_hal, volta_ce_hal, hopper_ce_hal gpu}"
    and "hal = hopper_ce_hal gpu \<longrightarrow> n \<le> max_single_transfer"
  shows "transfer_ok gpu dst data p (ce_memcopy hal dst data p) \<and>
    transfer_ok gpu dst (fill (bytes 1 v1) n) p (ce_memset_1 hal dst v1 n p) \<and>
    transfer_ok gpu dst (fill (bytes 4 v4) (n div 4)) p (ce_memset_4 hal dst v4 n p) \<and>
    transfer_ok gpu dst (fill (bytes 8 v8) (n div 8)) p (ce_memset_8 hal dst v8 n p)"
proof -
  have "transfer_ok gpu dst data p (ce_memcopy hal dst data p)"
    using assms(1) by (auto simp: maxwell_memcopy_ok volta_memcopy_ok maxwell_ce_hal_def volta_ce_hal_def hopper_ce_hal_def)
  moreover have "hal = maxwell_ce_hal \<or> hal = volta_ce_hal \<or> hal = hopper_ce_hal gpu \<and> n \<le> max_single_transfer"
    using assms by auto
  ultimately show ?thesis
    by (auto simp: maxwell_memsets_ok volta_memsets_ok hopper_ce.memset_1_ok hopper_ce.memset_4_ok hopper_ce.memset_8_ok
        simp del: One_nat_def)
qed

theorem ce_transfers_correct_witness:
  "transfer_ok \<lparr>ce_phys_vidmem_write_supported = False, needs_vidmem_mapping = True, flat_vidmem_va_base = 0x1000\<rparr>
     (uvm_gpu_address_virtual 0x5000) (fill (bytes 1 (7 :: NvU8)) 8192) \<lparr>push_flags = {}, push_cmds = []\<rparr>
     (ce_memset_1 (hopper_ce_hal \<lparr>ce_phys_vidmem_write_supported = False, needs_vidmem_mapping = True,
        flat_vidmem_va_base = 0x1000\<rparr>) (uvm_gpu_address_virtual 0x5000) 7 8192 \<lparr>push_flags = {}, push_cmds = []\<rparr>)"
  using ce_transfers_correct[where hal = "hopper_ce_hal \<lparr>ce_phys_vidmem_write_supported = False,
      needs_vidmem_mapping = True, flat_vidmem_va_base = 0x1000\<rparr>" and n = 8192]
  by (simp add: max_single_transfer_def)

end
