(* ===== verification/Pte_Batch.thy ===== *)
theory Pte_Batch
  imports Copy_Engine
begin

text \<open>
  Batches of PTE writes (\<^verbatim>\<open>uvm_pte_batch.c\<close>): up to four consecutive PTEs are queued and
  written by memsets; more are collected as inline data of the push and written by one copy. The
  inline data of \<^verbatim>\<open>uvm_push.c\<close> is the list of its bytes. The batch is proved to have the same effect on
  memory as its requests done one by one, for every copy engine that satisfies the
  contract \<open>copy_engine\<close>. Sizes and counts are natural numbers: the inline data is bounded by 32764
  bytes, and a table of entries by 4 GB.
\<close>

section \<open>Inline data\<close>

definition UVM_METHOD_SIZE :: nat where "UVM_METHOD_SIZE = 4"
definition UVM_METHOD_COUNT_MAX :: nat where "UVM_METHOD_COUNT_MAX = 0x1fff"
definition UVM_PUSH_INLINE_DATA_MAX_SIZE :: nat where
  "UVM_PUSH_INLINE_DATA_MAX_SIZE = UVM_METHOD_COUNT_MAX * UVM_METHOD_SIZE"

type_synonym inline_data = "NvU8 list"

definition uvm_push_inline_data_begin :: inline_data where
  "uvm_push_inline_data_begin = []"

definition uvm_push_inline_data_add :: "NvU8 list \<Rightarrow> inline_data \<Rightarrow> inline_data" where
  "uvm_push_inline_data_add src data = data @ src"

text \<open>A noop that spans the data, rounded up to whole methods, with the noop method itself; the data is the source of a copy that follows.\<close>

definition uvm_push_inline_data_end :: "inline_data \<Rightarrow> gpu_push \<Rightarrow> NvU8 list \<times> gpu_push" where
  "uvm_push_inline_data_end data p =
     (let noop_size = (length data + UVM_METHOD_SIZE - 1) div UVM_METHOD_SIZE * UVM_METHOD_SIZE
      in (data, push_cmd (Host_Noop (noop_size + UVM_METHOD_SIZE)) p))"

section \<open>The batch\<close>

definition UVM_PTE_BATCH_MAX_PTES :: nat where "UVM_PTE_BATCH_MAX_PTES = 4"

record pte_batch =
  pte_push :: gpu_push
  pte_inline_data :: inline_data
  inlining :: bool
  pte_first_address :: gpu_phys_address
  pte_entry_size :: nat
  pte_bits_queue :: "NvU64 list"
  pte_count :: nat
  pte_membar :: membar

definition uvm_pte_batch_begin :: "gpu_push \<Rightarrow> pte_batch" where
  "uvm_pte_batch_begin p =
     \<lparr>pte_push = p, pte_inline_data = [], inlining = False,
      pte_first_address = \<lparr>phys_address = 0, phys_aperture = UVM_APERTURE_PEER 0\<rparr>,
      pte_entry_size = 0, pte_bits_queue = replicate UVM_PTE_BATCH_MAX_PTES 0, pte_count = 0,
      pte_membar = UVM_MEMBAR_GPU\<rparr>"

definition set_transfer_flags :: "gpu_push \<Rightarrow> gpu_push" where
  "set_transfer_flags p =
     uvm_push_set_flag UVM_PUSH_FLAG_CE_NEXT_PIPELINED (uvm_push_set_flag UVM_PUSH_FLAG_NEXT_MEMBAR_NONE p)"

definition uvm_pte_batch_flush_ptes_inline :: "gpu_config \<Rightarrow> ce_hal \<Rightarrow> pte_batch \<Rightarrow> pte_batch" where
  "uvm_pte_batch_flush_ptes_inline gpu hal b =
     (let ptes_size = pte_count b * pte_entry_size b;
          b = b\<lparr>inlining := False\<rparr>;
          (data, p) = uvm_push_inline_data_end (pte_inline_data b) (pte_push b);
          p = set_transfer_flags p;
          p = ce_memcopy hal (uvm_mmu_gpu_address gpu (pte_first_address b)) (take ptes_size data) p
      in b\<lparr>pte_push := p\<rparr>)"

fun memset_loop :: "ce_hal \<Rightarrow> NvU64 list \<Rightarrow> nat \<Rightarrow> gpu_address \<Rightarrow> gpu_push \<Rightarrow> gpu_push" where
  "memset_loop hal [] pte_size addr p = p"
| "memset_loop hal (bits # queue) pte_size addr p =
     memset_loop hal queue pte_size (ga_add addr pte_size) (ce_memset_8 hal addr bits 8 (set_transfer_flags p))"

definition uvm_pte_batch_flush_ptes_memset :: "gpu_config \<Rightarrow> ce_hal \<Rightarrow> pte_batch \<Rightarrow> pte_batch" where
  "uvm_pte_batch_flush_ptes_memset gpu hal b =
     b\<lparr>pte_push := memset_loop hal (take (pte_count b) (pte_bits_queue b)) (pte_entry_size b)
          (uvm_mmu_gpu_address gpu (pte_first_address b)) (pte_push b)\<rparr>"

definition uvm_pte_batch_flush_ptes :: "gpu_config \<Rightarrow> ce_hal \<Rightarrow> pte_batch \<Rightarrow> pte_batch" where
  "uvm_pte_batch_flush_ptes gpu hal b =
     (if pte_count b = 0 then b
      else
        let b = (if inlining b then uvm_pte_batch_flush_ptes_inline gpu hal b
                 else uvm_pte_batch_flush_ptes_memset gpu hal b)
        in b\<lparr>pte_count := 0\<rparr>)"

definition uvm_pte_batch_write_consecutive_inline :: "NvU64 \<Rightarrow> pte_batch \<Rightarrow> pte_batch" where
  "uvm_pte_batch_write_consecutive_inline bits b =
     (let extra_size = pte_entry_size b - 8;
          data = uvm_push_inline_data_add (bytes 8 bits) (pte_inline_data b);
          data = (if extra_size \<noteq> 0 then uvm_push_inline_data_add (replicate extra_size 0) data else data)
      in b\<lparr>pte_inline_data := data\<rparr>)"

definition uvm_pte_batch_write_consecutive :: "NvU64 \<Rightarrow> pte_batch \<Rightarrow> pte_batch" where
  "uvm_pte_batch_write_consecutive bits b =
     (let b = (if inlining b then uvm_pte_batch_write_consecutive_inline bits b
               else b\<lparr>pte_bits_queue := (pte_bits_queue b)[pte_count b := bits]\<rparr>)
      in b\<lparr>pte_count := pte_count b + 1\<rparr>)"

definition pte_batch_begin_inline :: "pte_batch \<Rightarrow> pte_batch" where
  "pte_batch_begin_inline b =
     (let b = b\<lparr>inlining := True, pte_inline_data := uvm_push_inline_data_begin\<rparr>
      in fold uvm_pte_batch_write_consecutive_inline (take (pte_count b) (pte_bits_queue b)) b)"

definition promote_membar :: "gpu_phys_address \<Rightarrow> pte_batch \<Rightarrow> pte_batch" where
  "promote_membar a b = (if phys_aperture a = UVM_APERTURE_SYS then b\<lparr>pte_membar := UVM_MEMBAR_SYS\<rparr> else b)"

definition phys_add :: "gpu_phys_address \<Rightarrow> nat \<Rightarrow> gpu_phys_address" where
  "phys_add a n = a\<lparr>phys_address := phys_address a + of_nat n\<rparr>"

text \<open>
  The buffer of PTE bits is the list of its bytes. With an entry size above the maximum of
  the inline data the loop of the code would make no progress; entries have 8 or 16 bytes.
\<close>

function write_ptes_loop ::
    "gpu_config \<Rightarrow> ce_hal \<Rightarrow> nat \<Rightarrow> gpu_phys_address \<Rightarrow> NvU8 list \<Rightarrow> nat \<Rightarrow> nat \<Rightarrow> pte_batch \<Rightarrow> pte_batch" where
  "write_ptes_loop gpu hal max_entries first_pte bits pte_size entry_count b =
     (if entry_count > 0 \<and> max_entries > 0 then
        let b = pte_batch_begin_inline (uvm_pte_batch_flush_ptes gpu hal b);
            entries_this_time = min max_entries entry_count;
            n = entries_this_time * pte_size;
            b = b\<lparr>pte_inline_data := uvm_push_inline_data_add (take n bits) (pte_inline_data b),
                  pte_entry_size := pte_size, pte_first_address := first_pte, pte_count := entries_this_time\<rparr>
        in write_ptes_loop gpu hal max_entries (phys_add first_pte n) (drop n bits) pte_size
             (entry_count - entries_this_time) b
      else b)"
  by pat_completeness auto
termination
  by (relation "measure (\<lambda>(gpu, hal, max_entries, first_pte, bits, pte_size, entry_count, b). entry_count)") auto

declare write_ptes_loop.simps [simp del]

definition uvm_pte_batch_write_ptes ::
    "gpu_config \<Rightarrow> ce_hal \<Rightarrow> gpu_phys_address \<Rightarrow> NvU8 list \<Rightarrow> nat \<Rightarrow> nat \<Rightarrow> pte_batch \<Rightarrow> pte_batch" where
  "uvm_pte_batch_write_ptes gpu hal first_pte bits pte_size entry_count b =
     (let max_entries = UVM_PUSH_INLINE_DATA_MAX_SIZE div pte_size
      in write_ptes_loop gpu hal max_entries first_pte bits pte_size entry_count (promote_membar first_pte b))"

definition uvm_gpu_phys_address_eq :: "gpu_phys_address \<Rightarrow> gpu_phys_address \<Rightarrow> bool" where
  "uvm_gpu_phys_address_eq a b \<longleftrightarrow> phys_address a = phys_address b \<and> phys_aperture a = phys_aperture b"

definition uvm_pte_batch_write_pte ::
    "gpu_config \<Rightarrow> ce_hal \<Rightarrow> gpu_phys_address \<Rightarrow> NvU64 \<Rightarrow> nat \<Rightarrow> pte_batch \<Rightarrow> pte_batch" where
  "uvm_pte_batch_write_pte gpu hal pte bits pte_size b =
     (let consecutive = phys_add (pte_first_address b) (pte_count b * pte_size);
          b = promote_membar pte b;
          needs_flush = (pte_count b + 1) * pte_entry_size b > UVM_PUSH_INLINE_DATA_MAX_SIZE \<or>
            \<not> uvm_gpu_phys_address_eq pte consecutive \<or> pte_entry_size b \<noteq> pte_size;
          b = (if needs_flush
               then (uvm_pte_batch_flush_ptes gpu hal b)\<lparr>pte_first_address := pte, pte_entry_size := pte_size\<rparr>
               else b);
          b = (if \<not> inlining b \<and> pte_count b = UVM_PTE_BATCH_MAX_PTES then pte_batch_begin_inline b else b)
      in uvm_pte_batch_write_consecutive bits b)"

definition uvm_pte_batch_clear_ptes ::
    "gpu_config \<Rightarrow> ce_hal \<Rightarrow> gpu_phys_address \<Rightarrow> NvU64 \<Rightarrow> nat \<Rightarrow> nat \<Rightarrow> pte_batch \<Rightarrow> pte_batch" where
  "uvm_pte_batch_clear_ptes gpu hal first_pte bits pte_size entry_count b =
     (let b = uvm_pte_batch_flush_ptes gpu hal b;
          p = set_transfer_flags (pte_push b);
          p = ce_memset_8 hal (uvm_mmu_gpu_address gpu first_pte) bits (pte_size * entry_count) p
      in promote_membar first_pte (b\<lparr>pte_push := p\<rparr>))"

definition uvm_pte_batch_end :: "gpu_config \<Rightarrow> ce_hal \<Rightarrow> pte_batch \<Rightarrow> gpu_push" where
  "uvm_pte_batch_end gpu hal b =
     (let b = uvm_pte_batch_flush_ptes gpu hal b in uvm_hal_wfi_membar (pte_membar b) (pte_push b))"

definition uvm_pte_batch_single_write_ptes ::
    "gpu_config \<Rightarrow> ce_hal \<Rightarrow> gpu_phys_address \<Rightarrow> NvU8 list \<Rightarrow> nat \<Rightarrow> nat \<Rightarrow> gpu_push \<Rightarrow> gpu_push" where
  "uvm_pte_batch_single_write_ptes gpu hal first_pte bits pte_size entry_count p =
     uvm_pte_batch_end gpu hal (uvm_pte_batch_write_ptes gpu hal first_pte bits pte_size entry_count (uvm_pte_batch_begin p))"

section \<open>Specification\<close>

datatype pte_op =
    Write_Ptes gpu_phys_address "NvU8 list" nat nat
  | Write_Pte gpu_phys_address NvU64 nat
  | Clear_Ptes gpu_phys_address NvU64 nat nat

fun pte_op_address :: "pte_op \<Rightarrow> gpu_phys_address" where
  "pte_op_address (Write_Ptes a _ _ _) = a"
| "pte_op_address (Write_Pte a _ _) = a"
| "pte_op_address (Clear_Ptes a _ _ _) = a"

fun do_pte_op :: "gpu_config \<Rightarrow> ce_hal \<Rightarrow> pte_op \<Rightarrow> pte_batch \<Rightarrow> pte_batch" where
  "do_pte_op gpu hal (Write_Ptes a bits n k) = uvm_pte_batch_write_ptes gpu hal a bits n k"
| "do_pte_op gpu hal (Write_Pte a bits n) = uvm_pte_batch_write_pte gpu hal a bits n"
| "do_pte_op gpu hal (Clear_Ptes a bits n k) = uvm_pte_batch_clear_ptes gpu hal a bits n k"

fun pte_op_ok :: "pte_op \<Rightarrow> bool" where
  "pte_op_ok (Write_Ptes a bits n k) \<longleftrightarrow> n \<in> {8, 16} \<and> n * k \<le> length bits"
| "pte_op_ok (Write_Pte a bits n) \<longleftrightarrow> n \<in> {8, 16}"
| "pte_op_ok (Clear_Ptes a bits n k) \<longleftrightarrow> n \<in> {8, 16} \<and> n * k \<le> max_single_transfer"

definition phys_loc :: "gpu_phys_address \<Rightarrow> aperture \<times> NvU64" where
  "phys_loc a = (phys_aperture a, phys_address a)"

text \<open>
  A request done directly. The bytes of an entry behind the PTE bits of a single write are either zeroed
  or left alone: the flag \<open>z\<close> chooses.
\<close>

definition pte_bytes :: "bool \<Rightarrow> nat \<Rightarrow> NvU64 \<Rightarrow> NvU8 list" where
  "pte_bytes z n bits = bytes 8 bits @ (if z then replicate (n - 8) 0 else [])"

fun pte_op_effect :: "bool \<Rightarrow> pte_op \<Rightarrow> phys_mem \<Rightarrow> phys_mem" where
  "pte_op_effect z (Write_Ptes a bits n k) = write_bytes (phys_loc a) (take (n * k) bits)"
| "pte_op_effect z (Write_Pte a bits n) = write_bytes (phys_loc a) (pte_bytes z n bits)"
| "pte_op_effect z (Clear_Ptes a bits n k) = write_bytes (phys_loc a) (fill (bytes 8 bits) (n * k div 8))"

definition pte_effects :: "bool list \<Rightarrow> pte_op list \<Rightarrow> phys_mem \<Rightarrow> phys_mem" where
  "pte_effects zs ops = fold (\<lambda>(z, op). pte_op_effect z op) (zip zs ops)"

definition run_pte_batch :: "gpu_config \<Rightarrow> ce_hal \<Rightarrow> pte_op list \<Rightarrow> gpu_push \<Rightarrow> gpu_push" where
  "run_pte_batch gpu hal ops p = uvm_pte_batch_end gpu hal (fold (do_pte_op gpu hal) ops (uvm_pte_batch_begin p))"

section \<open>The batch implements its specification\<close>

fun entry_writes :: "gpu_phys_address \<Rightarrow> nat \<Rightarrow> bool \<Rightarrow> NvU64 list \<Rightarrow> phys_mem \<Rightarrow> phys_mem" where
  "entry_writes a n z [] m = m"
| "entry_writes a n z (q # qs) m = entry_writes (phys_add a n) n z qs (write_bytes (phys_loc a) (pte_bytes z n q) m)"

text \<open>What the pushed commands and the queued PTEs together do to memory.\<close>

definition batch_effect :: "gpu_config \<Rightarrow> bool \<Rightarrow> pte_batch \<Rightarrow> phys_mem \<Rightarrow> phys_mem" where
  "batch_effect gpu z b m =
     (let m = run_push gpu (pte_push b) m
      in if inlining b then write_bytes (phys_loc (pte_first_address b)) (pte_inline_data b) m
         else entry_writes (pte_first_address b) (pte_entry_size b) z (take (pte_count b) (pte_bits_queue b)) m)"

definition batch_inv :: "pte_batch \<Rightarrow> bool" where
  "batch_inv b \<longleftrightarrow>
     length (pte_bits_queue b) = UVM_PTE_BATCH_MAX_PTES \<and> push_flags (pte_push b) = {} \<and>
     (pte_count b > 0 \<longrightarrow> pte_entry_size b \<in> {8, 16}) \<and>
     (if inlining b
      then pte_count b > 0 \<and> length (pte_inline_data b) = pte_count b * pte_entry_size b \<and>
        length (pte_inline_data b) \<le> UVM_PUSH_INLINE_DATA_MAX_SIZE
      else pte_count b \<le> UVM_PTE_BATCH_MAX_PTES)"

lemma phys_add_simps [simp]:
  "phys_add a 0 = a" "phys_add (phys_add a m) n = phys_add a (m + n)"
  "phys_loc (phys_add a n) = (fst (phys_loc a), snd (phys_loc a) + of_nat n)"
  by (simp_all add: phys_add_def phys_loc_def algebra_simps)

lemma uvm_gpu_phys_address_eq_iff [simp]: "uvm_gpu_phys_address_eq a b \<longleftrightarrow> a = b"
  by (cases a; cases b) (auto simp: uvm_gpu_phys_address_eq_def)

lemma length_pte_bytes [simp]: "8 \<le> n \<Longrightarrow> length (pte_bytes True n q) = n"
  by (simp add: pte_bytes_def)

lemma entry_writes_append:
  "entry_writes a n z (qs @ [q]) m =
     write_bytes (phys_loc (phys_add a (length qs * n))) (pte_bytes z n q) (entry_writes a n z qs m)"
  by (induction qs arbitrary: a m) (simp_all add: algebra_simps)

lemma entry_writes_zeroed:
  "8 \<le> n \<Longrightarrow> entry_writes a n True qs m = write_bytes (phys_loc a) (concat (map (pte_bytes True n) qs)) m"
  by (induction qs arbitrary: a m) (simp_all add: write_bytes_append)

lemma write_consecutive_inline_eq:
  "uvm_pte_batch_write_consecutive_inline bits b = b\<lparr>pte_inline_data := pte_inline_data b @ pte_bytes True (pte_entry_size b) bits\<rparr>"
  by (simp add: uvm_pte_batch_write_consecutive_inline_def uvm_push_inline_data_add_def pte_bytes_def Let_def)

lemma fold_write_consecutive_inline:
  "fold uvm_pte_batch_write_consecutive_inline qs b =
     b\<lparr>pte_inline_data := pte_inline_data b @ concat (map (pte_bytes True (pte_entry_size b)) qs)\<rparr>"
  by (induction qs arbitrary: b) (simp_all add: write_consecutive_inline_eq)

lemma pte_batch_begin_inline_eq:
  "pte_batch_begin_inline b =
     b\<lparr>inlining := True, pte_inline_data := concat (map (pte_bytes True (pte_entry_size b)) (take (pte_count b) (pte_bits_queue b)))\<rparr>"
  by (simp add: pte_batch_begin_inline_def fold_write_consecutive_inline uvm_push_inline_data_begin_def Let_def)

lemma length_concat_pte_bytes:
  "8 \<le> n \<Longrightarrow> length (concat (map (pte_bytes True n) qs)) = length qs * n"
  by (induction qs) simp_all

lemma transfer_flags_set [simp]: "transfer_flags (push_flags (set_transfer_flags p)) = push_flags p - {UVM_PUSH_FLAG_CE_NEXT_PIPELINED, UVM_PUSH_FLAG_NEXT_MEMBAR_NONE}"
  by (auto simp: transfer_flags_def set_transfer_flags_def)

lemma run_set_transfer_flags [simp]: "run_push gpu (set_transfer_flags p) = run_push gpu p"
  by (simp add: set_transfer_flags_def)

lemma promote_membar_fields [simp]:
  "batch_inv (promote_membar a b) = batch_inv b" "batch_effect gpu z (promote_membar a b) = batch_effect gpu z b"
  by (auto simp: promote_membar_def batch_inv_def batch_effect_def fun_eq_iff Let_def)

lemma promote_membar_keeps [simp]:
  "pte_push (promote_membar a b) = pte_push b" "pte_count (promote_membar a b) = pte_count b"
  "pte_entry_size (promote_membar a b) = pte_entry_size b" "pte_first_address (promote_membar a b) = pte_first_address b"
  "inlining (promote_membar a b) = inlining b" "pte_bits_queue (promote_membar a b) = pte_bits_queue b"
  "pte_inline_data (promote_membar a b) = pte_inline_data b"
  by (simp_all add: promote_membar_def)

lemma inline_max: "UVM_PUSH_INLINE_DATA_MAX_SIZE = 32764"
  by (simp add: UVM_PUSH_INLINE_DATA_MAX_SIZE_def UVM_METHOD_COUNT_MAX_def UVM_METHOD_SIZE_def)

lemma begin_inline_effect:
  assumes "batch_inv b" "\<not> inlining b"
  shows "batch_effect gpu z (pte_batch_begin_inline b) = batch_effect gpu True b"
  using assms
  by (auto simp: batch_effect_def fun_eq_iff pte_batch_begin_inline_eq entry_writes_zeroed batch_inv_def Let_def)

lemma write_consecutive_effect:
  assumes inv: "batch_inv b" and n: "pte_entry_size b \<in> {8, 16}"
    and room: "if inlining b then (pte_count b + 1) * pte_entry_size b \<le> UVM_PUSH_INLINE_DATA_MAX_SIZE
      else pte_count b < UVM_PTE_BATCH_MAX_PTES"
  shows "batch_inv (uvm_pte_batch_write_consecutive bits b)"
    and "\<exists>z'. batch_effect gpu z (uvm_pte_batch_write_consecutive bits b) =
      (\<lambda>m. write_bytes (phys_loc (phys_add (pte_first_address b) (pte_count b * pte_entry_size b)))
             (pte_bytes z' (pte_entry_size b) bits) (batch_effect gpu z b m))"
proof -
  have n8: "8 \<le> pte_entry_size b" using n by auto
  show "batch_inv (uvm_pte_batch_write_consecutive bits b)"
    using inv n n8 room
    by (auto simp: batch_inv_def uvm_pte_batch_write_consecutive_def write_consecutive_inline_eq Let_def)
  show "\<exists>z'. batch_effect gpu z (uvm_pte_batch_write_consecutive bits b) =
      (\<lambda>m. write_bytes (phys_loc (phys_add (pte_first_address b) (pte_count b * pte_entry_size b)))
             (pte_bytes z' (pte_entry_size b) bits) (batch_effect gpu z b m))"
  proof (cases "inlining b")
    case True
    then show ?thesis using inv
      by (intro exI[of _ True]) (auto simp: batch_effect_def batch_inv_def fun_eq_iff uvm_pte_batch_write_consecutive_def
          write_consecutive_inline_eq write_bytes_append Let_def)
  next
    case False
    then have "pte_count b < length (pte_bits_queue b)" using inv room by (simp add: batch_inv_def)
    then have "take (pte_count b + 1) ((pte_bits_queue b)[pte_count b := bits]) = take (pte_count b) (pte_bits_queue b) @ [bits]"
      by (simp add: take_Suc_conv_app_nth)
    with False room inv show ?thesis
      by (intro exI[of _ z]) (simp add: batch_effect_def batch_inv_def fun_eq_iff uvm_pte_batch_write_consecutive_def
          entry_writes_append Let_def)
  qed
qed

lemma pte_membar_simps [simp]:
  "pte_membar (uvm_pte_batch_flush_ptes gpu hal b) = pte_membar b"
  "pte_membar (pte_batch_begin_inline b) = pte_membar b"
  "pte_membar (uvm_pte_batch_write_consecutive bits b) = pte_membar b"
  "pte_membar (promote_membar a b) = (if phys_aperture a = UVM_APERTURE_SYS then UVM_MEMBAR_SYS else pte_membar b)"
  by (simp_all add: uvm_pte_batch_flush_ptes_def uvm_pte_batch_flush_ptes_inline_def uvm_pte_batch_flush_ptes_memset_def
      uvm_push_inline_data_end_def pte_batch_begin_inline_eq uvm_pte_batch_write_consecutive_def
      write_consecutive_inline_eq promote_membar_def Let_def)

lemma write_ptes_loop_membar [simp]: "pte_membar (write_ptes_loop gpu hal max_entries a bits n k b) = pte_membar b"
  by (induction gpu hal max_entries a bits n k b rule: write_ptes_loop.induct)
    (subst write_ptes_loop.simps, simp add: Let_def)

lemma do_pte_op_membar:
  "pte_membar (do_pte_op gpu hal op b) =
     (if phys_aperture (pte_op_address op) = UVM_APERTURE_SYS then UVM_MEMBAR_SYS else pte_membar b)"
  by (cases op) (simp_all add: uvm_pte_batch_write_ptes_def uvm_pte_batch_write_pte_def uvm_pte_batch_clear_ptes_def Let_def)

lemma fold_pte_ops_membar:
  "pte_membar (fold (do_pte_op gpu hal) ops b) =
     (if list_ex (\<lambda>op. phys_aperture (pte_op_address op) = UVM_APERTURE_SYS) ops then UVM_MEMBAR_SYS else pte_membar b)"
  by (induction ops arbitrary: b) (simp_all add: do_pte_op_membar)

context copy_engine
begin

lemma memset_loop_effect:
  assumes "location gpu addr = phys_loc a" "push_flags p = {}"
  shows "run_push gpu (memset_loop hal qs n addr p) m = entry_writes a n False qs (run_push gpu p m) \<and>
    push_flags (memset_loop hal qs n addr p) = {}"
  using assms
proof (induction qs arbitrary: addr a p m)
  case (Cons q qs)
  have eight: "8 \<le> max_single_transfer" by (simp add: max_single_transfer_def)
  let ?p = "ce_memset_8 hal addr q 8 (set_transfer_flags p)"
  have "push_flags ?p = {}" using Cons.prems memset_8_run(2)[OF eight] by auto
  moreover have "location gpu (ga_add addr n) = phys_loc (phys_add a n)" using Cons.prems by simp
  moreover have "run_push gpu ?p m = write_bytes (phys_loc a) (bytes 8 q) (run_push gpu p m)" for m
    using Cons.prems memset_8_run(1)[OF eight] by (simp add: fill_def)
  ultimately show ?case
    using Cons.IH[of "ga_add addr n" "phys_add a n" ?p m] by (simp add: pte_bytes_def)
qed simp

lemma flush_effect:
  assumes inv: "batch_inv b"
  shows "batch_inv (uvm_pte_batch_flush_ptes gpu hal b)"
    and "batch_effect gpu z (uvm_pte_batch_flush_ptes gpu hal b) = batch_effect gpu False b"
    and "run_push gpu (pte_push (uvm_pte_batch_flush_ptes gpu hal b)) = batch_effect gpu False b"
    and "pte_count (uvm_pte_batch_flush_ptes gpu hal b) = 0" "\<not> inlining (uvm_pte_batch_flush_ptes gpu hal b)"
proof -
  let ?b = "uvm_pte_batch_flush_ptes gpu hal b"
  have run: "run_push gpu (pte_push ?b) m = batch_effect gpu False b m \<and> push_flags (pte_push ?b) = {}" for m
  proof (cases "pte_count b = 0")
    case True
    with inv show ?thesis by (auto simp: uvm_pte_batch_flush_ptes_def batch_inv_def batch_effect_def Let_def)
  next
    case count: False
    show ?thesis
    proof (cases "inlining b")
      case True
      then have "length (pte_inline_data b) \<le> max_single_transfer"
        using inv by (simp add: batch_inv_def max_single_transfer_def inline_max)
      from memcopy_run[OF this] True count inv show ?thesis
        by (simp add: uvm_pte_batch_flush_ptes_def uvm_pte_batch_flush_ptes_inline_def uvm_push_inline_data_end_def
            batch_inv_def batch_effect_def Let_def phys_loc_def)
    next
      case False
      with count inv memset_loop_effect[of "uvm_mmu_gpu_address gpu (pte_first_address b)" "pte_first_address b" "pte_push b"]
      show ?thesis
        by (simp add: uvm_pte_batch_flush_ptes_def uvm_pte_batch_flush_ptes_memset_def batch_inv_def batch_effect_def phys_loc_def Let_def)
    qed
  qed
  then show r: "run_push gpu (pte_push ?b) = batch_effect gpu False b" by auto
  show c: "pte_count ?b = 0" and i: "\<not> inlining ?b"
    using inv by (auto simp: uvm_pte_batch_flush_ptes_def uvm_pte_batch_flush_ptes_inline_def
        uvm_pte_batch_flush_ptes_memset_def uvm_push_inline_data_end_def batch_inv_def Let_def)
  have "pte_bits_queue ?b = pte_bits_queue b"
    by (simp add: uvm_pte_batch_flush_ptes_def uvm_pte_batch_flush_ptes_inline_def
        uvm_pte_batch_flush_ptes_memset_def uvm_push_inline_data_end_def Let_def)
  with run c i inv show "batch_inv ?b" by (auto simp: batch_inv_def)
  from r c i show "batch_effect gpu z ?b = batch_effect gpu False b" by (simp add: batch_effect_def fun_eq_iff Let_def)
qed

end

text \<open>A batch whose requests so far are \<open>ops\<close>: however the queued PTEs get written, the requests are done.\<close>

definition batch_holds :: "gpu_config \<Rightarrow> gpu_push \<Rightarrow> pte_op list \<Rightarrow> pte_batch \<Rightarrow> bool" where
  "batch_holds gpu p ops b \<longleftrightarrow>
     batch_inv b \<and>
     (\<forall>z. \<exists>zs. length zs = length ops \<and> (\<forall>m. batch_effect gpu z b m = pte_effects zs ops (run_push gpu p m)))"

lemma batch_holds_snoc:
  assumes h: "batch_holds gpu p ops b" and inv: "batch_inv b'"
    and step: "\<And>z. \<exists>z' z''. \<forall>m. batch_effect gpu z b' m = pte_op_effect z'' op (batch_effect gpu z' b m)"
  shows "batch_holds gpu p (ops @ [op]) b'"
  unfolding batch_holds_def
proof (intro conjI allI)
  fix z
  obtain z' z'' where s: "\<And>m. batch_effect gpu z b' m = pte_op_effect z'' op (batch_effect gpu z' b m)" using step by blast
  obtain zs where zs: "length zs = length ops" "\<And>m. batch_effect gpu z' b m = pte_effects zs ops (run_push gpu p m)"
    using h unfolding batch_holds_def by blast
  have "pte_effects (zs @ [z'']) (ops @ [op]) m = pte_op_effect z'' op (pte_effects zs ops m)" for m
    using zs(1) by (simp add: pte_effects_def)
  with s zs show "\<exists>zs. length zs = length (ops @ [op]) \<and>
      (\<forall>m. batch_effect gpu z b' m = pte_effects zs (ops @ [op]) (run_push gpu p m))"
    by (intro exI[of _ "zs @ [z'']"]) simp
qed (rule inv)

lemma batch_effect_flushed:
  "pte_count b = 0 \<Longrightarrow> \<not> inlining b \<Longrightarrow>
     batch_effect gpu z (b\<lparr>pte_first_address := a, pte_entry_size := n\<rparr>) = run_push gpu (pte_push b)"
  by (simp add: batch_effect_def fun_eq_iff Let_def)

lemma batch_holds_begin: "push_flags p = {} \<Longrightarrow> batch_holds gpu p [] (uvm_pte_batch_begin p)"
  by (simp add: batch_holds_def batch_inv_def batch_effect_def uvm_pte_batch_begin_def pte_effects_def UVM_PTE_BATCH_MAX_PTES_def Let_def)

context copy_engine
begin

lemma write_pte_holds:
  assumes h: "batch_holds gpu p ops b" and n: "n \<in> {8, 16}"
  shows "batch_holds gpu p (ops @ [Write_Pte a bits n]) (uvm_pte_batch_write_pte gpu hal a bits n b)"
proof -
  define b1 where "b1 = (if (pte_count b + 1) * pte_entry_size b > UVM_PUSH_INLINE_DATA_MAX_SIZE \<or>
      a \<noteq> phys_add (pte_first_address b) (pte_count b * n) \<or> pte_entry_size b \<noteq> n
    then (uvm_pte_batch_flush_ptes gpu hal (promote_membar a b))\<lparr>pte_first_address := a, pte_entry_size := n\<rparr>
    else promote_membar a b)"
  define b2 where "b2 = (if \<not> inlining b1 \<and> pte_count b1 = UVM_PTE_BATCH_MAX_PTES then pte_batch_begin_inline b1 else b1)"
  have inv: "batch_inv (promote_membar a b)" using h by (simp add: batch_holds_def)
  note fl = flush_effect[OF inv]
  have b1: "batch_inv b1" "pte_entry_size b1 = n" "a = phys_add (pte_first_address b1) (pte_count b1 * n)"
      "(pte_count b1 + 1) * n \<le> UVM_PUSH_INLINE_DATA_MAX_SIZE"
    using inv fl n by (auto simp: b1_def batch_inv_def inline_max UVM_PTE_BATCH_MAX_PTES_def)
  have e1: "\<exists>z'. batch_effect gpu z b1 = batch_effect gpu z' b" for z
    using fl(3-5) by (auto simp: b1_def batch_effect_flushed)
  have b2: "batch_inv b2" "pte_entry_size b2 = n" "pte_first_address b2 = pte_first_address b1" "pte_count b2 = pte_count b1"
      "if inlining b2 then (pte_count b2 + 1) * n \<le> UVM_PUSH_INLINE_DATA_MAX_SIZE else pte_count b2 < UVM_PTE_BATCH_MAX_PTES"
    using b1 n by (auto simp: b2_def batch_inv_def pte_batch_begin_inline_eq length_concat_pte_bytes inline_max UVM_PTE_BATCH_MAX_PTES_def)
  have e2: "\<exists>z'. batch_effect gpu z b2 = batch_effect gpu z' b1" for z
    using begin_inline_effect[OF b1(1)] by (auto simp: b2_def)
  have "uvm_pte_batch_write_pte gpu hal a bits n b = uvm_pte_batch_write_consecutive bits b2"
    by (auto simp: uvm_pte_batch_write_pte_def b1_def b2_def Let_def)
  moreover have "\<exists>z' z''. \<forall>m. batch_effect gpu z (uvm_pte_batch_write_consecutive bits b2) m =
      pte_op_effect z'' (Write_Pte a bits n) (batch_effect gpu z' b m)" for z
  proof -
    obtain z'' where "batch_effect gpu z (uvm_pte_batch_write_consecutive bits b2) =
        (\<lambda>m. write_bytes (phys_loc a) (pte_bytes z'' n bits) (batch_effect gpu z b2 m))"
      using write_consecutive_effect(2)[OF b2(1), unfolded b2(2), OF n b2(5), unfolded b2(3,4), folded b1(3)] by metis
    moreover obtain z' where "batch_effect gpu z b2 = batch_effect gpu z' b" using e1 e2 by metis
    ultimately show ?thesis by auto
  qed
  moreover have "batch_inv (uvm_pte_batch_write_consecutive bits b2)"
    by (rule write_consecutive_effect(1)[OF b2(1), unfolded b2(2), OF n b2(5)])
  ultimately show ?thesis using batch_holds_snoc[OF h] by presburger
qed

lemma write_ptes_loop_effect:
  assumes "batch_inv b" "n \<in> {8, 16}" "n * k \<le> length bits"
  shows "batch_inv (write_ptes_loop gpu hal (UVM_PUSH_INLINE_DATA_MAX_SIZE div n) a bits n k b) \<and>
    (\<exists>z'. \<forall>m. batch_effect gpu z (write_ptes_loop gpu hal (UVM_PUSH_INLINE_DATA_MAX_SIZE div n) a bits n k b) m =
       write_bytes (phys_loc a) (take (n * k) bits) (batch_effect gpu z' b m))"
  using assms
proof (induction k arbitrary: a bits b rule: less_induct)
  case (less k)
  let ?max = "UVM_PUSH_INLINE_DATA_MAX_SIZE div n"
  have max: "0 < ?max" "?max * n \<le> UVM_PUSH_INLINE_DATA_MAX_SIZE" using less.prems(2) by (auto simp: inline_max)
  show ?case
  proof (cases "k = 0")
    case True
    with less.prems show ?thesis by (subst (1 2) write_ptes_loop.simps) auto
  next
    case False
    define j where "j = min ?max k"
    define b' where "b' = (pte_batch_begin_inline (uvm_pte_batch_flush_ptes gpu hal b))
      \<lparr>pte_inline_data := take (j * n) bits, pte_entry_size := n, pte_first_address := a, pte_count := j\<rparr>"
    note fl = flush_effect[OF less.prems(1)]
    have j: "0 < j" "j \<le> k" using False max(1) by (simp_all add: j_def)
    have "j * n \<le> ?max * n" unfolding j_def by (intro mult_le_mono1 min.cobounded1)
    then have jmax: "j * n \<le> UVM_PUSH_INLINE_DATA_MAX_SIZE" using max(2) by (rule order_trans)
    have jn: "j * n \<le> n * k" using j(2) by (simp add: mult.commute)
    have loop: "write_ptes_loop gpu hal ?max a bits n k b =
        write_ptes_loop gpu hal ?max (phys_add a (j * n)) (drop (j * n) bits) n (k - j) b'"
      using False max(1) fl(4)
      by (subst write_ptes_loop.simps) (simp add: Let_def j_def b'_def pte_batch_begin_inline_eq uvm_push_inline_data_add_def)
    have "batch_inv b'" using fl(1) j jmax less.prems(2,3) jn
      by (auto simp: b'_def batch_inv_def pte_batch_begin_inline_eq)
    moreover have "n * (k - j) \<le> length (drop (j * n) bits)"
      using less.prems(3) by (simp add: diff_mult_distrib2 mult.commute)
    ultimately have IH: "batch_inv (write_ptes_loop gpu hal ?max a bits n k b)"
        "\<exists>z'. \<forall>m. batch_effect gpu z (write_ptes_loop gpu hal ?max a bits n k b) m =
          write_bytes (phys_loc (phys_add a (j * n))) (take (n * (k - j)) (drop (j * n) bits)) (batch_effect gpu z' b' m)"
      using less.IH[of "k - j" b' "drop (j * n) bits" "phys_add a (j * n)"] j(1,2) False less.prems(2) by (simp_all add: loop)
    have "batch_effect gpu z' b' m = write_bytes (phys_loc a) (take (j * n) bits) (batch_effect gpu False b m)" for z' m
      using fl(3) by (simp add: b'_def batch_effect_def pte_batch_begin_inline_eq Let_def)
    moreover have "take (j * n) bits @ take (n * (k - j)) (drop (j * n) bits) = take (n * k) bits"
      using jn by (metis take_add le_add_diff_inverse diff_mult_distrib2 mult.commute)
    moreover have "length (take (j * n) bits) = j * n" using order_trans[OF jn less.prems(3)] by simp
    ultimately have "write_bytes (phys_loc (phys_add a (j * n))) (take (n * (k - j)) (drop (j * n) bits)) (batch_effect gpu z' b' m) =
        write_bytes (phys_loc a) (take (n * k) bits) (batch_effect gpu False b m)" for z' m
      using write_bytes_append[of "phys_loc a" "take (j * n) bits" "take (n * (k - j)) (drop (j * n) bits)"] by simp
    with IH show ?thesis by metis
  qed
qed

lemma write_ptes_holds:
  assumes h: "batch_holds gpu p ops b" and n: "n \<in> {8, 16}" "n * k \<le> length bits"
  shows "batch_holds gpu p (ops @ [Write_Ptes a bits n k]) (uvm_pte_batch_write_ptes gpu hal a bits n k b)"
proof (rule batch_holds_snoc[OF h])
  have "batch_inv (promote_membar a b)" using h by (simp add: batch_holds_def)
  note loop = write_ptes_loop_effect[OF this n, of a]
  show "batch_inv (uvm_pte_batch_write_ptes gpu hal a bits n k b)"
    using loop by (simp add: uvm_pte_batch_write_ptes_def Let_def)
  show "\<exists>z' z''. \<forall>m. batch_effect gpu z (uvm_pte_batch_write_ptes gpu hal a bits n k b) m =
      pte_op_effect z'' (Write_Ptes a bits n k) (batch_effect gpu z' b m)" for z
    using loop[of z] by (simp add: uvm_pte_batch_write_ptes_def Let_def)
qed

lemma clear_ptes_holds:
  assumes h: "batch_holds gpu p ops b" and n: "n * k \<le> max_single_transfer"
  shows "batch_holds gpu p (ops @ [Clear_Ptes a bits n k]) (uvm_pte_batch_clear_ptes gpu hal a bits n k b)"
proof (rule batch_holds_snoc[OF h])
  have inv: "batch_inv b" using h by (simp add: batch_holds_def)
  note fl = flush_effect[OF inv]
  show "batch_inv (uvm_pte_batch_clear_ptes gpu hal a bits n k b)"
    using fl(1) memset_8_run(2)[OF n] by (auto simp: uvm_pte_batch_clear_ptes_def batch_inv_def Let_def)
  show "\<exists>z' z''. \<forall>m. batch_effect gpu z (uvm_pte_batch_clear_ptes gpu hal a bits n k b) m =
      pte_op_effect z'' (Clear_Ptes a bits n k) (batch_effect gpu z' b m)" for z
    using fl(3-5) memset_8_run(1)[OF n]
    by (intro exI[of _ False]) (simp add: uvm_pte_batch_clear_ptes_def batch_effect_def Let_def phys_loc_def)
qed

lemma do_pte_op_holds:
  "batch_holds gpu p ops b \<Longrightarrow> pte_op_ok op \<Longrightarrow> batch_holds gpu p (ops @ [op]) (do_pte_op gpu hal op b)"
  by (cases op) (auto simp: write_pte_holds write_ptes_holds clear_ptes_holds)

lemma fold_pte_ops_holds:
  "push_flags p = {} \<Longrightarrow> list_all pte_op_ok ops \<Longrightarrow>
     batch_holds gpu p ops (fold (do_pte_op gpu hal) ops (uvm_pte_batch_begin p))"
  by (induction ops rule: rev_induct) (simp_all add: batch_holds_begin do_pte_op_holds)

lemma run_pte_batch_correct:
  assumes "push_flags p = {}" "list_all pte_op_ok ops"
  shows "batch_inv (fold (do_pte_op gpu hal) ops (uvm_pte_batch_begin p)) \<and>
    (\<exists>zs. length zs = length ops \<and>
       (\<forall>m. run_push gpu (run_pte_batch gpu hal ops p) m = pte_effects zs ops (run_push gpu p m))) \<and>
    trailing_membar (run_pte_batch gpu hal ops p) =
      (if list_ex (\<lambda>op. phys_aperture (pte_op_address op) = UVM_APERTURE_SYS) ops then UVM_MEMBAR_SYS else UVM_MEMBAR_GPU)"
proof -
  let ?b = "fold (do_pte_op gpu hal) ops (uvm_pte_batch_begin p)"
  have h: "batch_holds gpu p ops ?b" by (rule fold_pte_ops_holds[OF assms])
  then have inv: "batch_inv ?b" by (simp add: batch_holds_def)
  have m: "pte_membar ?b = (if list_ex (\<lambda>op. phys_aperture (pte_op_address op) = UVM_APERTURE_SYS) ops
      then UVM_MEMBAR_SYS else UVM_MEMBAR_GPU)"
    by (simp add: fold_pte_ops_membar uvm_pte_batch_begin_def)
  have "run_push gpu (run_pte_batch gpu hal ops p) = batch_effect gpu False ?b"
    using flush_effect(3)[OF inv]
    by (auto simp: run_pte_batch_def uvm_pte_batch_end_def uvm_hal_wfi_membar_def uvm_hal_membar_def Let_def split: membar.split)
  moreover have "trailing_membar (run_pte_batch gpu hal ops p) = pte_membar ?b"
    using m by (simp add: run_pte_batch_def uvm_pte_batch_end_def uvm_hal_wfi_membar_def uvm_hal_membar_def trailing_membar_def Let_def)
  ultimately show ?thesis using h inv m unfolding batch_holds_def by metis
qed

lemma single_pte_leaves_tail:
  assumes "push_flags p = {}"
  shows "run_push gpu (run_pte_batch gpu hal [Write_Pte a bits 16] p) m = write_bytes (phys_loc a) (bytes 8 bits) (run_push gpu p m)"
proof -
  let ?b = "do_pte_op gpu hal (Write_Pte a bits 16) (uvm_pte_batch_begin p)"
  have "batch_holds gpu p [Write_Pte a bits 16] ?b"
    using fold_pte_ops_holds[OF assms, of "[Write_Pte a bits 16]"] by simp
  then have inv: "batch_inv ?b" by (simp add: batch_holds_def)
  have "run_push gpu (run_pte_batch gpu hal [Write_Pte a bits 16] p) m = batch_effect gpu False ?b m"
    using flush_effect(3)[OF inv]
    by (auto simp: run_pte_batch_def uvm_pte_batch_end_def uvm_hal_wfi_membar_def uvm_hal_membar_def Let_def split: membar.split)
  moreover have q: "take (Suc 0) ((replicate 4 0)[0 := bits]) = [bits]" by (simp add: take_Suc_conv_app_nth)
  have "batch_effect gpu False ?b m = write_bytes (phys_loc a) (bytes 8 bits) (run_push gpu p m)"
    by (simp add: uvm_pte_batch_write_pte_def uvm_pte_batch_begin_def uvm_pte_batch_flush_ptes_def promote_membar_def
        uvm_pte_batch_write_consecutive_def UVM_PTE_BATCH_MAX_PTES_def batch_effect_def pte_bytes_def Let_def q)
  ultimately show ?thesis by simp
qed

end

text \<open>
  A single 16 byte entry is written by an 8 byte memset: its second half stays as it was, while the inline data of five or more
  entries zeroes it.
\<close>

lemma uvm_pte_batch_write_pte_leaves_tail:
  "push_flags p = {} \<Longrightarrow>
     run_push gpu (run_pte_batch gpu volta_ce_hal [Write_Pte a bits 16] p) m = write_bytes (phys_loc a) (bytes 8 bits) (run_push gpu p m)"
  by (rule volta_ce.single_pte_leaves_tail)

section \<open>Property\<close>

text \<open>C11. A PTE batch does what its requests say: for the copy engines of all generations, the commands pushed by a batch have on memory the
  effect of its requests done one by one in their order, whatever was queued, written by memsets, or collected as inline data, with
  the bytes of an entry behind the PTE bits of a single write either zeroed or untouched. The inline data never exceeds its maximum, the queue
  its four entries, and the batch ends with a wait for idle and a system membar if any PTE
  is in sysmem, otherwise a GPU membar.\<close>

theorem uvm_pte_batch_implements_requests:
  assumes "hal \<in> {maxwell_ce_hal, volta_ce_hal, hopper_ce_hal gpu}" and "push_flags p = {}" and "list_all pte_op_ok ops"
  shows "batch_inv (fold (do_pte_op gpu hal) ops (uvm_pte_batch_begin p)) \<and>
    (\<exists>zs. length zs = length ops \<and>
       (\<forall>m. run_push gpu (run_pte_batch gpu hal ops p) m = pte_effects zs ops (run_push gpu p m))) \<and>
    trailing_membar (run_pte_batch gpu hal ops p) =
      (if list_ex (\<lambda>op. phys_aperture (pte_op_address op) = UVM_APERTURE_SYS) ops then UVM_MEMBAR_SYS else UVM_MEMBAR_GPU)"
  using assms(1) maxwell_ce.run_pte_batch_correct[OF assms(2,3)] volta_ce.run_pte_batch_correct[OF assms(2,3)]
    hopper_ce.run_pte_batch_correct[OF assms(2,3)]
  by (elim insertE emptyE) (simp_all only:)

definition sample_config :: gpu_config where
  "sample_config = \<lparr>ce_phys_vidmem_write_supported = False, needs_vidmem_mapping = True, flat_vidmem_va_base = 0x1000\<rparr>"

theorem uvm_pte_batch_implements_requests_witness:
  "trailing_membar (run_pte_batch sample_config (hopper_ce_hal sample_config)
     [Write_Pte \<lparr>phys_address = 0x2000, phys_aperture = UVM_APERTURE_VID\<rparr> 7 8,
      Clear_Ptes \<lparr>phys_address = 0x3000, phys_aperture = UVM_APERTURE_SYS\<rparr> 0 16 32] \<lparr>push_flags = {}, push_cmds = []\<rparr>) = UVM_MEMBAR_SYS"
  using uvm_pte_batch_implements_requests[where gpu = sample_config and hal = "hopper_ce_hal sample_config" and
      p = "\<lparr>push_flags = {}, push_cmds = []\<rparr>" and
      ops = "[Write_Pte \<lparr>phys_address = 0x2000, phys_aperture = UVM_APERTURE_VID\<rparr> 7 8,
        Clear_Ptes \<lparr>phys_address = 0x3000, phys_aperture = UVM_APERTURE_SYS\<rparr> 0 16 32]"]
  by (simp add: max_single_transfer_def)

end
