(* ===== verification/Tlb_Batch.thy ===== *)
theory Tlb_Batch
  imports Mmu_Hal
begin

text \<open>
  TLB invalidate batches (\<^verbatim>\<open>uvm_tlb_batch.c\<close>): ranges are queued with their page sizes and the batch
  ends with either one invalidate per range or one invalidate of everything, when there are too
  many ranges or pages. The commands pushed to the GPU are a list. An abstract specification
  says which commands a queue of ranges must give; the batch is shown to implement it. What
  the batch needs of the page table format, that a bigger page ends the walk no deeper, is a
  locale interpreted on the depths of the GPU generations.
\<close>

section \<open>Model\<close>

definition UVM_TLB_BATCH_MAX_ENTRIES :: nat where "UVM_TLB_BATCH_MAX_ENTRIES = 4"

record tlb_batch_range =
  range_start :: NvU64
  range_size :: NvU64
  range_page_sizes :: NvU32

text \<open>
  What the batch reads of its page tree: the capabilities of the GPU, the format's depth function and the
  address of the page directory base. In the code \<^verbatim>\<open>total_pages\<close> and \<^verbatim>\<open>total_ranges\<close> are a
  union of which a GPU only ever uses one; it is one 32 bit counter here. The number of queued ranges, \<^verbatim>\<open>count\<close>, is a natural number: the model is that of
  batches of less than \<open>2 ^ 32\<close> ranges.
\<close>

record tlb_tree =
  va_invalidate_supported :: bool
  va_range_invalidate_supported :: bool
  max_ranges :: NvU32
  max_pages :: NvU32
  tree_page_table_depth :: "NvU32 \<Rightarrow> nat"
  tree_pdb :: gpu_phys_address

record tlb_batch =
  batch_tree :: tlb_tree
  batch_total :: NvU32
  batch_ranges :: "tlb_batch_range list"
  batch_count :: nat
  biggest :: NvU32
  batch_membar :: membar

datatype tlb_command =
    Tlb_Invalidate_All gpu_phys_address nat membar
  | Tlb_Invalidate_Va gpu_phys_address nat NvU64 NvU64 NvU32 membar

fun membar_rank :: "membar \<Rightarrow> nat" where
  "membar_rank UVM_MEMBAR_NONE = 0"
| "membar_rank UVM_MEMBAR_GPU = 1"
| "membar_rank UVM_MEMBAR_SYS = 2"

definition uvm_membar_max :: "membar \<Rightarrow> membar \<Rightarrow> membar" where
  "uvm_membar_max m n = (if membar_rank m < membar_rank n then n else m)"

definition zero_range :: tlb_batch_range where
  "zero_range = \<lparr>range_start = 0, range_size = 0, range_page_sizes = 0\<rparr>"

definition uvm_tlb_batch_begin :: "tlb_tree \<Rightarrow> tlb_batch" where
  "uvm_tlb_batch_begin tree = \<lparr>batch_tree = tree, batch_total = 0,
     batch_ranges = replicate UVM_TLB_BATCH_MAX_ENTRIES zero_range, batch_count = 0, biggest = 0,
     batch_membar = UVM_MEMBAR_NONE\<rparr>"

text \<open>The positions of the first and the last set bit of a mask that is not zero.\<close>

definition ffs :: "NvU32 \<Rightarrow> nat" where "ffs w = hd (filter (bit w) [0..<32])"
definition fls :: "NvU32 \<Rightarrow> nat" where "fls w = last (filter (bit w) [0..<32])"

definition smallest_page_size :: "NvU32 \<Rightarrow> NvU32" where
  "smallest_page_size sizes = push_bit (ffs sizes) 1"

definition biggest_page_size :: "NvU32 \<Rightarrow> NvU32" where
  "biggest_page_size sizes = push_bit (fls sizes) 1"

definition invalidate_range :: "tlb_tree \<Rightarrow> membar \<Rightarrow> tlb_batch_range \<Rightarrow> tlb_command" where
  "invalidate_range tree m entry =
     (let min_page_size = smallest_page_size (range_page_sizes entry);
          max_page_size = biggest_page_size (range_page_sizes entry);
          depth = tree_page_table_depth tree max_page_size
      in Tlb_Invalidate_Va (tree_pdb tree) depth (range_start entry) (range_size entry) min_page_size m)"

definition tlb_batch_flush_invalidate_per_va :: "tlb_batch \<Rightarrow> tlb_command list" where
  "tlb_batch_flush_invalidate_per_va b =
     map (\<lambda>i. invalidate_range (batch_tree b)
            (if i = batch_count b - 1 then batch_membar b else UVM_MEMBAR_NONE) (batch_ranges b ! i))
       [0..<batch_count b]"

definition tlb_batch_flush_invalidate_all :: "tlb_batch \<Rightarrow> tlb_command list" where
  "tlb_batch_flush_invalidate_all b =
     [Tlb_Invalidate_All (tree_pdb (batch_tree b)) (tree_page_table_depth (batch_tree b) (biggest b))
        (batch_membar b)]"

definition tlb_batch_should_invalidate_all :: "tlb_batch \<Rightarrow> bool" where
  "tlb_batch_should_invalidate_all b \<longleftrightarrow>
     (if \<not> va_invalidate_supported (batch_tree b) then True
      else if batch_count b > UVM_TLB_BATCH_MAX_ENTRIES then True
      else if va_range_invalidate_supported (batch_tree b) then batch_total b > max_ranges (batch_tree b)
      else batch_total b > max_pages (batch_tree b))"

definition uvm_tlb_batch_end :: "tlb_batch \<Rightarrow> membar \<Rightarrow> tlb_command list" where
  "uvm_tlb_batch_end b tlb_membar =
     (if batch_count b = 0 then []
      else
        let b = b\<lparr>batch_membar := uvm_membar_max tlb_membar (batch_membar b)\<rparr>
        in if tlb_batch_should_invalidate_all b then tlb_batch_flush_invalidate_all b
           else tlb_batch_flush_invalidate_per_va b)"

definition uvm_div_pow2_64 :: "NvU64 \<Rightarrow> NvU32 \<Rightarrow> NvU64" where
  "uvm_div_pow2_64 n d = drop_bit (fls d) n"

definition uvm_tlb_batch_invalidate :: "tlb_batch_range \<Rightarrow> membar \<Rightarrow> tlb_batch \<Rightarrow> tlb_batch" where
  "uvm_tlb_batch_invalidate r tlb_membar b =
     (let b = b\<lparr>batch_membar := uvm_membar_max tlb_membar (batch_membar b),
                batch_count := batch_count b + 1\<rparr>;
          b = (if va_range_invalidate_supported (batch_tree b)
               then b\<lparr>batch_total := batch_total b + 1\<rparr>
               else b\<lparr>batch_total := batch_total b +
                  ucast (uvm_div_pow2_64 (range_size r) (smallest_page_size (range_page_sizes r)))\<rparr>);
          b = b\<lparr>biggest := max (biggest b) (biggest_page_size (range_page_sizes r))\<rparr>
      in if tlb_batch_should_invalidate_all b then b
         else b\<lparr>batch_ranges := (batch_ranges b)[batch_count b - 1 := r]\<rparr>)"

definition uvm_tlb_batch_single_invalidate :: "tlb_tree \<Rightarrow> tlb_batch_range \<Rightarrow> membar \<Rightarrow> tlb_command list" where
  "uvm_tlb_batch_single_invalidate tree r tlb_membar =
     uvm_tlb_batch_end (uvm_tlb_batch_invalidate r UVM_MEMBAR_NONE (uvm_tlb_batch_begin tree)) tlb_membar"

section \<open>Specification\<close>

type_synonym tlb_request = "tlb_batch_range \<times> membar"

definition run_batch :: "tlb_tree \<Rightarrow> tlb_request list \<Rightarrow> tlb_batch" where
  "run_batch tree qs = fold (\<lambda>(r, m) b. uvm_tlb_batch_invalidate r m b) qs (uvm_tlb_batch_begin tree)"

definition request_cost :: "tlb_tree \<Rightarrow> tlb_request \<Rightarrow> nat" where
  "request_cost tree q =
     (if va_range_invalidate_supported tree then 1
      else unat (uvm_div_pow2_64 (range_size (fst q)) (smallest_page_size (range_page_sizes (fst q)))))"

definition total_cost :: "tlb_tree \<Rightarrow> tlb_request list \<Rightarrow> nat" where
  "total_cost tree qs = (\<Sum>q\<leftarrow>qs. request_cost tree q)"

definition strongest :: "membar \<Rightarrow> tlb_request list \<Rightarrow> membar" where
  "strongest m qs = fold (\<lambda>(_, n) m. uvm_membar_max n m) qs m"

definition too_many :: "tlb_tree \<Rightarrow> tlb_request list \<Rightarrow> bool" where
  "too_many tree qs \<longleftrightarrow> \<not> va_invalidate_supported tree \<or> length qs > UVM_TLB_BATCH_MAX_ENTRIES \<or>
     total_cost tree qs >
       unat (if va_range_invalidate_supported tree then max_ranges tree else max_pages tree)"

definition tlb_spec :: "tlb_tree \<Rightarrow> tlb_request list \<Rightarrow> membar \<Rightarrow> tlb_command list" where
  "tlb_spec tree qs m =
     (if qs = [] then []
      else
        let last_membar = uvm_membar_max m (strongest UVM_MEMBAR_NONE qs)
        in if too_many tree qs
           then [Tlb_Invalidate_All (tree_pdb tree)
                   (tree_page_table_depth tree
                      (fold (\<lambda>q. max (biggest_page_size (range_page_sizes (fst q)))) qs 0)) last_membar]
           else map (invalidate_range tree UVM_MEMBAR_NONE) (map fst (butlast qs)) @
                [invalidate_range tree last_membar (fst (last qs))])"

section \<open>The batch implements the specification\<close>

lemma run_batch_Nil [simp]: "run_batch tree [] = uvm_tlb_batch_begin tree"
  by (simp add: run_batch_def)

lemma run_batch_snoc [simp]:
  "run_batch tree (qs @ [q]) = uvm_tlb_batch_invalidate (fst q) (snd q) (run_batch tree qs)"
  by (simp add: run_batch_def case_prod_beta)

lemma total_cost_snoc [simp]: "total_cost tree (qs @ [q]) = total_cost tree qs + request_cost tree q"
  by (simp add: total_cost_def)

lemma strongest_snoc [simp]: "strongest m (qs @ [q]) = uvm_membar_max (snd q) (strongest m qs)"
  by (simp add: strongest_def case_prod_beta)

lemma too_many_snoc: "too_many tree qs \<Longrightarrow> too_many tree (qs @ [q])"
  by (auto simp: too_many_def)

lemma invalidate_keeps [simp]:
  "batch_tree (uvm_tlb_batch_invalidate r m b) = batch_tree b"
  "batch_count (uvm_tlb_batch_invalidate r m b) = batch_count b + 1"
  "batch_membar (uvm_tlb_batch_invalidate r m b) = uvm_membar_max m (batch_membar b)"
  "biggest (uvm_tlb_batch_invalidate r m b) = max (biggest b) (biggest_page_size (range_page_sizes r))"
  "length (batch_ranges (uvm_tlb_batch_invalidate r m b)) = length (batch_ranges b)"
  by (simp_all add: uvm_tlb_batch_invalidate_def Let_def)

definition batch_cost :: "tlb_tree \<Rightarrow> tlb_batch_range \<Rightarrow> NvU32" where
  "batch_cost tree r = (if va_range_invalidate_supported tree then 1
     else ucast (uvm_div_pow2_64 (range_size r) (smallest_page_size (range_page_sizes r))))"

lemma invalidate_total [simp]:
  "batch_total (uvm_tlb_batch_invalidate r m b) = batch_total b + batch_cost (batch_tree b) r"
  by (simp add: uvm_tlb_batch_invalidate_def Let_def batch_cost_def)

lemma invalidate_ranges:
  "batch_ranges (uvm_tlb_batch_invalidate r m b) =
     (if tlb_batch_should_invalidate_all (uvm_tlb_batch_invalidate r m b) then batch_ranges b
      else (batch_ranges b)[batch_count b := r])"
  by (simp add: uvm_tlb_batch_invalidate_def Let_def tlb_batch_should_invalidate_all_def)

lemma batch_cost_unat: "request_cost tree q < 2 ^ 32 \<Longrightarrow> unat (batch_cost tree (fst q)) = request_cost tree q"
  by (auto simp: batch_cost_def request_cost_def unsigned_ucast_eq take_bit_nat_eq_self)

text \<open>The state of a batch after queueing \<open>qs\<close>; the total must not have wrapped.\<close>

definition batch_holds :: "tlb_tree \<Rightarrow> tlb_request list \<Rightarrow> tlb_batch \<Rightarrow> bool" where
  "batch_holds tree qs b \<longleftrightarrow>
     batch_tree b = tree \<and> unat (batch_total b) = total_cost tree qs \<and> batch_count b = length qs \<and>
     batch_membar b = strongest UVM_MEMBAR_NONE qs \<and>
     biggest b = fold (\<lambda>q. max (biggest_page_size (range_page_sizes (fst q)))) qs 0 \<and>
     length (batch_ranges b) = UVM_TLB_BATCH_MAX_ENTRIES \<and>
     (\<not> too_many tree qs \<longrightarrow> (\<forall>i<length qs. batch_ranges b ! i = fst (qs ! i)))"

lemma should_invalidate_all_iff:
  assumes "batch_tree b = tree" "unat (batch_total b) = total_cost tree qs" "batch_count b = length qs"
  shows "tlb_batch_should_invalidate_all b \<longleftrightarrow> too_many tree qs"
  using assms by (auto simp: tlb_batch_should_invalidate_all_def too_many_def word_less_nat_alt)

lemma batch_holds_step:
  assumes h: "batch_holds tree qs b" and no_wrap: "total_cost tree (qs @ [q]) < 2 ^ 32"
  shows "batch_holds tree (qs @ [q]) (uvm_tlb_batch_invalidate (fst q) (snd q) b)"
proof -
  let ?b = "uvm_tlb_batch_invalidate (fst q) (snd q) b"
  have tot: "unat (batch_total ?b) = total_cost tree (qs @ [q])"
    using h no_wrap batch_cost_unat[of tree q] by (simp add: batch_holds_def unat_plus_if')
  have all: "tlb_batch_should_invalidate_all ?b \<longleftrightarrow> too_many tree (qs @ [q])"
    using h tot by (intro should_invalidate_all_iff) (simp_all add: batch_holds_def)
  have "batch_ranges ?b ! i = fst ((qs @ [q]) ! i)" if nm: "\<not> too_many tree (qs @ [q])" and i: "i < length (qs @ [q])" for i
  proof -
    have "\<not> too_many tree qs" using nm too_many_snoc by blast
    moreover have "length qs < UVM_TLB_BATCH_MAX_ENTRIES" using nm by (simp add: too_many_def)
    moreover have "batch_ranges ?b = (batch_ranges b)[length qs := fst q]"
      using invalidate_ranges[of "fst q" "snd q" b] nm all h by (simp add: batch_holds_def)
    ultimately show ?thesis
      using h i by (cases "i = length qs") (auto simp: batch_holds_def nth_append)
  qed
  with h tot show ?thesis by (simp add: batch_holds_def max.commute)
qed

lemma run_batch_holds: "total_cost tree qs < 2 ^ 32 \<Longrightarrow> batch_holds tree qs (run_batch tree qs)"
proof (induction qs rule: rev_induct)
  case Nil
  then show ?case
    by (simp add: batch_holds_def uvm_tlb_batch_begin_def total_cost_def strongest_def)
next
  case (snoc q qs)
  then show ?case by (simp add: batch_holds_step)
qed

lemma map_upt_last:
  assumes "xs \<noteq> []"
  shows "map (\<lambda>i. f (i = length xs - 1) (xs ! i)) [0..<length xs] = map (f False) (butlast xs) @ [f True (last xs)]"
proof -
  obtain ys y where xs: "xs = ys @ [y]" using assms by (metis append_butlast_last_id)
  have "map (\<lambda>i. f (i = length ys) ((ys @ [y]) ! i)) [0..<length ys] = map (f False) ys"
    by (rule nth_equalityI) (simp_all add: nth_append)
  then show ?thesis by (simp add: xs)
qed

lemma batch_end_spec:
  assumes h: "batch_holds tree qs b"
  shows "uvm_tlb_batch_end b m = tlb_spec tree qs m"
proof (cases "qs = []")
  case True
  with h show ?thesis by (simp add: uvm_tlb_batch_end_def tlb_spec_def batch_holds_def)
next
  case False
  let ?b = "b\<lparr>batch_membar := uvm_membar_max m (batch_membar b)\<rparr>"
  have all: "tlb_batch_should_invalidate_all ?b \<longleftrightarrow> too_many tree qs"
    using h by (intro should_invalidate_all_iff) (simp_all add: batch_holds_def)
  show ?thesis
  proof (cases "too_many tree qs")
    case True
    with False h all show ?thesis
      by (simp add: uvm_tlb_batch_end_def tlb_spec_def batch_holds_def tlb_batch_flush_invalidate_all_def Let_def)
  next
    case few: False
    let ?m = "uvm_membar_max m (strongest UVM_MEMBAR_NONE qs)"
    have "tlb_batch_flush_invalidate_per_va ?b =
      map (\<lambda>i. invalidate_range tree (if i = length (map fst qs) - 1 then ?m else UVM_MEMBAR_NONE) (map fst qs ! i))
        [0..<length (map fst qs)]"
      using h few by (simp add: tlb_batch_flush_invalidate_per_va_def batch_holds_def)
    also have "\<dots> = map (invalidate_range tree UVM_MEMBAR_NONE) (butlast (map fst qs)) @
        [invalidate_range tree ?m (last (map fst qs))]"
      using map_upt_last[of "map fst qs" "\<lambda>l r. invalidate_range tree (if l then ?m else UVM_MEMBAR_NONE) r"] False
      by simp
    finally show ?thesis
      using False few all h by (simp add: uvm_tlb_batch_end_def tlb_spec_def batch_holds_def map_butlast last_map Let_def)
  qed
qed

text \<open>C21. A TLB batch pushes what its specification says: nothing for an empty batch; one invalidate
  per queued range, in order, with the membar only on the last, when the ranges and pages are few; otherwise a single invalidate of everything, at
  the depth of the biggest queued page size. The number of pages queued must fit the 32 bit counter.\<close>

theorem uvm_tlb_batch_implements_spec:
  assumes "total_cost tree qs < 2 ^ 32"
  shows "uvm_tlb_batch_end (run_batch tree qs) m = tlb_spec tree qs m"
  by (rule batch_end_spec[OF run_batch_holds[OF assms]])

text \<open>
  The counter does not matter when everything is invalidated anyway: on a GPU without targeted invalidates, and when there are more ranges than entries.
\<close>

definition counter_fits :: "tlb_tree \<Rightarrow> tlb_request list \<Rightarrow> bool" where
  "counter_fits tree qs \<longleftrightarrow> \<not> va_invalidate_supported tree \<or> length qs > UVM_TLB_BATCH_MAX_ENTRIES \<or> total_cost tree qs < 2 ^ 32"

lemma run_batch_fields:
  "batch_tree (run_batch tree qs) = tree \<and> batch_count (run_batch tree qs) = length qs \<and>
   batch_membar (run_batch tree qs) = strongest UVM_MEMBAR_NONE qs \<and>
   biggest (run_batch tree qs) = fold (\<lambda>q. max (biggest_page_size (range_page_sizes (fst q)))) qs 0"
proof (induction qs rule: rev_induct)
  case Nil
  then show ?case by (simp add: uvm_tlb_batch_begin_def strongest_def)
next
  case (snoc q qs)
  then show ?case by (simp add: max.commute)
qed

lemma counter_fits_spec:
  assumes "counter_fits tree qs"
  shows "uvm_tlb_batch_end (run_batch tree qs) m = tlb_spec tree qs m"
proof (cases "total_cost tree qs < 2 ^ 32")
  case True
  then show ?thesis by (rule batch_end_spec[OF run_batch_holds])
next
  case False
  then have all: "\<not> va_invalidate_supported tree \<or> length qs > UVM_TLB_BATCH_MAX_ENTRIES" using assms by (auto simp: counter_fits_def)
  then have "too_many tree qs" by (auto simp: too_many_def)
  then show ?thesis using all run_batch_fields[of tree qs]
    by (auto simp: uvm_tlb_batch_end_def tlb_batch_should_invalidate_all_def tlb_batch_flush_invalidate_all_def tlb_spec_def Let_def)
qed

section \<open>Coverage\<close>

definition page_bits :: "NvU32 \<Rightarrow> NvU32 set" where
  "page_bits sizes = {push_bit i 1 |i. bit sizes i}"

lemma last_filter_max:
  assumes "sorted xs" "x \<in> set xs" "P x"
  shows "P (last (filter P xs)) \<and> x \<le> last (filter P xs)"
proof -
  have "last (filter P xs) \<in> set (filter P xs)" using assms by (intro last_in_set) (auto simp: filter_empty_conv)
  moreover have "x \<le> last (filter P xs)"
    using assms
  proof (induction xs)
    case (Cons y ys)
    show ?case
    proof (cases "filter P ys = []")
      case False
      then have "last (filter P ys) \<in> set ys" by (metis filter_is_subset last_in_set subsetD)
      with False Cons show ?thesis by (cases "x = y") auto
    next
      case True
      with Cons show ?thesis by (auto simp: filter_empty_conv)
    qed
  qed simp
  ultimately show ?thesis by simp
qed

lemma fls_greatest:
  assumes "bit sizes i"
  shows "bit sizes (fls sizes)" and "i \<le> fls sizes" and "fls sizes < 32"
proof -
  have "i < 32" using bit_imp_le_length[OF assms] by simp
  then show "bit sizes (fls sizes)" "i \<le> fls sizes"
    using last_filter_max[of "[0..<32]" i "bit sizes"] assms by (auto simp: fls_def)
  then show "fls sizes < 32" using bit_imp_le_length[of sizes "fls sizes"] by simp
qed

lemma pow_le_pow: "i \<le> j \<Longrightarrow> j < 32 \<Longrightarrow> push_bit i (1 :: NvU32) \<le> push_bit j 1"
  by (simp add: push_bit_of_1 word_le_nat_alt unat_pow2)

lemma pow_pos: "j < 32 \<Longrightarrow> 0 < push_bit j (1 :: NvU32)"
  by (simp add: push_bit_of_1 word_less_nat_alt unat_pow2)

lemma biggest_page_size_greatest:
  assumes "s \<in> page_bits sizes"
  shows "biggest_page_size sizes \<in> page_bits sizes" and "s \<le> biggest_page_size sizes" and "0 < biggest_page_size sizes"
proof -
  obtain i where i: "bit sizes i" "s = push_bit i 1" using assms by (auto simp: page_bits_def)
  note g = fls_greatest[OF i(1)]
  show "biggest_page_size sizes \<in> page_bits sizes" using g(1) by (auto simp: biggest_page_size_def page_bits_def)
  show "s \<le> biggest_page_size sizes" unfolding i(2) biggest_page_size_def by (rule pow_le_pow[OF g(2,3)])
  show "0 < biggest_page_size sizes" unfolding biggest_page_size_def by (rule pow_pos[OF g(3)])
qed

lemma fold_max_ge:
  fixes f :: "'a \<Rightarrow> NvU32"
  shows "z \<le> fold (\<lambda>q. max (f q)) qs z"
proof (induction qs arbitrary: z)
  case (Cons q qs)
  have "z \<le> max (f q) z" by simp
  also have "\<dots> \<le> fold (\<lambda>q. max (f q)) qs (max (f q) z)" by (rule Cons.IH)
  finally show ?case by simp
qed simp

lemma fold_max_props:
  fixes f :: "'a \<Rightarrow> NvU32"
  shows "q \<in> set qs \<Longrightarrow> f q \<le> fold (\<lambda>q. max (f q)) qs z"
    and "fold (\<lambda>q. max (f q)) qs z = z \<or> fold (\<lambda>q. max (f q)) qs z \<in> f ` set qs"
proof -
  show "fold (\<lambda>q. max (f q)) qs z = z \<or> fold (\<lambda>q. max (f q)) qs z \<in> f ` set qs"
    by (induction qs arbitrary: z) (auto simp: max_def split: if_splits)
  show "q \<in> set qs \<Longrightarrow> f q \<le> fold (\<lambda>q. max (f q)) qs z"
  proof (induction qs arbitrary: z)
    case (Cons x qs)
    have "f x \<le> max (f x) z" by simp
    also have "\<dots> \<le> fold (\<lambda>q. max (f q)) qs (max (f x) z)" by (rule fold_max_ge)
    finally show ?case using Cons by auto
  qed simp
qed

definition covers :: "tlb_tree \<Rightarrow> tlb_command \<Rightarrow> tlb_batch_range \<Rightarrow> bool" where
  "covers tree c r \<longleftrightarrow>
     (case c of
        Tlb_Invalidate_All pdb d m \<Rightarrow>
          pdb = tree_pdb tree \<and> (\<forall>s\<in>page_bits (range_page_sizes r). d \<le> tree_page_table_depth tree s)
      | Tlb_Invalidate_Va pdb d start sz step m \<Rightarrow>
          pdb = tree_pdb tree \<and> start = range_start r \<and> sz = range_size r \<and>
          step = smallest_page_size (range_page_sizes r) \<and>
          (\<forall>s\<in>page_bits (range_page_sizes r). d \<le> tree_page_table_depth tree s))"

fun command_membar :: "tlb_command \<Rightarrow> membar" where
  "command_membar (Tlb_Invalidate_All _ _ m) = m"
| "command_membar (Tlb_Invalidate_Va _ _ _ _ _ m) = m"

text \<open>What a batch asks of a page table format: among the page sizes it supports, bigger pages end the walk no deeper.\<close>

locale page_walk =
  fixes depth :: "NvU32 \<Rightarrow> nat" and supported :: NvU32
  assumes depth_mono: "s \<in> page_bits supported \<Longrightarrow> s' \<in> page_bits supported \<Longrightarrow> s \<le> s' \<Longrightarrow> depth s' \<le> depth s"
begin

definition request_ok :: "tlb_request \<Rightarrow> bool" where
  "request_ok q \<longleftrightarrow> page_bits (range_page_sizes (fst q)) \<noteq> {} \<and>
     page_bits (range_page_sizes (fst q)) \<subseteq> page_bits supported"

lemma depth_biggest:
  assumes "request_ok q" "s \<in> page_bits (range_page_sizes (fst q))"
  shows "depth (biggest_page_size (range_page_sizes (fst q))) \<le> depth s"
  using assms biggest_page_size_greatest[OF assms(2)] by (intro depth_mono) (auto simp: request_ok_def)

lemma depth_all:
  assumes "\<forall>q\<in>set qs. request_ok q" "q \<in> set qs" "s \<in> page_bits (range_page_sizes (fst q))"
  shows "depth (fold (\<lambda>q. max (biggest_page_size (range_page_sizes (fst q)))) qs 0) \<le> depth s"
proof -
  let ?f = "\<lambda>q :: tlb_request. biggest_page_size (range_page_sizes (fst q))"
  let ?M = "fold (\<lambda>q. max (?f q)) qs 0"
  note g = biggest_page_size_greatest[OF assms(3)]
  have le: "s \<le> ?M" using g(2) fold_max_props(1)[OF assms(2), of ?f 0] by (rule order_trans)
  have "?M \<noteq> 0" using g(3) fold_max_props(1)[OF assms(2), of ?f 0] by auto
  then obtain q' where q': "q' \<in> set qs" "?M = ?f q'" using fold_max_props(2)[of ?f qs 0] by auto
  then have "request_ok q'" using assms(1) by blast
  then have "?M \<in> page_bits supported"
    unfolding q'(2) using biggest_page_size_greatest(1) by (fastforce simp: request_ok_def)
  moreover have "s \<in> page_bits supported" using assms by (auto simp: request_ok_def)
  ultimately show ?thesis using le by (intro depth_mono)
qed

lemma spec_covers:
  assumes t: "tree_page_table_depth tree = depth" and ok: "\<forall>q\<in>set qs. request_ok q" and q: "q \<in> set qs"
  shows "\<exists>c\<in>set (tlb_spec tree qs m). covers tree c (fst q)"
proof (cases "too_many tree qs")
  case True
  with t q depth_all[OF ok q] show ?thesis by (auto simp: tlb_spec_def covers_def Let_def)
next
  case False
  have "qs \<noteq> []" using q by auto
  then have "qs = butlast qs @ [last qs]" by simp
  with q have "q \<in> set (butlast qs) \<or> q = last qs" by (metis UnE set_append singletonD list.set(1,2) insertE emptyE)
  moreover have "covers tree (invalidate_range tree n (fst q)) (fst q)" for n
    using t ok q depth_biggest by (auto simp: covers_def invalidate_range_def Let_def)
  ultimately show ?thesis using False \<open>qs \<noteq> []\<close> by (auto simp: tlb_spec_def Let_def)
qed

end

lemma page_bits_or: "page_bits (v OR w) = page_bits v \<union> page_bits w"
  by (auto simp: page_bits_def bit_simps)

lemma page_bits_pow: "k < 32 \<Longrightarrow> page_bits (2 ^ k) = {2 ^ k}"
  by (auto simp: page_bits_def bit_simps push_bit_of_1)

lemma page_bits_sizes:
  "page_bits UVM_PAGE_SIZE_4K = {UVM_PAGE_SIZE_4K}" "page_bits UVM_PAGE_SIZE_64K = {UVM_PAGE_SIZE_64K}"
  "page_bits UVM_PAGE_SIZE_2M = {UVM_PAGE_SIZE_2M}" "page_bits UVM_PAGE_SIZE_512M = {UVM_PAGE_SIZE_512M}"
  using page_bits_pow[of 12] page_bits_pow[of 16] page_bits_pow[of 21] page_bits_pow[of 29]
  by (simp_all add: page_size_defs)

lemma page_bits_supported:
  "page_bits page_sizes_pascal = {UVM_PAGE_SIZE_2M, UVM_PAGE_SIZE_64K, UVM_PAGE_SIZE_4K}"
  "page_bits page_sizes_ampere = {UVM_PAGE_SIZE_512M, UVM_PAGE_SIZE_2M, UVM_PAGE_SIZE_64K, UVM_PAGE_SIZE_4K}"
  by (auto simp: page_sizes_pascal_def page_sizes_ampere_def page_bits_or page_bits_sizes)

interpretation pascal_walk: page_walk page_table_depth_pascal page_sizes_pascal
  by unfold_locales (auto simp: page_bits_supported page_table_depth_pascal_def page_size_defs)

interpretation ampere_walk: page_walk page_table_depth_ampere page_sizes_ampere
  by unfold_locales (auto simp: page_bits_supported page_table_depth_ampere_def page_size_defs)

interpretation hopper_walk: page_walk page_table_depth_hopper page_sizes_ampere
  by unfold_locales (auto simp: page_bits_supported page_table_depth_hopper_def page_size_defs)

lemma membar_max_rank [simp]: "membar_rank (uvm_membar_max m n) = max (membar_rank m) (membar_rank n)"
  by (simp add: uvm_membar_max_def)

lemma strongest_ge: "(r, n) \<in> set qs \<Longrightarrow> membar_rank n \<le> membar_rank (strongest m qs)"
  by (induction qs rule: rev_induct) auto

lemma spec_last_membar:
  assumes "qs \<noteq> []"
  shows "command_membar (last (tlb_spec tree qs m)) = uvm_membar_max m (strongest UVM_MEMBAR_NONE qs)"
  using assms by (simp add: tlb_spec_def Let_def invalidate_range_def)

text \<open>C26. No stale translation survives a TLB batch whose page counter does not wrap: for every range queued with page sizes the format supports (Pascal to Turing, Ampere, Hopper), one of the
  pushed commands invalidates that range at a depth that reaches all its page sizes, and the last command carries a membar at least as strong as
  every membar asked for. The condition is that the pages of the queued ranges (the number of ranges, with range invalidates) are less than \<open>2 ^ 32\<close>; it is not needed when the GPU has no targeted invalidates or more
  than \<^verbatim>\<open>UVM_TLB_BATCH_MAX_ENTRIES\<close> ranges are queued. Without it the claim fails, see \<open>uvm_tlb_batch_wrap_misses\<close>.\<close>

theorem uvm_tlb_batch_covers:
  assumes "(tree_page_table_depth tree, sizes) \<in> {(page_table_depth_pascal, page_sizes_pascal),
      (page_table_depth_ampere, page_sizes_ampere), (page_table_depth_hopper, page_sizes_ampere)}"
    and "\<forall>q\<in>set qs. page_bits (range_page_sizes (fst q)) \<noteq> {} \<and> page_bits (range_page_sizes (fst q)) \<subseteq> page_bits sizes"
    and "counter_fits tree qs" and q: "(r, n) \<in> set qs"
  shows "(\<exists>c\<in>set (uvm_tlb_batch_end (run_batch tree qs) m). covers tree c r) \<and>
    membar_rank n \<le> membar_rank (command_membar (last (uvm_tlb_batch_end (run_batch tree qs) m))) \<and>
    membar_rank m \<le> membar_rank (command_membar (last (uvm_tlb_batch_end (run_batch tree qs) m)))"
proof -
  have spec: "uvm_tlb_batch_end (run_batch tree qs) m = tlb_spec tree qs m"
    by (rule counter_fits_spec[OF assms(3)])
  have "\<exists>c\<in>set (tlb_spec tree qs m). covers tree c (fst (r, n))"
    using assms(1,2) q pascal_walk.spec_covers[of tree qs "(r, n)" m] ampere_walk.spec_covers[of tree qs "(r, n)" m]
      hopper_walk.spec_covers[of tree qs "(r, n)" m]
    by (auto simp: pascal_walk.request_ok_def ampere_walk.request_ok_def hopper_walk.request_ok_def)
  moreover have "qs \<noteq> []" using q by auto
  ultimately show ?thesis unfolding spec spec_last_membar[OF \<open>qs \<noteq> []\<close>] using strongest_ge[OF q, of UVM_MEMBAR_NONE]
    by (simp add: le_max_iff_disj)
qed

definition sample_tlb_tree :: tlb_tree where
  "sample_tlb_tree = \<lparr>va_invalidate_supported = True, va_range_invalidate_supported = False, max_ranges = 8,
     max_pages = 32, tree_page_table_depth = page_table_depth_hopper,
     tree_pdb = \<lparr>phys_address = 0x1000, phys_aperture = UVM_APERTURE_VID\<rparr>\<rparr>"

definition sample_request :: tlb_request where
  "sample_request = (\<lparr>range_start = 0x200000, range_size = 0x2000, range_page_sizes = UVM_PAGE_SIZE_4K\<rparr>, UVM_MEMBAR_GPU)"

lemma ffs_4K: "ffs UVM_PAGE_SIZE_4K = 12" "fls UVM_PAGE_SIZE_4K = 12"
  by (simp_all add: ffs_def fls_def UVM_PAGE_SIZE_4K_def upt_rec)

lemma sample_cost: "total_cost sample_tlb_tree [sample_request] = 2"
  by (simp add: total_cost_def request_cost_def sample_tlb_tree_def sample_request_def uvm_div_pow2_64_def
      smallest_page_size_def ffs_4K) (simp add: fls_def upt_rec)

text \<open>
  What happens when the counter wraps. The first range has so many pages that it is not stored; the page of the second one brings the counter back to 0, so
  that the ranges are invalidated one by one, and the entry of the first range is empty.
\<close>

definition wrap_requests :: "tlb_request list" where
  "wrap_requests =
     [(\<lparr>range_start = 0x1000, range_size = 0xffffffff000, range_page_sizes = UVM_PAGE_SIZE_4K\<rparr>, UVM_MEMBAR_SYS),
      (\<lparr>range_start = 0, range_size = 0x1000, range_page_sizes = UVM_PAGE_SIZE_4K\<rparr>, UVM_MEMBAR_SYS)]"

lemma end_of_two:
  assumes "batch_count b = 2" "\<not> tlb_batch_should_invalidate_all b"
  shows "uvm_tlb_batch_end b m = [invalidate_range (batch_tree b) UVM_MEMBAR_NONE (batch_ranges b ! 0),
    invalidate_range (batch_tree b) (uvm_membar_max m (batch_membar b)) (batch_ranges b ! 1)]"
proof -
  have "tlb_batch_should_invalidate_all (b\<lparr>batch_membar := n\<rparr>) = tlb_batch_should_invalidate_all b" for n
    by (simp add: tlb_batch_should_invalidate_all_def)
  then show ?thesis using assms by (simp add: uvm_tlb_batch_end_def tlb_batch_flush_invalidate_per_va_def upt_rec)
qed

lemma uvm_tlb_batch_wrap_misses:
  "\<not> (\<exists>c\<in>set (uvm_tlb_batch_end (run_batch sample_tlb_tree wrap_requests) m). covers sample_tlb_tree c (fst (hd wrap_requests)))"
proof -
  have small: "smallest_page_size UVM_PAGE_SIZE_4K = 0x1000" "fls (0x1000 :: NvU32) = 12" using ffs_4K by (simp_all add: smallest_page_size_def UVM_PAGE_SIZE_4K_def)
  let ?b1 = "uvm_tlb_batch_invalidate (fst (wrap_requests ! 0)) (snd (wrap_requests ! 0)) (uvm_tlb_batch_begin sample_tlb_tree)"
  let ?b = "uvm_tlb_batch_invalidate (fst (wrap_requests ! 1)) (snd (wrap_requests ! 1)) ?b1"
  have b: "run_batch sample_tlb_tree wrap_requests = ?b" by (simp add: run_batch_def wrap_requests_def)
  have "batch_total ?b1 = - 1" "batch_total ?b = 0"
    by (simp_all add: wrap_requests_def batch_cost_def small uvm_div_pow2_64_def uvm_tlb_batch_begin_def sample_tlb_tree_def)
  note total = this
  have ranges1: "batch_ranges ?b1 = batch_ranges (uvm_tlb_batch_begin sample_tlb_tree)" using total(1)
    by (simp add: invalidate_ranges tlb_batch_should_invalidate_all_def) (simp add: uvm_tlb_batch_begin_def sample_tlb_tree_def)
  have fields: "batch_tree ?b = sample_tlb_tree" "batch_count ?b = 2" "batch_count ?b1 = 1" by (simp_all add: uvm_tlb_batch_begin_def)
  have few: "\<not> tlb_batch_should_invalidate_all ?b"
    using total(2) fields by (simp add: tlb_batch_should_invalidate_all_def UVM_TLB_BATCH_MAX_ENTRIES_def) (simp add: sample_tlb_tree_def)
  then have "batch_ranges ?b = (batch_ranges ?b1)[1 := fst (wrap_requests ! 1)]" using fields(3) by (simp only: invalidate_ranges[of _ _ ?b1] if_False)
  then have ranges: "batch_ranges ?b = [zero_range, fst (wrap_requests ! 1), zero_range, zero_range]"
    unfolding ranges1 by (simp add: uvm_tlb_batch_begin_def UVM_TLB_BATCH_MAX_ENTRIES_def numeral_eq_Suc)
  have "uvm_tlb_batch_end ?b m =
      [invalidate_range sample_tlb_tree UVM_MEMBAR_NONE zero_range,
       invalidate_range sample_tlb_tree (uvm_membar_max m (batch_membar ?b)) (fst (wrap_requests ! 1))]"
    using end_of_two[OF fields(2) few] fields(1) ranges by simp
  then show ?thesis unfolding b by (auto simp: covers_def invalidate_range_def wrap_requests_def zero_range_def Let_def)
qed

theorem uvm_tlb_batch_implements_spec_witness:
  "uvm_tlb_batch_end (run_batch sample_tlb_tree [sample_request]) UVM_MEMBAR_SYS =
     [Tlb_Invalidate_Va (tree_pdb sample_tlb_tree) 5 0x200000 0x2000 UVM_PAGE_SIZE_4K UVM_MEMBAR_SYS]"
  using uvm_tlb_batch_implements_spec[of sample_tlb_tree "[sample_request]" UVM_MEMBAR_SYS] sample_cost
  by (simp add: tlb_spec_def too_many_def strongest_def UVM_TLB_BATCH_MAX_ENTRIES_def)
    (simp add: sample_tlb_tree_def sample_request_def invalidate_range_def smallest_page_size_def biggest_page_size_def
      ffs_4K uvm_membar_max_def page_table_depth_hopper_def Let_def, simp add: page_size_defs)

theorem uvm_tlb_batch_covers_witness:
  "\<exists>c\<in>set (uvm_tlb_batch_end (run_batch sample_tlb_tree [sample_request]) UVM_MEMBAR_NONE).
     covers sample_tlb_tree c (fst sample_request)"
  using uvm_tlb_batch_covers[of sample_tlb_tree page_sizes_ampere "[sample_request]" "fst sample_request" "snd sample_request" UVM_MEMBAR_NONE]
    sample_cost
  by (simp add: sample_tlb_tree_def counter_fits_def)
    (simp add: sample_request_def page_bits_sizes page_bits_supported)

end
