(* ===== verification/Pushbuffer.thy ===== *)
theory Pushbuffer
  imports Gpu_Semaphore
begin

text \<open>
  The pushbuffer of \<^verbatim>\<open>uvm_pushbuffer.c\<close>: 16 chunks of 1 MB, each roughly a ring buffer of the
  pending pushes. A push claims a chunk and may use up to \<^verbatim>\<open>UVM_MAX_PUSH_SIZE\<close> bytes at the
  chunk's \<^verbatim>\<open>next_push_start\<close>; when it ends, its GPFIFO entry is appended to the chunk's list, and
  when the GPU completes it, the entry is taken off. Offsets are natural numbers: the invariant
  bounds them by the size of the pushbuffer, \<open>2\<^sup>24\<close>, so the code's 32-bit arithmetic does not wrap.
\<close>

section \<open>Data\<close>

definition UVM_MAX_PUSH_SIZE :: nat where "UVM_MAX_PUSH_SIZE = 128 * 1024"
definition UVM_PUSHBUFFER_CHUNK_SIZE :: nat where "UVM_PUSHBUFFER_CHUNK_SIZE = 8 * UVM_MAX_PUSH_SIZE"
definition UVM_PUSHBUFFER_CHUNKS :: nat where "UVM_PUSHBUFFER_CHUNKS = 16"
definition UVM_PUSHBUFFER_SIZE :: nat where
  "UVM_PUSHBUFFER_SIZE = UVM_PUSHBUFFER_CHUNK_SIZE * UVM_PUSHBUFFER_CHUNKS"

record 'e gpfifo =
  gpfifo_id :: 'e
  pushbuffer_offset :: nat
  pushbuffer_size :: nat

datatype channel_kind = Ordinary | WLC | LCIC | SEC2

record 'q push =
  push_id :: 'q
  channel_kind :: channel_kind
  push_begin :: nat

record ('e, 'q) pushbuffer_chunk =
  next_push_start :: nat
  pending_gpfifos :: "'e gpfifo list"
  current_push :: "'q option"

record ('e, 'q) pushbuffer =
  chunks :: "nat \<Rightarrow> ('e, 'q) pushbuffer_chunk"
  available_chunks :: "nat set"
  idle_chunks :: "nat set"
  concurrent_pushes_sema :: nat

section \<open>Creation\<close>

record pushbuffer_memory =
  pb_memory :: bool
  memory_unprotected_sysmem :: bool
  memory_protected_sysmem :: bool

text \<open>The outcomes of the steps of \<^verbatim>\<open>uvm_pushbuffer_create\<close> that can fail.\<close>

record create_steps =
  step_kvmalloc :: bool
  step_alloc :: NV_STATUS
  step_protected :: bool
  step_alloc_vidmem :: NV_STATUS
  step_map_gpu :: NV_STATUS
  step_procfs :: NV_STATUS

definition no_memory :: pushbuffer_memory where
  "no_memory = \<lparr>pb_memory = False, memory_unprotected_sysmem = False, memory_protected_sysmem = False\<rparr>"

definition uvm_pushbuffer_destroy :: "pushbuffer_memory \<Rightarrow> pushbuffer_memory" where
  "uvm_pushbuffer_destroy mem = no_memory"

definition initial_pushbuffer :: "('e, 'q) pushbuffer" where
  "initial_pushbuffer =
     \<lparr>chunks = (\<lambda>_. \<lparr>next_push_start = 0, pending_gpfifos = [], current_push = None\<rparr>),
      available_chunks = {..<UVM_PUSHBUFFER_CHUNKS}, idle_chunks = {..<UVM_PUSHBUFFER_CHUNKS},
      concurrent_pushes_sema = UVM_PUSHBUFFER_CHUNKS\<rparr>"

definition uvm_pushbuffer_create ::
    "uvm_global \<Rightarrow> create_steps \<Rightarrow> NV_STATUS \<times> pushbuffer_memory \<times> ('e, 'q) pushbuffer option" where
  "uvm_pushbuffer_create g steps =
     (if \<not> step_kvmalloc steps then (NV_ERR_NO_MEMORY, no_memory, None)
      else if step_alloc steps \<noteq> NV_OK then (step_alloc steps, uvm_pushbuffer_destroy no_memory, None)
      else
        (let (status, mem) =
               (let mem1 = no_memory\<lparr>pb_memory := True\<rparr> in
                if conf_computing_enabled g then
                  (let mem2 = mem1\<lparr>memory_unprotected_sysmem := True, pb_memory := False\<rparr> in
                   if \<not> step_protected steps then (NV_ERR_NO_MEMORY, mem2)
                   else
                     (let mem3 = mem2\<lparr>memory_protected_sysmem := True\<rparr> in
                      if step_alloc_vidmem steps \<noteq> NV_OK then (step_alloc_vidmem steps, mem3)
                      else
                        (let mem4 = mem3\<lparr>pb_memory := True\<rparr> in (step_map_gpu steps, mem4))))
                else (NV_OK, mem1))
         in if status \<noteq> NV_OK then (status, uvm_pushbuffer_destroy mem, None)
            else if step_procfs steps \<noteq> NV_OK then (step_procfs steps, uvm_pushbuffer_destroy mem, None)
            else (NV_OK, mem, Some initial_pushbuffer)))"

section \<open>Chunks\<close>

definition get_chunk_in_mask :: "nat set \<Rightarrow> nat option" where
  "get_chunk_in_mask bits =
     (let index = find_first_bit bits UVM_PUSHBUFFER_CHUNKS in
      if index = UVM_PUSHBUFFER_CHUNKS then None else Some index)"

definition chunk_get_offset :: "nat \<Rightarrow> nat" where
  "chunk_get_offset chunk = chunk * UVM_PUSHBUFFER_CHUNK_SIZE"

definition pick_chunk :: "('e, 'q) pushbuffer \<Rightarrow> nat option" where
  "pick_chunk pb =
     (case get_chunk_in_mask (idle_chunks pb) of
        None \<Rightarrow> get_chunk_in_mask (available_chunks pb)
      | Some chunk \<Rightarrow> Some chunk)"

definition uvm_pushbuffer_has_space :: "('e, 'q) pushbuffer \<Rightarrow> bool" where
  "uvm_pushbuffer_has_space pb \<longleftrightarrow> pick_chunk pb \<noteq> None"

definition try_claim_chunk :: "'q \<Rightarrow> ('e, 'q) pushbuffer \<Rightarrow> nat option \<times> ('e, 'q) pushbuffer" where
  "try_claim_chunk push pb =
     (case pick_chunk pb of
        None \<Rightarrow> (None, pb)
      | Some chunk \<Rightarrow>
          (Some chunk, pb\<lparr>chunks := (chunks pb)(chunk := (chunks pb chunk)\<lparr>current_push := Some push\<rparr>),
                          idle_chunks := idle_chunks pb - {chunk},
                          available_chunks := available_chunks pb - {chunk}\<rparr>))"

definition chunk_get_cpu_put :: "('e, 'q) pushbuffer \<Rightarrow> nat \<Rightarrow> nat" where
  "chunk_get_cpu_put pb chunk =
     (case pending_gpfifos (chunks pb chunk) of
        [] \<Rightarrow> 0
      | es \<Rightarrow> pushbuffer_offset (last es) + pushbuffer_size (last es) - chunk_get_offset chunk)"

definition chunk_get_gpu_get :: "('e, 'q) pushbuffer \<Rightarrow> nat \<Rightarrow> nat" where
  "chunk_get_gpu_get pb chunk =
     (case pending_gpfifos (chunks pb chunk) of
        [] \<Rightarrow> 0
      | e # _ \<Rightarrow> pushbuffer_offset e - chunk_get_offset chunk)"

definition set_next_push_start :: "nat \<Rightarrow> nat \<Rightarrow> ('e, 'q) pushbuffer \<Rightarrow> ('e, 'q) pushbuffer" where
  "set_next_push_start chunk start pb =
     pb\<lparr>chunks := (chunks pb)(chunk := (chunks pb chunk)\<lparr>next_push_start := start\<rparr>)\<rparr>"

definition update_chunk :: "('e, 'q) pushbuffer \<Rightarrow> nat \<Rightarrow> ('e, 'q) pushbuffer" where
  "update_chunk pb chunk =
     (let gpu_get = chunk_get_gpu_get pb chunk;
          cpu_put = chunk_get_cpu_put pb chunk;
          available = pb\<lparr>available_chunks := insert chunk (available_chunks pb)\<rparr>
      in if gpu_get = cpu_put then
           (if pending_gpfifos (chunks pb chunk) \<noteq> [] then pb
            else set_next_push_start chunk 0 (available\<lparr>idle_chunks := insert chunk (idle_chunks pb)\<rparr>))
         else if gpu_get > cpu_put then
           (if gpu_get - cpu_put \<ge> UVM_MAX_PUSH_SIZE then set_next_push_start chunk cpu_put available else pb)
         else if UVM_PUSHBUFFER_CHUNK_SIZE \<ge> cpu_put + UVM_MAX_PUSH_SIZE then
           set_next_push_start chunk cpu_put available
         else if gpu_get \<ge> UVM_MAX_PUSH_SIZE then set_next_push_start chunk 0 available
         else pb)"

section \<open>Pushes\<close>

text \<open>
  Claiming a chunk. While it spins, the channel manager's progress runs completions on the
  pushbuffer: \<open>progress i\<close> is their effect at the \<open>i\<close>-th call and \<open>errors i\<close> the outcome of
  the \<open>i\<close>-th error check. No result within the fuel is \<open>None\<close>.
\<close>

fun claim_loop ::
    "nat \<Rightarrow> (nat \<Rightarrow> ('e, 'q) pushbuffer \<Rightarrow> ('e, 'q) pushbuffer) \<Rightarrow> (nat \<Rightarrow> NV_STATUS) \<Rightarrow> nat \<Rightarrow> 'q \<Rightarrow> NV_STATUS \<Rightarrow>
     ('e, 'q) pushbuffer \<Rightarrow> (NV_STATUS \<times> nat option \<times> ('e, 'q) pushbuffer) option" where
  "claim_loop 0 progress errors i push status pb = None"
| "claim_loop (Suc fuel) progress errors i push status pb =
     (let (chunk, pb1) = try_claim_chunk push pb in
      if chunk = None \<and> status = NV_OK
      then claim_loop fuel progress errors (Suc i) push (errors i) (progress i pb1)
      else Some (status, chunk, pb1))"

definition claim_chunk ::
    "nat \<Rightarrow> (nat \<Rightarrow> ('e, 'q) pushbuffer \<Rightarrow> ('e, 'q) pushbuffer) \<Rightarrow> (nat \<Rightarrow> NV_STATUS) \<Rightarrow> 'q \<Rightarrow>
     ('e, 'q) pushbuffer \<Rightarrow> (NV_STATUS \<times> nat option \<times> ('e, 'q) pushbuffer) option" where
  "claim_chunk fuel progress errors push pb =
     (case try_claim_chunk push pb of
        (Some chunk, pb1) \<Rightarrow> Some (NV_OK, Some chunk, pb1)
      | (None, pb1) \<Rightarrow> claim_loop fuel progress errors 1 push NV_OK (progress 0 pb1))"

text \<open>
  \<open>push_begin\<close> is the offset from the base of the pushbuffer, for a WLC channel the aligned
  address of its static pushbuffer, \<open>static_pb\<close>. The wait on the semaphore is its decrement.
\<close>

definition uvm_pushbuffer_begin_push ::
    "nat \<Rightarrow> (nat \<Rightarrow> ('e, 'q) pushbuffer \<Rightarrow> ('e, 'q) pushbuffer) \<Rightarrow> (nat \<Rightarrow> NV_STATUS) \<Rightarrow> nat \<Rightarrow> 'q push \<Rightarrow>
     ('e, 'q) pushbuffer \<Rightarrow> (NV_STATUS \<times> 'q push \<times> ('e, 'q) pushbuffer) option" where
  "uvm_pushbuffer_begin_push fuel progress errors static_pb push pb =
     (if channel_kind push = WLC then Some (NV_OK, push\<lparr>push_begin := static_pb\<rparr>, pb)
      else
        (let pb1 = pb\<lparr>concurrent_pushes_sema := concurrent_pushes_sema pb - 1\<rparr> in
         case claim_chunk fuel progress errors (push_id push) pb1 of
           None \<Rightarrow> None
         | Some (status, chunk, pb2) \<Rightarrow>
             if status \<noteq> NV_OK
             then Some (status, push, pb2\<lparr>concurrent_pushes_sema := concurrent_pushes_sema pb2 + 1\<rparr>)
             else Some (NV_OK, push\<lparr>push_begin := chunk_get_offset (the chunk) +
                                     next_push_start (chunks pb2 (the chunk))\<rparr>, pb2)))"

definition offset_to_chunk :: "nat \<Rightarrow> nat" where
  "offset_to_chunk offset = offset div UVM_PUSHBUFFER_CHUNK_SIZE"

definition gpfifo_to_chunk :: "'e gpfifo \<Rightarrow> nat" where
  "gpfifo_to_chunk gp = offset_to_chunk (pushbuffer_offset gp)"

definition uvm_pushbuffer_get_offset_for_push :: "'q push \<Rightarrow> nat" where
  "uvm_pushbuffer_get_offset_for_push push = (if channel_kind push = WLC then 0 else push_begin push)"

definition uvm_pushbuffer_get_gpu_va_for_push ::
    "NvU64 \<Rightarrow> NvU64 \<Rightarrow> NvU64 \<Rightarrow> 'q push \<Rightarrow> NvU64" where
  "uvm_pushbuffer_get_gpu_va_for_push base_va static_va sec2_base_va push =
     (if channel_kind push = WLC \<or> channel_kind push = LCIC then static_va
      else (if channel_kind push = SEC2 then sec2_base_va else base_va) +
           of_nat (uvm_pushbuffer_get_offset_for_push push))"

definition uvm_pushbuffer_end_push ::
    "'q push \<Rightarrow> 'e gpfifo \<Rightarrow> ('e, 'q) pushbuffer \<Rightarrow> ('e, 'q) pushbuffer" where
  "uvm_pushbuffer_end_push push gp pb =
     (if channel_kind push = WLC then pb
      else
        (let chunk = gpfifo_to_chunk gp;
             pb1 = pb\<lparr>chunks := (chunks pb)(chunk := (chunks pb chunk)
                      \<lparr>pending_gpfifos := pending_gpfifos (chunks pb chunk) @ [gp]\<rparr>)\<rparr>;
             pb2 = update_chunk pb1 chunk
         in pb2\<lparr>chunks := (chunks pb2)(chunk := (chunks pb2 chunk)\<lparr>current_push := None\<rparr>),
                concurrent_pushes_sema := concurrent_pushes_sema pb2 + 1\<rparr>))"

section \<open>Completion\<close>

text \<open>
  A push's callback and the size of its crypto bundle (\<open>None\<close> without bundles). Completing a push
  runs the callback after decrypting the push; both are recorded as events.
\<close>

record 'f push_info =
  on_complete :: "'f option"
  crypto_push_size :: "nat option"

datatype 'f completion_event = Decrypt nat nat | Callback 'f

definition decrypt_push :: "'f push_info \<Rightarrow> 'e gpfifo \<Rightarrow> 'f completion_event list \<times> 'f push_info" where
  "decrypt_push info gp =
     (case crypto_push_size info of
        None \<Rightarrow> ([], info)
      | Some n \<Rightarrow> if n = 0 then ([], info)
                 else ([Decrypt (pushbuffer_offset gp) n], info\<lparr>crypto_push_size := Some 0\<rparr>))"

definition run_on_complete :: "'f push_info \<Rightarrow> 'e gpfifo \<Rightarrow> 'f completion_event list \<times> 'f push_info" where
  "run_on_complete info gp =
     (case on_complete info of
        None \<Rightarrow> ([], info)
      | Some f \<Rightarrow> (let (evs, info1) = decrypt_push info gp
                   in (evs @ [Callback f], info1\<lparr>on_complete := None\<rparr>)))"

definition complete_gpfifo :: "'e gpfifo \<Rightarrow> ('e, 'q) pushbuffer \<Rightarrow> ('e, 'q) pushbuffer" where
  "complete_gpfifo gp pb =
     (let chunk = gpfifo_to_chunk gp;
          es = pending_gpfifos (chunks pb chunk);
          need_to_update_chunk = (es \<noteq> [] \<and> (gp = hd es \<or> gp = last es));
          pb1 = pb\<lparr>chunks := (chunks pb)(chunk := (chunks pb chunk)\<lparr>pending_gpfifos := remove1 gp es\<rparr>)\<rparr>
      in if need_to_update_chunk \<and> current_push (chunks pb1 chunk) = None then update_chunk pb1 chunk else pb1)"

definition uvm_pushbuffer_mark_completed ::
    "'f push_info \<Rightarrow> 'e gpfifo \<Rightarrow> ('e, 'q) pushbuffer \<Rightarrow>
     'f completion_event list \<times> 'f push_info \<times> ('e, 'q) pushbuffer" where
  "uvm_pushbuffer_mark_completed info gp pb =
     (let (evs, info1) = run_on_complete info gp in (evs, info1, complete_gpfifo gp pb))"

section \<open>Rings of pending pushes\<close>

definition gend :: "'e gpfifo \<Rightarrow> nat" where
  "gend e = pushbuffer_offset e + pushbuffer_size e"

abbreviation gstart :: "'e gpfifo \<Rightarrow> nat" where
  "gstart \<equiv> pushbuffer_offset"

definition incr :: "'e gpfifo list \<Rightarrow> bool" where
  "incr es \<longleftrightarrow> sorted_wrt (\<lambda>a b. gend a \<le> gstart b) es"

text \<open>\<open>as @ bs\<close>: increasing pushes, then increasing pushes that wrapped around to below them.\<close>

definition ring_of :: "'e gpfifo list \<Rightarrow> 'e gpfifo list \<Rightarrow> bool" where
  "ring_of as bs \<longleftrightarrow> incr as \<and> incr bs \<and> (\<forall>a\<in>set as. \<forall>b\<in>set bs. gend b \<le> gstart a)"

definition ring :: "'e gpfifo list \<Rightarrow> bool" where
  "ring es \<longleftrightarrow> (\<exists>as bs. es = as @ bs \<and> ring_of as bs)"

definition in_chunk :: "nat \<Rightarrow> 'e gpfifo list \<Rightarrow> bool" where
  "in_chunk k es \<longleftrightarrow> (\<forall>e\<in>set es. chunk_get_offset k \<le> gstart e \<and>
     gend e \<le> chunk_get_offset k + UVM_PUSHBUFFER_CHUNK_SIZE \<and> 0 < pushbuffer_size e)"

text \<open>\<open>n\<close> is a place in the chunk for a push of the maximum size that keeps the ring.\<close>

definition good_slot :: "nat \<Rightarrow> 'e gpfifo list \<Rightarrow> nat \<Rightarrow> bool" where
  "good_slot k es n \<longleftrightarrow> n + UVM_MAX_PUSH_SIZE \<le> UVM_PUSHBUFFER_CHUNK_SIZE \<and>
     (\<exists>as bs. es = as @ bs \<and> ring_of as bs \<and> (\<forall>b\<in>set bs. gend b \<le> chunk_get_offset k + n) \<and>
        (\<forall>a\<in>set as. chunk_get_offset k + n + UVM_MAX_PUSH_SIZE \<le> gstart a))"

lemma incr_remove1: "incr es \<Longrightarrow> incr (remove1 e es)"
  unfolding incr_def by (induction es) (auto dest: notin_set_remove1[rotated])

lemma incr_snoc: "incr (es @ [e]) \<longleftrightarrow> incr es \<and> (\<forall>x\<in>set es. gend x \<le> gstart e)"
  by (auto simp: incr_def sorted_wrt_append)

lemma remove1_split:
  "\<exists>as' bs'. remove1 e (as @ bs) = as' @ bs' \<and> (as' = as \<or> as' = remove1 e as) \<and> (bs' = bs \<or> bs' = remove1 e bs)"
  by (auto simp: remove1_append)

lemma ring_of_sub:
  assumes "ring_of as bs" and "as' = as \<or> as' = remove1 e as" and "bs' = bs \<or> bs' = remove1 e bs"
  shows "ring_of as' bs'"
  using assms incr_remove1 set_remove1_subset[of e as] set_remove1_subset[of e bs]
  unfolding ring_of_def by (metis subsetD)

lemma ring_remove1: "ring es \<Longrightarrow> ring (remove1 e es)"
  unfolding ring_def using remove1_split ring_of_sub by metis

lemma good_slot_remove1:
  assumes "good_slot k es n"
  shows "good_slot k (remove1 e es) n"
proof -
  from assms obtain as bs where A: "n + UVM_MAX_PUSH_SIZE \<le> UVM_PUSHBUFFER_CHUNK_SIZE" "es = as @ bs" "ring_of as bs"
    "\<forall>b\<in>set bs. gend b \<le> chunk_get_offset k + n"
    "\<forall>a\<in>set as. chunk_get_offset k + n + UVM_MAX_PUSH_SIZE \<le> gstart a" by (auto simp: good_slot_def)
  obtain as' bs' where B: "remove1 e es = as' @ bs'" "as' = as \<or> as' = remove1 e as" "bs' = bs \<or> bs' = remove1 e bs"
    using remove1_split[of e as bs] A(2) by blast
  have "set as' \<subseteq> set as" "set bs' \<subseteq> set bs" using B set_remove1_subset by fast+
  with A B ring_of_sub[OF A(3) B(2,3)] show ?thesis unfolding good_slot_def by blast
qed

lemma good_slot_ring: "good_slot k es n \<Longrightarrow> ring es"
  by (auto simp: good_slot_def ring_def)

lemma good_slot_append:
  assumes "good_slot k es n" and "gstart e = chunk_get_offset k + n" and "pushbuffer_size e \<le> UVM_MAX_PUSH_SIZE"
  shows "ring (es @ [e])"
proof -
  from assms obtain as bs where A: "es = as @ bs" "ring_of as bs"
    "\<forall>b\<in>set bs. gend b \<le> chunk_get_offset k + n"
    "\<forall>a\<in>set as. chunk_get_offset k + n + UVM_MAX_PUSH_SIZE \<le> gstart a" by (auto simp: good_slot_def)
  have "ring_of as (bs @ [e])"
    using A assms(2,3) by (auto simp: ring_of_def incr_snoc gend_def)
  with A(1) show ?thesis by (auto simp: ring_def)
qed

lemma good_slot_disjoint:
  assumes "good_slot k es n" and "e \<in> set es"
  shows "{chunk_get_offset k + n ..< chunk_get_offset k + n + UVM_MAX_PUSH_SIZE} \<inter> {gstart e ..< gend e} = {}"
  using assms by (fastforce simp: good_slot_def)

lemma ring_disjoint:
  assumes "ring (xs @ e # ys)" and "f \<in> set xs \<union> set ys"
  shows "{gstart e ..< gend e} \<inter> {gstart f ..< gend f} = {}"
proof -
  have pair: "gend a \<le> gstart b \<or> gend b \<le> gstart a" if "ring (us @ a # vs @ b # ws)" for us a vs b ws
  proof -
    from that obtain as bs where es: "us @ a # vs @ b # ws = as @ bs" and r: "ring_of as bs" by (auto simp: ring_def)
    from es consider (1) zs where "as = us @ a # vs @ b # zs" | (2) zs zs' where "as = us @ a # zs" "bs = zs' @ b # ws"
      | (3) zs where "bs = zs @ a # vs @ b # ws"
      by (auto simp: append_eq_append_conv2 append_eq_Cons_conv Cons_eq_append_conv)
    then show ?thesis using r by cases (auto simp: ring_of_def incr_def sorted_wrt_append)
  qed
  from assms(2) consider us vs where "xs = us @ f # vs" | vs ws where "ys = vs @ f # ws"
    by (auto dest!: split_list)
  then have "gend e \<le> gstart f \<or> gend f \<le> gstart e"
  proof cases
    case 1
    then show ?thesis using pair[of us f vs e ys] assms(1) by auto
  next
    case 2
    then show ?thesis using pair[of xs e vs f ws] assms(1) by auto
  qed
  then show ?thesis by auto
qed

section \<open>Updating a chunk\<close>

text \<open>Where \<^verbatim>\<open>update_chunk\<close> finds room, if it does.\<close>

definition room_slot :: "('e, 'q) pushbuffer \<Rightarrow> nat \<Rightarrow> nat option" where
  "room_slot pb k =
     (let gpu_get = chunk_get_gpu_get pb k; cpu_put = chunk_get_cpu_put pb k in
      if pending_gpfifos (chunks pb k) = [] then Some 0
      else if gpu_get > cpu_put \<and> gpu_get - cpu_put \<ge> UVM_MAX_PUSH_SIZE then Some cpu_put
      else if gpu_get < cpu_put \<and> UVM_PUSHBUFFER_CHUNK_SIZE \<ge> cpu_put + UVM_MAX_PUSH_SIZE then Some cpu_put
      else if gpu_get < cpu_put \<and> gpu_get \<ge> UVM_MAX_PUSH_SIZE then Some 0
      else None)"

lemma update_chunk_eq:
  "update_chunk pb k = (case room_slot pb k of None \<Rightarrow> pb
     | Some n \<Rightarrow> pb\<lparr>chunks := (chunks pb)(k := (chunks pb k)\<lparr>next_push_start := n\<rparr>),
                   available_chunks := insert k (available_chunks pb),
                   idle_chunks := (if pending_gpfifos (chunks pb k) = [] then insert k (idle_chunks pb)
                                   else idle_chunks pb)\<rparr>)"
proof (cases "pending_gpfifos (chunks pb k) = []")
  case True
  then show ?thesis
    by (simp add: update_chunk_def room_slot_def chunk_get_cpu_put_def chunk_get_gpu_get_def
        set_next_push_start_def Let_def)
next
  case False
  then show ?thesis
    by (auto simp: update_chunk_def room_slot_def set_next_push_start_def Let_def)
qed

lemma incr_ends:
  assumes "incr es" and "es \<noteq> []" and "\<forall>e\<in>set es. 0 < pushbuffer_size e" and "e \<in> set es"
  shows "gstart (hd es) \<le> gstart e" "gend e \<le> gend (last es)"
proof -
  show "gstart (hd es) \<le> gstart e"
    using assms by (cases es) (auto simp: incr_def gend_def)
  show "gend e \<le> gend (last es)"
    using assms by (cases es rule: rev_cases) (auto simp: incr_snoc gend_def)
qed

lemma room_slot_good:
  assumes ch: "in_chunk k es" and r: "ring es" and es: "pending_gpfifos (chunks pb k) = es"
    and slot: "room_slot pb k = Some n"
  shows "good_slot k es n"
proof (cases "es = []")
  case True
  with slot es have "n = 0" by (simp add: room_slot_def)
  with True show ?thesis
    by (auto simp: good_slot_def ring_of_def incr_def UVM_PUSHBUFFER_CHUNK_SIZE_def)
next
  case False
  let ?b = "chunk_get_offset k"
  from r obtain as bs where ab: "es = as @ bs" "ring_of as bs" by (auto simp: ring_def)
  have inc: "\<forall>e\<in>set es. ?b \<le> gstart e \<and> gend e \<le> ?b + UVM_PUSHBUFFER_CHUNK_SIZE \<and> 0 < pushbuffer_size e"
    using ch by (simp add: in_chunk_def)
  have hd: "hd es \<in> set es" and la: "last es \<in> set es" using False by auto
  have get: "chunk_get_gpu_get pb k = gstart (hd es) - ?b"
    using False by (cases es) (simp_all add: chunk_get_gpu_get_def es)
  have put: "chunk_get_cpu_put pb k = gend (last es) - ?b"
    using False by (cases es) (simp_all add: chunk_get_cpu_put_def es gend_def)
  have put': "?b + chunk_get_cpu_put pb k = gend (last es)" and get': "?b + chunk_get_gpu_get pb k = gstart (hd es)"
    using inc hd la put get by (auto simp: gend_def)
  show ?thesis
  proof (cases "as = [] \<or> bs = []")
    case True
    then have inc_es: "incr es" using ab by (auto simp: ring_of_def)
    have all: "gstart (hd es) \<le> gstart e" "gend e \<le> gend (last es)" if "e \<in> set es" for e
      using incr_ends[OF inc_es False _ that] inc by auto
    have lt: "chunk_get_gpu_get pb k < chunk_get_cpu_put pb k"
    proof -
      have "0 < pushbuffer_size (hd es)" using inc hd by blast
      then show ?thesis using all(2)[OF hd] put' get' by (simp add: gend_def)
    qed
    with slot es False have
      n: "n = chunk_get_cpu_put pb k \<and> chunk_get_cpu_put pb k + UVM_MAX_PUSH_SIZE \<le> UVM_PUSHBUFFER_CHUNK_SIZE \<or>
          n = 0 \<and> UVM_MAX_PUSH_SIZE \<le> chunk_get_gpu_get pb k"
      by (auto simp: room_slot_def Let_def split: if_splits)
    from n show ?thesis
    proof
      assume n: "n = chunk_get_cpu_put pb k \<and> chunk_get_cpu_put pb k + UVM_MAX_PUSH_SIZE \<le> UVM_PUSHBUFFER_CHUNK_SIZE"
      have "\<forall>e\<in>set es. gend e \<le> ?b + n" using all(2) put' n by simp
      then show ?thesis unfolding good_slot_def using n inc_es
        by (intro conjI exI[of _ "[]"] exI[of _ es]) (auto simp: ring_of_def incr_def)
    next
      assume n: "n = 0 \<and> UVM_MAX_PUSH_SIZE \<le> chunk_get_gpu_get pb k"
      have "\<forall>e\<in>set es. ?b + n + UVM_MAX_PUSH_SIZE \<le> gstart e" using all(1) get' n by fastforce
      moreover have "n + UVM_MAX_PUSH_SIZE \<le> UVM_PUSHBUFFER_CHUNK_SIZE"
        using n by (simp add: UVM_PUSHBUFFER_CHUNK_SIZE_def)
      ultimately show ?thesis unfolding good_slot_def using inc_es
        by (intro conjI exI[of _ es] exI[of _ "[]"]) (auto simp: ring_of_def incr_def)
    qed
  next
    case F: False
    then have hl: "hd es = hd as" "last es = last bs" "hd as \<in> set as" "last bs \<in> set bs" using ab by auto
    have sub: "set as \<subseteq> set es" "set bs \<subseteq> set es" using ab by auto
    have ord: "gend (last bs) \<le> gstart (hd as)" using ab hl by (auto simp: ring_of_def)
    have all: "gstart (hd as) \<le> gstart a" if "a \<in> set as" for a
      using incr_ends(1)[of as a] ab inc sub F that by (auto simp: ring_of_def)
    have all': "gend b \<le> gend (last bs)" if "b \<in> set bs" for b
      using incr_ends(2)[of bs b] ab inc sub F that by (auto simp: ring_of_def)
    have ge: "chunk_get_cpu_put pb k \<le> chunk_get_gpu_get pb k" using ord put' get' hl by simp
    with slot es False have n: "n = chunk_get_cpu_put pb k"
      "n + UVM_MAX_PUSH_SIZE \<le> chunk_get_gpu_get pb k"
      by (auto simp: room_slot_def Let_def split: if_splits)
    have "gstart (hd as) + 1 \<le> ?b + UVM_PUSHBUFFER_CHUNK_SIZE" using inc hd hl by (auto simp: gend_def)
    then have "n + UVM_MAX_PUSH_SIZE \<le> UVM_PUSHBUFFER_CHUNK_SIZE" using n(2) get' hl by simp
    moreover have "\<forall>b\<in>set bs. gend b \<le> ?b + n" using all' put' hl n by simp
    moreover have "\<forall>a\<in>set as. ?b + n + UVM_MAX_PUSH_SIZE \<le> gstart a" using all get' hl n by fastforce
    ultimately show ?thesis unfolding good_slot_def using ab by blast
  qed
qed

section \<open>Invariant\<close>

definition chunk_ok :: "('e, 'q) pushbuffer \<Rightarrow> nat \<Rightarrow> bool" where
  "chunk_ok pb k \<longleftrightarrow>
     (let c = chunks pb k; es = pending_gpfifos c in
      in_chunk k es \<and> ring es \<and>
      (k \<in> available_chunks pb \<or> current_push c \<noteq> None \<longrightarrow> good_slot k es (next_push_start c)) \<and>
      (k \<in> idle_chunks pb \<longrightarrow> es = [] \<and> k \<in> available_chunks pb) \<and>
      (current_push c \<noteq> None \<longrightarrow> k \<notin> available_chunks pb) \<and>
      (current_push c = None \<and> es = [] \<longrightarrow> k \<in> idle_chunks pb) \<and>
      (current_push c = None \<and> room_slot pb k \<noteq> None \<longrightarrow> k \<in> available_chunks pb))"

definition ongoing :: "('e, 'q) pushbuffer \<Rightarrow> nat set" where
  "ongoing pb = {k. k < UVM_PUSHBUFFER_CHUNKS \<and> current_push (chunks pb k) \<noteq> None}"

definition pushbuffer_ok :: "('e, 'q) pushbuffer \<Rightarrow> bool" where
  "pushbuffer_ok pb \<longleftrightarrow> (\<forall>k<UVM_PUSHBUFFER_CHUNKS. chunk_ok pb k) \<and>
     available_chunks pb \<subseteq> {..<UVM_PUSHBUFFER_CHUNKS} \<and> idle_chunks pb \<subseteq> {..<UVM_PUSHBUFFER_CHUNKS} \<and>
     concurrent_pushes_sema pb + card (ongoing pb) = UVM_PUSHBUFFER_CHUNKS"

lemma chunk_ok_cong:
  assumes "chunks pb' k = chunks pb k" and "k \<in> available_chunks pb' \<longleftrightarrow> k \<in> available_chunks pb"
    and "k \<in> idle_chunks pb' \<longleftrightarrow> k \<in> idle_chunks pb"
  shows "chunk_ok pb' k = chunk_ok pb k"
  using assms by (simp add: chunk_ok_def room_slot_def chunk_get_gpu_get_def chunk_get_cpu_put_def)

lemma room_slot_cong:
  "pending_gpfifos (chunks pb' k) = pending_gpfifos (chunks pb k) \<Longrightarrow> room_slot pb' k = room_slot pb k"
  by (simp add: room_slot_def chunk_get_gpu_get_def chunk_get_cpu_put_def)

lemma initial_pushbuffer_ok: "pushbuffer_ok initial_pushbuffer"
  by (auto simp: pushbuffer_ok_def initial_pushbuffer_def chunk_ok_def in_chunk_def ring_def ring_of_def
      incr_def good_slot_def UVM_PUSHBUFFER_CHUNK_SIZE_def ongoing_def)

lemma pick_chunk_Some:
  assumes "pushbuffer_ok pb" and "pick_chunk pb = Some k"
  shows "k < UVM_PUSHBUFFER_CHUNKS" "k \<in> available_chunks pb"
proof -
  have hit: "k < UVM_PUSHBUFFER_CHUNKS \<and> k \<in> bits" if "get_chunk_in_mask bits = Some k" for bits
    using that find_first_bit_hit[of _ UVM_PUSHBUFFER_CHUNKS bits] find_first_bit_full_iff[of bits UVM_PUSHBUFFER_CHUNKS]
    by (auto simp: get_chunk_in_mask_def Let_def split: if_splits)
  from assms(2) hit consider "k < UVM_PUSHBUFFER_CHUNKS \<and> k \<in> idle_chunks pb" | "k < UVM_PUSHBUFFER_CHUNKS \<and> k \<in> available_chunks pb"
    by (auto simp: pick_chunk_def split: option.splits)
  then show "k < UVM_PUSHBUFFER_CHUNKS" "k \<in> available_chunks pb"
    using assms(1) by (auto simp: pushbuffer_ok_def chunk_ok_def Let_def)
qed

lemma pick_chunk_None_iff:
  assumes "pushbuffer_ok pb"
  shows "pick_chunk pb = None \<longleftrightarrow> available_chunks pb = {}"
proof -
  have n: "get_chunk_in_mask bits = None \<longleftrightarrow> (\<forall>i<UVM_PUSHBUFFER_CHUNKS. i \<notin> bits)" for bits
    using find_first_bit_full_iff[of bits UVM_PUSHBUFFER_CHUNKS] by (auto simp: get_chunk_in_mask_def Let_def)
  have sub: "idle_chunks pb \<subseteq> available_chunks pb" "available_chunks pb \<subseteq> {..<UVM_PUSHBUFFER_CHUNKS}"
    using assms by (auto simp: pushbuffer_ok_def chunk_ok_def Let_def)
  have "pick_chunk pb = None \<longleftrightarrow>
      get_chunk_in_mask (idle_chunks pb) = None \<and> get_chunk_in_mask (available_chunks pb) = None"
    by (simp add: pick_chunk_def split: option.splits)
  then show ?thesis using sub unfolding n by blast
qed

lemma finite_ongoing [simp]: "finite (ongoing pb)"
  by (simp add: ongoing_def)

lemma try_claim_chunk_ok:
  assumes ok: "pushbuffer_ok pb" and run: "try_claim_chunk q pb = (Some k, pb')" and sema: "0 < concurrent_pushes_sema pb"
  shows "pushbuffer_ok (pb'\<lparr>concurrent_pushes_sema := concurrent_pushes_sema pb' - 1\<rparr>)"
    "k < UVM_PUSHBUFFER_CHUNKS" "good_slot k (pending_gpfifos (chunks pb k)) (next_push_start (chunks pb k))"
    "chunks pb' = (chunks pb)(k := (chunks pb k)\<lparr>current_push := Some q\<rparr>)" "k \<notin> ongoing pb"
proof -
  from run have p: "pick_chunk pb = Some k" and
    pb': "pb' = pb\<lparr>chunks := (chunks pb)(k := (chunks pb k)\<lparr>current_push := Some q\<rparr>),
      idle_chunks := idle_chunks pb - {k}, available_chunks := available_chunks pb - {k}\<rparr>"
    by (auto simp: try_claim_chunk_def split: option.splits)
  note K = pick_chunk_Some[OF ok p]
  then show k: "k < UVM_PUSHBUFFER_CHUNKS" by simp
  have ck: "chunk_ok pb k" using ok K by (simp add: pushbuffer_ok_def)
  then show gs: "good_slot k (pending_gpfifos (chunks pb k)) (next_push_start (chunks pb k))"
    using K by (simp add: chunk_ok_def Let_def)
  show "chunks pb' = (chunks pb)(k := (chunks pb k)\<lparr>current_push := Some q\<rparr>)" by (simp add: pb')
  have "current_push (chunks pb k) = None" using ck K by (auto simp: chunk_ok_def Let_def)
  then show nk: "k \<notin> ongoing pb" by (simp add: ongoing_def)
  have on: "ongoing pb' = insert k (ongoing pb)" using k by (auto simp: ongoing_def pb')
  have "chunk_ok pb' j" if "j < UVM_PUSHBUFFER_CHUNKS" for j
  proof (cases "j = k")
    case True
    with ck gs show ?thesis by (simp add: chunk_ok_def Let_def pb')
  next
    case False
    with ok that chunk_ok_cong[of pb' j pb] show ?thesis by (simp add: pb' pushbuffer_ok_def)
  qed
  then have "chunk_ok (pb'\<lparr>concurrent_pushes_sema := concurrent_pushes_sema pb' - 1\<rparr>) j"
    if "j < UVM_PUSHBUFFER_CHUNKS" for j
    using that chunk_ok_cong[of "pb'\<lparr>concurrent_pushes_sema := concurrent_pushes_sema pb' - 1\<rparr>" j pb'] by simp
  moreover have "concurrent_pushes_sema pb - 1 + card (insert k (ongoing pb)) = UVM_PUSHBUFFER_CHUNKS"
    using ok sema nk by (simp add: pushbuffer_ok_def)
  moreover have "ongoing (pb'\<lparr>concurrent_pushes_sema := concurrent_pushes_sema pb' - 1\<rparr>) = insert k (ongoing pb)"
    using on by (simp add: ongoing_def)
  ultimately show "pushbuffer_ok (pb'\<lparr>concurrent_pushes_sema := concurrent_pushes_sema pb' - 1\<rparr>)"
    using ok unfolding pushbuffer_ok_def by (auto simp: pb')
qed

text \<open>The chunk after its list changed and \<^verbatim>\<open>update_chunk\<close> ran with no push going on.\<close>

lemma update_chunk_ok:
  assumes ch: "in_chunk k es" and r: "ring es" and es: "pending_gpfifos (chunks pb k) = es"
    and av: "k \<in> available_chunks pb \<longrightarrow> good_slot k es (next_push_start (chunks pb k))"
    and idle: "k \<in> idle_chunks pb \<longrightarrow> es = [] \<and> k \<in> available_chunks pb"
    and pb': "pb' = (update_chunk pb k)\<lparr>chunks := (chunks (update_chunk pb k))
        (k := (chunks (update_chunk pb k) k)\<lparr>current_push := None\<rparr>)\<rparr>"
  shows "chunk_ok pb' k" "pending_gpfifos (chunks pb' k) = es" "current_push (chunks pb' k) = None"
    "\<And>j. j \<noteq> k \<Longrightarrow> chunks pb' j = chunks pb j"
    "available_chunks pb' - {k} = available_chunks pb - {k}" "idle_chunks pb' - {k} = idle_chunks pb - {k}"
    "concurrent_pushes_sema pb' = concurrent_pushes_sema pb"
proof -
  note U = update_chunk_eq[of pb k]
  show p: "pending_gpfifos (chunks pb' k) = es" and c: "current_push (chunks pb' k) = None"
    and "\<And>j. j \<noteq> k \<Longrightarrow> chunks pb' j = chunks pb j"
    and "available_chunks pb' - {k} = available_chunks pb - {k}" and "idle_chunks pb' - {k} = idle_chunks pb - {k}"
    and "concurrent_pushes_sema pb' = concurrent_pushes_sema pb"
    using es by (auto simp: pb' U split: option.splits)
  have rs: "room_slot pb' k = room_slot pb k" using p es by (intro room_slot_cong) simp
  show "chunk_ok pb' k"
  proof (cases "room_slot pb k")
    case None
    then have "es \<noteq> []" using es by (auto simp: room_slot_def Let_def)
    with None ch r es av idle rs show ?thesis by (simp add: chunk_ok_def Let_def pb' U)
  next
    case (Some n)
    from room_slot_good[OF ch r es Some] Some ch r es idle rs show ?thesis
      by (auto simp: chunk_ok_def Let_def pb' U)
  qed
qed

lemma pushbuffer_ok_chunk_upd:
  assumes ok: "pushbuffer_ok pb" and k: "k < UVM_PUSHBUFFER_CHUNKS" and ck: "chunk_ok pb' k"
    and other: "\<And>j. j \<noteq> k \<Longrightarrow> chunks pb' j = chunks pb j"
    and masks: "available_chunks pb' - {k} = available_chunks pb - {k}" "idle_chunks pb' - {k} = idle_chunks pb - {k}"
    and sema: "concurrent_pushes_sema pb' + card (ongoing pb') = UVM_PUSHBUFFER_CHUNKS"
  shows "pushbuffer_ok pb'"
proof -
  have "chunk_ok pb' j" if "j < UVM_PUSHBUFFER_CHUNKS" for j
  proof (cases "j = k")
    case False
    then have "chunk_ok pb' j = chunk_ok pb j" using masks other by (intro chunk_ok_cong) blast+
    then show ?thesis using ok that by (simp add: pushbuffer_ok_def)
  qed (use ck in simp)
  moreover have "available_chunks pb' \<subseteq> {..<UVM_PUSHBUFFER_CHUNKS}" "idle_chunks pb' \<subseteq> {..<UVM_PUSHBUFFER_CHUNKS}"
    using ok masks k by (auto simp: pushbuffer_ok_def)
  ultimately show ?thesis using sema by (simp add: pushbuffer_ok_def)
qed

lemma complete_gpfifo_ok:
  assumes ok: "pushbuffer_ok pb" and k: "gpfifo_to_chunk gp = k" "k < UVM_PUSHBUFFER_CHUNKS"
    and gp: "gp \<in> set (pending_gpfifos (chunks pb k))"
  shows "pushbuffer_ok (complete_gpfifo gp pb)"
    "pending_gpfifos (chunks (complete_gpfifo gp pb) k) = remove1 gp (pending_gpfifos (chunks pb k))"
    "\<And>j. j \<noteq> k \<Longrightarrow> chunks (complete_gpfifo gp pb) j = chunks pb j"
    "current_push (chunks (complete_gpfifo gp pb) k) = current_push (chunks pb k)"
proof -
  let ?es = "pending_gpfifos (chunks pb k)" and ?pb' = "complete_gpfifo gp pb"
  define pb1 where "pb1 = pb\<lparr>chunks := (chunks pb)(k := (chunks pb k)\<lparr>pending_gpfifos := remove1 gp ?es\<rparr>)\<rparr>"
  have ck: "chunk_ok pb k" using ok k by (simp add: pushbuffer_ok_def)
  then have ch: "in_chunk k (remove1 gp ?es)" and r: "ring (remove1 gp ?es)"
    using ring_remove1 set_remove1_subset[of gp ?es] by (auto simp: chunk_ok_def Let_def in_chunk_def)
  have idle: "k \<notin> idle_chunks pb" using ck gp by (auto simp: chunk_ok_def Let_def)
  have gs: "good_slot k (remove1 gp ?es) (next_push_start (chunks pb k))"
    if "k \<in> available_chunks pb \<or> current_push (chunks pb k) \<noteq> None"
    using that ck good_slot_remove1 by (auto simp: chunk_ok_def Let_def)
  let ?upd = "(gp = hd ?es \<or> gp = last ?es) \<and> current_push (chunks pb k) = None"
  have pb': "?pb' = (if ?upd then update_chunk pb1 k else pb1)"
    using gp by (auto simp: complete_gpfifo_def Let_def k pb1_def)
  have "(chunk_ok ?pb' k \<and> pending_gpfifos (chunks ?pb' k) = remove1 gp ?es \<and>
      current_push (chunks ?pb' k) = current_push (chunks pb k) \<and> (\<forall>j. j \<noteq> k \<longrightarrow> chunks ?pb' j = chunks pb j)) \<and>
      available_chunks ?pb' - {k} = available_chunks pb - {k} \<and> idle_chunks ?pb' - {k} = idle_chunks pb - {k} \<and>
      concurrent_pushes_sema ?pb' = concurrent_pushes_sema pb"
  proof (cases ?upd)
    case True
    have cur: "current_push (chunks (update_chunk pb1 k) k) = None"
      using True by (auto simp: update_chunk_eq pb1_def split: option.splits)
    have "?pb' = (update_chunk pb1 k)\<lparr>chunks := (chunks (update_chunk pb1 k))
        (k := (chunks (update_chunk pb1 k) k)\<lparr>current_push := None\<rparr>)\<rparr>"
      using True pb' cur by (simp add: fun_upd_idem)
    note U = update_chunk_ok[OF ch r _ _ _ this]
    have "pending_gpfifos (chunks pb1 k) = remove1 gp ?es" "k \<notin> idle_chunks pb1"
      "k \<in> available_chunks pb1 \<longrightarrow> good_slot k (remove1 gp ?es) (next_push_start (chunks pb1 k))"
      using gs idle by (simp_all add: pb1_def)
    then show ?thesis using U True by (auto simp: pb1_def)
  next
    case False
    have "chunk_ok pb1 k"
    proof (cases "current_push (chunks pb k)")
      case (Some q)
      with ck ch r gs idle show ?thesis by (auto simp: chunk_ok_def Let_def pb1_def)
    next
      case None
      with False have ends: "gp \<noteq> hd ?es" "gp \<noteq> last ?es" by auto
      obtain e es where es: "?es = e # es" using gp by (cases ?es) auto
      have ne: "remove1 gp ?es \<noteq> []" using ends es by auto
      have hd: "hd (remove1 gp ?es) = hd ?es" using ends es by auto
      have la: "last (remove1 gp ?es) = last ?es"
      proof -
        obtain us u where u: "?es = us @ [u]" using gp by (cases ?es rule: rev_cases) auto
        with ends gp have "remove1 gp ?es = remove1 gp us @ [u]" by (simp add: remove1_append)
        with u show ?thesis by simp
      qed
      have "room_slot pb1 k = room_slot pb k"
        using ne hd la es
        by (cases "remove1 gp ?es") (simp_all add: room_slot_def chunk_get_gpu_get_def chunk_get_cpu_put_def pb1_def)
      with None ck ch r gs idle ne show ?thesis by (auto simp: chunk_ok_def Let_def pb1_def)
    qed
    moreover have "?pb' = pb1" unfolding pb' if_not_P[OF False] ..
    ultimately show ?thesis by (simp add: pb1_def)
  qed
  then have C: "chunk_ok ?pb' k" "pending_gpfifos (chunks ?pb' k) = remove1 gp ?es"
      "current_push (chunks ?pb' k) = current_push (chunks pb k)" "\<And>j. j \<noteq> k \<Longrightarrow> chunks ?pb' j = chunks pb j"
      "available_chunks ?pb' - {k} = available_chunks pb - {k}" "idle_chunks ?pb' - {k} = idle_chunks pb - {k}"
      "concurrent_pushes_sema ?pb' = concurrent_pushes_sema pb" by auto
  show "pending_gpfifos (chunks ?pb' k) = remove1 gp ?es" "\<And>j. j \<noteq> k \<Longrightarrow> chunks ?pb' j = chunks pb j"
    "current_push (chunks ?pb' k) = current_push (chunks pb k)" using C by auto
  have "current_push (chunks ?pb' j) = current_push (chunks pb j)" for j using C(3,4) by (cases "j = k") auto
  then have "ongoing ?pb' = ongoing pb" by (simp add: ongoing_def)
  then show "pushbuffer_ok ?pb'"
    using ok C(7) by (intro pushbuffer_ok_chunk_upd[OF ok k(2) C(1,4,5,6)]) (simp_all add: pushbuffer_ok_def)
qed

lemma uvm_pushbuffer_end_push_ok:
  assumes ok: "pushbuffer_ok pb" and k: "k \<in> ongoing pb" and ord: "channel_kind push \<noteq> WLC"
    and gp: "pushbuffer_offset gp = chunk_get_offset k + next_push_start (chunks pb k)"
      "0 < pushbuffer_size gp" "pushbuffer_size gp \<le> UVM_MAX_PUSH_SIZE"
  shows "pushbuffer_ok (uvm_pushbuffer_end_push push gp pb)"
    "pending_gpfifos (chunks (uvm_pushbuffer_end_push push gp pb) k) = pending_gpfifos (chunks pb k) @ [gp]"
    "current_push (chunks (uvm_pushbuffer_end_push push gp pb) k) = None"
    "\<And>j. j \<noteq> k \<Longrightarrow> chunks (uvm_pushbuffer_end_push push gp pb) j = chunks pb j"
proof -
  let ?es = "pending_gpfifos (chunks pb k)" and ?pb' = "uvm_pushbuffer_end_push push gp pb"
  have kk: "k < UVM_PUSHBUFFER_CHUNKS" and cur: "current_push (chunks pb k) \<noteq> None" using k by (auto simp: ongoing_def)
  have ck: "chunk_ok pb k" using ok kk by (simp add: pushbuffer_ok_def)
  have gs: "good_slot k ?es (next_push_start (chunks pb k))" and na: "k \<notin> available_chunks pb"
    and ni: "k \<notin> idle_chunks pb"
    using ck cur by (auto simp: chunk_ok_def Let_def)
  have sz: "next_push_start (chunks pb k) + UVM_MAX_PUSH_SIZE \<le> UVM_PUSHBUFFER_CHUNK_SIZE"
    using gs by (simp add: good_slot_def)
  have "0 < UVM_MAX_PUSH_SIZE" by (simp add: UVM_MAX_PUSH_SIZE_def)
  then have kdiv: "gpfifo_to_chunk gp = k"
    using sz gp by (simp add: gpfifo_to_chunk_def offset_to_chunk_def chunk_get_offset_def)
  define pb1 where "pb1 = pb\<lparr>chunks := (chunks pb)(k := (chunks pb k)\<lparr>pending_gpfifos := ?es @ [gp]\<rparr>)\<rparr>"
  define pb2 where "pb2 = (update_chunk pb1 k)\<lparr>chunks := (chunks (update_chunk pb1 k))
        (k := (chunks (update_chunk pb1 k) k)\<lparr>current_push := None\<rparr>)\<rparr>"
  have pb': "?pb' = pb2\<lparr>concurrent_pushes_sema := concurrent_pushes_sema pb2 + 1\<rparr>"
    using ord by (simp add: uvm_pushbuffer_end_push_def Let_def kdiv pb2_def pb1_def)
  have ch: "in_chunk k (?es @ [gp])"
    using ck gp sz by (auto simp: chunk_ok_def Let_def in_chunk_def gend_def)
  have r: "ring (?es @ [gp])" by (rule good_slot_append[OF gs gp(1,3)])
  have U: "chunk_ok pb2 k" "pending_gpfifos (chunks pb2 k) = ?es @ [gp]" "current_push (chunks pb2 k) = None"
    "\<And>j. j \<noteq> k \<Longrightarrow> chunks pb2 j = chunks pb1 j" "available_chunks pb2 - {k} = available_chunks pb1 - {k}"
    "idle_chunks pb2 - {k} = idle_chunks pb1 - {k}" "concurrent_pushes_sema pb2 = concurrent_pushes_sema pb1"
    using update_chunk_ok[OF ch r _ _ _ pb2_def] na ni by (simp_all add: pb1_def)
  show "pending_gpfifos (chunks ?pb' k) = ?es @ [gp]" "current_push (chunks ?pb' k) = None"
    using U by (simp_all add: pb')
  show oth: "\<And>j. j \<noteq> k \<Longrightarrow> chunks ?pb' j = chunks pb j" using U(4) by (simp add: pb' pb1_def)
  have ck': "chunk_ok ?pb' k" using U(1) chunk_ok_cong[of ?pb' k pb2] by (simp add: pb')
  have "ongoing ?pb' = ongoing pb - {k}"
  proof -
    have "current_push (chunks ?pb' j) = (if j = k then None else current_push (chunks pb j))" for j
      using U(3) oth by (simp add: pb')
    then show ?thesis by (auto simp: ongoing_def split: if_splits)
  qed
  moreover have "card (ongoing pb) = Suc (card (ongoing pb - {k}))"
    using card_Suc_Diff1[OF finite_ongoing k] by simp
  ultimately have "concurrent_pushes_sema ?pb' + card (ongoing ?pb') = UVM_PUSHBUFFER_CHUNKS"
    using ok U(7) by (simp add: pushbuffer_ok_def pb' pb1_def)
  then show "pushbuffer_ok ?pb'"
    using U(5,6) by (intro pushbuffer_ok_chunk_upd[OF ok kk ck' oth]) (simp_all add: pb' pb1_def)
qed

section \<open>The pushbuffer as a state machine\<close>

text \<open>The steps of the pushbuffer: a push claims a chunk, ends, or is completed by the GPU.\<close>

inductive pb_step :: "('e, 'q) pushbuffer \<Rightarrow> ('e, 'q) pushbuffer \<Rightarrow> bool" where
  claim: "0 < concurrent_pushes_sema pb \<Longrightarrow>
    try_claim_chunk q (pb\<lparr>concurrent_pushes_sema := concurrent_pushes_sema pb - 1\<rparr>) = (Some k, pb') \<Longrightarrow>
    pb_step pb pb'"
| finish: "k \<in> ongoing pb \<Longrightarrow> channel_kind push \<noteq> WLC \<Longrightarrow>
    pushbuffer_offset gp = chunk_get_offset k + next_push_start (chunks pb k) \<Longrightarrow>
    0 < pushbuffer_size gp \<Longrightarrow> pushbuffer_size gp \<le> UVM_MAX_PUSH_SIZE \<Longrightarrow>
    pb_step pb (uvm_pushbuffer_end_push push gp pb)"
| complete: "gpfifo_to_chunk gp < UVM_PUSHBUFFER_CHUNKS \<Longrightarrow>
    gp \<in> set (pending_gpfifos (chunks pb (gpfifo_to_chunk gp))) \<Longrightarrow>
    pb_step pb (snd (snd (uvm_pushbuffer_mark_completed (info :: unit push_info) gp pb)))"

lemma pick_chunk_sema [simp]: "pick_chunk (pb\<lparr>concurrent_pushes_sema := n\<rparr>) = pick_chunk pb"
  by (simp add: pick_chunk_def cong: option.case_cong)

lemma try_claim_sema:
  "try_claim_chunk q (pb\<lparr>concurrent_pushes_sema := n\<rparr>) =
     (fst (try_claim_chunk q pb), (snd (try_claim_chunk q pb))\<lparr>concurrent_pushes_sema := n\<rparr>)"
  by (simp add: try_claim_chunk_def split: option.splits)

lemma claim_step_ok:
  assumes ok: "pushbuffer_ok pb" and sema: "0 < concurrent_pushes_sema pb"
    and run: "try_claim_chunk q (pb\<lparr>concurrent_pushes_sema := concurrent_pushes_sema pb - 1\<rparr>) = (Some k, pb')"
  shows "pushbuffer_ok pb'" "k < UVM_PUSHBUFFER_CHUNKS" "k \<notin> ongoing pb"
    "good_slot k (pending_gpfifos (chunks pb k)) (next_push_start (chunks pb k))"
    "chunks pb' = (chunks pb)(k := (chunks pb k)\<lparr>current_push := Some q\<rparr>)"
proof -
  obtain r pb1 where t: "try_claim_chunk q pb = (r, pb1)" by fastforce
  with run have r: "r = Some k" and pb': "pb' = pb1\<lparr>concurrent_pushes_sema := concurrent_pushes_sema pb - 1\<rparr>"
    by (simp_all add: try_claim_sema)
  have "concurrent_pushes_sema pb1 = concurrent_pushes_sema pb"
    using t by (auto simp: try_claim_chunk_def split: option.splits)
  with try_claim_chunk_ok[OF ok t[unfolded r] sema] pb'
  show "pushbuffer_ok pb'" "k < UVM_PUSHBUFFER_CHUNKS" "k \<notin> ongoing pb"
    "good_slot k (pending_gpfifos (chunks pb k)) (next_push_start (chunks pb k))"
    "chunks pb' = (chunks pb)(k := (chunks pb k)\<lparr>current_push := Some q\<rparr>)" by simp_all
qed

lemma pb_step_ok: "pb_step pb pb' \<Longrightarrow> pushbuffer_ok pb \<Longrightarrow> pushbuffer_ok pb'"
proof (induction rule: pb_step.induct)
  case (claim pb q k pb')
  show ?case by (rule claim_step_ok(1)[OF claim(3) claim(1,2)])
next
  case (finish k pb push gp)
  show ?case by (rule uvm_pushbuffer_end_push_ok(1)[OF finish(6) finish(1-5)])
next
  case (complete gp pb info)
  have "snd (snd (uvm_pushbuffer_mark_completed info gp pb)) = complete_gpfifo gp pb"
    by (simp add: uvm_pushbuffer_mark_completed_def split: prod.splits)
  with complete_gpfifo_ok(1)[OF complete(3) refl complete(1,2)] show ?case by simp
qed

lemma reachable_ok: "pb_step\<^sup>*\<^sup>* initial_pushbuffer pb \<Longrightarrow> pushbuffer_ok pb"
  by (induction rule: rtranclp_induct) (auto intro: initial_pushbuffer_ok pb_step_ok)

text \<open>The bytes of the pending pushes, and the bytes reserved for the pushes going on.\<close>

definition pending_bytes :: "('e, 'q) pushbuffer \<Rightarrow> nat set" where
  "pending_bytes pb = (\<Union>k<UVM_PUSHBUFFER_CHUNKS. \<Union>e\<in>set (pending_gpfifos (chunks pb k)). {gstart e ..< gend e})"

definition slot_bytes :: "('e, 'q) pushbuffer \<Rightarrow> nat \<Rightarrow> nat set" where
  "slot_bytes pb k = {chunk_get_offset k + next_push_start (chunks pb k) ..<
     chunk_get_offset k + next_push_start (chunks pb k) + UVM_MAX_PUSH_SIZE}"

lemma slot_in_chunk:
  assumes "good_slot k (pending_gpfifos (chunks pb k)) (next_push_start (chunks pb k))"
  shows "slot_bytes pb k \<subseteq> {chunk_get_offset k ..< chunk_get_offset k + UVM_PUSHBUFFER_CHUNK_SIZE}"
  using assms by (auto simp: good_slot_def slot_bytes_def)

lemma chunk_ranges_disjoint:
  assumes "j \<noteq> k"
  shows "{chunk_get_offset j ..< chunk_get_offset j + UVM_PUSHBUFFER_CHUNK_SIZE} \<inter>
    {chunk_get_offset k ..< chunk_get_offset k + UVM_PUSHBUFFER_CHUNK_SIZE} = {}"
proof -
  have le: "(x + 1) * UVM_PUSHBUFFER_CHUNK_SIZE \<le> y * UVM_PUSHBUFFER_CHUNK_SIZE" if "x < y" for x y
    using that by (intro mult_le_mono1) simp
  from assms have "(j + 1) * UVM_PUSHBUFFER_CHUNK_SIZE \<le> k * UVM_PUSHBUFFER_CHUNK_SIZE \<or>
        (k + 1) * UVM_PUSHBUFFER_CHUNK_SIZE \<le> j * UVM_PUSHBUFFER_CHUNK_SIZE"
    using le[of j k] le[of k j] by (cases "j < k") simp_all
  then show ?thesis by (auto simp: chunk_get_offset_def)
qed

lemma slot_free:
  assumes ok: "pushbuffer_ok pb" and k: "k < UVM_PUSHBUFFER_CHUNKS"
    and gs: "good_slot k (pending_gpfifos (chunks pb k)) (next_push_start (chunks pb k))"
  shows "slot_bytes pb k \<inter> pending_bytes pb = {}"
    "\<And>j. j \<in> ongoing pb \<Longrightarrow> j \<noteq> k \<Longrightarrow> slot_bytes pb k \<inter> slot_bytes pb j = {}"
proof -
  have "slot_bytes pb k \<inter> {gstart e ..< gend e} = {}"
    if "j < UVM_PUSHBUFFER_CHUNKS" "e \<in> set (pending_gpfifos (chunks pb j))" for j e
  proof (cases "j = k")
    case True
    then show ?thesis using good_slot_disjoint[OF gs] that by (simp add: slot_bytes_def)
  next
    case False
    have "{gstart e ..< gend e} \<subseteq> {chunk_get_offset j ..< chunk_get_offset j + UVM_PUSHBUFFER_CHUNK_SIZE}"
      using ok that by (fastforce simp: pushbuffer_ok_def chunk_ok_def Let_def in_chunk_def)
    then show ?thesis using slot_in_chunk[OF gs] chunk_ranges_disjoint[OF False] by blast
  qed
  then show "slot_bytes pb k \<inter> pending_bytes pb = {}" by (auto simp: pending_bytes_def)
  fix j assume j: "j \<in> ongoing pb" "j \<noteq> k"
  then have "good_slot j (pending_gpfifos (chunks pb j)) (next_push_start (chunks pb j))"
    using ok by (auto simp: pushbuffer_ok_def chunk_ok_def Let_def ongoing_def)
  then show "slot_bytes pb k \<inter> slot_bytes pb j = {}"
    using slot_in_chunk slot_in_chunk[OF gs] chunk_ranges_disjoint[OF j(2)] by blast
qed

section \<open>Properties\<close>

text \<open>C15. In every state the pushbuffer can reach by claiming, ending and completing pushes, a push
  that claims a chunk gets \<^verbatim>\<open>UVM_MAX_PUSH_SIZE\<close> bytes inside one chunk, none of which belongs to a
  push still pending on the GPU or to the bytes of another push going on.\<close>

theorem pushbuffer_claim_safe:
  assumes "pb_step\<^sup>*\<^sup>* initial_pushbuffer pb" and "0 < concurrent_pushes_sema pb"
    and "try_claim_chunk q (pb\<lparr>concurrent_pushes_sema := concurrent_pushes_sema pb - 1\<rparr>) = (Some k, pb')"
  shows "k < UVM_PUSHBUFFER_CHUNKS \<and> k \<in> ongoing pb' \<and>
    slot_bytes pb' k \<subseteq> {chunk_get_offset k ..< chunk_get_offset k + UVM_PUSHBUFFER_CHUNK_SIZE} \<and>
    slot_bytes pb' k \<inter> pending_bytes pb' = {} \<and>
    (\<forall>j\<in>ongoing pb' - {k}. slot_bytes pb' k \<inter> slot_bytes pb' j = {})"
proof -
  note C = claim_step_ok[OF reachable_ok[OF assms(1)] assms(2,3)]
  have gs: "good_slot k (pending_gpfifos (chunks pb' k)) (next_push_start (chunks pb' k))" using C(4,5) by simp
  have "k \<in> ongoing pb'" using C(2,5) by (simp add: ongoing_def)
  with C(2) slot_in_chunk[OF gs] slot_free[OF C(1,2) gs] show ?thesis by blast
qed

text \<open>The bytes of two different pending pushes never overlap, and completed space is not lost:
  a chunk with no pending push and no push going on is idle, hence offered to the next push, and the
  semaphore counts exactly the chunks with no push going on.\<close>

theorem pushbuffer_pending_disjoint:
  assumes reach: "pb_step\<^sup>*\<^sup>* initial_pushbuffer pb" and k: "k < UVM_PUSHBUFFER_CHUNKS"
  shows "(pending_gpfifos (chunks pb k) = xs @ e # ys \<longrightarrow>
       (\<forall>f\<in>set xs \<union> set ys. {gstart e ..< gend e} \<inter> {gstart f ..< gend f} = {})) \<and>
    (pending_gpfifos (chunks pb k) = [] \<and> k \<notin> ongoing pb \<longrightarrow> k \<in> idle_chunks pb \<and> uvm_pushbuffer_has_space pb) \<and>
    concurrent_pushes_sema pb = UVM_PUSHBUFFER_CHUNKS - card (ongoing pb)"
proof -
  note ok = reachable_ok[OF reach]
  have ck: "chunk_ok pb k" using ok k by (simp add: pushbuffer_ok_def)
  have "ring (pending_gpfifos (chunks pb k))" using ck by (simp add: chunk_ok_def Let_def)
  then have 1: "pending_gpfifos (chunks pb k) = xs @ e # ys \<longrightarrow>
       (\<forall>f\<in>set xs \<union> set ys. {gstart e ..< gend e} \<inter> {gstart f ..< gend f} = {})"
    using ring_disjoint[of xs e ys] by metis
  have 2: "k \<in> idle_chunks pb \<and> uvm_pushbuffer_has_space pb"
    if "pending_gpfifos (chunks pb k) = []" "k \<notin> ongoing pb"
  proof -
    have "k \<in> idle_chunks pb" "k \<in> available_chunks pb"
      using ck that k by (auto simp: chunk_ok_def Let_def ongoing_def)
    then show ?thesis using pick_chunk_None_iff[OF ok] by (auto simp: uvm_pushbuffer_has_space_def)
  qed
  have 3: "concurrent_pushes_sema pb = UVM_PUSHBUFFER_CHUNKS - card (ongoing pb)"
    using ok unfolding pushbuffer_ok_def by linarith
  from 1 2 3 show ?thesis by blast
qed

text \<open>Ending a push appends its GPFIFO entry to its chunk, and completing a push takes exactly its
  entry off its chunk; both leave the other chunks alone and keep the invariant. Completing a push
  runs its callback once, after decrypting the push when it has a crypto bundle in use.\<close>

theorem pushbuffer_end_and_complete:
  assumes ok: "pushbuffer_ok pb" and k: "k \<in> ongoing pb" and ord: "channel_kind push \<noteq> WLC"
    and gp: "pushbuffer_offset gp = chunk_get_offset k + next_push_start (chunks pb k)"
      "0 < pushbuffer_size gp" "pushbuffer_size gp \<le> UVM_MAX_PUSH_SIZE"
    and fresh: "gp \<notin> set (pending_gpfifos (chunks pb k))"
    and run: "uvm_pushbuffer_mark_completed info gp (uvm_pushbuffer_end_push push gp pb) = (events, info', pb')"
  shows "pushbuffer_ok (uvm_pushbuffer_end_push push gp pb) \<and>
    pending_gpfifos (chunks (uvm_pushbuffer_end_push push gp pb) k) = pending_gpfifos (chunks pb k) @ [gp] \<and>
    pushbuffer_ok pb' \<and> pending_gpfifos (chunks pb' k) = pending_gpfifos (chunks pb k) \<and>
    (\<forall>j. j \<noteq> k \<longrightarrow> chunks pb' j = chunks pb j) \<and>
    (case on_complete info of None \<Rightarrow> events = []
     | Some f \<Rightarrow> on_complete info' = None \<and>
         events = (if crypto_push_size info \<in> {None, Some 0} then [Callback f]
                   else [Decrypt (pushbuffer_offset gp) (the (crypto_push_size info)), Callback f]))"
proof -
  let ?pb = "uvm_pushbuffer_end_push push gp pb"
  note E = uvm_pushbuffer_end_push_ok[OF ok k ord gp]
  have kk: "k < UVM_PUSHBUFFER_CHUNKS" using k by (simp add: ongoing_def)
  have "good_slot k (pending_gpfifos (chunks pb k)) (next_push_start (chunks pb k))"
    using ok k by (auto simp: pushbuffer_ok_def chunk_ok_def Let_def ongoing_def)
  then have "gpfifo_to_chunk gp = k"
    using gp by (simp add: gpfifo_to_chunk_def offset_to_chunk_def chunk_get_offset_def good_slot_def UVM_MAX_PUSH_SIZE_def)
  note C = complete_gpfifo_ok[OF E(1) this kk, unfolded E(2)]
  have pb': "pb' = complete_gpfifo gp ?pb"
    using run by (auto simp: uvm_pushbuffer_mark_completed_def split: prod.splits)
  have "remove1 gp (pending_gpfifos (chunks pb k) @ [gp]) = pending_gpfifos (chunks pb k)"
    using fresh by (simp add: remove1_append)
  moreover have "case on_complete info of None \<Rightarrow> events = []
     | Some f \<Rightarrow> on_complete info' = None \<and>
         events = (if crypto_push_size info \<in> {None, Some 0} then [Callback f]
                   else [Decrypt (pushbuffer_offset gp) (the (crypto_push_size info)), Callback f])"
    using run by (auto simp: uvm_pushbuffer_mark_completed_def run_on_complete_def decrypt_push_def
        split: option.splits if_splits prod.splits)
  ultimately show ?thesis using E C pb' by simp
qed

text \<open>C40. When the error check fails while a push waits for a chunk and the progress made in the
  same iteration frees a chunk, \<^verbatim>\<open>uvm_pushbuffer_begin_push\<close> returns the error and gives the
  semaphore back, but the chunk stays claimed for the push that never started: it is no longer
  available, and more pushes are let in than there are chunks left.\<close>

theorem uvm_pushbuffer_begin_push_leaks_chunk:
  assumes full: "pick_chunk pb = None" "pick_chunk (progress 0 (pb\<lparr>concurrent_pushes_sema := concurrent_pushes_sema pb - 1\<rparr>)) = None"
    and err: "errors 1 = status" "status \<noteq> NV_OK" and ord: "channel_kind push \<noteq> WLC"
    and freed: "pick_chunk (progress 1 (progress 0 (pb\<lparr>concurrent_pushes_sema := concurrent_pushes_sema pb - 1\<rparr>))) = Some k"
  shows "\<exists>pb'. uvm_pushbuffer_begin_push (Suc (Suc fuel)) progress errors static_pb push pb = Some (status, push, pb') \<and>
    current_push (chunks pb' k) = Some (push_id push) \<and> k \<notin> available_chunks pb' \<and>
    concurrent_pushes_sema pb' =
      concurrent_pushes_sema (progress 1 (progress 0 (pb\<lparr>concurrent_pushes_sema := concurrent_pushes_sema pb - 1\<rparr>))) + 1"
proof -
  let ?pb1 = "pb\<lparr>concurrent_pushes_sema := concurrent_pushes_sema pb - 1\<rparr>"
  have "pick_chunk ?pb1 = None" using full(1) by simp
  then have "try_claim_chunk (push_id push) ?pb1 = (None, ?pb1)" by (simp add: try_claim_chunk_def)
  moreover have "try_claim_chunk (push_id push) (progress 0 ?pb1) = (None, progress 0 ?pb1)"
    using full(2) by (simp add: try_claim_chunk_def)
  ultimately show ?thesis
    using err freed ord
    by (simp add: uvm_pushbuffer_begin_push_def claim_chunk_def try_claim_chunk_def Let_def)
qed

section \<open>Concrete instances\<close>

definition started :: "(nat, nat) pushbuffer" where
  "started = initial_pushbuffer\<lparr>chunks := (chunks initial_pushbuffer)(0 := (chunks initial_pushbuffer 0)\<lparr>current_push := Some 7\<rparr>),
     idle_chunks := {..<UVM_PUSHBUFFER_CHUNKS} - {0}, available_chunks := {..<UVM_PUSHBUFFER_CHUNKS} - {0},
     concurrent_pushes_sema := UVM_PUSHBUFFER_CHUNKS - 1\<rparr>"

lemma first_claim:
  "try_claim_chunk 7 (initial_pushbuffer\<lparr>concurrent_pushes_sema := concurrent_pushes_sema initial_pushbuffer - 1\<rparr>) =
     (Some 0, started)"
proof -
  have "find_first_bit {..<UVM_PUSHBUFFER_CHUNKS} UVM_PUSHBUFFER_CHUNKS = 0"
    by (rule find_first_bit_eq) (simp_all add: UVM_PUSHBUFFER_CHUNKS_def)
  then show ?thesis
    by (simp add: try_claim_chunk_def pick_chunk_def get_chunk_in_mask_def Let_def started_def
        initial_pushbuffer_def UVM_PUSHBUFFER_CHUNKS_def)
qed

lemma initial_sema: "0 < concurrent_pushes_sema initial_pushbuffer"
  by (simp add: initial_pushbuffer_def UVM_PUSHBUFFER_CHUNKS_def)

lemma started_ok: "pushbuffer_ok started" "0 \<in> ongoing started" "next_push_start (chunks started 0) = 0"
  "pending_gpfifos (chunks started 0) = []"
  using claim_step_ok(1)[OF initial_pushbuffer_ok initial_sema first_claim]
  by (simp_all add: ongoing_def started_def initial_pushbuffer_def UVM_PUSHBUFFER_CHUNKS_def)

theorem pushbuffer_claim_safe_witness:
  "0 \<in> ongoing started \<and> slot_bytes started 0 \<inter> pending_bytes started = {}"
  using pushbuffer_claim_safe[OF rtranclp.rtrancl_refl initial_sema first_claim] by blast

theorem pushbuffer_pending_disjoint_witness:
  "3 \<in> idle_chunks (initial_pushbuffer :: (nat, nat) pushbuffer) \<and>
   uvm_pushbuffer_has_space (initial_pushbuffer :: (nat, nat) pushbuffer)"
proof -
  have k: "3 < UVM_PUSHBUFFER_CHUNKS" by (simp add: UVM_PUSHBUFFER_CHUNKS_def)
  have e: "pending_gpfifos (chunks (initial_pushbuffer :: (nat, nat) pushbuffer) 3) = []"
    "3 \<notin> ongoing (initial_pushbuffer :: (nat, nat) pushbuffer)"
    by (simp_all add: initial_pushbuffer_def ongoing_def)
  from pushbuffer_pending_disjoint[OF rtranclp.rtrancl_refl k] e show ?thesis by blast
qed

theorem pushbuffer_end_and_complete_witness:
  "\<exists>events info' pb'. uvm_pushbuffer_mark_completed \<lparr>on_complete = Some (), crypto_push_size = None\<rparr>
      \<lparr>gpfifo_id = 0, pushbuffer_offset = 0, pushbuffer_size = 100\<rparr>
      (uvm_pushbuffer_end_push \<lparr>push_id = 7, channel_kind = Ordinary, push_begin = 0\<rparr>
        \<lparr>gpfifo_id = 0, pushbuffer_offset = 0, pushbuffer_size = 100\<rparr> started) = (events, info', pb') \<and>
     events = [Callback ()] \<and> pushbuffer_ok pb' \<and> pending_gpfifos (chunks pb' 0) = []"
proof -
  let ?gp = "\<lparr>gpfifo_id = 0 :: nat, pushbuffer_offset = 0, pushbuffer_size = 100\<rparr>"
  let ?push = "\<lparr>push_id = 7 :: nat, channel_kind = Ordinary, push_begin = 0\<rparr>"
  let ?info = "\<lparr>on_complete = Some (), crypto_push_size = None\<rparr>"
  obtain events info' pb' where
    run: "uvm_pushbuffer_mark_completed ?info ?gp (uvm_pushbuffer_end_push ?push ?gp started) = (events, info', pb')"
    by (metis prod_cases3)
  have side: "channel_kind ?push \<noteq> WLC"
    "pushbuffer_offset ?gp = chunk_get_offset 0 + next_push_start (chunks started 0)"
    "0 < pushbuffer_size ?gp" "pushbuffer_size ?gp \<le> UVM_MAX_PUSH_SIZE"
    "?gp \<notin> set (pending_gpfifos (chunks started 0))"
    by (simp_all add: started_ok chunk_get_offset_def UVM_MAX_PUSH_SIZE_def)
  from pushbuffer_end_and_complete[OF started_ok(1,2) side run] run show ?thesis by (auto simp: started_ok)
qed

definition full_pushbuffer :: "(nat, nat) pushbuffer" where
  "full_pushbuffer = initial_pushbuffer\<lparr>available_chunks := {}, idle_chunks := {}, concurrent_pushes_sema := 1\<rparr>"

theorem uvm_pushbuffer_begin_push_leaks_chunk_witness:
  "\<exists>pb'. uvm_pushbuffer_begin_push (Suc (Suc 0)) (\<lambda>i pb. if i = 1 then pb\<lparr>available_chunks := {3}\<rparr> else pb)
      (\<lambda>_. NV_ERR_RC_ERROR) 0 \<lparr>push_id = 9, channel_kind = Ordinary, push_begin = 0\<rparr> full_pushbuffer =
      Some (NV_ERR_RC_ERROR, \<lparr>push_id = 9, channel_kind = Ordinary, push_begin = 0\<rparr>, pb') \<and>
    current_push (chunks pb' 3) = Some 9 \<and> concurrent_pushes_sema pb' = 1"
proof -
  let ?progress = "\<lambda>i pb. if i = (1 :: nat) then pb\<lparr>available_chunks := {3 :: nat}\<rparr> else pb"
  let ?push = "\<lparr>push_id = 9 :: nat, channel_kind = Ordinary, push_begin = 0\<rparr>"
  let ?pb1 = "full_pushbuffer\<lparr>concurrent_pushes_sema := concurrent_pushes_sema full_pushbuffer - 1\<rparr>"
  have pick: "pick_chunk full_pushbuffer = None" "pick_chunk (?progress 0 ?pb1) = None"
    "pick_chunk (?progress 1 (?progress 0 ?pb1)) = Some 3"
    using find_first_bit_eq[of 3 16 "{3}"]
    by (simp_all add: pick_chunk_def get_chunk_in_mask_def find_first_bit_def full_pushbuffer_def
        UVM_PUSHBUFFER_CHUNKS_def)
  have "channel_kind ?push \<noteq> WLC" by simp
  from uvm_pushbuffer_begin_push_leaks_chunk[OF pick(1,2) refl _ this pick(3), of "\<lambda>_. NV_ERR_RC_ERROR" 0 0]
  show ?thesis by (auto simp: full_pushbuffer_def)
qed

end
