(* ===== verification/Range_Vec_Writes.thy ===== *)
theory Range_Vec_Writes
  imports Range_Vec Pte_Batch Tlb_Batch Pushbuffer
begin

text \<open>
  Writing the PTEs of a range vector (\<^verbatim>\<open>uvm_page_table_range_vec_write_ptes_{cpu,gpu}\<close>): with the GPU as pushes of PTE batches, the last of which
  invalidates the TLBs, and with the CPU. The theory composes the vectors of \<open>Range_Vec\<close> with \<open>Pte_Batch\<close>, \<open>Copy_Engine\<close> and \<open>Tlb_Batch\<close>:
  the pushes write, for each page, the entry that a walk of the page tree finds for it. The limit of entries per push is the one of \<^verbatim>\<open>UVM_MAX_PUSH_SIZE\<close>.
\<close>

section \<open>Model\<close>

definition uvm_mmu_pte_size :: "'d page_tree \<Rightarrow> NvU32 \<Rightarrow> nat" where
  "uvm_mmu_pte_size tree pg_size = entry_size (pt_hal tree) (page_table_depth (pt_hal tree) pg_size)"

definition uvm_page_table_range_entry_address :: "'d page_tree \<Rightarrow> 'd dir_heap \<Rightarrow> 'd table_range \<Rightarrow> nat \<Rightarrow> gpu_phys_address" where
  "uvm_page_table_range_entry_address tree h r entry_index =
     phys_add (alloc_addr (dir_alloc (the (h (range_table r)))))
       ((range_start_index r + entry_index) * uvm_mmu_pte_size tree (range_pg_size r))"

subsection \<open>Writing PTEs\<close>

text \<open>Writes by the CPU to the memory of a table.\<close>

definition uvm_mmu_page_table_cpu_memset_8 :: "page_table_alloc \<Rightarrow> nat \<Rightarrow> NvU64 \<Rightarrow> nat \<Rightarrow> phys_mem \<Rightarrow> phys_mem" where
  "uvm_mmu_page_table_cpu_memset_8 a start_index pattern num_entries =
     write_bytes (phys_loc (phys_add (alloc_addr a) (start_index * 8))) (concat (replicate num_entries (bytes 8 pattern)))"

definition uvm_mmu_page_table_cpu_memset_16 :: "page_table_alloc \<Rightarrow> nat \<Rightarrow> NvU64 \<times> NvU64 \<Rightarrow> nat \<Rightarrow> phys_mem \<Rightarrow> phys_mem" where
  "uvm_mmu_page_table_cpu_memset_16 a start_index pattern num_entries =
     write_bytes (phys_loc (phys_add (alloc_addr a) (start_index * 16)))
       (concat (replicate num_entries (bytes 8 (fst pattern) @ bytes 8 (snd pattern))))"

definition cpu_write_entry :: "nat \<Rightarrow> page_table_alloc \<Rightarrow> nat \<Rightarrow> NvU64 \<Rightarrow> phys_mem \<Rightarrow> phys_mem" where
  "cpu_write_entry pte_size a entry bits =
     (if pte_size = 8 then uvm_mmu_page_table_cpu_memset_8 a entry bits 1
      else uvm_mmu_page_table_cpu_memset_16 a entry (bits, 0) 1)"

text \<open>
  The loops over the ranges and their entries, with the offset of the page in the vector. \<open>begin_status\<close> and
  \<open>end_status\<close> are the outcomes of the push with the TLB invalidate.
\<close>

definition write_range_cpu ::
    "'d page_tree \<Rightarrow> 'd dir_heap \<Rightarrow> NvU32 \<Rightarrow> (NvU64 \<Rightarrow> NvU64) \<Rightarrow> 'd table_range \<Rightarrow> NvU64 \<times> phys_mem \<Rightarrow> NvU64 \<times> phys_mem" where
  "write_range_cpu tree h pg_size pte_maker r =
     fold (\<lambda>entry (offset, m).
         (offset + ucast pg_size,
          cpu_write_entry (uvm_mmu_pte_size tree pg_size) (dir_alloc (the (h (range_table r)))) entry (pte_maker offset) m))
       [range_start_index r..<range_entry_count r]"

definition uvm_page_table_range_vec_write_ptes_cpu ::
    "'d page_tree \<Rightarrow> tlb_tree \<Rightarrow> membar \<Rightarrow> (NvU64 \<Rightarrow> NvU64) \<Rightarrow> NV_STATUS \<Rightarrow> NV_STATUS \<Rightarrow> 'd range_vec \<Rightarrow> 'd dir_heap \<Rightarrow> phys_mem \<Rightarrow>
     NV_STATUS \<times> tlb_command list \<times> phys_mem" where
  "uvm_page_table_range_vec_write_ptes_cpu tree tlb tlb_membar pte_maker begin_status end_status v h m =
     (let (offset, m) = fold (write_range_cpu tree h (vec_page_size v) pte_maker) (vec_ranges v) (0, m)
      in if begin_status \<noteq> NV_OK then (begin_status, [], m)
         else (end_status,
               uvm_tlb_batch_single_invalidate tlb \<lparr>range_start = vec_start v, range_size = vec_size v, range_page_sizes = vec_page_size v\<rparr> tlb_membar, m))"

text \<open>The entries of one push by the GPU, from the entry at \<open>addr\<close> on.\<close>

fun write_entries ::
    "gpu_config \<Rightarrow> ce_hal \<Rightarrow> (NvU64 \<Rightarrow> NvU64) \<Rightarrow> NvU32 \<Rightarrow> nat \<Rightarrow> nat \<Rightarrow> gpu_phys_address \<Rightarrow> NvU64 \<Rightarrow> pte_batch \<Rightarrow>
     gpu_phys_address \<times> NvU64 \<times> pte_batch" where
  "write_entries gpu ce pte_maker pg_size pte_size 0 addr offset b = (addr, offset, b)"
| "write_entries gpu ce pte_maker pg_size pte_size (Suc n) addr offset b =
     write_entries gpu ce pte_maker pg_size pte_size n (phys_add addr pte_size) (offset + ucast pg_size)
       (uvm_pte_batch_write_pte gpu ce addr (pte_maker offset) pte_size b)"

text \<open>
  The pushes for the \<open>n\<close> entries of a range that are left, with the TLB commands at the end of each. \<open>begin_status k\<close> is the outcome of
  beginning the \<open>k\<close>-th push; \<open>is_last\<close> says that the range is the last one. The result is the status, the next push and the offset of the next page.
\<close>

type_synonym pte_push = "gpu_push \<times> tlb_command list"

definition max_entries_per_push :: "nat \<Rightarrow> nat" where
  "max_entries_per_push pte_size = (UVM_MAX_PUSH_SIZE - 1024) div pte_size"

definition empty_push :: gpu_push where "empty_push = \<lparr>push_flags = {}, push_cmds = []\<rparr>"

function write_range_gpu ::
    "gpu_config \<Rightarrow> ce_hal \<Rightarrow> (NvU64 \<Rightarrow> NvU64) \<Rightarrow> NvU32 \<Rightarrow> nat \<Rightarrow> tlb_command list \<Rightarrow> (nat \<Rightarrow> NV_STATUS) \<Rightarrow> bool \<Rightarrow>
     nat \<Rightarrow> gpu_phys_address \<Rightarrow> NvU64 \<Rightarrow> nat \<Rightarrow> NV_STATUS \<times> pte_push list \<times> NvU64 \<times> nat" where
  "write_range_gpu gpu ce pte_maker pg_size pte_size tlb_cmds begin_status is_last n addr offset k =
     (if n = 0 \<or> max_entries_per_push pte_size = 0 then (NV_OK, [], offset, k)
      else if begin_status k \<noteq> NV_OK then (begin_status k, [], offset, k)
      else
        let count = min n (max_entries_per_push pte_size);
            (addr, offset, b) = write_entries gpu ce pte_maker pg_size pte_size count addr offset (uvm_pte_batch_begin empty_push);
            p = uvm_pte_batch_end gpu ce b;
            last_push = (is_last \<and> count = n);
            push = (if last_push then (p, tlb_cmds) else (uvm_push_set_flag UVM_PUSH_FLAG_NEXT_MEMBAR_NONE p, []));
            (status, pushes, offset, k) = write_range_gpu gpu ce pte_maker pg_size pte_size tlb_cmds begin_status is_last (n - count) addr offset (Suc k)
        in (status, push # pushes, offset, k))"
  by pat_completeness auto
termination
  by (relation "measure (\<lambda>(gpu, ce, pte_maker, pg_size, pte_size, tlb_cmds, begin_status, is_last, n, addr, offset, k). n)") auto

declare write_range_gpu.simps [simp del]

fun write_ranges_gpu ::
    "'d page_tree \<Rightarrow> 'd dir_heap \<Rightarrow> gpu_config \<Rightarrow> ce_hal \<Rightarrow> (NvU64 \<Rightarrow> NvU64) \<Rightarrow> NvU32 \<Rightarrow> tlb_command list \<Rightarrow> (nat \<Rightarrow> NV_STATUS) \<Rightarrow>
     'd table_range list \<Rightarrow> NvU64 \<Rightarrow> nat \<Rightarrow> NV_STATUS \<times> pte_push list" where
  "write_ranges_gpu tree h gpu ce pte_maker pg_size tlb_cmds begin_status [] offset k = (NV_OK, [])"
| "write_ranges_gpu tree h gpu ce pte_maker pg_size tlb_cmds begin_status (r # rs) offset k =
     (let (status, pushes, offset, k) =
            write_range_gpu gpu ce pte_maker pg_size (uvm_mmu_pte_size tree pg_size) tlb_cmds begin_status (rs = [])
              (range_entry_count r) (uvm_page_table_range_entry_address tree h r 0) offset k
      in if status \<noteq> NV_OK then (status, pushes)
         else let (status, pushes') = write_ranges_gpu tree h gpu ce pte_maker pg_size tlb_cmds begin_status rs offset k
              in (status, pushes @ pushes'))"

text \<open>\<open>tracker_status\<close> is the outcome of waiting for the pushes.\<close>

definition uvm_page_table_range_vec_write_ptes_gpu ::
    "'d page_tree \<Rightarrow> tlb_tree \<Rightarrow> gpu_config \<Rightarrow> ce_hal \<Rightarrow> membar \<Rightarrow> (NvU64 \<Rightarrow> NvU64) \<Rightarrow> (nat \<Rightarrow> NV_STATUS) \<Rightarrow> NV_STATUS \<Rightarrow>
     'd range_vec \<Rightarrow> 'd dir_heap \<Rightarrow> NV_STATUS \<times> pte_push list" where
  "uvm_page_table_range_vec_write_ptes_gpu tree tlb gpu ce tlb_membar pte_maker begin_status tracker_status v h =
     (let tlb_cmds = uvm_tlb_batch_single_invalidate tlb
            \<lparr>range_start = vec_start v, range_size = vec_size v, range_page_sizes = vec_page_size v\<rparr> tlb_membar;
          (status, pushes) = write_ranges_gpu tree h gpu ce pte_maker (vec_page_size v) tlb_cmds begin_status (vec_ranges v) 0 0
      in (if status = NV_OK then tracker_status else status, pushes))"

section \<open>Writing the PTEs of a vector\<close>

text \<open>The PTE writes for \<open>n\<close> entries from \<open>addr\<close> on, whose pages start at \<open>offset\<close> in the vector.\<close>

definition entry_ops :: "(NvU64 \<Rightarrow> NvU64) \<Rightarrow> NvU32 \<Rightarrow> nat \<Rightarrow> nat \<Rightarrow> gpu_phys_address \<Rightarrow> NvU64 \<Rightarrow> pte_op list" where
  "entry_ops pte_maker pg_size pte_size n addr offset =
     map (\<lambda>j. Write_Pte (phys_add addr (j * pte_size)) (pte_maker (offset + of_nat j * ucast pg_size)) pte_size) [0..<n]"

fun ranges_ops :: "'d page_tree \<Rightarrow> 'd dir_heap \<Rightarrow> (NvU64 \<Rightarrow> NvU64) \<Rightarrow> NvU32 \<Rightarrow> 'd table_range list \<Rightarrow> NvU64 \<Rightarrow> pte_op list" where
  "ranges_ops tree h pte_maker pg_size [] offset = []"
| "ranges_ops tree h pte_maker pg_size (r # rs) offset =
     entry_ops pte_maker pg_size (uvm_mmu_pte_size tree pg_size) (range_entry_count r) (uvm_page_table_range_entry_address tree h r 0) offset @
     ranges_ops tree h pte_maker pg_size rs (offset + of_nat (range_entry_count r) * ucast pg_size)"

text \<open>What a sequence of pushes does to memory.\<close>

definition run_pushes :: "gpu_config \<Rightarrow> pte_push list \<Rightarrow> phys_mem \<Rightarrow> phys_mem" where
  "run_pushes gpu pushes = fold (\<lambda>p. run_push gpu (fst p)) pushes"

text \<open>The pushes do the requests \<open>ops\<close>, and each orders its writes before what follows.\<close>

definition pushes_do :: "gpu_config \<Rightarrow> pte_push list \<Rightarrow> pte_op list \<Rightarrow> bool" where
  "pushes_do gpu pushes ops \<longleftrightarrow>
     (\<exists>zs. length zs = length ops \<and> (\<forall>m. run_pushes gpu pushes m = pte_effects zs ops m)) \<and>
     (\<forall>p\<in>set pushes. trailing_membar (fst p) \<noteq> UVM_MEMBAR_NONE)"

lemma length_entry_ops [simp]: "length (entry_ops pte_maker pg_size pte_size n addr offset) = n"
  by (simp add: entry_ops_def)

lemma entry_ops_add:
  "entry_ops pte_maker pg_size pte_size (k + n) addr offset =
     entry_ops pte_maker pg_size pte_size k addr offset @
     entry_ops pte_maker pg_size pte_size n (phys_add addr (k * pte_size)) (offset + of_nat k * ucast pg_size)"
proof -
  have "[0..<k + n] = [0..<k] @ map (\<lambda>j. k + j) [0..<n]" by (intro nth_equalityI) (auto simp: nth_append)
  then show ?thesis by (simp add: entry_ops_def algebra_simps)
qed

lemma entry_ops_ok: "pte_size \<in> {8, 16} \<Longrightarrow> list_all pte_op_ok (entry_ops pte_maker pg_size pte_size n addr offset)"
  by (auto simp: entry_ops_def list_all_iff)

lemma pte_effects_append:
  "length zs = length ops \<Longrightarrow> pte_effects (zs @ zs') (ops @ ops') m = pte_effects zs' ops' (pte_effects zs ops m)"
  by (simp add: pte_effects_def)

lemma pushes_do_Nil [simp]: "pushes_do gpu [] []"
  by (simp add: pushes_do_def run_pushes_def pte_effects_def)

lemma pushes_do_append:
  assumes "pushes_do gpu ps ops" "pushes_do gpu qs ops'"
  shows "pushes_do gpu (ps @ qs) (ops @ ops')"
proof -
  obtain zs zs' where "length zs = length ops" "\<And>m. run_pushes gpu ps m = pte_effects zs ops m"
    "length zs' = length ops'" "\<And>m. run_pushes gpu qs m = pte_effects zs' ops' m"
    using assms by (auto simp: pushes_do_def)
  then have "length (zs @ zs') = length (ops @ ops')" "\<And>m. run_pushes gpu (ps @ qs) m = pte_effects (zs @ zs') (ops @ ops') m"
    by (simp_all add: pte_effects_append run_pushes_def)
  moreover have "\<forall>p\<in>set (ps @ qs). trailing_membar (fst p) \<noteq> UVM_MEMBAR_NONE" using assms by (auto simp: pushes_do_def)
  ultimately show ?thesis unfolding pushes_do_def by blast
qed

lemma write_entries_eq:
  "write_entries gpu ce pte_maker pg_size pte_size n addr offset b =
     (phys_add addr (n * pte_size), offset + of_nat n * ucast pg_size,
      fold (do_pte_op gpu ce) (entry_ops pte_maker pg_size pte_size n addr offset) b)"
proof (induction n arbitrary: addr offset b)
  case (Suc n)
  show ?case
    using entry_ops_add[of pte_maker pg_size pte_size 1 n addr offset]
    by (simp add: Suc.IH) (simp add: entry_ops_def algebra_simps)
qed (simp add: entry_ops_def)

text \<open>The shape of the pushes: the TLB invalidate is in the last push or nowhere.\<close>

definition tlb_last :: "tlb_command list \<Rightarrow> pte_push list \<Rightarrow> bool" where
  "tlb_last cmds pushes \<longleftrightarrow> pushes \<noteq> [] \<and> snd (last pushes) = cmds \<and> (\<forall>p\<in>set (butlast pushes). snd p = [])"

lemma tlb_last_append: "tlb_last cmds qs \<Longrightarrow> \<forall>p\<in>set ps. snd p = [] \<Longrightarrow> tlb_last cmds (ps @ qs)"
  by (simp add: tlb_last_def butlast_append ball_Un)

text \<open>The pushes, counted from the \<open>k\<close>-th to before the \<open>k'\<close>-th one, could all be begun, and an error is that of the next one.\<close>

definition begun :: "(nat \<Rightarrow> NV_STATUS) \<Rightarrow> nat \<Rightarrow> pte_push list \<Rightarrow> nat \<Rightarrow> NV_STATUS \<Rightarrow> bool" where
  "begun begin_status k pushes k' status \<longleftrightarrow>
     k' = k + length pushes \<and> (\<forall>i<length pushes. begin_status (k + i) = NV_OK) \<and> (status \<noteq> NV_OK \<longrightarrow> status = begin_status k')"

lemma begun_Cons: "begun begin_status (Suc k) rest k' status \<Longrightarrow> begin_status k = NV_OK \<Longrightarrow> begun begin_status k (p # rest) k' status"
  by (auto simp: begun_def less_Suc_eq_0_disj)

lemma begun_append: "begun begin_status k ps k1 NV_OK \<Longrightarrow> begun begin_status k1 qs k2 status \<Longrightarrow> begun begin_status k (ps @ qs) k2 status"
proof -
  assume a: "begun begin_status k ps k1 NV_OK" "begun begin_status k1 qs k2 status"
  have "begin_status (k + i) = NV_OK" if "i < length ps + length qs" for i
  proof (cases "i < length ps")
    case False
    then have "i - length ps < length qs" "k + i = k1 + (i - length ps)" using a that by (auto simp: begun_def)
    then show ?thesis using a(2) by (simp add: begun_def)
  qed (use a(1) in \<open>simp add: begun_def\<close>)
  then show ?thesis using a by (auto simp: begun_def)
qed

context copy_engine
begin

lemma batch_pushes_do:
  assumes "pte_size \<in> {8, 16}"
  shows "pushes_do gpu [(uvm_push_set_flag f (run_pte_batch gpu hal (entry_ops pte_maker pg_size pte_size n addr offset) empty_push), t)]
      (entry_ops pte_maker pg_size pte_size n addr offset)"
    "pushes_do gpu [(run_pte_batch gpu hal (entry_ops pte_maker pg_size pte_size n addr offset) empty_push, t)]
      (entry_ops pte_maker pg_size pte_size n addr offset)"
proof -
  have e: "push_flags empty_push = {}" "run_push gpu empty_push m = m" for m by (simp_all add: empty_push_def run_push_def)
  note R = run_pte_batch_correct[OF e(1) entry_ops_ok[OF assms]]
  have f: "trailing_membar (uvm_push_set_flag f p) = trailing_membar p" for p by (simp add: trailing_membar_def uvm_push_set_flag_def)
  show "pushes_do gpu [(uvm_push_set_flag f (run_pte_batch gpu hal (entry_ops pte_maker pg_size pte_size n addr offset) empty_push), t)]
      (entry_ops pte_maker pg_size pte_size n addr offset)"
    "pushes_do gpu [(run_pte_batch gpu hal (entry_ops pte_maker pg_size pte_size n addr offset) empty_push, t)]
      (entry_ops pte_maker pg_size pte_size n addr offset)"
    using R[of pte_maker pg_size n addr offset] by (auto simp: pushes_do_def run_pushes_def e f)
qed

lemma write_range_correct:
  assumes size: "pte_size \<in> {8, 16}"
  shows "write_range_gpu gpu hal pte_maker pg_size pte_size tlb_cmds begin_status is_last n addr offset k = (status, pushes, offset', k') \<Longrightarrow>
    \<exists>j\<le>n. pushes_do gpu pushes (entry_ops pte_maker pg_size pte_size j addr offset) \<and> begun begin_status k pushes k' status \<and>
      (if status = NV_OK
       then j = n \<and> offset' = offset + of_nat n * ucast pg_size \<and> (if is_last \<and> 0 < n then tlb_last tlb_cmds pushes else \<forall>p\<in>set pushes. snd p = [])
       else j < n \<and> (\<forall>p\<in>set pushes. snd p = []))"
proof (induction n arbitrary: addr offset k pushes rule: less_induct)
  case (less n)
  let ?max = "max_entries_per_push pte_size"
  have max: "?max > 0" using size by (auto simp: max_entries_per_push_def UVM_MAX_PUSH_SIZE_def)
  consider (zero) "n = 0" | (fail) "0 < n" "begin_status k \<noteq> NV_OK" | (push) "0 < n" "begin_status k = NV_OK" by auto
  then show ?case
  proof cases
    case zero
    then show ?thesis using less.prems by (auto simp: write_range_gpu.simps entry_ops_def begun_def)
  next
    case fail
    then have "pushes = []" "status = begin_status k" "k' = k" using less.prems max by (auto simp: write_range_gpu.simps[of _ _ _ _ _ _ _ _ n])
    then show ?thesis using fail by (intro exI[of _ 0]) (auto simp: entry_ops_def begun_def)
  next
    case push
    define c where "c = min n ?max"
    let ?ops = "entry_ops pte_maker pg_size pte_size c addr offset"
    let ?p = "run_pte_batch gpu hal ?ops empty_push"
    define first_push where "first_push = (if is_last \<and> c = n then (?p, tlb_cmds) else (uvm_push_set_flag UVM_PUSH_FLAG_NEXT_MEMBAR_NONE ?p, []))"
    obtain rest where rest: "write_range_gpu gpu hal pte_maker pg_size pte_size tlb_cmds begin_status is_last (n - c) (phys_add addr (c * pte_size))
        (offset + of_nat c * ucast pg_size) (Suc k) = (status, rest, offset', k')" and pushes: "pushes = first_push # rest"
      using less.prems push max
      by (subst (asm) write_range_gpu.simps) (auto simp: write_entries_eq run_pte_batch_def first_push_def Let_def simp flip: c_def split: prod.splits)
    have c: "c > 0" "n - c < n" "c + (n - c) = n" using push(1) max by (auto simp: c_def)
    obtain j where j: "j \<le> n - c" "pushes_do gpu rest (entry_ops pte_maker pg_size pte_size j (phys_add addr (c * pte_size)) (offset + of_nat c * ucast pg_size))"
      and begun: "begun begin_status (Suc k) rest k' status"
      and st: "if status = NV_OK
        then j = n - c \<and> offset' = offset + of_nat c * ucast pg_size + of_nat (n - c) * ucast pg_size \<and>
          (if is_last \<and> 0 < n - c then tlb_last tlb_cmds rest else \<forall>p\<in>set rest. snd p = [])
        else j < n - c \<and> (\<forall>p\<in>set rest. snd p = [])"
      using less.IH[OF c(2) rest] by blast
    have "pushes_do gpu [first_push] ?ops" using batch_pushes_do[OF size] by (simp add: first_push_def)
    from pushes_do_append[OF this j(2)] have all: "pushes_do gpu pushes (entry_ops pte_maker pg_size pte_size (c + j) addr offset)"
      by (simp add: pushes entry_ops_add)
    have last: "c = n \<Longrightarrow> status = NV_OK \<and> rest = []" using rest by (simp add: write_range_gpu.simps[of _ _ _ _ _ _ _ _ 0])
    show ?thesis
    proof (intro exI[of _ "c + j"] conjI)
      show "c + j \<le> n" using j(1) c(3) by simp
      show "begun begin_status k pushes k' status" unfolding pushes by (rule begun_Cons[OF begun push(2)])
      show "if status = NV_OK
          then c + j = n \<and> offset' = offset + of_nat n * ucast pg_size \<and> (if is_last \<and> 0 < n then tlb_last tlb_cmds pushes else \<forall>p\<in>set pushes. snd p = [])
          else c + j < n \<and> (\<forall>p\<in>set pushes. snd p = [])"
      proof (cases "status = NV_OK")
        case True
        have "of_nat c * ucast pg_size + of_nat (n - c) * ucast pg_size = (of_nat n * ucast pg_size :: NvU64)"
          by (metis c(3) distrib_right of_nat_add)
        then have off: "c + j = n \<and> offset' = offset + of_nat n * ucast pg_size" using True st c(3) by (simp add: add.assoc)
        have "if is_last \<and> 0 < n then tlb_last tlb_cmds pushes else \<forall>p\<in>set pushes. snd p = []"
        proof (cases "c = n")
          case True
          then show ?thesis using last push(1) by (simp add: pushes first_push_def tlb_last_def)
        next
          case False
          then have "0 < n - c" using c(3) by linarith
          then show ?thesis using False True st push(1) tlb_last_append[of tlb_cmds rest "[first_push]"] by (auto simp: pushes first_push_def)
        qed
        then show ?thesis using True off by simp
      next
        case False
        then show ?thesis using st last c(3) by (auto simp: pushes first_push_def)
      qed
    qed (rule all)
  qed
qed

end

context copy_engine
begin

lemma write_ranges_correct:
  assumes size: "uvm_mmu_pte_size tree pg_size \<in> {8, 16}"
  shows "(\<And>r. r \<in> set rs \<Longrightarrow> 0 < range_entry_count r) \<Longrightarrow>
    write_ranges_gpu tree h gpu hal pte_maker pg_size tlb_cmds begin_status rs offset k = (status, pushes) \<Longrightarrow>
    \<exists>n. pushes_do gpu pushes (take n (ranges_ops tree h pte_maker pg_size rs offset)) \<and> begun begin_status k pushes (k + length pushes) status \<and>
      (if status = NV_OK
       then n \<ge> length (ranges_ops tree h pte_maker pg_size rs offset) \<and> (rs \<noteq> [] \<longrightarrow> tlb_last tlb_cmds pushes)
       else n < length (ranges_ops tree h pte_maker pg_size rs offset) \<and> (\<forall>p\<in>set pushes. snd p = []))"
proof (induction rs arbitrary: offset k pushes)
  case (Cons r rs)
  let ?n = "range_entry_count r" and ?size = "uvm_mmu_pte_size tree pg_size" and ?a = "uvm_page_table_range_entry_address tree h r 0"
  let ?ops = "\<lambda>n. entry_ops pte_maker pg_size ?size n ?a offset"
  obtain st ps off' k' where one: "write_range_gpu gpu hal pte_maker pg_size ?size tlb_cmds begin_status (rs = []) ?n ?a offset k = (st, ps, off', k')"
    by (metis surj_pair)
  obtain j where j: "j \<le> ?n" "pushes_do gpu ps (?ops j)" and begun: "begun begin_status k ps k' st"
    and st: "if st = NV_OK then j = ?n \<and> off' = offset + of_nat ?n * ucast pg_size \<and> (if rs = [] \<and> 0 < ?n then tlb_last tlb_cmds ps else \<forall>p\<in>set ps. snd p = [])
      else j < ?n \<and> (\<forall>p\<in>set ps. snd p = [])"
    using write_range_correct[OF size one] by blast
  show ?case
  proof (cases "st = NV_OK")
    case True
    obtain ps' where rest: "write_ranges_gpu tree h gpu hal pte_maker pg_size tlb_cmds begin_status rs off' k' = (status, ps')" and pushes: "pushes = ps @ ps'"
      using Cons.prems(2) one True by (auto split: prod.splits)
    have off: "off' = offset + of_nat ?n * ucast pg_size" using st True by simp
    obtain n where n: "pushes_do gpu ps' (take n (ranges_ops tree h pte_maker pg_size rs off'))" and begun': "begun begin_status k' ps' (k' + length ps') status"
      and st':
      "if status = NV_OK then n \<ge> length (ranges_ops tree h pte_maker pg_size rs off') \<and> (rs \<noteq> [] \<longrightarrow> tlb_last tlb_cmds ps')
       else n < length (ranges_ops tree h pte_maker pg_size rs off') \<and> (\<forall>p\<in>set ps'. snd p = [])"
      using Cons.IH[OF _ rest] Cons.prems(1) by auto
    have "k' = k + length ps" using begun by (simp add: begun_def)
    then have all: "begun begin_status k pushes (k + length pushes) status"
      using begun_append[OF begun[unfolded True] begun'] by (simp add: pushes add.assoc)
    have "pushes_do gpu pushes (take (?n + n) (ranges_ops tree h pte_maker pg_size (r # rs) offset))"
      using pushes_do_append[OF j(2) n] st True by (simp add: pushes off)
    moreover have "tlb_last tlb_cmds pushes" if "status = NV_OK"
    proof (cases "rs = []")
      case True
      then show ?thesis using st \<open>st = NV_OK\<close> Cons.prems(1)[of r] rest by (simp add: pushes)
    next
      case False
      then show ?thesis using st' that st \<open>st = NV_OK\<close> by (simp add: pushes tlb_last_append)
    qed
    moreover have "\<forall>p\<in>set pushes. snd p = []" if "status \<noteq> NV_OK"
    proof -
      have "rs \<noteq> []" using rest that by auto
      then show ?thesis using st' that st \<open>st = NV_OK\<close> by (auto simp: pushes)
    qed
    ultimately show ?thesis using st' all by (intro exI[of _ "?n + n"]) (simp add: off split: if_splits)
  next
    case False
    then have "pushes = ps" "status = st" using Cons.prems(2) one by (auto split: prod.splits)
    moreover have "k' = k + length ps" using begun by (simp add: begun_def)
    moreover have "take j (ranges_ops tree h pte_maker pg_size (r # rs) offset) = ?ops j"
      using j(1) entry_ops_add[of pte_maker pg_size ?size j "?n - j" ?a offset] by simp
    ultimately show ?thesis using j(2) st False begun by (intro exI[of _ j]) simp
  qed
qed (auto simp: tlb_last_def begun_def)

end

text \<open>The place of the PTE of an address: the entry of the table that a walk finds.\<close>

definition pte_address :: "'d page_tree \<Rightarrow> 'd dir_heap \<Rightarrow> NvU32 \<Rightarrow> NvU64 \<Rightarrow> gpu_phys_address" where
  "pte_address tree h pg_size va =
     phys_add (alloc_addr (dir_alloc (the (h (the (find_table (Suc MAX_OPERATION_DEPTH) (pt_hal tree) pg_size va h (pt_root tree)))))))
       (va_index (pt_hal tree) pg_size (page_table_depth (pt_hal tree) pg_size) va * uvm_mmu_pte_size tree pg_size)"

definition page_op :: "'d page_tree \<Rightarrow> 'd dir_heap \<Rightarrow> (NvU64 \<Rightarrow> NvU64) \<Rightarrow> 'd range_vec \<Rightarrow> nat \<Rightarrow> pte_op" where
  "page_op tree h pte_maker v p =
     (let offset = of_nat p * ucast (vec_page_size v)
      in Write_Pte (pte_address tree h (vec_page_size v) (vec_start v + offset)) (pte_maker offset) (uvm_mmu_pte_size tree (vec_page_size v)))"

lemma pages_of_entry:
  assumes geo: "page_geometry (pt_hal tree)" and inv: "tree_ok tree T held h" and pg: "supported_page_size (pt_hal tree) pg_size"
    and p: "pages_of tree h pg_size a z r" and j: "j < range_entry_count r" and z: "z < 2 ^ 64" and dvd: "unat pg_size dvd a"
    and one: "a div 2 ^ K = (z - 1) div 2 ^ K" and K: "K = table_shift (pt_hal tree) pg_size (page_table_depth (pt_hal tree) pg_size)"
  shows "pte_address tree h pg_size (of_nat (a + j * unat pg_size)) =
    phys_add (uvm_page_table_range_entry_address tree h r 0) (j * uvm_mmu_pte_size tree pg_size)"
proof -
  let ?p = "unat pg_size" and ?D = "page_table_depth (pt_hal tree) pg_size" and ?x = "a + j * unat pg_size"
  let ?b = "2 ^ index_bits (pt_hal tree) ?D pg_size"
  have P: "range_pg_size r = pg_size" "range_start_index r = a div ?p mod ?b" "range_entry_count r = (z - a) div ?p"
    "range_start_index r + range_entry_count r \<le> ?b"
    "find_table (Suc MAX_OPERATION_DEPTH) (pt_hal tree) pg_size (of_nat a) h (pt_root tree) = Some (range_table r)"
    using p unfolding pages_of_def Let_def by blast+
  have shift: "?p = 2 ^ table_shift (pt_hal tree) pg_size (Suc ?D)" using page_geometry.page_shift[OF geo pg] by simp
  then have p0: "0 < ?p" by simp
  have "Suc j * ?p \<le> (z - a) div ?p * ?p" using j P(3) by (intro mult_le_mono1) simp
  also have "\<dots> \<le> z - a" by simp
  finally have lt: "?x < z" using p0 by (simp add: algebra_simps)
  have "a div 2 ^ K \<le> ?x div 2 ^ K" "?x div 2 ^ K \<le> (z - 1) div 2 ^ K" using lt by (simp_all add: div_le_mono)
  then have same: "a div 2 ^ K = ?x div 2 ^ K" using one by simp
  have u: "unat (of_nat a :: NvU64) = a" "unat (of_nat ?x :: NvU64) = ?x" using lt z by (simp_all only: unat_of_nat) simp_all
  have find: "find_table (Suc MAX_OPERATION_DEPTH) (pt_hal tree) pg_size (of_nat ?x) h (pt_root tree) = Some (range_table r)"
    using P(5) find_table_va[OF inv refl _ K tree_invD(3)[OF inv], of "of_nat a" "of_nat ?x"] same u tree_invD(5)[OF inv]
    by (simp only: simp_thms le0)
  have "?x div ?p = a div ?p + j" using p0 dvd by (auto elim!: dvdE)
  moreover have "a div ?p mod ?b + j < ?b" using P(2,4) j by simp
  ultimately have "?x div ?p mod ?b = range_start_index r + j" unfolding P(2) by (metis mod_add_left_eq mod_less)
  then have "va_index (pt_hal tree) pg_size ?D (of_nat ?x) = range_start_index r + j"
    by (simp only: va_index_def entry_index_nat u shift[symmetric])
  then show ?thesis unfolding pte_address_def find by (simp add: uvm_page_table_range_entry_address_def P(1) algebra_simps)
qed

lemma part_ops:
  assumes geo: "page_geometry (pt_hal tree)" and holds: "vec_holds tree v h" and inv: "tree_ok tree T held h"
    and C: "C = 2 ^ vec_shift tree v" and i: "i < range_vec_calc_range_count tree v" and r: "r = vec_ranges v ! i"
    and A: "A = (part_start C v i - unat (vec_start v)) div unat (vec_page_size v)"
  shows "entry_ops pte_maker (vec_page_size v) (uvm_mmu_pte_size tree (vec_page_size v)) (range_entry_count r)
      (uvm_page_table_range_entry_address tree h r 0) (of_nat (part_start C v i - unat (vec_start v))) =
    map (page_op tree h pte_maker v) [A..<A + range_entry_count r]"
proof (rule nth_equalityI)
  fix j assume "j < length (entry_ops pte_maker (vec_page_size v) (uvm_mmu_pte_size tree (vec_page_size v)) (range_entry_count r)
      (uvm_page_table_range_entry_address tree h r 0) (of_nat (part_start C v i - unat (vec_start v))))"
  then have j: "j < range_entry_count r" by simp
  let ?p = "unat (vec_page_size v)" and ?S = "unat (vec_start v)" and ?a = "part_start C v i"
  have ok: "vec_ok tree v" and pg: "supported_page_size (pt_hal tree) (vec_page_size v)" using holds by (simp_all add: vec_holds_def vec_ok_def)
  note F = part_facts[OF geo ok C refl i]
  have a: "?p dvd ?a" using part_request(2)[OF geo ok i] unat_range_start[OF geo ok C i] by auto
  have s: "?p dvd ?S" using ok by (auto simp: vec_ok_def)
  have e: "?a - ?S = A * ?p" using dvd_diff_nat[OF a s] by (simp add: A)
  have word: "of_nat (n * ?p) = (of_nat n * ucast (vec_page_size v) :: NvU64)" for n by simp
  have off: "of_nat (?a - ?S) + of_nat j * ucast (vec_page_size v) = (of_nat (A + j) * ucast (vec_page_size v) :: NvU64)"
    unfolding e word by (simp add: algebra_simps)
  have "?a = ?S + A * ?p" using e by (metis le_add_diff_inverse max.cobounded1)
  then have va: "of_nat (?a + j * ?p) = vec_start v + of_nat (A + j) * ucast (vec_page_size v)"
    by (simp add: algebra_simps)
  have z: "part_end C v i < 2 ^ 64" using vec_geometry(4)[OF geo ok] by simp
  have one: "?a div 2 ^ vec_shift tree v = (part_end C v i - 1) div 2 ^ vec_shift tree v" using F(3,4) by (simp add: C)
  have "pages_of tree h (vec_page_size v) ?a (part_end C v i) r" using vec_holdsD[OF geo holds C i] by (simp add: r)
  from pages_of_entry[OF geo inv pg this j z a one refl]
  show "entry_ops pte_maker (vec_page_size v) (uvm_mmu_pte_size tree (vec_page_size v)) (range_entry_count r)
      (uvm_page_table_range_entry_address tree h r 0) (of_nat (?a - ?S)) ! j = map (page_op tree h pte_maker v) [A..<A + range_entry_count r] ! j"
    using j unfolding va by (simp only: entry_ops_def page_op_def Let_def nth_map_upt off diff_zero add_0 add_diff_cancel_left')
qed simp

text \<open>The PTE writes of the ranges of a vector are those of its pages, one by one.\<close>

lemma vec_ops:
  assumes geo: "page_geometry (pt_hal tree)" and holds: "vec_holds tree v h" and inv: "tree_ok tree T held h"
  shows "ranges_ops tree h pte_maker (vec_page_size v) (vec_ranges v) 0 =
    map (page_op tree h pte_maker v) [0..<unat (vec_size v) div unat (vec_page_size v)]"
proof -
  define C :: nat where "C = 2 ^ vec_shift tree v"
  let ?n = "range_vec_calc_range_count tree v" and ?p = "unat (vec_page_size v)" and ?S = "unat (vec_start v)" and ?rs = "vec_ranges v"
  define b where "b i = (if i = ?n then vec_end v else part_start C v i)" for i
  have ok: "vec_ok tree v" and len: "length ?rs = ?n" using holds by (simp_all add: vec_holds_def)
  have ops: "ranges_ops tree h pte_maker (vec_page_size v) (drop i ?rs) (of_nat (b i - ?S)) =
      map (page_op tree h pte_maker v) [(b i - ?S) div ?p..<unat (vec_size v) div ?p]" if "i \<le> ?n" for i
    using that
  proof (induction "?n - i" arbitrary: i)
    case 0
    then show ?case using len by (simp add: b_def)
  next
    case (Suc m)
    then have i: "i < ?n" by simp
    let ?r = "?rs ! i" and ?A = "(b i - ?S) div ?p"
    have bi: "b i = part_start C v i" using i by (simp add: b_def)
    have next_b: "b (Suc i) = part_end C v i" using part_facts(2)[OF geo ok C_def refl i] by (simp add: b_def)
    have lt: "?S \<le> b i" "b i < b (Suc i)" "b (Suc i) \<le> vec_end v" using part_facts(1)[OF geo ok C_def refl i] next_b bi by simp_all
    have cnt: "range_entry_count ?r = (b (Suc i) - b i) div ?p"
      using vec_holdsD[OF geo holds C_def i] by (simp add: pages_of_def Let_def next_b bi)
    have "?p dvd b i" "?p dvd b (Suc i) - b i" "?p dvd ?S"
      using part_request(2,3)[OF geo ok i] unat_range_start[OF geo ok C_def i] unat_range_end(2)[OF geo ok C_def i] ok by (auto simp: bi next_b vec_ok_def)
    then obtain x y z where xyz: "b i = ?p * x" "b (Suc i) - b i = ?p * y" "?S = ?p * z" unfolding dvd_def by blast
    have p0: "0 < ?p" using lt(2) xyz(2) by (metis gr0I mult_is_0 zero_less_diff less_numeral_extra(3))
    have "range_entry_count ?r * ?p = b (Suc i) - b i" using xyz(2) p0 cnt by simp
    then have suc: "b (Suc i) - ?S = (b i - ?S) + range_entry_count ?r * ?p" using lt by linarith
    have dvd: "?p dvd b i - ?S" using xyz by (simp flip: diff_mult_distrib2)
    have A: "(b (Suc i) - ?S) div ?p = ?A + range_entry_count ?r" unfolding suc using p0 by simp
    have le: "?A + range_entry_count ?r \<le> unat (vec_size v) div ?p" unfolding A[symmetric] using lt by (intro div_le_mono) simp
    have off: "of_nat (b i - ?S) + of_nat (range_entry_count ?r) * ucast (vec_page_size v) = (of_nat (b (Suc i) - ?S) :: NvU64)"
      unfolding suc by simp
    have "drop i ?rs = ?r # drop (Suc i) ?rs" using i len by (simp add: Cons_nth_drop_Suc)
    moreover note part_ops[OF geo holds inv C_def i refl refl, of pte_maker, folded bi]
    moreover have "ranges_ops tree h pte_maker (vec_page_size v) (drop (Suc i) ?rs) (of_nat (b (Suc i) - ?S)) =
        map (page_op tree h pte_maker v) [(b (Suc i) - ?S) div ?p..<unat (vec_size v) div ?p]"
      by (rule Suc.hyps(1)) (use Suc.hyps(2) i in simp_all)
    moreover have "[?A..<unat (vec_size v) div ?p] = [?A..<?A + range_entry_count ?r] @ [?A + range_entry_count ?r..<unat (vec_size v) div ?p]"
      using upt_add_eq_append[of ?A "?A + range_entry_count ?r" "unat (vec_size v) div ?p - (?A + range_entry_count ?r)"] le by simp
    ultimately show ?case by (simp only: ranges_ops.simps off A map_append)
  qed
  have "b 0 = ?S" using part_bounds(1)[OF _ vec_size_pos[OF ok] vec_count[OF geo ok C_def]] by (simp add: b_def C_def)
  then show ?thesis using ops[of 0] by simp
qed

lemma vec_nonempty: "page_geometry (pt_hal tree) \<Longrightarrow> vec_holds tree v h \<Longrightarrow> vec_ranges v \<noteq> []"
  using part_bounds(1)[OF _ vec_size_pos vec_count[OF _ _ refl], of tree v] by (fastforce simp: vec_holds_def)

lemma vec_counts:
  assumes geo: "page_geometry (pt_hal tree)" and holds: "vec_holds tree v h" and r: "r \<in> set (vec_ranges v)"
  shows "0 < range_entry_count r"
proof -
  have ok: "vec_ok tree v" and len: "length (vec_ranges v) = range_vec_calc_range_count tree v" using holds by (simp_all add: vec_holds_def)
  obtain i where i: "i < range_vec_calc_range_count tree v" "r = vec_ranges v ! i" using r len by (metis in_set_conv_nth)
  note E = unat_range_end(2)[OF geo ok refl i(1)]
  have "0 < unat (range_vec_calc_range_size tree v i)" unfolding E using part_facts(1)[OF geo ok refl refl i(1)] by simp
  then have "unat (vec_page_size v) \<le> unat (range_vec_calc_range_size tree v i)" "0 < unat (vec_page_size v)"
    using part_request(3)[OF geo ok i(1)] by (auto intro: dvd_imp_le gr0I)
  then show ?thesis using holds i by (simp add: vec_holds_def part_pages_def Let_def div_greater_zero_iff)
qed

lemma pte_size_ok: "gpu_mmu_hal (pt_hal tree) \<Longrightarrow> uvm_mmu_pte_size tree pg_size \<in> {8, 16}"
  by (auto simp: gpu_mmu_hal_def uvm_mmu_pte_size_def hal_defs entry_size_pascal_def entry_size_hopper_def entries_per_index_hopper_def split: if_splits)

lemma single_invalidate_ne: "uvm_tlb_batch_single_invalidate tlb r m \<noteq> []"
proof -
  have "batch_count (uvm_tlb_batch_invalidate r UVM_MEMBAR_NONE (uvm_tlb_batch_begin tlb)) \<noteq> 0"
    by (simp add: uvm_tlb_batch_invalidate_def Let_def)
  then show ?thesis
    by (simp add: uvm_tlb_batch_single_invalidate_def uvm_tlb_batch_end_def tlb_batch_flush_invalidate_all_def tlb_batch_flush_invalidate_per_va_def Let_def)
qed

text \<open>C6. \<^verbatim>\<open>uvm_page_table_range_vec_write_ptes_gpu\<close>: the pushes write, for every page of the vector in order, what the callback makes for its offset to the entry that a walk of the page tree finds for its address, however many
  ranges and pushes that takes; each push ends with a membar, and the TLB invalidate of the whole vector is in the last push and no other. No push is made that could not be begun. When the next push
  that is needed cannot be begun, the PTEs written are those of the first pages of the vector, without the last one, nothing is invalidated, and the error of that push is returned; otherwise all pages are written and the
  status is that of waiting for the pushes.
\<close>

theorem uvm_page_table_range_vec_write_ptes_gpu_correct:
  assumes hal: "gpu_mmu_hal (pt_hal tree)" and ce: "ce \<in> {maxwell_ce_hal, volta_ce_hal, hopper_ce_hal gpu}"
    and holds: "vec_holds tree v h" and inv: "tree_ok tree T held h"
    and run: "uvm_page_table_range_vec_write_ptes_gpu tree tlb gpu ce tlb_membar pte_maker begin_status tracker_status v h = (status, pushes)"
    and pages: "n = unat (vec_size v) div unat (vec_page_size v)"
  shows "\<exists>k\<le>n. pushes_do gpu pushes (map (page_op tree h pte_maker v) [0..<k]) \<and> (\<forall>i<length pushes. begin_status i = NV_OK) \<and>
    (if k = n
     then status = tracker_status \<and> tlb_last (uvm_tlb_batch_single_invalidate tlb
         \<lparr>range_start = vec_start v, range_size = vec_size v, range_page_sizes = vec_page_size v\<rparr> tlb_membar) pushes
     else begin_status (length pushes) \<noteq> NV_OK \<and> status = begin_status (length pushes) \<and> (\<forall>p\<in>set pushes. snd p = []))"
proof -
  have geo: "page_geometry (pt_hal tree)" by (rule gpu_mmu_hal_geometry[OF hal])
  define cmds where "cmds = uvm_tlb_batch_single_invalidate tlb
         \<lparr>range_start = vec_start v, range_size = vec_size v, range_page_sizes = vec_page_size v\<rparr> tlb_membar"
  let ?ops = "ranges_ops tree h pte_maker (vec_page_size v) (vec_ranges v) 0"
  have ops: "?ops = map (page_op tree h pte_maker v) [0..<n]" using vec_ops[OF geo holds inv] pages by simp
  obtain st where w: "write_ranges_gpu tree h gpu ce pte_maker (vec_page_size v) cmds begin_status (vec_ranges v) 0 0 = (st, pushes)"
    and status: "status = (if st = NV_OK then tracker_status else st)"
    using run by (auto simp: uvm_page_table_range_vec_write_ptes_gpu_def cmds_def split: prod.splits)
  have "copy_engine gpu ce" using ce maxwell_ce.copy_engine_axioms volta_ce.copy_engine_axioms hopper_ce.copy_engine_axioms by blast
  from copy_engine.write_ranges_correct[OF this pte_size_ok[OF hal] vec_counts[OF geo holds] w]
  obtain k where k: "pushes_do gpu pushes (take k ?ops)" and begun: "begun begin_status 0 pushes (length pushes) st"
    and st: "if st = NV_OK then k \<ge> length ?ops \<and> (vec_ranges v \<noteq> [] \<longrightarrow> tlb_last cmds pushes)
     else k < length ?ops \<and> (\<forall>p\<in>set pushes. snd p = [])" by auto
  have take: "take k ?ops = map (page_op tree h pte_maker v) [0..<min k n]" by (simp add: ops take_map take_upt min_def)
  show ?thesis using k begun st status vec_nonempty[OF geo holds] unfolding take cmds_def[symmetric]
    by (intro exI[of _ "min k n"]) (auto simp: ops begun_def)
qed

text \<open>
  With the CPU, \<^verbatim>\<open>uvm_page_table_range_vec_write_ptes_cpu\<close> stops at the entry with the number \<^verbatim>\<open>entry_count\<close> instead of after that many entries: of a range whose
  \<^verbatim>\<open>start_index\<close> is not 0 only the PTEs before that entry are written, and the offset advances by as few pages.
\<close>

lemma write_range_cpu_offset:
  "fst (write_range_cpu tree h pg_size pte_maker r (offset, m)) =
     offset + of_nat (range_entry_count r - range_start_index r) * ucast pg_size"
proof -
  have "fst (fold (\<lambda>entry (offset, m). (offset + ucast pg_size, f entry offset m)) es (offset, m)) = offset + of_nat (length es) * ucast pg_size"
    for es :: "nat list" and f :: "nat \<Rightarrow> NvU64 \<Rightarrow> phys_mem \<Rightarrow> phys_mem" and m
    by (induction es arbitrary: offset m) (simp_all add: algebra_simps)
  then show ?thesis by (simp add: write_range_cpu_def)
qed

lemma write_ptes_cpu_skips_entries:
  assumes "\<And>r. r \<in> set (vec_ranges v) \<Longrightarrow> range_entry_count r \<le> range_start_index r"
  shows "uvm_page_table_range_vec_write_ptes_cpu tree tlb tlb_membar pte_maker NV_OK NV_OK v h m =
    (NV_OK, uvm_tlb_batch_single_invalidate tlb \<lparr>range_start = vec_start v, range_size = vec_size v, range_page_sizes = vec_page_size v\<rparr> tlb_membar, m)"
proof -
  have "fold (write_range_cpu tree h (vec_page_size v) pte_maker) rs s = s" if "set rs \<subseteq> set (vec_ranges v)" for rs and s :: "NvU64 \<times> phys_mem"
    using that by (induction rs) (use assms in \<open>auto simp: write_range_cpu_def\<close>)
  then show ?thesis by (simp add: uvm_page_table_range_vec_write_ptes_cpu_def)
qed

section \<open>Example\<close>

theorem uvm_page_table_range_vec_write_ptes_gpu_correct_witness:
  "\<exists>v h status pushes k. vec_size v = 0x2000 \<and>
     uvm_page_table_range_vec_write_ptes_gpu tree0 sample_tlb_tree sample_config volta_ce_hal UVM_MEMBAR_SYS (\<lambda>offset. offset) (\<lambda>_. NV_OK) NV_OK v h = (status, pushes) \<and>
     status = NV_OK \<and> pushes_do sample_config pushes (map (page_op tree0 h (\<lambda>offset. offset) v) [0..<k]) \<and> k = 2"
proof (rule vec0_created)
  fix v :: "nat range_vec" and h T
  assume v: "vec_holds tree0 v h" "tree_ok tree0 T (mset (vec_ranges v)) h" "vec_start v = 0x1ff000" "vec_size v = 0x2000" "vec_page_size v = UVM_PAGE_SIZE_4K"
  obtain status pushes where run: "uvm_page_table_range_vec_write_ptes_gpu tree0 sample_tlb_tree sample_config volta_ce_hal UVM_MEMBAR_SYS (\<lambda>offset. offset) (\<lambda>_. NV_OK) NV_OK v h = (status, pushes)"
    by (metis surj_pair)
  have n: "(2::nat) = unat (vec_size v) div unat (vec_page_size v)" using v by (simp add: pg_sizes)
  have ce: "volta_ce_hal \<in> {maxwell_ce_hal, volta_ce_hal, hopper_ce_hal sample_config}" by simp
  from uvm_page_table_range_vec_write_ptes_gpu_correct[OF tree0_ok(1) ce v(1,2) run n] show ?thesis
    using run v(4) by (auto split: if_splits)
qed

end
