(* ===== verification/Pmm_Gpu.thy ===== *)
theory Pmm_Gpu
  imports Uvm_Prelude
begin

text \<open>
  The manager of the physical memory of a GPU, \<^verbatim>\<open>uvm_pmm_gpu.c/.h\<close>. Memory is handed out in chunks. A root chunk is 2 MB and belongs to the physical memory
  allocator of the resource manager until it is taken from it; a chunk can be split into subchunks of the next smaller size, down to the size that is asked for, and is merged
  again when the last of them is freed. Chunks are addresses in a store with the fields of \<^verbatim>\<open>uvm_gpu_chunk_t\<close>, and the lists of the kernel are lists of addresses.

  The outcome of an allocation of kernel memory, of the physical memory allocator and of a tracker is an argument. Calls run one after the other: what the locks let another
  thread do between the critical sections of a call is not modelled. Eviction is not modelled: allocations are those without
  \<^verbatim>\<open>UVM_PMM_ALLOC_FLAGS_EVICT\<close>, and \<open>in_eviction\<close> is only read.
\<close>

unbundle bit_operations_syntax

section \<open>Chunk sizes\<close>

text \<open>
  A chunk size is a power of two. It is represented by its logarithm, as in the chunk structure (\<^verbatim>\<open>log2_size\<close>), and a mask of sizes by the number whose bit
  \<open>k\<close> says that \<open>2\<^sup>k\<close> is one of them. \<^verbatim>\<open>UVM_CHUNK_SIZE_INVALID\<close> is the logarithm after the biggest one.
\<close>

definition UVM_CHUNK_SIZE_MAX :: nat where "UVM_CHUNK_SIZE_MAX = 21"
definition UVM_CHUNK_SIZE_INVALID :: nat where "UVM_CHUNK_SIZE_INVALID = Suc UVM_CHUNK_SIZE_MAX"

definition uvm_chunk_find_next_size :: "nat \<Rightarrow> nat \<Rightarrow> nat" where
  "uvm_chunk_find_next_size chunk_sizes k =
     (case find (bit chunk_sizes) [Suc k..<UVM_CHUNK_SIZE_INVALID] of None \<Rightarrow> UVM_CHUNK_SIZE_INVALID | Some j \<Rightarrow> j)"

definition uvm_chunk_find_prev_size :: "nat \<Rightarrow> nat \<Rightarrow> nat" where
  "uvm_chunk_find_prev_size chunk_sizes k = (case find (bit chunk_sizes) (rev [0..<k]) of None \<Rightarrow> UVM_CHUNK_SIZE_INVALID | Some j \<Rightarrow> j)"

section \<open>Data\<close>

datatype chunk_state = CHUNK_STATE_PMA_OWNED | CHUNK_STATE_FREE | CHUNK_STATE_IS_SPLIT | CHUNK_STATE_TEMP_PINNED | CHUNK_STATE_ALLOCATED

datatype memory_type = MEMORY_TYPE_USER | MEMORY_TYPE_USER_UNPROTECTED | MEMORY_TYPE_KERNEL | MEMORY_TYPE_KERNEL_UNPROTECTED

text \<open>Chunks are at addresses of the type \<open>'p\<close>, VA blocks at addresses of the type \<open>'v\<close>.\<close>

record 'p suballoc =
  sub_allocated :: nat
  pinned_leaf_chunks :: nat
  subchunks :: "'p list"

record ('p, 'v) gpu_chunk =
  chunk_address :: nat
  chunk_type :: memory_type
  in_eviction :: bool
  inject_split_error :: bool
  is_zero :: bool
  is_referenced :: bool
  chunk_state :: chunk_state
  log2_size :: nat
  va_block_page_index :: nat
  va_block :: "'v option"
  chunk_parent :: "'p option"
  chunk_suballoc :: "'p suballoc option"

text \<open>The lists a chunk can be on: the free list of a type, an index and whether the chunk is zero, and the lists of root chunks for eviction.\<close>

datatype chunk_list = Free_List memory_type nat bool | Va_Block_Used | Va_Block_Unused

record ('p, 'v) pmm =
  gpu_chunks :: "'p \<Rightarrow> ('p, 'v) gpu_chunk option"
  root_chunks :: "'p list"
  chunk_lists :: "chunk_list \<Rightarrow> 'p list"
  chunk_sizes :: "memory_type \<Rightarrow> nat"

definition get_chunk :: "('p, 'v) pmm \<Rightarrow> 'p \<Rightarrow> ('p, 'v) gpu_chunk" where "get_chunk P p = the (gpu_chunks P p)"

definition upd_chunk :: "'p \<Rightarrow> (('p, 'v) gpu_chunk \<Rightarrow> ('p, 'v) gpu_chunk) \<Rightarrow> ('p, 'v) pmm \<Rightarrow> ('p, 'v) pmm" where
  "upd_chunk p f P = P\<lparr>gpu_chunks := (gpu_chunks P)(p := map_option f (gpu_chunks P p))\<rparr>"

definition upd_suballoc :: "'p \<Rightarrow> ('p suballoc \<Rightarrow> 'p suballoc) \<Rightarrow> ('p, 'v) pmm \<Rightarrow> ('p, 'v) pmm" where
  "upd_suballoc p f = upd_chunk p (\<lambda>c. c\<lparr>chunk_suballoc := map_option f (chunk_suballoc c)\<rparr>)"

definition get_suballoc :: "('p, 'v) pmm \<Rightarrow> 'p \<Rightarrow> 'p suballoc" where "get_suballoc P p = the (chunk_suballoc (get_chunk P p))"

section \<open>Helpers\<close>

definition root_chunk_from_chunk :: "('p, 'v) pmm \<Rightarrow> 'p \<Rightarrow> 'p" where
  "root_chunk_from_chunk P p = root_chunks P ! (chunk_address (get_chunk P p) div 2 ^ UVM_CHUNK_SIZE_MAX)"

definition chunk_is_root_chunk :: "('p, 'v) pmm \<Rightarrow> 'p \<Rightarrow> bool" where
  "chunk_is_root_chunk P p \<longleftrightarrow> log2_size (get_chunk P p) = UVM_CHUNK_SIZE_MAX"

definition chunk_is_root_chunk_pinned :: "('p, 'v) pmm \<Rightarrow> 'p \<Rightarrow> bool" where
  "chunk_is_root_chunk_pinned P p =
     (let r = root_chunk_from_chunk P p
      in if chunk_state (get_chunk P r) = CHUNK_STATE_TEMP_PINNED then True
         else if chunk_state (get_chunk P r) \<noteq> CHUNK_STATE_IS_SPLIT then False
         else 0 < pinned_leaf_chunks (get_suballoc P r))"

definition chunk_pin :: "'p \<Rightarrow> ('p, 'v) pmm \<Rightarrow> ('p, 'v) pmm" where
  "chunk_pin p P =
     (let r = root_chunk_from_chunk P p;
          P = upd_chunk p (\<lambda>c. c\<lparr>chunk_state := CHUNK_STATE_TEMP_PINNED\<rparr>) P
      in if chunk_is_root_chunk P p then P
         else upd_suballoc r (\<lambda>a. a\<lparr>pinned_leaf_chunks := pinned_leaf_chunks a + 1\<rparr>) P)"

definition chunk_unpin :: "'p \<Rightarrow> chunk_state \<Rightarrow> ('p, 'v) pmm \<Rightarrow> ('p, 'v) pmm" where
  "chunk_unpin p new_state P =
     (let r = root_chunk_from_chunk P p;
          P = upd_chunk p (\<lambda>c. c\<lparr>chunk_state := new_state\<rparr>) P
      in if chunk_is_root_chunk P p then P
         else upd_suballoc r (\<lambda>a. a\<lparr>pinned_leaf_chunks := pinned_leaf_chunks a - 1\<rparr>) P)"

definition uvm_pmm_gpu_memory_type_is_user :: "memory_type \<Rightarrow> bool" where
  "uvm_pmm_gpu_memory_type_is_user type \<longleftrightarrow> type \<in> {MEMORY_TYPE_USER, MEMORY_TYPE_USER_UNPROTECTED}"

definition chunk_is_in_eviction :: "('p, 'v) pmm \<Rightarrow> 'p \<Rightarrow> bool" where
  "chunk_is_in_eviction P p \<longleftrightarrow> in_eviction (get_chunk P (root_chunk_from_chunk P p))"

definition pmm_squash_memory_type :: "bool \<Rightarrow> memory_type \<Rightarrow> memory_type" where
  "pmm_squash_memory_type conf_computing type =
     (if conf_computing then type else if uvm_pmm_gpu_memory_type_is_user type then MEMORY_TYPE_USER else MEMORY_TYPE_KERNEL)"

text \<open>The list operations of the kernel: a node is on at most one list.\<close>

definition list_del_init :: "'p \<Rightarrow> ('p, 'v) pmm \<Rightarrow> ('p, 'v) pmm" where
  "list_del_init p P = P\<lparr>chunk_lists := (\<lambda>l. filter (\<lambda>q. q \<noteq> p) (chunk_lists P l))\<rparr>"

definition list_move_tail :: "'p \<Rightarrow> chunk_list \<Rightarrow> ('p, 'v) pmm \<Rightarrow> ('p, 'v) pmm" where
  "list_move_tail p l P = (let P = list_del_init p P in P\<lparr>chunk_lists := (chunk_lists P)(l := chunk_lists P l @ [p])\<rparr>)"

text \<open>\<^verbatim>\<open>hweight_long\<close> of the sizes of the mask below \<open>2\<^sup>k\<close> is the index of the list.\<close>

definition find_free_list :: "('p, 'v) pmm \<Rightarrow> memory_type \<Rightarrow> nat \<Rightarrow> bool \<Rightarrow> chunk_list" where
  "find_free_list P type k zero = Free_List type (length (filter (bit (chunk_sizes P type)) [0..<k])) zero"

definition find_free_list_chunk :: "('p, 'v) pmm \<Rightarrow> 'p \<Rightarrow> chunk_list" where
  "find_free_list_chunk P p = (let c = get_chunk P p in find_free_list P (chunk_type c) (log2_size c) (is_zero c))"

definition chunk_update_lists_locked :: "'p \<Rightarrow> ('p, 'v) pmm \<Rightarrow> ('p, 'v) pmm" where
  "chunk_update_lists_locked p P =
     (let r = root_chunk_from_chunk P p;
          P = (if uvm_pmm_gpu_memory_type_is_user (chunk_type (get_chunk P p))
               then if chunk_is_root_chunk_pinned P p then list_del_init r P
                    else if chunk_state (get_chunk P r) \<noteq> CHUNK_STATE_FREE then list_move_tail r Va_Block_Used P
                    else P
               else P)
      in if chunk_state (get_chunk P p) = CHUNK_STATE_FREE then list_move_tail p (find_free_list_chunk P p) P
         else if chunk_state (get_chunk P p) = CHUNK_STATE_TEMP_PINNED then list_del_init p P
         else P)"

text \<open>A pinned chunk is on no list, so that initializing its list node changes no list.\<close>

definition gpu_unpin_temp :: "'p \<Rightarrow> 'v \<Rightarrow> bool \<Rightarrow> ('p, 'v) pmm \<Rightarrow> ('p, 'v) pmm" where
  "gpu_unpin_temp p block referenced P =
     (let P = chunk_unpin p CHUNK_STATE_ALLOCATED P;
          P = upd_chunk p (\<lambda>c. c\<lparr>is_referenced := referenced, va_block := Some block\<rparr>) P
      in chunk_update_lists_locked p P)"

definition uvm_pmm_gpu_unpin_allocated :: "'p \<Rightarrow> 'v \<Rightarrow> ('p, 'v) pmm \<Rightarrow> ('p, 'v) pmm" where
  "uvm_pmm_gpu_unpin_allocated p block P = gpu_unpin_temp p block False P"

definition uvm_pmm_gpu_unpin_referenced :: "'p \<Rightarrow> 'v \<Rightarrow> ('p, 'v) pmm \<Rightarrow> ('p, 'v) pmm" where
  "uvm_pmm_gpu_unpin_referenced p block P = gpu_unpin_temp p block True P"

definition root_chunk_update_eviction_list :: "'p \<Rightarrow> chunk_list \<Rightarrow> ('p, 'v) pmm \<Rightarrow> ('p, 'v) pmm" where
  "root_chunk_update_eviction_list p l P =
     (if \<not> chunk_is_root_chunk_pinned P p \<and> \<not> chunk_is_in_eviction P p then list_move_tail p l P else P)"

definition uvm_pmm_gpu_mark_root_chunk_used :: "'p \<Rightarrow> ('p, 'v) pmm \<Rightarrow> ('p, 'v) pmm" where
  "uvm_pmm_gpu_mark_root_chunk_used p = root_chunk_update_eviction_list p Va_Block_Used"

definition uvm_pmm_gpu_mark_root_chunk_unused :: "'p \<Rightarrow> ('p, 'v) pmm \<Rightarrow> ('p, 'v) pmm" where
  "uvm_pmm_gpu_mark_root_chunk_unused p = root_chunk_update_eviction_list p Va_Block_Unused"

section \<open>Splitting and merging\<close>

definition num_subchunks :: "('p, 'v) pmm \<Rightarrow> 'p \<Rightarrow> nat" where
  "num_subchunks P p = 2 ^ log2_size (get_chunk P p) div 2 ^ log2_size (get_chunk P (subchunks (get_suballoc P p) ! 0))"

definition merge_gpu_chunk :: "'p \<Rightarrow> ('p, 'v) pmm \<Rightarrow> ('p, 'v) pmm" where
  "merge_gpu_chunk p P =
     (let r = root_chunk_from_chunk P p;
          num_sub = num_subchunks P p;
          subs = subchunks (get_suballoc P p);
          child = get_chunk P (subs ! 0);
          P = (if chunk_state child = CHUNK_STATE_ALLOCATED
               then upd_chunk p (\<lambda>c. c\<lparr>va_block := va_block child, va_block_page_index := va_block_page_index child, is_referenced := is_referenced child\<rparr>) P
               else if chunk_state child = CHUNK_STATE_TEMP_PINNED
               then upd_suballoc r (\<lambda>a. a\<lparr>pinned_leaf_chunks := pinned_leaf_chunks a + 1 - num_sub\<rparr>) P
               else P);
          P = upd_chunk p (\<lambda>c. c\<lparr>chunk_state := chunk_state child, chunk_suballoc := None, is_zero := False\<rparr>) P
      in P\<lparr>gpu_chunks := (\<lambda>q. if q \<in> set (take num_sub subs) then None else gpu_chunks P q)\<rparr>)"

text \<open>
  The memory for a split: \<open>None\<close> when the array or one of the subchunks cannot be allocated, which undoes the others, and otherwise the address of each subchunk.
\<close>

definition new_subchunk :: "('p, 'v) gpu_chunk \<Rightarrow> 'p \<Rightarrow> nat \<Rightarrow> nat \<Rightarrow> ('p, 'v) gpu_chunk" where
  "new_subchunk c p k i = \<lparr>chunk_address = chunk_address c + i * 2 ^ k, chunk_type = chunk_type c, in_eviction = False, inject_split_error = False,
     is_zero = is_zero c, is_referenced = (if chunk_state c = CHUNK_STATE_ALLOCATED then is_referenced c else False), chunk_state = chunk_state c, log2_size = k,
     va_block_page_index = (if chunk_state c = CHUNK_STATE_ALLOCATED then va_block_page_index c + i * 2 ^ k div PAGE_SIZE else PAGES_PER_UVM_VA_BLOCK),
     va_block = (if chunk_state c = CHUNK_STATE_ALLOCATED then va_block c else None), chunk_parent = Some p, chunk_suballoc = None\<rparr>"

definition split_gpu_chunk :: "(nat \<Rightarrow> 'p) option \<Rightarrow> 'p \<Rightarrow> ('p, 'v) pmm \<Rightarrow> NV_STATUS \<times> ('p, 'v) pmm" where
  "split_gpu_chunk mem p P =
     (let c = get_chunk P p;
          k = uvm_chunk_find_prev_size (chunk_sizes P (chunk_type c)) (log2_size c);
          num_sub = 2 ^ log2_size c div 2 ^ k;
          r = root_chunk_from_chunk P p
      in case mem of
           None \<Rightarrow> (NV_ERR_NO_MEMORY, P)
         | Some new \<Rightarrow>
             if inject_split_error c then (NV_ERR_NO_MEMORY, P)
             else
               let subs = map new [0..<num_sub];
                   P = P\<lparr>gpu_chunks := (\<lambda>q. case find (\<lambda>i. new i = q) [0..<num_sub] of None \<Rightarrow> gpu_chunks P q | Some i \<Rightarrow> Some (new_subchunk c p k i))\<rparr>;
                   P = upd_chunk p (\<lambda>c. c\<lparr>chunk_suballoc := Some \<lparr>sub_allocated = num_sub, pinned_leaf_chunks = 0, subchunks = subs\<rparr>\<rparr>) P;
                   P = (if chunk_state c = CHUNK_STATE_ALLOCATED
                        then upd_chunk p (\<lambda>c. c\<lparr>va_block := None, va_block_page_index := PAGES_PER_UVM_VA_BLOCK, is_referenced := False\<rparr>) P
                        else if chunk_state c = CHUNK_STATE_TEMP_PINNED
                        then upd_suballoc r (\<lambda>a. a\<lparr>pinned_leaf_chunks := pinned_leaf_chunks a + num_sub - 1 + (if chunk_is_root_chunk P p then 1 else 0)\<rparr>) P
                        else P)
               in (NV_OK, upd_chunk p (\<lambda>c. c\<lparr>chunk_state := CHUNK_STATE_IS_SPLIT\<rparr>) P))"

section \<open>Freeing\<close>

definition chunk_is_last_allocated_child :: "('p, 'v) pmm \<Rightarrow> 'p \<Rightarrow> bool" where
  "chunk_is_last_allocated_child P p =
     (case chunk_parent (get_chunk P p) of None \<Rightarrow> False | Some q \<Rightarrow> sub_allocated (get_suballoc P q) = 1)"

definition chunk_free_locked :: "'p \<Rightarrow> ('p, 'v) pmm \<Rightarrow> ('p, 'v) pmm" where
  "chunk_free_locked p P =
     (if chunk_is_in_eviction P p
      then chunk_pin p (upd_chunk p (\<lambda>c. c\<lparr>va_block := None, va_block_page_index := PAGES_PER_UVM_VA_BLOCK, is_zero := False\<rparr>) P)
      else
        let P = (case chunk_parent (get_chunk P p) of None \<Rightarrow> P
                 | Some q \<Rightarrow> upd_suballoc q (\<lambda>a. a\<lparr>sub_allocated := sub_allocated a - 1\<rparr>) P);
            P = (if chunk_state (get_chunk P p) = CHUNK_STATE_TEMP_PINNED then chunk_unpin p CHUNK_STATE_FREE P
                 else upd_chunk p (\<lambda>c. c\<lparr>chunk_state := CHUNK_STATE_FREE, va_block := None\<rparr>) P);
            P = upd_chunk p (\<lambda>c. c\<lparr>va_block_page_index := PAGES_PER_UVM_VA_BLOCK, is_zero := False\<rparr>) P
        in chunk_update_lists_locked p P)"

definition try_chunk_free :: "'p \<Rightarrow> ('p, 'v) pmm \<Rightarrow> bool \<times> ('p, 'v) pmm" where
  "try_chunk_free p P =
     (let P = upd_chunk p (\<lambda>c. c\<lparr>inject_split_error := False\<rparr>) P
      in if \<not> chunk_is_last_allocated_child P p then (True, chunk_free_locked p P) else (False, P))"

text \<open>Pinning the subchunks of a chunk that is about to be merged.\<close>

fun pin_subchunks :: "'p list \<Rightarrow> ('p, 'v) pmm \<Rightarrow> ('p, 'v) pmm" where
  "pin_subchunks [] P = P"
| "pin_subchunks (q # qs) P = pin_subchunks qs (upd_chunk q (\<lambda>c. c\<lparr>chunk_state := CHUNK_STATE_TEMP_PINNED\<rparr>) (list_del_init q P))"

definition free_or_prepare_for_merge :: "'p \<Rightarrow> ('p, 'v) pmm \<Rightarrow> 'p option \<times> ('p, 'v) pmm" where
  "free_or_prepare_for_merge p P =
     (case chunk_parent (get_chunk P p) of
        None \<Rightarrow> (None, snd (try_chunk_free p P))
      | Some q \<Rightarrow>
          let last = chunk_is_last_allocated_child P p;
              P = chunk_free_locked p P
          in if \<not> last then (None, P)
             else
               let P = pin_subchunks (take (num_subchunks P q) (subchunks (get_suballoc P q))) P;
                   P = upd_suballoc (root_chunk_from_chunk P p) (\<lambda>a. a\<lparr>pinned_leaf_chunks := pinned_leaf_chunks a + num_subchunks P q\<rparr>) P
               in (Some q, upd_suballoc q (\<lambda>a. a\<lparr>sub_allocated := num_subchunks P q\<rparr>) P))"

text \<open>The loop runs once for each level of the tree of chunks; \<open>None\<close> stands for a loop that is not over when the fuel is.\<close>

fun free_chunk_with_merges :: "nat \<Rightarrow> 'p \<Rightarrow> ('p, 'v) pmm \<Rightarrow> ('p, 'v) pmm option" where
  "free_chunk_with_merges 0 p P = None"
| "free_chunk_with_merges (Suc fuel) p P =
     (case free_or_prepare_for_merge p P of
        (None, P) \<Rightarrow> Some P
      | (Some q, P) \<Rightarrow> free_chunk_with_merges fuel q (merge_gpu_chunk q P))"

text \<open>
  Giving a root chunk back to the physical memory allocator of the resource manager. Waiting for its tracker and removing the mappings of peers do not change the state
  modelled here.
\<close>

definition free_root_chunk :: "'p \<Rightarrow> ('p, 'v) pmm \<Rightarrow> ('p, 'v) pmm" where
  "free_root_chunk p P = chunk_unpin p CHUNK_STATE_PMA_OWNED P"

definition list_first_chunk :: "'p list \<Rightarrow> 'p option" where "list_first_chunk ps = (case ps of [] \<Rightarrow> None | p # _ \<Rightarrow> Some p)"

definition free_next_available_root_chunk :: "memory_type \<Rightarrow> ('p, 'v) pmm \<Rightarrow> bool \<times> ('p, 'v) pmm" where
  "free_next_available_root_chunk type P =
     (let result = list_first_chunk (chunk_lists P (find_free_list P type UVM_CHUNK_SIZE_MAX False));
          result = (if result = None then list_first_chunk (chunk_lists P (find_free_list P type UVM_CHUNK_SIZE_MAX True)) else result)
      in case result of
           None \<Rightarrow> (False, P)
         | Some p \<Rightarrow> (True, free_root_chunk p (chunk_pin p (list_del_init p P))))"

definition free_chunk :: "'p \<Rightarrow> ('p, 'v) pmm \<Rightarrow> ('p, 'v) pmm option" where
  "free_chunk p P =
     (let is_root = chunk_is_root_chunk P p;
          type = chunk_type (get_chunk P p)
      in case try_chunk_free p P of
           (True, P) \<Rightarrow> Some (if is_root then snd (free_next_available_root_chunk type P) else P)
         | (False, P) \<Rightarrow> map_option (\<lambda>P. snd (free_next_available_root_chunk type P)) (free_chunk_with_merges UVM_CHUNK_SIZE_INVALID p P))"

definition uvm_pmm_gpu_free :: "'p option \<Rightarrow> ('p, 'v) pmm \<Rightarrow> ('p, 'v) pmm option" where
  "uvm_pmm_gpu_free chunk P = (case chunk of None \<Rightarrow> Some P | Some p \<Rightarrow> free_chunk p P)"

text \<open>Returning the free root chunks of a type; the loop runs once for every free root chunk.\<close>

fun release_type :: "nat \<Rightarrow> memory_type \<Rightarrow> ('p, 'v) pmm \<Rightarrow> ('p, 'v) pmm option" where
  "release_type 0 type P = None"
| "release_type (Suc fuel) type P = (case free_next_available_root_chunk type P of (True, P) \<Rightarrow> release_type fuel type P | (False, P) \<Rightarrow> Some P)"

fun release_types :: "nat \<Rightarrow> memory_type list \<Rightarrow> ('p, 'v) pmm \<Rightarrow> ('p, 'v) pmm option" where
  "release_types fuel [] P = Some P"
| "release_types fuel (type # types) P = (case release_type fuel type P of None \<Rightarrow> None | Some P \<Rightarrow> release_types fuel types P)"

definition release_free_root_chunks :: "('p, 'v) pmm \<Rightarrow> ('p, 'v) pmm option" where
  "release_free_root_chunks P =
     release_types (Suc (length (root_chunks P))) [MEMORY_TYPE_USER, MEMORY_TYPE_USER_UNPROTECTED, MEMORY_TYPE_KERNEL, MEMORY_TYPE_KERNEL_UNPROTECTED] P"

section \<open>Allocating\<close>

text \<open>\<open>elevated r\<close>: a page of the root chunk \<open>r\<close> has a reference of another driver (\<^verbatim>\<open>root_chunk_has_elevated_page\<close>).\<close>

fun scan_free_list :: "('p \<Rightarrow> bool) \<Rightarrow> 'p list \<Rightarrow> ('p, 'v) pmm \<Rightarrow> 'p option \<times> ('p, 'v) pmm" where
  "scan_free_list elevated [] P = (None, P)"
| "scan_free_list elevated (p # ps) P =
     (if chunk_is_in_eviction P p then scan_free_list elevated ps (list_del_init p P)
      else if \<not> elevated (root_chunk_from_chunk P p) then (Some p, P)
      else scan_free_list elevated ps P)"

definition find_free_chunk_locked :: "('p \<Rightarrow> bool) \<Rightarrow> memory_type \<Rightarrow> nat \<Rightarrow> bool \<Rightarrow> ('p, 'v) pmm \<Rightarrow> 'p option \<times> ('p, 'v) pmm" where
  "find_free_chunk_locked elevated type k zero P = scan_free_list elevated (chunk_lists P (find_free_list P type k zero)) P"

definition claim_found_chunk :: "'p \<Rightarrow> ('p, 'v) pmm \<Rightarrow> ('p, 'v) pmm" where
  "claim_found_chunk p P =
     (let P = (case chunk_parent (get_chunk P p) of None \<Rightarrow> P
               | Some q \<Rightarrow> upd_suballoc q (\<lambda>a. a\<lparr>sub_allocated := sub_allocated a + 1\<rparr>) P)
      in chunk_update_lists_locked p (chunk_pin p P))"

definition claim_free_chunk :: "('p \<Rightarrow> bool) \<Rightarrow> memory_type \<Rightarrow> nat \<Rightarrow> ('p, 'v) pmm \<Rightarrow> 'p option \<times> ('p, 'v) pmm" where
  "claim_free_chunk elevated type k P =
     (let (chunk, P) = find_free_chunk_locked elevated type k True P;
          (chunk, P) = (case chunk of None \<Rightarrow> find_free_chunk_locked elevated type k False P | Some _ \<Rightarrow> (chunk, P))
      in case chunk of None \<Rightarrow> (None, P) | Some p \<Rightarrow> (Some p, claim_found_chunk p P))"

text \<open>Root chunks from the physical memory allocator: its status, the addresses it returned and whether the memory is zero.\<close>

definition init_root_chunk :: "memory_type \<Rightarrow> chunk_state \<Rightarrow> bool \<Rightarrow> 'p \<Rightarrow> ('p, 'v) pmm \<Rightarrow> ('p, 'v) pmm" where
  "init_root_chunk type initial_state zero p P =
     chunk_update_lists_locked p (upd_chunk p (\<lambda>c. c\<lparr>chunk_type := type, chunk_state := initial_state, is_zero := zero\<rparr>) P)"

definition root_chunk_from_address :: "('p, 'v) pmm \<Rightarrow> nat \<Rightarrow> 'p" where
  "root_chunk_from_address P addr = root_chunks P ! (addr div 2 ^ UVM_CHUNK_SIZE_MAX)"

fun init_root_chunks :: "memory_type \<Rightarrow> chunk_state \<Rightarrow> bool \<Rightarrow> nat list \<Rightarrow> ('p, 'v) pmm \<Rightarrow> ('p, 'v) pmm" where
  "init_root_chunks type initial_state zero [] P = P"
| "init_root_chunks type initial_state zero (a # as) P =
     init_root_chunks type CHUNK_STATE_FREE zero as (init_root_chunk type initial_state zero (root_chunk_from_address P a) P)"

definition alloc_root_chunk :: "NV_STATUS \<times> nat list \<times> bool \<Rightarrow> memory_type \<Rightarrow> ('p, 'v) pmm \<Rightarrow> NV_STATUS \<times> 'p option \<times> ('p, 'v) pmm" where
  "alloc_root_chunk pma type P =
     (case pma of (status, pas, zero) \<Rightarrow>
        if status \<noteq> NV_OK then (status, None, P)
        else (NV_OK, Some (root_chunk_from_address P (hd pas)), init_root_chunks type CHUNK_STATE_TEMP_PINNED zero pas P))"

text \<open>
  The loop that splits the chunk \<open>p\<close> of size \<open>cur\<close> down to \<open>k\<close>; \<open>mem cur\<close> is the memory for the split of a chunk of size \<open>cur\<close>. \<open>None\<close> stands for
  \<^verbatim>\<open>UVM_PANIC\<close>, when the sizes are used up.
\<close>

fun free_subchunks :: "'p list \<Rightarrow> ('p, 'v) pmm \<Rightarrow> ('p, 'v) pmm" where
  "free_subchunks [] P = P"
| "free_subchunks (q # qs) P = free_subchunks qs (chunk_free_locked q P)"

fun split_down ::
    "(nat \<Rightarrow> (nat \<Rightarrow> 'p) option) \<Rightarrow> nat \<Rightarrow> nat list \<Rightarrow> 'p \<Rightarrow> ('p, 'v) pmm \<Rightarrow> (NV_STATUS \<times> 'p option \<times> ('p, 'v) pmm) option" where
  "split_down mem k [] p P = None"
| "split_down mem k (cur # sizes) p P =
     (if cur = k then Some (NV_OK, Some p, P)
      else
        let (status, P) = split_gpu_chunk (mem cur) p P
        in if status \<noteq> NV_OK
           then map_option (\<lambda>P. (status, None, P)) (free_chunk_with_merges UVM_CHUNK_SIZE_INVALID p P)
           else
             let subs = subchunks (get_suballoc P p);
                 num_sub = num_subchunks P p
             in split_down mem k sizes (subs ! 0) (free_subchunks (drop 1 (take num_sub subs)) P))"

text \<open>The search for a bigger chunk that can be split.\<close>

fun claim_bigger :: "('p \<Rightarrow> bool) \<Rightarrow> memory_type \<Rightarrow> nat list \<Rightarrow> ('p, 'v) pmm \<Rightarrow> (nat \<times> 'p) option \<times> ('p, 'v) pmm" where
  "claim_bigger elevated type [] P = (None, P)"
| "claim_bigger elevated type (cur # sizes) P =
     (case claim_free_chunk elevated type cur P of
        (Some p, P) \<Rightarrow> (Some (cur, p), P)
      | (None, P) \<Rightarrow> claim_bigger elevated type sizes P)"

text \<open>The sizes of a mask from \<open>k\<close> upwards, and from \<open>k\<close> downwards.\<close>

definition chunk_sizes_from :: "nat \<Rightarrow> nat \<Rightarrow> nat list" where
  "chunk_sizes_from sizes k = k # filter (bit sizes) [Suc k..<UVM_CHUNK_SIZE_INVALID]"

definition chunk_sizes_rev_from :: "nat \<Rightarrow> nat \<Rightarrow> nat list" where
  "chunk_sizes_rev_from sizes k = k # rev (filter (bit sizes) [0..<k])"

text \<open>Allocations without \<^verbatim>\<open>UVM_PMM_ALLOC_FLAGS_EVICT\<close>, which return the error of the physical memory allocator; with the lock of the manager and without it.\<close>

definition alloc_or_evict_root_chunk :: "NV_STATUS \<times> nat list \<times> bool \<Rightarrow> memory_type \<Rightarrow> ('p, 'v) pmm \<Rightarrow> NV_STATUS \<times> 'p option \<times> ('p, 'v) pmm" where
  "alloc_or_evict_root_chunk pma type P = alloc_root_chunk pma type P"

definition alloc_or_evict_root_chunk_unlocked :: "NV_STATUS \<times> nat list \<times> bool \<Rightarrow> memory_type \<Rightarrow> ('p, 'v) pmm \<Rightarrow> NV_STATUS \<times> 'p option \<times> ('p, 'v) pmm" where
  "alloc_or_evict_root_chunk_unlocked pma type P = alloc_root_chunk pma type P"

definition alloc_chunk_with_splits ::
    "('p \<Rightarrow> bool) \<Rightarrow> NV_STATUS \<times> nat list \<times> bool \<Rightarrow> (nat \<Rightarrow> (nat \<Rightarrow> 'p) option) \<Rightarrow> memory_type \<Rightarrow> nat \<Rightarrow> ('p, 'v) pmm \<Rightarrow>
     (NV_STATUS \<times> 'p option \<times> ('p, 'v) pmm) option" where
  "alloc_chunk_with_splits elevated pma mem type k P =
     (let sizes = chunk_sizes P type
      in case claim_free_chunk elevated type k P of
           (Some p, P) \<Rightarrow> Some (NV_OK, Some p, P)
         | (None, P) \<Rightarrow>
             case claim_bigger elevated type (chunk_sizes_from sizes k) P of
               (Some (cur, p), P) \<Rightarrow> split_down mem k (chunk_sizes_rev_from sizes cur) p P
             | (None, P) \<Rightarrow>
                 let (status, chunk, P) = alloc_or_evict_root_chunk pma type P
                 in if status \<noteq> NV_OK then Some (status, None, P)
                    else split_down mem k (chunk_sizes_rev_from sizes UVM_CHUNK_SIZE_MAX) (the chunk) P)"

definition alloc_chunk ::
    "('p \<Rightarrow> bool) \<Rightarrow> NV_STATUS \<times> nat list \<times> bool \<Rightarrow> (nat \<Rightarrow> (nat \<Rightarrow> 'p) option) \<Rightarrow> memory_type \<Rightarrow> nat \<Rightarrow> ('p, 'v) pmm \<Rightarrow>
     (NV_STATUS \<times> 'p option \<times> ('p, 'v) pmm) option" where
  "alloc_chunk elevated pma mem type k P =
     (case claim_free_chunk elevated type k P of
        (Some p, P) \<Rightarrow> Some (NV_OK, Some p, P)
      | (None, P) \<Rightarrow>
          if k = UVM_CHUNK_SIZE_MAX then Some (alloc_or_evict_root_chunk_unlocked pma type P)
          else
            map_option (\<lambda>(status, chunk, P). if status \<noteq> NV_OK then (status, None, snd (free_next_available_root_chunk type P)) else (status, chunk, P))
              (alloc_chunk_with_splits elevated pma mem type k P))"

text \<open>
  Several chunks. The physical memory allocator and the memory for the splits are functions of the state they are called in. \<open>tracker i\<close> is the status of adding the
  tracker of the root chunk of the chunk \<open>i\<close>, \<open>waited\<close> that of waiting for the other GPUs, \<open>out\<close> that of adding to the tracker of the caller if there is one, and
  \<open>last_wait\<close> that of the wait at the end.
\<close>

fun alloc_chunks ::
    "('p \<Rightarrow> bool) \<Rightarrow> (('p, 'v) pmm \<Rightarrow> NV_STATUS \<times> nat list \<times> bool) \<Rightarrow> (('p, 'v) pmm \<Rightarrow> nat \<Rightarrow> (nat \<Rightarrow> 'p) option) \<Rightarrow> (nat \<Rightarrow> NV_STATUS) \<Rightarrow> memory_type \<Rightarrow> nat \<Rightarrow>
     nat \<Rightarrow> 'p list \<Rightarrow> ('p, 'v) pmm \<Rightarrow> (NV_STATUS \<times> 'p list \<times> ('p, 'v) pmm) option" where
  "alloc_chunks elevated pma mem tracker type k 0 chunks P = Some (NV_OK, chunks, P)"
| "alloc_chunks elevated pma mem tracker type k (Suc n) chunks P =
     (case alloc_chunk elevated (pma P) (mem P) type k P of
        None \<Rightarrow> None
      | Some (status, chunk, P) \<Rightarrow>
          if status \<noteq> NV_OK then Some (status, chunks, P)
          else
            let chunks = chunks @ [the chunk]
            in if tracker (length chunks - 1) \<noteq> NV_OK then Some (tracker (length chunks - 1), chunks, P)
               else alloc_chunks elevated pma mem tracker type k n chunks P)"

fun free_chunks :: "'p list \<Rightarrow> ('p, 'v) pmm \<Rightarrow> ('p, 'v) pmm option" where
  "free_chunks [] P = Some P"
| "free_chunks (p # ps) P = (case free_chunk p P of None \<Rightarrow> None | Some P \<Rightarrow> free_chunks ps P)"

definition uvm_pmm_gpu_alloc ::
    "bool \<Rightarrow> ('p \<Rightarrow> bool) \<Rightarrow> (('p, 'v) pmm \<Rightarrow> NV_STATUS \<times> nat list \<times> bool) \<Rightarrow> (('p, 'v) pmm \<Rightarrow> nat \<Rightarrow> (nat \<Rightarrow> 'p) option) \<Rightarrow> (nat \<Rightarrow> NV_STATUS) \<Rightarrow>
     NV_STATUS \<Rightarrow> NV_STATUS option \<Rightarrow> NV_STATUS \<Rightarrow> nat \<Rightarrow> nat \<Rightarrow> memory_type \<Rightarrow> ('p, 'v) pmm \<Rightarrow> (NV_STATUS \<times> 'p option list \<times> ('p, 'v) pmm) option" where
  "uvm_pmm_gpu_alloc conf_computing elevated pma mem tracker waited out last_wait num_chunks k mem_type P =
     (let type = pmm_squash_memory_type conf_computing mem_type;
          undo = (\<lambda>status chunks P. map_option (\<lambda>P. (status, replicate num_chunks None, P)) (free_chunks (rev chunks) P))
      in case alloc_chunks elevated pma mem tracker type k num_chunks [] P of
           None \<Rightarrow> None
         | Some (status, chunks, P) \<Rightarrow>
             if status \<noteq> NV_OK then undo status chunks P
             else if waited \<noteq> NV_OK then undo waited chunks P
             else case out of
               None \<Rightarrow> Some (last_wait, map Some chunks, P)
             | Some status \<Rightarrow> if status \<noteq> NV_OK then undo status chunks P else Some (last_wait, map Some chunks, P))"

section \<open>Initialization\<close>

text \<open>\<open>root i\<close> is the address of the root chunk of the index \<open>i\<close> in the array, which the memory for the array gives.\<close>

definition init_chunk :: "nat \<Rightarrow> ('p, 'v) gpu_chunk" where
  "init_chunk i = \<lparr>chunk_address = i * 2 ^ UVM_CHUNK_SIZE_MAX, chunk_type = MEMORY_TYPE_USER, in_eviction = False, inject_split_error = False, is_zero = False,
     is_referenced = False, chunk_state = CHUNK_STATE_PMA_OWNED, log2_size = UVM_CHUNK_SIZE_MAX, va_block_page_index = PAGES_PER_UVM_VA_BLOCK, va_block = None,
     chunk_parent = None, chunk_suballoc = None\<rparr>"

definition pmm_chunk_sizes :: "nat \<Rightarrow> nat \<Rightarrow> nat \<Rightarrow> memory_type \<Rightarrow> nat" where
  "pmm_chunk_sizes mmu_user mmu_kernel mem_kernel type =
     2 ^ UVM_CHUNK_SIZE_MAX OR (if uvm_pmm_gpu_memory_type_is_user type then mmu_user else mmu_kernel OR mem_kernel)"

definition pmm_initial_state :: "nat \<Rightarrow> nat \<Rightarrow> nat \<Rightarrow> NvU64 \<Rightarrow> (nat \<Rightarrow> 'p) \<Rightarrow> ('p, 'v) pmm" where
  "pmm_initial_state mmu_user mmu_kernel mem_kernel max_allocatable_address root =
     (let count = unat (UVM_ALIGN_UP max_allocatable_address (2 ^ UVM_CHUNK_SIZE_MAX)) div 2 ^ UVM_CHUNK_SIZE_MAX
      in \<lparr>gpu_chunks = (\<lambda>p. map_option init_chunk (find (\<lambda>i. root i = p) [0..<count])), root_chunks = map root [0..<count], chunk_lists = (\<lambda>l. []),
          chunk_sizes = pmm_chunk_sizes mmu_user mmu_kernel mem_kernel\<rparr>)"

text \<open>
  The outcomes of the calls: the caches, the array of root chunks, the bit locks, the object of the physical memory allocator (\<open>None\<close> for a GPU without memory), the eviction
  callbacks (\<open>None\<close> when the GPU does not support eviction) and the device pages. After a failure there is no memory manager.
\<close>

definition uvm_pmm_gpu_init ::
    "NV_STATUS \<Rightarrow> (nat \<Rightarrow> 'p) option \<Rightarrow> NV_STATUS \<Rightarrow> NV_STATUS option \<Rightarrow> NV_STATUS option \<Rightarrow> NV_STATUS \<Rightarrow> nat \<Rightarrow> nat \<Rightarrow> nat \<Rightarrow> NvU64 \<Rightarrow>
     NV_STATUS \<times> ('p, 'v) pmm option" where
  "uvm_pmm_gpu_init caches array bitlocks pma callbacks devmem mmu_user mmu_kernel mem_kernel max_allocatable_address =
     (if caches \<noteq> NV_OK then (caches, None)
      else case array of
        None \<Rightarrow> (NV_ERR_NO_MEMORY, None)
      | Some root \<Rightarrow>
          let pma_status = (case pma of None \<Rightarrow> NV_OK
                            | Some status \<Rightarrow> if status \<noteq> NV_OK then status else case callbacks of None \<Rightarrow> NV_OK | Some status \<Rightarrow> status)
          in if bitlocks \<noteq> NV_OK then (bitlocks, None)
             else if pma_status \<noteq> NV_OK then (pma_status, None)
             else if devmem \<noteq> NV_OK then (devmem, None)
             else (NV_OK, Some (pmm_initial_state mmu_user mmu_kernel mem_kernel max_allocatable_address root)))"

end
