(* ===== verification/Pmm_Trees.thy ===== *)
theory Pmm_Trees
  imports Pmm_Gpu
begin

text \<open>
  The invariant of the memory manager. It is stated on views of the state: the shapes of the chunks (address, size, type, parent and subchunks), their states, the counts of the
  split chunks and the flags that choose a list, so that an operation that keeps a view keeps all that is said of it. \<open>trees\<close> says that the chunks are trees below the root chunks,
  \<open>counts\<close> what the counters count, \<open>lists_ok\<close> which chunk is on which list, and \<open>merged\<close> that no split chunk is left without a subchunk in use. \<open>held\<close> is the abstract state: the
  chunks in use.
\<close>

unbundle bit_operations_syntax

section \<open>Views of the state\<close>

text \<open>
  The invariant is stated over views of the state: the shape of the trees of chunks, the states of the chunks, and the counts of the suballocations. Each operation changes
  few of them.
\<close>

record 'p shape =
  sh_address :: nat
  sh_size :: nat
  sh_type :: memory_type
  sh_parent :: "'p option"
  sh_subs :: "'p list option"

definition shape_of :: "('p, 'v) gpu_chunk \<Rightarrow> 'p shape" where
  "shape_of c = \<lparr>sh_address = chunk_address c, sh_size = log2_size c, sh_type = chunk_type c, sh_parent = chunk_parent c,
     sh_subs = map_option subchunks (chunk_suballoc c)\<rparr>"

definition shapes :: "('p, 'v) pmm \<Rightarrow> 'p \<Rightarrow> 'p shape option" where "shapes P p = map_option shape_of (gpu_chunks P p)"
definition states :: "('p, 'v) pmm \<Rightarrow> 'p \<Rightarrow> chunk_state option" where "states P p = map_option chunk_state (gpu_chunks P p)"
definition allocs :: "('p, 'v) pmm \<Rightarrow> 'p \<Rightarrow> nat" where
  "allocs P p = (case Option.bind (gpu_chunks P p) chunk_suballoc of None \<Rightarrow> 0 | Some a \<Rightarrow> sub_allocated a)"
definition pins :: "('p, 'v) pmm \<Rightarrow> 'p \<Rightarrow> nat" where
  "pins P p = (case Option.bind (gpu_chunks P p) chunk_suballoc of None \<Rightarrow> 0 | Some a \<Rightarrow> pinned_leaf_chunks a)"

text \<open>The flags that decide on which list a free chunk is, and whether it is being evicted.\<close>

definition zeros :: "('p, 'v) pmm \<Rightarrow> 'p \<Rightarrow> bool" where "zeros P p \<longleftrightarrow> (\<exists>c. gpu_chunks P p = Some c \<and> is_zero c)"
definition evicts :: "('p, 'v) pmm \<Rightarrow> 'p \<Rightarrow> bool" where "evicts P p \<longleftrightarrow> (\<exists>c. gpu_chunks P p = Some c \<and> in_eviction c)"

lemma upd_chunk_simps [simp]:
  "root_chunks (upd_chunk p f P) = root_chunks P" "chunk_lists (upd_chunk p f P) = chunk_lists P" "chunk_sizes (upd_chunk p f P) = chunk_sizes P"
  "gpu_chunks (upd_chunk p f P) = (gpu_chunks P)(p := map_option f (gpu_chunks P p))"
  by (simp_all add: upd_chunk_def)

lemma upd_suballoc_simps [simp]:
  "root_chunks (upd_suballoc p g P) = root_chunks P" "chunk_lists (upd_suballoc p g P) = chunk_lists P" "chunk_sizes (upd_suballoc p g P) = chunk_sizes P"
  by (simp_all add: upd_suballoc_def)

lemma list_simps [simp]:
  "root_chunks (list_del_init p P) = root_chunks P" "gpu_chunks (list_del_init p P) = gpu_chunks P" "chunk_sizes (list_del_init p P) = chunk_sizes P"
  "root_chunks (list_move_tail p l P) = root_chunks P" "gpu_chunks (list_move_tail p l P) = gpu_chunks P" "chunk_sizes (list_move_tail p l P) = chunk_sizes P"
  by (simp_all add: list_del_init_def list_move_tail_def Let_def)

lemma view_lists [simp]:
  "shapes (list_del_init p P) = shapes P" "states (list_del_init p P) = states P" "allocs (list_del_init p P) = allocs P" "pins (list_del_init p P) = pins P"
  "zeros (list_del_init p P) = zeros P" "evicts (list_del_init p P) = evicts P"
  "shapes (list_move_tail p l P) = shapes P" "states (list_move_tail p l P) = states P" "allocs (list_move_tail p l P) = allocs P" "pins (list_move_tail p l P) = pins P"
  "zeros (list_move_tail p l P) = zeros P" "evicts (list_move_tail p l P) = evicts P"
  by (simp_all add: fun_eq_iff shapes_def states_def allocs_def pins_def zeros_def evicts_def)

text \<open>An update of a chunk, by the views it keeps.\<close>

lemma shapes_upd [simp]: "(\<And>c. shape_of (f c) = shape_of c) \<Longrightarrow> shapes (upd_chunk p f P) = shapes P"
  by (auto simp: fun_eq_iff shapes_def option.map_comp comp_def)

lemma states_upd [simp]: "(\<And>c. chunk_state (f c) = chunk_state c) \<Longrightarrow> states (upd_chunk p f P) = states P"
  by (auto simp: fun_eq_iff states_def option.map_comp comp_def)

lemma states_set: "p \<in> dom (gpu_chunks P) \<Longrightarrow> (\<And>c. chunk_state (f c) = s) \<Longrightarrow> states (upd_chunk p f P) = (states P)(p \<mapsto> s)"
  by (auto simp: fun_eq_iff states_def)

lemma counts_upd [simp]:
  "(\<And>c. chunk_suballoc (f c) = chunk_suballoc c) \<Longrightarrow> allocs (upd_chunk p f P) = allocs P"
  "(\<And>c. chunk_suballoc (f c) = chunk_suballoc c) \<Longrightarrow> pins (upd_chunk p f P) = pins P"
  by (cases "gpu_chunks P p"; auto simp: fun_eq_iff allocs_def pins_def)+

lemma evicts_upd [simp]: "(\<And>c. in_eviction (f c) = in_eviction c) \<Longrightarrow> evicts (upd_chunk p f P) = evicts P"
  by (auto simp: fun_eq_iff evicts_def)

lemma zeros_upd [simp]: "(\<And>c. is_zero (f c) = is_zero c) \<Longrightarrow> zeros (upd_chunk p f P) = zeros P"
  by (auto simp: fun_eq_iff zeros_def)

lemma view_suballoc [simp]:
  "states (upd_suballoc p g P) = states P" "zeros (upd_suballoc p g P) = zeros P" "evicts (upd_suballoc p g P) = evicts P"
  "(\<And>a. subchunks (g a) = subchunks a) \<Longrightarrow> shapes (upd_suballoc p g P) = shapes P"
  "(\<And>a. sub_allocated (g a) = sub_allocated a) \<Longrightarrow> allocs (upd_suballoc p g P) = allocs P"
  "(\<And>a. pinned_leaf_chunks (g a) = pinned_leaf_chunks a) \<Longrightarrow> pins (upd_suballoc p g P) = pins P"
  by (auto simp: upd_suballoc_def fun_eq_iff shape_of_def shapes_def states_def allocs_def pins_def option.map_comp comp_def split: option.split bind_split)

text \<open>Changing a count of a chunk that is split.\<close>

lemma allocs_set: "sh_subs (the (shapes P p)) = Some qs \<Longrightarrow> p \<in> dom (shapes P) \<Longrightarrow> (\<And>a. sub_allocated (g a) = h (sub_allocated a)) \<Longrightarrow>
    allocs (upd_suballoc p g P) = (allocs P)(p := h (allocs P p))"
  by (auto simp: upd_suballoc_def fun_eq_iff shapes_def shape_of_def allocs_def)

lemma pins_set: "sh_subs (the (shapes P p)) = Some qs \<Longrightarrow> p \<in> dom (shapes P) \<Longrightarrow> (\<And>a. pinned_leaf_chunks (g a) = h (pinned_leaf_chunks a)) \<Longrightarrow>
    pins (upd_suballoc p g P) = (pins P)(p := h (pins P p))"
  by (auto simp: upd_suballoc_def fun_eq_iff shapes_def shape_of_def pins_def)

lemma dom_shapes [simp]: "dom (shapes P) = dom (gpu_chunks P)" "dom (states P) = dom (gpu_chunks P)"
  by (auto simp: shapes_def states_def)

lemma get_views:
  assumes "shapes P p = Some x"
  shows "chunk_address (get_chunk P p) = sh_address x" "log2_size (get_chunk P p) = sh_size x" "chunk_type (get_chunk P p) = sh_type x"
    "chunk_parent (get_chunk P p) = sh_parent x" "states P p = Some (chunk_state (get_chunk P p))"
    "sh_subs x = Some qs \<Longrightarrow> subchunks (get_suballoc P p) = qs" "sh_subs x = Some qs \<Longrightarrow> sub_allocated (get_suballoc P p) = allocs P p"
    "sh_subs x = Some qs \<Longrightarrow> pinned_leaf_chunks (get_suballoc P p) = pins P p" "evicts P p = in_eviction (get_chunk P p)" "zeros P p = is_zero (get_chunk P p)"
    "chunk_suballoc (get_chunk P p) = None \<longleftrightarrow> sh_subs x = None"
  using assms by (auto simp: shapes_def states_def shape_of_def get_chunk_def get_suballoc_def allocs_def pins_def evicts_def zeros_def)

section \<open>The trees of chunks\<close>

text \<open>
  Every chunk is a root chunk or one of the subchunks of its parent, which divide the parent into chunks of the next smaller size of its type.
\<close>

definition split_node_ok :: "('p \<Rightarrow> 'p shape option) \<Rightarrow> (memory_type \<Rightarrow> nat) \<Rightarrow> 'p \<Rightarrow> 'p shape \<Rightarrow> 'p list \<Rightarrow> bool" where
  "split_node_ok S Z p x qs \<longleftrightarrow>
     (let k = uvm_chunk_find_prev_size (Z (sh_type x)) (sh_size x)
      in k < sh_size x \<and> length qs = 2 ^ (sh_size x - k) \<and>
         (\<forall>i<length qs. \<exists>y. S (qs ! i) = Some y \<and> sh_parent y = Some p \<and> sh_size y = k \<and> sh_address y = sh_address x + i * 2 ^ k \<and> sh_type y = sh_type x))"

definition node_ok :: "('p \<Rightarrow> 'p shape option) \<Rightarrow> 'p list \<Rightarrow> (memory_type \<Rightarrow> nat) \<Rightarrow> 'p \<Rightarrow> 'p shape \<Rightarrow> bool" where
  "node_ok S R Z p x \<longleftrightarrow>
     sh_size x \<le> UVM_CHUNK_SIZE_MAX \<and> bit (Z (sh_type x)) (sh_size x) \<and> 2 ^ sh_size x dvd sh_address x \<and> sh_address x div 2 ^ UVM_CHUNK_SIZE_MAX < length R \<and>
     (case sh_parent x of None \<Rightarrow> p \<in> set R | Some q \<Rightarrow> \<exists>y qs. S q = Some y \<and> sh_subs y = Some qs \<and> p \<in> set qs) \<and>
     (\<forall>qs. sh_subs x = Some qs \<longrightarrow> split_node_ok S Z p x qs)"

definition trees :: "('p \<Rightarrow> 'p shape option) \<Rightarrow> 'p list \<Rightarrow> (memory_type \<Rightarrow> nat) \<Rightarrow> bool" where
  "trees S R Z \<longleftrightarrow>
     finite (dom S) \<and> (\<forall>t. bit (Z t) UVM_CHUNK_SIZE_MAX) \<and>
     (\<forall>i<length R. \<exists>x. S (R ! i) = Some x \<and> sh_address x = i * 2 ^ UVM_CHUNK_SIZE_MAX \<and> sh_size x = UVM_CHUNK_SIZE_MAX \<and> sh_parent x = None) \<and>
     (\<forall>p x. S p = Some x \<longrightarrow> node_ok S R Z p x)"

definition root_of :: "('p \<Rightarrow> 'p shape option) \<Rightarrow> 'p list \<Rightarrow> 'p \<Rightarrow> 'p" where
  "root_of S R p = R ! (sh_address (the (S p)) div 2 ^ UVM_CHUNK_SIZE_MAX)"

lemma prev_size:
  assumes "k \<le> UVM_CHUNK_SIZE_MAX" "uvm_chunk_find_prev_size Z k < k"
  shows "bit Z (uvm_chunk_find_prev_size Z k)" "\<And>j. uvm_chunk_find_prev_size Z k < j \<Longrightarrow> j < k \<Longrightarrow> \<not> bit Z j"
proof -
  obtain j where f: "find (bit Z) (rev [0..<k]) = Some j" using assms by (auto simp: uvm_chunk_find_prev_size_def UVM_CHUNK_SIZE_INVALID_def split: option.splits)
  then have e: "uvm_chunk_find_prev_size Z k = j" by (simp add: uvm_chunk_find_prev_size_def)
  from f obtain i where i: "i < k" "bit Z (rev [0..<k] ! i)" "j = rev [0..<k] ! i" "\<forall>m<i. \<not> bit Z (rev [0..<k] ! m)" by (auto simp: find_Some_iff)
  have j: "j = k - Suc i" using i by (simp add: rev_nth)
  show "bit Z (uvm_chunk_find_prev_size Z k)" using i e by simp
  fix l assume l: "uvm_chunk_find_prev_size Z k < l" "l < k"
  then have "rev [0..<k] ! (k - Suc l) = l" "k - Suc l < i" using j e i(1) by (auto simp: rev_nth)
  then show "\<not> bit Z l" using i(4) by metis
qed

lemma prev_size_exists: "j < k \<Longrightarrow> bit Z j \<Longrightarrow> uvm_chunk_find_prev_size Z k < k"
  by (auto simp: uvm_chunk_find_prev_size_def find_None_iff find_Some_iff rev_nth split: option.split)

lemma block_div: "2 ^ k dvd (a :: nat) \<Longrightarrow> x < 2 ^ k \<Longrightarrow> k \<le> m \<Longrightarrow> (a + x) div 2 ^ m = a div 2 ^ m"
proof -
  assume a: "2 ^ k dvd a" and x: "x < 2 ^ k" and k: "k \<le> m"
  have "(2 :: nat) ^ m = 2 ^ k * 2 ^ (m - k)" using k by (simp flip: power_add)
  moreover have "(a + x) div 2 ^ k = a div 2 ^ k" using a x by (auto elim!: dvdE)
  ultimately show ?thesis by (simp add: div_mult2_eq)
qed

text \<open>What a node and its subchunks have to do with each other.\<close>

lemma trees_node:
  assumes "trees S R Z" "S p = Some x"
  shows "node_ok S R Z p x"
  using assms by (simp add: trees_def)

lemma trees_child:
  assumes t: "trees S R Z" and p: "S p = Some x" "sh_subs x = Some qs" and q: "q \<in> set qs"
  shows "\<exists>y i. S q = Some y \<and> i < length qs \<and> q = qs ! i \<and> sh_parent y = Some p \<and> sh_size y < sh_size x \<and>
    sh_size y = uvm_chunk_find_prev_size (Z (sh_type x)) (sh_size x) \<and> sh_address y = sh_address x + i * 2 ^ sh_size y \<and> sh_type y = sh_type x \<and>
    root_of S R q = root_of S R p"
proof -
  have n: "node_ok S R Z p x" "split_node_ok S Z p x qs" using trees_node[OF t p(1)] p(2) by (auto simp: node_ok_def)
  obtain i where i: "i < length qs" "q = qs ! i" using q by (auto simp: in_set_conv_nth)
  let ?k = "uvm_chunk_find_prev_size (Z (sh_type x)) (sh_size x)"
  obtain y where y: "S q = Some y" "sh_parent y = Some p" "sh_size y = ?k" "sh_address y = sh_address x + i * 2 ^ ?k" "sh_type y = sh_type x" "?k < sh_size x"
      "length qs = 2 ^ (sh_size x - ?k)"
    using n(2) i by (auto simp: split_node_ok_def Let_def)
  have "i * 2 ^ ?k < 2 ^ (sh_size x - ?k) * 2 ^ ?k" using i(1) y(7) by simp
  then have "i * 2 ^ ?k < 2 ^ sh_size x" using y(6) by (simp flip: power_add)
  then have "sh_address y div 2 ^ UVM_CHUNK_SIZE_MAX = sh_address x div 2 ^ UVM_CHUNK_SIZE_MAX"
    using n(1) y(4) block_div[of "sh_size x" "sh_address x" "i * 2 ^ ?k" UVM_CHUNK_SIZE_MAX] by (simp add: node_ok_def)
  then have "root_of S R q = root_of S R p" using y(1) p(1) by (simp add: root_of_def)
  then show ?thesis using y i by auto
qed

lemma trees_distinct:
  assumes t: "trees S R Z" and p: "S p = Some x" "sh_subs x = Some qs"
  shows "distinct qs"
proof -
  have "split_node_ok S Z p x qs" using trees_node[OF t p(1)] p(2) by (auto simp: node_ok_def)
  then have a: "sh_address (the (S (qs ! i))) = sh_address x + i * 2 ^ uvm_chunk_find_prev_size (Z (sh_type x)) (sh_size x)" if "i < length qs" for i
  proof -
    have "\<exists>y. S (qs ! i) = Some y \<and> sh_address y = sh_address x + i * 2 ^ uvm_chunk_find_prev_size (Z (sh_type x)) (sh_size x)"
      using \<open>split_node_ok S Z p x qs\<close> that unfolding split_node_ok_def Let_def by blast
    then show ?thesis by auto
  qed
  have "i = j" if "i < length qs" "j < length qs" "qs ! i = qs ! j" for i j
    using trans[OF a[OF that(1), symmetric, unfolded that(3)] a[OF that(2)]] by simp
  then show ?thesis by (auto simp: distinct_conv_nth)
qed

lemma trees_parent:
  assumes t: "trees S R Z" and p: "S p = Some x" "sh_parent x = Some q"
  shows "\<exists>y qs. S q = Some y \<and> sh_subs y = Some qs \<and> p \<in> set qs"
  using trees_node[OF t p(1)] p(2) by (simp add: node_ok_def)

lemma trees_root:
  assumes t: "trees S R Z" and p: "S p = Some x"
  shows "sh_parent x = None \<longleftrightarrow> sh_size x = UVM_CHUNK_SIZE_MAX" "sh_parent x = None \<Longrightarrow> root_of S R p = p" "root_of S R p \<in> set R"
    "p \<in> set R \<longleftrightarrow> sh_parent x = None"
proof -
  have n: "node_ok S R Z p x" by (rule trees_node[OF t p])
  have root: "sh_size x = UVM_CHUNK_SIZE_MAX \<and> root_of S R p = p \<and> sh_parent x = None" if "p \<in> set R"
  proof -
    obtain i where i: "i < length R" "p = R ! i" using \<open>p \<in> set R\<close> by (auto simp: in_set_conv_nth)
    then have "sh_address x = i * 2 ^ UVM_CHUNK_SIZE_MAX" "sh_size x = UVM_CHUNK_SIZE_MAX" "sh_parent x = None" using t p by (auto simp: trees_def)
    then show ?thesis using i p by (simp add: root_of_def)
  qed
  have "sh_size x < UVM_CHUNK_SIZE_MAX" if par: "sh_parent x = Some q" for q
  proof -
    obtain y qs where y: "S q = Some y" "sh_subs y = Some qs" "p \<in> set qs" using trees_parent[OF t p par] by auto
    have "sh_size x < sh_size y" using trees_child[OF t y] p by auto
    then show ?thesis using trees_node[OF t y(1)] by (simp add: node_ok_def)
  qed
  then show "sh_parent x = None \<longleftrightarrow> sh_size x = UVM_CHUNK_SIZE_MAX" using n root by (cases "sh_parent x") (auto simp: node_ok_def)
  show "sh_parent x = None \<Longrightarrow> root_of S R p = p" using n root by (simp add: node_ok_def)
  show "root_of S R p \<in> set R" using n p by (simp add: node_ok_def root_of_def)
  show "p \<in> set R \<longleftrightarrow> sh_parent x = None" using n root by (auto simp: node_ok_def)
qed

text \<open>Subchunks are below a split root.\<close>

lemma trees_root_split:
  assumes t: "trees S R Z" and p: "S p = Some x" "sh_subs x = Some qs"
  shows "\<exists>y ys. S (root_of S R p) = Some y \<and> sh_subs y = Some ys"
  using p
proof (induction "UVM_CHUNK_SIZE_MAX - sh_size x" arbitrary: p x qs rule: less_induct)
  case less
  show ?case
  proof (cases "sh_parent x")
    case None
    then show ?thesis using trees_root(2)[OF t less.prems(1)] less.prems by auto
  next
    case (Some q)
    obtain y ys where y: "S q = Some y" "sh_subs y = Some ys" "p \<in> set ys" using trees_parent[OF t less.prems(1) Some] by auto
    have c: "sh_size x < sh_size y" "root_of S R p = root_of S R q" using trees_child[OF t y] less.prems(1) by auto
    have "sh_size y \<le> UVM_CHUNK_SIZE_MAX" using trees_node[OF t y(1)] by (simp add: node_ok_def)
    then show ?thesis using less.hyps[OF _ y(1,2)] c by simp
  qed
qed

lemma trees_child_root_split:
  assumes t: "trees S R Z" and p: "S p = Some x" "sh_parent x \<noteq> None"
  shows "\<exists>y ys. S (root_of S R p) = Some y \<and> sh_subs y = Some ys"
proof -
  obtain q where q: "sh_parent x = Some q" using p(2) by auto
  obtain y ys where y: "S q = Some y" "sh_subs y = Some ys" "p \<in> set ys" using trees_parent[OF t p(1) q] by auto
  show ?thesis using trees_root_split[OF t y(1,2)] trees_child[OF t y] by auto
qed

text \<open>Two chunks overlap only when one is in the tree below the other; leaves are disjoint.\<close>

definition covers_addr :: "'p shape \<Rightarrow> nat \<Rightarrow> bool" where
  "covers_addr x a \<longleftrightarrow> sh_address x \<le> a \<and> a < sh_address x + 2 ^ sh_size x"

lemma covers_addr_div: "2 ^ sh_size x dvd sh_address x \<Longrightarrow> covers_addr x a \<longleftrightarrow> a div 2 ^ sh_size x = sh_address x div 2 ^ sh_size x"
proof -
  assume d: "2 ^ sh_size x dvd sh_address x"
  let ?k = "2 ^ sh_size x :: nat"
  obtain m where m: "sh_address x = ?k * m" using d by (auto elim: dvdE)
  have "a div ?k = m \<longleftrightarrow> ?k * m \<le> a \<and> a < ?k * m + ?k"
    by (metis div_nat_eqI dividend_less_times_div mult.commute mult_Suc_right add.commute times_div_less_eq_dividend zero_less_numeral zero_less_power)
  then show ?thesis by (simp add: covers_addr_def m)
qed

lemma trees_covers:
  assumes "trees S R Z" "S p = Some x"
  shows "covers_addr x a \<longleftrightarrow> a div 2 ^ sh_size x = sh_address x div 2 ^ sh_size x"
  by (rule covers_addr_div) (use trees_node[OF assms] in \<open>simp add: node_ok_def\<close>)

lemma covers_parent:
  assumes t: "trees S R Z" and y: "S q = Some y" "sh_subs y = Some qs" and p: "p \<in> set qs" "S p = Some x" "covers_addr x a"
  shows "covers_addr y a"
proof -
  have c: "sh_size x < sh_size y" "sh_address x div 2 ^ sh_size y = sh_address y div 2 ^ sh_size y"
  proof -
    obtain i where i: "i < length qs" "sh_size x < sh_size y" "sh_address x = sh_address y + i * 2 ^ sh_size x"
        "sh_size x = uvm_chunk_find_prev_size (Z (sh_type y)) (sh_size y)" using trees_child[OF t y p(1)] p(2) by auto
    have n: "2 ^ sh_size y dvd sh_address y" "length qs = 2 ^ (sh_size y - sh_size x)"
      using trees_node[OF t y(1)] y(2) i(4) by (auto simp: node_ok_def split_node_ok_def Let_def)
    have "i * 2 ^ sh_size x < 2 ^ (sh_size y - sh_size x) * 2 ^ sh_size x" using i(1) n(2) by simp
    then have "i * 2 ^ sh_size x < 2 ^ sh_size y" using i(2) by (simp flip: power_add)
    then show "sh_size x < sh_size y" "sh_address x div 2 ^ sh_size y = sh_address y div 2 ^ sh_size y"
      using i(2,3) block_div[OF n(1), of _ "sh_size y"] by auto
  qed
  have "(2 :: nat) ^ sh_size y = 2 ^ sh_size x * 2 ^ (sh_size y - sh_size x)" using c(1) by (simp flip: power_add)
  moreover have "a div 2 ^ sh_size x = sh_address x div 2 ^ sh_size x" using p(3) trees_covers[OF t p(2)] by simp
  ultimately have "a div 2 ^ sh_size y = sh_address x div 2 ^ sh_size y" by (simp add: div_mult2_eq)
  then show ?thesis using c(2) trees_covers[OF t y(1)] by simp
qed

lemma covers_root:
  assumes t: "trees S R Z" and p: "S p = Some x" "covers_addr x a"
  shows "root_of S R p = R ! (a div 2 ^ UVM_CHUNK_SIZE_MAX)"
proof -
  have n: "2 ^ sh_size x dvd sh_address x" "sh_size x \<le> UVM_CHUNK_SIZE_MAX" using trees_node[OF t p(1)] by (auto simp: node_ok_def)
  have "a div 2 ^ UVM_CHUNK_SIZE_MAX = sh_address x div 2 ^ UVM_CHUNK_SIZE_MAX"
    using block_div[OF n(1), of "a - sh_address x" UVM_CHUNK_SIZE_MAX] n(2) p(2) by (auto simp: covers_addr_def)
  then show ?thesis using p(1) by (simp add: root_of_def)
qed

lemma trees_type:
  assumes t: "trees S R Z" and p: "S p = Some x"
  shows "\<exists>y. S (root_of S R p) = Some y \<and> sh_type y = sh_type x"
  using p
proof (induction "UVM_CHUNK_SIZE_MAX - sh_size x" arbitrary: p x rule: less_induct)
  case less
  show ?case
  proof (cases "sh_parent x")
    case None
    then show ?thesis using trees_root(2)[OF t less.prems] less.prems by auto
  next
    case (Some q)
    obtain y ys where y: "S q = Some y" "sh_subs y = Some ys" "p \<in> set ys" using trees_parent[OF t less.prems Some] by auto
    have c: "sh_size x < sh_size y" "root_of S R p = root_of S R q" "sh_type x = sh_type y" using trees_child[OF t y] less.prems by auto
    have "sh_size y \<le> UVM_CHUNK_SIZE_MAX" using trees_node[OF t y(1)] by (simp add: node_ok_def)
    then show ?thesis using less.hyps[OF _ y(1)] c by simp
  qed
qed

text \<open>A chunk is between the sizes of a subchunk and its parent only if it has the size of the subchunk.\<close>

lemma no_size_between:
  assumes t: "trees S R Z" and y: "S q = Some y" "sh_subs y = Some qs" "p \<in> set qs" "S p = Some x"
    and z: "S r = Some z" "covers_addr z a" "covers_addr y a" "sh_size x < sh_size z" "sh_size z < sh_size y"
  shows False
proof -
  have c: "sh_size x = uvm_chunk_find_prev_size (Z (sh_type y)) (sh_size y)" "sh_size x < sh_size y" using trees_child[OF t y(1-3)] y(4) by auto
  have "sh_type z = sh_type y"
    using trees_type[OF t z(1)] trees_type[OF t y(1)] covers_root[OF t z(1,2)] covers_root[OF t y(1) z(3)] by auto
  then have "bit (Z (sh_type y)) (sh_size z)" using trees_node[OF t z(1)] by (simp add: node_ok_def)
  moreover have "sh_size y \<le> UVM_CHUNK_SIZE_MAX" using trees_node[OF t y(1)] by (simp add: node_ok_def)
  ultimately show False using prev_size(2)[of "sh_size y" "Z (sh_type y)" "sh_size z"] c z(4,5) by simp
qed

lemma same_size_eq:
  assumes t: "trees S R Z"
  shows "S p = Some x \<Longrightarrow> S q = Some y \<Longrightarrow> sh_size x = sh_size y \<Longrightarrow> covers_addr x a \<Longrightarrow> covers_addr y a \<Longrightarrow> p = q"
proof (induction "UVM_CHUNK_SIZE_MAX - sh_size x" arbitrary: p q x y rule: less_induct)
  case less
  show ?case
  proof (cases "sh_parent x")
    case None
    then have "sh_parent y = None" using trees_root(1)[OF t less.prems(1)] trees_root(1)[OF t less.prems(2)] less.prems(3) by simp
    then show ?thesis using None trees_root(2)[OF t less.prems(1)] trees_root(2)[OF t less.prems(2)] covers_root[OF t less.prems(1,4)] covers_root[OF t less.prems(2,5)] by simp
  next
    case (Some p')
    then obtain q' where q': "sh_parent y = Some q'"
      using trees_root(1)[OF t less.prems(1)] trees_root(1)[OF t less.prems(2)] less.prems(3) by (cases "sh_parent y") auto
    obtain x' ps where x': "S p' = Some x'" "sh_subs x' = Some ps" "p \<in> set ps" using trees_parent[OF t less.prems(1) Some] by auto
    obtain y' qs where y': "S q' = Some y'" "sh_subs y' = Some qs" "q \<in> set qs" using trees_parent[OF t less.prems(2) q'] by auto
    have cov: "covers_addr x' a" "covers_addr y' a" using covers_parent[OF t x' less.prems(1,4)] covers_parent[OF t y' less.prems(2,5)] .
    obtain i where i: "p = ps ! i" "sh_size x < sh_size x'" "sh_address x = sh_address x' + i * 2 ^ sh_size x" using trees_child[OF t x'] less.prems(1) by auto
    obtain j where j: "q = qs ! j" "sh_size y < sh_size y'" "sh_address y = sh_address y' + j * 2 ^ sh_size y" using trees_child[OF t y'] less.prems(2) by auto
    have "\<not> sh_size x' < sh_size y'" using no_size_between[OF t y' less.prems(2) x'(1) cov] i(2) less.prems(3) by auto
    moreover have "\<not> sh_size y' < sh_size x'" using no_size_between[OF t x' less.prems(1) y'(1) cov(2,1)] j(2) less.prems(3) by auto
    ultimately have "sh_size x' = sh_size y'" by simp
    moreover have "sh_size x' \<le> UVM_CHUNK_SIZE_MAX" using trees_node[OF t x'(1)] by (simp add: node_ok_def)
    ultimately have eq: "p' = q'" using less.hyps[OF _ x'(1) y'(1) _ cov] i(2) by simp
    have "sh_address x = sh_address y"
    proof -
      have "sh_address x div 2 ^ sh_size x = sh_address y div 2 ^ sh_size x"
        using less.prems(3-5) trees_covers[OF t less.prems(1)] trees_covers[OF t less.prems(2)] by simp
      moreover have "2 ^ sh_size x dvd sh_address x" "2 ^ sh_size x dvd sh_address y"
        using trees_node[OF t less.prems(1)] trees_node[OF t less.prems(2)] less.prems(3) by (auto simp: node_ok_def)
      ultimately show ?thesis by (metis dvd_div_mult_self)
    qed
    then have "i = j" using i(3) j(3) eq x'(1) y'(1) less.prems(3) by simp
    then show ?thesis using i(1) j(1) eq x' y' by simp
  qed
qed

lemma bigger_is_split:
  assumes t: "trees S R Z"
  shows "S p = Some x \<Longrightarrow> S q = Some y \<Longrightarrow> sh_size y < sh_size x \<Longrightarrow> covers_addr x a \<Longrightarrow> covers_addr y a \<Longrightarrow> sh_subs x \<noteq> None"
proof (induction "UVM_CHUNK_SIZE_MAX - sh_size y" arbitrary: q y rule: less_induct)
  case less
  have "sh_size x \<le> UVM_CHUNK_SIZE_MAX" using trees_node[OF t less.prems(1)] by (simp add: node_ok_def)
  then obtain q' where q': "sh_parent y = Some q'" using trees_root(1)[OF t less.prems(2)] less.prems(3) by (cases "sh_parent y") auto
  obtain y' qs where y': "S q' = Some y'" "sh_subs y' = Some qs" "q \<in> set qs" using trees_parent[OF t less.prems(2) q'] by auto
  have cov: "covers_addr y' a" by (rule covers_parent[OF t y' less.prems(2,5)])
  have s: "sh_size y < sh_size y'" using trees_child[OF t y'] less.prems(2) by auto
  consider "sh_size y' < sh_size x" | "sh_size y' = sh_size x" | "sh_size x < sh_size y'" by linarith
  then show ?case
  proof cases
    case 1
    then show ?thesis using less.hyps[OF _ less.prems(1) y'(1) _ less.prems(4) cov] s \<open>sh_size x \<le> UVM_CHUNK_SIZE_MAX\<close> by simp
  next
    case 2
    then show ?thesis using same_size_eq[OF t less.prems(1) y'(1) _ less.prems(4) cov] y'(1,2) less.prems(1) by auto
  next
    case 3
    then show ?thesis using no_size_between[OF t y' less.prems(2,1,4) cov less.prems(3)] by simp
  qed
qed

lemma leaves_disjoint:
  assumes t: "trees S R Z" and p: "S p = Some x" "sh_subs x = None" "covers_addr x a" and q: "S q = Some y" "sh_subs y = None" "covers_addr y a"
  shows "p = q"
proof (cases "sh_size x = sh_size y")
  case True
  then show ?thesis using same_size_eq[OF t p(1) q(1) _ p(3) q(3)] by simp
next
  case False
  then show ?thesis using bigger_is_split[OF t p(1) q(1) _ p(3) q(3)] bigger_is_split[OF t q(1) p(1) _ q(3) p(3)] p(2) q(2) by linarith
qed

section \<open>The counts\<close>

text \<open>
  \<open>allocated\<close> counts the subchunks that are not free; in a root chunk, \<open>pinned_leaf_chunks\<close> counts the pinned chunks below it.
\<close>

definition counts ::
    "('p \<Rightarrow> 'p shape option) \<Rightarrow> ('p \<Rightarrow> chunk_state option) \<Rightarrow> ('p \<Rightarrow> nat) \<Rightarrow> ('p \<Rightarrow> nat) \<Rightarrow> 'p list \<Rightarrow> bool" where
  "counts S T A N R \<longleftrightarrow>
     dom T = dom S \<and> (\<forall>p x. S p = Some x \<longrightarrow> (T p = Some CHUNK_STATE_IS_SPLIT \<longleftrightarrow> sh_subs x \<noteq> None)) \<and>
     (\<forall>p x qs. S p = Some x \<longrightarrow> sh_subs x = Some qs \<longrightarrow> A p = length (filter (\<lambda>q. T q \<noteq> Some CHUNK_STATE_FREE) qs)) \<and>
     (\<forall>r x qs. r \<in> set R \<longrightarrow> S r = Some x \<longrightarrow> sh_subs x = Some qs \<longrightarrow> N r = card {q. T q = Some CHUNK_STATE_TEMP_PINNED \<and> root_of S R q = r})"

lemma length_filter_change:
  assumes "distinct xs" "p \<in> set xs" "\<And>x. x \<noteq> p \<Longrightarrow> f x \<longleftrightarrow> g x"
  shows "length (filter g xs) + of_bool (f p) = length (filter f xs) + of_bool (g p)"
proof -
  obtain ys zs where xs: "xs = ys @ p # zs" using assms(2) by (auto simp: in_set_conv_decomp)
  then have "p \<notin> set ys" "p \<notin> set zs" using assms(1) by auto
  then have "filter f ys = filter g ys" "filter f zs = filter g zs" using assms(3) by (metis (mono_tags, lifting) filter_cong)+
  then show ?thesis using xs by simp
qed

lemma card_change:
  assumes "finite A" "B - {p} = A - {p}"
  shows "card B + of_bool (p \<in> A) = card A + of_bool (p \<in> B)"
proof -
  have c: "card X = card (X - {p}) + of_bool (p \<in> X)" if "finite X" for X :: "'a set"
    using that card.remove[OF that, of p] by (cases "p \<in> X") simp_all
  have "finite (B - {p})" using finite_Diff[OF assms(1), of "{p}"] assms(2) by simp
  then have "finite B" by simp
  then show ?thesis using assms(2) c[of A] c[of B] assms(1) by simp
qed

text \<open>A chunk that is not split changes its state to another one.\<close>

lemma counts_set_state:
  assumes t: "trees S R Z" and c: "counts S T A N R" and p: "S p = Some x" "sh_subs x = None" "s \<noteq> CHUNK_STATE_IS_SPLIT"
    and A: "\<And>q. sh_parent x = Some q \<Longrightarrow> A' q + of_bool (T p \<noteq> Some CHUNK_STATE_FREE) = A q + of_bool (s \<noteq> CHUNK_STATE_FREE)"
      "\<And>q. sh_parent x \<noteq> Some q \<Longrightarrow> A' q = A q"
    and N: "sh_parent x \<noteq> None \<Longrightarrow> N' (root_of S R p) + of_bool (T p = Some CHUNK_STATE_TEMP_PINNED) = N (root_of S R p) + of_bool (s = CHUNK_STATE_TEMP_PINNED)"
      "\<And>r. r \<noteq> root_of S R p \<Longrightarrow> N' r = N r"
  shows "counts S (T(p \<mapsto> s)) A' N' R"
  unfolding counts_def
proof (intro conjI allI impI)
  let ?T = "T(p \<mapsto> s)"
  show "dom ?T = dom S" using c p by (auto simp: counts_def)
  show "?T q = Some CHUNK_STATE_IS_SPLIT \<longleftrightarrow> sh_subs y \<noteq> None" if "S q = Some y" for q y
    using c p that by (auto simp: counts_def)
  show "A' q = length (filter (\<lambda>q. ?T q \<noteq> Some CHUNK_STATE_FREE) qs)" if q: "S q = Some y" "sh_subs y = Some qs" for q y qs
  proof -
    have A0: "A q = length (filter (\<lambda>q. T q \<noteq> Some CHUNK_STATE_FREE) qs)" using c q by (auto simp: counts_def)
    show ?thesis
    proof (cases "p \<in> set qs")
      case True
      then have "sh_parent x = Some q" using trees_child[OF t q True] p(1) by auto
      from A(1)[OF this] A0 show ?thesis
        using length_filter_change[OF trees_distinct[OF t q] True, of "\<lambda>q. T q \<noteq> Some CHUNK_STATE_FREE" "\<lambda>q. ?T q \<noteq> Some CHUNK_STATE_FREE"] by simp
    next
      case False
      then have "sh_parent x \<noteq> Some q" using trees_parent[OF t p(1)] q by auto
      moreover have "filter (\<lambda>q. ?T q \<noteq> Some CHUNK_STATE_FREE) qs = filter (\<lambda>q. T q \<noteq> Some CHUNK_STATE_FREE) qs" using False by (auto intro!: filter_cong)
      ultimately show ?thesis using A(2) A0 by simp
    qed
  qed
  show "N' r = card {q. ?T q = Some CHUNK_STATE_TEMP_PINNED \<and> root_of S R q = r}" if r: "r \<in> set R" "S r = Some y" "sh_subs y = Some qs" for r y qs
  proof -
    let ?B = "\<lambda>T. {q. T q = Some CHUNK_STATE_TEMP_PINNED \<and> root_of S R q = r}"
    have N0: "N r = card (?B T)" using c r by (auto simp: counts_def)
    show ?thesis
    proof (cases "r = root_of S R p")
      case True
      then have "sh_parent x \<noteq> None" using trees_root(2)[OF t p(1)] r(2,3) p(1,2) by (cases "sh_parent x = None") auto
      have "?B T \<subseteq> dom S" using c by (auto simp: counts_def)
      then have "finite (?B T)" using t by (metis finite_subset trees_def)
      moreover have "?B ?T - {p} = ?B T - {p}" by auto
      ultimately have "card (?B ?T) + of_bool (p \<in> ?B T) = card (?B T) + of_bool (p \<in> ?B ?T)" by (rule card_change)
      moreover have "p \<in> ?B T \<longleftrightarrow> T p = Some CHUNK_STATE_TEMP_PINNED" "p \<in> ?B ?T \<longleftrightarrow> s = CHUNK_STATE_TEMP_PINNED" using True by auto
      ultimately have "card (?B ?T) + of_bool (T p = Some CHUNK_STATE_TEMP_PINNED) = card (?B T) + of_bool (s = CHUNK_STATE_TEMP_PINNED)" by (simp only:)
      with N(1)[OF \<open>sh_parent x \<noteq> None\<close>] N0 show ?thesis unfolding True by linarith
    next
      case False
      then have "?B ?T = ?B T" by auto
      then show ?thesis using N(2)[OF False] N0 by simp
    qed
  qed
qed

section \<open>The invariant\<close>

text \<open>
  A chunk on a free list is free and has the type and size of the list, and a free chunk is on its list. The lists for eviction hold root chunks. The chunks of \<open>X\<close>
  are exempt: an operation is about to move them. No root chunk is being evicted.
\<close>

definition on_list :: "('p, 'v) pmm \<Rightarrow> chunk_list \<Rightarrow> 'p \<Rightarrow> bool" where
  "on_list P l p \<longleftrightarrow>
     (case l of Free_List t i z \<Rightarrow> states P p = Some CHUNK_STATE_FREE \<and> find_free_list_chunk P p = l | _ \<Rightarrow> p \<in> set (root_chunks P))"

definition lists_ok :: "'p set \<Rightarrow> ('p, 'v) pmm \<Rightarrow> bool" where
  "lists_ok X P \<longleftrightarrow>
     (\<forall>l p. p \<notin> X \<longrightarrow> p \<in> set (chunk_lists P l) \<longrightarrow> on_list P l p) \<and>
     (\<forall>p. p \<notin> X \<longrightarrow> states P p = Some CHUNK_STATE_FREE \<longrightarrow> p \<in> set (chunk_lists P (find_free_list_chunk P p)))"

definition pmm_ok :: "('p, 'v) pmm \<Rightarrow> bool" where
  "pmm_ok P \<longleftrightarrow> trees (shapes P) (root_chunks P) (chunk_sizes P) \<and> counts (shapes P) (states P) (allocs P) (pins P) (root_chunks P) \<and>
     lists_ok {} P \<and> (\<forall>p. \<not> evicts P p)"

text \<open>Chunks without a chunk in use below them are merged, and only root chunks are owned by the physical memory allocator.\<close>

definition pma_top :: "('p, 'v) pmm \<Rightarrow> bool" where
  "pma_top P \<longleftrightarrow> (\<forall>p x. shapes P p = Some x \<longrightarrow> states P p = Some CHUNK_STATE_PMA_OWNED \<longrightarrow> sh_parent x = None)"

definition merged :: "('p, 'v) pmm \<Rightarrow> bool" where
  "merged P \<longleftrightarrow> (\<forall>p x qs. shapes P p = Some x \<longrightarrow> sh_subs x = Some qs \<longrightarrow> 0 < allocs P p) \<and> pma_top P"

lemma mergedI: "(\<And>p x qs. shapes P p = Some x \<Longrightarrow> sh_subs x = Some qs \<Longrightarrow> 0 < allocs P p) \<Longrightarrow> pma_top P \<Longrightarrow> merged P"
  by (auto simp: merged_def)

lemma mergedD: "merged P \<Longrightarrow> shapes P p = Some x \<Longrightarrow> sh_subs x = Some qs \<Longrightarrow> 0 < allocs P p" "merged P \<Longrightarrow> pma_top P"
  by (auto simp: merged_def)

lemma pma_top_set: "pma_top P \<Longrightarrow> shapes P' = shapes P \<Longrightarrow> states P' = (states P)(p \<mapsto> s) \<Longrightarrow> s \<noteq> CHUNK_STATE_PMA_OWNED \<Longrightarrow> pma_top P'"
  by (auto simp: pma_top_def)

lemma pmm_okD:
  assumes "pmm_ok P"
  shows "trees (shapes P) (root_chunks P) (chunk_sizes P)" "counts (shapes P) (states P) (allocs P) (pins P) (root_chunks P)" "lists_ok {} P" "\<not> evicts P p"
  using assms by (simp_all add: pmm_ok_def)

lemma root_chunk_eq: "shapes P p = Some x \<Longrightarrow> root_chunk_from_chunk P p = root_of (shapes P) (root_chunks P) p"
  by (simp add: root_chunk_from_chunk_def root_of_def get_views)

lemma free_list_eq: "shapes P p = Some x \<Longrightarrow> find_free_list_chunk P p = find_free_list P (sh_type x) (sh_size x) (zeros P p)"
  by (simp add: find_free_list_chunk_def get_views Let_def)

lemma find_free_list_cong: "chunk_sizes P' = chunk_sizes P \<Longrightarrow> find_free_list P' = find_free_list P"
  by (simp add: fun_eq_iff find_free_list_def)

text \<open>Different sizes of a type have different lists.\<close>

lemma free_list_inj:
  assumes "find_free_list P t j z = find_free_list P t' k z'" "bit (chunk_sizes P t) j" "bit (chunk_sizes P t) k"
  shows "t = t' \<and> j = k \<and> z = z'"
proof -
  have t: "t = t'" "z = z'" and l: "length (filter (bit (chunk_sizes P t)) [0..<j]) = length (filter (bit (chunk_sizes P t)) [0..<k])"
    using assms(1) by (auto simp: find_free_list_def)
  have less: "length (filter f [0..<i]) < length (filter f [0..<m])" if "i < m" "f i" for f :: "nat \<Rightarrow> bool" and i m
  proof -
    have "[0..<m] = [0..<i] @ i # [Suc i..<m]" using that(1) by (metis le0 less_imp_le_nat upt_add_eq_append upt_conv_Cons le_add_diff_inverse)
    then show ?thesis using that(2) by simp
  qed
  show ?thesis using t l less[of j k] less[of k j] assms(2,3) by (metis less_irrefl linorder_neqE_nat)
qed

text \<open>The chunks in use: those that are pinned or allocated.\<close>

definition held :: "('p, 'v) pmm \<Rightarrow> 'p \<Rightarrow> ('p, 'v) gpu_chunk option" where
  "held P p = (case gpu_chunks P p of
     None \<Rightarrow> None | Some c \<Rightarrow> if chunk_state c \<in> {CHUNK_STATE_TEMP_PINNED, CHUNK_STATE_ALLOCATED} then Some c else None)"

lemma held_lists [simp]: "held (list_del_init p P) = held P" "held (list_move_tail p l P) = held P"
  by (simp_all add: fun_eq_iff held_def)

lemma held_suballoc: "states P p = Some CHUNK_STATE_IS_SPLIT \<Longrightarrow> held (upd_suballoc p g P) = held P"
  by (auto simp: fun_eq_iff held_def states_def upd_suballoc_def)

lemma held_upd: "gpu_chunks P p = Some c \<Longrightarrow> held (upd_chunk p f P) =
    (held P)(p := if chunk_state (f c) \<in> {CHUNK_STATE_TEMP_PINNED, CHUNK_STATE_ALLOCATED} then Some (f c) else None)"
  by (auto simp: fun_eq_iff held_def)

section \<open>Lists\<close>

lemma lists_frame:
  assumes ok: "lists_ok X P" and P': "chunk_lists P' = chunk_lists P" "root_chunks P' = root_chunks P" "chunk_sizes P' = chunk_sizes P"
    and dom: "dom (states P) = dom (shapes P)" "dom (states P') = dom (shapes P')"
    and same: "\<And>q. q \<notin> Y \<Longrightarrow> shapes P' q = shapes P q \<and> states P' q = states P q \<and> zeros P' q = zeros P q"
  shows "lists_ok (X \<union> Y) P'"
proof -
  have f: "find_free_list_chunk P' q = find_free_list_chunk P q" if "states P q = Some CHUNK_STATE_FREE" "q \<notin> Y" for q
  proof -
    have "q \<in> dom (shapes P)" using dom(1) that(1) by blast
    then obtain x where x: "shapes P q = Some x" by blast
    have "shapes P' q = Some x" "zeros P' q = zeros P q" using same[OF that(2)] x by auto
    then show ?thesis using find_free_list_cong[OF P'(3)] free_list_eq[OF x] free_list_eq[of P' q x] by (simp only:)
  qed
  have on: "on_list P' l q \<longleftrightarrow> on_list P l q" if "q \<notin> Y" for l q
    using same[OF that] f[OF _ that] P'(2) by (cases l) (auto simp: on_list_def)
  show ?thesis
    unfolding lists_ok_def P'(1)
  proof (intro conjI allI impI)
    fix l q assume q: "q \<notin> X \<union> Y" "q \<in> set (chunk_lists P l)"
    then show "on_list P' l q" using ok on[of q l] unfolding lists_ok_def by blast
  next
    fix q assume q: "q \<notin> X \<union> Y" "states P' q = Some CHUNK_STATE_FREE"
    then have s: "states P q = Some CHUNK_STATE_FREE" using same[of q] by simp
    then show "q \<in> set (chunk_lists P (find_free_list_chunk P' q))" using ok q f[OF s] unfolding lists_ok_def by simp
  qed
qed

lemma find_free_list_chunk_lists [simp]:
  "find_free_list_chunk (list_del_init p P) q = find_free_list_chunk P q" "find_free_list_chunk (list_move_tail p l P) q = find_free_list_chunk P q"
  by (simp_all add: find_free_list_chunk_def find_free_list_def get_chunk_def Let_def)

lemma on_list_lists [simp]: "on_list (list_del_init p P) = on_list P" "on_list (list_move_tail p l P) = on_list P"
  by (simp_all add: fun_eq_iff on_list_def split: chunk_list.split)

lemma lists_del:
  assumes "lists_ok X P" "states P p \<noteq> Some CHUNK_STATE_FREE"
  shows "lists_ok (X - {p}) (list_del_init p P)"
  using assms by (auto simp: lists_ok_def) (auto simp: list_del_init_def)

lemma lists_move:
  assumes "lists_ok X P" "on_list P l p" "states P p = Some CHUNK_STATE_FREE \<Longrightarrow> find_free_list_chunk P p = l"
  shows "lists_ok (X - {p}) (list_move_tail p l P)"
  using assms by (auto simp: lists_ok_def) (auto simp: list_del_init_def list_move_tail_def Let_def split: if_splits)

lemma update_lists_views [simp]:
  "shapes (chunk_update_lists_locked p P) = shapes P" "states (chunk_update_lists_locked p P) = states P" "allocs (chunk_update_lists_locked p P) = allocs P"
  "pins (chunk_update_lists_locked p P) = pins P" "zeros (chunk_update_lists_locked p P) = zeros P" "evicts (chunk_update_lists_locked p P) = evicts P"
  "held (chunk_update_lists_locked p P) = held P" "root_chunks (chunk_update_lists_locked p P) = root_chunks P"
  "chunk_sizes (chunk_update_lists_locked p P) = chunk_sizes P" "gpu_chunks (chunk_update_lists_locked p P) = gpu_chunks P"
  by (simp_all add: chunk_update_lists_locked_def Let_def)

text \<open>After a change of the state of \<open>p\<close>, updating the lists makes them right again.\<close>

lemma update_lists_ok:
  assumes t: "trees (shapes P) (root_chunks P) (chunk_sizes P)" and ok: "lists_ok {p} P" and p: "shapes P p = Some x"
    and alloc: "states P p \<noteq> Some CHUNK_STATE_FREE \<Longrightarrow> states P p \<noteq> Some CHUNK_STATE_TEMP_PINNED \<Longrightarrow> lists_ok {} P"
  shows "lists_ok {} (chunk_update_lists_locked p P)"
proof -
  define r where "r = root_chunk_from_chunk P p"
  have r: "r \<in> set (root_chunks P)" using trees_root(3)[OF t p] root_chunk_eq[OF p] by (simp add: r_def)
  then obtain y where y: "shapes P r = Some y" using t by (auto simp: trees_def in_set_conv_nth)
  define P1 where "P1 = (if uvm_pmm_gpu_memory_type_is_user (chunk_type (get_chunk P p))
    then if chunk_is_root_chunk_pinned P p then list_del_init r P
         else if chunk_state (get_chunk P r) \<noteq> CHUNK_STATE_FREE then list_move_tail r Va_Block_Used P else P else P)"
  have st: "states P q = Some (chunk_state (get_chunk P q))" if "shapes P q = Some z" for q z using get_views(5)[OF that] .
  have pinned: "states P r \<noteq> Some CHUNK_STATE_FREE" if "chunk_is_root_chunk_pinned P p"
    using that st[OF y] by (auto simp: chunk_is_root_chunk_pinned_def Let_def r_def split: if_splits)
  have keep: "lists_ok X P1" if "lists_ok X P" "X \<subseteq> {p}" for X
  proof -
    have sub: "lists_ok X Q" if "lists_ok (X - {r}) Q" for Q :: "('a, 'b) pmm" using that by (auto simp: lists_ok_def)
    show ?thesis using \<open>lists_ok X P\<close> sub lists_del[OF \<open>lists_ok X P\<close>] lists_move[OF \<open>lists_ok X P\<close>, of Va_Block_Used r] pinned st[OF y] r
      by (auto simp: P1_def on_list_def)
  qed
  have P1: "states P1 = states P" "get_chunk P1 = get_chunk P" "find_free_list_chunk P1 p = find_free_list_chunk P p" "on_list P1 = on_list P"
    by (auto simp: P1_def get_chunk_def fun_eq_iff)
  have e: "chunk_update_lists_locked p P = (if chunk_state (get_chunk P p) = CHUNK_STATE_FREE then list_move_tail p (find_free_list_chunk P p) P1
      else if chunk_state (get_chunk P p) = CHUNK_STATE_TEMP_PINNED then list_del_init p P1 else P1)"
    unfolding chunk_update_lists_locked_def Let_def r_def[symmetric] P1_def[symmetric] P1(2,3) ..
  consider "states P p = Some CHUNK_STATE_FREE" | "states P p = Some CHUNK_STATE_TEMP_PINNED" | "states P p \<noteq> Some CHUNK_STATE_FREE" "states P p \<noteq> Some CHUNK_STATE_TEMP_PINNED" by blast
  then show ?thesis
  proof cases
    case 1
    then have "on_list P1 (find_free_list_chunk P p) p" using P1 by (simp add: on_list_def find_free_list_chunk_def find_free_list_def Let_def)
    from lists_move[OF keep[OF ok] this] show ?thesis using 1 st[OF p] e P1 by simp
  next
    case 2
    from lists_del[OF keep[OF ok], of p] show ?thesis using 2 st[OF p] e P1 by simp
  next
    case 3
    then show ?thesis using keep[OF alloc] st[OF p] e by simp
  qed
qed

end
