(* ===== verification/Pmm_Chunks.thy ===== *)
theory Pmm_Chunks
  imports Pmm_Trees
begin

text \<open>
  What the operations on one chunk do to the invariant and to the chunks in use: claiming, freeing, splitting, merging, and the loop that frees a chunk and merges its parents.
\<close>

unbundle bit_operations_syntax

section \<open>Changing the state of a chunk\<close>

text \<open>The part of the invariant the counts and lists do not matter for.\<close>

definition chunk_tree_ok :: "('p, 'v) pmm \<Rightarrow> bool" where
  "chunk_tree_ok P \<longleftrightarrow> trees (shapes P) (root_chunks P) (chunk_sizes P) \<and>
     (\<forall>p x. shapes P p = Some x \<longrightarrow> (states P p = Some CHUNK_STATE_IS_SPLIT \<longleftrightarrow> sh_subs x \<noteq> None))"

lemma tree_okD: "chunk_tree_ok P \<Longrightarrow> trees (shapes P) (root_chunks P) (chunk_sizes P)" by (simp add: chunk_tree_ok_def)

lemma pmm_chunk_tree_ok: "pmm_ok P \<Longrightarrow> chunk_tree_ok P" by (simp add: pmm_ok_def chunk_tree_ok_def counts_def)

lemma tree_ok_cong: "chunk_tree_ok P \<Longrightarrow> shapes P' = shapes P \<Longrightarrow> states P' = states P \<Longrightarrow> root_chunks P' = root_chunks P \<Longrightarrow> chunk_sizes P' = chunk_sizes P \<Longrightarrow> chunk_tree_ok P'"
  by (simp add: chunk_tree_ok_def)

lemma root_facts:
  assumes ok: "chunk_tree_ok P" and p: "shapes P p = Some x"
  defines "r \<equiv> root_of (shapes P) (root_chunks P) p"
  shows "r \<in> set (root_chunks P)" "root_chunk_from_chunk P p = r" "chunk_is_root_chunk P p \<longleftrightarrow> sh_parent x = None"
    "sh_parent x = None \<Longrightarrow> r = p" "sh_parent x \<noteq> None \<Longrightarrow> r \<noteq> p"
    "sh_parent x \<noteq> None \<Longrightarrow> \<exists>y ys. shapes P r = Some y \<and> sh_subs y = Some ys \<and> states P r = Some CHUNK_STATE_IS_SPLIT"
proof -
  note t = tree_okD[OF ok]
  show r: "r \<in> set (root_chunks P)" and "root_chunk_from_chunk P p = r" using trees_root(3)[OF t p] root_chunk_eq[OF p] by (simp_all add: r_def)
  show "chunk_is_root_chunk P p \<longleftrightarrow> sh_parent x = None" using trees_root(1)[OF t p] by (simp add: chunk_is_root_chunk_def get_views[OF p])
  show "sh_parent x = None \<Longrightarrow> r = p" using trees_root(2)[OF t p] by (simp add: r_def)
  show "sh_parent x \<noteq> None \<Longrightarrow> r \<noteq> p" using trees_root(4)[OF t p] r by auto
  show "\<exists>y ys. shapes P r = Some y \<and> sh_subs y = Some ys \<and> states P r = Some CHUNK_STATE_IS_SPLIT" if par: "sh_parent x \<noteq> None"
  proof -
    obtain y ys where y: "shapes P r = Some y" "sh_subs y = Some ys" using trees_child_root_split[OF t p par] by (auto simp: r_def)
    moreover have "states P r = Some CHUNK_STATE_IS_SPLIT" using ok y by (simp add: chunk_tree_ok_def)
    ultimately show ?thesis by blast
  qed
qed

text \<open>The state of a split chunk, and the parent of a chunk.\<close>

lemma split_state: "pmm_ok P \<Longrightarrow> shapes P p = Some x \<Longrightarrow> states P p = Some CHUNK_STATE_IS_SPLIT \<longleftrightarrow> sh_subs x \<noteq> None"
  by (drule pmm_okD(2)) (simp add: counts_def)

lemma parent_facts:
  assumes ok: "pmm_ok P" and p: "shapes P p = Some x" "sh_parent x = Some q"
  shows "\<exists>y qs. shapes P q = Some y \<and> sh_subs y = Some qs \<and> states P q = Some CHUNK_STATE_IS_SPLIT \<and> p \<in> set qs \<and> q \<noteq> p \<and> sh_size x < sh_size y \<and>
    sh_type x = sh_type y \<and> root_of (shapes P) (root_chunks P) p = root_of (shapes P) (root_chunks P) q \<and>
    allocs P q = length (filter (\<lambda>q. states P q \<noteq> Some CHUNK_STATE_FREE) qs)"
proof -
  note t = pmm_okD(1)[OF ok]
  obtain y qs where y: "shapes P q = Some y" "sh_subs y = Some qs" "p \<in> set qs" using trees_parent[OF t p] by auto
  have c: "sh_size x < sh_size y" "sh_type x = sh_type y" "root_of (shapes P) (root_chunks P) p = root_of (shapes P) (root_chunks P) q"
    using trees_child[OF t y] p(1) by auto
  have a: "allocs P q = length (filter (\<lambda>q. states P q \<noteq> Some CHUNK_STATE_FREE) qs)" using pmm_okD(2)[OF ok] y(1,2) by (auto simp: counts_def)
  show ?thesis
    using y c a split_state[OF ok y(1)] p(1) by (intro exI[of _ y] exI[of _ qs]) auto
qed

lemma chunk_pin_eq:
  assumes ok: "chunk_tree_ok P" and p: "shapes P p = Some x"
  defines "U s \<equiv> upd_chunk p (\<lambda>c. c\<lparr>chunk_state := s\<rparr>) P" and "r \<equiv> root_of (shapes P) (root_chunks P) p"
  shows "chunk_pin p P = (if sh_parent x = None then U CHUNK_STATE_TEMP_PINNED
      else upd_suballoc r (\<lambda>a. a\<lparr>pinned_leaf_chunks := pinned_leaf_chunks a + 1\<rparr>) (U CHUNK_STATE_TEMP_PINNED))"
    "chunk_unpin p s P = (if sh_parent x = None then U s
      else upd_suballoc r (\<lambda>a. a\<lparr>pinned_leaf_chunks := pinned_leaf_chunks a - 1\<rparr>) (U s))"
proof -
  have "chunk_is_root_chunk (U s) p \<longleftrightarrow> sh_parent x = None" for s
    using root_facts(3)[OF ok p] p by (simp add: U_def chunk_is_root_chunk_def get_chunk_def shapes_def) auto
  then show "chunk_pin p P = (if sh_parent x = None then U CHUNK_STATE_TEMP_PINNED
      else upd_suballoc r (\<lambda>a. a\<lparr>pinned_leaf_chunks := pinned_leaf_chunks a + 1\<rparr>) (U CHUNK_STATE_TEMP_PINNED))"
    "chunk_unpin p s P = (if sh_parent x = None then U s
      else upd_suballoc r (\<lambda>a. a\<lparr>pinned_leaf_chunks := pinned_leaf_chunks a - 1\<rparr>) (U s))"
    using root_facts(2)[OF ok p] by (simp_all add: chunk_pin_def chunk_unpin_def U_def[symmetric] Let_def r_def)
qed

lemma pmm_gpu_dom: "shapes P p = Some x \<Longrightarrow> \<exists>c. gpu_chunks P p = Some c \<and> shape_of c = x" by (auto simp: shapes_def)

lemma shape_of_state [simp]: "shape_of (c\<lparr>chunk_state := s\<rparr>) = shape_of c" by (simp add: shape_of_def)

text \<open>The states of the chunks in use.\<close>

abbreviation in_use :: "chunk_state \<Rightarrow> bool" where "in_use s \<equiv> s \<in> {CHUNK_STATE_TEMP_PINNED, CHUNK_STATE_ALLOCATED}"

lemma state_views:
  fixes s :: chunk_state
  assumes ok: "chunk_tree_ok P" and p: "shapes P p = Some x"
  defines "r \<equiv> root_of (shapes P) (root_chunks P) p" and "U \<equiv> upd_chunk p (\<lambda>c. c\<lparr>chunk_state := s\<rparr>) P"
  assumes e: "P' = (if sh_parent x = None then U else upd_suballoc r (\<lambda>a. a\<lparr>pinned_leaf_chunks := h (pinned_leaf_chunks a)\<rparr>) U)"
  shows "shapes P' = shapes P" "states P' = (states P)(p \<mapsto> s)" "allocs P' = allocs P"
    "pins P' = (if sh_parent x = None then pins P else (pins P)(r := h (pins P r)))" "zeros P' = zeros P" "evicts P' = evicts P"
    "root_chunks P' = root_chunks P" "chunk_sizes P' = chunk_sizes P" "chunk_lists P' = chunk_lists P"
    "held P' = (held P)(p := if in_use s then Some ((get_chunk P p)\<lparr>chunk_state := s\<rparr>) else None)"
proof -
  let ?g = "\<lambda>a. a\<lparr>pinned_leaf_chunks := h (pinned_leaf_chunks a)\<rparr>"
  obtain c' where c': "gpu_chunks P p = Some c'" using p(1) by (auto simp: shapes_def)
  have st: "states U = (states P)(p \<mapsto> s)" unfolding U_def using c' by (intro states_set) auto
  have sh: "shapes U = shapes P" by (simp add: U_def)
  show "shapes P' = shapes P" "states P' = (states P)(p \<mapsto> s)" "allocs P' = allocs P"
    "zeros P' = zeros P" "evicts P' = evicts P" "root_chunks P' = root_chunks P" "chunk_sizes P' = chunk_sizes P" "chunk_lists P' = chunk_lists P"
    using st by (simp_all add: e) (simp_all add: U_def)
  have h: "held U = (held P)(p := if in_use s then Some ((get_chunk P p)\<lparr>chunk_state := s\<rparr>) else None)" using held_upd[OF c'] by (simp add: U_def get_chunk_def c')
  have "pins P' = (pins P)(r := h (pins P r)) \<and> held P' = held U" if par: "sh_parent x \<noteq> None"
  proof
    obtain y ys where y: "shapes P r = Some y" "sh_subs y = Some ys" "states P r = Some CHUNK_STATE_IS_SPLIT" using root_facts(6)[OF ok p(1) par] by (auto simp: r_def)
    have "r \<noteq> p" using root_facts(5)[OF ok p(1) par] by (simp add: r_def)
    then have "held (upd_suballoc r ?g U) = held U" using y(3) by (intro held_suballoc) (simp add: st)
    then show "held P' = held U" using par e by simp
    have "pins (upd_suballoc r ?g U) = (pins U)(r := h (pins U r))" using y by (intro pins_set[where qs = ys]) (auto simp: sh domIff simp del: dom_shapes)
    then show "pins P' = (pins P)(r := h (pins P r))" using par e by (auto simp: U_def)
  qed
  note par = this
  have root: "P' = U" if "sh_parent x = None" using e that by simp
  show "pins P' = (if sh_parent x = None then pins P else (pins P)(r := h (pins P r)))"
    using par root by (cases "sh_parent x = None") (auto simp: U_def)
  have "held P' = held U" using par root by (cases "sh_parent x = None") simp_all
  then show "held P' = (held P)(p := if in_use s then Some ((get_chunk P p)\<lparr>chunk_state := s\<rparr>) else None)" using h by simp
qed

lemmas pin_views = state_views[OF _ _ chunk_pin_eq(1)]
lemmas unpin_views = state_views[OF _ _ chunk_pin_eq(2)]

text \<open>A step that changes the state of one chunk that is not split, and then updates the lists, keeps the invariant.\<close>

lemma set_state_ok:
  assumes ok: "pmm_ok P" and p: "shapes P p = Some x" "sh_subs x = None"
    and same: "root_chunks P' = root_chunks P" "chunk_lists P' = chunk_lists P" "chunk_sizes P' = chunk_sizes P" "shapes P' = shapes P" "states P' = (states P)(p \<mapsto> s)"
      "\<And>q. q \<noteq> p \<Longrightarrow> zeros P' q = zeros P q" "evicts P' = evicts P"
    and s: "s \<noteq> CHUNK_STATE_IS_SPLIT" "s \<noteq> CHUNK_STATE_FREE \<Longrightarrow> s \<noteq> CHUNK_STATE_TEMP_PINNED \<Longrightarrow> \<forall>l. p \<notin> set (chunk_lists P l)"
    and A: "\<And>q. sh_parent x = Some q \<Longrightarrow> allocs P' q + of_bool (states P p \<noteq> Some CHUNK_STATE_FREE) = allocs P q + of_bool (s \<noteq> CHUNK_STATE_FREE)"
      "\<And>q. sh_parent x \<noteq> Some q \<Longrightarrow> allocs P' q = allocs P q"
    and N: "sh_parent x \<noteq> None \<Longrightarrow> pins P' (root_of (shapes P) (root_chunks P) p) + of_bool (states P p = Some CHUNK_STATE_TEMP_PINNED) =
        pins P (root_of (shapes P) (root_chunks P) p) + of_bool (s = CHUNK_STATE_TEMP_PINNED)"
      "\<And>r. r \<noteq> root_of (shapes P) (root_chunks P) p \<Longrightarrow> pins P' r = pins P r"
  shows "pmm_ok (chunk_update_lists_locked p P')"
proof -
  note t = pmm_okD(1)[OF ok]
  have c: "counts (shapes P) (states P') (allocs P') (pins P') (root_chunks P)"
    unfolding same(5) by (rule counts_set_state[OF t pmm_okD(2)[OF ok] p s(1) A N])
  have l: "lists_ok ({} \<union> {p}) P'" by (rule lists_frame[OF pmm_okD(3)[OF ok] same(2,1,3)]) (use same(4-6) p(1) in \<open>auto simp: shapes_def\<close>)
  have "lists_ok {} P'" if s': "s \<noteq> CHUNK_STATE_FREE" "s \<noteq> CHUNK_STATE_TEMP_PINNED"
  proof -
    have "\<forall>l. p \<notin> set (chunk_lists P' l)" "states P' p \<noteq> Some CHUNK_STATE_FREE" using s(2)[OF s'] s'(1) same(2,5) by simp_all
    with l show ?thesis unfolding lists_ok_def by (metis Un_empty_left empty_iff singletonD)
  qed
  then have "lists_ok {} (chunk_update_lists_locked p P')"
    by (intro update_lists_ok[where x = x]) (use l t p same in auto)
  then show ?thesis using t c same pmm_okD(4)[OF ok] by (simp add: pmm_ok_def)
qed

lemma not_free_no_free_list:
  assumes "pmm_ok P" "states P p \<noteq> Some CHUNK_STATE_FREE"
  shows "pmm_ok (list_del_init p P)"
proof -
  have "lists_ok ({} - {p}) (list_del_init p P)" by (rule lists_del[OF pmm_okD(3)[OF assms(1)] assms(2)])
  then show ?thesis using assms(1) by (simp add: pmm_ok_def)
qed

section \<open>Claiming and freeing a chunk\<close>

lemma in_use_leaf:
  assumes ok: "pmm_ok P" and p: "states P p = Some s" "s \<noteq> CHUNK_STATE_IS_SPLIT"
  shows "\<exists>x. shapes P p = Some x \<and> sh_subs x = None"
proof -
  obtain x where x: "shapes P p = Some x" using p(1) by (auto simp: states_def shapes_def)
  then show ?thesis using split_state[OF ok x] p by auto
qed

lemma held_state: "held P p = Some c \<Longrightarrow> states P p = Some (chunk_state c) \<and> in_use (chunk_state c) \<and> get_chunk P p = c"
  by (auto simp: held_def states_def get_chunk_def split: option.splits if_splits)

lemma heldI: "states P p = Some s \<Longrightarrow> in_use s \<Longrightarrow> held P p = Some (get_chunk P p)"
  by (auto simp: held_def states_def get_chunk_def)

lemma not_held: "states P p = Some s \<Longrightarrow> \<not> in_use s \<Longrightarrow> held P p = None"
  by (auto simp: held_def states_def)

text \<open>Counting one more or one less subchunk of the parent.\<close>

lemma parent_count_views:
  fixes h :: "nat \<Rightarrow> nat"
  assumes ok: "pmm_ok P" and p: "shapes P p = Some x"
  defines "P' \<equiv> case sh_parent x of None \<Rightarrow> P | Some q \<Rightarrow> upd_suballoc q (\<lambda>a. a\<lparr>sub_allocated := h (sub_allocated a)\<rparr>) P"
  shows "shapes P' = shapes P" "states P' = states P" "pins P' = pins P" "zeros P' = zeros P" "evicts P' = evicts P" "root_chunks P' = root_chunks P"
    "chunk_sizes P' = chunk_sizes P" "chunk_lists P' = chunk_lists P" "held P' = held P"
    "allocs P' = (case sh_parent x of None \<Rightarrow> allocs P | Some q \<Rightarrow> (allocs P)(q := h (allocs P q)))" "get_chunk P' p = get_chunk P p"
proof -
  show "shapes P' = shapes P" "states P' = states P" "pins P' = pins P" "zeros P' = zeros P" "evicts P' = evicts P" "root_chunks P' = root_chunks P"
    "chunk_sizes P' = chunk_sizes P" "chunk_lists P' = chunk_lists P" by (simp_all add: P'_def split: option.split)
  show "held P' = held P" "allocs P' = (case sh_parent x of None \<Rightarrow> allocs P | Some q \<Rightarrow> (allocs P)(q := h (allocs P q)))" "get_chunk P' p = get_chunk P p"
  proof (atomize (full), cases "sh_parent x")
    case (Some q)
    obtain y qs where y: "shapes P q = Some y" "sh_subs y = Some qs" "states P q = Some CHUNK_STATE_IS_SPLIT" "q \<noteq> p" using parent_facts[OF ok p Some] by auto
    have "allocs (upd_suballoc q (\<lambda>a. a\<lparr>sub_allocated := h (sub_allocated a)\<rparr>) P) = (allocs P)(q := h (allocs P q))"
      using y by (intro allocs_set[where qs = qs]) (auto simp: domIff simp del: dom_shapes)
    then show "held P' = held P \<and> allocs P' = (case sh_parent x of None \<Rightarrow> allocs P | Some q \<Rightarrow> (allocs P)(q := h (allocs P q))) \<and> get_chunk P' p = get_chunk P p"
      using Some held_suballoc[OF y(3)] y(4) by (simp add: P'_def upd_suballoc_def get_chunk_def)
  qed (simp add: P'_def)
qed

text \<open>The chunks below which something is in use, when the subchunks of \<open>q\<close> are.\<close>

lemma merged_frame:
  assumes "merged P" "shapes P' = shapes P" "\<And>q. allocs P q \<le> allocs P' q" "pma_top P'"
  shows "merged P'"
proof (rule mergedI)
  fix p x qs assume "shapes P' p = Some x" "sh_subs x = Some qs"
  then have "0 < allocs P p" using mergedD(1)[OF assms(1)] assms(2) by simp
  then show "0 < allocs P' p" using assms(3)[of p] by linarith
qed (rule assms(4))

lemma claim_found_chunk_ok:
  assumes ok: "pmm_ok P" and free: "states P p = Some CHUNK_STATE_FREE"
  shows "pmm_ok (claim_found_chunk p P)" "merged P \<Longrightarrow> merged (claim_found_chunk p P)" "shapes (claim_found_chunk p P) = shapes P"
    "states (claim_found_chunk p P) = (states P)(p \<mapsto> CHUNK_STATE_TEMP_PINNED)"
    "held (claim_found_chunk p P) = (held P)(p \<mapsto> (get_chunk P p)\<lparr>chunk_state := CHUNK_STATE_TEMP_PINNED\<rparr>)"
    "root_chunks (claim_found_chunk p P) = root_chunks P" "chunk_sizes (claim_found_chunk p P) = chunk_sizes P"
proof -
  obtain x where x: "shapes P p = Some x" "sh_subs x = None" using in_use_leaf[OF ok free] by auto
  define P1 where "P1 = (case sh_parent x of None \<Rightarrow> P | Some q \<Rightarrow> upd_suballoc q (\<lambda>a. a\<lparr>sub_allocated := sub_allocated a + 1\<rparr>) P)"
  note v1 = parent_count_views[OF ok x(1), where h = "\<lambda>n. n + 1", folded P1_def]
  have t1: "chunk_tree_ok P1" by (rule tree_ok_cong[OF pmm_chunk_tree_ok[OF ok] v1(1,2,6,7)])
  have x1: "shapes P1 p = Some x" using v1(1) x(1) by simp
  note v2 = pin_views[OF t1 x1 t1 x1, unfolded v1]
  have e: "claim_found_chunk p P = chunk_update_lists_locked p (chunk_pin p P1)" using get_views(4)[OF x(1)] by (simp add: claim_found_chunk_def P1_def)
  show "pmm_ok (claim_found_chunk p P)"
    unfolding e by (rule set_state_ok[OF ok x v2(7,9,8,1,2)]) (auto simp: v2 free split: option.split)
  show "shapes (claim_found_chunk p P) = shapes P" "states (claim_found_chunk p P) = (states P)(p \<mapsto> CHUNK_STATE_TEMP_PINNED)"
    "held (claim_found_chunk p P) = (held P)(p \<mapsto> (get_chunk P p)\<lparr>chunk_state := CHUNK_STATE_TEMP_PINNED\<rparr>)"
    "root_chunks (claim_found_chunk p P) = root_chunks P" "chunk_sizes (claim_found_chunk p P) = chunk_sizes P"
    by (simp_all add: e v2)
  show "merged P \<Longrightarrow> merged (claim_found_chunk p P)" by (rule merged_frame[where P = P]) (auto simp: e v2 split: option.split intro: pma_top_set[OF mergedD(2)])
qed

lemma not_in_eviction:
  assumes ok: "pmm_ok P" and p: "shapes P p = Some x"
  shows "\<not> chunk_is_in_eviction P p"
proof -
  note t = pmm_okD(1)[OF ok]
  have "root_chunk_from_chunk P p \<in> set (root_chunks P)" using root_facts(1,2)[OF pmm_chunk_tree_ok[OF ok] p] by simp
  then obtain y where y: "shapes P (root_chunk_from_chunk P p) = Some y" using t by (auto simp: trees_def in_set_conv_nth)
  then show ?thesis using get_views(9)[OF y] pmm_okD(4)[OF ok] by (simp add: chunk_is_in_eviction_def)
qed

text \<open>A subchunk in use is counted by its parent, and by its root chunk when it is pinned.\<close>

lemma counted:
  assumes ok: "pmm_ok P" and p: "shapes P p = Some x" "sh_parent x = Some q"
  shows "states P p \<noteq> Some CHUNK_STATE_FREE \<Longrightarrow> 0 < allocs P q"
    "states P p = Some CHUNK_STATE_TEMP_PINNED \<Longrightarrow> 0 < pins P (root_of (shapes P) (root_chunks P) p)"
proof -
  obtain y qs where y: "shapes P q = Some y" "p \<in> set qs" "allocs P q = length (filter (\<lambda>q. states P q \<noteq> Some CHUNK_STATE_FREE) qs)"
    using parent_facts[OF ok p] by auto
  show "0 < allocs P q" if "states P p \<noteq> Some CHUNK_STATE_FREE" using y that by (auto simp: filter_empty_conv)
  assume s: "states P p = Some CHUNK_STATE_TEMP_PINNED"
  let ?r = "root_of (shapes P) (root_chunks P) p" and ?B = "{p'. states P p' = Some CHUNK_STATE_TEMP_PINNED \<and> root_of (shapes P) (root_chunks P) p' = root_of (shapes P) (root_chunks P) p}"
  obtain z zs where z: "shapes P ?r = Some z" "sh_subs z = Some zs" using root_facts(6)[OF pmm_chunk_tree_ok[OF ok] p(1)] p(2) by auto
  have "?r \<in> set (root_chunks P)" by (rule root_facts(1)[OF pmm_chunk_tree_ok[OF ok] p(1)])
  then have "pins P ?r = card ?B" using pmm_okD(2)[OF ok] z by (simp add: counts_def)
  moreover have "finite ?B"
  proof (rule finite_subset)
    show "?B \<subseteq> dom (shapes P)" by (auto simp: states_def)
    show "finite (dom (shapes P))" using pmm_okD(1)[OF ok] by (simp add: trees_def)
  qed
  ultimately show "0 < pins P ?r" using s by (auto simp: card_gt_0_iff)
qed

definition free_state :: "'p \<Rightarrow> ('p, 'v) pmm \<Rightarrow> ('p, 'v) pmm" where
  "free_state p P = upd_chunk p (\<lambda>c. c\<lparr>va_block_page_index := PAGES_PER_UVM_VA_BLOCK, is_zero := False\<rparr>)
     (if chunk_state (get_chunk P p) = CHUNK_STATE_TEMP_PINNED then chunk_unpin p CHUNK_STATE_FREE P
      else upd_chunk p (\<lambda>c. c\<lparr>chunk_state := CHUNK_STATE_FREE, va_block := None\<rparr>) P)"

lemma free_state_views:
  assumes ok: "chunk_tree_ok P" and p: "shapes P p = Some x"
  defines "r \<equiv> root_of (shapes P) (root_chunks P) p"
  shows "shapes (free_state p P) = shapes P" "states (free_state p P) = (states P)(p \<mapsto> CHUNK_STATE_FREE)" "allocs (free_state p P) = allocs P"
    "pins (free_state p P) = (if sh_parent x \<noteq> None \<and> states P p = Some CHUNK_STATE_TEMP_PINNED then (pins P)(r := pins P r - 1) else pins P)"
    "\<And>q. q \<noteq> p \<Longrightarrow> zeros (free_state p P) q = zeros P q" "evicts (free_state p P) = evicts P"
    "root_chunks (free_state p P) = root_chunks P" "chunk_sizes (free_state p P) = chunk_sizes P" "chunk_lists (free_state p P) = chunk_lists P"
    "held (free_state p P) = (held P)(p := None)"
proof -
  let ?U = "upd_chunk p (\<lambda>c. c\<lparr>chunk_state := CHUNK_STATE_FREE, va_block := None\<rparr>) P"
  let ?V = "if chunk_state (get_chunk P p) = CHUNK_STATE_TEMP_PINNED then chunk_unpin p CHUNK_STATE_FREE P else ?U"
  obtain c where c: "gpu_chunks P p = Some c" using p(1) by (auto simp: shapes_def)
  note v = unpin_views[OF ok p ok p, where s = CHUNK_STATE_FREE]
  have U: "shapes ?U = shapes P" "states ?U = (states P)(p \<mapsto> CHUNK_STATE_FREE)" "held ?U = (held P)(p := None)"
    using c held_upd[OF c] by (simp_all add: shape_of_def) (auto simp: fun_eq_iff states_def)
  have st: "states P p = Some (chunk_state (get_chunk P p))" by (rule get_views(5)[OF p])
  have V: "shapes ?V = shapes P" "states ?V = (states P)(p \<mapsto> CHUNK_STATE_FREE)" "held ?V = (held P)(p := None)" "allocs ?V = allocs P" "evicts ?V = evicts P"
    "zeros ?V = zeros P" "root_chunks ?V = root_chunks P" "chunk_sizes ?V = chunk_sizes P" "chunk_lists ?V = chunk_lists P"
    "pins ?V = (if sh_parent x \<noteq> None \<and> states P p = Some CHUNK_STATE_TEMP_PINNED then (pins P)(r := pins P r - 1) else pins P)"
    using v U by (simp_all add: st r_def)
  note e = free_state_def[of p P]
  show "shapes (free_state p P) = shapes P" "states (free_state p P) = (states P)(p \<mapsto> CHUNK_STATE_FREE)" "allocs (free_state p P) = allocs P"
    "pins (free_state p P) = (if sh_parent x \<noteq> None \<and> states P p = Some CHUNK_STATE_TEMP_PINNED then (pins P)(r := pins P r - 1) else pins P)"
    "evicts (free_state p P) = evicts P"
    "root_chunks (free_state p P) = root_chunks P" "chunk_sizes (free_state p P) = chunk_sizes P" "chunk_lists (free_state p P) = chunk_lists P"
    unfolding e using V by (simp_all add: shape_of_def)
  show "zeros (free_state p P) q = zeros P q" if "q \<noteq> p" for q
    using fun_cong[OF V(6), of q] that unfolding e by (simp add: zeros_def)
  have "dom (states ?V) = insert p (dom (states P))" using V(2) by simp
  then obtain c' where c': "gpu_chunks ?V p = Some c'" by (auto simp del: dom_fun_upd simp: set_eq_iff)
  have "chunk_state c' = CHUNK_STATE_FREE" using fun_cong[OF V(2), of p] c' by (simp add: states_def)
  then show "held (free_state p P) = (held P)(p := None)" unfolding e using held_upd[OF c'] V(3) by simp
qed

lemma chunk_free_ok:
  assumes ok: "pmm_ok P" and p: "shapes P p = Some x" "states P p = Some s" "in_use s"
  shows "pmm_ok (chunk_free_locked p P)" "shapes (chunk_free_locked p P) = shapes P" "states (chunk_free_locked p P) = (states P)(p \<mapsto> CHUNK_STATE_FREE)"
    "held (chunk_free_locked p P) = (held P)(p := None)"
    "allocs (chunk_free_locked p P) = (case sh_parent x of None \<Rightarrow> allocs P | Some q \<Rightarrow> (allocs P)(q := allocs P q - 1))"
    "root_chunks (chunk_free_locked p P) = root_chunks P" "chunk_sizes (chunk_free_locked p P) = chunk_sizes P"
proof -
  define P1 where "P1 = (case sh_parent x of None \<Rightarrow> P | Some q \<Rightarrow> upd_suballoc q (\<lambda>a. a\<lparr>sub_allocated := sub_allocated a - 1\<rparr>) P)"
  note v1 = parent_count_views[OF ok p(1), where h = "\<lambda>n. n - 1", folded P1_def]
  have t1: "chunk_tree_ok P1" by (rule tree_ok_cong[OF pmm_chunk_tree_ok[OF ok] v1(1,2,6,7)])
  have x1: "shapes P1 p = Some x" using v1(1) p(1) by simp
  note v2 = free_state_views[OF t1 x1, unfolded v1]
  have leaf: "sh_subs x = None" using split_state[OF ok p(1)] p(2,3) by auto
  have e: "chunk_free_locked p P = chunk_update_lists_locked p (free_state p P1)"
    using get_views(4)[OF p(1)] not_in_eviction[OF ok p(1)] by (simp add: chunk_free_locked_def free_state_def P1_def Let_def)
  show "pmm_ok (chunk_free_locked p P)"
    unfolding e
  proof (rule set_state_ok[OF ok p(1) leaf v2(7,9,8,1,2,5,6)], goal_cases)
    case (4 q)
    then show ?case using counted(1)[OF ok p(1) 4] p(2,3) by (auto simp: v2)
  next
    case 6
    then show ?case using counted(2)[OF ok p(1)] p(2,3) by (auto simp: v2)
  qed (auto simp: v2 split: option.split)
  show "shapes (chunk_free_locked p P) = shapes P" "states (chunk_free_locked p P) = (states P)(p \<mapsto> CHUNK_STATE_FREE)"
    "held (chunk_free_locked p P) = (held P)(p := None)"
    "allocs (chunk_free_locked p P) = (case sh_parent x of None \<Rightarrow> allocs P | Some q \<Rightarrow> (allocs P)(q := allocs P q - 1))"
    "root_chunks (chunk_free_locked p P) = root_chunks P" "chunk_sizes (chunk_free_locked p P) = chunk_sizes P"
    by (simp_all add: e v2)
qed

section \<open>Splitting and merging a node of the trees\<close>

definition sub_shape :: "'p shape \<Rightarrow> 'p \<Rightarrow> nat \<Rightarrow> nat \<Rightarrow> 'p shape" where
  "sub_shape x p k i = \<lparr>sh_address = sh_address x + i * 2 ^ k, sh_size = k, sh_type = sh_type x, sh_parent = Some p, sh_subs = None\<rparr>"

definition split_shapes :: "('p \<Rightarrow> 'p shape option) \<Rightarrow> 'p \<Rightarrow> 'p shape \<Rightarrow> nat \<Rightarrow> 'p list \<Rightarrow> 'p \<Rightarrow> 'p shape option" where
  "split_shapes S p x k qs = (\<lambda>q. if q = p then Some (x\<lparr>sh_subs := Some qs\<rparr>) else case find (\<lambda>i. qs ! i = q) [0..<length qs] of None \<Rightarrow> S q | Some i \<Rightarrow> Some (sub_shape x p k i))"

definition merge_shapes :: "('p \<Rightarrow> 'p shape option) \<Rightarrow> 'p \<Rightarrow> 'p shape \<Rightarrow> 'p list \<Rightarrow> 'p \<Rightarrow> 'p shape option" where
  "merge_shapes S p x qs = (\<lambda>q. if q = p then Some (x\<lparr>sh_subs := None\<rparr>) else if q \<in> set qs then None else S q)"

lemma find_index: "distinct qs \<Longrightarrow> i < length qs \<Longrightarrow> find (\<lambda>j. qs ! j = qs ! i) [0..<length qs] = Some i"
  by (auto simp: find_Some_iff nth_eq_iff_index_eq)

lemma find_index_None: "q \<notin> set qs \<Longrightarrow> find (\<lambda>j. qs ! j = q) [0..<length qs] = None"
  by (auto simp: find_None_iff)

lemma split_shapes_simps:
  assumes "distinct qs" "p \<notin> set qs"
  shows "split_shapes S p x k qs p = Some (x\<lparr>sh_subs := Some qs\<rparr>)" "i < length qs \<Longrightarrow> split_shapes S p x k qs (qs ! i) = Some (sub_shape x p k i)"
    "q \<noteq> p \<Longrightarrow> q \<notin> set qs \<Longrightarrow> split_shapes S p x k qs q = S q"
  using assms by (auto simp: split_shapes_def find_index find_index_None)

lemma node_frame:
  assumes n: "node_ok S R Z q y" and same: "\<And>r. r \<noteq> p \<Longrightarrow> r \<notin> D \<Longrightarrow> S r \<noteq> None \<Longrightarrow> S' r = S r"
    and p: "S p = Some x" "S' p = Some x'" "sh_address x' = sh_address x" "sh_size x' = sh_size x" "sh_type x' = sh_type x" "sh_parent x' = sh_parent x"
    and par: "sh_parent y \<noteq> Some p" "\<And>r. r \<in> D \<Longrightarrow> sh_parent y \<noteq> Some r" "\<And>qs r. sh_subs y = Some qs \<Longrightarrow> r \<in> set qs \<Longrightarrow> r \<notin> D"
  shows "node_ok S' R Z q y"
proof -
  have ex: "\<exists>z'. S' r = Some z' \<and> sh_address z' = sh_address z \<and> sh_size z' = sh_size z \<and> sh_type z' = sh_type z \<and> sh_parent z' = sh_parent z" if "S r = Some z" "r \<notin> D" for r z
  proof (cases "r = p")
    case True
    then have "z = x" using p(1) that(1) by simp
    then show ?thesis using p(2-6) True by blast
  next
    case False
    then have "S' r = Some z" using same[OF False that(2)] that(1) by simp
    then show ?thesis by blast
  qed
  have "split_node_ok S' Z q y qs" if qs: "split_node_ok S Z q y qs" "sh_subs y = Some qs" for qs
    unfolding split_node_ok_def Let_def
  proof (intro conjI allI impI)
    let ?k = "uvm_chunk_find_prev_size (Z (sh_type y)) (sh_size y)"
    show "?k < sh_size y" "length qs = 2 ^ (sh_size y - ?k)" using qs(1) by (auto simp: split_node_ok_def Let_def)
    fix i assume i: "i < length qs"
    then obtain z where "S (qs ! i) = Some z" "sh_parent z = Some q" "sh_size z = ?k" "sh_address z = sh_address y + i * 2 ^ ?k" "sh_type z = sh_type y"
      using qs(1) unfolding split_node_ok_def Let_def by blast
    then show "\<exists>z. S' (qs ! i) = Some z \<and> sh_parent z = Some q \<and> sh_size z = ?k \<and> sh_address z = sh_address y + i * 2 ^ ?k \<and> sh_type z = sh_type y"
      using ex[of "qs ! i" z] par(3)[OF qs(2)] i by auto
  qed
  moreover have "\<exists>z qs. S' r = Some z \<and> sh_subs z = Some qs \<and> q \<in> set qs" if r: "sh_parent y = Some r" for r
  proof -
    have "r \<noteq> p" "r \<notin> D" using par(1,2) r by auto
    moreover have "\<exists>z qs. S r = Some z \<and> sh_subs z = Some qs \<and> q \<in> set qs" using n r by (simp add: node_ok_def)
    ultimately show ?thesis using same[of r] by auto
  qed
  ultimately show ?thesis using n by (simp add: node_ok_def split: option.splits)
qed

lemma trees_split:
  assumes t: "trees S R Z" and p: "S p = Some x" "sh_subs x = None" and qs: "distinct qs" "\<And>q. q \<in> set qs \<Longrightarrow> S q = None"
    and k: "k = uvm_chunk_find_prev_size (Z (sh_type x)) (sh_size x)" "k < sh_size x" "length qs = 2 ^ (sh_size x - k)"
  shows "trees (split_shapes S p x k qs) R Z" (is "trees ?S R Z")
proof -
  have "p \<notin> set qs" using qs(2) p(1) by auto
  note sim = split_shapes_simps[OF qs(1) this]
  have same: "?S r = S r" if "r \<noteq> p" "S r \<noteq> None" for r
    by (rule sim(3)[OF that(1)]) (use qs(2)[of r] that(2) in auto)
  note n = trees_node[OF t p(1)]
  have split: "split_node_ok ?S Z p x qs" using k sim(2) by (simp add: split_node_ok_def sub_shape_def Let_def)
  have chd: "sh_parent y \<noteq> Some p" if "S q = Some y" for q y using trees_parent[OF t that] p by auto
  have frame: "node_ok ?S R Z q y" if q: "S q = Some y" for q y
    by (rule node_frame[where D = "{}", OF trees_node[OF t q] same p(1) sim(1)]) (use chd[OF q] in auto)
  have "node_ok ?S R Z q y" if q: "?S q = Some y" for q y
  proof -
    consider "q = p" | i where "i < length qs" "q = qs ! i" | "q \<noteq> p" "q \<notin> set qs" by (metis in_set_conv_nth)
    then show ?thesis
    proof cases
      case 1
      then have "y = x\<lparr>sh_subs := Some qs\<rparr>" using q sim(1) by simp
      then show ?thesis using frame[OF p(1)] split 1 by (simp add: node_ok_def split_node_ok_def)
    next
      case 2
      then have y: "y = sub_shape x p k i" using q sim(2) by simp
      have "bit (Z (sh_type x)) k" using prev_size(1)[of "sh_size x" "Z (sh_type x)"] k(1,2) n by (simp add: node_ok_def)
      moreover have d: "2 ^ sh_size x dvd sh_address x" using n by (simp add: node_ok_def)
      then have "2 ^ k dvd sh_address x + i * 2 ^ k" using k(2) by (meson dvd_add dvd_triv_right le_imp_power_dvd dvd_trans less_imp_le_nat)
      moreover have "i * 2 ^ k < 2 ^ (sh_size x - k) * 2 ^ k" using 2(1) k(3) by simp
      then have "i * 2 ^ k < 2 ^ sh_size x" using k(2) by (simp flip: power_add)
      then have "(sh_address x + i * 2 ^ k) div 2 ^ UVM_CHUNK_SIZE_MAX = sh_address x div 2 ^ UVM_CHUNK_SIZE_MAX"
        using block_div[OF d] n by (simp add: node_ok_def)
      ultimately show ?thesis using n k(2) 2 sim(1) by (simp add: node_ok_def y sub_shape_def)
    next
      case 3
      then show ?thesis using frame q sim(3) by simp
    qed
  qed
  moreover have "dom ?S \<subseteq> insert p (dom S \<union> set qs)" using sim(3) by (auto simp: domIff)
  then have "finite (dom ?S)" using t by (auto simp: trees_def intro: finite_subset)
  moreover have "\<exists>y. ?S (R ! i) = Some y \<and> sh_address y = i * 2 ^ UVM_CHUNK_SIZE_MAX \<and> sh_size y = UVM_CHUNK_SIZE_MAX \<and> sh_parent y = None" if i: "i < length R" for i
  proof -
    obtain z where z: "S (R ! i) = Some z" "sh_address z = i * 2 ^ UVM_CHUNK_SIZE_MAX" "sh_size z = UVM_CHUNK_SIZE_MAX" "sh_parent z = None" using t i unfolding trees_def by blast
    then show ?thesis using same[of "R ! i"] sim(1) p(1) by (cases "R ! i = p") auto
  qed
  ultimately show ?thesis using t by (simp add: trees_def)
qed

lemma trees_merge:
  assumes t: "trees S R Z" and p: "S p = Some x" "sh_subs x = Some qs" and leaf: "\<And>q y. q \<in> set qs \<Longrightarrow> S q = Some y \<Longrightarrow> sh_subs y = None"
  shows "trees (merge_shapes S p x qs) R Z" (is "trees ?S R Z")
proof -
  have child: "\<exists>y. S q = Some y \<and> sh_parent y = Some p" if "q \<in> set qs" for q using trees_child[OF t p that] by auto
  have "p \<notin> set qs" using trees_child[OF t p, of p] p(1) by auto
  then have sim: "?S p = Some (x\<lparr>sh_subs := None\<rparr>)" "\<And>q. q \<noteq> p \<Longrightarrow> q \<notin> set qs \<Longrightarrow> ?S q = S q" by (auto simp: merge_shapes_def)
  have par: "sh_parent y \<noteq> Some p" if "S q = Some y" "q \<notin> set qs" for q y using trees_parent[OF t that(1)] p that(2) by auto
  have frame: "node_ok ?S R Z q y" if q: "S q = Some y" "q \<notin> set qs" "q \<noteq> p" for q y
  proof (rule node_frame[where D = "set qs", OF trees_node[OF t q(1)] sim(2) p(1) sim(1)])
    show "sh_parent y \<noteq> Some r" if "r \<in> set qs" for r using trees_parent[OF t q(1)] leaf[OF that] by auto
    show "r \<notin> set qs" if "sh_subs y = Some rs" "r \<in> set rs" for rs r using trees_child[OF t q(1) that] child[of r] q(3) by auto
  qed (use par[OF q(1,2)] in auto)
  have "node_ok ?S R Z q y" if q: "?S q = Some y" for q y
  proof (cases "q = p")
    case True
    then have y: "y = x\<lparr>sh_subs := None\<rparr>" using q sim(1) by simp
    have n: "node_ok S R Z p x" by (rule trees_node[OF t p(1)])
    have "\<exists>z rs. ?S r = Some z \<and> sh_subs z = Some rs \<and> p \<in> set rs" if r: "sh_parent x = Some r" for r
    proof -
      obtain z rs where z: "S r = Some z" "sh_subs z = Some rs" "p \<in> set rs" using trees_parent[OF t p(1) r] by auto
      then have "r \<notin> set qs" "r \<noteq> p" using leaf \<open>p \<notin> set qs\<close> p by auto
      then show ?thesis using sim(2) z by auto
    qed
    then show ?thesis using n True by (simp add: node_ok_def y split: option.splits)
  next
    case False
    then have "q \<notin> set qs" "S q = Some y" using q by (auto simp: merge_shapes_def split: if_splits)
    then show ?thesis using frame False by simp
  qed
  moreover have "dom ?S \<subseteq> insert p (dom S)" by (auto simp: merge_shapes_def split: if_splits)
  then have "finite (dom ?S)" using t by (auto simp: trees_def intro: finite_subset)
  moreover have "\<exists>y. ?S (R ! i) = Some y \<and> sh_address y = i * 2 ^ UVM_CHUNK_SIZE_MAX \<and> sh_size y = UVM_CHUNK_SIZE_MAX \<and> sh_parent y = None" if i: "i < length R" for i
  proof -
    obtain z where z: "S (R ! i) = Some z" "sh_address z = i * 2 ^ UVM_CHUNK_SIZE_MAX" "sh_size z = UVM_CHUNK_SIZE_MAX" "sh_parent z = None" using t i unfolding trees_def by blast
    then have "R ! i \<notin> set qs" using child by force
    then show ?thesis using z sim p(1) by (cases "R ! i = p") auto
  qed
  ultimately show ?thesis using t by (simp add: trees_def)
qed

section \<open>Splitting a chunk\<close>

text \<open>New memory: addresses that are not in use and different from each other.\<close>

definition fresh_subs :: "(nat \<Rightarrow> 'p) \<Rightarrow> nat \<Rightarrow> ('p, 'v) pmm \<Rightarrow> bool" where
  "fresh_subs new n P \<longleftrightarrow> distinct (map new [0..<n]) \<and> (\<forall>i<n. gpu_chunks P (new i) = None)"

lemma find_new: "find (\<lambda>i. new i = q) [0..<n] = find (\<lambda>i. map new [0..<n] ! i = q) [0..<length (map new [0..<n])]"
  by (simp, rule find_cong) auto

definition add_subchunks :: "('p, 'v) gpu_chunk \<Rightarrow> 'p \<Rightarrow> nat \<Rightarrow> 'p list \<Rightarrow> ('p, 'v) pmm \<Rightarrow> ('p, 'v) pmm" where
  "add_subchunks c p k qs P = P\<lparr>gpu_chunks := (\<lambda>q. case find (\<lambda>i. qs ! i = q) [0..<length qs] of None \<Rightarrow> gpu_chunks P q | Some i \<Rightarrow> Some (new_subchunk c p k i))\<rparr>"

lemma add_subchunks_chunk:
  assumes "distinct qs"
  shows "i < length qs \<Longrightarrow> gpu_chunks (add_subchunks c p k qs P) (qs ! i) = Some (new_subchunk c p k i)"
    "q \<notin> set qs \<Longrightarrow> gpu_chunks (add_subchunks c p k qs P) q = gpu_chunks P q"
  using assms by (simp_all add: add_subchunks_def find_index find_index_None)

lemma add_subchunks_views:
  fixes c :: "('p, 'v) gpu_chunk" and p :: 'p and k :: nat and P :: "('p, 'v) pmm"
  assumes qs: "distinct qs" "\<And>q. q \<in> set qs \<Longrightarrow> gpu_chunks P q = None"
  defines "P' \<equiv> add_subchunks c p k qs P"
  shows "root_chunks P' = root_chunks P" "chunk_sizes P' = chunk_sizes P" "chunk_lists P' = chunk_lists P"
    "shapes P' = (\<lambda>q. case find (\<lambda>i. qs ! i = q) [0..<length qs] of None \<Rightarrow> shapes P q | Some i \<Rightarrow> Some (sub_shape (shape_of c) p k i))"
    "states P' = (\<lambda>q. if q \<in> set qs then Some (chunk_state c) else states P q)" "allocs P' = allocs P" "pins P' = pins P"
    "evicts P' = evicts P" "\<And>q. q \<notin> set qs \<Longrightarrow> zeros P' q = zeros P q" "\<And>q. q \<notin> set qs \<Longrightarrow> held P' q = held P q"
    "\<And>i. i < length qs \<Longrightarrow> held P' (qs ! i) = (if in_use (chunk_state c) then Some (new_subchunk c p k i) else None)"
proof -
  note g = add_subchunks_chunk[OF qs(1), where c = c and p = p and k = k and P = P, folded P'_def]
  show "root_chunks P' = root_chunks P" "chunk_sizes P' = chunk_sizes P" "chunk_lists P' = chunk_lists P" by (simp_all add: P'_def add_subchunks_def)
  show "shapes P' = (\<lambda>q. case find (\<lambda>i. qs ! i = q) [0..<length qs] of None \<Rightarrow> shapes P q | Some i \<Rightarrow> Some (sub_shape (shape_of c) p k i))"
    by (simp add: fun_eq_iff shapes_def P'_def add_subchunks_def new_subchunk_def sub_shape_def shape_of_def split: option.split)
  have new: "\<exists>i. gpu_chunks P' q = Some (new_subchunk c p k i) \<and> gpu_chunks P q = None" if "q \<in> set qs" for q
    using g(1) qs(2)[OF that] that by (auto simp: in_set_conv_nth)
  have "states P' q = (if q \<in> set qs then Some (chunk_state c) else states P q) \<and> allocs P' q = allocs P q \<and> pins P' q = pins P q \<and> evicts P' q = evicts P q" for q
    using new[of q] g(2)[of q] by (cases "q \<in> set qs") (auto simp: states_def allocs_def pins_def evicts_def new_subchunk_def)
  then show "states P' = (\<lambda>q. if q \<in> set qs then Some (chunk_state c) else states P q)" "allocs P' = allocs P" "pins P' = pins P" "evicts P' = evicts P"
    by (auto simp: fun_eq_iff)
  show "zeros P' q = zeros P q" "held P' q = held P q" if "q \<notin> set qs" for q using g(2)[OF that] by (simp_all add: zeros_def held_def)
  show "held P' (qs ! i) = (if in_use (chunk_state c) then Some (new_subchunk c p k i) else None)" if "i < length qs" for i
    using g(1)[OF that] by (simp add: held_def new_subchunk_def)
qed

text \<open>The state after the split of a pinned chunk \<open>p\<close> below the root chunk \<open>r\<close>.\<close>

definition split_state :: "('p, 'v) gpu_chunk \<Rightarrow> 'p \<Rightarrow> nat \<Rightarrow> 'p list \<Rightarrow> 'p \<Rightarrow> ('p, 'v) pmm \<Rightarrow> ('p, 'v) pmm" where
  "split_state c p k qs r P = upd_chunk p (\<lambda>c. c\<lparr>chunk_state := CHUNK_STATE_IS_SPLIT\<rparr>)
     (upd_suballoc r (\<lambda>a. a\<lparr>pinned_leaf_chunks := pinned_leaf_chunks a + length qs - 1 + (if r = p then 1 else 0)\<rparr>)
       (upd_chunk p (\<lambda>c. c\<lparr>chunk_suballoc := Some \<lparr>sub_allocated = length qs, pinned_leaf_chunks = 0, subchunks = qs\<rparr>\<rparr>) (add_subchunks c p k qs P)))"

lemma split_gpu_chunk_eq:
  assumes ok: "pmm_ok P" and p: "shapes P p = Some x" "states P p = Some CHUNK_STATE_TEMP_PINNED"
    and k: "k = uvm_chunk_find_prev_size (chunk_sizes P (sh_type x)) (sh_size x)" "k < sh_size x" and n: "n = 2 ^ (sh_size x - k)"
    and new: "fresh_subs new n P" "\<not> inject_split_error (get_chunk P p)"
  defines "qs \<equiv> map new [0..<n]" and "r \<equiv> root_of (shapes P) (root_chunks P) p" and "c \<equiv> get_chunk P p"
  shows "split_gpu_chunk (Some new) p P = (NV_OK, split_state c p k qs r P)"
proof -
  obtain c' where "gpu_chunks P p = Some c'" "shape_of c' = x" using pmm_gpu_dom[OF p(1)] by auto
  then have c: "gpu_chunks P p = Some c" "shape_of c = x" by (simp_all add: c_def get_chunk_def)
  then have cx: "chunk_type c = sh_type x" "log2_size c = sh_size x" and st: "chunk_state c = CHUNK_STATE_TEMP_PINNED"
    using p by (auto simp: shape_of_def states_def)
  have l: "length qs = n" by (simp add: qs_def)
  define P1 where "P1 = add_subchunks c p k qs P"
  define P2 where "P2 = upd_chunk p (\<lambda>c. c\<lparr>chunk_suballoc := Some \<lparr>sub_allocated = n, pinned_leaf_chunks = 0, subchunks = qs\<rparr>\<rparr>) P1"
  have n0: "2 ^ log2_size c div 2 ^ k = n" using k(2) by (simp add: cx n power_diff)
  have r: "root_chunk_from_chunk P p = r" "chunk_is_root_chunk P p \<longleftrightarrow> r = p" using root_facts(2-5)[OF pmm_chunk_tree_ok[OF ok] p(1)] by (auto simp: r_def)
  have e1: "P\<lparr>gpu_chunks := (\<lambda>q. case find (\<lambda>i. new i = q) [0..<n] of None \<Rightarrow> gpu_chunks P q | Some i \<Rightarrow> Some (new_subchunk c p k i))\<rparr> = P1"
    by (simp add: P1_def add_subchunks_def l find_new[of new _ n, folded qs_def])
  have pq: "distinct qs" "p \<notin> set qs" using new(1) c(1) by (auto simp: qs_def fresh_subs_def)
  have "gpu_chunks P1 p = Some c" using c(1) unfolding P1_def by (simp only: add_subchunks_chunk(2)[OF pq])
  then have root: "chunk_is_root_chunk P2 p \<longleftrightarrow> r = p" using r(2) c(1) by (simp add: P2_def chunk_is_root_chunk_def get_chunk_def)
  show ?thesis
    unfolding split_gpu_chunk_def Let_def c_def[symmetric] option.case
    unfolding cx(1,2) k(1)[symmetric] n0[unfolded cx(2)] e1 qs_def[symmetric] r(1) P2_def[symmetric] root
    using new(2) by (simp add: st c_def[symmetric] split_state_def l P1_def[symmetric] P2_def[symmetric])
qed

lemma split_state_views:
  assumes ok: "pmm_ok P" and p: "shapes P p = Some x" "states P p = Some CHUNK_STATE_TEMP_PINNED"
    and qs: "distinct qs" "\<forall>q\<in>set qs. gpu_chunks P q = None" "qs \<noteq> []"
  defines "r \<equiv> root_of (shapes P) (root_chunks P) p" and "c \<equiv> get_chunk P p"
  shows "shapes (split_state c p k qs r P) = split_shapes (shapes P) p x k qs"
    "states (split_state c p k qs r P) = (\<lambda>q. if q = p then Some CHUNK_STATE_IS_SPLIT else if q \<in> set qs then Some CHUNK_STATE_TEMP_PINNED else states P q)"
    "allocs (split_state c p k qs r P) = (allocs P)(p := length qs)"
    "pins (split_state c p k qs r P) = ((pins P)(p := 0))(r := if r = p then length qs else pins P r + length qs - 1)"
    "evicts (split_state c p k qs r P) = evicts P" "\<And>q. q \<notin> set qs \<Longrightarrow> zeros (split_state c p k qs r P) q = zeros P q"
    "root_chunks (split_state c p k qs r P) = root_chunks P" "chunk_sizes (split_state c p k qs r P) = chunk_sizes P" "chunk_lists (split_state c p k qs r P) = chunk_lists P"
proof -
  obtain c' where "gpu_chunks P p = Some c'" "shape_of c' = x" using pmm_gpu_dom[OF p(1)] by auto
  then have c: "gpu_chunks P p = Some c" "shape_of c = x" "chunk_state c = CHUNK_STATE_TEMP_PINNED" using p(2) by (auto simp: c_def get_chunk_def states_def)
  have pq: "p \<notin> set qs" using qs(2) c(1) by auto
  define P1 where "P1 = add_subchunks c p k qs P"
  define P2 where "P2 = upd_chunk p (\<lambda>c. c\<lparr>chunk_suballoc := Some \<lparr>sub_allocated = length qs, pinned_leaf_chunks = 0, subchunks = qs\<rparr>\<rparr>) P1"
  define P3 where "P3 = upd_suballoc r (\<lambda>a. a\<lparr>pinned_leaf_chunks := pinned_leaf_chunks a + length qs - 1 + (if r = p then 1 else 0)\<rparr>) P2"
  have e: "split_state c p k qs r P = upd_chunk p (\<lambda>c. c\<lparr>chunk_state := CHUNK_STATE_IS_SPLIT\<rparr>) P3" by (simp add: split_state_def P1_def P2_def P3_def)
  note v1 = add_subchunks_views[OF qs(1) bspec[OF qs(2)], where c = c and p = p and k = k, folded P1_def]
  have g1: "gpu_chunks P1 p = Some c" using c(1) unfolding P1_def by (simp only: add_subchunks_chunk(2)[OF qs(1) pq])
  have sh2: "shapes P2 = split_shapes (shapes P) p x k qs"
  proof
    fix q
    have "shapes P2 q = (if q = p then Some (x\<lparr>sh_subs := Some qs\<rparr>) else shapes P1 q)" using c(2) g1 by (auto simp: shapes_def P2_def shape_of_def)
    then show "shapes P2 q = split_shapes (shapes P) p x k qs q" by (simp add: v1(4)[unfolded c(2)] split_shapes_def)
  qed
  have v2: "allocs P2 = (allocs P)(p := length qs)" "pins P2 = (pins P)(p := 0)" "states P2 = states P1" "zeros P2 = zeros P1" "evicts P2 = evicts P1"
    using g1 v1(6,7) by (auto simp: P2_def fun_eq_iff allocs_def pins_def)
  have "\<exists>y ys. shapes P2 r = Some y \<and> sh_subs y = Some ys"
  proof (cases "r = p")
    case True
    then show ?thesis using sh2 by (simp add: split_shapes_def)
  next
    case False
    then obtain y ys where y: "shapes P r = Some y" "sh_subs y = Some ys" using root_facts(4,6)[OF pmm_chunk_tree_ok[OF ok] p(1)] by (auto simp: r_def)
    moreover have "r \<notin> set qs" using qs(2) y(1) by (auto simp: shapes_def)
    ultimately show ?thesis using split_shapes_simps(3)[OF qs(1) pq False] sh2 by simp
  qed
  then have v3: "pins P3 = (pins P2)(r := pins P2 r + length qs - 1 + (if r = p then 1 else 0))"
    unfolding P3_def by (auto intro!: pins_set simp: domIff simp del: dom_shapes)
  have g3: "\<exists>c3. gpu_chunks P3 p = Some c3" using g1 by (auto simp: P3_def P2_def upd_suballoc_def)
  show "shapes (split_state c p k qs r P) = split_shapes (shapes P) p x k qs" using sh2 by (simp add: e P3_def)
  show "states (split_state c p k qs r P) = (\<lambda>q. if q = p then Some CHUNK_STATE_IS_SPLIT else if q \<in> set qs then Some CHUNK_STATE_TEMP_PINNED else states P q)"
    unfolding e using g3 c(3) by (subst states_set) (auto simp: P3_def v2 v1(5) fun_eq_iff)
  show "allocs (split_state c p k qs r P) = (allocs P)(p := length qs)" "evicts (split_state c p k qs r P) = evicts P"
    "\<And>q. q \<notin> set qs \<Longrightarrow> zeros (split_state c p k qs r P) q = zeros P q"
    by (simp_all add: e P3_def v2 v1)
  show "pins (split_state c p k qs r P) = ((pins P)(p := 0))(r := if r = p then length qs else pins P r + length qs - 1)"
    using qs(3) by (simp add: e v3 v2)
  show "root_chunks (split_state c p k qs r P) = root_chunks P" "chunk_sizes (split_state c p k qs r P) = chunk_sizes P" "chunk_lists (split_state c p k qs r P) = chunk_lists P"
    by (simp_all add: e P3_def P2_def v1)
qed

lemma split_state_held:
  assumes ok: "pmm_ok P" and p: "shapes P p = Some x" "states P p = Some CHUNK_STATE_TEMP_PINNED"
    and qs: "distinct qs" "\<forall>q\<in>set qs. gpu_chunks P q = None" "qs \<noteq> []"
  defines "r \<equiv> root_of (shapes P) (root_chunks P) p" and "c \<equiv> get_chunk P p"
  shows "held (split_state c p k qs r P) = (\<lambda>q. if q = p then None else case find (\<lambda>i. qs ! i = q) [0..<length qs] of None \<Rightarrow> held P q | Some i \<Rightarrow> Some (new_subchunk c p k i))"
proof
  let ?P = "split_state c p k qs r P" and ?P1 = "add_subchunks c p k qs P"
  note st4 = split_state_views(2)[OF ok p qs, where k = k, folded r_def c_def]
  note v1 = add_subchunks_views[OF qs(1) bspec[OF qs(2)], where c = c and p = p and k = k]
  have st: "chunk_state c = CHUNK_STATE_TEMP_PINNED" using p get_views(5)[OF p(1)] by (simp add: c_def)
  fix q
  have old: "held ?P q = held ?P1 q" if "q \<noteq> p"
  proof (cases "q = r")
    case True
    have "states P r = Some CHUNK_STATE_IS_SPLIT" using root_facts(4,6)[OF pmm_chunk_tree_ok[OF ok] p(1)] that True by (auto simp: r_def)
    moreover from this have "r \<notin> set qs" using qs(2) by (auto simp: states_def)
    ultimately show ?thesis using True that st4 v1(5) not_held[of ?P q CHUNK_STATE_IS_SPLIT] not_held[of ?P1 q CHUNK_STATE_IS_SPLIT] by simp
  next
    case False
    then have "gpu_chunks ?P q = gpu_chunks ?P1 q" using that by (simp add: split_state_def upd_suballoc_def)
    then show ?thesis by (simp add: held_def)
  qed
  consider "q = p" | i where "i < length qs" "q = qs ! i" "q \<noteq> p" | "q \<noteq> p" "q \<notin> set qs" by (metis in_set_conv_nth)
  then show "held ?P q = (if q = p then None else case find (\<lambda>i. qs ! i = q) [0..<length qs] of None \<Rightarrow> held P q | Some i \<Rightarrow> Some (new_subchunk c p k i))"
  proof cases
    case 1
    then show ?thesis using not_held[of ?P p CHUNK_STATE_IS_SPLIT] st4 by simp
  next
    case 2
    then show ?thesis using old v1(11)[of i] st find_index[OF qs(1), of i] by simp
  next
    case 3
    then show ?thesis using old v1(10)[of q] find_index_None[of q qs] by simp
  qed
qed

lemma split_gpu_chunk_views:
  assumes ok: "pmm_ok P" and p: "shapes P p = Some x" "states P p = Some CHUNK_STATE_TEMP_PINNED"
    and k: "k = uvm_chunk_find_prev_size (chunk_sizes P (sh_type x)) (sh_size x)" "k < sh_size x" and n: "n = 2 ^ (sh_size x - k)"
    and new: "fresh_subs new n P" "\<not> inject_split_error (get_chunk P p)"
  defines "qs \<equiv> map new [0..<n]" and "r \<equiv> root_of (shapes P) (root_chunks P) p" and "c \<equiv> get_chunk P p"
  shows "\<exists>P'. split_gpu_chunk (Some new) p P = (NV_OK, P') \<and> root_chunks P' = root_chunks P \<and> chunk_sizes P' = chunk_sizes P \<and> chunk_lists P' = chunk_lists P \<and>
    shapes P' = split_shapes (shapes P) p x k qs \<and>
    states P' = (\<lambda>q. if q = p then Some CHUNK_STATE_IS_SPLIT else if q \<in> set qs then Some CHUNK_STATE_TEMP_PINNED else states P q) \<and>
    allocs P' = (allocs P)(p := n) \<and> pins P' = ((pins P)(p := 0))(r := if r = p then n else pins P r + n - 1) \<and> evicts P' = evicts P \<and>
    (\<forall>q. q \<notin> set qs \<longrightarrow> zeros P' q = zeros P q) \<and>
    held P' = (\<lambda>q. if q = p then None else case find (\<lambda>i. qs ! i = q) [0..<n] of None \<Rightarrow> held P q | Some i \<Rightarrow> Some (new_subchunk c p k i))"
proof -
  have qs: "distinct qs" "length qs = n" "\<forall>q\<in>set qs. gpu_chunks P q = None" "qs \<noteq> []" using new(1) n by (auto simp: qs_def fresh_subs_def)
  show ?thesis
    using split_gpu_chunk_eq[OF ok p k n new, folded qs_def r_def c_def] split_state_views[OF ok p qs(1,3,4), where k = k, folded r_def c_def, unfolded qs(2)]
      split_state_held[OF ok p qs(1,3,4), where k = k, folded r_def c_def, unfolded qs(2)]
    by (intro exI[of _ "split_state c p k qs r P"]) simp
qed

lemma dom_states: "dom (states P) = dom (shapes P)" by simp

lemma lists_ok_shrink:
  assumes "lists_ok X P" "\<And>q l. q \<in> X \<Longrightarrow> q \<in> set (chunk_lists P l) \<Longrightarrow> on_list P l q" "\<And>q. q \<in> X \<Longrightarrow> states P q \<noteq> Some CHUNK_STATE_FREE"
  shows "lists_ok {} P"
  using assms unfolding lists_ok_def by (metis empty_iff)

text \<open>Taking exempt chunks off the lists.\<close>

lemma relist_simps [simp]:
  "shapes (P\<lparr>chunk_lists := L\<rparr>) = shapes P" "states (P\<lparr>chunk_lists := L\<rparr>) = states P" "zeros (P\<lparr>chunk_lists := L\<rparr>) = zeros P"
  "find_free_list_chunk (P\<lparr>chunk_lists := L\<rparr>) = find_free_list_chunk P" "on_list (P\<lparr>chunk_lists := L\<rparr>) = on_list P"
  by (auto simp: fun_eq_iff shapes_def states_def zeros_def find_free_list_chunk_def find_free_list_def get_chunk_def on_list_def split: chunk_list.split)

lemma lists_ok_filter:
  assumes "lists_ok X (P\<lparr>chunk_lists := L\<rparr>)" "chunk_lists P = (\<lambda>l. filter (\<lambda>z. z \<notin> Y) (L l))" "Y \<subseteq> X"
  shows "lists_ok X P"
  using assms by (auto simp: lists_ok_def)

lemma on_list_dom:
  assumes "pmm_ok P" "q \<in> set (chunk_lists P l)"
  shows "on_list P l q" "gpu_chunks P q \<noteq> None"
proof -
  show on: "on_list P l q" using pmm_okD(3)[OF assms(1)] assms(2) by (simp add: lists_ok_def)
  have "gpu_chunks P r \<noteq> None" if "r \<in> set (root_chunks P)" for r
    using pmm_okD(1)[OF assms(1)] that by (auto simp: trees_def in_set_conv_nth shapes_def)
  then show "gpu_chunks P q \<noteq> None" using on by (cases l) (auto simp: on_list_def states_def)
qed

text \<open>Only the root chunk itself is in the tree of a root chunk that is not split.\<close>

lemma leaf_root_alone:
  assumes t: "trees S R Z" and q: "S q = Some y" and r: "S (root_of S R q) = Some x" "sh_subs x = None"
  shows "root_of S R q = q"
  using trees_child_root_split[OF t q] trees_root(2)[OF t q] r by (cases "sh_parent y = None") auto

lemma trees_root_dom: "trees S R Z \<Longrightarrow> r \<in> set R \<Longrightarrow> \<exists>x. S r = Some x \<and> sh_parent x = None \<and> sh_size x = UVM_CHUNK_SIZE_MAX"
  by (auto simp: trees_def in_set_conv_nth)

lemma root_of_split:
  assumes t: "trees S R Z" and t': "trees (split_shapes S p x k qs) R Z" and p: "S p = Some x" and qs: "distinct qs" "\<And>q. q \<in> set qs \<Longrightarrow> S q = None"
  shows "q \<notin> set qs \<Longrightarrow> root_of (split_shapes S p x k qs) R q = root_of S R q"
    "q \<in> set qs \<Longrightarrow> root_of (split_shapes S p x k qs) R q = root_of S R p"
proof -
  have pq: "p \<notin> set qs" using qs(2) p by auto
  note sim = split_shapes_simps[OF qs(1) pq, where S = S and x = x and k = k]
  show old: "root_of (split_shapes S p x k qs) R q = root_of S R q" if "q \<notin> set qs" for q
    using sim(1) sim(3)[of q] that p by (cases "q = p") (simp_all add: root_of_def)
  show "root_of (split_shapes S p x k qs) R q = root_of S R p" if "q \<in> set qs"
    using trees_child[OF t' sim(1), of qs q] that old[OF pq] by auto
qed

lemma pinned_split:
  assumes t: "trees S R Z" and t': "trees (split_shapes S p x k qs) R Z" and c: "counts S T A N R"
    and p: "S p = Some x" "sh_subs x = None" "T p = Some CHUNK_STATE_TEMP_PINNED" and qs: "distinct qs" "\<And>q. q \<in> set qs \<Longrightarrow> S q = None" "qs \<noteq> []"
  defines "r \<equiv> root_of S R p" and "T' \<equiv> \<lambda>q. if q = p then Some CHUNK_STATE_IS_SPLIT else if q \<in> set qs then Some CHUNK_STATE_TEMP_PINNED else T q"
  assumes root: "\<rho> \<in> set R" "split_shapes S p x k qs \<rho> = Some y" "sh_subs y \<noteq> None"
  shows "(((N)(p := 0))(r := if r = p then length qs else N r + length qs - 1)) \<rho> =
    card {q. T' q = Some CHUNK_STATE_TEMP_PINNED \<and> root_of (split_shapes S p x k qs) R q = \<rho>}" (is "?N \<rho> = card (?B' \<rho>)")
proof -
  let ?B = "\<lambda>\<rho>. {q. T q = Some CHUNK_STATE_TEMP_PINNED \<and> root_of S R q = \<rho>}"
  have Tq: "T q = None" if "q \<in> set qs" for q using qs(2)[OF that] c by (auto simp: counts_def)
  have pq: "p \<notin> set qs" using qs(2) p by auto
  note ro = root_of_split[OF t t' p(1) qs(1,2)]
  have dom: "q \<in> dom S" if "T q = Some s" for q s using c that by (auto simp: counts_def)
  show ?thesis
  proof (cases "\<rho> = r")
    case True
    have B': "?B' \<rho> = (?B \<rho> - {p}) \<union> set qs"
    proof (rule set_eqI)
      fix q
      consider "q = p" | "q \<in> set qs" "q \<noteq> p" | "q \<noteq> p" "q \<notin> set qs" by blast
      then show "q \<in> ?B' \<rho> \<longleftrightarrow> q \<in> (?B \<rho> - {p}) \<union> set qs" using ro pq True by cases (auto simp: T'_def r_def)
    qed
    have fin: "finite (?B \<rho>)" by (rule finite_subset[of _ "dom S"]) (use dom t in \<open>auto simp: trees_def\<close>)
    have "card (?B' \<rho>) = card (?B \<rho> - {p}) + length qs"
      unfolding B' using fin Tq qs(1) by (subst card_Un_disjoint) (auto simp: distinct_card)
    moreover have "p \<in> ?B \<rho>" using p True by (simp add: r_def)
    moreover have "?B \<rho> = {p}" if "r = p"
    proof -
      have "q = p" if q: "q \<in> ?B \<rho>" for q
      proof -
        obtain z where z: "S q = Some z" using dom q by auto
        have "root_of S R q = p" using q True \<open>r = p\<close> by simp
        then show ?thesis using leaf_root_alone[OF t z] p by auto
      qed
      then show ?thesis using \<open>p \<in> ?B \<rho>\<close> by blast
    qed
    moreover have "N r = card (?B r)" if "r \<noteq> p"
    proof -
      have "sh_parent x \<noteq> None" using trees_root(2)[OF t p(1)] that by (auto simp: r_def)
      then obtain z zs where "S r = Some z" "sh_subs z = Some zs" using trees_child_root_split[OF t p(1)] by (auto simp: r_def)
      then show ?thesis using c root(1) True by (auto simp: counts_def)
    qed
    moreover have "0 < card (?B \<rho>)" using fin \<open>p \<in> ?B \<rho>\<close> by (auto simp: card_gt_0_iff)
    ultimately show ?thesis using True fin by (cases "r = p") (auto simp: card_Diff_singleton)
  next
    case False
    have "?B' \<rho> = ?B \<rho>"
    proof (rule set_eqI)
      fix q
      consider "q = p" | "q \<in> set qs" "q \<noteq> p" | "q \<noteq> p" "q \<notin> set qs" by blast
      then show "q \<in> ?B' \<rho> \<longleftrightarrow> q \<in> ?B \<rho>" using ro pq False Tq by cases (auto simp: T'_def r_def)
    qed
    moreover have "\<rho> \<noteq> p" using False trees_root(2,4)[OF t p(1)] root(1) by (auto simp: r_def)
    moreover have "\<rho> \<notin> set qs" using trees_root_dom[OF t root(1)] qs(2)[of \<rho>] by auto
    then have "S \<rho> = Some y" using root(2) split_shapes_simps(3)[OF qs(1) pq \<open>\<rho> \<noteq> p\<close>] by simp
    then have "N \<rho> = card (?B \<rho>)" using c root(1,3) by (auto simp: counts_def)
    ultimately show ?thesis using False by simp
  qed
qed

lemma split_counts:
  assumes t: "trees S R Z" and t': "trees (split_shapes S p x k qs) R Z" and c: "counts S T A N R"
    and p: "S p = Some x" "sh_subs x = None" "T p = Some CHUNK_STATE_TEMP_PINNED" and qs: "distinct qs" "\<And>q. q \<in> set qs \<Longrightarrow> S q = None" "qs \<noteq> []"
  shows "counts (split_shapes S p x k qs) (\<lambda>q. if q = p then Some CHUNK_STATE_IS_SPLIT else if q \<in> set qs then Some CHUNK_STATE_TEMP_PINNED else T q)
    (A(p := length qs)) (((N)(p := 0))(root_of S R p := if root_of S R p = p then length qs else N (root_of S R p) + length qs - 1)) R"
    (is "counts ?S ?T ?A ?N R")
proof -
  have pq: "p \<notin> set qs" using qs(2) p by auto
  note sim = split_shapes_simps[OF qs(1) pq, where S = S and x = x and k = k]
  have T: "T q = Some CHUNK_STATE_IS_SPLIT \<longleftrightarrow> sh_subs y \<noteq> None" if "S q = Some y" for q y using c that by (auto simp: counts_def)
  have new: "\<exists>i. ?S q = Some (sub_shape x p k i)" if "q \<in> set qs" for q using sim(2) that by (auto simp: in_set_conv_nth)
  show ?thesis
    unfolding counts_def
  proof (intro conjI allI impI)
    have "?T q = None \<longleftrightarrow> ?S q = None" for q
    proof -
      have "dom T = dom S" using c by (simp add: counts_def)
      then have "T q = None \<longleftrightarrow> S q = None" by (metis domIff)
      then show ?thesis using sim(1,3) new[of q] pq by (cases "q = p"; cases "q \<in> set qs") auto
    qed
    then show "dom ?T = dom ?S" unfolding dom_def by (simp only:)
    show "?T q = Some CHUNK_STATE_IS_SPLIT \<longleftrightarrow> sh_subs y \<noteq> None" if "?S q = Some y" for q y
      using that sim(1,3) new[of q] T[of q y] pq by (cases "q = p"; cases "q \<in> set qs") (auto simp: sub_shape_def)
    show "?A q = length (filter (\<lambda>q. ?T q \<noteq> Some CHUNK_STATE_FREE) rs)" if q: "?S q = Some y" "sh_subs y = Some rs" for q y rs
    proof (cases "q = p")
      case True
      then have "rs = qs" using sim(1) q by auto
      moreover have "filter (\<lambda>q. ?T q \<noteq> Some CHUNK_STATE_FREE) qs = qs" by (auto simp: filter_id_conv)
      ultimately show ?thesis using True by simp
    next
      case False
      then have "S q = Some y" using q sim(3) new[of q] by (cases "q \<in> set qs") (auto simp: sub_shape_def)
      moreover have "filter (\<lambda>q. ?T q \<noteq> Some CHUNK_STATE_FREE) rs = filter (\<lambda>q. T q \<noteq> Some CHUNK_STATE_FREE) rs"
      proof (rule filter_cong[OF refl])
        fix z assume "z \<in> set rs"
        then have "S z \<noteq> None" using trees_child[OF t \<open>S q = Some y\<close> q(2)] by auto
        then show "?T z \<noteq> Some CHUNK_STATE_FREE \<longleftrightarrow> T z \<noteq> Some CHUNK_STATE_FREE" using qs(2)[of z] p(3) by auto
      qed
      ultimately show ?thesis using c q(2) False by (auto simp: counts_def)
    qed
    show "?N \<rho> = card {q. ?T q = Some CHUNK_STATE_TEMP_PINNED \<and> root_of ?S R q = \<rho>}" if "\<rho> \<in> set R" "?S \<rho> = Some y" "sh_subs y = Some ys" for \<rho> y ys
      by (rule pinned_split[OF t t' c p qs]) (use that in auto)
  qed
qed

lemma split_gpu_chunk_ok:
  assumes ok: "pmm_ok P" "merged P" and p: "shapes P p = Some x" "states P p = Some CHUNK_STATE_TEMP_PINNED"
    and k: "k = uvm_chunk_find_prev_size (chunk_sizes P (sh_type x)) (sh_size x)" "k < sh_size x" and n: "n = 2 ^ (sh_size x - k)"
    and new: "fresh_subs new n P" "\<not> inject_split_error (get_chunk P p)"
  defines "qs \<equiv> map new [0..<n]"
  shows "\<exists>P'. split_gpu_chunk (Some new) p P = (NV_OK, P') \<and> pmm_ok P' \<and> merged P' \<and> root_chunks P' = root_chunks P \<and> chunk_sizes P' = chunk_sizes P \<and>
    shapes P' = split_shapes (shapes P) p x k qs \<and>
    states P' = (\<lambda>q. if q = p then Some CHUNK_STATE_IS_SPLIT else if q \<in> set qs then Some CHUNK_STATE_TEMP_PINNED else states P q) \<and> allocs P' = (allocs P)(p := n) \<and>
    held P' = (\<lambda>q. if q = p then None else case find (\<lambda>i. qs ! i = q) [0..<n] of None \<Rightarrow> held P q | Some i \<Rightarrow> Some (new_subchunk (get_chunk P p) p k i))"
proof -
  note t = pmm_okD(1)[OF ok(1)]
  have qs: "distinct qs" "length qs = n" "\<And>q. q \<in> set qs \<Longrightarrow> shapes P q = None" "qs \<noteq> []" using new(1) n by (auto simp: qs_def fresh_subs_def shapes_def)
  have leaf: "sh_subs x = None" using split_state[OF ok(1) p(1)] p(2) by auto
  obtain P' where P': "split_gpu_chunk (Some new) p P = (NV_OK, P')" "root_chunks P' = root_chunks P" "chunk_sizes P' = chunk_sizes P" "chunk_lists P' = chunk_lists P"
      "shapes P' = split_shapes (shapes P) p x k qs"
      "states P' = (\<lambda>q. if q = p then Some CHUNK_STATE_IS_SPLIT else if q \<in> set qs then Some CHUNK_STATE_TEMP_PINNED else states P q)" "allocs P' = (allocs P)(p := n)"
      "pins P' = ((pins P)(p := 0))(root_of (shapes P) (root_chunks P) p := if root_of (shapes P) (root_chunks P) p = p then n else pins P (root_of (shapes P) (root_chunks P) p) + n - 1)"
      "evicts P' = evicts P" "\<forall>q. q \<notin> set qs \<longrightarrow> zeros P' q = zeros P q"
      "held P' = (\<lambda>q. if q = p then None else case find (\<lambda>i. qs ! i = q) [0..<n] of None \<Rightarrow> held P q | Some i \<Rightarrow> Some (new_subchunk (get_chunk P p) p k i))"
    using split_gpu_chunk_views[OF ok(1) p k n new] unfolding qs_def by blast
  have t': "trees (shapes P') (root_chunks P) (chunk_sizes P)" unfolding P'(5) by (rule trees_split[OF t p(1) leaf qs(1,3) k qs(2)[unfolded n]])
  have c': "counts (shapes P') (states P') (allocs P') (pins P') (root_chunks P)"
    unfolding P'(5-8) qs(2)[symmetric] by (rule split_counts[OF t t'[unfolded P'(5)] pmm_okD(2)[OF ok(1)] p(1) leaf p(2) qs(1,3,4)])
  note sim = split_shapes_simps[OF qs(1), where S = "shapes P" and p = p and x = x and k = k]
  have pq: "p \<notin> set qs" using qs(3) p by auto
  have "lists_ok ({} \<union> insert p (set qs)) P'"
    by (rule lists_frame[OF pmm_okD(3)[OF ok(1)] P'(4,2,3) dom_states dom_states]) (simp_all add: P'(5,6,10) sim(3)[OF pq])
  moreover have "q \<notin> set (chunk_lists P l)" if "q \<in> set qs" for q l using on_list_dom(2)[OF ok(1), of q l] qs(3)[OF that] by (auto simp: shapes_def)
  moreover have "on_list P' l p" if "p \<in> set (chunk_lists P l)" for l using on_list_dom(1)[OF ok(1) that] p(2) P'(2) by (cases l) (auto simp: on_list_def)
  ultimately have "lists_ok {} P'" by (elim lists_ok_shrink) (auto simp: P'(4,6))
  then have "pmm_ok P'" using t' c' P' pmm_okD(4)[OF ok(1)] by (simp add: pmm_ok_def)
  moreover have "merged P'"
  proof (rule mergedI)
    show "pma_top P'" using mergedD(2)[OF ok(2)] sim(3)[OF pq] unfolding pma_top_def P'(5,6) by auto
    fix q y rs assume q: "shapes P' q = Some y" "sh_subs y = Some rs"
    consider "q = p" | i where "q \<noteq> p" "i < length qs" "q = qs ! i" | "q \<noteq> p" "q \<notin> set qs" by (metis in_set_conv_nth)
    then show "0 < allocs P' q"
    proof cases
      case 1
      then show ?thesis using P'(7) n by simp
    next
      case 2
      then show ?thesis using q sim(2)[OF pq] P'(5) by (auto simp: sub_shape_def)
    next
      case 3
      then show ?thesis using q sim(3)[OF pq] P'(5,7) mergedD(1)[OF ok(2)] by auto
    qed
  qed
  ultimately show ?thesis using P' by blast
qed

section \<open>Merging a chunk whose subchunks are free\<close>

lemma num_subchunks_eq:
  assumes ok: "chunk_tree_ok P" and q: "shapes P q = Some y" "sh_subs y = Some qs"
  shows "num_subchunks P q = length qs" "qs \<noteq> []" "subchunks (get_suballoc P q) = qs"
proof -
  note t = tree_okD[OF ok]
  have s: "split_node_ok (shapes P) (chunk_sizes P) q y qs" using trees_node[OF t q(1)] q(2) by (simp add: node_ok_def)
  then show ne: "qs \<noteq> []" by (auto simp: split_node_ok_def Let_def)
  then obtain z where z: "shapes P (qs ! 0) = Some z" "sh_size z < sh_size y" "length qs = 2 ^ (sh_size y - sh_size z)"
    using s unfolding split_node_ok_def Let_def by (metis length_greater_0_conv)
  show sub: "subchunks (get_suballoc P q) = qs" by (rule get_views(6)[OF q])
  show "num_subchunks P q = length qs"
    using z by (simp add: num_subchunks_def sub get_views(2)[OF q(1)] get_views(2)[OF z(1)] power_diff)
qed

lemma pin_subchunks_state:
  "gpu_chunks (pin_subchunks qs P) = (\<lambda>z. if z \<in> set qs then map_option (\<lambda>c. c\<lparr>chunk_state := CHUNK_STATE_TEMP_PINNED\<rparr>) (gpu_chunks P z) else gpu_chunks P z)"
  "chunk_lists (pin_subchunks qs P) = (\<lambda>l. filter (\<lambda>z. z \<notin> set qs) (chunk_lists P l))"
  "root_chunks (pin_subchunks qs P) = root_chunks P" "chunk_sizes (pin_subchunks qs P) = chunk_sizes P"
proof (induction qs arbitrary: P)
  case (Cons q qs)
  { case 1 show ?case by (auto simp: Cons fun_eq_iff option.map_comp comp_def) }
  { case 2 show ?case by (auto simp: Cons fun_eq_iff list_del_init_def intro: filter_cong) }
qed simp_all

text \<open>The state after the subchunks of \<open>q\<close>, all free, are pinned and the counts are set, and after the chunk is merged.\<close>

definition prepare_merge :: "'p \<Rightarrow> 'p \<Rightarrow> 'p list \<Rightarrow> ('p, 'v) pmm \<Rightarrow> ('p, 'v) pmm" where
  "prepare_merge r q qs P = upd_suballoc q (\<lambda>a. a\<lparr>sub_allocated := length qs\<rparr>)
     (upd_suballoc r (\<lambda>a. a\<lparr>pinned_leaf_chunks := pinned_leaf_chunks a + length qs\<rparr>) (pin_subchunks qs P))"

lemma shapes_pin_subchunks: "shapes (pin_subchunks qs P) = shapes P"
  by (simp add: fun_eq_iff shapes_def pin_subchunks_state option.map_comp comp_def)

lemma prepare_shapes [simp]:
  "shapes (prepare_merge r q qs P) = shapes P" "root_chunks (prepare_merge r q qs P) = root_chunks P" "chunk_sizes (prepare_merge r q qs P) = chunk_sizes P"
  by (simp_all add: prepare_merge_def shapes_pin_subchunks pin_subchunks_state)

lemma num_subchunks_shape:
  assumes "shapes P q = Some y" "sh_subs y = Some (s # qs)" "shapes P s = Some z"
  shows "num_subchunks P q = 2 ^ sh_size y div 2 ^ sh_size z"
  using get_views(6)[OF assms(1,2)] by (simp add: num_subchunks_def get_views(2)[OF assms(1)] get_views(2)[OF assms(3)])

lemma merge_state:
  assumes ok: "pmm_ok P" and q: "shapes P q = Some y" "sh_subs y = Some qs"
  defines "r \<equiv> root_of (shapes P) (root_chunks P) q" and "P' \<equiv> merge_gpu_chunk q (prepare_merge (root_of (shapes P) (root_chunks P) q) q qs P)"
  shows "gpu_chunks P' = (\<lambda>z. if z \<in> set qs then None
      else if z = q then Some ((get_chunk P q)\<lparr>chunk_state := CHUNK_STATE_TEMP_PINNED, chunk_suballoc := None, is_zero := False\<rparr>)
      else if z = r then gpu_chunks (upd_suballoc r (\<lambda>a. a\<lparr>pinned_leaf_chunks := pinned_leaf_chunks a + 1\<rparr>) P) z else gpu_chunks P z)"
    "chunk_lists P' = (\<lambda>l. filter (\<lambda>z. z \<notin> set qs) (chunk_lists P l))" "root_chunks P' = root_chunks P" "chunk_sizes P' = chunk_sizes P"
proof -
  define P1 where "P1 = prepare_merge r q qs P"
  note t = pmm_chunk_tree_ok[OF ok]
  note n = num_subchunks_eq[OF t q]
  obtain s rest where s: "qs = s # rest" using n(2) by (cases qs) auto
  then obtain z where z: "shapes P s = Some z" using trees_child[OF pmm_okD(1)[OF ok] q, of s] by auto
  have v: "shapes P1 = shapes P" "root_chunks P1 = root_chunks P" by (simp_all add: P1_def)
  have n1: "num_subchunks P1 q = length qs" using num_subchunks_shape[of P1 q y] num_subchunks_shape[OF q(1) q(2)[unfolded s] z] n(1) q z s v(1) by simp
  have sub1: "subchunks (get_suballoc P1 q) = qs" by (rule get_views(6)[OF _ q(2)]) (simp add: v q)
  have r1: "root_chunk_from_chunk P1 q = r" using root_chunk_eq[of P1 q y] v q by (simp add: r_def)
  have qn: "q \<notin> set qs" using trees_child[OF pmm_okD(1)[OF ok] q, of q] q(1) by auto
  have rn: "r \<notin> set qs"
  proof
    assume "r \<in> set qs"
    then have "\<exists>x. shapes P r = Some x \<and> sh_parent x = Some q" using trees_child[OF pmm_okD(1)[OF ok] q] by auto
    moreover have "r \<in> set (root_chunks P)" using root_facts(1)[OF t q(1)] by (simp add: r_def)
    ultimately show False using trees_root_dom[OF pmm_okD(1)[OF ok]] by fastforce
  qed
  have st: "chunk_state (get_chunk P1 s) = CHUNK_STATE_TEMP_PINNED"
  proof -
    obtain c where c: "gpu_chunks P s = Some c" using pmm_gpu_dom[OF z] by auto
    have "s \<noteq> r" "s \<noteq> q" using rn qn s by auto
    then have "gpu_chunks P1 s = Some (c\<lparr>chunk_state := CHUNK_STATE_TEMP_PINNED\<rparr>)" using c s by (simp add: P1_def prepare_merge_def upd_suballoc_def pin_subchunks_state)
    then show ?thesis by (simp add: get_chunk_def)
  qed
  then have st0: "chunk_state (get_chunk P1 (qs ! 0)) = CHUNK_STATE_TEMP_PINNED" by (simp add: s)
  have e: "P' = (let P2 = upd_chunk q (\<lambda>c. c\<lparr>chunk_state := CHUNK_STATE_TEMP_PINNED, chunk_suballoc := None, is_zero := False\<rparr>)
        (upd_suballoc r (\<lambda>a. a\<lparr>pinned_leaf_chunks := pinned_leaf_chunks a + 1 - length qs\<rparr>) P1) in P2\<lparr>gpu_chunks := (\<lambda>z. if z \<in> set qs then None else gpu_chunks P2 z)\<rparr>)"
    unfolding P'_def r_def[symmetric] P1_def[symmetric] merge_gpu_chunk_def Let_def n1 sub1 r1 st0 by simp
  show "chunk_lists P' = (\<lambda>l. filter (\<lambda>z. z \<notin> set qs) (chunk_lists P l))" "root_chunks P' = root_chunks P" "chunk_sizes P' = chunk_sizes P"
    by (simp_all add: e Let_def P1_def) (simp add: prepare_merge_def pin_subchunks_state)
  obtain c where c: "gpu_chunks P q = Some c" using pmm_gpu_dom[OF q(1)] by auto
  show "gpu_chunks P' = (\<lambda>z. if z \<in> set qs then None
      else if z = q then Some ((get_chunk P q)\<lparr>chunk_state := CHUNK_STATE_TEMP_PINNED, chunk_suballoc := None, is_zero := False\<rparr>)
      else if z = r then gpu_chunks (upd_suballoc r (\<lambda>a. a\<lparr>pinned_leaf_chunks := pinned_leaf_chunks a + 1\<rparr>) P) z else gpu_chunks P z)"
    using c qn rn by (auto simp: fun_eq_iff e Let_def P1_def prepare_merge_def upd_suballoc_def pin_subchunks_state get_chunk_def option.map_comp comp_def)
qed

lemma views_eq:
  "gpu_chunks P' z = gpu_chunks P z \<Longrightarrow> shapes P' z = shapes P z \<and> states P' z = states P z \<and> allocs P' z = allocs P z \<and> zeros P' z = zeros P z \<and> evicts P' z = evicts P z \<and> held P' z = held P z"
  by (simp add: shapes_def states_def allocs_def zeros_def evicts_def held_def)

lemma merge_views:
  assumes ok: "pmm_ok P" and q: "shapes P q = Some y" "sh_subs y = Some qs" and free: "\<forall>z\<in>set qs. states P z = Some CHUNK_STATE_FREE"
  defines "r \<equiv> root_of (shapes P) (root_chunks P) q" and "P' \<equiv> merge_gpu_chunk q (prepare_merge (root_of (shapes P) (root_chunks P) q) q qs P)"
  shows "shapes P' = merge_shapes (shapes P) q y qs"
    "states P' = (\<lambda>z. if z = q then Some CHUNK_STATE_TEMP_PINNED else if z \<in> set qs then None else states P z)"
    "allocs P' = (allocs P)(q := 0)" "\<And>z. z \<noteq> q \<Longrightarrow> z \<noteq> r \<Longrightarrow> z \<notin> set qs \<Longrightarrow> pins P' z = pins P z" "r \<noteq> q \<Longrightarrow> pins P' r = pins P r + 1"
    "\<And>z. z \<noteq> q \<Longrightarrow> z \<notin> set qs \<Longrightarrow> zeros P' z = zeros P z" "\<And>z. \<not> evicts P' z"
    "\<exists>c. held P' = (held P)(q \<mapsto> c)"
proof -
  note g = merge_state[OF ok q, folded P'_def r_def]
  note t = pmm_okD(1)[OF ok]
  have leaf: "\<exists>x. shapes P z = Some x \<and> sh_subs x = None" if "z \<in> set qs" for z using in_use_leaf[OF ok free[rule_format, OF that]] by simp
  have qn: "q \<notin> set qs" using leaf[of q] q by auto
  have r: "r \<notin> set qs \<and> (\<exists>x xs. shapes P r = Some x \<and> sh_subs x = Some xs \<and> states P r = Some CHUNK_STATE_IS_SPLIT)"
    using trees_root_split[OF t q] leaf[of r] split_state[OF ok] by (auto simp: r_def)
  obtain c where c: "gpu_chunks P q = Some c" "shape_of c = y" using pmm_gpu_dom[OF q(1)] by auto
  have gq: "gpu_chunks P' q = Some (c\<lparr>chunk_state := CHUNK_STATE_TEMP_PINNED, chunk_suballoc := None, is_zero := False\<rparr>)" using qn c(1) by (simp add: g(1) get_chunk_def)
  have gs: "gpu_chunks P' z = None" if "z \<in> set qs" for z using that by (simp add: g(1))
  have go: "gpu_chunks P' z = gpu_chunks P z" if "z \<noteq> q" "z \<noteq> r" "z \<notin> set qs" for z using that by (simp add: g(1))
  let ?R = "upd_suballoc r (\<lambda>a. a\<lparr>pinned_leaf_chunks := pinned_leaf_chunks a + 1\<rparr>) P"
  have gr: "gpu_chunks P' r = gpu_chunks ?R r" if "r \<noteq> q" using r that by (simp add: g(1))
  have pr: "pins ?R = (pins P)(r := pins P r + 1)" using r by (auto intro!: pins_set simp: domIff simp del: dom_shapes)
  have view: "shapes P' z = shapes P z \<and> states P' z = states P z \<and> allocs P' z = allocs P z \<and> zeros P' z = zeros P z \<and> evicts P' z = evicts P z \<and> held P' z = held P z"
    if "z \<noteq> q" "z \<notin> set qs" for z
  proof (cases "z = r")
    case True
    then have "gpu_chunks P' z = gpu_chunks ?R z" using gr that by simp
    moreover have "states P r = Some CHUNK_STATE_IS_SPLIT" using r by auto
    ultimately show ?thesis using views_eq[of P' z ?R] held_suballoc[of P r] by simp
  qed (rule views_eq[OF go], use that in auto)
  have old: "allocs P z = 0" "held P z = None" if "z \<in> set qs" for z
    using leaf[OF that] not_held[OF free[rule_format, OF that]] by (auto simp: allocs_def shapes_def shape_of_def)
  show "shapes P' = merge_shapes (shapes P) q y qs"
    using view gs gq c by (auto simp: fun_eq_iff merge_shapes_def) (auto simp: shapes_def shape_of_def)
  show "states P' = (\<lambda>z. if z = q then Some CHUNK_STATE_TEMP_PINNED else if z \<in> set qs then None else states P z)"
    using view gs gq by (auto simp: fun_eq_iff) (auto simp: states_def)
  show "allocs P' = (allocs P)(q := 0)"
  proof
    fix z
    show "allocs P' z = ((allocs P)(q := 0)) z"
      using view[of z] gs[of z] gq old(1)[of z] by (cases "z = q"; cases "z \<in> set qs") (simp_all add: allocs_def)
  qed
  show "pins P' z = pins P z" if "z \<noteq> q" "z \<noteq> r" "z \<notin> set qs" for z using go[OF that] by (simp add: pins_def)
  show "pins P' r = pins P r + 1" if "r \<noteq> q" using gr[OF that] fun_cong[OF pr, of r] by (simp add: pins_def)
  show "zeros P' z = zeros P z" if "z \<noteq> q" "z \<notin> set qs" for z using view[OF that] by simp
  show "\<not> evicts P' z" for z
    using view[of z] gs[of z] gq c pmm_okD(4)[OF ok, of z] by (cases "z = q"; cases "z \<in> set qs") (auto simp: evicts_def)
  have "held P' q = Some (c\<lparr>chunk_state := CHUNK_STATE_TEMP_PINNED, chunk_suballoc := None, is_zero := False\<rparr>)" using gq by (simp add: held_def)
  moreover have "held P' z = held P z" if "z \<noteq> q" for z using view[OF that] gs[of z] old(2)[of z] by (cases "z \<in> set qs") (auto simp: held_def[of P'])
  ultimately have "held P' = (held P)(q \<mapsto> c\<lparr>chunk_state := CHUNK_STATE_TEMP_PINNED, chunk_suballoc := None, is_zero := False\<rparr>)" by (simp add: fun_eq_iff)
  then show "\<exists>c. held P' = (held P)(q \<mapsto> c)" by blast
qed

lemma merge_counts:
  assumes t: "trees S R Z" and c: "counts S T A N R" and q: "S q = Some y" "sh_subs y = Some qs" and free: "\<And>z. z \<in> set qs \<Longrightarrow> T z = Some CHUNK_STATE_FREE"
    and N: "\<And>z. z \<noteq> q \<Longrightarrow> z \<noteq> root_of S R q \<Longrightarrow> z \<notin> set qs \<Longrightarrow> N' z = N z" "root_of S R q \<noteq> q \<Longrightarrow> N' (root_of S R q) = N (root_of S R q) + 1"
  shows "counts (merge_shapes S q y qs) (\<lambda>z. if z = q then Some CHUNK_STATE_TEMP_PINNED else if z \<in> set qs then None else T z) (A(q := 0)) N' R" (is "counts ?S ?T _ _ _")
proof -
  have child: "\<exists>x. S z = Some x \<and> sh_parent x = Some q" if "z \<in> set qs" for z using trees_child[OF t q that] by auto
  have split: "T z = Some CHUNK_STATE_IS_SPLIT \<longleftrightarrow> sh_subs x \<noteq> None" if "S z = Some x" for z x using c that by (auto simp: counts_def)
  have qn: "q \<notin> set qs" "T q = Some CHUNK_STATE_IS_SPLIT" using split[OF q(1)] q(2) free[of q] by auto
  have sim: "?S q = Some (y\<lparr>sh_subs := None\<rparr>)" "\<And>z. z \<in> set qs \<Longrightarrow> ?S z = None" "\<And>z. z \<noteq> q \<Longrightarrow> z \<notin> set qs \<Longrightarrow> ?S z = S z" using qn by (auto simp: merge_shapes_def)
  have ro: "root_of ?S R z = root_of S R z" if "z \<notin> set qs" for z using sim that q(1) by (cases "z = q") (simp_all add: root_of_def)
  have old: "z \<noteq> q \<and> z \<notin> set qs \<and> S z = Some x" if "?S z = Some x" "sh_subs x = Some xs" for z x xs
    using that by (auto simp: merge_shapes_def split: if_splits)
  show ?thesis
    unfolding counts_def
  proof (intro conjI allI impI)
    have "dom T = dom S" using c by (simp add: counts_def)
    then have "T z = None \<longleftrightarrow> S z = None" for z by (metis domIff)
    then have "?T z = None \<longleftrightarrow> ?S z = None" for z by (simp add: merge_shapes_def)
    then show "dom ?T = dom ?S" unfolding dom_def by (simp only:)
    show "?T z = Some CHUNK_STATE_IS_SPLIT \<longleftrightarrow> sh_subs x \<noteq> None" if "?S z = Some x" for z x
      using that split[of z x] by (auto simp: merge_shapes_def split: if_splits)
    show "(A(q := 0)) z = length (filter (\<lambda>z. ?T z \<noteq> Some CHUNK_STATE_FREE) rs)" if z: "?S z = Some x" "sh_subs x = Some rs" for z x rs
    proof -
      have o: "z \<noteq> q" "S z = Some x" using old[OF z] by auto
      have "filter (\<lambda>z. ?T z \<noteq> Some CHUNK_STATE_FREE) rs = filter (\<lambda>z. T z \<noteq> Some CHUNK_STATE_FREE) rs"
      proof (rule filter_cong[OF refl])
        fix w assume "w \<in> set rs"
        then have "w \<notin> set qs" using trees_child[OF t o(2) z(2)] child[of w] o(1) by fastforce
        then show "?T w \<noteq> Some CHUNK_STATE_FREE \<longleftrightarrow> T w \<noteq> Some CHUNK_STATE_FREE" using qn(2) by simp
      qed
      then show ?thesis using c o z(2) by (auto simp: counts_def)
    qed
    show "N' \<rho> = card {z. ?T z = Some CHUNK_STATE_TEMP_PINNED \<and> root_of ?S R z = \<rho>}" if \<rho>: "\<rho> \<in> set R" "?S \<rho> = Some x" "sh_subs x = Some xs" for \<rho> x xs
    proof -
      let ?B = "{z. T z = Some CHUNK_STATE_TEMP_PINNED \<and> root_of S R z = \<rho>}"
      have o: "\<rho> \<noteq> q" "\<rho> \<notin> set qs" "S \<rho> = Some x" using old[OF \<rho>(2,3)] by auto
      have N0: "N \<rho> = card ?B" using c o(3) \<rho> by (auto simp: counts_def)
      have "?T z = Some CHUNK_STATE_TEMP_PINNED \<and> root_of ?S R z = \<rho> \<longleftrightarrow> z \<in> (if root_of S R q = \<rho> then insert q ?B else ?B)" for z
        using free[of z] qn ro[of z] by (cases "z = q"; cases "z \<in> set qs") auto
      then have B': "{z. ?T z = Some CHUNK_STATE_TEMP_PINNED \<and> root_of ?S R z = \<rho>} = (if root_of S R q = \<rho> then insert q ?B else ?B)" by blast
      have "?B \<subseteq> dom S" using c by (auto simp: counts_def)
      then have "finite ?B" using t by (auto simp: trees_def intro: finite_subset)
      then show ?thesis unfolding B' using N N0 o qn(2) by auto
    qed
  qed
qed

lemma merge_ok:
  assumes ok: "pmm_ok P" and q: "shapes P q = Some y" "sh_subs y = Some qs" and free: "\<forall>z\<in>set qs. states P z = Some CHUNK_STATE_FREE"
  defines "P' \<equiv> merge_gpu_chunk q (prepare_merge (root_of (shapes P) (root_chunks P) q) q qs P)"
  shows "pmm_ok P'"
proof -
  note t = pmm_okD(1)[OF ok]
  note g = merge_state(2-4)[OF ok q, folded P'_def]
  note v = merge_views[OF ok q free, folded P'_def]
  have leaf: "\<exists>x. shapes P z = Some x \<and> sh_subs x = None" if "z \<in> set qs" for z using in_use_leaf[OF ok free[rule_format, OF that]] by simp
  have "trees (shapes P') (root_chunks P) (chunk_sizes P)" unfolding v(1) by (rule trees_merge[OF t q]) (use leaf in force)
  moreover have "counts (shapes P') (states P') (allocs P') (pins P') (root_chunks P)"
    unfolding v(1-3) by (rule merge_counts[OF t pmm_okD(2)[OF ok] q]) (use free v(4,5) in auto)
  moreover have "lists_ok {} P'"
  proof -
    have "lists_ok ({} \<union> insert q (set qs)) (P'\<lparr>chunk_lists := chunk_lists P\<rparr>)"
      by (rule lists_frame[OF pmm_okD(3)[OF ok] _ _ _ dom_states dom_states]) (simp_all add: g v(1,2,6) merge_shapes_def)
    then have "lists_ok (insert q (set qs)) P'" by (auto elim!: lists_ok_filter[where Y = "set qs"] simp: g(1))
    moreover have "on_list P' l z" if "z \<in> insert q (set qs)" "z \<in> set (chunk_lists P' l)" for z l
    proof -
      have "z = q" "q \<in> set (chunk_lists P l)" using that g(1) by auto
      moreover have "states P q = Some CHUNK_STATE_IS_SPLIT" using split_state[OF ok q(1)] q(2) by simp
      ultimately show ?thesis using on_list_dom(1)[OF ok, of q l] g(2) by (cases l) (auto simp: on_list_def)
    qed
    ultimately show ?thesis by (rule lists_ok_shrink) (auto simp: v(2))
  qed
  ultimately show ?thesis using v(7) g by (simp add: pmm_ok_def)
qed

section \<open>Freeing\<close>

text \<open>The parent of the last subchunk in use is merged, and is then in use itself.\<close>

lemma free_last:
  assumes ok: "pmm_ok P" "merged P" and p: "shapes P p = Some x" "states P p = Some s" "in_use s" "sh_parent x = Some q" and last: "allocs P q = 1"
  shows "\<exists>P1 c y. free_or_prepare_for_merge p P = (Some q, P1) \<and> pmm_ok (merge_gpu_chunk q P1) \<and> merged (merge_gpu_chunk q P1) \<and>
    held (merge_gpu_chunk q P1) = (held P)(p := None, q \<mapsto> c) \<and> shapes (merge_gpu_chunk q P1) q = Some y \<and> sh_size x < sh_size y \<and>
    states (merge_gpu_chunk q P1) q = Some CHUNK_STATE_TEMP_PINNED \<and> chunk_sizes (merge_gpu_chunk q P1) = chunk_sizes P \<and> root_chunks (merge_gpu_chunk q P1) = root_chunks P \<and>
    dom (gpu_chunks (merge_gpu_chunk q P1)) \<subseteq> dom (gpu_chunks P)"
proof -
  define F where "F = chunk_free_locked p P"
  note v = chunk_free_ok[OF ok(1) p(1-3), folded F_def]
  obtain y qs where y: "shapes P q = Some y" "sh_subs y = Some qs" "p \<in> set qs" "q \<noteq> p" "sh_size x < sh_size y"
      "root_of (shapes P) (root_chunks P) p = root_of (shapes P) (root_chunks P) q"
    using parent_facts[OF ok(1) p(1,4)] by auto
  have yF: "shapes F q = Some y" using y(1) v(2) by simp
  have "allocs F q = 0" using v(5) p(4) last by simp
  moreover have "allocs F q = length (filter (\<lambda>q. states F q \<noteq> Some CHUNK_STATE_FREE) qs)" using pmm_okD(2)[OF v(1)] yF y(2) by (auto simp: counts_def)
  ultimately have free: "\<forall>z\<in>set qs. states F z = Some CHUNK_STATE_FREE" by (auto simp: filter_empty_conv)
  let ?r = "root_of (shapes F) (root_chunks F) q"
  define P1 where "P1 = prepare_merge ?r q qs F"
  have e: "free_or_prepare_for_merge p P = (Some q, P1)"
  proof -
    define F1 where "F1 = pin_subchunks qs F"
    have sh: "shapes F1 = shapes F" by (simp add: F1_def shapes_pin_subchunks)
    note n = num_subchunks_eq[OF pmm_chunk_tree_ok[OF v(1)] yF y(2)]
    obtain z zs where z: "qs = z # zs" using n(2) by (cases qs) auto
    obtain w where w: "shapes F z = Some w" using trees_child[OF pmm_okD(1)[OF v(1)] yF y(2), of z] z by auto
    have num: "num_subchunks Q q = length qs" if "shapes Q = shapes F" for Q :: "('a, 'b) pmm"
      using num_subchunks_shape[of Q q y z zs w] num_subchunks_shape[OF yF _ w] yF y(2) z w n(1) that by simp
    have "root_chunk_from_chunk F1 p = ?r" using root_chunk_eq[of F1 p x] p(1) v(2) y(6) sh by (simp add: F1_def pin_subchunks_state v(6))
    moreover have "sub_allocated (get_suballoc P q) = 1" using get_views(7)[OF y(1,2)] last by simp
    moreover have "chunk_parent (get_chunk P p) = Some q" using get_views(4)[OF p(1)] p(4) by simp
    moreover have "shapes (upd_suballoc ?r (\<lambda>a. a\<lparr>pinned_leaf_chunks := pinned_leaf_chunks a + length qs\<rparr>) F1) = shapes F" by (simp add: sh)
    note num[OF this]
    ultimately show ?thesis
      by (simp add: free_or_prepare_for_merge_def chunk_is_last_allocated_child_def F_def[symmetric] n(1,3) F1_def[symmetric] Let_def num[OF sh] P1_def prepare_merge_def)
  qed
  let ?M = "merge_gpu_chunk q P1"
  note m = merge_views[OF v(1) yF y(2) free, folded P1_def]
  note g = merge_state[OF v(1) yF y(2), folded P1_def]
  obtain c where c: "held ?M = (held F)(q \<mapsto> c)" using m(8) by auto
  have "pmm_ok ?M" using merge_ok[OF v(1) yF y(2) free] by (simp add: P1_def)
  moreover have "merged ?M"
  proof (rule mergedI)
    have "pma_top F" by (rule pma_top_set[OF mergedD(2)[OF ok(2)] v(2,3)]) simp
    then show "pma_top ?M" unfolding pma_top_def m(1,2) by (auto simp: merge_shapes_def)
    fix z w rs assume z: "shapes ?M z = Some w" "sh_subs w = Some rs"
    then have "z \<noteq> q" "shapes P z = Some w" using m(1) v(2) by (auto simp: merge_shapes_def split: if_splits)
    then show "0 < allocs ?M z" using m(3) v(5) p(4) mergedD(1)[OF ok(2)] z(2) by auto
  qed
  moreover have "held ?M = (held P)(p := None, q \<mapsto> c)" using c v(4) by simp
  moreover have "shapes ?M q = Some (y\<lparr>sh_subs := None\<rparr>)" using m(1) by (simp add: merge_shapes_def)
  moreover have "dom (gpu_chunks ?M) \<subseteq> dom (gpu_chunks P)"
  proof -
    have "dom (shapes ?M) \<subseteq> dom (shapes P)" using m(1) v(2) y(1) by (auto simp: merge_shapes_def dom_def split: if_splits)
    then show ?thesis by simp
  qed
  ultimately show ?thesis using e m(2) y(5) g(3,4) v(6,7)
    by (intro exI[of _ P1] exI[of _ c] exI[of _ "y\<lparr>sh_subs := None\<rparr>"]) simp
qed

definition clear_inject :: "'p \<Rightarrow> ('p, 'v) pmm \<Rightarrow> ('p, 'v) pmm" where
  "clear_inject p = upd_chunk p (\<lambda>c. c\<lparr>inject_split_error := False\<rparr>)"

lemma clear_inject_ok:
  assumes ok: "pmm_ok P"
  shows "pmm_ok (clear_inject p P)" "merged P \<Longrightarrow> merged (clear_inject p P)" "shapes (clear_inject p P) = shapes P" "states (clear_inject p P) = states P"
    "allocs (clear_inject p P) = allocs P" "chunk_sizes (clear_inject p P) = chunk_sizes P" "root_chunks (clear_inject p P) = root_chunks P"
    "dom (gpu_chunks (clear_inject p P)) = dom (gpu_chunks P)" "q \<noteq> p \<Longrightarrow> held (clear_inject p P) q = held P q" "chunk_lists (clear_inject p P) = chunk_lists P"
    "zeros (clear_inject p P) = zeros P"
proof -
  show v: "shapes (clear_inject p P) = shapes P" "states (clear_inject p P) = states P" "allocs (clear_inject p P) = allocs P"
    "chunk_sizes (clear_inject p P) = chunk_sizes P" "root_chunks (clear_inject p P) = root_chunks P" "chunk_lists (clear_inject p P) = chunk_lists P"
    "zeros (clear_inject p P) = zeros P"
    by (simp_all add: clear_inject_def shape_of_def)
  have "pins (clear_inject p P) = pins P" "evicts (clear_inject p P) = evicts P" by (simp_all add: clear_inject_def)
  moreover have "lists_ok ({} \<union> {}) (clear_inject p P)"
    by (rule lists_frame[OF pmm_okD(3)[OF ok] v(6,5,4) dom_states dom_states]) (simp add: v)
  ultimately show "pmm_ok (clear_inject p P)" using ok v by (simp add: pmm_ok_def)
  show "merged P \<Longrightarrow> merged (clear_inject p P)" using v by (simp add: merged_def pma_top_def)
  show "dom (gpu_chunks (clear_inject p P)) = dom (gpu_chunks P)" by (auto simp: clear_inject_def)
  show "q \<noteq> p \<Longrightarrow> held (clear_inject p P) q = held P q" by (simp add: clear_inject_def held_def)
qed

lemma last_child:
  assumes ok: "pmm_ok P" and p: "shapes P p = Some x"
  shows "chunk_is_last_allocated_child P p \<longleftrightarrow> (\<exists>q. sh_parent x = Some q \<and> allocs P q = 1)"
proof (cases "sh_parent x")
  case (Some q)
  obtain y qs where y: "shapes P q = Some y" "sh_subs y = Some qs" using parent_facts[OF ok p Some] by auto
  show ?thesis using Some get_views(7)[OF y] by (simp add: chunk_is_last_allocated_child_def get_views(4)[OF p])
qed (simp add: chunk_is_last_allocated_child_def get_views(4)[OF p])

lemma free_not_last:
  assumes ok: "pmm_ok P" "merged P" and p: "shapes P p = Some x" "states P p = Some s" "in_use s" and last: "\<not> chunk_is_last_allocated_child P p"
  shows "merged (chunk_free_locked p P)"
proof (rule mergedI)
  note v = chunk_free_ok[OF ok(1) p]
  show "pma_top (chunk_free_locked p P)" by (rule pma_top_set[OF mergedD(2)[OF ok(2)] v(2,3)]) simp
  fix q y qs assume q: "shapes (chunk_free_locked p P) q = Some y" "sh_subs y = Some qs"
  then have a: "0 < allocs P q" using mergedD(1)[OF ok(2)] v(2) by auto
  show "0 < allocs (chunk_free_locked p P) q"
  proof (cases "sh_parent x = Some q")
    case True
    then have "allocs P q \<noteq> 1" using last last_child[OF ok(1) p(1)] by auto
    then show ?thesis using a True v(5) by simp
  qed (use a v(5) in \<open>auto split: option.split\<close>)
qed

lemma dom_free: "shapes (chunk_free_locked p P) = shapes P \<Longrightarrow> dom (gpu_chunks (chunk_free_locked p P)) = dom (gpu_chunks P)"
  using dom_shapes(1)[of P] dom_shapes(1)[of "chunk_free_locked p P"] by simp

text \<open>What freeing the chunk \<open>p\<close> amounts to.\<close>

definition freed :: "'p \<Rightarrow> ('p, 'v) pmm \<Rightarrow> ('p, 'v) pmm \<Rightarrow> bool" where
  "freed p P P' \<longleftrightarrow> pmm_ok P' \<and> merged P' \<and> held P' = (held P)(p := None) \<and> chunk_sizes P' = chunk_sizes P \<and> root_chunks P' = root_chunks P \<and>
     dom (gpu_chunks P') \<subseteq> dom (gpu_chunks P)"

lemma freed_locked:
  assumes "pmm_ok P" "merged P" "shapes P p = Some x" "states P p = Some s" "in_use s" "\<not> chunk_is_last_allocated_child P p"
  shows "freed p P (chunk_free_locked p P)"
  using chunk_free_ok[OF assms(1,3-5)] free_not_last[OF assms] dom_free[of p P] by (simp add: freed_def)

lemma freed_clear: "pmm_ok P \<Longrightarrow> freed p (clear_inject p P) P' \<Longrightarrow> freed p P P'"
  using clear_inject_ok(6-8)[of P p] clear_inject_ok(9)[of P _ p] by (auto simp: freed_def fun_eq_iff)

lemma try_chunk_free_eq: "try_chunk_free p P = (if chunk_is_last_allocated_child (clear_inject p P) p then (False, clear_inject p P)
    else (True, chunk_free_locked p (clear_inject p P)))"
  by (simp add: try_chunk_free_def clear_inject_def Let_def)

lemma freed_try:
  assumes ok: "pmm_ok P" "merged P" and p: "shapes P p = Some x" "states P p = Some s" "in_use s" and t: "try_chunk_free p P = (True, P')"
  shows "freed p P P'"
proof -
  note c = clear_inject_ok[OF ok(1), of p]
  have "freed p (clear_inject p P) (chunk_free_locked p (clear_inject p P))"
    by (rule freed_locked[OF c(1) c(2)[OF ok(2)]]) (use p c t in \<open>auto simp: try_chunk_free_eq split: if_splits\<close>)
  then show ?thesis using freed_clear[OF ok(1)] t by (auto simp: try_chunk_free_eq split: if_splits)
qed

lemma freed_with_merges:
  assumes "pmm_ok P" "merged P" "shapes P p = Some x" "states P p = Some s" "in_use s" "UVM_CHUNK_SIZE_INVALID \<le> sh_size x + fuel"
  shows "\<exists>P'. free_chunk_with_merges fuel p P = Some P' \<and> freed p P P'"
  using assms
proof (induction fuel arbitrary: p P x s)
  case 0
  then show ?case using trees_node[OF pmm_okD(1)[OF 0(1)] 0(3)] by (simp add: node_ok_def UVM_CHUNK_SIZE_INVALID_def)
next
  case (Suc fuel)
  note ok = Suc.prems(1,2) and p = Suc.prems(3-5)
  show ?case
  proof (cases "sh_parent x")
    case None
    have "free_or_prepare_for_merge p P = (None, snd (try_chunk_free p P))" using get_views(4)[OF p(1)] None by (simp add: free_or_prepare_for_merge_def)
    moreover have "\<not> chunk_is_last_allocated_child (clear_inject p P) p"
      using last_child[OF clear_inject_ok(1)[OF ok(1)]] clear_inject_ok(3)[OF ok(1)] p(1) None by simp
    then have "freed p P (snd (try_chunk_free p P))" by (intro freed_try[OF ok p]) (simp add: try_chunk_free_eq)
    ultimately show ?thesis by simp
  next
    case (Some q)
    show ?thesis
    proof (cases "allocs P q = 1")
      case True
      obtain P1 c y where m: "free_or_prepare_for_merge p P = (Some q, P1)" "pmm_ok (merge_gpu_chunk q P1)" "merged (merge_gpu_chunk q P1)"
          "held (merge_gpu_chunk q P1) = (held P)(p := None, q \<mapsto> c)" "shapes (merge_gpu_chunk q P1) q = Some y" "sh_size x < sh_size y"
          "states (merge_gpu_chunk q P1) q = Some CHUNK_STATE_TEMP_PINNED" "chunk_sizes (merge_gpu_chunk q P1) = chunk_sizes P"
          "root_chunks (merge_gpu_chunk q P1) = root_chunks P" "dom (gpu_chunks (merge_gpu_chunk q P1)) \<subseteq> dom (gpu_chunks P)"
        using free_last[OF ok p Some True] by blast
      obtain P' where P': "free_chunk_with_merges fuel q (merge_gpu_chunk q P1) = Some P'" "freed q (merge_gpu_chunk q P1) P'"
        using Suc.IH[OF m(2,3,5,7)] m(6) Suc.prems(6) by auto
      have "states P q = Some CHUNK_STATE_IS_SPLIT" using parent_facts[OF ok(1) p(1) Some] by auto
      then have "held P q = None" by (rule not_held) simp
      then have "((held P)(p := None, q \<mapsto> c))(q := None) = (held P)(p := None)" by auto
      then have "freed p P P'" using P'(2) m(4,8-10) unfolding freed_def by (metis subset_trans)
      then show ?thesis using P'(1) m(1) by simp
    next
      case False
      then have l: "\<not> chunk_is_last_allocated_child P p" using last_child[OF ok(1) p(1)] Some by simp
      then have "free_or_prepare_for_merge p P = (None, chunk_free_locked p P)" using get_views(4)[OF p(1)] Some by (simp add: free_or_prepare_for_merge_def)
      then show ?thesis using freed_locked[OF ok p l] by simp
    qed
  qed
qed

lemma list_first_chunk_mem: "list_first_chunk ps = Some p \<Longrightarrow> p \<in> set ps"
  by (auto simp: list_first_chunk_def split: list.splits)

text \<open>A chunk on the list of a size has this size.\<close>

lemma free_list_member:
  assumes ok: "pmm_ok P" and p: "p \<in> set (chunk_lists P (find_free_list P type k zero))" and k: "bit (chunk_sizes P type) k"
  shows "\<exists>x. shapes P p = Some x \<and> sh_type x = type \<and> sh_size x = k \<and> states P p = Some CHUNK_STATE_FREE \<and> sh_subs x = None \<and> zeros P p = zero"
proof -
  have on: "states P p = Some CHUNK_STATE_FREE" "find_free_list_chunk P p = find_free_list P type k zero"
    using on_list_dom(1)[OF ok p] by (auto simp: on_list_def find_free_list_def)
  obtain x where x: "shapes P p = Some x" "sh_subs x = None" using in_use_leaf[OF ok on(1)] by auto
  have "find_free_list P type k zero = find_free_list P (sh_type x) (sh_size x) (zeros P p)" using on(2) free_list_eq[OF x(1)] by simp
  moreover from this have "type = sh_type x" by (simp add: find_free_list_def)
  then have "bit (chunk_sizes P type) (sh_size x)" using trees_node[OF pmm_okD(1)[OF ok] x(1)] by (simp add: node_ok_def)
  ultimately have "type = sh_type x \<and> k = sh_size x \<and> zero = zeros P p" using k by (intro free_list_inj)
  then show ?thesis using x on(1) by auto
qed

text \<open>Giving a free root chunk back.\<close>

lemma free_root_ok:
  assumes ok: "pmm_ok P" "merged P" and p: "shapes P p = Some x" "sh_subs x = None" "sh_size x = UVM_CHUNK_SIZE_MAX" "states P p = Some CHUNK_STATE_FREE"
  defines "P' \<equiv> free_root_chunk p (chunk_pin p (list_del_init p P))"
  shows "pmm_ok P'" "merged P'" "held P' = held P" "chunk_sizes P' = chunk_sizes P" "root_chunks P' = root_chunks P" "shapes P' = shapes P"
    "states P' = (states P)(p \<mapsto> CHUNK_STATE_PMA_OWNED)"
proof -
  define P1 where "P1 = list_del_init p P"
  define P2 where "P2 = chunk_pin p P1"
  have par: "sh_parent x = None" using trees_root(1)[OF pmm_okD(1)[OF ok(1)] p(1)] p(3) by simp
  have t1: "chunk_tree_ok P1" by (rule tree_ok_cong[OF pmm_chunk_tree_ok[OF ok(1)]]) (simp_all add: P1_def)
  have x1: "shapes P1 p = Some x" using p(1) by (simp add: P1_def)
  note v1 = pin_views[OF t1 x1 t1 x1, folded P2_def]
  have t2: "chunk_tree_ok P2" using t1 v1(1,2,7,8) x1 p(2) by (auto simp: chunk_tree_ok_def)
  have x2: "shapes P2 p = Some x" using v1(1) x1 by simp
  note v2 = unpin_views[OF t2 x2 t2 x2, of CHUNK_STATE_PMA_OWNED]
  have e: "P' = chunk_unpin p CHUNK_STATE_PMA_OWNED P2" by (simp add: P'_def P2_def P1_def free_root_chunk_def)
  show st: "states P' = (states P)(p \<mapsto> CHUNK_STATE_PMA_OWNED)" using v1(2) v2(2) by (simp add: e P1_def)
  show sh: "shapes P' = shapes P" and sz: "chunk_sizes P' = chunk_sizes P" "root_chunks P' = root_chunks P" using v1 v2 by (simp_all add: e P1_def)
  have vs: "allocs P' = allocs P" "pins P' = pins P" "zeros P' = zeros P" "evicts P' = evicts P" "chunk_lists P' = chunk_lists (list_del_init p P)"
    using v1 v2 par by (simp_all add: e P1_def)
  have "held P p = None" by (rule not_held[OF p(4)]) simp
  then show "held P' = held P" using v1(10) v2(10) by (simp add: e P1_def fun_eq_iff)
  show "merged P'" using ok(2) sh vs(1) st p(1) par by (auto simp: merged_def pma_top_def)
  have c: "counts (shapes P) (states P') (allocs P) (pins P) (root_chunks P)"
    unfolding st by (rule counts_set_state[OF pmm_okD(1,2)[OF ok(1)] p(1,2)]) (use par p(4) in auto)
  have "lists_ok ({} \<union> {p}) (P'\<lparr>chunk_lists := chunk_lists P\<rparr>)"
    by (rule lists_frame[OF pmm_okD(3)[OF ok(1)] _ _ _ dom_states dom_states]) (simp_all add: sz sh st vs(3))
  then have "lists_ok {p} P'" by (auto elim!: lists_ok_filter[where Y = "{p}"] simp: vs(5) list_del_init_def)
  then have "lists_ok {} P'" by (rule lists_ok_shrink) (auto simp: vs(5) st list_del_init_def)
  then show "pmm_ok P'" using c sh sz vs pmm_okD(1,4)[OF ok(1)] by (simp add: pmm_ok_def)
qed

lemma free_next_root_ok:
  fixes type :: memory_type
  assumes ok: "pmm_ok P" "merged P"
  defines "P' \<equiv> snd (free_next_available_root_chunk type P)"
  shows "pmm_ok P'" "merged P'" "held P' = held P" "chunk_sizes P' = chunk_sizes P" "root_chunks P' = root_chunks P" "dom (gpu_chunks P') = dom (gpu_chunks P)"
proof -
  have "P' = P \<or> (\<exists>p z. p \<in> set (chunk_lists P (find_free_list P type UVM_CHUNK_SIZE_MAX z)) \<and> P' = free_root_chunk p (chunk_pin p (list_del_init p P)))"
    unfolding P'_def free_next_available_root_chunk_def Let_def by (auto split: option.splits if_splits dest: list_first_chunk_mem)
  then have "pmm_ok P' \<and> merged P' \<and> held P' = held P \<and> chunk_sizes P' = chunk_sizes P \<and> root_chunks P' = root_chunks P \<and> shapes P' = shapes P"
  proof (elim disjE exE conjE)
    fix p z assume p: "p \<in> set (chunk_lists P (find_free_list P type UVM_CHUNK_SIZE_MAX z))" and e: "P' = free_root_chunk p (chunk_pin p (list_del_init p P))"
    have "bit (chunk_sizes P type) UVM_CHUNK_SIZE_MAX" using pmm_okD(1)[OF ok(1)] by (simp add: trees_def)
    then obtain x where x: "shapes P p = Some x" "sh_size x = UVM_CHUNK_SIZE_MAX" "states P p = Some CHUNK_STATE_FREE" "sh_subs x = None"
      using free_list_member[OF ok(1) p] by auto
    show ?thesis using free_root_ok[OF ok x(1,4,2,3)] by (simp add: e)
  qed (use ok in simp)
  then show "pmm_ok P'" "merged P'" "held P' = held P" "chunk_sizes P' = chunk_sizes P" "root_chunks P' = root_chunks P" "dom (gpu_chunks P') = dom (gpu_chunks P)"
    using dom_shapes(1)[of P'] dom_shapes(1)[of P] by auto
qed

lemma freed_next: "freed p P P1 \<Longrightarrow> freed p P (snd (free_next_available_root_chunk type P1))"
  using free_next_root_ok[of P1 type] by (auto simp: freed_def)

lemma free_chunk_ok:
  assumes ok: "pmm_ok P" "merged P" and p: "held P p = Some c"
  shows "\<exists>P'. free_chunk p P = Some P' \<and> freed p P P'"
proof -
  have s: "states P p = Some (chunk_state c)" "in_use (chunk_state c)" using held_state[OF p] by auto
  obtain x where x: "shapes P p = Some x" using s(1) by (auto simp: states_def shapes_def)
  show ?thesis
  proof (cases "try_chunk_free p P")
    case (Pair b P1)
    show ?thesis
    proof (cases b)
      case True
      then have "freed p P P1" using freed_try[OF ok x s] Pair by simp
      then show ?thesis using Pair True freed_next[of p P P1] by (simp add: free_chunk_def Let_def)
    next
      case False
      then have P1: "P1 = clear_inject p P" using Pair by (auto simp: try_chunk_free_eq split: if_splits)
      note c = clear_inject_ok[OF ok(1), of p]
      have "\<exists>P'. free_chunk_with_merges UVM_CHUNK_SIZE_INVALID p P1 = Some P' \<and> freed p P1 P'"
        unfolding P1 by (rule freed_with_merges[OF c(1) c(2)[OF ok(2)]]) (use x s c in auto)
      then obtain P' where P': "free_chunk_with_merges UVM_CHUNK_SIZE_INVALID p P1 = Some P'" "freed p P P'" using freed_clear[OF ok(1)] P1 by auto
      then show ?thesis using Pair False freed_next[OF P'(2)] by (simp add: free_chunk_def Let_def)
    qed
  qed
qed

end
