(* ===== verification/Pmm_Alloc.thy ===== *)
theory Pmm_Alloc
  imports Pmm_Chunks
begin

text \<open>
  Allocations: splitting a bigger chunk down to a size, root chunks from the physical memory allocator, and several chunks at once with the error path that frees them again. What is
  needed of the physical memory allocator and of the memory for splits is the locale \<open>pmm_env\<close>. Then the initial state, the operations of the users, and returning the root chunks.
\<close>

unbundle bit_operations_syntax

section \<open>Splitting down to a size\<close>

lemma free_subchunks_ok:
  assumes "pmm_ok P" "merged P" and p: "shapes P p = Some x" "sh_subs x = Some qs" and q: "q \<in> set qs" "states P q = Some CHUNK_STATE_TEMP_PINNED"
    and "set rs \<subseteq> set qs - {q}" "distinct rs" "\<forall>z\<in>set rs. states P z = Some CHUNK_STATE_TEMP_PINNED"
  shows "pmm_ok (free_subchunks rs P) \<and> merged (free_subchunks rs P) \<and> held (free_subchunks rs P) = (\<lambda>z. if z \<in> set rs then None else held P z) \<and>
    shapes (free_subchunks rs P) = shapes P \<and> chunk_sizes (free_subchunks rs P) = chunk_sizes P \<and> root_chunks (free_subchunks rs P) = root_chunks P"
  using assms
proof (induction rs arbitrary: P)
  case Nil
  then show ?case by simp
next
  case (Cons r rs)
  note ok = Cons.prems(1,2) and p = Cons.prems(3,4) and q = Cons.prems(5,6)
  have r: "r \<in> set qs" "r \<noteq> q" "states P r = Some CHUNK_STATE_TEMP_PINNED" "r \<notin> set rs" using Cons.prems(7-9) by auto
  obtain y where y: "shapes P r = Some y" "sh_parent y = Some p" using trees_child[OF pmm_okD(1)[OF ok(1)] p r(1)] by auto
  have "allocs P p \<noteq> 1"
  proof
    assume "allocs P p = 1"
    moreover have "allocs P p = length (filter (\<lambda>q. states P q \<noteq> Some CHUNK_STATE_FREE) qs)" using pmm_okD(2)[OF ok(1)] p by (auto simp: counts_def)
    ultimately obtain a where a: "filter (\<lambda>q. states P q \<noteq> Some CHUNK_STATE_FREE) qs = [a]" by (auto simp: length_Suc_conv)
    have "q \<in> set (filter (\<lambda>q. states P q \<noteq> Some CHUNK_STATE_FREE) qs)" "r \<in> set (filter (\<lambda>q. states P q \<noteq> Some CHUNK_STATE_FREE) qs)" using q r by simp_all
    then show False using a r(2) by simp
  qed
  then have "\<not> chunk_is_last_allocated_child P r" using last_child[OF ok(1) y(1)] y(2) by simp
  then have f: "freed r P (chunk_free_locked r P)" using freed_locked[OF ok y(1) r(3)] by simp
  note v = chunk_free_ok[OF ok(1) y(1) r(3)]
  have "pmm_ok (free_subchunks rs (chunk_free_locked r P)) \<and> merged (free_subchunks rs (chunk_free_locked r P)) \<and>
      held (free_subchunks rs (chunk_free_locked r P)) = (\<lambda>z. if z \<in> set rs then None else held (chunk_free_locked r P) z) \<and>
      shapes (free_subchunks rs (chunk_free_locked r P)) = shapes (chunk_free_locked r P) \<and>
      chunk_sizes (free_subchunks rs (chunk_free_locked r P)) = chunk_sizes (chunk_free_locked r P) \<and>
      root_chunks (free_subchunks rs (chunk_free_locked r P)) = root_chunks (chunk_free_locked r P)"
    by (rule Cons.IH) (use f v p q r Cons.prems(7-9) in \<open>auto simp: freed_def\<close>)
  then show ?case using v by (auto simp: fun_eq_iff)
qed

text \<open>New memory for the splits at the sizes up to \<open>2\<^sup>j\<close>.\<close>

definition fresh_mem :: "(nat \<Rightarrow> (nat \<Rightarrow> 'p) option) \<Rightarrow> nat \<Rightarrow> ('p, 'v) pmm \<Rightarrow> bool" where
  "fresh_mem mem j P \<longleftrightarrow> (\<forall>l\<le>j. \<forall>new. mem l = Some new \<longrightarrow> fresh_subs new (2 ^ UVM_CHUNK_SIZE_MAX) P \<and>
     (\<forall>m\<le>j. \<forall>new'. m \<noteq> l \<longrightarrow> mem m = Some new' \<longrightarrow> new ` {..<2 ^ UVM_CHUNK_SIZE_MAX} \<inter> new' ` {..<2 ^ UVM_CHUNK_SIZE_MAX} = {}))"

lemma fresh_subs_mono:
  assumes "fresh_subs new n P" "m \<le> n" "\<And>i. i < m \<Longrightarrow> gpu_chunks P' (new i) = None"
  shows "fresh_subs new m P'"
  using assms by (auto simp: fresh_subs_def distinct_map intro: inj_on_subset)

lemma fresh_memD:
  assumes "fresh_mem mem j P" "l \<le> j" "mem l = Some new"
  shows "fresh_subs new (2 ^ UVM_CHUNK_SIZE_MAX) P"
    "m \<le> j \<Longrightarrow> m \<noteq> l \<Longrightarrow> mem m = Some new' \<Longrightarrow> new ` {..<2 ^ UVM_CHUNK_SIZE_MAX} \<inter> new' ` {..<2 ^ UVM_CHUNK_SIZE_MAX} = {}"
  using assms unfolding fresh_mem_def by blast+

lemma fresh_mem_frame:
  assumes f: "fresh_mem mem j P" "i \<le> j" and new: "\<And>l new a. l \<le> i \<Longrightarrow> mem l = Some new \<Longrightarrow> a < 2 ^ UVM_CHUNK_SIZE_MAX \<Longrightarrow> gpu_chunks P' (new a) = None"
  shows "fresh_mem mem i P'"
  unfolding fresh_mem_def
proof (intro allI impI conjI)
  fix l new assume l: "l \<le> i" "mem l = Some new"
  then have "l \<le> j" using f(2) by simp
  from fresh_memD[OF f(1) this l(2)] show "fresh_subs new (2 ^ UVM_CHUNK_SIZE_MAX) P'" using new[OF l] by (auto simp: fresh_subs_def)
  fix m new' assume "m \<le> i" "m \<noteq> l" "mem m = Some new'"
  then show "new ` {..<2 ^ UVM_CHUNK_SIZE_MAX} \<inter> new' ` {..<2 ^ UVM_CHUNK_SIZE_MAX} = {}" using fresh_memD(2)[OF f(1) \<open>l \<le> j\<close> l(2), of m] f(2) by simp
qed

lemma fresh_mem_mono: "fresh_mem mem j P \<Longrightarrow> i \<le> j \<Longrightarrow> dom (gpu_chunks P') \<subseteq> dom (gpu_chunks P) \<Longrightarrow> fresh_mem mem i P'"
proof (rule fresh_mem_frame)
  fix l new a assume f: "fresh_mem mem j P" "i \<le> j" "dom (gpu_chunks P') \<subseteq> dom (gpu_chunks P)" "l \<le> i" "mem l = Some new" "a < (2 :: nat) ^ UVM_CHUNK_SIZE_MAX"
  have "l \<le> j" using f by simp
  then have "new a \<notin> dom (gpu_chunks P)" using fresh_memD(1)[OF f(1) _ f(5)] f(6) by (auto simp: fresh_subs_def)
  then show "gpu_chunks P' (new a) = None" using f(3) by blast
qed

lemma fresh_mem_split:
  assumes f: "fresh_mem mem j P" "mem j = Some new" "i < j" and n: "n \<le> 2 ^ UVM_CHUNK_SIZE_MAX"
    and dom: "dom (gpu_chunks P') \<subseteq> dom (gpu_chunks P) \<union> new ` {..<n}"
  shows "fresh_mem mem i P'"
proof (rule fresh_mem_frame[OF f(1)])
  fix l new' a assume l: "l \<le> i" "mem l = Some new'" "a < (2 :: nat) ^ UVM_CHUNK_SIZE_MAX"
  have l': "l \<le> j" "l \<noteq> j" using l(1) f(3) by auto
  have "new' a \<notin> dom (gpu_chunks P)" using fresh_memD(1)[OF f(1) l'(1) l(2)] l(3) by (auto simp: fresh_subs_def)
  moreover have "new ` {..<n} \<subseteq> new ` {..<2 ^ UVM_CHUNK_SIZE_MAX}" using n by auto
  then have "new' a \<notin> new ` {..<n}" using fresh_memD(2)[OF f(1) order_refl f(2) l'(1) l'(2) l(2)] l(3) by blast
  ultimately show "gpu_chunks P' (new' a) = None" using dom by blast
qed (use f in simp)

lemma sizes_rev_step:
  assumes "k < cur" "bit Z k" "cur \<le> UVM_CHUNK_SIZE_MAX"
  defines "j \<equiv> uvm_chunk_find_prev_size Z cur"
  shows "rev (filter (bit Z) [0..<cur]) = j # rev (filter (bit Z) [0..<j])" "j < cur" "k \<le> j" "bit Z j"
proof -
  show j: "j < cur" using prev_size_exists[OF assms(1,2)] by (simp add: j_def)
  show b: "bit Z j" using prev_size(1)[OF assms(3) j[unfolded j_def]] by (simp add: j_def)
  have no: "\<not> bit Z i" if "j < i" "i < cur" for i using prev_size(2)[OF assms(3) j[unfolded j_def]] that by (simp add: j_def)
  show "k \<le> j" using no[of k] assms(1,2) by (cases "j < k") auto
  have "[0..<cur] = [0..<j] @ j # [Suc j..<cur]" using j by (metis le0 less_imp_le_nat upt_add_eq_append upt_conv_Cons le_add_diff_inverse)
  moreover have "filter (bit Z) [Suc j..<cur] = []" using no by (auto simp: filter_empty_conv)
  ultimately show "rev (filter (bit Z) [0..<cur]) = j # rev (filter (bit Z) [0..<j])" using b by simp
qed

text \<open>What an allocation of a chunk of the size \<open>2\<^sup>k\<close> does to the chunks in use, given what was in use when it failed.\<close>

definition alloc_done :: "memory_type \<Rightarrow> nat \<Rightarrow> ('p \<Rightarrow> ('p, 'v) gpu_chunk option) \<Rightarrow> NV_STATUS \<times> 'p option \<times> ('p, 'v) pmm \<Rightarrow> bool" where
  "alloc_done type k H r \<longleftrightarrow> (case r of (status, chunk, P') \<Rightarrow>
     pmm_ok P' \<and> merged P' \<and>
     (if status = NV_OK
      then \<exists>p c. chunk = Some p \<and> H p = None \<and> held P' = H(p \<mapsto> c) \<and> chunk_state c = CHUNK_STATE_TEMP_PINNED \<and> log2_size c = k \<and> chunk_type c = type
      else chunk = None \<and> held P' = H))"

lemma held_views: "held P p = Some c \<Longrightarrow> shapes P p = Some x \<Longrightarrow> log2_size c = sh_size x \<and> chunk_type c = sh_type x"
  using get_views(2,3)[of P p x] held_state[of P p c] by auto

text \<open>The split of one chunk that keeps only the first subchunk in use.\<close>

lemma split_first:
  assumes ok: "pmm_ok P" "merged P" and p: "held P p = Some c" "chunk_state c = CHUNK_STATE_TEMP_PINNED" "chunk_type c = type"
    and j: "k < log2_size c" "bit (chunk_sizes P type) k" and mem: "mem = Some new" "fresh_subs new (2 ^ UVM_CHUNK_SIZE_MAX) P" "\<not> inject_split_error c"
  defines "j \<equiv> uvm_chunk_find_prev_size (chunk_sizes P type) (log2_size c)"
  shows "\<exists>P1 c'. split_gpu_chunk mem p P = (NV_OK, P1) \<and>
    (let subs = subchunks (get_suballoc P1 p); P2 = free_subchunks (drop 1 (take (num_subchunks P1 p) subs)) P1 in
     subs ! 0 = new 0 \<and> pmm_ok P2 \<and> merged P2 \<and> held P2 = (held P)(p := None, new 0 \<mapsto> c') \<and> chunk_state c' = CHUNK_STATE_TEMP_PINNED \<and> log2_size c' = j \<and>
     chunk_type c' = type \<and> chunk_sizes P2 = chunk_sizes P \<and> dom (gpu_chunks P2) \<subseteq> dom (gpu_chunks P) \<union> new ` {..<2 ^ UVM_CHUNK_SIZE_MAX} \<and> held P (new 0) = None)"
proof -
  have s: "states P p = Some CHUNK_STATE_TEMP_PINNED" "get_chunk P p = c" using held_state[OF p(1)] p(2) by auto
  obtain x where x: "shapes P p = Some x" using s(1) by (auto simp: states_def shapes_def)
  have cx: "log2_size c = sh_size x" "chunk_type c = sh_type x" using held_views[OF p(1) x] by auto
  have mx: "sh_size x \<le> UVM_CHUNK_SIZE_MAX" using trees_node[OF pmm_okD(1)[OF ok(1)] x] by (simp add: node_ok_def)
  have js: "j = uvm_chunk_find_prev_size (chunk_sizes P (sh_type x)) (sh_size x)" "j < sh_size x" using sizes_rev_step(2)[OF j] mx by (auto simp: j_def cx p(3)[symmetric])
  define n where "n = (2 :: nat) ^ (sh_size x - j)"
  define qs where "qs = map new [0..<n]"
  have n: "0 < n" "n \<le> 2 ^ UVM_CHUNK_SIZE_MAX" using mx by (auto simp: n_def)
  have fr: "fresh_subs new n P" by (rule fresh_subs_mono[OF mem(2) n(2)]) (use mem(2) n(2) in \<open>auto simp: fresh_subs_def\<close>)
  obtain P1 where P1: "split_gpu_chunk (Some new) p P = (NV_OK, P1)" "pmm_ok P1" "merged P1" "chunk_sizes P1 = chunk_sizes P"
      "shapes P1 = split_shapes (shapes P) p x j qs"
      "states P1 = (\<lambda>q. if q = p then Some CHUNK_STATE_IS_SPLIT else if q \<in> set qs then Some CHUNK_STATE_TEMP_PINNED else states P q)"
      "held P1 = (\<lambda>q. if q = p then None else case find (\<lambda>i. qs ! i = q) [0..<n] of None \<Rightarrow> held P q | Some i \<Rightarrow> Some (new_subchunk (get_chunk P p) p j i))"
    using split_gpu_chunk_ok[OF ok x s(1) js n_def fr] mem(3) s(2) unfolding qs_def by blast
  have qs: "distinct qs" "length qs = n" "p \<notin> set qs" "qs = new 0 # drop 1 qs"
    using fr n(1) x by (auto simp: qs_def fresh_subs_def shapes_def upt_conv_Cons)
  have x1: "shapes P1 p = Some (x\<lparr>sh_subs := Some qs\<rparr>)" using P1(5) by (simp add: split_shapes_def)
  have sub: "subchunks (get_suballoc P1 p) = qs" "num_subchunks P1 p = length qs" using num_subchunks_eq[OF pmm_chunk_tree_ok[OF P1(2)] x1] by simp_all
  define P2 where "P2 = free_subchunks (drop 1 qs) P1"
  have new0: "new 0 \<in> set qs" "new 0 \<notin> set (drop 1 qs)" "new 0 \<noteq> p" using qs by (metis list.set_intros(1), metis distinct.simps(2), metis list.set_intros(1))
  have pin: "states P1 z = Some CHUNK_STATE_TEMP_PINNED" if "z \<in> set qs" for z using P1(6) that qs(3) by auto
  have "pmm_ok P2 \<and> merged P2 \<and> held P2 = (\<lambda>z. if z \<in> set (drop 1 qs) then None else held P1 z) \<and> shapes P2 = shapes P1 \<and> chunk_sizes P2 = chunk_sizes P1 \<and> root_chunks P2 = root_chunks P1"
    unfolding P2_def
    by (rule free_subchunks_ok[OF P1(2,3) x1 _ new0(1) pin[OF new0(1)]]) (use new0(2) pin qs(1) in \<open>auto dest: in_set_dropD\<close>)
  note P2 = this
  have fresh: "gpu_chunks P z = None" "held P z = None" if "z \<in> set qs" for z using fr that by (auto simp: qs_def fresh_subs_def held_def)
  define c' where "c' = new_subchunk c p j 0"
  have "held P2 z = ((held P)(p := None, new 0 \<mapsto> c')) z" for z
  proof (cases "z \<in> set qs")
    case True
    moreover have "qs ! 0 = new 0" using qs(4) by (metis nth_Cons_0)
    moreover have "set qs = insert (new 0) (set (drop 1 qs))" using qs(4) by (metis list.simps(15))
    ultimately show ?thesis
      using P2 P1(7) fresh(2)[OF True] new0 qs(1-3) find_index[OF qs(1), of 0] n(1) s(2) by (cases "z = new 0") (auto simp: c'_def)
  next
    case False
    then have "z \<notin> set (drop 1 qs)" "z \<noteq> new 0" using new0(1) by (auto dest: in_set_dropD)
    then show ?thesis using P2 P1(7) find_index_None[OF False] qs(2) by simp
  qed
  then have h: "held P2 = (held P)(p := None, new 0 \<mapsto> c')" by (rule ext)
  have "dom (shapes P2) \<subseteq> dom (shapes P) \<union> set qs"
  proof
    fix z assume "z \<in> dom (shapes P2)"
    then have "z \<in> dom (split_shapes (shapes P) p x j qs)" using P2 P1(5) by simp
    then show "z \<in> dom (shapes P) \<union> set qs"
      using split_shapes_simps(3)[OF qs(1,3), of z "shapes P" x j] x by (cases "z = p"; cases "z \<in> set qs") (auto simp del: dom_shapes dest: sym)
  qed
  moreover have "set qs \<subseteq> new ` {..<2 ^ UVM_CHUNK_SIZE_MAX}" using n(2) by (auto simp: qs_def)
  ultimately have "dom (gpu_chunks P2) \<subseteq> dom (gpu_chunks P) \<union> new ` {..<2 ^ UVM_CHUNK_SIZE_MAX}" by auto
  moreover have "qs ! 0 = new 0" using qs(4) by (metis nth_Cons_0)
  moreover have "chunk_state c' = CHUNK_STATE_TEMP_PINNED" "log2_size c' = j" "chunk_type c' = type" using p(2,3) by (simp_all add: c'_def new_subchunk_def)
  moreover have e2: "free_subchunks (drop 1 (take (num_subchunks P1 p) (subchunks (get_suballoc P1 p)))) P1 = P2" by (simp add: sub P2_def)
  ultimately show ?thesis
    unfolding Let_def using P1(1,4) P2 h fresh(2)[OF new0(1)] mem(1) sub(1)
    by (intro exI[of _ P1] exI[of _ c'], unfold e2) simp
qed

lemma split_error: "mem = None \<or> inject_split_error (get_chunk P p) \<Longrightarrow> split_gpu_chunk mem p P = (NV_ERR_NO_MEMORY, P)"
  by (auto simp: split_gpu_chunk_def Let_def split: option.split)

lemma split_down_ok:
  assumes "pmm_ok P" "merged P" "held P p = Some c" "chunk_state c = CHUNK_STATE_TEMP_PINNED" "chunk_type c = type" "log2_size c = cur"
    and "k \<le> cur" "bit (chunk_sizes P type) k" "fresh_mem mem cur P"
  shows "\<exists>r. split_down mem k (chunk_sizes_rev_from (chunk_sizes P type) cur) p P = Some r \<and> alloc_done type k ((held P)(p := None)) r"
  using assms
proof (induction cur arbitrary: p P c rule: less_induct)
  case (less cur)
  note ok = less.prems(1,2) and p = less.prems(3-6) and k = less.prems(7,8)
  let ?Z = "chunk_sizes P type"
  have s: "states P p = Some CHUNK_STATE_TEMP_PINNED" "get_chunk P p = c" using held_state[OF p(1)] p(2) by auto
  obtain x where x: "shapes P p = Some x" using s(1) by (auto simp: states_def shapes_def)
  have mx: "cur \<le> UVM_CHUNK_SIZE_MAX" using trees_node[OF pmm_okD(1)[OF ok(1)] x] held_views[OF p(1) x] p(4) by (simp add: node_ok_def)
  show ?case
  proof (cases "cur = k")
    case True
    have "held P = (held P)(p := None, p \<mapsto> c)" using p(1) by auto
    then have "alloc_done type k ((held P)(p := None)) (NV_OK, Some p, P)" using ok p True by (auto simp: alloc_done_def fun_eq_iff)
    moreover have "split_down mem k (chunk_sizes_rev_from ?Z cur) p P = Some (NV_OK, Some p, P)" using True by (simp add: chunk_sizes_rev_from_def)
    ultimately show ?thesis by blast
  next
    case False
    then have lt: "k < cur" using k(1) by simp
    note st = sizes_rev_step[OF lt k(2) mx]
    define j where "j = uvm_chunk_find_prev_size ?Z cur"
    have down: "split_down mem k (chunk_sizes_rev_from ?Z cur) p P = (let (status, P) = split_gpu_chunk (mem cur) p P
        in if status \<noteq> NV_OK then map_option (\<lambda>P. (status, None, P)) (free_chunk_with_merges UVM_CHUNK_SIZE_INVALID p P)
           else split_down mem k (chunk_sizes_rev_from ?Z j) (subchunks (get_suballoc P p) ! 0) (free_subchunks (drop 1 (take (num_subchunks P p) (subchunks (get_suballoc P p)))) P))"
      unfolding chunk_sizes_rev_from_def st(1) j_def[symmetric] split_down.simps Let_def using False by simp
    show ?thesis
    proof (cases "mem cur = None \<or> inject_split_error c")
      case True
      have "\<exists>P'. free_chunk_with_merges UVM_CHUNK_SIZE_INVALID p P = Some P' \<and> freed p P P'"
        by (rule freed_with_merges[OF ok x s(1)]) auto
      then show ?thesis using split_error[of "mem cur" P p] True s(2) by (auto simp: down alloc_done_def freed_def fun_eq_iff)
    next
      case False
      then obtain new where new: "mem cur = Some new" "\<not> inject_split_error c" by auto
      have fr: "fresh_subs new (2 ^ UVM_CHUNK_SIZE_MAX) P" by (rule fresh_memD(1)[OF less.prems(9) order_refl new(1)])
      obtain P1 c' where P1: "split_gpu_chunk (mem cur) p P = (NV_OK, P1)"
          "let subs = subchunks (get_suballoc P1 p); P2 = free_subchunks (drop 1 (take (num_subchunks P1 p) subs)) P1 in
           subs ! 0 = new 0 \<and> pmm_ok P2 \<and> merged P2 \<and> held P2 = (held P)(p := None, new 0 \<mapsto> c') \<and> chunk_state c' = CHUNK_STATE_TEMP_PINNED \<and> log2_size c' = j \<and>
           chunk_type c' = type \<and> chunk_sizes P2 = chunk_sizes P \<and> dom (gpu_chunks P2) \<subseteq> dom (gpu_chunks P) \<union> new ` {..<2 ^ UVM_CHUNK_SIZE_MAX} \<and> held P (new 0) = None"
        using split_first[OF ok p(1-3) _ k(2) new(1) fr new(2)] lt p(4) unfolding j_def by auto
      define P2 where "P2 = free_subchunks (drop 1 (take (num_subchunks P1 p) (subchunks (get_suballoc P1 p)))) P1"
      have P2: "subchunks (get_suballoc P1 p) ! 0 = new 0" "pmm_ok P2" "merged P2" "held P2 = (held P)(p := None, new 0 \<mapsto> c')" "chunk_state c' = CHUNK_STATE_TEMP_PINNED"
          "log2_size c' = j" "chunk_type c' = type" "chunk_sizes P2 = chunk_sizes P" "dom (gpu_chunks P2) \<subseteq> dom (gpu_chunks P) \<union> new ` {..<2 ^ UVM_CHUNK_SIZE_MAX}"
          "held P (new 0) = None"
        using P1(2) by (simp_all add: P2_def Let_def)
      have fr2: "fresh_mem mem j P2" by (rule fresh_mem_split[OF less.prems(9) new(1) _ order_refl P2(9)]) (use st(2) in \<open>simp add: j_def\<close>)
      have "\<exists>r. split_down mem k (chunk_sizes_rev_from (chunk_sizes P2 type) j) (new 0) P2 = Some r \<and> alloc_done type k ((held P2)(new 0 := None)) r"
        by (rule less.IH[OF _ P2(2,3) _ P2(5,7,6)]) (use st(2,3) k(2) P2(4,8) fr2 in \<open>auto simp: j_def\<close>)
      then obtain r where r: "split_down mem k (chunk_sizes_rev_from ?Z j) (new 0) P2 = Some r" "alloc_done type k ((held P2)(new 0 := None)) r" unfolding P2(8) by blast
      have "(held P2)(new 0 := None) = (held P)(p := None)" using P2(4,10) by auto
      moreover have "split_down mem k (chunk_sizes_rev_from ?Z cur) p P = Some r" using P1(1) P2(1) r(1) by (simp add: down P2_def)
      ultimately show ?thesis using r(2) by metis
    qed
  qed
qed

section \<open>Allocating\<close>

lemma scan_free_list_eq:
  assumes ok: "pmm_ok P"
  shows "set ps \<subseteq> dom (shapes P) \<Longrightarrow> scan_free_list elevated ps P = (find (\<lambda>p. \<not> elevated (root_chunk_from_chunk P p)) ps, P)"
proof (induction ps)
  case (Cons p ps)
  then obtain x where "shapes P p = Some x" by (auto simp: shapes_def)
  then show ?case using Cons not_in_eviction[OF ok] by simp
qed simp

lemma find_free_chunk_ok:
  assumes ok: "pmm_ok P" and k: "bit (chunk_sizes P type) k"
  shows "\<exists>r. find_free_chunk_locked elevated type k zero P = (r, P) \<and>
    (\<forall>p. r = Some p \<longrightarrow> (\<exists>x. shapes P p = Some x \<and> sh_type x = type \<and> sh_size x = k \<and> states P p = Some CHUNK_STATE_FREE))"
proof -
  let ?ps = "chunk_lists P (find_free_list P type k zero)"
  have m: "\<exists>x. shapes P p = Some x \<and> sh_type x = type \<and> sh_size x = k \<and> states P p = Some CHUNK_STATE_FREE" if "p \<in> set ?ps" for p
    using free_list_member[OF ok that k] by auto
  then have "set ?ps \<subseteq> dom (shapes P)" by blast
  from scan_free_list_eq[OF ok this] show ?thesis
    using m by (auto simp: find_free_chunk_locked_def find_Some_iff)
qed

text \<open>A chunk claimed by an allocation.\<close>

definition claimed :: "memory_type \<Rightarrow> nat \<Rightarrow> ('p, 'v) pmm \<Rightarrow> 'p \<Rightarrow> ('p, 'v) pmm \<Rightarrow> bool" where
  "claimed type k P p P' \<longleftrightarrow> pmm_ok P' \<and> merged P' \<and> held P p = None \<and> chunk_sizes P' = chunk_sizes P \<and> dom (gpu_chunks P') = dom (gpu_chunks P) \<and>
     (\<exists>c. held P' = (held P)(p \<mapsto> c) \<and> chunk_state c = CHUNK_STATE_TEMP_PINNED \<and> log2_size c = k \<and> chunk_type c = type)"

lemma claimed_chunk:
  assumes ok: "pmm_ok P" "merged P" and x: "shapes P p = Some x" "sh_type x = type" "sh_size x = k" "states P p = Some CHUNK_STATE_FREE"
  shows "claimed type k P p (claim_found_chunk p P)"
proof -
  note c = claim_found_chunk_ok[OF ok(1) x(4)]
  have "held P p = None" using not_held[OF x(4)] by simp
  moreover have "dom (gpu_chunks (claim_found_chunk p P)) = dom (gpu_chunks P)" using c(3) dom_shapes(1)[of P] dom_shapes(1)[of "claim_found_chunk p P"] by simp
  ultimately show ?thesis using c(1,5,7) c(2)[OF ok(2)] get_views(2,3)[OF x(1)] x(2,3) unfolding claimed_def by auto
qed

lemma claim_free_chunk_ok:
  assumes ok: "pmm_ok P" "merged P" and k: "bit (chunk_sizes P type) k"
  shows "claim_free_chunk elevated type k P = (None, P) \<or> (\<exists>p P'. claim_free_chunk elevated type k P = (Some p, P') \<and> claimed type k P p P')"
proof -
  obtain r where r: "find_free_chunk_locked elevated type k True P = (r, P)" "\<forall>p. r = Some p \<longrightarrow> claimed type k P p (claim_found_chunk p P)"
    using find_free_chunk_ok[OF ok(1) k, of elevated True] claimed_chunk[OF ok] by metis
  obtain r' where r': "find_free_chunk_locked elevated type k False P = (r', P)" "\<forall>p. r' = Some p \<longrightarrow> claimed type k P p (claim_found_chunk p P)"
    using find_free_chunk_ok[OF ok(1) k, of elevated False] claimed_chunk[OF ok] by metis
  show ?thesis using r r' by (cases r; cases r') (simp_all add: claim_free_chunk_def)
qed

lemma claim_bigger_ok:
  assumes "pmm_ok P" "merged P" "\<forall>k\<in>set ks. bit (chunk_sizes P type) k"
  shows "claim_bigger elevated type ks P = (None, P) \<or> (\<exists>cur\<in>set ks. \<exists>p P'. claim_bigger elevated type ks P = (Some (cur, p), P') \<and> claimed type cur P p P')"
  using assms
proof (induction ks)
  case (Cons k ks)
  consider "claim_free_chunk elevated type k P = (None, P)" | p P' where "claim_free_chunk elevated type k P = (Some p, P')" "claimed type k P p P'"
    using claim_free_chunk_ok[OF Cons.prems(1,2), of type k elevated] Cons.prems(3) by auto
  then show ?case
  proof cases
    case 1
    then show ?thesis using Cons by auto
  qed auto
qed simp

text \<open>A root chunk that comes from the physical memory allocator gets a type.\<close>

lemma trees_retype:
  assumes t: "trees S R Z" and p: "S p = Some x" "sh_subs x = None" "sh_parent x = None"
  shows "trees (S(p \<mapsto> x\<lparr>sh_type := type\<rparr>)) R Z" (is "trees ?S R Z")
proof -
  have mx: "sh_size x = UVM_CHUNK_SIZE_MAX" using trees_root(1)[OF t p(1)] p(3) by simp
  have "node_ok ?S R Z q y" if q: "?S q = Some y" for q y
  proof (cases "q = p")
    case True
    then have "y = x\<lparr>sh_type := type\<rparr>" using q by simp
    then show ?thesis using trees_node[OF t p(1)] t True p mx by (simp add: node_ok_def trees_def)
  next
    case False
    then have q': "S q = Some y" using q by simp
    note n = trees_node[OF t q']
    have "split_node_ok ?S Z q y qs" if qs: "sh_subs y = Some qs" for qs
    proof -
      have "z \<noteq> p" if "z \<in> set qs" for z using trees_child[OF t q' qs that] p by auto
      then show ?thesis using n qs by (auto simp: node_ok_def split_node_ok_def Let_def)
    qed
    moreover have "\<exists>z qs. ?S r = Some z \<and> sh_subs z = Some qs \<and> q \<in> set qs" if "sh_parent y = Some r" for r
      using trees_parent[OF t q' that] p(1,2) by (cases "r = p") auto
    ultimately show ?thesis using n by (simp add: node_ok_def split: option.splits)
  qed
  moreover have "\<exists>y. ?S (R ! i) = Some y \<and> sh_address y = i * 2 ^ UVM_CHUNK_SIZE_MAX \<and> sh_size y = UVM_CHUNK_SIZE_MAX \<and> sh_parent y = None" if i: "i < length R" for i
  proof -
    obtain z where "S (R ! i) = Some z" "sh_address z = i * 2 ^ UVM_CHUNK_SIZE_MAX" "sh_size z = UVM_CHUNK_SIZE_MAX" "sh_parent z = None" using t i unfolding trees_def by blast
    then show ?thesis using p(1) by (cases "R ! i = p") auto
  qed
  ultimately show ?thesis using t by (simp add: trees_def)
qed

lemma counts_retype:
  assumes c: "counts S T A N R" and p: "S p = Some x"
  shows "counts (S(p \<mapsto> x\<lparr>sh_type := type\<rparr>)) T A N R"
proof -
  have r: "root_of (S(p \<mapsto> x\<lparr>sh_type := type\<rparr>)) R = root_of S R" using p by (simp add: fun_eq_iff root_of_def)
  have "dom T = dom S" using c by (simp add: counts_def)
  then show ?thesis using c p unfolding counts_def r by (auto simp: split: if_splits)
qed

lemma init_root_ok:
  fixes type :: memory_type and zero :: bool
  assumes ok: "pmm_ok P" "merged P" and p: "shapes P p = Some x" "sh_parent x = None" "states P p = Some CHUNK_STATE_PMA_OWNED"
    and s: "s \<in> {CHUNK_STATE_FREE, CHUNK_STATE_TEMP_PINNED}"
  defines "P' \<equiv> init_root_chunk type s zero p P"
  shows "pmm_ok P'" "merged P'" "states P' = (states P)(p \<mapsto> s)" "chunk_sizes P' = chunk_sizes P" "root_chunks P' = root_chunks P"
    "dom (gpu_chunks P') = dom (gpu_chunks P)" "\<exists>c. held P' = (held P)(p := if s = CHUNK_STATE_FREE then None else Some c) \<and> chunk_state c = s \<and> chunk_type c = type \<and> log2_size c = sh_size x"
    "shapes P' = (shapes P)(p \<mapsto> x\<lparr>sh_type := type\<rparr>)"
proof -
  let ?f = "\<lambda>c. c\<lparr>chunk_type := type, chunk_state := s, is_zero := zero\<rparr>"
  define P1 where "P1 = upd_chunk p ?f P"
  have e: "P' = chunk_update_lists_locked p P1" by (simp add: P'_def init_root_chunk_def P1_def)
  obtain c where c: "gpu_chunks P p = Some c" "shape_of c = x" using pmm_gpu_dom[OF p(1)] by auto
  have leaf: "sh_subs x = None" using split_state[OF ok(1) p(1)] p(3) by auto
  have v: "shapes P1 = (shapes P)(p \<mapsto> x\<lparr>sh_type := type\<rparr>)" "states P1 = (states P)(p \<mapsto> s)" "allocs P1 = allocs P" "pins P1 = pins P" "evicts P1 = evicts P"
    "\<And>q. q \<noteq> p \<Longrightarrow> zeros P1 q = zeros P q" "chunk_lists P1 = chunk_lists P" "root_chunks P1 = root_chunks P" "chunk_sizes P1 = chunk_sizes P"
    using c by (auto simp: P1_def fun_eq_iff shapes_def shape_of_def states_def zeros_def)
  note t' = trees_retype[OF pmm_okD(1)[OF ok(1)] p(1) leaf p(2), of type, folded v(1)]
  note c0 = counts_retype[OF pmm_okD(2)[OF ok(1)] p(1), of type, folded v(1)]
  have x1: "shapes P1 p = Some (x\<lparr>sh_type := type\<rparr>)" by (simp add: v(1))
  have r1: "root_of (shapes P1) (root_chunks P) p = p" using trees_root(2)[OF t' x1] p(2) by simp
  have "counts (shapes P1) (states P1) (allocs P) (pins P) (root_chunks P)"
    unfolding v(2) by (rule counts_set_state[OF t' c0 x1]) (use leaf s p in auto)
  moreover have "lists_ok ({} \<union> {p}) P1"
    by (rule lists_frame[OF pmm_okD(3)[OF ok(1)] v(7-9) dom_states dom_states]) (simp add: v)
  then have "lists_ok {} P'" unfolding e by (intro update_lists_ok[OF _ _ x1]) (use t' s v in auto)
  ultimately show "pmm_ok P'" using t' v pmm_okD(4)[OF ok(1)] by (simp add: pmm_ok_def e)
  show "merged P'" using ok(2) v leaf p(2) by (auto simp: merged_def pma_top_def e)
  show "states P' = (states P)(p \<mapsto> s)" "chunk_sizes P' = chunk_sizes P" "root_chunks P' = root_chunks P" "shapes P' = (shapes P)(p \<mapsto> x\<lparr>sh_type := type\<rparr>)"
    by (simp_all add: e v)
  show "dom (gpu_chunks P') = dom (gpu_chunks P)" using c by (auto simp: e P1_def)
  have "held P' = (held P)(p := if s = CHUNK_STATE_FREE then None else Some (?f c))" using held_upd[OF c(1)] s by (auto simp: e P1_def)
  moreover have "log2_size c = sh_size x" using c(2) by (auto simp: shape_of_def)
  ultimately show "\<exists>c. held P' = (held P)(p := if s = CHUNK_STATE_FREE then None else Some c) \<and> chunk_state c = s \<and> chunk_type c = type \<and> log2_size c = sh_size x"
    by (intro exI[of _ "?f c"]) simp
qed

text \<open>The root chunks the physical memory allocator may return: those it owns, each once.\<close>

definition pma_roots :: "('p, 'v) pmm \<Rightarrow> nat list \<Rightarrow> bool" where
  "pma_roots P pas \<longleftrightarrow> distinct (map (root_chunk_from_address P) pas) \<and>
     (\<forall>a\<in>set pas. a div 2 ^ UVM_CHUNK_SIZE_MAX < length (root_chunks P) \<and> states P (root_chunk_from_address P a) = Some CHUNK_STATE_PMA_OWNED)"

lemma root_chunk_from_address_cong: "root_chunks P' = root_chunks P \<Longrightarrow> root_chunk_from_address P' = root_chunk_from_address P"
  by (simp add: fun_eq_iff root_chunk_from_address_def)

lemma pma_roots_not_held: "pma_roots P (a # as) \<Longrightarrow> held P (root_chunk_from_address P a) = None"
  by (rule not_held[of _ _ CHUNK_STATE_PMA_OWNED]) (simp_all add: pma_roots_def)

lemma pma_roots_step:
  fixes type :: memory_type and zero :: bool
  assumes ok: "pmm_ok P" "merged P" and pas: "pma_roots P (a # as)" and s: "s \<in> {CHUNK_STATE_FREE, CHUNK_STATE_TEMP_PINNED}"
  defines "p \<equiv> root_chunk_from_address P a" and "P' \<equiv> init_root_chunk type s zero (root_chunk_from_address P a) P"
  shows "pmm_ok P'" "merged P'" "pma_roots P' as" "chunk_sizes P' = chunk_sizes P" "dom (gpu_chunks P') = dom (gpu_chunks P)"
    "\<exists>c. held P' = (held P)(p := if s = CHUNK_STATE_FREE then None else Some c) \<and> chunk_state c = s \<and> chunk_type c = type \<and> log2_size c = UVM_CHUNK_SIZE_MAX"
proof -
  have p: "states P p = Some CHUNK_STATE_PMA_OWNED" "p \<in> set (root_chunks P)" "p \<notin> root_chunk_from_address P ` set as"
    using pas by (auto simp: pma_roots_def p_def root_chunk_from_address_def)
  obtain x where x: "shapes P p = Some x" "sh_parent x = None" "sh_size x = UVM_CHUNK_SIZE_MAX" using trees_root_dom[OF pmm_okD(1)[OF ok(1)] p(2)] by auto
  note i = init_root_ok[OF ok x(1,2) p(1) s, of type zero, folded P'_def[folded p_def]]
  show "pmm_ok P'" "merged P'" "chunk_sizes P' = chunk_sizes P" "dom (gpu_chunks P') = dom (gpu_chunks P)" using i by simp_all
  show "\<exists>c. held P' = (held P)(p := if s = CHUNK_STATE_FREE then None else Some c) \<and> chunk_state c = s \<and> chunk_type c = type \<and> log2_size c = UVM_CHUNK_SIZE_MAX"
    using i(7) x(3) by simp
  show "pma_roots P' as" using pas p(3) i(3,5) unfolding pma_roots_def root_chunk_from_address_cong[OF i(5)] by auto
qed

lemma init_free_roots:
  assumes "pmm_ok P" "merged P" "pma_roots P pas"
  shows "pmm_ok (init_root_chunks type CHUNK_STATE_FREE zero pas P) \<and> merged (init_root_chunks type CHUNK_STATE_FREE zero pas P) \<and>
    held (init_root_chunks type CHUNK_STATE_FREE zero pas P) = held P \<and> chunk_sizes (init_root_chunks type CHUNK_STATE_FREE zero pas P) = chunk_sizes P \<and>
    dom (gpu_chunks (init_root_chunks type CHUNK_STATE_FREE zero pas P)) = dom (gpu_chunks P)"
  using assms
proof (induction pas arbitrary: P)
  case (Cons a as)
  note s = pma_roots_step[OF Cons.prems insertI1, where type = type and zero = zero]
  have "held (init_root_chunk type CHUNK_STATE_FREE zero (root_chunk_from_address P a) P) = held P" using s(6) pma_roots_not_held[OF Cons.prems(3)] by (auto simp: fun_eq_iff)
  then show ?case using Cons.IH[OF s(1-3)] s(4,5) by simp
qed simp

lemma alloc_root_ok:
  assumes ok: "pmm_ok P" "merged P" and pma: "fst pma = NV_OK \<Longrightarrow> fst (snd pma) \<noteq> [] \<and> pma_roots P (fst (snd pma))"
  shows "(\<exists>status. status \<noteq> NV_OK \<and> alloc_root_chunk pma type P = (status, None, P)) \<or>
    (\<exists>p P'. alloc_root_chunk pma type P = (NV_OK, Some p, P') \<and> claimed type UVM_CHUNK_SIZE_MAX P p P')"
proof (cases "fst pma = NV_OK")
  case True
  obtain a as zero where pas: "pma = (NV_OK, a # as, zero)" using True pma by (cases pma; cases "fst (snd pma)") auto
  have r: "pma_roots P (a # as)" using pma True pas by simp
  note s = pma_roots_step[OF ok r insertI2[OF insertI1], where type = type and zero = zero]
  define P1 where "P1 = init_root_chunk type CHUNK_STATE_TEMP_PINNED zero (root_chunk_from_address P a) P"
  note f = init_free_roots[OF s(1-3), of type zero, folded P1_def]
  have "claimed type UVM_CHUNK_SIZE_MAX P (root_chunk_from_address P a) (init_root_chunks type CHUNK_STATE_FREE zero as P1)"
    using f s(4-6) pma_roots_not_held[OF r] by (auto simp: claimed_def P1_def)
  then show ?thesis using pas by (auto simp: alloc_root_chunk_def P1_def)
next
  case False
  then show ?thesis by (cases pma) (auto simp: alloc_root_chunk_def)
qed

lemma alloc_claimed: "claimed type k P p P' \<Longrightarrow> alloc_done type k (held P) (NV_OK, Some p, P')"
  by (auto simp: alloc_done_def claimed_def)

lemma split_claimed:
  assumes c: "claimed type cur P p P'" and k: "k \<le> cur" "bit (chunk_sizes P type) k" and mem: "fresh_mem mem UVM_CHUNK_SIZE_MAX P" and mx: "cur \<le> UVM_CHUNK_SIZE_MAX"
  shows "\<exists>r. split_down mem k (chunk_sizes_rev_from (chunk_sizes P type) cur) p P' = Some r \<and> alloc_done type k (held P) r"
proof -
  obtain c' where c': "held P' = (held P)(p \<mapsto> c')" "chunk_state c' = CHUNK_STATE_TEMP_PINNED" "log2_size c' = cur" "chunk_type c' = type" using c by (auto simp: claimed_def)
  have h: "(held P')(p := None) = held P" using c c'(1) by (auto simp: claimed_def)
  have "fresh_mem mem cur P'" by (rule fresh_mem_mono[OF mem mx]) (use c in \<open>simp add: claimed_def\<close>)
  moreover have "pmm_ok P'" "merged P'" "held P' p = Some c'" "chunk_sizes P' = chunk_sizes P" using c c'(1) by (auto simp: claimed_def)
  ultimately show ?thesis using split_down_ok[of P' p c' type cur k mem] c'(2-4) k unfolding h by auto
qed

lemma chunk_sizes_from_mem:
  "cur \<in> set (chunk_sizes_from Z k) \<Longrightarrow> bit Z k \<Longrightarrow> k \<le> UVM_CHUNK_SIZE_MAX \<Longrightarrow> k \<le> cur \<and> cur \<le> UVM_CHUNK_SIZE_MAX \<and> bit Z cur"
  by (auto simp: chunk_sizes_from_def UVM_CHUNK_SIZE_INVALID_def)

lemma alloc_with_splits_ok:
  assumes ok: "pmm_ok P" "merged P" and k: "k \<le> UVM_CHUNK_SIZE_MAX" "bit (chunk_sizes P type) k"
    and pma: "fst pma = NV_OK \<Longrightarrow> fst (snd pma) \<noteq> [] \<and> pma_roots P (fst (snd pma))" and mem: "fresh_mem mem UVM_CHUNK_SIZE_MAX P"
  shows "\<exists>r. alloc_chunk_with_splits elevated pma mem type k P = Some r \<and> alloc_done type k (held P) r"
proof -
  consider p P' where "claim_free_chunk elevated type k P = (Some p, P')" "claimed type k P p P'" | "claim_free_chunk elevated type k P = (None, P)"
    using claim_free_chunk_ok[OF ok k(2)] by blast
  then show ?thesis
  proof cases
    case 1
    then show ?thesis using alloc_claimed by (auto simp: alloc_chunk_with_splits_def Let_def)
  next
    case none: 2
    have "\<forall>j\<in>set (chunk_sizes_from (chunk_sizes P type) k). bit (chunk_sizes P type) j" using chunk_sizes_from_mem k by blast
    then consider cur p P' where "cur \<in> set (chunk_sizes_from (chunk_sizes P type) k)" "claim_bigger elevated type (chunk_sizes_from (chunk_sizes P type) k) P = (Some (cur, p), P')"
        "claimed type cur P p P'" | "claim_bigger elevated type (chunk_sizes_from (chunk_sizes P type) k) P = (None, P)"
      using claim_bigger_ok[OF ok] by blast
    then show ?thesis
    proof cases
      case 1
      then show ?thesis using split_claimed[OF 1(3) _ k(2) mem] chunk_sizes_from_mem[OF 1(1) k(2,1)] none by (simp add: alloc_chunk_with_splits_def)
    next
      case 2
      consider status where "status \<noteq> NV_OK" "alloc_root_chunk pma type P = (status, None, P)" | p P' where "alloc_root_chunk pma type P = (NV_OK, Some p, P')" "claimed type UVM_CHUNK_SIZE_MAX P p P'"
        using alloc_root_ok[OF ok pma] by blast
      then show ?thesis
      proof cases
        case 1
        then show ?thesis using none 2 ok by (auto simp: alloc_chunk_with_splits_def alloc_or_evict_root_chunk_def alloc_done_def)
      next
        case root: 2
        then show ?thesis using split_claimed[OF root(2) k mem] none 2 by (simp add: alloc_chunk_with_splits_def alloc_or_evict_root_chunk_def)
      qed
    qed
  qed
qed

lemma alloc_chunk_ok:
  assumes ok: "pmm_ok P" "merged P" and k: "k \<le> UVM_CHUNK_SIZE_MAX" "bit (chunk_sizes P type) k"
    and pma: "fst pma = NV_OK \<Longrightarrow> fst (snd pma) \<noteq> [] \<and> pma_roots P (fst (snd pma))" and mem: "fresh_mem mem UVM_CHUNK_SIZE_MAX P"
  shows "\<exists>r. alloc_chunk elevated pma mem type k P = Some r \<and> alloc_done type k (held P) r"
proof -
  consider p P' where "claim_free_chunk elevated type k P = (Some p, P')" "claimed type k P p P'" | "claim_free_chunk elevated type k P = (None, P)"
    using claim_free_chunk_ok[OF ok k(2)] by blast
  then show ?thesis
  proof cases
    case 1
    then show ?thesis using alloc_claimed by (auto simp: alloc_chunk_def)
  next
    case none: 2
    show ?thesis
    proof (cases "k = UVM_CHUNK_SIZE_MAX")
      case True
      consider status where "status \<noteq> NV_OK" "alloc_root_chunk pma type P = (status, None, P)" | p P' where "alloc_root_chunk pma type P = (NV_OK, Some p, P')" "claimed type UVM_CHUNK_SIZE_MAX P p P'"
        using alloc_root_ok[OF ok pma] by blast
      then have "alloc_done type k (held P) (alloc_root_chunk pma type P)"
      proof cases
        case 1
        then show ?thesis using ok by (simp add: alloc_done_def)
      next
        case 2
        then show ?thesis using alloc_claimed[OF 2(2)] True by simp
      qed
      then show ?thesis using none True by (simp add: alloc_chunk_def alloc_or_evict_root_chunk_unlocked_def)
    next
      case False
      obtain status chunk P' where r: "alloc_chunk_with_splits elevated pma mem type k P = Some (status, chunk, P')" "alloc_done type k (held P) (status, chunk, P')"
        using alloc_with_splits_ok[OF ok k pma mem] by (metis prod_cases3)
      have "alloc_done type k (held P) (status, None, snd (free_next_available_root_chunk type P'))" if "status \<noteq> NV_OK"
        using r(2) that free_next_root_ok[of P' type] by (simp add: alloc_done_def)
      then show ?thesis using none False r by (auto simp: alloc_chunk_def)
    qed
  qed
qed

section \<open>The other operations\<close>

lemma unpin_ok:
  assumes ok: "pmm_ok P" "merged P" and p: "held P p = Some c" "chunk_state c = CHUNK_STATE_TEMP_PINNED" "\<forall>l. p \<notin> set (chunk_lists P l)"
  shows "pmm_ok (gpu_unpin_temp p block ref P)" "merged (gpu_unpin_temp p block ref P)"
    "held (gpu_unpin_temp p block ref P) = (held P)(p \<mapsto> c\<lparr>chunk_state := CHUNK_STATE_ALLOCATED, is_referenced := ref, va_block := Some block\<rparr>)"
proof -
  let ?f = "\<lambda>c. c\<lparr>is_referenced := ref, va_block := Some block\<rparr>"
  have s: "states P p = Some CHUNK_STATE_TEMP_PINNED" "get_chunk P p = c" using held_state[OF p(1)] p(2) by auto
  obtain x where x: "shapes P p = Some x" "sh_subs x = None" using in_use_leaf[OF ok(1) s(1)] by auto
  define P1 where "P1 = chunk_unpin p CHUNK_STATE_ALLOCATED P"
  define P2 where "P2 = upd_chunk p ?f P1"
  note t = pmm_chunk_tree_ok[OF ok(1)]
  note v = unpin_views[OF t x(1) t x(1), where s = CHUNK_STATE_ALLOCATED, folded P1_def]
  have v2: "shapes P2 = shapes P" "states P2 = (states P)(p \<mapsto> CHUNK_STATE_ALLOCATED)" "allocs P2 = allocs P" "zeros P2 = zeros P" "evicts P2 = evicts P"
    "root_chunks P2 = root_chunks P" "chunk_sizes P2 = chunk_sizes P" "chunk_lists P2 = chunk_lists P" "pins P2 = pins P1"
    by (simp_all add: P2_def shape_of_def v)
  have e: "gpu_unpin_temp p block ref P = chunk_update_lists_locked p P2" by (simp add: gpu_unpin_temp_def P1_def P2_def)
  show "pmm_ok (gpu_unpin_temp p block ref P)"
    unfolding e
  proof (rule set_state_ok[OF ok(1) x v2(6,8,7,1,2)], goal_cases)
    case 7
    then show ?case using counted(2)[OF ok(1) x(1)] s(1) v(4) v2(9) by auto
  qed (use p(3) v2 v(4) s(1) in auto)
  show "merged (gpu_unpin_temp p block ref P)"
    by (rule merged_frame[OF ok(2)]) (auto simp: e v2 intro: pma_top_set[OF mergedD(2)[OF ok(2)]])
  have h1: "held P1 = (held P)(p \<mapsto> c\<lparr>chunk_state := CHUNK_STATE_ALLOCATED\<rparr>)" using v(10) s(2) by simp
  then have g: "gpu_chunks P1 p = Some (c\<lparr>chunk_state := CHUNK_STATE_ALLOCATED\<rparr>)" using held_state[of P1 p] by (auto simp: held_def[of P1] fun_eq_iff split: option.splits if_splits)
  show "held (gpu_unpin_temp p block ref P) = (held P)(p \<mapsto> c\<lparr>chunk_state := CHUNK_STATE_ALLOCATED, is_referenced := ref, va_block := Some block\<rparr>)"
    using held_upd[OF g, of ?f] h1 by (simp add: e P2_def)
qed

lemma mark_root_ok:
  assumes ok: "pmm_ok P" "merged P" and p: "held P p = Some c" "log2_size c = UVM_CHUNK_SIZE_MAX" and l: "l \<in> {Va_Block_Used, Va_Block_Unused}"
  shows "pmm_ok (root_chunk_update_eviction_list p l P)" "merged (root_chunk_update_eviction_list p l P)" "held (root_chunk_update_eviction_list p l P) = held P"
proof -
  have s: "states P p = Some (chunk_state c)" "in_use (chunk_state c)" using held_state[OF p(1)] by auto
  obtain x where x: "shapes P p = Some x" using s(1) by (auto simp: states_def shapes_def)
  have "p \<in> set (root_chunks P)" using trees_root(1,4)[OF pmm_okD(1)[OF ok(1)] x] held_views[OF p(1) x] p(2) by simp
  then have "on_list P l p" using l by (auto simp: on_list_def)
  then have "lists_ok ({} - {p}) (list_move_tail p l P)" using s by (intro lists_move[OF pmm_okD(3)[OF ok(1)]]) auto
  then have "pmm_ok (list_move_tail p l P)" "merged (list_move_tail p l P)" using ok by (simp_all add: pmm_ok_def merged_def pma_top_def)
  then show "pmm_ok (root_chunk_update_eviction_list p l P)" "merged (root_chunk_update_eviction_list p l P)" "held (root_chunk_update_eviction_list p l P) = held P"
    using ok by (simp_all add: root_chunk_update_eviction_list_def)
qed

section \<open>The initial state\<close>

lemma init_find: "inj_on root {..<n} \<Longrightarrow> find (\<lambda>i. root i = p) [0..<n] = Some i \<longleftrightarrow> i < n \<and> root i = p"
  by (auto simp: find_Some_iff inj_on_def) force+

lemma initial_state_ok:
  fixes root :: "nat \<Rightarrow> 'p" and max_addr :: NvU64 and mmu_user mmu_kernel mem_kernel :: nat
  defines "count \<equiv> unat (UVM_ALIGN_UP max_addr (2 ^ UVM_CHUNK_SIZE_MAX)) div 2 ^ UVM_CHUNK_SIZE_MAX"
  assumes inj: "inj_on root {..<count}"
  defines "P \<equiv> pmm_initial_state mmu_user mmu_kernel mem_kernel max_addr root :: ('p, 'v) pmm"
  shows "pmm_ok P" "merged P" "held P = (\<lambda>_. None)" "\<And>r. r \<in> set (root_chunks P) \<Longrightarrow> states P r = Some CHUNK_STATE_PMA_OWNED"
proof -
  let ?n = count
  have g: "gpu_chunks P p = Some c \<longleftrightarrow> (\<exists>i<?n. root i = p \<and> c = init_chunk i)" for p c
    using init_find[OF inj] by (auto simp: P_def pmm_initial_state_def Let_def count_def[symmetric])
  have R: "root_chunks P = map root [0..<?n]" "chunk_lists P = (\<lambda>l. [])" "chunk_sizes P = pmm_chunk_sizes mmu_user mmu_kernel mem_kernel"
    by (simp_all add: P_def pmm_initial_state_def Let_def count_def[symmetric])
  define X :: "nat \<Rightarrow> 'p shape" where
    "X i = \<lparr>sh_address = i * 2 ^ UVM_CHUNK_SIZE_MAX, sh_size = UVM_CHUNK_SIZE_MAX, sh_type = MEMORY_TYPE_USER, sh_parent = None, sh_subs = None\<rparr>" for i
  have sh: "shapes P p = Some x \<longleftrightarrow> (\<exists>i<?n. root i = p \<and> x = X i)" for p x
  proof -
    have "shapes P p = Some x \<longleftrightarrow> (\<exists>c. gpu_chunks P p = Some c \<and> shape_of c = x)" by (auto simp: shapes_def)
    moreover have "shape_of (init_chunk i :: ('p, 'v) gpu_chunk) = X i" for i by (simp add: X_def shape_of_def init_chunk_def)
    ultimately show ?thesis unfolding g by auto
  qed
  have st: "s = CHUNK_STATE_PMA_OWNED" if "states P p = Some s" for p s
  proof -
    obtain c where "gpu_chunks P p = Some c" "s = chunk_state c" using \<open>states P p = Some s\<close> by (auto simp: states_def)
    then show ?thesis unfolding g by (auto simp: init_chunk_def)
  qed
  have shd: "sh_address (X i) = i * 2 ^ UVM_CHUNK_SIZE_MAX" "sh_size (X i) = UVM_CHUNK_SIZE_MAX" "sh_parent (X i) = None" "sh_subs (X i) = None" for i by (simp_all add: X_def)
  have bit: "bit (chunk_sizes P t) UVM_CHUNK_SIZE_MAX" for t by (simp add: R pmm_chunk_sizes_def bit_or_iff bit_exp_iff)
  have "finite (dom (shapes P))" by (rule finite_subset[of _ "root ` {..<?n}"]) (use sh in \<open>auto simp del: dom_shapes\<close>)
  then have "trees (shapes P) (root_chunks P) (chunk_sizes P)"
    using bit unfolding trees_def node_ok_def by (auto simp: sh shd R simp del: dom_shapes)
  moreover have "counts (shapes P) (states P) (allocs P) (pins P) (root_chunks P)"
    unfolding counts_def using st by (auto simp: sh shd dom_states simp del: dom_shapes)
  moreover have "lists_ok {} P" using st by (auto simp: lists_ok_def R)
  moreover have "\<not> evicts P p" for p unfolding evicts_def g by (auto simp: init_chunk_def)
  ultimately show "pmm_ok P" by (simp add: pmm_ok_def)
  show "merged P" by (auto simp: merged_def pma_top_def sh shd)
  have "held P p = None" for p
  proof (cases "held P p")
    case (Some c)
    then show ?thesis using held_state[OF Some] st[of p "chunk_state c"] by auto
  qed
  then show "held P = (\<lambda>_. None)" by (rule ext)
  show "states P r = Some CHUNK_STATE_PMA_OWNED" if r: "r \<in> set (root_chunks P)" for r
  proof -
    obtain x where "shapes P r = Some x" using trees_root_dom[OF pmm_okD(1)[OF \<open>pmm_ok P\<close>] r] by auto
    then show ?thesis using get_views(5)[of P r x] st[of r "chunk_state (get_chunk P r)"] by simp
  qed
qed

section \<open>Allocating several chunks\<close>

text \<open>The physical memory allocator and the memory for splits keep their promises in every state.\<close>

definition pma_valid :: "(('p, 'v) pmm \<Rightarrow> NV_STATUS \<times> nat list \<times> bool) \<Rightarrow> bool" where
  "pma_valid pma \<longleftrightarrow> (\<forall>P. pmm_ok P \<longrightarrow> fst (pma P) = NV_OK \<longrightarrow> fst (snd (pma P)) \<noteq> [] \<and> pma_roots P (fst (snd (pma P))))"

definition mem_valid :: "(('p, 'v) pmm \<Rightarrow> nat \<Rightarrow> (nat \<Rightarrow> 'p) option) \<Rightarrow> bool" where
  "mem_valid mem \<longleftrightarrow> (\<forall>P. pmm_ok P \<longrightarrow> fresh_mem (mem P) UVM_CHUNK_SIZE_MAX P)"

text \<open>The chunks \<open>ps\<close> were added to the chunks in use, as pinned chunks of a size and type.\<close>

definition holds_more :: "memory_type \<Rightarrow> nat \<Rightarrow> ('p \<Rightarrow> ('p, 'v) gpu_chunk option) \<Rightarrow> 'p list \<Rightarrow> ('p \<Rightarrow> ('p, 'v) gpu_chunk option) \<Rightarrow> bool" where
  "holds_more type k H ps H' \<longleftrightarrow>
     distinct ps \<and> (\<forall>p. p \<notin> set ps \<longrightarrow> H' p = H p) \<and>
     (\<forall>p\<in>set ps. H p = None \<and> (\<exists>c. H' p = Some c \<and> chunk_state c = CHUNK_STATE_TEMP_PINNED \<and> log2_size c = k \<and> chunk_type c = type))"

lemma holds_more_snoc:
  assumes "holds_more type k H ps H'" "H' p = None" "chunk_state c = CHUNK_STATE_TEMP_PINNED" "log2_size c = k" "chunk_type c = type"
  shows "holds_more type k H (ps @ [p]) (H'(p \<mapsto> c))"
  using assms by (fastforce simp: holds_more_def)

lemma free_chunks_ok:
  assumes "pmm_ok P" "merged P" "distinct ps" "\<forall>p\<in>set ps. held P p \<noteq> None"
  shows "\<exists>P'. free_chunks ps P = Some P' \<and> pmm_ok P' \<and> merged P' \<and> held P' = (\<lambda>p. if p \<in> set ps then None else held P p)"
  using assms
proof (induction ps arbitrary: P)
  case (Cons p ps)
  obtain c where "held P p = Some c" using Cons.prems(4) by auto
  then obtain P1 where P1: "free_chunk p P = Some P1" "freed p P P1" using free_chunk_ok[OF Cons.prems(1,2)] by blast
  then have f: "pmm_ok P1" "merged P1" "held P1 = (held P)(p := None)" by (auto simp: freed_def)
  have "\<exists>P'. free_chunks ps P1 = Some P' \<and> pmm_ok P' \<and> merged P' \<and> held P' = (\<lambda>q. if q \<in> set ps then None else held P1 q)"
    by (rule Cons.IH[OF f(1,2)]) (use Cons.prems(3,4) f(3) in auto)
  then show ?case using P1(1) f(3) by (auto simp: fun_eq_iff)
qed simp

lemma undo_ok:
  assumes "pmm_ok P" "merged P" "holds_more type k H ps (held P)"
  shows "\<exists>P'. free_chunks (rev ps) P = Some P' \<and> pmm_ok P' \<and> merged P' \<and> held P' = H"
proof -
  have "\<exists>P'. free_chunks (rev ps) P = Some P' \<and> pmm_ok P' \<and> merged P' \<and> held P' = (\<lambda>p. if p \<in> set (rev ps) then None else held P p)"
    by (rule free_chunks_ok[OF assms(1,2)]) (use assms(3) in \<open>auto simp: holds_more_def\<close>)
  moreover have "(\<lambda>p. if p \<in> set (rev ps) then None else held P p) = H" using assms(3) by (auto simp: holds_more_def fun_eq_iff)
  ultimately show ?thesis by simp
qed

text \<open>
  What the allocations rely on: the physical memory allocator of the resource manager, and the memory for the chunk structures.
\<close>

locale pmm_env =
  fixes pma :: "('p, 'v) pmm \<Rightarrow> NV_STATUS \<times> nat list \<times> bool" and mem :: "('p, 'v) pmm \<Rightarrow> nat \<Rightarrow> (nat \<Rightarrow> 'p) option"
  assumes pma: "pma_valid pma" and mem: "mem_valid mem"
begin

lemma alloc_one:
  assumes "pmm_ok P" "merged P" "k \<le> UVM_CHUNK_SIZE_MAX" "bit (chunk_sizes P type) k"
  shows "\<exists>r. alloc_chunk elevated (pma P) (mem P) type k P = Some r \<and> alloc_done type k (held P) r"
  by (rule alloc_chunk_ok[OF assms]) (use pma mem assms(1) in \<open>auto simp: pma_valid_def mem_valid_def\<close>)

lemma alloc_loop:
  assumes k: "k \<le> UVM_CHUNK_SIZE_MAX"
  shows "pmm_ok P \<Longrightarrow> merged P \<Longrightarrow> bit (chunk_sizes P type) k \<Longrightarrow> holds_more type k H ps (held P) \<Longrightarrow>
    \<exists>status qs P'. alloc_chunks elevated pma mem tracker type k n ps P = Some (status, qs, P') \<and> pmm_ok P' \<and> merged P' \<and> holds_more type k H qs (held P') \<and>
      (status = NV_OK \<longrightarrow> length qs = length ps + n)"
proof (induction n arbitrary: ps P)
  case (Suc n)
  note ok = Suc.prems(1-3)
  obtain status chunk P1 where a: "alloc_chunk elevated (pma P) (mem P) type k P = Some (status, chunk, P1)" "alloc_done type k (held P) (status, chunk, P1)"
    using alloc_one[OF ok(1,2) k ok(3)] by (metis prod_cases3)
  show ?case
  proof (cases "status = NV_OK")
    case False
    then show ?thesis using a Suc.prems(4) by (auto simp: alloc_done_def)
  next
    case True
    then obtain p c where p: "chunk = Some p" "held P p = None" "held P1 = (held P)(p \<mapsto> c)" "chunk_state c = CHUNK_STATE_TEMP_PINNED" "log2_size c = k" "chunk_type c = type"
        "pmm_ok P1" "merged P1" using a(2) by (auto simp: alloc_done_def)
    have h: "holds_more type k H (ps @ [p]) (held P1)" unfolding p(3) by (rule holds_more_snoc[OF Suc.prems(4) p(2,4-6)])
    have b: "bit (chunk_sizes P1 type) k"
    proof -
      have "held P1 p = Some c" using p(3) by simp
      from held_state[OF this] obtain x where x: "shapes P1 p = Some x" by (auto simp: states_def shapes_def)
      have "sh_size x = k" "sh_type x = type" using held_views[OF \<open>held P1 p = Some c\<close> x] p(5,6) by auto
      then show ?thesis using trees_node[OF pmm_okD(1)[OF p(7)] x] by (simp add: node_ok_def)
    qed
    show ?thesis
    proof (cases "tracker (length ps) = NV_OK")
      case False
      then show ?thesis using a(1) True p(1,7,8) h by simp
    next
      case trk: True
      then show ?thesis using Suc.IH[OF p(7,8) b h] a(1) True p(1) by auto
    qed
  qed
qed simp

lemma alloc_all:
  fixes conf_computing :: bool and mem_type :: memory_type
  defines "type \<equiv> pmm_squash_memory_type conf_computing mem_type"
  assumes ok: "pmm_ok P" "merged P" and k: "k \<le> UVM_CHUNK_SIZE_MAX" "bit (chunk_sizes P type) k"
  shows "\<exists>status chunks P'. uvm_pmm_gpu_alloc conf_computing elevated pma mem tracker waited out last_wait n k mem_type P = Some (status, chunks, P') \<and> pmm_ok P' \<and> merged P' \<and>
    ((\<exists>ps. chunks = map Some ps \<and> length ps = n \<and> holds_more type k (held P) ps (held P') \<and> status = last_wait) \<or>
     (status \<noteq> NV_OK \<and> chunks = replicate n None \<and> held P' = held P))"
proof -
  obtain status qs P1 where a: "alloc_chunks elevated pma mem tracker type k n [] P = Some (status, qs, P1)" "pmm_ok P1" "merged P1" "holds_more type k (held P) qs (held P1)"
      "status = NV_OK \<longrightarrow> length qs = n"
    using alloc_loop[OF k(1) ok k(2), of "held P" "[]" elevated tracker n] by (auto simp: holds_more_def)
  obtain P2 where u: "free_chunks (rev qs) P1 = Some P2" "pmm_ok P2" "merged P2" "held P2 = held P" using undo_ok[OF a(2-4)] by blast
  show ?thesis using a u by (auto simp: uvm_pmm_gpu_alloc_def type_def[symmetric] Let_def split: option.splits)
qed

end

section \<open>Nothing is leaked\<close>

text \<open>When no chunk is in use, no chunk is split: every root chunk is free or owned by the physical memory allocator.\<close>

lemma nothing_split:
  assumes ok: "pmm_ok P" "merged P" and empty: "held P = (\<lambda>_. None)"
  shows "shapes P p = Some x \<Longrightarrow> sh_subs x = None"
proof (induction "sh_size x" arbitrary: p x rule: less_induct)
  case less
  show ?case
  proof (rule ccontr)
    assume "sh_subs x \<noteq> None"
    then obtain qs where qs: "sh_subs x = Some qs" by auto
    have "0 < allocs P p" by (rule mergedD(1)[OF ok(2) less.prems qs])
    moreover have "allocs P p = length (filter (\<lambda>q. states P q \<noteq> Some CHUNK_STATE_FREE) qs)" using pmm_okD(2)[OF ok(1)] less.prems qs by (auto simp: counts_def)
    ultimately obtain q where q: "q \<in> set qs" "states P q \<noteq> Some CHUNK_STATE_FREE" by (auto simp: filter_empty_conv)
    obtain y where y: "shapes P q = Some y" "sh_parent y = Some p" "sh_size y < sh_size x" using trees_child[OF pmm_okD(1)[OF ok(1)] less.prems qs q(1)] by auto
    have leaf: "sh_subs y = None" by (rule less.hyps[OF y(3,1)])
    obtain s where s: "states P q = Some s" using get_views(5)[OF y(1)] by simp
    then have "s \<noteq> CHUNK_STATE_IS_SPLIT" "s \<noteq> CHUNK_STATE_FREE" using split_state[OF ok(1) y(1)] leaf q(2) by auto
    moreover have "s \<noteq> CHUNK_STATE_PMA_OWNED" using mergedD(2)[OF ok(2)] y s by (auto simp: pma_top_def)
    ultimately have "in_use s" by (cases s) auto
    then show False using heldI[OF s] empty by (simp add: fun_eq_iff)
  qed
qed

lemma free_next_root_step:
  assumes ok: "pmm_ok P" "merged P"
  shows "(free_next_available_root_chunk type P = (False, P) \<and> (\<forall>z. chunk_lists P (find_free_list P type UVM_CHUNK_SIZE_MAX z) = [])) \<or>
    (\<exists>p P'. free_next_available_root_chunk type P = (True, P') \<and> p \<in> set (root_chunks P) \<and> states P p = Some CHUNK_STATE_FREE \<and>
      states P' = (states P)(p \<mapsto> CHUNK_STATE_PMA_OWNED) \<and> shapes P' = shapes P)"
proof -
  let ?L = "\<lambda>z. chunk_lists P (find_free_list P type UVM_CHUNK_SIZE_MAX z)"
  define r where "r = (if list_first_chunk (?L False) = None then list_first_chunk (?L True) else list_first_chunk (?L False))"
  show ?thesis
  proof (cases r)
    case None
    then have "?L z = []" for z by (cases z) (auto simp: r_def list_first_chunk_def split: list.splits if_splits)
    then show ?thesis using None by (simp add: free_next_available_root_chunk_def list_first_chunk_def)
  next
    case (Some p)
    then have p: "\<exists>z. p \<in> set (?L z)" by (auto simp: r_def split: if_splits dest: list_first_chunk_mem)
    define P' where "P' = free_root_chunk p (chunk_pin p (list_del_init p P))"
    have "free_next_available_root_chunk type P = (True, P')" using Some by (auto simp: free_next_available_root_chunk_def r_def P'_def Let_def split: if_splits)
    moreover have "bit (chunk_sizes P type) UVM_CHUNK_SIZE_MAX" using pmm_okD(1)[OF ok(1)] by (simp add: trees_def)
    then obtain x where x: "shapes P p = Some x" "sh_subs x = None" "sh_size x = UVM_CHUNK_SIZE_MAX" "states P p = Some CHUNK_STATE_FREE"
      using free_list_member[OF ok(1)] p by blast
    moreover have "p \<in> set (root_chunks P)" using trees_root(1,4)[OF pmm_okD(1)[OF ok(1)] x(1)] x(3) by simp
    ultimately show ?thesis using free_root_ok(6,7)[OF ok x] by (auto simp: P'_def)
  qed
qed

text \<open>Free root chunks were returned, and nothing else happened.\<close>

definition released :: "('p, 'v) pmm \<Rightarrow> ('p, 'v) pmm \<Rightarrow> bool" where
  "released P P' \<longleftrightarrow> pmm_ok P' \<and> merged P' \<and> held P' = held P \<and> root_chunks P' = root_chunks P \<and> shapes P' = shapes P \<and>
     (\<forall>r. states P' r = states P r \<or> states P r = Some CHUNK_STATE_FREE \<and> states P' r = Some CHUNK_STATE_PMA_OWNED)"

lemma released_trans: "released P Q \<Longrightarrow> released Q R \<Longrightarrow> released P R"
  unfolding released_def by (metis option.inject chunk_state.distinct(1))

definition no_free_roots :: "memory_type \<Rightarrow> ('p, 'v) pmm \<Rightarrow> bool" where
  "no_free_roots type P \<longleftrightarrow> (\<forall>r\<in>set (root_chunks P). \<forall>x. shapes P r = Some x \<longrightarrow> sh_type x = type \<longrightarrow> states P r \<noteq> Some CHUNK_STATE_FREE)"

lemma no_free_rootsI:
  assumes ok: "pmm_ok P" and empty: "\<forall>z. chunk_lists P (find_free_list P type UVM_CHUNK_SIZE_MAX z) = []"
  shows "no_free_roots type P"
  unfolding no_free_roots_def
proof (intro ballI allI impI notI)
  fix r x assume r: "r \<in> set (root_chunks P)" "shapes P r = Some x" "sh_type x = type" "states P r = Some CHUNK_STATE_FREE"
  have "sh_size x = UVM_CHUNK_SIZE_MAX" using trees_root_dom[OF pmm_okD(1)[OF ok] r(1)] r(2) by simp
  then have "find_free_list_chunk P r = find_free_list P type UVM_CHUNK_SIZE_MAX (zeros P r)" using free_list_eq[OF r(2)] r(3) by simp
  moreover have "r \<in> set (chunk_lists P (find_free_list_chunk P r))" using pmm_okD(3)[OF ok] r(4) by (simp add: lists_ok_def)
  ultimately show False using empty by simp
qed

lemma no_free_roots_released: "released P P' \<Longrightarrow> no_free_roots type P \<Longrightarrow> no_free_roots type P'"
  unfolding released_def no_free_roots_def by (metis option.inject chunk_state.distinct(1))

lemma release_type_ok:
  assumes "pmm_ok P" "merged P" "length (filter (\<lambda>r. states P r = Some CHUNK_STATE_FREE) (root_chunks P)) < fuel"
  shows "\<exists>P'. release_type fuel type P = Some P' \<and> released P P' \<and> no_free_roots type P'"
  using assms
proof (induction fuel arbitrary: P)
  case (Suc fuel)
  note ok = Suc.prems(1,2)
  show ?case
    using free_next_root_step[OF ok, of type]
  proof (elim disjE exE conjE)
    fix p P1 assume s: "free_next_available_root_chunk type P = (True, P1)" "p \<in> set (root_chunks P)" "states P p = Some CHUNK_STATE_FREE"
      "states P1 = (states P)(p \<mapsto> CHUNK_STATE_PMA_OWNED)" "shapes P1 = shapes P"
    note f = free_next_root_ok[OF ok, of type, unfolded s(1) snd_conv]
    obtain as bs where rs: "root_chunks P = as @ p # bs" using s(2) by (auto simp: in_set_conv_decomp)
    have "length (filter (\<lambda>r. states P1 r = Some CHUNK_STATE_FREE) xs) \<le> length (filter (\<lambda>r. states P r = Some CHUNK_STATE_FREE) xs)" for xs
      unfolding s(4) by (induction xs) auto
    from this[of as] this[of bs] have "length (filter (\<lambda>r. states P1 r = Some CHUNK_STATE_FREE) (root_chunks P1)) < fuel"
      using Suc.prems(3) s(3,4) by (simp add: f(5) rs)
    moreover have "released P P1" using f s(3-5) by (auto simp: released_def)
    ultimately show ?thesis using Suc.IH[OF f(1,2)] s(1) released_trans by fastforce
  next
    assume s: "free_next_available_root_chunk type P = (False, P)" "\<forall>z. chunk_lists P (find_free_list P type UVM_CHUNK_SIZE_MAX z) = []"
    have "released P P" using ok by (simp add: released_def)
    then show ?thesis using s(1) no_free_rootsI[OF ok(1) s(2)] by simp
  qed
qed simp

lemma release_types_ok:
  assumes "pmm_ok P" "merged P" "length (root_chunks P) < fuel"
  shows "\<exists>P'. release_types fuel types P = Some P' \<and> released P P' \<and> (\<forall>type\<in>set types. no_free_roots type P')"
  using assms
proof (induction types arbitrary: P)
  case Nil
  then show ?case by (simp add: released_def)
next
  case (Cons type types)
  have "length (filter (\<lambda>r. states P r = Some CHUNK_STATE_FREE) (root_chunks P)) < fuel" using Cons.prems(3) by (meson le_less_trans length_filter_le)
  then obtain P1 where P1: "release_type fuel type P = Some P1" "released P P1" "no_free_roots type P1" using release_type_ok[OF Cons.prems(1,2)] by blast
  then obtain P2 where P2: "release_types fuel types P1 = Some P2" "released P1 P2" "\<forall>type\<in>set types. no_free_roots type P2"
    using Cons.IH[of P1] Cons.prems(3) by (auto simp: released_def)
  then show ?case using P1 released_trans[OF P1(2) P2(2)] no_free_roots_released[OF P2(2) P1(3)] by auto
qed

end
