(* ===== verification/Pmm_Runs.thy ===== *)
theory Pmm_Runs
  imports Pmm_Alloc
begin

text \<open>
  Runs of the memory manager: an environment for which the locale \<open>pmm_env\<close> is interpreted, the step relation of the operations the driver calls and its reachable states, two
  concrete states, and the properties of the memory manager.
\<close>

unbundle bit_operations_syntax

section \<open>An environment\<close>

text \<open>An allocator that returns the first root chunk it owns, and memory above all that is in use.\<close>

definition pma_first :: "('p, 'v) pmm \<Rightarrow> NV_STATUS \<times> nat list \<times> bool" where
  "pma_first P = (case find (\<lambda>i. states P (root_chunks P ! i) = Some CHUNK_STATE_PMA_OWNED) [0..<length (root_chunks P)] of
     None \<Rightarrow> (NV_ERR_NO_MEMORY, [], False) | Some i \<Rightarrow> (NV_OK, [i * 2 ^ UVM_CHUNK_SIZE_MAX], False))"

definition mem_above :: "(nat, 'v) pmm \<Rightarrow> nat \<Rightarrow> (nat \<Rightarrow> nat) option" where
  "mem_above P j = Some (\<lambda>i. Suc (Max (insert 0 (dom (gpu_chunks P)))) + j * 2 ^ UVM_CHUNK_SIZE_MAX + i)"

lemma pma_first_valid: "pma_valid pma_first"
  by (auto simp: pma_valid_def pma_first_def pma_roots_def root_chunk_from_address_def find_Some_iff split: option.splits)

lemma mem_above_valid: "mem_valid (mem_above :: (nat, 'v) pmm \<Rightarrow> _)"
  unfolding mem_valid_def fresh_mem_def
proof (intro allI impI conjI)
  fix P :: "(nat, 'v) pmm" and l new assume ok: "pmm_ok P" and l: "mem_above P l = Some new"
  let ?m = "Max (insert 0 (dom (gpu_chunks P)))"
  have "finite (dom (gpu_chunks P))" using pmm_okD(1)[OF ok] by (simp add: trees_def)
  then have top: "q \<le> ?m" if "q \<in> dom (gpu_chunks P)" for q using that by simp
  have new: "new i = Suc ?m + l * 2 ^ UVM_CHUNK_SIZE_MAX + i" for i using l by (auto simp: mem_above_def)
  have "gpu_chunks P (new i) = None" for i using top[of "new i"] new[of i] by (cases "gpu_chunks P (new i)") (auto simp del: Max_insert)
  then show "fresh_subs new (2 ^ UVM_CHUNK_SIZE_MAX) P" by (auto simp: fresh_subs_def distinct_map inj_on_def new)
  fix m new' assume m: "m \<noteq> l" "mem_above P m = Some new'"
  have new': "new' i = Suc ?m + m * 2 ^ UVM_CHUNK_SIZE_MAX + i" for i using m(2) by (auto simp: mem_above_def)
  have "new i \<noteq> new' j" if "i < 2 ^ UVM_CHUNK_SIZE_MAX" "j < 2 ^ UVM_CHUNK_SIZE_MAX" for i j
  proof
    assume "new i = new' j"
    then have "(l * 2 ^ UVM_CHUNK_SIZE_MAX + i) div 2 ^ UVM_CHUNK_SIZE_MAX = (m * 2 ^ UVM_CHUNK_SIZE_MAX + j) div 2 ^ UVM_CHUNK_SIZE_MAX" by (simp add: new new')
    then show False using that m(1) by simp
  qed
  then show "new ` {..<2 ^ UVM_CHUNK_SIZE_MAX} \<inter> new' ` {..<2 ^ UVM_CHUNK_SIZE_MAX} = {}" by blast
qed

interpretation first_env: pmm_env pma_first mem_above
  by unfold_locales (rule pma_first_valid, rule mem_above_valid)

section \<open>Runs\<close>

text \<open>
  Allocating chunks, freeing and unpinning them, and marking root chunks as used, in any order, each operation run to its end before the next one starts. Eviction, and
  splitting or merging a chunk in place (\<^verbatim>\<open>uvm_pmm_gpu_split_chunk\<close>, \<^verbatim>\<open>uvm_pmm_gpu_merge_chunk\<close>), are not steps.
\<close>

inductive pmm_step :: "('p, 'v) pmm \<Rightarrow> ('p, 'v) pmm \<Rightarrow> bool" where
  Alloc: "pma_valid pma \<Longrightarrow> mem_valid mem \<Longrightarrow> k \<le> UVM_CHUNK_SIZE_MAX \<Longrightarrow> bit (chunk_sizes P (pmm_squash_memory_type conf_computing mem_type)) k \<Longrightarrow>
    uvm_pmm_gpu_alloc conf_computing elevated pma mem tracker waited out last_wait n k mem_type P = Some (status, chunks, P') \<Longrightarrow> pmm_step P P'"
| Free: "held P p = Some c \<Longrightarrow> uvm_pmm_gpu_free (Some p) P = Some P' \<Longrightarrow> pmm_step P P'"
| Unpin_allocated: "held P p = Some c \<Longrightarrow> chunk_state c = CHUNK_STATE_TEMP_PINNED \<Longrightarrow> \<forall>l. p \<notin> set (chunk_lists P l) \<Longrightarrow> pmm_step P (uvm_pmm_gpu_unpin_allocated p block P)"
| Unpin_referenced: "held P p = Some c \<Longrightarrow> chunk_state c = CHUNK_STATE_TEMP_PINNED \<Longrightarrow> \<forall>l. p \<notin> set (chunk_lists P l) \<Longrightarrow> pmm_step P (uvm_pmm_gpu_unpin_referenced p block P)"
| Used: "held P p = Some c \<Longrightarrow> log2_size c = UVM_CHUNK_SIZE_MAX \<Longrightarrow> pmm_step P (uvm_pmm_gpu_mark_root_chunk_used p P)"
| Unused: "held P p = Some c \<Longrightarrow> log2_size c = UVM_CHUNK_SIZE_MAX \<Longrightarrow> pmm_step P (uvm_pmm_gpu_mark_root_chunk_unused p P)"

inductive pmm_reachable :: "('p, 'v) pmm \<Rightarrow> bool" where
  Init: "inj_on root {..<unat (UVM_ALIGN_UP max_addr (2 ^ UVM_CHUNK_SIZE_MAX)) div 2 ^ UVM_CHUNK_SIZE_MAX} \<Longrightarrow>
    uvm_pmm_gpu_init caches (Some root) bitlocks pma callbacks devmem mmu_user mmu_kernel mem_kernel max_addr = (NV_OK, Some P) \<Longrightarrow> pmm_reachable P"
| Step: "pmm_reachable P \<Longrightarrow> pmm_step P P' \<Longrightarrow> pmm_reachable P'"

lemma pmm_step_ok: "pmm_step P P' \<Longrightarrow> pmm_ok P \<Longrightarrow> merged P \<Longrightarrow> pmm_ok P' \<and> merged P'"
proof (induction rule: pmm_step.induct)
  case (Alloc pma mem k P conf_computing mem_type elevated tracker waited out last_wait n status chunks P')
  then show ?case using pmm_env.alloc_all[OF pmm_env.intro[OF Alloc(1,2)] Alloc.prems Alloc(3,4), of elevated tracker waited out last_wait n] by auto
next
  case (Free P p c P')
  then show ?case using free_chunk_ok[OF Free.prems Free(1)] by (auto simp: uvm_pmm_gpu_free_def freed_def)
qed (auto simp: uvm_pmm_gpu_unpin_allocated_def uvm_pmm_gpu_unpin_referenced_def uvm_pmm_gpu_mark_root_chunk_used_def uvm_pmm_gpu_mark_root_chunk_unused_def
    intro: unpin_ok mark_root_ok)

lemma pmm_reachable_ok: "pmm_reachable P \<Longrightarrow> pmm_ok P \<and> merged P"
proof (induction rule: pmm_reachable.induct)
  case (Init root max_addr caches bitlocks pma callbacks devmem mmu_user mmu_kernel mem_kernel P)
  have "P = pmm_initial_state mmu_user mmu_kernel mem_kernel max_addr root" using Init(2) by (auto simp: uvm_pmm_gpu_init_def Let_def split: if_splits)
  then show ?case by (simp only:) (intro conjI initial_state_ok(1,2)[OF Init(1)])
qed (use pmm_step_ok in blast)

section \<open>Two states\<close>

text \<open>A GPU with two root chunks and a second size of 1 MB: at the start, and after an allocation of two chunks.\<close>

definition mem_small :: "(nat, 'v) pmm \<Rightarrow> nat \<Rightarrow> (nat \<Rightarrow> nat) option" where
  "mem_small P j = (if j = UVM_CHUNK_SIZE_MAX \<and> (\<forall>p. gpu_chunks P (p + 2) = None) then Some (\<lambda>i. i + 2) else None)"

lemma mem_small_valid: "mem_valid mem_small"
  by (auto simp: mem_valid_def fresh_mem_def mem_small_def fresh_subs_def distinct_map inj_on_def split: if_splits)

definition half_mask :: "memory_type \<Rightarrow> nat" where "half_mask = pmm_chunk_sizes (2 ^ 20) (2 ^ 12) 0"

lemma half_mask_bit: "bit (half_mask MEMORY_TYPE_USER) k \<longleftrightarrow> k = 20 \<or> k = 21"
  by (auto simp: half_mask_def pmm_chunk_sizes_def uvm_pmm_gpu_memory_type_is_user_def UVM_CHUNK_SIZE_MAX_def bit_or_iff bit_exp_iff simp del: power_numeral)

lemma half_mask_lists: "uvm_chunk_find_prev_size (half_mask MEMORY_TYPE_USER) 21 = 20"
  "filter (bit (half_mask MEMORY_TYPE_USER)) [0..<20] = []" "filter (bit (half_mask MEMORY_TYPE_USER)) [0..<21] = [20]"
  "filter (bit (half_mask MEMORY_TYPE_USER)) [Suc 20..<22] = [21]"
  by (simp_all add: uvm_chunk_find_prev_size_def half_mask_bit filter_empty_conv upt_rec)

definition half_pmm :: "(nat, unit) pmm" where "half_pmm = pmm_initial_state (2 ^ 20) (2 ^ 12) 0 (2 ^ 22) id"

lemma half_pmm_eq: "half_pmm = \<lparr>gpu_chunks = [0 \<mapsto> init_chunk 0, 1 \<mapsto> init_chunk 1], root_chunks = [0, 1], chunk_lists = (\<lambda>l. []), chunk_sizes = half_mask\<rparr>"
  by (simp add: half_pmm_def pmm_initial_state_def UVM_CHUNK_SIZE_MAX_def UVM_ALIGN_UP_def Let_def upt_rec fun_eq_iff half_mask_def)

definition pinned_pmm :: "(nat, unit) pmm" where
  "pinned_pmm = half_pmm\<lparr>gpu_chunks := (gpu_chunks half_pmm)(0 \<mapsto> (init_chunk 0)\<lparr>chunk_state := CHUNK_STATE_TEMP_PINNED\<rparr>)\<rparr>"

definition half_chunk :: "chunk_state \<Rightarrow> nat \<Rightarrow> (nat, unit) gpu_chunk" where
  "half_chunk s i = \<lparr>chunk_address = i * 2 ^ 20, chunk_type = MEMORY_TYPE_USER, in_eviction = False, inject_split_error = False, is_zero = False, is_referenced = False,
     chunk_state = s, log2_size = 20, va_block_page_index = PAGES_PER_UVM_VA_BLOCK, va_block = None, chunk_parent = Some 0, chunk_suballoc = None\<rparr>"

definition split_pmm :: "nat \<Rightarrow> chunk_state \<Rightarrow> nat list \<Rightarrow> (nat, unit) pmm" where
  "split_pmm n s ps = \<lparr>gpu_chunks = [0 \<mapsto> (init_chunk 0)\<lparr>chunk_state := CHUNK_STATE_IS_SPLIT, chunk_suballoc := Some \<lparr>sub_allocated = n, pinned_leaf_chunks = n, subchunks = [2, 3]\<rparr>\<rparr>,
     1 \<mapsto> init_chunk 1, 2 \<mapsto> half_chunk CHUNK_STATE_TEMP_PINNED 0, 3 \<mapsto> half_chunk s 1], root_chunks = [0, 1],
     chunk_lists = (\<lambda>l. if l = Free_List MEMORY_TYPE_USER 0 False then ps else []), chunk_sizes = half_mask\<rparr>"

lemma half_root: "alloc_root_chunk (pma_first half_pmm) MEMORY_TYPE_USER half_pmm = (NV_OK, Some 0, pinned_pmm)"
  by (simp add: half_pmm_eq pinned_pmm_def alloc_root_chunk_def pma_first_def states_def init_chunk_def upt_rec root_chunk_from_address_def init_root_chunk_def chunk_update_lists_locked_def
    uvm_pmm_gpu_memory_type_is_user_def chunk_is_root_chunk_pinned_def root_chunk_from_chunk_def get_chunk_def upd_chunk_def list_del_init_def Let_def fun_eq_iff)

lemma upt_2: "[0..<2] = [0, 1]" by (simp add: upt_rec)

lemma half_split: "split_gpu_chunk (Some (\<lambda>i. i + 2)) 0 pinned_pmm = (NV_OK, split_pmm 2 CHUNK_STATE_TEMP_PINNED [])"
  by (simp add: pinned_pmm_def half_pmm_eq split_pmm_def split_gpu_chunk_def init_chunk_def get_chunk_def root_chunk_from_chunk_def new_subchunk_def half_chunk_def upd_chunk_def upd_suballoc_def
    chunk_is_root_chunk_def UVM_CHUNK_SIZE_MAX_def half_mask_lists upt_2 Let_def fun_eq_iff)

lemma half_rest: "chunk_free_locked 3 (split_pmm 2 CHUNK_STATE_TEMP_PINNED []) = split_pmm 1 CHUNK_STATE_FREE [3]"
  by (simp add: split_pmm_def chunk_free_locked_def chunk_unpin_def chunk_is_in_eviction_def chunk_is_root_chunk_def chunk_is_root_chunk_pinned_def chunk_update_lists_locked_def
    init_chunk_def half_chunk_def get_chunk_def get_suballoc_def root_chunk_from_chunk_def upd_chunk_def upd_suballoc_def find_free_list_chunk_def find_free_list_def
    uvm_pmm_gpu_memory_type_is_user_def list_del_init_def list_move_tail_def UVM_CHUNK_SIZE_MAX_def half_mask_lists Let_def fun_eq_iff)

lemma half_none: "claim_free_chunk elevated MEMORY_TYPE_USER k half_pmm = (None, half_pmm)"
  by (simp add: claim_free_chunk_def find_free_chunk_locked_def half_pmm_eq)

lemma half_first: "alloc_chunk (\<lambda>_. False) (pma_first half_pmm) (mem_small half_pmm) MEMORY_TYPE_USER 20 half_pmm = Some (NV_OK, Some 2, split_pmm 1 CHUNK_STATE_FREE [3])"
proof -
  have mem: "mem_small half_pmm 21 = Some (\<lambda>i. i + 2)" by (simp add: mem_small_def UVM_CHUNK_SIZE_MAX_def half_pmm_eq)
  have n: "num_subchunks (split_pmm 2 CHUNK_STATE_TEMP_PINNED []) 0 = 2" "subchunks (get_suballoc (split_pmm 2 CHUNK_STATE_TEMP_PINNED []) 0) = [2, 3]"
    by (simp_all add: num_subchunks_def split_pmm_def get_suballoc_def get_chunk_def half_chunk_def init_chunk_def UVM_CHUNK_SIZE_MAX_def)
  have z: "chunk_sizes half_pmm MEMORY_TYPE_USER = half_mask MEMORY_TYPE_USER" by (simp add: half_pmm_eq)
  have "split_down (mem_small half_pmm) 20 (chunk_sizes_rev_from (half_mask MEMORY_TYPE_USER) 21) 0 pinned_pmm = Some (NV_OK, Some 2, split_pmm 1 CHUNK_STATE_FREE [3])"
    using half_rest by (simp add: chunk_sizes_rev_from_def half_mask_lists mem half_split[simplified] n)
  then show ?thesis
    by (simp add: alloc_chunk_def alloc_chunk_with_splits_def half_none half_root z chunk_sizes_from_def alloc_or_evict_root_chunk_def UVM_CHUNK_SIZE_MAX_def UVM_CHUNK_SIZE_INVALID_def
      half_mask_lists[simplified])
qed

lemma half_second: "alloc_chunk (\<lambda>_. False) pma mem MEMORY_TYPE_USER 20 (split_pmm 1 CHUNK_STATE_FREE [3]) = Some (NV_OK, Some 3, split_pmm 2 CHUNK_STATE_TEMP_PINNED [])"
  by (simp add: alloc_chunk_def claim_free_chunk_def find_free_chunk_locked_def find_free_list_def claim_found_chunk_def chunk_pin_def split_pmm_def chunk_is_in_eviction_def chunk_is_root_chunk_def
    chunk_is_root_chunk_pinned_def chunk_update_lists_locked_def init_chunk_def half_chunk_def get_chunk_def get_suballoc_def root_chunk_from_chunk_def upd_chunk_def upd_suballoc_def
    uvm_pmm_gpu_memory_type_is_user_def list_del_init_def list_move_tail_def UVM_CHUNK_SIZE_MAX_def half_mask_lists Let_def fun_eq_iff)

lemma half_alloc: "uvm_pmm_gpu_alloc False (\<lambda>_. False) pma_first mem_small (\<lambda>_. NV_OK) NV_OK None last_wait 2 20 MEMORY_TYPE_USER half_pmm =
    Some (last_wait, [Some 2, Some 3], split_pmm 2 CHUNK_STATE_TEMP_PINNED [])"
  using half_first half_second
  by (simp add: uvm_pmm_gpu_alloc_def pmm_squash_memory_type_def uvm_pmm_gpu_memory_type_is_user_def eval_nat_numeral)

lemma half_init_reachable: "pmm_reachable half_pmm"
proof (rule Init)
  show "uvm_pmm_gpu_init NV_OK (Some id) NV_OK (Some NV_OK) None NV_OK (2 ^ 20) (2 ^ 12) 0 (2 ^ 22) = (NV_OK, Some half_pmm)" by (simp add: uvm_pmm_gpu_init_def half_pmm_def)
qed simp

lemma half_pmm_ok: "pmm_ok half_pmm" "merged half_pmm" using pmm_reachable_ok[OF half_init_reachable] by auto

lemma half_pmm_held: "held half_pmm = (\<lambda>_. None)"
  by (simp add: fun_eq_iff held_def half_pmm_eq init_chunk_def)

abbreviation two_chunks :: "(nat, unit) pmm" where "two_chunks \<equiv> split_pmm 2 CHUNK_STATE_TEMP_PINNED []"

lemma half_reachable: "pmm_reachable two_chunks"
proof (rule Step[OF half_init_reachable Alloc[OF pma_first_valid mem_small_valid _ _ half_alloc]])
  show "bit (chunk_sizes half_pmm (pmm_squash_memory_type False MEMORY_TYPE_USER)) 20"
    by (simp add: half_pmm_eq half_mask_bit pmm_squash_memory_type_def uvm_pmm_gpu_memory_type_is_user_def)
qed (simp add: UVM_CHUNK_SIZE_MAX_def)

lemma two_chunks_ok: "pmm_ok two_chunks" "merged two_chunks" using pmm_reachable_ok[OF half_reachable] by auto

lemma two_chunks_held: "held two_chunks 2 = Some (half_chunk CHUNK_STATE_TEMP_PINNED 0)" "held two_chunks 3 = Some (half_chunk CHUNK_STATE_TEMP_PINNED 1)" "(2 :: nat) \<noteq> 3"
  by (simp_all add: held_def split_pmm_def half_chunk_def)

section \<open>Properties\<close>

text \<open>C2. \<^verbatim>\<open>uvm_pmm_gpu_alloc\<close> always returns, and it is all or nothing. Either it ends with the status of its last wait, the chunks it returns are as many as were asked for,
  different, not in use before, pinned and of the size and type asked for, and every other chunk is in use or not as before; or it fails, the array is cleared and the chunks in use are
  exactly those from before, whatever was split, taken from the physical memory allocator and given back in between.\<close>

theorem uvm_pmm_gpu_alloc_ok:
  fixes P :: "('p, 'v) pmm"
  assumes "pmm_ok P" "merged P" "pma_valid pma" "mem_valid mem" "k \<le> UVM_CHUNK_SIZE_MAX" "bit (chunk_sizes P (pmm_squash_memory_type conf_computing mem_type)) k"
  shows "\<exists>status chunks P'. uvm_pmm_gpu_alloc conf_computing elevated pma mem tracker waited out last_wait n k mem_type P = Some (status, chunks, P') \<and> pmm_ok P' \<and> merged P' \<and>
    ((\<exists>ps. chunks = map Some ps \<and> length ps = n \<and> holds_more (pmm_squash_memory_type conf_computing mem_type) k (held P) ps (held P') \<and> status = last_wait) \<or>
     (status \<noteq> NV_OK \<and> chunks = replicate n None \<and> held P' = held P))"
  by (rule pmm_env.alloc_all[OF pmm_env.intro[OF assms(3,4)] assms(1,2,5,6)])

theorem uvm_pmm_gpu_alloc_ok_witness:
  "\<exists>ps. length ps = 2 \<and> holds_more MEMORY_TYPE_USER 20 (held half_pmm) ps (held two_chunks) \<and> pmm_ok two_chunks"
proof -
  have t: "pmm_squash_memory_type False MEMORY_TYPE_USER = MEMORY_TYPE_USER" by (simp add: pmm_squash_memory_type_def uvm_pmm_gpu_memory_type_is_user_def)
  have b: "bit (chunk_sizes half_pmm MEMORY_TYPE_USER) 20" by (simp add: half_pmm_eq half_mask_bit)
  show ?thesis
    using uvm_pmm_gpu_alloc_ok[OF half_pmm_ok pma_first_valid mem_small_valid, where conf_computing = False and mem_type = MEMORY_TYPE_USER and elevated = "\<lambda>_. False" and tracker = "\<lambda>_. NV_OK"
        and waited = NV_OK and out = None and last_wait = NV_OK and n = 2 and k = 20, unfolded t, OF _ b] half_alloc[of NV_OK]
    by (auto simp: UVM_CHUNK_SIZE_MAX_def)
qed

text \<open>C9. \<^verbatim>\<open>uvm_pmm_gpu_free\<close> of a chunk in use returns: the loop that merges ends at the latest at the root chunk. It takes exactly this chunk out of use, merges every chunk below which
  nothing is in use any more, and leaves the chunks in use by others as they were.\<close>

theorem uvm_pmm_gpu_free_ok:
  fixes P :: "('p, 'v) pmm"
  assumes "pmm_ok P" "merged P" "held P p = Some c"
  shows "\<exists>P'. uvm_pmm_gpu_free (Some p) P = Some P' \<and> pmm_ok P' \<and> merged P' \<and> held P' = (held P)(p := None)"
  using free_chunk_ok[OF assms] by (auto simp: uvm_pmm_gpu_free_def freed_def)

theorem uvm_pmm_gpu_free_ok_witness:
  "\<exists>P'. uvm_pmm_gpu_free (Some 3) two_chunks = Some P' \<and> pmm_ok P' \<and> merged P' \<and> held P' = (held two_chunks)(3 := None)"
  by (rule uvm_pmm_gpu_free_ok[OF two_chunks_ok two_chunks_held(2)])

text \<open>C10. In every state a run can reach, two chunks in use never overlap: no byte of the memory of the GPU belongs to two of them.\<close>

theorem chunks_disjoint:
  fixes P :: "('p, 'v) pmm"
  assumes "pmm_reachable P" "held P p = Some c" "held P q = Some d" "p \<noteq> q"
  shows "{chunk_address c..<chunk_address c + 2 ^ log2_size c} \<inter> {chunk_address d..<chunk_address d + 2 ^ log2_size d} = {}"
proof -
  have ok: "pmm_ok P" using pmm_reachable_ok[OF assms(1)] by simp
  have leaf: "\<exists>x. shapes P r = Some x \<and> sh_subs x = None \<and> sh_address x = chunk_address e \<and> sh_size x = log2_size e" if "held P r = Some e" for r e
  proof -
    have h: "states P r = Some (chunk_state e)" "chunk_state e \<noteq> CHUNK_STATE_IS_SPLIT" "get_chunk P r = e" using held_state[OF that] by auto
    obtain x where "shapes P r = Some x" "sh_subs x = None" using in_use_leaf[OF ok h(1,2)] by auto
    then show ?thesis using get_views(1,2)[of P r x] h(3) by auto
  qed
  obtain x y where x: "shapes P p = Some x" "sh_subs x = None" "sh_address x = chunk_address c" "sh_size x = log2_size c"
    and y: "shapes P q = Some y" "sh_subs y = None" "sh_address y = chunk_address d" "sh_size y = log2_size d"
    using leaf[OF assms(2)] leaf[OF assms(3)] by blast
  show ?thesis
  proof (rule equals0I)
    fix a assume "a \<in> {chunk_address c..<chunk_address c + 2 ^ log2_size c} \<inter> {chunk_address d..<chunk_address d + 2 ^ log2_size d}"
    then have "covers_addr x a" "covers_addr y a" by (simp_all add: covers_addr_def x y)
    then show False using leaves_disjoint[OF pmm_okD(1)[OF ok] x(1,2) _ y(1,2)] assms(4) by blast
  qed
qed

theorem chunks_disjoint_witness: "{0..<0 + 2 ^ 20} \<inter> {2 ^ 20..<2 ^ 20 + 2 ^ 20} = ({} :: nat set)"
  using chunks_disjoint[OF half_reachable two_chunks_held] by (simp add: half_chunk_def)

text \<open>C19. In every state a run can reach, every chunk has one of the sizes of its memory type, its address is a multiple of its size, and a subchunk lies in its parent and has its type; a
  split chunk is divided completely into its subchunks.\<close>

theorem chunks_well_formed:
  fixes P :: "('p, 'v) pmm"
  assumes "pmm_reachable P" "gpu_chunks P p = Some c"
  shows "bit (chunk_sizes P (chunk_type c)) (log2_size c) \<and> log2_size c \<le> UVM_CHUNK_SIZE_MAX \<and> 2 ^ log2_size c dvd chunk_address c \<and>
    (case chunk_suballoc c of
       None \<Rightarrow> chunk_state c \<noteq> CHUNK_STATE_IS_SPLIT
     | Some a \<Rightarrow> chunk_state c = CHUNK_STATE_IS_SPLIT \<and> 0 < sub_allocated a \<and> sub_allocated a \<le> length (subchunks a) \<and>
         (\<forall>i<length (subchunks a). \<exists>d. gpu_chunks P (subchunks a ! i) = Some d \<and> chunk_parent d = Some p \<and> chunk_type d = chunk_type c \<and>
            chunk_address d = chunk_address c + i * 2 ^ log2_size d \<and> length (subchunks a) * 2 ^ log2_size d = 2 ^ log2_size c))"
proof -
  have ok: "pmm_ok P" "merged P" using pmm_reachable_ok[OF assms(1)] by auto
  have x: "shapes P p = Some (shape_of c)" using assms(2) by (simp add: shapes_def)
  note n = trees_node[OF pmm_okD(1)[OF ok(1)] x]
  have st: "states P p = Some (chunk_state c)" using assms(2) by (simp add: states_def)
  show ?thesis
  proof (cases "chunk_suballoc c")
    case None
    then show ?thesis using n split_state[OF ok(1) x] st by (simp add: node_ok_def shape_of_def)
  next
    case (Some a)
    let ?k = "uvm_chunk_find_prev_size (chunk_sizes P (chunk_type c)) (log2_size c)"
    have subs: "sh_subs (shape_of c) = Some (subchunks a)" using Some by (simp add: shape_of_def)
    have s: "split_node_ok (shapes P) (chunk_sizes P) p (shape_of c) (subchunks a)" using n subs by (simp add: node_ok_def)
    then have l: "length (subchunks a) * 2 ^ ?k = 2 ^ log2_size c" by (auto simp: split_node_ok_def Let_def shape_of_def simp flip: power_add)
    have child: "\<exists>d. gpu_chunks P (subchunks a ! i) = Some d \<and> chunk_parent d = Some p \<and> chunk_type d = chunk_type c \<and>
        chunk_address d = chunk_address c + i * 2 ^ log2_size d \<and> length (subchunks a) * 2 ^ log2_size d = 2 ^ log2_size c" if "i < length (subchunks a)" for i
      using s l that by (auto simp: split_node_ok_def Let_def shapes_def shape_of_def)
    have al: "allocs P p = sub_allocated a" using Some assms(2) by (simp add: allocs_def)
    moreover have "allocs P p = length (filter (\<lambda>q. states P q \<noteq> Some CHUNK_STATE_FREE) (subchunks a))" using pmm_okD(2)[OF ok(1)] x subs by (auto simp: counts_def)
    moreover from calculation have "sub_allocated a \<le> length (subchunks a)" by (metis length_filter_le)
    moreover have "0 < allocs P p" by (rule mergedD(1)[OF ok(2) x subs])
    ultimately show ?thesis using n child Some split_state[OF ok(1) x] st subs by (simp add: node_ok_def shape_of_def)
  qed
qed

theorem chunks_well_formed_witness:
  "bit (half_mask MEMORY_TYPE_USER) 21 \<and> (\<exists>d. gpu_chunks two_chunks 2 = Some d \<and> chunk_parent d = Some 0 \<and> chunk_address d = 0) \<and>
    (\<exists>d. gpu_chunks two_chunks 3 = Some d \<and> chunk_parent d = Some 0 \<and> chunk_address d = 2 ^ log2_size d)"
proof -
  have z: "chunk_sizes two_chunks = half_mask" by (simp add: split_pmm_def)
  obtain c where c: "gpu_chunks two_chunks 0 = Some c" "chunk_type c = MEMORY_TYPE_USER" "log2_size c = 21" "chunk_address c = 0"
      "chunk_suballoc c = Some \<lparr>sub_allocated = 2, pinned_leaf_chunks = 2, subchunks = [2, 3]\<rparr>"
    by (simp add: split_pmm_def init_chunk_def UVM_CHUNK_SIZE_MAX_def)
  note w = chunks_well_formed[OF half_reachable c(1)]
  then have "\<forall>i<length [2, 3 :: nat]. \<exists>d. gpu_chunks two_chunks ([2, 3] ! i) = Some d \<and> chunk_parent d = Some 0 \<and> chunk_address d = i * 2 ^ log2_size d" unfolding c(4,5) by fastforce
  from this[rule_format, of 0] this[rule_format, of 1] show ?thesis using w unfolding c(2,3) z by simp
qed

text \<open>C20. Nothing is leaked: when no chunk is in use any more, the loops of \<^verbatim>\<open>release_free_root_chunks\<close> end and every root chunk is back with the physical memory allocator, which is what
  \<^verbatim>\<open>uvm_pmm_gpu_deinit\<close> asserts.\<close>

theorem release_returns_everything:
  fixes P :: "('p, 'v) pmm"
  assumes "pmm_reachable P" "held P = (\<lambda>_. None)"
  shows "\<exists>P'. release_free_root_chunks P = Some P' \<and> (\<forall>r\<in>set (root_chunks P). states P' r = Some CHUNK_STATE_PMA_OWNED)"
proof -
  have ok: "pmm_ok P" "merged P" using pmm_reachable_ok[OF assms(1)] by auto
  obtain P' where P': "release_free_root_chunks P = Some P'" "released P P'"
      "\<forall>type\<in>{MEMORY_TYPE_USER, MEMORY_TYPE_USER_UNPROTECTED, MEMORY_TYPE_KERNEL, MEMORY_TYPE_KERNEL_UNPROTECTED}. no_free_roots type P'"
    using release_types_ok[OF ok, of "Suc (length (root_chunks P))" "[MEMORY_TYPE_USER, MEMORY_TYPE_USER_UNPROTECTED, MEMORY_TYPE_KERNEL, MEMORY_TYPE_KERNEL_UNPROTECTED]"]
    by (auto simp: release_free_root_chunks_def)
  have "states P' r = Some CHUNK_STATE_PMA_OWNED" if r: "r \<in> set (root_chunks P)" for r
  proof -
    have ok': "pmm_ok P'" "held P' = (\<lambda>_. None)" "root_chunks P' = root_chunks P" "merged P'" using P'(2) assms(2) by (auto simp: released_def)
    obtain x where x: "shapes P' r = Some x" using trees_root_dom[OF pmm_okD(1)[OF ok'(1)], of r] r ok'(3) by auto
    have "no_free_roots (sh_type x) P'" using P'(3) by (cases "sh_type x") auto
    then have "states P' r \<noteq> Some CHUNK_STATE_FREE" using x r ok'(3) by (auto simp: no_free_roots_def)
    moreover have "states P' r \<noteq> Some CHUNK_STATE_IS_SPLIT" using nothing_split[OF ok'(1,4,2) x] split_state[OF ok'(1) x] by simp
    moreover have "\<not> in_use s" if "states P' r = Some s" for s using heldI[OF that] ok'(2) by (auto simp: fun_eq_iff)
    ultimately show ?thesis using get_views(5)[OF x] by (cases "chunk_state (get_chunk P' r)") auto
  qed
  then show ?thesis using P'(1) by blast
qed

theorem release_returns_everything_witness:
  "\<exists>P'. release_free_root_chunks half_pmm = Some P' \<and> (\<forall>r\<in>{0, 1}. states P' r = Some CHUNK_STATE_PMA_OWNED)"
  using release_returns_everything[OF half_init_reachable half_pmm_held] by (simp add: half_pmm_eq)

text \<open>When everything succeeds and only the last wait fails, \<^verbatim>\<open>uvm_pmm_gpu_alloc\<close> returns the error with the array filled and all the chunks in use: the error path that frees the chunks and
  clears the array is not taken.\<close>

lemma uvm_pmm_gpu_alloc_last_wait_keeps_chunks:
  "\<exists>P'. uvm_pmm_gpu_alloc False (\<lambda>_. False) pma_first mem_small (\<lambda>_. NV_OK) NV_OK None NV_ERR_RC_ERROR 2 20 MEMORY_TYPE_USER half_pmm = Some (NV_ERR_RC_ERROR, [Some 2, Some 3], P') \<and>
    held half_pmm = (\<lambda>_. None) \<and> held P' 2 \<noteq> None \<and> held P' 3 \<noteq> None"
  using half_alloc[of NV_ERR_RC_ERROR] half_pmm_held two_chunks_held by auto

end
