(* ===== verification/Channel_Gpfifo.thy ===== *)
theory Channel_Gpfifo
  imports Pushbuffer
begin

text \<open>
  The GPFIFO of a channel, \<^verbatim>\<open>uvm_channel.c/.h\<close>: a ring of entries between \<^verbatim>\<open>gpu_get\<close> and \<^verbatim>\<open>cpu_put\<close>. A push reserves an entry, is written to the pushbuffer of \<^verbatim>\<open>Pushbuffer\<close>, and is
  submitted with the next value of the tracking semaphore of \<^verbatim>\<open>Gpu_Semaphore\<close>; when the GPU has reached the value, the entry is completed and its part of the pushbuffer is free
  again. The model is that of a driver without confidential computing, whose branches are left out together with the channels only it has. Indices and counts are natural numbers,
  which the ring bounds, and tracking values are words.
\<close>

unbundle bit_operations_syntax

section \<open>Channels\<close>

datatype gpfifo_entry_type = UVM_GPFIFO_ENTRY_TYPE_NORMAL | UVM_GPFIFO_ENTRY_TYPE_CONTROL

text \<open>The offset and size of a normal entry and the value of a control entry, which share memory in the code, are fields of their own; the type says which of them are used.\<close>

record gpfifo_entry =
  entry_type :: gpfifo_entry_type
  tracking_semaphore_value :: NvU64
  entry_offset :: nat
  entry_size :: nat
  control_value :: NvU64
  entry_push_info :: nat

text \<open>What the driver writes to a slot of the GPFIFO of the hardware: the GPU address and the size of a push, or the value of a control entry.\<close>

datatype hw_entry = Hw_push NvU64 nat | Hw_control NvU64

record ('f, 'g) uvm_channel =
  is_proxy :: bool
  gpfifo_entries :: "gpfifo_entry list"
  cpu_put :: nat
  gpu_get :: nat
  current_gpfifo_count :: nat
  push_infos :: "nat \<Rightarrow> 'f push_info"
  available_push_infos :: "nat list"
  tracking_sem :: "'g tracking_semaphore"
  hw_gpfifo :: "nat \<Rightarrow> hw_entry option"
  hw_gpu_put :: nat

abbreviation num_gpfifo_entries :: "('f, 'g) uvm_channel \<Rightarrow> nat" where "num_gpfifo_entries ch \<equiv> length (gpfifo_entries ch)"

definition UVM_CHANNEL_NUM_GPFIFO_ENTRIES_DEFAULT :: nat where "UVM_CHANNEL_NUM_GPFIFO_ENTRIES_DEFAULT = 1024"
definition UVM_CHANNEL_NUM_GPFIFO_ENTRIES_MIN :: nat where "UVM_CHANNEL_NUM_GPFIFO_ENTRIES_MIN = 32"
definition UVM_CHANNEL_NUM_GPFIFO_ENTRIES_MAX :: nat where "UVM_CHANNEL_NUM_GPFIFO_ENTRIES_MAX = 1024 * 1024"

text \<open>The number of entries that is used for a module parameter.\<close>

definition conf_num_gpfifo_entries :: "nat \<Rightarrow> nat" where
  "conf_num_gpfifo_entries param =
     (let n = (if param < UVM_CHANNEL_NUM_GPFIFO_ENTRIES_MIN then UVM_CHANNEL_NUM_GPFIFO_ENTRIES_MIN
               else if param > UVM_CHANNEL_NUM_GPFIFO_ENTRIES_MAX then UVM_CHANNEL_NUM_GPFIFO_ENTRIES_MAX else param)
      in if \<exists>k\<in>set [0..<64]. n = 2 ^ k then n else UVM_CHANNEL_NUM_GPFIFO_ENTRIES_DEFAULT)"

text \<open>A new channel with the tracking semaphore that was allocated for it, when all allocations of its creation succeeded.\<close>

definition zero_entry :: gpfifo_entry where
  "zero_entry = \<lparr>entry_type = UVM_GPFIFO_ENTRY_TYPE_NORMAL, tracking_semaphore_value = 0, entry_offset = 0, entry_size = 0, control_value = 0, entry_push_info = 0\<rparr>"

definition new_channel :: "bool \<Rightarrow> nat \<Rightarrow> 'g tracking_semaphore \<Rightarrow> ('f, 'g) uvm_channel" where
  "new_channel proxy n ts = \<lparr>is_proxy = proxy, gpfifo_entries = replicate n zero_entry, cpu_put = 0, gpu_get = 0, current_gpfifo_count = 0,
     push_infos = (\<lambda>_. \<lparr>on_complete = None, crypto_push_size = None\<rparr>), available_push_infos = [0..<n], tracking_sem = ts, hw_gpfifo = (\<lambda>_. None), hw_gpu_put = 0\<rparr>"

section \<open>Progress\<close>

datatype channel_update_mode = UVM_CHANNEL_UPDATE_MODE_COMPLETED | UVM_CHANNEL_UPDATE_MODE_FORCE_ALL

text \<open>
  The entry of the slot \<open>i\<close> of the channel \<open>c\<close> as the pushbuffer sees it. The memory a tracking semaphore is read from is an argument: the globals, the pool and the refresh of an
  encrypted payload.
\<close>

definition pb_entry :: "'c \<Rightarrow> nat \<Rightarrow> gpfifo_entry \<Rightarrow> ('c \<times> nat) gpfifo" where
  "pb_entry c i entry = \<lparr>gpfifo_id = (c, i), pushbuffer_offset = entry_offset entry, pushbuffer_size = entry_size entry\<rparr>"

type_synonym 'g semaphore_memory = "uvm_global \<times> 'g semaphore_pool \<times> ('g gpu_semaphore \<Rightarrow> 'g gpu_semaphore)"

definition uvm_channel_update_completed_value :: "'g semaphore_memory \<Rightarrow> ('f, 'g) uvm_channel \<Rightarrow> NvU64 \<times> ('f, 'g) uvm_channel" where
  "uvm_channel_update_completed_value mem ch =
     (case mem of (g, pool, enc_update) \<Rightarrow>
        let (v, ts) = uvm_gpu_tracking_semaphore_update_completed_value g pool enc_update (tracking_sem ch) in (v, ch\<lparr>tracking_sem := ts\<rparr>))"

fun complete_entries ::
    "'c \<Rightarrow> channel_update_mode \<Rightarrow> NvU64 \<Rightarrow> nat \<Rightarrow> ('f, 'g) uvm_channel \<Rightarrow> ('c \<times> nat, 'q) pushbuffer \<Rightarrow>
     'f completion_event list \<times> ('f, 'g) uvm_channel \<times> ('c \<times> nat, 'q) pushbuffer" where
  "complete_entries c mode completed 0 ch pb = ([], ch, pb)"
| "complete_entries c mode completed (Suc max_to_complete) ch pb =
     (if gpu_get ch = cpu_put ch then ([], ch, pb)
      else
        let entry = gpfifo_entries ch ! gpu_get ch
        in if mode = UVM_CHANNEL_UPDATE_MODE_COMPLETED \<and> tracking_semaphore_value entry > completed then ([], ch, pb)
           else
             let (events, ch1, pb1) =
                   (if entry_type entry = UVM_GPFIFO_ENTRY_TYPE_NORMAL
                    then let i = entry_push_info entry;
                             (events, info, pb1) = uvm_pushbuffer_mark_completed (push_infos ch i) (pb_entry c (gpu_get ch) entry) pb
                         in (events, ch\<lparr>push_infos := (push_infos ch)(i := info), available_push_infos := available_push_infos ch @ [i]\<rparr>, pb1)
                    else ([], ch, pb));
                 (later, ch2, pb2) = complete_entries c mode completed max_to_complete (ch1\<lparr>gpu_get := (gpu_get ch + 1) mod num_gpfifo_entries ch\<rparr>) pb1
             in (events @ later, ch2, pb2))"

definition pending_gpfifo_count :: "('f, 'g) uvm_channel \<Rightarrow> nat" where
  "pending_gpfifo_count ch = (if cpu_put ch \<ge> gpu_get ch then cpu_put ch - gpu_get ch else num_gpfifo_entries ch - gpu_get ch + cpu_put ch)"

definition uvm_channel_update_progress_with_max ::
    "'c \<Rightarrow> nat \<Rightarrow> channel_update_mode \<Rightarrow> 'g semaphore_memory \<Rightarrow> ('f, 'g) uvm_channel \<Rightarrow> ('c \<times> nat, 'q) pushbuffer \<Rightarrow>
     nat \<times> 'f completion_event list \<times> ('f, 'g) uvm_channel \<times> ('c \<times> nat, 'q) pushbuffer" where
  "uvm_channel_update_progress_with_max c max_to_complete mode mem ch pb =
     (let (completed, ch) = uvm_channel_update_completed_value mem ch;
          (events, ch, pb) = complete_entries c mode completed max_to_complete ch pb
      in (pending_gpfifo_count ch, events, ch, pb))"

definition uvm_channel_update_progress ::
    "'c \<Rightarrow> 'g semaphore_memory \<Rightarrow> ('f, 'g) uvm_channel \<Rightarrow> ('c \<times> nat, 'q) pushbuffer \<Rightarrow>
     nat \<times> 'f completion_event list \<times> ('f, 'g) uvm_channel \<times> ('c \<times> nat, 'q) pushbuffer" where
  "uvm_channel_update_progress c mem ch pb = uvm_channel_update_progress_with_max c 8 UVM_CHANNEL_UPDATE_MODE_COMPLETED mem ch pb"

definition channel_update_progress_all ::
    "'c \<Rightarrow> channel_update_mode \<Rightarrow> 'g semaphore_memory \<Rightarrow> ('f, 'g) uvm_channel \<Rightarrow> ('c \<times> nat, 'q) pushbuffer \<Rightarrow>
     nat \<times> 'f completion_event list \<times> ('f, 'g) uvm_channel \<times> ('c \<times> nat, 'q) pushbuffer" where
  "channel_update_progress_all c mode mem ch pb = uvm_channel_update_progress_with_max c (num_gpfifo_entries ch) mode mem ch pb"

definition uvm_channel_update_progress_all ::
    "'c \<Rightarrow> 'g semaphore_memory \<Rightarrow> ('f, 'g) uvm_channel \<Rightarrow> ('c \<times> nat, 'q) pushbuffer \<Rightarrow>
     nat \<times> 'f completion_event list \<times> ('f, 'g) uvm_channel \<times> ('c \<times> nat, 'q) pushbuffer" where
  "uvm_channel_update_progress_all c mem ch pb = channel_update_progress_all c UVM_CHANNEL_UPDATE_MODE_COMPLETED mem ch pb"

text \<open>The channels of all pools of a manager, in the order of the loops.\<close>

fun uvm_channel_manager_update_progress ::
    "('c \<Rightarrow> 'g semaphore_memory) \<Rightarrow> 'c list \<Rightarrow> ('c \<Rightarrow> ('f, 'g) uvm_channel) \<Rightarrow> ('c \<times> nat, 'q) pushbuffer \<Rightarrow>
     nat \<times> 'f completion_event list \<times> ('c \<Rightarrow> ('f, 'g) uvm_channel) \<times> ('c \<times> nat, 'q) pushbuffer" where
  "uvm_channel_manager_update_progress mem [] chans pb = (0, [], chans, pb)"
| "uvm_channel_manager_update_progress mem (c # cs) chans pb =
     (let (pending, events, ch, pb) = uvm_channel_update_progress c (mem c) (chans c) pb;
          (rest, later, chans, pb) = uvm_channel_manager_update_progress mem cs (chans(c := ch)) pb
      in (pending + rest, events @ later, chans, pb))"

section \<open>Reservations\<close>

text \<open>The subtraction of \<^verbatim>\<open>NvU32\<close> values, which wraps around.\<close>

definition u32_minus :: "nat \<Rightarrow> nat \<Rightarrow> nat" where
  "u32_minus a b = nat ((int a - int b) mod 2 ^ 32)"

lemma u32_minus_le [simp]: "b \<le> a \<Longrightarrow> a < 2 ^ 32 \<Longrightarrow> u32_minus a b = a - b"
  by (simp add: u32_minus_def nat_mod_distrib nat_diff_distrib flip: of_nat_diff)

definition channel_get_available_gpfifo_entries :: "('f, 'g) uvm_channel \<Rightarrow> nat" where
  "channel_get_available_gpfifo_entries ch =
     (let available = u32_minus (num_gpfifo_entries ch) 1;
          available = u32_minus available (current_gpfifo_count ch)
      in if cpu_put ch \<ge> gpu_get ch then u32_minus available (u32_minus (cpu_put ch) (gpu_get ch))
         else u32_minus available (u32_minus (cpu_put ch + num_gpfifo_entries ch) (gpu_get ch)))"

definition try_claim_channel_locked :: "nat \<Rightarrow> ('f, 'g) uvm_channel \<Rightarrow> bool \<times> ('f, 'g) uvm_channel" where
  "try_claim_channel_locked n ch =
     (if channel_get_available_gpfifo_entries ch \<ge> n then (True, ch\<lparr>current_gpfifo_count := current_gpfifo_count ch + n\<rparr>) else (False, ch))"

definition try_claim_channel :: "nat \<Rightarrow> ('f, 'g) uvm_channel \<Rightarrow> bool \<times> ('f, 'g) uvm_channel" where
  "try_claim_channel n ch = try_claim_channel_locked n ch"

definition uvm_channel_release :: "nat \<Rightarrow> ('f, 'g) uvm_channel \<Rightarrow> ('f, 'g) uvm_channel" where
  "uvm_channel_release n ch = ch\<lparr>current_gpfifo_count := current_gpfifo_count ch - n\<rparr>"

section \<open>Errors\<close>

definition uvm_channel_get_first_pending_entry ::
    "'c \<Rightarrow> 'g semaphore_memory \<Rightarrow> ('f, 'g) uvm_channel \<Rightarrow> ('c \<times> nat, 'q) pushbuffer \<Rightarrow>
     gpfifo_entry option \<times> 'f completion_event list \<times> ('f, 'g) uvm_channel \<times> ('c \<times> nat, 'q) pushbuffer" where
  "uvm_channel_get_first_pending_entry c mem ch pb =
     (let (pending, events, ch, pb) = channel_update_progress_all c UVM_CHANNEL_UPDATE_MODE_COMPLETED mem ch pb
      in (if pending = 0 then None else if gpu_get ch \<noteq> cpu_put ch then Some (gpfifo_entries ch ! gpu_get ch) else None, events, ch, pb))"

text \<open>Checking for errors looks for the entry that caused one, which updates the progress; the status then becomes the global error (see \<^verbatim>\<open>Tracker\<close>).\<close>

definition channel_check_errors ::
    "NV_STATUS \<Rightarrow> 'c \<Rightarrow> 'g semaphore_memory \<Rightarrow> ('f, 'g) uvm_channel \<Rightarrow> ('c \<times> nat, 'q) pushbuffer \<Rightarrow>
     NV_STATUS \<times> 'f completion_event list \<times> ('f, 'g) uvm_channel \<times> ('c \<times> nat, 'q) pushbuffer" where
  "channel_check_errors status c mem ch pb =
     (if status = NV_OK then (NV_OK, [], ch, pb)
      else let (fatal_entry, events, ch, pb) = uvm_channel_get_first_pending_entry c mem ch pb in (status, events, ch, pb))"

section \<open>Waiting\<close>

text \<open>
  Waiting for a channel and for entries of a channel. \<open>mem j\<close> is the memory of the semaphore at the \<open>j\<close>-th read, two for each time around. The \<open>i\<close>-th time around, \<open>glob i\<close> is the global status, \<open>err i\<close> the status of the channel, and
  \<open>spin i\<close> what other threads do to the channel and the pushbuffer during the spin. A loop that is not over when the fuel is has no result.
\<close>

fun wait_for_progress ::
    "nat \<Rightarrow> 'c \<Rightarrow> (nat \<Rightarrow> 'g semaphore_memory) \<Rightarrow> (nat \<Rightarrow> NV_STATUS) \<Rightarrow> (nat \<Rightarrow> NV_STATUS) \<Rightarrow>
     (nat \<Rightarrow> ('f, 'g) uvm_channel \<times> ('c \<times> nat, 'q) pushbuffer \<Rightarrow> ('f, 'g) uvm_channel \<times> ('c \<times> nat, 'q) pushbuffer) \<Rightarrow> nat \<Rightarrow> NV_STATUS \<Rightarrow>
     ('f, 'g) uvm_channel \<times> ('c \<times> nat, 'q) pushbuffer \<Rightarrow> (NV_STATUS \<times> ('f, 'g) uvm_channel \<times> ('c \<times> nat, 'q) pushbuffer) option" where
  "wait_for_progress 0 c mem glob err spin i status st = None"
| "wait_for_progress (Suc fuel) c mem glob err spin i status st =
     (let (ch, pb) = st;
          (pending, events, ch, pb) = uvm_channel_update_progress c (mem (2 * i)) ch pb
      in if pending > 0 \<and> status = NV_OK
         then let (ch, pb) = spin i (ch, pb);
                  status = glob i
              in if status = NV_OK
                 then let (status, events, ch, pb) = channel_check_errors (err i) c (mem (2 * i + 1)) ch pb
                      in wait_for_progress fuel c mem glob err spin (Suc i) status (ch, pb)
                 else wait_for_progress fuel c mem glob err spin (Suc i) status (ch, pb)
         else Some (status, ch, pb))"

definition uvm_channel_wait ::
    "nat \<Rightarrow> 'c \<Rightarrow> (nat \<Rightarrow> 'g semaphore_memory) \<Rightarrow> (nat \<Rightarrow> NV_STATUS) \<Rightarrow> (nat \<Rightarrow> NV_STATUS) \<Rightarrow>
     (nat \<Rightarrow> ('f, 'g) uvm_channel \<times> ('c \<times> nat, 'q) pushbuffer \<Rightarrow> ('f, 'g) uvm_channel \<times> ('c \<times> nat, 'q) pushbuffer) \<Rightarrow>
     ('f, 'g) uvm_channel \<Rightarrow> ('c \<times> nat, 'q) pushbuffer \<Rightarrow> (NV_STATUS \<times> ('f, 'g) uvm_channel \<times> ('c \<times> nat, 'q) pushbuffer) option" where
  "uvm_channel_wait fuel c mem glob err spin ch pb =
     (let status = glob 0;
          (pending, events, ch, pb) = uvm_channel_update_progress c (mem 0) ch pb
      in if pending = 0 \<and> status = NV_OK
         then let (status, events, ch, pb) = channel_check_errors (err 0) c (mem 1) ch pb in Some (status, ch, pb)
         else wait_for_progress fuel c mem glob err spin 1 status (ch, pb))"

fun reserve_loop ::
    "nat \<Rightarrow> 'c \<Rightarrow> (nat \<Rightarrow> 'g semaphore_memory) \<Rightarrow> (nat \<Rightarrow> NV_STATUS) \<Rightarrow>
     (nat \<Rightarrow> ('f, 'g) uvm_channel \<times> ('c \<times> nat, 'q) pushbuffer \<Rightarrow> ('f, 'g) uvm_channel \<times> ('c \<times> nat, 'q) pushbuffer) \<Rightarrow> nat \<Rightarrow> nat \<Rightarrow> NV_STATUS \<Rightarrow>
     ('f, 'g) uvm_channel \<times> ('c \<times> nat, 'q) pushbuffer \<Rightarrow> (NV_STATUS \<times> ('f, 'g) uvm_channel \<times> ('c \<times> nat, 'q) pushbuffer) option" where
  "reserve_loop 0 c mem err spin n i status st = None"
| "reserve_loop (Suc fuel) c mem err spin n i status st =
     (let (ch, pb) = st;
          (claimed, ch) = try_claim_channel n ch
      in if \<not> claimed \<and> status = NV_OK
         then let (ch, pb) = spin i (ch, pb);
                  (status, events, ch, pb) = channel_check_errors (err i) c (mem (2 * i)) ch pb;
                  (pending, events, ch, pb) = uvm_channel_update_progress c (mem (2 * i + 1)) ch pb
              in reserve_loop fuel c mem err spin n (Suc i) status (ch, pb)
         else Some (status, ch, pb))"

definition uvm_channel_reserve ::
    "nat \<Rightarrow> 'c \<Rightarrow> (nat \<Rightarrow> 'g semaphore_memory) \<Rightarrow> (nat \<Rightarrow> NV_STATUS) \<Rightarrow>
     (nat \<Rightarrow> ('f, 'g) uvm_channel \<times> ('c \<times> nat, 'q) pushbuffer \<Rightarrow> ('f, 'g) uvm_channel \<times> ('c \<times> nat, 'q) pushbuffer) \<Rightarrow> nat \<Rightarrow>
     ('f, 'g) uvm_channel \<Rightarrow> ('c \<times> nat, 'q) pushbuffer \<Rightarrow> (NV_STATUS \<times> ('f, 'g) uvm_channel \<times> ('c \<times> nat, 'q) pushbuffer) option" where
  "uvm_channel_reserve fuel c mem err spin n ch pb =
     (let (claimed, ch) = try_claim_channel n ch
      in if claimed then Some (NV_OK, ch, pb)
         else let (pending, events, ch, pb) = uvm_channel_update_progress c (mem 0) ch pb
              in reserve_loop fuel c mem err spin n 1 NV_OK (ch, pb))"

text \<open>Reserving an entry on any channel of a pool.\<close>

fun claim_in_pool :: "'c list \<Rightarrow> ('c \<Rightarrow> ('f, 'g) uvm_channel) \<Rightarrow> 'c option \<times> ('c \<Rightarrow> ('f, 'g) uvm_channel)" where
  "claim_in_pool [] chans = (None, chans)"
| "claim_in_pool (c # cs) chans =
     (let (claimed, ch) = try_claim_channel 1 (chans c) in if claimed then (Some c, chans(c := ch)) else claim_in_pool cs chans)"

fun pool_loop ::
    "nat \<Rightarrow> (nat \<Rightarrow> 'c \<Rightarrow> 'g semaphore_memory) \<Rightarrow> (nat \<Rightarrow> 'c \<Rightarrow> NV_STATUS) \<Rightarrow>
     (nat \<Rightarrow> ('c \<Rightarrow> ('f, 'g) uvm_channel) \<times> ('c \<times> nat, 'q) pushbuffer \<Rightarrow> ('c \<Rightarrow> ('f, 'g) uvm_channel) \<times> ('c \<times> nat, 'q) pushbuffer) \<Rightarrow> 'c list \<Rightarrow> 'c list \<Rightarrow> nat \<Rightarrow>
     ('c \<Rightarrow> ('f, 'g) uvm_channel) \<times> ('c \<times> nat, 'q) pushbuffer \<Rightarrow> (NV_STATUS \<times> 'c option \<times> ('c \<Rightarrow> ('f, 'g) uvm_channel) \<times> ('c \<times> nat, 'q) pushbuffer) option" where
  "pool_loop 0 mem err spin pool cs i st = None"
| "pool_loop (Suc fuel) mem err spin pool [] i st = pool_loop fuel mem err spin pool pool i st"
| "pool_loop (Suc fuel) mem err spin pool (c # cs) i st =
     (let (chans, pb) = st;
          (pending, events, ch, pb) = uvm_channel_update_progress c (mem (2 * i) c) (chans c) pb;
          (claimed, ch) = try_claim_channel 1 ch
      in if claimed then Some (NV_OK, Some c, chans(c := ch), pb)
         else let (status, events, ch, pb) = channel_check_errors (err i c) c (mem (2 * i + 1) c) ch pb
              in if status \<noteq> NV_OK then Some (status, None, chans(c := ch), pb)
                 else pool_loop fuel mem err spin pool cs (Suc i) (spin i (chans(c := ch), pb)))"

definition channel_reserve_in_pool ::
    "nat \<Rightarrow> (nat \<Rightarrow> 'c \<Rightarrow> 'g semaphore_memory) \<Rightarrow> (nat \<Rightarrow> 'c \<Rightarrow> NV_STATUS) \<Rightarrow>
     (nat \<Rightarrow> ('c \<Rightarrow> ('f, 'g) uvm_channel) \<times> ('c \<times> nat, 'q) pushbuffer \<Rightarrow> ('c \<Rightarrow> ('f, 'g) uvm_channel) \<times> ('c \<times> nat, 'q) pushbuffer) \<Rightarrow> 'c list \<Rightarrow>
     ('c \<Rightarrow> ('f, 'g) uvm_channel) \<Rightarrow> ('c \<times> nat, 'q) pushbuffer \<Rightarrow> (NV_STATUS \<times> 'c option \<times> ('c \<Rightarrow> ('f, 'g) uvm_channel) \<times> ('c \<times> nat, 'q) pushbuffer) option" where
  "channel_reserve_in_pool fuel mem err spin pool chans pb =
     (case claim_in_pool pool chans of
        (Some c, chans) \<Rightarrow> Some (NV_OK, Some c, chans, pb)
      | (None, chans) \<Rightarrow> pool_loop fuel mem err spin pool pool 0 (chans, pb))"

section \<open>Pushes\<close>

text \<open>\<open>None\<close> stands for an empty list, whose first element the code would use.\<close>

definition channel_get_available_push_info_index :: "('f, 'g) uvm_channel \<Rightarrow> (nat \<times> ('f, 'g) uvm_channel) option" where
  "channel_get_available_push_info_index ch =
     (case available_push_infos ch of [] \<Rightarrow> None | i # rest \<Rightarrow> Some (i, ch\<lparr>available_push_infos := rest\<rparr>))"

text \<open>\<open>push_size\<close> is the size with the semaphore release, and \<open>base_va\<close> the address of the pushbuffer. The result has the tracking value of the push.\<close>

definition internal_channel_submit_work :: "NvU64 \<Rightarrow> 'q push \<Rightarrow> nat \<Rightarrow> nat \<Rightarrow> ('f, 'g) uvm_channel \<Rightarrow> ('f, 'g) uvm_channel" where
  "internal_channel_submit_work base_va push push_size new_gpu_put ch =
     ch\<lparr>hw_gpfifo := (hw_gpfifo ch)(cpu_put ch \<mapsto> Hw_push (uvm_pushbuffer_get_gpu_va_for_push base_va 0 0 push) push_size), hw_gpu_put := new_gpu_put\<rparr>"

definition uvm_channel_end_push ::
    "'c \<Rightarrow> NvU64 \<Rightarrow> 'q push \<Rightarrow> nat \<Rightarrow> nat \<Rightarrow> ('f, 'g) uvm_channel \<Rightarrow> ('c \<times> nat, 'q) pushbuffer \<Rightarrow> NvU64 \<times> ('f, 'g) uvm_channel \<times> ('c \<times> nat, 'q) pushbuffer" where
  "uvm_channel_end_push c base_va push push_info_index push_size ch pb =
     (let new_tracking_value = queued_value (tracking_sem ch) + 1;
          ch = ch\<lparr>tracking_sem := (tracking_sem ch)\<lparr>queued_value := new_tracking_value\<rparr>\<rparr>;
          put = cpu_put ch;
          new_cpu_put = (put + 1) mod num_gpfifo_entries ch;
          entry = (gpfifo_entries ch ! put)\<lparr>tracking_semaphore_value := new_tracking_value, entry_offset := uvm_pushbuffer_get_offset_for_push push, entry_size := push_size,
                    entry_push_info := push_info_index, entry_type := UVM_GPFIFO_ENTRY_TYPE_NORMAL\<rparr>;
          ch = ch\<lparr>gpfifo_entries := (gpfifo_entries ch)[put := entry], current_gpfifo_count := current_gpfifo_count ch - 1\<rparr>;
          ch = (if is_proxy ch then ch else internal_channel_submit_work base_va push push_size new_cpu_put ch);
          ch = ch\<lparr>cpu_put := new_cpu_put\<rparr>
      in (new_tracking_value, ch, uvm_pushbuffer_end_push push (pb_entry c put entry) pb))"

definition submit_ctrl_gpfifo :: "gpfifo_entry \<Rightarrow> nat \<Rightarrow> ('f, 'g) uvm_channel \<Rightarrow> ('f, 'g) uvm_channel" where
  "submit_ctrl_gpfifo entry new_cpu_put ch = ch\<lparr>hw_gpfifo := (hw_gpfifo ch)(cpu_put ch \<mapsto> Hw_control (control_value entry)), hw_gpu_put := new_cpu_put\<rparr>"

definition write_ctrl_gpfifo :: "NvU64 \<Rightarrow> ('f, 'g) uvm_channel \<Rightarrow> ('f, 'g) uvm_channel" where
  "write_ctrl_gpfifo ctrl_fifo_entry_value ch =
     (let put = cpu_put ch;
          new_cpu_put = (put + 1) mod num_gpfifo_entries ch;
          entry = zero_entry\<lparr>entry_type := UVM_GPFIFO_ENTRY_TYPE_CONTROL, control_value := ctrl_fifo_entry_value,
                    tracking_semaphore_value := queued_value (tracking_sem ch) + 1\<rparr>;
          ch = ch\<lparr>gpfifo_entries := (gpfifo_entries ch)[put := entry], current_gpfifo_count := current_gpfifo_count ch - 1\<rparr>;
          ch = submit_ctrl_gpfifo entry new_cpu_put ch
      in ch\<lparr>cpu_put := new_cpu_put\<rparr>)"

section \<open>Rings\<close>

text \<open>The slots from \<open>g\<close> to \<open>p\<close> of a ring of \<open>n\<close> slots.\<close>

definition ring_count :: "nat \<Rightarrow> nat \<Rightarrow> nat \<Rightarrow> nat" where "ring_count n g p = (if p \<ge> g then p - g else n - g + p)"

definition ring_slots :: "nat \<Rightarrow> nat \<Rightarrow> nat \<Rightarrow> nat list" where "ring_slots n g p = map (\<lambda>j. (g + j) mod n) [0..<ring_count n g p]"

lemma length_ring_slots [simp]: "length (ring_slots n g p) = ring_count n g p" by (simp add: ring_slots_def)

lemma ring_count_less: "g < n \<Longrightarrow> p < n \<Longrightarrow> ring_count n g p < n" by (auto simp: ring_count_def)

lemma ring_count_0 [simp]: "g < n \<Longrightarrow> p < n \<Longrightarrow> ring_count n g p = 0 \<longleftrightarrow> g = p" by (auto simp: ring_count_def)

lemma ring_end: "g < n \<Longrightarrow> p < n \<Longrightarrow> (g + ring_count n g p) mod n = p" by (auto simp: ring_count_def)

lemma ring_count_put:
  assumes "g < n" "p < n" "ring_count n g p < n - 1"
  shows "ring_count n g ((p + 1) mod n) = Suc (ring_count n g p)"
  using assms by (cases "Suc p = n") (auto simp: ring_count_def)

lemma ring_slots_put:
  assumes "g < n" "p < n" "ring_count n g p < n - 1"
  shows "ring_slots n g ((p + 1) mod n) = ring_slots n g p @ [p]"
  using ring_count_put[OF assms] ring_end[OF assms(1,2)] by (simp add: ring_slots_def)

lemma ring_count_get:
  assumes "g < n" "p < n" "g \<noteq> p"
  shows "Suc (ring_count n ((g + 1) mod n) p) = ring_count n g p"
  using assms by (cases "Suc g = n") (auto simp: ring_count_def)

lemma ring_slots_get:
  assumes "g < n" "p < n" "g \<noteq> p"
  shows "ring_slots n g p = g # ring_slots n ((g + 1) mod n) p"
proof -
  have "(g + Suc j) mod n = ((g + 1) mod n + j) mod n" for j by (simp add: mod_add_left_eq)
  then show ?thesis unfolding ring_slots_def ring_count_get[OF assms, symmetric] using assms(1)
    by (simp add: upt_conv_Cons map_Suc_upt[symmetric] del: upt_Suc)
qed

lemma ring_slots_less: "i \<in> set (ring_slots n g p) \<Longrightarrow> g < n \<Longrightarrow> i < n" by (auto simp: ring_slots_def)

lemma ring_slot: "(g :: nat) < n \<Longrightarrow> j < n \<Longrightarrow> (g + j) mod n = (if g + j < n then g + j else g + j - n)"
  by (simp add: le_mod_geq)

lemma mod_add_inj: "(g :: nat) < n \<Longrightarrow> j < n \<Longrightarrow> k < n \<Longrightarrow> (g + j) mod n = (g + k) mod n \<Longrightarrow> j = k"
  using ring_slot[of g n j] ring_slot[of g n k] by (simp split: if_splits)

lemma distinct_ring_slots: assumes "g < n" "p < n" shows "distinct (ring_slots n g p)"
proof -
  have "inj_on (\<lambda>j. (g + j) mod n) {0..<ring_count n g p}"
    using ring_count_less[OF assms] by (intro inj_onI) (rule mod_add_inj[OF assms(1)]; simp)
  then show ?thesis by (simp add: ring_slots_def distinct_map)
qed

lemma ring_slots_end: assumes "g < n" "p < n" shows "p \<notin> set (ring_slots n g p)"
proof
  assume "p \<in> set (ring_slots n g p)"
  then obtain j where j: "j < ring_count n g p" "(g + j) mod n = p" by (auto simp: ring_slots_def)
  then show False using mod_add_inj[OF assms(1), of j "ring_count n g p"] ring_end[OF assms] ring_count_less[OF assms] by simp
qed

section \<open>The entries of a channel\<close>

text \<open>The pending entries with their slots, in the order they were submitted, and those of them that belong to pushes.\<close>

definition pending_entries :: "('f, 'g) uvm_channel \<Rightarrow> (nat \<times> gpfifo_entry) list" where
  "pending_entries ch = map (\<lambda>i. (i, gpfifo_entries ch ! i)) (ring_slots (num_gpfifo_entries ch) (gpu_get ch) (cpu_put ch))"

definition normal :: "nat \<times> gpfifo_entry \<Rightarrow> bool" where "normal x \<longleftrightarrow> entry_type (snd x) = UVM_GPFIFO_ENTRY_TYPE_NORMAL"

definition pending_pushes :: "('f, 'g) uvm_channel \<Rightarrow> (nat \<times> gpfifo_entry) list" where "pending_pushes ch = filter normal (pending_entries ch)"

abbreviation entry_value :: "nat \<times> gpfifo_entry \<Rightarrow> nat" where "entry_value x \<equiv> unat (tracking_semaphore_value (snd x))"

definition ring_ok :: "('f, 'g) uvm_channel \<Rightarrow> bool" where
  "ring_ok ch \<longleftrightarrow> num_gpfifo_entries ch \<le> UVM_CHANNEL_NUM_GPFIFO_ENTRIES_MAX \<and> cpu_put ch < num_gpfifo_entries ch \<and> gpu_get ch < num_gpfifo_entries ch \<and>
     length (pending_entries ch) + current_gpfifo_count ch < num_gpfifo_entries ch"

lemma ring_okD:
  assumes "ring_ok ch"
  shows "cpu_put ch < num_gpfifo_entries ch" "gpu_get ch < num_gpfifo_entries ch" "length (pending_entries ch) + current_gpfifo_count ch < num_gpfifo_entries ch"
    "num_gpfifo_entries ch \<le> UVM_CHANNEL_NUM_GPFIFO_ENTRIES_MAX"
  using assms by (auto simp: ring_ok_def)

lemma length_pending: "length (pending_entries ch) = ring_count (num_gpfifo_entries ch) (gpu_get ch) (cpu_put ch)" by (simp add: pending_entries_def)

lemma pending_gpfifo_count_eq: "pending_gpfifo_count ch = length (pending_entries ch)"
  by (simp add: pending_gpfifo_count_def length_pending ring_count_def)

lemma available_eq:
  "ring_ok ch \<Longrightarrow> channel_get_available_gpfifo_entries ch = num_gpfifo_entries ch - 1 - (length (pending_entries ch) + current_gpfifo_count ch)"
  by (auto simp: channel_get_available_gpfifo_entries_def Let_def length_pending ring_count_def ring_ok_def UVM_CHANNEL_NUM_GPFIFO_ENTRIES_MAX_def)

lemma pending_empty: "ring_ok ch \<Longrightarrow> pending_entries ch = [] \<longleftrightarrow> gpu_get ch = cpu_put ch"
  using ring_okD(1,2)[of ch] by (simp add: length_pending flip: length_0_conv)

lemma pending_slot:
  assumes "(i, e) \<in> set (pending_entries ch)" "ring_ok ch"
  shows "i < num_gpfifo_entries ch" "e = gpfifo_entries ch ! i" "i \<noteq> cpu_put ch"
proof -
  have i: "i \<in> set (ring_slots (num_gpfifo_entries ch) (gpu_get ch) (cpu_put ch))" and e: "e = gpfifo_entries ch ! i" using assms(1) by (auto simp: pending_entries_def)
  note r = ring_okD(2,1)[OF assms(2)]
  show "i < num_gpfifo_entries ch" "e = gpfifo_entries ch ! i" "i \<noteq> cpu_put ch" using ring_slots_less[OF i r(1)] ring_slots_end[OF r] i e by auto
qed

lemma pending_distinct: "ring_ok ch \<Longrightarrow> distinct (map fst (pending_entries ch))"
  using distinct_ring_slots[of "gpu_get ch" "num_gpfifo_entries ch" "cpu_put ch"] by (simp add: pending_entries_def ring_ok_def comp_def)

text \<open>Appending an entry and taking the first one.\<close>

lemma pending_put:
  assumes "ring_ok ch" "0 < current_gpfifo_count ch"
    and "gpfifo_entries ch' = (gpfifo_entries ch)[cpu_put ch := e]" "cpu_put ch' = (cpu_put ch + 1) mod num_gpfifo_entries ch" "gpu_get ch' = gpu_get ch"
  shows "pending_entries ch' = pending_entries ch @ [(cpu_put ch, e)]"
proof -
  let ?n = "num_gpfifo_entries ch"
  note r = ring_okD[OF assms(1)]
  have "ring_count ?n (gpu_get ch) (cpu_put ch) < ?n - 1" using r(3) assms(2) by (simp add: length_pending)
  note s = ring_slots_put[OF r(2,1) this]
  have "gpfifo_entries ch' ! i = gpfifo_entries ch ! i" if "i \<in> set (ring_slots ?n (gpu_get ch) (cpu_put ch))" for i
    using ring_slots_end[OF r(2,1)] that assms(3) by (metis nth_list_update_neq)
  then show ?thesis using r(1) by (simp add: pending_entries_def assms(3-5) s[simplified])
qed

lemma pending_get:
  assumes "ring_ok ch" "gpu_get ch \<noteq> cpu_put ch"
    and "gpfifo_entries ch' = gpfifo_entries ch" "cpu_put ch' = cpu_put ch" "gpu_get ch' = (gpu_get ch + 1) mod num_gpfifo_entries ch"
  shows "pending_entries ch = (gpu_get ch, gpfifo_entries ch ! gpu_get ch) # pending_entries ch'"
  using ring_slots_get[OF ring_okD(2,1)[OF assms(1)] assms(2)] by (simp add: pending_entries_def assms(3-5))

text \<open>
  The pending pushes have consecutive tracking values, the last one the queued value, and all pushes before them are known to be completed. So the value the GPU has reached is less than
  a ring ahead of the completed value, and the 32 bits of the payload determine it.
\<close>

definition values_ok :: "('f, 'g) uvm_channel \<Rightarrow> bool" where
  "values_ok ch \<longleftrightarrow>
     (let Q = unat (queued_value (tracking_sem ch)); ps = pending_pushes ch
      in length ps \<le> Q \<and> map entry_value ps = [Suc Q - length ps..<Suc Q] \<and> Q - length ps \<le> unat (completed_value (tracking_sem ch)))"

definition semaphore_reads :: "'g semaphore_memory \<Rightarrow> 'g tracking_semaphore \<Rightarrow> NvU64 \<Rightarrow> bool" where
  "semaphore_reads mem ts v =
     (case mem of (g, pool, enc_update) \<Rightarrow>
        uvm_gpu_semaphore_get_payload g pool (if gpu_semaphore_pool_is_secure g pool then enc_update (semaphore ts) else semaphore ts) = ucast v)"

lemma update_completed_value:
  assumes ok: "ring_ok ch" "values_ok ch" and mem: "semaphore_reads mem (tracking_sem ch) v"
    and v: "completed_value (tracking_sem ch) \<le> v" "v \<le> queued_value (tracking_sem ch)"
  shows "\<exists>sem. uvm_channel_update_completed_value mem ch = (v, ch\<lparr>tracking_sem := (tracking_sem ch)\<lparr>semaphore := sem, completed_value := v\<rparr>\<rparr>)"
proof -
  obtain g pool enc where m: "mem = (g, pool, enc)" by (cases mem) auto
  have "length (pending_pushes ch) < 2 ^ 32"
  proof -
    have "length (pending_pushes ch) \<le> length (pending_entries ch)" by (simp add: pending_pushes_def)
    also have "\<dots> < 2 ^ 32" using ring_okD(3,4)[OF ok(1)] by (simp add: UVM_CHANNEL_NUM_GPFIFO_ENTRIES_MAX_def)
    finally show ?thesis .
  qed
  then have near: "unat v - unat (completed_value (tracking_sem ch)) < 2 ^ 32"
    using ok(2) v by (auto simp: values_ok_def Let_def word_le_nat_alt)
  show ?thesis
    by (rule exI[of _ "if gpu_semaphore_pool_is_secure g pool then enc (semaphore (tracking_sem ch)) else semaphore (tracking_sem ch)"])
      (use widen_payload_exact[OF refl v(1) near] mem in
        \<open>cases "gpu_semaphore_pool_is_secure g pool";
          simp add: m uvm_channel_update_completed_value_def uvm_gpu_tracking_semaphore_update_completed_value_def update_completed_value_locked_def semaphore_reads_def Let_def\<close>)
qed

section \<open>Completing entries\<close>

lemma complete_entries_Suc:
  fixes ch :: "('f, 'g) uvm_channel"
  assumes "complete_entries c mode v (Suc m) ch pb = (events, ch', pb')"
  obtains (stop) "gpu_get ch = cpu_put ch \<or> mode = UVM_CHANNEL_UPDATE_MODE_COMPLETED \<and> tracking_semaphore_value (gpfifo_entries ch ! gpu_get ch) > v" "ch' = ch" "pb' = pb"
  | (step) infos1 pb1 later ch2 where
      "gpu_get ch \<noteq> cpu_put ch" "\<not> (mode = UVM_CHANNEL_UPDATE_MODE_COMPLETED \<and> tracking_semaphore_value (gpfifo_entries ch ! gpu_get ch) > v)"
      "ch2 = ch\<lparr>push_infos := infos1,
         available_push_infos := available_push_infos ch @ (if normal (gpu_get ch, gpfifo_entries ch ! gpu_get ch) then [entry_push_info (gpfifo_entries ch ! gpu_get ch)] else []),
         gpu_get := (gpu_get ch + 1) mod num_gpfifo_entries ch\<rparr>"
      "complete_entries c mode v m ch2 pb1 = (later, ch', pb')"
      "if normal (gpu_get ch, gpfifo_entries ch ! gpu_get ch)
       then \<exists>(info :: 'f push_info) ev info'. uvm_pushbuffer_mark_completed info (pb_entry c (gpu_get ch) (gpfifo_entries ch ! gpu_get ch)) pb = (ev, info', pb1) else pb1 = pb"
proof (cases "gpu_get ch = cpu_put ch \<or> mode = UVM_CHANNEL_UPDATE_MODE_COMPLETED \<and> tracking_semaphore_value (gpfifo_entries ch ! gpu_get ch) > v")
  case True
  then show ?thesis using assms by (intro that(1)) (auto simp: Let_def split: if_splits)
next
  case False
  let ?e = "gpfifo_entries ch ! gpu_get ch"
  show ?thesis
  proof (cases "normal (gpu_get ch, ?e)")
    case True
    obtain ev info' pb1 where m: "uvm_pushbuffer_mark_completed (push_infos ch (entry_push_info ?e)) (pb_entry c (gpu_get ch) ?e) pb = (ev, info', pb1)" by (metis prod_cases3)
    obtain later where L: "complete_entries c mode v m (ch\<lparr>push_infos := (push_infos ch)(entry_push_info ?e := info'),
         available_push_infos := available_push_infos ch @ (if normal (gpu_get ch, ?e) then [entry_push_info ?e] else []),
         gpu_get := (gpu_get ch + 1) mod num_gpfifo_entries ch\<rparr>) pb1 = (later, ch', pb')"
      using assms False True m by (auto simp: normal_def Let_def split: prod.splits)
    show ?thesis by (rule that(2)[OF _ _ refl L]) (use False True m in auto)
  next
    case n: False
    obtain later where L: "complete_entries c mode v m (ch\<lparr>push_infos := push_infos ch,
         available_push_infos := available_push_infos ch @ (if normal (gpu_get ch, ?e) then [entry_push_info ?e] else []),
         gpu_get := (gpu_get ch + 1) mod num_gpfifo_entries ch\<rparr>) pb = (later, ch', pb')"
      using assms False n by (auto simp: normal_def Let_def split: prod.splits)
    show ?thesis by (rule that(2)[OF _ _ refl L]) (use False n in auto)
  qed
qed

lemma complete_entries_next:
  assumes "ring_ok ch" "gpu_get ch \<noteq> cpu_put ch"
    and "ch2 = ch\<lparr>push_infos := infos1, available_push_infos := avail, gpu_get := (gpu_get ch + 1) mod num_gpfifo_entries ch\<rparr>"
  shows "pending_entries ch = (gpu_get ch, gpfifo_entries ch ! gpu_get ch) # pending_entries ch2" "ring_ok ch2"
proof -
  show p: "pending_entries ch = (gpu_get ch, gpfifo_entries ch ! gpu_get ch) # pending_entries ch2" by (rule pending_get[OF assms(1,2)]) (simp_all add: assms(3))
  have "(gpu_get ch + 1) mod num_gpfifo_entries ch < num_gpfifo_entries ch" using ring_okD(2)[OF assms(1)] by (intro mod_less_divisor) auto
  then show "ring_ok ch2" using assms(1) p by (auto simp: ring_ok_def assms(3))
qed

definition due :: "channel_update_mode \<Rightarrow> NvU64 \<Rightarrow> (nat \<times> gpfifo_entry) list \<Rightarrow> (nat \<times> gpfifo_entry) list" where
  "due mode v xs = (if mode = UVM_CHANNEL_UPDATE_MODE_COMPLETED then takeWhile (\<lambda>x. tracking_semaphore_value (snd x) \<le> v) xs else xs)"

lemma complete_entries_channel:
  assumes "ring_ok ch" "complete_entries c mode v m ch pb = (events, ch', pb')"
  shows "\<exists>k infos'. k = min m (length (due mode v (pending_entries ch))) \<and> pending_entries ch' = drop k (pending_entries ch) \<and> ring_ok ch' \<and>
    ch' = ch\<lparr>push_infos := infos', available_push_infos := available_push_infos ch @ map (entry_push_info \<circ> snd) (filter normal (take k (pending_entries ch))), gpu_get := gpu_get ch'\<rparr>"
  using assms
proof (induction m arbitrary: ch pb events)
  case 0
  then show ?case by (auto intro: exI[of _ "push_infos ch"])
next
  case (Suc m)
  from Suc.prems(2) show ?case
  proof (cases rule: complete_entries_Suc)
    case stop
    have "gpu_get ch = cpu_put ch \<or> (\<exists>xs. pending_entries ch = (gpu_get ch, gpfifo_entries ch ! gpu_get ch) # xs)"
      using complete_entries_next(1)[OF Suc.prems(1)] by blast
    then have "due mode v (pending_entries ch) = []" using stop(1) pending_empty[OF Suc.prems(1)] by (auto simp: due_def)
    then show ?thesis using Suc.prems(1) stop(2) by (auto intro: exI[of _ "push_infos ch"])
  next
    case (step infos1 pb1 later ch2)
    note N = complete_entries_next[OF Suc.prems(1) step(1,3)]
    from Suc.IH[OF N(2) step(4)] obtain k infos2 where IH:
      "k = min m (length (due mode v (pending_entries ch2)))" "pending_entries ch' = drop k (pending_entries ch2)" "ring_ok ch'"
      "ch' = ch2\<lparr>push_infos := infos2, available_push_infos := available_push_infos ch2 @ map (entry_push_info \<circ> snd) (filter normal (take k (pending_entries ch2))), gpu_get := gpu_get ch'\<rparr>"
      by blast
    have "ch' = ch\<lparr>push_infos := infos2, available_push_infos := available_push_infos ch @ map (entry_push_info \<circ> snd) (filter normal (take (Suc k) (pending_entries ch))), gpu_get := gpu_get ch'\<rparr>"
      by (subst IH(4)) (simp add: step(3) N(1))
    moreover have "Suc k = min (Suc m) (length (due mode v (pending_entries ch)))" using step(2) IH(1) by (auto simp: N(1) due_def not_less)
    moreover have "pending_entries ch' = drop (Suc k) (pending_entries ch)" using IH(2) N(1) by simp
    ultimately show ?thesis using IH(3) by blast
  qed
qed

text \<open>What completing entries leaves of the pushbuffer: the entries that are not completed, and the places of the pushes going on.\<close>

definition in_pushbuffer :: "('e, 'q) pushbuffer \<Rightarrow> 'e gpfifo \<Rightarrow> bool" where
  "in_pushbuffer pb e \<longleftrightarrow> gpfifo_to_chunk e < UVM_PUSHBUFFER_CHUNKS \<and> e \<in> set (pending_gpfifos (chunks pb (gpfifo_to_chunk e)))"

definition pushbuffer_less :: "'e gpfifo set \<Rightarrow> ('e, 'q) pushbuffer \<Rightarrow> ('e, 'q) pushbuffer \<Rightarrow> bool" where
  "pushbuffer_less gone pb pb' \<longleftrightarrow> pushbuffer_ok pb' \<and> ongoing pb' = ongoing pb \<and> (\<forall>k\<in>ongoing pb. next_push_start (chunks pb' k) = next_push_start (chunks pb k)) \<and>
     (\<forall>e. in_pushbuffer pb e \<and> e \<notin> gone \<longrightarrow> in_pushbuffer pb' e)"

lemma mark_completed_less:
  assumes ok: "pushbuffer_ok pb" and gp: "in_pushbuffer pb gp" and run: "uvm_pushbuffer_mark_completed info gp pb = (ev, info', pb')"
  shows "pushbuffer_less {gp} pb pb'"
proof -
  let ?k = "gpfifo_to_chunk gp"
  have k: "?k < UVM_PUSHBUFFER_CHUNKS" "gp \<in> set (pending_gpfifos (chunks pb ?k))" using gp by (auto simp: in_pushbuffer_def)
  have pb': "pb' = complete_gpfifo gp pb" using run by (auto simp: uvm_pushbuffer_mark_completed_def split: prod.splits)
  note C = complete_gpfifo_ok[OF ok refl k, folded pb']
  have cur: "current_push (chunks pb' j) = current_push (chunks pb j)" for j using C by (cases "j = ?k") auto
  then have on: "ongoing pb' = ongoing pb" by (simp add: ongoing_def)
  have "next_push_start (chunks pb' j) = next_push_start (chunks pb j)" if "j \<in> ongoing pb" for j
  proof (cases "j = ?k")
    case True
    then show ?thesis using that by (auto simp: pb' complete_gpfifo_def Let_def ongoing_def)
  qed (use C in simp)
  moreover have "in_pushbuffer pb' e" if "in_pushbuffer pb e" "e \<noteq> gp" for e
    using that C by (cases "gpfifo_to_chunk e = ?k") (auto simp: in_pushbuffer_def)
  ultimately show ?thesis using C(1) on by (simp add: pushbuffer_less_def)
qed

lemma pushbuffer_less_trans: "pushbuffer_less A pb pb1 \<Longrightarrow> pushbuffer_less B pb1 pb2 \<Longrightarrow> pushbuffer_less (A \<union> B) pb pb2"
  by (simp add: pushbuffer_less_def)

lemma pushbuffer_less_refl: "pushbuffer_ok pb \<Longrightarrow> pushbuffer_less {} pb pb" by (simp add: pushbuffer_less_def)

lemma pushbuffer_less_mono: "pushbuffer_less A pb pb' \<Longrightarrow> A \<subseteq> B \<Longrightarrow> pushbuffer_less B pb pb'" by (auto simp: pushbuffer_less_def)

lemma complete_entries_pushbuffer:
  fixes ch :: "('f, 'g) uvm_channel"
  assumes "ring_ok ch" "pushbuffer_ok pb" "complete_entries c mode v m ch pb = (events, ch', pb')"
    and "\<And>i e. (i, e) \<in> set (pending_pushes ch) \<Longrightarrow> in_pushbuffer pb (pb_entry c i e)"
  shows "pushbuffer_less {pb_entry c i e | i e. (i, e) \<in> set (pending_pushes ch) - set (pending_pushes ch')} pb pb'"
  using assms
proof (induction m arbitrary: ch pb events)
  case 0
  then show ?case by (simp add: pushbuffer_less_refl)
next
  case (Suc m)
  from Suc.prems(3) show ?case
  proof (cases rule: complete_entries_Suc)
    case stop
    then show ?thesis using Suc.prems(2) by (simp add: pushbuffer_less_refl)
  next
    case (step infos1 pb1 later ch2)
    let ?x = "(gpu_get ch, gpfifo_entries ch ! gpu_get ch)"
    note N = complete_entries_next[OF Suc.prems(1) step(1,3)]
    have new: "i \<noteq> gpu_get ch" if "(i, e) \<in> set (pending_entries ch2)" for i e using pending_distinct[OF Suc.prems(1)] that by (auto simp: N(1) image_iff)
    have pp: "pending_pushes ch = (if normal ?x then [?x] else []) @ pending_pushes ch2" by (simp add: pending_pushes_def N(1))
    have one: "pushbuffer_less {pb_entry c i e | i e. (i, e) = ?x \<and> normal ?x} pb pb1"
    proof (cases "normal ?x")
      case True
      then obtain info :: "'f push_info" and ev info' where "uvm_pushbuffer_mark_completed info (pb_entry c (gpu_get ch) (gpfifo_entries ch ! gpu_get ch)) pb = (ev, info', pb1)" using step(5) by auto
      then show ?thesis using mark_completed_less[OF Suc.prems(2)] Suc.prems(4)[of "fst ?x" "snd ?x"] True by (simp add: pp)
    next
      case False
      then show ?thesis using step(5) Suc.prems(2) by (simp add: pushbuffer_less_refl)
    qed
    have "pushbuffer_ok pb1" using one by (simp add: pushbuffer_less_def)
    moreover have "in_pushbuffer pb1 (pb_entry c i e)" if "(i, e) \<in> set (pending_pushes ch2)" for i e
    proof -
      have "i \<noteq> gpu_get ch" using new that by (auto simp: pending_pushes_def)
      then show ?thesis using one Suc.prems(4)[of i e] that by (auto simp: pushbuffer_less_def pp pb_entry_def)
    qed
    ultimately have rest: "pushbuffer_less {pb_entry c i e | i e. (i, e) \<in> set (pending_pushes ch2) - set (pending_pushes ch')} pb1 pb'"
      by (intro Suc.IH[OF N(2) _ step(4)])
    have "set (pending_entries ch') \<subseteq> set (pending_entries ch2)" using complete_entries_channel[OF N(2) step(4)] by (auto dest: in_set_dropD)
    then have "?x \<notin> set (pending_pushes ch')" using new by (auto simp: pending_pushes_def)
    then show ?thesis by (intro pushbuffer_less_mono[OF pushbuffer_less_trans[OF one rest]]) (auto simp: pp)
  qed
qed

end
