(* ===== verification/Channel_Runs.thy ===== *)
theory Channel_Runs
  imports Channel_Gpfifo "HOL-Library.Multiset"
begin

text \<open>
  Runs of any number of channels that share a pushbuffer: the invariant of the channels, the step relation of reserving, pushing, control entries, progress and the work of the GPU, and the
  properties of the reachable states.
\<close>

unbundle bit_operations_syntax

section \<open>Channels and their pushbuffer\<close>

text \<open>
  The channels that share a pushbuffer, the value the GPU has reached on each, and the pushes going on: a push that has a chunk of the pushbuffer, then also a push information of its
  channel.
\<close>

record ('c, 'f, 'g, 'q) system =
  sys_chans :: "'c \<Rightarrow> ('f, 'g) uvm_channel"
  sys_pb :: "('c \<times> nat, 'q) pushbuffer"
  sys_reached :: "'c \<Rightarrow> NvU64"
  sys_pushes :: "('c \<times> nat option \<times> 'q push) list"

definition pushes_on :: "'c \<Rightarrow> ('c \<times> nat option \<times> 'q push) list \<Rightarrow> nat" where "pushes_on c ps = length (filter (\<lambda>x. fst x = c) ps)"

definition held_infos :: "'c \<Rightarrow> ('c \<times> nat option \<times> 'q push) list \<Rightarrow> nat list" where
  "held_infos c ps = concat (map (\<lambda>(d, info, push). case info of None \<Rightarrow> [] | Some i \<Rightarrow> if d = c then [i] else []) ps)"

definition hw_of :: "NvU64 \<Rightarrow> gpfifo_entry \<Rightarrow> hw_entry" where
  "hw_of base_va e = (if entry_type e = UVM_GPFIFO_ENTRY_TYPE_NORMAL then Hw_push (base_va + of_nat (entry_offset e)) (entry_size e) else Hw_control (control_value e))"

text \<open>Every push information is available, of a pending push or of a push going on; the GPFIFO of the hardware has the pending entries.\<close>

definition infos_ok :: "nat list \<Rightarrow> ('f, 'g) uvm_channel \<Rightarrow> bool" where
  "infos_ok held ch \<longleftrightarrow> mset (available_push_infos ch) + mset (map (entry_push_info \<circ> snd) (pending_pushes ch)) + mset held = mset [0..<num_gpfifo_entries ch]"

definition hw_ok :: "NvU64 \<Rightarrow> ('f, 'g) uvm_channel \<Rightarrow> bool" where
  "hw_ok base_va ch \<longleftrightarrow> is_proxy ch \<or> hw_gpu_put ch = cpu_put ch \<and> (\<forall>x\<in>set (pending_entries ch). hw_gpfifo ch (fst x) = Some (hw_of base_va (snd x)))"

definition channel_ok :: "NvU64 \<Rightarrow> NvU64 \<Rightarrow> nat \<Rightarrow> nat list \<Rightarrow> ('f, 'g) uvm_channel \<Rightarrow> bool" where
  "channel_ok base_va v n held ch \<longleftrightarrow> ring_ok ch \<and> values_ok ch \<and> completed_value (tracking_sem ch) \<le> v \<and> v \<le> queued_value (tracking_sem ch) \<and>
     n \<le> current_gpfifo_count ch \<and> infos_ok held ch \<and> hw_ok base_va ch"

definition push_place :: "('e, 'q) pushbuffer \<Rightarrow> 'q push \<Rightarrow> bool" where
  "push_place pb push \<longleftrightarrow> channel_kind push = Ordinary \<and> (\<exists>k\<in>ongoing pb. push_begin push = chunk_get_offset k + next_push_start (chunks pb k))"

definition channels_system_ok :: "NvU64 \<Rightarrow> ('c, 'f, 'g, 'q) system \<Rightarrow> bool" where
  "channels_system_ok base_va s \<longleftrightarrow>
     (\<forall>c. channel_ok base_va (sys_reached s c) (pushes_on c (sys_pushes s)) (held_infos c (sys_pushes s)) (sys_chans s c)) \<and> pushbuffer_ok (sys_pb s) \<and>
     (\<forall>c i e. (i, e) \<in> set (pending_pushes (sys_chans s c)) \<longrightarrow> in_pushbuffer (sys_pb s) (pb_entry c i e)) \<and>
     (\<forall>x\<in>set (sys_pushes s). push_place (sys_pb s) (snd (snd x))) \<and> distinct (map (push_begin \<circ> snd \<circ> snd) (sys_pushes s))"

text \<open>
  Each step is one critical section. A push starts with a chunk of the pushbuffer and takes a push information, on a channel with a reserved entry; a control entry takes a
  reserved entry; and the GPU reaches some value that was queued. The 64 bit tracking value does not wrap.
\<close>

inductive channel_step :: "NvU64 \<Rightarrow> ('c, 'f, 'g, 'q) system \<Rightarrow> ('c, 'f, 'g, 'q) system \<Rightarrow> bool" for base_va where
  Reserve: "try_claim_channel n (sys_chans s c) = (True, ch) \<Longrightarrow> channel_step base_va s (s\<lparr>sys_chans := (sys_chans s)(c := ch)\<rparr>)"
| Release: "n + pushes_on c (sys_pushes s) \<le> current_gpfifo_count (sys_chans s c) \<Longrightarrow>
    channel_step base_va s (s\<lparr>sys_chans := (sys_chans s)(c := uvm_channel_release n (sys_chans s c))\<rparr>)"
| Claim_chunk: "pushes_on c (sys_pushes s) < current_gpfifo_count (sys_chans s c) \<Longrightarrow> channel_kind push = Ordinary \<Longrightarrow> 0 < concurrent_pushes_sema (sys_pb s) \<Longrightarrow>
    try_claim_chunk (push_id push) ((sys_pb s)\<lparr>concurrent_pushes_sema := concurrent_pushes_sema (sys_pb s) - 1\<rparr>) = (Some k, pb) \<Longrightarrow>
    channel_step base_va s
      (s\<lparr>sys_pb := pb, sys_pushes := (c, None, push\<lparr>push_begin := chunk_get_offset k + next_push_start (chunks pb k)\<rparr>) # sys_pushes s\<rparr>)"
| Take_info: "sys_pushes s = ps @ (c, None, push) # qs \<Longrightarrow> channel_get_available_push_info_index (sys_chans s c) = Some (i, ch) \<Longrightarrow>
    channel_step base_va s
      (s\<lparr>sys_chans := (sys_chans s)(c := ch\<lparr>push_infos := (push_infos ch)(i := info)\<rparr>), sys_pushes := ps @ (c, Some i, push) # qs\<rparr>)"
| End_push: "sys_pushes s = ps @ (c, Some i, push) # qs \<Longrightarrow> 0 < push_size \<Longrightarrow> push_size \<le> UVM_MAX_PUSH_SIZE \<Longrightarrow>
    unat (queued_value (tracking_sem (sys_chans s c))) + 1 < 2 ^ 64 \<Longrightarrow>
    uvm_channel_end_push c base_va push i push_size (sys_chans s c) (sys_pb s) = (v, ch, pb) \<Longrightarrow>
    channel_step base_va s (s\<lparr>sys_chans := (sys_chans s)(c := ch), sys_pb := pb, sys_pushes := ps @ qs\<rparr>)"
| Control: "pushes_on c (sys_pushes s) < current_gpfifo_count (sys_chans s c) \<Longrightarrow> \<not> is_proxy (sys_chans s c) \<Longrightarrow>
    channel_step base_va s (s\<lparr>sys_chans := (sys_chans s)(c := write_ctrl_gpfifo x (sys_chans s c))\<rparr>)"
| Progress: "semaphore_reads mem (tracking_sem (sys_chans s c)) (sys_reached s c) \<Longrightarrow>
    uvm_channel_update_progress_with_max c m UVM_CHANNEL_UPDATE_MODE_COMPLETED mem (sys_chans s c) (sys_pb s) = (pending, events, ch, pb) \<Longrightarrow>
    channel_step base_va s (s\<lparr>sys_chans := (sys_chans s)(c := ch), sys_pb := pb\<rparr>)"
| Gpu: "sys_reached s c \<le> v \<Longrightarrow> v \<le> queued_value (tracking_sem (sys_chans s c)) \<Longrightarrow> channel_step base_va s (s\<lparr>sys_reached := (sys_reached s)(c := v)\<rparr>)"

text \<open>At the start every channel is new, and the pushbuffer is idle.\<close>

definition initial_system :: "('c \<Rightarrow> bool) \<Rightarrow> ('c \<Rightarrow> nat) \<Rightarrow> ('c \<Rightarrow> 'g gpu_semaphore) \<Rightarrow> ('c, 'f, 'g, 'q) system" where
  "initial_system proxy n sem = \<lparr>sys_chans = (\<lambda>c. new_channel (proxy c) (conf_num_gpfifo_entries (n c)) \<lparr>semaphore = sem c, completed_value = 0, queued_value = 0\<rparr>),
     sys_pb = initial_pushbuffer, sys_reached = (\<lambda>_. 0), sys_pushes = []\<rparr>"

inductive channels_reachable :: "NvU64 \<Rightarrow> ('c, 'f, 'g, 'q) system \<Rightarrow> bool" for base_va where
  Start: "channels_reachable base_va (initial_system proxy n sem)"
| Step: "channels_reachable base_va s \<Longrightarrow> channel_step base_va s s' \<Longrightarrow> channels_reachable base_va s'"

section \<open>The invariant of the channels\<close>

lemma pending_cong:
  "gpfifo_entries ch' = gpfifo_entries ch \<Longrightarrow> cpu_put ch' = cpu_put ch \<Longrightarrow> gpu_get ch' = gpu_get ch \<Longrightarrow> pending_entries ch' = pending_entries ch"
  by (simp add: pending_entries_def)

lemma values_ok_cong: "pending_entries ch' = pending_entries ch \<Longrightarrow> tracking_sem ch' = tracking_sem ch \<Longrightarrow> values_ok ch' = values_ok ch"
  by (simp only: values_ok_def pending_pushes_def)

lemma hw_ok_cong:
  "pending_entries ch' = pending_entries ch \<Longrightarrow> hw_gpfifo ch' = hw_gpfifo ch \<Longrightarrow> hw_gpu_put ch' = hw_gpu_put ch \<Longrightarrow> cpu_put ch' = cpu_put ch \<Longrightarrow> is_proxy ch' = is_proxy ch \<Longrightarrow>
   hw_ok base_va ch' = hw_ok base_va ch"
  by (simp only: hw_ok_def)

lemma pushes_on_simps [simp]: "pushes_on c [] = 0" "pushes_on c (x # ps) = (if fst x = c then 1 else 0) + pushes_on c ps" "pushes_on c (ps @ qs) = pushes_on c ps + pushes_on c qs"
  by (simp_all add: pushes_on_def)

lemma held_infos_simps [simp]: "held_infos c [] = []" "held_infos c ((d, None, p) # ps) = held_infos c ps"
  "held_infos c ((d, Some i, p) # ps) = (if d = c then [i] else []) @ held_infos c ps" "held_infos c (ps @ qs) = held_infos c ps @ held_infos c qs"
  by (simp_all add: held_infos_def)

lemma initial_num: "0 < conf_num_gpfifo_entries n" "1 < conf_num_gpfifo_entries n" "conf_num_gpfifo_entries n \<le> UVM_CHANNEL_NUM_GPFIFO_ENTRIES_MAX"
  by (auto simp: conf_num_gpfifo_entries_def Let_def UVM_CHANNEL_NUM_GPFIFO_ENTRIES_MIN_def UVM_CHANNEL_NUM_GPFIFO_ENTRIES_MAX_def UVM_CHANNEL_NUM_GPFIFO_ENTRIES_DEFAULT_def)

lemma initial_channels_ok: "channels_system_ok base_va (initial_system proxy n sem)"
proof -
  let ?ch = "\<lambda>c. new_channel (proxy c) (conf_num_gpfifo_entries (n c)) \<lparr>semaphore = sem c, completed_value = 0, queued_value = 0\<rparr>"
  have p: "pending_entries (?ch c) = []" for c by (simp add: pending_entries_def new_channel_def ring_slots_def ring_count_def)
  have "channel_ok base_va 0 0 [] (?ch c)" for c
    using initial_num[of "n c"] by (simp add: channel_ok_def ring_ok_def values_ok_def infos_ok_def hw_ok_def pending_pushes_def p) (simp add: new_channel_def)
  then have "\<forall>c. channel_ok base_va 0 0 [] (?ch c)" by blast
  then show ?thesis by (simp add: channels_system_ok_def initial_system_def initial_pushbuffer_ok p pending_pushes_def)
qed

text \<open>A change of one channel.\<close>

lemma channels_system_okD:
  assumes "channels_system_ok base_va s"
  shows "channel_ok base_va (sys_reached s c) (pushes_on c (sys_pushes s)) (held_infos c (sys_pushes s)) (sys_chans s c)" "pushbuffer_ok (sys_pb s)"
    "(i, e) \<in> set (pending_pushes (sys_chans s c)) \<Longrightarrow> in_pushbuffer (sys_pb s) (pb_entry c i e)" "x \<in> set (sys_pushes s) \<Longrightarrow> push_place (sys_pb s) (snd (snd x))"
    "distinct (map (push_begin \<circ> snd \<circ> snd) (sys_pushes s))"
  using assms unfolding channels_system_ok_def by blast+

lemma channel_okD:
  assumes "channel_ok base_va v n held ch"
  shows "ring_ok ch" "values_ok ch" "completed_value (tracking_sem ch) \<le> v" "v \<le> queued_value (tracking_sem ch)" "n \<le> current_gpfifo_count ch" "infos_ok held ch" "hw_ok base_va ch"
  using assms by (auto simp: channel_ok_def)

lemma channels_system_ok_channel:
  assumes "channels_system_ok base_va s" and "channel_ok base_va (sys_reached s c) (pushes_on c (sys_pushes s)) (held_infos c (sys_pushes s)) ch"
    and "set (pending_pushes ch) \<subseteq> set (pending_pushes (sys_chans s c))"
  shows "channels_system_ok base_va (s\<lparr>sys_chans := (sys_chans s)(c := ch)\<rparr>)"
  using assms unfolding channels_system_ok_def by auto

lemma reserve_ok:
  assumes ok: "channel_ok base_va v n held ch" and run: "try_claim_channel m ch = (True, ch')"
  shows "channel_ok base_va v n held ch'" "pending_entries ch' = pending_entries ch"
proof -
  have ch': "ch' = ch\<lparr>current_gpfifo_count := current_gpfifo_count ch + m\<rparr>" "m \<le> channel_get_available_gpfifo_entries ch"
    using run by (auto simp: try_claim_channel_def try_claim_channel_locked_def split: if_splits)
  show p: "pending_entries ch' = pending_entries ch" by (rule pending_cong) (simp_all add: ch')
  note r = channel_okD[OF ok]
  have "length (pending_entries ch) + (current_gpfifo_count ch + m) < num_gpfifo_entries ch" using ch'(2) available_eq[OF r(1)] ring_okD(3)[OF r(1)] by linarith
  then show "channel_ok base_va v n held ch'"
    using r values_ok_cong[OF p] hw_ok_cong[OF p] by (simp add: channel_ok_def ring_ok_def infos_ok_def pending_pushes_def p) (simp add: ch')
qed

lemma release_ok:
  assumes ok: "channel_ok base_va v n held ch" and m: "m + n \<le> current_gpfifo_count ch"
  shows "channel_ok base_va v n held (uvm_channel_release m ch)" "pending_entries (uvm_channel_release m ch) = pending_entries ch"
proof -
  show p: "pending_entries (uvm_channel_release m ch) = pending_entries ch" by (rule pending_cong) (simp_all add: uvm_channel_release_def)
  show "channel_ok base_va v n held (uvm_channel_release m ch)"
    using channel_okD[OF ok] m values_ok_cong[OF p] hw_ok_cong[OF p] by (simp add: channel_ok_def ring_ok_def infos_ok_def pending_pushes_def p) (auto simp: uvm_channel_release_def)
qed

lemma take_info_ok:
  assumes ok: "channel_ok base_va v n held ch" and run: "channel_get_available_push_info_index ch = Some (i, ch')"
  shows "channel_ok base_va v n (i # held) (ch'\<lparr>push_infos := f\<rparr>)" "pending_entries (ch'\<lparr>push_infos := f\<rparr>) = pending_entries ch"
proof -
  obtain rest where a: "available_push_infos ch = i # rest" and ch': "ch' = ch\<lparr>available_push_infos := rest\<rparr>"
    using run by (auto simp: channel_get_available_push_info_index_def split: list.splits)
  show p: "pending_entries (ch'\<lparr>push_infos := f\<rparr>) = pending_entries ch" by (rule pending_cong) (simp_all add: ch')
  show "channel_ok base_va v n (i # held) (ch'\<lparr>push_infos := f\<rparr>)"
    using channel_okD[OF ok] values_ok_cong[OF p] hw_ok_cong[OF p] by (simp add: channel_ok_def ring_ok_def infos_ok_def pending_pushes_def p a) (simp add: ch')
qed

text \<open>Submitting an entry.\<close>

lemma submit_ok:
  assumes ok: "channel_ok base_va v n held ch" and cur: "0 < current_gpfifo_count ch"
    and ch': "gpfifo_entries ch' = (gpfifo_entries ch)[cpu_put ch := e]" "cpu_put ch' = (cpu_put ch + 1) mod num_gpfifo_entries ch" "gpu_get ch' = gpu_get ch"
      "current_gpfifo_count ch' = current_gpfifo_count ch - 1" "is_proxy ch' = is_proxy ch"
    and hw: "is_proxy ch \<or> hw_gpfifo ch' = (hw_gpfifo ch)(cpu_put ch \<mapsto> hw_of base_va e) \<and> hw_gpu_put ch' = cpu_put ch'"
  shows "pending_entries ch' = pending_entries ch @ [(cpu_put ch, e)]" "ring_ok ch'" "hw_ok base_va ch'"
proof -
  note r = channel_okD[OF ok]
  show p: "pending_entries ch' = pending_entries ch @ [(cpu_put ch, e)]" by (rule pending_put[OF r(1) cur ch'(1,2,3)])
  have "(cpu_put ch + 1) mod num_gpfifo_entries ch < num_gpfifo_entries ch" using ring_okD(1)[OF r(1)] by (intro mod_less_divisor) auto
  then show "ring_ok ch'" using r(1) cur p ch' by (auto simp: ring_ok_def)
  show "hw_ok base_va ch'"
  proof (cases "is_proxy ch")
    case False
    have "fst x \<noteq> cpu_put ch" if "x \<in> set (pending_entries ch)" for x using pending_slot(3)[of "fst x" "snd x" ch] that r(1) by simp
    then show ?thesis using hw False r(7) p by (auto simp: hw_ok_def ch')
  qed (simp add: hw_ok_def ch')
qed

lemma values_ok_push:
  assumes "values_ok ch" "pending_pushes ch' = pending_pushes ch @ [x]" "tracking_semaphore_value (snd x) = queued_value (tracking_sem ch) + 1"
    and "tracking_sem ch' = (tracking_sem ch)\<lparr>queued_value := queued_value (tracking_sem ch) + 1\<rparr>" "unat (queued_value (tracking_sem ch)) + 1 < 2 ^ 64"
  shows "values_ok ch'"
proof -
  have u: "unat (queued_value (tracking_sem ch) + 1) = Suc (unat (queued_value (tracking_sem ch)))" using assms(5) by (simp add: unat_word_ariths)
  show ?thesis using assms(1) unfolding values_ok_def assms(2,3,4) by (simp add: Let_def u assms(3))
qed

lemma end_push_ok:
  assumes ok: "channel_ok base_va v n (i # held) ch" and n: "0 < n" and push: "channel_kind push = Ordinary" and wrap: "unat (queued_value (tracking_sem ch)) + 1 < 2 ^ 64"
    and run: "uvm_channel_end_push c base_va push i push_size ch pb = (tv, ch', pb')"
  shows "\<exists>e. pending_entries ch' = pending_entries ch @ [(cpu_put ch, e)] \<and> normal (cpu_put ch, e) \<and> entry_offset e = push_begin push \<and> entry_size e = push_size \<and>
    pb' = uvm_pushbuffer_end_push push (pb_entry c (cpu_put ch) e) pb \<and> channel_ok base_va v (n - 1) held ch'"
proof -
  note r = channel_okD[OF ok]
  let ?Q = "queued_value (tracking_sem ch)"
  define e where "e = (gpfifo_entries ch ! cpu_put ch)\<lparr>tracking_semaphore_value := ?Q + 1, entry_offset := uvm_pushbuffer_get_offset_for_push push, entry_size := push_size,
                    entry_push_info := i, entry_type := UVM_GPFIFO_ENTRY_TYPE_NORMAL\<rparr>"
  have off: "uvm_pushbuffer_get_offset_for_push push = push_begin push" using push by (simp add: uvm_pushbuffer_get_offset_for_push_def)
  have va: "uvm_pushbuffer_get_gpu_va_for_push base_va 0 0 push = base_va + of_nat (push_begin push)" using push by (simp add: uvm_pushbuffer_get_gpu_va_for_push_def off)
  have ch': "gpfifo_entries ch' = (gpfifo_entries ch)[cpu_put ch := e]" "cpu_put ch' = (cpu_put ch + 1) mod num_gpfifo_entries ch" "gpu_get ch' = gpu_get ch"
      "current_gpfifo_count ch' = current_gpfifo_count ch - 1" "is_proxy ch' = is_proxy ch" "tracking_sem ch' = (tracking_sem ch)\<lparr>queued_value := ?Q + 1\<rparr>"
      "available_push_infos ch' = available_push_infos ch" "is_proxy ch \<or> hw_gpfifo ch' = (hw_gpfifo ch)(cpu_put ch \<mapsto> hw_of base_va e) \<and> hw_gpu_put ch' = cpu_put ch'"
      "pb' = uvm_pushbuffer_end_push push (pb_entry c (cpu_put ch) e) pb"
    by (insert run, (cases "is_proxy ch"; auto simp: uvm_channel_end_push_def Let_def e_def internal_channel_submit_work_def hw_of_def off va)+)
  have cur: "0 < current_gpfifo_count ch" using r(5) n by simp
  note S = submit_ok[OF ok cur ch'(1-5,8)]
  have ne: "normal (cpu_put ch, e)" "entry_push_info e = i" by (simp_all add: normal_def e_def)
  have pp: "pending_pushes ch' = pending_pushes ch @ [(cpu_put ch, e)]" using S(1) ne by (simp add: pending_pushes_def)
  have "values_ok ch'" by (rule values_ok_push[OF r(2) pp _ ch'(6) wrap]) (simp add: e_def)
  moreover have "v \<le> ?Q + 1" using r(4) wrap by (simp add: word_le_nat_alt unat_word_ariths)
  moreover have "infos_ok held ch'" using r(6) by (simp add: infos_ok_def pp ne(2) ch'(1,7))
  ultimately have "channel_ok base_va v (n - 1) held ch'" using S r(3,5) by (simp add: channel_ok_def ch'(4,6))
  then show ?thesis using S(1) ne(1) ch'(9) by (intro exI[of _ e]) (simp add: e_def off)
qed

lemma write_ctrl_ok:
  assumes ok: "channel_ok base_va v n held ch" and n: "n < current_gpfifo_count ch" and proxy: "\<not> is_proxy ch"
  shows "channel_ok base_va v n held (write_ctrl_gpfifo x ch)" "pending_pushes (write_ctrl_gpfifo x ch) = pending_pushes ch"
proof -
  note r = channel_okD[OF ok]
  let ?ch' = "write_ctrl_gpfifo x ch"
  define e where "e = zero_entry\<lparr>entry_type := UVM_GPFIFO_ENTRY_TYPE_CONTROL, control_value := x, tracking_semaphore_value := queued_value (tracking_sem ch) + 1\<rparr>"
  have ch': "gpfifo_entries ?ch' = (gpfifo_entries ch)[cpu_put ch := e]" "cpu_put ?ch' = (cpu_put ch + 1) mod num_gpfifo_entries ch" "gpu_get ?ch' = gpu_get ch"
      "current_gpfifo_count ?ch' = current_gpfifo_count ch - 1" "is_proxy ?ch' = is_proxy ch" "tracking_sem ?ch' = tracking_sem ch"
      "available_push_infos ?ch' = available_push_infos ch" "is_proxy ch \<or> hw_gpfifo ?ch' = (hw_gpfifo ch)(cpu_put ch \<mapsto> hw_of base_va e) \<and> hw_gpu_put ?ch' = cpu_put ?ch'"
    by (simp_all add: write_ctrl_gpfifo_def Let_def e_def submit_ctrl_gpfifo_def hw_of_def)
  have cur: "0 < current_gpfifo_count ch" using n by simp
  note S = submit_ok[OF ok cur ch'(1-5,8)]
  show pp: "pending_pushes ?ch' = pending_pushes ch" using S(1) by (simp add: pending_pushes_def normal_def e_def)
  have "values_ok ?ch'" using r(2) by (simp only: values_ok_def pp ch'(6))
  moreover have "infos_ok held ?ch'" using r(6) by (simp add: infos_ok_def pp ch'(1,7))
  ultimately show "channel_ok base_va v n held ?ch'" using S r(3,4) n by (simp add: channel_ok_def ch'(4,6))
qed

text \<open>Completing entries up to the value the GPU has reached.\<close>

lemma due_reached: "k \<le> length (due UVM_CHANNEL_UPDATE_MODE_COMPLETED v xs) \<Longrightarrow> x \<in> set (take k xs) \<Longrightarrow> tracking_semaphore_value (snd x) \<le> v"
proof -
  assume k: "k \<le> length (due UVM_CHANNEL_UPDATE_MODE_COMPLETED v xs)" and x: "x \<in> set (take k xs)"
  let ?w = "takeWhile (\<lambda>x. tracking_semaphore_value (snd x) \<le> v) xs"
  have "take k (?w @ dropWhile (\<lambda>x. tracking_semaphore_value (snd x) \<le> v) xs) = take k ?w" using k by (simp add: due_def del: takeWhile_dropWhile_id)
  then have "take k xs = take k ?w" by simp
  then have "x \<in> set ?w" using x by (metis in_set_takeD)
  then show ?thesis by (auto dest: set_takeWhileD)
qed

lemma values_ok_drop:
  assumes ok: "values_ok ch" and split: "pending_pushes ch = A @ B" "pending_pushes ch' = B" and le: "\<And>x. x \<in> set A \<Longrightarrow> tracking_semaphore_value (snd x) \<le> v"
    and ts: "queued_value (tracking_sem ch') = queued_value (tracking_sem ch)" "completed_value (tracking_sem ch') = v" "completed_value (tracking_sem ch) \<le> v"
  shows "values_ok ch'"
proof -
  let ?Q = "unat (queued_value (tracking_sem ch))"
  have V: "length (A @ B) \<le> ?Q" "map entry_value (A @ B) = [Suc ?Q - length (A @ B)..<Suc ?Q]" "?Q - length (A @ B) \<le> unat (completed_value (tracking_sem ch))"
    using ok unfolding values_ok_def Let_def split(1) by blast+
  have "drop (length A) (map entry_value (A @ B)) = [Suc ?Q - length B..<Suc ?Q]" unfolding V(2) using V(1) by (simp del: upt_Suc)
  then have B: "map entry_value B = [Suc ?Q - length B..<Suc ?Q]" by simp
  have "?Q - length B \<le> unat v"
  proof (cases A rule: rev_cases)
    case Nil
    then show ?thesis using V(3) ts(3) by (simp add: word_le_nat_alt)
  next
    case (snoc A' a)
    have "entry_value a = map entry_value (A @ B) ! length A'" by (simp add: snoc nth_append)
    also have "\<dots> = ?Q - length B" unfolding V(2) using V(1) by (simp add: snoc del: upt_Suc)
    finally show ?thesis using le[of a] by (simp add: snoc word_le_nat_alt)
  qed
  then show ?thesis using B V(1) unfolding values_ok_def Let_def split(2) ts(1,2) by simp
qed

lemma progress_ok:
  assumes ok: "channel_ok base_va v n held ch" and mem: "semaphore_reads mem (tracking_sem ch) v" and pb: "pushbuffer_ok pb"
    and inpb: "\<And>i e. (i, e) \<in> set (pending_pushes ch) \<Longrightarrow> in_pushbuffer pb (pb_entry c i e)"
    and run: "uvm_channel_update_progress_with_max c m UVM_CHANNEL_UPDATE_MODE_COMPLETED mem ch pb = (pending, events, ch', pb')"
  shows "\<exists>k. k = min m (length (due UVM_CHANNEL_UPDATE_MODE_COMPLETED v (pending_entries ch))) \<and> pending_entries ch' = drop k (pending_entries ch) \<and>
      available_push_infos ch' = available_push_infos ch @ map (entry_push_info \<circ> snd) (filter normal (take k (pending_entries ch)))"
    "pending = length (pending_entries ch')" "completed_value (tracking_sem ch') = v" "queued_value (tracking_sem ch') = queued_value (tracking_sem ch)"
    "current_gpfifo_count ch' = current_gpfifo_count ch" "channel_ok base_va v n held ch'"
    "pushbuffer_less {pb_entry c i e | i e. (i, e) \<in> set (pending_pushes ch) - set (pending_pushes ch')} pb pb'"
proof -
  note r = channel_okD[OF ok]
  obtain sem where u: "uvm_channel_update_completed_value mem ch = (v, ch\<lparr>tracking_sem := (tracking_sem ch)\<lparr>semaphore := sem, completed_value := v\<rparr>\<rparr>)"
    using update_completed_value[OF r(1,2) mem r(3,4)] by blast
  define ch1 where "ch1 = ch\<lparr>tracking_sem := (tracking_sem ch)\<lparr>semaphore := sem, completed_value := v\<rparr>\<rparr>"
  have p1: "pending_entries ch1 = pending_entries ch" by (rule pending_cong) (simp_all add: ch1_def)
  have pp1: "pending_pushes ch1 = pending_pushes ch" by (simp add: pending_pushes_def p1)
  have ok1: "ring_ok ch1" using r(1) by (simp add: ring_ok_def p1) (simp add: ch1_def)
  have run1: "complete_entries c UVM_CHANNEL_UPDATE_MODE_COMPLETED v m ch1 pb = (events, ch', pb')" and pend: "pending = pending_gpfifo_count ch'"
    using run by (auto simp: uvm_channel_update_progress_with_max_def u ch1_def split: prod.splits)
  obtain k infos where K: "k = min m (length (due UVM_CHANNEL_UPDATE_MODE_COMPLETED v (pending_entries ch)))" "pending_entries ch' = drop k (pending_entries ch)" "ring_ok ch'"
      and ch': "ch' = ch1\<lparr>push_infos := infos, available_push_infos := available_push_infos ch1 @ map (entry_push_info \<circ> snd) (filter normal (take k (pending_entries ch))), gpu_get := gpu_get ch'\<rparr>"
    using complete_entries_channel[OF ok1 run1] unfolding p1 by blast
  have sel: "gpfifo_entries ch' = gpfifo_entries ch" "cpu_put ch' = cpu_put ch" "current_gpfifo_count ch' = current_gpfifo_count ch" "is_proxy ch' = is_proxy ch"
      "hw_gpfifo ch' = hw_gpfifo ch" "hw_gpu_put ch' = hw_gpu_put ch" "tracking_sem ch' = tracking_sem ch1"
      "available_push_infos ch' = available_push_infos ch @ map (entry_push_info \<circ> snd) (filter normal (take k (pending_entries ch)))"
    by (subst ch', simp add: ch1_def)+
  show "\<exists>k. k = min m (length (due UVM_CHANNEL_UPDATE_MODE_COMPLETED v (pending_entries ch))) \<and> pending_entries ch' = drop k (pending_entries ch) \<and>
      available_push_infos ch' = available_push_infos ch @ map (entry_push_info \<circ> snd) (filter normal (take k (pending_entries ch)))" using K(1,2) sel(8) by blast
  show "pending = length (pending_entries ch')" by (simp add: pend pending_gpfifo_count_eq)
  show ts: "completed_value (tracking_sem ch') = v" "queued_value (tracking_sem ch') = queued_value (tracking_sem ch)" by (simp_all add: sel(7) ch1_def)
  show "current_gpfifo_count ch' = current_gpfifo_count ch" by (rule sel(3))
  have parts: "pending_entries ch = take k (pending_entries ch) @ drop k (pending_entries ch)" by simp
  have split: "pending_pushes ch = filter normal (take k (pending_entries ch)) @ pending_pushes ch'"
    unfolding pending_pushes_def K(2) by (subst parts) (simp only: filter_append)
  have "values_ok ch'"
    by (rule values_ok_drop[OF r(2) split refl _ ts(2,1) r(3)]) (use due_reached[of k v "pending_entries ch"] K(1) in auto)
  moreover have "infos_ok held ch'" using r(6) unfolding infos_ok_def split by (simp add: sel(1,8) ac_simps)
  moreover have "hw_ok base_va ch'" using r(7) K(2) by (auto simp: hw_ok_def sel dest: in_set_dropD)
  ultimately show "channel_ok base_va v n held ch'" using K(3) r(4,5) by (simp add: channel_ok_def ts sel(3))
  show "pushbuffer_less {pb_entry c i e | i e. (i, e) \<in> set (pending_pushes ch) - set (pending_pushes ch')} pb pb'"
    using complete_entries_pushbuffer[OF ok1 pb run1] inpb by (simp add: pp1)
qed

text \<open>The pushbuffer when a push claims a chunk and when it ends.\<close>

lemma place_chunk: "good_slot k es n \<Longrightarrow> (chunk_get_offset k + n) div UVM_PUSHBUFFER_CHUNK_SIZE = k"
  by (simp add: good_slot_def chunk_get_offset_def UVM_PUSHBUFFER_CHUNK_SIZE_def UVM_MAX_PUSH_SIZE_def)

lemma ongoing_good: "pushbuffer_ok pb \<Longrightarrow> k \<in> ongoing pb \<Longrightarrow> good_slot k (pending_gpfifos (chunks pb k)) (next_push_start (chunks pb k))"
  by (auto simp: pushbuffer_ok_def chunk_ok_def Let_def ongoing_def)

lemma claim_places:
  assumes ok: "pushbuffer_ok pb" and sema: "0 < concurrent_pushes_sema pb"
    and run: "try_claim_chunk q (pb\<lparr>concurrent_pushes_sema := concurrent_pushes_sema pb - 1\<rparr>) = (Some k, pb')"
  shows "pushbuffer_ok pb'" "in_pushbuffer pb' e \<longleftrightarrow> in_pushbuffer pb e" "push_place pb push \<Longrightarrow> push_place pb' push" "k \<in> ongoing pb'"
    "push_place pb push \<Longrightarrow> push_begin push \<noteq> chunk_get_offset k + next_push_start (chunks pb' k)"
proof -
  note C = claim_step_ok[OF ok sema run]
  have on: "ongoing pb' = insert k (ongoing pb)" using C(2) by (auto simp: ongoing_def C(5))
  show "pushbuffer_ok pb'" by (rule C(1))
  show "in_pushbuffer pb' e \<longleftrightarrow> in_pushbuffer pb e" by (simp add: in_pushbuffer_def C(5))
  show "push_place pb' push" if "push_place pb push" using that C(3) by (auto simp: push_place_def on C(5))
  show "k \<in> ongoing pb'" by (simp add: on)
  show "push_begin push \<noteq> chunk_get_offset k + next_push_start (chunks pb' k)" if "push_place pb push"
    using that C(3,4,5) place_chunk[OF C(4)] place_chunk[OF ongoing_good[OF ok]] by (auto simp: push_place_def)
qed

lemma end_places:
  assumes ok: "pushbuffer_ok pb" and push: "push_place pb push" and gp: "pushbuffer_offset gp = push_begin push" "0 < pushbuffer_size gp" "pushbuffer_size gp \<le> UVM_MAX_PUSH_SIZE"
    and pb': "pb' = uvm_pushbuffer_end_push push gp pb"
  shows "pushbuffer_ok pb'" "in_pushbuffer pb' gp" "in_pushbuffer pb e \<Longrightarrow> in_pushbuffer pb' e" "push_place pb other \<Longrightarrow> push_begin other \<noteq> push_begin push \<Longrightarrow> push_place pb' other"
proof -
  obtain k where k: "k \<in> ongoing pb" "push_begin push = chunk_get_offset k + next_push_start (chunks pb k)" and ord: "channel_kind push \<noteq> WLC"
    using push by (auto simp: push_place_def)
  note E = uvm_pushbuffer_end_push_ok[OF ok k(1) ord gp(1)[unfolded k(2)] gp(2,3), folded pb']
  have chunk: "gpfifo_to_chunk gp = k" using place_chunk[OF ongoing_good[OF ok k(1)]] by (simp add: gpfifo_to_chunk_def offset_to_chunk_def gp(1) k(2))
  show "pushbuffer_ok pb'" by (rule E(1))
  show "in_pushbuffer pb' gp" using k(1) E(2) by (simp add: in_pushbuffer_def chunk ongoing_def)
  show "in_pushbuffer pb' e" if "in_pushbuffer pb e" using that E(2,4) by (cases "gpfifo_to_chunk e = k") (auto simp: in_pushbuffer_def)
  show "push_place pb' other" if other: "push_place pb other" "push_begin other \<noteq> push_begin push"
  proof -
    obtain l where l: "l \<in> ongoing pb" "push_begin other = chunk_get_offset l + next_push_start (chunks pb l)" "channel_kind other = Ordinary" using other(1) by (auto simp: push_place_def)
    then have "l \<noteq> k" using other(2) k(2) by auto
    then show ?thesis using l E(4)[of l] by (auto simp: push_place_def ongoing_def)
  qed
qed

lemma less_places: "pushbuffer_less gone pb pb' \<Longrightarrow> push_place pb push \<Longrightarrow> push_place pb' push" by (auto simp: push_place_def pushbuffer_less_def)

lemma progress_keeps:
  assumes ok: "ring_ok ch" and sub: "set (pending_pushes ch') \<subseteq> set (pending_pushes ch)"
    and less: "pushbuffer_less {pb_entry c i e | i e. (i, e) \<in> set (pending_pushes ch) - set (pending_pushes ch')} pb pb'"
    and e: "in_pushbuffer pb (pb_entry d j f)" "d = c \<Longrightarrow> (j, f) \<in> set (pending_pushes ch')"
  shows "in_pushbuffer pb' (pb_entry d j f)"
proof -
  have "pb_entry d j f \<notin> {pb_entry c i e | i e. (i, e) \<in> set (pending_pushes ch) - set (pending_pushes ch')}"
  proof
    assume "pb_entry d j f \<in> {pb_entry c i e | i e. (i, e) \<in> set (pending_pushes ch) - set (pending_pushes ch')}"
    then obtain g where g: "d = c" "(j, g) \<in> set (pending_pushes ch) - set (pending_pushes ch')" by (auto simp: pb_entry_def)
    then have "g = f" using e(2) sub pending_slot(2)[of j _ ch] ok by (auto simp: pending_pushes_def)
    then show False using g e(2) by simp
  qed
  then show ?thesis using less e(1) by (simp add: pushbuffer_less_def)
qed

lemma channel_step_ok:
  assumes "channel_step base_va s s'" "channels_system_ok base_va s"
  shows "channels_system_ok base_va s'"
  using assms
proof (induction rule: channel_step.induct)
  case (Reserve n s c ch)
  note R = reserve_ok[OF channels_system_okD(1)[OF Reserve(2), of c] Reserve(1)]
  show ?case by (rule channels_system_ok_channel[OF Reserve(2) R(1)]) (simp add: pending_pushes_def R(2))
next
  case (Release n c s)
  note R = release_ok[OF channels_system_okD(1)[OF Release(2), of c] Release(1)]
  show ?case by (rule channels_system_ok_channel[OF Release(2) R(1)]) (simp add: pending_pushes_def R(2))
next
  case (Claim_chunk c s push k pb)
  note S = channels_system_okD[OF Claim_chunk(5)] and C = claim_places[OF channels_system_okD(2)[OF Claim_chunk(5)] Claim_chunk(3,4)]
  let ?p = "push\<lparr>push_begin := chunk_get_offset k + next_push_start (chunks pb k)\<rparr>"
  have "push_place pb ?p" using C(4) Claim_chunk(2) by (auto simp: push_place_def)
  moreover have "channel_ok base_va (sys_reached s d) (pushes_on d ((c, None, ?p) # sys_pushes s)) (held_infos d ((c, None, ?p) # sys_pushes s)) (sys_chans s d)" for d
    using S(1)[of d] Claim_chunk(1) by (auto simp: channel_ok_def)
  moreover have "push_begin ?p \<notin> set (map (push_begin \<circ> snd \<circ> snd) (sys_pushes s))" using C(5) S(4) by fastforce
  ultimately show ?case using C(1,2,3) S(3,4,5) by (simp add: channels_system_ok_def)
next
  case (Take_info s ps c push qs i ch info)
  note S = channels_system_okD[OF Take_info(3)] and T = take_info_ok[OF channels_system_okD(1)[OF Take_info(3), of c] Take_info(2)]
  let ?ch = "ch\<lparr>push_infos := (push_infos ch)(i := info)\<rparr>"
  have "channel_ok base_va (sys_reached s c) (pushes_on c (ps @ (c, Some i, push) # qs)) (held_infos c (ps @ (c, Some i, push) # qs)) ?ch"
    using T(1) by (simp add: Take_info(1) channel_ok_def infos_ok_def ac_simps)
  then have "channel_ok base_va (sys_reached s d) (pushes_on d (ps @ (c, Some i, push) # qs)) (held_infos d (ps @ (c, Some i, push) # qs)) (((sys_chans s)(c := ?ch)) d)" for d
    using S(1)[of d] by (cases "d = c") (simp_all add: Take_info(1))
  moreover have "push_place (sys_pb s) push" using S(4)[of "(c, None, push)"] by (simp add: Take_info(1))
  ultimately show ?case using S(2,3,4,5) T(2) by (auto simp: channels_system_ok_def pending_pushes_def Take_info(1))
next
  case (End_push s ps c i push qs push_size v ch pb)
  note S = channels_system_okD[OF End_push(6)]
  have place: "push_place (sys_pb s) push" using S(4)[of "(c, Some i, push)"] by (simp add: End_push(1))
  have ord: "channel_kind push = Ordinary" using place by (simp add: push_place_def)
  have "channel_ok base_va (sys_reached s c) (pushes_on c (sys_pushes s)) (i # held_infos c (ps @ qs)) (sys_chans s c)"
    using S(1)[of c] by (simp add: End_push(1) channel_ok_def infos_ok_def ac_simps)
  from end_push_ok[OF this _ ord End_push(4,5)] obtain e where e: "pending_entries ch = pending_entries (sys_chans s c) @ [(cpu_put (sys_chans s c), e)]" "normal (cpu_put (sys_chans s c), e)"
      "entry_offset e = push_begin push" "entry_size e = push_size" "pb = uvm_pushbuffer_end_push push (pb_entry c (cpu_put (sys_chans s c)) e) (sys_pb s)"
      "channel_ok base_va (sys_reached s c) (pushes_on c (ps @ qs)) (held_infos c (ps @ qs)) ch"
    by (auto simp: End_push(1))
  note E = end_places[OF S(2) place _ _ _ e(5), simplified pb_entry_def, simplified, OF e(3), unfolded e(4), OF End_push(2,3)]
  have pp: "pending_pushes ch = pending_pushes (sys_chans s c) @ [(cpu_put (sys_chans s c), e)]" using e(1,2) by (simp add: pending_pushes_def)
  have "channel_ok base_va (sys_reached s d) (pushes_on d (ps @ qs)) (held_infos d (ps @ qs)) (((sys_chans s)(c := ch)) d)" for d
    using S(1)[of d] e(6) by (auto simp: End_push(1))
  moreover have "in_pushbuffer pb (pb_entry d j f)" if "(j, f) \<in> set (pending_pushes (((sys_chans s)(c := ch)) d))" for d j f
    using that E(2,3) S(3)[of j f d] by (auto simp: pp pb_entry_def e(3,4) split: if_splits)
  moreover have "push_place pb (snd (snd x))" if "x \<in> set (ps @ qs)" for x
  proof (rule E(4))
    show "push_place (sys_pb s) (snd (snd x))" using S(4)[of x] that by (auto simp: End_push(1))
    show "push_begin (snd (snd x)) \<noteq> push_begin push" using S(5) that by (auto simp: End_push(1) image_iff)
  qed
  ultimately show ?case using E(1) S(5) by (auto simp: channels_system_ok_def End_push(1))
next
  case (Control c s x)
  note R = write_ctrl_ok[OF channels_system_okD(1)[OF Control(3), of c] Control(1,2)]
  show ?case by (rule channels_system_ok_channel[OF Control(3) R(1)]) (simp add: R(2))
next
  case (Progress mem s c m pending events ch pb)
  note S = channels_system_okD[OF Progress(3)] and P = progress_ok[OF channels_system_okD(1)[OF Progress(3), of c] Progress(1) channels_system_okD(2)[OF Progress(3)] channels_system_okD(3)[OF Progress(3)] Progress(2)]
  have sub: "set (pending_pushes ch) \<subseteq> set (pending_pushes (sys_chans s c))" using P(1) by (auto simp: pending_pushes_def dest: in_set_dropD)
  have "in_pushbuffer pb (pb_entry d j f)" if "(j, f) \<in> set (pending_pushes (((sys_chans s)(c := ch)) d))" for d j f
    by (rule progress_keeps[OF channel_okD(1)[OF S(1)] sub P(7)]) (use S(3)[of j f d] that sub in \<open>auto split: if_splits\<close>)
  moreover have "channel_ok base_va (sys_reached s d) (pushes_on d (sys_pushes s)) (held_infos d (sys_pushes s)) (((sys_chans s)(c := ch)) d)" for d using S(1)[of d] P(6) by simp
  moreover have "pushbuffer_ok pb" using P(7) by (simp add: pushbuffer_less_def)
  ultimately show ?case using S(4,5) less_places[OF P(7)] by (simp add: channels_system_ok_def)
next
  case (Gpu s c v)
  then show ?case by (auto simp: channels_system_ok_def channel_ok_def dest: order_trans)
qed

lemma channels_reachable_ok: "channels_reachable base_va s \<Longrightarrow> channels_system_ok base_va s"
  by (induction rule: channels_reachable.induct) (auto intro: initial_channels_ok channel_step_ok)

section \<open>Waiting for a channel\<close>

lemma held_infos_length: "length (held_infos c ps) \<le> pushes_on c ps" "(c, None, push) \<in> set ps \<Longrightarrow> length (held_infos c ps) < pushes_on c ps"
proof -
  show le: "length (held_infos c ps) \<le> pushes_on c ps" for ps :: "('a \<times> nat option \<times> 'b push) list"
    by (induction ps) (auto simp: held_infos_def pushes_on_def split: option.splits)
  assume "(c, None, push) \<in> set ps"
  then obtain qs rs where "ps = qs @ (c, None, push) # rs" by (meson split_list)
  then show "length (held_infos c ps) < pushes_on c ps" using le[of qs] le[of rs] by simp
qed

lemma info_available:
  assumes "channel_ok base_va v n held ch" "length held < n"
  shows "available_push_infos ch \<noteq> []"
proof
  note r = channel_okD[OF assms(1)]
  assume "available_push_infos ch = []"
  then have "size (mset (map (entry_push_info \<circ> snd) (pending_pushes ch)) + mset held) = size (mset [0..<num_gpfifo_entries ch])" using r(6) by (simp add: infos_ok_def)
  then have "length (pending_pushes ch) + length held = num_gpfifo_entries ch" by simp
  moreover have "length (pending_pushes ch) \<le> length (pending_entries ch)" by (simp add: pending_pushes_def)
  ultimately show False using ring_okD(3)[OF r(1)] r(5) assms(2) by simp
qed

text \<open>Memory that is not encrypted; reading it keeps the semaphore.\<close>

definition plain_memory :: "'g semaphore_memory \<Rightarrow> bool" where "plain_memory mem = (case mem of (g, pool, enc_update) \<Rightarrow> \<not> gpu_semaphore_pool_is_secure g pool)"

lemma complete_entries_sem: "complete_entries c mode v m ch pb = (events, ch', pb') \<Longrightarrow> ring_ok ch \<Longrightarrow> tracking_sem ch' = tracking_sem ch"
proof -
  assume run: "complete_entries c mode v m ch pb = (events, ch', pb')" and ok: "ring_ok ch"
  obtain k infos' where "ch' = ch\<lparr>push_infos := infos', available_push_infos := available_push_infos ch @ map (entry_push_info \<circ> snd) (filter normal (take k (pending_entries ch))), gpu_get := gpu_get ch'\<rparr>"
    using complete_entries_channel[OF ok run] by blast
  then show ?thesis by (metis (no_types, lifting) uvm_channel.select_convs(8) uvm_channel.surjective uvm_channel.update_convs(4,6,7))
qed

lemma progress_sem:
  assumes ok: "ring_ok ch" and plain: "plain_memory mem" and run: "uvm_channel_update_progress_with_max c m mode mem ch pb = (pending, events, ch', pb')"
  shows "semaphore (tracking_sem ch') = semaphore (tracking_sem ch)"
proof -
  obtain v ch1 where u: "uvm_channel_update_completed_value mem ch = (v, ch1)" by fastforce
  obtain ts where ch1: "ch1 = ch\<lparr>tracking_sem := ts\<rparr>" "semaphore ts = semaphore (tracking_sem ch)"
    using u plain by (auto simp: plain_memory_def uvm_channel_update_completed_value_def uvm_gpu_tracking_semaphore_update_completed_value_def update_completed_value_locked_def Let_def)
  have p1: "pending_entries ch1 = pending_entries ch" by (rule pending_cong) (simp_all add: ch1)
  have "ring_ok ch1" using ok by (simp add: ring_ok_def p1) (simp add: ch1)
  moreover obtain events' where "complete_entries c mode v m ch1 pb = (events', ch', pb')" using run by (auto simp: uvm_channel_update_progress_with_max_def u split: prod.splits)
  ultimately show ?thesis using complete_entries_sem ch1 by (metis uvm_channel.select_convs(8) uvm_channel.surjective uvm_channel.update_convs(8))
qed

lemma channel_ok_mono: "channel_ok base_va v n held ch \<Longrightarrow> v \<le> w \<Longrightarrow> w \<le> queued_value (tracking_sem ch) \<Longrightarrow> channel_ok base_va w n held ch"
  by (auto simp: channel_ok_def)

text \<open>What the loops of a waiting thread meet when it is the only one to use the channel: the GPU reaches \<open>v j\<close> before the \<open>j\<close>-th read, and everything that was queued from \<open>J\<close> on.\<close>

definition gpu_finishes :: "(nat \<Rightarrow> 'g semaphore_memory) \<Rightarrow> (nat \<Rightarrow> NvU64) \<Rightarrow> nat \<Rightarrow> 'g gpu_semaphore \<Rightarrow> NvU64 \<Rightarrow> bool" where
  "gpu_finishes mem v J sem Q \<longleftrightarrow> (\<forall>j. plain_memory (mem j) \<and> (\<forall>ts. semaphore ts = sem \<longrightarrow> semaphore_reads (mem j) ts (v j))) \<and> mono v \<and> (\<forall>j. v j \<le> Q) \<and> (\<forall>j\<ge>J. v j = Q)"

lemma progress_round:
  assumes ok: "channel_ok base_va w n held ch" "w \<le> v j" and gpu: "gpu_finishes mem v J (semaphore (tracking_sem ch)) (queued_value (tracking_sem ch))"
    and pb: "pushbuffer_ok pb" "\<And>i e. (i, e) \<in> set (pending_pushes ch) \<Longrightarrow> in_pushbuffer pb (pb_entry c i e)"
    and run: "uvm_channel_update_progress c (mem j) ch pb = (pending, events, ch', pb')"
  shows "channel_ok base_va (v j) n held ch'" "semaphore (tracking_sem ch') = semaphore (tracking_sem ch)" "queued_value (tracking_sem ch') = queued_value (tracking_sem ch)"
    "pushbuffer_ok pb'" "\<And>i e. (i, e) \<in> set (pending_pushes ch') \<Longrightarrow> in_pushbuffer pb' (pb_entry c i e)" "pending = length (pending_entries ch')"
    "pending_entries ch' = drop (min 8 (length (due UVM_CHANNEL_UPDATE_MODE_COMPLETED (v j) (pending_entries ch)))) (pending_entries ch)"
proof -
  have vj: "v j \<le> queued_value (tracking_sem ch)" "semaphore_reads (mem j) (tracking_sem ch) (v j)" "plain_memory (mem j)" using gpu by (auto simp: gpu_finishes_def)
  note ok' = channel_ok_mono[OF ok vj(1)]
  note r = run[unfolded uvm_channel_update_progress_def]
  note P = progress_ok[OF ok' vj(2) pb(1) pb(2) r]
  show "channel_ok base_va (v j) n held ch'" "queued_value (tracking_sem ch') = queued_value (tracking_sem ch)" "pending = length (pending_entries ch')" using P by auto
  show "semaphore (tracking_sem ch') = semaphore (tracking_sem ch)" by (rule progress_sem[OF channel_okD(1)[OF ok'] vj(3) r])
  show "pushbuffer_ok pb'" using P(7) by (simp add: pushbuffer_less_def)
  show d: "pending_entries ch' = drop (min 8 (length (due UVM_CHANNEL_UPDATE_MODE_COMPLETED (v j) (pending_entries ch)))) (pending_entries ch)" using P(1) by auto
  have sub: "set (pending_pushes ch') \<subseteq> set (pending_pushes ch)" using d by (auto simp: pending_pushes_def dest: in_set_dropD)
  show "in_pushbuffer pb' (pb_entry c i e)" if "(i, e) \<in> set (pending_pushes ch')" for i e
    by (rule progress_keeps[OF channel_okD(1)[OF ok(1)] sub P(7)]) (use pb(2) sub that in auto)
qed

lemma channel_wait_loop_returns:
  fixes ch :: "('f, 'g) uvm_channel"
  assumes "channel_ok base_va w n held ch" "w \<le> v (2 * i)" "gpu_finishes mem v J (semaphore (tracking_sem ch)) (queued_value (tracking_sem ch))"
    and "pushbuffer_ok pb" "\<And>i e. (i, e) \<in> set (pending_pushes ch) \<Longrightarrow> in_pushbuffer pb (pb_entry c i e)"
    and "\<And>x. x \<in> set (pending_entries ch) \<Longrightarrow> tracking_semaphore_value (snd x) \<le> queued_value (tracking_sem ch)"
    and "(J - i) + length (pending_entries ch) < fuel"
  shows "\<exists>ch' pb'. wait_for_progress fuel c mem (\<lambda>_. NV_OK) (\<lambda>_. NV_OK) (\<lambda>_ st. st) i NV_OK (ch, pb) = Some (NV_OK, ch', pb') \<and> pending_entries ch' = []"
  using assms
proof (induction fuel arbitrary: i w ch pb)
  case (Suc fuel)
  obtain pending events ch1 pb1 where run: "uvm_channel_update_progress c (mem (2 * i)) ch pb = (pending, events, ch1, pb1)" by (metis prod_cases4)
  note R = progress_round[OF Suc.prems(1-5) run]
  show ?case
  proof (cases "pending_entries ch1 = []")
    case True
    then show ?thesis using run R(6) by simp
  next
    case False
    have le: "x \<in> set (pending_entries ch1) \<Longrightarrow> x \<in> set (pending_entries ch)" for x using R(7) by (auto dest: in_set_dropD)
    have mono: "mono v" "\<And>j. J \<le> j \<Longrightarrow> v j = queued_value (tracking_sem ch)" using Suc.prems(3) by (auto simp: gpu_finishes_def)
    have "(J - Suc i) + length (pending_entries ch1) < fuel"
    proof (cases "i < J")
      case True
      then show ?thesis using Suc.prems(7) R(7) by simp
    next
      case F: False
      have "due UVM_CHANNEL_UPDATE_MODE_COMPLETED (v (2 * i)) (pending_entries ch) = pending_entries ch" using Suc.prems(6) mono(2)[of "2 * i"] F by (simp add: due_def takeWhile_eq_all_conv)
      then show ?thesis using Suc.prems(7) R(7) False F by auto
    qed
    moreover have "v (2 * i) \<le> v (2 * Suc i)" using mono(1) by (simp add: monoD)
    ultimately have "\<exists>ch' pb'. wait_for_progress fuel c mem (\<lambda>_. NV_OK) (\<lambda>_. NV_OK) (\<lambda>_ st. st) (Suc i) NV_OK (ch1, pb1) = Some (NV_OK, ch', pb') \<and> pending_entries ch' = []"
      using R(2,3) Suc.prems(3,6) le by (intro Suc.IH[OF R(1) _ _ R(4,5)]) auto
    then show ?thesis using run R(6) False by (simp add: channel_check_errors_def)
  qed
qed simp

section \<open>Properties\<close>

text \<open>C8. In every state of a run with any number of channels and pushes, the GPFIFO of a channel is a ring in which the entries pending and the entries reserved leave one free, so
  that the slot the next entry is written to is not pending and a full ring is never taken for an empty one; a push that asks for a push information finds one; and the GPFIFO of the
  hardware has exactly the entries the driver believes to be pending, up to the put index that was written last.\<close>

theorem gpfifo_ring_safe:
  assumes "channels_reachable base_va s" "ch = sys_chans s c"
  shows "cpu_put ch < num_gpfifo_entries ch \<and> gpu_get ch < num_gpfifo_entries ch \<and> pending_gpfifo_count ch + current_gpfifo_count ch < num_gpfifo_entries ch \<and>
    channel_get_available_gpfifo_entries ch = num_gpfifo_entries ch - 1 - pending_gpfifo_count ch - current_gpfifo_count ch \<and>
    cpu_put ch \<notin> fst ` set (pending_entries ch) \<and> ((c, None, push) \<in> set (sys_pushes s) \<longrightarrow> channel_get_available_push_info_index ch \<noteq> None) \<and>
    (\<not> is_proxy ch \<longrightarrow> hw_gpu_put ch = cpu_put ch \<and> (\<forall>(i, e)\<in>set (pending_entries ch). hw_gpfifo ch i = Some (hw_of base_va e)))"
proof -
  have ok: "channel_ok base_va (sys_reached s c) (pushes_on c (sys_pushes s)) (held_infos c (sys_pushes s)) ch"
    using channels_system_okD(1)[OF channels_reachable_ok[OF assms(1)], of c] by (simp add: assms(2))
  note r = channel_okD[OF ok]
  have "channel_get_available_push_info_index ch \<noteq> None" if "(c, None, push) \<in> set (sys_pushes s)"
    using info_available[OF ok held_infos_length(2)[OF that]] by (auto simp: channel_get_available_push_info_index_def split: list.splits)
  moreover have "cpu_put ch \<notin> fst ` set (pending_entries ch)" using pending_slot(3)[OF _ r(1)] by fastforce
  ultimately show ?thesis using ring_okD[OF r(1)] available_eq[OF r(1)] r(7) by (auto simp: pending_gpfifo_count_eq hw_ok_def)
qed

text \<open>C3. As long as the GPU has not reached the tracking value of a push that was submitted, the push has a pending entry with this value, its bytes belong to it in the pushbuffer, and
  no push that is being written uses any of them: nothing the GPU may still read is overwritten.\<close>

theorem unfinished_push_safe:
  assumes "channels_reachable base_va s" "sys_reached s c < v" "v \<le> queued_value (tracking_sem (sys_chans s c))"
  shows "\<exists>i e. (i, e) \<in> set (pending_entries (sys_chans s c)) \<and> entry_type e = UVM_GPFIFO_ENTRY_TYPE_NORMAL \<and> tracking_semaphore_value e = v \<and>
    {entry_offset e..<entry_offset e + entry_size e} \<subseteq> pending_bytes (sys_pb s) \<and>
    (\<forall>k\<in>ongoing (sys_pb s). slot_bytes (sys_pb s) k \<inter> {entry_offset e..<entry_offset e + entry_size e} = {})"
proof -
  let ?ch = "sys_chans s c" and ?pb = "sys_pb s"
  note S = channels_system_okD[OF channels_reachable_ok[OF assms(1)]]
  note r = channel_okD[OF S(1)[of c]]
  let ?Q = "unat (queued_value (tracking_sem ?ch))"
  have V: "length (pending_pushes ?ch) \<le> ?Q" "map entry_value (pending_pushes ?ch) = [Suc ?Q - length (pending_pushes ?ch)..<Suc ?Q]"
      "?Q - length (pending_pushes ?ch) \<le> unat (completed_value (tracking_sem ?ch))"
    using r(2) unfolding values_ok_def Let_def by blast+
  have "?Q - length (pending_pushes ?ch) < unat v" "unat v \<le> ?Q" using V(3) r(3) assms(2,3) by (simp_all add: word_le_nat_alt word_less_nat_alt)
  then have "unat v \<in> set (map entry_value (pending_pushes ?ch))" unfolding V(2) using V(1) by (simp del: upt_Suc)
  then obtain i e where e: "(i, e) \<in> set (pending_pushes ?ch)" "unat (tracking_semaphore_value e) = unat v" by auto
  have b: "{entry_offset e..<entry_offset e + entry_size e} \<subseteq> pending_bytes ?pb"
  proof -
    have "{gstart (pb_entry c i e)..<gend (pb_entry c i e)} \<subseteq> pending_bytes ?pb" using S(3)[OF e(1)] unfolding in_pushbuffer_def pending_bytes_def by blast
    then show ?thesis by (simp add: pb_entry_def gend_def)
  qed
  have "slot_bytes ?pb k \<inter> pending_bytes ?pb = {}" if "k \<in> ongoing ?pb" for k
    by (rule slot_free(1)[OF S(2) _ ongoing_good[OF S(2) that]]) (use that in \<open>simp add: ongoing_def\<close>)
  then show ?thesis using e b by (intro exI[of _ i] exI[of _ e]) (auto simp: pending_pushes_def normal_def word_unat_eq_iff)
qed

text \<open>C12. Updating the progress of a channel finds the 64 bit value the GPU has reached from the 32 bits in its memory, without any assumption on how much the GPU has done since
  the last update, because the ring bounds it. It then completes exactly the entries before the first one that is not reached, in order and at most as many as asked for; gives their push
  informations back; returns the number of entries left; and keeps the entries of all channels that are left in the pushbuffer.\<close>

theorem uvm_channel_update_progress_exact:
  assumes "channels_reachable base_va s" "semaphore_reads mem (tracking_sem (sys_chans s c)) (sys_reached s c)"
    and "uvm_channel_update_progress_with_max c m UVM_CHANNEL_UPDATE_MODE_COMPLETED mem (sys_chans s c) (sys_pb s) = (pending, events, ch', pb')"
  shows "completed_value (tracking_sem ch') = sys_reached s c \<and> pending = length (pending_entries ch') \<and>
    (\<exists>k. k = min m (length (takeWhile (\<lambda>x. tracking_semaphore_value (snd x) \<le> sys_reached s c) (pending_entries (sys_chans s c)))) \<and>
       pending_entries ch' = drop k (pending_entries (sys_chans s c)) \<and>
       available_push_infos ch' = available_push_infos (sys_chans s c) @ map (entry_push_info \<circ> snd) (filter normal (take k (pending_entries (sys_chans s c))))) \<and>
    (\<forall>d. \<forall>(i, e)\<in>set (pending_pushes (((sys_chans s)(c := ch')) d)). in_pushbuffer pb' (pb_entry d i e))"
proof -
  note ok = channels_reachable_ok[OF assms(1)]
  note P = progress_ok[OF channels_system_okD(1)[OF ok, of c] assms(2) channels_system_okD(2)[OF ok] channels_system_okD(3)[OF ok] assms(3)]
  have "channels_system_ok base_va (s\<lparr>sys_chans := (sys_chans s)(c := ch'), sys_pb := pb'\<rparr>)" by (rule channel_step_ok[OF channel_step.Progress[OF assms(2,3)] ok])
  then have "in_pushbuffer pb' (pb_entry d i e)" if "(i, e) \<in> set (pending_pushes (((sys_chans s)(c := ch')) d))" for d i e
    using channels_system_okD(3)[of base_va "s\<lparr>sys_chans := (sys_chans s)(c := ch'), sys_pb := pb'\<rparr>" i e d] that by simp
  then show ?thesis using P(1,2,3) by (auto simp: due_def)
qed

text \<open>C22. \<^verbatim>\<open>uvm_channel_wait\<close> returns when the GPU does its work: for a channel no other thread uses, whose control entries are followed by pushes, the wait ends with success and an empty ring
  once the GPU has reached the queued value, after at most one more round for each entry.\<close>

theorem uvm_channel_wait_returns:
  assumes "channels_reachable base_va s" "ch = sys_chans s c" "gpu_finishes mem v J (semaphore (tracking_sem ch)) (queued_value (tracking_sem ch))" "sys_reached s c \<le> v 0"
    and "\<forall>x\<in>set (pending_entries ch). tracking_semaphore_value (snd x) \<le> queued_value (tracking_sem ch)" "J + num_gpfifo_entries ch \<le> fuel"
  shows "\<exists>ch' pb'. uvm_channel_wait fuel c mem (\<lambda>_. NV_OK) (\<lambda>_. NV_OK) (\<lambda>_ st. st) ch (sys_pb s) = Some (NV_OK, ch', pb') \<and> pending_entries ch' = []"
proof -
  note S = channels_system_okD[OF channels_reachable_ok[OF assms(1)]]
  note ok = S(1)[of c, folded assms(2)]
  obtain pending events ch1 pb1 where run: "uvm_channel_update_progress c (mem 0) ch (sys_pb s) = (pending, events, ch1, pb1)" by (metis prod_cases4)
  note R = progress_round[OF ok assms(4,3) S(2) S(3)[of _ _ c, folded assms(2)] run]
  show ?thesis
  proof (cases "pending_entries ch1 = []")
    case True
    then show ?thesis using run R(6) by (simp add: uvm_channel_wait_def channel_check_errors_def)
  next
    case False
    have "length (pending_entries ch1) \<le> length (pending_entries ch)" by (simp add: R(7))
    then have "J - 1 + length (pending_entries ch1) < fuel" using ring_okD(3)[OF channel_okD(1)[OF ok]] assms(6) by simp
    moreover have "v 0 \<le> v (2 * 1)" using assms(3) by (simp add: gpu_finishes_def monoD)
    moreover have "tracking_semaphore_value (snd x) \<le> queued_value (tracking_sem ch1)" if "x \<in> set (pending_entries ch1)" for x
      using assms(5) that R(3,7) by (auto dest: in_set_dropD)
    ultimately have "\<exists>ch' pb'. wait_for_progress fuel c mem (\<lambda>_. NV_OK) (\<lambda>_. NV_OK) (\<lambda>_ st. st) 1 NV_OK (ch1, pb1) = Some (NV_OK, ch', pb') \<and> pending_entries ch' = []"
      using assms(3) R(2,3) by (intro channel_wait_loop_returns[OF R(1) _ _ R(4,5)]) auto
    then show ?thesis using run R(6) False by (simp add: uvm_channel_wait_def)
  qed
qed

text \<open>When \<^verbatim>\<open>uvm_channel_reserve\<close> finds an error while it waits, and the progress it makes afterwards frees enough entries, it returns the error with the entries claimed: the condition of the loop
  tries to claim before it looks at the status. Nobody releases these entries, as the caller got an error.\<close>

lemma uvm_channel_reserve_leaks_entries:
  assumes "try_claim_channel n ch = (False, ch)" "uvm_channel_update_progress c (mem 0) ch pb = (pending0, events0, ch0, pb0)" "try_claim_channel n ch0 = (False, ch0)"
    and "err 1 = status" "status \<noteq> NV_OK" "channel_check_errors status c (mem 2) (fst (spin 1 (ch0, pb0))) (snd (spin 1 (ch0, pb0))) = (status, events1, ch1, pb1)"
    and "uvm_channel_update_progress c (mem 3) ch1 pb1 = (pending2, events2, ch2, pb2)" "n \<le> channel_get_available_gpfifo_entries ch2"
  shows "\<exists>ch'. uvm_channel_reserve (Suc (Suc fuel)) c mem err spin n ch pb = Some (status, ch', pb2) \<and> current_gpfifo_count ch' = current_gpfifo_count ch2 + n"
proof -
  have "try_claim_channel n ch2 = (True, ch2\<lparr>current_gpfifo_count := current_gpfifo_count ch2 + n\<rparr>)" using assms(8) by (simp add: try_claim_channel_def try_claim_channel_locked_def)
  moreover have "reserve_loop (Suc m) c mem err spin n 1 NV_OK (ch0, pb0) = reserve_loop m c mem err spin n 2 status (ch2, pb2)" for m
    using assms(3-7) by (cases "spin 1 (ch0, pb0)") (simp add: numeral_2_eq_2 numeral_3_eq_3)
  ultimately show ?thesis using assms(1,2,5) by (simp add: uvm_channel_reserve_def)
qed

section \<open>A run\<close>

text \<open>A push of four bytes is submitted on the channel \<open>0\<close>, and memory in which every payload is \<open>p\<close>.\<close>

definition memory_with :: "NvU32 \<Rightarrow> nat semaphore_memory" where
  "memory_with p = (debug_global, used_pool\<lparr>page_store := (\<lambda>_. zero_page\<lparr>memory := Some (\<lambda>_. p)\<rparr>)\<rparr>, id)"

lemma memory_with_reads: "semaphore_reads (memory_with (ucast v)) ts v" "plain_memory (memory_with p)"
  by (simp_all add: semaphore_reads_def plain_memory_def memory_with_def gpu_semaphore_pool_is_secure_def debug_global_def uvm_gpu_semaphore_get_payload_def zero_page_def)

type_synonym sample = "(nat, unit, nat, nat) system"

definition idle_system :: sample where "idle_system = initial_system (\<lambda>_. False) (\<lambda>_. 32) (\<lambda>_. sem5)"

definition first_push :: "nat push" where "first_push = \<lparr>push_id = 7, channel_kind = Ordinary, push_begin = 0\<rparr>"

definition idle_channel :: "(unit, nat) uvm_channel" where "idle_channel = sys_chans idle_system 0"

definition reserved_system :: sample where
  "reserved_system = idle_system\<lparr>sys_chans := (sys_chans idle_system)(0 := idle_channel\<lparr>current_gpfifo_count := 1\<rparr>)\<rparr>"

definition claimed_pb :: "(nat \<times> nat, nat) pushbuffer" where
  "claimed_pb = snd (try_claim_chunk 7 (initial_pushbuffer\<lparr>concurrent_pushes_sema := UVM_PUSHBUFFER_CHUNKS - 1\<rparr>))"

definition started_system :: sample where "started_system = reserved_system\<lparr>sys_pb := claimed_pb, sys_pushes := [(0, None, first_push)]\<rparr>"

definition pushing_channel :: "(unit, nat) uvm_channel" where "pushing_channel = idle_channel\<lparr>current_gpfifo_count := 1, available_push_infos := [1..<32]\<rparr>"

definition pushing_system :: sample where
  "pushing_system = started_system\<lparr>sys_chans := (sys_chans started_system)(0 := pushing_channel\<lparr>push_infos := (push_infos pushing_channel)(0 := push_infos pushing_channel 0)\<rparr>),
     sys_pushes := [(0, Some 0, first_push)]\<rparr>"

definition submitted_system :: sample where
  "submitted_system = (case uvm_channel_end_push 0 0 first_push 0 4 pushing_channel claimed_pb of (v, ch, pb) \<Rightarrow>
     pushing_system\<lparr>sys_chans := (sys_chans pushing_system)(0 := ch), sys_pb := pb, sys_pushes := []\<rparr>)"

lemma idle_channel_eq: "idle_channel = new_channel False 32 \<lparr>semaphore = sem5, completed_value = 0, queued_value = 0\<rparr>"
proof -
  have "\<exists>k\<in>{0..<64 :: nat}. (32 :: nat) = 2 ^ k" by (rule bexI[of _ 5]) simp_all
  then have "conf_num_gpfifo_entries 32 = 32"
    by (simp add: conf_num_gpfifo_entries_def Let_def UVM_CHANNEL_NUM_GPFIFO_ENTRIES_MIN_def UVM_CHANNEL_NUM_GPFIFO_ENTRIES_MAX_def)
  then show ?thesis by (simp add: idle_channel_def idle_system_def initial_system_def)
qed

lemma initial_sema_eq: "concurrent_pushes_sema initial_pushbuffer = UVM_PUSHBUFFER_CHUNKS" by (simp add: initial_pushbuffer_def)

lemma first_push_claims: "try_claim_chunk 7 (initial_pushbuffer\<lparr>concurrent_pushes_sema := UVM_PUSHBUFFER_CHUNKS - 1\<rparr>) = (Some 0, claimed_pb)" "next_push_start (chunks claimed_pb 0) = 0"
proof -
  have "find_first_bit {..<UVM_PUSHBUFFER_CHUNKS} UVM_PUSHBUFFER_CHUNKS = 0" by (rule find_first_bit_eq) (simp_all add: UVM_PUSHBUFFER_CHUNKS_def)
  then show "try_claim_chunk 7 (initial_pushbuffer\<lparr>concurrent_pushes_sema := UVM_PUSHBUFFER_CHUNKS - 1\<rparr>) = (Some 0, claimed_pb)" "next_push_start (chunks claimed_pb 0) = 0"
    by (simp_all add: claimed_pb_def try_claim_chunk_def pick_chunk_def get_chunk_in_mask_def Let_def initial_pushbuffer_def UVM_PUSHBUFFER_CHUNKS_def)
qed

lemma reserved_reachable: "channels_reachable base_va reserved_system"
  unfolding reserved_system_def
proof (rule channels_reachable.Step[OF _ channel_step.Reserve])
  show "channels_reachable base_va idle_system" unfolding idle_system_def by (rule channels_reachable.Start)
  show "try_claim_channel 1 (sys_chans idle_system 0) = (True, idle_channel\<lparr>current_gpfifo_count := 1\<rparr>)"
    unfolding idle_channel_def[symmetric]
    by (simp add: idle_channel_eq try_claim_channel_def try_claim_channel_locked_def channel_get_available_gpfifo_entries_def new_channel_def)
qed

lemma started_reachable: "channels_reachable base_va started_system"
proof -
  have pb: "sys_pb reserved_system = initial_pushbuffer" "sys_pushes reserved_system = []" "sys_chans reserved_system 0 = idle_channel\<lparr>current_gpfifo_count := 1\<rparr>"
    by (simp_all add: reserved_system_def idle_system_def initial_system_def)
  have "channel_step base_va reserved_system (reserved_system\<lparr>sys_pb := claimed_pb,
      sys_pushes := (0, None, first_push\<lparr>push_begin := chunk_get_offset 0 + next_push_start (chunks claimed_pb 0)\<rparr>) # sys_pushes reserved_system\<rparr>)"
    by (rule channel_step.Claim_chunk) (use first_push_claims(1) in \<open>simp_all add: pb initial_sema_eq first_push_def UVM_PUSHBUFFER_CHUNKS_def\<close>)
  then show ?thesis using channels_reachable.Step[OF reserved_reachable] by (simp add: started_system_def pb first_push_claims(2) chunk_get_offset_def first_push_def)
qed

lemma pushing_reachable: "channels_reachable base_va pushing_system"
proof -
  have s: "sys_pushes started_system = [] @ (0, None, first_push) # []" "sys_chans started_system 0 = idle_channel\<lparr>current_gpfifo_count := 1\<rparr>"
    by (simp_all add: started_system_def reserved_system_def)
  have "channel_get_available_push_info_index (sys_chans started_system 0) = Some (0, pushing_channel)"
    by (simp add: s(2) channel_get_available_push_info_index_def idle_channel_eq new_channel_def pushing_channel_def upt_rec)
  from channels_reachable.Step[OF started_reachable channel_step.Take_info[OF s(1) this, where info = "push_infos pushing_channel 0"]] show ?thesis by (simp add: pushing_system_def)
qed

lemma submitted_reachable: "channels_reachable 0 submitted_system"
proof -
  obtain v ch pb where run: "uvm_channel_end_push 0 0 first_push 0 4 pushing_channel claimed_pb = (v, ch, pb)" by (metis prod_cases3)
  have s: "sys_pushes pushing_system = [] @ (0, Some 0, first_push) # []" "sys_chans pushing_system 0 = pushing_channel" "sys_pb pushing_system = claimed_pb"
    by (simp_all add: pushing_system_def started_system_def)
  have "unat (queued_value (tracking_sem (sys_chans pushing_system 0))) + 1 < 2 ^ 64" by (simp add: s pushing_channel_def idle_channel_eq new_channel_def)
  from channels_reachable.Step[OF pushing_reachable channel_step.End_push[OF s(1) _ _ this, of 4 0, unfolded s(2,3), OF _ _ run]] show ?thesis
    by (simp add: submitted_system_def run UVM_MAX_PUSH_SIZE_def)
qed

lemma submitted_eq: "sys_reached submitted_system 0 = 0" "tracking_sem (sys_chans submitted_system 0) = \<lparr>semaphore = sem5, completed_value = 0, queued_value = 1\<rparr>"
    "map (tracking_semaphore_value \<circ> snd) (pending_entries (sys_chans submitted_system 0)) = [1]" "num_gpfifo_entries (sys_chans submitted_system 0) = 32"
  by (simp_all add: submitted_system_def uvm_channel_end_push_def pushing_system_def started_system_def reserved_system_def idle_system_def initial_system_def pushing_channel_def
    idle_channel_eq new_channel_def internal_channel_submit_work_def pending_entries_def ring_slots_def ring_count_def Let_def)

lemma submitted_pending: obtains e where "pending_entries (sys_chans submitted_system 0) = [(0, e)]"
  by (simp add: submitted_system_def uvm_channel_end_push_def pushing_system_def pushing_channel_def
    idle_channel_eq new_channel_def internal_channel_submit_work_def pending_entries_def ring_slots_def ring_count_def Let_def)

theorem gpfifo_ring_safe_witness:
  "cpu_put (sys_chans started_system 0) < 32 \<and> channel_get_available_push_info_index (sys_chans started_system 0) \<noteq> None"
proof -
  have "num_gpfifo_entries (sys_chans started_system 0) = 32" "(0, None, first_push) \<in> set (sys_pushes started_system)"
    by (simp_all add: started_system_def reserved_system_def idle_channel_eq new_channel_def)
  then show ?thesis using gpfifo_ring_safe[OF started_reachable refl, of 0 first_push 0] by simp
qed

theorem unfinished_push_safe_witness:
  "\<exists>i e. (i, e) \<in> set (pending_entries (sys_chans submitted_system 0)) \<and> entry_type e = UVM_GPFIFO_ENTRY_TYPE_NORMAL \<and> tracking_semaphore_value e = 1 \<and>
    {entry_offset e..<entry_offset e + entry_size e} \<subseteq> pending_bytes (sys_pb submitted_system)"
  using unfinished_push_safe[OF submitted_reachable, of 0 1] submitted_eq by auto

theorem uvm_channel_update_progress_exact_witness:
  "\<exists>events ch' pb'. uvm_channel_update_progress_with_max 0 8 UVM_CHANNEL_UPDATE_MODE_COMPLETED (memory_with 0) (sys_chans submitted_system 0) (sys_pb submitted_system) = (1, events, ch', pb') \<and>
     completed_value (tracking_sem ch') = 0"
proof -
  obtain pending events ch' pb' where run: "uvm_channel_update_progress_with_max 0 8 UVM_CHANNEL_UPDATE_MODE_COMPLETED (memory_with 0) (sys_chans submitted_system 0) (sys_pb submitted_system)
      = (pending, events, ch', pb')" by (metis prod_cases4)
  have "semaphore_reads (memory_with 0) (tracking_sem (sys_chans submitted_system 0)) (sys_reached submitted_system 0)" using memory_with_reads(1)[of 0] by (simp add: submitted_eq(1))
  note P = uvm_channel_update_progress_exact[OF submitted_reachable this run]
  obtain e where e: "pending_entries (sys_chans submitted_system 0) = [(0, e)]" by (rule submitted_pending)
  then have "tracking_semaphore_value e = 1" using submitted_eq(3) by simp
  then show ?thesis using P run by (simp add: e submitted_eq(1))
qed

theorem uvm_channel_wait_returns_witness:
  "\<exists>ch' pb'. uvm_channel_wait 33 0 (\<lambda>j. memory_with (if j = 0 then 0 else 1)) (\<lambda>_. NV_OK) (\<lambda>_. NV_OK) (\<lambda>_ st. st) (sys_chans submitted_system 0) (sys_pb submitted_system) =
     Some (NV_OK, ch', pb') \<and> pending_entries ch' = []"
proof (rule uvm_channel_wait_returns[OF submitted_reachable refl, where v = "\<lambda>j. if j = 0 then 0 else 1" and J = 1])
  have "semaphore_reads (memory_with (if j = 0 then 0 else 1)) ts (if j = 0 then 0 else 1)" for j :: nat and ts
    using memory_with_reads(1)[of 0 ts] memory_with_reads(1)[of 1 ts] by simp
  then show "gpu_finishes (\<lambda>j. memory_with (if j = 0 then 0 else 1)) (\<lambda>j. if j = 0 then 0 else 1) 1 (semaphore (tracking_sem (sys_chans submitted_system 0)))
      (queued_value (tracking_sem (sys_chans submitted_system 0)))"
    by (auto simp: gpu_finishes_def memory_with_reads(2) submitted_eq(2) mono_def)
  show "\<forall>x\<in>set (pending_entries (sys_chans submitted_system 0)). tracking_semaphore_value (snd x) \<le> queued_value (tracking_sem (sys_chans submitted_system 0))"
    using submitted_eq(2,3) by (auto simp: map_eq_Cons_conv)
qed (simp_all add: submitted_eq)

text \<open>A ring of two entries with one push pending, which the GPU completes after the error.\<close>

definition pending_entry :: gpfifo_entry where "pending_entry = zero_entry\<lparr>tracking_semaphore_value := 1, entry_size := 4\<rparr>"

definition full_channel :: "(unit, nat) uvm_channel" where
  "full_channel = (new_channel False 2 \<lparr>semaphore = sem5, completed_value = 0, queued_value = 1\<rparr>)\<lparr>gpfifo_entries := [pending_entry, zero_entry], cpu_put := 1, available_push_infos := [1]\<rparr>"

definition drained_channel :: "(unit, nat) uvm_channel" where
  "drained_channel = full_channel\<lparr>gpu_get := 1, available_push_infos := [1, 0], tracking_sem := \<lparr>semaphore = sem5, completed_value = 1, queued_value = 1\<rparr>\<rparr>"

lemma memory_with_update: "uvm_channel_update_completed_value (memory_with p) ch =
    (let v = widen_payload (completed_value (tracking_sem ch)) p in (v, ch\<lparr>tracking_sem := (tracking_sem ch)\<lparr>completed_value := v\<rparr>\<rparr>))"
  by (simp add: uvm_channel_update_completed_value_def memory_with_def uvm_gpu_tracking_semaphore_update_completed_value_def update_completed_value_locked_def gpu_semaphore_pool_is_secure_def
    debug_global_def uvm_gpu_semaphore_get_payload_def zero_page_def Let_def)

lemmas small_ring = full_channel_def drained_channel_def pending_entry_def zero_entry_def new_channel_def memory_with_update
  uvm_channel_update_progress_def channel_update_progress_all_def uvm_channel_update_progress_with_max_def pending_gpfifo_count_def widen_payload_def numeral_eq_Suc

lemma small_ring_run:
  "uvm_channel_update_progress c (memory_with 0) full_channel pb = (1, [], full_channel, pb)"
  "channel_update_progress_all c UVM_CHANNEL_UPDATE_MODE_COMPLETED (memory_with 1) full_channel pb = (0, [], drained_channel, complete_gpfifo (pb_entry c 0 pending_entry) pb)"
  "uvm_channel_update_progress c (memory_with 1) drained_channel pb = (0, [], drained_channel, pb)"
  by (simp_all add: small_ring uvm_pushbuffer_mark_completed_def run_on_complete_def Let_def fun_upd_idem)

lemma small_ring_available: "channel_get_available_gpfifo_entries full_channel = 0" "channel_get_available_gpfifo_entries drained_channel = 1"
  by (simp_all add: channel_get_available_gpfifo_entries_def full_channel_def drained_channel_def new_channel_def)

lemma uvm_channel_reserve_leaks_entries_witness:
  "\<exists>ch' pb'. uvm_channel_reserve (Suc (Suc 0)) 0 (\<lambda>j. memory_with (if j = 0 then 0 else 1)) (\<lambda>_. NV_ERR_RC_ERROR) (\<lambda>_ st. st) 1 full_channel (initial_pushbuffer :: (nat \<times> nat, nat) pushbuffer) =
     Some (NV_ERR_RC_ERROR, ch', pb') \<and> current_gpfifo_count ch' = 1"
proof -
  let ?pb = "initial_pushbuffer :: (nat \<times> nat, nat) pushbuffer"
  have "try_claim_channel 1 full_channel = (False, full_channel)" by (simp add: try_claim_channel_def try_claim_channel_locked_def small_ring_available)
  moreover have "channel_check_errors NV_ERR_RC_ERROR 0 (memory_with 1) full_channel ?pb = (NV_ERR_RC_ERROR, [], drained_channel, complete_gpfifo (pb_entry 0 0 pending_entry) ?pb)"
    by (simp add: channel_check_errors_def uvm_channel_get_first_pending_entry_def small_ring_run)
  moreover have "current_gpfifo_count drained_channel = 0" by (simp add: drained_channel_def full_channel_def new_channel_def)
  ultimately show ?thesis
    using uvm_channel_reserve_leaks_entries[of 1 full_channel 0 "\<lambda>j. memory_with (if j = 0 then 0 else 1)" ?pb _ _ full_channel ?pb "\<lambda>_. NV_ERR_RC_ERROR" NV_ERR_RC_ERROR "\<lambda>_ st. st" "[]"
        drained_channel "complete_gpfifo (pb_entry 0 0 pending_entry) ?pb" 0 "[]" drained_channel "complete_gpfifo (pb_entry 0 0 pending_entry) ?pb" 0]
    by (fastforce simp: small_ring_run small_ring_available)
qed

end
