(* ===== verification/Spec2Isabelle.thy ===== *)
theory Spec2Isabelle
  imports Range_Allocator Dma_Buffer_Pool Perf_Prefetch Range_Vec_Writes Pmm_Runs Channel_Runs
begin

text \<open>
  Verification of the core of the unified memory driver in
  \<^verbatim>\<open>src/nvidia-550.163.01/nvidia-uvm\<close>.

  \<^bold>\<open>The program.\<close> The driver gives the CPU and the GPUs one virtual address space. Its
  bookkeeping of address ranges (range trees, range allocator) says what is mapped where; page faults
  lead to migrations, which the tree-based prefetcher enlarges; page tables are written in the
  format of the GPU generation (the MMU HAL), and stale translations are removed by TLB batches. All work for
  a GPU is a push: bytes in a chunk of the pushbuffer, submitted on a channel. Channels report completion through
  tracking semaphores, and trackers collect the (channel, value) pairs an operation waits for. The memory of a GPU comes from its physical
  memory manager, in chunks that are split and merged. With confidential computing, data passes
  through DMA buffers, each with a tracker of the work that still uses it.

  \<^bold>\<open>Theories.\<close>
  \<^item> \<^verbatim>\<open>Uvm_Prelude\<close>: integer types, status codes, helpers of \<^verbatim>\<open>uvm_common.h\<close>, facts about words and lists.
  \<^item> \<^verbatim>\<open>Range_Tree\<close> (\<^verbatim>\<open>uvm_range_tree.c/.h\<close>): nodes are addresses in a store, the
    red-black tree is a binary tree whose rebalancing is the parameter \<open>rb_ops\<close>, and the list of nodes is kept next to it. The
    invariant \<open>rt_invar\<close> says that tree and list agree, ranges are disjoint and sorted. Insertion, lookup,
    iteration, splitting, merging, shrinking, removal and holes are proved against the set of covered addresses, through the locale
    \<open>address_ranges\<close>.
  \<^item> \<^verbatim>\<open>Range_Allocator\<close> (\<^verbatim>\<open>uvm_range_allocator.c/.h\<close>): first fit over a range tree of free ranges; allocation is
    complete (with memory for its node, it finds an aligned run when there is one) and freeing coalesces.
  \<^item> \<^verbatim>\<open>Gpu_Semaphore\<close> (\<^verbatim>\<open>uvm_gpu_semaphore.c/.h\<close>): semaphore pools and canaries, the widening of
    32 bit payloads to 64 bit values, and the refresh of encrypted payloads, whose reads race
    with a GPU that follows the notifier protocol (a step relation).
  \<^item> \<^verbatim>\<open>Tracker\<close> (\<^verbatim>\<open>uvm_tracker.c/.h\<close>): what a tracker needs of a channel is the locale \<open>completion_source\<close>, extended
    by \<open>live_source\<close> for termination, and interpreted on the channels' tracking semaphores.
  \<^item> \<^verbatim>\<open>Tracker_Progress\<close>: for users of trackers, that a global error lasts (the locale \<open>sticky_source\<close>) and that the waits of trackers return.
  \<^item> \<^verbatim>\<open>Dma_Buffer_Pool\<close> (\<^verbatim>\<open>uvm_conf_computing.c/.h\<close>): the buffers in which encrypted data is exchanged with a GPU, and the initialisation of a GPU for
    confidential computing. In a step relation of allocating, pushing, freeing, synchronising and progress of the channels, a buffer is handed out only when the GPU
    work on it has completed (unless a global error was set), no buffer or memory is lost, and an allocation and the tear-down return.
  \<^item> \<^verbatim>\<open>Pushbuffer\<close> (\<^verbatim>\<open>uvm_pushbuffer.c/.h\<close>): chunks as ring buffers; a step relation of
    claiming, ending and completing pushes and its reachable states.
  \<^item> \<^verbatim>\<open>Perf_Prefetch\<close> (\<^verbatim>\<open>uvm_perf_prefetch.c/.h\<close>, \<^verbatim>\<open>uvm_perf_utils.h\<close>, helpers of \<^verbatim>\<open>uvm_va_block.h\<close>): the
    density tree, prefetch regions and hints.
  \<^item> \<^verbatim>\<open>Mmu_Hal\<close> (\<^verbatim>\<open>uvm_pascal_mmu.c\<close> to \<^verbatim>\<open>uvm_hopper_mmu.c\<close>): entry formats, proved against
    decoders of the hardware fields through the locale \<open>pte_format\<close>, interpreted on four generations.
  \<^item> \<^verbatim>\<open>Tlb_Batch\<close> (\<^verbatim>\<open>uvm_tlb_batch.c/.h\<close>): batches of invalidates, proved to implement an abstract
    specification and to leave no stale translation as long as the 32 bit count of its pages does not wrap; an example shows
    that a wrapped count makes it miss a range.
  \<^item> \<^verbatim>\<open>Copy_Engine\<close> (\<^verbatim>\<open>uvm_maxwell_ce.c\<close>, \<^verbatim>\<open>uvm_volta_ce.c\<close>, \<^verbatim>\<open>uvm_hopper_ce.c\<close>, flags and membars of
    \<^verbatim>\<open>uvm_push.h\<close> and \<^verbatim>\<open>uvm_hal.h\<close>): transfers as commands with an effect on memory; the contract \<open>copy_engine\<close> is
    interpreted on the three families of GPUs.
  \<^item> \<^verbatim>\<open>Pte_Batch\<close> (\<^verbatim>\<open>uvm_pte_batch.c/.h\<close>, inline data of \<^verbatim>\<open>uvm_push.c\<close>): batches of PTE writes, proved for every
    copy engine of the contract to have the effect of the requests in order.
  \<^item> \<^verbatim>\<open>Page_Tree\<close> and \<^verbatim>\<open>Page_Tree_Ops\<close> (\<^verbatim>\<open>uvm_mmu.c/.h\<close>): page directories are addresses in a heap, with their entries, parent and
    reference count; the invariant \<open>tree_inv\<close> relates the counts to the children and to the PTE ranges held by the users. Getting PTEs drops the lock to
    allocate and starts again; what other threads may do meanwhile is the locale \<open>page_tree_threads\<close>, and what the tree needs of
    a page table format is the locale \<open>page_geometry\<close>, interpreted on the formats of \<^verbatim>\<open>Mmu_Hal\<close>. Getting returns after at most one
    attempt per level, putting leaves exactly the directories still needed, and a get undone by a put gives the heap back.
  \<^item> \<^verbatim>\<open>Range_Vec\<close> and \<^verbatim>\<open>Range_Vec_Writes\<close> (\<^verbatim>\<open>uvm_mmu.c\<close>, \<^verbatim>\<open>uvm_page_table_range_vec_*\<close>): the PTEs of a VA range of any size. The parts computed are a partition
    of the range along the page tables; creating a vector holds exactly the PTEs of its pages or leaves the tree as it was, apart from
    ranges whose put could not begin its push, which the code leaves in place; and writing PTEs, composed with
    \<^verbatim>\<open>Pte_Batch\<close>, \<^verbatim>\<open>Copy_Engine\<close> and \<^verbatim>\<open>Tlb_Batch\<close>, writes for each page the entry that a walk of the tree finds, before the TLBs are invalidated.
  \<^item> \<^verbatim>\<open>Pmm_Gpu\<close> (\<^verbatim>\<open>uvm_pmm_gpu.c/.h\<close>): the chunks of the memory of a GPU, their allocation with splitting, freeing with merging, lists, and root chunks.
    \<^verbatim>\<open>Pmm_Trees\<close> has the invariant: the chunks are trees below the root chunks, the counters count, every free chunk is on its list. \<^verbatim>\<open>Pmm_Chunks\<close> and \<^verbatim>\<open>Pmm_Alloc\<close> show
    what each operation does to it and to the abstract state \<open>held\<close>, the chunks in use; what is needed of the physical memory allocator and of kernel memory is the locale \<open>pmm_env\<close>.
    \<^verbatim>\<open>Pmm_Runs\<close> has the step relation and the properties: an allocation is all or nothing, a free returns and takes exactly one chunk out of use, chunks in use never overlap, and
    nothing is leaked.
  \<^item> \<^verbatim>\<open>Channel_Gpfifo\<close> and \<^verbatim>\<open>Channel_Runs\<close> (\<^verbatim>\<open>uvm_channel.c/.h\<close>): the ring of GPFIFO entries of a channel, reservations, submission, progress and waiting. A step relation
    composes any number of channels with one pushbuffer of \<^verbatim>\<open>Pushbuffer\<close>, the tracking semaphores of \<^verbatim>\<open>Gpu_Semaphore\<close> and a GPU that advances them. In every reachable state a
    ring keeps one entry free and agrees with the GPFIFO of the hardware, and nothing the GPU may still read is overwritten. The 32 bits of the payload are enough to know the progress, because the
    ring bounds it, and waiting returns once the GPU has done its work.

  \<^bold>\<open>Conventions.\<close> Structures are records, pointers into shared memory are addresses of a type variable with an
  explicit store, and errors are the values of \<open>NV_STATUS\<close>. Locks make the operations they protect
  atomic. A request for kernel memory is an argument that holds its outcome, and a read of memory that the GPU or another
  CPU writes is an argument or a step of the environment. \<^verbatim>\<open>UVM_ASSERT\<close> has no effect in a release build and is not a
  branch of the model; that assertions hold is proved where it matters. Integers are words where they may
  wrap; page indices, offsets in a pushbuffer and array sizes are natural numbers, since their invariants bound
  them.

  \<^bold>\<open>Loops.\<close> Loops over lists and trees are structural recursions. A loop that waits for another agent runs on
  fuel or on the list of observations made; the termination properties give the amount that
  is enough. The attempts of getting PTEs run on \<open>Suc MAX_OPERATION_DEPTH\<close> fuel, one for each level and the last one; the way up of putting PTEs
  on the level of the directory. Freeing a chunk merges at most once for each of the 22 sizes, and releasing root chunks ends after as many rounds as there are root chunks. Waiting for a
  channel takes at most as many rounds as the GPU needs to finish and one more for each entry of the ring.

  \<^bold>\<open>Not modelled.\<close> The GPU method encodings of the host and copy engine HALs, the resource manager and the Linux kernel
  (parameters or outcomes as arguments), and so far the VA block state machine, fault servicing, the creation of pools of channels with the choice of copy engines, and the encryption, secure submission and key rotation of confidential computing. Of the page trees, the GPU writes of directory entries (of \<^verbatim>\<open>map_remap\<close> only its test and its outcome are modelled), the initialisation of a tree, identity
  mappings and the clearing of the PTEs of a vector are left out. Of the memory manager, eviction, splitting and merging in place for VA blocks, indirect peers, device private pages
  and the entries of the trackers of root chunks are left out, and its calls run one after the other.
\<close>

end
